(* ===== verification/Prelude.thy ===== *)
theory Prelude
  imports Main "HOL-Library.Word"
begin

unbundle bit_operations_syntax

text \<open>
  Shared vocabulary of the Katela development: the C integer types as words, memory regions as
  byte lists with an explicit write operation, and the list and word facts the component
  theories use.

  A pointer to a byte buffer is modelled by the list of bytes from the pointed-to location on:
  reading \<open>p[i]\<close> is \<open>p ! i\<close>, the pointer \<open>p + k\<close> is \<open>drop k p\<close>, and writing the
  bytes \<open>xs\<close> at \<open>p + k\<close> is \<open>write_at p k xs\<close>.  A C \<open>unsigned int\<close> is a
  \<open>32 word\<close>, so that sums and differences wrap as they do in the program.
\<close>

type_synonym u8 = "8 word"
type_synonym u16 = "16 word"
type_synonym u32 = "32 word"

named_theorems layout_simps \<open>facts that merge a sequence of buffer writes into one\<close>
named_theorems word_bridge \<open>facts that move word arithmetic to natural numbers\<close>


section \<open>Buffers\<close>

definition write_at :: "'a list \<Rightarrow> nat \<Rightarrow> 'a list \<Rightarrow> 'a list" where
  "write_at buf off xs = take off buf @ xs @ drop (off + length xs) buf"

definition chunk :: "'a list \<Rightarrow> nat \<Rightarrow> nat \<Rightarrow> 'a list" where
  "chunk buf off n = take n (drop off buf)"

lemma length_write_at [simp]:
  "off + length xs \<le> length buf \<Longrightarrow> length (write_at buf off xs) = length buf"
  by (simp add: write_at_def)

lemma write_at_Nil [simp]: "write_at buf off [] = buf"
  by (simp add: write_at_def)

lemma nth_write_at:
  assumes "off + length xs \<le> length buf" "i < length buf"
  shows "write_at buf off xs ! i =
    (if off \<le> i \<and> i < off + length xs then xs ! (i - off) else buf ! i)"
  using assms by (auto simp: write_at_def nth_append min_def not_less)

lemma take_write_at_before:
  "n \<le> off \<Longrightarrow> off \<le> length buf \<Longrightarrow> take n (write_at buf off xs) = take n buf"
  by (simp add: write_at_def min_def)

lemma drop_write_at_after:
  assumes "off + length xs \<le> n" "off \<le> length buf"
  shows "drop n (write_at buf off xs) = drop n buf"
proof -
  have "drop n (write_at buf off xs) = drop (n - off - length xs) (drop (off + length xs) buf)"
    using assms by (simp add: write_at_def)
  also have "\<dots> = drop n buf"
    using assms by (simp add: add.commute)
  finally show ?thesis .
qed

lemma write_at_adjacent [layout_simps]:
  assumes "b = a + length xs" "a \<le> length buf"
  shows "write_at (write_at buf a xs) b ys = write_at buf a (xs @ ys)"
  using assms by (simp add: write_at_def add.commute add.left_commute)

lemma write_at_inside:
  assumes "a \<le> b" "b + length ys \<le> a + length xs" "a \<le> length buf"
  shows "write_at (write_at buf a xs) b ys = write_at buf a (write_at xs (b - a) ys)"
proof -
  have "take b (write_at buf a xs) = take a buf @ take (b - a) xs"
    using assms by (simp add: write_at_def)
  moreover have "drop (b + length ys) (write_at buf a xs) =
      drop (b + length ys - a) xs @ drop (a + length xs) buf"
    using assms by (simp add: write_at_def)
  ultimately show ?thesis
    using assms by (simp add: write_at_def[of _ b] write_at_def[of buf] write_at_def[of xs])
qed

lemma write_at_0_take:
  "n = length xs \<Longrightarrow> take n (write_at buf 0 xs) = xs"
  by (simp add: write_at_def)

lemma chunk_write_at_same:
  "off \<le> length buf \<Longrightarrow> n = length xs \<Longrightarrow> chunk (write_at buf off xs) off n = xs"
  by (simp add: chunk_def write_at_def)

lemma chunk_write_at_disjoint:
  assumes "off + length xs \<le> length buf" "a + n \<le> off \<or> off + length xs \<le> a"
  shows "chunk (write_at buf off xs) a n = chunk buf a n"
proof (cases "a + n \<le> off")
  case True
  have "take n (drop a (write_at buf off xs)) = drop a (take (a + n) (write_at buf off xs))"
    by (simp add: drop_take)
  also have "\<dots> = drop a (take (a + n) buf)"
    using True assms by (simp add: take_write_at_before)
  finally show ?thesis by (simp add: chunk_def drop_take)
next
  case False
  then show ?thesis using assms by (simp add: chunk_def drop_write_at_after)
qed

lemma length_chunk [simp]: "off + n \<le> length buf \<Longrightarrow> length (chunk buf off n) = n"
  by (simp add: chunk_def)

lemma nth_chunk: "off + n \<le> length buf \<Longrightarrow> i < n \<Longrightarrow> chunk buf off n ! i = buf ! (off + i)"
  by (simp add: chunk_def)

lemma chunk_0 [simp]: "chunk buf 0 n = take n buf"
  by (simp add: chunk_def)

lemma region_split: "take r data = xs \<Longrightarrow> data = xs @ drop r data"
  by (metis append_take_drop_id)

lemma nth_append_left: "i < length xs \<Longrightarrow> (xs @ ys) ! i = xs ! i"
  by (simp add: nth_append)

text \<open>\<open>at b i e\<close>: the bytes \<open>e\<close> stand at position \<open>i\<close> of \<open>b\<close>.\<close>

definition at :: "'a list \<Rightarrow> nat \<Rightarrow> 'a list \<Rightarrow> bool" where
  "at b i e \<longleftrightarrow> i + length e \<le> length b \<and> chunk b i (length e) = e"

lemma at_append: "at b i (e @ f) \<longleftrightarrow> at b i e \<and> at b (i + length e) f"
  unfolding at_def chunk_def length_append take_add[of "length e"] drop_drop
  by (auto simp: add.commute add.left_commute)

lemma at_Nil [simp]: "at b i [] \<longleftrightarrow> i \<le> length b"
  by (simp add: at_def chunk_def)

lemma at_Cons: "at b i (x # e) \<longleftrightarrow> i < length b \<and> b ! i = x \<and> at b (i + 1) e"
proof -
  have "at b i [x] \<longleftrightarrow> i < length b \<and> b ! i = x"
    by (auto simp: at_def chunk_def Cons_nth_drop_Suc[symmetric])
  then show ?thesis using at_append[of b i "[x]" e] by simp
qed

lemma at_take: "at b i e \<Longrightarrow> take (length e) (drop i b) = e"
  by (simp add: at_def chunk_def)


section \<open>Words\<close>

lemma unat_le_32 [word_bridge]: "(x::u32) \<le> y \<longleftrightarrow> unat x \<le> unat y"
  by (simp add: word_le_nat_alt)

lemma unat_less_32 [word_bridge]: "(x::u32) < y \<longleftrightarrow> unat x < unat y"
  by (simp add: word_less_nat_alt)

lemma unat_u32_lt [simp]: "unat (x::u32) < 4294967296"
  using unsigned_less[of x] by simp

lemma unat_u16_lt [simp]: "unat (x::u16) < 65536"
  using unsigned_less[of x] by simp

lemma unat_u8_lt [simp]: "unat (x::u8) < 256"
  using unsigned_less[of x] by simp

lemma unat_add_u32 [word_bridge]:
  "unat (x + y :: u32) = (unat x + unat y) mod 4294967296"
  by (simp add: unat_word_ariths)

lemma unat_of_nat_u32: "n < 4294967296 \<Longrightarrow> unat (of_nat n :: u32) = n"
  by (simp add: unsigned_of_nat take_bit_eq_mod)

lemma of_nat_unat_eq: "unat (x::u32) = n \<Longrightarrow> x = of_nat n"
  by auto

lemma unat_add_u32_small:
  "unat x + unat y < 4294967296 \<Longrightarrow> unat (x + y :: u32) = unat x + unat y"
  by (simp add: unat_word_ariths)

lemma unat_sub_u32:
  "unat y \<le> unat x \<Longrightarrow> unat (x - y :: u32) = unat x - unat y"
  by (simp add: unat_sub word_le_nat_alt)

lemma unat_ucast_u8_u32 [simp]: "unat (ucast (b::u8) :: u32) = unat b"
  using unat_u8_lt[of b] by (simp add: unsigned_ucast_eq take_bit_eq_mod del: unat_u8_lt)

lemma unat_ucast_u16_u32 [simp]: "unat (ucast (b::u16) :: u32) = unat b"
  using unat_u16_lt[of b] by (simp add: unsigned_ucast_eq take_bit_eq_mod del: unat_u16_lt)

lemma ucast_u8_u32_u8 [simp]: "ucast (ucast (b::u8) :: u32) = b"
  by (rule bit_word_eqI) (auto simp: bit_simps)

lemma ucast_u16_u32_u16 [simp]: "ucast (ucast (b::u16) :: u32) = b"
  by (rule bit_word_eqI) (auto simp: bit_simps)

lemma unat_ucast_u32_u16: "unat (ucast (x::u32) :: u16) = unat x mod 65536"
  by (simp add: unsigned_ucast_eq take_bit_eq_mod)

lemma unat_ucast_u32_u8: "unat (ucast (x::u32) :: u8) = unat x mod 256"
  by (simp add: unsigned_ucast_eq take_bit_eq_mod)

lemma unat_ucast_u16_u8: "unat (ucast (x::u16) :: u8) = unat x mod 256"
  by (simp add: unsigned_ucast_eq take_bit_eq_mod)

lemma unat_drop_bit: "unat (drop_bit n (x::'a::len word)) = unat x div 2 ^ n"
  by (simp only: unat_drop_bit_eq) (simp add: drop_bit_eq_div)

text \<open>The masks the sources write as literals, for bit-level proofs.\<close>

lemma mask_literals:
  "(0xFF::u32) = mask 8" "(0xFF00::u32) = push_bit 8 (mask 8)"
  "(0xFF0000::u32) = push_bit 16 (mask 8)" "(0xFF000000::u32) = push_bit 24 (mask 8)"
  "(0xFFFF::u32) = mask 16" "(0x3F::u32) = mask 6" "(0x0F::u32) = mask 4" "(0x0F::u8) = mask 4"
  by (simp_all add: mask_eq_exp_minus_1 push_bit_eq_mult)

lemma xor_eq_0_iff_word [simp]: "(a XOR b = (0::'a::len word)) \<longleftrightarrow> a = b"
proof
  assume "a XOR b = 0"
  then have "(a XOR b) XOR b = b" by simp
  then show "a = b" by (simp add: xor.assoc)
qed simp

end
