(* ===== verification/Mem.thy ===== *)
theory Mem
  imports Prelude
begin

text \<open>
  The freestanding memory and string routines of \<open>src/kernel/mem.c\<close>.

  Source and destination of \<open>memcpy\<close>, \<open>memmove\<close> and \<open>strcpy\<close> may alias, so these act on
  one flat memory (a byte list) with the pointers as indices into it.  Each C loop is a recursive
  function over the loop counter.  The string routines run until a NUL byte: they return
  \<open>None\<close> when the memory ends before one is found, where the C code would read on.
\<close>

section \<open>Definitions\<close>

function copy_forward :: "u8 list \<Rightarrow> nat \<Rightarrow> nat \<Rightarrow> nat \<Rightarrow> nat \<Rightarrow> u8 list" where
  "copy_forward mem dest src i count =
     (if i < count then copy_forward (mem[dest + i := mem ! (src + i)]) dest src (i + 1) count
      else mem)"
  by pat_completeness auto
termination
  by (relation "measure (\<lambda>(mem, dest, src, i, count). count - i)") auto

primrec copy_backward :: "u8 list \<Rightarrow> nat \<Rightarrow> nat \<Rightarrow> nat \<Rightarrow> u8 list" where
  "copy_backward mem dest src 0 = mem"
| "copy_backward mem dest src (Suc i) =
     copy_backward (mem[dest + i := mem ! (src + i)]) dest src i"

definition memcpy :: "u8 list \<Rightarrow> nat \<Rightarrow> nat \<Rightarrow> u32 \<Rightarrow> u8 list" where
  "memcpy mem dest src count = copy_forward mem dest src 0 (unat count)"

definition memmove :: "u8 list \<Rightarrow> nat \<Rightarrow> nat \<Rightarrow> u32 \<Rightarrow> u8 list" where
  "memmove mem dest src count =
     (if dest < src then copy_forward mem dest src 0 (unat count)
      else copy_backward mem dest src (unat count))"

function fill_forward :: "u8 list \<Rightarrow> nat \<Rightarrow> u8 \<Rightarrow> nat \<Rightarrow> nat \<Rightarrow> u8 list" where
  "fill_forward mem dest value i count =
     (if i < count then fill_forward (mem[dest + i := value]) dest value (i + 1) count else mem)"
  by pat_completeness auto
termination
  by (relation "measure (\<lambda>(mem, dest, value, i, count). count - i)") auto

definition memset :: "u8 list \<Rightarrow> nat \<Rightarrow> int \<Rightarrow> u32 \<Rightarrow> u8 list" where
  "memset mem dest value count = fill_forward mem dest (word_of_int value) 0 (unat count)"

function memcmp_loop :: "u8 list \<Rightarrow> u8 list \<Rightarrow> nat \<Rightarrow> nat \<Rightarrow> int" where
  "memcmp_loop a b i count =
     (if i < count then
        (if a ! i \<noteq> b ! i then uint (a ! i) - uint (b ! i) else memcmp_loop a b (i + 1) count)
      else 0)"
  by pat_completeness auto
termination
  by (relation "measure (\<lambda>(a, b, i, count). count - i)") auto

definition memcmp :: "u8 list \<Rightarrow> u8 list \<Rightarrow> u32 \<Rightarrow> int" where
  "memcmp a b count = memcmp_loop a b 0 (unat count)"

function strlen_loop :: "u8 list \<Rightarrow> nat \<Rightarrow> nat option" where
  "strlen_loop str len =
     (if len < length str then
        (if str ! len \<noteq> 0 then strlen_loop str (len + 1) else Some len)
      else None)"
  by pat_completeness auto
termination
  by (relation "measure (\<lambda>(str, len). length str - len)") auto

definition strlen :: "u8 list \<Rightarrow> nat option" where
  "strlen str = strlen_loop str 0"

function strcpy_loop :: "u8 list \<Rightarrow> nat \<Rightarrow> nat \<Rightarrow> nat \<Rightarrow> u8 list option" where
  "strcpy_loop mem dest src i =
     (if src + i < length mem \<and> dest + i < length mem then
        (if mem ! (src + i) \<noteq> 0
         then strcpy_loop (mem[dest + i := mem ! (src + i)]) dest src (i + 1)
         else Some (mem[dest + i := 0]))
      else None)"
  by pat_completeness auto
termination
  by (relation "measure (\<lambda>(mem, dest, src, i). length mem - i)") auto

definition strcpy :: "u8 list \<Rightarrow> nat \<Rightarrow> nat \<Rightarrow> u8 list option" where
  "strcpy mem dest src = strcpy_loop mem dest src 0"

fun strcmp :: "u8 list \<Rightarrow> u8 list \<Rightarrow> int option" where
  "strcmp (a # as) (b # bs) =
     (if a \<noteq> 0 \<and> a = b then strcmp as bs else Some (uint a - uint b))"
| "strcmp _ _ = None"

text \<open>The C string at a location: the bytes before the first NUL, when there is one.\<close>

definition is_cstr :: "u8 list \<Rightarrow> bool" where
  "is_cstr str \<longleftrightarrow> 0 \<in> set str"

definition cstr :: "u8 list \<Rightarrow> u8 list" where
  "cstr str = takeWhile (\<lambda>c. c \<noteq> 0) str"

declare copy_forward.simps [simp del] fill_forward.simps [simp del]
  memcmp_loop.simps [simp del] strlen_loop.simps [simp del] strcpy_loop.simps [simp del]


section \<open>Block copies\<close>

lemma length_copy_forward [simp]: "length (copy_forward mem dest src i count) = length mem"
proof (induction mem dest src i count rule: copy_forward.induct)
  case (1 mem dest src i count)
  then show ?case by (simp add: copy_forward.simps[of mem])
qed

lemma length_copy_backward [simp]: "length (copy_backward mem dest src n) = length mem"
  by (induction n arbitrary: mem) auto

lemma nth_copy_forward:
  assumes "dest + count \<le> length mem" "src + count \<le> length mem"
    and "dest \<le> src \<or> src + count \<le> dest" "k < length mem"
  shows "copy_forward mem dest src i count ! k =
    (if dest + i \<le> k \<and> k < dest + count then mem ! (src + (k - dest)) else mem ! k)"
  using assms
proof (induction mem dest src i count rule: copy_forward.induct)
  case (1 mem dest src i count)
  show ?case
  proof (cases "i < count")
    case True
    let ?m = "mem[dest + i := mem ! (src + i)]"
    have IH: "copy_forward ?m dest src (i + 1) count ! k =
        (if dest + (i + 1) \<le> k \<and> k < dest + count then ?m ! (src + (k - dest)) else ?m ! k)"
      using 1 True by simp
    have keep: "dest + (i + 1) \<le> k \<Longrightarrow> k < dest + count \<Longrightarrow> src + (k - dest) \<noteq> dest + i"
      using "1.prems"(3) by arith
    show ?thesis
    proof (cases "k = dest + i")
      case True
      then show ?thesis
        using IH "1.prems" \<open>i < count\<close> by (simp add: copy_forward.simps[of mem])
    next
      case False
      then show ?thesis
        using IH keep "1.prems" \<open>i < count\<close> by (auto simp: copy_forward.simps[of mem])
    qed
  next
    case False
    then show ?thesis by (auto simp: copy_forward.simps[of mem])
  qed
qed

lemma nth_copy_backward:
  assumes "dest + n \<le> length mem" "src + n \<le> length mem" "src \<le> dest" "k < length mem"
  shows "copy_backward mem dest src n ! k =
    (if dest \<le> k \<and> k < dest + n then mem ! (src + (k - dest)) else mem ! k)"
  using assms
proof (induction n arbitrary: mem)
  case 0
  then show ?case by auto
next
  case (Suc n)
  let ?m = "mem[dest + n := mem ! (src + n)]"
  have IH: "copy_backward ?m dest src n ! k =
      (if dest \<le> k \<and> k < dest + n then ?m ! (src + (k - dest)) else ?m ! k)"
    using Suc by simp
  have keep: "dest \<le> k \<Longrightarrow> k < dest + n \<Longrightarrow> src + (k - dest) \<noteq> dest + n"
    using Suc.prems(3) by arith
  show ?case
    using IH keep Suc.prems by (cases "k = dest + n") auto
qed

text \<open>The block written by a copy, as one buffer write of the original source bytes.\<close>

lemma copied_block_eq:
  assumes "length m' = length mem" "dest + n \<le> length mem" "src + n \<le> length mem"
    and "\<And>k. k < length mem \<Longrightarrow> m' ! k =
      (if dest \<le> k \<and> k < dest + n then mem ! (src + (k - dest)) else mem ! k)"
  shows "m' = write_at mem dest (chunk mem src n)"
proof (rule nth_equalityI)
  show "length m' = length (write_at mem dest (chunk mem src n))"
    using assms by simp
  fix k assume "k < length m'"
  then show "m' ! k = write_at mem dest (chunk mem src n) ! k"
    using assms by (auto simp: nth_write_at nth_chunk)
qed

lemma copy_forward_block:
  assumes "dest + n \<le> length mem" "src + n \<le> length mem" "dest \<le> src \<or> src + n \<le> dest"
  shows "copy_forward mem dest src 0 n = write_at mem dest (chunk mem src n)"
  using assms by (intro copied_block_eq) (auto simp: nth_copy_forward)

lemma copy_backward_block:
  assumes "dest + n \<le> length mem" "src + n \<le> length mem" "src \<le> dest"
  shows "copy_backward mem dest src n = write_at mem dest (chunk mem src n)"
  using assms by (intro copied_block_eq) (auto simp: nth_copy_backward)

text \<open>
  \<open>memmove\<close> is correct for any overlap: the destination block receives the bytes the
  source block held before the call, and no other byte changes.
\<close>

theorem memmove_correct:
  assumes "dest + unat count \<le> length mem" "src + unat count \<le> length mem"
  shows "memmove mem dest src count = write_at mem dest (chunk mem src (unat count))"
  using assms by (auto simp: memmove_def copy_forward_block copy_backward_block)

theorem memmove_correct_witness:
  "memmove [1, 2, 3, 4, 5] 1 0 3 = [1, 1, 2, 3, 5]"
  using memmove_correct[of 1 3 "[1, 2, 3, 4, 5]" 0] by (simp add: write_at_def chunk_def)

lemma memcpy_correct:
  assumes "dest + unat count \<le> length mem" "src + unat count \<le> length mem"
    and "dest \<le> src \<or> src + unat count \<le> dest"
  shows "memcpy mem dest src count = write_at mem dest (chunk mem src (unat count))"
  using assms by (simp add: memcpy_def copy_forward_block)

lemma length_fill_forward [simp]: "length (fill_forward mem dest v i count) = length mem"
proof (induction mem dest v i count rule: fill_forward.induct)
  case (1 mem dest v i count)
  then show ?case by (simp add: fill_forward.simps[of mem])
qed

lemma nth_fill_forward:
  assumes "dest + count \<le> length mem" "k < length mem"
  shows "fill_forward mem dest v i count ! k =
    (if dest + i \<le> k \<and> k < dest + count then v else mem ! k)"
  using assms
proof (induction mem dest v i count rule: fill_forward.induct)
  case (1 mem dest v i count)
  then show ?case
    by (auto simp: fill_forward.simps[of mem] nth_list_update)
qed

lemma memset_correct:
  assumes "dest + unat count \<le> length mem"
  shows "memset mem dest value count =
    write_at mem dest (replicate (unat count) (word_of_int value))"
  unfolding memset_def
proof (rule nth_equalityI)
  fix k assume "k < length (fill_forward mem dest (word_of_int value) 0 (unat count))"
  then show "fill_forward mem dest (word_of_int value) 0 (unat count) ! k =
      write_at mem dest (replicate (unat count) (word_of_int value)) ! k"
    using assms by (auto simp: nth_fill_forward nth_write_at)
qed (use assms in simp)


section \<open>Comparisons and strings\<close>

lemma memcmp_loop_zero_iff:
  "memcmp_loop a b i count = 0 \<longleftrightarrow> (\<forall>k. i \<le> k \<and> k < count \<longrightarrow> a ! k = b ! k)"
proof (induction a b i count rule: memcmp_loop.induct)
  case (1 a b i count)
  have split: "(\<forall>k. i \<le> k \<and> k < count \<longrightarrow> a ! k = b ! k) \<longleftrightarrow>
      a ! i = b ! i \<and> (\<forall>k. i + 1 \<le> k \<and> k < count \<longrightarrow> a ! k = b ! k)" if "i < count"
    using that by (metis Suc_eq_plus1 Suc_leI le_neq_implies_less le_refl order.trans le_add1)
  show ?case
    using 1 split by (auto simp: memcmp_loop.simps[of a] word_uint_eq_iff)
qed

lemma memcmp_zero_iff:
  assumes "unat count \<le> length a" "unat count \<le> length b"
  shows "memcmp a b count = 0 \<longleftrightarrow> take (unat count) a = take (unat count) b"
  using assms by (auto simp: memcmp_def memcmp_loop_zero_iff list_eq_iff_nth_eq)

lemma cstr_Cons: "cstr (c # s) = (if c = 0 then [] else c # cstr s)"
  by (simp add: cstr_def)

lemma is_cstr_Cons: "is_cstr (c # s) \<longleftrightarrow> c = 0 \<or> is_cstr s"
  by (auto simp: is_cstr_def)

lemma cstr_end:
  "is_cstr s \<Longrightarrow> length (cstr s) < length s \<and> s ! length (cstr s) = 0 \<and>
    (\<forall>k<length (cstr s). s ! k \<noteq> 0)"
proof (induction s)
  case Nil
  then show ?case by (simp add: is_cstr_def)
next
  case (Cons c s)
  then show ?case
    by (auto simp: cstr_Cons is_cstr_Cons nth_Cons split: nat.splits)
qed

lemma cstr_eq_take: "is_cstr s \<Longrightarrow> cstr s = take (length (cstr s)) s"
  unfolding cstr_def by (rule takeWhile_eq_take)

lemma strlen_loop_cstr:
  "is_cstr (drop len str) \<Longrightarrow> strlen_loop str len = Some (len + length (cstr (drop len str)))"
proof (induction str len rule: strlen_loop.induct)
  case (1 str len)
  have lt: "len < length str" using "1.prems" by (cases "len < length str") (auto simp: is_cstr_def)
  then have hd: "drop len str = str ! len # drop (len + 1) str" by (simp add: Cons_nth_drop_Suc)
  show ?case
  proof (cases "str ! len = 0")
    case True
    then show ?thesis using lt by (simp add: strlen_loop.simps[of str len] hd cstr_Cons)
  next
    case False
    then have "is_cstr (drop (len + 1) str)" using "1.prems" by (simp add: hd is_cstr_Cons)
    then have "strlen_loop str (len + 1) = Some (len + 1 + length (cstr (drop (len + 1) str)))"
      using "1.IH" lt False by blast
    then show ?thesis using lt False by (simp add: strlen_loop.simps[of str len] hd cstr_Cons)
  qed
qed

lemma strlen_correct: "is_cstr str \<Longrightarrow> strlen str = Some (length (cstr str))"
  using strlen_loop_cstr[of 0 str] by (simp add: strlen_def)

lemma strcmp_returns: "is_cstr a \<Longrightarrow> is_cstr b \<Longrightarrow> \<exists>r. strcmp a b = Some r"
  by (induction a b rule: strcmp.induct) (auto simp: is_cstr_def)

text \<open>
  \<open>strcmp\<close> on two terminated strings returns, and returns 0 exactly when the strings are
  equal.
\<close>

theorem strcmp_zero_iff_equal:
  assumes "is_cstr a" "is_cstr b"
  shows "strcmp a b = Some 0 \<longleftrightarrow> cstr a = cstr b"
  using assms
proof (induction a b rule: strcmp.induct)
  case (1 a as b bs)
  then show ?case
    by (auto simp: is_cstr_def cstr_def word_uint_eq_iff)
qed (auto simp: is_cstr_def)

theorem strcmp_zero_iff_equal_witness:
  "is_cstr [104, 105, 0, 7] \<and> is_cstr [104, 105, 0] \<and>
   strcmp [104, 105, 0, 7] [104, 105, 0] = Some 0"
proof -
  have a: "is_cstr [104, 105, 0, 7]" and b: "is_cstr [104, 105, 0]"
    by (simp_all add: is_cstr_def)
  show ?thesis using strcmp_zero_iff_equal[OF a b] a b by (simp add: cstr_def)
qed

lemma strcpy_loop_correct:
  assumes "src + i + n < length mem" "dest + i + n < length mem"
    and "src + i + n < dest \<or> dest + i + n < src"
    and "mem ! (src + i + n) = 0" "\<forall>k<n. mem ! (src + i + k) \<noteq> 0"
  shows "strcpy_loop mem dest src i =
    Some (write_at mem (dest + i) (chunk mem (src + i) (n + 1)))"
  using assms
proof (induction n arbitrary: mem i)
  case 0
  then show ?case
    by (simp add: strcpy_loop.simps[of mem] write_at_def chunk_def Cons_nth_drop_Suc
        upd_conv_take_nth_drop take_Suc_conv_app_nth)
next
  case (Suc n)
  let ?m = "mem[dest + i := mem ! (src + i)]"
  have "strcpy_loop ?m dest src (i + 1) =
      Some (write_at ?m (dest + (i + 1)) (chunk ?m (src + (i + 1)) (n + 1)))"
  proof (rule Suc.IH)
    show "\<forall>k<n. ?m ! (src + (i + 1) + k) \<noteq> 0"
    proof (intro allI impI)
      fix k assume "k < n"
      moreover have "mem ! (src + i + Suc k) \<noteq> 0" using Suc.prems(5) \<open>k < n\<close> by blast
      moreover have "dest + i \<noteq> src + (i + 1) + k" using Suc.prems(3) \<open>k < n\<close> by arith
      ultimately show "?m ! (src + (i + 1) + k) \<noteq> 0" by simp
    qed
  qed (use Suc.prems in auto)
  moreover have "mem ! (src + i) \<noteq> 0" using Suc.prems(5) by force
  moreover have "write_at ?m (dest + (i + 1)) (chunk ?m (src + (i + 1)) (n + 1)) =
      write_at mem (dest + i) (chunk mem (src + i) (Suc n + 1))"
  proof (rule nth_equalityI)
    fix k assume k: "k < length (write_at ?m (dest + (i + 1)) (chunk ?m (src + (i + 1)) (n + 1)))"
    then show "write_at ?m (dest + (i + 1)) (chunk ?m (src + (i + 1)) (n + 1)) ! k =
        write_at mem (dest + i) (chunk mem (src + i) (Suc n + 1)) ! k"
      using Suc.prems by (auto simp: nth_write_at nth_chunk nth_list_update Suc_diff_Suc)
  qed (use Suc.prems in simp)
  ultimately show ?case
    using Suc.prems by (simp add: strcpy_loop.simps[of mem])
qed

text \<open>
  \<open>strcpy\<close> copies the terminated string at \<open>src\<close>, with its NUL, to a
  non-overlapping destination that has room for it, and changes nothing else.
\<close>

theorem strcpy_correct:
  assumes str: "is_cstr (drop src mem)" and n: "n = length (cstr (drop src mem))"
    and "dest + n < length mem" "src + n < dest \<or> dest + n < src"
  shows "strcpy mem dest src = Some (write_at mem dest (cstr (drop src mem) @ [0]))"
proof -
  let ?s = "drop src mem"
  have ends: "n < length ?s" "?s ! n = 0" and body: "\<forall>k<n. ?s ! k \<noteq> 0"
    using cstr_end[OF str] n by simp_all
  have "chunk mem src (n + 1) = take n ?s @ [?s ! n]"
    using ends(1) by (simp add: chunk_def take_Suc_conv_app_nth)
  then have "chunk mem src (n + 1) = cstr ?s @ [0]"
    using cstr_eq_take[OF str] ends(2) n by simp
  moreover have "strcpy_loop mem dest src 0 = Some (write_at mem dest (chunk mem src (n + 1)))"
    using strcpy_loop_correct[of src 0 n mem dest] assms(3,4) ends body by simp
  ultimately show ?thesis
    by (simp add: strcpy_def)
qed

theorem strcpy_correct_witness:
  "strcpy [104, 105, 0, 9, 9, 9, 9] 3 0 = Some [104, 105, 0, 104, 105, 0, 9]"
proof -
  let ?m = "[104, 105, 0, 9, 9, 9, 9] :: u8 list"
  have c: "cstr ?m = [104, 105]" by (simp add: cstr_def)
  have "strcpy ?m 3 0 = Some (write_at ?m 3 (cstr (drop 0 ?m) @ [0]))"
    by (rule strcpy_correct[where n = 2]) (simp_all add: c is_cstr_def)
  then show ?thesis by (simp add: c write_at_def)
qed

end
