(* ===== verification/Mm.thy ===== *)
theory Mm
  imports Prelude
begin

text \<open>
  The kernel heap (\<open>src/kernel/mm.c\<close>): a first-fit allocator over a 4 MB array, with a linked
  list of block headers kept inside the array.

  A pointer is its distance from the start of the array \<open>heap\<close>, modulo the address space, and
  \<open>None\<close> is the null pointer; \<open>blocks\<close> maps the location of each header to its contents.  The
  loops follow the \<open>next\<close> pointers and are partial: their value is \<open>None\<close> when the C loop would
  run forever or read a header where there is none.  The lemmas show that neither happens.

  The abstract view of a heap is the list of its cells (location, payload size, free flag).
  \<open>alloc_cells\<close> and \<open>coalesce\<close> say on that list what \<open>kmalloc\<close> and \<open>kfree\<close> do to the linked
  structure; the locale \<open>allocator\<close> is the contract the rest of the kernel relies on.
\<close>

section \<open>Definitions\<close>

record block =
  block_size :: u32
  block_free :: bool
  block_next :: "nat option"

type_synonym heap = "nat \<Rightarrow> block option"

record mm_state =
  first_block :: "nat option"
  blocks :: heap

datatype malloc_result = Ptr nat | Null | Panic

definition HEAP_SIZE :: nat where
  "HEAP_SIZE = 4 * 1024 * 1024"

definition mm_start :: mm_state where
  "mm_start = \<lparr>first_block = None, blocks = Map.empty\<rparr>"

definition mm_init :: "mm_state \<Rightarrow> mm_state" where
  "mm_init st = st\<lparr>first_block := Some 0,
     blocks := (blocks st)(0 \<mapsto> \<lparr>block_size = of_nat HEAP_SIZE - 12, block_free = True,
       block_next = None\<rparr>)\<rparr>"

text \<open>The body of the loop of \<open>kmalloc\<close> for a block that fits: split it if the rest can hold a
  header and a byte, and take it.\<close>

definition take_block :: "u32 \<Rightarrow> heap \<Rightarrow> nat \<Rightarrow> block \<Rightarrow> heap" where
  "take_block sz m c b =
     (if block_size b \<ge> sz + 12 + 1 then
        let new_block = c + 12 + unat sz;
            m = m(new_block \<mapsto> \<lparr>block_size = block_size b - sz - 12, block_free = True,
                                block_next = block_next b\<rparr>);
            b = b\<lparr>block_size := sz, block_next := Some new_block\<rparr>
        in m(c \<mapsto> b\<lparr>block_free := False\<rparr>)
      else m(c \<mapsto> b\<lparr>block_free := False\<rparr>))"

partial_function (option) kmalloc_loop ::
    "u32 \<Rightarrow> heap \<Rightarrow> nat option \<Rightarrow> (heap \<times> malloc_result) option" where
  "kmalloc_loop sz m current =
     (case current of
        None \<Rightarrow> Some (m, Panic)
      | Some c \<Rightarrow>
          (case m c of
             None \<Rightarrow> None
           | Some b \<Rightarrow>
               if block_free b \<and> block_size b \<ge> sz
               then Some (take_block sz m c b, Ptr (c + 12))
               else kmalloc_loop sz m (block_next b)))"

definition kmalloc :: "u32 \<Rightarrow> mm_state \<Rightarrow> (mm_state \<times> malloc_result) option" where
  "kmalloc sz st =
     (if sz = 0 then Some (st, Null)
      else let st = (if first_block st = None then mm_init st else st) in
        case kmalloc_loop sz (blocks st) (first_block st) of
          None \<Rightarrow> None
        | Some (m, r) \<Rightarrow> Some (st\<lparr>blocks := m\<rparr>, r))"

text \<open>The inner loop of \<open>kfree\<close>: the block whose \<open>next\<close> is the given one.\<close>

partial_function (option) find_previous :: "heap \<Rightarrow> nat \<Rightarrow> nat \<Rightarrow> (nat \<times> block) option" where
  "find_previous m previous current =
     (case m previous of
        None \<Rightarrow> None
      | Some b \<Rightarrow>
          if block_next b = Some current then Some (previous, b)
          else (case block_next b of None \<Rightarrow> None | Some p \<Rightarrow> find_previous m p current))"

definition merge_next :: "heap \<Rightarrow> block \<Rightarrow> block option" where
  "merge_next m b =
     (case block_next b of
        None \<Rightarrow> Some b
      | Some n \<Rightarrow>
          (case m n of
             None \<Rightarrow> None
           | Some nb \<Rightarrow>
               Some (if block_free nb
                     then b\<lparr>block_size := block_size b + (12 + block_size nb),
                            block_next := block_next nb\<rparr>
                     else b)))"

definition free_block :: "heap \<Rightarrow> nat \<Rightarrow> nat \<Rightarrow> block \<Rightarrow> heap option" where
  "free_block m first c b =
     (case merge_next m (b\<lparr>block_free := True\<rparr>) of
        None \<Rightarrow> None
      | Some b \<Rightarrow>
          let m = m(c \<mapsto> b) in
          if c = first then Some m
          else (case find_previous m first c of
                  None \<Rightarrow> None
                | Some (p, pb) \<Rightarrow>
                    Some (if block_free pb
                          then m(p \<mapsto> pb\<lparr>block_size := block_size pb + (12 + block_size b),
                                         block_next := block_next b\<rparr>)
                          else m)))"

text \<open>The outer loop of \<open>kfree\<close>: the block whose payload starts at \<open>ptr\<close>, if there is one.\<close>

partial_function (option) kfree_find ::
    "heap \<Rightarrow> nat \<Rightarrow> nat option \<Rightarrow> (nat \<times> block) option option" where
  "kfree_find m ptr current =
     (case current of
        None \<Rightarrow> Some None
      | Some c \<Rightarrow>
          (case m c of
             None \<Rightarrow> None
           | Some b \<Rightarrow>
               if c + 12 = ptr then Some (Some (c, b)) else kfree_find m ptr (block_next b)))"

definition kfree :: "nat option \<Rightarrow> mm_state \<Rightarrow> mm_state option" where
  "kfree ptr st =
     (case ptr of
        None \<Rightarrow> Some st
      | Some p \<Rightarrow>
          (case kfree_find (blocks st) p (first_block st) of
             None \<Rightarrow> None
           | Some None \<Rightarrow> Some st
           | Some (Some (c, b)) \<Rightarrow>
               (case first_block st of
                  None \<Rightarrow> None
                | Some first \<Rightarrow>
                    map_option (\<lambda>m. st\<lparr>blocks := m\<rparr>) (free_block (blocks st) first c b))))"


section \<open>The heap as a list of cells\<close>

record cell =
  off :: nat
  len :: nat
  avail :: bool

text \<open>\<open>seg m p cs q\<close>: following \<open>next\<close> from \<open>p\<close> visits the cells \<open>cs\<close> and ends at \<open>q\<close>.\<close>

fun seg :: "heap \<Rightarrow> nat option \<Rightarrow> cell list \<Rightarrow> nat option \<Rightarrow> bool" where
  "seg m p [] q \<longleftrightarrow> p = q"
| "seg m p (c # cs) q \<longleftrightarrow>
     (\<exists>b. p = Some (off c) \<and> m (off c) = Some b \<and> unat (block_size b) = len c \<and>
        block_free b = avail c \<and> seg m (block_next b) cs q)"

text \<open>The cells lie one after another from \<open>a\<close> to \<open>e\<close>, each with a 12-byte header and a payload
  of at least one byte.\<close>

fun tiled :: "nat \<Rightarrow> nat \<Rightarrow> cell list \<Rightarrow> bool" where
  "tiled a e [] \<longleftrightarrow> a = e"
| "tiled a e (c # cs) \<longleftrightarrow> off c = a \<and> 0 < len c \<and> tiled (a + 12 + len c) e cs"

fun no_adjacent_free :: "cell list \<Rightarrow> bool" where
  "no_adjacent_free (c # d # cs) \<longleftrightarrow> \<not> (avail c \<and> avail d) \<and> no_adjacent_free (d # cs)"
| "no_adjacent_free _ \<longleftrightarrow> True"

definition represents_cells :: "mm_state \<Rightarrow> cell list \<Rightarrow> bool" where
  "represents_cells st cs \<longleftrightarrow> first_block st = Some 0 \<and> seg (blocks st) (Some 0) cs None \<and>
     tiled 0 HEAP_SIZE cs \<and> no_adjacent_free cs"

definition heap_wf :: "mm_state \<Rightarrow> bool" where
  "heap_wf st \<longleftrightarrow> first_block st = None \<or> (\<exists>cs. represents_cells st cs)"

text \<open>First fit, and what freeing does: mark the cell and merge every run of free cells.\<close>

fun alloc_cells :: "nat \<Rightarrow> cell list \<Rightarrow> (nat \<times> cell list) option" where
  "alloc_cells n [] = None"
| "alloc_cells n (c # cs) =
     (if avail c \<and> n \<le> len c then
        Some (off c + 12,
          if n + 13 \<le> len c
          then \<lparr>off = off c, len = n, avail = False\<rparr> #
               \<lparr>off = off c + 12 + n, len = len c - n - 12, avail = True\<rparr> # cs
          else c\<lparr>avail := False\<rparr> # cs)
      else map_option (\<lambda>(p, cs'). (p, c # cs')) (alloc_cells n cs))"

fun coalesce :: "cell list \<Rightarrow> cell list" where
  "coalesce [] = []"
| "coalesce (c # cs) =
     (case coalesce cs of
        [] \<Rightarrow> [c]
      | d # ds \<Rightarrow> if avail c \<and> avail d then c\<lparr>len := len c + 12 + len d\<rparr> # ds else c # d # ds)"

definition release :: "nat \<Rightarrow> cell list \<Rightarrow> cell list" where
  "release ptr cs = coalesce (map (\<lambda>c. if off c + 12 = ptr then c\<lparr>avail := True\<rparr> else c) cs)"


section \<open>Segments\<close>

lemma seg_append: "seg m p (xs @ ys) q \<longleftrightarrow> (\<exists>r. seg m p xs r \<and> seg m r ys q)"
  by (induction xs arbitrary: p) auto

lemma seg_frame:
  "seg m p cs q \<Longrightarrow> (\<And>c. c \<in> set cs \<Longrightarrow> m' (off c) = m (off c)) \<Longrightarrow> seg m' p cs q"
  by (induction cs arbitrary: p) auto

lemma seg_upd [simp]: "k \<notin> off ` set cs \<Longrightarrow> seg (m(k := x)) p cs q \<longleftrightarrow> seg m p cs q"
  by (induction cs arbitrary: p) auto

lemma tiled_append: "tiled a e (xs @ ys) \<longleftrightarrow> (\<exists>k. tiled a k xs \<and> tiled k e ys)"
  by (induction xs arbitrary: a) auto

lemma tiled_le: "tiled a e cs \<Longrightarrow> a \<le> e"
  by (induction cs arbitrary: a) fastforce+

lemma tiled_range:
  "tiled a e cs \<Longrightarrow> c \<in> set cs \<Longrightarrow> a \<le> off c \<and> off c + 12 + len c \<le> e \<and> 0 < len c"
  by (induction cs arbitrary: a) (auto dest: tiled_le, fastforce+)

lemma tiled_distinct: "tiled a e cs \<Longrightarrow> distinct (map off cs)"
  by (induction cs arbitrary: a) (force dest: tiled_range)+

text \<open>Two cells of a tiling do not overlap, headers included.\<close>

lemma tiled_disjoint:
  "\<lbrakk>tiled a e cs; c \<in> set cs; d \<in> set cs; c \<noteq> d\<rbrakk>
   \<Longrightarrow> off c + 12 + len c \<le> off d \<or> off d + 12 + len d \<le> off c"
  by (induction cs arbitrary: a) (auto dest: tiled_range)


section \<open>Allocation\<close>

lemma sum13: "sz + 12 + 1 = sz + (13::u32)"
  by simp

lemma fits_split_iff:
  fixes sz s :: u32
  assumes "unat sz \<le> unat s" "unat s \<le> HEAP_SIZE"
  shows "sz + 12 + 1 \<le> s \<longleftrightarrow> unat sz + 13 \<le> unat s"
proof -
  have "unat (sz + 13) = unat sz + 13"
    using unat_add_u32_small[of sz 13] assms by (simp add: HEAP_SIZE_def)
  then show ?thesis by (simp add: sum13 unat_le_32)
qed

lemma take_block_seg:
  assumes "m (off c) = Some b" "unat (block_size b) = len c" "seg m (block_next b) cs None"
    and "tiled (off c + 12 + len c) e cs" "e \<le> HEAP_SIZE" "unat sz \<le> len c"
  shows "seg (take_block sz m (off c) b) (Some (off c))
      (if unat sz + 13 \<le> len c
       then \<lparr>off = off c, len = unat sz, avail = False\<rparr> #
            \<lparr>off = off c + 12 + unat sz, len = len c - unat sz - 12, avail = True\<rparr> # cs
       else c\<lparr>avail := False\<rparr> # cs) None"
proof -
  have e: "off c + 12 + len c \<le> e" using tiled_le[OF assms(4)] .
  have frame: "seg m' (block_next b) cs None"
    if "\<forall>x. off c + 12 + len c \<le> x \<longrightarrow> m' x = m x" for m'
    using assms(3) that tiled_range[OF assms(4)] by (auto elim!: seg_frame)
  have split: "sz + 12 + 1 \<le> block_size b \<longleftrightarrow> unat sz + 13 \<le> len c"
    using fits_split_iff[of sz "block_size b"] assms(2,5,6) e by simp
  have rest: "unat (block_size b - sz - 12) = len c - unat sz - 12" if "unat sz + 13 \<le> len c"
  proof -
    have "unat (block_size b - sz) = len c - unat sz"
      using that assms(2) by (subst unat_sub_u32) auto
    then show ?thesis using that by (subst unat_sub_u32) auto
  qed
  show ?thesis
    using assms(2,6) split rest
    by (auto simp: take_block_def Let_def intro!: frame)
qed

lemma take_block_frame:
  "unat sz + 13 \<le> k \<or> \<not> sz + 12 + 1 \<le> block_size b \<Longrightarrow> x < c \<or> c + 12 + k \<le> x \<Longrightarrow> 0 < k
   \<Longrightarrow> take_block sz m c b x = m x"
  by (auto simp: take_block_def Let_def)

lemma kmalloc_loop_refines:
  assumes "seg m p cs None" "tiled a e cs" "e \<le> HEAP_SIZE"
  shows "case alloc_cells (unat sz) cs of
      None \<Rightarrow> kmalloc_loop sz m p = Some (m, Panic)
    | Some (ptr, cs') \<Rightarrow> \<exists>m'. kmalloc_loop sz m p = Some (m', Ptr ptr) \<and> seg m' p cs' None \<and>
        (\<forall>x. x < a \<or> e \<le> x \<longrightarrow> m' x = m x)"
  using assms
proof (induction cs arbitrary: p a)
  case Nil
  then show ?case by (subst kmalloc_loop.simps) simp
next
  case (Cons c cs)
  then obtain b where b: "p = Some (off c)" "m (off c) = Some b" "unat (block_size b) = len c"
    "block_free b = avail c" "seg m (block_next b) cs None" by auto
  have t: "tiled (off c + 12 + len c) e cs" "off c = a" "0 < len c" using Cons.prems(2) by auto
  have step: "kmalloc_loop sz m p = (if avail c \<and> unat sz \<le> len c
      then Some (take_block sz m (off c) b, Ptr (off c + 12)) else kmalloc_loop sz m (block_next b))"
    using b by (subst kmalloc_loop.simps) (simp add: unat_le_32)
  show ?case
  proof (cases "avail c \<and> unat sz \<le> len c")
    case True
    have "unat sz + 13 \<le> len c \<or> \<not> sz + 12 + 1 \<le> block_size b"
      using fits_split_iff[of sz "block_size b"] True b(3) tiled_le[OF t(1)] Cons.prems(3) by linarith
    then have "\<forall>x. x < a \<or> e \<le> x \<longrightarrow> take_block sz m (off c) b x = m x"
      using t(2,3) tiled_le[OF t(1)] by (intro allI impI take_block_frame) auto
    then show ?thesis
      using True step take_block_seg[OF b(2,3,5) t(1) Cons.prems(3)] b(1) by simp
  next
    case False
    note IH = Cons.IH[OF b(5) t(1) Cons.prems(3)]
    show ?thesis
    proof (cases "alloc_cells (unat sz) cs")
      case None
      then show ?thesis using IH step False by auto
    next
      case (Some r)
      then obtain ptr cs' m' where r: "r = (ptr, cs')"
        "kmalloc_loop sz m (block_next b) = Some (m', Ptr ptr)" "seg m' (block_next b) cs' None"
        "\<forall>x. x < off c + 12 + len c \<or> e \<le> x \<longrightarrow> m' x = m x"
        using IH by (cases r) auto
      have "m' (off c) = Some b" using r(4) b(2) by simp
      moreover have "\<forall>x. x < a \<or> e \<le> x \<longrightarrow> m' x = m x" using r(4) t(2) by simp
      ultimately show ?thesis using Some r step False b by auto
    qed
  qed
qed

text \<open>The abstract operation keeps the shape of the heap.\<close>

lemma alloc_cells_tiled:
  "\<lbrakk>alloc_cells n cs = Some (p, cs'); tiled a e cs; 0 < n\<rbrakk> \<Longrightarrow> tiled a e cs'"
  by (induction cs arbitrary: a cs') (auto split: if_splits)

lemma alloc_cells_hd:
  "alloc_cells n cs = Some (p, cs') \<Longrightarrow> cs' \<noteq> [] \<and> (avail (hd cs') \<longrightarrow> avail (hd cs))"
  by (cases cs) (auto split: if_splits)

lemma no_adjacent_free_Cons:
  "no_adjacent_free (c # cs) \<longleftrightarrow> no_adjacent_free cs \<and> (cs = [] \<or> \<not> (avail c \<and> avail (hd cs)))"
  by (cases cs) auto

lemma alloc_cells_no_adjacent:
  "\<lbrakk>alloc_cells n cs = Some (p, cs'); no_adjacent_free cs\<rbrakk> \<Longrightarrow> no_adjacent_free cs'"
proof (induction cs arbitrary: cs')
  case (Cons c cs)
  show ?case
  proof (cases "avail c \<and> n \<le> len c")
    case True
    then show ?thesis using Cons.prems by (auto simp: no_adjacent_free_Cons split: if_splits)
  next
    case False
    then obtain ds where ds: "alloc_cells n cs = Some (p, ds)" "cs' = c # ds"
      using Cons.prems(1) by auto
    have "cs \<noteq> []" using ds(1) by auto
    then show ?thesis
      using Cons.IH[OF ds(1)] Cons.prems(2) alloc_cells_hd[OF ds(1)] ds(2)
      by (auto simp: no_adjacent_free_Cons)
  qed
qed simp

lemma alloc_cells_None_iff: "alloc_cells n cs = None \<longleftrightarrow> \<not> (\<exists>c \<in> set cs. avail c \<and> n \<le> len c)"
  by (induction cs) auto


section \<open>Freeing\<close>

lemma kfree_find_refines:
  "seg m p cs None \<Longrightarrow> kfree_find m ptr p =
     Some (map_option (\<lambda>c. (off c, the (m (off c)))) (find (\<lambda>c. off c + 12 = ptr) cs))"
proof (induction cs arbitrary: p)
  case Nil
  then show ?case by (subst kfree_find.simps) simp
next
  case (Cons c cs)
  then obtain b where b: "p = Some (off c)" "m (off c) = Some b" "seg m (block_next b) cs None"
    by auto
  then show ?case using Cons.IH[OF b(3)] by (subst kfree_find.simps) simp
qed

lemma find_previous_refines:
  assumes "seg m (Some p) (us @ [v]) (Some c)" "\<forall>x \<in> set (us @ [v]). off x \<noteq> c"
  shows "find_previous m p c = Some (off v, the (m (off v)))"
  using assms
proof (induction us arbitrary: p)
  case Nil
  then show ?case by (subst find_previous.simps) auto
next
  case (Cons u us)
  then obtain b where b: "p = off u" "m p = Some b" "seg m (block_next b) (us @ [v]) (Some c)"
    by auto
  obtain q where q: "block_next b = Some q" "q \<noteq> c"
    using b(3) Cons.prems(2) by (cases us) auto
  have "find_previous m q c = Some (off v, the (m (off v)))"
    using Cons.IH[of q] Cons.prems(2) b(3) q(1) by simp
  then show ?case using b q by (subst find_previous.simps) simp
qed

text \<open>The cell after \<open>kfree\<close> has marked it and merged the following one into it.\<close>

fun join_next :: "cell \<Rightarrow> cell list \<Rightarrow> cell \<times> cell list" where
  "join_next c [] = (c\<lparr>avail := True\<rparr>, [])"
| "join_next c (d # ds) =
     (if avail d then (c\<lparr>avail := True, len := len c + 12 + len d\<rparr>, ds)
      else (c\<lparr>avail := True\<rparr>, d # ds))"

definition join_back :: "cell list \<Rightarrow> cell \<Rightarrow> cell list \<Rightarrow> cell list" where
  "join_back xs c ys =
     (if xs \<noteq> [] \<and> avail (last xs)
      then butlast xs @ (last xs)\<lparr>len := len (last xs) + 12 + len c\<rparr> # ys
      else xs @ c # ys)"

lemma join_next_props:
  assumes "join_next c ys = (c', ys')"
  shows "off c' = off c" "avail c'" "set ys' \<subseteq> set ys"
    and "tiled a e (c # ys) \<Longrightarrow> tiled a e (c' # ys')"
  using assms by (cases ys; auto split: if_splits simp: add.assoc)+

lemma unat_merged_size:
  assumes "unat s + 12 + unat t \<le> HEAP_SIZE"
  shows "unat (s + (12 + t) :: u32) = unat s + 12 + unat t"
proof -
  have "unat (12 + t) = 12 + unat t"
    using unat_add_u32_small[of 12 t] assms by (simp add: HEAP_SIZE_def)
  then show ?thesis using unat_add_u32_small[of s "12 + t"] assms by (simp add: HEAP_SIZE_def)
qed

lemma merge_next_refines:
  assumes "unat (block_size b) = len c" "seg m (block_next b) ys None"
    and "tiled a e (c # ys)" "e \<le> HEAP_SIZE" "join_next c ys = (c', ys')"
  shows "\<exists>b'. merge_next m (b\<lparr>block_free := True\<rparr>) = Some b' \<and> block_free b' \<and>
    unat (block_size b') = len c' \<and> seg m (block_next b') ys' None"
proof (cases ys)
  case Nil
  then show ?thesis using assms by (auto simp: merge_next_def)
next
  case (Cons d ds)
  then obtain nb where nb: "block_next b = Some (off d)" "m (off d) = Some nb"
    "unat (block_size nb) = len d" "block_free nb = avail d" "seg m (block_next nb) ds None"
    using assms(2) by auto
  have "len c + 12 + len d \<le> HEAP_SIZE"
    using tiled_le[of "a + 12 + len c + 12 + len d" e ds] assms(3,4) Cons by (simp add: add.assoc)
  then have "unat (block_size b + (12 + block_size nb)) = len c + 12 + len d"
    using unat_merged_size[of "block_size b" "block_size nb"] assms(1) nb(3) by simp
  then show ?thesis using nb assms(1,2,5) Cons by (auto simp: merge_next_def)
qed

lemma merge_previous_refines:
  assumes "seg m (Some f) (us @ [v]) (Some k)" "seg m (Some k) (c # ys) None"
    and "m (off v) = Some pb" "m k = Some b" "tiled a e (us @ v # c # ys)" "e \<le> HEAP_SIZE"
  shows "seg (m(off v \<mapsto> pb\<lparr>block_size := block_size pb + (12 + block_size b),
      block_next := block_next b\<rparr>)) (Some f) (us @ v\<lparr>len := len v + 12 + len c\<rparr> # ys) None"
proof -
  let ?m = "m(off v \<mapsto> pb\<lparr>block_size := block_size pb + (12 + block_size b),
      block_next := block_next b\<rparr>)"
  have d: "distinct (map off (us @ v # c # ys))" using tiled_distinct[OF assms(5)] .
  have us: "seg m (Some f) us (Some (off v))"
    and v: "unat (block_size pb) = len v" "block_free pb = avail v"
    using assms(1,3) by (auto simp: seg_append)
  have c: "unat (block_size b) = len c" "seg m (block_next b) ys None" "k = off c"
    using assms(2,4) by auto
  have us': "seg ?m (Some f) us (Some (off v))"
    using us d by simp
  have ys': "seg ?m (block_next b) ys None"
    using c(2) d by simp
  have "len v + 12 + len c \<le> HEAP_SIZE"
    using assms(5,6) by (auto simp: tiled_append dest: tiled_le)
  then have "unat (block_size pb + (12 + block_size b)) = len v + 12 + len c"
    using unat_merged_size[of "block_size pb" "block_size b"] v c by simp
  then show ?thesis
    using us' ys' v(2) by (auto simp: seg_append)
qed

lemma free_block_refines:
  assumes s: "seg m (Some f) (xs @ c # ys) None" and t: "tiled a e (xs @ c # ys)"
    and e: "e \<le> HEAP_SIZE" and b: "m (off c) = Some b" and j: "join_next c ys = (c', ys')"
  shows "\<exists>m'. free_block m f (off c) b = Some m' \<and> seg m' (Some f) (join_back xs c' ys') None"
proof -
  have d: "distinct (map off (xs @ c # ys))" using tiled_distinct[OF t] .
  obtain k where k: "tiled a k xs" "tiled k e (c # ys)" using t by (auto simp: tiled_append)
  have xs: "seg m (Some f) xs (Some (off c))"
    and c: "unat (block_size b) = len c" "seg m (block_next b) ys None"
    using s b by (auto simp: seg_append)
  obtain b' where b': "merge_next m (b\<lparr>block_free := True\<rparr>) = Some b'" "block_free b'"
    "unat (block_size b') = len c'" "seg m (block_next b') ys' None"
    using merge_next_refines[OF c k(2) e j] by blast
  note c' = join_next_props[OF j]
  let ?m = "m(off c \<mapsto> b')"
  have m1: "seg ?m (Some f) xs (Some (off c))"
    using xs d by simp
  have "seg ?m (block_next b') ys' None"
    using b'(4) d c'(3) by (subst seg_upd) auto
  then have m2: "seg ?m (Some (off c)) (c' # ys') None"
    using c' b' by auto
  show ?thesis
  proof (cases xs rule: rev_cases)
    case Nil
    then show ?thesis using xs m2 b'(1) by (auto simp: free_block_def join_back_def)
  next
    case (snoc us v)
    have ne: "f \<noteq> off c" using xs d snoc by (cases us) auto
    have v: "find_previous ?m f (off c) = Some (off v, the (?m (off v)))"
    proof (rule find_previous_refines)
      show "seg ?m (Some f) (us @ [v]) (Some (off c))" using m1 unfolding snoc .
      show "\<forall>x \<in> set (us @ [v]). off x \<noteq> off c" using d snoc by (auto simp: image_iff)
    qed
    obtain pb where pb: "?m (off v) = Some pb" "block_free pb = avail v"
      using m1 snoc by (auto simp: seg_append simp del: fun_upd_apply)
    have "tiled a e (xs @ c' # ys')"
      using c'(4)[OF k(2)] k(1) by (auto simp: tiled_append simp del: tiled.simps)
    then have t': "tiled a e (us @ v # c' # ys')" using snoc by simp
    have "seg ?m (Some f) (xs @ c' # ys') None" using m1 m2 by (auto simp: seg_append)
    moreover have "seg (?m(off v \<mapsto> pb\<lparr>block_size := block_size pb + (12 + block_size b'),
        block_next := block_next b'\<rparr>)) (Some f) (us @ v\<lparr>len := len v + 12 + len c'\<rparr> # ys') None"
      by (rule merge_previous_refines[OF m1[unfolded snoc] m2 pb(1) _ t' e]) simp
    ultimately show ?thesis
      using b'(1) ne v pb snoc
      by (simp add: free_block_def join_back_def Let_def del: fun_upd_apply)
  qed
qed


text \<open>Merging with the two neighbours is full coalescing, because no two free cells are adjacent
  before.\<close>

lemma coalesce_id: "no_adjacent_free cs \<Longrightarrow> coalesce cs = cs"
  by (induction cs) (auto simp: no_adjacent_free_Cons split: list.splits)

lemma coalesce_append:
  "no_adjacent_free xs \<Longrightarrow> xs = [] \<or> \<not> avail (last xs) \<Longrightarrow> coalesce (xs @ zs) = xs @ coalesce zs"
proof (induction xs)
  case (Cons x xs)
  then show ?case by (cases xs) (auto simp: no_adjacent_free_Cons split: list.splits)
qed simp

lemma no_adjacent_free_append:
  "no_adjacent_free (xs @ ys) \<longleftrightarrow> no_adjacent_free xs \<and> no_adjacent_free ys \<and>
     (xs = [] \<or> ys = [] \<or> \<not> (avail (last xs) \<and> avail (hd ys)))"
  by (induction xs) (auto simp: no_adjacent_free_Cons)

lemma coalesce_join_next:
  assumes "no_adjacent_free ys" "join_next c ys = (c', ys')"
  shows "coalesce (c\<lparr>avail := True\<rparr> # ys) = c' # ys'"
  unfolding coalesce.simps(2) coalesce_id[OF assms(1)]
  using assms(2) by (cases ys) (auto split: if_splits)

lemma coalesce_join_back:
  assumes "no_adjacent_free (xs @ c # ys)" "join_next c ys = (c', ys')"
  shows "coalesce (xs @ c\<lparr>avail := True\<rparr> # ys) = join_back xs c' ys'"
proof -
  have n: "no_adjacent_free xs" "no_adjacent_free ys"
    using assms(1) by (auto simp: no_adjacent_free_append no_adjacent_free_Cons)
  note j = coalesce_join_next[OF n(2) assms(2)] join_next_props(2)[OF assms(2)]
  show ?thesis
  proof (cases "xs = [] \<or> \<not> avail (last xs)")
    case True
    then show ?thesis using coalesce_append[OF n(1) True] j by (auto simp: join_back_def)
  next
    case False
    then obtain us v where v: "xs = us @ [v]" "avail v" by (cases xs rule: rev_cases) auto
    then have "no_adjacent_free us" "us = [] \<or> \<not> avail (last us)"
      using n(1) by (auto simp: no_adjacent_free_append)
    then have "coalesce (us @ v # c\<lparr>avail := True\<rparr> # ys) =
        us @ coalesce (v # c\<lparr>avail := True\<rparr> # ys)" by (rule coalesce_append)
    also have "coalesce (v # c\<lparr>avail := True\<rparr> # ys) = v\<lparr>len := len v + 12 + len c'\<rparr> # ys'"
      using j v(2) by (simp del: coalesce.simps(2) add: coalesce.simps(2)[of v])
    finally show ?thesis using v by (simp add: join_back_def)
  qed
qed

lemma coalesce_tiled: "tiled a e cs \<Longrightarrow> tiled a e (coalesce cs)"
proof (induction cs arbitrary: a)
  case (Cons c cs)
  then have "tiled (a + 12 + len c) e (coalesce cs)" by simp
  then show ?case using Cons.prems by (auto simp: add.assoc split: list.splits)
qed simp

lemma coalesce_no_adjacent: "no_adjacent_free (coalesce cs)"
  by (induction cs) (auto simp: no_adjacent_free_Cons split: list.splits)

lemma find_split:
  "find P xs = Some c \<Longrightarrow> \<exists>us vs. xs = us @ c # vs \<and> P c"
  by (metis find_Some_iff split_list nth_mem)

lemma release_tiled: "tiled a e cs \<Longrightarrow> tiled a e (release p cs)"
proof -
  have "tiled a e cs \<Longrightarrow>
      tiled a e (map (\<lambda>c. if off c + 12 = p then c\<lparr>avail := True\<rparr> else c) cs)"
    by (induction cs arbitrary: a) auto
  then show "tiled a e cs \<Longrightarrow> ?thesis" by (simp add: release_def coalesce_tiled)
qed

lemma release_match:
  assumes "distinct (map off (xs @ c # ys))" "no_adjacent_free (xs @ c # ys)" "off c + 12 = p"
    and "join_next c ys = (c', ys')"
  shows "release p (xs @ c # ys) = join_back xs c' ys'"
proof -
  have "map (\<lambda>c. if off c + 12 = p then c\<lparr>avail := True\<rparr> else c) zs = zs"
    if "off c \<notin> off ` set zs" for zs
    using that assms(3) by (induction zs) auto
  then have "map (\<lambda>c. if off c + 12 = p then c\<lparr>avail := True\<rparr> else c) (xs @ c # ys) =
      xs @ c\<lparr>avail := True\<rparr> # ys"
    using assms(1,3) by auto
  then show ?thesis using coalesce_join_back[OF assms(2,4)] by (simp add: release_def)
qed

lemma release_miss:
  assumes "find (\<lambda>c. off c + 12 = p) cs = None" "no_adjacent_free cs"
  shows "release p cs = cs"
proof -
  have "map (\<lambda>c. if off c + 12 = p then c\<lparr>avail := True\<rparr> else c) cs = cs"
    using assms(1) by (intro map_idI) (auto simp: find_None_iff)
  then show ?thesis using assms(2) by (simp add: release_def coalesce_id)
qed


section \<open>The two operations on represented heaps\<close>

lemma mm_init_represents:
  "represents_cells (mm_init st) [\<lparr>off = 0, len = HEAP_SIZE - 12, avail = True\<rparr>]"
  by (simp add: represents_cells_def mm_init_def HEAP_SIZE_def)

lemma kmalloc_refines:
  assumes "represents_cells st cs" "sz \<noteq> 0"
  shows "case alloc_cells (unat sz) cs of
      None \<Rightarrow> kmalloc sz st = Some (st, Panic)
    | Some (p, cs') \<Rightarrow> \<exists>st'. kmalloc sz st = Some (st', Ptr p) \<and> represents_cells st' cs'"
proof -
  note r = assms(1)[unfolded represents_cells_def]
  have n: "0 < unat sz" using assms(2) by (simp add: unat_gt_0)
  have "case alloc_cells (unat sz) cs of
      None \<Rightarrow> kmalloc_loop sz (blocks st) (Some 0) = Some (blocks st, Panic)
    | Some (p, cs') \<Rightarrow> \<exists>m'. kmalloc_loop sz (blocks st) (Some 0) = Some (m', Ptr p) \<and>
        seg m' (Some 0) cs' None"
    using kmalloc_loop_refines[of "blocks st" "Some 0" cs 0 HEAP_SIZE sz] r
    by (auto split: option.splits)
  then show ?thesis
    using r assms(2) alloc_cells_tiled[OF _ _ n] alloc_cells_no_adjacent
    by (fastforce simp: kmalloc_def represents_cells_def split: option.splits)
qed

lemma kfree_refines:
  assumes "represents_cells st cs"
  shows "\<exists>st'. kfree (Some p) st = Some st' \<and> represents_cells st' (release p cs)"
proof (cases "find (\<lambda>c. off c + 12 = p) cs")
  case None
  then show ?thesis
    using assms kfree_find_refines[of "blocks st" "Some 0" cs p] release_miss[OF None]
    by (simp add: kfree_def represents_cells_def)
next
  case (Some c)
  note r = assms[unfolded represents_cells_def]
  obtain xs ys where cs: "cs = xs @ c # ys" "off c + 12 = p" using find_split[OF Some] by blast
  obtain c' ys' where j: "join_next c ys = (c', ys')" by fastforce
  obtain b where b: "blocks st (off c) = Some b" using r cs by (auto simp: seg_append)
  obtain m' where m': "free_block (blocks st) 0 (off c) b = Some m'"
    "seg m' (Some 0) (join_back xs c' ys') None"
    using free_block_refines[of "blocks st" 0 xs c ys 0 HEAP_SIZE b c' ys'] r cs b j by auto
  have "join_back xs c' ys' = release p cs"
    using release_match[OF _ _ cs(2) j, of xs] r tiled_distinct[of 0 HEAP_SIZE cs]
    by (simp only: cs(1))
  then have "represents_cells (st\<lparr>blocks := m'\<rparr>) (release p cs)"
    using r m'(2) release_tiled coalesce_no_adjacent
    by (auto simp: represents_cells_def release_def)
  then show ?thesis
    using kfree_find_refines[of "blocks st" "Some 0" cs p] r Some b m'(1) by (simp add: kfree_def)
qed


section \<open>The allocator contract\<close>

text \<open>A request of a client, and the effect of a sequence of requests, for any allocator.\<close>

datatype request = Alloc u32 | Free "nat option"

fun run_requests :: "(u32 \<Rightarrow> 's \<Rightarrow> ('s \<times> malloc_result) option) \<Rightarrow> (nat option \<Rightarrow> 's \<Rightarrow> 's option) \<Rightarrow>
    request list \<Rightarrow> 's \<Rightarrow> 's option" where
  "run_requests alloc free [] st = Some st"
| "run_requests alloc free (Alloc sz # rs) st =
     (case alloc sz st of None \<Rightarrow> None | Some (st, _) \<Rightarrow> run_requests alloc free rs st)"
| "run_requests alloc free (Free p # rs) st =
     (case free p st of None \<Rightarrow> None | Some st \<Rightarrow> run_requests alloc free rs st)"

definition regions_disjoint :: "(nat \<times> nat) set \<Rightarrow> bool" where
  "regions_disjoint R \<longleftrightarrow>
     (\<forall>(p, n) \<in> R. \<forall>(q, k) \<in> R. (p, n) \<noteq> (q, k) \<longrightarrow> p + n \<le> q \<or> q + k \<le> p)"

locale allocator =
  fixes alloc :: "u32 \<Rightarrow> 's \<Rightarrow> ('s \<times> malloc_result) option"
    and free :: "nat option \<Rightarrow> 's \<Rightarrow> 's option"
    and invar :: "'s \<Rightarrow> bool"
    and live :: "'s \<Rightarrow> (nat \<times> nat) set"
    and limit :: nat
  assumes alloc_returns: "invar st \<Longrightarrow> \<exists>st' r. alloc sz st = Some (st', r) \<and> invar st'"
    and alloc_ptr: "\<lbrakk>invar st; alloc sz st = Some (st', Ptr p)\<rbrakk>
      \<Longrightarrow> \<exists>n \<ge> unat sz. live st' = insert (p, n) (live st) \<and> (p, n) \<notin> live st"
    and alloc_fails: "\<lbrakk>invar st; alloc sz st = Some (st', r); r = Null \<or> r = Panic\<rbrakk>
      \<Longrightarrow> live st' = live st"
    and free_returns: "invar st \<Longrightarrow> \<exists>st'. free ptr st = Some st' \<and> invar st' \<and>
      live st' = {(q, k) \<in> live st. Some q \<noteq> ptr}"
    and disjoint: "invar st \<Longrightarrow> regions_disjoint (live st)"
    and bounded: "invar st \<Longrightarrow> (p, n) \<in> live st \<Longrightarrow> p + n \<le> limit \<and> 0 < n"
begin

text \<open>A new region overlaps no live one.\<close>

lemma alloc_fresh:
  assumes "invar st" "alloc sz st = Some (st', Ptr p)"
  shows "\<exists>n \<ge> unat sz. live st' = insert (p, n) (live st) \<and> p + n \<le> limit \<and>
    (\<forall>(q, k) \<in> live st. p + n \<le> q \<or> q + k \<le> p)"
proof -
  obtain n where n: "unat sz \<le> n" "live st' = insert (p, n) (live st)" "(p, n) \<notin> live st"
    using alloc_ptr[OF assms] by blast
  have "invar st'" using alloc_returns[OF assms(1), of sz] assms(2) by auto
  then show ?thesis
    using n disjoint[of st'] bounded[of st' p n] by (fastforce simp: regions_disjoint_def)
qed

lemma run_invar:
  "invar st \<Longrightarrow> \<exists>st'. run_requests alloc free rs st = Some st' \<and> invar st'"
proof (induction rs arbitrary: st)
  case (Cons r rs)
  show ?case
  proof (cases r)
    case (Alloc sz)
    then show ?thesis using alloc_returns[OF Cons.prems, of sz] Cons.IH by auto
  next
    case (Free p)
    then show ?thesis using free_returns[OF Cons.prems, of p] Cons.IH by auto
  qed
qed simp

lemma run_disjoint:
  assumes "invar st"
  shows "\<exists>st'. run_requests alloc free rs st = Some st' \<and> regions_disjoint (live st') \<and>
    (\<forall>(p, n) \<in> live st'. p + n \<le> limit \<and> 0 < n)"
  using run_invar[OF assms, of rs] disjoint bounded by fast

end


section \<open>The kernel heap meets the contract\<close>

definition cells_live :: "cell list \<Rightarrow> (nat \<times> nat) set" where
  "cells_live cs = (\<lambda>c. (off c + 12, len c)) ` {c \<in> set cs. \<not> avail c}"

definition mm_live :: "mm_state \<Rightarrow> (nat \<times> nat) set" where
  "mm_live st = {r. \<exists>cs. represents_cells st cs \<and> r \<in> cells_live cs}"

lemma seg_unique: "seg m p cs None \<Longrightarrow> seg m p ds None \<Longrightarrow> cs = ds"
proof (induction cs arbitrary: p ds)
  case Nil
  then show ?case by (cases ds) auto
next
  case (Cons c cs)
  then show ?case by (cases ds) auto
qed

lemma represents_unique: "represents_cells st cs \<Longrightarrow> represents_cells st ds \<Longrightarrow> cs = ds"
  unfolding represents_cells_def by (blast intro: seg_unique)

lemma mm_live_cells: "represents_cells st cs \<Longrightarrow> mm_live st = cells_live cs"
  by (auto simp: mm_live_def dest: represents_unique)

lemma mm_live_none: "first_block st = None \<Longrightarrow> mm_live st = {}"
  by (auto simp: mm_live_def represents_cells_def)

lemma cells_live_Cons:
  "cells_live (c # cs) = (if avail c then {} else {(off c + 12, len c)}) \<union> cells_live cs"
  by (auto simp: cells_live_def)

lemma cells_live_range:
  "tiled a e cs \<Longrightarrow> (p, n) \<in> cells_live cs \<Longrightarrow> a + 12 \<le> p \<and> p + n \<le> e \<and> 0 < n"
  using tiled_range by (fastforce simp: cells_live_def)

lemma alloc_cells_live:
  "\<lbrakk>alloc_cells n cs = Some (p, cs'); tiled a e cs; 0 < n\<rbrakk>
   \<Longrightarrow> \<exists>k \<ge> n. cells_live cs' = insert (p, k) (cells_live cs) \<and> p \<notin> fst ` cells_live cs"
proof (induction cs arbitrary: a cs')
  case (Cons c cs)
  have t: "tiled (a + 12 + len c) e cs" "off c = a" using Cons.prems(2) by auto
  have out: "off c + 12 \<notin> fst ` cells_live cs" using cells_live_range[OF t(1)] t(2) by fastforce
  show ?case
  proof (cases "avail c \<and> n \<le> len c")
    case True
    then show ?thesis using Cons.prems(1) out by (auto simp: cells_live_Cons split: if_splits)
  next
    case False
    then obtain ds where ds: "alloc_cells n cs = Some (p, ds)" "cs' = c # ds"
      using Cons.prems(1) by auto
    obtain k where k: "n \<le> k" "cells_live ds = insert (p, k) (cells_live cs)"
      "p \<notin> fst ` cells_live cs"
      using Cons.IH[OF ds(1) t(1) Cons.prems(3)] by blast
    have "p \<noteq> off c + 12"
      using cells_live_range[OF alloc_cells_tiled[OF ds(1) t(1) Cons.prems(3)], of p k] k t(2) by simp
    then show ?thesis using k ds(2) by (auto simp: cells_live_Cons)
  qed
qed simp


lemma cells_live_Nil [simp]: "cells_live [] = {}"
  by (simp add: cells_live_def)

lemma coalesce_live: "cells_live (coalesce cs) = cells_live cs"
proof (induction cs)
  case (Cons c cs)
  then show ?case
    by (cases "coalesce cs") (simp_all add: cells_live_Cons Un_commute split: if_splits)
qed simp

lemma mark_live:
  "cells_live (map (\<lambda>c. if off c + 12 = p then c\<lparr>avail := True\<rparr> else c) cs) =
     {(q, k) \<in> cells_live cs. q \<noteq> p}"
  by (induction cs) (auto simp: cells_live_Cons)

lemma release_live: "cells_live (release p cs) = {(q, k) \<in> cells_live cs. q \<noteq> p}"
  by (simp add: release_def coalesce_live mark_live)

lemma cells_disjoint: "tiled a e cs \<Longrightarrow> regions_disjoint (cells_live cs)"
  using tiled_disjoint by (fastforce simp: regions_disjoint_def cells_live_def)

lemma mm_ready:
  assumes "heap_wf st"
  obtains cs where "represents_cells (if first_block st = None then mm_init st else st) cs"
    "mm_live (if first_block st = None then mm_init st else st) = mm_live st"
proof (cases "first_block st = None")
  case True
  then show thesis
    using that[of "[\<lparr>off = 0, len = HEAP_SIZE - 12, avail = True\<rparr>]"] mm_init_represents[of st]
    by (simp add: mm_live_cells[OF mm_init_represents] mm_live_none cells_live_def)
next
  case False
  then show thesis using that assms by (auto simp: heap_wf_def)
qed

lemma kmalloc_init:
  assumes "sz \<noteq> (0::u32)"
  shows "kmalloc sz st = kmalloc sz (if first_block st = None then mm_init st else st)"
proof (cases "first_block st = None")
  case True
  then have "first_block (mm_init st) = Some 0" by (simp add: mm_init_def)
  with True assms show ?thesis by (simp add: kmalloc_def)
qed auto

lemma kmalloc_cases:
  assumes "heap_wf st" "sz \<noteq> 0"
  obtains (panic) st' cs where "kmalloc sz st = Some (st', Panic)" "represents_cells st' cs"
      "mm_live st' = mm_live st" "\<not> (\<exists>c \<in> set cs. avail c \<and> unat sz \<le> len c)"
  | (ptr) st' p k where "kmalloc sz st = Some (st', Ptr p)" "heap_wf st'" "unat sz \<le> k"
      "mm_live st' = insert (p, k) (mm_live st)" "p \<notin> fst ` mm_live st"
proof -
  define st1 where "st1 = (if first_block st = None then mm_init st else st)"
  obtain cs where s1: "represents_cells st1 cs" "mm_live st1 = mm_live st"
    using mm_ready[OF assms(1), folded st1_def] by blast
  have km: "kmalloc sz st = kmalloc sz st1" using kmalloc_init[OF assms(2), of st, folded st1_def] .
  have n: "0 < unat sz" using assms(2) by (simp add: unat_gt_0)
  show thesis
  proof (cases "alloc_cells (unat sz) cs")
    case None
    then show thesis
      using panic[of st1 cs] kmalloc_refines[OF s1(1) assms(2)] km s1
        alloc_cells_None_iff[THEN iffD1, OF None] by simp
  next
    case (Some r)
    then obtain p cs' st' where r: "alloc_cells (unat sz) cs = Some (p, cs')"
      "kmalloc sz st1 = Some (st', Ptr p)" "represents_cells st' cs'"
      using kmalloc_refines[OF s1(1) assms(2)] by (cases r) auto
    have "tiled 0 HEAP_SIZE cs" using s1(1) by (simp add: represents_cells_def)
    then obtain k where "unat sz \<le> k" "mm_live st' = insert (p, k) (mm_live st)"
      "p \<notin> fst ` mm_live st"
      using alloc_cells_live[OF r(1) _ n, of 0 HEAP_SIZE] mm_live_cells[OF r(3)]
        mm_live_cells[OF s1(1)] s1(2) by auto
    moreover have "heap_wf st'" using r(3) by (auto simp: heap_wf_def)
    ultimately show thesis using ptr[of st' p k] r(2) km by simp
  qed
qed

lemma kfree_cases:
  assumes "heap_wf st"
  shows "\<exists>st'. kfree ptr st = Some st' \<and> heap_wf st' \<and>
    mm_live st' = {(q, k) \<in> mm_live st. Some q \<noteq> ptr}"
proof (cases "ptr = None \<or> first_block st = None")
  case True
  then show ?thesis
    using assms mm_live_none[of st] kfree_find_refines[of "blocks st" None "[]"]
    by (cases ptr) (auto simp: kfree_def)
next
  case False
  then obtain p cs where "ptr = Some p" "represents_cells st cs"
    using assms by (auto simp: heap_wf_def)
  then show ?thesis
    using kfree_refines[of st cs p] by (auto simp: heap_wf_def mm_live_cells release_live)
qed

interpretation kheap: allocator kmalloc kfree heap_wf mm_live HEAP_SIZE
proof
  fix st :: mm_state and sz :: u32
  assume wf: "heap_wf st"
  show "\<exists>st' r. kmalloc sz st = Some (st', r) \<and> heap_wf st'"
  proof (cases "sz = 0")
    case True
    then show ?thesis using wf by (simp add: kmalloc_def)
  next
    case False
    from wf this show ?thesis by (rule kmalloc_cases) (auto simp: heap_wf_def)
  qed
next
  fix st st' :: mm_state and sz :: u32 and p
  assume wf: "heap_wf st" and k: "kmalloc sz st = Some (st', Ptr p)"
  have "sz \<noteq> 0" using k by (auto simp: kmalloc_def)
  from wf this show "\<exists>n \<ge> unat sz. mm_live st' = insert (p, n) (mm_live st) \<and> (p, n) \<notin> mm_live st"
    by (rule kmalloc_cases) (use k in force)+
next
  fix st st' :: mm_state and sz :: u32 and r
  assume wf: "heap_wf st" and k: "kmalloc sz st = Some (st', r)" "r = Null \<or> r = Panic"
  show "mm_live st' = mm_live st"
  proof (cases "sz = 0")
    case True
    then show ?thesis using k by (simp add: kmalloc_def)
  next
    case False
    from wf this show ?thesis by (rule kmalloc_cases) (use k in auto)
  qed
next
  fix st p n
  assume "heap_wf st" "(p, n) \<in> mm_live st"
  then show "p + n \<le> HEAP_SIZE \<and> 0 < n"
    using cells_live_range by (fastforce simp: mm_live_def represents_cells_def)
next
  fix st
  assume "heap_wf st"
  then show "regions_disjoint (mm_live st)"
    using cells_disjoint mm_live_cells mm_live_none
    by (fastforce simp: heap_wf_def represents_cells_def regions_disjoint_def)
qed (rule kfree_cases)


section \<open>Properties\<close>

lemma heap_wf_start: "heap_wf mm_start"
  by (simp add: heap_wf_def mm_start_def)

text \<open>
  C2. \<open>kmalloc\<close> on a well-formed heap returns for every nonzero size.  It either returns a region of
  at least that size that lies inside the heap and overlaps no live region, and makes it live, or it
  panics, and then no free block of the heap is large enough.
\<close>

theorem kmalloc_spec:
  assumes "heap_wf st" "sz \<noteq> 0"
  shows "\<exists>st' r. kmalloc sz st = Some (st', r) \<and> heap_wf st' \<and> (case r of
      Ptr p \<Rightarrow> \<exists>n \<ge> unat sz. mm_live st' = insert (p, n) (mm_live st) \<and> p + n \<le> HEAP_SIZE \<and>
        (\<forall>(q, k) \<in> mm_live st. p + n \<le> q \<or> q + k \<le> p)
    | Null \<Rightarrow> False
    | Panic \<Rightarrow> mm_live st' = mm_live st \<and>
        (\<exists>cs. represents_cells st' cs \<and> (\<forall>c \<in> set cs. avail c \<longrightarrow> len c < unat sz)))"
  using assms
proof (rule kmalloc_cases)
  fix st' p k
  assume k: "kmalloc sz st = Some (st', Ptr p)" "heap_wf st'"
  show ?thesis using kheap.alloc_fresh[OF assms(1) k(1)] k by simp
next
  fix st' cs
  assume "kmalloc sz st = Some (st', Panic)" "represents_cells st' cs" "mm_live st' = mm_live st"
    "\<not> (\<exists>c \<in> set cs. avail c \<and> unat sz \<le> len c)"
  then show ?thesis by (auto simp: heap_wf_def not_le)
qed

theorem kmalloc_spec_witness:
  "\<exists>st r. kmalloc 32 mm_start = Some (st, r) \<and> heap_wf st \<and> r \<noteq> Null"
proof -
  obtain st r where "kmalloc 32 mm_start = Some (st, r)" "heap_wf st" "r \<noteq> Null"
    using kmalloc_spec[OF heap_wf_start, of 32] by fastforce
  then show ?thesis by blast
qed

text \<open>
  C5. \<open>kfree\<close> on a well-formed heap returns for every pointer (null, never allocated, already freed or
  live): it ends the region that starts at the pointer, if there is one, changes no other region, and
  leaves the heap well formed, with no two adjacent free blocks.
\<close>

theorem kfree_spec:
  assumes "heap_wf st"
  shows "\<exists>st'. kfree ptr st = Some st' \<and> heap_wf st' \<and>
    mm_live st' = {(q, k) \<in> mm_live st. Some q \<noteq> ptr}"
  using kheap.free_returns[OF assms] .

text \<open>
  C4. Whatever sequence of allocations and frees the kernel makes from boot on, each of them returns,
  and the live regions at the end lie inside the heap and are pairwise disjoint.
\<close>

theorem heap_runs_disjoint:
  "\<exists>st. run_requests kmalloc kfree rs mm_start = Some st \<and> heap_wf st \<and>
     regions_disjoint (mm_live st) \<and> (\<forall>(p, n) \<in> mm_live st. p + n \<le> HEAP_SIZE \<and> 0 < n)"
  using kheap.run_invar[OF heap_wf_start, of rs] kheap.run_disjoint[OF heap_wf_start, of rs] by auto

theorem heap_runs_disjoint_witness:
  "\<exists>st. run_requests kmalloc kfree [Alloc 32, Alloc 64, Free (Some 12), Alloc 16, Free (Some 12)]
     mm_start = Some st \<and> regions_disjoint (mm_live st)"
  using heap_runs_disjoint by blast

lemma all_free_single:
  assumes "represents_cells st cs" "cells_live cs = {}"
  shows "cs = [\<lparr>off = 0, len = HEAP_SIZE - 12, avail = True\<rparr>]"
proof -
  have av: "\<forall>c \<in> set cs. avail c" using assms(2) by (auto simp: cells_live_def)
  have r: "tiled 0 HEAP_SIZE cs" "no_adjacent_free cs"
    using assms(1) by (auto simp: represents_cells_def)
  show ?thesis
  proof (cases cs)
    case Nil
    then show ?thesis using r(1) by (simp add: HEAP_SIZE_def)
  next
    case (Cons c ds)
    then have "ds = []" using r(2) av by (cases ds) auto
    then show ?thesis using Cons r(1) av by (cases c) auto
  qed
qed

text \<open>The first allocation succeeds, and freeing it leaves no live region.\<close>

lemma first_allocation: "\<exists>st p k. kmalloc 32 mm_start = Some (st, Ptr p) \<and> heap_wf st \<and> mm_live st = {(p, k)}"
proof -
  have e: "mm_live mm_start = {}" by (simp add: mm_live_none mm_start_def)
  have z: "(32 :: u32) \<noteq> 0" by simp
  from heap_wf_start z show ?thesis
  proof (cases rule: kmalloc_cases)
    case (panic st cs)
    then have "cs = [\<lparr>off = 0, len = HEAP_SIZE - 12, avail = True\<rparr>]"
      using all_free_single[OF panic(2)] mm_live_cells[OF panic(2)] e by simp
    then show ?thesis using panic(4) by (simp add: HEAP_SIZE_def)
  next
    case (ptr st p k)
    then show ?thesis using e by auto
  qed
qed

theorem kfree_spec_witness:
  "\<exists>st p st'. kmalloc 32 mm_start = Some (st, Ptr p) \<and> mm_live st \<noteq> {} \<and> kfree (Some p) st = Some st' \<and> heap_wf st' \<and> mm_live st' = {}"
proof -
  obtain st p k where s: "kmalloc 32 mm_start = Some (st, Ptr p)" "heap_wf st" "mm_live st = {(p, k)}" using first_allocation by blast
  from kfree_spec[OF s(2), of "Some p"] s show ?thesis by auto
qed

text \<open>
  Nothing is lost to fragmentation: once every live region has been freed, the heap is a single
  free block again, and one allocation can take all of it (4 MB less one header).
\<close>

theorem kmalloc_all_after_all_freed:
  assumes "heap_wf st" "mm_live st = {}" "0 < n" "n \<le> HEAP_SIZE - 12"
  shows "\<exists>st'. kmalloc (of_nat n) st = Some (st', Ptr 12)"
proof -
  define st1 where "st1 = (if first_block st = None then mm_init st else st)"
  obtain cs where cs: "represents_cells st1 cs" "mm_live st1 = mm_live st"
    using mm_ready[OF assms(1), folded st1_def] by blast
  have n: "unat (of_nat n :: u32) = n" "(of_nat n :: u32) \<noteq> 0"
    using assms(3,4) unat_of_nat_u32[of n] by (auto simp: HEAP_SIZE_def)
  have "cs = [\<lparr>off = 0, len = HEAP_SIZE - 12, avail = True\<rparr>]"
    using all_free_single[OF cs(1)] cs(2) assms(2) mm_live_cells[OF cs(1)] by simp
  then show ?thesis
    using kmalloc_refines[OF cs(1) n(2)] assms(4) n(1) kmalloc_init[OF n(2), of st, folded st1_def]
    by (auto split: if_splits)
qed

theorem kmalloc_all_after_all_freed_witness: "\<exists>st'. kmalloc 4194292 mm_start = Some (st', Ptr 12)"
  using kmalloc_all_after_all_freed[OF heap_wf_start, of 4194292]
  by (simp add: HEAP_SIZE_def mm_live_none mm_start_def)

end
