(* ===== verification/Wait_Queue.thy ===== *)
theory Wait_Queue
  imports Prelude
begin

text \<open>
  The task table and the wait queues of \<open>src/kernel/scheduler.c\<close>.

  A \<open>struct task *\<close> is a slot of the array \<open>tasks\<close> or the idle task.  A wait queue is a singly
  linked list threaded through the \<open>wait_next\<close> fields of the waiting tasks, with a head and a tail
  pointer.  Queues stand alone or inside a semaphore or a mutex; \<open>queue_id\<close> names them.

  The locale \<open>fifo_queues\<close> is what the scheduler relies on: the linked lists behave as a family
  of disjoint lists under push, pop and remove.
\<close>

section \<open>Definitions\<close>

datatype tptr = Slot nat | Idle

datatype queue_id = WaitQ nat | SemQ nat | MutexQ nat

datatype task_state = TASK_UNUSED | TASK_READY | TASK_RUNNING | TASK_BLOCKED | TASK_TERMINATED

record task =
  esp :: u32
  stack :: "u32 option"
  state :: task_state
  task_id :: u32
  name :: "u8 list"
  queue :: "queue_id option"
  wait_next :: "tptr option"
  deadline :: u32
  has_deadline :: bool
  wake_result :: int

record wait_queue =
  head :: "tptr option"
  tail :: "tptr option"

text \<open>The static variables of the file, with the semaphores and mutexes of the kernel.\<close>

record sched =
  tasks :: "tptr \<Rightarrow> task"
  wait_queues :: "queue_id \<Rightarrow> wait_queue"
  sem_count :: "nat \<Rightarrow> u32"
  owner :: "nat \<Rightarrow> tptr option"
  current :: tptr
  slot_count :: nat
  last_slot :: nat
  next_id :: u32
  running_flag :: bool
  ticks :: u32

definition set_task :: "tptr \<Rightarrow> (task \<Rightarrow> task) \<Rightarrow> sched \<Rightarrow> sched" where
  "set_task t f st = st\<lparr>tasks := (tasks st)(t := f (tasks st t))\<rparr>"

definition set_queue :: "queue_id \<Rightarrow> wait_queue \<Rightarrow> sched \<Rightarrow> sched" where
  "set_queue q w st = st\<lparr>wait_queues := (wait_queues st)(q := w)\<rparr>"

definition wait_queue_init :: "queue_id \<Rightarrow> sched \<Rightarrow> sched" where
  "wait_queue_init q st = set_queue q \<lparr>head = None, tail = None\<rparr> st"

definition queue_push :: "queue_id \<Rightarrow> tptr \<Rightarrow> sched \<Rightarrow> sched" where
  "queue_push q t st =
     (let st = set_task t (wait_next_update (\<lambda>_. None)) st;
          w = wait_queues st q
      in case tail w of
           Some l \<Rightarrow> set_queue q (w\<lparr>tail := Some t\<rparr>)
                      (set_task l (wait_next_update (\<lambda>_. Some t)) st)
         | None \<Rightarrow> set_queue q (w\<lparr>head := Some t, tail := Some t\<rparr>) st)"

definition queue_pop :: "queue_id \<Rightarrow> sched \<Rightarrow> sched \<times> tptr option" where
  "queue_pop q st =
     (let w = wait_queues st q in
      case head w of
        None \<Rightarrow> (st, None)
      | Some t \<Rightarrow>
          let h = wait_next (tasks st t);
              w = (if h = None then w\<lparr>head := h, tail := None\<rparr> else w\<lparr>head := h\<rparr>)
          in (set_task t (wait_next_update (\<lambda>_. None)) (set_queue q w st), Some t))"

text \<open>The loop of \<open>queue_remove\<close>, on the pair \<open>(prev, it)\<close>: \<open>Some None\<close> when the task is not in the list, else the task
  before it.  The value is \<open>None\<close> when the list has no end.\<close>

partial_function (option) queue_find ::
    "(tptr \<Rightarrow> tptr option) \<Rightarrow> tptr \<Rightarrow> tptr option \<times> tptr option \<Rightarrow> tptr option option option" where
  "queue_find nxt t pos =
     (case snd pos of
        None \<Rightarrow> Some None
      | Some i \<Rightarrow>
          if i = t then Some (Some (fst pos)) else queue_find nxt t (Some i, nxt i))"

definition queue_remove :: "queue_id \<Rightarrow> tptr \<Rightarrow> sched \<Rightarrow> sched option" where
  "queue_remove q t st =
     (let w = wait_queues st q in
      case queue_find (\<lambda>i. wait_next (tasks st i)) t (None, head w) of
        None \<Rightarrow> None
      | Some None \<Rightarrow> Some st
      | Some (Some prev) \<Rightarrow>
          let n = wait_next (tasks st t);
              (st, w) = (case prev of
                   Some p \<Rightarrow> (set_task p (wait_next_update (\<lambda>_. n)) st, w)
                 | None \<Rightarrow> (st, w\<lparr>head := n\<rparr>));
              w = (if tail w = Some t then w\<lparr>tail := prev\<rparr> else w)
          in Some (set_task t (wait_next_update (\<lambda>_. None)) (set_queue q w st)))"


section \<open>The interface\<close>

text \<open>\<open>repr st qs\<close>: in state \<open>st\<close> the queue \<open>q\<close> holds the tasks \<open>qs q\<close>, first to last.\<close>

locale fifo_queues =
  fixes repr :: "'s \<Rightarrow> ('q \<Rightarrow> 't list) \<Rightarrow> bool"
    and push :: "'q \<Rightarrow> 't \<Rightarrow> 's \<Rightarrow> 's"
    and pop :: "'q \<Rightarrow> 's \<Rightarrow> 's \<times> 't option"
    and remove :: "'q \<Rightarrow> 't \<Rightarrow> 's \<Rightarrow> 's option"
  assumes repr_distinct: "repr st qs \<Longrightarrow> distinct (qs q)"
    and repr_disjoint: "\<lbrakk>repr st qs; t \<in> set (qs q); t \<in> set (qs r)\<rbrakk> \<Longrightarrow> q = r"
    and push: "\<lbrakk>repr st qs; \<forall>r. t \<notin> set (qs r)\<rbrakk> \<Longrightarrow> repr (push q t st) (qs(q := qs q @ [t]))"
    and pop_None: "\<lbrakk>repr st qs; qs q = []\<rbrakk> \<Longrightarrow> pop q st = (st, None)"
    and pop_Some: "\<lbrakk>repr st qs; qs q = t # ts\<rbrakk>
      \<Longrightarrow> \<exists>st'. pop q st = (st', Some t) \<and> repr st' (qs(q := ts))"
    and remove: "repr st qs \<Longrightarrow> \<exists>st'. remove q t st = Some st' \<and> repr st' (qs(q := remove1 t (qs q)))"
begin

text \<open>Popping a queue empty yields its tasks in the order in which they were pushed.\<close>

lemma pop_after_push:
  assumes "repr st qs" "\<forall>r. t \<notin> set (qs r)"
  shows "snd (pop q (push q t st)) = (if qs q = [] then Some t else Some (hd (qs q)))"
  using push[OF assms, of q] pop_Some[of "push q t st" "qs(q := qs q @ [t])" q] by (cases "qs q") auto

lemma removed_absent:
  assumes "repr st qs" "remove q t st = Some st'" "t \<in> set (qs q)"
  shows "\<exists>qs'. repr st' qs' \<and> (\<forall>r. t \<notin> set (qs' r))"
proof -
  have r: "repr st' (qs(q := remove1 t (qs q)))" using remove[OF assms(1), of q t] assms(2) by auto
  have "t \<notin> set ((qs(q := remove1 t (qs q))) r)" for r
    using repr_distinct[OF assms(1), of q] repr_disjoint[OF assms(1,3), of r] by auto
  then show ?thesis using r by blast
qed

end


section \<open>Linked lists\<close>

fun linked :: "(tptr \<Rightarrow> tptr option) \<Rightarrow> tptr option \<Rightarrow> tptr list \<Rightarrow> tptr option \<Rightarrow> bool" where
  "linked nxt p [] e \<longleftrightarrow> p = e"
| "linked nxt p (t # ts) e \<longleftrightarrow> p = Some t \<and> linked nxt (nxt t) ts e"

definition last_of :: "'a list \<Rightarrow> 'a option" where
  "last_of xs = (if xs = [] then None else Some (last xs))"

definition nexts :: "sched \<Rightarrow> tptr \<Rightarrow> tptr option" where
  "nexts st t = wait_next (tasks st t)"

definition queues_repr :: "sched \<Rightarrow> (queue_id \<Rightarrow> tptr list) \<Rightarrow> bool" where
  "queues_repr st qs \<longleftrightarrow>
     (\<forall>q. linked (nexts st) (head (wait_queues st q)) (qs q) None \<and>
          tail (wait_queues st q) = last_of (qs q) \<and> distinct (qs q)) \<and>
     (\<forall>q r t. t \<in> set (qs q) \<and> t \<in> set (qs r) \<longrightarrow> q = r)"

lemma linked_append:
  "linked nxt p (xs @ ys) e \<longleftrightarrow> (\<exists>r. linked nxt p xs r \<and> linked nxt r ys e)"
  by (induction xs arbitrary: p) auto

lemma linked_upd [simp]: "t \<notin> set xs \<Longrightarrow> linked (nxt(t := v)) p xs e \<longleftrightarrow> linked nxt p xs e"
  by (induction xs arbitrary: p) auto

lemma linked_cong:
  "(\<And>t. t \<in> set xs \<Longrightarrow> nxt t = nxt' t) \<Longrightarrow> linked nxt p xs e \<longleftrightarrow> linked nxt' p xs e"
  by (induction xs arbitrary: p) auto

lemma tasks_set_task [simp]: "tasks (set_task t f st) = (tasks st)(t := f (tasks st t))"
  and wait_queues_set_task [simp]: "wait_queues (set_task t f st) = wait_queues st"
  and tasks_set_queue [simp]: "tasks (set_queue q w st) = tasks st"
  and wait_queues_set_queue [simp]: "wait_queues (set_queue q w st) = (wait_queues st)(q := w)"
  by (simp_all add: set_task_def set_queue_def)

lemma nexts_set_task [simp]:
    "nexts (set_task t f st) = (nexts st)(t := wait_next (f (tasks st t)))"
  and nexts_set_queue [simp]: "nexts (set_queue q w st) = nexts st"
  by (auto simp: nexts_def)

lemma linked_snoc: "linked nxt p (xs @ [t]) e \<longleftrightarrow> linked nxt p xs (Some t) \<and> nxt t = e"
  by (auto simp: linked_append)


section \<open>The operations on linked lists\<close>

lemmas queues_reprD = queues_repr_def[THEN iffD1, THEN conjunct1, rule_format]
  queues_repr_def[THEN iffD1, THEN conjunct2, rule_format]

lemma queue_push_repr:
  assumes "queues_repr st qs" "\<forall>r. t \<notin> set (qs r)"
  shows "queues_repr (queue_push q t st) (qs(q := qs q @ [t]))"
proof -
  have lk: "linked (nexts st) (head (wait_queues st r)) (qs r) None"
    "tail (wait_queues st r) = last_of (qs r)" "distinct (qs r)" for r
    using assms(1) by (auto simp: queues_repr_def)
  have dj: "u \<in> set (qs r) \<Longrightarrow> u \<in> set (qs r') \<Longrightarrow> r = r'" for u r r'
    using assms(1) by (auto simp: queues_repr_def)
  show ?thesis
  proof (cases "qs q" rule: rev_cases)
    case Nil
    then have "tail (wait_queues st q) = None" using lk(2)[of q] by (simp add: last_of_def)
    then show ?thesis
      using lk dj assms(2) Nil
      by (auto simp: queues_repr_def queue_push_def Let_def last_of_def)
  next
    case (snoc us l)
    then have l: "tail (wait_queues st q) = Some l" using lk(2)[of q] by (simp add: last_of_def)
    have "l \<noteq> t" "t \<notin> set us" using spec[OF assms(2), of q] snoc by auto
    have out: "l \<notin> set (qs r)" if "r \<noteq> q" for r
      using dj[of l r q] that snoc by auto
    show ?thesis
      using lk[of q] lk dj assms(2) l snoc out \<open>l \<noteq> t\<close> \<open>t \<notin> set us\<close>
      by (auto simp: queues_repr_def queue_push_def Let_def last_of_def linked_append
          split: if_splits)
  qed
qed


lemma queue_pop_None:
  "queues_repr st qs \<Longrightarrow> qs q = [] \<Longrightarrow> queue_pop q st = (st, None)"
  by (auto simp: queues_repr_def queue_pop_def dest!: spec[of _ q])

lemma queue_pop_repr:
  assumes "queues_repr st qs" "qs q = t # ts"
  shows "\<exists>st'. queue_pop q st = (st', Some t) \<and> queues_repr st' (qs(q := ts))"
proof -
  have lk: "linked (nexts st) (head (wait_queues st r)) (qs r) None"
    "tail (wait_queues st r) = last_of (qs r)" "distinct (qs r)" for r
    using assms(1) by (auto simp: queues_repr_def)
  have dj: "u \<in> set (qs r) \<Longrightarrow> u \<in> set (qs r') \<Longrightarrow> r = r'" for u r r'
    using assms(1) by (auto simp: queues_repr_def)
  have h: "head (wait_queues st q) = Some t" "linked (nexts st) (nexts st t) ts None" "t \<notin> set ts"
    using lk[of q] assms(2) by auto
  have out: "t \<notin> set (qs r)" if "r \<noteq> q" for r using dj[of t r q] that assms(2) by auto
  have ts: "wait_next (tasks st t) = None \<longleftrightarrow> ts = []"
    using h(2) by (cases ts) (auto simp: nexts_def)
  have nt: "wait_next (tasks st t) = nexts st t" by (simp add: nexts_def)
  have dts: "u \<in> set ts \<Longrightarrow> u \<in> set (qs r) \<Longrightarrow> r = q" for u r using dj[of u r q] assms(2) by auto
  have "queues_repr (fst (queue_pop q st)) (qs(q := ts))"
    unfolding queues_repr_def
    using lk lk[of q] dj dts h out ts assms(2)
    by (auto simp: queue_pop_def Let_def last_of_def nt split: if_splits)
  then show ?thesis using h(1) by (auto simp: queue_pop_def Let_def)
qed

lemma queue_find_linked:
  "linked nxt p xs None \<Longrightarrow> queue_find nxt t (prev, p) =
     Some (if t \<in> set xs then
       Some (case last_of (takeWhile (\<lambda>x. x \<noteq> t) xs) of None \<Rightarrow> prev | Some x \<Rightarrow> Some x) else None)"
proof (induction xs arbitrary: p prev)
  case Nil
  then show ?case by (subst queue_find.simps) simp
next
  case (Cons x xs)
  then have p: "p = Some x" "linked nxt (nxt x) xs None" by auto
  show ?case
    using Cons.IH[OF p(2), of "Some x"] p(1)
    by (subst queue_find.simps) (auto simp: last_of_def split: option.splits)
qed


lemma queue_find_split:
  assumes "linked nxt p (us @ t # vs) None" "t \<notin> set us"
  shows "queue_find nxt t (None, p) = Some (Some (last_of us))"
proof -
  have "takeWhile (\<lambda>x. x \<noteq> t) (us @ t # vs) = us"
    using assms(2) by (subst takeWhile_append2) auto
  then show ?thesis using queue_find_linked[OF assms(1), of t None]
    by (simp add: last_of_def)
qed

lemma queue_remove_present:
  assumes "queues_repr st qs" "qs q = us @ t # vs"
  shows "\<exists>st'. queue_remove q t st = Some st' \<and> queues_repr st' (qs(q := us @ vs))"
proof -
  have lk: "linked (nexts st) (head (wait_queues st r)) (qs r) None"
    "tail (wait_queues st r) = last_of (qs r)" "distinct (qs r)" for r
    using assms(1) by (auto simp: queues_repr_def)
  have dj: "u \<in> set (qs r) \<Longrightarrow> u \<in> set (qs r') \<Longrightarrow> r = r'" for u r r'
    using assms(1) by (auto simp: queues_repr_def)
  have t: "t \<notin> set us" "t \<notin> set vs" and d: "distinct (us @ vs)" using lk(3)[of q] assms(2) by auto
  have out: "u \<notin> set (qs r)" if "r \<noteq> q" "u \<in> set (us @ t # vs)" for r u
    using dj[of u r q] that assms(2) by auto
  have nx: "(\<lambda>i. wait_next (tasks st i)) = nexts st" by (auto simp: nexts_def)
  have f: "queue_find (nexts st) t (None, head (wait_queues st q)) = Some (Some (last_of us))"
    using queue_find_split[of "nexts st" "head (wait_queues st q)" us t vs] lk(1)[of q] assms(2) t by simp
  have l: "linked (nexts st) (head (wait_queues st q)) us (Some t)"
    "linked (nexts st) (nexts st t) vs None"
    using lk(1)[of q] assms(2) by (auto simp: linked_append)
  have tl: "tail (wait_queues st q) = Some t \<longleftrightarrow> vs = []"
    "vs \<noteq> [] \<Longrightarrow> tail (wait_queues st q) = Some (last vs)"
    using lk(2)[of q] assms(2) t by (auto simp: last_of_def)
  show ?thesis
  proof (cases us rule: rev_cases)
    case Nil
    then show ?thesis
      using f l tl lk dj out t d assms(2)
      by (auto simp: queue_remove_def nx last_of_def queues_repr_def nexts_def[symmetric])
  next
    case (snoc ws p)
    have p: "p \<notin> set ws" "p \<noteq> t" "p \<notin> set vs" using snoc d t by auto
    have ws: "linked (nexts st) (head (wait_queues st q)) ws (Some p)"
      using l(1) snoc by (simp add: linked_snoc)
    show ?thesis
      using f ws l(2) tl lk dj out t d assms(2) snoc p
      by (auto simp: queue_remove_def nx last_of_def queues_repr_def nexts_def[symmetric] linked_append)
  qed
qed

lemma queue_remove_repr:
  assumes "queues_repr st qs"
  shows "\<exists>st'. queue_remove q t st = Some st' \<and> queues_repr st' (qs(q := remove1 t (qs q)))"
proof (cases "t \<in> set (qs q)")
  case True
  then obtain us vs where s: "qs q = us @ t # vs" "t \<notin> set us" by (metis split_list_first)
  then show ?thesis using queue_remove_present[OF assms s(1)] by (simp add: remove1_append)
next
  case False
  have "linked (nexts st) (head (wait_queues st q)) (qs q) None"
    using assms by (simp add: queues_repr_def)
  then have "queue_remove q t st = Some st"
    using queue_find_linked[of "nexts st" _ "qs q" t None] False
    by (simp add: queue_remove_def nexts_def[symmetric])
  then show ?thesis using assms False by (simp add: remove1_idem)
qed

interpretation wq: fifo_queues queues_repr queue_push queue_pop queue_remove
  by unfold_locales
    (simp_all add: queue_push_repr queue_pop_None queue_pop_repr queue_remove_repr,
      auto simp: queues_repr_def)


section \<open>What the queue operations leave alone\<close>

definition erase :: "sched \<Rightarrow> sched" where
  "erase st = st\<lparr>tasks := (\<lambda>t. (tasks st t)\<lparr>wait_next := None\<rparr>),
     wait_queues := (\<lambda>_. \<lparr>head = None, tail = None\<rparr>)\<rparr>"

lemma erase_link [simp]: "erase (set_task t (wait_next_update f) st) = erase st"
  and erase_set_queue [simp]: "erase (set_queue q w st) = erase st"
  by (auto simp: erase_def set_task_def set_queue_def fun_eq_iff)

lemma erase_push [simp]: "erase (queue_push q t st) = erase st"
  by (simp add: queue_push_def Let_def split: option.splits)

lemma erase_pop: "erase (fst (queue_pop q st)) = erase st"
  by (simp add: queue_pop_def Let_def split: option.splits)

lemma erase_remove: "queue_remove q t st = Some st' \<Longrightarrow> erase st' = erase st"
  by (auto simp: queue_remove_def Let_def split: option.splits)

lemma erase_eqD:
  assumes "erase st' = erase st"
  shows "state (tasks st' t) = state (tasks st t)" "queue (tasks st' t) = queue (tasks st t)"
    "has_deadline (tasks st' t) = has_deadline (tasks st t)"
    "deadline (tasks st' t) = deadline (tasks st t)"
    "wake_result (tasks st' t) = wake_result (tasks st t)"
    "sem_count st' = sem_count st" "owner st' = owner st" "current st' = current st"
    "slot_count st' = slot_count st" "last_slot st' = last_slot st"
    "running_flag st' = running_flag st" "ticks st' = ticks st"
  using arg_cong[OF assms, of "\<lambda>s. state (tasks s t)"] arg_cong[OF assms, of "\<lambda>s. queue (tasks s t)"]
    arg_cong[OF assms, of "\<lambda>s. has_deadline (tasks s t)"]
    arg_cong[OF assms, of "\<lambda>s. deadline (tasks s t)"]
    arg_cong[OF assms, of "\<lambda>s. wake_result (tasks s t)"]
    arg_cong[OF assms, of sem_count] arg_cong[OF assms, of owner] arg_cong[OF assms, of current]
    arg_cong[OF assms, of slot_count] arg_cong[OF assms, of last_slot]
    arg_cong[OF assms, of running_flag] arg_cong[OF assms, of ticks]
  by (simp_all add: erase_def)

text \<open>Changing other fields of a task keeps the queues; clearing the link of a task that waits
  nowhere does too.\<close>

lemma queues_repr_cong:
  assumes "queues_repr st qs" "wait_queues st' = wait_queues st"
    and "\<And>t q. t \<in> set (qs q) \<Longrightarrow> nexts st' t = nexts st t"
  shows "queues_repr st' qs"
  using assms linked_cong[of _ "nexts st" "nexts st'"] by (auto simp: queues_repr_def)

end
