(* ===== verification/Scheduler.thy ===== *)
theory Scheduler
  imports Wait_Queue Mem
begin

text \<open>
  The scheduler of \<open>src/kernel/scheduler.c\<close>: round-robin task switching, sleeping and timed
  waits, wait queues, semaphores and mutexes.

  Every operation runs with interrupts disabled, so it is one step on the state.  An operation of
  the current task ends in one of three ways (\<open>outcome\<close>): the kernel panics, the operation returns
  at once, or the task was blocked and another task now runs (\<open>int 0x81\<close> in \<open>block_current\<close>); the
  call of the blocked task returns its \<open>wake_result\<close> when the task is scheduled again.  The stack
  pointer that the interrupt saves is the argument \<open>sp\<close>.
\<close>

section \<open>Definitions\<close>

subsection \<open>Time\<close>

definition ms_to_ticks :: "u32 \<Rightarrow> u32" where
  "ms_to_ticks ms =
     (let n = ms div 10;
          n = (if ms mod 10 \<noteq> 0 then n + 1 else n)
      in if n > 0x7FFFFFF0 then 0x7FFFFFF0 else n)"

definition deadline_after :: "u32 \<Rightarrow> sched \<Rightarrow> u32" where
  "deadline_after ms st =
     (let n = ms_to_ticks ms in ticks st + n + (if n \<noteq> 0 then 1 else 0))"

definition time_reached :: "u32 \<Rightarrow> u32 \<Rightarrow> bool" where
  "time_reached now dl \<longleftrightarrow> sint (now - dl) \<ge> 0"

definition uptime_ms :: "sched \<Rightarrow> u32" where
  "uptime_ms st = ticks st * 10"

subsection \<open>Creating tasks\<close>

function copy_name_loop :: "u8 list \<Rightarrow> u8 list \<Rightarrow> nat \<Rightarrow> u8 list" where
  "copy_name_loop dest src i =
     (if i < length src \<and> src ! i \<noteq> 0 \<and> i < 23
      then copy_name_loop (dest[i := src ! i]) src (i + 1)
      else dest[i := 0])"
  by pat_completeness auto
termination
  by (relation "measure (\<lambda>(dest, src, i). length src - i)") auto

declare copy_name_loop.simps [simp del]

definition copy_name :: "u8 list \<Rightarrow> u8 list option \<Rightarrow> u8 list" where
  "copy_name dest src = (case src of None \<Rightarrow> dest[0 := 0] | Some s \<Rightarrow> copy_name_loop dest s 0)"

text \<open>The initial stack of a task: the stack pointer and the words from it upwards.\<close>

definition build_stack :: "u32 \<Rightarrow> u32 \<Rightarrow> u32 \<Rightarrow> u32 \<Rightarrow> u32 \<times> u32 list" where
  "build_stack base entry selector trampoline =
     (((base + 8192) AND NOT 15) - 44,
      [entry, 0, 0, 0, 0, 0, 0, 0, trampoline, selector, 0x202])"

datatype 'r outcome = Panicked string | Done 'r sched | Switched sched

definition scheduler_init :: "u32 option \<Rightarrow> u32 \<Rightarrow> u32 \<Rightarrow> u32 \<Rightarrow> sched \<Rightarrow> unit outcome" where
  "scheduler_init idle_stack idle_entry selector trampoline st =
     (let st = set_task (Slot 0) (\<lambda>k. k\<lparr>stack := None, esp := 0, state := TASK_RUNNING,
                 task_id := next_id st, name := copy_name (name k) (Some [109, 97, 105, 110, 0])\<rparr>) st;
          st = st\<lparr>next_id := next_id st + 1\<rparr>
      in case idle_stack of
           None \<Rightarrow> Panicked ''scheduler: out of memory for idle stack''
         | Some s \<Rightarrow>
             let st = set_task Idle (\<lambda>k. k\<lparr>stack := Some s,
                   esp := fst (build_stack s idle_entry selector trampoline),
                   state := TASK_READY, task_id := 0,
                   name := copy_name (name k) (Some [105, 100, 108, 101, 0])\<rparr>) st
             in Done () (st\<lparr>slot_count := 1, last_slot := 0, current := Slot 0, running_flag := False\<rparr>))"

definition scheduler_start :: "sched \<Rightarrow> sched" where
  "scheduler_start st = st\<lparr>running_flag := True\<rparr>"

definition task_create ::
    "u32 option \<Rightarrow> u8 list option \<Rightarrow> u32 option \<Rightarrow> u32 \<Rightarrow> u32 \<Rightarrow> sched \<Rightarrow> int outcome" where
  "task_create entry nm new_stack selector trampoline st =
     (case entry of
        None \<Rightarrow> Done (-1) st
      | Some e \<Rightarrow>
          if slot_count st \<ge> 16 then Done (-1) st
          else (case new_stack of
             None \<Rightarrow> Panicked ''scheduler: out of memory for task stack''
           | Some s \<Rightarrow>
               let slot = slot_count st;
                   st = set_task (Slot slot) (\<lambda>k. k\<lparr>stack := Some s,
                     esp := fst (build_stack s e selector trampoline), state := TASK_READY,
                     task_id := next_id st, queue := None, wait_next := None,
                     has_deadline := False, wake_result := 0, name := copy_name (name k) nm\<rparr>) st
               in Done (int slot) (st\<lparr>next_id := next_id st + 1, slot_count := slot + 1\<rparr>)))"

subsection \<open>Waking and switching\<close>

definition make_ready :: "tptr \<Rightarrow> int \<Rightarrow> sched \<Rightarrow> sched" where
  "make_ready t result st =
     set_task t (\<lambda>k. k\<lparr>state := TASK_READY, queue := None, wait_next := None,
       has_deadline := False, wake_result := result\<rparr>) st"

definition wake_first :: "queue_id \<Rightarrow> sched \<Rightarrow> sched \<times> tptr option" where
  "wake_first q st =
     (case queue_pop q st of
        (st, None) \<Rightarrow> (st, None)
      | (st, Some t) \<Rightarrow> (make_ready t 0 st, Some t))"

text \<open>One iteration of the loop of \<open>wake_expired\<close>.\<close>

definition expire_slot :: "nat \<Rightarrow> sched \<Rightarrow> sched option" where
  "expire_slot i st =
     (let t = Slot i; k = tasks st t in
      if state k \<noteq> TASK_BLOCKED \<or> \<not> has_deadline k then Some st
      else if \<not> time_reached (ticks st) (deadline k) then Some st
      else (case queue k of
              Some q \<Rightarrow> map_option (make_ready t (-1)) (queue_remove q t st)
            | None \<Rightarrow> Some (make_ready t (-1) st)))"

fun for_each :: "('a \<Rightarrow> 's \<Rightarrow> 's option) \<Rightarrow> 'a list \<Rightarrow> 's \<Rightarrow> 's option" where
  "for_each f [] st = Some st"
| "for_each f (x # xs) st = (case f x st of None \<Rightarrow> None | Some st \<Rightarrow> for_each f xs st)"

definition wake_expired :: "sched \<Rightarrow> sched option" where
  "wake_expired st = for_each expire_slot [0..<slot_count st] st"

fun pick :: "sched \<Rightarrow> nat \<Rightarrow> nat \<Rightarrow> nat option" where
  "pick st probe 0 = None"
| "pick st probe (Suc k) =
     (let probe = (probe + 1) mod slot_count st in
      if state (tasks st (Slot probe)) = TASK_READY then Some probe else pick st probe k)"

definition schedule :: "u32 \<Rightarrow> sched \<Rightarrow> u32 \<times> sched" where
  "schedule old_esp st =
     (let st = set_task (current st) (\<lambda>k. k\<lparr>esp := old_esp,
                 state := (if state k = TASK_RUNNING then TASK_READY else state k)\<rparr>) st;
          (nxt, slot) = (case pick st (last_slot st) (slot_count st) of
                           None \<Rightarrow> (Idle, last_slot st) | Some p \<Rightarrow> (Slot p, p));
          st = st\<lparr>last_slot := slot, current := nxt\<rparr>;
          st = set_task nxt (\<lambda>k. k\<lparr>state := TASK_RUNNING\<rparr>) st
      in (esp (tasks st nxt), st))"

definition scheduler_switch :: "u32 \<Rightarrow> sched \<Rightarrow> u32 \<times> sched" where
  "scheduler_switch old_esp st = (if \<not> running_flag st then (old_esp, st) else schedule old_esp st)"

definition scheduler_tick :: "u32 \<Rightarrow> sched \<Rightarrow> (u32 \<times> sched) option" where
  "scheduler_tick old_esp st =
     (if \<not> running_flag st then Some (old_esp, st)
      else map_option (schedule old_esp) (wake_expired (st\<lparr>ticks := ticks st + 1\<rparr>)))"

definition block_current :: "queue_id option \<Rightarrow> bool \<Rightarrow> u32 \<Rightarrow> u32 \<Rightarrow> sched \<Rightarrow> int outcome" where
  "block_current q timed dl sp st =
     (let t = current st in
      if \<not> running_flag st then Panicked ''scheduler: blocking call before scheduler_start''
      else if t = Idle then Panicked ''scheduler: idle task must not block''
      else if timed \<and> time_reached (ticks st) dl then Done (-1) st
      else let
        st = (case q of Some q \<Rightarrow> queue_push q t st | None \<Rightarrow> st);
        st = set_task t (\<lambda>k. k\<lparr>queue := q, has_deadline := timed, deadline := dl,
               state := TASK_BLOCKED\<rparr>) st
      in Switched (snd (scheduler_switch sp st)))"

definition task_exit :: "u32 \<Rightarrow> sched \<Rightarrow> sched" where
  "task_exit sp st =
     snd (scheduler_switch sp (set_task (current st) (\<lambda>k. k\<lparr>state := TASK_TERMINATED\<rparr>) st))"

definition task_yield :: "u32 \<Rightarrow> sched \<Rightarrow> int outcome" where
  "task_yield sp st =
     (if \<not> running_flag st then Done 0 st else Switched (snd (scheduler_switch sp st)))"

definition task_sleep :: "u32 \<Rightarrow> u32 \<Rightarrow> sched \<Rightarrow> int outcome" where
  "task_sleep ms sp st =
     (if ms = 0 then task_yield sp st else block_current None True (deadline_after ms st) sp st)"

subsection \<open>Wait queues\<close>

text \<open>
  The loop of \<open>wait_queue_wait_until\<close>.  \<open>ready\<close> and \<open>ready'\<close> are the answers of the callback at the
  head of the loop and after a time-out.  \<open>wait_resumed\<close> is the rest of the iteration, which runs
  when the blocked task is scheduled again.
\<close>

definition wait_iteration ::
    "queue_id \<Rightarrow> bool \<Rightarrow> bool \<Rightarrow> bool \<Rightarrow> u32 \<Rightarrow> u32 \<Rightarrow> sched \<Rightarrow> int outcome" where
  "wait_iteration q ready ready' timed dl sp st =
     (if ready then Done 0 st
      else (case block_current (Some q) timed dl sp st of
              Done r st \<Rightarrow> Done (if r = -1 \<and> ready' then 0 else r) st
            | res \<Rightarrow> res))"

definition wait_resumed ::
    "queue_id \<Rightarrow> bool \<Rightarrow> bool \<Rightarrow> bool \<Rightarrow> u32 \<Rightarrow> u32 \<Rightarrow> sched \<Rightarrow> int outcome" where
  "wait_resumed q ready ready' timed dl sp st =
     (if wake_result (tasks st (current st)) = -1
      then Done (if ready then 0 else -1) st
      else wait_iteration q ready ready' timed dl sp st)"

definition wait_queue_wait_until ::
    "queue_id option \<Rightarrow> bool \<Rightarrow> bool \<Rightarrow> u32 \<Rightarrow> u32 \<Rightarrow> sched \<Rightarrow> int outcome" where
  "wait_queue_wait_until q ready ready' timeout_ms sp st =
     (case q of
        None \<Rightarrow> Panicked ''scheduler: invalid wait_queue_wait_until arguments''
      | Some q \<Rightarrow> wait_iteration q ready ready' (timeout_ms \<noteq> 0xFFFFFFFF)
                    (deadline_after timeout_ms st) sp st)"

definition wait_queue_wake_one :: "queue_id option \<Rightarrow> sched \<Rightarrow> nat outcome" where
  "wait_queue_wake_one q st =
     (case q of
        None \<Rightarrow> Panicked ''scheduler: null wait queue''
      | Some q \<Rightarrow> (case wake_first q st of (st, t) \<Rightarrow> Done (if t = None then 0 else 1) st))"

partial_function (option) wake_all_loop :: "queue_id \<Rightarrow> nat \<Rightarrow> sched \<Rightarrow> (nat \<times> sched) option" where
  "wake_all_loop q woken st =
     (case snd (wake_first q st) of
        None \<Rightarrow> Some (woken, fst (wake_first q st))
      | Some t \<Rightarrow> wake_all_loop q (woken + 1) (fst (wake_first q st)))"

definition wait_queue_wake_all :: "queue_id option \<Rightarrow> sched \<Rightarrow> nat outcome option" where
  "wait_queue_wake_all q st =
     (case q of
        None \<Rightarrow> Some (Panicked ''scheduler: null wait queue'')
      | Some q \<Rightarrow> map_option (\<lambda>(n, st). Done n st) (wake_all_loop q 0 st))"

subsection \<open>Semaphores\<close>

definition sem_init :: "nat \<Rightarrow> u32 \<Rightarrow> sched \<Rightarrow> sched" where
  "sem_init s n st = wait_queue_init (SemQ s) (st\<lparr>sem_count := (sem_count st)(s := n)\<rparr>)"

definition sem_wait_timeout :: "nat option \<Rightarrow> u32 \<Rightarrow> u32 \<Rightarrow> sched \<Rightarrow> int outcome" where
  "sem_wait_timeout s timeout_ms sp st =
     (case s of
        None \<Rightarrow> Panicked ''scheduler: null semaphore''
      | Some s \<Rightarrow>
          if sem_count st s > 0
          then Done 0 (st\<lparr>sem_count := (sem_count st)(s := sem_count st s - 1)\<rparr>)
          else block_current (Some (SemQ s)) (timeout_ms \<noteq> 0xFFFFFFFF)
                 (deadline_after timeout_ms st) sp st)"

definition sem_wait :: "nat option \<Rightarrow> u32 \<Rightarrow> sched \<Rightarrow> int outcome" where
  "sem_wait s sp st = sem_wait_timeout s 0xFFFFFFFF sp st"

definition sem_trywait :: "nat option \<Rightarrow> u32 \<Rightarrow> sched \<Rightarrow> int outcome" where
  "sem_trywait s sp st = sem_wait_timeout s 0 sp st"

definition sem_post :: "nat option \<Rightarrow> sched \<Rightarrow> unit outcome" where
  "sem_post s st =
     (case s of
        None \<Rightarrow> Panicked ''scheduler: null semaphore''
      | Some s \<Rightarrow>
          (case wake_first (SemQ s) st of
             (st, Some t) \<Rightarrow> Done () st
           | (st, None) \<Rightarrow>
               if sem_count st s = 0xFFFFFFFF then Panicked ''semaphore: count overflow''
               else Done () (st\<lparr>sem_count := (sem_count st)(s := sem_count st s + 1)\<rparr>)))"

subsection \<open>Mutexes\<close>

definition mutex_init :: "nat \<Rightarrow> sched \<Rightarrow> sched" where
  "mutex_init m st = wait_queue_init (MutexQ m) (st\<lparr>owner := (owner st)(m := None)\<rparr>)"

definition mutex_lock_timeout :: "nat option \<Rightarrow> u32 \<Rightarrow> u32 \<Rightarrow> sched \<Rightarrow> int outcome" where
  "mutex_lock_timeout m timeout_ms sp st =
     (case m of
        None \<Rightarrow> Panicked ''scheduler: null mutex''
      | Some m \<Rightarrow>
          if owner st m = Some (current st) then Panicked ''mutex: recursive lock''
          else if owner st m = None
          then Done 0 (st\<lparr>owner := (owner st)(m := Some (current st))\<rparr>)
          else block_current (Some (MutexQ m)) (timeout_ms \<noteq> 0xFFFFFFFF)
                 (deadline_after timeout_ms st) sp st)"

definition mutex_lock :: "nat option \<Rightarrow> u32 \<Rightarrow> sched \<Rightarrow> int outcome" where
  "mutex_lock m sp st = mutex_lock_timeout m 0xFFFFFFFF sp st"

definition mutex_trylock :: "nat option \<Rightarrow> sched \<Rightarrow> int outcome" where
  "mutex_trylock m st =
     (case m of
        None \<Rightarrow> Panicked ''scheduler: null mutex''
      | Some m \<Rightarrow>
          if owner st m = None then Done 0 (st\<lparr>owner := (owner st)(m := Some (current st))\<rparr>)
          else Done (-1) st)"

definition mutex_unlock :: "nat option \<Rightarrow> sched \<Rightarrow> unit outcome" where
  "mutex_unlock m st =
     (case m of
        None \<Rightarrow> Panicked ''scheduler: null mutex''
      | Some m \<Rightarrow>
          if owner st m \<noteq> Some (current st) then Panicked ''mutex: unlock by non-owner''
          else (case wake_first (MutexQ m) st of
                  (st, t) \<Rightarrow> Done () (st\<lparr>owner := (owner st)(m := t)\<rparr>)))"


section \<open>The invariant\<close>

text \<open>
  \<open>sched_core st qs\<close>: the queues hold exactly the blocked tasks that wait on them, the idle task
  never blocks, a free mutex and a positive semaphore have no waiters, and the owner of a mutex does
  not wait for it.  \<open>sched_wf\<close> adds that exactly one task runs, the current one.
\<close>

definition sched_core :: "sched \<Rightarrow> (queue_id \<Rightarrow> tptr list) \<Rightarrow> bool" where
  "sched_core st qs \<longleftrightarrow> queues_repr st qs \<and>
     0 < slot_count st \<and> slot_count st \<le> 16 \<and> last_slot st < slot_count st \<and>
     (\<forall>t q. t \<in> set (qs q) \<longleftrightarrow> state (tasks st t) = TASK_BLOCKED \<and> queue (tasks st t) = Some q) \<and>
     state (tasks st Idle) \<in> {TASK_READY, TASK_RUNNING} \<and>
     (\<forall>i. slot_count st \<le> i \<longrightarrow> state (tasks st (Slot i)) = TASK_UNUSED) \<and>
     (\<forall>m. owner st m = None \<longrightarrow> qs (MutexQ m) = []) \<and>
     (\<forall>m t. owner st m = Some t \<longrightarrow> t \<notin> set (qs (MutexQ m))) \<and>
     (\<forall>s. 0 < sem_count st s \<longrightarrow> qs (SemQ s) = [])"

definition only_runner :: "sched \<Rightarrow> bool" where
  "only_runner st \<longleftrightarrow> (\<forall>t. state (tasks st t) = TASK_RUNNING \<longrightarrow> t = current st)"

definition sched_wf :: "sched \<Rightarrow> bool" where
  "sched_wf st \<longleftrightarrow> (\<exists>qs. sched_core st qs) \<and> only_runner st \<and>
     state (tasks st (current st)) = TASK_RUNNING"

lemma sched_fields [simp]:
  "current (set_task t f st) = current st" "slot_count (set_task t f st) = slot_count st"
  "last_slot (set_task t f st) = last_slot st" "owner (set_task t f st) = owner st"
  "sem_count (set_task t f st) = sem_count st" "running_flag (set_task t f st) = running_flag st"
  "ticks (set_task t f st) = ticks st" "next_id (set_task t f st) = next_id st"
  by (simp_all add: set_task_def)

text \<open>What a change of the state may do without disturbing the queues.\<close>

lemma sched_core_cong:
  assumes "sched_core st qs"
    and "wait_queues st' = wait_queues st" "slot_count st' = slot_count st" "owner st' = owner st"
      "sem_count st' = sem_count st" "last_slot st' < slot_count st"
    and "\<And>t. state (tasks st t) = TASK_BLOCKED \<Longrightarrow> state (tasks st' t) = TASK_BLOCKED \<and>
      queue (tasks st' t) = queue (tasks st t) \<and> wait_next (tasks st' t) = wait_next (tasks st t)"
    and "\<And>t. state (tasks st' t) = TASK_BLOCKED \<Longrightarrow> state (tasks st t) = TASK_BLOCKED"
    and "state (tasks st' Idle) \<in> {TASK_READY, TASK_RUNNING}"
    and "\<And>i. slot_count st \<le> i \<Longrightarrow> state (tasks st' (Slot i)) = TASK_UNUSED"
  shows "sched_core st' qs"
proof -
  have in_q: "t \<in> set (qs q) \<longleftrightarrow> state (tasks st t) = TASK_BLOCKED \<and> queue (tasks st t) = Some q" for t q
    using assms(1) by (simp add: sched_core_def)
  have "queues_repr st qs" using assms(1) by (simp add: sched_core_def)
  then have "queues_repr st' qs"
    by (rule queues_repr_cong) (use assms(2,7) in_q in \<open>auto simp: nexts_def\<close>)
  moreover have "t \<in> set (qs q) \<longleftrightarrow> state (tasks st' t) = TASK_BLOCKED \<and> queue (tasks st' t) = Some q"
    for t q using in_q[of t q] assms(7)[of t] assms(8)[of t] by auto
  ultimately show ?thesis using assms(1-6,9,10) unfolding sched_core_def by auto
qed

lemma sched_coreD:
  assumes "sched_core st qs"
  shows "last_slot st < slot_count st"
    and "state (tasks st Idle) = TASK_READY \<or> state (tasks st Idle) = TASK_RUNNING"
    and "\<And>i. slot_count st \<le> i \<Longrightarrow> state (tasks st (Slot i)) = TASK_UNUSED"
    and "\<And>t q. t \<in> set (qs q) \<longleftrightarrow>
      state (tasks st t) = TASK_BLOCKED \<and> queue (tasks st t) = Some q"
    and "queues_repr st qs"
  using assms by (auto simp: sched_core_def)

lemma sched_coreI:
  assumes "queues_repr st qs" "0 < slot_count st" "slot_count st \<le> 16"
    "last_slot st < slot_count st"
    "\<And>t q. t \<in> set (qs q) \<longleftrightarrow> state (tasks st t) = TASK_BLOCKED \<and> queue (tasks st t) = Some q"
    "state (tasks st Idle) = TASK_READY \<or> state (tasks st Idle) = TASK_RUNNING"
    "\<And>i. slot_count st \<le> i \<Longrightarrow> state (tasks st (Slot i)) = TASK_UNUSED"
    "\<And>m. owner st m = None \<Longrightarrow> qs (MutexQ m) = []"
    "\<And>m t. owner st m = Some t \<Longrightarrow> t \<notin> set (qs (MutexQ m))"
    "\<And>s. 0 < sem_count st s \<Longrightarrow> qs (SemQ s) = []"
  shows "sched_core st qs"
  using assms unfolding sched_core_def by simp

lemma sched_core_sync:
  assumes "sched_core st qs"
  shows "0 < slot_count st" "slot_count st \<le> 16"
    "\<And>m. owner st m = None \<Longrightarrow> qs (MutexQ m) = []"
    "\<And>m t. owner st m = Some t \<Longrightarrow> t \<notin> set (qs (MutexQ m))"
    "\<And>s. 0 < sem_count st s \<Longrightarrow> qs (SemQ s) = []"
  using assms unfolding sched_core_def by blast+

lemma not_waiting:
  "sched_core st qs \<Longrightarrow> state (tasks st t) \<noteq> TASK_BLOCKED \<Longrightarrow> t \<notin> set (qs q)"
  by (auto simp: sched_core_def)

lemma used_slot:
  "sched_core st qs \<Longrightarrow> state (tasks st (Slot i)) \<noteq> TASK_UNUSED \<Longrightarrow> i < slot_count st"
  by (rule ccontr) (auto simp: sched_core_def)

lemma pick_SomeD:
  "pick st p k = Some j \<Longrightarrow> state (tasks st (Slot j)) = TASK_READY"
  by (induction st p k rule: pick.induct) (auto simp: Let_def split: if_splits)

text \<open>The task that \<open>schedule\<close> picks, from the state in which the old one is ready again.\<close>

definition paused :: "u32 \<Rightarrow> sched \<Rightarrow> sched" where
  "paused e st = set_task (current st) (\<lambda>k. k\<lparr>esp := e,
      state := (if state k = TASK_RUNNING then TASK_READY else state k)\<rparr>) st"

lemma schedule_cases:
  obtains (idle) "pick (paused e st) (last_slot st) (slot_count st) = None"
      "snd (schedule e st) = set_task Idle (\<lambda>k. k\<lparr>state := TASK_RUNNING\<rparr>)
         ((paused e st)\<lparr>last_slot := last_slot st, current := Idle\<rparr>)"
  | (slot) p where "pick (paused e st) (last_slot st) (slot_count st) = Some p"
      "state (tasks (paused e st) (Slot p)) = TASK_READY"
      "snd (schedule e st) = set_task (Slot p) (\<lambda>k. k\<lparr>state := TASK_RUNNING\<rparr>)
         ((paused e st)\<lparr>last_slot := p, current := Slot p\<rparr>)"
proof (cases "pick (paused e st) (last_slot st) (slot_count st)")
  case None
  then show thesis using idle by (simp add: schedule_def paused_def Let_def)
next
  case (Some p)
  then show thesis using slot pick_SomeD[OF Some] by (simp add: schedule_def paused_def Let_def)
qed

lemma paused_core:
  assumes "sched_core st qs"
  shows "sched_core (paused e st) qs"
  using assms
proof (rule sched_core_cong)
  fix i
  assume i: "slot_count st \<le> i"
  then have "state (tasks st (Slot i)) = TASK_UNUSED" using sched_coreD(3)[OF assms] by simp
  then show "state (tasks (paused e st) (Slot i)) = TASK_UNUSED" by (auto simp: paused_def)
qed (use sched_coreD(1,2)[OF assms] in \<open>auto simp: paused_def set_task_def split: if_splits\<close>)

lemma sched_core_set_task:
  assumes "sched_core st qs" "state (tasks st t) \<noteq> TASK_BLOCKED"
    and "state (f (tasks st t)) \<noteq> TASK_BLOCKED"
    and "t = Idle \<Longrightarrow> state (f (tasks st t)) \<in> {TASK_READY, TASK_RUNNING}"
    and "\<And>i. t = Slot i \<Longrightarrow> i < slot_count st"
  shows "sched_core (set_task t f st) qs"
  using assms(1)
proof (rule sched_core_cong)
  show "last_slot (set_task t f st) < slot_count st" using sched_coreD(1)[OF assms(1)] by simp
  show "state (tasks (set_task t f st) Idle) \<in> {TASK_READY, TASK_RUNNING}"
    using sched_coreD(2)[OF assms(1)] assms(4) by auto
  show "state (tasks (set_task t f st) (Slot i)) = TASK_UNUSED" if "slot_count st \<le> i" for i
    using sched_coreD(3)[OF assms(1) that] assms(5)[of i] that by auto
qed (use assms(2,3) in \<open>auto split: if_splits\<close>)

lemma sched_core_pointer:
  assumes "sched_core st qs" "n < slot_count st"
  shows "sched_core (st\<lparr>last_slot := n, current := c\<rparr>) qs"
  using assms(1)
  by (rule sched_core_cong) (use assms sched_coreD(2,3)[OF assms(1)] in simp_all)

lemma paused_none_running:
  assumes "only_runner st"
  shows "state (tasks (paused e st) t) \<noteq> TASK_RUNNING"
  using assms unfolding paused_def only_runner_def by (cases "t = current st") auto

lemma schedule_core:
  assumes "sched_core st qs"
  shows "sched_core (snd (schedule e st)) qs"
proof -
  let ?s = "paused e st"
  note core = paused_core[OF assms(1), of e]
  have sl: "last_slot st < slot_count ?s" using sched_coreD(1)[OF assms(1)] by (simp add: paused_def)
  show ?thesis
  proof (rule schedule_cases[of e st])
    assume s: "snd (schedule e st) = set_task Idle (\<lambda>k. k\<lparr>state := TASK_RUNNING\<rparr>)
         (?s\<lparr>last_slot := last_slot st, current := Idle\<rparr>)"
    show ?thesis unfolding s
      by (rule sched_core_set_task[OF sched_core_pointer[OF core sl]])
        (use sched_coreD(2)[OF core] in auto)
  next
    fix p
    assume r: "state (tasks ?s (Slot p)) = TASK_READY"
      and s: "snd (schedule e st) = set_task (Slot p) (\<lambda>k. k\<lparr>state := TASK_RUNNING\<rparr>)
         (?s\<lparr>last_slot := p, current := Slot p\<rparr>)"
    have p: "p < slot_count ?s" using used_slot[OF core, of p] r by simp
    show ?thesis unfolding s
      by (rule sched_core_set_task[OF sched_core_pointer[OF core p]]) (use r p in auto)
  qed
qed

lemma schedule_runs:
  assumes "only_runner st"
  shows "only_runner (snd (schedule e st))"
    "state (tasks (snd (schedule e st)) (current (snd (schedule e st)))) = TASK_RUNNING"
proof -
  have "only_runner (snd (schedule e st)) \<and>
    state (tasks (snd (schedule e st)) (current (snd (schedule e st)))) = TASK_RUNNING"
    by (rule schedule_cases[of e st])
      (simp_all only: only_runner_def, simp_all add: paused_none_running[OF assms])
  then show "only_runner (snd (schedule e st))"
    "state (tasks (snd (schedule e st)) (current (snd (schedule e st)))) = TASK_RUNNING" by auto
qed

lemma schedule_wf: "sched_core st qs \<Longrightarrow> only_runner st \<Longrightarrow> sched_wf (snd (schedule e st))"
  unfolding sched_wf_def using schedule_core schedule_runs by blast


subsection \<open>Waking\<close>

lemma core_wake:
  assumes c: "sched_core st qs" and e: "erase st' = erase st"
    and q: "queues_repr st' (qs(q := ts))" and t: "t \<in> set (qs q)" "set ts = set (qs q) - {t}"
  shows "sched_core (make_ready t r st') (qs(q := ts))"
proof -
  note f = erase_eqD[OF e]
  note d = sched_coreD[OF c]
  have tq: "t \<notin> set ((qs(q := ts)) r)" for r
    using t d(4)[of t q] d(4)[of t r] by auto
  have repr: "queues_repr (make_ready t r st') (qs(q := ts))"
    using q by (rule queues_repr_cong) (use tq in \<open>auto simp: make_ready_def\<close>)
  have b: "state (tasks st t) = TASK_BLOCKED" "queue (tasks st t) = Some q"
    using d(4)[of t q] t(1) by simp_all
  have inq: "u \<in> set ((qs(q := ts)) r) \<longleftrightarrow> u \<noteq> t \<and> state (tasks st u) = TASK_BLOCKED \<and>
      queue (tasks st u) = Some r" for u r
  proof (cases "r = q")
    case True
    then show ?thesis by (simp add: t(2) d(4) conj_commute)
  next
    case False
    then show ?thesis using b(2) by (cases "u = t") (simp_all add: d(4))
  qed
  have idle: "t \<noteq> Idle" using b d(2) by auto
  have slot: "Slot i \<noteq> t" if "slot_count st \<le> i" for i using b d(3)[OF that] by auto
  have ne: "qs q \<noteq> []" using t(1) by auto
  have task: "state (tasks (make_ready t r st') u) = (if u = t then TASK_READY else state (tasks st u))"
    "queue (tasks (make_ready t r st') u) = (if u = t then None else queue (tasks st u))" for u
    by (simp_all add: make_ready_def f)
  have fields: "slot_count (make_ready t r st') = slot_count st"
    "last_slot (make_ready t r st') = last_slot st" "owner (make_ready t r st') = owner st"
    "sem_count (make_ready t r st') = sem_count st"
    by (simp_all add: make_ready_def f)
  note s = sched_core_sync[OF c]
  show ?thesis
  proof (rule sched_coreI, unfold fields task)
    fix u r
    show "u \<in> set ((qs(q := ts)) r) \<longleftrightarrow> (if u = t then TASK_READY else state (tasks st u)) = TASK_BLOCKED \<and>
        (if u = t then None else queue (tasks st u)) = Some r"
      using inq by simp
  next
    fix m
    assume "owner st m = None"
    then show "(qs(q := ts)) (MutexQ m) = []" using s(3)[of m] ne by (cases "q = MutexQ m") auto
  next
    fix m u
    assume "owner st m = Some u"
    then show "u \<notin> set ((qs(q := ts)) (MutexQ m))"
      using s(4)[of m u] t(2) by (cases "q = MutexQ m") auto
  next
    fix k
    assume "0 < sem_count st k"
    then show "(qs(q := ts)) (SemQ k) = []" using s(5)[of k] ne by (cases "q = SemQ k") auto
  qed (use repr s(1,2) d(1-3) idle slot in simp_all)
qed

lemma wake_first_empty:
  "sched_core st qs \<Longrightarrow> qs q = [] \<Longrightarrow> wake_first q st = (st, None)"
  using queue_pop_None[OF sched_coreD(5)] by (simp add: wake_first_def)

lemma wake_first_core:
  assumes "sched_core st qs" "qs q = t # ts"
  shows "\<exists>st'. wake_first q st = (make_ready t 0 st', Some t) \<and> erase st' = erase st \<and>
    sched_core (make_ready t 0 st') (qs(q := ts))"
proof -
  obtain st' where p: "queue_pop q st = (st', Some t)" "queues_repr st' (qs(q := ts))"
    using queue_pop_repr[OF sched_coreD(5)[OF assms(1)] assms(2)] by blast
  have e: "erase st' = erase st" using erase_pop[of q st] p(1) by simp
  have "distinct (qs q)" using wq.repr_distinct[OF sched_coreD(5)[OF assms(1)]] .
  then have "t \<in> set (qs q)" "set ts = set (qs q) - {t}" using assms(2) by auto
  then have "sched_core (make_ready t 0 st') (qs(q := ts))"
    by (rule core_wake[OF assms(1) e p(2)])
  then show ?thesis using p(1) e by (intro exI[of _ st']) (simp add: wake_first_def)
qed

text \<open>Waking a task changes neither who runs nor the clock nor the slots.\<close>

definition same_runner :: "sched \<Rightarrow> sched \<Rightarrow> bool" where
  "same_runner st st' \<longleftrightarrow> current st' = current st \<and> slot_count st' = slot_count st \<and>
     last_slot st' = last_slot st \<and> ticks st' = ticks st \<and> running_flag st' = running_flag st \<and>
     owner st' = owner st \<and> sem_count st' = sem_count st \<and>
     (\<forall>t. state (tasks st t) \<noteq> TASK_BLOCKED \<longrightarrow> state (tasks st' t) = state (tasks st t)) \<and>
     (\<forall>t. state (tasks st' t) = TASK_RUNNING \<longrightarrow> state (tasks st t) = TASK_RUNNING)"

lemma same_runner_refl [simp]: "same_runner st st"
  by (simp add: same_runner_def)

lemma same_runner_trans:
  assumes "same_runner a b" "same_runner b c"
  shows "same_runner a c"
  using assms unfolding same_runner_def by metis

lemma same_runner_wake:
  assumes "erase st' = erase st" "state (tasks st t) = TASK_BLOCKED"
  shows "same_runner st (make_ready t r st')"
  using assms(2) by (auto simp: same_runner_def make_ready_def erase_eqD[OF assms(1)])

lemma same_runner_wf:
  "same_runner st st' \<Longrightarrow> sched_wf st \<Longrightarrow> sched_core st' qs \<Longrightarrow> sched_wf st'"
  by (auto simp: same_runner_def sched_wf_def only_runner_def)

lemma wake_first_wf:
  assumes "sched_core st qs"
  shows "\<exists>qs'. sched_core (fst (wake_first q st)) qs'" "same_runner st (fst (wake_first q st))"
proof -
  have "(\<exists>qs'. sched_core (fst (wake_first q st)) qs') \<and> same_runner st (fst (wake_first q st))"
  proof (cases "qs q")
    case Nil
    then show ?thesis using assms wake_first_empty[OF assms] by auto
  next
    case (Cons t ts)
    have "t \<in> set (qs q)" using Cons by simp
    then have "state (tasks st t) = TASK_BLOCKED" using sched_coreD(4)[OF assms] by blast
    then show ?thesis using wake_first_core[OF assms Cons] same_runner_wake[of _ st t 0] by auto
  qed
  then show "\<exists>qs'. sched_core (fst (wake_first q st)) qs'" "same_runner st (fst (wake_first q st))"
    by auto
qed

lemma expire_sleeper:
  assumes "sched_core st qs" "state (tasks st t) = TASK_BLOCKED" "queue (tasks st t) = None"
  shows "sched_core (make_ready t r st) qs"
proof -
  note d = sched_coreD[OF assms(1)]
  note s = sched_core_sync[OF assms(1)]
  have tq: "t \<notin> set (qs q)" for q using d(4)[of t q] assms(3) by simp
  have repr: "queues_repr (make_ready t r st) qs"
    using d(5) by (rule queues_repr_cong) (use tq in \<open>auto simp: make_ready_def\<close>)
  have idle: "t \<noteq> Idle" using assms(2) d(2) by auto
  have slot: "Slot i \<noteq> t" if "slot_count st \<le> i" for i using assms(2) d(3)[OF that] by auto
  have inq: "u \<in> set (qs q) \<longleftrightarrow> u \<noteq> t \<and> state (tasks st u) = TASK_BLOCKED \<and> queue (tasks st u) = Some q"
    for u q using d(4)[of u q] tq by auto
  show ?thesis
    by (rule sched_coreI)
      (use repr s d(1-3) idle slot inq in \<open>simp_all add: make_ready_def split: if_splits\<close>)
qed

lemma expire_slot_core:
  assumes "sched_core st qs"
  shows "\<exists>st' qs'. expire_slot i st = Some st' \<and> sched_core st' qs' \<and> same_runner st st'"
proof (cases "state (tasks st (Slot i)) = TASK_BLOCKED \<and> has_deadline (tasks st (Slot i)) \<and>
    time_reached (ticks st) (deadline (tasks st (Slot i)))")
  case False
  then show ?thesis using assms same_runner_refl by (auto simp: expire_slot_def Let_def)
next
  case True
  let ?t = "Slot i"
  note d = sched_coreD[OF assms]
  show ?thesis
  proof (cases "queue (tasks st ?t)")
    case None
    have "sched_core (make_ready ?t (-1) st) qs"
      using expire_sleeper[OF assms _ None] True by simp
    then show ?thesis
      using True None same_runner_wake[of st st ?t "-1"] by (auto simp: expire_slot_def Let_def)
  next
    case (Some q)
    have tq: "?t \<in> set (qs q)" using d(4)[of ?t q] Some True by simp
    obtain st' where r: "queue_remove q ?t st = Some st'" "queues_repr st' (qs(q := remove1 ?t (qs q)))"
      using queue_remove_repr[OF d(5)] by blast
    have e: "erase st' = erase st" using erase_remove[OF r(1)] .
    have "set (remove1 ?t (qs q)) = set (qs q) - {?t}"
      using wq.repr_distinct[OF d(5), of q] by (simp add: set_remove1_eq)
    then have "sched_core (make_ready ?t (-1) st') (qs(q := remove1 ?t (qs q)))"
      using core_wake[OF assms e r(2) tq] by simp
    then show ?thesis
      using True Some r(1) same_runner_wake[OF e, of ?t "-1"] by (auto simp: expire_slot_def Let_def)
  qed
qed

lemma for_each_core:
  "sched_core st qs \<Longrightarrow> \<exists>st' qs'. for_each expire_slot is st = Some st' \<and> sched_core st' qs' \<and>
     same_runner st st'"
proof (induction "is" arbitrary: st qs)
  case (Cons i "is")
  then show ?case using expire_slot_core[OF Cons.prems, of i] same_runner_trans by fastforce
qed auto


lemma scheduler_tick_wf:
  assumes "sched_wf st"
  shows "\<exists>e' st'. scheduler_tick e st = Some (e', st') \<and> sched_wf st'"
proof (cases "running_flag st")
  case False
  then show ?thesis using assms by (simp add: scheduler_tick_def)
next
  case True
  obtain qs where c: "sched_core st qs" using assms by (auto simp: sched_wf_def)
  let ?s = "st\<lparr>ticks := ticks st + 1\<rparr>"
  have "sched_core ?s qs"
    using c by (rule sched_core_cong) (use sched_coreD(1-3)[OF c] in simp_all)
  then obtain st' qs' where w: "wake_expired ?s = Some st'" "sched_core st' qs'" "same_runner ?s st'"
    using for_each_core[of ?s qs "[0..<slot_count ?s]"] unfolding wake_expired_def by blast
  have "only_runner st'"
    using assms w(3) by (auto simp: sched_wf_def only_runner_def same_runner_def)
  then show ?thesis
    using schedule_wf[OF w(2), of e] w(1) True
    by (cases "schedule e st'") (auto simp: scheduler_tick_def)
qed

subsection \<open>Blocking\<close>

definition waiters_allowed :: "sched \<Rightarrow> tptr \<Rightarrow> queue_id option \<Rightarrow> bool" where
  "waiters_allowed st t q \<longleftrightarrow>
     (case q of Some (SemQ s) \<Rightarrow> sem_count st s = 0
      | Some (MutexQ m) \<Rightarrow> owner st m \<noteq> None \<and> owner st m \<noteq> Some t | _ \<Rightarrow> True)"

text \<open>The state between marking the current task blocked and switching away from it.\<close>

definition parked :: "queue_id option \<Rightarrow> bool \<Rightarrow> u32 \<Rightarrow> sched \<Rightarrow> sched" where
  "parked q timed dl st =
     set_task (current st) (\<lambda>k. k\<lparr>queue := q, has_deadline := timed, deadline := dl,
        state := TASK_BLOCKED\<rparr>) (case q of Some q \<Rightarrow> queue_push q (current st) st | None \<Rightarrow> st)"

lemma parked_fields:
  "state (tasks (parked q timed dl st) u) =
     (if u = current st then TASK_BLOCKED else state (tasks st u))"
  "queue (tasks (parked q timed dl st) u) = (if u = current st then q else queue (tasks st u))"
  "slot_count (parked q timed dl st) = slot_count st"
  "last_slot (parked q timed dl st) = last_slot st" "owner (parked q timed dl st) = owner st"
  "sem_count (parked q timed dl st) = sem_count st" "current (parked q timed dl st) = current st"
  "running_flag (parked q timed dl st) = running_flag st"
proof -
  let ?s = "case q of Some q \<Rightarrow> queue_push q (current st) st | None \<Rightarrow> st"
  have "erase ?s = erase st" by (simp split: option.splits)
  note f = erase_eqD[OF this]
  show "state (tasks (parked q timed dl st) u) =
     (if u = current st then TASK_BLOCKED else state (tasks st u))"
    "queue (tasks (parked q timed dl st) u) = (if u = current st then q else queue (tasks st u))"
    "slot_count (parked q timed dl st) = slot_count st"
    "last_slot (parked q timed dl st) = last_slot st" "owner (parked q timed dl st) = owner st"
    "sem_count (parked q timed dl st) = sem_count st" "current (parked q timed dl st) = current st"
    "running_flag (parked q timed dl st) = running_flag st"
    unfolding parked_def by (simp_all add: f)
qed

lemma parked_repr:
  assumes "sched_core st qs" "state (tasks st (current st)) = TASK_RUNNING"
  shows "queues_repr (parked q timed dl st)
    (case q of None \<Rightarrow> qs | Some q \<Rightarrow> qs(q := qs q @ [current st]))"
proof -
  have out: "\<forall>r. current st \<notin> set (qs r)" using not_waiting[OF assms(1)] assms(2) by simp
  show ?thesis
  proof (cases q)
    case None
    have "queues_repr (parked q timed dl st) qs"
      using sched_coreD(5)[OF assms(1)]
      by (rule queues_repr_cong) (use None in \<open>simp_all add: parked_def nexts_def\<close>)
    then show ?thesis using None by simp
  next
    case (Some k)
    have "queues_repr (queue_push k (current st) st) (qs(k := qs k @ [current st]))"
      using queue_push_repr[OF sched_coreD(5)[OF assms(1)] out] .
    then have "queues_repr (parked q timed dl st) (qs(k := qs k @ [current st]))"
      by (rule queues_repr_cong) (use Some in \<open>simp_all add: parked_def nexts_def\<close>)
    then show ?thesis using Some by simp
  qed
qed

lemma parked_core:
  assumes c: "sched_core st qs" and r: "state (tasks st (current st)) = TASK_RUNNING"
    and ni: "current st \<noteq> Idle" and w: "waiters_allowed st (current st) q"
  shows "sched_core (parked q timed dl st)
    (case q of None \<Rightarrow> qs | Some q \<Rightarrow> qs(q := qs q @ [current st]))"
proof -
  let ?qs = "case q of None \<Rightarrow> qs | Some q \<Rightarrow> qs(q := qs q @ [current st])"
  note d = sched_coreD[OF c]
  note s = sched_core_sync[OF c]
  have out: "current st \<notin> set (qs r)" for r using not_waiting[OF c] r by simp
  have slot: "Slot i \<noteq> current st" if "slot_count st \<le> i" for i using r d(3)[OF that] by auto
  show ?thesis
  proof (rule sched_coreI[OF parked_repr[OF c r]], unfold parked_fields)
    fix u k
    show "u \<in> set (?qs k) \<longleftrightarrow> (if u = current st then TASK_BLOCKED else state (tasks st u)) = TASK_BLOCKED \<and>
        (if u = current st then q else queue (tasks st u)) = Some k"
      using out[of k] by (cases q) (auto simp: d(4))
  next
    fix m
    assume "owner st m = None"
    then show "?qs (MutexQ m) = []"
      using s(3)[of m] w by (auto simp: waiters_allowed_def split: option.splits)
  next
    fix m u
    assume "owner st m = Some u"
    then show "u \<notin> set (?qs (MutexQ m))"
      using s(4)[of m u] w by (auto simp: waiters_allowed_def split: option.splits)
  next
    fix k
    assume "0 < sem_count st k"
    then show "?qs (SemQ k) = []"
      using s(5)[of k] w by (auto simp: waiters_allowed_def split: option.splits)
  qed (use s(1,2) d(1-3) slot ni in simp_all)
qed

lemma block_current_eq:
  "block_current q timed dl sp st =
     (if \<not> running_flag st then Panicked ''scheduler: blocking call before scheduler_start''
      else if current st = Idle then Panicked ''scheduler: idle task must not block''
      else if timed \<and> time_reached (ticks st) dl then Done (-1) st
      else Switched (snd (schedule sp (parked q timed dl st))))"
  using parked_fields(8)[of q timed dl st]
  by (cases q) (simp_all add: block_current_def parked_def scheduler_switch_def Let_def)

text \<open>The state an operation leaves behind, when it does not panic.\<close>

fun resulting :: "'r outcome \<Rightarrow> sched option" where
  "resulting (Panicked msg) = None"
| "resulting (Done r st) = Some st"
| "resulting (Switched st) = Some st"

lemma block_current_wf:
  assumes "sched_wf st" "waiters_allowed st (current st) q"
    and "resulting (block_current q timed dl sp st) = Some st'"
  shows "sched_wf st'"
proof -
  obtain qs where c: "sched_core st qs" using assms(1) by (auto simp: sched_wf_def)
  have r: "state (tasks st (current st)) = TASK_RUNNING" "only_runner st"
    using assms(1) by (auto simp: sched_wf_def)
  have run: "only_runner (parked q timed dl st)"
    using r(2) by (auto simp: only_runner_def parked_fields)
  have "sched_wf (snd (schedule sp (parked q timed dl st)))" if "current st \<noteq> Idle"
    using schedule_wf[OF parked_core[OF c r(1) that assms(2)] run] .
  then show ?thesis
    using assms(1,3) by (auto simp: block_current_eq split: if_splits)
qed

section \<open>Reachable states\<close>

definition boot :: sched where
  "boot = \<lparr>tasks = (\<lambda>_. \<lparr>esp = 0, stack = None, state = TASK_UNUSED, task_id = 0,
      name = replicate 24 0, queue = None, wait_next = None, deadline = 0, has_deadline = False,
      wake_result = 0\<rparr>),
    wait_queues = (\<lambda>_. \<lparr>head = None, tail = None\<rparr>), sem_count = (\<lambda>_. 0), owner = (\<lambda>_. None),
    current = Slot 0, slot_count = 0, last_slot = 0, next_id = 1, running_flag = False, ticks = 0\<rparr>"

text \<open>
  One step of the kernel: a timer interrupt, or one call of the current task or of an interrupt
  handler.  Queues, semaphores and mutexes are initialised only while nobody waits on them, and the
  idle task does not exit (its code is an endless loop).
\<close>

inductive sched_step :: "sched \<Rightarrow> sched \<Rightarrow> bool" where
  tick: "scheduler_tick sp st = Some (sp', st') \<Longrightarrow> sched_step st st'"
| start: "sched_step st (scheduler_start st)"
| create: "resulting (task_create entry nm stk sel tr st) = Some st' \<Longrightarrow> sched_step st st'"
| yield: "resulting (task_yield sp st) = Some st' \<Longrightarrow> sched_step st st'"
| sleep: "resulting (task_sleep ms sp st) = Some st' \<Longrightarrow> sched_step st st'"
| exit: "\<lbrakk>running_flag st; current st \<noteq> Idle\<rbrakk> \<Longrightarrow> sched_step st (task_exit sp st)"
| wait: "resulting (wait_queue_wait_until (Some (WaitQ n)) b b' ms sp st) = Some st'
    \<Longrightarrow> sched_step st st'"
| resumed: "resulting (wait_resumed (WaitQ n) b b' timed dl sp st) = Some st' \<Longrightarrow> sched_step st st'"
| wake_one: "resulting (wait_queue_wake_one (Some (WaitQ n)) st) = Some st' \<Longrightarrow> sched_step st st'"
| wake_all: "wait_queue_wake_all (Some (WaitQ n)) st = Some res \<Longrightarrow> resulting res = Some st'
    \<Longrightarrow> sched_step st st'"
| sem_new: "head (wait_queues st (SemQ k)) = None \<Longrightarrow> sched_step st (sem_init k c st)"
| sem_wait: "resulting (sem_wait_timeout k ms sp st) = Some st' \<Longrightarrow> sched_step st st'"
| sem_post: "resulting (sem_post k st) = Some st' \<Longrightarrow> sched_step st st'"
| mutex_new: "head (wait_queues st (MutexQ m)) = None \<Longrightarrow> sched_step st (mutex_init m st)"
| mutex_lock: "resulting (mutex_lock_timeout mo ms sp st) = Some st' \<Longrightarrow> sched_step st st'"
| mutex_trylock: "resulting (mutex_trylock mo st) = Some st' \<Longrightarrow> sched_step st st'"
| mutex_unlock: "resulting (mutex_unlock mo st) = Some st' \<Longrightarrow> sched_step st st'"

inductive reachable :: "sched \<Rightarrow> bool" where
  init: "scheduler_init (Some s) e sel tr boot = Done () st \<Longrightarrow> reachable st"
| step: "reachable st \<Longrightarrow> sched_step st st' \<Longrightarrow> reachable st'"

lemma boot_wf:
  assumes "scheduler_init (Some s) e sel tr boot = Done () st"
  shows "sched_wf st"
proof -
  have st: "wait_queues st = (\<lambda>_. \<lparr>head = None, tail = None\<rparr>)"
    "owner st = (\<lambda>_. None)" "sem_count st = (\<lambda>_. 0)" "slot_count st = 1" "last_slot st = 0"
    "current st = Slot 0"
    "\<And>t. state (tasks st t) = (if t = Slot 0 then TASK_RUNNING else if t = Idle then TASK_READY
      else TASK_UNUSED)"
    using assms by (simp_all add: scheduler_init_def boot_def Let_def set_task_def, auto)
  have "queues_repr st (\<lambda>_. [])" by (simp add: queues_repr_def st last_of_def)
  then have "sched_core st (\<lambda>_. [])" by (rule sched_coreI) (simp_all add: st)
  then show ?thesis by (auto simp: sched_wf_def only_runner_def st split: if_splits)
qed

lemma task_create_wf:
  assumes "sched_wf st" "resulting (task_create entry nm stk sel tr st) = Some st'"
  shows "sched_wf st'"
proof (cases "st' = st")
  case False
  obtain qs where c: "sched_core st qs" using assms(1) by (auto simp: sched_wf_def)
  note d = sched_coreD[OF c]
  note s = sched_core_sync[OF c]
  define n where "n = slot_count st"
  have u: "state (tasks st (Slot n)) = TASK_UNUSED" using d(3) by (simp add: n_def)
  have st': "n < 16" "slot_count st' = n + 1" "last_slot st' = last_slot st" "owner st' = owner st"
    "sem_count st' = sem_count st" "current st' = current st" "wait_queues st' = wait_queues st"
    "\<And>t. t \<noteq> Slot n \<Longrightarrow> tasks st' t = tasks st t" "state (tasks st' (Slot n)) = TASK_READY"
    using assms(2) False
    by (auto simp: task_create_def n_def Let_def set_task_def split: option.splits if_splits)
  have out: "Slot n \<notin> set (qs q)" for q using not_waiting[OF c, of "Slot n"] u by simp
  have repr: "queues_repr st' qs"
    using d(5) by (rule queues_repr_cong) (use st' out in \<open>metis nexts_def\<close>)+
  have inq: "t \<in> set (qs q) \<longleftrightarrow> state (tasks st' t) = TASK_BLOCKED \<and> queue (tasks st' t) = Some q"
    for t q using out[of q] st'(8)[of t] st'(9) by (cases "t = Slot n") (auto simp: d(4))
  have "sched_core st' qs"
    by (rule sched_coreI[OF repr _ _ _ inq]) (use s d(1-3) st' in \<open>simp_all add: n_def\<close>)
  moreover have "Slot n \<noteq> current st" using u assms(1) by (auto simp: sched_wf_def)
  moreover have "state (tasks st' (Slot n)) \<noteq> TASK_RUNNING" using st'(9) by simp
  ultimately show ?thesis
    using assms(1) st'(6,8) unfolding sched_wf_def only_runner_def by metis
qed (use assms in simp)


lemma schedule_sched_wf: "sched_wf st \<Longrightarrow> sched_wf (snd (schedule e st))"
  using schedule_wf by (auto simp: sched_wf_def)

lemma task_yield_wf: "sched_wf st \<Longrightarrow> resulting (task_yield sp st) = Some st' \<Longrightarrow> sched_wf st'"
  using schedule_sched_wf by (auto simp: task_yield_def scheduler_switch_def split: if_splits)

lemma task_exit_wf:
  assumes "sched_wf st" "running_flag st" "current st \<noteq> Idle"
  shows "sched_wf (task_exit sp st)"
proof -
  let ?s = "set_task (current st) (\<lambda>k. k\<lparr>state := TASK_TERMINATED\<rparr>) st"
  obtain qs where c: "sched_core st qs" and r: "state (tasks st (current st)) = TASK_RUNNING"
    "only_runner st" using assms(1) by (auto simp: sched_wf_def)
  have "sched_core ?s qs"
    using c by (rule sched_core_set_task) (use r assms(3) used_slot[OF c] in auto)
  moreover have "only_runner ?s" using r(2) by (auto simp: only_runner_def)
  ultimately show ?thesis
    using schedule_wf assms(2) by (simp add: task_exit_def scheduler_switch_def)
qed

lemma wait_iteration_wf:
  "sched_wf st \<Longrightarrow> resulting (wait_iteration (WaitQ n) b b' timed dl sp st) = Some st' \<Longrightarrow> sched_wf st'"
  using block_current_wf[of st "Some (WaitQ n)" timed dl sp st']
  by (auto simp: wait_iteration_def waiters_allowed_def split: if_splits outcome.splits)

lemma wake_first_sched_wf: "sched_wf st \<Longrightarrow> sched_wf (fst (wake_first q st))"
  using wake_first_wf same_runner_wf by (meson sched_wf_def)

lemma wake_all_loop_core:
  assumes "sched_core st qs" "qs q = ts"
  shows "\<exists>st'. wake_all_loop q n st = Some (n + length ts, st') \<and>
    sched_core st' (qs(q := [])) \<and> same_runner st st' \<and>
    (\<forall>t. state (tasks st' t) = (if t \<in> set ts then TASK_READY else state (tasks st t)) \<and>
      wake_result (tasks st' t) = (if t \<in> set ts then 0 else wake_result (tasks st t)))"
  using assms
proof (induction ts arbitrary: st qs n)
  case Nil
  then have "wake_first q st = (st, None)" using wake_first_empty by blast
  then show ?case using Nil by (subst wake_all_loop.simps) (simp add: fun_upd_idem)
next
  case (Cons t ts)
  obtain s1 where w: "wake_first q st = (make_ready t 0 s1, Some t)" "erase s1 = erase st"
    "sched_core (make_ready t 0 s1) (qs(q := ts))"
    using wake_first_core[OF Cons.prems] by blast
  have b: "state (tasks st t) = TASK_BLOCKED"
    using sched_coreD(4)[OF Cons.prems(1), of t q] Cons.prems(2) by simp
  have m: "state (tasks (make_ready t 0 s1) u) = (if u = t then TASK_READY else state (tasks st u))"
    "wake_result (tasks (make_ready t 0 s1) u) = (if u = t then 0 else wake_result (tasks st u))" for u
    by (simp_all add: make_ready_def erase_eqD[OF w(2)])
  obtain st' where s: "wake_all_loop q (n + 1) (make_ready t 0 s1) = Some (n + 1 + length ts, st')"
    "sched_core st' (qs(q := []))" "same_runner (make_ready t 0 s1) st'"
    "\<forall>u. state (tasks st' u) = (if u \<in> set ts then TASK_READY else state (tasks (make_ready t 0 s1) u)) \<and>
      wake_result (tasks st' u) = (if u \<in> set ts then 0 else wake_result (tasks (make_ready t 0 s1) u))"
    using Cons.IH[OF w(3) fun_upd_same, of "n + 1"] unfolding fun_upd_upd by blast
  have "same_runner st st'" using same_runner_trans[OF same_runner_wake[OF w(2) b] s(3)] .
  moreover have "wake_all_loop q n st = Some (n + length (t # ts), st')"
    using s(1) w(1) by (subst wake_all_loop.simps) simp
  ultimately show ?case using s(2,4) by (auto simp: m simp del: fun_upd_apply)
qed

lemma queue_init_idle:
  assumes "sched_core st qs" "head (wait_queues st q) = None"
  shows "qs q = []" "wait_queue_init q st = st"
proof -
  have l: "linked (nexts st) (head (wait_queues st q)) (qs q) None" "tail (wait_queues st q) = last_of (qs q)"
    using sched_coreD(5)[OF assms(1)] by (auto simp: queues_repr_def)
  then show e: "qs q = []" using assms(2) by (cases "qs q") auto
  have "wait_queues st q = \<lparr>head = None, tail = None\<rparr>"
    using assms(2) l(2) e by (simp add: last_of_def)
  then show "wait_queue_init q st = st"
    by (simp add: wait_queue_init_def set_queue_def fun_upd_idem)
qed

text \<open>Changing the count of a semaphore or the owner of a mutex.\<close>

lemma sem_count_wf:
  assumes "sched_wf st" "sched_core st qs" "qs (SemQ k) = [] \<or> c = 0"
  shows "sched_wf (st\<lparr>sem_count := (sem_count st)(k := c)\<rparr>)"
proof -
  let ?st = "st\<lparr>sem_count := (sem_count st)(k := c)\<rparr>"
  have r: "queues_repr ?st qs"
    using sched_coreD(5)[OF assms(2)] by (rule queues_repr_cong) (simp_all add: nexts_def)
  have "sched_core ?st qs"
    by (rule sched_coreI[OF r])
      (use sched_core_sync[OF assms(2)] sched_coreD[OF assms(2)] assms(3) in \<open>auto split: if_splits\<close>)
  then show ?thesis using assms(1) by (auto simp: sched_wf_def only_runner_def)
qed

lemma owner_core:
  assumes "sched_core st qs" "ow = None \<Longrightarrow> qs (MutexQ m) = []"
    and "\<And>t. ow = Some t \<Longrightarrow> t \<notin> set (qs (MutexQ m))"
  shows "sched_core (st\<lparr>owner := (owner st)(m := ow)\<rparr>) qs"
proof -
  have r: "queues_repr (st\<lparr>owner := (owner st)(m := ow)\<rparr>) qs"
    using sched_coreD(5)[OF assms(1)] by (rule queues_repr_cong) (simp_all add: nexts_def)
  show ?thesis
    by (rule sched_coreI[OF r])
      (use sched_core_sync[OF assms(1)] sched_coreD(1-4)[OF assms(1)] assms(2,3) in
        \<open>simp_all split: if_splits\<close>)
qed

lemma owner_wf:
  assumes "sched_wf st" "sched_core st qs" "ow = None \<Longrightarrow> qs (MutexQ m) = []"
    and "\<And>t. ow = Some t \<Longrightarrow> t \<notin> set (qs (MutexQ m))"
  shows "sched_wf (st\<lparr>owner := (owner st)(m := ow)\<rparr>)"
  using owner_core[OF assms(2-4)] assms(1) by (auto simp: sched_wf_def only_runner_def)


lemma sem_wait_wf:
  assumes "sched_wf st" "resulting (sem_wait_timeout s ms sp st) = Some st'"
  shows "sched_wf st'"
proof (cases s)
  case (Some k)
  obtain qs where c: "sched_core st qs" using assms(1) by (auto simp: sched_wf_def)
  show ?thesis
  proof (cases "0 < sem_count st k")
    case True
    then have "st' = st\<lparr>sem_count := (sem_count st)(k := sem_count st k - 1)\<rparr>"
      using assms(2) Some by (simp add: sem_wait_timeout_def)
    then show ?thesis using sem_count_wf[OF assms(1) c] sched_core_sync(5)[OF c True] by simp
  next
    case False
    then have "sem_count st k = 0" by (simp add: word_gt_0)
    then show ?thesis
      using block_current_wf[OF assms(1), of "Some (SemQ k)"] assms(2) Some
      by (simp add: sem_wait_timeout_def waiters_allowed_def)
  qed
qed (use assms in \<open>simp add: sem_wait_timeout_def\<close>)

lemma sem_post_wf:
  assumes "sched_wf st" "resulting (sem_post s st) = Some st'"
  shows "sched_wf st'"
proof (cases s)
  case (Some k)
  obtain qs where c: "sched_core st qs" using assms(1) by (auto simp: sched_wf_def)
  show ?thesis
  proof (cases "qs (SemQ k)")
    case Nil
    then show ?thesis
      using assms(2) Some wake_first_empty[OF c Nil] sem_count_wf[OF assms(1) c]
      by (auto simp: sem_post_def split: if_splits)
  next
    case (Cons t ts)
    then show ?thesis
      using assms(2) Some wake_first_core[OF c Cons] wake_first_sched_wf[OF assms(1), of "SemQ k"]
      by (auto simp: sem_post_def)
  qed
qed (use assms in \<open>simp add: sem_post_def\<close>)

lemma mutex_lock_wf:
  assumes "sched_wf st" "resulting (mutex_lock_timeout m ms sp st) = Some st'"
  shows "sched_wf st'"
proof (cases m)
  case (Some k)
  obtain qs where c: "sched_core st qs" using assms(1) by (auto simp: sched_wf_def)
  show ?thesis
  proof (cases "owner st k")
    case None
    then have "st' = st\<lparr>owner := (owner st)(k := Some (current st))\<rparr>"
      using assms(2) Some by (simp add: mutex_lock_timeout_def)
    then show ?thesis using owner_wf[OF assms(1) c] sched_core_sync(3)[OF c None] by simp
  next
    case (Some t)
    then show ?thesis
      using block_current_wf[OF assms(1), of "Some (MutexQ k)"] assms(2) \<open>m = Some k\<close>
      by (simp add: mutex_lock_timeout_def waiters_allowed_def split: if_splits)
  qed
qed (use assms in \<open>simp add: mutex_lock_timeout_def\<close>)

lemma mutex_trylock_wf:
  assumes "sched_wf st" "resulting (mutex_trylock m st) = Some st'"
  shows "sched_wf st'"
proof -
  obtain qs where c: "sched_core st qs" using assms(1) by (auto simp: sched_wf_def)
  show ?thesis
    using assms owner_wf[OF assms(1) c] sched_core_sync(3)[OF c]
    by (auto simp: mutex_trylock_def split: option.splits if_splits)
qed

lemma mutex_unlock_wf:
  assumes "sched_wf st" "resulting (mutex_unlock m st) = Some st'"
  shows "sched_wf st'"
proof -
  obtain k where m: "m = Some k" and st': "st' = (fst (wake_first (MutexQ k) st))
      \<lparr>owner := (owner (fst (wake_first (MutexQ k) st)))(k := snd (wake_first (MutexQ k) st))\<rparr>"
    using assms(2) by (auto simp: mutex_unlock_def split: option.splits if_splits prod.splits)
  obtain qs where c: "sched_core st qs" using assms(1) by (auto simp: sched_wf_def)
  show ?thesis
  proof (cases "qs (MutexQ k)")
    case Nil
    then show ?thesis using owner_wf[OF assms(1) c] wake_first_empty[OF c Nil] st' by simp
  next
    case (Cons t ts)
    obtain s1 where w: "wake_first (MutexQ k) st = (make_ready t 0 s1, Some t)"
      "sched_core (make_ready t 0 s1) (qs(MutexQ k := ts))"
      using wake_first_core[OF c Cons] by blast
    have "t \<notin> set ts" using wq.repr_distinct[OF sched_coreD(5)[OF c], of "MutexQ k"] Cons by simp
    then show ?thesis
      using owner_wf[OF _ w(2), of "Some t" k] wake_first_sched_wf[OF assms(1), of "MutexQ k"] w(1) st'
      by simp
  qed
qed

lemma scheduler_start_wf:
  assumes "sched_wf st"
  shows "sched_wf (scheduler_start st)"
proof -
  obtain qs where c: "sched_core st qs" using assms by (auto simp: sched_wf_def)
  from c have "sched_core (scheduler_start st) qs"
    by (rule sched_core_cong) (use sched_coreD(1-3)[OF c] in \<open>simp_all add: scheduler_start_def\<close>)
  then show ?thesis using assms by (auto simp: sched_wf_def only_runner_def scheduler_start_def)
qed

lemma task_sleep_wf: "sched_wf st \<Longrightarrow> resulting (task_sleep ms sp st) = Some st' \<Longrightarrow> sched_wf st'"
  using task_yield_wf[of st sp st'] block_current_wf[of st None True "deadline_after ms st" sp st']
  by (simp add: task_sleep_def waiters_allowed_def split: if_splits)

lemma wait_until_wf:
  "sched_wf st \<Longrightarrow> resulting (wait_queue_wait_until (Some (WaitQ n)) b b' ms sp st) = Some st' \<Longrightarrow>
   sched_wf st'"
  unfolding wait_queue_wait_until_def option.case by (rule wait_iteration_wf)

lemma wait_resumed_wf:
  "sched_wf st \<Longrightarrow> resulting (wait_resumed (WaitQ n) b b' timed dl sp st) = Some st' \<Longrightarrow> sched_wf st'"
  using wait_iteration_wf[of st n b b' timed dl sp st'] by (auto simp: wait_resumed_def split: if_splits)

lemma wake_one_wf:
  "sched_wf st \<Longrightarrow> resulting (wait_queue_wake_one (Some q) st) = Some st' \<Longrightarrow> sched_wf st'"
  using wake_first_sched_wf[of st q] by (auto simp: wait_queue_wake_one_def split: prod.splits)

lemma wake_all_wf:
  assumes "sched_wf st" "wait_queue_wake_all (Some q) st = Some res" "resulting res = Some st'"
  shows "sched_wf st'"
proof -
  obtain qs where c: "sched_core st qs" using assms(1) by (auto simp: sched_wf_def)
  obtain s1 where "wake_all_loop q 0 st = Some (length (qs q), s1)" "sched_core s1 (qs(q := []))"
    "same_runner st s1"
    using wake_all_loop_core[OF c refl, of q 0] by auto
  then show ?thesis
    using same_runner_wf[OF _ assms(1)] assms(2,3) by (auto simp: wait_queue_wake_all_def)
qed

lemma sem_init_wf:
  assumes "sched_wf st" "head (wait_queues st (SemQ k)) = None"
  shows "sched_wf (sem_init k c st)"
proof -
  let ?st = "st\<lparr>sem_count := (sem_count st)(k := c)\<rparr>"
  obtain qs where q: "sched_core st qs" using assms(1) by (auto simp: sched_wf_def)
  have wf: "sched_wf ?st" using sem_count_wf[OF assms(1) q] queue_init_idle(1)[OF q assms(2)] by simp
  then obtain qs' where "sched_core ?st qs'" by (auto simp: sched_wf_def)
  then show ?thesis
    using wf queue_init_idle(2)[of ?st qs' "SemQ k"] assms(2) by (simp add: sem_init_def)
qed

lemma mutex_init_wf:
  assumes "sched_wf st" "head (wait_queues st (MutexQ m)) = None"
  shows "sched_wf (mutex_init m st)"
proof -
  let ?st = "st\<lparr>owner := (owner st)(m := None)\<rparr>"
  obtain qs where q: "sched_core st qs" using assms(1) by (auto simp: sched_wf_def)
  have wf: "sched_wf ?st"
    using owner_wf[OF assms(1) q, of None] queue_init_idle(1)[OF q assms(2)] by simp
  then obtain qs' where "sched_core ?st qs'" by (auto simp: sched_wf_def)
  then show ?thesis
    using wf queue_init_idle(2)[of ?st qs' "MutexQ m"] assms(2) by (simp add: mutex_init_def)
qed

lemma sched_step_wf: "sched_step st st' \<Longrightarrow> sched_wf st \<Longrightarrow> sched_wf st'"
proof (induction rule: sched_step.induct)
  case (tick sp st sp' st')
  then show ?case using scheduler_tick_wf[of st sp] by simp
qed (fact scheduler_start_wf | erule (1) task_create_wf[rotated] task_yield_wf[rotated]
    task_sleep_wf[rotated] wait_until_wf[rotated] wait_resumed_wf[rotated] wake_one_wf[rotated]
    sem_wait_wf[rotated] sem_post_wf[rotated] mutex_lock_wf[rotated] mutex_trylock_wf[rotated]
    mutex_unlock_wf[rotated] sem_init_wf[rotated] mutex_init_wf[rotated]
  | (rule task_exit_wf; assumption) | (rule wake_all_wf; assumption))+

lemma reachable_wf: "reachable st \<Longrightarrow> sched_wf st"
  by (induction rule: reachable.induct) (auto intro: boot_wf sched_step_wf)


section \<open>Fairness\<close>

text \<open>How many slots lie between \<open>p\<close> and \<open>s\<close>, going round.\<close>

definition gap :: "nat \<Rightarrow> nat \<Rightarrow> nat \<Rightarrow> nat" where
  "gap n p s = (if p < s then s - p - 1 else s + n - p - 1)"

lemma gap_less: "p < n \<Longrightarrow> s < n \<Longrightarrow> gap n p s < n"
  by (auto simp: gap_def)

lemma gap_next:
  assumes "p < n" "s < n" "(p + 1) mod n \<noteq> s"
  shows "gap n ((p + 1) mod n) s < gap n p s"
proof (cases "p + 1 = n")
  case True
  then show ?thesis using assms by (auto simp: gap_def)
next
  case False
  then have "(p + 1) mod n = p + 1" "p + 1 < n" using assms(1) by simp_all
  then show ?thesis using assms by (auto simp: gap_def)
qed

lemma pick_gap:
  assumes "slot_count st = n" "p < n" "s < n" "state (tasks st (Slot s)) = TASK_READY" "gap n p s < k"
  shows "\<exists>j < n. pick st p k = Some j \<and> (j = s \<or> gap n j s < gap n p s)"
  using assms(2,5)
proof (induction k arbitrary: p)
  case (Suc k)
  let ?p = "(p + 1) mod n"
  have p: "?p < n" using assms(3) by simp
  show ?case
  proof (cases "state (tasks st (Slot ?p)) = TASK_READY")
    case True
    then show ?thesis using p gap_next[OF Suc.prems(1) assms(3)] assms(1) by (auto simp: Let_def)
  next
    case False
    then have "?p \<noteq> s" using assms(4) by auto
    then have g: "gap n ?p s < gap n p s" using gap_next[OF Suc.prems(1) assms(3)] by simp
    then have "gap n ?p s < k" using Suc.prems(2) by simp
    from Suc.IH[OF p this] obtain j where "j < n" "pick st ?p k = Some j"
      "j = s \<or> gap n j s < gap n ?p s" by blast
    then show ?thesis using False assms(1) g by (auto simp: Let_def)
  qed
qed simp

lemma schedule_gap:
  assumes "slot_count st = n" "last_slot st < n" "s < n" "state (tasks st (Slot s)) = TASK_READY"
    and "current (snd (schedule e st)) \<noteq> Slot s"
  shows "gap n (last_slot (snd (schedule e st))) s < gap n (last_slot st) s"
proof -
  have r: "state (tasks (paused e st) (Slot s)) = TASK_READY" using assms(4) by (auto simp: paused_def)
  have n: "slot_count (paused e st) = n" using assms(1) by (simp add: paused_def)
  obtain j where j: "pick (paused e st) (last_slot st) n = Some j"
    "j = s \<or> gap n j s < gap n (last_slot st) s"
    using pick_gap[OF n assms(2,3) r gap_less[OF assms(2,3)]] by blast
  show ?thesis
  proof (rule schedule_cases[of e st])
    fix p
    assume p: "pick (paused e st) (last_slot st) (slot_count st) = Some p"
      "snd (schedule e st) = set_task (Slot p) (\<lambda>k. k\<lparr>state := TASK_RUNNING\<rparr>)
         ((paused e st)\<lparr>last_slot := p, current := Slot p\<rparr>)"
    have "p = j" using p(1) j(1) assms(1) by simp
    moreover have "p \<noteq> s" using assms(5) p(2) by auto
    ultimately show ?thesis using j(2) unfolding p(2) by simp
  qed (use j(1) assms(1) in simp)
qed

lemma gap_descends:
  assumes "\<And>i. i < k \<Longrightarrow> g (Suc i) < (g i :: nat)"
  shows "g k + k \<le> g 0"
  using assms
proof (induction k)
  case (Suc k)
  have "g k + k \<le> g 0" using Suc by simp
  moreover have "g (Suc k) < g k" using Suc.prems by simp
  ultimately show ?case by simp
qed simp

text \<open>
  C3. Round-robin is fair: in any run of the scheduler (whatever happens between two switches, as
  long as no task is created), a ready task is passed over fewer times than there are slots.  Here
  \<open>r i\<close> is the state in which the \<open>i\<close>-th switch happens.
\<close>

theorem round_robin_fair:
  assumes "s < n"
    and "\<forall>i \<le> k. slot_count (r i) = n \<and> last_slot (r i) < n"
    and "\<forall>i < k. state (tasks (r i) (Slot s)) = TASK_READY"
    and "\<forall>i < k. current (snd (schedule (e i) (r i))) \<noteq> Slot s"
    and "\<forall>i < k. last_slot (r (Suc i)) = last_slot (snd (schedule (e i) (r i)))"
  shows "k < n"
proof -
  have "gap n (last_slot (r (Suc i))) s < gap n (last_slot (r i)) s" if "i < k" for i
    using schedule_gap[of "r i" n s "e i"] assms that by auto
  then have "gap n (last_slot (r k)) s + k \<le> gap n (last_slot (r 0)) s"
    by (rule gap_descends[of k "\<lambda>i. gap n (last_slot (r i)) s"])
  then show ?thesis using gap_less[of "last_slot (r 0)" n s] assms(1,2) by force
qed

definition two_ready :: sched where
  "two_ready = boot\<lparr>tasks := (\<lambda>t. (tasks boot t)\<lparr>state := TASK_READY\<rparr>), slot_count := 2, last_slot := 1\<rparr>"

theorem round_robin_fair_witness:
  "state (tasks two_ready (Slot 1)) = TASK_READY \<and>
   current (snd (schedule 0 two_ready)) \<noteq> Slot 1 \<and> (1::nat) < 2"
proof -
  let ?r = "\<lambda>i. if i = 0 then two_ready else snd (schedule 0 two_ready)"
  have a: "state (tasks two_ready (Slot 1)) = TASK_READY"
    by (simp add: two_ready_def boot_def)
  have b: "current (snd (schedule 0 two_ready)) = Slot 0"
    "slot_count (snd (schedule 0 two_ready)) = 2" "last_slot (snd (schedule 0 two_ready)) = 0"
    by (simp_all add: schedule_def two_ready_def boot_def set_task_def numeral_2_eq_2)
  have "(1::nat) < 2"
    by (rule round_robin_fair[of 1 2 1 ?r "\<lambda>_. 0"])
      (simp_all add: a[simplified] b, simp add: two_ready_def)
  then show ?thesis using a b by simp
qed

text \<open>
  C1. In every reachable state the task that runs is the current one and no other, every wait queue is
  a proper list that holds exactly the tasks blocked on it, a mutex without an owner and a semaphore
  with a positive count have no waiters, and no task waits for a mutex it owns.
\<close>

theorem scheduler_invariant:
  assumes "reachable st"
  shows "(\<forall>t. state (tasks st t) = TASK_RUNNING \<longleftrightarrow> t = current st) \<and>
    (\<exists>qs. queues_repr st qs \<and>
      (\<forall>t q. t \<in> set (qs q) \<longleftrightarrow> state (tasks st t) = TASK_BLOCKED \<and> queue (tasks st t) = Some q) \<and>
      (\<forall>m. owner st m = None \<longrightarrow> qs (MutexQ m) = []) \<and>
      (\<forall>m t. owner st m = Some t \<longrightarrow> t \<notin> set (qs (MutexQ m))) \<and>
      (\<forall>s. 0 < sem_count st s \<longrightarrow> qs (SemQ s) = []))"
proof -
  have wf: "sched_wf st" using reachable_wf[OF assms] .
  then obtain qs where "sched_core st qs" by (auto simp: sched_wf_def)
  then have "\<exists>qs. queues_repr st qs \<and>
      (\<forall>t q. t \<in> set (qs q) \<longleftrightarrow> state (tasks st t) = TASK_BLOCKED \<and> queue (tasks st t) = Some q) \<and>
      (\<forall>m. owner st m = None \<longrightarrow> qs (MutexQ m) = []) \<and>
      (\<forall>m t. owner st m = Some t \<longrightarrow> t \<notin> set (qs (MutexQ m))) \<and>
      (\<forall>s. 0 < sem_count st s \<longrightarrow> qs (SemQ s) = [])"
    unfolding sched_core_def by blast
  moreover have "\<forall>t. state (tasks st t) = TASK_RUNNING \<longleftrightarrow> t = current st"
    using wf unfolding sched_wf_def only_runner_def by blast
  ultimately show ?thesis by blast
qed

definition booted :: sched where
  "booted = (case scheduler_init (Some 4096) 0 8 0 boot of Done _ st \<Rightarrow> st | _ \<Rightarrow> boot)"

lemma booted_reachable: "reachable booted"
  by (rule reachable.init[of 4096 0 8 0]) (simp add: booted_def scheduler_init_def Let_def)

theorem scheduler_invariant_witness:
  "\<forall>t. state (tasks (scheduler_start booted) t) = TASK_RUNNING \<longleftrightarrow> t = current (scheduler_start booted)"
  using scheduler_invariant[OF reachable.step[OF booted_reachable sched_step.start]] by blast

section \<open>Time\<close>

lemma ms_to_ticks_ceiling: "unat (ms_to_ticks ms) = (unat ms + 9) div 10"
proof -
  have lt: "unat ms < 4294967296" by simp
  have d: "unat (ms div 10) = unat ms div 10" "unat (ms mod 10) = unat ms mod 10"
    by (simp_all add: unat_div unat_mod)
  have z: "ms mod 10 \<noteq> 0 \<longleftrightarrow> unat ms mod 10 \<noteq> 0"
    using d(2) by (metis unat_eq_zero)
  define n where "n = (if ms mod 10 \<noteq> 0 then ms div 10 + 1 else ms div 10)"
  have n: "unat n = (unat ms + 9) div 10"
  proof (cases "ms mod 10 = 0")
    case True
    then show ?thesis using z by (simp add: n_def d) presburger
  next
    case False
    have "unat ms div 10 < 429496730" using lt by linarith
    then have "unat (ms div 10 + 1) = unat ms div 10 + 1"
      using d by (subst unat_add_u32) simp
    then show ?thesis using False z by (simp add: n_def) presburger
  qed
  have "(unat ms + 9) div 10 \<le> 429496730" using lt by linarith
  then have "\<not> n > 0x7FFFFFF0" using n by (simp add: unat_less_32)
  then show ?thesis using n by (simp add: ms_to_ticks_def n_def Let_def split: if_splits)
qed


lemma sint_nonneg_iff: "0 \<le> sint (x::u32) \<longleftrightarrow> unat x < 2147483648"
proof -
  have lt: "unat x < 4294967296" by (rule unat_u32_lt)
  have "0 \<le> sint x \<longleftrightarrow> \<not> bit (uint x) 31"
    by (simp add: sint_uint signed_take_bit_nonnegative_iff)
  also have "\<dots> \<longleftrightarrow> even (int (unat x) div int 2147483648)" by (simp add: bit_iff_odd)
  also have "\<dots> \<longleftrightarrow> even (unat x div 2147483648)" by (simp only: zdiv_int[symmetric] even_of_nat_iff)
  also have "\<dots> \<longleftrightarrow> unat x < 2147483648"
  proof (cases "unat x < 2147483648")
    case False
    then have "unat x div 2147483648 = 1" using lt by (intro div_nat_eqI) simp_all
    then show ?thesis using False by simp
  qed simp
  finally show ?thesis .
qed

lemma time_reached_after:
  assumes "k < 2147483648" "j < 2147483648"
  shows "time_reached (t + of_nat k) (t + of_nat j) \<longleftrightarrow> j \<le> k"
proof (cases "j \<le> k")
  case True
  have "(t + of_nat k) - (t + of_nat j) = (of_nat (k - j) :: u32)" using True by (simp add: of_nat_diff)
  moreover have "unat (of_nat (k - j) :: u32) = k - j" using assms by (intro unat_of_nat_u32) simp
  ultimately show ?thesis using True assms by (simp add: time_reached_def sint_nonneg_iff)
next
  case False
  have "(t + of_nat k) - (t + of_nat j) = - (of_nat (j - k) :: u32)"
    using False by (simp add: of_nat_diff)
  also have "\<dots> = of_nat (4294967296 - (j - k))"
    using assms by (subst of_nat_diff) auto
  finally have d: "(t + of_nat k) - (t + of_nat j) = (of_nat (4294967296 - (j - k)) :: u32)" .
  have "unat (of_nat (4294967296 - (j - k)) :: u32) = 4294967296 - (j - k)"
    using False by (intro unat_of_nat_u32) simp
  then show ?thesis
    using False assms unfolding time_reached_def d sint_nonneg_iff by linarith
qed

lemma ceiling_le_iff: "(m + 9) div 10 + 1 \<le> (k::nat) \<longleftrightarrow> 1 \<le> k \<and> m \<le> 10 * (k - 1)"
  by (cases k) (auto simp: less_Suc_eq_le)

text \<open>
  C10. Deadlines survive the wrap-around of the tick counter: for any waiting time and the next
  \<open>2\<^sup>3\<^sup>1\<close> ticks, the deadline computed now counts as reached after \<open>k\<close> ticks exactly when the
  time was 0 or at least the requested number of milliseconds lies between the first and the last of
  those ticks (10 ms each).
\<close>

theorem deadline_after_correct:
  assumes "k < 2147483648"
  shows "time_reached (ticks st + of_nat k) (deadline_after ms st) \<longleftrightarrow>
    ms = 0 \<or> 1 \<le> k \<and> unat ms \<le> 10 * (k - 1)"
proof -
  let ?n = "unat (ms_to_ticks ms)"
  have n: "?n = (unat ms + 9) div 10" by (rule ms_to_ticks_ceiling)
  have lt: "unat ms < 4294967296" by (rule unat_u32_lt)
  have z: "ms_to_ticks ms = 0 \<longleftrightarrow> ms = 0"
  proof -
    have "ms_to_ticks ms = 0 \<longleftrightarrow> (unat ms + 9) div 10 = 0" using n by (metis unat_eq_zero)
    also have "\<dots> \<longleftrightarrow> unat ms = 0" by presburger
    finally show ?thesis by (simp add: unat_eq_zero)
  qed
  show ?thesis
  proof (cases "ms = 0")
    case True
    then have "deadline_after ms st = ticks st + of_nat 0" using z by (simp add: deadline_after_def)
    then show ?thesis using time_reached_after[of k 0 "ticks st"] assms True by simp
  next
    case False
    then have "deadline_after ms st = ticks st + of_nat (?n + 1)"
      using z by (simp add: deadline_after_def Let_def add.assoc)
    moreover have "?n + 1 < 2147483648" unfolding n using lt by linarith
    ultimately have "time_reached (ticks st + of_nat k) (deadline_after ms st) \<longleftrightarrow> ?n + 1 \<le> k"
      using time_reached_after[OF assms, of "?n + 1" "ticks st"] by simp
    also have "\<dots> \<longleftrightarrow> 1 \<le> k \<and> unat ms \<le> 10 * (k - 1)"
      unfolding n by (rule ceiling_le_iff)
    finally show ?thesis using False by simp
  qed
qed

theorem deadline_after_correct_witness:
  "\<not> time_reached (ticks (booted\<lparr>ticks := 0xFFFFFFFF\<rparr>) + 2) (deadline_after 15 (booted\<lparr>ticks := 0xFFFFFFFF\<rparr>)) \<and>
   time_reached (ticks (booted\<lparr>ticks := 0xFFFFFFFF\<rparr>) + 3) (deadline_after 15 (booted\<lparr>ticks := 0xFFFFFFFF\<rparr>))"
  using deadline_after_correct[of 2 "booted\<lparr>ticks := 0xFFFFFFFF\<rparr>" 15]
    deadline_after_correct[of 3 "booted\<lparr>ticks := 0xFFFFFFFF\<rparr>" 15] by simp


section \<open>Time-outs\<close>

definition expired :: "u32 \<Rightarrow> task \<Rightarrow> bool" where
  "expired now k \<longleftrightarrow> state k = TASK_BLOCKED \<and> has_deadline k \<and> time_reached now (deadline k)"

text \<open>A task without its queue link, and the same after a time-out.\<close>

definition unlinked :: "task \<Rightarrow> task" where
  "unlinked k = k\<lparr>wait_next := None\<rparr>"

definition timed_out :: "task \<Rightarrow> task" where
  "timed_out k = k\<lparr>state := TASK_READY, queue := None, wait_next := None, has_deadline := False,
     wake_result := -1\<rparr>"

lemma erase_unlinked:
  assumes "erase st' = erase st"
  shows "unlinked (tasks st' t) = unlinked (tasks st t)"
proof -
  have "tasks (erase st') t = tasks (erase st) t" unfolding assms ..
  then show ?thesis by (simp add: erase_def unlinked_def)
qed

lemma unlinked_simps:
  "unlinked (tasks (make_ready t (-1) st) u) =
     (if u = t then timed_out (tasks st t) else unlinked (tasks st u))"
  "timed_out (unlinked k) = timed_out k" "unlinked (timed_out k) = timed_out k"
  by (auto simp: unlinked_def make_ready_def timed_out_def)

lemma expired_unlinked: "expired now (unlinked k) = expired now k"
  by (simp add: expired_def unlinked_def)

lemma expire_slot_tasks:
  assumes "expire_slot i st = Some st'"
  shows "unlinked (tasks st' t) =
    (if t = Slot i \<and> expired (ticks st) (tasks st t) then timed_out (tasks st t) else unlinked (tasks st t))"
proof (cases "expired (ticks st) (tasks st (Slot i))")
  case False
  then have "st' = st" using assms by (auto simp: expire_slot_def expired_def Let_def split: if_splits)
  then show ?thesis using False by auto
next
  case True
  obtain s1 where s1: "st' = make_ready (Slot i) (-1) s1" "erase s1 = erase st"
    using True assms erase_remove
    by (auto simp: expire_slot_def expired_def Let_def split: if_splits option.splits)
  have "timed_out (tasks s1 (Slot i)) = timed_out (tasks st (Slot i))"
    using erase_unlinked[OF s1(2), of "Slot i"] unlinked_simps(2) by metis
  then show ?thesis using True erase_unlinked[OF s1(2), of t] s1(1) by (auto simp: unlinked_simps(1))
qed

lemma for_each_tasks:
  assumes "sched_core st qs" "for_each expire_slot is st = Some st'" "distinct is"
  shows "unlinked (tasks st' t) =
    (if t \<in> Slot ` set is \<and> expired (ticks st) (tasks st t) then timed_out (tasks st t)
     else unlinked (tasks st t))"
  using assms
proof (induction "is" arbitrary: st qs)
  case (Cons i "is")
  obtain s1 where s1: "expire_slot i st = Some s1" "for_each expire_slot is s1 = Some st'"
    using Cons.prems(2) by (auto split: option.splits)
  obtain qs1 where q: "sched_core s1 qs1" "ticks s1 = ticks st"
    using expire_slot_core[OF Cons.prems(1), of i] s1(1) by (auto simp: same_runner_def)
  note IH = Cons.IH[OF q(1) s1(2)]
  note e = expire_slot_tasks[OF s1(1), of t]
  show ?case
  proof (cases "t = Slot i")
    case True
    then have "t \<notin> Slot ` set is" using Cons.prems(3) by auto
    then show ?thesis using IH e True Cons.prems(3) by simp
  next
    case False
    have u: "unlinked (tasks s1 t) = unlinked (tasks st t)" using e False by simp
    then have "expired (ticks st) (tasks s1 t) = expired (ticks st) (tasks st t)"
      "timed_out (tasks s1 t) = timed_out (tasks st t)"
      using expired_unlinked unlinked_simps(2) by metis+
    then show ?thesis using IH u False Cons.prems(3) q(2) by auto
  qed
qed simp

text \<open>
  C6. A timer tick times out exactly the tasks whose deadline has come: those become ready with the
  result \<open>WAIT_TIMEOUT\<close> and leave their queue, every other task keeps its state, queue, deadline and
  result, and the loop over the queues ends.
\<close>

theorem tick_wakes_exactly_expired:
  assumes "sched_wf st"
  shows "\<exists>st' qs'. wake_expired st = Some st' \<and> sched_core st' qs' \<and>
    (\<forall>t. unlinked (tasks st' t) =
      (if expired (ticks st) (tasks st t) then timed_out (tasks st t) else unlinked (tasks st t)) \<and>
      (expired (ticks st) (tasks st t) \<longrightarrow> (\<forall>q. t \<notin> set (qs' q))))"
proof -
  obtain qs where c: "sched_core st qs" using assms by (auto simp: sched_wf_def)
  obtain st' qs' where w: "wake_expired st = Some st'" "sched_core st' qs'"
    using for_each_core[OF c, of "[0..<slot_count st]"] unfolding wake_expired_def by blast
  have slots: "t \<in> Slot ` set [0..<slot_count st]" if "expired (ticks st) (tasks st t)" for t
    using that sched_coreD(2,3)[OF c] used_slot[OF c] by (cases t) (auto simp: expired_def)
  have t: "unlinked (tasks st' t) =
      (if expired (ticks st) (tasks st t) then timed_out (tasks st t) else unlinked (tasks st t))" for t
    using for_each_tasks[OF c w(1)[unfolded wake_expired_def], of t] slots[of t] by auto
  have "t \<notin> set (qs' q)" if "expired (ticks st) (tasks st t)" for t q
  proof -
    have "state (unlinked (tasks st' t)) = TASK_READY" using t[of t] that by (simp add: timed_out_def)
    then show ?thesis using not_waiting[OF w(2), of t q] by (simp add: unlinked_def)
  qed
  then show ?thesis using w t by blast
qed

text \<open>The first task waits in a queue for 15 milliseconds.\<close>

definition one_waits :: sched where
  "one_waits = (case wait_queue_wait_until (Some (WaitQ 0)) False False 15 0 (scheduler_start booted) of Switched st \<Rightarrow> st | _ \<Rightarrow> booted)"

lemma one_waits_reachable: "reachable one_waits"
proof -
  obtain st where "wait_queue_wait_until (Some (WaitQ 0)) False False 15 0 (scheduler_start booted) = Switched st" "one_waits = st"
    by (simp add: one_waits_def wait_queue_wait_until_def wait_iteration_def block_current_def scheduler_start_def booted_def scheduler_init_def
        boot_def set_task_def Let_def deadline_after_def ms_to_ticks_def time_reached_def)
  then have "sched_step (scheduler_start booted) one_waits"
    by (intro sched_step.wait[where n = 0 and b = False and b' = False and ms = 15 and sp = 0]) simp
  then show ?thesis by (rule reachable.step[OF reachable.step[OF booted_reachable sched_step.start]])
qed

lemma one_waits_task:
  "state (tasks one_waits (Slot 0)) = TASK_BLOCKED" "queue (tasks one_waits (Slot 0)) = Some (WaitQ 0)"
  "has_deadline (tasks one_waits (Slot 0))" "deadline (tasks one_waits (Slot 0)) = 3" "slot_count one_waits = 1"
  by code_simp+

lemma ticks_wf: "sched_wf (st\<lparr>ticks := n\<rparr>) = sched_wf st"
proof -
  have "nexts (st\<lparr>ticks := n\<rparr>) = nexts st" by (simp add: nexts_def fun_eq_iff)
  then show ?thesis by (simp add: sched_wf_def sched_core_def queues_repr_def only_runner_def)
qed

theorem tick_wakes_exactly_expired_witness:
  "\<exists>st'. wake_expired (one_waits\<lparr>ticks := 3\<rparr>) = Some st' \<and> state (tasks st' (Slot 0)) = TASK_READY \<and>
    wake_result (tasks st' (Slot 0)) = -1"
proof -
  have wf: "sched_wf (one_waits\<lparr>ticks := 3\<rparr>)" using reachable_wf[OF one_waits_reachable] by (simp add: ticks_wf)
  have e: "expired 3 (tasks one_waits (Slot 0))" using one_waits_task by (simp add: expired_def time_reached_def)
  obtain st' where w: "wake_expired (one_waits\<lparr>ticks := 3\<rparr>) = Some st'"
      "unlinked (tasks st' (Slot 0)) = timed_out (tasks one_waits (Slot 0))"
    using tick_wakes_exactly_expired[OF wf] e by auto
  have "state (unlinked (tasks st' (Slot 0))) = TASK_READY" "wake_result (unlinked (tasks st' (Slot 0))) = -1"
    unfolding w(2) by (simp_all add: timed_out_def)
  then show ?thesis using w(1) by (simp add: unlinked_def)
qed

section \<open>Hand-over\<close>

text \<open>
  C9. Waking a queue wakes every waiter and nobody else: \<open>wait_queue_wake_all\<close> returns (the loop ends)
  with the number of waiters, each of them is ready with the result \<open>WAIT_OK\<close>, and the queue is empty.
\<close>

theorem wake_all_wakes_all:
  assumes "sched_core st qs"
  shows "\<exists>st'. wait_queue_wake_all (Some q) st = Some (Done (length (qs q)) st') \<and>
    sched_core st' (qs(q := [])) \<and> current st' = current st \<and>
    (\<forall>t. state (tasks st' t) = (if t \<in> set (qs q) then TASK_READY else state (tasks st t)) \<and>
      wake_result (tasks st' t) = (if t \<in> set (qs q) then 0 else wake_result (tasks st t)))"
  using wake_all_loop_core[OF assms refl, of q 0]
  by (auto simp: wait_queue_wake_all_def same_runner_def simp del: fun_upd_apply)

theorem wake_all_wakes_all_witness:
  "\<exists>st'. wait_queue_wake_all (Some (WaitQ 0)) one_waits = Some (Done 1 st') \<and> state (tasks st' (Slot 0)) = TASK_READY"
proof -
  obtain qs where c: "sched_core one_waits qs"
    using reachable_wf[OF one_waits_reachable] by (auto simp: sched_wf_def)
  have idle: "state (tasks one_waits (Slot i)) = TASK_UNUSED" if "i \<noteq> 0" for i
    using that sched_coreD(3)[OF c] one_waits_task(5) by simp
  have "t \<in> set (qs (WaitQ 0)) \<longleftrightarrow> t = Slot 0" for t
  proof -
    have "t \<in> set (qs (WaitQ 0)) \<longleftrightarrow> state (tasks one_waits t) = TASK_BLOCKED \<and> queue (tasks one_waits t) = Some (WaitQ 0)"
      using c unfolding sched_core_def by blast
    moreover have "state (tasks one_waits Idle) \<noteq> TASK_BLOCKED" using c unfolding sched_core_def by auto
    moreover have "state (tasks one_waits (Slot i)) \<noteq> TASK_BLOCKED" if "i \<noteq> 0" for i using idle[OF that] by simp
    ultimately show ?thesis using one_waits_task(1,2) by (cases t) auto
  qed
  then have s: "set (qs (WaitQ 0)) = {Slot 0}" by blast
  moreover have "distinct (qs (WaitQ 0))" using c by (simp add: sched_core_def queues_repr_def)
  ultimately have "length (qs (WaitQ 0)) = 1" using distinct_card by fastforce
  then show ?thesis using wake_all_wakes_all[OF c, of "WaitQ 0"] s by auto
qed

text \<open>
  C7. Unlocking a mutex hands it over: the first waiter becomes the owner and ready, with the lock
  call's result \<open>WAIT_OK\<close>, so no other task can take the mutex in between; without waiters the mutex
  is free.  Only the owner can unlock: anybody else panics.
\<close>

theorem mutex_unlock_hands_over:
  assumes "sched_core st qs"
  shows "if owner st m = Some (current st)
    then \<exists>st'. mutex_unlock (Some m) st = Done () st' \<and>
      (case qs (MutexQ m) of
         [] \<Rightarrow> owner st' m = None
       | t # ts \<Rightarrow> owner st' m = Some t \<and> state (tasks st' t) = TASK_READY \<and>
           wake_result (tasks st' t) = 0 \<and> queues_repr st' (qs(MutexQ m := ts)))
    else \<exists>msg. mutex_unlock (Some m) st = Panicked msg"
proof (cases "owner st m = Some (current st)")
  case True
  show ?thesis
  proof (cases "qs (MutexQ m)")
    case Nil
    then show ?thesis using True wake_first_empty[OF assms Nil] by (simp add: mutex_unlock_def)
  next
    case (Cons t ts)
    obtain s1 where w: "wake_first (MutexQ m) st = (make_ready t 0 s1, Some t)"
      "sched_core (make_ready t 0 s1) (qs(MutexQ m := ts))"
      using wake_first_core[OF assms Cons] by blast
    let ?st = "(make_ready t 0 s1)\<lparr>owner := (owner (make_ready t 0 s1))(m := Some t)\<rparr>"
    have "queues_repr ?st (qs(MutexQ m := ts))"
      using sched_coreD(5)[OF w(2)] by (rule queues_repr_cong) (simp_all add: nexts_def)
    then show ?thesis using True w(1) Cons by (simp add: mutex_unlock_def make_ready_def)
  qed
qed (simp add: mutex_unlock_def)

theorem mutex_unlock_hands_over_witness:
  "\<exists>st'. mutex_unlock (Some 3) (booted\<lparr>owner := (owner booted)(3 := Some (Slot 0))\<rparr>) = Done () st' \<and>
     owner st' 3 = None"
proof -
  obtain qs where c: "sched_core booted qs" and wf: "sched_wf booted"
    using reachable_wf[OF booted_reachable] by (auto simp: sched_wf_def)
  have b: "head (wait_queues booted (MutexQ 3)) = None" "current booted = Slot 0"
    by (simp_all add: booted_def scheduler_init_def Let_def boot_def)
  have e: "qs (MutexQ 3) = []" by (rule queue_init_idle(1)[OF c b(1)])
  have "sched_core (booted\<lparr>owner := (owner booted)(3 := Some (Slot 0))\<rparr>) qs"
    by (rule owner_core[OF c]) (simp_all add: e)
  from mutex_unlock_hands_over[OF this, of 3] show ?thesis using b e by auto
qed

text \<open>
  C8. A \<open>sem_post\<close> is never lost: with waiters it makes exactly the first one ready, with the
  result \<open>WAIT_OK\<close>, and leaves the count at 0; without waiters it adds one to the count, and it panics
  rather than let the count wrap around.
\<close>

theorem sem_post_not_lost:
  assumes "sched_core st qs"
  shows "case qs (SemQ s) of
      [] \<Rightarrow> if sem_count st s = 0xFFFFFFFF then \<exists>msg. sem_post (Some s) st = Panicked msg
        else \<exists>st'. sem_post (Some s) st = Done () st' \<and> unat (sem_count st' s) = unat (sem_count st s) + 1
    | t # ts \<Rightarrow> \<exists>st'. sem_post (Some s) st = Done () st' \<and> sem_count st' s = 0 \<and>
        state (tasks st' t) = TASK_READY \<and> wake_result (tasks st' t) = 0 \<and>
        sched_core st' (qs(SemQ s := ts))"
proof (cases "qs (SemQ s)")
  case Nil
  have "unat (sem_count st s + 1) = unat (sem_count st s) + 1" if "sem_count st s \<noteq> 0xFFFFFFFF"
  proof -
    have "unat (sem_count st s) \<noteq> 4294967295"
      using that of_nat_unat_eq[of "sem_count st s" 4294967295] by auto
    then have "unat (sem_count st s) + 1 < 4294967296" using unat_u32_lt[of "sem_count st s"] by linarith
    then show ?thesis using unat_add_u32_small[of "sem_count st s" 1] by simp
  qed
  then show ?thesis using Nil wake_first_empty[OF assms Nil] by (simp add: sem_post_def)
next
  case (Cons t ts)
  obtain s1 where w: "wake_first (SemQ s) st = (make_ready t 0 s1, Some t)" "erase s1 = erase st"
      "sched_core (make_ready t 0 s1) (qs(SemQ s := ts))"
    using wake_first_core[OF assms Cons] by blast
  have "sem_count st s = 0" using sched_core_sync(5)[OF assms, of s] Cons by (auto simp: word_gt_0)
  then show ?thesis
    using Cons w by (simp add: sem_post_def make_ready_def erase_eqD[OF w(2)])
qed


theorem sem_post_not_lost_witness:
  "\<exists>st'. sem_post (Some 0) booted = Done () st' \<and> unat (sem_count st' 0) = 1"
proof -
  obtain qs where c: "sched_core booted qs"
    using reachable_wf[OF booted_reachable] by (auto simp: sched_wf_def)
  have b: "head (wait_queues booted (SemQ 0)) = None" "sem_count booted 0 = 0"
    by (simp_all add: booted_def scheduler_init_def Let_def boot_def)
  have "qs (SemQ 0) = []" by (rule queue_init_idle(1)[OF c b(1)])
  then show ?thesis using sem_post_not_lost[OF c, of 0] b(2) by simp
qed

end
