(* ===== verification/Irq.thy ===== *)
theory Irq
  imports Prelude
begin

text \<open>
  Interrupt handler registration and dispatch (\<open>src/boot/irq.c\<close>) over the masking functions of the
  interrupt controller (\<open>src/boot/pic.c\<close>).

  A handler is a function pointer and a context pointer.  The controller is modelled by its two mask
  registers and by the log of commands written to its two command ports; the in-service bit that
  \<open>pic_spurious\<close> reads back is an argument.  Calling the handlers is a list of calls in order.
\<close>

section \<open>Definitions\<close>

record irq_slot =
  handler :: u32
  slot_context :: u32

record irq_state =
  slots :: "nat \<Rightarrow> irq_slot list"
  master_mask :: u8
  slave_mask :: u8
  commands :: "(u16 \<times> u8) list"

definition no_slot :: irq_slot where
  "no_slot = \<lparr>handler = 0, slot_context = 0\<rparr>"

definition irq_boot :: irq_state where
  "irq_boot = \<lparr>slots = (\<lambda>_. replicate 4 no_slot), master_mask = 0xFF, slave_mask = 0xFF,
     commands = []\<rparr>"

text \<open>The last two writes of \<open>pic_remap\<close>: only the timer is unmasked.\<close>

definition pic_remap :: "irq_state \<Rightarrow> irq_state" where
  "pic_remap st = st\<lparr>master_mask := 0xFE, slave_mask := 0xFF\<rparr>"

definition irq_bit :: "nat \<Rightarrow> u8" where
  "irq_bit irq = ucast (push_bit (irq mod 8) (1::u32))"

definition pic_mask :: "nat \<Rightarrow> irq_state \<Rightarrow> irq_state" where
  "pic_mask irq st =
     (if irq < 8 then st\<lparr>master_mask := master_mask st OR irq_bit irq\<rparr>
      else st\<lparr>slave_mask := slave_mask st OR irq_bit irq\<rparr>)"

definition pic_unmask :: "nat \<Rightarrow> irq_state \<Rightarrow> irq_state" where
  "pic_unmask irq st =
     (let st = (if irq < 8 then st\<lparr>master_mask := master_mask st AND NOT (irq_bit irq)\<rparr>
                else st\<lparr>slave_mask := slave_mask st AND NOT (irq_bit irq)\<rparr>)
      in if irq \<ge> 8 then st\<lparr>master_mask := master_mask st AND NOT 0x04\<rparr> else st)"

definition outb :: "u16 \<Rightarrow> u8 \<Rightarrow> irq_state \<Rightarrow> irq_state" where
  "outb port b st = st\<lparr>commands := commands st @ [(port, b)]\<rparr>"

definition pic_eoi :: "nat \<Rightarrow> irq_state \<Rightarrow> irq_state" where
  "pic_eoi irq st = outb 0x20 0x20 (if irq \<ge> 8 then outb 0xA0 0x20 st else st)"

definition pic_spurious :: "nat \<Rightarrow> u8 \<Rightarrow> irq_state \<Rightarrow> bool \<times> irq_state" where
  "pic_spurious irq in_service st =
     (if irq \<noteq> 7 \<and> irq \<noteq> 15 then (False, st)
      else let st = outb (if irq = 7 then 0x20 else 0xA0) 0x0B st in
        if in_service AND 0x80 \<noteq> 0 then (False, st)
        else if irq = 15 then (True, outb 0x20 0x20 st) else (True, st))"

text \<open>The loop of \<open>irq_register\<close>: \<open>None\<close> when the handler is already there, else the first free
  index.\<close>

fun find_free :: "irq_slot list \<Rightarrow> nat \<Rightarrow> nat option \<Rightarrow> u32 \<Rightarrow> u32 \<Rightarrow> nat option option" where
  "find_free [] i free h c = Some free"
| "find_free (s # ss) i free h c =
     (if handler s = h \<and> slot_context s = c then None
      else find_free ss (i + 1) (if handler s = 0 \<and> free = None then Some i else free) h c)"

definition irq_register :: "nat \<Rightarrow> u32 \<Rightarrow> u32 \<Rightarrow> irq_state \<Rightarrow> int \<times> irq_state" where
  "irq_register irq h c st =
     (if irq = 0 \<or> irq = 2 \<or> irq \<ge> 16 \<or> h = 0 then (-1, st)
      else (case find_free (slots st irq) 0 None h c of
          None \<Rightarrow> (-1, st)
        | Some None \<Rightarrow> (-1, st)
        | Some (Some i) \<Rightarrow>
            (0, pic_unmask irq (st\<lparr>slots := (slots st)(irq :=
                 (slots st irq)[i := \<lparr>handler = h, slot_context = c\<rparr>])\<rparr>))))"

definition irq_unregister :: "nat \<Rightarrow> u32 \<Rightarrow> u32 \<Rightarrow> irq_state \<Rightarrow> irq_state" where
  "irq_unregister irq h c st =
     (if irq = 0 \<or> irq = 2 \<or> irq \<ge> 16 then st
      else let
        ss = map (\<lambda>s. if handler s = h \<and> slot_context s = c then no_slot else s) (slots st irq);
        st = st\<lparr>slots := (slots st)(irq := ss)\<rparr>
      in if \<forall>s \<in> set ss. handler s = 0 then pic_mask irq st else st)"

text \<open>The calls a dispatch makes, with the state after the controller has been acknowledged.\<close>

definition irq_dispatch :: "nat \<Rightarrow> u8 \<Rightarrow> irq_state \<Rightarrow> (u32 \<times> u32) list \<times> irq_state" where
  "irq_dispatch irq in_service st =
     (if irq \<ge> 16 then ([], st)
      else case pic_spurious irq in_service st of
        (True, st) \<Rightarrow> ([], st)
      | (False, st) \<Rightarrow>
          (map (\<lambda>s. (handler s, slot_context s)) (filter (\<lambda>s. handler s \<noteq> 0) (slots st irq)),
           pic_eoi irq st))"


section \<open>The invariant\<close>

definition masked :: "irq_state \<Rightarrow> nat \<Rightarrow> bool" where
  "masked st irq = (if irq < 8 then bit (master_mask st) irq else bit (slave_mask st) (irq - 8))"

text \<open>
  Four slots per line, no handler twice, an empty slot is all zero, and a line that has a handler
  is unmasked (through the cascade line for the upper eight).
\<close>

definition irq_wf :: "irq_state \<Rightarrow> bool" where
  "irq_wf st \<longleftrightarrow> (\<forall>irq. length (slots st irq) = 4 \<and>
     distinct (filter (\<lambda>s. handler s \<noteq> 0) (slots st irq)) \<and>
     (irq < 16 \<and> (\<exists>s \<in> set (slots st irq). handler s \<noteq> 0) \<longrightarrow>
        \<not> masked st irq \<and> (8 \<le> irq \<longrightarrow> \<not> masked st 2)))"

definition registered :: "irq_state \<Rightarrow> nat \<Rightarrow> (u32 \<times> u32) set" where
  "registered st irq = (\<lambda>s. (handler s, slot_context s)) ` {s \<in> set (slots st irq). handler s \<noteq> 0}"

lemma find_free_None: "find_free ss i free h c = None \<longleftrightarrow> \<lparr>handler = h, slot_context = c\<rparr> \<in> set ss"
  by (induction ss arbitrary: i free) (auto intro: irq_slot.equality)

lemma find_free_kept: "find_free ss i (Some k) h c = Some r \<Longrightarrow> r = Some k"
  by (induction ss arbitrary: i) (auto split: if_splits)

lemma find_free_Some:
  assumes "find_free ss i None h c = Some r"
  shows "r = (if \<exists>s \<in> set ss. handler s = 0
    then Some (i + length (takeWhile (\<lambda>s. handler s \<noteq> 0) ss)) else None)"
  using assms
proof (induction ss arbitrary: i)
  case (Cons s ss)
  show ?case
  proof (cases "handler s = 0")
    case True
    then show ?thesis using Cons.prems by (auto dest: find_free_kept split: if_splits)
  next
    case False
    then show ?thesis using Cons.prems Cons.IH[of "i + 1"] by (auto split: if_splits)
  qed
qed simp

lemma bit_irq_bit: "bit (irq_bit irq) k \<longleftrightarrow> k = irq mod 8"
  by (auto simp: irq_bit_def bit_simps)

lemma bit_and_not_four: "bit (x AND NOT 0x04) k \<longleftrightarrow> bit (x :: u8) k \<and> k \<noteq> 2"
proof -
  have four: "(0x04::u8) = push_bit 2 1" by simp
  have "bit (NOT (push_bit 2 (1::u8))) k \<longleftrightarrow> k < 8 \<and> k \<noteq> 2"
    by (simp only: bit_not_iff bit_push_bit_iff bit_1_iff possible_bit_word) auto
  moreover have "bit x k \<Longrightarrow> k < 8" using bit_imp_le_length[of x k] by simp
  ultimately show ?thesis unfolding four bit_and_iff by blast
qed

lemma masked_unmask:
  assumes "irq < 16" "k < 16"
  shows "masked (pic_unmask irq st) k \<longleftrightarrow> masked st k \<and> k \<noteq> irq \<and> \<not> (8 \<le> irq \<and> k = 2)"
proof -
  have clear: "bit (x AND NOT (irq_bit irq)) k \<longleftrightarrow> bit x k \<and> k \<noteq> irq mod 8" for x :: u8 and k
    using bit_imp_le_length[of x k] by (auto simp: bit_and_iff bit_not_iff bit_irq_bit)
  consider "irq < 8" | "8 \<le> irq" by linarith
  then show ?thesis
  proof cases
    case 1
    then show ?thesis using assms by (simp add: masked_def pic_unmask_def clear)
  next
    case 2
    have "masked (pic_unmask irq st) k = (if k < 8 then bit (master_mask st AND NOT 0x04) k
        else bit (slave_mask st AND NOT (irq_bit irq)) (k - 8))"
      using 2 by (simp add: masked_def pic_unmask_def)
    then show ?thesis using 2 assms unfolding bit_and_not_four clear by (auto simp: masked_def mod_if)
  qed
qed

lemma masked_mask:
  assumes "irq < 16" "k < 16"
  shows "masked (pic_mask irq st) k \<longleftrightarrow> masked st k \<or> k = irq"
proof -
  consider "irq < 8" "k < 8" | "irq < 8" "8 \<le> k" | "8 \<le> irq" "k < 8" | "8 \<le> irq" "8 \<le> k"
    by linarith
  then show ?thesis
    using assms by cases (auto simp: masked_def pic_mask_def bit_or_iff bit_irq_bit mod_if)
qed


lemma slots_pic [simp]: "slots (pic_unmask irq st) = slots st" "slots (pic_mask irq st) = slots st"
  by (simp_all add: pic_unmask_def pic_mask_def Let_def)

lemma masked_cong: "master_mask st' = master_mask st \<Longrightarrow> slave_mask st' = slave_mask st \<Longrightarrow>
    masked st' k = masked st k"
  by (simp add: masked_def)

lemma takeWhile_split_first:
  assumes "\<exists>s \<in> set ss. \<not> P s"
  obtains us x vs where "ss = us @ x # vs" "\<not> P x" "length (takeWhile P ss) = length us"
    "\<forall>u \<in> set us. P u"
proof -
  obtain x vs where "dropWhile P ss = x # vs" "\<not> P x"
    using assms by (metis dropWhile_eq_Nil_conv hd_dropWhile list.exhaust_sel)
  then show thesis
    using that[of "takeWhile P ss" x vs] by (metis set_takeWhileD takeWhile_dropWhile_id)
qed

text \<open>What a successful registration does to the slots of a line.\<close>

lemma irq_register_slots:
  assumes "irq_register irq h c st = (0, st')"
  obtains us x vs where "slots st irq = us @ x # vs" "handler x = 0" "h \<noteq> 0" "irq < 16"
    "irq \<noteq> 0" "irq \<noteq> 2"
    "\<lparr>handler = h, slot_context = c\<rparr> \<notin> set (slots st irq)"
    "st' = pic_unmask irq (st\<lparr>slots := (slots st)(irq := us @ \<lparr>handler = h, slot_context = c\<rparr> # vs)\<rparr>)"
proof -
  have g: "h \<noteq> 0" "irq < 16" "irq \<noteq> 0" "irq \<noteq> 2"
    using assms by (auto simp: irq_register_def split: if_splits)
  obtain i where i: "find_free (slots st irq) 0 None h c = Some (Some i)"
    "st' = pic_unmask irq (st\<lparr>slots := (slots st)(irq :=
       (slots st irq)[i := \<lparr>handler = h, slot_context = c\<rparr>])\<rparr>)"
    using assms by (auto simp: irq_register_def split: if_splits option.splits)
  have free: "\<exists>s \<in> set (slots st irq). handler s = 0"
    and i0: "i = length (takeWhile (\<lambda>s. handler s \<noteq> 0) (slots st irq))"
    using find_free_Some[OF i(1)] by (auto split: if_splits)
  obtain us x vs where s: "slots st irq = us @ x # vs" "handler x = 0" "i = length us"
  proof (rule takeWhile_split_first[of "slots st irq" "\<lambda>s. handler s \<noteq> 0"])
    show "\<exists>s \<in> set (slots st irq). \<not> handler s \<noteq> 0" using free by simp
  qed (use i0 in simp)
  have "\<lparr>handler = h, slot_context = c\<rparr> \<notin> set (slots st irq)"
    using i(1) find_free_None[of "slots st irq" 0 None h c] by auto
  then show thesis using that[OF s(1,2) g] i(2) s by simp
qed

lemma irq_wfD:
  assumes "irq_wf st"
  shows "length (slots st irq) = 4" "distinct (filter (\<lambda>s. handler s \<noteq> 0) (slots st irq))"
    "\<lbrakk>irq < 16; s \<in> set (slots st irq); handler s \<noteq> 0\<rbrakk> \<Longrightarrow> \<not> masked st irq"
    "\<lbrakk>irq < 16; s \<in> set (slots st irq); handler s \<noteq> 0; 8 \<le> irq\<rbrakk> \<Longrightarrow> \<not> masked st 2"
  using assms unfolding irq_wf_def by blast+

lemma irq_register_wf:
  assumes "irq_wf st" "irq_register irq h c st = (0, st')"
  shows "irq_wf st'"
proof -
  obtain us x vs where s: "slots st irq = us @ x # vs" "handler x = 0" "h \<noteq> 0" "irq < 16"
    "\<lparr>handler = h, slot_context = c\<rparr> \<notin> set (slots st irq)"
    "st' = pic_unmask irq (st\<lparr>slots := (slots st)(irq := us @ \<lparr>handler = h, slot_context = c\<rparr> # vs)\<rparr>)"
    using irq_register_slots[OF assms(2)] by metis
  let ?st = "st\<lparr>slots := (slots st)(irq := us @ \<lparr>handler = h, slot_context = c\<rparr> # vs)\<rparr>"
  have sl: "slots st' k = (if k = irq then us @ \<lparr>handler = h, slot_context = c\<rparr> # vs else slots st k)" for k
    using s(6) by simp
  have m: "masked st' k \<longleftrightarrow> masked st k \<and> k \<noteq> irq \<and> \<not> (8 \<le> irq \<and> k = 2)" if "k < 16" for k
    using masked_unmask[OF s(4) that, of ?st] masked_cong[of ?st st k] s(6) by simp
  have "length (slots st' k) = 4" for k
    using irq_wfD(1)[OF assms(1), of k] irq_wfD(1)[OF assms(1), of irq] s(1) sl[of k] by simp
  moreover have "distinct (filter (\<lambda>s. handler s \<noteq> 0) (slots st' k))" for k
    using irq_wfD(2)[OF assms(1), of k] irq_wfD(2)[OF assms(1), of irq] s(1,2,3,5) sl[of k] by auto
  moreover have "\<not> masked st' k" if "k < 16" "\<exists>s \<in> set (slots st' k). handler s \<noteq> 0" for k
    using irq_wfD(3)[OF assms(1), of k] that sl[of k] m[of k] by (cases "k = irq") auto
  moreover have "\<not> masked st' 2" if "k < 16" "8 \<le> k" "\<exists>s \<in> set (slots st' k). handler s \<noteq> 0" for k
    using irq_wfD(4)[OF assms(1), of k] that sl[of k] m[of 2] by (cases "k = irq") auto
  ultimately show ?thesis unfolding irq_wf_def by blast
qed

definition dropped :: "u32 \<Rightarrow> u32 \<Rightarrow> irq_slot list \<Rightarrow> irq_slot list" where
  "dropped h c ss = map (\<lambda>s. if handler s = h \<and> slot_context s = c then no_slot else s) ss"

lemma dropped_distinct:
  "distinct (filter (\<lambda>s. handler s \<noteq> 0) ss) \<Longrightarrow> distinct (filter (\<lambda>s. handler s \<noteq> 0) (dropped h c ss))"
  by (induction ss) (auto simp: dropped_def no_slot_def split: if_splits)

lemma dropped_in: "s \<in> set (dropped h c ss) \<Longrightarrow> handler s \<noteq> 0 \<Longrightarrow>
    s \<in> set ss \<and> \<not> (handler s = h \<and> slot_context s = c)"
  by (auto simp: dropped_def no_slot_def split: if_splits)

lemma irq_unregister_eq:
  assumes "\<not> (irq = 0 \<or> irq = 2 \<or> irq \<ge> 16)"
  shows "irq_unregister irq h c st =
    (let st' = st\<lparr>slots := (slots st)(irq := dropped h c (slots st irq))\<rparr> in
     if \<forall>s \<in> set (dropped h c (slots st irq)). handler s = 0 then pic_mask irq st' else st')"
  using assms unfolding irq_unregister_def dropped_def[symmetric] by (simp add: Let_def)

lemma irq_unregister_slots:
  assumes "\<not> (irq = 0 \<or> irq = 2 \<or> irq \<ge> 16)"
  shows "slots (irq_unregister irq h c st) k =
    (if k = irq then dropped h c (slots st irq) else slots st k)"
  unfolding irq_unregister_eq[OF assms] Let_def by simp

lemma irq_unregister_masked:
  assumes "\<not> (irq = 0 \<or> irq = 2 \<or> irq \<ge> 16)" "k < 16"
  shows "masked (irq_unregister irq h c st) k \<longleftrightarrow>
    masked st k \<or> k = irq \<and> (\<forall>s \<in> set (dropped h c (slots st irq)). handler s = 0)"
proof -
  let ?st = "st\<lparr>slots := (slots st)(irq := dropped h c (slots st irq))\<rparr>"
  have "masked ?st k = masked st k" by (rule masked_cong) simp_all
  moreover have "masked (pic_mask irq ?st) k \<longleftrightarrow> masked ?st k \<or> k = irq"
    using masked_mask assms by simp
  ultimately show ?thesis unfolding irq_unregister_eq[OF assms(1)] Let_def by (simp; blast)
qed

lemma irq_unregister_wf:
  assumes "irq_wf st"
  shows "irq_wf (irq_unregister irq h c st)"
proof (cases "irq = 0 \<or> irq = 2 \<or> irq \<ge> 16")
  case True
  then show ?thesis using assms by (auto simp: irq_unregister_def)
next
  case False
  let ?st = "irq_unregister irq h c st"
  note sl = irq_unregister_slots[OF False, of h c st]
  note m = irq_unregister_masked[OF False, of _ h c st]
  have "length (slots ?st k) = 4" for k
    using irq_wfD(1)[OF assms] by (simp add: sl dropped_def)
  moreover have "distinct (filter (\<lambda>s. handler s \<noteq> 0) (slots ?st k))" for k
    using irq_wfD(2)[OF assms] dropped_distinct by (simp add: sl)
  moreover have "\<not> masked ?st k \<and> (8 \<le> k \<longrightarrow> \<not> masked ?st 2)"
    if k: "k < 16" "\<exists>s \<in> set (slots ?st k). handler s \<noteq> 0" for k
  proof -
    obtain s where s: "s \<in> set (slots ?st k)" "handler s \<noteq> 0" using k(2) by blast
    have "s \<in> set (slots st k)"
      using s dropped_in[of s h c "slots st irq"] by (cases "k = irq") (simp_all add: sl)
    then have "\<not> masked st k" "8 \<le> k \<longrightarrow> \<not> masked st 2"
      using irq_wfD(3,4)[OF assms k(1) _ s(2)] by blast+
    moreover have "k = irq \<Longrightarrow> \<exists>s \<in> set (dropped h c (slots st irq)). handler s \<noteq> 0"
      using s by (auto simp: sl)
    ultimately show ?thesis using k(1) False by (auto simp: m)
  qed
  ultimately show ?thesis unfolding irq_wf_def by blast
qed


section \<open>Properties\<close>

lemma four_slots: "replicate 4 x = [x, x, x, x]"
  by (simp add: numeral_eq_Suc)

lemma irq_boot_wf: "irq_wf irq_boot"
  by (simp add: irq_wf_def irq_boot_def no_slot_def)

text \<open>
  A registered handler is called exactly once per interrupt of its line, together with the
  handlers registered before and no others, and the interrupt is acknowledged; the line is unmasked.
  The registration keeps the table well formed: no handler is registered twice, and a line with a
  handler is never masked.
\<close>

theorem irq_registered_called_once:
  assumes "irq_wf st" "irq_register irq h c st = (0, st')" "irq \<noteq> 7" "irq \<noteq> 15"
  shows "irq_wf st' \<and> \<not> masked st' irq \<and>
    count_list (fst (irq_dispatch irq b st')) (h, c) = 1 \<and>
    set (fst (irq_dispatch irq b st')) = insert (h, c) (set (fst (irq_dispatch irq b st)))"
proof -
  obtain us x vs where s: "slots st irq = us @ x # vs" "handler x = 0" "h \<noteq> 0" "irq < 16"
    "\<lparr>handler = h, slot_context = c\<rparr> \<notin> set (slots st irq)"
    "st' = pic_unmask irq (st\<lparr>slots := (slots st)(irq := us @ \<lparr>handler = h, slot_context = c\<rparr> # vs)\<rparr>)"
    using irq_register_slots[OF assms(2)] by metis
  have d: "fst (irq_dispatch irq b t) =
      map (\<lambda>s. (handler s, slot_context s)) (filter (\<lambda>s. handler s \<noteq> 0) (slots t irq))" for t
    using assms(3,4) s(4) by (simp add: irq_dispatch_def pic_spurious_def)
  have none: "(h, c) \<notin> (\<lambda>s. (handler s, slot_context s)) ` set (us @ vs)"
  proof
    assume "(h, c) \<in> (\<lambda>s. (handler s, slot_context s)) ` set (us @ vs)"
    then obtain y where y: "y \<in> set (us @ vs)" "handler y = h" "slot_context y = c" by auto
    have "y = \<lparr>handler = h, slot_context = c\<rparr>" using y(2,3) by simp
    then show False using y(1) s(1,5) by auto
  qed
  have "\<not> masked st' irq" using s(6) masked_unmask[OF s(4) s(4)] by simp
  moreover have "count_list (fst (irq_dispatch irq b st')) (h, c) = 1"
    using none s(3,6) by (auto simp: d count_list_0_iff image_iff)
  moreover have "set (fst (irq_dispatch irq b st')) = insert (h, c) (set (fst (irq_dispatch irq b st)))"
    using s(1-3,6) by (auto simp: d)
  ultimately show ?thesis using irq_register_wf[OF assms(1,2)] by simp
qed

theorem irq_registered_called_once_witness:
  "fst (irq_register 11 4096 7 irq_boot) = 0 \<and>
   count_list (fst (irq_dispatch 11 0 (snd (irq_register 11 4096 7 irq_boot)))) (4096, 7) = 1"
proof -
  have r: "fst (irq_register 11 4096 7 irq_boot) = 0"
    by (simp add: irq_register_def irq_boot_def no_slot_def four_slots)
  then have "irq_register 11 4096 7 irq_boot = (0, snd (irq_register 11 4096 7 irq_boot))"
    by (metis prod.collapse)
  from irq_registered_called_once[OF irq_boot_wf this] r show ?thesis by simp
qed

end
