(* ===== verification/Byteorder.thy ===== *)
theory Byteorder
  imports Prelude
begin

text \<open>
  The byte-order helpers of \<open>net/byteorder.h\<close>, and the interface the protocol theories use
  for the fixed-width fields of a packet (locale \<open>wire_field\<close>): a field has a width, an
  encoding and a decoding, and decoding what was written gives the value back.
\<close>

section \<open>Definitions\<close>

definition htons :: "u16 \<Rightarrow> u16" where
  "htons value = ucast (push_bit 8 (ucast value :: u32) OR drop_bit 8 (ucast value :: u32))"

definition ntohs :: "u16 \<Rightarrow> u16" where
  "ntohs value = htons value"

definition htonl :: "u32 \<Rightarrow> u32" where
  "htonl value =
     push_bit 24 (value AND 0x000000FF) OR push_bit 8 (value AND 0x0000FF00)
     OR drop_bit 8 (value AND 0x00FF0000) OR drop_bit 24 (value AND 0xFF000000)"

definition ntohl :: "u32 \<Rightarrow> u32" where
  "ntohl value = htonl value"

definition be16_read :: "u8 list \<Rightarrow> u16" where
  "be16_read bytes = ucast (push_bit 8 (ucast (bytes ! 0) :: u32) OR ucast (bytes ! 1))"

definition be32_read :: "u8 list \<Rightarrow> u32" where
  "be32_read bytes =
     push_bit 24 (ucast (bytes ! 0)) OR push_bit 16 (ucast (bytes ! 1))
     OR push_bit 8 (ucast (bytes ! 2)) OR ucast (bytes ! 3)"

definition be16_bytes :: "u16 \<Rightarrow> u8 list" where
  "be16_bytes value = [ucast (drop_bit 8 value), ucast value]"

definition be32_bytes :: "u32 \<Rightarrow> u8 list" where
  "be32_bytes value =
     [ucast (drop_bit 24 value), ucast (drop_bit 16 value), ucast (drop_bit 8 value), ucast value]"

text \<open>The two writers store the bytes at the location they are given.\<close>

definition be16_write :: "u8 list \<Rightarrow> nat \<Rightarrow> u16 \<Rightarrow> u8 list" where
  "be16_write buf off value = write_at buf off (be16_bytes value)"

definition be32_write :: "u8 list \<Rightarrow> nat \<Rightarrow> u32 \<Rightarrow> u8 list" where
  "be32_write buf off value = write_at buf off (be32_bytes value)"


section \<open>Fixed-width wire fields\<close>

locale wire_field =
  fixes width :: nat
    and enc :: "'a \<Rightarrow> u8 list"
    and dec :: "u8 list \<Rightarrow> 'a"
  assumes length_enc: "length (enc v) = width"
    and dec_enc: "dec (enc v @ rest) = v"
begin

lemma enc_inject: "enc v = enc w \<longleftrightarrow> v = w"
  by (metis append_Nil2 dec_enc)

lemma dec_written:
  "off \<le> length buf \<Longrightarrow> dec (drop off (write_at buf off (enc v))) = v"
  by (simp add: write_at_def dec_enc)

lemma written_elsewhere:
  assumes "off + width \<le> length buf" "a + n \<le> off \<or> off + width \<le> a"
  shows "chunk (write_at buf off (enc v)) a n = chunk buf a n"
  using assms by (intro chunk_write_at_disjoint) (simp_all add: length_enc)

lemma overwrite:
  assumes "off + width \<le> length buf"
  shows "write_at (write_at buf off (enc v)) off (enc w) = write_at buf off (enc w)"
  using assms write_at_inside[of off off "enc w" "enc v" buf] by (simp add: length_enc write_at_def)

end

lemma be16_read_bytes: "be16_read (be16_bytes v @ rest) = v"
  by (rule bit_word_eqI) (auto simp: be16_read_def be16_bytes_def bit_simps)

lemma be32_read_bytes: "be32_read (be32_bytes v @ rest) = v"
proof (rule bit_word_eqI)
  fix n assume "n < LENGTH(32)"
  then show "bit (be32_read (be32_bytes v @ rest)) n = bit v n"
    by (cases "n < 8"; cases "n < 16"; cases "n < 24")
      (auto simp: be32_read_def be32_bytes_def bit_simps not_less)
qed

lemma length_be16_bytes [simp]: "length (be16_bytes v) = 2"
  by (simp add: be16_bytes_def)

lemma length_be32_bytes [simp]: "length (be32_bytes v) = 4"
  by (simp add: be32_bytes_def)

interpretation be16: wire_field 2 be16_bytes be16_read
  by unfold_locales (simp_all add: be16_read_bytes)

interpretation be32: wire_field 4 be32_bytes be32_read
  by unfold_locales (simp_all add: be32_read_bytes)


section \<open>Reading at an offset\<close>

lemma be16_read_nth: "be16_read bytes = be16_read [bytes ! 0, bytes ! 1]"
  by (simp add: be16_read_def)

lemma be16_bytes_read: "be16_bytes (be16_read (a # b # bs)) = [a, b]"
proof -
  have "ucast (drop_bit 8 (be16_read (a # b # bs))) = a"
    by (rule bit_word_eqI) (auto simp: be16_read_def bit_simps dest: bit_imp_le_length)
  moreover have "ucast (be16_read (a # b # bs)) = b"
    by (rule bit_word_eqI) (auto simp: be16_read_def bit_simps dest: bit_imp_le_length)
  ultimately show ?thesis by (simp add: be16_bytes_def)
qed

lemma unat_be16_read: "unat (be16_read (a # b # bs)) = unat a * 256 + unat b"
proof -
  have "unat (ucast (drop_bit 8 (be16_read (a # b # bs))) :: u8) = unat a"
    and "unat (ucast (be16_read (a # b # bs)) :: u8) = unat b"
    using be16_bytes_read[of a b bs] by (simp_all add: be16_bytes_def)
  moreover have "unat (be16_read (a # b # bs)) div 256 < 256"
    using unat_u16_lt[of "be16_read (a # b # bs)"] by (simp add: less_mult_imp_div_less)
  ultimately have "unat (be16_read (a # b # bs)) div 256 = unat a"
    and "unat (be16_read (a # b # bs)) mod 256 = unat b"
    by (simp_all add: unat_ucast_u16_u8 unat_drop_bit)
  then show ?thesis
    by (metis div_mult_mod_eq)
qed

lemma unat_be16_hi_lo:
  "unat (ucast (drop_bit 8 (v::u16)) :: u8) * 256 + unat (ucast v :: u8) = unat v"
  using unat_be16_read[of "ucast (drop_bit 8 v)" "ucast v" "[]"] be16_read_bytes[of v "[]"]
  by (simp add: be16_bytes_def)

text \<open>
  Converting to network byte order and back is the identity for 16- and 32-bit values, and
  the conversion is the byte reversal: reading the big-endian bytes of a value backwards gives
  the big-endian bytes of the converted value.
\<close>

theorem byte_order_involution:
  "ntohs (htons v) = v \<and> ntohl (htonl w) = w \<and>
   be16_bytes (htons v) = rev (be16_bytes v) \<and> be32_bytes (htonl w) = rev (be32_bytes w)"
proof (intro conjI)
  show "ntohs (htons v) = v"
    by (rule bit_word_eqI) (auto simp: ntohs_def htons_def bit_simps dest: bit_imp_le_length)
  have rev32: "be32_bytes (htonl w) = rev (be32_bytes w)" for w
    by (simp add: be32_bytes_def) (intro conjI bit_word_eqI; auto simp: htonl_def mask_literals bit_simps dest: bit_imp_le_length)
  then show "be32_bytes (htonl w) = rev (be32_bytes w)" .
  show "ntohl (htonl w) = w"
    by (metis be32.enc_inject ntohl_def rev32 rev_rev_ident)
  show "be16_bytes (htons v) = rev (be16_bytes v)"
    by (simp add: be16_bytes_def) (intro conjI bit_word_eqI; auto simp: htons_def bit_simps dest: bit_imp_le_length)
qed

end
