(* ===== verification/Addr.thy ===== *)
theory Addr
  imports Byteorder
begin

text \<open>
  MAC and IPv4 addresses, their textual forms and their predicates (\<open>net/addr.c\<close>).

  The C structs hold a fixed array of bytes; here they are datatypes with one field per byte, and
  \<open>mac_bytes\<close> and \<open>ipv4_bytes\<close> list the array.  A C string is the list of its bytes;
  \<open>peek\<close> reads the byte under a text pointer, which is the NUL terminator once the list is
  used up.
\<close>

section \<open>Definitions\<close>

datatype mac_addr = Mac u8 u8 u8 u8 u8 u8

datatype ipv4_addr = Ipv4 u8 u8 u8 u8

fun mac_bytes :: "mac_addr \<Rightarrow> u8 list" where
  "mac_bytes (Mac a b c d e f) = [a, b, c, d, e, f]"

fun ipv4_bytes :: "ipv4_addr \<Rightarrow> u8 list" where
  "ipv4_bytes (Ipv4 a b c d) = [a, b, c, d]"

text \<open>Copying \<open>MAC_SIZE\<close> or \<open>IPV4_SIZE\<close> bytes into the array of a struct.\<close>

definition mac_of_bytes :: "u8 list \<Rightarrow> mac_addr" where
  "mac_of_bytes bs = Mac (bs ! 0) (bs ! 1) (bs ! 2) (bs ! 3) (bs ! 4) (bs ! 5)"

definition ipv4_of_bytes :: "u8 list \<Rightarrow> ipv4_addr" where
  "ipv4_of_bytes bs = Ipv4 (bs ! 0) (bs ! 1) (bs ! 2) (bs ! 3)"

definition peek :: "u8 list \<Rightarrow> u8" where
  "peek text = (case text of [] \<Rightarrow> 0 | c # _ \<Rightarrow> c)"

definition hex_value :: "u8 \<Rightarrow> int" where
  "hex_value c =
     (if 0x30 \<le> c \<and> c \<le> 0x39 then uint c - 0x30
      else if 0x61 \<le> c \<and> c \<le> 0x66 then uint c - 0x61 + 10
      else if 0x41 \<le> c \<and> c \<le> 0x46 then uint c - 0x41 + 10
      else - 1)"

text \<open>The loop of \<open>mac_parse\<close>; the first argument is \<open>MAC_SIZE - i\<close>.\<close>

fun mac_parse_loop :: "nat \<Rightarrow> u8 list \<Rightarrow> u8 list \<Rightarrow> u8 list option" where
  "mac_parse_loop 0 text result = (if peek text \<noteq> 0 then None else Some result)"
| "mac_parse_loop (Suc k) text result =
     (let high = hex_value (peek text) in
      if high < 0 then None
      else let low = hex_value (peek (drop 1 text)) in
      if low < 0 then None
      else let result' = result @ [word_of_int (push_bit 4 high OR low)]; text' = drop 2 text in
      if 0 < k then
        (if peek text' \<noteq> 0x3A \<and> peek text' \<noteq> 0x2D then None
         else mac_parse_loop k (drop 1 text') result')
      else mac_parse_loop k text' result')"

definition mac_parse :: "u8 list \<Rightarrow> mac_addr option" where
  "mac_parse text = map_option mac_of_bytes (mac_parse_loop 6 text [])"

definition hex_digits :: "u8 list" where
  "hex_digits = [0x30, 0x31, 0x32, 0x33, 0x34, 0x35, 0x36, 0x37,
                 0x38, 0x39, 0x61, 0x62, 0x63, 0x64, 0x65, 0x66]"

fun mac_format_loop :: "u8 list \<Rightarrow> u8 list" where
  "mac_format_loop [] = []"
| "mac_format_loop (b # bs) =
     [hex_digits ! unat (drop_bit 4 b), hex_digits ! unat (b AND 0x0F)]
     @ (if bs \<noteq> [] then [0x3A] else []) @ mac_format_loop bs"

definition mac_format :: "mac_addr \<Rightarrow> u8 list" where
  "mac_format addr = mac_format_loop (mac_bytes addr) @ [0]"

text \<open>The comparison loops accumulate the differences of all bytes before deciding.\<close>

definition diff_bits :: "u8 list \<Rightarrow> u8 list \<Rightarrow> u8" where
  "diff_bits xs ys = foldl (\<lambda>difference (x, y). difference OR (x XOR y)) 0 (zip xs ys)"

definition mac_equal :: "mac_addr \<Rightarrow> mac_addr \<Rightarrow> bool" where
  "mac_equal a b \<longleftrightarrow> diff_bits (mac_bytes a) (mac_bytes b) = 0"

definition mac_is_zero :: "mac_addr \<Rightarrow> bool" where
  "mac_is_zero addr \<longleftrightarrow> foldl (OR) 0 (mac_bytes addr) = 0"

definition mac_is_broadcast :: "mac_addr \<Rightarrow> bool" where
  "mac_is_broadcast addr \<longleftrightarrow> foldl (AND) 0xFF (mac_bytes addr) = 0xFF"

definition mac_is_multicast :: "mac_addr \<Rightarrow> bool" where
  "mac_is_multicast addr \<longleftrightarrow> mac_bytes addr ! 0 AND 0x01 \<noteq> 0"

text \<open>The inner \<open>while\<close> of \<open>ipv4_parse\<close>: value, number of digits and the text left.\<close>

fun ipv4_digits :: "u32 \<Rightarrow> nat \<Rightarrow> u8 list \<Rightarrow> (u32 \<times> nat \<times> u8 list) option" where
  "ipv4_digits value digits [] = Some (value, digits, [])"
| "ipv4_digits value digits (c # text) =
     (if 0x30 \<le> c \<and> c \<le> 0x39 then
        (let value' = value * 10 + ucast (c - 0x30); digits' = digits + 1 in
         if digits' > 3 \<or> value' > 255 then None else ipv4_digits value' digits' text)
      else Some (value, digits, c # text))"

fun ipv4_parse_loop :: "nat \<Rightarrow> u8 list \<Rightarrow> u8 list \<Rightarrow> u8 list option" where
  "ipv4_parse_loop 0 text result = (if peek text \<noteq> 0 then None else Some result)"
| "ipv4_parse_loop (Suc k) text result =
     (case ipv4_digits 0 0 text of
        None \<Rightarrow> None
      | Some (value, digits, text') \<Rightarrow>
          (if digits = 0 then None
           else let result' = result @ [ucast value] in
           if 0 < k then
             (if peek text' \<noteq> 0x2E then None else ipv4_parse_loop k (drop 1 text') result')
           else ipv4_parse_loop k text' result'))"

definition ipv4_parse :: "u8 list \<Rightarrow> ipv4_addr option" where
  "ipv4_parse text = map_option ipv4_of_bytes (ipv4_parse_loop 4 text [])"

definition ipv4_format_byte :: "u8 \<Rightarrow> u8 list" where
  "ipv4_format_byte value =
     (if value \<ge> 100 then [0x30 + value div 100] else [])
     @ (if value \<ge> 10 then [0x30 + (value div 10) mod 10] else [])
     @ [0x30 + value mod 10]"

fun ipv4_format_loop :: "u8 list \<Rightarrow> u8 list" where
  "ipv4_format_loop [] = []"
| "ipv4_format_loop (b # bs) =
     ipv4_format_byte b @ (if bs \<noteq> [] then [0x2E] else []) @ ipv4_format_loop bs"

definition ipv4_format :: "ipv4_addr \<Rightarrow> u8 list" where
  "ipv4_format addr = ipv4_format_loop (ipv4_bytes addr) @ [0]"

definition ipv4_equal :: "ipv4_addr \<Rightarrow> ipv4_addr \<Rightarrow> bool" where
  "ipv4_equal a b \<longleftrightarrow> diff_bits (ipv4_bytes a) (ipv4_bytes b) = 0"

definition ipv4_to_u32 :: "ipv4_addr \<Rightarrow> u32" where
  "ipv4_to_u32 addr = (let b = ipv4_bytes addr in
     push_bit 24 (ucast (b ! 0)) OR push_bit 16 (ucast (b ! 1))
     OR push_bit 8 (ucast (b ! 2)) OR ucast (b ! 3))"

definition ipv4_from_u32 :: "u32 \<Rightarrow> ipv4_addr" where
  "ipv4_from_u32 value =
     Ipv4 (ucast (drop_bit 24 value)) (ucast (drop_bit 16 value))
       (ucast (drop_bit 8 value)) (ucast value)"


declare ipv4_digits.simps [simp del]


section \<open>Byte arrays and comparisons\<close>

lemma length_mac_bytes [simp]: "length (mac_bytes a) = 6"
  by (cases a) simp

lemma length_ipv4_bytes [simp]: "length (ipv4_bytes a) = 4"
  by (cases a) simp

lemma mac_of_bytes_bytes [simp]: "mac_of_bytes (mac_bytes a @ rest) = a"
  by (cases a) (simp add: mac_of_bytes_def)

lemma ipv4_of_bytes_bytes [simp]: "ipv4_of_bytes (ipv4_bytes a @ rest) = a"
  by (cases a) (simp add: ipv4_of_bytes_def)

lemmas of_bytes_exact [simp] =
  mac_of_bytes_bytes[where rest = "[]", simplified] ipv4_of_bytes_bytes[where rest = "[]", simplified]

interpretation mac_field: wire_field 6 mac_bytes mac_of_bytes
  by unfold_locales simp_all

interpretation ipv4_field: wire_field 4 ipv4_bytes ipv4_of_bytes
  by unfold_locales simp_all

lemma word_or_eq_0_iff: "(a OR b = (0::u8)) \<longleftrightarrow> a = 0 \<and> b = 0"
  by (rule or_eq_0_iff)

lemma foldl_diff_zero_iff:
  "foldl (\<lambda>difference (x, y). difference OR (x XOR y)) acc (zip xs ys) = (0::u8) \<longleftrightarrow>
    acc = 0 \<and> (\<forall>(x, y) \<in> set (zip xs ys). x = y)"
  by (induction xs ys arbitrary: acc rule: list_induct2') (auto simp: word_or_eq_0_iff)

lemma zip_pointwise_eq:
  "length xs = length ys \<Longrightarrow> (\<forall>(x, y) \<in> set (zip xs ys). x = y) \<longleftrightarrow> xs = ys"
  by (induction xs ys rule: list_induct2) auto

lemma diff_bits_zero_iff: "length xs = length ys \<Longrightarrow> diff_bits xs ys = 0 \<longleftrightarrow> xs = ys"
  by (simp add: diff_bits_def foldl_diff_zero_iff zip_pointwise_eq)

lemma mac_equal_iff [simp]: "mac_equal a b \<longleftrightarrow> a = b"
  by (metis mac_equal_def diff_bits_zero_iff length_mac_bytes of_bytes_exact(1))

lemma ipv4_equal_iff [simp]: "ipv4_equal a b \<longleftrightarrow> a = b"
  by (metis ipv4_equal_def diff_bits_zero_iff length_ipv4_bytes of_bytes_exact(2))

lemma mac_is_zero_iff: "mac_is_zero a \<longleftrightarrow> a = Mac 0 0 0 0 0 0"
  by (cases a) (auto simp: mac_is_zero_def word_or_eq_0_iff)

lemma u8_and_eq_FF_iff: "(a AND b = (0xFF::u8)) \<longleftrightarrow> a = 0xFF \<and> b = 0xFF"
proof -
  have "(0xFF::u8) = - 1" by simp
  then show ?thesis by (simp only: and_eq_minus_1_iff)
qed

lemma mac_is_broadcast_iff: "mac_is_broadcast a \<longleftrightarrow> a = Mac 0xFF 0xFF 0xFF 0xFF 0xFF 0xFF"
  by (cases a) (auto simp: mac_is_broadcast_def u8_and_eq_FF_iff)

lemma ipv4_to_u32_be32: "ipv4_to_u32 a = be32_read (ipv4_bytes a)"
  by (simp add: ipv4_to_u32_def be32_read_def Let_def)

lemma ipv4_bytes_from_u32: "ipv4_bytes (ipv4_from_u32 v) = be32_bytes v"
  by (simp add: ipv4_from_u32_def be32_bytes_def)

lemma ipv4_to_from_u32: "ipv4_to_u32 (ipv4_from_u32 v) = v"
  using be32_read_bytes[of v "[]"] by (simp add: ipv4_to_u32_be32 ipv4_bytes_from_u32)

lemma ipv4_from_to_u32: "ipv4_from_u32 (ipv4_to_u32 a) = a"
proof (cases a)
  case (Ipv4 w x y z)
  show ?thesis
    unfolding Ipv4 ipv4_from_u32_def ipv4_to_u32_def Let_def
    by (simp, intro conjI bit_word_eqI; auto simp: bit_simps dest: bit_imp_le_length)
qed


section \<open>Text round trips\<close>

lemma peek_Cons [simp]: "peek (c # text) = c"
  by (simp add: peek_def)

lemma hex_digit_cases: "n < 16 \<Longrightarrow> hex_value (hex_digits ! n) = int n"
proof -
  have "\<forall>n \<in> set [0..<16]. hex_value (hex_digits ! n) = int n"
    unfolding hex_digits_def hex_value_def by code_simp
  then show "n < 16 \<Longrightarrow> ?thesis" by simp
qed

lemma nibbles_lt: "unat (drop_bit 4 (b::u8)) < 16" "unat ((b::u8) AND 0x0F) < 16"
proof -
  show "unat (drop_bit 4 b) < 16"
    using unat_u8_lt[of b] by (simp add: unat_drop_bit less_mult_imp_div_less del: unat_u8_lt)
  show "unat (b AND 0x0F) < 16"
    using word_and_le1[of b "0x0F"] by (simp add: word_le_nat_alt)
qed

lemma nibbles_join:
  "word_of_int (push_bit 4 (uint (drop_bit 4 b)) OR uint (b AND 0x0F)) = (b::u8)"
proof -
  have "word_of_int (push_bit 4 (uint (drop_bit 4 b)) OR uint (b AND 0x0F)) =
      push_bit 4 (drop_bit 4 b) OR (b AND 0x0F)"
    by (simp add: of_int_or_eq flip: push_bit_of_int)
  also have "\<dots> = b"
    unfolding mask_literals by (rule bit_word_eqI) (auto simp: bit_simps)
  finally show ?thesis .
qed

lemma mac_parse_format_loop:
  "mac_parse_loop (length bs) (mac_format_loop bs @ [0]) result = Some (result @ bs)"
proof (induction bs arbitrary: result)
  case Nil
  then show ?case by simp
next
  case (Cons b bs)
  then show ?case
    by (cases bs) (simp_all add: hex_digit_cases nibbles_lt nibbles_join)
qed

lemma length_mac_format_loop: "length (mac_format_loop bs) = 3 * length bs - 1"
proof (induction bs)
  case (Cons b bs)
  then show ?case by (cases bs) auto
qed simp

lemma decimal_digit:
  assumes "d < 10"
  shows "0x30 \<le> (0x30 + of_nat d :: u8)" "(0x30 + of_nat d :: u8) \<le> 0x39"
proof -
  have "d = 0 \<or> d = 1 \<or> d = 2 \<or> d = 3 \<or> d = 4 \<or> d = 5 \<or> d = 6 \<or> d = 7 \<or> d = 8 \<or> d = 9"
    using assms by presburger
  then show "0x30 \<le> (0x30 + of_nat d :: u8)" "(0x30 + of_nat d :: u8) \<le> 0x39"
    by (elim disjE; simp)+
qed

lemma ipv4_digits_step:
  assumes "d < 10" "v < 256"
  shows "ipv4_digits (of_nat v) k ((0x30 + of_nat d) # text) =
    (if k + 1 > 3 \<or> v * 10 + d > 255 then None
     else ipv4_digits (of_nat (v * 10 + d)) (k + 1) text)"
proof -
  have cast: "ucast (of_nat d :: u8) = (of_nat d :: u32)"
    using assms by (simp add: word_unat_eq_iff unsigned_of_nat take_bit_eq_mod)
  have "(of_nat (v * 10 + d) > (255::u32)) \<longleftrightarrow> v * 10 + d > 255"
    using assms by (simp add: unat_less_32 unat_of_nat_u32 del: of_nat_add of_nat_mult)
  then show ?thesis
    using decimal_digit[OF assms(1)] by (simp add: ipv4_digits.simps cast Let_def)
qed

lemma ipv4_format_byte_nat:
  "ipv4_format_byte b = (let v = unat b in
     (if v \<ge> 100 then [0x30 + of_nat (v div 100)] else [])
     @ (if v \<ge> 10 then [0x30 + of_nat (v div 10 mod 10)] else []) @ [0x30 + of_nat (v mod 10)])"
proof -
  have fits: "unat b div n < 256" "unat b mod 10 < 256" "unat b div 10 mod 10 < 256" for n
    by (rule le_less_trans[OF div_le_dividend unat_u8_lt])
      (rule le_less_trans[OF mod_less_eq_dividend unat_u8_lt], simp add: less_trans[of _ 10])
  have "b div 100 = of_nat (unat b div 100)" "b div 10 mod 10 = of_nat (unat b div 10 mod 10)"
    "b mod 10 = of_nat (unat b mod 10)"
    using fits by (simp_all add: word_unat_eq_iff unat_div unat_mod unsigned_of_nat take_bit_eq_mod)
  then show ?thesis by (simp add: ipv4_format_byte_def Let_def word_le_nat_alt)
qed

definition non_digit :: "u8 list \<Rightarrow> bool" where
  "non_digit text \<longleftrightarrow> \<not> (0x30 \<le> peek text \<and> peek text \<le> 0x39)"

lemma ipv4_digits_stop: "non_digit str \<Longrightarrow> ipv4_digits v k str = Some (v, k, str)"
  by (cases str) (auto simp: non_digit_def peek_def ipv4_digits.simps)

lemma ipv4_digits_format_byte:
  assumes "non_digit rest"
  shows "ipv4_digits 0 0 (ipv4_format_byte b @ rest) =
    Some (ucast b, length (ipv4_format_byte b), rest)"
proof -
  define v where "v = unat b"
  have v: "v < 256" "(of_nat v :: u32) = ucast b" by (simp_all add: v_def)
  have d: "v div 100 < 10" "v div 10 mod 10 < 10" "v mod 10 < 10" "v div 10 < 256" "v div 100 < 256"
    using v(1) by (auto simp: div_less_iff_less_mult less_mult_imp_div_less)
  have glue: "v div 100 * 10 + v div 10 mod 10 = v div 10" "v div 10 * 10 + v mod 10 = v"
    using div_mult_mod_eq[of "v div 10" 10] by (simp_all add: div_mult2_eq[of v 10 10, simplified])
  have small: "v < 100 \<Longrightarrow> v div 10 mod 10 = v div 10" by (simp add: less_mult_imp_div_less)
  note step = ipv4_digits_step[where v = 0, simplified] ipv4_digits_step
  consider "v \<ge> 100" | "10 \<le> v" "v < 100" | "v < 10" by linarith
  then show ?thesis
  proof cases
    case 1
    then show ?thesis
      using d glue v assms
      by (simp add: ipv4_format_byte_nat step ipv4_digits_stop Let_def flip: v_def
          del: of_nat_add of_nat_mult)
  next
    case 2
    then show ?thesis
      using d glue v small assms
      by (simp add: ipv4_format_byte_nat step ipv4_digits_stop Let_def flip: v_def
          del: of_nat_add of_nat_mult)
  next
    case 3
    then show ?thesis
      using d glue v assms
      by (simp add: ipv4_format_byte_nat step ipv4_digits_stop Let_def flip: v_def
          del: of_nat_add of_nat_mult)
  qed
qed

lemma ipv4_format_byte_nonempty: "ipv4_format_byte b \<noteq> []"
  by (simp add: ipv4_format_byte_def)

lemma ipv4_parse_format_loop:
  "ipv4_parse_loop (length bs) (ipv4_format_loop bs @ [0]) result = Some (result @ bs)"
proof (induction bs arbitrary: result)
  case Nil
  then show ?case by simp
next
  case (Cons b bs)
  have "non_digit (0x2E # t)" "non_digit [0]" for t by (simp_all add: non_digit_def)
  then show ?case
    using Cons by (cases "bs = []") (simp_all add: ipv4_digits_format_byte ipv4_format_byte_nonempty)
qed

text \<open>
  Printing an address and parsing the text gives the address back, for MAC and for IPv4
  addresses, and the printed text with its terminator fits the buffers the header declares
  (\<open>MAC_STRING_SIZE\<close> and \<open>IPV4_STRING_SIZE\<close>).
\<close>

theorem address_text_roundtrip:
  "mac_parse (mac_format m) = Some m \<and> ipv4_parse (ipv4_format a) = Some a \<and>
   length (mac_format m) = 18 \<and> length (ipv4_format a) \<le> 16"
proof (intro conjI)
  show "mac_parse (mac_format m) = Some m"
    using mac_parse_format_loop[of "mac_bytes m" "[]"] by (simp add: mac_parse_def mac_format_def)
  show "ipv4_parse (ipv4_format a) = Some a"
    using ipv4_parse_format_loop[of "ipv4_bytes a" "[]"]
    by (simp add: ipv4_parse_def ipv4_format_def)
  show "length (mac_format m) = 18"
    by (simp add: mac_format_def length_mac_format_loop)
  have len: "length (ipv4_format_byte b) \<le> 3" for b by (simp add: ipv4_format_byte_def)
  show "length (ipv4_format a) \<le> 16"
  proof (cases a)
    case (Ipv4 w x y z)
    then show ?thesis
      using len[of w] len[of x] len[of y] len[of z] by (simp add: ipv4_format_def)
  qed
qed

text \<open>
  The numeric form of an IPv4 address is a bijection: converting to a 32-bit number and back,
  in either order, is the identity, and the comparison loops decide equality.
\<close>

theorem ipv4_u32_bijection:
  "ipv4_from_u32 (ipv4_to_u32 a) = a \<and> ipv4_to_u32 (ipv4_from_u32 v) = v \<and>
   (ipv4_equal a b \<longleftrightarrow> ipv4_to_u32 a = ipv4_to_u32 b) \<and> (mac_equal m n \<longleftrightarrow> mac_bytes m = mac_bytes n)"
  by (metis ipv4_equal_iff ipv4_from_to_u32 ipv4_to_from_u32 mac_equal_iff of_bytes_exact(1))

end
