(* ===== verification/Packet_Layer.thy ===== *)
theory Packet_Layer
  imports Byteorder
begin

text \<open>
  The contract every protocol layer of \<open>net/\<close> offers to the code that stacks them.  A layer
  has a builder, which writes a header and a payload into a buffer of some capacity and returns
  the number of bytes used (0 when it refuses), and a parser, which recovers the header and the
  payload.  The parser gets a region that starts with the built bytes and may be longer (the
  padding of a short Ethernet frame); the payload it returns starts with the bytes that were sent.

  \<open>sendable\<close> says which headers the layer can carry, \<open>received\<close> how a header looks after
  parsing (length fields are filled in), \<open>wire_size\<close> the bytes a payload takes with its header,
  and \<open>max_size\<close> the largest region the parser takes.

  \<open>stack_build\<close> and \<open>stack_parse\<close> put one layer inside another, with a scratch buffer for the
  inner one, as \<open>send_ipv4\<close> of \<open>kernel/net.c\<close> does; the locale \<open>layer_stack\<close> shows that
  such a stack is a layer again, so that stacks of any height come from one proof.
\<close>

definition stack_build ::
    "(u8 list \<Rightarrow> u32 \<Rightarrow> 'o \<Rightarrow> u8 list \<Rightarrow> u32 \<Rightarrow> u8 list \<times> u32) \<Rightarrow>
     (u8 list \<Rightarrow> u32 \<Rightarrow> 'i \<Rightarrow> u8 list \<Rightarrow> u32 \<Rightarrow> u8 list \<times> u32) \<Rightarrow> u8 list \<Rightarrow> u32 \<Rightarrow>
     u8 list \<Rightarrow> u32 \<Rightarrow> 'o \<times> 'i \<Rightarrow> u8 list \<Rightarrow> u32 \<Rightarrow> u8 list \<times> u32" where
  "stack_build build_o build_i scratch scratch_cap buf cap h p n =
     (let (inner, r) = build_i scratch scratch_cap (snd h) p n in
      if r = 0 then (buf, 0) else build_o buf cap (fst h) inner r)"

definition stack_parse ::
    "(u8 list \<Rightarrow> u32 \<Rightarrow> ('o \<times> u8 list \<times> u32) option) \<Rightarrow>
     (u8 list \<Rightarrow> u32 \<Rightarrow> ('i \<times> u8 list \<times> u32) option) \<Rightarrow>
     u8 list \<Rightarrow> u32 \<Rightarrow> (('o \<times> 'i) \<times> u8 list \<times> u32) option" where
  "stack_parse parse_o parse_i bytes sz =
     (case parse_o bytes sz of
        None \<Rightarrow> None
      | Some (oh, q, m) \<Rightarrow>
          (case parse_i q m of None \<Rightarrow> None | Some (ih, q', m') \<Rightarrow> Some ((oh, ih), q', m')))"

locale packet_layer =
  fixes build :: "u8 list \<Rightarrow> u32 \<Rightarrow> 'h \<Rightarrow> u8 list \<Rightarrow> u32 \<Rightarrow> u8 list \<times> u32"
    and parse :: "u8 list \<Rightarrow> u32 \<Rightarrow> ('h \<times> u8 list \<times> u32) option"
    and sendable :: "'h \<Rightarrow> bool"
    and received :: "'h \<Rightarrow> nat \<Rightarrow> 'h"
    and wire_size :: "nat \<Rightarrow> nat"
    and max_size :: nat
  assumes build_fits:
      "\<lbrakk>build buf cap h p n = (buf', r); r \<noteq> 0; unat cap \<le> length buf; unat n \<le> length p\<rbrakk>
       \<Longrightarrow> unat r = wire_size (unat n) \<and> unat r \<le> unat cap \<and> length buf' = length buf \<and>
           drop (unat r) buf' = drop (unat r) buf"
    and parse_build:
      "\<lbrakk>build buf cap h p n = (buf', r); r \<noteq> 0; sendable h;
        unat cap \<le> length buf; unat n \<le> length p;
        take (unat r) data = take (unat r) buf'; unat r \<le> unat sz; unat sz \<le> length data;
        unat sz \<le> max_size\<rbrakk>
       \<Longrightarrow> \<exists>q m. parse data sz = Some (received h (unat n), q, m) \<and>
            unat n \<le> unat m \<and> unat m \<le> length q \<and> unat m \<le> unat sz \<and>
            take (unat n) q = take (unat n) p"
begin

text \<open>Parsing exactly what was built.\<close>

lemma parse_built:
  assumes b: "build buf cap h p n = (buf', r)" "r \<noteq> 0" "sendable h"
    and len: "unat cap \<le> length buf" "unat n \<le> length p" and max: "unat r \<le> max_size"
  shows "\<exists>q m. parse buf' r = Some (received h (unat n), q, m) \<and>
    unat n \<le> unat m \<and> take (unat n) q = take (unat n) p"
proof -
  have "unat r \<le> length buf'" using build_fits[OF b(1,2) len] len(1) by linarith
  then show ?thesis using parse_build[OF b len, of buf' r] max by blast
qed

end

locale layer_stack =
  outer: packet_layer build_o parse_o sendable_o received_o wire_o max_o +
  inner: packet_layer build_i parse_i sendable_i received_i wire_i max_i
  for build_o :: "u8 list \<Rightarrow> u32 \<Rightarrow> 'o \<Rightarrow> u8 list \<Rightarrow> u32 \<Rightarrow> u8 list \<times> u32"
    and parse_o sendable_o received_o wire_o max_o
    and build_i :: "u8 list \<Rightarrow> u32 \<Rightarrow> 'i \<Rightarrow> u8 list \<Rightarrow> u32 \<Rightarrow> u8 list \<times> u32"
    and parse_i sendable_i received_i wire_i max_i +
  fixes scratch :: "u8 list" and scratch_cap :: u32
  assumes max_le: "max_o \<le> max_i"
    and scratch_fits: "unat scratch_cap \<le> length scratch"
begin

lemma stack_built:
  assumes "stack_build build_o build_i scratch scratch_cap buf cap h p n = (buf', r)" "r \<noteq> 0"
    and "unat n \<le> length p"
  obtains inner ir where
    "build_i scratch scratch_cap (snd h) p n = (inner, ir)" "ir \<noteq> 0"
    "build_o buf cap (fst h) inner ir = (buf', r)" "unat ir \<le> length inner"
    "unat ir = wire_i (unat n)"
proof -
  obtain inner ir where i: "build_i scratch scratch_cap (snd h) p n = (inner, ir)"
    by fastforce
  then have o: "ir \<noteq> 0" "build_o buf cap (fst h) inner ir = (buf', r)"
    using assms(1,2) by (auto simp: stack_build_def split: if_splits)
  have "unat ir \<le> length inner" "unat ir = wire_i (unat n)"
    using inner.build_fits[OF i o(1) scratch_fits assms(3)] scratch_fits by linarith+
  then show thesis using that i o by blast
qed

lemma stack_parse_build:
  assumes b: "stack_build build_o build_i scratch scratch_cap buf cap h p n = (buf', r)" "r \<noteq> 0"
    and s: "sendable_o (fst h)" "sendable_i (snd h)"
    and len: "unat cap \<le> length buf" "unat n \<le> length p"
    and d: "take (unat r) data = take (unat r) buf'" "unat r \<le> unat sz" "unat sz \<le> length data"
      "unat sz \<le> max_o"
  shows "\<exists>q m. stack_parse parse_o parse_i data sz =
      Some ((received_o (fst h) (wire_i (unat n)), received_i (snd h) (unat n)), q, m) \<and>
    unat n \<le> unat m \<and> unat m \<le> length q \<and> unat m \<le> unat sz \<and>
    take (unat n) q = take (unat n) p"
proof -
  obtain inner ir where i: "build_i scratch scratch_cap (snd h) p n = (inner, ir)" "ir \<noteq> 0"
    "build_o buf cap (fst h) inner ir = (buf', r)" "unat ir \<le> length inner"
    "unat ir = wire_i (unat n)"
    using stack_built[OF b len(2)] by blast
  obtain q m where q: "parse_o data sz = Some (received_o (fst h) (unat ir), q, m)"
      "unat ir \<le> unat m" "unat m \<le> length q" "unat m \<le> unat sz"
      "take (unat ir) q = take (unat ir) inner"
    using outer.parse_build[OF i(3) b(2) s(1) len(1) i(4) d] by auto
  have "unat m \<le> max_i" using q(4) d(4) max_le by linarith
  then obtain q' m' where "parse_i q m = Some (received_i (snd h) (unat n), q', m')"
      "unat n \<le> unat m'" "unat m' \<le> length q'" "unat m' \<le> unat m"
      "take (unat n) q' = take (unat n) p"
    using inner.parse_build[OF i(1,2) s(2) scratch_fits len(2) q(5) q(2) q(3)] by blast
  then show ?thesis using q(1,4) i(5) by (simp add: stack_parse_def)
qed

end

sublocale layer_stack \<subseteq> stacked: packet_layer
  "stack_build build_o build_i scratch scratch_cap" "stack_parse parse_o parse_i"
  "\<lambda>h. sendable_o (fst h) \<and> sendable_i (snd h)"
  "\<lambda>h n. (received_o (fst h) (wire_i n), received_i (snd h) n)"
  "\<lambda>n. wire_o (wire_i n)" max_o
proof
  fix buf cap h p n buf' and r :: u32
  assume b: "stack_build build_o build_i scratch scratch_cap buf cap h p n = (buf', r)" "r \<noteq> 0"
    and len: "unat cap \<le> length buf" "unat n \<le> length p"
  obtain inner ir where "build_o buf cap (fst h) inner ir = (buf', r)" "unat ir \<le> length inner"
    "unat ir = wire_i (unat n)"
    using stack_built[OF b len(2)] by blast
  then show "unat r = wire_o (wire_i (unat n)) \<and> unat r \<le> unat cap \<and> length buf' = length buf \<and>
      drop (unat r) buf' = drop (unat r) buf"
    using outer.build_fits[OF _ b(2) len(1)] by metis
qed (use stack_parse_build in simp)

end
