(* ===== verification/Ethernet.thy ===== *)
theory Ethernet
  imports Addr Packet_Layer
begin

text \<open>
  Ethernet framing (\<open>net/ethernet.c\<close>): parsing, building with padding to the minimum frame
  size, and the destination filter.
\<close>

section \<open>Definitions\<close>

record ethernet_header =
  destination :: mac_addr
  source :: mac_addr
  ether_type :: u16

definition ethernet_parse :: "u8 list \<Rightarrow> u32 \<Rightarrow> (ethernet_header \<times> u8 list \<times> u32) option" where
  "ethernet_parse frame sz =
     (if sz < 14 \<or> sz > 1514 then None
      else Some (\<lparr>destination = mac_of_bytes frame, source = mac_of_bytes (drop 6 frame),
                  ether_type = be16_read (drop 12 frame)\<rparr>,
                 drop 14 frame, sz - 14))"

definition ethernet_build ::
    "u8 list \<Rightarrow> u32 \<Rightarrow> ethernet_header \<Rightarrow> u8 list \<Rightarrow> u32 \<Rightarrow> u8 list \<times> u32" where
  "ethernet_build frame capacity header payload payload_size =
     (let sz = 14 + payload_size in
      if payload_size > 1500 then (frame, 0)
      else let sz = (if sz < 60 then 60 else sz) in
      if capacity < sz then (frame, 0)
      else let
        frame = write_at frame 0 (mac_bytes (destination header));
        frame = write_at frame 6 (mac_bytes (source header));
        frame = be16_write frame 12 (ether_type header);
        frame = write_at frame 14 (take (unat payload_size) payload);
        frame = write_at frame (14 + unat payload_size)
                  (replicate (unat (sz - 14 - payload_size)) 0)
      in (frame, sz))"

definition ethernet_for_us :: "ethernet_header \<Rightarrow> mac_addr \<Rightarrow> bool" where
  "ethernet_for_us header own \<longleftrightarrow>
     mac_equal (destination header) own \<or> mac_is_broadcast (destination header)"


section \<open>The frame that is built\<close>

definition ethernet_header_bytes :: "ethernet_header \<Rightarrow> u8 list" where
  "ethernet_header_bytes h =
     mac_bytes (destination h) @ mac_bytes (source h) @ be16_bytes (ether_type h)"

lemma length_ethernet_header_bytes [simp]: "length (ethernet_header_bytes h) = 14"
  by (simp add: ethernet_header_bytes_def)

lemma ethernet_header_decode:
  "\<lparr>destination = mac_of_bytes (ethernet_header_bytes h @ p),
    source = mac_of_bytes (drop 6 (ethernet_header_bytes h @ p)),
    ether_type = be16_read (drop 12 (ethernet_header_bytes h @ p))\<rparr> = h"
  by (simp add: ethernet_header_bytes_def be16_read_bytes)

definition frame_size :: "u32 \<Rightarrow> nat" where
  "frame_size payload_size = max 60 (14 + unat payload_size)"

lemma ethernet_build_eq:
  assumes "unat cap \<le> length frame" "unat n \<le> length p"
  shows "ethernet_build frame cap h p n =
    (if 1500 < unat n \<or> unat cap < frame_size n then (frame, 0)
     else (write_at frame 0 (ethernet_header_bytes h @ take (unat n) p @
             replicate (frame_size n - 14 - unat n) 0), of_nat (frame_size n)))"
proof (cases "1500 < unat n")
  case True
  then show ?thesis by (simp add: ethernet_build_def Let_def unat_less_32)
next
  case False
  define sz :: u32 where "sz = (if 14 + n < 60 then 60 else 14 + n)"
  have n14: "unat (14 + n) = 14 + unat n"
    using False by (simp add: unat_add_u32)
  have sz: "unat sz = frame_size n"
    by (simp add: sz_def unat_less_32 n14 frame_size_def)
  have szn: "sz = of_nat (frame_size n)"
    using sz by (rule of_nat_unat_eq)
  have pad: "unat (sz - 14 - n) = frame_size n - 14 - unat n"
    using sz False by (simp add: unat_sub_u32 frame_size_def)
  have le: "\<not> unat cap < frame_size n \<Longrightarrow> 14 + unat n \<le> length frame"
    using assms(1) by (simp add: frame_size_def)
  have "ethernet_build frame cap h p n =
      (if cap < sz then (frame, 0)
       else (write_at (write_at (be16_write (write_at (write_at frame 0 (mac_bytes (destination h)))
              6 (mac_bytes (source h))) 12 (ether_type h)) 14 (take (unat n) p))
              (14 + unat n) (replicate (unat (sz - 14 - n)) 0), sz))"
    unfolding ethernet_build_def Let_def sz_def[symmetric] using False by (simp add: unat_less_32)
  also have "\<dots> = (if unat cap < frame_size n then (frame, 0)
      else (write_at frame 0 (ethernet_header_bytes h @ take (unat n) p @
              replicate (frame_size n - 14 - unat n) 0), sz))"
    using assms(2) le unfolding pad unat_less_32 sz
    by (simp add: be16_write_def ethernet_header_bytes_def write_at_adjacent)
  finally show ?thesis using False szn by simp
qed


lemma unat_frame_size:
  "unat n \<le> 1500 \<Longrightarrow> unat (of_nat (frame_size n) :: u32) = frame_size n"
  by (simp add: unat_of_nat_u32 frame_size_def)

lemma ethernet_built:
  assumes "ethernet_build frame cap h p n = (frame', r)" "r \<noteq> 0"
    and "unat cap \<le> length frame" "unat n \<le> length p"
  shows "unat n \<le> 1500" "unat r = frame_size n" "frame_size n \<le> unat cap"
    and "frame' = write_at frame 0
      (ethernet_header_bytes h @ take (unat n) p @ replicate (frame_size n - 14 - unat n) 0)"
  using assms unat_frame_size[of n] by (auto simp: ethernet_build_eq split: if_splits)

lemma length_ethernet_body:
  "unat n \<le> length p \<Longrightarrow> length (ethernet_header_bytes h @ take (unat n) p @
     replicate (frame_size n - 14 - unat n) 0) = frame_size n"
  by (simp add: frame_size_def)

interpretation eth: packet_layer ethernet_build ethernet_parse "\<lambda>_. True" "\<lambda>h _. h"
  "\<lambda>n. max 60 (14 + n)" 1514
proof
  fix frame cap h p n frame' and r :: u32
  assume b: "ethernet_build frame cap h p n = (frame', r)" "r \<noteq> 0"
    "unat cap \<le> length frame" "unat n \<le> length p"
  note built = ethernet_built[OF b]
  show "unat r = max 60 (14 + unat n) \<and> unat r \<le> unat cap \<and> length frame' = length frame \<and>
      drop (unat r) frame' = drop (unat r) frame"
    using built b(3) length_ethernet_body[OF b(4), of h]
    by (simp add: drop_write_at_after frame_size_def)
next
  fix frame cap h p n frame' data and r sz :: u32
  assume b: "ethernet_build frame cap h p n = (frame', r)" "r \<noteq> 0"
    "unat cap \<le> length frame" "unat n \<le> length p"
    and d: "take (unat r) data = take (unat r) frame'" "unat r \<le> unat sz"
      "unat sz \<le> length data" "unat sz \<le> 1514"
  note built = ethernet_built[OF b]
  let ?body = "ethernet_header_bytes h @ take (unat n) p @
    replicate (frame_size n - 14 - unat n) 0"
  have "take (unat r) data = ?body"
    using d(1) built length_ethernet_body[OF b(4), of h] by (simp add: write_at_0_take)
  then obtain rest where data: "data = ethernet_header_bytes h @ take (unat n) p @ rest"
    using region_split[of "unat r" data ?body] by auto
  have sz: "60 \<le> unat sz" "14 + unat n \<le> unat sz"
    using d(2) built by (auto simp: frame_size_def)
  have "ethernet_parse data sz = Some (h, take (unat n) p @ rest, sz - 14)"
    using sz d(4) ethernet_header_decode[of h "take (unat n) p @ rest"]
    by (simp add: ethernet_parse_def unat_less_32 data)
  moreover have "unat (sz - 14) = unat sz - 14" using sz by (simp add: unat_sub_u32)
  ultimately show "\<exists>q m. ethernet_parse data sz = Some (h, q, m) \<and> unat n \<le> unat m \<and>
      unat m \<le> length q \<and> unat m \<le> unat sz \<and> take (unat n) q = take (unat n) p"
    using sz d(3) b(4) by (simp add: data) linarith
qed

lemma ethernet_roundtrip_layer:
  assumes "ethernet_build frame cap h p n = (frame', r)" "r \<noteq> 0"
    and "unat cap \<le> length frame" "unat n \<le> length p"
  shows "\<exists>q m. ethernet_parse frame' r = Some (h, q, m) \<and> unat n \<le> unat m \<and>
    take (unat n) q = take (unat n) p"
proof -
  have "unat r \<le> 1514" using ethernet_built(1,2)[OF assms] by (simp add: frame_size_def)
  then show ?thesis using eth.parse_built[OF assms(1,2) _ assms(3,4)] by simp
qed

text \<open>
  A frame the builder accepts is between 60 and 1514 bytes long, fits the capacity, and parses
  back to the same header with a payload that starts with the bytes sent.
\<close>

theorem ethernet_roundtrip:
  assumes "ethernet_build frame cap h p n = (frame', r)" "r \<noteq> 0"
    and "unat cap \<le> length frame" "unat n \<le> length p"
  shows "60 \<le> unat r \<and> unat r \<le> 1514 \<and> unat r \<le> unat cap \<and>
    (\<exists>q m. ethernet_parse frame' r = Some (h, q, m) \<and> unat n \<le> unat m \<and>
       take (unat n) q = take (unat n) p)"
proof -
  have "60 \<le> unat r" "unat r \<le> 1514" "unat r \<le> unat cap"
    using ethernet_built(1-3)[OF assms] by (auto simp: frame_size_def)
  then show ?thesis using ethernet_roundtrip_layer[OF assms] by simp
qed

theorem ethernet_roundtrip_witness:
  "\<exists>frame' r q m. ethernet_build (replicate 80 0) 64
      \<lparr>destination = Mac 1 2 3 4 5 6, source = Mac 7 8 9 10 11 12, ether_type = 0x0806\<rparr>
      [42, 43] 2 = (frame', r) \<and> r \<noteq> 0 \<and>
    ethernet_parse frame' r = Some (\<lparr>destination = Mac 1 2 3 4 5 6,
      source = Mac 7 8 9 10 11 12, ether_type = 0x0806\<rparr>, q, m) \<and> take 2 q = [42, 43]"
proof -
  let ?h = "\<lparr>destination = Mac 1 2 3 4 5 6, source = Mac 7 8 9 10 11 12, ether_type = 0x0806\<rparr>"
  obtain frame' r where b: "ethernet_build (replicate 80 0) 64 ?h [42, 43] 2 = (frame', r)"
    by fastforce
  then have r: "r \<noteq> 0"
    by (simp add: ethernet_build_eq frame_size_def)
  show ?thesis using b r ethernet_roundtrip[OF b r] by auto
qed

end
