(* ===== verification/Checksum.thy ===== *)
theory Checksum
  imports Byteorder
begin

text \<open>
  The internet checksum of \<open>net/checksum.c\<close>: a 32-bit one's-complement accumulator with
  end-around carry, folded to 16 bits and complemented.

  The specification side is arithmetic: \<open>be_sum\<close> is the unbounded sum of the big-endian
  16-bit words of a byte string, and the accumulator represents it modulo 65535.
\<close>

section \<open>Definitions\<close>

definition carry_add :: "u32 \<Rightarrow> u32 \<Rightarrow> u32" where
  "carry_add acc w = (let acc' = acc + w in if acc' < w then acc' + 1 else acc')"

fun checksum_words :: "u32 \<Rightarrow> u8 list \<Rightarrow> u32" where
  "checksum_words acc (b0 # b1 # bs) =
     checksum_words (carry_add acc (push_bit 8 (ucast b0) OR ucast b1)) bs"
| "checksum_words acc [b0] = carry_add acc (push_bit 8 (ucast b0))"
| "checksum_words acc [] = acc"

definition checksum_add :: "u32 \<Rightarrow> u8 list \<Rightarrow> u32 \<Rightarrow> u32" where
  "checksum_add acc data sz = checksum_words acc (take (unat sz) data)"

lemma unat_and_FFFF: "unat (x AND 0xFFFF :: u32) = unat x mod 65536"
proof -
  have "x AND 0xFFFF = take_bit 16 x"
    unfolding mask_literals by (simp add: take_bit_eq_mask)
  then have "unat (x AND 0xFFFF) = take_bit 16 (unat x)" by (simp only: unsigned_take_bit_eq)
  then show ?thesis by (simp add: take_bit_eq_mod)
qed

lemma fold_step:
  "unat ((acc AND 0xFFFF) + drop_bit 16 (acc::u32)) = unat acc mod 65536 + unat acc div 65536"
proof -
  have "unat acc div 65536 < 65536"
    using unat_u32_lt[of acc] by (simp add: less_mult_imp_div_less)
  then show ?thesis
    by (simp add: unat_add_u32 unat_and_FFFF unat_drop_bit)
qed

lemma high_half_zero_iff: "drop_bit 16 (acc::u32) = 0 \<longleftrightarrow> unat acc < 65536"
proof -
  have "drop_bit 16 acc = 0 \<longleftrightarrow> unat (drop_bit 16 acc) = 0" by (simp add: unat_eq_zero)
  then show ?thesis by (auto simp: unat_drop_bit div_eq_0_iff)
qed

lemma fold_step_less:
  assumes "drop_bit 16 (acc::u32) \<noteq> 0"
  shows "unat ((acc AND 0xFFFF) + drop_bit 16 acc) < unat acc"
proof -
  define s where "s = unat acc"
  have "65536 \<le> s" using assms by (simp add: high_half_zero_iff s_def not_less)
  then have "0 < s div 65536" by (simp add: div_greater_zero_iff)
  then have "s mod 65536 + s div 65536 < s"
    using div_mult_mod_eq[of s 65536] by linarith
  then show ?thesis by (simp only: fold_step s_def)
qed

function fold_carry :: "u32 \<Rightarrow> u32" where
  "fold_carry acc =
     (if drop_bit 16 acc \<noteq> 0 then fold_carry ((acc AND 0xFFFF) + drop_bit 16 acc) else acc)"
  by pat_completeness auto
termination
  by (relation "measure unat") (auto simp: fold_step_less)

definition checksum_finish :: "u32 \<Rightarrow> u16" where
  "checksum_finish acc = ucast (NOT (fold_carry acc))"

definition checksum :: "u8 list \<Rightarrow> u32 \<Rightarrow> u16" where
  "checksum data sz = checksum_finish (checksum_add 0 data sz)"

declare fold_carry.simps [simp del]


fun be_sum :: "u8 list \<Rightarrow> nat" where
  "be_sum (b0 # b1 # bs) = unat b0 * 256 + unat b1 + be_sum bs"
| "be_sum [b0] = unat b0 * 256"
| "be_sum [] = 0"


section \<open>The accumulator represents the sum modulo 65535\<close>

text \<open>
  An accumulator value represents a natural number when they agree modulo 65535 and are zero
  together: the two things one's-complement addition preserves.
\<close>

definition represents :: "u32 \<Rightarrow> nat \<Rightarrow> bool" where
  "represents acc n \<longleftrightarrow> unat acc mod 65535 = n mod 65535 \<and> (acc = 0 \<longleftrightarrow> n = 0)"

lemma represents_0 [simp]: "represents 0 n \<longleftrightarrow> n = 0"
  by (auto simp: represents_def)

lemma carry_add_unat:
  assumes "unat w < 65536"
  shows "unat (carry_add acc w) =
    (if unat acc + unat w < 4294967296 then unat acc + unat w
     else unat acc + unat w - 4294967295)"
proof (cases "unat acc + unat w < 4294967296")
  case True
  then show ?thesis
    by (simp add: carry_add_def Let_def unat_less_32 unat_add_u32)
next
  case False
  define a b where "a = unat acc" and "b = unat w"
  have lt: "a < 4294967296" "b < 65536" "4294967296 \<le> a + b"
    using assms False by (simp_all add: a_def b_def)
  then have m: "(a + b) mod 4294967296 = a + b - 4294967296"
    by (simp add: mod_if)
  have s: "unat (acc + w) = a + b - 4294967296"
    using m by (simp add: unat_add_u32 a_def b_def)
  have "acc + w < w" using s lt by (simp add: unat_less_32 b_def)
  moreover have "unat (acc + w + 1) = a + b - 4294967296 + 1"
    using s lt by (simp add: unat_add_u32)
  ultimately show ?thesis using False lt by (simp add: carry_add_def Let_def a_def b_def)
qed

lemma represents_carry_add:
  assumes "represents acc n" "unat w < 65536"
  shows "represents (carry_add acc w) (n + unat w)"
proof -
  define a b where "a = unat acc" and "b = unat w"
  have a: "a mod 65535 = n mod 65535" "a = 0 \<longleftrightarrow> n = 0" "a < 4294967296" "b < 65536"
    using assms by (auto simp: represents_def a_def b_def unat_eq_zero)
  define c where "c = (if a + b < 4294967296 then a + b else a + b - 4294967295)"
  have "c mod 65535 = (a + b) mod 65535"
  proof (cases "a + b < 4294967296")
    case False
    then have "a + b = c + 65535 * 65537" by (simp add: c_def)
    then show ?thesis by (metis mod_mult_self2)
  qed (simp add: c_def)
  also have "\<dots> = (n + b) mod 65535" using a(1) by (metis mod_add_left_eq)
  finally have "c mod 65535 = (n + b) mod 65535" .
  moreover have "c = 0 \<longleftrightarrow> n + b = 0" using a by (auto simp: c_def)
  moreover have "unat (carry_add acc w) = c"
    using carry_add_unat[OF assms(2), of acc] by (simp add: c_def a_def b_def)
  ultimately show ?thesis
    by (simp add: represents_def b_def unat_eq_zero flip: unat_eq_zero[of "carry_add acc w"])
qed

lemma unat_be_word:
  "unat (push_bit 8 (ucast (b0::u8)) OR ucast (b1::u8) :: u32) = unat b0 * 256 + unat b1"
  "unat (push_bit 8 (ucast (b0::u8)) :: u32) = unat b0 * 256"
proof -
  have "push_bit 8 (ucast b0) OR ucast b1 = (ucast (be16_read (b0 # b1 # [])) :: u32)"
    by (rule bit_word_eqI) (auto simp: be16_read_def bit_simps dest: bit_imp_le_length)
  then show "unat (push_bit 8 (ucast b0) OR ucast b1 :: u32) = unat b0 * 256 + unat b1"
    by (simp add: unat_be16_read)
  have "push_bit 8 (ucast b0) = (ucast (be16_read (b0 # 0 # [])) :: u32)"
    by (rule bit_word_eqI) (auto simp: be16_read_def bit_simps dest: bit_imp_le_length)
  then show "unat (push_bit 8 (ucast b0) :: u32) = unat b0 * 256"
    by (simp add: unat_be16_read)
qed

lemma represents_checksum_words:
  "represents acc n \<Longrightarrow> represents (checksum_words acc bs) (n + be_sum bs)"
proof (induction acc bs arbitrary: n rule: checksum_words.induct)
  case (1 acc b0 b1 bs)
  have "unat b0 * 256 + unat b1 < 65536"
    using unat_u8_lt[of b0] unat_u8_lt[of b1] by linarith
  then have "represents (carry_add acc (push_bit 8 (ucast b0) OR ucast b1))
      (n + (unat b0 * 256 + unat b1))"
    using represents_carry_add[OF "1.prems", of "push_bit 8 (ucast b0) OR ucast b1"]
    by (simp add: unat_be_word)
  from "1.IH"[OF this] show ?case by (simp add: add.assoc)
next
  case (2 acc b0)
  have "unat b0 * 256 < 65536" using unat_u8_lt[of b0] by linarith
  then show ?case
    using represents_carry_add[OF "2.prems", of "push_bit 8 (ucast b0)"] by (simp add: unat_be_word)
qed simp

lemma fold_carry_unat:
  "unat (fold_carry acc) < 65536 \<and> unat (fold_carry acc) mod 65535 = unat acc mod 65535 \<and>
    (fold_carry acc = 0 \<longleftrightarrow> acc = 0)"
proof (induction acc rule: fold_carry.induct)
  case (1 acc)
  show ?case
  proof (cases "drop_bit 16 acc = 0")
    case True
    then show ?thesis by (simp add: fold_carry.simps[of acc] high_half_zero_iff)
  next
    case False
    let ?next = "(acc AND 0xFFFF) + drop_bit 16 acc"
    define s where "s = unat acc"
    have big: "65536 \<le> s" using False by (simp add: high_half_zero_iff s_def not_less)
    have u: "unat ?next = s mod 65536 + s div 65536" by (simp add: fold_step s_def)
    have "s = (s mod 65536 + s div 65536) + 65535 * (s div 65536)"
      using div_mult_mod_eq[of s 65536] by linarith
    then have "unat ?next mod 65535 = s mod 65535" unfolding u by (metis mod_mult_self2)
    moreover have "?next \<noteq> 0"
      using u big unat_eq_zero[of ?next] by (auto simp: div_eq_0_iff)
    moreover have "acc \<noteq> 0" using big by (auto simp: s_def)
    ultimately show ?thesis
      using "1.IH"[OF False] False by (simp add: fold_carry.simps[of acc] s_def)
  qed
qed

lemma unat_checksum_finish: "unat (checksum_finish acc) = 65535 - unat (fold_carry acc)"
proof -
  define f where "f = fold_carry acc"
  have f: "unat f < 65536" using fold_carry_unat[of acc] by (simp add: f_def)
  have "NOT f = - 1 - f" by (simp add: not_eq_complement)
  then have "unat (NOT f) = 4294967295 - unat f"
    using unat_sub[of f "- 1"] by (simp add: unsigned_minus_1_eq_mask mask_eq_exp_minus_1)
  moreover have "4294967295 - unat f = (65535 - unat f) + 65536 * 65535" using f by linarith
  then have "(4294967295 - unat f) mod 65536 = 65535 - unat f"
    by (simp only: mod_mult_self2) simp
  ultimately show ?thesis by (simp add: checksum_finish_def unat_ucast_u32_u16 f_def)
qed

lemma checksum_finish_zero_iff:
  assumes "represents acc n"
  shows "checksum_finish acc = 0 \<longleftrightarrow> n mod 65535 = 0 \<and> n \<noteq> 0"
proof -
  define f where "f = unat (fold_carry acc)"
  have f: "f < 65536" "f mod 65535 = n mod 65535" "f = 0 \<longleftrightarrow> n = 0"
    using fold_carry_unat[of acc] assms by (auto simp: represents_def f_def unat_eq_zero)
  have "checksum_finish acc = 0 \<longleftrightarrow> 65535 - f = 0"
    using unat_checksum_finish[of acc] unat_eq_zero[of "checksum_finish acc"] by (simp add: f_def)
  also have "\<dots> \<longleftrightarrow> f = 65535" using f(1) by auto
  also have "\<dots> \<longleftrightarrow> f mod 65535 = 0 \<and> f \<noteq> 0"
  proof
    assume "f mod 65535 = 0 \<and> f \<noteq> 0"
    moreover have "f \<noteq> 65535 \<Longrightarrow> f mod 65535 = f" using f(1) by (intro mod_less) linarith
    ultimately show "f = 65535" by auto
  qed simp
  also have "\<dots> \<longleftrightarrow> n mod 65535 = 0 \<and> n \<noteq> 0" using f(2,3) by simp
  finally show ?thesis .
qed

lemma checksum_finish_cancels:
  assumes "represents acc n"
  shows "(n + unat (checksum_finish acc)) mod 65535 = 0" "n + unat (checksum_finish acc) \<noteq> 0"
proof -
  define f where "f = unat (fold_carry acc)"
  have f: "f < 65536" "f mod 65535 = n mod 65535" "f = 0 \<longleftrightarrow> n = 0"
    using fold_carry_unat[of acc] assms by (auto simp: represents_def f_def unat_eq_zero)
  have u: "unat (checksum_finish acc) = 65535 - f" by (simp add: unat_checksum_finish f_def)
  have "(n + (65535 - f)) mod 65535 = (f + (65535 - f)) mod 65535"
    using f(2) by (metis mod_add_left_eq)
  then show "(n + unat (checksum_finish acc)) mod 65535 = 0" using f(1) u by simp
  show "n + unat (checksum_finish acc) \<noteq> 0" using f u by auto
qed


section \<open>Inserting and verifying a checksum\<close>

lemma be_sum_append: "even (length xs) \<Longrightarrow> be_sum (xs @ ys) = be_sum xs + be_sum ys"
  by (induction xs rule: be_sum.induct) auto

lemma be_sum_be16 [simp]: "be_sum (be16_bytes v) = unat v"
  by (simp add: be16_bytes_def unat_be16_hi_lo)

lemma be_sum_write_field:
  assumes "even k" "k + 2 \<le> length bs"
  shows "be_sum (write_at bs k (be16_bytes c)) + unat (bs ! k) * 256 + unat (bs ! (k + 1)) =
    be_sum bs + unat c"
proof -
  have split: "bs = take k bs @ [bs ! k, bs ! (k + 1)] @ drop (k + 2) bs"
    using assms by (simp add: Cons_nth_drop_Suc)
  have "be_sum bs = be_sum (take k bs) + (unat (bs ! k) * 256 + unat (bs ! (k + 1))
      + be_sum (drop (k + 2) bs))"
    by (subst split) (use assms in \<open>simp add: be_sum_append\<close>)
  moreover have "be_sum (write_at bs k (be16_bytes c)) =
      be_sum (take k bs) + (unat c + be_sum (drop (k + 2) bs))"
    using assms by (simp add: write_at_def be_sum_append)
  ultimately show ?thesis by simp
qed

text \<open>
  A zero field at an even offset of a message is overwritten with a value that is congruent to
  the complement sum of the message: the result verifies.  \<open>acc\<close> is the sum of whatever
  precedes the message (0, or the UDP pseudo header).
\<close>

lemma inserted_checksum_verifies:
  assumes acc: "represents acc n" and k: "even k" "k + 2 \<le> length bs"
    and zero: "bs ! k = 0" "bs ! (k + 1) = 0"
    and c: "unat c mod 65535 = unat (checksum_finish (checksum_words acc bs)) mod 65535"
    and nz: "c = 0 \<Longrightarrow> checksum_finish (checksum_words acc bs) = 0"
  shows "checksum_finish (checksum_words acc (write_at bs k (be16_bytes c))) = 0"
proof -
  let ?r = "unat (checksum_finish (checksum_words acc bs))"
  have rep: "represents (checksum_words acc bs) (n + be_sum bs)"
    by (rule represents_checksum_words[OF acc])
  have "be_sum (write_at bs k (be16_bytes c)) = be_sum bs + unat c"
    using be_sum_write_field[OF k, of c] zero by simp
  then have "represents (checksum_words acc (write_at bs k (be16_bytes c)))
      (n + be_sum bs + unat c)"
    using represents_checksum_words[OF acc, of "write_at bs k (be16_bytes c)"]
    by (simp add: add.assoc)
  moreover have "(n + be_sum bs + unat c) mod 65535 = (n + be_sum bs + ?r) mod 65535"
    using c by (metis mod_add_right_eq)
  then have "(n + be_sum bs + unat c) mod 65535 = 0"
    using checksum_finish_cancels(1)[OF rep] by simp
  moreover have "n + be_sum bs + unat c \<noteq> 0"
    using checksum_finish_cancels(2)[OF rep] nz by (auto simp: unat_eq_zero)
  ultimately show ?thesis by (simp add: checksum_finish_zero_iff)
qed

text \<open>
  Writing the computed checksum of a message into its (zero, 16-bit aligned) checksum field
  makes the receiver's check succeed: the checksum over the whole message is then 0.
\<close>

theorem checksum_insert_verifies:
  assumes "length bs < 4294967296" "even k" "k + 2 \<le> length bs" "bs ! k = 0" "bs ! (k + 1) = 0"
  shows "checksum (be16_write bs k (checksum bs (of_nat (length bs)))) (of_nat (length bs)) = 0"
proof -
  have "unat (of_nat (length bs) :: u32) = length bs"
    using assms(1) by (simp add: unat_of_nat_u32)
  then show ?thesis
    using inserted_checksum_verifies[of 0 0 k bs "checksum_finish (checksum_words 0 bs)"] assms
    by (simp add: checksum_def checksum_add_def be16_write_def)
qed

theorem checksum_insert_verifies_witness:
  "checksum (be16_write [0x45, 0, 0, 0, 0x12] 2 (checksum [0x45, 0, 0, 0, 0x12] 5)) 5 = 0"
  using checksum_insert_verifies[of "[0x45, 0, 0, 0, 0x12]" 2] by simp

lemma be_sum_update:
  "i < length bs \<Longrightarrow>
    int (be_sum (bs[i := b])) - int (be_sum bs) =
      (int (unat b) - int (unat (bs ! i))) * (if even i then 256 else 1)"
proof (induction bs arbitrary: i rule: be_sum.induct)
  case (1 b0 b1 bs)
  show ?case
  proof (cases "i < 2")
    case True
    then have "i = 0 \<or> i = 1" by auto
    then show ?thesis by (auto simp: algebra_simps)
  next
    case False
    then obtain j where "i = Suc (Suc j)" by (metis add_2_eq_Suc le_Suc_ex not_less)
    then show ?thesis using 1 by simp
  qed
qed (auto simp: algebra_simps)

lemma checksum_words_zero_iff:
  "checksum_finish (checksum_words 0 bs) = 0 \<longleftrightarrow> be_sum bs mod 65535 = 0 \<and> be_sum bs \<noteq> 0"
  using checksum_finish_zero_iff[OF represents_checksum_words[of 0 0 bs]] by simp

text \<open>
  The checksum detects every corruption of a single byte: if a message verifies, the same
  message with one byte changed to a different value does not.
\<close>

theorem checksum_detects_byte_error:
  assumes valid: "checksum bs (of_nat (length bs)) = 0" and len: "length bs < 4294967296"
    and i: "i < length bs" "b \<noteq> bs ! i"
  shows "checksum (bs[i := b]) (of_nat (length bs)) \<noteq> 0"
proof
  assume valid': "checksum (bs[i := b]) (of_nat (length bs)) = 0"
  define w d :: int where "w = (if even i then 256 else 1)"
    and "d = int (unat b) - int (unat (bs ! i))"
  have "unat (of_nat (length bs) :: u32) = length bs"
    using len by (simp add: unat_of_nat_u32)
  then have "be_sum bs mod 65535 = 0" "be_sum (bs[i := b]) mod 65535 = 0"
    using valid valid' by (simp_all add: checksum_def checksum_add_def checksum_words_zero_iff)
  then have "65535 dvd be_sum (bs[i := b])" "65535 dvd be_sum bs"
    by (simp_all add: dvd_eq_mod_eq_0)
  then have "int 65535 dvd int (be_sum (bs[i := b])) - int (be_sum bs)"
    by (intro dvd_diff) (simp_all only: int_dvd_int_iff)
  then have "65535 dvd d * w"
    using be_sum_update[OF i(1), of b] by (simp add: d_def w_def)
  moreover have "d \<noteq> 0" using i(2) by (simp add: d_def word_uint_eq_iff)
  moreover have "\<bar>d\<bar> \<le> 255"
    using unat_u8_lt[of b] unat_u8_lt[of "bs ! i"] unfolding d_def by linarith
  ultimately show False
    using dvd_imp_le_int[of "d * w" 65535] by (auto simp: w_def abs_mult split: if_splits)
qed

theorem checksum_detects_byte_error_witness:
  "checksum [0x12, 0x34, 0xED, 0xCB] 4 = 0 \<and> checksum [0x12, 0x34, 0xED, 0xCC] 4 \<noteq> 0"
proof -
  have v: "checksum [0x12, 0x34, 0xED, 0xCB] (of_nat (length [0x12 :: u8, 0x34, 0xED, 0xCB])) = 0"
    unfolding checksum_def checksum_add_def by (subst checksum_words_zero_iff) simp
  show ?thesis using v checksum_detects_byte_error[OF v, of 3 "0xCC"] by simp
qed

end
