(* ===== verification/Ipv4.thy ===== *)
theory Ipv4
  imports Addr Checksum Packet_Layer
begin

text \<open>
  IPv4 packets (\<open>net/ipv4.c\<close>): header initialisation, parsing with all its rejections,
  building with the header checksum, the pseudo-header sum UDP uses and the subnet test.
\<close>

section \<open>Definitions\<close>

record ipv4_header =
  header_length :: u8
  tos :: u8
  total_length :: u16
  ip_id :: u16
  flags_fragment :: u16
  ttl :: u8
  protocol :: u8
  ip_source :: ipv4_addr
  ip_destination :: ipv4_addr

text \<open>
  A packet that is refused because it is a fragment has been decoded by then: the C code returns
  \<open>IPV4_ERR_FRAGMENT\<close> with the caller's header filled in.
\<close>

datatype ipv4_error = IPV4_ERR_MALFORMED | IPV4_ERR_FRAGMENT ipv4_header

definition ipv4_header_init :: "ipv4_addr \<Rightarrow> ipv4_addr \<Rightarrow> u8 \<Rightarrow> ipv4_header" where
  "ipv4_header_init src dst proto =
     \<lparr>header_length = 20, tos = 0, total_length = 0, ip_id = 0, flags_fragment = 0x4000,
      ttl = 64, protocol = proto, ip_source = src, ip_destination = dst\<rparr>"

definition ipv4_packet_parse ::
    "u8 list \<Rightarrow> u32 \<Rightarrow> ipv4_error + (ipv4_header \<times> u8 list \<times> u32)" where
  "ipv4_packet_parse bytes sz =
     (if sz < 20 then Inl IPV4_ERR_MALFORMED
      else if drop_bit 4 (bytes ! 0) \<noteq> 4 then Inl IPV4_ERR_MALFORMED
      else let hlen = (ucast (bytes ! 0 AND 0x0F) :: u32) * 4 in
      if hlen < 20 \<or> hlen > sz then Inl IPV4_ERR_MALFORMED
      else let tlen = (ucast (be16_read (drop 2 bytes)) :: u32) in
      if tlen < hlen \<or> tlen > sz then Inl IPV4_ERR_MALFORMED
      else if checksum bytes hlen \<noteq> 0 then Inl IPV4_ERR_MALFORMED
      else let header = \<lparr>header_length = ucast hlen, tos = bytes ! 1, total_length = ucast tlen,
          ip_id = be16_read (drop 4 bytes), flags_fragment = be16_read (drop 6 bytes),
          ttl = bytes ! 8, protocol = bytes ! 9, ip_source = ipv4_of_bytes (drop 12 bytes),
          ip_destination = ipv4_of_bytes (drop 16 bytes)\<rparr> in
      if flags_fragment header AND (0x2000 OR 0x1FFF) \<noteq> 0 then Inl (IPV4_ERR_FRAGMENT header)
      else Inr (header, drop (unat hlen) bytes, tlen - hlen))"

definition ipv4_packet_build ::
    "u8 list \<Rightarrow> u32 \<Rightarrow> ipv4_header \<Rightarrow> u8 list \<Rightarrow> u32 \<Rightarrow> u8 list \<times> u32" where
  "ipv4_packet_build bytes capacity header payload payload_size =
     (if payload_size > 65535 - 20 then (bytes, 0)
      else let tot = 20 + payload_size in
      if capacity < tot then (bytes, 0)
      else let
        bytes = write_at bytes 0 [0x45];
        bytes = write_at bytes 1 [tos header];
        bytes = be16_write bytes 2 (ucast tot);
        bytes = be16_write bytes 4 (ip_id header);
        bytes = be16_write bytes 6 (flags_fragment header);
        bytes = write_at bytes 8 [ttl header];
        bytes = write_at bytes 9 [protocol header];
        bytes = be16_write bytes 10 0;
        bytes = write_at bytes 12 (ipv4_bytes (ip_source header));
        bytes = write_at bytes 16 (ipv4_bytes (ip_destination header));
        bytes = be16_write bytes 10 (checksum bytes 20);
        bytes = write_at bytes 20 (take (unat payload_size) payload)
      in (bytes, tot))"

definition ipv4_pseudo_sum :: "ipv4_addr \<Rightarrow> ipv4_addr \<Rightarrow> u8 \<Rightarrow> u32 \<Rightarrow> u32" where
  "ipv4_pseudo_sum src dst proto len =
     checksum_add 0 (ipv4_bytes src @ ipv4_bytes dst @ [0, proto] @ be16_bytes (ucast len)) 12"

definition ipv4_in_subnet :: "ipv4_addr \<Rightarrow> ipv4_addr \<Rightarrow> ipv4_addr \<Rightarrow> bool" where
  "ipv4_in_subnet a b netmask \<longleftrightarrow>
     (ipv4_to_u32 a XOR ipv4_to_u32 b) AND ipv4_to_u32 netmask = 0"


section \<open>The packet that is built\<close>

definition ipv4_header_bytes :: "ipv4_header \<Rightarrow> u16 \<Rightarrow> u16 \<Rightarrow> u8 list" where
  "ipv4_header_bytes h tot csum =
     [0x45, tos h] @ be16_bytes tot @ be16_bytes (ip_id h) @ be16_bytes (flags_fragment h)
     @ [ttl h, protocol h] @ be16_bytes csum @ ipv4_bytes (ip_source h)
     @ ipv4_bytes (ip_destination h)"

definition ipv4_header_sum :: "ipv4_header \<Rightarrow> u16 \<Rightarrow> u16" where
  "ipv4_header_sum h tot =
     checksum_finish (checksum_words 0 (ipv4_header_bytes h tot 0))"

lemma length_ipv4_header_bytes [simp]: "length (ipv4_header_bytes h tot c) = 20"
  by (simp add: ipv4_header_bytes_def)

lemma ipv4_header_bytes_set_sum:
  "write_at (ipv4_header_bytes h tot c) 10 (be16_bytes c') = ipv4_header_bytes h tot c'"
  by (simp add: ipv4_header_bytes_def write_at_def)

lemma ipv4_header_verifies:
  "checksum_finish (checksum_words 0 (ipv4_header_bytes h tot (ipv4_header_sum h tot))) = 0"
proof -
  have "ipv4_header_bytes h tot 0 ! 10 = 0" "ipv4_header_bytes h tot 0 ! 11 = 0"
    by (simp_all add: ipv4_header_bytes_def be16_bytes_def nth_append)
  then show ?thesis
    using inserted_checksum_verifies[of 0 0 10 "ipv4_header_bytes h tot 0"
        "ipv4_header_sum h tot"]
    by (simp add: ipv4_header_sum_def ipv4_header_bytes_set_sum)
qed

lemma ipv4_packet_build_eq:
  assumes "unat cap \<le> length buf" "unat n \<le> length p"
  shows "ipv4_packet_build buf cap h p n =
    (if 65515 < unat n \<or> unat cap < 20 + unat n then (buf, 0)
     else (write_at buf 0 (ipv4_header_bytes h (ucast (20 + n)) (ipv4_header_sum h (ucast (20 + n)))
             @ take (unat n) p), 20 + n))"
proof (cases "65515 < unat n \<or> unat cap < 20 + unat n")
  case True
  then show ?thesis
    by (auto simp: ipv4_packet_build_def Let_def unat_less_32 unat_add_u32)
next
  case False
  let ?t = "ucast (20 + n) :: u16"
  have nat: "unat (20 + n) = 20 + unat n" using False by (simp add: unat_add_u32)
  have len: "20 + unat n \<le> length buf" using False assms(1) by linarith
  define hdr where "hdr = write_at (write_at (be16_write (write_at (write_at (be16_write (be16_write
      (be16_write (write_at (write_at buf 0 [0x45]) 1 [tos h]) 2 ?t) 4 (ip_id h)) 6
      (flags_fragment h)) 8 [ttl h]) 9 [protocol h]) 10 0) 12 (ipv4_bytes (ip_source h))) 16
      (ipv4_bytes (ip_destination h))"
  have hdr: "hdr = write_at buf 0 (ipv4_header_bytes h ?t 0)"
    using len by (simp add: hdr_def be16_write_def ipv4_header_bytes_def write_at_adjacent)
  have "ipv4_packet_build buf cap h p n =
      (write_at (be16_write hdr 10 (checksum hdr 20)) 20 (take (unat n) p), 20 + n)"
    using False nat by (simp add: ipv4_packet_build_def Let_def unat_less_32 hdr_def)
  moreover have "checksum hdr 20 = ipv4_header_sum h ?t"
    by (simp add: checksum_def checksum_add_def ipv4_header_sum_def hdr write_at_0_take)
  moreover have "be16_write hdr 10 c = write_at buf 0 (ipv4_header_bytes h ?t c)" for c
    using len
    by (simp add: be16_write_def hdr write_at_inside ipv4_header_bytes_set_sum)
  ultimately show ?thesis using False by (simp add: write_at_adjacent)
qed


lemma ipv4_built:
  assumes "ipv4_packet_build buf cap h p n = (buf', r)" "r \<noteq> 0"
    and "unat cap \<le> length buf" "unat n \<le> length p"
  shows "unat n \<le> 65515" "unat r = 20 + unat n" "20 + unat n \<le> unat cap"
    and "buf' = write_at buf 0 (ipv4_header_bytes h (of_nat (20 + unat n))
      (ipv4_header_sum h (of_nat (20 + unat n))) @ take (unat n) p)"
proof -
  have r: "r = 20 + n" and n: "unat n \<le> 65515" "20 + unat n \<le> unat cap"
    and b: "buf' = write_at buf 0 (ipv4_header_bytes h (ucast (20 + n))
      (ipv4_header_sum h (ucast (20 + n))) @ take (unat n) p)"
    using assms by (auto simp: ipv4_packet_build_eq split: if_splits)
  have nat: "unat (20 + n) = 20 + unat n" using n by (simp add: unat_add_u32)
  have "(ucast (20 + n) :: u16) = of_nat (20 + unat n)"
    using n nat by (simp add: word_unat_eq_iff unsigned_of_nat unat_ucast_u32_u16 take_bit_eq_mod
        del: of_nat_add)
  then show "unat n \<le> 65515" "unat r = 20 + unat n" "20 + unat n \<le> unat cap"
    "buf' = write_at buf 0 (ipv4_header_bytes h (of_nat (20 + unat n))
      (ipv4_header_sum h (of_nat (20 + unat n))) @ take (unat n) p)"
    using n r nat b by simp_all
qed


section \<open>Parsing what was built\<close>

definition ipv4_sendable :: "ipv4_header \<Rightarrow> bool" where
  "ipv4_sendable h \<longleftrightarrow> flags_fragment h AND (0x2000 OR 0x1FFF) = 0"

definition ipv4_received :: "ipv4_header \<Rightarrow> nat \<Rightarrow> ipv4_header" where
  "ipv4_received h n = h\<lparr>header_length := 20, total_length := of_nat (20 + n)\<rparr>"

definition ipv4_parse_ok :: "u8 list \<Rightarrow> u32 \<Rightarrow> (ipv4_header \<times> u8 list \<times> u32) option" where
  "ipv4_parse_ok bytes sz = (case ipv4_packet_parse bytes sz of Inl _ \<Rightarrow> None | Inr x \<Rightarrow> Some x)"

lemma ipv4_first_byte: "drop_bit 4 (0x45::u8) = 4" "(0x45::u8) AND 0x0F = 5"
  by simp_all

lemma ipv4_header_fields:
  fixes h :: ipv4_header and tot c :: u16 and rest :: "u8 list"
  defines "bs \<equiv> ipv4_header_bytes h tot c @ rest"
  shows "bs ! 0 = 0x45" "bs ! 1 = tos h" "bs ! 8 = ttl h" "bs ! 9 = protocol h"
    "be16_read (drop 2 bs) = tot" "be16_read (drop 4 bs) = ip_id h"
    "be16_read (drop 6 bs) = flags_fragment h"
    "ipv4_of_bytes (drop 12 bs) = ip_source h" "ipv4_of_bytes (drop 16 bs) = ip_destination h"
  unfolding bs_def ipv4_header_bytes_def by (simp_all add: be16_read_bytes nth_append)

lemma ipv4_parse_header:
  assumes "ipv4_sendable h" "n \<le> 65515" "20 + n \<le> unat sz" "20 + n \<le> 20 + length rest"
  shows "ipv4_packet_parse (ipv4_header_bytes h (of_nat (20 + n))
      (ipv4_header_sum h (of_nat (20 + n))) @ rest) sz =
    Inr (ipv4_received h n, rest, of_nat n)"
proof -
  let ?t = "of_nat (20 + n) :: u16"
  let ?bs = "ipv4_header_bytes h ?t (ipv4_header_sum h ?t) @ rest"
  have t: "unat ?t = 20 + n"
    using assms(2) by (simp add: unsigned_of_nat take_bit_eq_mod del: of_nat_add)
  have tl: "(ucast ?t :: u32) = of_nat (20 + n)"
    using t assms(2) by (simp add: word_unat_eq_iff unat_of_nat_u32 del: of_nat_add)
  have tl16: "ucast (20 + of_nat n :: u32) = (20 + of_nat n :: u16)"
    using arg_cong[OF tl, of "ucast :: u32 \<Rightarrow> u16"] by simp
  have ck: "checksum ?bs 20 = 0"
    using ipv4_header_verifies[of h ?t] by (simp add: checksum_def checksum_add_def)
  have cmp: "\<not> of_nat (20 + n) < (20::u32)" "\<not> sz < of_nat (20 + n)" "\<not> sz < 20"
    using assms(2,3) by (simp_all add: unat_less_32 unat_of_nat_u32 del: of_nat_add)
  show ?thesis
    using assms(1) cmp ck
    unfolding ipv4_packet_parse_def ipv4_header_fields
    by (simp add: ipv4_first_byte Let_def tl ipv4_sendable_def ipv4_received_def del: of_nat_add)
      (intro conjI ipv4_header.equality; simp add: tl16)
qed

interpretation ip: packet_layer ipv4_packet_build ipv4_parse_ok ipv4_sendable ipv4_received
  "\<lambda>n. 20 + n" 65535
proof
  fix buf cap h p n buf' and r :: u32
  assume b: "ipv4_packet_build buf cap h p n = (buf', r)" "r \<noteq> 0"
    "unat cap \<le> length buf" "unat n \<le> length p"
  note built = ipv4_built[OF b]
  show "unat r = 20 + unat n \<and> unat r \<le> unat cap \<and> length buf' = length buf \<and> drop (unat r) buf' = drop (unat r) buf"
    using built b by (simp add: drop_write_at_after del: of_nat_add)
next
  fix buf cap h p n buf' data and r sz :: u32
  assume b: "ipv4_packet_build buf cap h p n = (buf', r)" "r \<noteq> 0"
    "unat cap \<le> length buf" "unat n \<le> length p" and s: "ipv4_sendable h"
    and d: "take (unat r) data = take (unat r) buf'" "unat r \<le> unat sz"
      "unat sz \<le> length data" "unat sz \<le> 65535"
  note built = ipv4_built[OF b]
  let ?hdr = "ipv4_header_bytes h (of_nat (20 + unat n)) (ipv4_header_sum h (of_nat (20 + unat n)))"
  have "take (unat r) data = ?hdr @ take (unat n) p"
    using d(1) built b(4) by (simp add: write_at_0_take del: of_nat_add)
  then obtain rest where data: "data = ?hdr @ take (unat n) p @ rest"
    using region_split[of "unat r" data "?hdr @ take (unat n) p"] by auto
  have "ipv4_packet_parse data sz = Inr (ipv4_received h (unat n), take (unat n) p @ rest, n)"
    using ipv4_parse_header[OF s, of "unat n" sz "take (unat n) p @ rest"] built d(2) b(4)
    by (simp add: data del: of_nat_add)
  then show "\<exists>q m. ipv4_parse_ok data sz = Some (ipv4_received h (unat n), q, m) \<and>
      unat n \<le> unat m \<and> unat m \<le> length q \<and> unat m \<le> unat sz \<and>
      take (unat n) q = take (unat n) p"
    using b(4) built d(2) by (simp add: ipv4_parse_ok_def)
qed


text \<open>
  Every packet the builder accepts is accepted by the parser: the version, length and checksum
  checks all pass, and the parser returns the header (with its length fields filled in) and a
  payload of exactly the size sent, starting with the bytes sent.
\<close>

theorem ipv4_roundtrip:
  assumes "ipv4_packet_build buf cap h p n = (buf', r)" "r \<noteq> 0"
    and "flags_fragment h AND (0x2000 OR 0x1FFF) = 0"
    and "unat cap \<le> length buf" "unat n \<le> length p"
  shows "\<exists>q. ipv4_packet_parse buf' r =
      Inr (h\<lparr>header_length := 20, total_length := of_nat (20 + unat n)\<rparr>, q, n) \<and>
    take (unat n) q = take (unat n) p"
proof -
  note built = ipv4_built[OF assms(1,2,4,5)]
  have "buf' = ipv4_header_bytes h (of_nat (20 + unat n)) (ipv4_header_sum h (of_nat (20 + unat n)))
      @ take (unat n) p @ drop (unat r) buf"
    using built assms(4,5) by (simp add: write_at_def del: of_nat_add)
  then show ?thesis
    using ipv4_parse_header[of h "unat n" r "take (unat n) p @ drop (unat r) buf"] built assms
    by (simp add: ipv4_sendable_def ipv4_received_def del: of_nat_add)
qed

theorem ipv4_roundtrip_witness:
  "\<exists>buf' r q. ipv4_packet_build (replicate 30 0) 30
      (ipv4_header_init (Ipv4 10 0 2 15) (Ipv4 10 0 2 2) 17) [1, 2, 3] 3 = (buf', r) \<and> r \<noteq> 0 \<and>
    ipv4_packet_parse buf' r = Inr ((ipv4_header_init (Ipv4 10 0 2 15) (Ipv4 10 0 2 2) 17)
      \<lparr>header_length := 20, total_length := 23\<rparr>, q, 3) \<and> take 3 q = [1, 2, 3]"
proof -
  let ?h = "ipv4_header_init (Ipv4 10 0 2 15) (Ipv4 10 0 2 2) 17"
  obtain buf' r where b: "ipv4_packet_build (replicate 30 0) 30 ?h [1, 2, 3] 3 = (buf', r)"
    by fastforce
  then have r: "r \<noteq> 0" by (auto simp: ipv4_packet_build_eq)
  have "flags_fragment ?h AND (0x2000 OR 0x1FFF) = 0" by (simp add: ipv4_header_init_def)
  from ipv4_roundtrip[OF b r this] show ?thesis using b r by simp
qed

lemma ipv4_parse_prefix:
  assumes s: "length d = unat sz"
  shows "map_sum id (\<lambda>(h, q, m). (h, take (unat m) q, m)) (ipv4_packet_parse (d @ t) sz) =
    map_sum id (\<lambda>(h, q, m). (h, take (unat m) q, m)) (ipv4_packet_parse d sz)"
proof (cases "sz < 20")
  case False
  then have len: "20 \<le> length d" using s by (simp add: unat_less_32)
  have nth: "(d @ t) ! i = d ! i" if "i < 20" for i
    using that len by (simp add: nth_append)
  have field: "be16_read (drop k (d @ t)) = be16_read (drop k d)"
    "ipv4_of_bytes (drop k (d @ t)) = ipv4_of_bytes (drop k d)" if "k \<le> 16" for k
    using that len by (simp_all add: be16_read_def ipv4_of_bytes_def nth_append del: drop_append)
  have ck: "checksum (d @ t) hl = checksum d hl" if "hl \<le> sz" for hl
    using that s by (simp add: checksum_def checksum_add_def word_le_nat_alt)
  have pay: "take (unat (tl - hl)) (drop (unat hl) (d @ t)) =
      take (unat (tl - hl)) (drop (unat hl) d)" if "hl \<le> tl" "tl \<le> sz" for hl tl :: u32
    using that s by (simp add: unat_sub_u32 word_le_nat_alt)
  show ?thesis
    unfolding ipv4_packet_parse_def Let_def
    by (simp add: nth field[of 2] field[of 4] field[of 6] field[of 12] field[of 16]
        del: drop_append cong: if_cong split del: if_split)
      (auto simp: ck pay not_less simp del: drop_append)
qed (simp add: ipv4_packet_parse_def)

text \<open>
  The parser never looks past the size it is given: two regions that agree on the first
  \<open>size\<close> bytes are accepted or refused alike, with the same header.
\<close>

theorem ipv4_parse_within_size:
  assumes "unat sz \<le> length xs" "unat sz \<le> length ys" "take (unat sz) xs = take (unat sz) ys"
  shows "map_sum id (\<lambda>(h, q, m). (h, take (unat m) q, m)) (ipv4_packet_parse xs sz) =
    map_sum id (\<lambda>(h, q, m). (h, take (unat m) q, m)) (ipv4_packet_parse ys sz)"
proof -
  obtain d xt yt where s: "xs = d @ xt" "ys = d @ yt" "length d = unat sz"
    using assms by (metis append_take_drop_id length_take min_absorb2)
  then show ?thesis by (simp add: ipv4_parse_prefix)
qed

theorem ipv4_parse_within_size_witness:
  "map_sum id (\<lambda>(h, q, m). (h, take (unat m) q, m)) (ipv4_packet_parse (replicate 25 0) 21) =
   map_sum id (\<lambda>(h, q, m). (h, take (unat m) q, m)) (ipv4_packet_parse (replicate 23 0) 21)"
  using ipv4_parse_within_size[of 21 "replicate 25 0" "replicate 23 0"] by simp

end
