(* ===== verification/Udp.thy ===== *)
theory Udp
  imports Ipv4
begin

text \<open>
  UDP datagrams (\<open>net/udp.c\<close>): parsing with the optional checksum over pseudo header and
  datagram, and building with the checksum always filled in (a computed 0 is sent as 0xFFFF).
\<close>

section \<open>Definitions\<close>

record udp_header =
  source_port :: u16
  destination_port :: u16
  udp_length :: u16

datatype udp_error = UDP_ERR_MALFORMED | UDP_ERR_CHECKSUM

definition udp_parse :: "u8 list \<Rightarrow> u32 \<Rightarrow> ipv4_addr \<Rightarrow> ipv4_addr \<Rightarrow>
    udp_error + (udp_header \<times> u8 list \<times> u32)" where
  "udp_parse bytes sz src dst =
     (if sz < 8 then Inl UDP_ERR_MALFORMED
      else let len = (ucast (be16_read (drop 4 bytes)) :: u32) in
      if len < 8 \<or> len > sz then Inl UDP_ERR_MALFORMED
      else if be16_read (drop 6 bytes) \<noteq> 0 \<and>
        checksum_finish (checksum_add (ipv4_pseudo_sum src dst 17 len) bytes len) \<noteq> 0
      then Inl UDP_ERR_CHECKSUM
      else Inr (\<lparr>source_port = be16_read bytes, destination_port = be16_read (drop 2 bytes),
                 udp_length = ucast len\<rparr>, drop 8 bytes, len - 8))"

definition udp_build :: "u8 list \<Rightarrow> u32 \<Rightarrow> ipv4_addr \<Rightarrow> ipv4_addr \<Rightarrow> u16 \<Rightarrow> u16 \<Rightarrow>
    u8 list \<Rightarrow> u32 \<Rightarrow> u8 list \<times> u32" where
  "udp_build bytes capacity src dst sport dport payload payload_size =
     (if payload_size > 65535 - 20 - 8 then (bytes, 0)
      else let tot = 8 + payload_size in
      if capacity < tot then (bytes, 0)
      else let
        bytes = be16_write bytes 0 sport;
        bytes = be16_write bytes 2 dport;
        bytes = be16_write bytes 4 (ucast tot);
        bytes = be16_write bytes 6 0;
        bytes = write_at bytes 8 (take (unat payload_size) payload);
        acc = checksum_add (ipv4_pseudo_sum src dst 17 tot) bytes tot;
        result = checksum_finish acc;
        result = (if result = 0 then 0xFFFF else result);
        bytes = be16_write bytes 6 result
      in (bytes, tot))"


section \<open>The datagram that is built\<close>

definition udp_bytes :: "u16 \<Rightarrow> u16 \<Rightarrow> u16 \<Rightarrow> u16 \<Rightarrow> u8 list \<Rightarrow> u8 list" where
  "udp_bytes sport dport len csum payload =
     be16_bytes sport @ be16_bytes dport @ be16_bytes len @ be16_bytes csum @ payload"

definition udp_sum :: "u32 \<Rightarrow> u16 \<Rightarrow> u16 \<Rightarrow> u16 \<Rightarrow> u8 list \<Rightarrow> u16" where
  "udp_sum acc sport dport len p =
     (let result = checksum_finish (checksum_words acc (udp_bytes sport dport len 0 p)) in
      if result = 0 then 0xFFFF else result)"

lemma length_udp_bytes [simp]: "length (udp_bytes sport dport len c p) = 8 + length p"
  by (simp add: udp_bytes_def)

lemma udp_bytes_set_sum:
  "write_at (udp_bytes sport dport len c p) 6 (be16_bytes c') = udp_bytes sport dport len c' p"
  by (simp add: udp_bytes_def write_at_def)

lemma udp_sum_nonzero: "udp_sum acc sport dport len p \<noteq> 0"
  by (simp add: udp_sum_def Let_def)

lemma represents_pseudo_sum:
  "represents (ipv4_pseudo_sum src dst proto len)
    (be_sum (ipv4_bytes src @ ipv4_bytes dst @ [0, proto] @ be16_bytes (ucast len)))"
  using represents_checksum_words[of 0 0
      "ipv4_bytes src @ ipv4_bytes dst @ [0, proto] @ be16_bytes (ucast len)"]
  by (simp add: ipv4_pseudo_sum_def checksum_add_def)

lemma udp_bytes_verify:
  assumes "represents acc n"
  shows "checksum_finish (checksum_words acc
    (udp_bytes sport dport len (udp_sum acc sport dport len p) p)) = 0"
proof -
  have "udp_bytes sport dport len 0 p ! 6 = 0" "udp_bytes sport dport len 0 p ! 7 = 0"
    by (simp_all add: udp_bytes_def be16_bytes_def)
  then have "checksum_finish (checksum_words acc (write_at (udp_bytes sport dport len 0 p) 6
      (be16_bytes (udp_sum acc sport dport len p)))) = 0"
    by (intro inserted_checksum_verifies[OF assms]) (auto simp: udp_sum_def Let_def split: if_splits)
  then show ?thesis by (simp add: udp_bytes_set_sum)
qed

lemma udp_build_eq:
  assumes "unat cap \<le> length buf" "unat n \<le> length p"
  shows "udp_build buf cap src dst sport dport p n =
    (if 65507 < unat n \<or> unat cap < 8 + unat n then (buf, 0)
     else (write_at buf 0 (udp_bytes sport dport (ucast (8 + n))
             (udp_sum (ipv4_pseudo_sum src dst 17 (8 + n)) sport dport (ucast (8 + n))
               (take (unat n) p)) (take (unat n) p)), 8 + n))"
proof (cases "65507 < unat n \<or> unat cap < 8 + unat n")
  case True
  then show ?thesis by (auto simp: udp_build_def Let_def unat_less_32 unat_add_u32)
next
  case False
  let ?p = "take (unat n) p" and ?t = "ucast (8 + n) :: u16"
  let ?acc = "ipv4_pseudo_sum src dst 17 (8 + n)"
  have nat: "unat (8 + n) = 8 + unat n" using False by (simp add: unat_add_u32)
  have len: "8 + unat n \<le> length buf" using False assms(1) by linarith
  define msg where "msg = write_at (be16_write (be16_write (be16_write (be16_write buf 0 sport)
      2 dport) 4 ?t) 6 0) 8 ?p"
  have msg: "msg = write_at buf 0 (udp_bytes sport dport ?t 0 ?p)"
    using len assms(2) by (simp add: msg_def be16_write_def udp_bytes_def write_at_adjacent)
  have "udp_build buf cap src dst sport dport p n = (be16_write msg 6
      (let result = checksum_finish (checksum_add ?acc msg (8 + n)) in
       if result = 0 then 0xFFFF else result), 8 + n)"
    using False nat by (simp add: udp_build_def Let_def unat_less_32 msg_def)
  moreover have "checksum_add ?acc msg (8 + n) = checksum_words ?acc (udp_bytes sport dport ?t 0 ?p)"
    using assms(2) nat by (simp add: checksum_add_def msg write_at_0_take)
  moreover have "be16_write msg 6 c = write_at buf 0 (udp_bytes sport dport ?t c ?p)" for c
    using len by (simp add: be16_write_def msg write_at_inside udp_bytes_set_sum)
  ultimately show ?thesis using False by (simp add: udp_sum_def)
qed

lemma udp_built:
  assumes "udp_build buf cap src dst sport dport p n = (buf', r)" "r \<noteq> 0"
    and "unat cap \<le> length buf" "unat n \<le> length p"
  shows "unat n \<le> 65507" "unat r = 8 + unat n" "8 + unat n \<le> unat cap" "r = 8 + n"
    and "buf' = write_at buf 0 (udp_bytes sport dport (ucast r)
      (udp_sum (ipv4_pseudo_sum src dst 17 r) sport dport (ucast r) (take (unat n) p))
      (take (unat n) p))"
proof -
  show "unat n \<le> 65507" and r: "r = 8 + n" and cap: "8 + unat n \<le> unat cap"
    and "buf' = write_at buf 0 (udp_bytes sport dport (ucast r)
      (udp_sum (ipv4_pseudo_sum src dst 17 r) sport dport (ucast r) (take (unat n) p))
      (take (unat n) p))"
    using assms by (auto simp: udp_build_eq split: if_splits)
  then show "unat r = 8 + unat n" by (simp add: unat_add_u32)
qed

lemma udp_parse_datagram:
  assumes "8 + unat n \<le> 65535" "r = 8 + n" "unat r \<le> unat sz" "length p = unat n"
  shows "udp_parse (udp_bytes sport dport (ucast r)
      (udp_sum (ipv4_pseudo_sum src dst 17 r) sport dport (ucast r) p) p @ rest) sz src dst =
    Inr (\<lparr>source_port = sport, destination_port = dport, udp_length = ucast r\<rparr>, p @ rest, n)"
proof -
  let ?c = "udp_sum (ipv4_pseudo_sum src dst 17 r) sport dport (ucast r) p"
  let ?d = "udp_bytes sport dport (ucast r) ?c p"
  have r: "unat r = 8 + unat n" using assms(1,2) by (simp add: unat_add_u32)
  have len: "(ucast (ucast r :: u16) :: u32) = r"
    using r assms(1) by (simp add: word_unat_eq_iff unat_ucast_u32_u16)
  have f: "be16_read (?d @ rest) = sport" "be16_read (drop 2 (?d @ rest)) = dport"
    "be16_read (drop 4 (?d @ rest)) = ucast r" "be16_read (drop 6 (?d @ rest)) = ?c"
    "drop 8 (?d @ rest) = p @ rest"
    by (simp_all add: udp_bytes_def be16_read_bytes)
  have "checksum_add (ipv4_pseudo_sum src dst 17 r) (?d @ rest) r =
      checksum_words (ipv4_pseudo_sum src dst 17 r) ?d"
    using r assms(4) by (simp add: checksum_add_def)
  then have ck: "checksum_finish (checksum_add (ipv4_pseudo_sum src dst 17 r) (?d @ rest) r) = 0"
    using udp_bytes_verify[OF represents_pseudo_sum] by simp
  have "\<not> sz < 8" "\<not> r < 8" "\<not> sz < r" "r - 8 = n"
    using r assms(2,3) by (simp_all add: unat_less_32)
  then show ?thesis
    unfolding udp_parse_def f by (simp add: Let_def len ck del: drop_append)
qed


section \<open>UDP as a layer\<close>

definition udp_parse_ok ::
    "ipv4_addr \<Rightarrow> ipv4_addr \<Rightarrow> u8 list \<Rightarrow> u32 \<Rightarrow> ((u16 \<times> u16) \<times> u8 list \<times> u32) option" where
  "udp_parse_ok src dst bytes sz =
     (case udp_parse bytes sz src dst of
        Inl _ \<Rightarrow> None
      | Inr (h, q, m) \<Rightarrow> Some ((source_port h, destination_port h), q, m))"

definition udp_build_ports ::
    "ipv4_addr \<Rightarrow> ipv4_addr \<Rightarrow> u8 list \<Rightarrow> u32 \<Rightarrow> u16 \<times> u16 \<Rightarrow> u8 list \<Rightarrow> u32 \<Rightarrow> u8 list \<times> u32" where
  "udp_build_ports src dst buf cap ports p n =
     udp_build buf cap src dst (fst ports) (snd ports) p n"

lemma udp_data_parse:
  assumes b: "udp_build buf cap src dst sport dport p n = (buf', r)" "r \<noteq> 0"
    "unat cap \<le> length buf" "unat n \<le> length p"
    and d: "take (unat r) data = take (unat r) buf'" "unat r \<le> unat sz"
  shows "\<exists>rest. data = take (unat r) buf' @ rest \<and> udp_parse data sz src dst =
    Inr (\<lparr>source_port = sport, destination_port = dport, udp_length = ucast r\<rparr>,
      take (unat n) p @ rest, n)"
proof -
  note built = udp_built[OF b]
  let ?d = "udp_bytes sport dport (ucast r)
    (udp_sum (ipv4_pseudo_sum src dst 17 r) sport dport (ucast r) (take (unat n) p)) (take (unat n) p)"
  have t: "take (unat r) buf' = ?d"
    using built(2) b(4) by (simp only: built(5)) (simp add: write_at_0_take)
  obtain rest where "data = ?d @ rest" using d(1) t region_split by metis
  then show ?thesis
    using udp_parse_datagram[of n r sz "take (unat n) p" sport dport src dst rest] built(1,2,4) b(4)
      d(2) t by auto
qed

interpretation udp: packet_layer "udp_build_ports src dst" "udp_parse_ok src dst" "\<lambda>_. True"
  "\<lambda>h _. h" "\<lambda>n. 8 + n" 65535 for src dst
proof
  fix buf cap p n buf' and h :: "u16 \<times> u16" and r :: u32
  assume b: "udp_build_ports src dst buf cap h p n = (buf', r)" "r \<noteq> 0"
    "unat cap \<le> length buf" "unat n \<le> length p"
  note built = udp_built[OF b(1)[unfolded udp_build_ports_def] b(2-4)]
  show "unat r = 8 + unat n \<and> unat r \<le> unat cap \<and> length buf' = length buf \<and> drop (unat r) buf' = drop (unat r) buf"
    using built(2,3) b(3,4) by (simp only: built(5)) (simp add: drop_write_at_after)
next
  fix buf cap p n buf' data and h :: "u16 \<times> u16" and r sz :: u32
  assume b: "udp_build_ports src dst buf cap h p n = (buf', r)" "r \<noteq> 0"
    "unat cap \<le> length buf" "unat n \<le> length p"
    and d: "take (unat r) data = take (unat r) buf'" "unat r \<le> unat sz" "unat sz \<le> length data"
  note b' = b(1)[unfolded udp_build_ports_def] b(2-4)
  obtain rest where "udp_parse data sz src dst =
      Inr (\<lparr>source_port = fst h, destination_port = snd h, udp_length = ucast r\<rparr>,
        take (unat n) p @ rest, n)"
    using udp_data_parse[OF b' d(1,2)] by auto
  then show "\<exists>q m. udp_parse_ok src dst data sz = Some (h, q, m) \<and> unat n \<le> unat m \<and>
      unat m \<le> length q \<and> unat m \<le> unat sz \<and> take (unat n) q = take (unat n) p"
    using b(4) d(2) udp_built(2)[OF b'] by (simp add: udp_parse_ok_def)
qed

text \<open>
  A datagram built for a pair of addresses is accepted by the parser for the same pair: its
  checksum field is never 0 (which would mean "no checksum"), the check passes, and the ports and
  the payload come back.
\<close>

theorem udp_roundtrip:
  assumes "udp_build buf cap src dst sport dport p n = (buf', r)" "r \<noteq> 0"
    and "unat cap \<le> length buf" "unat n \<le> length p"
  shows "be16_read (drop 6 buf') \<noteq> 0 \<and> (\<exists>q. udp_parse buf' r src dst =
    Inr (\<lparr>source_port = sport, destination_port = dport, udp_length = ucast r\<rparr>, q, n) \<and>
    take (unat n) q = take (unat n) p)"
proof -
  have "be16_read (drop 6 buf') = udp_sum (ipv4_pseudo_sum src dst 17 r) sport dport (ucast r)
      (take (unat n) p)"
    using udp_built(5)[OF assms] by (simp add: write_at_def udp_bytes_def be16_read_bytes)
  then show ?thesis using udp_data_parse[OF assms refl order_refl] udp_sum_nonzero assms(4) by auto
qed

theorem udp_roundtrip_witness:
  "\<exists>buf' r q. udp_build (replicate 16 0) 16 (Ipv4 10 0 2 15) (Ipv4 10 0 2 3) 49152 53 [1, 2, 3] 3
      = (buf', r) \<and> udp_parse buf' r (Ipv4 10 0 2 15) (Ipv4 10 0 2 3) =
      Inr (\<lparr>source_port = 49152, destination_port = 53, udp_length = 11\<rparr>, q, 3) \<and>
    take 3 q = [1, 2, 3]"
proof -
  obtain buf' r where b: "udp_build (replicate 16 0) 16 (Ipv4 10 0 2 15) (Ipv4 10 0 2 3)
      49152 53 [1, 2, 3] 3 = (buf', r)" by fastforce
  then have r: "r = 11" by (auto simp: udp_build_eq)
  from udp_roundtrip[OF b] r show ?thesis using b by auto
qed

end
