(* ===== verification/Icmp.thy ===== *)
theory Icmp
  imports Checksum
begin

text \<open>
  ICMP messages (\<open>net/icmp.c\<close>): parsing with the checksum over the whole message, building,
  echo replies and error messages that quote the offending packet.
\<close>

section \<open>Definitions\<close>

record icmp_message =
  icmp_type :: u8
  icmp_code :: u8
  icmp_id :: u16
  icmp_sequence :: u16
  icmp_payload :: "u8 list"
  icmp_payload_size :: u32

definition icmp_parse :: "u8 list \<Rightarrow> u32 \<Rightarrow> icmp_message option" where
  "icmp_parse bytes sz =
     (if sz < 8 then None
      else if checksum bytes sz \<noteq> 0 then None
      else Some \<lparr>icmp_type = bytes ! 0, icmp_code = bytes ! 1,
        icmp_id = be16_read (drop 4 bytes), icmp_sequence = be16_read (drop 6 bytes),
        icmp_payload = drop 8 bytes, icmp_payload_size = sz - 8\<rparr>)"

definition icmp_build ::
    "u8 list \<Rightarrow> u32 \<Rightarrow> u8 \<Rightarrow> u8 \<Rightarrow> u16 \<Rightarrow> u16 \<Rightarrow> u8 list \<Rightarrow> u32 \<Rightarrow> u8 list \<times> u32" where
  "icmp_build bytes capacity ty code ident seq payload payload_size =
     (if payload_size > 65535 - 20 - 8 then (bytes, 0)
      else let tot = 8 + payload_size in
      if capacity < tot then (bytes, 0)
      else let
        bytes = write_at bytes 0 [ty];
        bytes = write_at bytes 1 [code];
        bytes = be16_write bytes 2 0;
        bytes = be16_write bytes 4 ident;
        bytes = be16_write bytes 6 seq;
        bytes = write_at bytes 8 (take (unat payload_size) payload);
        bytes = be16_write bytes 2 (checksum bytes tot)
      in (bytes, tot))"

definition icmp_echo_reply :: "u8 list \<Rightarrow> u32 \<Rightarrow> icmp_message \<Rightarrow> u8 list \<times> u32" where
  "icmp_echo_reply data capacity request =
     (if icmp_type request \<noteq> 8 then (data, 0)
      else icmp_build data capacity 0 0 (icmp_id request) (icmp_sequence request)
             (icmp_payload request) (icmp_payload_size request))"

definition icmp_build_error ::
    "u8 list \<Rightarrow> u32 \<Rightarrow> u8 \<Rightarrow> u8 \<Rightarrow> u8 list \<Rightarrow> u32 \<Rightarrow> u8 list \<times> u32" where
  "icmp_build_error data capacity ty code original original_size =
     (if original_size < 20 then (data, 0)
      else let hlen = (ucast (original ! 0 AND 0x0F) :: u32) * 4 in
      if hlen < 20 then (data, 0)
      else let quoted = hlen + 8; quoted = (if quoted > original_size then original_size else quoted)
      in icmp_build data capacity ty code 0 0 original quoted)"


section \<open>The message that is built\<close>

definition icmp_bytes :: "u8 \<Rightarrow> u8 \<Rightarrow> u16 \<Rightarrow> u16 \<Rightarrow> u16 \<Rightarrow> u8 list \<Rightarrow> u8 list" where
  "icmp_bytes ty code csum ident seq payload =
     [ty, code] @ be16_bytes csum @ be16_bytes ident @ be16_bytes seq @ payload"

definition icmp_sum :: "u8 \<Rightarrow> u8 \<Rightarrow> u16 \<Rightarrow> u16 \<Rightarrow> u8 list \<Rightarrow> u16" where
  "icmp_sum ty code ident seq payload =
     checksum_finish (checksum_words 0 (icmp_bytes ty code 0 ident seq payload))"

lemma length_icmp_bytes [simp]: "length (icmp_bytes ty code c ident seq p) = 8 + length p"
  by (simp add: icmp_bytes_def)

lemma icmp_bytes_set_sum:
  "write_at (icmp_bytes ty code c ident seq p) 2 (be16_bytes c') = icmp_bytes ty code c' ident seq p"
  by (simp add: icmp_bytes_def write_at_def)

lemma icmp_bytes_verify:
  "checksum_finish (checksum_words 0
     (icmp_bytes ty code (icmp_sum ty code ident seq p) ident seq p)) = 0"
proof -
  have "icmp_bytes ty code 0 ident seq p ! 2 = 0" "icmp_bytes ty code 0 ident seq p ! 3 = 0"
    by (simp_all add: icmp_bytes_def be16_bytes_def)
  then show ?thesis
    using inserted_checksum_verifies[of 0 0 2 "icmp_bytes ty code 0 ident seq p"
        "icmp_sum ty code ident seq p"]
    by (simp add: icmp_sum_def icmp_bytes_set_sum numeral_3_eq_3)
qed

lemma icmp_build_eq:
  assumes "unat cap \<le> length buf" "unat n \<le> length p"
  shows "icmp_build buf cap ty code ident seq p n =
    (if 65507 < unat n \<or> unat cap < 8 + unat n then (buf, 0)
     else (write_at buf 0 (icmp_bytes ty code (icmp_sum ty code ident seq (take (unat n) p))
             ident seq (take (unat n) p)), 8 + n))"
proof (cases "65507 < unat n \<or> unat cap < 8 + unat n")
  case True
  then show ?thesis by (auto simp: icmp_build_def Let_def unat_less_32 unat_add_u32)
next
  case False
  let ?p = "take (unat n) p"
  have nat: "unat (8 + n) = 8 + unat n" using False by (simp add: unat_add_u32)
  have len: "8 + unat n \<le> length buf" using False assms(1) by linarith
  define msg where "msg = write_at (be16_write (be16_write (be16_write (write_at (write_at buf 0 [ty])
      1 [code]) 2 0) 4 ident) 6 seq) 8 ?p"
  have msg: "msg = write_at buf 0 (icmp_bytes ty code 0 ident seq ?p)"
    using len assms(2) by (simp add: msg_def be16_write_def icmp_bytes_def write_at_adjacent)
  have "icmp_build buf cap ty code ident seq p n =
      (be16_write msg 2 (checksum msg (8 + n)), 8 + n)"
    using False nat by (simp add: icmp_build_def Let_def unat_less_32 msg_def)
  moreover have "checksum msg (8 + n) = icmp_sum ty code ident seq ?p"
    using assms(2) nat
    by (simp add: checksum_def checksum_add_def icmp_sum_def msg write_at_0_take)
  moreover have "be16_write msg 2 c = write_at buf 0 (icmp_bytes ty code c ident seq ?p)" for c
    using len by (simp add: be16_write_def msg write_at_inside icmp_bytes_set_sum)
  ultimately show ?thesis using False by simp
qed

lemma icmp_built:
  assumes "icmp_build buf cap ty code ident seq p n = (buf', r)" "r \<noteq> 0"
    and "unat cap \<le> length buf" "unat n \<le> length p"
  shows "unat n \<le> 65507" "unat r = 8 + unat n" "8 + unat n \<le> unat cap" "r = 8 + n"
    and "buf' = icmp_bytes ty code (icmp_sum ty code ident seq (take (unat n) p)) ident seq
      (take (unat n) p) @ drop (8 + unat n) buf"
proof -
  show "unat n \<le> 65507" and r: "r = 8 + n" and cap: "8 + unat n \<le> unat cap"
    and "buf' = icmp_bytes ty code (icmp_sum ty code ident seq (take (unat n) p)) ident seq
      (take (unat n) p) @ drop (8 + unat n) buf"
    using assms by (auto simp: icmp_build_eq write_at_def split: if_splits)
  then show "unat r = 8 + unat n" by (simp add: unat_add_u32)
qed

text \<open>
  A message the builder accepts passes the parser's checksum test and parses back to the same
  type, code, identifier, sequence number and payload.
\<close>

theorem icmp_roundtrip:
  assumes "icmp_build buf cap ty code ident seq p n = (buf', r)" "r \<noteq> 0"
    and "unat cap \<le> length buf" "unat n \<le> length p"
  shows "\<exists>m. icmp_parse buf' r = Some m \<and> icmp_type m = ty \<and> icmp_code m = code \<and>
    icmp_id m = ident \<and> icmp_sequence m = seq \<and> icmp_payload_size m = n \<and>
    take (unat n) (icmp_payload m) = take (unat n) p"
proof -
  note built = icmp_built[OF assms]
  have ck: "checksum buf' r = 0"
    using icmp_bytes_verify[of ty code ident seq "take (unat n) p"] built assms(4)
    by (simp add: checksum_def checksum_add_def)
  have fields: "buf' ! 0 = ty" "buf' ! 1 = code" "be16_read (drop 4 buf') = ident"
    "be16_read (drop 6 buf') = seq" "take (unat n) (drop 8 buf') = take (unat n) p"
    using assms(4) by (simp_all add: built(5) icmp_bytes_def be16_read_bytes)
  have "\<not> r < 8" "r - 8 = n" using built(2,4) by (simp_all add: unat_less_32)
  then show ?thesis using ck fields by (simp add: icmp_parse_def)
qed

theorem icmp_roundtrip_witness:
  "\<exists>buf' r m. icmp_build (replicate 20 0) 20 8 0 0x4B54 1 [97, 98, 99] 3 = (buf', r) \<and> r \<noteq> 0 \<and>
    icmp_parse buf' r = Some m \<and> icmp_id m = 0x4B54 \<and> take 3 (icmp_payload m) = [97, 98, 99]"
proof -
  obtain buf' r where b: "icmp_build (replicate 20 0) 20 8 0 0x4B54 1 [97, 98, 99] 3 = (buf', r)"
    by fastforce
  then have r: "r \<noteq> 0" by (auto simp: icmp_build_eq)
  from icmp_roundtrip[OF b r] show ?thesis using b r by auto
qed

text \<open>
  An echo reply answers the request it is given: it is built only for echo requests, it parses
  as an echo reply, and it carries the request's identifier, sequence number and payload.
\<close>

theorem icmp_echo_reply_answers:
  assumes "icmp_echo_reply buf cap req = (buf', r)" "r \<noteq> 0"
    and "unat cap \<le> length buf" "unat (icmp_payload_size req) \<le> length (icmp_payload req)"
  shows "icmp_type req = 8 \<and> (\<exists>m. icmp_parse buf' r = Some m \<and> icmp_type m = 0 \<and>
    icmp_id m = icmp_id req \<and> icmp_sequence m = icmp_sequence req \<and>
    icmp_payload_size m = icmp_payload_size req \<and>
    take (unat (icmp_payload_size req)) (icmp_payload m) =
      take (unat (icmp_payload_size req)) (icmp_payload req))"
proof -
  have t: "icmp_type req = 8"
    using assms(1,2) by (auto simp: icmp_echo_reply_def split: if_splits)
  then have "icmp_build buf cap 0 0 (icmp_id req) (icmp_sequence req) (icmp_payload req)
      (icmp_payload_size req) = (buf', r)"
    using assms(1) by (simp add: icmp_echo_reply_def)
  from icmp_roundtrip[OF this assms(2-4)] t show ?thesis by auto
qed

theorem icmp_echo_reply_answers_witness:
  "\<exists>buf' r m. icmp_echo_reply (replicate 20 0) 20 \<lparr>icmp_type = 8, icmp_code = 0, icmp_id = 7,
      icmp_sequence = 9, icmp_payload = [1, 2], icmp_payload_size = 2\<rparr> = (buf', r) \<and>
    icmp_parse buf' r = Some m \<and> icmp_sequence m = 9"
proof -
  let ?req = "\<lparr>icmp_type = 8, icmp_code = 0, icmp_id = 7, icmp_sequence = 9,
    icmp_payload = [1, 2], icmp_payload_size = 2\<rparr>"
  obtain buf' r where b: "icmp_echo_reply (replicate 20 0) 20 ?req = (buf', r)" by fastforce
  then have r: "r \<noteq> 0" by (auto simp: icmp_echo_reply_def icmp_build_eq)
  from icmp_echo_reply_answers[OF b r] show ?thesis using b by auto
qed

text \<open>
  An error message quotes the IP header and at most eight bytes after it, never more than the
  original packet holds, and so never exceeds 76 bytes.
\<close>

theorem icmp_error_quote_bounded:
  assumes "icmp_build_error buf cap ty code orig sz = (buf', r)" "r \<noteq> 0"
    and "unat cap \<le> length buf" "unat sz \<le> length orig"
  shows "unat r \<le> 76 \<and> unat r \<le> 8 + unat sz \<and> 28 \<le> unat r \<and>
    (\<exists>m. icmp_parse buf' r = Some m \<and> icmp_type m = ty \<and>
      take (unat r - 8) (icmp_payload m) = take (unat r - 8) orig)"
proof -
  define hlen where "hlen = (ucast (orig ! 0 AND 0x0F) :: u32) * 4"
  define q where "q = (if hlen + 8 > sz then sz else hlen + 8)"
  have h: "20 \<le> unat sz" "20 \<le> unat hlen"
    and b: "icmp_build buf cap ty code 0 0 orig q = (buf', r)"
    using assms(1,2) by (auto simp: icmp_build_error_def Let_def hlen_def q_def unat_less_32
        split: if_splits)
  have "unat (orig ! 0 AND 0x0F) \<le> 15"
    using word_and_le1[of "orig ! 0" "0x0F"] by (simp add: word_le_nat_alt)
  then have hl: "unat hlen \<le> 60" by (simp add: hlen_def unat_word_ariths)
  then have h8: "unat (hlen + 8) = unat hlen + 8" by (simp add: unat_add_u32)
  have q: "20 \<le> unat q" "unat q \<le> 68" "unat q \<le> unat sz"
    using h hl h8 by (auto simp: q_def unat_less_32)
  have qo: "unat q \<le> length orig" using q(3) assms(4) by linarith
  have r: "unat r = 8 + unat q" using icmp_built(2)[OF b assms(2,3) qo] .
  show ?thesis using icmp_roundtrip[OF b assms(2,3) qo] q r by auto
qed

theorem icmp_error_quote_bounded_witness:
  "\<exists>buf' r. icmp_build_error (replicate 100 0) 100 3 3 (0x45 # replicate 39 1) 40 = (buf', r) \<and>
    r \<noteq> 0 \<and> unat r \<le> 76"
proof -
  obtain buf' r where b:
    "icmp_build_error (replicate 100 0) 100 3 3 (0x45 # replicate 39 1) 40 = (buf', r)"
    by fastforce
  then have r: "r \<noteq> 0" by (auto simp: icmp_build_error_def icmp_build_eq)
  from icmp_error_quote_bounded[OF b r] show ?thesis using b r by auto
qed

end
