(* ===== verification/Arp.thy ===== *)
theory Arp
  imports Ethernet
begin

text \<open>
  The address resolution protocol (\<open>net/arp.c\<close>): packets, the neighbour table with its
  60-second entries, and the handler that learns from and answers requests.

  The table is the list of its 16 entries.  Ages are differences of the 32-bit millisecond clock,
  so they stay right when the clock wraps.
\<close>

section \<open>Definitions\<close>

record arp_packet =
  operation :: u16
  sender_mac :: mac_addr
  sender_ip :: ipv4_addr
  target_mac :: mac_addr
  target_ip :: ipv4_addr

record arp_entry =
  entry_ip :: ipv4_addr
  entry_mac :: mac_addr
  updated :: u32
  used :: bool

type_synonym arp_table = "arp_entry list"

definition arp_parse :: "u8 list \<Rightarrow> u32 \<Rightarrow> arp_packet option" where
  "arp_parse bytes sz =
     (if sz < 28 then None
      else if be16_read bytes \<noteq> 1 \<or> be16_read (drop 2 bytes) \<noteq> 0x0800
        \<or> bytes ! 4 \<noteq> 6 \<or> bytes ! 5 \<noteq> 4 then None
      else let oper = be16_read (drop 6 bytes) in
      if oper \<noteq> 1 \<and> oper \<noteq> 2 then None
      else Some \<lparr>operation = oper, sender_mac = mac_of_bytes (drop 8 bytes),
        sender_ip = ipv4_of_bytes (drop 14 bytes), target_mac = mac_of_bytes (drop 18 bytes),
        target_ip = ipv4_of_bytes (drop 24 bytes)\<rparr>)"

definition arp_build :: "u8 list \<Rightarrow> u32 \<Rightarrow> arp_packet \<Rightarrow> u8 list \<times> u32" where
  "arp_build bytes capacity packet =
     (if capacity < 28 then (bytes, 0)
      else let
        bytes = be16_write bytes 0 1;
        bytes = be16_write bytes 2 0x0800;
        bytes = write_at bytes 4 [6];
        bytes = write_at bytes 5 [4];
        bytes = be16_write bytes 6 (operation packet);
        bytes = write_at bytes 8 (mac_bytes (sender_mac packet));
        bytes = write_at bytes 14 (ipv4_bytes (sender_ip packet));
        bytes = write_at bytes 18 (mac_bytes (target_mac packet));
        bytes = write_at bytes 24 (ipv4_bytes (target_ip packet))
      in (bytes, 28))"

definition arp_frame :: "u8 list \<Rightarrow> u32 \<Rightarrow> arp_packet \<Rightarrow> u8 list \<times> u32" where
  "arp_frame frame capacity packet =
     (let (body, built) = arp_build (replicate 28 0) 28 packet in
      if built = 0 then (frame, 0)
      else let header = \<lparr>destination = (if operation packet = 1
                            then Mac 0xFF 0xFF 0xFF 0xFF 0xFF 0xFF else target_mac packet),
                         source = sender_mac packet, ether_type = 0x0806\<rparr>
      in ethernet_build frame capacity header body 28)"

definition arp_make_request :: "mac_addr \<Rightarrow> ipv4_addr \<Rightarrow> ipv4_addr \<Rightarrow> arp_packet" where
  "arp_make_request own_mac own_ip tgt_ip =
     \<lparr>operation = 1, sender_mac = own_mac, sender_ip = own_ip, target_mac = Mac 0 0 0 0 0 0,
      target_ip = tgt_ip\<rparr>"

definition arp_make_reply :: "mac_addr \<Rightarrow> ipv4_addr \<Rightarrow> arp_packet \<Rightarrow> arp_packet" where
  "arp_make_reply own_mac own_ip request =
     \<lparr>operation = 2, sender_mac = own_mac, sender_ip = own_ip,
      target_mac = sender_mac request, target_ip = sender_ip request\<rparr>"

definition arp_table_init :: arp_table where
  "arp_table_init = replicate 16
     \<lparr>entry_ip = Ipv4 0 0 0 0, entry_mac = Mac 0 0 0 0 0 0, updated = 0, used = False\<rparr>"

text \<open>The first index whose entry satisfies a condition: the first two loops of the update.\<close>

fun first_index :: "('a \<Rightarrow> bool) \<Rightarrow> 'a list \<Rightarrow> nat option" where
  "first_index P [] = None"
| "first_index P (x # xs) = (if P x then Some 0 else map_option Suc (first_index P xs))"

text \<open>The third loop: the oldest entry, the first one among equals.\<close>

fun oldest_slot :: "u32 \<Rightarrow> arp_entry list \<Rightarrow> nat \<Rightarrow> nat option \<Rightarrow> u32 \<Rightarrow> nat option" where
  "oldest_slot now [] i target oldest_age = target"
| "oldest_slot now (e # es) i target oldest_age =
     (let age = now - updated e in
      if target = None \<or> age > oldest_age then oldest_slot now es (i + 1) (Some i) age
      else oldest_slot now es (i + 1) target oldest_age)"

definition update_slot :: "arp_table \<Rightarrow> ipv4_addr \<Rightarrow> u32 \<Rightarrow> nat option" where
  "update_slot table ip now =
     (case first_index (\<lambda>e. used e \<and> ipv4_equal (entry_ip e) ip) table of
        Some i \<Rightarrow> Some i
      | None \<Rightarrow> (case first_index (\<lambda>e. \<not> used e) table of
            Some i \<Rightarrow> Some i
          | None \<Rightarrow> oldest_slot now table 0 None 0))"

definition arp_table_update :: "arp_table \<Rightarrow> ipv4_addr \<Rightarrow> mac_addr \<Rightarrow> u32 \<Rightarrow> arp_table" where
  "arp_table_update table ip mac now =
     (case update_slot table ip now of
        None \<Rightarrow> table
      | Some i \<Rightarrow> table[i := \<lparr>entry_ip = ip, entry_mac = mac, updated = now, used = True\<rparr>])"

fun arp_table_lookup :: "arp_table \<Rightarrow> ipv4_addr \<Rightarrow> u32 \<Rightarrow> arp_table \<times> mac_addr option" where
  "arp_table_lookup [] ip now = ([], None)"
| "arp_table_lookup (e # es) ip now =
     (if \<not> used e \<or> \<not> ipv4_equal (entry_ip e) ip then
        (let (es', result) = arp_table_lookup es ip now in (e # es', result))
      else if now - updated e \<ge> 60000 then (e\<lparr>used := False\<rparr> # es, None)
      else (e # es, Some (entry_mac e)))"

definition arp_table_remove :: "arp_table \<Rightarrow> ipv4_addr \<Rightarrow> arp_table" where
  "arp_table_remove table ip =
     map (\<lambda>e. if used e \<and> ipv4_equal (entry_ip e) ip then e\<lparr>used := False\<rparr> else e) table"

definition arp_table_expire :: "arp_table \<Rightarrow> u32 \<Rightarrow> arp_table" where
  "arp_table_expire table now =
     map (\<lambda>e. if used e \<and> now - updated e \<ge> 60000 then e\<lparr>used := False\<rparr> else e) table"

definition sender_is_valid :: "arp_packet \<Rightarrow> ipv4_addr \<Rightarrow> bool" where
  "sender_is_valid packet own_ip =
     (let ip = ipv4_to_u32 (sender_ip packet) in
      if ip = 0 \<or> ip = 0xFFFFFFFF then False
      else if ipv4_equal (sender_ip packet) own_ip then False
      else if mac_is_zero (sender_mac packet) \<or> mac_is_multicast (sender_mac packet) then False
      else True)"

text \<open>
  The handler: the new table, and the reply when the packet is to be answered.  The lookup that
  asks whether the sender is known runs only for a valid packet that is not for us.
\<close>

definition arp_handle :: "arp_table \<Rightarrow> arp_packet \<Rightarrow> mac_addr \<Rightarrow> ipv4_addr \<Rightarrow> u32 \<Rightarrow>
    arp_table \<times> arp_packet option" where
  "arp_handle table packet own_mac own_ip now =
     (let for_us = ipv4_equal (target_ip packet) own_ip;
          valid = sender_is_valid packet own_ip;
          (table, known) =
            (if \<not> valid then (table, False)
             else if for_us then (table, True)
             else let (table', found) = arp_table_lookup table (sender_ip packet) now
                  in (table', found \<noteq> None));
          table = (if valid \<and> known
                   then arp_table_update table (sender_ip packet) (sender_mac packet) now
                   else table)
      in if operation packet = 1 \<and> for_us
           \<and> \<not> mac_is_zero (sender_mac packet) \<and> \<not> mac_is_multicast (sender_mac packet)
           \<and> \<not> ipv4_equal (sender_ip packet) own_ip
         then (table, Some (arp_make_reply own_mac own_ip packet))
         else (table, None))"


section \<open>Packets\<close>

definition arp_bytes :: "arp_packet \<Rightarrow> u8 list" where
  "arp_bytes p = be16_bytes 1 @ be16_bytes 0x0800 @ [6, 4] @ be16_bytes (operation p)
     @ mac_bytes (sender_mac p) @ ipv4_bytes (sender_ip p)
     @ mac_bytes (target_mac p) @ ipv4_bytes (target_ip p)"

lemma length_arp_bytes [simp]: "length (arp_bytes p) = 28"
  by (simp add: arp_bytes_def)

lemma arp_build_eq:
  "28 \<le> length buf \<Longrightarrow> \<not> cap < 28 \<Longrightarrow> arp_build buf cap p = (write_at buf 0 (arp_bytes p), 28)"
  by (simp add: arp_build_def Let_def be16_write_def arp_bytes_def write_at_adjacent)

lemma arp_parse_bytes:
  assumes "operation p = 1 \<or> operation p = 2" "28 \<le> unat sz"
  shows "arp_parse (arp_bytes p @ rest) sz = Some p"
proof -
  have f: "be16_read (arp_bytes p @ rest) = 1" "be16_read (drop 2 (arp_bytes p @ rest)) = 0x0800"
    "(arp_bytes p @ rest) ! 4 = 6" "(arp_bytes p @ rest) ! 5 = 4"
    "be16_read (drop 6 (arp_bytes p @ rest)) = operation p"
    "mac_of_bytes (drop 8 (arp_bytes p @ rest)) = sender_mac p"
    "ipv4_of_bytes (drop 14 (arp_bytes p @ rest)) = sender_ip p"
    "mac_of_bytes (drop 18 (arp_bytes p @ rest)) = target_mac p"
    "ipv4_of_bytes (drop 24 (arp_bytes p @ rest)) = target_ip p"
    unfolding arp_bytes_def by (simp_all add: be16_read_bytes nth_append)
  have "\<not> sz < 28" using assms(2) by (simp add: unat_less_32)
  then show ?thesis
    using assms(1) unfolding arp_parse_def f by (auto simp: Let_def)
qed

text \<open>
  An ARP packet put into an Ethernet frame is recovered by the receiver: the frame parses, its
  type is ARP, a request goes to the broadcast address and a reply to the target, and the payload
  parses back to the packet.
\<close>

theorem arp_frame_roundtrip:
  assumes op: "operation p = 1 \<or> operation p = 2"
    and cap: "60 \<le> unat cap" "unat cap \<le> length frame"
  shows "\<exists>frame' h q m. arp_frame frame cap p = (frame', 60) \<and>
    ethernet_parse frame' 60 = Some (h, q, m) \<and> ether_type h = 0x0806 \<and> source h = sender_mac p \<and>
    destination h = (if operation p = 1 then Mac 0xFF 0xFF 0xFF 0xFF 0xFF 0xFF else target_mac p) \<and>
    arp_parse q m = Some p"
proof -
  let ?h = "\<lparr>destination = (if operation p = 1 then Mac 0xFF 0xFF 0xFF 0xFF 0xFF 0xFF
      else target_mac p), source = sender_mac p, ether_type = 0x0806\<rparr>"
  have body: "arp_build (replicate 28 0) 28 p = (arp_bytes p, 28)"
    by (simp add: arp_build_eq write_at_def)
  obtain frame' where b: "ethernet_build frame cap ?h (arp_bytes p) 28 = (frame', 60)"
    using cap by (simp add: ethernet_build_eq frame_size_def)
  then obtain q m where q: "ethernet_parse frame' 60 = Some (?h, q, m)" "28 \<le> unat m"
      "take 28 q = arp_bytes p"
    using ethernet_roundtrip_layer[OF b] cap by auto
  then have "q = arp_bytes p @ drop 28 q" by (metis region_split)
  then have "arp_parse q m = Some p" using arp_parse_bytes[OF op q(2)] by metis
  then show ?thesis using b q(1) body by (auto simp: arp_frame_def Let_def)
qed


theorem arp_frame_roundtrip_witness:
  "\<exists>frame' h q m. arp_frame (replicate 60 0) 60
      (arp_make_request (Mac 2 0 0 0 0 1) (Ipv4 10 0 2 15) (Ipv4 10 0 2 2)) = (frame', 60) \<and>
    ethernet_parse frame' 60 = Some (h, q, m) \<and>
    arp_parse q m = Some (arp_make_request (Mac 2 0 0 0 0 1) (Ipv4 10 0 2 15) (Ipv4 10 0 2 2))"
proof -
  let ?p = "arp_make_request (Mac 2 0 0 0 0 1) (Ipv4 10 0 2 15) (Ipv4 10 0 2 2)"
  have "operation ?p = 1 \<or> operation ?p = 2" by (simp add: arp_make_request_def)
  from arp_frame_roundtrip[OF this, of 60 "replicate 60 0"] show ?thesis by auto
qed


section \<open>The neighbour table\<close>

subsection \<open>Interface\<close>

text \<open>
  What the network code relies on in a neighbour cache: entries live for \<open>lifetime\<close> clock
  units, an update is visible until then, a removed or expired key is not found, and looking a
  key up does not disturb later answers.
\<close>

locale neighbour_cache =
  fixes empty :: 't
    and update :: "'t \<Rightarrow> 'k \<Rightarrow> 'v \<Rightarrow> u32 \<Rightarrow> 't"
    and lookup :: "'t \<Rightarrow> 'k \<Rightarrow> u32 \<Rightarrow> 't \<times> 'v option"
    and remove :: "'t \<Rightarrow> 'k \<Rightarrow> 't"
    and expire :: "'t \<Rightarrow> u32 \<Rightarrow> 't"
    and invar :: "'t \<Rightarrow> bool"
    and lifetime :: u32
  assumes invar_empty: "invar empty"
    and invar_update: "invar t \<Longrightarrow> invar (update t k v now)"
    and invar_lookup: "invar t \<Longrightarrow> invar (fst (lookup t k now))"
    and invar_remove: "invar t \<Longrightarrow> invar (remove t k)"
    and invar_expire: "invar t \<Longrightarrow> invar (expire t now)"
    and lookup_empty: "snd (lookup empty k now) = None"
    and lookup_update:
      "invar t \<Longrightarrow> snd (lookup (update t k v now) k later) =
         (if later - now < lifetime then Some v else None)"
    and lookup_remove:
      "invar t \<Longrightarrow> snd (lookup (remove t k) k' now) =
         (if k' = k then None else snd (lookup t k' now))"
    and lookup_expire: "invar t \<Longrightarrow> snd (lookup (expire t now) k now) = snd (lookup t k now)"
    and lookup_again: "invar t \<Longrightarrow> snd (lookup (fst (lookup t k now)) k' now) = snd (lookup t k' now)"
begin

lemma last_update_wins:
  "invar t \<Longrightarrow> snd (lookup (update (update t k v before) k w now) k later) =
     (if later - now < lifetime then Some w else None)"
  by (simp add: lookup_update invar_update)

lemma update_remove: "invar t \<Longrightarrow> snd (lookup (remove (update t k v now) k) k later) = None"
  by (simp add: lookup_remove invar_update)

lemma found_then_found:
  assumes "invar t" "lookup t k now = (t', Some v)"
  shows "snd (lookup t' k now) = Some v"
  using lookup_again[OF assms(1), of k now k] assms(2) by simp

end


subsection \<open>Choosing a slot\<close>

lemma first_index_Some:
  "first_index P xs = Some i \<Longrightarrow> i < length xs \<and> P (xs ! i) \<and> (\<forall>j<i. \<not> P (xs ! j))"
  by (induction xs arbitrary: i) (auto simp: less_Suc_eq_0_disj split: if_splits)

lemma first_index_None: "first_index P xs = None \<longleftrightarrow> (\<forall>x \<in> set xs. \<not> P x)"
  by (induction xs) auto

text \<open>The loop keeps a candidate among the entries already seen that is at least as old as all.\<close>

lemma oldest_slot_spec:
  assumes "i = length done" "target = Some k" "k < i" "now - updated (done ! k) = age"
    and "\<forall>e \<in> set done. now - updated e \<le> age"
  shows "\<exists>k'. oldest_slot now es i target age = Some k' \<and> k' < length (done @ es) \<and>
    (\<forall>e \<in> set (done @ es). now - updated e \<le> now - updated ((done @ es) ! k'))"
  using assms
proof (induction es arbitrary: "done" i target k age)
  case Nil
  then show ?case by auto
next
  case (Cons e es)
  show ?case
  proof (cases "now - updated e > age")
    case True
    have old: "\<forall>x \<in> set (done @ [e]). now - updated x \<le> now - updated e"
      using Cons.prems(5) True by (auto intro: order.trans less_imp_le)
    have "\<exists>k'. oldest_slot now es (i + 1) (Some i) (now - updated e) = Some k' \<and>
        k' < length ((done @ [e]) @ es) \<and> (\<forall>x \<in> set ((done @ [e]) @ es).
          now - updated x \<le> now - updated (((done @ [e]) @ es) ! k'))"
      by (rule Cons.IH[OF _ refl _ _ old]) (simp_all add: Cons.prems(1))
    then show ?thesis using True by simp
  next
    case False
    have old: "\<forall>x \<in> set (done @ [e]). now - updated x \<le> age"
      using Cons.prems(5) False by auto
    have "\<exists>k'. oldest_slot now es (i + 1) target age = Some k' \<and>
        k' < length ((done @ [e]) @ es) \<and> (\<forall>x \<in> set ((done @ [e]) @ es).
          now - updated x \<le> now - updated (((done @ [e]) @ es) ! k'))"
      by (rule Cons.IH[OF _ Cons.prems(2) _ _ old])
        (use Cons.prems in \<open>simp_all add: nth_append\<close>)
    then show ?thesis using False Cons.prems(2) by simp
  qed
qed

lemma oldest_slot_oldest:
  assumes "table \<noteq> []"
  shows "\<exists>k. oldest_slot now table 0 None 0 = Some k \<and> k < length table \<and>
    (\<forall>e \<in> set table. now - updated e \<le> now - updated (table ! k))"
proof (cases table)
  case (Cons e es)
  then show ?thesis
    using oldest_slot_spec[of 1 "[e]" "Some 0" 0 now "now - updated e" es] by simp
qed (use assms in simp)

definition arp_match :: "ipv4_addr \<Rightarrow> arp_entry \<Rightarrow> bool" where
  "arp_match ip e \<longleftrightarrow> used e \<and> entry_ip e = ip"

definition arp_wf :: "arp_table \<Rightarrow> bool" where
  "arp_wf table \<longleftrightarrow> length table = 16 \<and>
     (\<forall>i<16. \<forall>j<16. i \<noteq> j \<and> used (table ! i) \<and> used (table ! j) \<longrightarrow>
        entry_ip (table ! i) \<noteq> entry_ip (table ! j))"

lemma update_slot_spec:
  assumes "table \<noteq> []"
  shows "\<exists>i. update_slot table ip now = Some i \<and> i < length table \<and>
    ((arp_match ip (table ! i) \<and> (\<forall>j<i. \<not> arp_match ip (table ! j))) \<or>
     (\<forall>e \<in> set table. \<not> arp_match ip e) \<and>
       (\<not> used (table ! i) \<or> (\<forall>e \<in> set table. used e) \<and>
          (\<forall>e \<in> set table. now - updated e \<le> now - updated (table ! i))))"
proof -
  have m: "(\<lambda>e. used e \<and> entry_ip e = ip) = arp_match ip"
    by (simp add: fun_eq_iff arp_match_def)
  show ?thesis
  proof (cases "first_index (arp_match ip) table")
    case (Some i)
    then show ?thesis using first_index_Some[OF Some] by (auto simp: update_slot_def m)
  next
    case None
    note no_match = None
    show ?thesis
    proof (cases "first_index (\<lambda>e. \<not> used e) table")
      case (Some i)
      then have "update_slot table ip now = Some i"
        using no_match by (simp add: update_slot_def m)
      then show ?thesis
        using no_match first_index_Some[OF Some] by (auto simp: first_index_None)
    next
      case None
      then have "update_slot table ip now = oldest_slot now table 0 None 0"
        using no_match by (simp add: update_slot_def m)
      then show ?thesis
        using no_match None oldest_slot_oldest[OF assms, of now] by (auto simp: first_index_None)
    qed
  qed
qed


subsection \<open>The table implements the interface\<close>

lemma update_shape:
  assumes "arp_wf table"
  obtains i where "i < 16"
    and "arp_table_update table ip mac now =
      table[i := \<lparr>entry_ip = ip, entry_mac = mac, updated = now, used = True\<rparr>]"
    and "\<forall>j<16. j \<noteq> i \<longrightarrow> \<not> arp_match ip (table ! j)"
    and "arp_match ip (table ! i) \<or> \<not> used (table ! i) \<or> (\<forall>e \<in> set table. used e) \<and>
      (\<forall>e \<in> set table. now - updated e \<le> now - updated (table ! i))"
proof -
  have len: "length table = 16" "table \<noteq> []" using assms by (auto simp: arp_wf_def)
  obtain i where i: "update_slot table ip now = Some i" "i < length table"
    "(arp_match ip (table ! i) \<and> (\<forall>j<i. \<not> arp_match ip (table ! j))) \<or>
     (\<forall>e \<in> set table. \<not> arp_match ip e) \<and> (\<not> used (table ! i) \<or> (\<forall>e \<in> set table. used e) \<and>
          (\<forall>e \<in> set table. now - updated e \<le> now - updated (table ! i)))"
    using update_slot_spec[OF len(2)] by blast
  have others: "\<forall>j<16. j \<noteq> i \<longrightarrow> \<not> arp_match ip (table ! j)"
    using i assms len by (auto simp: arp_match_def arp_wf_def)
  show thesis
    by (rule that[of i]) (use i others len in \<open>auto simp: arp_table_update_def\<close>)
qed

lemma arp_wf_init: "arp_wf arp_table_init"
  by (simp add: arp_wf_def arp_table_init_def)

lemma arp_wf_update:
  assumes "arp_wf table"
  shows "arp_wf (arp_table_update table ip mac now)"
proof -
  obtain i where "i < 16" "arp_table_update table ip mac now =
      table[i := \<lparr>entry_ip = ip, entry_mac = mac, updated = now, used = True\<rparr>]"
    "\<forall>j<16. j \<noteq> i \<longrightarrow> \<not> arp_match ip (table ! j)"
    using update_shape[OF assms] by metis
  then show ?thesis
    using assms by (auto simp: arp_wf_def arp_match_def nth_list_update)
qed

text \<open>Turning entries off keeps a table well-formed.\<close>

lemma arp_wf_turn_off:
  assumes "arp_wf table" "length table' = length table"
    and "\<And>i. i < length table \<Longrightarrow> table' ! i = table ! i \<or> table' ! i = (table ! i)\<lparr>used := False\<rparr>"
  shows "arp_wf table'"
  unfolding arp_wf_def
proof (intro conjI allI impI)
  show "length table' = 16" using assms(1,2) by (simp add: arp_wf_def)
  fix i j :: nat
  assume ij: "i < 16" "j < 16" "i \<noteq> j \<and> used (table' ! i) \<and> used (table' ! j)"
  then have "table' ! i = table ! i" "table' ! j = table ! j"
    using assms(3)[of i] assms(3)[of j] assms(1) by (auto simp: arp_wf_def)
  then show "entry_ip (table' ! i) \<noteq> entry_ip (table' ! j)"
    using ij assms(1) by (auto simp: arp_wf_def)
qed

lemma arp_table_lookup_nth:
  "length (fst (arp_table_lookup table ip now)) = length table \<and>
   (\<forall>i<length table. fst (arp_table_lookup table ip now) ! i = table ! i \<or>
      fst (arp_table_lookup table ip now) ! i = (table ! i)\<lparr>used := False\<rparr> \<and>
      60000 \<le> now - updated (table ! i))"
proof (induction table)
  case (Cons e es)
  then show ?case
    by (auto simp: less_Suc_eq_0_disj split: prod.splits)
qed simp

lemma lookup_find:
  "snd (arp_table_lookup table ip now) =
    (case find (arp_match ip) table of None \<Rightarrow> None
     | Some e \<Rightarrow> if now - updated e < 60000 then Some (entry_mac e) else None)"
  by (induction table) (auto simp: arp_match_def not_less split: prod.splits)

lemma find_update_hit:
  "i < length xs \<Longrightarrow> (\<forall>j<i. \<not> P (xs ! j)) \<Longrightarrow> P x \<Longrightarrow> find P (xs[i := x]) = Some x"
proof (induction xs arbitrary: i)
  case (Cons y ys)
  show ?case
  proof (cases i)
    case (Suc k)
    have "\<not> P y" "\<forall>j<k. \<not> P (ys ! j)"
      using Cons.prems(2) Suc by (force, metis Suc_less_eq nth_Cons_Suc)
    then show ?thesis using Cons Suc by simp
  qed (use Cons.prems in simp)
qed simp

lemma find_update_miss:
  "i < length xs \<Longrightarrow> \<not> P (xs ! i) \<Longrightarrow> \<not> P x \<Longrightarrow> find P (xs[i := x]) = find P xs"
proof (induction xs arbitrary: i)
  case (Cons y ys)
  then show ?case by (cases i) auto
qed simp

lemma find_turned_off:
  assumes "\<And>e. e \<in> set table \<Longrightarrow> off e \<Longrightarrow> \<not> arp_match ip e"
  shows "find (arp_match ip) (map (\<lambda>e. if off e then e\<lparr>used := False\<rparr> else e) table) =
    find (arp_match ip) table"
  using assms by (induction table) (auto simp: arp_match_def)


lemma arp_lookup_update:
  assumes "arp_wf t"
  shows "snd (arp_table_lookup (arp_table_update t ip mac now) ip later) =
    (if later - now < 60000 then Some mac else None)"
proof -
  obtain i where i: "i < 16" "arp_table_update t ip mac now =
      t[i := \<lparr>entry_ip = ip, entry_mac = mac, updated = now, used = True\<rparr>]"
    "\<forall>j<16. j \<noteq> i \<longrightarrow> \<not> arp_match ip (t ! j)"
    using update_shape[OF assms] by metis
  have "find (arp_match ip) (arp_table_update t ip mac now) =
      Some \<lparr>entry_ip = ip, entry_mac = mac, updated = now, used = True\<rparr>"
    using i assms unfolding i(2)
    by (intro find_update_hit) (auto simp: arp_wf_def arp_match_def)
  then show ?thesis by (simp add: lookup_find)
qed

lemma arp_lookup_update_other:
  assumes "arp_wf t" "ip' \<noteq> ip" "\<exists>e \<in> set t. \<not> used e \<or> entry_ip e = ip"
  shows "snd (arp_table_lookup (arp_table_update t ip mac now) ip' later) =
    snd (arp_table_lookup t ip' later)"
proof -
  obtain i where i: "i < 16" "arp_table_update t ip mac now =
      t[i := \<lparr>entry_ip = ip, entry_mac = mac, updated = now, used = True\<rparr>]"
    "\<forall>j<16. j \<noteq> i \<longrightarrow> \<not> arp_match ip (t ! j)"
    "arp_match ip (t ! i) \<or> \<not> used (t ! i) \<or> (\<forall>e \<in> set t. used e)"
    using update_shape[OF assms(1)] by metis
  obtain k where k: "k < 16" "\<not> used (t ! k) \<or> entry_ip (t ! k) = ip"
    using assms(1,3) by (metis arp_wf_def in_set_conv_nth)
  have "arp_match ip (t ! i) \<or> \<not> used (t ! i)"
    using i(3,4) k assms(1) by (metis arp_match_def arp_wf_def nth_mem)
  then have "\<not> arp_match ip' (t ! i)" using assms(2) by (auto simp: arp_match_def)
  then have "find (arp_match ip') (arp_table_update t ip mac now) = find (arp_match ip') t"
    using i(1) assms(1,2) unfolding i(2)
    by (intro find_update_miss) (auto simp: arp_wf_def arp_match_def)
  then show ?thesis by (simp add: lookup_find)
qed

lemma arp_lookup_remove:
  "snd (arp_table_lookup (arp_table_remove t ip) ip' now) =
    (if ip' = ip then None else snd (arp_table_lookup t ip' now))"
proof (cases "ip' = ip")
  case True
  have "find (arp_match ip) (arp_table_remove t ip) = None"
    by (induction t) (auto simp: arp_table_remove_def arp_match_def)
  then show ?thesis using True by (simp add: lookup_find)
next
  case False
  then have "find (arp_match ip') (arp_table_remove t ip) = find (arp_match ip') t"
    unfolding arp_table_remove_def by (intro find_turned_off) (auto simp: arp_match_def)
  then show ?thesis using False by (simp add: lookup_find)
qed

lemma find_unique_match:
  assumes "arp_wf t" "i < 16" "arp_match ip (t ! i)"
  shows "find (arp_match ip) t = Some (t ! i)"
proof -
  obtain e where e: "find (arp_match ip) t = Some e"
    using assms by (metis arp_wf_def find_None_iff nth_mem option.exhaust)
  then obtain j where "j < 16" "e = t ! j" "arp_match ip (t ! j)"
    using assms(1) by (auto simp: find_Some_iff arp_wf_def)
  then show ?thesis using e assms by (metis arp_match_def arp_wf_def)
qed

lemma lookup_pruned:
  assumes t: "arp_wf t" and t': "arp_wf t'"
    and prune: "\<And>i. i < 16 \<Longrightarrow> t' ! i = t ! i \<or>
      t' ! i = (t ! i)\<lparr>used := False\<rparr> \<and> 60000 \<le> now - updated (t ! i)"
  shows "snd (arp_table_lookup t' ip now) = snd (arp_table_lookup t ip now)"
proof (cases "\<exists>i<16. arp_match ip (t' ! i)")
  case True
  then obtain i where i: "i < 16" "arp_match ip (t' ! i)" by blast
  then have "t' ! i = t ! i" using prune[of i] by (auto simp: arp_match_def)
  then show ?thesis using i t t' by (simp add: lookup_find find_unique_match)
next
  case False
  then have none: "find (arp_match ip) t' = None"
    using t' by (auto simp: find_None_iff in_set_conv_nth arp_wf_def)
  show ?thesis
  proof (cases "\<exists>i<16. arp_match ip (t ! i)")
    case True
    then obtain i where i: "i < 16" "arp_match ip (t ! i)" by blast
    then have "60000 \<le> now - updated (t ! i)" using False prune[of i] by auto
    then show ?thesis using i t none by (simp add: lookup_find find_unique_match not_less)
  next
    case False
    then have "find (arp_match ip) t = None"
      using t by (auto simp: find_None_iff in_set_conv_nth arp_wf_def)
    then show ?thesis using none by (simp add: lookup_find)
  qed
qed

lemma arp_wf_lookup: "arp_wf t \<Longrightarrow> arp_wf (fst (arp_table_lookup t ip now))"
  by (rule arp_wf_turn_off[of t]) (use arp_table_lookup_nth[of t ip now] in blast)+

lemma find_init: "find (arp_match ip) arp_table_init = None"
  by (simp add: arp_table_init_def find_None_iff arp_match_def)

lemma arp_wf_remove: "arp_wf t \<Longrightarrow> arp_wf (arp_table_remove t ip)"
  by (rule arp_wf_turn_off[of t]) (auto simp: arp_table_remove_def)

lemma arp_wf_expire: "arp_wf t \<Longrightarrow> arp_wf (arp_table_expire t now)"
  by (rule arp_wf_turn_off[of t]) (auto simp: arp_table_expire_def)

interpretation arp_cache: neighbour_cache arp_table_init arp_table_update arp_table_lookup
  arp_table_remove arp_table_expire arp_wf 60000
proof
  fix t :: arp_table and ip ip' mac and now later :: u32
  show "arp_wf arp_table_init" by (rule arp_wf_init)
  show "snd (arp_table_lookup arp_table_init ip now) = None"
    by (simp add: lookup_find find_init)
  assume t: "arp_wf t"
  show "arp_wf (arp_table_update t ip mac now)" by (rule arp_wf_update[OF t])
  show "arp_wf (fst (arp_table_lookup t ip now))" by (rule arp_wf_lookup[OF t])
  show "arp_wf (arp_table_remove t ip)" by (rule arp_wf_remove[OF t])
  show "arp_wf (arp_table_expire t now)" by (rule arp_wf_expire[OF t])
  show "snd (arp_table_lookup (arp_table_update t ip mac now) ip later) =
      (if later - now < 60000 then Some mac else None)" by (rule arp_lookup_update[OF t])
  show "snd (arp_table_lookup (arp_table_remove t ip) ip' now) =
      (if ip' = ip then None else snd (arp_table_lookup t ip' now))" by (rule arp_lookup_remove)
  show "snd (arp_table_lookup (arp_table_expire t now) ip now) = snd (arp_table_lookup t ip now)"
    by (rule lookup_pruned[OF t arp_wf_expire[OF t]])
      (use t in \<open>auto simp: arp_table_expire_def arp_wf_def\<close>)
  show "snd (arp_table_lookup (fst (arp_table_lookup t ip now)) ip' now) =
      snd (arp_table_lookup t ip' now)"
    by (rule lookup_pruned[OF t arp_wf_lookup[OF t]])
      (use t arp_table_lookup_nth[of t ip now] in \<open>auto simp: arp_wf_def\<close>)
qed


section \<open>Properties of the table and the handler\<close>

text \<open>
  After an update the address resolves to the new hardware address for exactly 60 seconds of
  the (wrapping) clock, however often the entry was updated before, and the table keeps one entry
  per address.
\<close>

theorem arp_update_then_lookup:
  assumes "arp_wf t"
  shows "snd (arp_table_lookup (arp_table_update (arp_table_update t ip m0 t0) ip mac now) ip later) =
      (if later - now < 60000 then Some mac else None) \<and>
    arp_wf (arp_table_update (arp_table_update t ip m0 t0) ip mac now)"
  using arp_cache.last_update_wins[OF assms] arp_wf_update arp_wf_update[OF assms] by blast

theorem arp_update_then_lookup_witness:
  "snd (arp_table_lookup (arp_table_update (arp_table_update arp_table_init (Ipv4 10 0 2 2)
     (Mac 1 1 1 1 1 1) 5) (Ipv4 10 0 2 2) (Mac 2 2 2 2 2 2) 0xFFFFFFF0) (Ipv4 10 0 2 2) 100) =
   Some (Mac 2 2 2 2 2 2)"
  using arp_update_then_lookup[OF arp_wf_init, of "Ipv4 10 0 2 2" "Mac 1 1 1 1 1 1" 5
      "Mac 2 2 2 2 2 2" "0xFFFFFFF0" 100] by simp

text \<open>
  An update disturbs the resolution of another address only by eviction: while the table has a
  free slot or already holds the updated address, every other address resolves as before; when the
  table is full, the one entry that is replaced is the least recently updated.
\<close>

theorem arp_update_evicts_oldest:
  assumes "arp_wf t" "ip' \<noteq> ip"
  shows "snd (arp_table_lookup (arp_table_update t ip mac now) ip' later) =
      snd (arp_table_lookup t ip' later) \<or>
    (\<forall>e \<in> set t. used e \<and> entry_ip e \<noteq> ip) \<and>
    (\<exists>v \<in> set t. entry_ip v = ip' \<and> (\<forall>e \<in> set t. now - updated e \<le> now - updated v))"
proof (cases "\<exists>e \<in> set t. \<not> used e \<or> entry_ip e = ip")
  case True
  then show ?thesis using arp_lookup_update_other[OF assms] by blast
next
  case False
  obtain i where i: "i < 16" "arp_table_update t ip mac now =
      t[i := \<lparr>entry_ip = ip, entry_mac = mac, updated = now, used = True\<rparr>]"
    "arp_match ip (t ! i) \<or> \<not> used (t ! i) \<or> (\<forall>e \<in> set t. used e) \<and>
      (\<forall>e \<in> set t. now - updated e \<le> now - updated (t ! i))"
    using update_shape[OF assms(1)] by metis
  have ti: "t ! i \<in> set t" using i(1) assms(1) by (simp add: arp_wf_def)
  then have old: "\<forall>e \<in> set t. now - updated e \<le> now - updated (t ! i)"
    using i(3) False by (auto simp: arp_match_def)
  show ?thesis
  proof (cases "entry_ip (t ! i) = ip'")
    case True
    then show ?thesis using ti old False by blast
  next
    case other: False
    have "find (arp_match ip') (arp_table_update t ip mac now) = find (arp_match ip') t"
      using i(1) assms other unfolding i(2)
      by (intro find_update_miss) (auto simp: arp_wf_def arp_match_def)
    then show ?thesis by (simp add: lookup_find)
  qed
qed

theorem arp_update_evicts_oldest_witness:
  "snd (arp_table_lookup (arp_table_update (arp_table_update arp_table_init (Ipv4 10 0 2 3)
     (Mac 3 3 3 3 3 3) 7) (Ipv4 10 0 2 2) (Mac 2 2 2 2 2 2) 9) (Ipv4 10 0 2 3) 10) =
   Some (Mac 3 3 3 3 3 3)"
proof -
  let ?t = "arp_table_update arp_table_init (Ipv4 10 0 2 3) (Mac 3 3 3 3 3 3) 7"
  have t: "arp_wf ?t" by (rule arp_wf_update[OF arp_wf_init])
  have free: "\<not> (\<forall>e \<in> set ?t. used e \<and> entry_ip e \<noteq> Ipv4 10 0 2 2)"
    by (simp add: arp_table_update_def update_slot_def arp_table_init_def numeral_eq_Suc)
  show ?thesis
    using arp_update_evicts_oldest[OF t, of "Ipv4 10 0 2 3" "Ipv4 10 0 2 2" "Mac 2 2 2 2 2 2" 9 10]
      free arp_lookup_update[OF arp_wf_init, of "Ipv4 10 0 2 3" "Mac 3 3 3 3 3 3" 7 10] by auto
qed

lemma arp_handle_table:
  "fst (arp_handle t p own_mac own_ip now) =
    (if \<not> sender_is_valid p own_ip then t
     else if target_ip p = own_ip then arp_table_update t (sender_ip p) (sender_mac p) now
     else let t' = fst (arp_table_lookup t (sender_ip p) now) in
       if snd (arp_table_lookup t (sender_ip p) now) = None then t'
       else arp_table_update t' (sender_ip p) (sender_mac p) now)"
  by (cases "arp_table_lookup t (sender_ip p) now")
    (auto simp: arp_handle_def Let_def split: option.splits)

lemma arp_handle_wf: "arp_wf t \<Longrightarrow> arp_wf (fst (arp_handle t p own_mac own_ip now))"
  by (simp add: arp_handle_table Let_def arp_wf_update arp_wf_lookup)

text \<open>
  The cache cannot be poisoned by unsolicited packets: a packet with an invalid sender (zero,
  broadcast or our own IP address; zero or multicast MAC), or one that is neither for us nor from
  an address already cached, changes no resolution.
\<close>

theorem arp_handle_no_poisoning:
  assumes "arp_wf t"
    and "\<not> sender_is_valid p own_ip \<or>
      target_ip p \<noteq> own_ip \<and> snd (arp_table_lookup t (sender_ip p) now) = None"
  shows "snd (arp_table_lookup (fst (arp_handle t p own_mac own_ip now)) ip now) =
    snd (arp_table_lookup t ip now)"
  using assms arp_cache.lookup_again[OF assms(1)] by (auto simp: arp_handle_table Let_def)

theorem arp_handle_no_poisoning_witness:
  "snd (arp_table_lookup (fst (arp_handle arp_table_init
     \<lparr>operation = 2, sender_mac = Mac 2 0 0 0 0 9, sender_ip = Ipv4 10 0 2 2,
      target_mac = Mac 2 0 0 0 0 7, target_ip = Ipv4 10 0 2 99\<rparr>
     (Mac 2 0 0 0 0 1) (Ipv4 10 0 2 15) 500)) (Ipv4 10 0 2 2) 500) = None"
  using arp_handle_no_poisoning[OF arp_wf_init, of
      "\<lparr>operation = 2, sender_mac = Mac 2 0 0 0 0 9, sender_ip = Ipv4 10 0 2 2,
        target_mac = Mac 2 0 0 0 0 7, target_ip = Ipv4 10 0 2 99\<rparr>" "Ipv4 10 0 2 15" 500]
  by (simp add: lookup_find find_init)

text \<open>
  A packet for us from a valid sender is learned and, when it is a request, answered: the
  sender resolves to its hardware address for the next 60 seconds, and the reply goes to the sender
  with our addresses as its source.  A packet that is not a request is never answered.
\<close>

theorem arp_handle_learns_and_answers:
  assumes "arp_wf t" "sender_is_valid p own_ip" "target_ip p = own_ip" "later - now < 60000"
  shows "snd (arp_table_lookup (fst (arp_handle t p own_mac own_ip now)) (sender_ip p) later) =
      Some (sender_mac p) \<and>
    snd (arp_handle t p own_mac own_ip now) =
      (if operation p = 1 then Some \<lparr>operation = 2, sender_mac = own_mac, sender_ip = own_ip,
         target_mac = sender_mac p, target_ip = sender_ip p\<rparr> else None)"
proof
  show "snd (arp_table_lookup (fst (arp_handle t p own_mac own_ip now)) (sender_ip p) later) =
      Some (sender_mac p)"
    using assms arp_lookup_update[OF assms(1)] by (simp add: arp_handle_table)
  show "snd (arp_handle t p own_mac own_ip now) =
      (if operation p = 1 then Some \<lparr>operation = 2, sender_mac = own_mac, sender_ip = own_ip,
         target_mac = sender_mac p, target_ip = sender_ip p\<rparr> else None)"
    using assms(2,3)
    by (auto simp: arp_handle_def sender_is_valid_def arp_make_reply_def Let_def split: if_splits)
qed

theorem arp_handle_learns_and_answers_witness:
  "snd (arp_table_lookup (fst (arp_handle arp_table_init
     (arp_make_request (Mac 2 0 0 0 0 9) (Ipv4 10 0 2 2) (Ipv4 10 0 2 15))
     (Mac 2 0 0 0 0 1) (Ipv4 10 0 2 15) 500)) (Ipv4 10 0 2 2) 900) = Some (Mac 2 0 0 0 0 9)"
proof -
  let ?p = "arp_make_request (Mac 2 0 0 0 0 9) (Ipv4 10 0 2 2) (Ipv4 10 0 2 15)"
  have v: "sender_is_valid ?p (Ipv4 10 0 2 15)"
    by (simp add: sender_is_valid_def arp_make_request_def ipv4_to_u32_def mac_is_zero_def
        mac_is_multicast_def)
  have tgt: "target_ip ?p = Ipv4 10 0 2 15" by (simp add: arp_make_request_def)
  show ?thesis
    using arp_handle_learns_and_answers[OF arp_wf_init v tgt, of 900 500 "Mac 2 0 0 0 0 1"]
    by (simp add: arp_make_request_def)
qed

end
