(* ===== verification/Net_Stack.thy ===== *)
theory Net_Stack
  imports Ethernet Udp Icmp Arp
begin

text \<open>
  The protocol layers stacked as \<open>send_ipv4\<close> of \<open>kernel/net.c\<close> and the UDP code above it stack
  them: Ethernet around IPv4 around UDP.  Each stack is an interpretation of \<open>layer_stack\<close> on the
  layers' own builders and parsers, for every scratch buffer large enough for its capacity.
\<close>

definition room :: "u8 list \<Rightarrow> u32 \<Rightarrow> u8 list" where
  "room buf cap = (if unat cap \<le> length buf then buf else replicate (unat cap) 0)"

lemma room_fits [simp]: "unat cap \<le> length (room buf cap)"
  by (simp add: room_def)

lemma room_eq [simp]: "unat cap \<le> length buf \<Longrightarrow> room buf cap = buf"
  by (simp add: room_def)

interpretation ip_udp: layer_stack ipv4_packet_build ipv4_parse_ok ipv4_sendable ipv4_received
  "\<lambda>n. 20 + n" 65535 "udp_build_ports src dst" "udp_parse_ok src dst" "\<lambda>_. True" "\<lambda>h _. h"
  "\<lambda>n. 8 + n" 65535 "room ubuf ucap" ucap for src dst ubuf ucap
  by unfold_locales simp_all

interpretation eth_ip_udp: layer_stack ethernet_build ethernet_parse "\<lambda>_. True" "\<lambda>h _. h"
  "\<lambda>n. max 60 (14 + n)" 1514
  "stack_build ipv4_packet_build (udp_build_ports src dst) (room ubuf ucap) ucap"
  "stack_parse ipv4_parse_ok (udp_parse_ok src dst)"
  "\<lambda>h. ipv4_sendable (fst h) \<and> True" "\<lambda>h n. (ipv4_received (fst h) (8 + n), snd h)"
  "\<lambda>n. 20 + (8 + n)" 65535 "room ibuf icap" icap for src dst ubuf ucap ibuf icap
  by unfold_locales simp_all

lemma stack_parse_SomeD:
  assumes "stack_parse parse_o parse_i bytes sz = Some ((oh, ih), q, m)"
  shows "\<exists>q' m'. parse_o bytes sz = Some (oh, q', m') \<and> parse_i q' m' = Some (ih, q, m)"
  using assms by (auto simp: stack_parse_def split: option.splits)

lemma parse_ok_iff:
  "ipv4_parse_ok bytes sz = Some (h, q, m) \<longleftrightarrow> ipv4_packet_parse bytes sz = Inr (h, q, m)"
  by (simp add: ipv4_parse_ok_def split: sum.splits)

lemma ipv4_header_init_sendable: "ipv4_sendable (ipv4_header_init src dst proto)"
  by (simp add: ipv4_sendable_def ipv4_header_init_def)

text \<open>
  A datagram sent through the whole stack arrives: when UDP, IPv4 and Ethernet each accept what
  they are given, parsing the frame, then the packet, then the datagram yields the Ethernet header,
  the IPv4 header and the ports that were sent and a payload that starts with the bytes that were
  sent, also when the frame was padded to the Ethernet minimum.
\<close>

theorem datagram_through_stack:
  assumes u: "udp_build ubuf ucap src dst sport dport p n = (ubuf', ur)" "ur \<noteq> 0"
      "unat ucap \<le> length ubuf" "unat n \<le> length p"
    and i: "ipv4_packet_build ibuf icap (ipv4_header_init src dst 17) ubuf' ur = (ibuf', ir)"
      "ir \<noteq> 0" "unat icap \<le> length ibuf"
    and e: "ethernet_build fbuf fcap h ibuf' ir = (fbuf', fr)" "fr \<noteq> 0" "unat fcap \<le> length fbuf"
  shows "\<exists>q m hdr q' m' uh q'' m''. ethernet_parse fbuf' fr = Some (h, q, m) \<and>
    ipv4_packet_parse q m = Inr (hdr, q', m') \<and> ip_source hdr = src \<and> ip_destination hdr = dst \<and>
    udp_parse q' m' src dst = Inr (uh, q'', m'') \<and> source_port uh = sport \<and>
    destination_port uh = dport \<and> unat n \<le> unat m'' \<and> take (unat n) q'' = take (unat n) p"
proof -
  let ?h = "(h, ipv4_header_init src dst 17, sport, dport)"
  let ?ip = "stack_build ipv4_packet_build (udp_build_ports src dst) (room ubuf ucap) ucap"
  have "?ip (room ibuf icap) icap (snd ?h) p n = (ibuf', ir)"
    using u i by (simp add: stack_build_def udp_build_ports_def)
  then have b: "stack_build ethernet_build ?ip (room ibuf icap) icap fbuf fcap ?h p n = (fbuf', fr)"
    using i(2) e(1) by (simp add: stack_build_def)
  have ur: "unat ur \<le> length ubuf'"
    using udp.build_fits[of src dst ubuf ucap "(sport, dport)" p n ubuf' ur] u
    by (simp add: udp_build_ports_def)
  have "unat ir \<le> length ibuf'" using ip.build_fits[OF i ur] i(3) by linarith
  then have fr: "unat fr \<le> 1514"
    using ethernet_built(1,2)[OF e] by (simp add: frame_size_def)
  obtain q m where "stack_parse ethernet_parse (stack_parse ipv4_parse_ok (udp_parse_ok src dst))
      fbuf' fr = Some ((h, ipv4_received (ipv4_header_init src dst 17) (8 + unat n), sport, dport), q, m)"
      "unat n \<le> unat m" "take (unat n) q = take (unat n) p"
    using eth_ip_udp.stacked.parse_built[OF b e(2) _ e(3) u(4) fr] ipv4_header_init_sendable by auto
  then show ?thesis
    by (fastforce dest!: stack_parse_SomeD
        simp: parse_ok_iff udp_parse_ok_def ipv4_received_def ipv4_header_init_def
        split: sum.splits)
qed

theorem datagram_through_stack_witness:
  "\<exists>fbuf' fr q m hdr q' m' uh q'' m''. ethernet_parse fbuf' fr = Some
      (\<lparr>destination = Mac 1 2 3 4 5 6, source = Mac 2 0 0 0 0 1, ether_type = 0x0800\<rparr>, q, m) \<and>
    ipv4_packet_parse q m = Inr (hdr, q', m') \<and>
    udp_parse q' m' (Ipv4 10 0 2 15) (Ipv4 10 0 2 3) = Inr (uh, q'', m'') \<and> take 2 q'' = [7, 8]"
proof -
  let ?s = "Ipv4 10 0 2 15" and ?d = "Ipv4 10 0 2 3"
  let ?h = "\<lparr>destination = Mac 1 2 3 4 5 6, source = Mac 2 0 0 0 0 1, ether_type = 0x0800\<rparr>"
  obtain u ur where u: "udp_build (replicate 16 0) 16 ?s ?d 49152 53 [7, 8] 2 = (u, ur)"
    by fastforce
  then have ur: "ur = 10" "length u = 16" by (auto simp: udp_build_eq udp_bytes_def)
  obtain i ir where i: "ipv4_packet_build (replicate 40 0) 40 (ipv4_header_init ?s ?d 17) u ur = (i, ir)"
    by fastforce
  then have ir: "ir = 30" "length i = 40" using ur by (auto simp: ipv4_packet_build_eq)
  obtain f fr where f: "ethernet_build (replicate 80 0) 80 ?h i ir = (f, fr)"
    by fastforce
  then have "fr = 60" using ir by (auto simp: ethernet_build_eq frame_size_def)
  then show ?thesis
    using datagram_through_stack[OF u _ _ _ i _ _ f] ur ir by fastforce
qed

end
