(* ===== verification/Dns.thy ===== *)
theory Dns
  imports Addr
begin

text \<open>
  The DNS client (\<open>net/dns.c\<close>): encoding a host name into labels, building a query, and reading the
  address from a response.

  A name is the list of the bytes of the C string, as in \<open>Addr\<close>.  Sizes and offsets into a message
  are words: the parser adds to them before it compares.  The loop that skips a name could run
  for ever only if an offset wrapped around; it is a \<open>partial_function\<close>, \<open>None\<close> meaning that it does
  not return, and shown to return for the sizes a datagram can have.
\<close>

section \<open>Definitions\<close>

datatype dns_error = DNS_ERR_MALFORMED | DNS_ERR_NAME | DNS_ERR_MISMATCH | DNS_ERR_NXDOMAIN
  | DNS_ERR_SERVER | DNS_ERR_NO_ANSWER

definition name_char_valid :: "u8 \<Rightarrow> bool" where
  "name_char_valid c \<longleftrightarrow> (0x61 \<le> c \<and> c \<le> 0x7A) \<or> (0x41 \<le> c \<and> c \<le> 0x5A) \<or> (0x30 \<le> c \<and> c \<le> 0x39) \<or>
     c = 0x2D \<or> c = 0x5F"

definition lower :: "u8 \<Rightarrow> u8" where
  "lower c = (if 0x41 \<le> c \<and> c \<le> 0x5A then c + (0x61 - 0x41) else c)"

text \<open>The inner \<open>while\<close> of \<open>name_encode\<close>: the label and the text from its end on, or \<open>None\<close> at an
  invalid character.\<close>

fun name_label :: "u8 list \<Rightarrow> (u8 list \<times> u8 list) option" where
  "name_label [] = Some ([], [])"
| "name_label (c # cs) =
     (if c = 0 \<or> c = 0x2E then Some ([], c # cs)
      else if \<not> name_char_valid c then None
      else case name_label cs of None \<Rightarrow> None | Some (label, rest) \<Rightarrow> Some (c # label, rest))"

lemma name_label_length: "name_label cs = Some (l, r) \<Longrightarrow> length cs = length l + length r"
  by (induction cs arbitrary: l r) (auto split: if_splits option.splits)

text \<open>The outer loop; the result is the buffer and the length, zero for failure.\<close>

function name_encode_loop :: "nat \<Rightarrow> u8 list \<Rightarrow> nat \<Rightarrow> u8 list \<Rightarrow> u8 list \<times> nat" where
  "name_encode_loop limit out len name =
     (case name_label name of
        None \<Rightarrow> (out, 0)
      | Some q \<Rightarrow>
        if length (fst q) = 0 \<or> length (fst q) > 63 then (out, 0)
        else if len + 1 + length (fst q) + 1 > limit then (out, 0)
        else let
          out = write_at out len [of_nat (length (fst q))];
          out = write_at out (len + 1) (fst q);
          len = len + (1 + length (fst q))
        in if peek (snd q) = 0 then (write_at out len [0], len + 1)
        else if peek (drop 1 (snd q)) = 0 then (write_at out len [0], len + 1)
        else name_encode_loop limit out len (drop 1 (snd q)))"
  by pat_completeness auto
termination
  by (relation "measure (\<lambda>(limit, out, len, name). length name)")
    (auto dest!: name_label_length simp flip: length_greater_0_conv)

declare name_encode_loop.simps [simp del]

definition name_encode :: "u8 list \<Rightarrow> nat \<Rightarrow> u8 list \<Rightarrow> u8 list \<times> nat" where
  "name_encode out limit name = name_encode_loop (if limit > 255 then 255 else limit) out 0 name"

text \<open>\<open>Some None\<close> is the return value \<open>-1\<close>, \<open>Some (Some off)\<close> the value 0 with the new offset.\<close>

partial_function (option) name_skip :: "u8 list \<Rightarrow> u32 \<Rightarrow> u32 \<Rightarrow> u32 option option" where
  "name_skip bytes sz offset =
     (if offset \<ge> sz then Some None
      else let len = (ucast (bytes ! unat offset) :: u32)
      in if len = 0 then Some (Some (offset + 1))
      else if len AND 0xC0 = 0xC0 then
        (if offset + 2 > sz then Some None else Some (Some (offset + 2)))
      else if len AND 0xC0 \<noteq> 0 then Some None
      else let offset = offset + (1 + len)
      in if offset > sz then Some None else name_skip bytes sz offset)"

definition dns_query_build :: "u8 list \<Rightarrow> u32 \<Rightarrow> u16 \<Rightarrow> u8 list \<Rightarrow> u8 list \<times> u32" where
  "dns_query_build bytes capacity ident name =
     (if capacity < 12 + 2 + 4 then (bytes, 0)
      else let
        (tail, name_length) = name_encode (drop 12 bytes) (unat (capacity - 12 - 4)) name;
        bytes = take 12 bytes @ tail
      in if name_length = 0 then (bytes, 0)
      else let
        bytes = write_at bytes 0 (replicate 12 0);
        bytes = be16_write bytes 0 ident;
        bytes = be16_write bytes 2 0x0100;
        bytes = be16_write bytes 4 1;
        bytes = be16_write bytes (12 + name_length) 1;
        bytes = be16_write bytes (12 + name_length + 2) 1
      in (bytes, of_nat (12 + name_length + 4)))"

text \<open>The loop over the answers; the first argument is \<open>answers - i\<close>.\<close>

fun dns_answers :: "nat \<Rightarrow> u8 list \<Rightarrow> u32 \<Rightarrow> u32 \<Rightarrow> (dns_error + ipv4_addr) option" where
  "dns_answers 0 bytes sz offset = Some (Inl DNS_ERR_NO_ANSWER)"
| "dns_answers (Suc k) bytes sz offset =
     (case name_skip bytes sz offset of
        None \<Rightarrow> None
      | Some None \<Rightarrow> Some (Inl DNS_ERR_MALFORMED)
      | Some (Some offset) \<Rightarrow>
        if offset + 10 > sz then Some (Inl DNS_ERR_MALFORMED)
        else let
          typ = be16_read (drop (unat offset) bytes);
          class_code = be16_read (drop (unat (offset + 2)) bytes);
          len = (ucast (be16_read (drop (unat (offset + 8)) bytes)) :: u32);
          offset = offset + 10
        in if offset + len > sz then Some (Inl DNS_ERR_MALFORMED)
        else if typ = 1 \<and> class_code = 1 \<and> len = 4
        then Some (Inr (ipv4_of_bytes (drop (unat offset) bytes)))
        else dns_answers k bytes sz (offset + len))"

definition dns_response_parse :: "u8 list \<Rightarrow> u32 \<Rightarrow> u16 \<Rightarrow> u8 list \<Rightarrow> (dns_error + ipv4_addr) option" where
  "dns_response_parse bytes sz ident name =
     (if sz < 12 then Some (Inl DNS_ERR_MALFORMED)
      else if be16_read bytes \<noteq> ident then Some (Inl DNS_ERR_MISMATCH)
      else let flags = be16_read (drop 2 bytes)
      in if flags AND 0x8000 = 0 \<or> flags AND 0x7800 \<noteq> 0 then Some (Inl DNS_ERR_MISMATCH)
      else if be16_read (drop 4 bytes) \<noteq> 1 then Some (Inl DNS_ERR_MALFORMED)
      else let (expected, expected_length) = name_encode (replicate 256 0) 256 name
      in if expected_length = 0 then Some (Inl DNS_ERR_NAME)
      else if 12 + of_nat expected_length + 4 > sz then Some (Inl DNS_ERR_MALFORMED)
      else if \<not> list_all (\<lambda>i. lower (bytes ! (12 + i)) = lower (expected ! i)) [0..<expected_length]
      then Some (Inl DNS_ERR_MISMATCH)
      else let offset = 12 + (of_nat expected_length :: u32)
      in if be16_read (drop (unat offset) bytes) \<noteq> 1 \<or> be16_read (drop (unat (offset + 2)) bytes) \<noteq> 1
      then Some (Inl DNS_ERR_MISMATCH)
      else if flags AND 0x000F = 3 then Some (Inl DNS_ERR_NXDOMAIN)
      else if flags AND 0x000F \<noteq> 0 then Some (Inl DNS_ERR_SERVER)
      else dns_answers (unat (be16_read (drop 6 bytes))) bytes sz (offset + 4))"


section \<open>Names\<close>

text \<open>The names the encoder means to accept: labels of 1 to 63 valid characters, joined by dots, a dot
  at the end allowed; and their wire form.\<close>

definition valid_label :: "u8 list \<Rightarrow> bool" where
  "valid_label l \<longleftrightarrow> 1 \<le> length l \<and> length l \<le> 63 \<and> list_all name_char_valid l"

fun join_labels :: "u8 list list \<Rightarrow> u8 list" where
  "join_labels [] = []"
| "join_labels [l] = l"
| "join_labels (l # ls) = l @ [0x2E] @ join_labels ls"

definition wire_labels :: "u8 list list \<Rightarrow> u8 list" where
  "wire_labels ls = concat (map (\<lambda>l. of_nat (length l) # l) ls)"

definition wire_name :: "u8 list list \<Rightarrow> u8 list" where
  "wire_name ls = wire_labels ls @ [0]"

definition name_of :: "u8 list list \<Rightarrow> bool \<Rightarrow> u8 list" where
  "name_of ls dot = join_labels ls @ (if dot then [0x2E] else [])"

lemma peek_Nil [simp]: "peek [] = 0"
  by (simp add: peek_def)

lemma name_char_valid_not_sep: "name_char_valid c \<Longrightarrow> c \<noteq> 0 \<and> c \<noteq> 0x2E"
  by (auto simp: name_char_valid_def)

lemma name_label_valid:
  "\<lbrakk>list_all name_char_valid l; rest = [] \<or> hd rest = 0x2E \<or> hd rest = 0\<rbrakk> \<Longrightarrow> name_label (l @ rest) = Some (l, rest)"
proof (induction l)
  case Nil
  then show ?case by (cases rest) auto
next
  case (Cons c l)
  then show ?case using name_char_valid_not_sep[of c] by simp
qed

lemma name_label_SomeD:
  "name_label cs = Some (l, rest) \<Longrightarrow> cs = l @ rest \<and> list_all name_char_valid l \<and> (peek rest = 0 \<or> peek rest = 0x2E)"
  by (induction cs arbitrary: l) (auto simp: peek_def split: if_splits option.splits)

lemma length_wire_name [simp]: "length (wire_name (l # ls)) = 1 + length l + length (wire_name ls)"
  by (simp add: wire_name_def wire_labels_def)

lemma name_encode_loop_valid:
  "\<lbrakk>ls \<noteq> []; \<forall>l \<in> set ls. valid_label l; len + length (wire_name ls) \<le> limit; limit \<le> length out\<rbrakk> \<Longrightarrow>
    name_encode_loop limit out len (name_of ls dot) =
      (write_at out len (wire_name ls), len + length (wire_name ls))"
proof (induction ls arbitrary: out len rule: join_labels.induct)
  case (2 l)
  have l: "valid_label l" using "2.prems"(2) by simp
  then have lab: "name_label (name_of [l] dot) = Some (l, if dot then [0x2E] else [])"
    by (simp add: name_of_def valid_label_def name_label_valid)
  have w: "write_at (write_at (write_at out len [of_nat (length l)]) (len + 1) l) (len + (1 + length l)) [0] =
      write_at out len (wire_name [l])"
    using "2.prems"(3,4) by (simp add: write_at_adjacent wire_name_def wire_labels_def)
  have "peek (if dot then [0x2E] else []) = 0 \<or> peek (drop 1 (if dot then [0x2E] else [])) = 0"
    by (simp add: peek_def)
  then show ?case
    using l "2.prems"(3) w unfolding name_encode_loop.simps[of limit out len] lab
    by (auto simp: valid_label_def Let_def wire_name_def wire_labels_def)
next
  case (3 l l' ls)
  have l: "valid_label l" "valid_label l'" using "3.prems"(2) by simp_all
  define rest where "rest = 0x2E # name_of (l' # ls) dot"
  have "name_of (l # l' # ls) dot = l @ rest" by (simp add: name_of_def rest_def)
  then have lab: "name_label (name_of (l # l' # ls) dot) = Some (l, rest)"
    using l(1) by (simp add: valid_label_def name_label_valid rest_def)
  have pk: "peek rest \<noteq> 0" "peek (drop 1 rest) \<noteq> 0"
  proof -
    show "peek rest \<noteq> 0" by (simp add: rest_def)
    obtain c cs where c: "l' = c # cs" "name_char_valid c"
      using l(2) by (cases l') (auto simp: valid_label_def)
    then have "peek (join_labels (l' # ls)) = c" by (cases ls) simp_all
    then show "peek (drop 1 rest) \<noteq> 0"
      using c name_char_valid_not_sep[of c] by (cases ls) (simp_all add: rest_def name_of_def)
  qed
  define out' where "out' = write_at (write_at out len [of_nat (length l)]) (len + 1) l"
  have out': "out' = write_at out len (of_nat (length l) # l)"
    using "3.prems"(3,4) by (simp add: out'_def write_at_adjacent)
  have "name_encode_loop limit out len (name_of (l # l' # ls) dot) =
      name_encode_loop limit out' (len + (1 + length l)) (name_of (l' # ls) dot)"
    using l(1) "3.prems"(3) pk unfolding name_encode_loop.simps[of limit out len] lab
    by (auto simp: valid_label_def Let_def out'_def rest_def)
  also have "\<dots> = (write_at out' (len + (1 + length l)) (wire_name (l' # ls)),
      len + (1 + length l) + length (wire_name (l' # ls)))"
    using "3.prems" by (intro "3.IH") (simp_all add: out')
  also have "\<dots> = (write_at out len (wire_name (l # l' # ls)), len + length (wire_name (l # l' # ls)))"
    using "3.prems"(3,4) unfolding out' by (simp add: write_at_adjacent) (simp add: wire_name_def wire_labels_def)
  finally show ?case .
qed simp

lemma name_encode_loop_bound: "snd (name_encode_loop limit out len name) \<le> limit"
proof (induction limit out len name rule: name_encode_loop.induct)
  case (1 limit out len name)
  then show ?case by (auto simp: name_encode_loop.simps[of limit out len name] Let_def split: option.split)
qed

lemma name_encode_loop_valid_only:
  "\<lbrakk>name_encode_loop limit out len name = (out', n); n \<noteq> 0; 0 \<notin> set name\<rbrakk> \<Longrightarrow>
    \<exists>ls dot. ls \<noteq> [] \<and> (\<forall>l \<in> set ls. valid_label l) \<and> name = name_of ls dot \<and> len + length (wire_name ls) \<le> limit"
proof (induction limit out len name rule: name_encode_loop.induct)
  case (1 limit out len name)
  obtain l rest where lab: "name_label name = Some (l, rest)"
    using "1.prems"(1,2) by (cases "name_label name") (auto simp: name_encode_loop.simps[of limit out len name])
  note d = name_label_SomeD[OF lab]
  have ok: "\<not> (length l = 0 \<or> length l > 63)" "\<not> len + 1 + length l + 1 > limit"
    using "1.prems"(1,2) unfolding name_encode_loop.simps[of limit out len name] lab by (auto split: if_splits)
  then have vl: "valid_label l" using d by (auto simp: valid_label_def Suc_le_eq)
  have pk: "peek xs = 0 \<longleftrightarrow> xs = []" if "set xs \<subseteq> set name" for xs
    using that "1.prems"(3) by (cases xs) (auto simp: peek_def)
  have sub: "set rest \<subseteq> set name" "set (drop 1 rest) \<subseteq> set name"
    using d set_drop_subset[of 1 rest] by auto
  show ?case
  proof (cases "rest = [] \<or> drop 1 rest = []")
    case True
    then have "name = name_of [l] (rest \<noteq> [])"
      using d pk[OF sub(1)] by (cases rest) (auto simp: name_of_def)
    then show ?thesis using vl ok(2) by (intro exI[of _ "[l]"]) (auto simp: wire_name_def wire_labels_def)
  next
    case False
    then have p: "peek rest \<noteq> 0" "peek (drop 1 rest) \<noteq> 0" using pk sub by auto
    then have r: "rest = 0x2E # drop 1 rest" using d by (cases rest) auto
    define o1 where "o1 = write_at (write_at out len [of_nat (length l)]) (len + 1) l"
    have "name_encode_loop limit o1 (len + (1 + length l)) (drop 1 rest) = (out', n)"
      using "1.prems"(1) ok p unfolding name_encode_loop.simps[of limit out len name] lab
      by (simp add: Let_def o1_def)
    from "1.IH"[OF lab, of "write_at out len [of_nat (length l)]" o1 "len + (1 + length l)"] this
    obtain ls dot where ls: "ls \<noteq> []" "\<forall>l \<in> set ls. valid_label l" "drop 1 rest = name_of ls dot"
        "len + (1 + length l) + length (wire_name ls) \<le> limit"
      using ok p "1.prems"(2,3) sub by (auto simp: o1_def)
    then have "name = name_of (l # ls) dot"
      using d r by (cases ls) (auto simp: name_of_def)
    then show ?thesis using vl ls by (intro exI[of _ "l # ls"] exI[of _ dot]) auto
  qed
qed

lemma name_encode_exact_lemma:
  assumes "0 \<notin> set name" "min limit 255 \<le> length out"
  shows "(snd (name_encode out limit name) \<noteq> 0 \<longleftrightarrow>
      (\<exists>ls dot. ls \<noteq> [] \<and> (\<forall>l \<in> set ls. valid_label l) \<and> name = name_of ls dot \<and>
        length (wire_name ls) \<le> min limit 255)) \<and>
    (\<forall>ls dot. ls \<noteq> [] \<and> (\<forall>l \<in> set ls. valid_label l) \<and> name = name_of ls dot \<and>
        length (wire_name ls) \<le> min limit 255 \<longrightarrow>
      name_encode out limit name = (write_at out 0 (wire_name ls), length (wire_name ls)))"
proof -
  define lim where "lim = (if limit > 255 then 255 else limit)"
  have lim: "lim = min limit 255" by (simp add: lim_def)
  have enc: "name_encode out limit name = (write_at out 0 (wire_name ls), length (wire_name ls))"
    if "ls \<noteq> []" "\<forall>l \<in> set ls. valid_label l" "name = name_of ls dot" "length (wire_name ls) \<le> lim" for ls dot
    using name_encode_loop_valid[OF that(1,2), of 0 lim out dot] that assms(2) lim
    by (simp add: name_encode_def lim_def[symmetric])
  moreover have "\<exists>ls dot. ls \<noteq> [] \<and> (\<forall>l \<in> set ls. valid_label l) \<and> name = name_of ls dot \<and> length (wire_name ls) \<le> lim"
    if "snd (name_encode out limit name) \<noteq> 0"
    using name_encode_loop_valid_only[of lim out 0 name] that assms(1)
    by (cases "name_encode out limit name") (auto simp: name_encode_def lim_def[symmetric])
  moreover have "0 < length (wire_name ls)" for ls by (simp add: wire_name_def)
  ultimately show ?thesis unfolding lim[symmetric] by fastforce
qed

text \<open>
  The name encoder accepts exactly the host names it means to: dot-separated labels of 1 to 63
  letters, digits, hyphens or underscores, with or without a final dot, whose wire form fits the
  limit (and the 255 bytes of the standard); and for those it writes the wire form and nothing else.
\<close>

theorem name_encode_exact:
  assumes "0 \<notin> set name" "min limit 255 \<le> length out"
  shows "(snd (name_encode out limit name) \<noteq> 0 \<longleftrightarrow>
      (\<exists>ls dot. ls \<noteq> [] \<and> (\<forall>l \<in> set ls. valid_label l) \<and> name = name_of ls dot \<and>
        length (wire_name ls) \<le> min limit 255)) \<and>
    (\<forall>ls dot. ls \<noteq> [] \<and> (\<forall>l \<in> set ls. valid_label l) \<and> name = name_of ls dot \<and>
        length (wire_name ls) \<le> min limit 255 \<longrightarrow>
      name_encode out limit name = (write_at out 0 (wire_name ls), length (wire_name ls)))"
  by (rule name_encode_exact_lemma[OF assms])

theorem name_encode_exact_witness:
  "snd (name_encode (replicate 20 0) 20 [0x61, 0x2E, 0x62]) \<noteq> 0 \<and>
   name_encode (replicate 20 0) 20 [0x61, 0x2E, 0x62] = (write_at (replicate 20 0) 0 (wire_name [[0x61], [0x62]]), 5)"
proof -
  have n: "[0x61, 0x2E, 0x62] = name_of [[0x61], [0x62]] False" "length (wire_name [[0x61::u8], [0x62]]) = 5"
    "\<forall>l \<in> set [[0x61], [0x62]]. valid_label l"
    by (simp_all add: name_of_def wire_name_def wire_labels_def valid_label_def name_char_valid_def)
  have "0 \<notin> set [0x61::u8, 0x2E, 0x62]" "min 20 255 \<le> length (replicate 20 (0::u8))" by simp_all
  from conjunct2[OF name_encode_exact[OF this], rule_format, of "[[0x61], [0x62]]" False] n
  have "name_encode (replicate 20 0) 20 [0x61, 0x2E, 0x62] = (write_at (replicate 20 0) 0 (wire_name [[0x61], [0x62]]), 5)"
    unfolding n(2) by auto
  then show ?thesis by simp
qed


section \<open>Skipping a name\<close>

text \<open>A compressed name ends in a two-byte pointer, an uncompressed one in a zero byte.\<close>

definition encoded_name :: "u8 list \<Rightarrow> bool" where
  "encoded_name b \<longleftrightarrow> (\<exists>ls. (\<forall>l \<in> set ls. 1 \<le> length l \<and> length l \<le> 63) \<and>
     (b = wire_labels ls @ [0] \<or> (\<exists>p q. b = wire_labels ls @ [p, q] \<and> p AND 0xC0 = 0xC0)))"

lemma ucast_and_C0: "(ucast (b::u8) :: u32) AND 0xC0 = ucast (b AND 0xC0)"
  by (rule bit_word_eqI) (auto simp: bit_simps dest: bit_imp_le_length)

lemma label_length_and: "n \<le> 63 \<Longrightarrow> (of_nat n :: u8) AND 0xC0 = 0"
proof -
  assume "n \<le> 63"
  then have "n \<in> set [0..<64]" by simp
  moreover have "list_all (\<lambda>n. (of_nat n :: u8) AND 0xC0 = 0) [0..<64]" by code_simp
  ultimately show ?thesis unfolding list_all_iff by blast
qed

lemma wire_labels_Cons: "wire_labels (l # ls) = of_nat (length l) # l @ wire_labels ls"
  by (simp add: wire_labels_def)

lemma name_skip_labels:
  assumes "\<forall>l \<in> set ls. 1 \<le> length l \<and> length l \<le> 63" "at bytes (unat off) (wire_labels ls)"
    and "unat off + length (wire_labels ls) \<le> unat sz"
  shows "name_skip bytes sz off = name_skip bytes sz (off + of_nat (length (wire_labels ls)))"
  using assms
proof (induction ls arbitrary: off)
  case (Cons l ls)
  define n where "n = length l"
  have n: "1 \<le> n" "n \<le> 63" using Cons.prems(1) by (simp_all add: n_def)
  have a: "bytes ! unat off = of_nat n" "at bytes (unat off + 1 + n) (wire_labels ls)"
    using Cons.prems(2) by (simp_all add: wire_labels_Cons at_Cons at_append n_def)
  have un: "unat (of_nat n :: u8) = n" using n by (simp add: unsigned_of_nat take_bit_eq_mod)
  then have un32: "unat (1 + ucast (of_nat n :: u8) :: u32) = 1 + n" using n by (simp add: unat_word_ariths)
  have le: "unat off + (1 + n) + length (wire_labels ls) \<le> unat sz"
    using Cons.prems(3) by (simp add: wire_labels_Cons n_def)
  define off' where "off' = off + (1 + ucast (of_nat n :: u8))"
  have off': "unat off' = unat off + (1 + n)"
  proof -
    have "unat sz < 4294967296" by (rule unat_u32_lt)
    then show ?thesis using le un32 unfolding off'_def by (subst unat_add_u32_small) linarith+
  qed
  have "(ucast (of_nat n :: u8) :: u32) \<noteq> 0" using un n by (metis One_nat_def not_one_le_zero unat_0 unat_ucast_u8_u32)
  moreover have "\<not> off \<ge> sz" "\<not> off' > sz" using le n off' by (simp_all add: unat_le_32 unat_less_32)
  ultimately have "name_skip bytes sz off = name_skip bytes sz off'"
    unfolding name_skip.simps[of bytes sz off] a(1) Let_def ucast_and_C0 label_length_and[OF n(2)]
    by (simp add: off'_def)
  also have "\<dots> = name_skip bytes sz (off' + of_nat (length (wire_labels ls)))"
    using Cons.prems(1) a(2) off' le by (intro Cons.IH) (simp_all add: add.assoc)
  also have "off' + of_nat (length (wire_labels ls)) = off + of_nat (length (wire_labels (l # ls)))"
  proof -
    have "(ucast (of_nat n :: u8) :: u32) = of_nat n" using un by (metis unat_ucast_u8_u32 of_nat_unat_eq)
    then show ?thesis by (simp add: off'_def wire_labels_Cons n_def[symmetric])
  qed
  finally show ?case .
qed (simp add: wire_labels_def)

lemma unat_add_of_nat_u32:
  "unat off + n \<le> unat (sz::u32) \<Longrightarrow> unat (off + of_nat n :: u32) = unat off + n"
proof -
  assume le: "unat off + n \<le> unat sz"
  have "unat sz < 4294967296" by (rule unat_u32_lt)
  then have "n < 4294967296" and lt: "unat off + n < 4294967296" using le by linarith+
  then have "unat (of_nat n :: u32) = n" by (intro unat_of_nat_u32)
  with lt show ?thesis by (subst unat_add_u32_small) simp_all
qed

lemma name_skip_encoded:
  assumes "encoded_name b" "at bytes (unat off) b" "unat off + length b \<le> unat sz"
  shows "name_skip bytes sz off = Some (Some (off + of_nat (length b)))"
proof -
  obtain ls t where ls: "\<forall>l \<in> set ls. 1 \<le> length l \<and> length l \<le> 63" "b = wire_labels ls @ t"
      "t = [0] \<or> (\<exists>p q. t = [p, q] \<and> p AND 0xC0 = 0xC0)"
    using assms(1) by (auto simp: encoded_name_def)
  define o1 where "o1 = off + of_nat (length (wire_labels ls))"
  have o1: "unat o1 = unat off + length (wire_labels ls)"
    unfolding o1_def using assms(3) ls(2) by (intro unat_add_of_nat_u32[of _ _ sz]) simp
  have at: "at bytes (unat o1) t" using assms(2) ls(2) o1 by (simp add: at_append)
  have s: "name_skip bytes sz off = name_skip bytes sz o1"
    unfolding o1_def using assms(2,3) ls by (intro name_skip_labels) (simp_all add: at_append)
  have lt: "unat o1 + length t \<le> unat sz" using assms(3) ls(2) o1 by simp
  from ls(3) show ?thesis
  proof (elim disjE exE conjE)
    assume t: "t = [0]"
    then have "\<not> o1 \<ge> sz" "bytes ! unat o1 = 0" using lt at by (simp_all add: unat_le_32 at_Cons)
    then show ?thesis unfolding s name_skip.simps[of bytes sz o1] by (simp add: Let_def o1_def ls(2) t)
  next
    fix p q assume t: "t = [p, q]" "p AND 0xC0 = 0xC0"
    then have b: "bytes ! unat o1 = p" "\<not> o1 \<ge> sz" using lt at by (simp_all add: unat_le_32 at_Cons)
    have "unat (o1 + 2) = unat o1 + 2" using unat_add_of_nat_u32[of o1 2 sz] lt t by simp
    then have "\<not> o1 + 2 > sz" using lt t by (simp add: unat_less_32)
    moreover have "(ucast p :: u32) \<noteq> 0"
    proof
      assume "(ucast p :: u32) = 0"
      then have "p = 0" by (metis ucast_u8_u32_u8 ucast_0)
      then show False using t(2) by simp
    qed
    ultimately show ?thesis
      unfolding s name_skip.simps[of bytes sz o1] using b t
      by (simp add: Let_def o1_def ls(2) ucast_and_C0 add.assoc)
  qed
qed

text \<open>For any bytes and the sizes a datagram can have, skipping returns, moves forward within the size,
  and looks only at the bytes within the size.\<close>

lemma name_skip_returns:
  assumes "unat sz \<le> 0x10000000" "take (unat sz) bytes' = take (unat sz) bytes"
  shows "\<exists>r. name_skip bytes sz off = Some r \<and> name_skip bytes' sz off = Some r \<and>
    (\<forall>off'. r = Some off' \<longrightarrow> unat off' \<le> unat sz)"
proof (induction "unat sz - unat off" arbitrary: off rule: less_induct)
  case less
  show ?case
  proof (cases "off \<ge> sz")
    case True
    then show ?thesis by (simp add: name_skip.simps)
  next
    case False
    then have lt: "unat off < unat sz" by (simp add: unat_le_32)
    then have eq: "bytes' ! unat off = bytes ! unat off" using assms(2) by (metis nth_take)
    define n where "n = (ucast (bytes ! unat off) :: u32)"
    have n: "unat n < 256" by (simp add: n_def)
    have plus: "unat (off + k) = unat off + unat k" if "unat k \<le> 256" for k
      using that lt assms(1) by (intro unat_add_u32_small) linarith
    have k: "unat (off + 1) = unat off + 1" "unat (off + 2) = unat off + 2" "unat (off + (1 + n)) = unat off + (1 + unat n)"
      using plus[of 1] plus[of 2] plus[of "1 + n"] n by (simp_all add: unat_add_u32)
    show ?thesis
    proof (cases "n = 0 \<or> n AND 0xC0 \<noteq> 0 \<or> off + (1 + n) > sz")
      case True
      then show ?thesis
        unfolding name_skip.simps[of _ sz off] eq n_def[symmetric] Let_def using False k lt
        by (auto simp: unat_less_32)
    next
      case go: False
      then have "unat n \<noteq> 0" by (simp add: unat_eq_0)
      then have "\<exists>r. name_skip bytes sz (off + (1 + n)) = Some r \<and> name_skip bytes' sz (off + (1 + n)) = Some r \<and>
          (\<forall>off'. r = Some off' \<longrightarrow> unat off' \<le> unat sz)"
        using k(3) lt by (intro less) linarith
      then show ?thesis
        unfolding name_skip.simps[of _ sz off] eq n_def[symmetric] Let_def using False go by simp
    qed
  qed
qed


section \<open>Resource records\<close>

record dns_rr =
  rr_name :: "u8 list"
  rr_type :: u16
  rr_class :: u16
  rr_ttl :: "u8 list"
  rr_data :: "u8 list"

definition rr_ok :: "dns_rr \<Rightarrow> bool" where
  "rr_ok r \<longleftrightarrow> encoded_name (rr_name r) \<and> length (rr_ttl r) = 4 \<and> length (rr_data r) \<le> 65535"

definition rr_bytes :: "dns_rr \<Rightarrow> u8 list" where
  "rr_bytes r = rr_name r @ be16_bytes (rr_type r) @ be16_bytes (rr_class r) @ rr_ttl r @
     be16_bytes (of_nat (length (rr_data r))) @ rr_data r"

text \<open>What a resolver is to answer: the first address record.\<close>

definition first_address :: "dns_rr list \<Rightarrow> dns_error + ipv4_addr" where
  "first_address rs = (case find (\<lambda>r. rr_type r = 1 \<and> rr_class r = 1 \<and> length (rr_data r) = 4) rs of
     None \<Rightarrow> Inl DNS_ERR_NO_ANSWER | Some r \<Rightarrow> Inr (ipv4_of_bytes (rr_data r)))"

lemma at_be16: "at b i (be16_bytes v) \<Longrightarrow> be16_read (drop i b) = v"
proof -
  assume a: "at b i (be16_bytes v)"
  then have "drop i b = be16_bytes v @ drop (i + 2) b"
    using at_take[OF a] append_take_drop_id[of 2 "drop i b"] by (simp add: add.commute)
  then show ?thesis by (simp add: be16_read_bytes)
qed

lemma at_ipv4: "at b i bs \<Longrightarrow> length bs = 4 \<Longrightarrow> ipv4_of_bytes (drop i b) = ipv4_of_bytes bs"
proof -
  assume a: "at b i bs" and l: "length bs = 4"
  have "drop i b = bs @ drop (i + 4) b"
    using at_take[OF a] append_take_drop_id[of 4 "drop i b"] l by (simp add: add.commute)
  then show ?thesis using l by (simp add: ipv4_of_bytes_def nth_append)
qed

lemma dns_answers_records:
  assumes "\<forall>r \<in> set rs. rr_ok r" "at bytes (unat off) (concat (map rr_bytes rs))"
    and "unat off + length (concat (map rr_bytes rs)) \<le> unat sz"
  shows "dns_answers (length rs) bytes sz off = Some (first_address rs)"
  using assms
proof (induction rs arbitrary: off)
  case (Cons r rs)
  define n d where "n = length (rr_name r)" and "d = length (rr_data r)"
  have ok: "encoded_name (rr_name r)" "length (rr_ttl r) = 4" "d \<le> 65535"
    using Cons.prems(1) by (simp_all add: rr_ok_def d_def)
  have at: "at bytes (unat off) (rr_name r)" "at bytes (unat off + n) (be16_bytes (rr_type r))"
    "at bytes (unat off + n + 2) (be16_bytes (rr_class r))"
    "at bytes (unat off + n + 8) (be16_bytes (of_nat d))" "at bytes (unat off + n + 10) (rr_data r)"
    "at bytes (unat off + n + 10 + d) (concat (map rr_bytes rs))"
    using Cons.prems(2) ok(2) by (simp_all add: at_append rr_bytes_def[of r] n_def d_def add_ac)
  have le: "unat off + (n + 10 + d + length (concat (map rr_bytes rs))) \<le> unat sz"
    using Cons.prems(3) ok(2) by (simp add: rr_bytes_def[of r] n_def d_def)
  define o1 where "o1 = off + of_nat n"
  have skip: "name_skip bytes sz off = Some (Some o1)"
    unfolding o1_def n_def using ok(1) at(1) le by (intro name_skip_encoded) (simp_all add: n_def)
  have add_k: "unat (off + of_nat k) = unat off + k" if "k \<le> n + 10 + d + length (concat (map rr_bytes rs))" for k
    using that le by (intro unat_add_of_nat_u32[of _ _ sz]) linarith
  have o: "unat o1 = unat off + n" "unat (o1 + 2) = unat off + n + 2" "unat (o1 + 8) = unat off + n + 8"
      "unat (o1 + 10) = unat off + n + 10"
    using add_k[of n] add_k[of "n + 2"] add_k[of "n + 8"] add_k[of "n + 10"] by (simp_all add: o1_def add_ac)
  have ud: "(ucast (of_nat d :: u16) :: u32) = of_nat d"
  proof -
    have "unat (of_nat d :: u16) = d" using ok(3) by (simp add: unsigned_of_nat take_bit_eq_mod)
    then show ?thesis by (metis unat_ucast_u16_u32 of_nat_unat_eq)
  qed
  have od: "unat (o1 + 10 + of_nat d) = unat off + n + 10 + d"
    using add_k[of "n + 10 + d"] by (simp add: o1_def add.assoc)
  have d4: "(of_nat d :: u32) = 4 \<longleftrightarrow> d = 4"
    using ok(3) unat_of_nat_u32[of d] word_unat_eq_iff[of "of_nat d :: u32" 4] by simp
  have "\<not> o1 + 10 > sz" "\<not> o1 + 10 + of_nat d > sz" using o od le by (simp_all add: unat_less_32)
  then have step: "dns_answers (length (r # rs)) bytes sz off =
      (if rr_type r = 1 \<and> rr_class r = 1 \<and> d = 4 then Some (Inr (ipv4_of_bytes (drop (unat off + n + 10) bytes)))
       else dns_answers (length rs) bytes sz (o1 + 10 + of_nat d))"
    using at_be16[OF at(2)] at_be16[OF at(3)] at_be16[OF at(4)] ud d4 o by (simp add: skip Let_def)
  show ?case
  proof (cases "rr_type r = 1 \<and> rr_class r = 1 \<and> d = 4")
    case True
    then show ?thesis using step at_ipv4[OF at(5)] by (simp add: first_address_def d_def)
  next
    case False
    have "dns_answers (length rs) bytes sz (o1 + 10 + of_nat d) = Some (first_address rs)"
      using Cons.prems(1) at(6) le od by (intro Cons.IH) (simp_all add: add.assoc)
    then show ?thesis unfolding step if_not_P[OF False] using False by (auto simp: first_address_def d_def)
  qed
qed (simp add: first_address_def)


section \<open>Query and response\<close>

lemma length_wire_name_pos: "0 < length (wire_name ls)"
  by (simp add: wire_name_def)

lemma dns_query_built:
  assumes "dns_query_build buf capacity ident name = (q, n)" "n \<noteq> 0" "unat capacity \<le> length buf" "0 \<notin> set name"
  obtains ls dot where "ls \<noteq> []" "\<forall>l \<in> set ls. valid_label l" "name = name_of ls dot" "length (wire_name ls) \<le> 255"
    and "unat n = 12 + length (wire_name ls) + 4" "unat n \<le> unat capacity"
    and "q = write_at buf 0 (be16_bytes ident @ be16_bytes 0x0100 @ be16_bytes 1 @ replicate 6 0 @
      wire_name ls @ be16_bytes 1 @ be16_bytes 1)"
proof -
  have cap: "18 \<le> unat capacity" using assms(1,2) by (auto simp: dns_query_build_def unat_less_32 not_less split: if_splits)
  define lim where "lim = unat (capacity - 16)"
  have lim: "lim = unat capacity - 16" using cap by (simp add: lim_def unat_sub_u32)
  obtain tail m where e: "name_encode (drop 12 buf) lim name = (tail, m)" by fastforce
  define hd where "hd = be16_bytes ident @ be16_bytes 0x0100 @ be16_bytes 1 @ replicate 6 0"
  define b1 where "b1 = be16_write (be16_write (be16_write (write_at (take 12 buf @ tail) 0 (replicate 12 0)) 0 ident) 2 0x0100) 4 1"
  have qn: "(if m = 0 then (take 12 buf @ tail, 0)
      else (be16_write (be16_write b1 (12 + m) 1) (12 + m + 2) 1, of_nat (12 + m + 4))) = (q, n)"
  proof -
    have "\<not> capacity < 12 + 2 + 4" using cap by (simp add: unat_less_32)
    then show ?thesis
      using assms(1) e unfolding dns_query_build_def Let_def b1_def by (simp add: lim_def)
  qed
  then have m: "m \<noteq> 0" using assms(2) by (auto split: if_splits)
  have room: "min lim 255 \<le> length (drop 12 buf)" using lim assms(3) by simp
  note ex = name_encode_exact_lemma[OF assms(4) room]
  obtain ls dot where ls: "ls \<noteq> []" "\<forall>l \<in> set ls. valid_label l" "name = name_of ls dot" "length (wire_name ls) \<le> min lim 255"
    using ex m e by auto
  then have tl: "tail = write_at (drop 12 buf) 0 (wire_name ls)" "m = length (wire_name ls)"
    using conjunct2[OF ex, rule_format, of ls dot] e by auto
  have "m \<le> unat capacity - 16" using ls(4) tl(2) lim by simp
  then have len: "12 + m + 4 \<le> unat capacity" using cap by linarith
  have lh: "length hd = 12" by (simp add: hd_def)
  have "b1 = hd @ tail"
    using len assms(3) unfolding b1_def hd_def
    by (simp add: be16_write_def write_at_def be16_bytes_def numeral_eq_Suc)
  also have "\<dots> = write_at buf 0 (hd @ wire_name ls)"
    using len assms(3) lh by (simp add: tl write_at_def add.commute)
  finally have b1: "b1 = write_at buf 0 (hd @ wire_name ls)" .
  have "be16_write (be16_write b1 (12 + m) 1) (12 + m + 2) 1 =
      write_at buf 0 (hd @ wire_name ls @ be16_bytes 1 @ be16_bytes 1)"
    using lh tl(2) unfolding b1 by (simp add: be16_write_def write_at_adjacent)
  then have q: "q = write_at buf 0 (hd @ wire_name ls @ be16_bytes 1 @ be16_bytes 1)" and n: "n = of_nat (12 + m + 4)"
    using qn m by simp_all
  have "unat n = 12 + m + 4" unfolding n
  proof (rule unat_of_nat_u32)
    show "12 + m + 4 < 4294967296" using len unat_u32_lt[of capacity] by linarith
  qed
  then show thesis using that[OF ls(1-3)] ls(4) q tl(2) len by (simp add: hd_def)
qed

text \<open>
  A name is resolved by an answer to its query: take the query \<open>dns_query_build\<close> made for a name,
  and any response that carries its identifier, repeats its question (up to upper and lower case),
  reports success and lists well-formed resource records, their names written out or compressed.
  Then \<open>dns_response_parse\<close> returns, with the address of the first A record, or \<open>DNS_ERR_NO_ANSWER\<close>
  when there is none.
\<close>

theorem dns_resolves:
  assumes query: "dns_query_build buf capacity ident name = (q, n)" "n \<noteq> 0" "unat capacity \<le> length buf" "0 \<notin> set name"
    and header: "at bytes 0 (be16_bytes ident @ be16_bytes flags @ be16_bytes 1 @ be16_bytes (of_nat (length rs)))"
    and flags: "flags AND 0x8000 \<noteq> 0" "flags AND 0x7800 = 0" "flags AND 0x000F = 0"
    and question: "map lower (chunk bytes 12 (unat n - 16)) = map lower (chunk q 12 (unat n - 16))"
      "at bytes (unat n - 4) (be16_bytes 1 @ be16_bytes 1)"
    and answers: "at bytes (unat n) (concat (map rr_bytes rs))" "\<forall>r \<in> set rs. rr_ok r" "length rs \<le> 65535"
      "unat n + length (concat (map rr_bytes rs)) \<le> unat sz"
  shows "dns_response_parse bytes sz ident name = Some (first_address rs)"
proof -
  from dns_query_built[OF query] obtain ls dot where ls: "ls \<noteq> []" "\<forall>l \<in> set ls. valid_label l"
      "name = name_of ls dot" "length (wire_name ls) \<le> 255"
    and n: "unat n = 12 + length (wire_name ls) + 4" "unat n \<le> unat capacity"
    and q: "q = write_at buf 0 (be16_bytes ident @ be16_bytes 0x0100 @ be16_bytes 1 @ replicate 6 0 @
      wire_name ls @ be16_bytes 1 @ be16_bytes 1)" by blast
  define m where "m = length (wire_name ls)"
  have cq: "chunk q 12 m = wire_name ls"
    using n query(3) by (simp add: q chunk_def write_at_def m_def)
  have enc: "name_encode (replicate 256 0) 256 name = (write_at (replicate 256 0) 0 (wire_name ls), m)"
    using name_encode_exact_lemma[of name 256 "replicate 256 0"] query(4) ls by (auto simp: m_def)
  have m0: "m \<noteq> 0" using length_wire_name_pos[of ls] by (simp add: m_def)
  have nm: "unat n - 16 = m" "unat n = m + 16" "unat n - 4 = m + 12" using n by (simp_all add: m_def)
  have lb: "m + 12 + 4 \<le> length bytes" using question(2) nm by (simp add: at_append at_def)
  have cmp: "list_all (\<lambda>i. lower (bytes ! (12 + i)) = lower (write_at (replicate 256 0) 0 (wire_name ls) ! i)) [0..<m]"
  proof -
    have "lower (bytes ! (12 + i)) = lower (write_at (replicate 256 0) 0 (wire_name ls) ! i)" if "i < m" for i
    proof -
      have "map lower (chunk bytes 12 m) ! i = map lower (wire_name ls) ! i"
        using question(1) unfolding nm(1) cq by simp
      moreover have "chunk bytes 12 m ! i = bytes ! (12 + i)" "i < length (chunk bytes 12 m)"
        using that lb by (simp_all add: nth_chunk)
      ultimately show ?thesis using that by (simp add: write_at_def nth_append m_def)
    qed
    then show ?thesis by (simp add: list_all_iff)
  qed
  have um: "unat (12 + of_nat m :: u32) = m + 12" "unat (12 + of_nat m + 4 :: u32) = m + 16"
      "unat (12 + of_nat m + 2 :: u32) = m + 14"
    using ls(4) by (simp_all add: unat_word_ariths unsigned_of_nat take_bit_eq_mod m_def)
  have qs: "be16_read (drop (m + 12) bytes) = 1" "be16_read (drop (m + 14) bytes) = 1"
    using question(2) at_be16[of bytes "m + 12" 1] at_be16[of bytes "m + 14" 1] nm by (simp_all add: at_append add.commute)
  have hdr: "be16_read bytes = ident" "be16_read (drop 2 bytes) = flags" "be16_read (drop 4 bytes) = 1"
      "be16_read (drop 6 bytes) = of_nat (length rs)"
    using header at_be16[of bytes 0] at_be16[of bytes 2] at_be16[of bytes 4] at_be16[of bytes 6]
    by (simp_all add: at_append numeral_eq_Suc)
  have cnt: "unat (of_nat (length rs) :: u16) = length rs"
    using answers(3) by (simp add: unsigned_of_nat take_bit_eq_mod)
  have szs: "\<not> sz < 12" "\<not> 12 + of_nat m + 4 > sz" using answers(4) um nm by (simp_all add: unat_less_32)
  have "dns_answers (length rs) bytes sz (12 + of_nat m + 4) = Some (first_address rs)"
    using answers um nm by (intro dns_answers_records) simp_all
  then show ?thesis
    unfolding dns_response_parse_def Let_def hdr enc prod.case um qs cnt
      if_not_P[OF szs(1)] if_not_P[OF szs(2)] if_not_P[OF m0]
    using flags cmp by simp
qed

theorem dns_resolves_witness:
  "dns_response_parse ([0x12, 0x34, 0x81, 0x80, 0, 1, 0, 1, 0, 0, 0, 0, 1, 0x41, 0, 0, 1, 0, 1,
       0xC0, 12, 0, 1, 0, 1, 0, 0, 0, 60, 0, 4, 10, 0, 0, 7]) 35 0x1234 [0x61] = Some (Inr (Ipv4 10 0 0 7))"
proof -
  define bytes :: "u8 list" where "bytes = [0x12, 0x34, 0x81, 0x80, 0, 1, 0, 1, 0, 0, 0, 0, 1, 0x41, 0, 0, 1, 0, 1,
       0xC0, 12, 0, 1, 0, 1, 0, 0, 0, 60, 0, 4, 10, 0, 0, 7]"
  define r where "r = \<lparr>rr_name = [0xC0, 12], rr_type = 1, rr_class = 1, rr_ttl = [0, 0, 0, 60], rr_data = [10, 0, 0, 7]\<rparr>"
  have q: "dns_query_build (replicate 19 0) 19 0x1234 [0x61] =
      ([0x12, 0x34, 1, 0, 0, 1, 0, 0, 0, 0, 0, 0, 1, 0x61, 0, 0, 1, 0, 1], 19)" by code_simp
  have a: "at bytes 0 (be16_bytes 0x1234 @ be16_bytes 0x8180 @ be16_bytes 1 @ be16_bytes (of_nat (length [r])))"
    "at bytes 15 (be16_bytes 1 @ be16_bytes 1)" "at bytes 19 (concat (map rr_bytes [r]))"
    unfolding bytes_def r_def by code_simp+
  have l: "map lower (chunk bytes 12 3) =
      map lower (chunk [0x12, 0x34, 1, 0, 0, 1, 0, 0, 0, 0, 0, 0, 1, 0x61, 0, 0, 1, 0, 1] 12 3)"
    unfolding bytes_def by code_simp
  have "encoded_name [0xC0, 12]"
    unfolding encoded_name_def wire_labels_def by (rule exI[of _ "[]"]) simp
  then have r: "\<forall>r \<in> set [r]. rr_ok r" by (simp add: r_def rr_ok_def)
  have "first_address [r] = Inr (Ipv4 10 0 0 7)" unfolding r_def by code_simp
  moreover have "dns_response_parse bytes 35 0x1234 [0x61] = Some (first_address [r])"
    by (rule dns_resolves[OF q _ _ _ a(1)]) (use a l r in \<open>simp_all add: rr_bytes_def r_def\<close>)
  ultimately show ?thesis by (simp add: bytes_def)
qed


section \<open>Any response\<close>

lemma drop_nth_cong: "\<lbrakk>take n b' = take n b; i + j < n\<rbrakk> \<Longrightarrow> drop i b' ! j = drop i b ! j"
proof -
  assume t: "take n b' = take n b" "i + j < n"
  have "drop i x ! j = drop i (take n x) ! j" for x :: "'a list" using t(2) by (simp add: drop_take)
  then show ?thesis using t(1) by metis
qed

lemma be16_read_cong: "\<lbrakk>take n bytes' = take n bytes; i + 2 \<le> n\<rbrakk> \<Longrightarrow> be16_read (drop i bytes') = be16_read (drop i bytes)"
  using drop_nth_cong[of n bytes' bytes i 0] drop_nth_cong[of n bytes' bytes i 1] by (simp add: be16_read_def)

lemma dns_answers_safe:
  assumes t: "take (unat sz) bytes' = take (unat sz) bytes" and sz: "unat sz \<le> 0x10000000" and o: "unat off \<le> unat sz"
  shows "\<exists>r. dns_answers k bytes sz off = Some r \<and> dns_answers k bytes' sz off = Some r"
  using o
proof (induction k arbitrary: off)
  case (Suc k)
  obtain r where r: "name_skip bytes sz off = Some r" "name_skip bytes' sz off = Some r"
      "\<And>off'. r = Some off' \<Longrightarrow> unat off' \<le> unat sz"
    using name_skip_returns[OF sz t, of off] by blast
  show ?case
  proof (cases r)
    case (Some o1)
    have add: "unat (o1 + c) = unat o1 + unat c" if "unat c \<le> 0x10000000" for c
      using that r(3)[OF Some] sz by (intro unat_add_u32_small) linarith
    have k: "unat (o1 + 2) = unat o1 + 2" "unat (o1 + 8) = unat o1 + 8" "unat (o1 + 10) = unat o1 + 10"
      using add[of 2] add[of 8] add[of 10] by simp_all
    show ?thesis
    proof (cases "o1 + 10 > sz")
      case True
      then show ?thesis using r Some by simp
    next
      case fit: False
      then have le: "unat o1 + 10 \<le> unat sz" using k by (simp add: unat_less_32)
      have eqs: "be16_read (drop (unat o1) bytes') = be16_read (drop (unat o1) bytes)"
        "be16_read (drop (unat (o1 + 2)) bytes') = be16_read (drop (unat (o1 + 2)) bytes)"
        "be16_read (drop (unat (o1 + 8)) bytes') = be16_read (drop (unat (o1 + 8)) bytes)"
        using be16_read_cong[OF t] le k by simp_all
      define n where "n = (ucast (be16_read (drop (unat (o1 + 8)) bytes)) :: u32)"
      have n: "unat (o1 + 10 + n) = unat o1 + 10 + unat n"
      proof -
        have "unat n < 65536" unfolding n_def unat_ucast_u16_u32 by (rule unat_u16_lt)
        then have "unat (10 + n) = 10 + unat n" "unat (10 + n) \<le> 0x10000000"
          using unat_add_u32_small[of 10 n] by simp_all
        then show ?thesis using add[of "10 + n"] by (simp add: add.assoc)
      qed
      show ?thesis
      proof (cases "o1 + 10 + n > sz")
        case True
        then show ?thesis using r Some fit by (simp add: Let_def eqs n_def)
      next
        case False
        then have nl: "unat (o1 + 10 + n) \<le> unat sz" by (simp add: unat_less_32)
        have "ipv4_of_bytes (drop (unat (o1 + 10)) bytes') = ipv4_of_bytes (drop (unat (o1 + 10)) bytes)" if "n = 4"
        proof -
          have "unat (o1 + 10) + 4 \<le> unat sz" using nl n k(3) that by simp
          then show ?thesis using drop_nth_cong[OF t, of "unat (o1 + 10)"] by (simp add: ipv4_of_bytes_def)
        qed
        then show ?thesis using Suc.IH[OF nl] r Some fit False by (simp add: Let_def eqs n_def[symmetric])
      qed
    qed
  qed (use r in simp)
qed simp

lemma dns_response_returns:
  assumes "unat sz \<le> 0x10000000" "take (unat sz) bytes' = take (unat sz) bytes"
  shows "\<exists>r. dns_response_parse bytes sz ident name = Some r \<and> dns_response_parse bytes' sz ident name = Some r"
proof (cases "sz < 12")
  case False
  then have s12: "12 \<le> unat sz" by (simp add: unat_less_32)
  obtain e m where e: "name_encode (replicate 256 0) 256 name = (e, m)" by fastforce
  note c = be16_read_cong[OF assms(2)]
  have hdr: "be16_read bytes' = be16_read bytes" "be16_read (drop 2 bytes') = be16_read (drop 2 bytes)"
      "be16_read (drop 4 bytes') = be16_read (drop 4 bytes)" "be16_read (drop 6 bytes') = be16_read (drop 6 bytes)"
    using c[of 0] c[of 2] c[of 4] c[of 6] s12 by simp_all
  show ?thesis
  proof (cases "12 + of_nat m + 4 > sz \<or> m = 0")
    case True
    then show ?thesis unfolding dns_response_parse_def Let_def hdr e using False by auto
  next
    case fit: False
    have "m \<le> 255"
      using name_encode_loop_bound[of 255 "replicate 256 0" 0 name] e by (simp add: name_encode_def)
    then have um: "unat (12 + of_nat m :: u32) = 12 + m" "unat (12 + of_nat m + 4 :: u32) = 16 + m"
        "unat (12 + of_nat m + 2 :: u32) = 14 + m"
      by (simp_all add: unat_word_ariths unsigned_of_nat take_bit_eq_mod)
    then have le: "16 + m \<le> unat sz" using fit by (simp add: unat_less_32)
    have q: "be16_read (drop (12 + m) bytes') = be16_read (drop (12 + m) bytes)"
        "be16_read (drop (14 + m) bytes') = be16_read (drop (14 + m) bytes)"
      using c[of "12 + m"] c[of "14 + m"] le by simp_all
    have n: "list_all (\<lambda>i. lower (bytes' ! (12 + i)) = lower (e ! i)) [0..<m] =
        list_all (\<lambda>i. lower (bytes ! (12 + i)) = lower (e ! i)) [0..<m]"
      unfolding list_all_iff using drop_nth_cong[OF assms(2), of 0] le by auto
    obtain r where "dns_answers (unat (be16_read (drop 6 bytes))) bytes sz (12 + of_nat m + 4) = Some r"
        "dns_answers (unat (be16_read (drop 6 bytes))) bytes' sz (12 + of_nat m + 4) = Some r"
      using dns_answers_safe[OF assms(2,1), of "12 + of_nat m + 4"] um le by fastforce
    then show ?thesis
      unfolding dns_response_parse_def Let_def hdr e prod.case um q n by auto
  qed
qed (simp add: dns_response_parse_def)

text \<open>
  Whatever bytes arrive, the response parser returns, and it depends on no byte past the size of
  the message: this covers truncated names and records, compression pointers and lengths that
  point past the end.
\<close>

theorem dns_parse_safe:
  assumes "unat sz \<le> 0x10000000" "take (unat sz) bytes' = take (unat sz) bytes"
  shows "\<exists>r. dns_response_parse bytes sz ident name = Some r \<and> dns_response_parse bytes' sz ident name = Some r"
  by (rule dns_response_returns[OF assms])

theorem dns_parse_safe_witness:
  "\<exists>r. dns_response_parse [0x12, 0x34, 0x81] 2 0x1234 [0x61] = Some r \<and>
    dns_response_parse [0x12, 0x34] 2 0x1234 [0x61] = Some r"
  by (rule dns_parse_safe) simp_all

end
