(* ===== verification/Pci.thy ===== *)
theory Pci
  imports Prelude
begin

text \<open>
  PCI configuration space, \<open>drivers/pci.c\<close>.

  The address port selects a register and the data port reads or writes it; the configuration space
  is the function from the 32-bit address written to the address port to the register's value.
\<close>

section \<open>Definitions\<close>

record pci_device =
  pci_bus :: u8
  pci_slot :: u8
  pci_func :: u8

type_synonym config_space = "u32 \<Rightarrow> u32"

abbreviation PCI_REG_ID :: u8 where "PCI_REG_ID \<equiv> 0x00"
abbreviation PCI_REG_COMMAND :: u8 where "PCI_REG_COMMAND \<equiv> 0x04"
abbreviation PCI_REG_CLASS :: u8 where "PCI_REG_CLASS \<equiv> 0x08"
abbreviation PCI_REG_HEADER :: u8 where "PCI_REG_HEADER \<equiv> 0x0C"
abbreviation PCI_REG_BAR0 :: u8 where "PCI_REG_BAR0 \<equiv> 0x10"
abbreviation PCI_REG_BAR1 :: u8 where "PCI_REG_BAR1 \<equiv> 0x14"

definition make_address :: "pci_device \<Rightarrow> u8 \<Rightarrow> u32" where
  "make_address dev offset =
     0x80000000 OR push_bit 16 (ucast (pci_bus dev)) OR push_bit 11 (ucast (pci_slot dev)) OR
     push_bit 8 (ucast (pci_func dev)) OR ucast (offset AND 0xFC)"

definition pci_read32 :: "pci_device \<Rightarrow> u8 \<Rightarrow> config_space \<Rightarrow> u32" where
  "pci_read32 dev offset cs = cs (make_address dev offset)"

definition pci_write32 :: "pci_device \<Rightarrow> u8 \<Rightarrow> u32 \<Rightarrow> config_space \<Rightarrow> config_space" where
  "pci_write32 dev offset v cs = cs(make_address dev offset := v)"

definition match_class :: "u32 list \<Rightarrow> config_space \<Rightarrow> pci_device \<Rightarrow> bool" where
  "match_class key cs dev =
     (let reg = pci_read32 dev PCI_REG_CLASS cs
      in ucast (ucast (drop_bit 24 reg) :: u8) = key ! 0 \<and> ucast (ucast (drop_bit 16 reg) :: u8) = key ! 1 \<and>
         ucast (ucast (drop_bit 8 reg) :: u8) = key ! 2)"

definition match_id :: "u32 list \<Rightarrow> config_space \<Rightarrow> pci_device \<Rightarrow> bool" where
  "match_id key cs dev =
     (let reg = pci_read32 dev PCI_REG_ID cs in reg AND 0xFFFF = key ! 0 \<and> drop_bit 16 reg = key ! 1)"

definition device_at :: "nat \<Rightarrow> nat \<Rightarrow> nat \<Rightarrow> pci_device" where
  "device_at bus slot func = \<lparr>pci_bus = of_nat bus, pci_slot = of_nat slot, pci_func = of_nat func\<rparr>"

definition absent :: "config_space \<Rightarrow> pci_device \<Rightarrow> bool" where
  "absent cs dev \<longleftrightarrow> pci_read32 dev PCI_REG_ID cs AND 0xFFFF = 0xFFFF"

text \<open>The three nested loops, innermost first; the first argument counts the rounds left.\<close>

primrec scan_functions :: "nat \<Rightarrow> (pci_device \<Rightarrow> bool) \<Rightarrow> config_space \<Rightarrow> nat \<Rightarrow> nat \<Rightarrow> nat \<Rightarrow> pci_device option" where
  "scan_functions 0 match cs bus slot func = None"
| "scan_functions (Suc k) match cs bus slot func =
     (let dev = device_at bus slot func
      in if absent cs dev then scan_functions k match cs bus slot (func + 1)
      else if match dev then Some dev
      else scan_functions k match cs bus slot (func + 1))"

definition functions_of :: "config_space \<Rightarrow> pci_device \<Rightarrow> nat" where
  "functions_of cs dev = (if drop_bit 16 (pci_read32 dev PCI_REG_HEADER cs) AND 0x80 \<noteq> 0 then 8 else 1)"

primrec scan_slots :: "nat \<Rightarrow> (pci_device \<Rightarrow> bool) \<Rightarrow> config_space \<Rightarrow> nat \<Rightarrow> nat \<Rightarrow> pci_device option" where
  "scan_slots 0 match cs bus slot = None"
| "scan_slots (Suc k) match cs bus slot =
     (let dev = device_at bus slot 0
      in if absent cs dev then scan_slots k match cs bus (slot + 1)
      else case scan_functions (functions_of cs dev) match cs bus slot 0 of
        Some dev \<Rightarrow> Some dev
      | None \<Rightarrow> scan_slots k match cs bus (slot + 1))"

primrec scan_buses :: "nat \<Rightarrow> (pci_device \<Rightarrow> bool) \<Rightarrow> config_space \<Rightarrow> nat \<Rightarrow> pci_device option" where
  "scan_buses 0 match cs bus = None"
| "scan_buses (Suc k) match cs bus =
     (case scan_slots 32 match cs bus 0 of Some dev \<Rightarrow> Some dev | None \<Rightarrow> scan_buses k match cs (bus + 1))"

definition scan :: "(pci_device \<Rightarrow> bool) \<Rightarrow> config_space \<Rightarrow> pci_device option" where
  "scan match cs = scan_buses 256 match cs 0"

definition pci_find_class :: "u8 \<Rightarrow> u8 \<Rightarrow> u8 \<Rightarrow> config_space \<Rightarrow> pci_device option" where
  "pci_find_class class_code subclass prog_if cs =
     scan (match_class [ucast class_code, ucast subclass, ucast prog_if] cs) cs"

definition pci_find_device :: "u16 \<Rightarrow> u16 \<Rightarrow> config_space \<Rightarrow> pci_device option" where
  "pci_find_device vendor device cs = scan (match_id [ucast vendor, ucast device] cs) cs"

definition pci_enable :: "pci_device \<Rightarrow> u32 \<Rightarrow> config_space \<Rightarrow> config_space" where
  "pci_enable dev bits cs =
     (let command = pci_read32 dev PCI_REG_COMMAND cs AND 0xFFFF
      in pci_write32 dev PCI_REG_COMMAND (command OR bits) cs)"


section \<open>The scan\<close>

text \<open>
  The functions the scan looks at: those of every slot whose function 0 answers, one or eight of them
  as its header says.
\<close>

definition scanned :: "config_space \<Rightarrow> pci_device \<Rightarrow> bool" where
  "scanned cs dev \<longleftrightarrow> (\<exists>bus < 256. \<exists>slot < 32. \<exists>func. dev = device_at bus slot func \<and>
     \<not> absent cs (device_at bus slot 0) \<and> func < functions_of cs (device_at bus slot 0) \<and> \<not> absent cs dev)"

lemma scan_functions_Some:
  "scan_functions k match cs bus slot func = Some dev \<Longrightarrow>
    \<exists>f \<ge> func. f < func + k \<and> dev = device_at bus slot f \<and> \<not> absent cs dev \<and> match dev"
proof (induction k arbitrary: func)
  case (Suc k)
  show ?case
  proof (cases "\<not> absent cs (device_at bus slot func) \<and> match (device_at bus slot func)")
    case True
    then show ?thesis using Suc.prems by (intro exI[of _ func]) (auto simp: Let_def)
  next
    case False
    then have "scan_functions k match cs bus slot (func + 1) = Some dev" using Suc.prems by (auto simp: Let_def split: if_splits)
    from Suc.IH[OF this] obtain f where "func + 1 \<le> f" "f < func + 1 + k" "dev = device_at bus slot f"
        "\<not> absent cs dev" "match dev" by blast
    then show ?thesis by (intro exI[of _ f]) simp
  qed
qed simp

lemma scan_functions_None:
  "\<lbrakk>scan_functions k match cs bus slot func = None; func \<le> f; f < func + k; \<not> absent cs (device_at bus slot f)\<rbrakk> \<Longrightarrow>
    \<not> match (device_at bus slot f)"
proof (induction k arbitrary: func)
  case (Suc k)
  have "scan_functions k match cs bus slot (func + 1) = None" "absent cs (device_at bus slot func) \<or> \<not> match (device_at bus slot func)"
    using Suc.prems(1) by (auto simp: Let_def split: if_splits)
  then show ?case using Suc.IH[of "func + 1"] Suc.prems(2-4) by (cases "f = func") auto
qed simp

lemma scan_slots_Some:
  "scan_slots k match cs bus slot = Some dev \<Longrightarrow>
    \<exists>i f. slot \<le> i \<and> i < slot + k \<and> dev = device_at bus i f \<and> \<not> absent cs (device_at bus i 0) \<and>
      f < functions_of cs (device_at bus i 0) \<and> \<not> absent cs dev \<and> match dev"
proof (induction k arbitrary: slot)
  case (Suc k)
  show ?case
  proof (cases "absent cs (device_at bus slot 0) \<or> scan_functions (functions_of cs (device_at bus slot 0)) match cs bus slot 0 = None")
    case True
    then have "scan_slots k match cs bus (slot + 1) = Some dev" using Suc.prems by (auto simp: Let_def split: if_splits)
    from Suc.IH[OF this] obtain i f where "slot + 1 \<le> i" "i < slot + 1 + k" and r: "dev = device_at bus i f"
        "\<not> absent cs (device_at bus i 0)" "f < functions_of cs (device_at bus i 0)" "\<not> absent cs dev" "match dev" by blast
    then show ?thesis by (intro exI[of _ i] exI[of _ f]) auto
  next
    case False
    then have "scan_functions (functions_of cs (device_at bus slot 0)) match cs bus slot 0 = Some dev"
      using Suc.prems by (auto simp: Let_def split: option.splits)
    from scan_functions_Some[OF this] obtain f where "f < functions_of cs (device_at bus slot 0)"
        "dev = device_at bus slot f" "\<not> absent cs dev" "match dev" by auto
    then show ?thesis using False by (intro exI[of _ slot] exI[of _ f]) auto
  qed
qed simp

lemma scan_slots_None:
  "\<lbrakk>scan_slots k match cs bus slot = None; slot \<le> i; i < slot + k; \<not> absent cs (device_at bus i 0);
    f < functions_of cs (device_at bus i 0); \<not> absent cs (device_at bus i f)\<rbrakk> \<Longrightarrow> \<not> match (device_at bus i f)"
proof (induction k arbitrary: slot)
  case (Suc k)
  have n: "scan_slots k match cs bus (slot + 1) = None"
      "absent cs (device_at bus slot 0) \<or> scan_functions (functions_of cs (device_at bus slot 0)) match cs bus slot 0 = None"
    using Suc.prems(1) by (auto simp: Let_def split: if_splits option.splits)
  show ?case
  proof (cases "i = slot")
    case True
    then show ?thesis using n(2) Suc.prems(4-6) scan_functions_None[of _ match cs bus slot 0 f] by auto
  next
    case False
    then show ?thesis using Suc.IH[OF n(1)] Suc.prems(2-6) by auto
  qed
qed simp

lemma scan_buses_Some:
  "scan_buses k match cs bus = Some dev \<Longrightarrow>
    \<exists>b i f. bus \<le> b \<and> b < bus + k \<and> i < 32 \<and> dev = device_at b i f \<and> \<not> absent cs (device_at b i 0) \<and>
      f < functions_of cs (device_at b i 0) \<and> \<not> absent cs dev \<and> match dev"
proof (induction k arbitrary: bus)
  case (Suc k)
  show ?case
  proof (cases "scan_slots 32 match cs bus 0")
    case None
    then have "scan_buses k match cs (bus + 1) = Some dev" using Suc.prems by simp
    from Suc.IH[OF this] obtain b i f where "bus + 1 \<le> b" "b < bus + 1 + k" "i < 32" "dev = device_at b i f"
        "\<not> absent cs (device_at b i 0)" "f < functions_of cs (device_at b i 0)" "\<not> absent cs dev" "match dev" by blast
    then show ?thesis by (intro exI[of _ b] exI[of _ i] exI[of _ f]) simp
  next
    case (Some d)
    then have "scan_slots 32 match cs bus 0 = Some dev" using Suc.prems by simp
    from scan_slots_Some[OF this] obtain i f where "i < 32" "dev = device_at bus i f"
        "\<not> absent cs (device_at bus i 0)" "f < functions_of cs (device_at bus i 0)" "\<not> absent cs dev" "match dev" by auto
    then show ?thesis by (intro exI[of _ bus] exI[of _ i] exI[of _ f]) simp
  qed
qed simp

lemma scan_buses_None:
  "\<lbrakk>scan_buses k match cs bus = None; bus \<le> b; b < bus + k; i < 32; \<not> absent cs (device_at b i 0);
    f < functions_of cs (device_at b i 0); \<not> absent cs (device_at b i f)\<rbrakk> \<Longrightarrow> \<not> match (device_at b i f)"
proof (induction k arbitrary: bus)
  case (Suc k)
  have n: "scan_buses k match cs (bus + 1) = None" "scan_slots 32 match cs bus 0 = None"
    using Suc.prems(1) by (auto split: option.splits)
  show ?case
  proof (cases "b = bus")
    case True
    then show ?thesis using scan_slots_None[OF n(2), of i f] Suc.prems(4-7) by auto
  next
    case False
    then show ?thesis using Suc.IH[OF n(1)] Suc.prems(2-7) by auto
  qed
qed simp

text \<open>The scan finds a device exactly when one it looks at matches, and returns such a device.\<close>

lemma scan_spec:
  "case scan match cs of
     Some dev \<Rightarrow> scanned cs dev \<and> match dev
   | None \<Rightarrow> \<forall>dev. scanned cs dev \<longrightarrow> \<not> match dev"
proof (cases "scan match cs")
  case None
  then show ?thesis
    using scan_buses_None[of 256 match cs 0] by (auto simp: scan_def scanned_def)
next
  case (Some dev)
  then show ?thesis
    using scan_buses_Some[of 256 match cs 0 dev] by (auto simp: scan_def scanned_def)
qed

end
