(* ===== verification/Rtl8139.thy ===== *)
theory Rtl8139
  imports Addr Irq Pci
begin

text \<open>
  The network card driver (\<open>drivers/rtl8139.c\<close>): the receive ring the card fills, the queue of received
  frames, and the four transmit slots.

  The card is outside the program: the answer to the \<open>n\<close>-th read of a port is \<open>port_in n port\<close>, and
  \<open>rx_ring n\<close> is what the card has written into the receive buffer by then, so the card may write
  between any two reads of a port.  Port writes are kept in \<open>port_log\<close>, and starting a
  transmission puts the bytes of the slot on \<open>wire\<close>.  \<open>rx_wakes\<close> counts the calls of
  \<open>wait_queue_wake_all\<close>; \<open>tx_lock\<close>, which makes calls of \<open>rtl8139_send\<close> exclusive, is not part of the state.
\<close>

section \<open>The driver\<close>

datatype port_write = Outb u16 u8 | Outw u16 u16 | Outl u16 u32

record queued_frame =
  qf_size :: nat
  qf_data :: "u8 list"

record rtl8139 =
  rx_ring :: "nat \<Rightarrow> u8 list"
  tx_buffers :: "u8 list list"
  rx_queue :: "queued_frame list"
  queue_head :: nat
  queue_tail :: nat
  rx_offset :: u32
  tx_next :: nat
  io_base :: u16
  nic_active :: bool
  nic_mac :: mac_addr
  rx_ring_addr :: u32
  tx_addr :: "nat \<Rightarrow> u32"
  port_in :: "nat \<Rightarrow> u16 \<Rightarrow> u32"
  port_reads :: nat
  port_log :: "port_write list"
  wire :: "u8 list list"
  rx_wakes :: nat

datatype rtl8139_error = RTL8139_ERR_NOT_FOUND | RTL8139_ERR_BAR | RTL8139_ERR_RESET | RTL8139_ERR_IRQ

abbreviation REG_IDR0 :: u16 where "REG_IDR0 \<equiv> 0x00"
abbreviation REG_TSD0 :: u16 where "REG_TSD0 \<equiv> 0x10"
abbreviation REG_TSAD0 :: u16 where "REG_TSAD0 \<equiv> 0x20"
abbreviation REG_RBSTART :: u16 where "REG_RBSTART \<equiv> 0x30"
abbreviation REG_CR :: u16 where "REG_CR \<equiv> 0x37"
abbreviation REG_CAPR :: u16 where "REG_CAPR \<equiv> 0x38"
abbreviation REG_IMR :: u16 where "REG_IMR \<equiv> 0x3C"
abbreviation REG_ISR :: u16 where "REG_ISR \<equiv> 0x3E"
abbreviation REG_TCR :: u16 where "REG_TCR \<equiv> 0x40"
abbreviation REG_RCR :: u16 where "REG_RCR \<equiv> 0x44"
abbreviation REG_CONFIG1 :: u16 where "REG_CONFIG1 \<equiv> 0x52"

abbreviation CR_BUFE :: u8 where "CR_BUFE \<equiv> 0x01"
abbreviation CR_TE :: u8 where "CR_TE \<equiv> 0x04"
abbreviation CR_RE :: u8 where "CR_RE \<equiv> 0x08"
abbreviation CR_RST :: u8 where "CR_RST \<equiv> 0x10"
abbreviation INT_ENABLED :: u16 where "INT_ENABLED \<equiv> 0x5F"
abbreviation INT_RX_EVENTS :: u16 where "INT_RX_EVENTS \<equiv> 0x53"
abbreviation TSD_OWN :: u32 where "TSD_OWN \<equiv> 0x2000"
abbreviation RCR_VALUE :: u32 where "RCR_VALUE \<equiv> 0xE78E"
abbreviation TCR_VALUE :: u32 where "TCR_VALUE \<equiv> 0x03000700"
abbreviation RX_LENGTH_PENDING :: u16 where "RX_LENGTH_PENDING \<equiv> 0xFFF0"
abbreviation RX_FRAME_MIN :: u16 where "RX_FRAME_MIN \<equiv> 64"
abbreviation RX_FRAME_MAX :: u16 where "RX_FRAME_MAX \<equiv> 1522"
abbreviation RX_RING_SIZE :: u32 where "RX_RING_SIZE \<equiv> 8192"
abbreviation RX_BUFFER_SIZE :: nat where "RX_BUFFER_SIZE \<equiv> 9744"
abbreviation TX_SLOTS :: nat where "TX_SLOTS \<equiv> 4"
abbreviation TX_BUFFER_SIZE :: nat where "TX_BUFFER_SIZE \<equiv> 1792"
abbreviation TX_FRAME_MIN :: nat where "TX_FRAME_MIN \<equiv> 60"
abbreviation TX_FRAME_MAX :: nat where "TX_FRAME_MAX \<equiv> 1514"
abbreviation TX_WAIT_MS :: nat where "TX_WAIT_MS \<equiv> 100"
abbreviation QUEUE_SLOTS :: nat where "QUEUE_SLOTS \<equiv> 16"
abbreviation QUEUE_FRAME_SIZE :: nat where "QUEUE_FRAME_SIZE \<equiv> 1536"
abbreviation RESET_WAIT_MS :: nat where "RESET_WAIT_MS \<equiv> 100"

definition nic_in :: "u16 \<Rightarrow> rtl8139 \<Rightarrow> u32 \<times> rtl8139" where
  "nic_in port s = (port_in s (port_reads s) (io_base s + port), s\<lparr>port_reads := port_reads s + 1\<rparr>)"

definition nic_outb :: "u16 \<Rightarrow> u8 \<Rightarrow> rtl8139 \<Rightarrow> rtl8139" where
  "nic_outb port v s = s\<lparr>port_log := port_log s @ [Outb (io_base s + port) v]\<rparr>"

definition nic_outw :: "u16 \<Rightarrow> u16 \<Rightarrow> rtl8139 \<Rightarrow> rtl8139" where
  "nic_outw port v s = s\<lparr>port_log := port_log s @ [Outw (io_base s + port) v]\<rparr>"

definition nic_outl :: "u16 \<Rightarrow> u32 \<Rightarrow> rtl8139 \<Rightarrow> rtl8139" where
  "nic_outl port v s = s\<lparr>port_log := port_log s @ [Outl (io_base s + port) v]\<rparr>"

text \<open>The receive buffer as the card has left it.\<close>

definition rx_bytes :: "rtl8139 \<Rightarrow> u8 list" where
  "rx_bytes s = rx_ring s (port_reads s)"

definition ring_read16 :: "rtl8139 \<Rightarrow> nat \<Rightarrow> u16" where
  "ring_read16 s offset = ucast (rx_bytes s ! offset) OR push_bit 8 (ucast (rx_bytes s ! (offset + 1)))"

definition rx_start :: "rtl8139 \<Rightarrow> rtl8139" where
  "rx_start s =
     (let s = s\<lparr>rx_offset := 0\<rparr>;
          s = nic_outb REG_CR (CR_TE OR CR_RE) s;
          s = nic_outl REG_RCR RCR_VALUE s;
          s = nic_outl REG_TCR TCR_VALUE s;
          s = nic_outl REG_RBSTART (rx_ring_addr s) s
      in nic_outw REG_CAPR (ucast (rx_offset s - 16)) s)"

definition rx_restart :: "rtl8139 \<Rightarrow> rtl8139" where
  "rx_restart s = rx_start (nic_outb REG_CR CR_TE s)"

definition enqueue :: "nat \<Rightarrow> nat \<Rightarrow> rtl8139 \<Rightarrow> rtl8139" where
  "enqueue offset n s =
     (let nxt = (queue_head s + 1) mod QUEUE_SLOTS
      in if nxt = queue_tail s then s
         else let f = rx_queue s ! queue_head s;
                  f = f\<lparr>qf_data := write_at (qf_data f) 0 (chunk (rx_bytes s) offset n), qf_size := n\<rparr>
              in s\<lparr>rx_queue := (rx_queue s)[queue_head s := f], queue_head := nxt\<rparr>)"

definition next_offset :: "u32 \<Rightarrow> u16 \<Rightarrow> u32" where
  "next_offset offset len =
     (let r = (offset + ucast len + 4 + 3) AND NOT 3 in if r \<ge> RX_RING_SIZE then r - RX_RING_SIZE else r)"

definition drain_frame :: "u16 \<Rightarrow> rtl8139 \<Rightarrow> rtl8139" where
  "drain_frame len s =
     (let s = enqueue (unat (rx_offset s + 4)) (unat len - 4) s;
          s = s\<lparr>rx_offset := next_offset (rx_offset s) len\<rparr>
      in nic_outw REG_CAPR (ucast (rx_offset s - 16)) s)"

partial_function (option) drain :: "rtl8139 \<Rightarrow> rtl8139 option" where
  "drain s =
     (let cr = (ucast (fst (nic_in REG_CR s)) :: u8); s = snd (nic_in REG_CR s)
      in if cr AND CR_BUFE \<noteq> 0 then Some s
         else let status = ring_read16 s (unat (rx_offset s)); len = ring_read16 s (unat (rx_offset s + 2))
         in if len = RX_LENGTH_PENDING then Some s
            else if status AND 1 = 0 \<or> len < RX_FRAME_MIN \<or> len > RX_FRAME_MAX then Some (rx_restart s)
            else drain (drain_frame len s))"

definition has_frame :: "rtl8139 \<Rightarrow> bool" where
  "has_frame s \<longleftrightarrow> queue_head s \<noteq> queue_tail s"

definition interrupt_handler :: "rtl8139 \<Rightarrow> rtl8139 option" where
  "interrupt_handler s =
     (if \<not> nic_active s then Some s
      else let status = (ucast (fst (nic_in REG_ISR s)) :: u16); s = snd (nic_in REG_ISR s)
      in if status = 0 then Some s
         else let s = nic_outw REG_ISR status s
         in case (if status AND INT_RX_EVENTS \<noteq> 0 then drain s else Some s) of
              None \<Rightarrow> None
            | Some s \<Rightarrow> Some (if has_frame s then s\<lparr>rx_wakes := rx_wakes s + 1\<rparr> else s))"


section \<open>Initialisation\<close>

primrec wait_reset :: "nat \<Rightarrow> rtl8139 \<Rightarrow> bool \<times> rtl8139" where
  "wait_reset 0 s = (False, s)"
| "wait_reset (Suc k) s =
     (let cr = (ucast (fst (nic_in REG_CR s)) :: u8); s = snd (nic_in REG_CR s)
      in if cr AND CR_RST = 0 then (True, s) else wait_reset k s)"

primrec read_mac :: "nat \<Rightarrow> nat \<Rightarrow> rtl8139 \<Rightarrow> u8 list \<times> rtl8139" where
  "read_mac 0 i s = ([], s)"
| "read_mac (Suc k) i s =
     (let b = (ucast (fst (nic_in (REG_IDR0 + of_nat i) s)) :: u8);
          (bs, s) = read_mac k (i + 1) (snd (nic_in (REG_IDR0 + of_nat i) s))
      in (b # bs, s))"

record nic_platform =
  nic :: rtl8139
  config :: config_space
  irqs :: irq_state

definition rtl8139_setup :: "u32 \<Rightarrow> nat \<Rightarrow> pci_device \<Rightarrow> nic_platform \<Rightarrow> (rtl8139_error + unit) \<times> nic_platform" where
  "rtl8139_setup handler_ptr line dev p =
     (let p = p\<lparr>config := pci_enable dev 0x5 (config p)\<rparr>;
          s = nic_outb REG_CR CR_RST (nic_outb REG_CONFIG1 0 (nic p));
          (ok, s) = wait_reset RESET_WAIT_MS s
      in if \<not> ok then (Inl RTL8139_ERR_RESET, p\<lparr>nic := s\<rparr>)
         else let (bs, s) = read_mac 6 0 s;
                  s = s\<lparr>nic_mac := mac_of_bytes bs, queue_head := 0, queue_tail := 0, tx_next := 0\<rparr>;
                  s = rx_start s;
                  (r, iq) = irq_register line handler_ptr 0 (irqs p)
              in if r \<noteq> 0 then (Inl RTL8139_ERR_IRQ, p\<lparr>nic := nic_outb REG_CR 0 s, irqs := iq\<rparr>)
                 else (Inr (), p\<lparr>nic := nic_outw REG_IMR INT_ENABLED (s\<lparr>nic_active := True\<rparr>), irqs := iq\<rparr>))"

definition rtl8139_init :: "u32 \<Rightarrow> nic_platform \<Rightarrow> (rtl8139_error + unit) \<times> nic_platform" where
  "rtl8139_init handler_ptr p =
     (if nic_active (nic p) then (Inr (), p)
      else case pci_find_device 0x10EC 0x8139 (config p) of
        None \<Rightarrow> (Inl RTL8139_ERR_NOT_FOUND, p)
      | Some dev \<Rightarrow>
          let bar = pci_read32 dev PCI_REG_BAR0 (config p)
          in if bar AND 1 = 0 then (Inl RTL8139_ERR_BAR, p)
             else let line = unat (pci_read32 dev 0x3C (config p) AND 0xFF)
             in if line = 0 \<or> line \<ge> 16 then (Inl RTL8139_ERR_IRQ, p)
                else rtl8139_setup handler_ptr line dev (p\<lparr>nic := (nic p)\<lparr>io_base := ucast (bar AND NOT 3)\<rparr>\<rparr>))"

definition rtl8139_ready :: "rtl8139 \<Rightarrow> bool" where
  "rtl8139_ready s = nic_active s"

definition rtl8139_mac :: "rtl8139 \<Rightarrow> mac_addr" where
  "rtl8139_mac s = nic_mac s"


section \<open>Sending and receiving\<close>

text \<open>The wait for a free slot: the register is read up to 101 times, 1 ms apart.\<close>

primrec wait_slot :: "nat \<Rightarrow> rtl8139 \<Rightarrow> bool \<times> rtl8139" where
  "wait_slot 0 s =
     (fst (nic_in (REG_TSD0 + of_nat (tx_next s * 4)) s) AND TSD_OWN \<noteq> 0, snd (nic_in (REG_TSD0 + of_nat (tx_next s * 4)) s))"
| "wait_slot (Suc k) s =
     (let v = fst (nic_in (REG_TSD0 + of_nat (tx_next s * 4)) s); s = snd (nic_in (REG_TSD0 + of_nat (tx_next s * 4)) s)
      in if v AND TSD_OWN \<noteq> 0 then (True, s) else wait_slot k s)"

definition rtl8139_send :: "u8 list \<Rightarrow> nat \<Rightarrow> rtl8139 \<Rightarrow> int \<times> rtl8139" where
  "rtl8139_send frame n s =
     (if \<not> nic_active s \<or> n = 0 \<or> n > TX_FRAME_MAX then (-1, s)
      else let (ok, s) = wait_slot TX_WAIT_MS s
      in if \<not> ok then (-1, s)
         else let slot = tx_next s;
                  buf = write_at (tx_buffers s ! slot) 0 (take n frame);
                  buf = write_at buf n (replicate (TX_FRAME_MIN - n) 0);
                  len = max n TX_FRAME_MIN;
                  s = s\<lparr>tx_buffers := (tx_buffers s)[slot := buf]\<rparr>;
                  s = nic_outl (REG_TSAD0 + of_nat (slot * 4)) (tx_addr s slot) s;
                  s = nic_outl (REG_TSD0 + of_nat (slot * 4)) (of_nat len) s;
                  s = s\<lparr>wire := wire s @ [take len buf]\<rparr>
              in (int n, s\<lparr>tx_next := (slot + 1) mod TX_SLOTS\<rparr>))"

text \<open>The wait of the receiver: \<open>irqs\<close> interrupts of the card come before it times out.\<close>

primrec wait_frame :: "nat \<Rightarrow> rtl8139 \<Rightarrow> (bool \<times> rtl8139) option" where
  "wait_frame 0 s = Some (has_frame s, s)"
| "wait_frame (Suc k) s =
     (if has_frame s then Some (True, s)
      else case interrupt_handler s of None \<Rightarrow> None | Some s \<Rightarrow> wait_frame k s)"

definition rtl8139_take :: "u8 list \<Rightarrow> nat \<Rightarrow> rtl8139 \<Rightarrow> int \<times> u8 list \<times> rtl8139" where
  "rtl8139_take buffer capacity s =
     (let f = rx_queue s ! queue_tail s;
          n = (if qf_size f > capacity then capacity else qf_size f)
      in (int n, write_at buffer 0 (take n (qf_data f)), s\<lparr>queue_tail := (queue_tail s + 1) mod QUEUE_SLOTS\<rparr>))"

definition rtl8139_receive :: "nat \<Rightarrow> u8 list \<Rightarrow> nat \<Rightarrow> rtl8139 \<Rightarrow> (int \<times> u8 list \<times> rtl8139) option" where
  "rtl8139_receive interrupts buffer capacity s =
     (if \<not> nic_active s then Some (-1, buffer, s)
      else case wait_frame interrupts s of
        None \<Rightarrow> None
      | Some (ok, s) \<Rightarrow> Some (if ok then rtl8139_take buffer capacity s else (-1, buffer, s)))"


section \<open>The invariant\<close>

definition nic_wf :: "rtl8139 \<Rightarrow> bool" where
  "nic_wf s \<longleftrightarrow> (\<forall>n. length (rx_ring s n) = RX_BUFFER_SIZE) \<and>
     length (tx_buffers s) = TX_SLOTS \<and> (\<forall>b \<in> set (tx_buffers s). length b = TX_BUFFER_SIZE) \<and> tx_next s < TX_SLOTS \<and>
     length (rx_queue s) = QUEUE_SLOTS \<and> (\<forall>f \<in> set (rx_queue s). length (qf_data f) = QUEUE_FRAME_SIZE \<and> qf_size f \<le> 1518) \<and>
     queue_head s < QUEUE_SLOTS \<and> queue_tail s < QUEUE_SLOTS \<and> unat (rx_offset s) < 8192"

text \<open>The frames in the queue, oldest first.\<close>

definition queued :: "rtl8139 \<Rightarrow> nat" where
  "queued s = (queue_head s + QUEUE_SLOTS - queue_tail s) mod QUEUE_SLOTS"

definition slot_frame :: "rtl8139 \<Rightarrow> nat \<Rightarrow> u8 list" where
  "slot_frame s i = take (qf_size (rx_queue s ! i)) (qf_data (rx_queue s ! i))"

definition frames :: "rtl8139 \<Rightarrow> u8 list list" where
  "frames s = map (\<lambda>i. slot_frame s ((queue_tail s + i) mod QUEUE_SLOTS)) [0..<queued s]"

lemma frames_cong: "\<lbrakk>rx_queue s' = rx_queue s; queue_head s' = queue_head s; queue_tail s' = queue_tail s\<rbrakk> \<Longrightarrow> frames s' = frames s"
  by (simp add: frames_def queued_def slot_frame_def)

lemma length_frames [simp]: "length (frames s) = queued s"
  by (simp add: frames_def)

lemma queued_bounded: "nic_wf s \<Longrightarrow> queued s \<le> 15"
proof -
  have "queued s < 16" by (simp add: queued_def)
  then show "queued s \<le> 15" by simp
qed

lemma mod_16_once: "(x :: nat) < 32 \<Longrightarrow> x mod 16 = (if x < 16 then x else x - 16)"
  by (simp add: mod_if)

lemma has_frame_queued: "nic_wf s \<Longrightarrow> has_frame s \<longleftrightarrow> queued s \<noteq> 0"
  by (auto simp: nic_wf_def has_frame_def queued_def mod_16_once split: if_splits)

lemma ring_step:
  assumes "(h :: nat) < 16" "t < 16" "(h + 1) mod 16 \<noteq> t"
  shows "((h + 1) mod 16 + 16 - t) mod 16 = Suc ((h + 16 - t) mod 16)" "(t + (h + 16 - t) mod 16) mod 16 = h"
    "i < (h + 16 - t) mod 16 \<Longrightarrow> (t + i) mod 16 \<noteq> h"
  using assms by (auto simp: mod_16_once split: if_splits)

lemma ring_full: "\<lbrakk>(h :: nat) < 16; t < 16\<rbrakk> \<Longrightarrow> (h + 1) mod 16 = t \<longleftrightarrow> \<not> (h + 16 - t) mod 16 < 15"
  by (auto simp: mod_16_once split: if_splits)

lemma ring_pop: "\<lbrakk>(h :: nat) < 16; t < 16; h \<noteq> t\<rbrakk> \<Longrightarrow> Suc ((h + 16 - (t + 1) mod 16) mod 16) = (h + 16 - t) mod 16"
  by (auto simp: mod_16_once split: if_splits)

lemma enqueue_spec:
  assumes wf: "nic_wf s" and fit: "off + n \<le> RX_BUFFER_SIZE" "n \<le> 1518"
  shows "nic_wf (enqueue off n s)"
    "frames (enqueue off n s) = (if length (frames s) < 15 then frames s @ [chunk (rx_bytes s) off n] else frames s)"
proof -
  let ?h = "queue_head s" and ?t = "queue_tail s"
  have b: "?h < 16" "?t < 16" "length (rx_queue s) = 16" "length (rx_bytes s) = 9744" "length (qf_data (rx_queue s ! ?h)) = 1536"
    using wf by (auto simp: nic_wf_def rx_bytes_def)
  have "nic_wf (enqueue off n s) \<and>
    frames (enqueue off n s) = (if length (frames s) < 15 then frames s @ [chunk (rx_bytes s) off n] else frames s)"
  proof (cases "(?h + 1) mod 16 = ?t")
    case True
    then have "enqueue off n s = s" by (simp add: enqueue_def)
    moreover have "\<not> length (frames s) < 15" using ring_full[OF b(1,2)] True by (simp add: queued_def)
    ultimately show ?thesis using wf by simp
  next
    case False
    note R = ring_step[OF b(1,2) False]
    define f where "f = (rx_queue s ! ?h)\<lparr>qf_data := write_at (qf_data (rx_queue s ! ?h)) 0 (chunk (rx_bytes s) off n), qf_size := n\<rparr>"
    have e: "enqueue off n s = s\<lparr>rx_queue := (rx_queue s)[?h := f], queue_head := (?h + 1) mod 16\<rparr>"
      using False by (simp add: enqueue_def f_def Let_def)
    have c: "length (chunk (rx_bytes s) off n) = n" using fit b(4) by simp
    have f: "length (qf_data f) = 1536" "qf_size f \<le> 1518" "take (qf_size f) (qf_data f) = chunk (rx_bytes s) off n"
      using fit(2) b(5) c by (simp_all add: f_def write_at_0_take)
    have "nic_wf (enqueue off n s)"
      using wf f(1,2) unfolding e nic_wf_def by (auto dest!: set_update_subset_insert[THEN subsetD])
    moreover have "slot_frame (enqueue off n s) ((?t + i) mod 16) = slot_frame s ((?t + i) mod 16)" if "i < queued s" for i
      using R(3)[of i] that by (simp add: e slot_frame_def queued_def)
    moreover have "slot_frame (enqueue off n s) ((?t + queued s) mod 16) = chunk (rx_bytes s) off n"
      using R(2) b(1,3) f(3) by (simp add: e slot_frame_def queued_def)
    moreover have "queued (enqueue off n s) = Suc (queued s)" "queue_tail (enqueue off n s) = ?t" using R(1) by (simp_all add: e queued_def)
    ultimately show ?thesis using ring_full[OF b(1,2)] False by (simp add: frames_def queued_def[symmetric])
  qed
  then show "nic_wf (enqueue off n s)"
    "frames (enqueue off n s) = (if length (frames s) < 15 then frames s @ [chunk (rx_bytes s) off n] else frames s)" by blast+
qed

lemma take_spec:
  assumes wf: "nic_wf s" and f: "frames s = f # fs"
  shows "rtl8139_take buffer capacity s = (int (min (length f) capacity), write_at buffer 0 (take capacity f), snd (snd (rtl8139_take buffer capacity s)))"
    "frames (snd (snd (rtl8139_take buffer capacity s))) = fs" "nic_wf (snd (snd (rtl8139_take buffer capacity s)))"
proof -
  let ?h = "queue_head s" and ?t = "queue_tail s"
  have b: "?h < 16" "?t < 16" "length (rx_queue s) = 16" using wf by (auto simp: nic_wf_def)
  then have q: "length (qf_data (rx_queue s ! ?t)) = 1536" "qf_size (rx_queue s ! ?t) \<le> 1518" using wf by (auto simp: nic_wf_def)
  have n: "queued s = Suc (length fs)" using arg_cong[OF f, of length] by simp
  then have "frames s = slot_frame s (?t mod 16) # map (\<lambda>i. slot_frame s ((?t + Suc i) mod 16)) [0..<length fs]"
    unfolding frames_def by (simp add: upt_conv_Cons map_Suc_upt[symmetric] del: upt_Suc map_Suc_upt)
  then have ff: "f = slot_frame s ?t" "fs = map (\<lambda>i. slot_frame s ((?t + Suc i) mod 16)) [0..<length fs]" using f b(2) by simp_all
  have lf: "length f = qf_size (rx_queue s ! ?t)" using q by (simp add: ff(1) slot_frame_def)
  let ?s = "snd (snd (rtl8139_take buffer capacity s))"
  have s: "?s = s\<lparr>queue_tail := (?t + 1) mod 16\<rparr>" by (simp add: rtl8139_take_def Let_def)
  have "?h \<noteq> ?t" using n b by (auto simp: queued_def)
  then have "queued ?s = length fs" using ring_pop[OF b(1,2)] n by (simp add: s queued_def)
  moreover have "slot_frame ?s (((?t + 1) mod 16 + i) mod 16) = slot_frame s ((?t + Suc i) mod 16)" for i
    by (simp add: s slot_frame_def mod_add_left_eq)
  ultimately show "frames ?s = fs" using ff(2) by (simp add: frames_def s)
  show "nic_wf ?s" using wf by (simp add: s nic_wf_def)
  show "rtl8139_take buffer capacity s = (int (min (length f) capacity), write_at buffer 0 (take capacity f), ?s)"
    unfolding lf by (simp add: rtl8139_take_def Let_def ff(1) slot_frame_def min_def)
qed


section \<open>Draining the ring\<close>

lemma next_offset_bound:
  assumes "unat offset < 8192" "len \<le> RX_FRAME_MAX"
  shows "unat (next_offset offset len) < 8192"
proof -
  have l: "unat len \<le> 1522" using assms(2) by (simp add: word_le_nat_alt)
  define x where "x = offset + ucast len + 4 + 3"
  have x: "unat x = unat offset + unat len + 7"
    using assms(1) l by (simp add: x_def unat_word_ariths)
  have "unat (x AND NOT 3) \<le> unat x" by (simp add: word_and_le2 flip: word_le_nat_alt)
  then have "unat (x AND NOT 3) \<le> 9721" using x assms(1) l by linarith
  moreover have "next_offset offset len = (if 8192 \<le> x AND NOT 3 then (x AND NOT 3) - 8192 else x AND NOT 3)"
    by (simp add: next_offset_def x_def Let_def)
  ultimately show ?thesis by (auto simp: word_le_nat_alt unat_sub_u32)
qed

text \<open>The parts of the state the receive side never touches.\<close>

definition rx_only :: "rtl8139 \<Rightarrow> rtl8139 \<Rightarrow> bool" where
  "rx_only s s' \<longleftrightarrow> tx_buffers s' = tx_buffers s \<and> tx_next s' = tx_next s \<and> wire s' = wire s \<and> nic_active s' = nic_active s \<and>
     nic_mac s' = nic_mac s \<and> io_base s' = io_base s \<and> queue_tail s' = queue_tail s \<and> port_in s' = port_in s \<and> rx_ring s' = rx_ring s"

lemma rx_only_refl [simp]: "rx_only s s"
  by (simp add: rx_only_def)

lemma rx_only_trans: "rx_only s s1 \<Longrightarrow> rx_only s1 s2 \<Longrightarrow> rx_only s s2"
  by (simp add: rx_only_def)

lemmas port_defs = nic_in_def nic_outb_def nic_outw_def nic_outl_def

lemma enqueue_other: "rx_only s (enqueue off n s)" "rx_offset (enqueue off n s) = rx_offset s" "port_reads (enqueue off n s) = port_reads s"
  by (simp_all add: enqueue_def rx_only_def Let_def)

lemma nic_in_other: "rx_only s (snd (nic_in p s))" "frames (snd (nic_in p s)) = frames s" "nic_wf s \<Longrightarrow> nic_wf (snd (nic_in p s))"
    "rx_offset (snd (nic_in p s)) = rx_offset s"
  by (simp_all add: nic_in_def rx_only_def nic_wf_def frames_def queued_def slot_frame_def)

lemma rx_restart_spec: "rx_only s (rx_restart s)" "frames (rx_restart s) = frames s" "nic_wf s \<Longrightarrow> nic_wf (rx_restart s)"
  by (simp_all add: rx_restart_def rx_start_def port_defs Let_def rx_only_def nic_wf_def frames_def queued_def slot_frame_def)

lemma drain_frame_spec:
  assumes wf: "nic_wf s" and len: "RX_FRAME_MIN \<le> len" "len \<le> RX_FRAME_MAX"
  shows "nic_wf (drain_frame len s)" "rx_only s (drain_frame len s)" "rx_offset (drain_frame len s) = next_offset (rx_offset s) len"
    "frames (drain_frame len s) =
      (if length (frames s) < 15 then frames s @ [chunk (rx_bytes s) (unat (rx_offset s) + 4) (unat len - 4)] else frames s)"
    "port_reads (drain_frame len s) = port_reads s" "unat (rx_offset s) + 4 + (unat len - 4) \<le> RX_BUFFER_SIZE"
proof -
  have l: "64 \<le> unat len" "unat len \<le> 1522" using len by (simp_all add: word_le_nat_alt)
  have o: "unat (rx_offset s) < 8192" using wf by (simp add: nic_wf_def)
  then have u: "unat (rx_offset s + 4) = unat (rx_offset s) + 4" by (simp add: unat_word_ariths)
  show fit: "unat (rx_offset s) + 4 + (unat len - 4) \<le> RX_BUFFER_SIZE" using l o by simp
  let ?e = "enqueue (unat (rx_offset s + 4)) (unat len - 4) s"
  have E: "nic_wf ?e" "frames ?e = (if length (frames s) < 15 then frames s @ [chunk (rx_bytes s) (unat (rx_offset s) + 4) (unat len - 4)] else frames s)"
    using enqueue_spec[OF wf, of "unat (rx_offset s + 4)" "unat len - 4"] fit l u by simp_all
  have d: "drain_frame len s = ?e\<lparr>rx_offset := next_offset (rx_offset s) len,
      port_log := port_log ?e @ [Outw (io_base ?e + REG_CAPR) (ucast (next_offset (rx_offset s) len - 16))]\<rparr>"
    by (simp add: drain_frame_def Let_def nic_outw_def enqueue_other)
  show "nic_wf (drain_frame len s)" using E(1) next_offset_bound[OF o len(2)] unfolding d by (simp add: nic_wf_def)
  show "rx_only s (drain_frame len s)" using enqueue_other(1) unfolding d by (simp add: rx_only_def)
  show "rx_offset (drain_frame len s) = next_offset (rx_offset s) len" by (simp add: d)
  have "frames (drain_frame len s) = frames ?e" by (rule frames_cong) (simp_all add: d)
  then show "frames (drain_frame len s) =
      (if length (frames s) < 15 then frames s @ [chunk (rx_bytes s) (unat (rx_offset s) + 4) (unat len - 4)] else frames s)" using E(2) by simp
  show "port_reads (drain_frame len s) = port_reads s" using enqueue_other(3) by (simp add: d)
qed

lemma rx_wakes_kept [simp]: "rx_wakes (snd (nic_in p s)) = rx_wakes s" "rx_wakes (rx_restart s) = rx_wakes s" "rx_wakes (drain_frame len s) = rx_wakes s"
  by (simp_all add: port_defs rx_restart_def rx_start_def drain_frame_def enqueue_def Let_def)

text \<open>
  One turn of the loop, as the code after the test of the command register: it leaves, restarts the receiver,
  or takes a frame and goes on.
\<close>

lemma drain_cases:
  assumes "drain s = r"
  obtains (leave) "r = Some (snd (nic_in REG_CR s))"
  | (restart) "r = Some (rx_restart (snd (nic_in REG_CR s)))"
  | (frame) len where "len = ring_read16 (snd (nic_in REG_CR s)) (unat (rx_offset s + 2))" "RX_FRAME_MIN \<le> len" "len \<le> RX_FRAME_MAX"
      "(ucast (fst (nic_in REG_CR s)) :: u8) AND CR_BUFE = 0"
      "r = drain (drain_frame len (snd (nic_in REG_CR s)))"
  using assms by (subst (asm) drain.simps) (auto simp: Let_def nic_in_other not_less split: if_splits)

lemmas drain_induct = drain.raw_induct[rotated, consumes 1, case_names turn]

lemma drain_keeps:
  assumes "drain s = Some s'" "nic_wf s"
  shows "nic_wf s' \<and> rx_only s s' \<and> rx_wakes s' = rx_wakes s \<and>
    (\<exists>fs. frames s' = frames s @ fs \<and> (\<forall>f \<in> set fs. 60 \<le> length f \<and> length f \<le> 1518))"
  using assms
proof (induction s s' rule: drain_induct)
  case (turn drain' s s')
  let ?s = "snd (nic_in REG_CR s)" and ?len = "ring_read16 (snd (nic_in REG_CR s)) (unat (rx_offset s + 2))"
  note N = nic_in_other[where p = REG_CR and s = s]
  have wf: "nic_wf ?s" using N(3) turn.prems by blast
  consider (same) "s' = ?s" | (restart) "s' = rx_restart ?s"
    | (frame) "RX_FRAME_MIN \<le> ?len" "?len \<le> RX_FRAME_MAX" "drain' (drain_frame ?len ?s) = Some s'"
    using turn.hyps by (auto simp: Let_def N not_less split: if_splits)
  then show ?case
  proof cases
    case same
    then show ?thesis using N wf by simp
  next
    case restart
    then show ?thesis using N rx_restart_spec[of ?s] wf rx_only_trans[OF N(1)] by simp
  next
    case frame
    note F = drain_frame_spec[OF wf frame(1,2)]
    have I: "nic_wf s' \<and> rx_only (drain_frame ?len ?s) s' \<and> rx_wakes s' = rx_wakes (drain_frame ?len ?s) \<and>
        (\<exists>fs. frames s' = frames (drain_frame ?len ?s) @ fs \<and> (\<forall>f \<in> set fs. 60 \<le> length f \<and> length f \<le> 1518))"
      using turn.IH[OF frame(3) F(1)] .
    have l: "64 \<le> unat ?len" "unat ?len \<le> 1522" using frame(1,2) by (simp_all add: word_le_nat_alt)
    have "length (rx_bytes ?s) = RX_BUFFER_SIZE" using wf by (simp add: nic_wf_def rx_bytes_def)
    then have c: "length (chunk (rx_bytes ?s) (unat (rx_offset ?s) + 4) (unat ?len - 4)) = unat ?len - 4" using F(6) by simp
    show ?thesis
      using I rx_only_trans[OF N(1) rx_only_trans[OF F(2)]] F(4) N(2) c l by (auto split: if_splits)
  qed
qed

text \<open>The loop ends when the card reports an empty buffer, however often it is asked before.\<close>

lemma drain_returns:
  assumes "port_in s (port_reads s + k) (io_base s + REG_CR) AND 1 \<noteq> 0" "nic_wf s"
  shows "\<exists>s'. drain s = Some s'"
  using assms
proof (induction k arbitrary: s)
  case 0
  have "(ucast (fst (nic_in REG_CR s)) :: u8) AND CR_BUFE \<noteq> 0"
  proof
    assume a: "(ucast (fst (nic_in REG_CR s)) :: u8) AND CR_BUFE = 0"
    have "bit (ucast (port_in s (port_reads s) (io_base s + REG_CR)) :: u8) 0 = bit (port_in s (port_reads s) (io_base s + REG_CR)) 0"
      by (simp add: bit_simps)
    then show False using a 0 by (simp add: nic_in_def and_one_eq bit_0 even_iff_mod_2_eq_zero)
  qed
  then show ?case by (subst drain.simps) (simp add: Let_def)
next
  case (Suc k)
  let ?s = "snd (nic_in REG_CR s)"
  have wf: "nic_wf ?s" using nic_in_other(3) Suc.prems(2) by blast
  obtain r where r: "drain s = r" by blast
  from r show ?case
  proof (cases rule: drain_cases)
    case (frame len)
    note F = drain_frame_spec[OF wf frame(2,3)]
    have "port_reads ?s = Suc (port_reads s)" "rx_only s ?s" by (simp_all add: nic_in_def rx_only_def)
    then have "\<exists>s'. drain (drain_frame len ?s) = Some s'"
      using Suc.prems F(1,2,5) by (intro Suc.IH) (simp_all add: rx_only_def)
    then show ?thesis using frame(5) r by simp
  qed (use r in simp_all)
qed


text \<open>
  \<open>laid_out R off fs\<close>: from \<open>off\<close> on, the buffer holds the frames \<open>fs\<close> as the card writes them.  A header of four
  bytes comes first, with bit 0 of the first byte set and the length, low byte first, in the last two; it counts the four
  bytes of the CRC behind the frame.  The next header is at the next multiple of four, in a ring of 8192 bytes.
\<close>

definition ring_next :: "nat \<Rightarrow> nat \<Rightarrow> nat" where
  "ring_next off len = (4 * ((off + 4 + len + 3) div 4)) mod 8192"

fun laid_out :: "u8 list \<Rightarrow> nat \<Rightarrow> u8 list list \<Rightarrow> bool" where
  "laid_out R off [] \<longleftrightarrow> True"
| "laid_out R off (f # fs) \<longleftrightarrow> 60 \<le> length f \<and> length f \<le> 1518 \<and> odd (unat (R ! off)) \<and>
     unat (R ! (off + 2)) + 256 * unat (R ! (off + 3)) = length f + 4 \<and> at R (off + 4) f \<and>
     laid_out R (ring_next off (length f + 4)) fs"

lemma clear_low_bits: "unat (x AND NOT 3 :: u32) = 4 * (unat x div 4)"
proof -
  have "x AND NOT (mask 2) = push_bit 2 (drop_bit 2 x)"
    by (rule bit_word_eqI) (auto simp: bit_and_iff bit_not_iff bit_mask_iff bit_push_bit_iff bit_drop_bit_eq simp del: add_2_eq_Suc add_2_eq_Suc')
  moreover have "(3 :: u32) = mask 2" by (simp add: mask_eq_exp_minus_1)
  moreover have "unat (push_bit 2 (drop_bit 2 x)) = 4 * (unat x div 4)"
  proof -
    have "4 * (unat x div 4) < 4294967296" using unat_u32_lt[of x] by linarith
    then show ?thesis by (simp add: push_bit_eq_mult unat_word_ariths unat_drop_bit_eq drop_bit_eq_div mult.commute)
  qed
  ultimately show ?thesis by metis
qed

lemma next_offset_ring:
  assumes "unat off < 8192" "len \<le> RX_FRAME_MAX"
  shows "unat (next_offset off len) = ring_next (unat off) (unat len)"
proof -
  have l: "unat len \<le> 1522" using assms(2) by (simp add: word_le_nat_alt)
  define x where "x = (off + ucast len + 4 + 3) AND NOT 3"
  have "unat (off + ucast len + 4 + 3) = unat off + unat len + 7" using assms(1) l by (simp add: unat_word_ariths)
  then have x: "unat x = 4 * ((unat off + 4 + unat len + 3) div 4)" unfolding x_def clear_low_bits by (simp add: ac_simps)
  then have b: "unat x < 16384" using assms(1) l by linarith
  have "next_offset off len = (if RX_RING_SIZE \<le> x then x - RX_RING_SIZE else x)" by (simp add: next_offset_def x_def Let_def)
  then have "unat (next_offset off len) = (if 8192 \<le> unat x then unat x - 8192 else unat x)" by (simp add: word_le_nat_alt unat_sub_u32)
  also have "\<dots> = unat x mod 8192" using b by (simp add: mod_if)
  finally show ?thesis by (simp add: x ring_next_def)
qed

lemma two_bytes: "ucast (a :: u8) OR push_bit 8 (ucast (b :: u8)) = (of_nat (unat a + 256 * unat b) :: u16)"
proof -
  have "ucast a OR push_bit 8 (ucast b) = (ucast a + push_bit 8 (ucast b) :: u16)"
    by (rule disjunctive_add[symmetric]) (auto simp: bit_simps dest: bit_imp_le_length)
  then show ?thesis by (simp add: push_bit_eq_mult mult.commute)
qed

lemma odd_word: "(of_nat n AND 1 \<noteq> (0 :: u16)) = odd n"
proof -
  have "bit (of_nat n :: u16) 0 = odd n" by (simp only: bit_0) (transfer, simp)
  then show ?thesis by (simp add: and_one_eq bit_0 even_iff_mod_2_eq_zero)
qed

lemma odd_u8: "((ucast (x :: u32) :: u8) AND 1 = 0) = (x AND 1 = 0)"
proof -
  have "bit (ucast x :: u8) 0 = bit x 0" by (simp add: bit_simps)
  then show ?thesis by (simp add: and_one_eq bit_0 even_iff_mod_2_eq_zero[symmetric])
qed

lemma drain_laid_out:
  assumes "nic_wf s" "rx_ring s = (\<lambda>_. R)" "laid_out R (unat (rx_offset s)) fs"
    "\<forall>i < length fs. port_in s (port_reads s + i) (io_base s + REG_CR) AND 1 = 0"
    "port_in s (port_reads s + length fs) (io_base s + REG_CR) AND 1 \<noteq> 0"
  shows "\<exists>s'. drain s = Some s' \<and> nic_wf s' \<and> rx_only s s' \<and> frames s' = take 15 (frames s @ fs)"
  using assms
proof (induction fs arbitrary: s)
  case Nil
  let ?s = "snd (nic_in REG_CR s)"
  have "drain s = Some ?s" using Nil.prems(5) by (subst drain.simps) (simp add: Let_def odd_u8 nic_in_def)
  then show ?case using nic_in_other[where p = REG_CR and s = s] Nil.prems(1) queued_bounded[of s] by simp
next
  case (Cons f fs)
  let ?s = "snd (nic_in REG_CR s)" and ?len = "of_nat (length f + 4) :: u16"
  note N = nic_in_other[where p = REG_CR and s = s]
  have wf: "nic_wf ?s" using N(3) Cons.prems(1) by blast
  have off: "unat (rx_offset s) < 8192" using Cons.prems(1) by (simp add: nic_wf_def)
  then have off2: "unat (rx_offset s + 2) = unat (rx_offset s) + 2" by (simp add: unat_word_ariths)
  have L: "60 \<le> length f" "length f \<le> 1518" "odd (unat (R ! unat (rx_offset s)))"
      "unat (R ! (unat (rx_offset s) + 2)) + 256 * unat (R ! (unat (rx_offset s) + 3)) = length f + 4"
      "at R (unat (rx_offset s) + 4) f" "laid_out R (ring_next (unat (rx_offset s)) (length f + 4)) fs" using Cons.prems(3) by simp_all
  have u: "unat ?len = length f + 4" using L(2) by (simp add: unsigned_of_nat take_bit_nat_eq_self_iff del: of_nat_add)
  then have len: "RX_FRAME_MIN \<le> ?len" "?len \<le> RX_FRAME_MAX" "?len \<noteq> RX_LENGTH_PENDING" using L(1,2) by (auto simp: word_le_nat_alt)
  have rd: "ring_read16 ?s i = of_nat (unat (R ! i) + 256 * unat (R ! (i + 1)))" for i
    using Cons.prems(2) by (simp add: ring_read16_def two_bytes rx_bytes_def nic_in_def del: of_nat_add)
  have status: "ring_read16 ?s (unat (rx_offset s)) AND 1 \<noteq> 0"
    using L(3) unfolding rd odd_word by simp
  have size: "ring_read16 ?s (unat (rx_offset s + 2)) = ?len" using L(4) unfolding rd off2 by (simp only: add.assoc) simp
  note F = drain_frame_spec[OF wf len(1,2)]
  let ?t = "drain_frame ?len ?s"
  have "fst (nic_in REG_CR s) AND 1 = 0" using Cons.prems(4)[rule_format, of 0] by (simp add: nic_in_def)
  then have d: "drain s = drain ?t"
    using status size len by (subst drain.simps) (simp add: Let_def odd_u8 N(4) leD del: of_nat_add)
  have o: "rx_only s ?t" "port_reads ?t = Suc (port_reads s)" "rx_offset ?t = next_offset (rx_offset s) ?len"
    using rx_only_trans[OF N(1) F(2)] F(5,3) N(4) by (simp_all add: nic_in_def)
  have "chunk (rx_bytes ?s) (unat (rx_offset ?s) + 4) (unat ?len - 4) = f"
    using L(5) u N(4) Cons.prems(2) by (simp add: at_def rx_bytes_def nic_in_def del: of_nat_add)
  then have fr: "frames ?t = (if length (frames s) < 15 then frames s @ [f] else frames s)" using F(4) N(2) by simp
  have bits: "\<forall>i < length fs. port_in ?t (port_reads ?t + i) (io_base ?t + REG_CR) AND 1 = 0"
      "port_in ?t (port_reads ?t + length fs) (io_base ?t + REG_CR) AND 1 \<noteq> 0"
    using Cons.prems(4)[rule_format, of "Suc _"] Cons.prems(5) o by (auto simp: rx_only_def)
  have ring: "rx_ring ?t = (\<lambda>_. R)" "laid_out R (unat (rx_offset ?t)) fs"
    using o(1) Cons.prems(2) L(6) next_offset_ring[OF off len(2)] u unfolding o(3) by (simp_all add: rx_only_def del: of_nat_add)
  obtain s' where s': "drain ?t = Some s'" "nic_wf s'" "rx_only ?t s'" "frames s' = take 15 (frames ?t @ fs)"
    using Cons.IH[OF F(1) ring bits] by blast
  have "take 15 (frames ?t @ fs) = take 15 (frames s @ f # fs)"
    unfolding fr using queued_bounded[OF Cons.prems(1)] by (cases "queued s = 15") auto
  then show ?case using s' d rx_only_trans[OF o(1)] by auto
qed


section \<open>Sending\<close>

lemma wait_slot_spec:
  "wait_slot k s = (ok, s') \<Longrightarrow> s' = s\<lparr>port_reads := port_reads s'\<rparr> \<and>
    (ok \<longleftrightarrow> (\<exists>i \<le> k. port_in s (port_reads s + i) (io_base s + (REG_TSD0 + of_nat (tx_next s * 4))) AND TSD_OWN \<noteq> 0))"
proof (induction k arbitrary: s)
  case 0
  then show ?case by (auto simp: nic_in_def)
next
  case (Suc k)
  let ?p = "io_base s + (REG_TSD0 + of_nat (tx_next s * 4))" and ?s = "s\<lparr>port_reads := Suc (port_reads s)\<rparr>"
  have step: "wait_slot (Suc k) s = (if port_in s (port_reads s) ?p AND TSD_OWN \<noteq> 0 then (True, ?s) else wait_slot k ?s)"
    by (simp add: nic_in_def Let_def)
  have split: "(\<exists>i \<le> Suc k. Q i) \<longleftrightarrow> Q 0 \<or> (\<exists>i \<le> k. Q (Suc i))" for Q
    by (metis Suc_le_mono le0 not0_implies_Suc)
  show ?case
  proof (cases "port_in s (port_reads s) ?p AND TSD_OWN \<noteq> 0")
    case True
    then show ?thesis using Suc.prems unfolding step split by auto
  next
    case False
    then have "wait_slot k ?s = (ok, s')" using Suc.prems unfolding step by simp
    from Suc.IH[OF this] show ?thesis unfolding split using False by simp
  qed
qed

lemma frame_padded:
  assumes "length (buf :: u8 list) = TX_BUFFER_SIZE" "n \<le> TX_FRAME_MAX" "n \<le> length frame"
  shows "take (max n TX_FRAME_MIN) (write_at (write_at buf 0 (take n frame)) n (replicate (TX_FRAME_MIN - n) 0)) =
    take n frame @ replicate (TX_FRAME_MIN - n) 0"
    "length (write_at (write_at buf 0 (take n frame)) n (replicate (TX_FRAME_MIN - n) 0)) = TX_BUFFER_SIZE"
proof -
  let ?z = "replicate (TX_FRAME_MIN - n) (0 :: u8)"
  have "write_at (write_at buf 0 (take n frame)) n ?z = write_at buf 0 (take n frame @ ?z)"
    using assms(3) by (intro write_at_adjacent) simp_all
  moreover have "length (take n frame @ ?z) = max n TX_FRAME_MIN" using assms(3) by simp
  ultimately show "take (max n TX_FRAME_MIN) (write_at (write_at buf 0 (take n frame)) n ?z) = take n frame @ ?z"
    "length (write_at (write_at buf 0 (take n frame)) n ?z) = TX_BUFFER_SIZE"
    using assms(1,2) by (simp_all only: write_at_0_take) simp
qed

lemma rtl8139_send_spec:
  assumes wf: "nic_wf s" and n: "n \<le> length frame" and r: "rtl8139_send frame n s = (r, s')"
  shows "nic_wf s' \<and> frames s' = frames s \<and> nic_active s' = nic_active s \<and> nic_mac s' = nic_mac s \<and>
    port_in s' = port_in s \<and> io_base s' = io_base s \<and>
    (if nic_active s \<and> 0 < n \<and> n \<le> TX_FRAME_MAX \<and>
        (\<exists>i \<le> TX_WAIT_MS. port_in s (port_reads s + i) (io_base s + (REG_TSD0 + of_nat (tx_next s * 4))) AND TSD_OWN \<noteq> 0)
     then r = int n \<and> wire s' = wire s @ [take n frame @ replicate (TX_FRAME_MIN - n) 0]
     else r = -1 \<and> wire s' = wire s)"
proof (cases "\<not> nic_active s \<or> n = 0 \<or> n > TX_FRAME_MAX")
  case True
  then show ?thesis using r wf by (auto simp: rtl8139_send_def)
next
  case False
  obtain ok s1 where w: "wait_slot TX_WAIT_MS s = (ok, s1)" by fastforce
  obtain k where s1: "s1 = s\<lparr>port_reads := k\<rparr>" using wait_slot_spec[OF w] by blast
  have ok: "ok \<longleftrightarrow> (\<exists>i \<le> TX_WAIT_MS. port_in s (port_reads s + i) (io_base s + (REG_TSD0 + of_nat (tx_next s * 4))) AND TSD_OWN \<noteq> 0)"
    using wait_slot_spec[OF w] by blast
  let ?t = "tx_next s"
  define buf where "buf = write_at (write_at (tx_buffers s ! ?t) 0 (take n frame)) n (replicate (TX_FRAME_MIN - n) 0)"
  have t: "?t < TX_SLOTS" "length (tx_buffers s) = TX_SLOTS" "length (tx_buffers s ! ?t) = TX_BUFFER_SIZE" using wf by (auto simp: nic_wf_def)
  have buf: "take (max n TX_FRAME_MIN) buf = take n frame @ replicate (TX_FRAME_MIN - n) 0" "length buf = TX_BUFFER_SIZE"
    using frame_padded[OF t(3) _ n] False by (simp_all add: buf_def)
  show ?thesis
  proof (cases ok)
    case False': False
    then have "r = -1" "s' = s1" using r False w by (simp_all add: rtl8139_send_def)
    then show ?thesis using False' wf unfolding ok[symmetric] by (auto simp: s1 nic_wf_def intro!: frames_cong)
  next
    case True
    have s': "r = int n" "s' = s\<lparr>port_reads := k, tx_buffers := (tx_buffers s)[?t := buf],
        port_log := port_log s @ [Outl (io_base s + (REG_TSAD0 + of_nat (?t * 4))) (tx_addr s ?t), Outl (io_base s + (REG_TSD0 + of_nat (?t * 4))) (of_nat (max n TX_FRAME_MIN))],
        wire := wire s @ [take (max n TX_FRAME_MIN) buf], tx_next := (?t + 1) mod TX_SLOTS\<rparr>"
      using r False w True by (auto simp: rtl8139_send_def s1 nic_outl_def buf_def Let_def)
    have "nic_wf s'" using wf buf(2) unfolding s'(2) nic_wf_def by (auto dest!: set_update_subset_insert[THEN subsetD])
    moreover have "frames s' = frames s" by (rule frames_cong) (simp_all add: s'(2))
    ultimately show ?thesis using False True s' buf(1) unfolding ok[symmetric] by simp
  qed
qed


section \<open>The interrupt and the receiver\<close>

text \<open>What an interrupt leaves behind, if the handler returns, and that it does.\<close>

lemma interrupt_handler_keeps:
  assumes h: "interrupt_handler s = Some s'" and wf: "nic_wf s"
  shows "nic_wf s' \<and> rx_only s s' \<and> (\<exists>fs. frames s' = frames s @ fs \<and> (\<forall>f \<in> set fs. 60 \<le> length f \<and> length f \<le> 1518)) \<and>
    (length (frames s) < length (frames s') \<longrightarrow> rx_wakes s' = rx_wakes s + 1)"
proof -
  let ?i = "snd (nic_in REG_ISR s)" and ?st = "ucast (fst (nic_in REG_ISR s)) :: u16"
  define s1 where "s1 = nic_outw REG_ISR ?st ?i"
  have s1: "nic_wf s1" "rx_only s s1" "frames s1 = frames s" "rx_wakes s1 = rx_wakes s"
    using wf by (simp_all add: s1_def nic_in_def nic_outw_def nic_wf_def rx_only_def frames_def queued_def slot_frame_def)
  have i: "nic_wf ?i" "rx_only s ?i" "frames ?i = frames s" using nic_in_other wf by blast+
  show ?thesis
  proof (cases "nic_active s \<and> ?st \<noteq> 0")
    case False
    then have "s' = s \<or> s' = ?i" using h by (auto simp: interrupt_handler_def Let_def split: if_splits)
    then have x: "nic_wf s'" "rx_only s s'" "frames s' = frames s" using i wf by auto
    then have "queued s' = queued s" by (metis length_frames)
    then show ?thesis using x by simp
  next
    case True
    then obtain s2 where s2: "(if ?st AND INT_RX_EVENTS \<noteq> 0 then drain s1 else Some s1) = Some s2"
        "s' = (if has_frame s2 then s2\<lparr>rx_wakes := rx_wakes s2 + 1\<rparr> else s2)"
      using h unfolding interrupt_handler_def Let_def s1_def[symmetric] by (auto split: option.splits)
    have d: "nic_wf s2 \<and> rx_only s1 s2 \<and> rx_wakes s2 = rx_wakes s1 \<and>
        (\<exists>fs. frames s2 = frames s1 @ fs \<and> (\<forall>f \<in> set fs. 60 \<le> length f \<and> length f \<le> 1518))"
      using s2(1) drain_keeps[OF _ s1(1)] s1 by (cases "?st AND INT_RX_EVENTS \<noteq> 0") auto
    have fr: "frames s' = frames s2" by (rule frames_cong) (simp_all add: s2(2))
    have "nic_wf s'" using d by (simp add: s2(2) nic_wf_def)
    moreover have "rx_only s s'" using rx_only_trans[OF s1(2)] d by (simp add: s2(2) rx_only_def)
    moreover have "rx_wakes s' = rx_wakes s + 1" if "length (frames s) < length (frames s')"
      using that has_frame_queued[of s2] d s1(4) unfolding fr by (simp add: s2(2))
    ultimately show ?thesis using d s1(3) unfolding fr by auto
  qed
qed

lemma interrupt_handler_returns:
  assumes wf: "nic_wf s" and empty: "port_in s (port_reads s + 1 + k) (io_base s + REG_CR) AND 1 \<noteq> 0"
  obtains s' where "interrupt_handler s = Some s'"
proof -
  define s1 where "s1 = nic_outw REG_ISR (ucast (fst (nic_in REG_ISR s))) (snd (nic_in REG_ISR s))"
  have s1: "nic_wf s1" "port_in s1 = port_in s" "port_reads s1 = port_reads s + 1" "io_base s1 = io_base s"
    using wf by (simp_all add: s1_def nic_in_def nic_outw_def nic_wf_def)
  then have "\<exists>d. drain s1 = Some d" using drain_returns[of s1 k] empty by simp
  then have "\<exists>s'. interrupt_handler s = Some s'" unfolding interrupt_handler_def Let_def s1_def[symmetric] by auto
  then show thesis using that by blast
qed

lemma interrupt_handler_spec:
  assumes wf: "nic_wf s" and empty: "port_in s (port_reads s + 1 + k) (io_base s + REG_CR) AND 1 \<noteq> 0"
  obtains s' where "interrupt_handler s = Some s'" "nic_wf s'" "rx_only s s'"
    "\<exists>fs. frames s' = frames s @ fs \<and> (\<forall>f \<in> set fs. 60 \<le> length f \<and> length f \<le> 1518)"
    "length (frames s) < length (frames s') \<Longrightarrow> rx_wakes s' = rx_wakes s + 1"
proof (rule interrupt_handler_returns[OF wf empty])
  fix s'
  assume r: "interrupt_handler s = Some s'"
  show thesis using that[OF r] interrupt_handler_keeps[OF r wf] by blast
qed

text \<open>An interrupt for received frames delivers those that the card has put into the ring.\<close>

lemma interrupt_delivers:
  assumes wf: "nic_wf s" and act: "nic_active s" and R: "rx_ring s = (\<lambda>_. R)" "laid_out R (unat (rx_offset s)) fs"
    and isr: "(ucast (port_in s (port_reads s) (io_base s + REG_ISR)) :: u16) AND INT_RX_EVENTS \<noteq> 0"
    and cr: "\<forall>i < length fs. port_in s (port_reads s + 1 + i) (io_base s + REG_CR) AND 1 = 0"
      "port_in s (port_reads s + 1 + length fs) (io_base s + REG_CR) AND 1 \<noteq> 0"
  shows "\<exists>s'. interrupt_handler s = Some s' \<and> nic_wf s' \<and> rx_only s s' \<and> frames s' = take 15 (frames s @ fs)"
proof -
  let ?st = "ucast (fst (nic_in REG_ISR s)) :: u16"
  define s1 where "s1 = nic_outw REG_ISR ?st (snd (nic_in REG_ISR s))"
  have s1: "nic_wf s1" "rx_ring s1 = (\<lambda>_. R)" "rx_offset s1 = rx_offset s" "frames s1 = frames s" "port_reads s1 = port_reads s + 1"
      "port_in s1 = port_in s" "io_base s1 = io_base s"
    using wf R(1) by (simp_all add: s1_def nic_in_def nic_outw_def nic_wf_def frames_def queued_def slot_frame_def)
  obtain d where d: "drain s1 = Some d" "nic_wf d" "frames d = take 15 (frames s @ fs)"
    using drain_laid_out[OF s1(1,2), of fs] R(2) cr by (auto simp: s1(3-7))
  have "?st AND INT_RX_EVENTS \<noteq> 0" "?st \<noteq> 0" using isr by (auto simp: nic_in_def)
  then have h: "interrupt_handler s = Some (if has_frame d then d\<lparr>rx_wakes := rx_wakes d + 1\<rparr> else d)"
    using act d(1) unfolding interrupt_handler_def Let_def s1_def[symmetric] by simp
  have "frames (if has_frame d then d\<lparr>rx_wakes := rx_wakes d + 1\<rparr> else d) = frames d" by (rule frames_cong) simp_all
  then show ?thesis using h interrupt_handler_keeps[OF h wf] d(3) by auto
qed


section \<open>The queue as an interface\<close>

text \<open>
  What the interrupt and the receiver promise each other: a queue of bounded length that drops what does not fit.
  \<open>put\<close> may read the item from the state, as \<open>enqueue\<close> reads it from the ring.
\<close>

fun run_queue :: "('s \<Rightarrow> 'a list) \<Rightarrow> ('p \<Rightarrow> 's \<Rightarrow> 's) \<Rightarrow> ('s \<Rightarrow> 'a \<times> 's) \<Rightarrow> 'p option list \<Rightarrow> 's \<Rightarrow> 'a list \<times> 's" where
  "run_queue items put get [] s = ([], s)"
| "run_queue items put get (Some p # ops) s = run_queue items put get ops (put p s)"
| "run_queue items put get (None # ops) s =
     (if items s = [] then run_queue items put get ops s
      else let (x, s) = get s; (xs, s) = run_queue items put get ops s in (x # xs, s))"

locale bounded_queue =
  fixes ok :: "'s \<Rightarrow> bool" and items :: "'s \<Rightarrow> 'a list" and valid :: "'p \<Rightarrow> bool" and item :: "'p \<Rightarrow> 's \<Rightarrow> 'a"
    and put :: "'p \<Rightarrow> 's \<Rightarrow> 's" and get :: "'s \<Rightarrow> 'a \<times> 's" and bound :: nat
  assumes put_ok: "\<lbrakk>ok s; valid p\<rbrakk> \<Longrightarrow> ok (put p s)"
    and put_items: "\<lbrakk>ok s; valid p\<rbrakk> \<Longrightarrow> items (put p s) = (if length (items s) < bound then items s @ [item p s] else items s)"
    and get_first: "\<lbrakk>ok s; items s = x # xs\<rbrakk> \<Longrightarrow> ok (snd (get s)) \<and> fst (get s) = x \<and> items (snd (get s)) = xs"
    and within: "ok s \<Longrightarrow> length (items s) \<le> bound"
begin

text \<open>
  Whatever the order of the operations, what comes out and what is left is, in order, what was there and what was
  accepted: nothing is lost once accepted, doubled or reordered.
\<close>

lemma in_order:
  assumes "ok s" "\<forall>p. Some p \<in> set ops \<longrightarrow> valid p" "run_queue items put get ops s = (xs, s')"
  shows "ok s' \<and> (\<exists>accepted. xs @ items s' = items s @ accepted \<and> length accepted \<le> length (filter (\<lambda>op. op \<noteq> None) ops))"
  using assms
proof (induction ops arbitrary: s xs)
  case (Cons op ops)
  show ?case
  proof (cases op)
    case (Some p)
    let ?s = "put p s"
    have r: "run_queue items put get ops ?s = (xs, s')" using Cons.prems(3) Some by simp
    obtain acc where a: "ok s'" "xs @ items s' = items ?s @ acc" "length acc \<le> length (filter (\<lambda>op. op \<noteq> None) ops)"
      using Cons.IH[OF put_ok _ r] Cons.prems(1,2) Some by auto
    show ?thesis
    proof (cases "length (items s) < bound")
      case True
      then have "xs @ items s' = items s @ item p s # acc" using a(2) put_items[of s p] Cons.prems(1,2) Some by simp
      then show ?thesis using a(1,3) Some by (intro conjI exI[of _ "item p s # acc"]) simp_all
    next
      case False
      then have "xs @ items s' = items s @ acc" using a(2) put_items[of s p] Cons.prems(1,2) Some by simp
      then show ?thesis using a(1,3) Some by (intro conjI exI[of _ acc]) simp_all
    qed
  next
    case None
    show ?thesis
    proof (cases "items s")
      case Nil
      then show ?thesis using Cons.IH[of s xs] Cons.prems None by auto
    next
      case (Cons x ys)
      obtain zs where z: "run_queue items put get ops (snd (get s)) = (zs, s')" "xs = fst (get s) # zs"
        using Cons.prems(3) None Cons by (auto simp: Let_def split: prod.splits)
      note G = get_first[OF Cons.prems(1) Cons]
      obtain acc where "ok s'" "zs @ items s' = ys @ acc" "length acc \<le> length (filter (\<lambda>op. op \<noteq> None) ops)"
        using Cons.IH[OF _ _ z(1)] G Cons.prems(2) by auto
      then show ?thesis using z(2) G Cons None by auto
    qed
  qed
qed simp

end

definition nic_get :: "rtl8139 \<Rightarrow> u8 list \<times> rtl8139" where
  "nic_get s = (let (n, buf, s') = rtl8139_take (replicate QUEUE_FRAME_SIZE 0) QUEUE_FRAME_SIZE s in (take (nat n) buf, s'))"

lemma frames_short: "nic_wf s \<Longrightarrow> f \<in> set (frames s) \<Longrightarrow> length f \<le> 1518"
proof -
  assume wf: "nic_wf s" and "f \<in> set (frames s)"
  then obtain k where k: "f = slot_frame s ((queue_tail s + k) mod QUEUE_SLOTS)" by (auto simp: frames_def)
  define i where "i = (queue_tail s + k) mod QUEUE_SLOTS"
  have i: "i < QUEUE_SLOTS" "f = slot_frame s i" using k by (simp_all add: i_def)
  then have "rx_queue s ! i \<in> set (rx_queue s)" using wf by (simp add: nic_wf_def)
  then have "qf_size (rx_queue s ! i) \<le> 1518" using wf unfolding nic_wf_def by blast
  then show "length f \<le> 1518" by (simp add: i(2) slot_frame_def min.coboundedI2)
qed

interpretation nq: bounded_queue nic_wf frames "\<lambda>(off, n). off + n \<le> RX_BUFFER_SIZE \<and> n \<le> 1518" "\<lambda>(off, n) s. chunk (rx_bytes s) off n"
  "\<lambda>(off, n). enqueue off n" nic_get 15
proof
  show "nic_wf ((case p of (off, n) \<Rightarrow> enqueue off n) s)"
    if "nic_wf s" "case p of (off, n) \<Rightarrow> off + n \<le> RX_BUFFER_SIZE \<and> n \<le> 1518" for s p
    using that enqueue_spec(1) by (cases p) auto
  show "frames ((case p of (off, n) \<Rightarrow> enqueue off n) s) =
      (if length (frames s) < 15 then frames s @ [(case p of (off, n) \<Rightarrow> \<lambda>s. chunk (rx_bytes s) off n) s] else frames s)"
    if "nic_wf s" "case p of (off, n) \<Rightarrow> off + n \<le> RX_BUFFER_SIZE \<and> n \<le> 1518" for s p
    using that enqueue_spec(2) by (cases p) auto
  show "nic_wf (snd (nic_get s)) \<and> fst (nic_get s) = x \<and> frames (snd (nic_get s)) = xs" if "nic_wf s" "frames s = x # xs" for s x xs
  proof -
    note T = take_spec[OF that, of "replicate QUEUE_FRAME_SIZE 0" QUEUE_FRAME_SIZE]
    have l: "length x \<le> 1518" using frames_short[OF that(1), of x] that(2) by simp
    then have "fst (nic_get s) = x" unfolding nic_get_def by (subst T(1)) (simp add: min_def write_at_0_take)
    moreover have "snd (nic_get s) = snd (snd (rtl8139_take (replicate QUEUE_FRAME_SIZE 0) QUEUE_FRAME_SIZE s))"
      by (simp add: nic_get_def split_beta)
    ultimately show ?thesis using T(2,3) by simp
  qed
  show "length (frames s) \<le> 15" if "nic_wf s" for s using queued_bounded[OF that] by simp
qed


section \<open>Initialisation makes the invariant\<close>

text \<open>What holds of the static arrays before the driver runs.\<close>

definition nic_static :: "rtl8139 \<Rightarrow> bool" where
  "nic_static s \<longleftrightarrow> (\<forall>n. length (rx_ring s n) = RX_BUFFER_SIZE) \<and>
     length (tx_buffers s) = TX_SLOTS \<and> (\<forall>b \<in> set (tx_buffers s). length b = TX_BUFFER_SIZE) \<and>
     length (rx_queue s) = QUEUE_SLOTS \<and> (\<forall>f \<in> set (rx_queue s). length (qf_data f) = QUEUE_FRAME_SIZE \<and> qf_size f \<le> 1518)"

lemma wait_reset_reads: "wait_reset k s = (ok, s') \<Longrightarrow> \<exists>n. s' = s\<lparr>port_reads := n\<rparr>"
proof (induction k arbitrary: s)
  case 0
  then show ?case by (auto intro!: exI[of _ "port_reads s"])
next
  case (Suc k)
  then show ?case using Suc.IH[of "snd (nic_in REG_CR s)"] by (auto simp: Let_def nic_in_def split: if_splits)
qed

lemma read_mac_reads: "read_mac k i s = (bs, s') \<Longrightarrow> \<exists>n. s' = s\<lparr>port_reads := n\<rparr>"
proof (induction k arbitrary: i s bs s')
  case 0
  then show ?case by (auto intro!: exI[of _ "port_reads s"])
next
  case (Suc k)
  let ?s = "s\<lparr>port_reads := Suc (port_reads s)\<rparr>"
  obtain cs t where c: "read_mac k (Suc i) ?s = (cs, t)" by fastforce
  then have "s' = t" using Suc.prems by (simp add: Let_def nic_in_def)
  then show ?case using Suc.IH[OF c] by auto
qed

lemma irq_register_error: "irq_register irq h c st = (r, st') \<Longrightarrow> r \<noteq> 0 \<Longrightarrow> st' = st"
  by (auto simp: irq_register_def split: if_splits option.splits)

lemma rtl8139_setup_spec:
  assumes st: "nic_static (nic p)" and off: "\<not> nic_active (nic p)" and r: "rtl8139_setup h line dev p = (r, p')"
  shows "case r of
      Inr _ \<Rightarrow> nic_wf (nic p') \<and> nic_active (nic p') \<and> frames (nic p') = [] \<and> irq_register line h 0 (irqs p) = (0, irqs p')
    | Inl e \<Rightarrow> \<not> nic_active (nic p') \<and> irqs p' = irqs p \<and> nic_static (nic p')"
proof -
  define s0 where "s0 = nic_outb REG_CR CR_RST (nic_outb REG_CONFIG1 0 (nic p))"
  obtain ok s1 where w: "wait_reset RESET_WAIT_MS s0 = (ok, s1)" by fastforce
  obtain k where k: "s1 = s0\<lparr>port_reads := k\<rparr>" using wait_reset_reads[OF w] by blast
  obtain bs s2 where m: "read_mac 6 0 s1 = (bs, s2)" by fastforce
  obtain j where j: "s2 = s1\<lparr>port_reads := j\<rparr>" using read_mac_reads[OF m] by blast
  obtain q iq where i: "irq_register line h 0 (irqs p) = (q, iq)" by fastforce
  define s3 where "s3 = rx_start (s2\<lparr>nic_mac := mac_of_bytes bs, queue_head := 0, queue_tail := 0, tx_next := 0\<rparr>)"
  define p1 where "p1 = p\<lparr>config := pci_enable dev 5 (config p)\<rparr>"
  have e: "(if \<not> ok then (Inl RTL8139_ERR_RESET, p1\<lparr>nic := s1\<rparr>)
      else if q \<noteq> 0 then (Inl RTL8139_ERR_IRQ, p1\<lparr>nic := nic_outb REG_CR 0 s3, irqs := iq\<rparr>)
      else (Inr (), p1\<lparr>nic := nic_outw REG_IMR INT_ENABLED (s3\<lparr>nic_active := True\<rparr>), irqs := iq\<rparr>)) = (r, p')"
    using r m i w unfolding rtl8139_setup_def Let_def p1_def s3_def s0_def by (simp split: if_splits)
  have s3: "nic_wf (nic_outw REG_IMR INT_ENABLED (s3\<lparr>nic_active := True\<rparr>))" "frames (nic_outw REG_IMR INT_ENABLED (s3\<lparr>nic_active := True\<rparr>)) = []"
      "nic_static s3" "\<not> nic_active s3"
    using st off by (simp_all add: s3_def rx_start_def port_defs Let_def j k s0_def nic_wf_def nic_static_def frames_def queued_def)
  have s1: "nic_static s1" "\<not> nic_active s1" using st off by (simp_all add: k s0_def port_defs nic_static_def)
  show ?thesis
    using e s1 s3 i irq_register_error[OF i] by (auto simp: p1_def nic_outb_def nic_outw_def nic_static_def split: if_splits)
qed

lemma rtl8139_init_spec:
  assumes st: "nic_static (nic p)" and act: "nic_active (nic p) \<longrightarrow> nic_wf (nic p)" and r: "rtl8139_init h p = (r, p')"
  shows "case r of
      Inr _ \<Rightarrow> nic_wf (nic p') \<and> nic_active (nic p') \<and> (nic_active (nic p) \<and> p' = p \<or>
        frames (nic p') = [] \<and> (\<exists>line. irq_register line h 0 (irqs p) = (0, irqs p')))
    | Inl e \<Rightarrow> \<not> nic_active (nic p') \<and> irqs p' = irqs p"
proof (cases "nic_active (nic p)")
  case True
  then show ?thesis using r act by (auto simp: rtl8139_init_def)
next
  case off: False
  let ?bar = "\<lambda>dev. pci_read32 dev PCI_REG_BAR0 (config p)" and ?line = "\<lambda>dev. unat (pci_read32 dev 0x3C (config p) AND 0xFF)"
  let ?p = "\<lambda>dev. p\<lparr>nic := (nic p)\<lparr>io_base := ucast (?bar dev AND NOT 3)\<rparr>\<rparr>"
  have S: "nic_static (nic (?p dev))" "\<not> nic_active (nic (?p dev))" "irqs (?p dev) = irqs p" for dev
    using st off by (simp_all add: nic_static_def)
  consider e where "r = Inl e" "p' = p" | dev where "rtl8139_setup h (?line dev) dev (?p dev) = (r, p')"
    using r off by (auto simp: rtl8139_init_def Let_def split: option.splits if_splits)
  then show ?thesis
  proof cases
    case 1
    then show ?thesis using off by simp
  next
    case (2 dev)
    from rtl8139_setup_spec[OF S(1,2) 2] show ?thesis unfolding S(3) by (auto split: sum.splits)
  qed
qed


section \<open>The properties\<close>


definition example_ring :: "u8 list" where
  "example_ring = [1, 0, 65, 0] @ replicate 61 7 @ replicate 7 0 @ [1, 0, 64, 0] @ replicate 60 9 @ replicate 9608 0"

definition example_nic :: rtl8139 where
  "example_nic = \<lparr>rx_ring = (\<lambda>_. example_ring), tx_buffers = replicate 4 (replicate 1792 0),
     rx_queue = replicate 16 \<lparr>qf_size = 0, qf_data = replicate 1536 0\<rparr>, queue_head = 0, queue_tail = 0, rx_offset = 0, tx_next = 0,
     io_base = 0xC000, nic_active = True, nic_mac = Mac 2 0 0 0 0 1, rx_ring_addr = 0x100000, tx_addr = (\<lambda>i. 0x110000),
     port_in = (\<lambda>n port. if port = 0xC037 then (if n < 2 then 0 else 1) else 0x2001), port_reads = 0, port_log = [], wire = [], rx_wakes = 0\<rparr>"

lemma example_nic_wf: "nic_wf example_nic"
  by (simp add: nic_wf_def example_nic_def example_ring_def)

lemma example_laid_out: "laid_out example_ring 0 [replicate 61 7, replicate 60 9]"
  by (simp add: example_ring_def ring_next_def at_def chunk_def nth_append)

lemma example_frames: "frames example_nic = []"
  by (simp add: frames_def queued_def example_nic_def)

text \<open>The interrupt reports a received frame, and the first of the two in the ring is read before the buffer is empty.\<close>

lemma example_interrupt: "\<exists>s'. interrupt_handler example_nic = Some s' \<and> frames s' = [replicate 61 7]"
proof -
  have "laid_out example_ring (unat (rx_offset example_nic)) [replicate 61 7]" "rx_ring example_nic = (\<lambda>_. example_ring)"
    using example_laid_out by (simp_all add: example_nic_def)
  from interrupt_delivers[OF example_nic_wf _ this(2,1)] show ?thesis
    unfolding example_frames by (auto simp: example_nic_def)
qed


text \<open>
  C36. The frames the card has put into the ring are delivered: if the ring holds the frames \<open>fs\<close> from the current
  offset on, each with its header at a multiple of four behind the one before, and the card reports an empty buffer after
  them, draining adds exactly these frames in order to the queue, as far as its fifteen places go.
\<close>

theorem nic_drain_delivers:
  assumes "nic_wf s" "rx_ring s = (\<lambda>_. R)" "laid_out R (unat (rx_offset s)) fs"
    "\<forall>i < length fs. port_in s (port_reads s + i) (io_base s + REG_CR) AND 1 = 0"
    "port_in s (port_reads s + length fs) (io_base s + REG_CR) AND 1 \<noteq> 0"
  shows "\<exists>s'. drain s = Some s' \<and> nic_wf s' \<and> frames s' = take 15 (frames s @ fs)"
  using drain_laid_out[OF assms] by blast

theorem nic_drain_delivers_witness: "\<exists>s'. drain example_nic = Some s' \<and> frames s' = [replicate 61 7, replicate 60 9]"
proof -
  have l: "laid_out example_ring (unat (rx_offset example_nic)) [replicate 61 7, replicate 60 9]"
    using example_laid_out by (simp add: example_nic_def)
  have r: "rx_ring example_nic = (\<lambda>_. example_ring)"
    "\<forall>i < length [replicate 61 7, replicate 60 (9 :: u8)]. port_in example_nic (port_reads example_nic + i) (io_base example_nic + REG_CR) AND 1 = 0"
    "port_in example_nic (port_reads example_nic + length [replicate 61 7, replicate 60 (9 :: u8)]) (io_base example_nic + REG_CR) AND 1 \<noteq> 0"
    by (simp_all add: example_nic_def)
  show ?thesis using nic_drain_delivers[OF example_nic_wf r(1) l r(2,3)] by (auto simp: example_frames)
qed

text \<open>
  The queue between the interrupt and the receiver is first in, first out, for every interleaving of the two:
  the frames taken, followed by those still queued, are the frames that were queued followed by those accepted since.
\<close>

theorem nic_queue_in_order:
  assumes "nic_wf s" "\<forall>off n. Some (off, n) \<in> set ops \<longrightarrow> off + n \<le> RX_BUFFER_SIZE \<and> n \<le> 1518"
  shows "let (got, s') = run_queue frames (\<lambda>(off, n). enqueue off n) nic_get ops s in
    nic_wf s' \<and> (\<exists>accepted. got @ frames s' = frames s @ accepted \<and> length accepted \<le> length (filter (\<lambda>op. op \<noteq> None) ops))"
proof -
  obtain got s' where r: "run_queue frames (\<lambda>(off, n). enqueue off n) nic_get ops s = (got, s')" by fastforce
  then show ?thesis using nq.in_order[OF assms(1) _ r] assms(2) by auto
qed

theorem nic_queue_in_order_witness:
  "let (got, s') = run_queue frames (\<lambda>(off, n). enqueue off n) nic_get [Some (4, 60), None] example_nic in
    nic_wf s' \<and> (\<exists>accepted. got @ frames s' = accepted)"
  using nic_queue_in_order[OF example_nic_wf, of "[Some (4, 60), None]"] by (auto simp: split_beta Let_def)

text \<open>
  Sending puts exactly the frame on the wire, padded with zeros to 60 bytes, and nothing else, if the driver is
  active, the size is between 1 and 1514 and the card gives the slot back within 100 ms; otherwise it returns -1 and
  sends nothing.
\<close>

theorem nic_send_correct:
  assumes "nic_wf s" "n \<le> length frame"
  shows "let (r, s') = rtl8139_send frame n s in nic_wf s' \<and> frames s' = frames s \<and>
    (if nic_active s \<and> 0 < n \<and> n \<le> TX_FRAME_MAX \<and>
        (\<exists>i \<le> TX_WAIT_MS. port_in s (port_reads s + i) (io_base s + (REG_TSD0 + of_nat (tx_next s * 4))) AND TSD_OWN \<noteq> 0)
     then r = int n \<and> wire s' = wire s @ [take n frame @ replicate (TX_FRAME_MIN - n) 0]
     else r = -1 \<and> wire s' = wire s)"
  using rtl8139_send_spec[OF assms] by (cases "rtl8139_send frame n s") auto

theorem nic_send_correct_witness:
  "let (r, s') = rtl8139_send [1, 2, 3] 3 example_nic in r = 3 \<and> wire s' = [[1, 2, 3] @ replicate 57 0]"
proof -
  have "\<exists>i \<le> TX_WAIT_MS. port_in example_nic (port_reads example_nic + i) (io_base example_nic + (REG_TSD0 + of_nat (tx_next example_nic * 4))) AND TSD_OWN \<noteq> 0"
    by (rule exI[of _ 0]) (simp add: example_nic_def)
  moreover have "nic_active example_nic" "wire example_nic = []" by (simp_all add: example_nic_def)
  ultimately show ?thesis using nic_send_correct[OF example_nic_wf, of 3 "[1, 2, 3]"] by (simp add: split_beta Let_def)
qed

end
