(* ===== verification/Net.thy ===== *)
theory Net
  imports Net_Stack Dns Rtl8139 "HOL-Library.Monad_Syntax"
begin

text \<open>
  The network service (\<open>kernel/net.c\<close>): the receive task with its handlers, address resolution, ping and name
  resolution, over the network card and the protocol layers.

  The tasks share the state \<open>net\<close>.  A task that waits lets others run: what happens until its time-out is a list of
  \<open>net_event\<close>s, time passing and interrupts of the card, and after an interrupt the receive task handles the frames
  that have been queued.  \<open>future\<close> holds the events of the waits to come, \<open>stack_bytes\<close> what uninitialised
  local arrays hold, and \<open>entropy_in\<close> the readings of the time-stamp counter.  \<open>None\<close> is a loop that does not end.
\<close>

section \<open>State\<close>

datatype net_error = NET_ERR_NO_DEVICE | NET_ERR_NO_ROUTE | NET_ERR_TIMEOUT | NET_ERR_SEND | NET_ERR_NAME
  | NET_ERR_NXDOMAIN | NET_ERR_DNS

datatype net_event = Elapse u32 | Interrupt

record net =
  card :: rtl8139
  own_mac :: mac_addr
  own_ip :: ipv4_addr
  gateway :: ipv4_addr
  dns_server :: ipv4_addr
  netmask :: ipv4_addr
  table :: arp_table
  net_active :: bool
  rx_frame :: "u8 list"
  reply_icmp :: "u8 list"
  reply_ip :: "u8 list"
  reply_frame :: "u8 list"
  echo_target :: ipv4_addr
  echo_sequence :: u16
  echo_waiting :: bool
  echo_received :: bool
  echo_time :: u32
  dns_query :: "u8 list"
  dns_datagram :: "u8 list"
  dns_packet :: "u8 list"
  dns_frame :: "u8 list"
  dns_name :: "u8 list"
  dns_address :: ipv4_addr
  dns_id :: u16
  dns_local_port :: u16
  dns_waiting :: bool
  dns_done :: bool
  dns_status :: "dns_error option"
  uptime :: u32
  event_wakes :: nat
  future :: "net_event list list"
  stack_bytes :: "nat \<Rightarrow> u8"
  entropy_in :: "nat \<Rightarrow> u32"
  entropy_reads :: nat

abbreviation PING_ID :: u16 where "PING_ID \<equiv> 0x4B54"
abbreviation PING_PAYLOAD_SIZE :: nat where "PING_PAYLOAD_SIZE \<equiv> 32"
abbreviation ARP_ATTEMPTS :: nat where "ARP_ATTEMPTS \<equiv> 3"
abbreviation ARP_WAIT_MS :: u32 where "ARP_WAIT_MS \<equiv> 1000"
abbreviation DNS_ATTEMPTS :: nat where "DNS_ATTEMPTS \<equiv> 3"
abbreviation DNS_PORT_BASE :: u32 where "DNS_PORT_BASE \<equiv> 49152"
abbreviation DNS_PORT_COUNT :: u32 where "DNS_PORT_COUNT \<equiv> 16384"
abbreviation DNS_NAME_MAX :: nat where "DNS_NAME_MAX \<equiv> 253"
abbreviation WAIT_FOREVER :: u32 where "WAIT_FOREVER \<equiv> 0xFFFFFFFF"

definition local_array :: "nat \<Rightarrow> net \<Rightarrow> u8 list" where
  "local_array n s = map (stack_bytes s) [0..<n]"

definition wake_events :: "net \<Rightarrow> net" where
  "wake_events s = s\<lparr>event_wakes := event_wakes s + 1\<rparr>"


section \<open>Sending\<close>

definition net_send :: "u8 list \<Rightarrow> u32 \<Rightarrow> net \<Rightarrow> int \<times> net" where
  "net_send frame n s = (let (r, c) = rtl8139_send frame (unat n) (card s) in (r, s\<lparr>card := c\<rparr>))"

definition send_ipv4 ::
    "mac_addr \<Rightarrow> ipv4_addr \<Rightarrow> u8 \<Rightarrow> u8 list \<Rightarrow> u32 \<Rightarrow> u8 list \<Rightarrow> u32 \<Rightarrow> u8 list \<Rightarrow> u32 \<Rightarrow> net \<Rightarrow> bool \<times> u8 list \<times> u8 list \<times> net" where
  "send_ipv4 dest target proto payload n packet packet_capacity frame frame_capacity s =
     (let ip = ipv4_header_init (own_ip s) target proto;
          (packet, packet_size) = ipv4_packet_build packet packet_capacity ip payload n
      in if packet_size = 0 then (False, packet, frame, s)
         else let header = \<lparr>destination = dest, source = own_mac s, ether_type = 0x0800\<rparr>;
                  (frame, frame_size) = ethernet_build frame frame_capacity header packet packet_size
              in if frame_size = 0 then (False, packet, frame, s)
                 else let (r, s) = net_send frame frame_size s in (\<not> r < 0, packet, frame, s))"


section \<open>Receiving\<close>

definition table_lookup :: "ipv4_addr \<Rightarrow> net \<Rightarrow> mac_addr option \<times> net" where
  "table_lookup ip s = (let (t, r) = arp_table_lookup (table s) ip (uptime s) in (r, s\<lparr>table := t\<rparr>))"

definition handle_arp :: "u8 list \<Rightarrow> u32 \<Rightarrow> net \<Rightarrow> net" where
  "handle_arp data n s =
     (case arp_parse data n of
        None \<Rightarrow> s
      | Some packet \<Rightarrow>
          let (t, answer) = arp_handle (table s) packet (own_mac s) (own_ip s) (uptime s);
              s = wake_events (s\<lparr>table := t\<rparr>)
          in case answer of
               None \<Rightarrow> s
             | Some reply \<Rightarrow>
                 let (frame, len) = arp_frame (reply_frame s) 1514 reply;
                     s = s\<lparr>reply_frame := frame\<rparr>
                 in if len \<noteq> 0 then snd (net_send frame len s) else s)"

definition handle_icmp :: "ethernet_header \<Rightarrow> ipv4_header \<Rightarrow> u8 list \<Rightarrow> u32 \<Rightarrow> net \<Rightarrow> net" where
  "handle_icmp frame_header ip data n s =
     (case icmp_parse data n of
        None \<Rightarrow> s
      | Some message \<Rightarrow>
          if icmp_type message = 8 then
            let (buf, len) = icmp_echo_reply (reply_icmp s) 1500 message;
                s = s\<lparr>reply_icmp := buf\<rparr>
            in if len \<noteq> 0
               then let (ok, packet, frame, s) = send_ipv4 (source frame_header) (ip_source ip) 1 buf len (reply_ip s) 1500 (reply_frame s) 1514 s
                    in s\<lparr>reply_ip := packet, reply_frame := frame\<rparr>
               else s
          else if icmp_type message = 0 \<and> echo_waiting s \<and> icmp_id message = PING_ID \<and> icmp_sequence message = echo_sequence s \<and>
            ipv4_equal (ip_source ip) (echo_target s)
          then wake_events (s\<lparr>echo_time := uptime s, echo_received := True\<rparr>)
          else s)"

definition handle_udp :: "ipv4_header \<Rightarrow> u8 list \<Rightarrow> u32 \<Rightarrow> net \<Rightarrow> net option" where
  "handle_udp ip data n s =
     (case udp_parse data n (ip_source ip) (ip_destination ip) of
        Inl _ \<Rightarrow> Some s
      | Inr (udp, payload, payload_size) \<Rightarrow>
          if \<not> dns_waiting s \<or> destination_port udp \<noteq> dns_local_port s \<or> source_port udp \<noteq> 53 \<or>
            \<not> ipv4_equal (ip_source ip) (dns_server s) then Some s
          else (case dns_response_parse payload payload_size (dns_id s) (dns_name s) of
                  None \<Rightarrow> None
                | Some (Inl DNS_ERR_MALFORMED) \<Rightarrow> Some s
                | Some (Inl DNS_ERR_MISMATCH) \<Rightarrow> Some s
                | Some (Inl e) \<Rightarrow> Some (wake_events (s\<lparr>dns_address := ipv4_of_bytes (local_array 4 s), dns_status := Some e, dns_done := True\<rparr>))
                | Some (Inr address) \<Rightarrow> Some (wake_events (s\<lparr>dns_address := address, dns_status := None, dns_done := True\<rparr>))))"

definition handle_ipv4 :: "ethernet_header \<Rightarrow> u8 list \<Rightarrow> u32 \<Rightarrow> net \<Rightarrow> net option" where
  "handle_ipv4 frame_header data n s =
     (case ipv4_packet_parse data n of
        Inl _ \<Rightarrow> Some s
      | Inr (ip, payload, payload_size) \<Rightarrow>
          if \<not> ipv4_equal (ip_destination ip) (own_ip s) then Some s
          else if protocol ip = 1 then Some (handle_icmp frame_header ip payload payload_size s)
          else if protocol ip = 17 then handle_udp ip payload payload_size s
          else Some s)"

definition handle_frame :: "u8 list \<Rightarrow> u32 \<Rightarrow> net \<Rightarrow> net option" where
  "handle_frame frame n s =
     (case ethernet_parse frame n of
        None \<Rightarrow> Some s
      | Some (header, payload, payload_size) \<Rightarrow>
          if \<not> ethernet_for_us header (own_mac s) then Some s
          else if ether_type header = 0x0806 then Some (handle_arp payload payload_size s)
          else if ether_type header = 0x0800 then handle_ipv4 header payload payload_size s
          else Some s)"

text \<open>One turn of the receive task when a frame is queued, and its turns until the queue is empty.\<close>

definition receive_one :: "net \<Rightarrow> net option" where
  "receive_one s = do {
     (n, buf, c) \<leftarrow> rtl8139_receive 0 (rx_frame s) 1514 (card s);
     let s = s\<lparr>rx_frame := buf, card := c\<rparr>;
     if n > 0 then handle_frame (rx_frame s) (of_int n) s else Some s
   }"

primrec receive_task :: "nat \<Rightarrow> net \<Rightarrow> net option" where
  "receive_task 0 s = Some s"
| "receive_task (Suc k) s = (if has_frame (card s) then receive_one s \<bind> receive_task k else Some s)"

definition card_interrupt :: "net \<Rightarrow> net option" where
  "card_interrupt s = do {
     c \<leftarrow> interrupt_handler (card s);
     receive_task QUEUE_SLOTS (s\<lparr>card := c\<rparr>)
   }"


section \<open>Waiting\<close>

definition elapse :: "nat \<Rightarrow> net \<Rightarrow> net" where
  "elapse ms s = s\<lparr>uptime := uptime s + of_nat ms\<rparr>"

text \<open>
  \<open>wait_queue_wait_until\<close>: the condition is checked at the start, after every event and at the time-out; \<open>left\<close> is the
  time left, \<open>None\<close> for \<open>WAIT_FOREVER\<close>.
\<close>

fun wait_events :: "(net \<Rightarrow> 'a option \<times> net) \<Rightarrow> nat option \<Rightarrow> net_event list \<Rightarrow> net \<Rightarrow> ('a option \<times> net) option" where
  "wait_events cond left es s =
     (case cond s of
        (Some x, s) \<Rightarrow> Some (Some x, s)
      | (None, s) \<Rightarrow>
          (case es of
             [] \<Rightarrow> map_option (\<lambda>ms. cond (elapse ms s)) left
           | Elapse ms # es \<Rightarrow>
               (case left of
                  None \<Rightarrow> wait_events cond None es (elapse (unat ms) s)
                | Some l \<Rightarrow> if l \<le> unat ms then Some (cond (elapse l s))
                            else wait_events cond (Some (l - unat ms)) es (elapse (unat ms) s))
           | Interrupt # es \<Rightarrow> (case card_interrupt s of None \<Rightarrow> None | Some s \<Rightarrow> wait_events cond left es s)))"

declare wait_events.simps [simp del]

definition net_wait :: "(net \<Rightarrow> 'a option \<times> net) \<Rightarrow> u32 \<Rightarrow> net \<Rightarrow> ('a option \<times> net) option" where
  "net_wait cond timeout_ms s =
     wait_events cond (if timeout_ms = WAIT_FOREVER then None else Some (unat timeout_ms))
       (case future s of [] \<Rightarrow> [] | es # _ \<Rightarrow> es) (s\<lparr>future := tl (future s)\<rparr>)"

definition resolved :: "ipv4_addr \<Rightarrow> net \<Rightarrow> mac_addr option \<times> net" where
  "resolved ip s = (let (t, r) = arp_table_lookup (table s) ip (uptime s) in (r, s\<lparr>table := t\<rparr>))"

definition echo_ready :: "net \<Rightarrow> unit option \<times> net" where
  "echo_ready s = (if echo_received s then Some () else None, s)"

definition dns_ready :: "net \<Rightarrow> unit option \<times> net" where
  "dns_ready s = (if dns_done s then Some () else None, s)"


section \<open>Address resolution\<close>

primrec resolve_loop :: "nat \<Rightarrow> ipv4_addr \<Rightarrow> net \<Rightarrow> (mac_addr option \<times> net) option" where
  "resolve_loop 0 ip s = Some (None, s)"
| "resolve_loop (Suc k) ip s =
     (let (frame, n) = arp_frame (local_array 60 s) 60 (arp_make_request (own_mac s) (own_ip s) ip)
      in if n = 0 then Some (None, s)
         else let (r, s) = net_send frame n s
         in if r < 0 then Some (None, s)
            else do {
              (mac, s) \<leftarrow> net_wait (resolved ip) ARP_WAIT_MS s;
              (case mac of Some m \<Rightarrow> Some (Some m, s) | None \<Rightarrow> resolve_loop k ip s)
            })"

definition resolve :: "ipv4_addr \<Rightarrow> net \<Rightarrow> (mac_addr option \<times> net) option" where
  "resolve ip s =
     (case table_lookup ip s of
        (Some mac, s) \<Rightarrow> Some (Some mac, s)
      | (None, s) \<Rightarrow> resolve_loop ARP_ATTEMPTS ip s)"

definition next_hop :: "ipv4_addr \<Rightarrow> net \<Rightarrow> ipv4_addr" where
  "next_hop target s = (if ipv4_in_subnet target (own_ip s) (netmask s) then target else gateway s)"


section \<open>Ping\<close>

definition ping_data :: "u8 list" where
  "ping_data = map (\<lambda>i. 97 + of_nat (i mod 26)) [0..<PING_PAYLOAD_SIZE]"

definition ping_wait :: "u32 \<Rightarrow> u32 \<Rightarrow> net \<Rightarrow> ((net_error + u32) \<times> net) option" where
  "ping_wait timeout_ms start s = do {
     (ok, s) \<leftarrow> net_wait echo_ready timeout_ms s;
     let s = s\<lparr>echo_waiting := False\<rparr>;
     Some (if ok = None then (Inl NET_ERR_TIMEOUT, s) else (Inr (echo_time s - start), s))
   }"

definition ping_send :: "mac_addr \<Rightarrow> ipv4_addr \<Rightarrow> u32 \<Rightarrow> net \<Rightarrow> ((net_error + u32) \<times> net) option" where
  "ping_send dest target timeout_ms s =
     (let s = s\<lparr>echo_sequence := echo_sequence s + 1, echo_target := target, echo_received := False, echo_waiting := True\<rparr>;
          (payload, len) = icmp_build (local_array 40 s) 40 8 0 PING_ID (echo_sequence s) ping_data 32;
          start = uptime s
      in if len = 0 then Some (Inl NET_ERR_SEND, s\<lparr>echo_waiting := False\<rparr>)
         else let (ok, _, _, s) = send_ipv4 dest target 1 payload len (local_array 60 s) 60 (local_array 74 s) 74 s
         in if \<not> ok then Some (Inl NET_ERR_SEND, s\<lparr>echo_waiting := False\<rparr>)
            else ping_wait timeout_ms start s)"

definition net_ping :: "ipv4_addr \<Rightarrow> u32 \<Rightarrow> net \<Rightarrow> ((net_error + u32) \<times> net) option" where
  "net_ping target timeout_ms s =
     (if \<not> net_active s then Some (Inl NET_ERR_NO_DEVICE, s)
      else do {
        (mac, s) \<leftarrow> resolve (next_hop target s) s;
        (case mac of
           None \<Rightarrow> Some (Inl NET_ERR_NO_ROUTE, s)
         | Some dest \<Rightarrow> ping_send dest target timeout_ms s)
      })"


section \<open>Name resolution\<close>

definition entropy :: "net \<Rightarrow> u32 \<times> net" where
  "entropy s = (let low = entropy_in s (entropy_reads s)
                in (low XOR drop_bit 16 low, s\<lparr>entropy_reads := entropy_reads s + 1\<rparr>))"

text \<open>The copy of the name: \<open>None\<close> when it has more than 253 characters.\<close>

fun copy_dns_name :: "nat \<Rightarrow> u8 list \<Rightarrow> u8 list option" where
  "copy_dns_name i [] = Some []"
| "copy_dns_name i (c # cs) =
     (if i \<ge> DNS_NAME_MAX then None else map_option ((#) c) (copy_dns_name (i + 1) cs))"

definition dns_prepare :: "net \<Rightarrow> (u32 \<times> u32) \<times> net" where
  "dns_prepare s =
     (let (random, s) = entropy s;
          s = s\<lparr>dns_id := ucast random, dns_local_port := ucast (DNS_PORT_BASE + (drop_bit 3 random) mod DNS_PORT_COUNT),
            dns_done := False, dns_status := None\<rparr>;
          (query, query_size) = dns_query_build (dns_query s) 512 (dns_id s) (dns_name s);
          s = s\<lparr>dns_query := query\<rparr>;
          (datagram, datagram_size) = udp_build (dns_datagram s) 520 (own_ip s) (dns_server s) (dns_local_port s) 53 query query_size
      in ((query_size, datagram_size), s\<lparr>dns_datagram := datagram\<rparr>))"

definition dns_result :: "net \<Rightarrow> net_error + ipv4_addr" where
  "dns_result s = (case dns_status s of None \<Rightarrow> Inr (dns_address s) | Some DNS_ERR_NXDOMAIN \<Rightarrow> Inl NET_ERR_NXDOMAIN | Some _ \<Rightarrow> Inl NET_ERR_DNS)"

primrec dns_loop :: "nat \<Rightarrow> mac_addr \<Rightarrow> u32 \<Rightarrow> net \<Rightarrow> ((net_error + ipv4_addr) \<times> net) option" where
  "dns_loop 0 dest timeout_ms s = Some (Inl NET_ERR_TIMEOUT, s)"
| "dns_loop (Suc k) dest timeout_ms s =
     (let ((query_size, datagram_size), s) = dns_prepare s
      in if query_size = 0 \<or> datagram_size = 0 then Some (Inl NET_ERR_NAME, s)
         else let s = s\<lparr>dns_waiting := True\<rparr>;
                  (ok, packet, frame, s) = send_ipv4 dest (dns_server s) 17 (dns_datagram s) datagram_size (dns_packet s) 540 (dns_frame s) 554 s;
                  s = s\<lparr>dns_packet := packet, dns_frame := frame\<rparr>
         in if \<not> ok then Some (Inl NET_ERR_SEND, s\<lparr>dns_waiting := False\<rparr>)
            else do {
              (r, s) \<leftarrow> net_wait dns_ready timeout_ms s;
              let s = s\<lparr>dns_waiting := False\<rparr>;
              (if r \<noteq> None then Some (dns_result s, s) else dns_loop k dest timeout_ms s)
            })"

definition net_resolve :: "u8 list \<Rightarrow> u32 \<Rightarrow> net \<Rightarrow> ((net_error + ipv4_addr) \<times> net) option" where
  "net_resolve name timeout_ms s =
     (if \<not> net_active s then Some (Inl NET_ERR_NO_DEVICE, s)
      else case copy_dns_name 0 name of
        None \<Rightarrow> Some (Inl NET_ERR_NAME, s\<lparr>dns_name := take DNS_NAME_MAX name\<rparr>)
      | Some copied \<Rightarrow>
          let s = s\<lparr>dns_name := copied\<rparr>;
              (query, query_size) = dns_query_build (dns_query s) 512 0 (dns_name s);
              s = s\<lparr>dns_query := query\<rparr>
          in if query_size = 0 then Some (Inl NET_ERR_NAME, s)
             else do {
               (mac, s) \<leftarrow> resolve (next_hop (dns_server s) s) s;
               (case mac of
                  None \<Rightarrow> Some (Inl NET_ERR_NO_ROUTE, s)
                | Some dest \<Rightarrow> dns_loop DNS_ATTEMPTS dest timeout_ms s)
             })"


section \<open>Initialisation\<close>

text \<open>\<open>task_ok\<close>: \<open>task_create\<close> has found a free slot for the receive task.\<close>

definition net_init :: "u32 \<Rightarrow> bool \<Rightarrow> config_space \<Rightarrow> irq_state \<Rightarrow> net \<Rightarrow> (net_error + unit) \<times> config_space \<times> irq_state \<times> net" where
  "net_init handler_ptr task_ok cs iq s =
     (if net_active s then (Inr (), cs, iq, s)
      else case rtl8139_init handler_ptr \<lparr>nic = card s, config = cs, irqs = iq\<rparr> of
        (Inl _, p) \<Rightarrow> (Inl NET_ERR_NO_DEVICE, config p, irqs p, s\<lparr>card := nic p\<rparr>)
      | (Inr _, p) \<Rightarrow>
          let s = s\<lparr>card := nic p, own_mac := rtl8139_mac (nic p), table := arp_table_init\<rparr>
          in if \<not> task_ok then (Inl NET_ERR_NO_DEVICE, config p, irqs p, s)
             else (Inr (), config p, irqs p, s\<lparr>net_active := True\<rparr>))"

definition net_ready :: "net \<Rightarrow> bool" where
  "net_ready s = net_active s"

end
