(* ===== verification/Net_Service.thy ===== *)
theory Net_Service
  imports Net
begin

text \<open>
  The network service, second part: its invariant, that every operation keeps it and returns, what is sent in answer to
  an echo request, and which frames can complete a ping or a name resolution.
\<close>

section \<open>The frames that are sent\<close>

definition ipv4_frame :: "ethernet_header \<Rightarrow> ipv4_header \<Rightarrow> u8 list \<Rightarrow> u8 list" where
  "ipv4_frame h ih p = ethernet_header_bytes h @
     ipv4_header_bytes ih (of_nat (20 + length p)) (ipv4_header_sum ih (of_nat (20 + length p))) @ p @ replicate (26 - length p) 0"

lemma length_ipv4_frame: "length (ipv4_frame h ih p) = max 60 (34 + length p)"
  by (simp add: ipv4_frame_def)

text \<open>Such a frame parses back to the header, and the packet inside to exactly the payload.\<close>

lemma ipv4_frame_parses_in:
  assumes "length p \<le> 1480" "ipv4_sendable ih"
  obtains q m where "ethernet_parse (ipv4_frame h ih p @ rest) (of_nat (length (ipv4_frame h ih p))) = Some (h, q, m)"
    "ipv4_packet_parse q m = Inr (ipv4_received ih (length p), p @ replicate (26 - length p) 0 @ rest, of_nat (length p))"
proof -
  let ?f = "ipv4_frame h ih p" and ?t = "of_nat (20 + length p) :: u16"
  let ?q = "ipv4_header_bytes ih ?t (ipv4_header_sum ih ?t) @ p @ replicate (26 - length p) 0 @ rest"
  define sz where "sz = (of_nat (length ?f) :: u32)"
  have u: "unat sz = max 60 (34 + length p)" using assms(1) by (simp add: sz_def length_ipv4_frame unat_of_nat_u32)
  have "ethernet_parse (?f @ rest) sz = Some (h, ?q, sz - 14)"
    using u assms(1) ethernet_header_decode[of h ?q] by (simp add: ethernet_parse_def unat_less_32 ipv4_frame_def)
  moreover have "unat (sz - 14) = max 60 (34 + length p) - 14" using u by (simp add: unat_sub_u32)
  then have "ipv4_packet_parse ?q (sz - 14) = Inr (ipv4_received ih (length p), p @ replicate (26 - length p) 0 @ rest, of_nat (length p))"
    using assms by (intro ipv4_parse_header) auto
  ultimately show thesis using that unfolding sz_def by blast
qed

lemma ipv4_frame_parses:
  assumes "length p \<le> 1480" "ipv4_sendable ih"
  obtains q m where "ethernet_parse (ipv4_frame h ih p) (of_nat (length (ipv4_frame h ih p))) = Some (h, q, m)"
    "ipv4_packet_parse q m = Inr (ipv4_received ih (length p), p @ replicate (26 - length p) 0, of_nat (length p))"
  using ipv4_frame_parses_in[OF assms, of h "[]" thesis] by simp


section \<open>The invariant\<close>

definition net_wf :: "net \<Rightarrow> bool" where
  "net_wf s \<longleftrightarrow> nic_wf (card s) \<and> arp_wf (table s) \<and> length (rx_frame s) = 1514 \<and> length (reply_icmp s) = 1500 \<and>
     length (reply_ip s) = 1500 \<and> length (reply_frame s) = 1514 \<and> length (dns_query s) = 512 \<and> length (dns_datagram s) = 520 \<and>
     length (dns_packet s) = 540 \<and> length (dns_frame s) = 554 \<and> (net_active s \<longrightarrow> nic_active (card s))"

text \<open>The card may be slow, but it reports an empty buffer again and again.\<close>

definition card_live :: "net \<Rightarrow> bool" where
  "card_live s \<longleftrightarrow> (\<forall>n. \<exists>k \<ge> n. port_in (card s) k (io_base (card s) + REG_CR) AND 1 \<noteq> 0)"

text \<open>What no operation changes: the configuration and the card's registers.\<close>

definition same_net :: "net \<Rightarrow> net \<Rightarrow> bool" where
  "same_net s s' \<longleftrightarrow> own_mac s' = own_mac s \<and> own_ip s' = own_ip s \<and> gateway s' = gateway s \<and> dns_server s' = dns_server s \<and>
     netmask s' = netmask s \<and> net_active s' = net_active s \<and> nic_active (card s') = nic_active (card s) \<and>
     port_in (card s') = port_in (card s) \<and> io_base (card s') = io_base (card s)"

lemma same_net_refl [simp]: "same_net s s"
  by (simp add: same_net_def)

lemma same_net_trans: "same_net s s1 \<Longrightarrow> same_net s1 s2 \<Longrightarrow> same_net s s2"
  by (simp add: same_net_def)

lemma same_net_live: "same_net s s' \<Longrightarrow> card_live s \<Longrightarrow> card_live s'"
  by (simp add: same_net_def card_live_def)

lemma flags_only [simp]:
  "net_wf (s\<lparr>dns_waiting := b\<rparr>) = net_wf s" "net_wf (s\<lparr>echo_waiting := b\<rparr>) = net_wf s"
  "card_live (s\<lparr>dns_waiting := b\<rparr>) = card_live s" "card_live (s\<lparr>echo_waiting := b\<rparr>) = card_live s"
  "same_net r (s\<lparr>dns_waiting := b\<rparr>) = same_net r s" "same_net r (s\<lparr>echo_waiting := b\<rparr>) = same_net r s"
  by (simp_all add: net_wf_def card_live_def same_net_def)

text \<open>The transmit slot the card will be asked for becomes free in time.\<close>

definition slot_free :: "rtl8139 \<Rightarrow> bool" where
  "slot_free c \<longleftrightarrow> (\<exists>i \<le> TX_WAIT_MS. port_in c (port_reads c + i) (io_base c + (REG_TSD0 + of_nat (tx_next c * 4))) AND TSD_OWN \<noteq> 0)"

lemma net_send_spec:
  assumes wf: "net_wf s" and n: "unat n \<le> length frame" and r: "net_send frame n s = (r, s')"
  obtains c where "s' = s\<lparr>card := c\<rparr>" "net_wf s'" "same_net s s'" "frames c = frames (card s)"
    "if nic_active (card s) \<and> 0 < n \<and> unat n \<le> 1514 \<and> slot_free (card s)
     then r = int (unat n) \<and> wire c = wire (card s) @ [take (unat n) frame @ replicate (60 - unat n) 0]
     else r = -1 \<and> wire c = wire (card s)"
proof -
  obtain c where c: "rtl8139_send frame (unat n) (card s) = (r, c)" "s' = s\<lparr>card := c\<rparr>"
    using r by (auto simp: net_send_def split: prod.splits)
  have "nic_wf (card s)" using wf by (simp add: net_wf_def)
  note S = rtl8139_send_spec[OF this n c(1)]
  have "0 < n \<longleftrightarrow> 0 < unat n" by (simp add: unat_gt_0 word_neq_0_conv)
  moreover have "net_wf s'" "same_net s s'" using wf S by (simp_all add: c(2) net_wf_def same_net_def)
  ultimately show thesis using that[OF c(2)] S by (simp add: slot_free_def)
qed

text \<open>The driver has been given the frame \<open>f\<close>, in the buffer \<open>buf\<close>, and has put it on the wire.\<close>

definition frame_sent :: "u8 list \<Rightarrow> u8 list \<Rightarrow> net \<Rightarrow> net \<Rightarrow> bool" where
  "frame_sent buf f s s' \<longleftrightarrow> take (length f) buf = f \<and> net_send buf (of_nat (length f)) s = (int (length f), s') \<and>
     wire (card s') = wire (card s) @ [f]"

lemma send_ipv4_spec:
  assumes wf: "net_wf s" and fit: "unat n \<le> length payload" "unat pcap \<le> length packet" "unat fcap \<le> length frame"
    and r: "send_ipv4 dest target proto payload n packet pcap frame fcap s = (ok, packet', frame', s')"
  obtains c where "s' = s\<lparr>card := c\<rparr>" "net_wf s'" "same_net s s'" "frames c = frames (card s)"
    "length packet' = length packet" "length frame' = length frame"
    "ok \<longleftrightarrow> 20 + unat n \<le> unat pcap \<and> unat n \<le> 1480 \<and> max 60 (34 + unat n) \<le> unat fcap \<and> nic_active (card s) \<and> slot_free (card s)"
    "wire c = wire (card s) @ (if ok then [ipv4_frame \<lparr>destination = dest, source = own_mac s, ether_type = 0x0800\<rparr>
       (ipv4_header_init (own_ip s) target proto) (take (unat n) payload)] else [])"
    "ok \<longrightarrow> frame_sent frame' (ipv4_frame \<lparr>destination = dest, source = own_mac s, ether_type = 0x0800\<rparr>
       (ipv4_header_init (own_ip s) target proto) (take (unat n) payload)) s s'"
proof -
  let ?ih = "ipv4_header_init (own_ip s) target proto" and ?h = "\<lparr>destination = dest, source = own_mac s, ether_type = 0x0800\<rparr>"
  obtain pk m where p: "ipv4_packet_build packet pcap ?ih payload n = (pk, m)" by fastforce
  obtain fr k where f: "ethernet_build frame fcap ?h pk m = (fr, k)" by fastforce
  obtain q s1 where q: "net_send fr k s = (q, s1)" by fastforce
  have R: "(ok, packet', frame', s') = (if m = 0 then (False, pk, frame, s) else if k = 0 then (False, pk, fr, s) else (\<not> q < 0, pk, fr, s1))"
    using r p f q by (auto simp: send_ipv4_def Let_def split: if_splits)
  have P: "m = 0 \<and> pk = packet \<and> \<not> (unat n \<le> 65515 \<and> 20 + unat n \<le> unat pcap) \<or> m \<noteq> 0 \<and> unat m = 20 + unat n \<and> 20 + unat n \<le> unat pcap \<and>
      length pk = length packet \<and> take (unat m) pk = ipv4_header_bytes ?ih (of_nat (20 + unat n)) (ipv4_header_sum ?ih (of_nat (20 + unat n))) @ take (unat n) payload"
  proof (cases "m = 0")
    case True
    then show ?thesis using p fit by (auto simp: ipv4_packet_build_eq unat_add_u32 split: if_splits dest!: arg_cong[of _ 0 unat])
  next
    case False
    note B = ipv4_built[OF p False fit(2,1)]
    then show ?thesis using fit(1,2) False by (simp add: write_at_0_take del: of_nat_add)
  qed
  show thesis
  proof (cases "m = 0")
    case True
    then show thesis using that[of "card s"] R P wf by auto
  next
    case m: False
    then have P': "unat m = 20 + unat n" "20 + unat n \<le> unat pcap" "length pk = length packet" "unat m \<le> length pk"
        "take (unat m) pk = ipv4_header_bytes ?ih (of_nat (20 + unat n)) (ipv4_header_sum ?ih (of_nat (20 + unat n))) @ take (unat n) payload"
      using P fit(2) by auto
    show thesis
    proof (cases "k = 0")
      case True
      then have "fr = frame" "\<not> (unat n \<le> 1480 \<and> max 60 (34 + unat n) \<le> unat fcap)"
        using f fit(3) P'(1,4) unat_frame_size[of m] by (auto simp: ethernet_build_eq frame_size_def split: if_splits dest!: arg_cong[of _ 0 unat])
      then show thesis using that[of "card s"] R m True P' wf by auto
    next
      case k: False
      note E = ethernet_built[OF f k fit(3) P'(4)]
      have k': "unat k = max 60 (34 + unat n)" "unat n \<le> 1480" "max 60 (34 + unat n) \<le> unat fcap" "0 < k"
        using E(1-3) P'(1) k by (simp_all add: frame_size_def word_neq_0_conv)
      have "take (unat k) fr = ethernet_header_bytes ?h @ take (unat m) pk @ replicate (frame_size m - 14 - unat m) 0"
        using E(2,4) length_ethernet_body[OF P'(4), of ?h] by (simp add: write_at_0_take)
      then have F: "take (unat k) fr = ipv4_frame ?h ?ih (take (unat n) payload)"
        using P'(1,5) fit(1) by (simp add: ipv4_frame_def frame_size_def min_def)
      have lf: "unat k \<le> length fr" "length fr = length frame"
        using E(3,4) fit(3) k'(1,3) length_ethernet_body[OF P'(4), of ?h] by (simp_all add: frame_size_def P'(1))
      obtain c where c: "s1 = s\<lparr>card := c\<rparr>" "net_wf s1" "same_net s s1" "frames c = frames (card s)"
          "if nic_active (card s) \<and> 0 < k \<and> unat k \<le> 1514 \<and> slot_free (card s)
           then q = int (unat k) \<and> wire c = wire (card s) @ [take (unat k) fr @ replicate (60 - unat k) 0]
           else q = -1 \<and> wire c = wire (card s)"
        by (rule net_send_spec[OF wf lf(1) q])
      have "ok \<longleftrightarrow> nic_active (card s) \<and> slot_free (card s)" "s' = s1" "packet' = pk" "frame' = fr"
        using R m k c(5) k' by (auto split: if_splits)
      moreover have "frame_sent fr (ipv4_frame ?h ?ih (take (unat n) payload)) s s1" if "nic_active (card s) \<and> slot_free (card s)"
      proof -
        let ?f = "ipv4_frame ?h ?ih (take (unat n) payload)"
        have l: "length ?f = unat k" using F lf(1) by (metis length_take min_absorb2)
        have "q = int (unat k)" "wire c = wire (card s) @ [?f]" using c(5) that k' F by auto
        then show ?thesis using q c(1) F by (simp add: frame_sent_def l)
      qed
      ultimately show thesis using that[of c] c k' P'(2,3) lf(2) F by (auto split: if_splits)
    qed
  qed
qed


section \<open>Handling a frame\<close>

lemma ethernet_parse_fits:
  assumes "ethernet_parse frame n = Some (h, p, m)" "unat n \<le> length frame"
  shows "unat m \<le> length p" "unat m \<le> 1500"
  using assms by (auto simp: ethernet_parse_def unat_less_32 unat_sub_u32 not_less split: if_splits)

lemma ipv4_parse_fits:
  assumes "ipv4_packet_parse bytes n = Inr (h, p, m)" "unat n \<le> length bytes"
  shows "unat m \<le> length p" "unat m \<le> unat n"
  using assms by (auto simp: ipv4_packet_parse_def Let_def unat_less_32 unat_sub_u32 not_less split: if_splits)

lemma udp_parse_fits:
  assumes "udp_parse bytes n src dst = Inr (h, p, m)"
  shows "unat m \<le> 65535"
proof -
  let ?l = "ucast (be16_read (drop 4 bytes)) :: u32"
  have "m = ?l - 8" "8 \<le> unat ?l" using assms by (auto simp: udp_parse_def Let_def unat_less_32 not_less split: if_splits)
  then have "unat m = unat (be16_read (drop 4 bytes)) - 8" by (simp add: unat_sub_u32)
  then show ?thesis using unat_u16_lt[of "be16_read (drop 4 bytes)"] by linarith
qed

lemma arp_frame_fits:
  assumes "arp_frame frame cap p = (frame', k)" "unat cap \<le> length frame"
  shows "length frame' = length frame" "unat k \<le> length frame'"
proof -
  obtain h where e: "ethernet_build frame cap h (arp_bytes p) 28 = (frame', k)"
    using assms(1) by (auto simp: arp_frame_def arp_build_eq write_at_def Let_def)
  show "length frame' = length frame" "unat k \<le> length frame'"
    using e assms(2) by (auto simp: ethernet_build_eq frame_size_def unat_of_nat_u32 split: if_splits)
qed

text \<open>What stays when a frame is handled.\<close>

definition handled :: "net \<Rightarrow> net \<Rightarrow> bool" where
  "handled s s' \<longleftrightarrow> net_wf s' \<and> same_net s s' \<and> frames (card s') = frames (card s) \<and> future s' = future s \<and>
     dns_waiting s' = dns_waiting s \<and> echo_waiting s' = echo_waiting s"

definition dns_part :: "net \<Rightarrow> bool \<times> bool \<times> dns_error option \<times> ipv4_addr \<times> u16 \<times> u16 \<times> u8 list" where
  "dns_part s = (dns_waiting s, dns_done s, dns_status s, dns_address s, dns_id s, dns_local_port s, dns_name s)"

definition echo_part :: "net \<Rightarrow> bool \<times> bool \<times> ipv4_addr \<times> u16 \<times> u32" where
  "echo_part s = (echo_waiting s, echo_received s, echo_target s, echo_sequence s, echo_time s)"

lemma handled_refl: "net_wf s \<Longrightarrow> handled s s"
  by (simp add: handled_def)

lemma arp_wf_handle: "arp_wf t \<Longrightarrow> arp_wf (fst (arp_handle t p m i now))"
  by (simp add: arp_handle_table Let_def arp_wf_update arp_wf_lookup)

lemma handle_arp_spec:
  assumes wf: "net_wf s"
  shows "handled s (handle_arp data n s) \<and> dns_part (handle_arp data n s) = dns_part s \<and> echo_part (handle_arp data n s) = echo_part s"
proof (cases "arp_parse data n")
  case None
  then show ?thesis using wf by (simp add: handle_arp_def handled_refl)
next
  case (Some packet)
  obtain t answer where a: "arp_handle (table s) packet (own_mac s) (own_ip s) (uptime s) = (t, answer)" by fastforce
  define s1 where "s1 = wake_events (s\<lparr>table := t\<rparr>)"
  have "arp_wf t" using arp_wf_handle[of "table s" packet] wf a by (metis fst_conv net_wf_def)
  then have s1: "net_wf s1" "handled s s1" "dns_part s1 = dns_part s" "echo_part s1 = echo_part s"
    using wf by (simp_all add: s1_def wake_events_def net_wf_def handled_def same_net_def dns_part_def echo_part_def)
  show ?thesis
  proof (cases answer)
    case None
    then show ?thesis using s1 Some a by (simp add: handle_arp_def s1_def)
  next
    case (Some reply)
    obtain frame k where f: "arp_frame (reply_frame s1) 1514 reply = (frame, k)" by fastforce
    have lf: "length frame = 1514" "unat k \<le> length frame" using arp_frame_fits[OF f] s1(1) by (simp_all add: net_wf_def)
    define s2 where "s2 = s1\<lparr>reply_frame := frame\<rparr>"
    have s2: "net_wf s2" "handled s s2" "dns_part s2 = dns_part s" "echo_part s2 = echo_part s"
      using s1 lf(1) by (simp_all add: s2_def net_wf_def handled_def same_net_def dns_part_def echo_part_def)
    have h: "handle_arp data n s = (if k \<noteq> 0 then snd (net_send frame k s2) else s2)"
      using \<open>arp_parse data n = Some packet\<close> a Some f by (simp add: handle_arp_def s1_def[symmetric] s2_def Let_def)
    obtain q s3 where q: "net_send frame k s2 = (q, s3)" by fastforce
    obtain c where "s3 = s2\<lparr>card := c\<rparr>" "net_wf s3" "same_net s2 s3" "frames c = frames (card s2)"
      by (rule net_send_spec[OF s2(1) lf(2) q])
    then show ?thesis
      using h q s2 same_net_trans[of s s2 s3] by (auto simp: handled_def dns_part_def echo_part_def)
  qed
qed

lemma handle_icmp_spec:
  assumes wf: "net_wf s" and n: "unat n \<le> length data"
  shows "handled s (handle_icmp h ip data n s) \<and> dns_part (handle_icmp h ip data n s) = dns_part s \<and>
    (echo_part (handle_icmp h ip data n s) = echo_part s \<or>
     echo_waiting s \<and> (\<exists>m. icmp_parse data n = Some m \<and> icmp_type m = 0 \<and> icmp_id m = PING_ID \<and> icmp_sequence m = echo_sequence s) \<and>
       ip_source ip = echo_target s \<and>
       echo_part (handle_icmp h ip data n s) = (True, True, echo_target s, echo_sequence s, uptime s))"
proof (cases "icmp_parse data n")
  case None
  then show ?thesis using wf by (simp add: handle_icmp_def handled_refl)
next
  case (Some m)
  show ?thesis
  proof (cases "icmp_type m = 8")
    case False
    then show ?thesis using wf Some by (auto simp: handle_icmp_def wake_events_def net_wf_def handled_def same_net_def dns_part_def echo_part_def)
  next
    case True
    obtain buf k where b: "icmp_echo_reply (reply_icmp s) 1500 m = (buf, k)" by fastforce
    have pl: "unat (icmp_payload_size m) \<le> length (icmp_payload m)"
      using Some n by (auto simp: icmp_parse_def unat_less_32 unat_sub_u32 not_less split: if_splits)
    have bk: "length buf = 1500" "unat k \<le> length buf"
      using b wf pl True by (auto simp: icmp_echo_reply_def icmp_build_eq net_wf_def unat_add_u32 split: if_splits)
    define s1 where "s1 = s\<lparr>reply_icmp := buf\<rparr>"
    have s1: "net_wf s1" "handled s s1" "dns_part s1 = dns_part s" "echo_part s1 = echo_part s"
      using wf bk(1) by (simp_all add: s1_def net_wf_def handled_def same_net_def dns_part_def echo_part_def)
    obtain ok pk fr s2 where r: "send_ipv4 (source h) (ip_source ip) 1 buf k (reply_ip s1) 1500 (reply_frame s1) 1514 s1 = (ok, pk, fr, s2)"
      by (metis prod_cases4)
    have hd: "handle_icmp h ip data n s = (if k \<noteq> 0 then s2\<lparr>reply_ip := pk, reply_frame := fr\<rparr> else s1)"
      using Some True b r by (simp add: handle_icmp_def s1_def Let_def)
    have caps: "unat (1500 :: u32) \<le> length (reply_ip s1)" "unat (1514 :: u32) \<le> length (reply_frame s1)" using s1(1) by (simp_all add: net_wf_def)
    obtain c where c: "s2 = s1\<lparr>card := c\<rparr>" "net_wf s2" "same_net s1 s2" "frames c = frames (card s1)"
        "length pk = length (reply_ip s1)" "length fr = length (reply_frame s1)"
      by (rule send_ipv4_spec[OF s1(1) bk(2) caps r])
    then show ?thesis
      unfolding hd using s1 by (auto simp: net_wf_def handled_def same_net_def dns_part_def echo_part_def)
  qed
qed


text \<open>
  A result of the parser that ends a name resolution, and what the state is then.
\<close>

definition dns_final :: "dns_error + ipv4_addr \<Rightarrow> bool" where
  "dns_final r \<longleftrightarrow> r \<noteq> Inl DNS_ERR_MALFORMED \<and> r \<noteq> Inl DNS_ERR_MISMATCH"

definition dns_settled :: "dns_error + ipv4_addr \<Rightarrow> net \<Rightarrow> bool" where
  "dns_settled r s \<longleftrightarrow> dns_done s \<and> (case r of Inr a \<Rightarrow> dns_status s = None \<and> dns_address s = a | Inl e \<Rightarrow> dns_status s = Some e)"

lemma handle_udp_spec:
  assumes wf: "net_wf s"
  obtains s' where "handle_udp ip data n s = Some s'" "handled s s'" "echo_part s' = echo_part s" "dns_waiting s' = dns_waiting s"
    "dns_part s' = dns_part s \<or> (\<exists>u p m r. dns_waiting s \<and> udp_parse data n (ip_source ip) (ip_destination ip) = Inr (u, p, m) \<and>
       source_port u = 53 \<and> destination_port u = dns_local_port s \<and> ip_source ip = dns_server s \<and>
       dns_response_parse p m (dns_id s) (dns_name s) = Some r \<and> dns_final r \<and> dns_settled r s')"
    "dns_id s' = dns_id s \<and> dns_local_port s' = dns_local_port s \<and> dns_name s' = dns_name s"
proof (cases "udp_parse data n (ip_source ip) (ip_destination ip)")
  case (Inl e)
  then show thesis using that[of s] wf by (simp add: handle_udp_def handled_refl)
next
  case (Inr upm)
  obtain u p m where upm: "upm = (u, p, m)" by (cases upm)
  show thesis
  proof (cases "dns_waiting s \<and> destination_port u = dns_local_port s \<and> source_port u = 53 \<and> ip_source ip = dns_server s")
    case False
    then show thesis using that[of s] wf Inr upm by (auto simp: handle_udp_def handled_refl)
  next
    case True
    have "unat m \<le> 65535" using Inr upm by (auto dest: udp_parse_fits)
    then obtain r where r: "dns_response_parse p m (dns_id s) (dns_name s) = Some r"
      using dns_response_returns[of m p p "dns_id s" "dns_name s"] by auto
    have h: "handle_udp ip data n s = Some (case r of
          Inl e \<Rightarrow> if e = DNS_ERR_MALFORMED \<or> e = DNS_ERR_MISMATCH then s
            else wake_events (s\<lparr>dns_address := ipv4_of_bytes (local_array 4 s), dns_status := Some e, dns_done := True\<rparr>)
        | Inr a \<Rightarrow> wake_events (s\<lparr>dns_address := a, dns_status := None, dns_done := True\<rparr>))"
      using Inr upm True r by (auto simp: handle_udp_def split: sum.split dns_error.split)
    have keep: "handled s (wake_events (s\<lparr>dns_address := a, dns_status := st, dns_done := True\<rparr>))"
        "echo_part (wake_events (s\<lparr>dns_address := a, dns_status := st, dns_done := True\<rparr>)) = echo_part s" for a st
      using wf by (simp_all add: wake_events_def net_wf_def handled_def same_net_def echo_part_def)
    show thesis
    proof (cases "dns_final r")
      case False
      then have "handle_udp ip data n s = Some s" unfolding h by (auto simp: dns_final_def)
      then show thesis using that[of s] wf by (simp add: handled_refl)
    next
      case fin: True
      then obtain a st where e: "handle_udp ip data n s = Some (wake_events (s\<lparr>dns_address := a, dns_status := st, dns_done := True\<rparr>))"
          "dns_settled r (wake_events (s\<lparr>dns_address := a, dns_status := st, dns_done := True\<rparr>))"
        unfolding h by (cases r) (auto simp: dns_final_def dns_settled_def wake_events_def)
      show thesis
        by (rule that[OF e(1) keep]) (use True Inr upm r fin e(2) in \<open>auto simp: wake_events_def\<close>)
    qed
  qed
qed

text \<open>The frames that answer a ping and a query.\<close>

definition echo_answer :: "net \<Rightarrow> u8 list \<Rightarrow> u32 \<Rightarrow> bool" where
  "echo_answer s frame n \<longleftrightarrow> (\<exists>eh p1 n1 ih p2 n2 m. ethernet_parse frame n = Some (eh, p1, n1) \<and> ethernet_for_us eh (own_mac s) \<and>
     ether_type eh = 0x0800 \<and> ipv4_packet_parse p1 n1 = Inr (ih, p2, n2) \<and> ip_destination ih = own_ip s \<and> protocol ih = 1 \<and> ip_source ih = echo_target s \<and>
     icmp_parse p2 n2 = Some m \<and> icmp_type m = 0 \<and> icmp_id m = PING_ID \<and> icmp_sequence m = echo_sequence s)"

definition dns_answer :: "net \<Rightarrow> u8 list \<Rightarrow> u32 \<Rightarrow> dns_error + ipv4_addr \<Rightarrow> bool" where
  "dns_answer s frame n r \<longleftrightarrow> (\<exists>eh p1 n1 ih p2 n2 uh p3 n3. ethernet_parse frame n = Some (eh, p1, n1) \<and> ethernet_for_us eh (own_mac s) \<and>
     ether_type eh = 0x0800 \<and> ipv4_packet_parse p1 n1 = Inr (ih, p2, n2) \<and> ip_destination ih = own_ip s \<and> protocol ih = 17 \<and> ip_source ih = dns_server s \<and>
     udp_parse p2 n2 (ip_source ih) (ip_destination ih) = Inr (uh, p3, n3) \<and> source_port uh = 53 \<and>
     destination_port uh = dns_local_port s \<and> dns_response_parse p3 n3 (dns_id s) (dns_name s) = Some r \<and> dns_final r)"

lemma handle_frame_spec:
  assumes wf: "net_wf s" and n: "unat n \<le> length frame"
  obtains s' where "handle_frame frame n s = Some s'" "handled s s'"
    "echo_part s' = echo_part s \<or> echo_waiting s \<and> echo_answer s frame n \<and> echo_part s' = (True, True, echo_target s, echo_sequence s, uptime s)"
    "dns_part s' = dns_part s \<or> dns_waiting s \<and> (\<exists>r. dns_answer s frame n r \<and> dns_settled r s')"
    "dns_id s' = dns_id s \<and> dns_local_port s' = dns_local_port s \<and> dns_name s' = dns_name s"
proof (cases "ethernet_parse frame n")
  case None
  then show thesis using that[of s] wf by (simp add: handle_frame_def handled_refl)
next
  case (Some hpm)
  obtain h p m where hpm: "hpm = (h, p, m)" by (cases hpm)
  have e: "ethernet_parse frame n = Some (h, p, m)" using Some hpm by simp
  note E = ethernet_parse_fits[OF e n]
  have "handle_frame frame n s = Some s \<or> handle_frame frame n s = Some (handle_arp p m s) \<or>
      handle_frame frame n s = handle_ipv4 h p m s \<and> ethernet_for_us h (own_mac s) \<and> ether_type h = 0x0800"
    by (simp add: handle_frame_def e)
  then consider (ignored) "handle_frame frame n s = Some s" | (arp) "handle_frame frame n s = Some (handle_arp p m s)"
    | (ipv4) "handle_frame frame n s = handle_ipv4 h p m s" "ethernet_for_us h (own_mac s)" "ether_type h = 0x0800"
    by blast
  then show thesis
  proof cases
    case ignored
    then show thesis using that[of s] wf by (simp add: handled_refl)
  next
    case arp
    then show thesis using that[OF arp] handle_arp_spec[OF wf, of p m] by (simp add: dns_part_def)
  next
    case ipv4
    have "handle_ipv4 h p m s = Some s \<or> (\<exists>ih p2 n2. ipv4_packet_parse p m = Inr (ih, p2, n2) \<and> ip_destination ih = own_ip s \<and>
        (protocol ih = 1 \<and> handle_ipv4 h p m s = Some (handle_icmp h ih p2 n2 s) \<or> protocol ih = 17 \<and> handle_ipv4 h p m s = handle_udp ih p2 n2 s))"
      by (cases "ipv4_packet_parse p m") (auto simp: handle_ipv4_def)
    then consider (drop) "handle_ipv4 h p m s = Some s"
      | (icmp) ih p2 n2 where "ipv4_packet_parse p m = Inr (ih, p2, n2)" "ip_destination ih = own_ip s" "handle_ipv4 h p m s = Some (handle_icmp h ih p2 n2 s)" "protocol ih = 1"
      | (udp) ih p2 n2 where "ipv4_packet_parse p m = Inr (ih, p2, n2)" "ip_destination ih = own_ip s" "handle_ipv4 h p m s = handle_udp ih p2 n2 s" "protocol ih = 17"
      by blast
    then show thesis
    proof cases
      case drop
      then show thesis using that[of s] wf ipv4(1) by (simp add: handled_refl)
    next
      case (icmp ih p2 n2)
      note I = handle_icmp_spec[OF wf ipv4_parse_fits(1)[OF icmp(1) E(1)], of h ih]
      have "handle_frame frame n s = Some (handle_icmp h ih p2 n2 s)" using ipv4(1) icmp(3) by simp
      then show thesis using that I e ipv4(2,3) icmp(1,2,4) unfolding echo_answer_def dns_part_def by blast
    next
      case (udp ih p2 n2)
      show thesis
      proof (rule handle_udp_spec[OF wf, of ih p2 n2])
        fix s'
        assume u: "handle_udp ih p2 n2 s = Some s'" "handled s s'" "echo_part s' = echo_part s"
          "dns_part s' = dns_part s \<or> (\<exists>u p m r. dns_waiting s \<and> udp_parse p2 n2 (ip_source ih) (ip_destination ih) = Inr (u, p, m) \<and>
             source_port u = 53 \<and> destination_port u = dns_local_port s \<and> ip_source ih = dns_server s \<and>
             dns_response_parse p m (dns_id s) (dns_name s) = Some r \<and> dns_final r \<and> dns_settled r s')"
          "dns_id s' = dns_id s \<and> dns_local_port s' = dns_local_port s \<and> dns_name s' = dns_name s"
        have "handle_frame frame n s = Some s'" using ipv4(1) udp(3) u(1) by simp
        moreover have "dns_part s' = dns_part s \<or> dns_waiting s \<and> (\<exists>r. dns_answer s frame n r \<and> dns_settled r s')"
          using u(4) e ipv4(2,3) udp(1,2,4) unfolding dns_answer_def by blast
        ultimately show thesis using that u(2,3,5) by blast
      qed
    qed
  qed
qed


section \<open>The receive task and waiting\<close>

text \<open>The frame the receive task looks at when \<open>f\<close> is the first of the queue: its buffer and the size.\<close>

definition taken :: "net \<Rightarrow> u8 list \<Rightarrow> u8 list" where
  "taken s f = write_at (rx_frame s) 0 (take 1514 f)"

definition taken_size :: "u8 list \<Rightarrow> u32" where
  "taken_size f = of_nat (min (length f) 1514)"

lemma receive_one_eq:
  assumes wf: "net_wf s" and f: "frames (card s) = f # fs" and act: "nic_active (card s)"
  obtains s1 c where "s1 = s\<lparr>rx_frame := taken s f, card := c\<rparr>" "net_wf s1" "same_net s s1" "frames c = fs"
    "receive_one s = (if 0 < min (length f) 1514 then handle_frame (taken s f) (taken_size f) s1 else Some s1)"
proof -
  have nw: "nic_wf (card s)" using wf by (simp add: net_wf_def)
  define c where "c = snd (snd (rtl8139_take (rx_frame s) 1514 (card s)))"
  note T = take_spec[OF nw f, of "rx_frame s" 1514]
  have h: "has_frame (card s)" using f has_frame_queued[OF nw] by (metis length_frames list.distinct(1) list.size(3) length_0_conv)
  have rc: "rtl8139_receive 0 (rx_frame s) 1514 (card s) = Some (int (min (length f) 1514), taken s f, c)"
    using act h T(1) by (simp add: rtl8139_receive_def c_def taken_def)
  define s1 where "s1 = s\<lparr>rx_frame := taken s f, card := c\<rparr>"
  have lb: "length (taken s f) = 1514" using wf by (simp add: taken_def net_wf_def)
  have cs: "c = (card s)\<lparr>queue_tail := (queue_tail (card s) + 1) mod QUEUE_SLOTS\<rparr>" by (simp add: c_def rtl8139_take_def Let_def)
  have s1: "net_wf s1" "same_net s s1" "frames c = fs"
    using wf T(2,3) lb by (simp_all add: s1_def net_wf_def c_def[symmetric] same_net_def) (simp_all add: cs)
  show thesis by (rule that[OF s1_def s1]) (simp add: receive_one_def rc s1_def taken_size_def del: of_nat_min)
qed

lemma receive_one_spec:
  assumes wf: "net_wf s" and f: "frames (card s) = f # fs" and act: "nic_active (card s)"
  obtains s' where "receive_one s = Some s'" "net_wf s'" "same_net s s'" "frames (card s') = fs" "future s' = future s"
    "dns_waiting s' = dns_waiting s" "echo_waiting s' = echo_waiting s"
    "echo_part s' = echo_part s \<or> echo_answer s (taken s f) (taken_size f) \<and> echo_part s' = (echo_waiting s, True, echo_target s, echo_sequence s, uptime s)"
    "dns_part s' = dns_part s \<or> (\<exists>r. dns_answer s (taken s f) (taken_size f) r \<and> dns_settled r s')"
    "dns_id s' = dns_id s \<and> dns_local_port s' = dns_local_port s \<and> dns_name s' = dns_name s"
proof -
  let ?n = "min (length f) 1514"
  obtain s1 c where s1_def: "s1 = s\<lparr>rx_frame := taken s f, card := c\<rparr>" and s1: "net_wf s1" "same_net s s1" "frames c = fs"
      and r: "receive_one s = (if 0 < ?n then handle_frame (taken s f) (taken_size f) s1 else Some s1)"
    by (rule receive_one_eq[OF assms])
  have c1: "frames (card s1) = fs" using s1(3) by (simp add: s1_def)
  note s1 = s1(1,2) c1
  have lb: "length (taken s f) = 1514" using wf by (simp add: taken_def net_wf_def)
  have "?n < 4294967296" by simp
  then have u: "unat (taken_size f) = ?n" unfolding taken_size_def by (rule unat_of_nat_u32)
  have parts: "echo_part s1 = echo_part s" "dns_part s1 = dns_part s" by (simp_all add: s1_def echo_part_def dns_part_def)
  have answers: "echo_answer s1 = echo_answer s" "dns_answer s1 = dns_answer s"
    by (simp_all add: s1_def echo_answer_def dns_answer_def fun_eq_iff)
  show thesis
  proof (cases "0 < ?n")
    case False
    then have "receive_one s = Some s1" using r by simp
    then show thesis using that[of s1] s1 parts by (simp add: s1_def)
  next
    case True
    show thesis
    proof (rule handle_frame_spec[OF s1(1), of "taken_size f" "taken s f"])
      show "unat (taken_size f) \<le> length (taken s f)" unfolding u lb by simp
      fix s'
      assume h: "handle_frame (taken s f) (taken_size f) s1 = Some s'" "handled s1 s'"
        "echo_part s' = echo_part s1 \<or> echo_waiting s1 \<and> echo_answer s1 (taken s f) (taken_size f) \<and>
           echo_part s' = (True, True, echo_target s1, echo_sequence s1, uptime s1)"
        "dns_part s' = dns_part s1 \<or> dns_waiting s1 \<and> (\<exists>r. dns_answer s1 (taken s f) (taken_size f) r \<and> dns_settled r s')"
        "dns_id s' = dns_id s1 \<and> dns_local_port s' = dns_local_port s1 \<and> dns_name s' = dns_name s1"
      have k: "same_net s s'" "net_wf s'" "frames (card s') = fs" "future s' = future s" "dns_waiting s' = dns_waiting s" "echo_waiting s' = echo_waiting s"
        using s1(2,3) same_net_trans[of s s1 s'] h(2) by (auto simp: handled_def s1_def)
      have f1: "echo_target s1 = echo_target s" "echo_sequence s1 = echo_sequence s" "uptime s1 = uptime s" "echo_waiting s1 = echo_waiting s"
          "dns_id s1 = dns_id s" "dns_local_port s1 = dns_local_port s" "dns_name s1 = dns_name s"
        by (simp_all add: s1_def)
      have E: "echo_part s' = echo_part s \<or> echo_answer s (taken s f) (taken_size f) \<and> echo_part s' = (echo_waiting s, True, echo_target s, echo_sequence s, uptime s)"
        using h(3) unfolding parts answers f1 by auto
      have D: "dns_part s' = dns_part s \<or> (\<exists>r. dns_answer s (taken s f) (taken_size f) r \<and> dns_settled r s')"
        using h(4) unfolding parts answers by blast
      have "receive_one s = Some s'" using r h(1) True by simp
      then show thesis by (rule that[OF _ k(2,1,3-6) E D]) (use h(5) f1 in simp)
    qed
  qed
qed

text \<open>What an operation that lets the receive task run keeps.\<close>

definition served :: "net \<Rightarrow> net \<Rightarrow> bool" where
  "served s s' \<longleftrightarrow> net_wf s' \<and> same_net s s' \<and> dns_waiting s' = dns_waiting s \<and> echo_waiting s' = echo_waiting s \<and>
     dns_name s' = dns_name s"

lemma served_refl: "net_wf s \<Longrightarrow> served s s"
  by (simp add: served_def)

lemma served_trans: "served s s1 \<Longrightarrow> served s1 s2 \<Longrightarrow> served s s2"
  using same_net_trans by (auto simp: served_def)

lemma same_net_alive: "\<lbrakk>same_net s s'; nic_active (card s); card_live s\<rbrakk> \<Longrightarrow> nic_active (card s') \<and> card_live s'"
  using same_net_live[of s s'] by (simp add: same_net_def)

lemma served_alive: "\<lbrakk>served s s'; nic_active (card s); card_live s\<rbrakk> \<Longrightarrow> net_wf s' \<and> nic_active (card s') \<and> card_live s' \<and> same_net s s'"
  using same_net_alive[of s s'] by (simp add: served_def)

text \<open>Sixteen turns are enough: the task empties the queue.\<close>

lemma receive_task_spec:
  assumes "net_wf s" "nic_active (card s)" "length (frames (card s)) \<le> k"
  shows "\<exists>s'. receive_task k s = Some s' \<and> served s s' \<and> future s' = future s \<and> (0 < k \<longrightarrow> \<not> has_frame (card s'))"
  using assms
proof (induction k arbitrary: s)
  case 0
  then show ?case by (simp add: served_refl)
next
  case (Suc k)
  have nw: "nic_wf (card s)" using Suc.prems(1) by (simp add: net_wf_def)
  show ?case
  proof (cases "frames (card s)")
    case Nil
    then have "\<not> has_frame (card s)" using has_frame_queued[OF nw] by (metis length_frames list.size(3))
    then show ?thesis using Suc.prems(1) by (simp add: served_refl)
  next
    case (Cons f fs)
    then have h: "has_frame (card s)" using has_frame_queued[OF nw] by (metis length_frames length_0_conv list.distinct(1))
    obtain s1 where s1: "receive_one s = Some s1" "net_wf s1" "same_net s s1" "frames (card s1) = fs" "future s1 = future s"
        "dns_waiting s1 = dns_waiting s" "echo_waiting s1 = echo_waiting s"
        "dns_id s1 = dns_id s \<and> dns_local_port s1 = dns_local_port s \<and> dns_name s1 = dns_name s"
      by (rule receive_one_spec[OF Suc.prems(1) Cons Suc.prems(2)])
    have "length (frames (card s1)) \<le> k" "nic_active (card s1)" using s1(3,4) Suc.prems(2,3) Cons by (simp_all add: same_net_def)
    from Suc.IH[OF s1(2) this(2,1)] obtain s2 where s2: "receive_task k s1 = Some s2" "served s1 s2" "future s2 = future s1" "0 < k \<longrightarrow> \<not> has_frame (card s2)"
      by blast
    have "served s s1" using s1 by (simp add: served_def)
    moreover have "\<not> has_frame (card s2)"
    proof (cases "k = 0")
      case True
      then have "s2 = s1" "fs = []" using s2(1) Suc.prems(3) Cons by simp_all
      then show ?thesis using s1(2,4) has_frame_queued[of "card s1"] by (metis length_frames list.size(3) net_wf_def)
    qed (use s2(4) in simp)
    ultimately show ?thesis using s1(1,5) s2 h served_trans by auto
  qed
qed

lemma card_interrupt_spec:
  assumes wf: "net_wf s" and act: "nic_active (card s)" and live: "card_live s"
  obtains s' where "card_interrupt s = Some s'" "served s s'" "future s' = future s"
proof -
  have nw: "nic_wf (card s)" using wf by (simp add: net_wf_def)
  obtain k where "port_reads (card s) + 1 \<le> k" "port_in (card s) k (io_base (card s) + REG_CR) AND 1 \<noteq> 0"
    using live unfolding card_live_def by blast
  then have e: "port_in (card s) (port_reads (card s) + 1 + (k - (port_reads (card s) + 1))) (io_base (card s) + REG_CR) AND 1 \<noteq> 0" by simp
  obtain c where c: "interrupt_handler (card s) = Some c" "nic_wf c" "rx_only (card s) c"
    by (rule interrupt_handler_spec[OF nw e])
  define s1 where "s1 = s\<lparr>card := c\<rparr>"
  have s1: "net_wf s1" "served s s1" using wf c(2,3) by (auto simp: s1_def net_wf_def rx_only_def served_def same_net_def)
  obtain s' where "receive_task 16 s1 = Some s'" "served s1 s'" "future s' = future s1"
    using receive_task_spec[OF s1(1), of 16] queued_bounded[OF c(2)] act c(3) by (auto simp: s1_def rx_only_def)
  then show thesis using that[of s'] served_trans[OF s1(2)] c(1) by (simp add: card_interrupt_def s1_def)
qed


lemma elapse_served: "net_wf s \<Longrightarrow> served s (elapse ms s)"
  by (simp add: served_def elapse_def net_wf_def same_net_def)

text \<open>A wait with a time-out returns, if its condition keeps the invariant.\<close>

definition keeping :: "(net \<Rightarrow> 'a option \<times> net) \<Rightarrow> bool" where
  "keeping cond \<longleftrightarrow> (\<forall>s x s'. net_wf s \<longrightarrow> cond s = (x, s') \<longrightarrow> served s s')"

lemma wait_events_returns:
  assumes keep: "keeping cond" and "net_wf s" "nic_active (card s)" "card_live s"
  shows "\<exists>x s'. wait_events cond (Some l) es s = Some (x, s') \<and> served s s'"
  using assms(2-)
proof (induction es arbitrary: l s)
  case Nil
  note cond = keep[unfolded keeping_def, rule_format]
  obtain y s1 where c: "cond s = (y, s1)" by fastforce
  have s1: "served s s1" by (rule cond[OF Nil.prems(1) c])
  obtain z s2 where d: "cond (elapse l s1) = (z, s2)" by fastforce
  have "served s1 (elapse l s1)" using s1 elapse_served by (simp add: served_def)
  then have "served s s2" using cond[OF _ d] served_trans s1 by (meson served_def)
  then show ?case using c d s1 by (subst wait_events.simps) (auto split: option.split)
next
  case (Cons e es)
  note cond = keep[unfolded keeping_def, rule_format]
  obtain y s1 where c: "cond s = (y, s1)" by fastforce
  have s1: "served s s1" by (rule cond[OF Cons.prems(1) c])
  then have w1: "net_wf s1" "nic_active (card s1)" "card_live s1"
    using served_alive[OF s1 Cons.prems(2,3)] by simp_all
  have later: "\<exists>x s'. wait_events cond (Some l') es s2 = Some (x, s') \<and> served s s'" if "served s1 s2" for s2 l'
  proof -
    have "net_wf s2" "nic_active (card s2)" "card_live s2" using served_alive[OF that w1(2,3)] by simp_all
    from Cons.IH[OF this, of l'] show ?thesis using served_trans[OF served_trans[OF s1 that]] by blast
  qed
  show ?case
  proof (cases y)
    case (Some v)
    then show ?thesis using c s1 by (subst wait_events.simps) simp
  next
    case None
    show ?thesis
    proof (cases e)
      case (Elapse ms)
      obtain z s2 where d: "cond (elapse l s1) = (z, s2)" by fastforce
      have "served s s2" using cond[OF _ d] elapse_served[OF w1(1), of l] served_trans s1 by (meson served_def)
      then show ?thesis using c None Elapse d later[OF elapse_served[OF w1(1)]] by (subst wait_events.simps) simp
    next
      case Interrupt
      obtain s2 where s2: "card_interrupt s1 = Some s2" "served s1 s2" by (rule card_interrupt_spec[OF w1])
      then show ?thesis using c None Interrupt later[OF s2(2)] by (subst wait_events.simps) simp
    qed
  qed
qed

lemma net_wait_returns:
  assumes "keeping cond" "t \<noteq> WAIT_FOREVER" "net_wf s" "nic_active (card s)" "card_live s"
  obtains x s' where "net_wait cond t s = Some (x, s')" "served s s'"
proof -
  let ?s = "s\<lparr>future := tl (future s)\<rparr>"
  have s: "net_wf ?s" "nic_active (card ?s)" "card_live ?s" "served s ?s" using assms(3-5) by (simp_all add: net_wf_def card_live_def served_def same_net_def)
  define es where "es = (case future s of [] \<Rightarrow> [] | es # _ \<Rightarrow> es)"
  obtain x s' where "wait_events cond (Some (unat t)) es ?s = Some (x, s')" "served ?s s'"
    using wait_events_returns[OF assms(1) s(1-3)] by blast
  then show thesis using that served_trans[OF s(4)] assms(2) unfolding net_wait_def es_def by auto
qed


section \<open>Resolution, ping and name resolution return\<close>

lemma table_lookup_served: "net_wf s \<Longrightarrow> table_lookup ip s = (x, s') \<Longrightarrow> served s s'"
proof -
  assume wf: "net_wf s" and l: "table_lookup ip s = (x, s')"
  have "s' = s\<lparr>table := fst (arp_table_lookup (table s) ip (uptime s))\<rparr>" using l by (simp add: table_lookup_def split_beta)
  then show "served s s'" using wf by (simp add: served_def same_net_def net_wf_def arp_wf_lookup)
qed

lemma resolved_keeping: "keeping (resolved ip)"
  using table_lookup_served[of _ ip] by (simp add: keeping_def resolved_def table_lookup_def)

lemma resolve_loop_returns:
  assumes "net_wf s" "nic_active (card s)" "card_live s"
  shows "\<exists>x s'. resolve_loop k ip s = Some (x, s') \<and> served s s'"
  using assms
proof (induction k arbitrary: s)
  case 0
  then show ?case by (simp add: served_refl)
next
  case (Suc k)
  obtain frame n where f: "arp_frame (local_array 60 s) 60 (arp_make_request (own_mac s) (own_ip s) ip) = (frame, n)" by fastforce
  have lf: "unat n \<le> length frame" using arp_frame_fits(2)[OF f] by (simp add: local_array_def)
  obtain r s1 where r: "net_send frame n s = (r, s1)" by fastforce
  obtain c where c: "s1 = s\<lparr>card := c\<rparr>" "net_wf s1" "same_net s s1" by (rule net_send_spec[OF Suc.prems(1) lf r])
  have s1: "served s s1" "nic_active (card s1)" "card_live s1"
    using c same_net_alive[OF c(3) Suc.prems(2,3)] by (simp_all add: served_def)
  obtain x s2 where w: "net_wait (resolved ip) ARP_WAIT_MS s1 = Some (x, s2)" "served s1 s2"
    by (rule net_wait_returns[OF resolved_keeping _ c(2) s1(2,3)]) auto
  have s2: "served s s2" "net_wf s2" "nic_active (card s2)" "card_live s2"
    using served_trans[OF s1(1) w(2)] served_alive[OF w(2) s1(2,3)] by simp_all
  from Suc.IH[OF s2(2-4)] obtain y s3 where "resolve_loop k ip s2 = Some (y, s3)" "served s s3" using served_trans[OF s2(1)] by blast
  moreover have "resolve_loop (Suc k) ip s = (if n = 0 then Some (None, s) else if r < 0 then Some (None, s1)
      else case x of Some m \<Rightarrow> Some (Some m, s2) | None \<Rightarrow> resolve_loop k ip s2)"
    by (simp add: f r w(1))
  ultimately show ?case using s1(1) s2(1) served_refl[OF Suc.prems(1)] by (cases x) (simp_all del: resolve_loop.simps)
qed

lemma resolve_returns:
  assumes "net_wf s" "nic_active (card s)" "card_live s"
  obtains x s' where "resolve ip s = Some (x, s')" "served s s'"
proof -
  obtain y s1 where l: "table_lookup ip s = (y, s1)" by fastforce
  have s1: "served s s1" by (rule table_lookup_served[OF assms(1) l])
  have "net_wf s1" "nic_active (card s1)" "card_live s1" using served_alive[OF s1 assms(2,3)] by simp_all
  from resolve_loop_returns[OF this, of ARP_ATTEMPTS ip] show thesis
    using that l s1 served_trans[OF s1] by (cases y) (auto simp: resolve_def)
qed

lemma length_ping_data [simp]: "length ping_data = 32"
  by (simp add: ping_data_def)

text \<open>The state in which the wait for the reply starts, and the request that has been sent.\<close>

definition echo_request :: "mac_addr \<Rightarrow> ipv4_addr \<Rightarrow> net \<Rightarrow> u8 list" where
  "echo_request dest target s = ipv4_frame \<lparr>destination = dest, source = own_mac s, ether_type = 0x0800\<rparr>
     (ipv4_header_init (own_ip s) target 1)
     (icmp_bytes 8 0 (icmp_sum 8 0 PING_ID (echo_sequence s) ping_data) PING_ID (echo_sequence s) ping_data)"

definition request_sent :: "mac_addr \<Rightarrow> ipv4_addr \<Rightarrow> net \<Rightarrow> net \<Rightarrow> bool" where
  "request_sent dest target s s' \<longleftrightarrow> (\<exists>buf. frame_sent buf (echo_request dest target s')
     (s\<lparr>echo_sequence := echo_sequence s + 1, echo_target := target, echo_received := False, echo_waiting := True\<rparr>) s')"

lemma ping_send_spec:
  assumes wf: "net_wf s" and act: "nic_active (card s)"
  obtains (refused) s1 where "ping_send dest target t s = Some (Inl NET_ERR_SEND, s1)" "net_wf s1" "same_net s s1" "\<not> echo_waiting s1" "dns_waiting s1 = dns_waiting s" "\<not> slot_free (card s)"
  | (sent) s1 where "ping_send dest target t s = ping_wait t (uptime s1) s1" "net_wf s1" "same_net s s1" "echo_waiting s1" "\<not> echo_received s1"
      "echo_target s1 = target" "echo_sequence s1 = echo_sequence s + 1" "dns_waiting s1 = dns_waiting s"
      "request_sent dest target s s1"
proof -
  define s0 where "s0 = s\<lparr>echo_sequence := echo_sequence s + 1, echo_target := target, echo_received := False, echo_waiting := True\<rparr>"
  define p where "p = icmp_bytes 8 0 (icmp_sum 8 0 PING_ID (echo_sequence s0) ping_data) PING_ID (echo_sequence s0) ping_data"
  have b: "icmp_build (local_array 40 s0) 40 8 0 PING_ID (echo_sequence s0) ping_data 32 = (write_at (local_array 40 s0) 0 p, 40)"
    by (simp add: icmp_build_eq p_def local_array_def)
  have lp: "length p = 40" by (simp add: p_def)
  then have wp: "write_at (local_array 40 s0) 0 p = p" by (simp add: write_at_def local_array_def)
  obtain ok pk fr s1 where r: "send_ipv4 dest target 1 p 40 (local_array 60 s0) 60 (local_array 74 s0) 74 s0 = (ok, pk, fr, s1)"
    by (metis prod_cases4)
  have wf0: "net_wf s0" using wf by (simp add: s0_def net_wf_def)
  have fit: "unat (40 :: u32) \<le> length p" "unat (60 :: u32) \<le> length (local_array 60 s0)" "unat (74 :: u32) \<le> length (local_array 74 s0)"
    using lp by (simp_all add: local_array_def)
  obtain c where c: "s1 = s0\<lparr>card := c\<rparr>" "net_wf s1" "same_net s0 s1"
      "ok \<longleftrightarrow> 20 + unat (40 :: u32) \<le> unat (60 :: u32) \<and> unat (40 :: u32) \<le> 1480 \<and> max 60 (34 + unat (40 :: u32)) \<le> unat (74 :: u32) \<and>
         nic_active (card s0) \<and> slot_free (card s0)"
      "ok \<longrightarrow> frame_sent fr (ipv4_frame \<lparr>destination = dest, source = own_mac s0, ether_type = 0x0800\<rparr>
         (ipv4_header_init (own_ip s0) target 1) (take (unat (40 :: u32)) p)) s0 s1"
    by (rule send_ipv4_spec[OF wf0 fit r])
  have e: "ping_send dest target t s = (if \<not> ok then Some (Inl NET_ERR_SEND, s1\<lparr>echo_waiting := False\<rparr>) else ping_wait t (uptime s0) s1)"
    using b r wp by (simp add: ping_send_def s0_def[symmetric] Let_def)
  show thesis
  proof (cases ok)
    case False
    then show thesis using refused[of "s1\<lparr>echo_waiting := False\<rparr>"] e c(1-4) act by (simp add: net_wf_def same_net_def s0_def)
  next
    case True
    have f: "ipv4_frame \<lparr>destination = dest, source = own_mac s0, ether_type = 0x0800\<rparr> (ipv4_header_init (own_ip s0) target 1)
        (take (unat (40 :: u32)) p) = echo_request dest target s1"
      using lp by (simp add: echo_request_def p_def c(1))
    have "request_sent dest target s s1" unfolding request_sent_def s0_def[symmetric] using c(5) True f by auto
    then show thesis using sent[of s1] e c(1-3) True by (simp add: same_net_def s0_def)
  qed
qed

lemma ready_keeping: "keeping echo_ready" "keeping dns_ready"
  by (simp_all add: keeping_def echo_ready_def dns_ready_def served_refl)

lemma net_ping_returns:
  assumes wf: "net_wf s" and live: "card_live s" and t: "t \<noteq> WAIT_FOREVER" and idle: "\<not> echo_waiting s"
  obtains r s' where "net_ping target t s = Some (r, s')" "net_wf s'" "same_net s s'" "\<not> echo_waiting s'" "\<not> net_active s \<longrightarrow> r = Inl NET_ERR_NO_DEVICE \<and> s' = s"
proof (cases "net_active s")
  case False
  then show thesis using that[of "Inl NET_ERR_NO_DEVICE" s] wf idle by (simp add: net_ping_def)
next
  case True
  have act: "nic_active (card s)" using wf True by (simp add: net_wf_def)
  obtain x s1 where r: "resolve (next_hop target s) s = Some (x, s1)" "served s s1" by (rule resolve_returns[OF wf act live])
  have s1: "net_wf s1" "nic_active (card s1)" "card_live s1" "same_net s s1" "\<not> echo_waiting s1"
    using served_alive[OF r(2) act live] r(2) idle by (simp_all add: served_def)
  show thesis
  proof (cases x)
    case None
    then show thesis using that[of "Inl NET_ERR_NO_ROUTE" s1] r(1) s1 True by (simp add: net_ping_def)
  next
    case (Some dest)
    have n: "net_ping target t s = ping_send dest target t s1" using r(1) Some True by (simp add: net_ping_def)
    show thesis
    proof (rule ping_send_spec[OF s1(1,2), of dest target t])
      fix s2
      assume "ping_send dest target t s1 = Some (Inl NET_ERR_SEND, s2)" "net_wf s2" "same_net s1 s2" "\<not> echo_waiting s2"
      then show thesis using that[of "Inl NET_ERR_SEND" s2] n True same_net_trans[OF s1(4)] by simp
    next
      fix s2
      assume p: "ping_send dest target t s1 = ping_wait t (uptime s2) s2" "net_wf s2" "same_net s1 s2"
      have "nic_active (card s2)" "card_live s2" using same_net_alive[OF p(3) s1(2,3)] by simp_all
      then obtain y s3 where w: "net_wait echo_ready t s2 = Some (y, s3)" "served s2 s3"
        by (rule net_wait_returns[OF ready_keeping(1) t p(2)])
      then obtain q where q: "ping_wait t (uptime s2) s2 = Some (q, s3\<lparr>echo_waiting := False\<rparr>)" by (cases y) (auto simp: ping_wait_def Let_def)
      have "same_net s s3" "net_wf s3" using w(2) same_net_trans[OF s1(4) same_net_trans[OF p(3)]] by (auto simp: served_def)
      then show thesis using that[of q "s3\<lparr>echo_waiting := False\<rparr>"] n p(1) q True by (simp add: same_net_def net_wf_def)
    qed
  qed
qed


lemma length_name_encode_loop: "limit \<le> length out \<Longrightarrow> length (fst (name_encode_loop limit out len name)) = length out"
proof (induction limit out len name rule: name_encode_loop.induct)
  case (1 limit out len name)
  show ?case
  proof (cases "name_label name")
    case None
    then show ?thesis by (simp add: name_encode_loop.simps[of limit out len name])
  next
    case (Some q)
    let ?o = "write_at (write_at out len [of_nat (length (fst q))]) (len + 1) (fst q)" and ?l = "len + (1 + length (fst q))"
    show ?thesis
    proof (cases "length (fst q) = 0 \<or> length (fst q) > 63 \<or> len + 1 + length (fst q) + 1 > limit")
      case True
      then show ?thesis by (subst name_encode_loop.simps) (auto simp: Some)
    next
      case False
      then have o: "length ?o = length out" "?l + 1 \<le> length out" using "1.prems" by simp_all
      have "name_encode_loop limit out len name =
          (if peek (snd q) = 0 \<or> peek (drop 1 (snd q)) = 0 then (write_at ?o ?l [0], ?l + 1) else name_encode_loop limit ?o ?l (drop 1 (snd q)))"
        using False by (subst name_encode_loop.simps) (auto simp: Some Let_def)
      then show ?thesis using "1.IH"[OF Some] False o "1.prems" by (auto simp: Let_def)
    qed
  qed
qed

lemma dns_query_fits:
  assumes "dns_query_build buf 512 ident name = (q, n)" "length buf = 512"
  shows "length q = 512" "unat n \<le> 512"
proof -
  obtain tail m where e: "name_encode (drop 12 buf) 496 name = (tail, m)" by fastforce
  have tl: "length tail = 500"
    using length_name_encode_loop[of 255 "drop 12 buf" 0 name] e assms(2) by (simp add: name_encode_def)
  have m: "m \<le> 255" using name_encode_loop_bound[of 255 "drop 12 buf" 0 name] e by (simp add: name_encode_def)
  define b0 where "b0 = take 12 buf @ tail"
  have b0: "length b0 = 512" using assms(2) tl by (simp add: b0_def)
  define b where "b = be16_write (be16_write (be16_write (be16_write (be16_write (write_at b0 0 (replicate 12 0)) 0 ident) 2 0x0100) 4 1) (12 + m) 1) (12 + m + 2) 1"
  have lb: "length b = 512" using b0 m by (simp add: b_def be16_write_def)
  have "(q, n) = (if m = 0 then (b0, 0) else (b, of_nat (12 + m + 4)))"
    using assms(1) e unfolding dns_query_build_def Let_def b_def b0_def by (simp add: if_split_eq1 split: if_splits)
  moreover have "unat (of_nat (12 + m + 4) :: u32) = 12 + m + 4" using m by (intro unat_of_nat_u32) linarith
  ultimately show "length q = 512" "unat n \<le> 512" using b0 lb m by (auto split: if_splits)
qed

text \<open>What an attempt sends out: the state before the query goes out.\<close>

lemma dns_prepare_spec:
  assumes wf: "net_wf s" and p: "dns_prepare s = ((qs, ds), s')"
  shows "net_wf s'" "same_net s s'" "unat ds \<le> length (dns_datagram s')" "\<not> dns_done s'" "dns_name s' = dns_name s" "echo_waiting s' = echo_waiting s"
    "dns_waiting s' = dns_waiting s"
proof -
  obtain random s0 where e: "entropy s = (random, s0)" by fastforce
  have s0: "net_wf s0" "same_net s s0" "dns_name s0 = dns_name s" "echo_waiting s0 = echo_waiting s" "dns_waiting s0 = dns_waiting s"
    using e wf by (auto simp: entropy_def Let_def net_wf_def same_net_def)
  define s1 where "s1 = s0\<lparr>dns_id := ucast random, dns_local_port := ucast (DNS_PORT_BASE + (drop_bit 3 random) mod DNS_PORT_COUNT),
            dns_done := False, dns_status := None\<rparr>"
  obtain query n where q: "dns_query_build (dns_query s1) 512 (dns_id s1) (dns_name s1) = (query, n)" by fastforce
  have ql: "length query = 512" "unat n \<le> 512" using dns_query_fits[OF q] s0(1) by (simp_all add: s1_def net_wf_def)
  obtain dg m where u: "udp_build (dns_datagram s1) 520 (own_ip s1) (dns_server s1) (dns_local_port s1) 53 query n = (dg, m)" by fastforce
  have dl: "length dg = 520" "unat m \<le> 520"
    using u s0(1) ql by (auto simp: udp_build_eq s1_def net_wf_def udp_bytes_def unat_add_u32 split: if_splits)
  have s': "s' = s1\<lparr>dns_query := query, dns_datagram := dg\<rparr>" "qs = n" "ds = m"
    using p e q u by (auto simp: dns_prepare_def Let_def s1_def)
  show "net_wf s'" "same_net s s'" "unat ds \<le> length (dns_datagram s')" "\<not> dns_done s'" "dns_name s' = dns_name s" "echo_waiting s' = echo_waiting s"
    "dns_waiting s' = dns_waiting s"
    using s0 ql dl by (simp_all add: s' s1_def net_wf_def same_net_def)
qed

text \<open>
  One attempt, up to the wait for the answer: the query goes out, in a datagram from a fresh port and with a fresh identifier
  (\<open>dns_prepare\<close>), in a packet to the name server.
\<close>

definition query_sent :: "mac_addr \<Rightarrow> net \<Rightarrow> net \<Rightarrow> bool" where
  "query_sent dest s s' \<longleftrightarrow> (\<exists>qs ds s1 s2 pk buf. dns_prepare s = ((qs, ds), s1) \<and> qs \<noteq> 0 \<and> ds \<noteq> 0 \<and>
     frame_sent buf (ipv4_frame \<lparr>destination = dest, source = own_mac s, ether_type = 0x0800\<rparr>
       (ipv4_header_init (own_ip s) (dns_server s) 17) (take (unat ds) (dns_datagram s1))) (s1\<lparr>dns_waiting := True\<rparr>) s2 \<and>
     s' = s2\<lparr>dns_packet := pk, dns_frame := buf\<rparr>)"

lemma dns_loop_step:
  assumes wf: "net_wf s"
  obtains (stopped) e s1 where "dns_loop (Suc k) dest t s = Some (Inl e, s1)" "net_wf s1" "same_net s s1" "echo_waiting s1 = echo_waiting s"
      "dns_waiting s1 \<longrightarrow> dns_waiting s" "nic_active (card s) \<and> slot_free (card s) \<longrightarrow> fst (fst (dns_prepare s)) = 0 \<or> snd (fst (dns_prepare s)) = 0"
  | (asked) s1 where "net_wf s1" "same_net s s1" "\<not> dns_done s1" "dns_name s1 = dns_name s" "query_sent dest s s1"
      "\<And>x s2. net_wait dns_ready t s1 = Some (x, s2) \<Longrightarrow> dns_loop (Suc k) dest t s =
        (if x \<noteq> None then Some (dns_result s2, s2\<lparr>dns_waiting := False\<rparr>) else dns_loop k dest t (s2\<lparr>dns_waiting := False\<rparr>))"
proof -
  obtain qs ds s0 where p: "dns_prepare s = ((qs, ds), s0)" by (metis surj_pair)
  note P = dns_prepare_spec[OF wf p]
  define s1 where "s1 = s0\<lparr>dns_waiting := True\<rparr>"
  have s1: "net_wf s1" "same_net s s1" using P(1,2) by (simp_all add: s1_def net_wf_def same_net_def)
  obtain ok pk fr s2 where r: "send_ipv4 dest (dns_server s1) 17 (dns_datagram s1) ds (dns_packet s1) 540 (dns_frame s1) 554 s1 = (ok, pk, fr, s2)"
    by (metis prod_cases4)
  have fit: "unat ds \<le> length (dns_datagram s1)" "unat (540 :: u32) \<le> length (dns_packet s1)" "unat (554 :: u32) \<le> length (dns_frame s1)"
    using P(3) s1(1) by (simp_all add: s1_def net_wf_def)
  obtain c where c: "s2 = s1\<lparr>card := c\<rparr>" "net_wf s2" "same_net s1 s2" "length pk = length (dns_packet s1)" "length fr = length (dns_frame s1)"
      "ok \<longrightarrow> frame_sent fr (ipv4_frame \<lparr>destination = dest, source = own_mac s1, ether_type = 0x0800\<rparr>
         (ipv4_header_init (own_ip s1) (dns_server s1) 17) (take (unat ds) (dns_datagram s1))) s1 s2"
      "ok \<longleftrightarrow> 20 + unat ds \<le> unat (540 :: u32) \<and> unat ds \<le> 1480 \<and> max 60 (34 + unat ds) \<le> unat (554 :: u32) \<and> nic_active (card s1) \<and> slot_free (card s1)"
    by (rule send_ipv4_spec[OF s1(1) fit r])
  define s3 where "s3 = s2\<lparr>dns_packet := pk, dns_frame := fr\<rparr>"
  have s3: "net_wf s3" "same_net s s3" using c s1 same_net_trans[OF s1(2) c(3)] by (simp_all add: s3_def net_wf_def same_net_def)
  have step: "dns_loop (Suc k) dest t s = (if qs = 0 \<or> ds = 0 then Some (Inl NET_ERR_NAME, s0)
      else if \<not> ok then Some (Inl NET_ERR_SEND, s3\<lparr>dns_waiting := False\<rparr>)
      else Option.bind (net_wait dns_ready t s3) (\<lambda>(x, s). let s = s\<lparr>dns_waiting := False\<rparr> in
        if x \<noteq> None then Some (dns_result s, s) else dns_loop k dest t s))"
    using p r by (simp add: Let_def s1_def[symmetric] s3_def)
  have res: "dns_result (s\<lparr>dns_waiting := False\<rparr>) = dns_result s" for s :: net by (cases "dns_status s") (simp_all add: dns_result_def)
  show thesis
  proof (cases "qs = 0 \<or> ds = 0 \<or> \<not> ok")
    case True
    have "unat ds \<le> 520" using P(1,3) by (simp add: net_wf_def)
    moreover have "card s1 = card s" using p by (simp add: s1_def dns_prepare_def entropy_def Let_def split_beta) auto
    ultimately have "nic_active (card s) \<and> slot_free (card s) \<longrightarrow> fst (fst (dns_prepare s)) = 0 \<or> snd (fst (dns_prepare s)) = 0"
      using True c(7) p by auto
    with True show thesis
      using stopped[of NET_ERR_NAME s0] stopped[of NET_ERR_SEND "s3\<lparr>dns_waiting := False\<rparr>"] step P s3
      by (cases "qs = 0 \<or> ds = 0") (simp_all add: net_wf_def same_net_def s3_def c(1) s1_def)
  next
    case False
    have "own_mac s1 = own_mac s" "own_ip s1 = own_ip s" "dns_server s1 = dns_server s" "dns_datagram s1 = dns_datagram s0"
      using s1(2) by (simp_all add: same_net_def s1_def)
    then have "query_sent dest s s3" unfolding query_sent_def using p False c(6) s3_def s1_def by metis
    moreover have "\<not> dns_done s3" "dns_name s3 = dns_name s" using P by (simp_all add: s3_def c(1) s1_def)
    moreover have "dns_loop (Suc k) dest t s =
        (if x \<noteq> None then Some (dns_result s2, s2\<lparr>dns_waiting := False\<rparr>) else dns_loop k dest t (s2\<lparr>dns_waiting := False\<rparr>))"
      if "net_wait dns_ready t s3 = Some (x, s2)" for x s2
      using False step that by (simp add: res Let_def)
    ultimately show thesis using asked[OF s3(1,2)] by blast
  qed
qed

lemma dns_loop_returns:
  assumes "net_wf s" "nic_active (card s)" "card_live s" "t \<noteq> WAIT_FOREVER" "\<not> dns_waiting s"
  shows "\<exists>r s'. dns_loop k dest t s = Some (r, s') \<and> net_wf s' \<and> same_net s s' \<and> \<not> dns_waiting s'"
  using assms
proof (induction k arbitrary: s)
  case (Suc k)
  from Suc.prems(1) show ?case
  proof (cases rule: dns_loop_step[of s k dest t])
    case (stopped e s1)
    then show ?thesis using Suc.prems(5) by auto
  next
    case (asked s1)
    have a1: "nic_active (card s1)" "card_live s1" using same_net_alive[OF asked(2) Suc.prems(2,3)] by simp_all
    obtain x s2 where w: "net_wait dns_ready t s1 = Some (x, s2)" "served s1 s2"
      by (rule net_wait_returns[OF ready_keeping(2) Suc.prems(4) asked(1) a1])
    let ?s = "s2\<lparr>dns_waiting := False\<rparr>"
    have a2: "net_wf ?s" "nic_active (card ?s)" "card_live ?s" "same_net s ?s"
      using served_alive[OF w(2) a1] same_net_trans[OF asked(2), of s2] by simp_all
    from Suc.IH[OF a2(1-3) Suc.prems(4)] obtain r s3 where "dns_loop k dest t ?s = Some (r, s3)" "net_wf s3" "same_net s s3" "\<not> dns_waiting s3"
      using same_net_trans[OF a2(4)] by auto
    then show ?thesis using asked(6)[OF w(1)] a2 by (cases x) (simp_all del: dns_loop.simps)
  qed
qed simp


lemma copy_dns_name_spec: "copy_dns_name i cs = (if i + length cs \<le> DNS_NAME_MAX \<or> cs = [] then Some cs else None)"
  by (induction cs arbitrary: i) auto

lemma net_resolve_returns:
  assumes wf: "net_wf s" and live: "card_live s" and t: "t \<noteq> WAIT_FOREVER" and idle: "\<not> dns_waiting s"
  obtains r s' where "net_resolve name t s = Some (r, s')" "net_wf s'" "same_net s s'" "\<not> dns_waiting s'"
    "\<not> net_active s \<longrightarrow> r = Inl NET_ERR_NO_DEVICE \<and> s' = s"
    "net_active s \<and> DNS_NAME_MAX < length name \<longrightarrow> r = Inl NET_ERR_NAME \<and> card s' = card s"
proof (cases "net_active s")
  case False
  then show thesis using that[of "Inl NET_ERR_NO_DEVICE" s] wf idle by (simp add: net_resolve_def)
next
  case True
  have act: "nic_active (card s)" using wf True by (simp add: net_wf_def)
  show thesis
  proof (cases "length name \<le> DNS_NAME_MAX")
    case False
    then have "name \<noteq> []" by auto
    then have "net_resolve name t s = Some (Inl NET_ERR_NAME, s\<lparr>dns_name := take DNS_NAME_MAX name\<rparr>)"
      using True False by (simp add: net_resolve_def copy_dns_name_spec)
    then show thesis by (rule that) (use wf idle True in \<open>simp_all add: net_wf_def same_net_def\<close>)
  next
    case short: True
    obtain query n where q: "dns_query_build (dns_query s) 512 0 name = (query, n)" by fastforce
    define s1 where "s1 = s\<lparr>dns_name := name, dns_query := query\<rparr>"
    have s1: "net_wf s1" "same_net s s1" "nic_active (card s1)" "card_live s1" "\<not> dns_waiting s1" "net_active s1"
      using wf live act idle True dns_query_fits(1)[OF q] by (simp_all add: s1_def net_wf_def same_net_def card_live_def)
    obtain x s2 where r: "resolve (next_hop (dns_server s1) s1) s1 = Some (x, s2)" "served s1 s2" by (rule resolve_returns[OF s1(1,3,4)])
    have e: "net_resolve name t s = (if n = 0 then Some (Inl NET_ERR_NAME, s1)
        else case x of None \<Rightarrow> Some (Inl NET_ERR_NO_ROUTE, s2) | Some dest \<Rightarrow> dns_loop DNS_ATTEMPTS dest t s2)"
      using True short q r(1) by (simp add: net_resolve_def copy_dns_name_spec Let_def s1_def)
    have s2: "net_wf s2" "nic_active (card s2)" "card_live s2" "same_net s s2" "\<not> dns_waiting s2"
      using served_alive[OF r(2) s1(3,4)] same_net_trans[OF s1(2)] r(2) s1(5) by (simp_all add: served_def)
    have "\<exists>y s'. net_resolve name t s = Some (y, s') \<and> net_wf s' \<and> same_net s s' \<and> \<not> dns_waiting s'"
    proof (cases "n = 0 \<or> x = None")
      case True
      then show ?thesis using e s1(1,2,5) s2(1,4,5) by (cases "n = 0") simp_all
    next
      case False
      then obtain dest where d: "net_resolve name t s = dns_loop DNS_ATTEMPTS dest t s2" using e by auto
      show ?thesis
        unfolding d using dns_loop_returns[OF s2(1-3) t s2(5), of DNS_ATTEMPTS dest] same_net_trans[OF s2(4)] by blast
    qed
    then show thesis using that True short by auto
  qed
qed


section \<open>What ends a wait\<close>

text \<open>
  The steps that happen while a task waits, on the events that are still to come and the state: time passes, the card
  interrupts, the receive task takes a frame from the queue.
\<close>

inductive net_step :: "net_event list \<times> net \<Rightarrow> net_event list \<times> net \<Rightarrow> bool" where
  time: "net_step (Elapse ms # es, s) (es, elapse (unat ms) s)"
| interrupt: "interrupt_handler (card s) = Some c \<Longrightarrow> net_step (Interrupt # es, s) (es, s\<lparr>card := c\<rparr>)"
| receive: "has_frame (card s) \<Longrightarrow> receive_one s = Some s' \<Longrightarrow> net_step (es, s) (es, s')"

inductive_cases net_stepE: "net_step c (es', s')"

abbreviation net_run :: "net_event list \<times> net \<Rightarrow> net_event list \<times> net \<Rightarrow> bool" where
  "net_run \<equiv> net_step\<^sup>*\<^sup>*"

text \<open>Where a wait starts: with the events that come during it.\<close>

definition wait_start :: "net \<Rightarrow> net_event list \<times> net" where
  "wait_start s = (case future s of [] \<Rightarrow> [] | es # _ \<Rightarrow> es, s\<lparr>future := tl (future s)\<rparr>)"

lemma receive_task_run: "receive_task k s = Some s' \<Longrightarrow> net_run (es, s) (es, s')"
proof (induction k arbitrary: s)
  case (Suc k)
  show ?case
  proof (cases "has_frame (card s)")
    case True
    then obtain s1 where s1: "receive_one s = Some s1" "receive_task k s1 = Some s'" using Suc.prems by (auto split: Option.bind_splits)
    show ?thesis by (rule converse_rtranclp_into_rtranclp[OF net_step.receive[OF True s1(1)] Suc.IH[OF s1(2)]])
  qed (use Suc.prems in simp)
qed simp

lemma card_interrupt_run:
  assumes "card_interrupt s = Some s'"
  shows "net_run (Interrupt # es, s) (es, s')"
proof -
  obtain c where c: "interrupt_handler (card s) = Some c" "receive_task QUEUE_SLOTS (s\<lparr>card := c\<rparr>) = Some s'"
    using assms by (auto simp: card_interrupt_def split: Option.bind_splits)
  show ?thesis by (rule converse_rtranclp_into_rtranclp[OF net_step.interrupt[OF c(1)] receive_task_run[OF c(2)]])
qed

text \<open>A wait that succeeds has run through such steps to a state in which the condition holds; it does not succeed by a time-out.\<close>

lemma wait_events_run:
  assumes "\<And>n s. g (elapse n s) = g s" "wait_events (\<lambda>s. (g s, s)) left es s = Some (Some x, s')"
  shows "g s' = Some x \<and> (\<exists>es'. net_run (es, s) (es', s'))"
  using assms(2)
proof (induction es arbitrary: left s)
  case Nil
  then show ?case by (subst (asm) wait_events.simps) (auto simp: assms(1) split: option.splits)
next
  case (Cons e es)
  show ?case
  proof (cases "g s")
    case (Some y)
    then show ?thesis using Cons.prems by (subst (asm) wait_events.simps) auto
  next
    case None
    note P = Cons.prems[unfolded wait_events.simps[of _ _ "e # es"] None, simplified]
    show ?thesis
    proof (cases e)
      case (Elapse ms)
      then obtain l where "wait_events (\<lambda>s. (g s, s)) l es (elapse (unat ms) s) = Some (Some x, s')"
        using P None by (auto simp: assms(1) split: option.splits if_splits)
      from Cons.IH[OF this] show ?thesis
        unfolding Elapse using converse_rtranclp_into_rtranclp[of net_step, OF net_step.time] by blast
    next
      case Interrupt
      then obtain s1 where "card_interrupt s = Some s1" "wait_events (\<lambda>s. (g s, s)) left es s1 = Some (Some x, s')" using P by (auto split: option.splits)
      then show ?thesis unfolding Interrupt using Cons.IH card_interrupt_run rtranclp_trans[of net_step] by blast
    qed
  qed
qed

lemma ready_eq: "echo_ready = (\<lambda>s. (if echo_received s then Some () else None, s))" "dns_ready = (\<lambda>s. (if dns_done s then Some () else None, s))"
  by (simp_all add: echo_ready_def dns_ready_def fun_eq_iff)

lemma net_wait_run:
  "net_wait echo_ready t s = Some (Some x, s') \<Longrightarrow> echo_received s' \<and> (\<exists>es. net_run (wait_start s) (es, s'))"
  "net_wait dns_ready t s = Some (Some x, s') \<Longrightarrow> dns_done s' \<and> (\<exists>es. net_run (wait_start s) (es, s'))"
proof -
  have e: "(if echo_received (elapse n s) then Some () else None) = (if echo_received s then Some () else None)"
    "(if dns_done (elapse n s) then Some () else None) = (if dns_done s then Some () else None)" for n s
    by (simp_all add: elapse_def)
  show "echo_received s' \<and> (\<exists>es. net_run (wait_start s) (es, s'))" if "net_wait echo_ready t s = Some (Some x, s')"
    using wait_events_run[OF e(1) that[unfolded net_wait_def ready_eq]] unfolding wait_start_def by (simp split: if_splits)
  show "dns_done s' \<and> (\<exists>es. net_run (wait_start s) (es, s'))" if "net_wait dns_ready t s = Some (Some x, s')"
    using wait_events_run[OF e(2) that[unfolded net_wait_def ready_eq]] unfolding wait_start_def by (simp split: if_splits)
qed

text \<open>
  \<open>answer_taken P c c'\<close>: on the way from \<open>c\<close> to \<open>c'\<close> the receive task took a frame from the queue, and \<open>P\<close> holds of the
  state before it, the buffer it was copied to and its size.
\<close>

definition answer_taken :: "(net \<Rightarrow> u8 list \<Rightarrow> u32 \<Rightarrow> bool) \<Rightarrow> net_event list \<times> net \<Rightarrow> net_event list \<times> net \<Rightarrow> bool" where
  "answer_taken P c c' \<longleftrightarrow> (\<exists>es s f fs s'. net_run c (es, s) \<and> frames (card s) = f # fs \<and> P s (taken s f) (taken_size f) \<and>
     receive_one s = Some s' \<and> net_run (es, s') c')"

lemma answer_taken_step: "answer_taken P c c1 \<Longrightarrow> net_step c1 c2 \<Longrightarrow> answer_taken P c c2"
  unfolding answer_taken_def by (meson rtranclp.rtrancl_into_rtrancl)

lemma answer_taken_mono: "answer_taken P c c' \<Longrightarrow> (\<And>s buf n. P s buf n \<Longrightarrow> Q s buf n) \<Longrightarrow> answer_taken Q c c'"
  unfolding answer_taken_def by blast

text \<open>
  Along such steps what is waited for does not change, and only a received frame that answers can complete the wait.
\<close>

definition awaits :: "net \<Rightarrow> net \<Rightarrow> bool" where
  "awaits s s' \<longleftrightarrow> net_wf s' \<and> same_net s s' \<and> echo_target s' = echo_target s \<and> echo_sequence s' = echo_sequence s \<and>
    dns_id s' = dns_id s \<and> dns_local_port s' = dns_local_port s \<and> dns_name s' = dns_name s"

abbreviation echo_taken :: "net \<Rightarrow> net \<Rightarrow> net_event list \<times> net \<Rightarrow> net_event list \<times> net \<Rightarrow> bool" where
  "echo_taken s s' \<equiv> answer_taken (\<lambda>s1 buf n. awaits s s1 \<and> echo_answer s1 buf n \<and> echo_time s' = uptime s1)"

abbreviation dns_taken :: "net \<Rightarrow> dns_error + ipv4_addr \<Rightarrow> net_event list \<times> net \<Rightarrow> net_event list \<times> net \<Rightarrow> bool" where
  "dns_taken s r \<equiv> answer_taken (\<lambda>s1 buf n. awaits s s1 \<and> dns_answer s1 buf n r)"

lemma net_run_facts:
  assumes "net_run (es, s) (es', s')" "net_wf s" "nic_active (card s)"
  shows "awaits s s' \<and> (echo_received s' \<longrightarrow> echo_received s \<or> echo_taken s s' (es, s) (es', s')) \<and>
    (dns_done s' \<longrightarrow> dns_done s \<or> (\<exists>r. dns_taken s r (es, s) (es', s') \<and> dns_settled r s'))"
  using assms(1)
proof (induction "(es', s')" arbitrary: es' s' rule: rtranclp_induct)
  case base
  then show ?case using assms by (simp add: awaits_def)
next
  case (step c)
  obtain es1 s1 where c: "c = (es1, s1)" by (cases c)
  have I: "awaits s s1" "echo_received s1 \<longrightarrow> echo_received s \<or> echo_taken s s1 (es, s) (es1, s1)"
      "dns_done s1 \<longrightarrow> dns_done s \<or> (\<exists>r. dns_taken s r (es, s) (es1, s1) \<and> dns_settled r s1)"
    using step.hyps(3)[OF c] by blast+
  have E: "echo_received s' \<longrightarrow> echo_received s \<or> echo_taken s s' (es, s) (es', s')" if "echo_part s' = echo_part s1"
  proof -
    have e: "echo_received s' = echo_received s1" "echo_time s' = echo_time s1" using that by (simp_all add: echo_part_def)
    show ?thesis unfolding e using I(2) answer_taken_step[OF _ step.hyps(2)[unfolded c]] by blast
  qed
  have D: "dns_done s' \<longrightarrow> dns_done s \<or> (\<exists>r. dns_taken s r (es, s) (es', s') \<and> dns_settled r s')" if "dns_part s' = dns_part s1"
  proof -
    have e: "dns_done s' = dns_done s1" "dns_settled r s' = dns_settled r s1" for r
      using that by (auto simp: dns_part_def dns_settled_def split: sum.split)
    show ?thesis unfolding e using I(3) answer_taken_step[OF _ step.hyps(2)[unfolded c]] by blast
  qed
  have s1: "net_wf s1" "same_net s s1" "nic_active (card s1)" using I(1) assms(3) by (auto simp: same_net_def awaits_def)
  have same: ?case
    if "net_wf s'" "same_net s1 s'" "echo_part s' = echo_part s1" "dns_part s' = dns_part s1"
  proof -
    have "awaits s s'" using I(1) that same_net_trans[OF s1(2)] by (simp add: awaits_def echo_part_def dns_part_def)
    then show ?case using E[OF that(3)] D[OF that(4)] by blast
  qed
  from step.hyps(2)[unfolded c] show ?case
  proof (cases rule: net_step.cases)
    case (time ms)
    then show ?thesis using s1(1) by (intro same) (auto simp: elapse_def net_wf_def same_net_def echo_part_def dns_part_def)
  next
    case (interrupt d)
    have "nic_wf (card s1)" using s1(1) by (simp add: net_wf_def)
    then have "nic_wf d" "rx_only (card s1) d" using interrupt_handler_keeps interrupt by blast+
    then show ?thesis using s1(1) interrupt by (intro same) (auto simp: net_wf_def same_net_def rx_only_def echo_part_def dns_part_def)
  next
    case receive
    have "nic_wf (card s1)" using s1(1) by (simp add: net_wf_def)
    then obtain f fs where f: "frames (card s1) = f # fs"
      using receive(2) has_frame_queued[of "card s1"] by (metis length_frames list.exhaust list.size(3))
    show ?thesis
    proof (rule receive_one_spec[OF s1(1) f s1(3)])
      fix s3
      assume r: "receive_one s1 = Some s3" "net_wf s3" "same_net s1 s3"
        "echo_part s3 = echo_part s1 \<or> echo_answer s1 (taken s1 f) (taken_size f) \<and> echo_part s3 = (echo_waiting s1, True, echo_target s1, echo_sequence s1, uptime s1)"
        "dns_part s3 = dns_part s1 \<or> (\<exists>r. dns_answer s1 (taken s1 f) (taken_size f) r \<and> dns_settled r s3)"
        "dns_id s3 = dns_id s1 \<and> dns_local_port s3 = dns_local_port s1 \<and> dns_name s3 = dns_name s1"
      have s3: "s3 = s'" using r(1) receive(3) by simp
      note r = r[unfolded s3]
      have now: "answer_taken P (es, s) (es', s')" if "P s1 (taken s1 f) (taken_size f)" for P
        unfolding answer_taken_def using step.hyps(1)[unfolded c] f that receive(1) r(1) by blast
      have a: "awaits s s1" "awaits s s'"
        using I(1) r(2-4,6) same_net_trans[OF s1(2)] by (auto simp: awaits_def echo_part_def)
      have "echo_received s' \<longrightarrow> echo_received s \<or> echo_taken s s' (es, s) (es', s')"
        using r(4)
      proof
        assume "echo_part s' = echo_part s1"
        then show ?thesis by (rule E)
      next
        assume "echo_answer s1 (taken s1 f) (taken_size f) \<and> echo_part s' = (echo_waiting s1, True, echo_target s1, echo_sequence s1, uptime s1)"
        then have "echo_answer s1 (taken s1 f) (taken_size f)" "echo_time s' = uptime s1" by (simp_all add: echo_part_def)
        then show ?thesis using a(1) now[of "\<lambda>s1 buf n. awaits s s1 \<and> echo_answer s1 buf n \<and> echo_time s' = uptime s1"] by blast
      qed
      moreover have "dns_done s' \<longrightarrow> dns_done s \<or> (\<exists>r. dns_taken s r (es, s) (es', s') \<and> dns_settled r s')"
        using r(5)
      proof
        assume "dns_part s' = dns_part s1"
        then show ?thesis by (rule D)
      next
        assume "\<exists>r. dns_answer s1 (taken s1 f) (taken_size f) r \<and> dns_settled r s'"
        then obtain r where "dns_answer s1 (taken s1 f) (taken_size f) r" "dns_settled r s'" by blast
        then show ?thesis using a(1) now[of "\<lambda>s1 buf n. awaits s s1 \<and> dns_answer s1 buf n r"] by blast
      qed
      ultimately show ?thesis using a(2) by blast
    qed
  qed
qed

text \<open>
  \<open>ping_answered target s s' ms\<close>: the run of a ping from \<open>s\<close> to \<open>s'\<close> that succeeds.  The address of the next hop is resolved;
  an echo request for the target with the next sequence number is sent; while the task waits, on the events of \<open>future\<close>, the
  receive task takes a frame from the queue that is a reply of the target to this request, \<open>ms\<close> milliseconds after the request;
  and when the wait ends only the flag is cleared.
\<close>

definition ping_answered :: "ipv4_addr \<Rightarrow> net \<Rightarrow> net \<Rightarrow> u32 \<Rightarrow> bool" where
  "ping_answered target s s' ms \<longleftrightarrow> (\<exists>dest s1 s2 es s3.
     resolve (next_hop target s) s = Some (Some dest, s1) \<and> request_sent dest target s1 s2 \<and>
     answer_taken (\<lambda>s buf n. echo_answer s buf n \<and> echo_target s = target \<and> echo_sequence s = echo_sequence s1 + 1 \<and>
       ms = uptime s - uptime s2) (wait_start s2) (es, s3) \<and>
     s' = s3\<lparr>echo_waiting := False\<rparr>)"

text \<open>
  \<open>name_answered name t s s' a\<close>: the run of a name resolution from \<open>s\<close> to \<open>s'\<close> that succeeds.  The name is stored and the
  address of the next hop to the name server resolved; after attempts whose wait has timed out a query is sent; while the task
  waits for it, the receive task takes a frame from the queue that is the name server's answer to this query with the
  address \<open>a\<close>; and when the wait ends only the flag is cleared.
\<close>

definition unanswered :: "mac_addr \<Rightarrow> u32 \<Rightarrow> net \<Rightarrow> net \<Rightarrow> bool" where
  "unanswered dest t s s' \<longleftrightarrow> (\<exists>s1 s2. query_sent dest s s1 \<and> net_wait dns_ready t s1 = Some (None, s2) \<and> s' = s2\<lparr>dns_waiting := False\<rparr>)"

definition query_answered :: "mac_addr \<Rightarrow> net \<Rightarrow> net \<Rightarrow> ipv4_addr \<Rightarrow> bool" where
  "query_answered dest s s' a \<longleftrightarrow> (\<exists>s1 es s2. query_sent dest s s1 \<and>
     answer_taken (\<lambda>s buf n. dns_answer s buf n (Inr a) \<and> dns_id s = dns_id s1 \<and> dns_local_port s = dns_local_port s1 \<and>
       dns_name s = dns_name s1) (wait_start s1) (es, s2) \<and>
     s' = s2\<lparr>dns_waiting := False\<rparr>)"

definition name_answered :: "u8 list \<Rightarrow> u32 \<Rightarrow> net \<Rightarrow> net \<Rightarrow> ipv4_addr \<Rightarrow> bool" where
  "name_answered name t s s' a \<longleftrightarrow> (\<exists>dest s1 s2.
     resolve (next_hop (dns_server s) s) (s\<lparr>dns_name := name, dns_query := fst (dns_query_build (dns_query s) 512 0 name)\<rparr>) = Some (Some dest, s1) \<and>
     (unanswered dest t)\<^sup>*\<^sup>* s1 s2 \<and> dns_name s2 = name \<and> query_answered dest s2 s' a)"

lemma net_ping_sound:
  assumes wf: "net_wf s" and live: "card_live s" and r: "net_ping target t s = Some (Inr ms, s')"
  shows "ping_answered target s s' ms"
proof -
  have act: "net_active s" "nic_active (card s)" using r wf by (auto simp: net_ping_def net_wf_def split: if_splits)
  obtain x s1 where v: "resolve (next_hop target s) s = Some (x, s1)" "served s s1" by (rule resolve_returns[OF wf act(2) live])
  have s1: "net_wf s1" "nic_active (card s1)" using served_alive[OF v(2) act(2) live] by simp_all
  obtain dest where d: "x = Some dest" "ping_send dest target t s1 = Some (Inr ms, s')" using r v(1) act by (cases x) (simp_all add: net_ping_def)
  show ?thesis
  proof (rule ping_send_spec[OF s1, of dest target t])
    fix s2
    assume "ping_send dest target t s1 = Some (Inl NET_ERR_SEND, s2)"
    then show ?thesis using d by simp
  next
    fix s2
    assume p: "ping_send dest target t s1 = ping_wait t (uptime s2) s2" "net_wf s2" "same_net s1 s2" "\<not> echo_received s2"
      "echo_target s2 = target" "echo_sequence s2 = echo_sequence s1 + 1" "request_sent dest target s1 s2"
    obtain y s3 where w: "net_wait echo_ready t s2 = Some (Some y, s3)" "ms = echo_time s3 - uptime s2" "s' = s3\<lparr>echo_waiting := False\<rparr>"
      using d(2) p(1) by (auto simp: ping_wait_def Let_def split: Option.bind_splits if_splits)
    obtain es es' where path: "echo_received s3" "net_run (es, s2\<lparr>future := tl (future s2)\<rparr>) (es', s3)" "wait_start s2 = (es, s2\<lparr>future := tl (future s2)\<rparr>)"
      using net_wait_run(1)[OF w(1)] by (auto simp: wait_start_def)
    have "net_wf (s2\<lparr>future := tl (future s2)\<rparr>)" "nic_active (card (s2\<lparr>future := tl (future s2)\<rparr>))"
      using p(2,3) s1(2) by (simp_all add: net_wf_def same_net_def)
    from net_run_facts[OF path(2) this] have "echo_taken (s2\<lparr>future := tl (future s2)\<rparr>) s3 (wait_start s2) (es', s3)"
      using path(1,3) p(4) by simp
    then have "answer_taken (\<lambda>s buf n. echo_answer s buf n \<and> echo_target s = target \<and> echo_sequence s = echo_sequence s1 + 1 \<and>
        ms = uptime s - uptime s2) (wait_start s2) (es', s3)"
      by (rule answer_taken_mono) (use p(5,6) w(2) in \<open>auto simp: awaits_def\<close>)
    then show ?thesis unfolding ping_answered_def using v(1) d(1) p(7) w(3) by blast
  qed
qed

lemma dns_loop_sound:
  assumes "net_wf s" "nic_active (card s)" "card_live s" "dns_loop k dest t s = Some (Inr a, s')" "t \<noteq> WAIT_FOREVER"
  shows "\<exists>s2. (unanswered dest t)\<^sup>*\<^sup>* s s2 \<and> dns_name s2 = dns_name s \<and> query_answered dest s2 s' a"
  using assms
proof (induction k arbitrary: s)
  case (Suc k)
  from Suc.prems(1) show ?case
  proof (cases rule: dns_loop_step[of s k dest t])
    case (stopped e s1)
    then show ?thesis using Suc.prems(4) by simp
  next
    case (asked s1)
    have a1: "nic_active (card s1)" "card_live s1" using same_net_alive[OF asked(2) Suc.prems(2,3)] by simp_all
    obtain x s2 where w: "net_wait dns_ready t s1 = Some (x, s2)" "served s1 s2"
      by (rule net_wait_returns[OF ready_keeping(2) Suc.prems(5) asked(1) a1])
    let ?s = "s2\<lparr>dns_waiting := False\<rparr>"
    show ?thesis
    proof (cases x)
      case None
      have l: "dns_loop k dest t ?s = Some (Inr a, s')" using asked(6)[OF w(1)] None Suc.prems(4) by simp
      have a2: "net_wf ?s" "nic_active (card ?s)" "card_live ?s" using served_alive[OF w(2) a1] by simp_all
      have "unanswered dest t s ?s" unfolding unanswered_def using asked(5) w(1) None by blast
      moreover have "dns_name ?s = dns_name s" using w(2) asked(4) by (simp add: served_def)
      ultimately show ?thesis using Suc.IH[OF a2 l Suc.prems(5)] converse_rtranclp_into_rtranclp[of "unanswered dest t"] by metis
    next
      case (Some y)
      then have res: "dns_result s2 = Inr a" "s' = ?s" using asked(6)[OF w(1)] Suc.prems(4) by simp_all
      let ?s0 = "s1\<lparr>future := tl (future s1)\<rparr>"
      obtain es es' where path: "dns_done s2" "net_run (es, ?s0) (es', s2)" "wait_start s1 = (es, ?s0)"
        using net_wait_run(2)[OF w(1)[unfolded Some]] by (auto simp: wait_start_def)
      have "net_wf ?s0" "nic_active (card ?s0)" using asked(1) a1 by (simp_all add: net_wf_def)
      from net_run_facts[OF path(2) this] obtain r where d: "dns_taken ?s0 r (wait_start s1) (es', s2)" "dns_settled r s2"
        using path(1,3) asked(3) by auto
      have "r = Inr a" using d(2) res(1) by (cases r) (auto simp: dns_settled_def dns_result_def split: dns_error.splits)
      then have "answer_taken (\<lambda>s buf n. dns_answer s buf n (Inr a) \<and> dns_id s = dns_id s1 \<and> dns_local_port s = dns_local_port s1 \<and>
          dns_name s = dns_name s1) (wait_start s1) (es', s2)"
        by (intro answer_taken_mono[OF d(1)]) (auto simp: awaits_def)
      then have "query_answered dest s s' a" unfolding query_answered_def using asked(5) res(2) by blast
      then show ?thesis by blast
    qed
  qed
qed simp

lemma net_resolve_sound:
  assumes wf: "net_wf s" and live: "card_live s" and t: "t \<noteq> WAIT_FOREVER" and r: "net_resolve name t s = Some (Inr a, s')"
  shows "name_answered name t s s' a"
proof -
  have act: "net_active s" "nic_active (card s)" using r wf by (auto simp: net_resolve_def net_wf_def split: if_splits)
  have short: "copy_dns_name 0 name = Some name" using r act by (auto simp: net_resolve_def copy_dns_name_spec split: if_splits)
  obtain query n where q: "dns_query_build (dns_query s) 512 0 name = (query, n)" by fastforce
  define s1 where "s1 = s\<lparr>dns_name := name, dns_query := query\<rparr>"
  have s1: "net_wf s1" "nic_active (card s1)" "card_live s1" "dns_name s1 = name" "next_hop (dns_server s1) s1 = next_hop (dns_server s) s"
    using wf live act dns_query_fits(1)[OF q] by (simp_all add: s1_def net_wf_def card_live_def next_hop_def)
  obtain x s2 where v: "resolve (next_hop (dns_server s) s) s1 = Some (x, s2)" "served s1 s2"
    using resolve_returns[OF s1(1-3), of "next_hop (dns_server s) s"] by blast
  have e: "net_resolve name t s = (if n = 0 then Some (Inl NET_ERR_NAME, s1)
      else case x of None \<Rightarrow> Some (Inl NET_ERR_NO_ROUTE, s2) | Some dest \<Rightarrow> dns_loop DNS_ATTEMPTS dest t s2)"
    using act short q v(1) s1(5) by (simp add: net_resolve_def Let_def s1_def)
  obtain dest where l: "x = Some dest" "dns_loop DNS_ATTEMPTS dest t s2 = Some (Inr a, s')" using r e by (cases x) (auto split: if_splits)
  have s2: "net_wf s2" "nic_active (card s2)" "card_live s2" using served_alive[OF v(2) s1(2,3)] by simp_all
  have n2: "dns_name s2 = name" using v(2) s1(4) by (simp add: served_def)
  show ?thesis unfolding name_answered_def using dns_loop_sound[OF s2 l(2) t] v(1) l(1) unfolding n2 s1_def by (auto simp: q)
qed



section \<open>The answer to an echo request\<close>

lemma icmp_parse_bytes:
  assumes "length d \<le> 1472"
  shows "\<exists>m. icmp_parse (icmp_bytes ty code (icmp_sum ty code ident seq d) ident seq d @ rest) (of_nat (8 + length d)) = Some m \<and>
    icmp_type m = ty \<and> icmp_id m = ident \<and> icmp_sequence m = seq \<and> icmp_payload_size m = of_nat (length d) \<and>
    take (length d) (icmp_payload m) = d"
proof -
  let ?n = "of_nat (length d) :: u32" and ?c = "of_nat (8 + length d) :: u32" and ?b = "replicate (8 + length d) 0 @ rest"
  have u: "unat ?n = length d" "unat ?c = 8 + length d" using assms by (simp_all add: unat_of_nat_u32 del: of_nat_add)
  have b: "icmp_build ?b ?c ty code ident seq d ?n = (icmp_bytes ty code (icmp_sum ty code ident seq d) ident seq d @ rest, ?c)"
    using assms u by (subst icmp_build_eq) (simp_all add: write_at_def del: of_nat_add, simp)
  have "?c \<noteq> 0" using u(2) by (metis add_is_0 unsigned_0 zero_neq_numeral)
  from icmp_roundtrip[OF b this] show ?thesis using u by auto
qed

lemma handle_echo_request:
  assumes wf: "net_wf s" and card: "nic_active (card s)" "slot_free (card s)" and n: "unat n \<le> length data"
    and icmp: "icmp_parse data n = Some m" "icmp_type m = 8" "unat (icmp_payload_size m) \<le> 1472"
    and d: "d = take (unat (icmp_payload_size m)) (icmp_payload m)"
  shows "wire (card (handle_icmp eh ih data n s)) = wire (card s) @
    [ipv4_frame \<lparr>destination = source eh, source = own_mac s, ether_type = 0x0800\<rparr> (ipv4_header_init (own_ip s) (ip_source ih) 1)
      (icmp_bytes 0 0 (icmp_sum 0 0 (icmp_id m) (icmp_sequence m) d) (icmp_id m) (icmp_sequence m) d)]"
    "length d = unat (icmp_payload_size m)"
proof -
  define c where "c = icmp_bytes 0 0 (icmp_sum 0 0 (icmp_id m) (icmp_sequence m) d) (icmp_id m) (icmp_sequence m) d"
  let ?k = "8 + icmp_payload_size m"
  have pl: "unat (icmp_payload_size m) \<le> length (icmp_payload m)"
    using icmp(1) n by (auto simp: icmp_parse_def unat_less_32 unat_sub_u32 not_less split: if_splits)
  then show ld: "length d = unat (icmp_payload_size m)" by (simp add: d)
  have k: "unat ?k = 8 + unat (icmp_payload_size m)" "?k \<noteq> 0"
    using icmp(3) unat_add_u32_small[of 8 "icmp_payload_size m"] by (auto dest!: arg_cong[of _ 0 unat])
  have lc: "length c = unat ?k" using ld k by (simp add: c_def)
  define buf where "buf = write_at (reply_icmp s) 0 c"
  have b: "icmp_echo_reply (reply_icmp s) 1500 m = (buf, ?k)"
    using wf pl icmp(2,3) by (simp add: icmp_echo_reply_def icmp_build_eq net_wf_def buf_def c_def d)
  define s1 where "s1 = s\<lparr>reply_icmp := buf\<rparr>"
  have bl: "length buf = 1500" "take (unat ?k) buf = c" using wf lc k icmp(3) by (simp_all add: buf_def net_wf_def write_at_0_take)
  then have s1: "net_wf s1" using wf by (simp add: s1_def net_wf_def)
  obtain ok pk fr s2 where r: "send_ipv4 (source eh) (ip_source ih) 1 buf ?k (reply_ip s1) 1500 (reply_frame s1) 1514 s1 = (ok, pk, fr, s2)"
    by (metis prod_cases4)
  have fit: "unat ?k \<le> length buf" "unat (1500 :: u32) \<le> length (reply_ip s1)" "unat (1514 :: u32) \<le> length (reply_frame s1)"
    using s1 k icmp(3) bl(1) by (simp_all add: net_wf_def)
  obtain cd where cd: "s2 = s1\<lparr>card := cd\<rparr>"
      "ok \<longleftrightarrow> 20 + unat ?k \<le> unat (1500 :: u32) \<and> unat ?k \<le> 1480 \<and> max 60 (34 + unat ?k) \<le> unat (1514 :: u32) \<and> nic_active (card s1) \<and> slot_free (card s1)"
      "wire cd = wire (card s1) @ (if ok then [ipv4_frame \<lparr>destination = source eh, source = own_mac s1, ether_type = 0x0800\<rparr>
         (ipv4_header_init (own_ip s1) (ip_source ih) 1) (take (unat ?k) buf)] else [])"
    by (rule send_ipv4_spec[OF s1 fit r])
  have ok: ok using cd(2) card k(1) icmp(3) by (simp add: s1_def)
  have "handle_icmp eh ih data n s = s2\<lparr>reply_ip := pk, reply_frame := fr\<rparr>"
    using icmp(1,2) b k(2) r by (simp add: handle_icmp_def s1_def Let_def)
  then show "wire (card (handle_icmp eh ih data n s)) = wire (card s) @
    [ipv4_frame \<lparr>destination = source eh, source = own_mac s, ether_type = 0x0800\<rparr> (ipv4_header_init (own_ip s) (ip_source ih) 1)
      (icmp_bytes 0 0 (icmp_sum 0 0 (icmp_id m) (icmp_sequence m) d) (icmp_id m) (icmp_sequence m) d)]"
    using ok cd(1,3) bl(2) by (simp add: s1_def c_def)
qed


section \<open>The properties\<close>

definition example_net :: "net_event list list \<Rightarrow> net" where
  "example_net es = \<lparr>card = example_nic, own_mac = Mac 2 0 0 0 0 1, own_ip = Ipv4 10 0 2 15, gateway = Ipv4 10 0 2 2,
     dns_server = Ipv4 10 0 2 3, netmask = Ipv4 255 255 255 0, table = arp_table_init, net_active = True,
     rx_frame = replicate 1514 0, reply_icmp = replicate 1500 0, reply_ip = replicate 1500 0, reply_frame = replicate 1514 0,
     echo_target = Ipv4 0 0 0 0, echo_sequence = 0, echo_waiting = False, echo_received = False, echo_time = 0,
     dns_query = replicate 512 0, dns_datagram = replicate 520 0, dns_packet = replicate 540 0, dns_frame = replicate 554 0,
     dns_name = [], dns_address = Ipv4 0 0 0 0, dns_id = 0, dns_local_port = 0, dns_waiting = False, dns_done = False,
     dns_status = None, uptime = 0, event_wakes = 0, future = es, stack_bytes = (\<lambda>_. 0xCC), entropy_in = (\<lambda>_. 0), entropy_reads = 0\<rparr>"

lemma example_net_wf: "net_wf (example_net es)" "card_live (example_net es)"
proof -
  show "net_wf (example_net es)" using example_nic_wf by (simp add: net_wf_def example_net_def arp_wf_init example_nic_def)
  have "\<exists>k \<ge> n. port_in example_nic k (io_base example_nic + REG_CR) AND 1 \<noteq> 0" for n
    by (rule exI[of _ "n + 2"]) (simp add: example_nic_def)
  then show "card_live (example_net es)" by (simp add: card_live_def example_net_def)
qed

lemma example_net_idle: "\<not> echo_waiting (example_net es)" "\<not> dns_waiting (example_net es)" "net_active (example_net es)"
  by (simp_all add: example_net_def)

text \<open>
  C28. An echo request for us is answered: handling a frame that carries one, with room for the answer in a frame and a
  transmit slot that becomes free, sends exactly one frame, from us to the sender, that parses back to an echo reply with the
  identifier, the sequence number and the payload of the request.
\<close>

theorem net_echo_answered:
  assumes wf: "net_wf s" and card: "nic_active (card s)" "slot_free (card s)"
    and eth: "ethernet_parse frame n = Some (eh, p1, n1)" "unat n \<le> length frame" "ethernet_for_us eh (own_mac s)" "ether_type eh = 0x0800"
    and ip: "ipv4_packet_parse p1 n1 = Inr (ih, p2, n2)" "ip_destination ih = own_ip s" "protocol ih = 1"
    and icmp: "icmp_parse p2 n2 = Some m" "icmp_type m = 8" "unat (icmp_payload_size m) \<le> 1472"
  shows "\<exists>s' F q1 k1 h q2 k2 reply. handle_frame frame n s = Some s' \<and> net_wf s' \<and> wire (card s') = wire (card s) @ [F] \<and>
    ethernet_parse F (of_nat (length F)) = Some (\<lparr>destination = source eh, source = own_mac s, ether_type = 0x0800\<rparr>, q1, k1) \<and>
    ipv4_packet_parse q1 k1 = Inr (h, q2, k2) \<and> ip_source h = own_ip s \<and> ip_destination h = ip_source ih \<and> protocol h = 1 \<and>
    icmp_parse q2 k2 = Some reply \<and> icmp_type reply = 0 \<and> icmp_id reply = icmp_id m \<and> icmp_sequence reply = icmp_sequence m \<and>
    take (unat (icmp_payload_size m)) (icmp_payload reply) = take (unat (icmp_payload_size m)) (icmp_payload m)"
proof -
  define d where "d = take (unat (icmp_payload_size m)) (icmp_payload m)"
  define c where "c = icmp_bytes 0 0 (icmp_sum 0 0 (icmp_id m) (icmp_sequence m) d) (icmp_id m) (icmp_sequence m) d"
  define h where "h = \<lparr>destination = source eh, source = own_mac s, ether_type = 0x0800\<rparr>"
  define hd where "hd = ipv4_header_init (own_ip s) (ip_source ih) 1"
  define F where "F = ipv4_frame h hd c"
  have n2: "unat n2 \<le> length p2" using ipv4_parse_fits(1)[OF ip(1) ethernet_parse_fits(1)[OF eth(1,2)]] .
  note W = handle_echo_request(1)[OF wf card n2 icmp d_def, of eh ih, folded c_def h_def hd_def, folded F_def]
  note ld = handle_echo_request(2)[OF wf card n2 icmp d_def]
  have hf: "handle_frame frame n s = Some (handle_icmp eh ih p2 n2 s)" using eth ip by (simp add: handle_frame_def handle_ipv4_def)
  have wf': "net_wf (handle_icmp eh ih p2 n2 s)" using handle_icmp_spec[OF wf n2, of eh ih] by (simp add: handled_def)
  have lc: "length c \<le> 1480" "length c = 8 + length d" using ld icmp(3) by (simp_all add: c_def)
  obtain q k where q: "ethernet_parse F (of_nat (length F)) = Some (h, q, k)"
      "ipv4_packet_parse q k = Inr (ipv4_received hd (length c), c @ replicate (26 - length c) 0, of_nat (length c))"
    unfolding F_def by (rule ipv4_frame_parses[OF lc(1) ipv4_header_init_sendable[folded hd_def]]) (simp_all add: hd_def)
  obtain reply where r: "icmp_parse (c @ replicate (26 - length c) 0) (of_nat (length c)) = Some reply" "icmp_type reply = 0"
      "icmp_id reply = icmp_id m" "icmp_sequence reply = icmp_sequence m" "take (length d) (icmp_payload reply) = d"
    unfolding lc(2) using icmp_parse_bytes[of d 0 0 "icmp_id m" "icmp_sequence m" "replicate (26 - (8 + length d)) 0"] ld icmp(3) by (auto simp: c_def)
  have hs: "ip_source (ipv4_received hd (length c)) = own_ip s" "ip_destination (ipv4_received hd (length c)) = ip_source ih"
      "protocol (ipv4_received hd (length c)) = 1"
    by (simp_all add: hd_def ipv4_received_def ipv4_header_init_def)
  have dd: "take (length d) (icmp_payload m) = d" using ld by (simp add: d_def)
  show ?thesis unfolding ld[symmetric] dd h_def[symmetric] using hf wf' W q r hs by blast
qed


theorem net_echo_answered_witness:
  "\<exists>frame n s' F q1 k1 h q2 k2 reply. handle_frame frame n (example_net []) = Some s' \<and> wire (card s') = [F] \<and>
    ethernet_parse F (of_nat (length F)) = Some (\<lparr>destination = Mac 2 0 0 0 0 9, source = Mac 2 0 0 0 0 1, ether_type = 0x0800\<rparr>, q1, k1) \<and>
    ipv4_packet_parse q1 k1 = Inr (h, q2, k2) \<and> ip_destination h = Ipv4 10 0 2 2 \<and>
    icmp_parse q2 k2 = Some reply \<and> icmp_type reply = 0 \<and> icmp_id reply = 7 \<and> icmp_sequence reply = 9"
proof -
  define s where "s = example_net []"
  define h where "h = \<lparr>destination = Mac 2 0 0 0 0 1, source = Mac 2 0 0 0 0 9, ether_type = 0x0800\<rparr>"
  define hd where "hd = ipv4_header_init (Ipv4 10 0 2 2) (Ipv4 10 0 2 15) 1"
  define c where "c = icmp_bytes 8 0 (icmp_sum 8 0 7 9 [1, 2]) 7 9 [1, 2]"
  define F where "F = ipv4_frame h hd c"
  have lc: "length c = 8 + length [1, 2 :: u8]" "length c \<le> 1480" by (simp_all add: c_def)
  obtain q k where q: "ethernet_parse F (of_nat (length F)) = Some (h, q, k)"
      "ipv4_packet_parse q k = Inr (ipv4_received hd (length c), c @ replicate (26 - length c) 0, of_nat (length c))"
    unfolding F_def by (rule ipv4_frame_parses[OF lc(2) ipv4_header_init_sendable[folded hd_def]]) (simp_all add: hd_def)
  obtain m where m: "icmp_parse (c @ replicate (26 - length c) 0) (of_nat (length c)) = Some m" "icmp_type m = 8"
      "icmp_id m = 7" "icmp_sequence m = 9" "icmp_payload_size m = 2"
    unfolding lc(1) using icmp_parse_bytes[of "[1, 2]" 8 0 7 9 "replicate (26 - (8 + length [1, 2 :: u8])) 0"] by (auto simp: c_def)
  have cs: "nic_active (card s)" "slot_free (card s)" "own_mac s = Mac 2 0 0 0 0 1" "own_ip s = Ipv4 10 0 2 15" "wire (card s) = []"
    by (auto simp: s_def example_net_def example_nic_def slot_free_def intro!: exI[of _ 0])
  have "length F = 60" by (simp add: F_def length_ipv4_frame lc(1))
  then have u: "unat (of_nat (length F) :: u32) \<le> length F" by simp
  have hs: "ethernet_for_us h (own_mac s)" "ether_type h = 0x0800" "ip_destination (ipv4_received hd (length c)) = own_ip s"
      "protocol (ipv4_received hd (length c)) = 1" "ip_source (ipv4_received hd (length c)) = Ipv4 10 0 2 2" "source h = Mac 2 0 0 0 0 9"
    by (simp_all add: h_def hd_def cs ethernet_for_us_def ipv4_received_def ipv4_header_init_def)
  have sz: "unat (icmp_payload_size m) \<le> 1472" using m(5) by simp
  have wf: "net_wf s" unfolding s_def by (rule example_net_wf)
  from net_echo_answered[OF wf cs(1,2) q(1) u hs(1,2) q(2) hs(3,4) m(1,2) sz] show ?thesis
    unfolding cs(3-5) hs(5,6) m(3,4) append_Nil s_def[symmetric] by blast
qed

section \<open>A ping and a name resolution that succeed\<close>

text \<open>
  A wait during which the card interrupts once, with one frame in the ring, and the frame completes what is waited for.
\<close>

lemma wait_one_frame:
  assumes wf: "net_wf s" and act: "nic_active (card s)" and fut: "future s = [[Interrupt]]" and g: "g (s\<lparr>future := []\<rparr>) = None"
    and ring: "rx_ring (card s) = (\<lambda>_. R)" "laid_out R (unat (rx_offset (card s))) [f]" "frames (card s) = []"
    and isr: "(ucast (port_in (card s) (port_reads (card s)) (io_base (card s) + REG_ISR)) :: u16) AND INT_RX_EVENTS \<noteq> 0"
    and cr: "port_in (card s) (port_reads (card s) + 1) (io_base (card s) + REG_CR) AND 1 = 0"
      "port_in (card s) (port_reads (card s) + 2) (io_base (card s) + REG_CR) AND 1 \<noteq> 0"
    and fin: "\<And>c. handle_frame (taken s f) (taken_size f) (s\<lparr>future := [], rx_frame := taken s f, card := c\<rparr>) = Some (h c)"
      "\<And>c. card (h c) = c" "\<And>c. g (h c) = Some x"
  shows "\<exists>c. net_wait (\<lambda>s. (g s, s)) t s = Some (Some x, h c)"
proof -
  have nw: "nic_wf (card s)" using wf by (simp add: net_wf_def)
  obtain c1 where c1: "interrupt_handler (card s) = Some c1" "nic_wf c1" "rx_only (card s) c1" "frames c1 = [f]"
    using interrupt_delivers[OF nw act ring(1,2) isr] cr ring(3) by auto
  define s2 where "s2 = s\<lparr>future := [], card := c1\<rparr>"
  have s2: "net_wf s2" "nic_active (card s2)" "frames (card s2) = f # []" "taken s2 f = taken s f"
    using wf act c1 by (auto simp: s2_def net_wf_def rx_only_def taken_def)
  have lf: "0 < min (length f) 1514" using ring(2) by auto
  obtain s3 c where s3: "s3 = s2\<lparr>rx_frame := taken s2 f, card := c\<rparr>" "net_wf s3" "frames c = []"
      "receive_one s2 = (if 0 < min (length f) 1514 then handle_frame (taken s2 f) (taken_size f) s3 else Some s3)"
    by (rule receive_one_eq[OF s2(1,3,2)])
  have "s3 = s\<lparr>future := [], rx_frame := taken s f, card := c\<rparr>" unfolding s3(1) s2(4) by (simp add: s2_def)
  then have r: "receive_one s2 = Some (h c)" using s3(4) lf fin(1)[of c] s2(4) by simp
  have "nic_wf c" using s3(1,2) by (simp add: net_wf_def)
  then have no: "\<not> has_frame (card (h c))" using has_frame_queued[of c] s3(3) fin(2) length_frames[of c] by simp
  have "has_frame (card s2)" using has_frame_queued[of "card s2"] s2(3) c1(2) length_frames[of "card s2"] by (simp add: s2_def)
  then have "receive_task (Suc 15) s2 = Some (h c)" using r no by (simp add: numeral_eq_Suc)
  then have "card_interrupt (s\<lparr>future := []\<rparr>) = Some (h c)" using c1(1) by (simp add: card_interrupt_def s2_def)
  then have "wait_events (\<lambda>s. (g s, s)) left [Interrupt] (s\<lparr>future := []\<rparr>) = Some (Some x, h c)" for left
    using g fin(3)[of c] by (simp add: wait_events.simps[of _ _ "[Interrupt]"] wait_events.simps[of _ _ "[]"])
  then show ?thesis unfolding net_wait_def fut by auto
qed

text \<open>Sending when the slot is free at the first look reads one port and leaves the receive side alone.\<close>

lemma send_first:
  assumes "port_in c (port_reads c) (io_base c + (REG_TSD0 + of_nat (tx_next c * 4))) AND TSD_OWN \<noteq> 0" "rtl8139_send frame n c = (r, c')" "0 \<le> r"
  shows "port_reads c' = Suc (port_reads c) \<and> rx_ring c' = rx_ring c \<and> rx_offset c' = rx_offset c \<and> frames c' = frames c \<and>
    port_in c' = port_in c \<and> io_base c' = io_base c \<and> nic_active c' = nic_active c"
proof -
  have "wait_slot (Suc 99) c = (True, c\<lparr>port_reads := Suc (port_reads c)\<rparr>)" unfolding wait_slot.simps using assms(1) by (simp add: nic_in_def Let_def)
  moreover have "Suc 99 = TX_WAIT_MS" by simp
  ultimately have w: "wait_slot TX_WAIT_MS c = (True, c\<lparr>port_reads := Suc (port_reads c)\<rparr>)" by (simp only:)
  have n: "nic_active c" "n \<noteq> 0" "n \<le> TX_FRAME_MAX" using assms(2,3) by (auto simp: rtl8139_send_def split: if_splits)
  have "\<exists>b l w t. c' = c\<lparr>port_reads := Suc (port_reads c), tx_buffers := b, port_log := l, wire := w, tx_next := t\<rparr>"
    using assms(2) n unfolding rtl8139_send_def w by (auto simp: nic_outl_def Let_def)
  then obtain b l w t where c: "c' = c\<lparr>port_reads := Suc (port_reads c), tx_buffers := b, port_log := l, wire := w, tx_next := t\<rparr>" by blast
  have "frames c' = frames c" by (rule frames_cong) (simp_all add: c)
  then show ?thesis by (simp add: c)
qed

lemma frame_sent_first:
  assumes "frame_sent buf f s s'" "port_in (card s) (port_reads (card s)) (io_base (card s) + (REG_TSD0 + of_nat (tx_next (card s) * 4))) AND TSD_OWN \<noteq> 0"
  shows "\<exists>c. s' = s\<lparr>card := c\<rparr> \<and> port_reads c = Suc (port_reads (card s)) \<and> rx_ring c = rx_ring (card s) \<and> rx_offset c = rx_offset (card s) \<and>
    frames c = frames (card s) \<and> port_in c = port_in (card s) \<and> io_base c = io_base (card s) \<and> nic_active c = nic_active (card s)"
proof -
  obtain c where c: "rtl8139_send buf (unat (of_nat (length f) :: u32)) (card s) = (int (length f), c)" "s' = s\<lparr>card := c\<rparr>"
    using assms(1) by (auto simp: frame_sent_def net_send_def split: prod.splits)
  then show ?thesis using send_first[OF assms(2) c(1)] by auto
qed

text \<open>A card whose first interrupt is for the one frame \<open>f\<close> in its ring, and a machine that knows the neighbour 10.0.2.3.\<close>

definition answering_nic :: "u8 list \<Rightarrow> rtl8139" where
  "answering_nic f = example_nic\<lparr>rx_ring := (\<lambda>_. [1, 0, of_nat (length f + 4), 0] @ f @ replicate (9740 - length f) 0),
     port_in := (\<lambda>n port. if port = 0xC037 then (if n < 3 then 0 else 1) else 0x2001)\<rparr>"

definition answering_net :: "u8 list \<Rightarrow> net" where
  "answering_net f = (example_net [[Interrupt]])\<lparr>card := answering_nic f,
     table := arp_table_update arp_table_init (Ipv4 10 0 2 3) (Mac 2 0 0 0 0 9) 0\<rparr>"

lemma answering_frames: "frames (answering_nic f) = []"
  using example_frames by (simp add: answering_nic_def frames_def queued_def)

lemma answering_net_wf:
  assumes "length f \<le> 200"
  shows "net_wf (answering_net f)" "card_live (answering_net f)"
proof -
  have "nic_wf (answering_nic f)" using example_nic_wf assms by (simp add: answering_nic_def nic_wf_def)
  then show "net_wf (answering_net f)"
    using example_net_wf(1)[of "[[Interrupt]]"] by (simp add: answering_net_def net_wf_def arp_wf_update arp_wf_init answering_nic_def example_nic_def)
  have "\<exists>k \<ge> n. port_in (answering_nic f) k (io_base (answering_nic f) + REG_CR) AND 1 \<noteq> 0" for n
    by (rule exI[of _ "n + 3"]) (simp add: answering_nic_def example_nic_def)
  then show "card_live (answering_net f)" by (simp add: card_live_def answering_net_def)
qed

lemma answering_ring:
  assumes "60 \<le> length f" "length f \<le> 200"
  shows "laid_out ([1, 0, of_nat (length f + 4), 0] @ f @ replicate (9740 - length f) 0) 0 [f]"
proof -
  have "unat (of_nat (length f + 4) :: u8) = length f + 4" using assms(2) by (simp add: unsigned_of_nat take_bit_eq_mod del: of_nat_add)
  then show ?thesis using assms by (simp add: at_def chunk_def numeral_3_eq_3 del: of_nat_add)
qed

lemma answering_resolve:
  assumes "table s = arp_table_update arp_table_init (Ipv4 10 0 2 3) (Mac 2 0 0 0 0 9) 0" "uptime s = 0"
  shows "resolve (Ipv4 10 0 2 3) s = Some (Some (Mac 2 0 0 0 0 9), s)"
proof -
  let ?t = "arp_table_update arp_table_init (Ipv4 10 0 2 3) (Mac 2 0 0 0 0 9) 0"
  have "arp_table_lookup ?t (Ipv4 10 0 2 3) 0 = (?t, Some (Mac 2 0 0 0 0 9))" by code_simp
  then show ?thesis by (simp add: resolve_def table_lookup_def assms)
qed

text \<open>What the wait needs of the state that the sending has left.\<close>

lemma answering_wait:
  assumes s: "net_wf s" "future s = [[Interrupt]]" and f: "60 \<le> length f" "length f \<le> 200"
    and c: "port_reads (card s) = 1" "rx_ring (card s) = rx_ring (answering_nic f)" "rx_offset (card s) = 0" "frames (card s) = []"
      "port_in (card s) = port_in (answering_nic f)" "io_base (card s) = 0xC000" "nic_active (card s)"
    and g: "g (s\<lparr>future := []\<rparr>) = None"
    and fin: "\<And>c. handle_frame (f @ drop (length f) (rx_frame s)) (of_nat (length f)) (s\<lparr>future := [], rx_frame := taken s f, card := c\<rparr>) = Some (h c)"
      "\<And>c. card (h c) = c" "\<And>c. g (h c) = Some x"
  shows "\<exists>c. net_wait (\<lambda>s. (g s, s)) t s = Some (Some x, h c)"
proof -
  have t: "taken s f = f @ drop (length f) (rx_frame s)" "taken_size f = of_nat (length f)"
    using f by (simp_all add: taken_def taken_size_def write_at_def)
  have p: "port_in (answering_nic f) = (\<lambda>n port. if port = 0xC037 then (if n < 3 then 0 else 1) else 0x2001)"
    "rx_ring (answering_nic f) = (\<lambda>_. [1, 0, of_nat (length f + 4), 0] @ f @ replicate (9740 - length f) 0)"
    by (simp_all add: answering_nic_def)
  show ?thesis
  proof (rule wait_one_frame[OF s(1) c(7) s(2) g _ _ c(4) _ _ _ _ fin(2,3)])
    show "rx_ring (card s) = (\<lambda>_. [1, 0, of_nat (length f + 4), 0] @ f @ replicate (9740 - length f) 0)" using c(2) p(2) by simp
    show "laid_out ([1, 0, of_nat (length f + 4), 0] @ f @ replicate (9740 - length f) 0) (unat (rx_offset (card s))) [f]"
      using answering_ring[OF f] c(3) by simp
    show "handle_frame (taken s f) (taken_size f) (s\<lparr>future := [], rx_frame := taken s f, card := c\<rparr>) = Some (h c)" for c
      using fin(1)[of c] unfolding t .
  qed (simp_all add: c p)
qed

text \<open>The reply to the first ping of 10.0.2.3.\<close>

definition echo_reply :: "u8 list" where
  "echo_reply = ipv4_frame \<lparr>destination = Mac 2 0 0 0 0 1, source = Mac 2 0 0 0 0 9, ether_type = 0x0800\<rparr>
     (ipv4_header_init (Ipv4 10 0 2 3) (Ipv4 10 0 2 15) 1) (icmp_bytes 0 0 (icmp_sum 0 0 PING_ID 1 ping_data) PING_ID 1 ping_data)"

lemma length_echo_reply: "length echo_reply = 74"
  by (simp add: echo_reply_def length_ipv4_frame)

lemma handle_echo_reply:
  assumes "own_mac s = Mac 2 0 0 0 0 1" "own_ip s = Ipv4 10 0 2 15" "echo_waiting s" "echo_target s = Ipv4 10 0 2 3" "echo_sequence s = 1"
  shows "handle_frame (echo_reply @ rest) (of_nat (length echo_reply)) s = Some (wake_events (s\<lparr>echo_time := uptime s, echo_received := True\<rparr>))"
proof -
  define h where "h = \<lparr>destination = Mac 2 0 0 0 0 1, source = Mac 2 0 0 0 0 9, ether_type = 0x0800\<rparr>"
  define hd where "hd = ipv4_header_init (Ipv4 10 0 2 3) (Ipv4 10 0 2 15) 1"
  define c where "c = icmp_bytes 0 0 (icmp_sum 0 0 PING_ID 1 ping_data) PING_ID 1 ping_data"
  have f: "echo_reply = ipv4_frame h hd c" by (simp add: echo_reply_def h_def hd_def c_def)
  have lc: "length c = 8 + length ping_data" "length c \<le> 1480" by (simp_all add: c_def)
  obtain q k where q: "ethernet_parse (echo_reply @ rest) (of_nat (length echo_reply)) = Some (h, q, k)"
      "ipv4_packet_parse q k = Inr (ipv4_received hd (length c), c @ replicate (26 - length c) 0 @ rest, of_nat (length c))"
    unfolding f by (rule ipv4_frame_parses_in[OF lc(2) ipv4_header_init_sendable[folded hd_def]]) (simp_all add: hd_def)
  obtain m where m: "icmp_parse (c @ replicate (26 - length c) 0 @ rest) (of_nat (length c)) = Some m" "icmp_type m = 0" "icmp_id m = PING_ID" "icmp_sequence m = 1"
    unfolding lc(1) using icmp_parse_bytes[of ping_data 0 0 PING_ID 1 "replicate (26 - (8 + length ping_data)) 0 @ rest"] by (auto simp: c_def)
  have hs: "ethernet_for_us h (own_mac s)" "ether_type h = 0x0800" "ip_destination (ipv4_received hd (length c)) = own_ip s"
      "protocol (ipv4_received hd (length c)) = 1" "ip_source (ipv4_received hd (length c)) = echo_target s"
    by (simp_all add: h_def hd_def assms ethernet_for_us_def ipv4_received_def ipv4_header_init_def)
  have "handle_frame (echo_reply @ rest) (of_nat (length echo_reply)) s =
      Some (handle_icmp h (ipv4_received hd (length c)) (c @ replicate (26 - length c) 0 @ rest) (of_nat (length c)) s)"
    unfolding handle_frame_def q(1) option.case prod.case using hs by (simp add: handle_ipv4_def q(2))
  then show ?thesis using m hs(5) assms(3,5) by (simp add: handle_icmp_def)
qed

lemma echo_reply_ping: "\<exists>s'. net_ping (Ipv4 10 0 2 3) 1000 (answering_net echo_reply) = Some (Inr 0, s')"
proof -
  define s where "s = answering_net echo_reply"
  have wf: "net_wf s" unfolding s_def by (rule answering_net_wf) (simp add: length_echo_reply)
  have f: "table s = arp_table_update arp_table_init (Ipv4 10 0 2 3) (Mac 2 0 0 0 0 9) 0" "uptime s = 0" "net_active s"
      "own_mac s = Mac 2 0 0 0 0 1" "own_ip s = Ipv4 10 0 2 15" "echo_sequence s = 0" "future s = [[Interrupt]]" "card s = answering_nic echo_reply"
    by (simp_all add: s_def answering_net_def example_net_def)
  have hop: "next_hop (Ipv4 10 0 2 3) s = Ipv4 10 0 2 3" unfolding s_def answering_net_def example_net_def next_hop_def by simp code_simp
  have n: "net_ping (Ipv4 10 0 2 3) 1000 s = ping_send (Mac 2 0 0 0 0 9) (Ipv4 10 0 2 3) 1000 s"
    unfolding net_ping_def hop answering_resolve[OF f(1,2)] using f(3) by simp
  have c: "nic_active (card s)" "port_in (card s) (port_reads (card s)) (io_base (card s) + (REG_TSD0 + of_nat (tx_next (card s) * 4))) AND TSD_OWN \<noteq> 0"
    by (simp_all add: f(8) answering_nic_def example_nic_def)
  have free: "slot_free (card s)" unfolding slot_free_def using c(2) by (intro exI[of _ 0]) simp
  from wf c(1) show ?thesis
  proof (cases rule: ping_send_spec[where dest = "Mac 2 0 0 0 0 9" and target = "Ipv4 10 0 2 3" and t = 1000])
    case (refused s1)
    then show ?thesis using free by simp
  next
    case (sent s1)
    define s0 where "s0 = s\<lparr>echo_sequence := echo_sequence s + 1, echo_target := Ipv4 10 0 2 3, echo_received := False, echo_waiting := True\<rparr>"
    obtain buf where "frame_sent buf (echo_request (Mac 2 0 0 0 0 9) (Ipv4 10 0 2 3) s1) s0 s1"
      using sent(9) unfolding request_sent_def s0_def by blast
    then obtain d where d: "s1 = s0\<lparr>card := d\<rparr>" "port_reads d = Suc (port_reads (card s0))" "rx_ring d = rx_ring (card s0)"
        "rx_offset d = rx_offset (card s0)" "frames d = frames (card s0)" "port_in d = port_in (card s0)" "io_base d = io_base (card s0)"
        "nic_active d = nic_active (card s0)"
      using frame_sent_first[of buf _ s0 s1] c(2) by (auto simp: s0_def)
    define h where "h = (\<lambda>c. wake_events (s1\<lparr>future := [], rx_frame := taken s1 echo_reply, card := c, echo_time := uptime s1, echo_received := True\<rparr>))"
    have "\<exists>c. net_wait (\<lambda>s. (if echo_received s then Some () else None, s)) 1000 s1 = Some (Some (), h c)"
    proof (rule answering_wait[OF sent(2)])
      show "handle_frame (echo_reply @ drop (length echo_reply) (rx_frame s1)) (of_nat (length echo_reply))
          (s1\<lparr>future := [], rx_frame := taken s1 echo_reply, card := c\<rparr>) = Some (h c)" for c
        using f by (subst handle_echo_reply) (simp_all add: h_def d(1) s0_def)
    qed (use f d sent(5,7) in \<open>simp_all add: s0_def h_def wake_events_def length_echo_reply answering_frames\<close>,
         simp_all add: answering_nic_def example_nic_def)
    then obtain e where "net_wait echo_ready 1000 s1 = Some (Some (), h e)" unfolding ready_eq by blast
    then have "ping_wait 1000 (uptime s1) s1 = Some (Inr 0, (h e)\<lparr>echo_waiting := False\<rparr>)"
      by (simp add: ping_wait_def Let_def h_def wake_events_def)
    then show ?thesis using n sent(1) unfolding s_def by simp
  qed
qed

text \<open>The answer to a query for the name \<open>a\<close> with the identifier 0 and from the port 49152: 10.0.0.7.\<close>

definition dns_message :: "u8 list" where
  "dns_message = [0, 0, 0x81, 0x80, 0, 1, 0, 1, 0, 0, 0, 0, 1, 0x41, 0, 0, 1, 0, 1,
     0xC0, 12, 0, 1, 0, 1, 0, 0, 0, 60, 0, 4, 10, 0, 0, 7]"

definition dns_reply :: "u8 list" where
  "dns_reply = ipv4_frame \<lparr>destination = Mac 2 0 0 0 0 1, source = Mac 2 0 0 0 0 9, ether_type = 0x0800\<rparr>
     (ipv4_header_init (Ipv4 10 0 2 3) (Ipv4 10 0 2 15) 17)
     (udp_bytes 53 49152 (ucast (43 :: u32)) (udp_sum (ipv4_pseudo_sum (Ipv4 10 0 2 3) (Ipv4 10 0 2 15) 17 43) 53 49152 (ucast (43 :: u32)) dns_message) dns_message)"

lemma length_dns_message: "length dns_message = 35"
  by (simp add: dns_message_def)

lemma length_dns_reply: "length dns_reply = 77"
  by (simp add: dns_reply_def length_ipv4_frame length_dns_message)

lemma dns_message_parses: "dns_response_parse (dns_message @ rest) 35 0 [0x61] = Some (Inr (Ipv4 10 0 0 7))"
proof -
  define r where "r = \<lparr>rr_name = [0xC0, 12], rr_type = 1, rr_class = 1, rr_ttl = [0, 0, 0, 60], rr_data = [10, 0, 0, 7]\<rparr>"
  have q: "dns_query_build (replicate 19 0) 19 0 [0x61] = ([0, 0, 1, 0, 0, 1, 0, 0, 0, 0, 0, 0, 1, 0x61, 0, 0, 1, 0, 1], 19)" by code_simp
  have a: "at dns_message 0 (be16_bytes 0 @ be16_bytes 0x8180 @ be16_bytes 1 @ be16_bytes (of_nat (length [r])))"
    "at dns_message 15 (be16_bytes 1 @ be16_bytes 1)" "at dns_message 19 (concat (map rr_bytes [r]))"
    unfolding dns_message_def r_def by code_simp+
  have l: "map lower (chunk dns_message 12 3) = map lower (chunk [0, 0, 1, 0, 0, 1, 0, 0, 0, 0, 0, 0, 1, 0x61, 0, 0, 1, 0, 1] 12 3)"
    unfolding dns_message_def by code_simp
  have "encoded_name [0xC0, 12]" unfolding encoded_name_def wire_labels_def by (rule exI[of _ "[]"]) simp
  then have r: "\<forall>r \<in> set [r]. rr_ok r" by (simp add: r_def rr_ok_def)
  have "first_address [r] = Inr (Ipv4 10 0 0 7)" unfolding r_def by code_simp
  moreover have "dns_response_parse dns_message 35 0 [0x61] = Some (first_address [r])"
    by (rule dns_resolves[OF q _ _ _ a(1)]) (use a l r in \<open>simp_all add: rr_bytes_def r_def length_dns_message\<close>)
  ultimately have "dns_response_parse dns_message 35 0 [0x61] = Some (Inr (Ipv4 10 0 0 7))" by simp
  moreover have "take (unat (35 :: u32)) (dns_message @ rest) = take (unat (35 :: u32)) dns_message" by (simp add: length_dns_message)
  ultimately show ?thesis using dns_response_returns[of 35 "dns_message @ rest" dns_message 0 "[0x61]"] by auto
qed

lemma handle_dns_reply:
  assumes "own_mac s = Mac 2 0 0 0 0 1" "own_ip s = Ipv4 10 0 2 15" "dns_server s = Ipv4 10 0 2 3" "dns_waiting s" "dns_id s = 0"
    "dns_local_port s = 49152" "dns_name s = [0x61]"
  shows "handle_frame (dns_reply @ rest) (of_nat (length dns_reply)) s =
    Some (wake_events (s\<lparr>dns_address := Ipv4 10 0 0 7, dns_status := None, dns_done := True\<rparr>))"
proof -
  define h where "h = \<lparr>destination = Mac 2 0 0 0 0 1, source = Mac 2 0 0 0 0 9, ether_type = 0x0800\<rparr>"
  define hd where "hd = ipv4_header_init (Ipv4 10 0 2 3) (Ipv4 10 0 2 15) 17"
  define d where "d = udp_bytes 53 49152 (ucast (43 :: u32)) (udp_sum (ipv4_pseudo_sum (Ipv4 10 0 2 3) (Ipv4 10 0 2 15) 17 43) 53 49152 (ucast (43 :: u32)) dns_message) dns_message"
  have f: "dns_reply = ipv4_frame h hd d" by (simp only: dns_reply_def h_def hd_def d_def)
  have ld: "length d = 43" "length d \<le> 1480" by (simp_all add: d_def length_dns_message)
  obtain q k where q: "ethernet_parse (dns_reply @ rest) (of_nat (length dns_reply)) = Some (h, q, k)"
      "ipv4_packet_parse q k = Inr (ipv4_received hd (length d), d @ replicate (26 - length d) 0 @ rest, of_nat (length d))"
    unfolding f by (rule ipv4_frame_parses_in[OF ld(2) ipv4_header_init_sendable[folded hd_def]]) (simp_all add: hd_def)
  have u: "udp_parse (d @ replicate (26 - length d) 0 @ rest) (of_nat (length d)) (Ipv4 10 0 2 3) (Ipv4 10 0 2 15) =
      Inr (\<lparr>source_port = 53, destination_port = 49152, udp_length = ucast (43 :: u32)\<rparr>, dns_message @ replicate (26 - length d) 0 @ rest, 35)"
    unfolding d_def[symmetric] ld(1) unfolding d_def by (rule udp_parse_datagram) (simp_all add: length_dns_message)
  have hs: "ethernet_for_us h (own_mac s)" "ether_type h = 0x0800" "ip_destination (ipv4_received hd (length d)) = Ipv4 10 0 2 15"
      "protocol (ipv4_received hd (length d)) = 17" "ip_source (ipv4_received hd (length d)) = Ipv4 10 0 2 3"
    by (simp_all add: h_def hd_def assms ethernet_for_us_def ipv4_received_def ipv4_header_init_def)
  have "handle_frame (dns_reply @ rest) (of_nat (length dns_reply)) s =
      handle_udp (ipv4_received hd (length d)) (d @ replicate (26 - length d) 0 @ rest) (of_nat (length d)) s"
    unfolding handle_frame_def q(1) option.case prod.case using hs assms(2) by (simp add: handle_ipv4_def q(2))
  also have "\<dots> = Some (wake_events (s\<lparr>dns_address := Ipv4 10 0 0 7, dns_status := None, dns_done := True\<rparr>))"
    unfolding handle_udp_def hs u by (simp add: assms dns_message_parses)
  finally show ?thesis .
qed

lemma dns_query_size: "length buf = 512 \<Longrightarrow> snd (dns_query_build buf 512 ident [0x61]) = 19"
proof -
  have "name_label [0x61] = Some ([0x61], [])" by code_simp
  then have "\<exists>b. name_encode_loop 255 out 0 [0x61] = (b, 3)" for out
    by (subst name_encode_loop.simps) (simp add: Let_def peek_def)
  then obtain b where "name_encode (drop 12 buf) 496 [0x61] = (b, 3)" unfolding name_encode_def by fastforce
  then show ?thesis by (simp add: dns_query_build_def Let_def)
qed

lemma dns_prepare_first:
  assumes wf: "net_wf s" and e: "entropy_in s = (\<lambda>_. 0)" and n: "dns_name s = [0x61]" and p: "dns_prepare s = ((qs, ds), s')"
  shows "qs = 19" "ds = 27" "dns_id s' = 0" "dns_local_port s' = 49152" "card s' = card s" "future s' = future s"
proof -
  define s1 where "s1 = s\<lparr>entropy_reads := entropy_reads s + 1, dns_id := 0, dns_local_port := 49152, dns_done := False, dns_status := None\<rparr>"
  obtain query where q: "dns_query_build (dns_query s1) 512 (dns_id s1) (dns_name s1) = (query, 19)"
    using dns_query_size[of "dns_query s1" "dns_id s1"] wf n by (cases "dns_query_build (dns_query s1) 512 (dns_id s1) [0x61]") (simp add: s1_def net_wf_def)
  have lq: "length query = 512" using dns_query_fits(1)[OF q] wf by (simp add: s1_def net_wf_def)
  obtain dg m where u: "udp_build (dns_datagram s1) 520 (own_ip s1) (dns_server s1) (dns_local_port s1) 53 query 19 = (dg, m)" by fastforce
  then have m: "m = 27" using wf lq by (subst (asm) udp_build_eq) (simp_all add: s1_def net_wf_def)
  have "dns_prepare s = ((19, 27), s1\<lparr>dns_query := query, dns_datagram := dg\<rparr>)"
    using q u m by (simp add: dns_prepare_def entropy_def e s1_def Let_def)
  then show "qs = 19" "ds = 27" "dns_id s' = 0" "dns_local_port s' = 49152" "card s' = card s" "future s' = future s"
    using p by (auto simp: s1_def)
qed

lemma dns_reply_resolve: "\<exists>s'. net_resolve [0x61] 1000 (answering_net dns_reply) = Some (Inr (Ipv4 10 0 0 7), s')"
proof -
  define s where "s = answering_net dns_reply"
  have wf: "net_wf s" unfolding s_def by (rule answering_net_wf) (simp add: length_dns_reply)
  obtain query where q: "dns_query_build (dns_query s) 512 0 [0x61] = (query, 19)"
    using dns_query_size[of "dns_query s" 0] wf by (cases "dns_query_build (dns_query s) 512 0 [0x61]") (simp add: net_wf_def)
  define s1 where "s1 = s\<lparr>dns_name := [0x61], dns_query := query\<rparr>"
  have wf1: "net_wf s1" using wf dns_query_fits(1)[OF q] by (simp add: s1_def net_wf_def)
  have f: "table s1 = arp_table_update arp_table_init (Ipv4 10 0 2 3) (Mac 2 0 0 0 0 9) 0" "uptime s1 = 0" "net_active s" "dns_server s1 = Ipv4 10 0 2 3"
      "own_mac s1 = Mac 2 0 0 0 0 1" "own_ip s1 = Ipv4 10 0 2 15" "future s1 = [[Interrupt]]" "card s1 = answering_nic dns_reply"
      "entropy_in s1 = (\<lambda>_. 0)" "dns_name s1 = [0x61]"
    by (simp_all add: s1_def s_def answering_net_def example_net_def)
  have hop: "next_hop (dns_server s1) s1 = Ipv4 10 0 2 3" unfolding s1_def s_def answering_net_def example_net_def next_hop_def by simp code_simp
  have "net_resolve [0x61] 1000 s = dns_loop DNS_ATTEMPTS (Mac 2 0 0 0 0 9) 1000 s1"
    using f(3) q hop answering_resolve[OF f(1,2)] by (simp add: net_resolve_def copy_dns_name_spec s1_def[symmetric] del: dns_loop.simps)
  moreover have "DNS_ATTEMPTS = Suc 2" by simp
  ultimately have n: "net_resolve [0x61] 1000 s = dns_loop (Suc 2) (Mac 2 0 0 0 0 9) 1000 s1" by (simp only:)
  have c: "nic_active (card s1)" "port_in (card s1) (port_reads (card s1)) (io_base (card s1) + (REG_TSD0 + of_nat (tx_next (card s1) * 4))) AND TSD_OWN \<noteq> 0"
    by (simp_all add: f(8) answering_nic_def example_nic_def)
  have free: "slot_free (card s1)" unfolding slot_free_def using c(2) by (intro exI[of _ 0]) simp
  from wf1 show ?thesis
  proof (cases rule: dns_loop_step[where k = 2 and dest = "Mac 2 0 0 0 0 9" and t = 1000])
    case (stopped e s2)
    obtain qs ds s0 where p: "dns_prepare s1 = ((qs, ds), s0)" by (metis surj_pair)
    show ?thesis using stopped(6) free c(1) p dns_prepare_first[OF wf1 f(9,10) p] by simp
  next
    case (asked s2)
    obtain qs ds s0 pk buf F s3 where p: "dns_prepare s1 = ((qs, ds), s0)" "frame_sent buf F (s0\<lparr>dns_waiting := True\<rparr>) s3"
        "s2 = s3\<lparr>dns_packet := pk, dns_frame := buf\<rparr>"
      using asked(5) unfolding query_sent_def by blast
    note P = dns_prepare_first[OF wf1 f(9,10) p(1)]
    obtain d where d: "s3 = s0\<lparr>dns_waiting := True, card := d\<rparr>" "port_reads d = Suc (port_reads (card s1))" "rx_ring d = rx_ring (card s1)"
        "rx_offset d = rx_offset (card s1)" "frames d = frames (card s1)" "port_in d = port_in (card s1)" "io_base d = io_base (card s1)"
        "nic_active d = nic_active (card s1)"
      using frame_sent_first[OF p(2)] c(2) P(5) by auto
    have m: "own_mac s2 = Mac 2 0 0 0 0 1" "own_ip s2 = Ipv4 10 0 2 15" "dns_server s2 = Ipv4 10 0 2 3" "dns_waiting s2" "dns_id s2 = 0"
        "dns_local_port s2 = 49152" "dns_name s2 = [0x61]" "future s2 = [[Interrupt]]" "card s2 = d"
      using asked(2,4) f P by (simp_all add: same_net_def p(3) d(1))
    define h where "h = (\<lambda>c. wake_events (s2\<lparr>future := [], rx_frame := taken s2 dns_reply, card := c,
      dns_address := Ipv4 10 0 0 7, dns_status := None, dns_done := True\<rparr>))"
    have "\<exists>c. net_wait (\<lambda>s. (if dns_done s then Some () else None, s)) 1000 s2 = Some (Some (), h c)"
    proof (rule answering_wait[OF asked(1) m(8)])
      show "handle_frame (dns_reply @ drop (length dns_reply) (rx_frame s2)) (of_nat (length dns_reply))
          (s2\<lparr>future := [], rx_frame := taken s2 dns_reply, card := c\<rparr>) = Some (h c)" for c
        using m by (subst handle_dns_reply) (simp_all add: h_def)
    qed (use f(8) d m(9) asked(3) in \<open>simp_all add: h_def wake_events_def length_dns_reply answering_frames\<close>,
         simp_all add: answering_nic_def example_nic_def)
    then obtain e where e: "net_wait dns_ready 1000 s2 = Some (Some (), h e)" unfolding ready_eq by blast
    have "dns_result (h e) = Inr (Ipv4 10 0 0 7)" by (simp add: dns_result_def h_def wake_events_def)
    then show ?thesis using n asked(6)[OF e] unfolding s_def by simp
  qed
qed

text \<open>
  C26. A ping returns, and it reports success only for an answer: if the card reports an empty buffer again and again, then
  whatever frames arrive and whenever the card interrupts, \<open>net_ping\<close> returns, keeps the invariant and is no longer
  waiting; without the device it is \<open>NET_ERR_NO_DEVICE\<close> and nothing happens; and if it reports \<open>ms\<close> milliseconds, the run
  from \<open>s\<close> to \<open>s'\<close> has resolved the next hop, sent a request for the target with the next sequence number, and exactly \<open>ms\<close>
  later the receive task took a reply of the target to this very request, with its identifier and sequence number, from
  the queue.
\<close>

theorem net_ping_correct:
  assumes "net_wf s" "card_live s" "t \<noteq> WAIT_FOREVER" "\<not> echo_waiting s"
  shows "\<exists>r s'. net_ping target t s = Some (r, s') \<and> net_wf s' \<and> \<not> echo_waiting s' \<and>
    (\<not> net_active s \<longrightarrow> r = Inl NET_ERR_NO_DEVICE \<and> s' = s) \<and> (\<forall>ms. r = Inr ms \<longrightarrow> ping_answered target s s' ms)"
  by (rule net_ping_returns[OF assms, of target]) (use net_ping_sound[OF assms(1,2)] in blast)

theorem net_ping_correct_witness:
  "\<exists>s'. net_ping (Ipv4 10 0 2 3) 1000 (answering_net echo_reply) = Some (Inr 0, s') \<and> \<not> echo_waiting s' \<and>
    ping_answered (Ipv4 10 0 2 3) (answering_net echo_reply) s' 0"
proof -
  have l: "length echo_reply \<le> 200" by (simp add: length_echo_reply)
  have "(1000 :: u32) \<noteq> WAIT_FOREVER" "\<not> echo_waiting (answering_net echo_reply)" by (simp_all add: answering_net_def example_net_def)
  from net_ping_correct[OF answering_net_wf[OF l] this, of "Ipv4 10 0 2 3"] echo_reply_ping show ?thesis by auto
qed

text \<open>
  C27. A name resolution returns, and the address it reports comes from an answer: if the card reports an empty buffer
  again and again, then whatever arrives while it waits, \<open>net_resolve\<close> returns, keeps the invariant and is no longer waiting;
  a name of more than 253 characters is \<open>NET_ERR_NAME\<close> and nothing is sent; and if it reports an address, the run from \<open>s\<close> to
  \<open>s'\<close> has sent a query for the name, and while it waited for the answer the receive task took a datagram from the queue
  that is from the name server's port 53 to the port of this query, with its identifier, repeats its question and has the
  address as its answer.
\<close>

theorem net_resolve_correct:
  assumes "net_wf s" "card_live s" "t \<noteq> WAIT_FOREVER" "\<not> dns_waiting s"
  shows "\<exists>r s'. net_resolve name t s = Some (r, s') \<and> net_wf s' \<and> \<not> dns_waiting s' \<and>
    (\<not> net_active s \<longrightarrow> r = Inl NET_ERR_NO_DEVICE \<and> s' = s) \<and>
    (net_active s \<and> DNS_NAME_MAX < length name \<longrightarrow> r = Inl NET_ERR_NAME \<and> card s' = card s) \<and>
    (\<forall>a. r = Inr a \<longrightarrow> name_answered name t s s' a)"
  by (rule net_resolve_returns[OF assms, of name]) (use net_resolve_sound[OF assms(1-3)] in blast)

theorem net_resolve_correct_witness:
  "\<exists>s'. net_resolve [0x61] 1000 (answering_net dns_reply) = Some (Inr (Ipv4 10 0 0 7), s') \<and> \<not> dns_waiting s' \<and>
    name_answered [0x61] 1000 (answering_net dns_reply) s' (Ipv4 10 0 0 7)"
proof -
  have l: "length dns_reply \<le> 200" by (simp add: length_dns_reply)
  have "(1000 :: u32) \<noteq> WAIT_FOREVER" "\<not> dns_waiting (answering_net dns_reply)" by (simp_all add: answering_net_def example_net_def)
  from net_resolve_correct[OF answering_net_wf[OF l] this, of "[0x61]"] dns_reply_resolve show ?thesis by auto
qed

text \<open>
  C29. No forged answer: handling any frame, with any bytes, returns and keeps the invariant, and it changes what a ping waits
  for only if one is waiting and the frame is its answer, and what a name resolution waits for only if one is waiting and the
  frame carries the name server's answer to the pending query.
\<close>

theorem net_no_forged_answer:
  assumes "net_wf s" "unat n \<le> length frame"
  shows "\<exists>s'. handle_frame frame n s = Some s' \<and> net_wf s' \<and> same_net s s' \<and>
    (echo_part s' = echo_part s \<or> echo_waiting s \<and> echo_answer s frame n \<and> echo_received s' \<and> echo_time s' = uptime s) \<and>
    (dns_part s' = dns_part s \<or> dns_waiting s \<and> (\<exists>r. dns_answer s frame n r \<and> dns_settled r s'))"
  by (rule handle_frame_spec[OF assms]) (auto simp: handled_def echo_part_def)

theorem net_no_forged_answer_witness:
  "\<exists>s'. handle_frame echo_reply 74 ((example_net [])\<lparr>echo_waiting := True, echo_target := Ipv4 10 0 2 3, echo_sequence := 1, uptime := 5\<rparr>) = Some s' \<and>
     echo_received s' \<and> echo_time s' = 5 \<and> dns_part s' = dns_part (example_net []) \<and>
     handle_frame echo_reply 74 ((example_net [])\<lparr>echo_waiting := True, echo_target := Ipv4 10 0 2 3, echo_sequence := 2\<rparr>) \<noteq> None"
proof -
  let ?s = "(example_net [])\<lparr>echo_waiting := True, echo_target := Ipv4 10 0 2 3, echo_sequence := 1, uptime := 5\<rparr>"
    and ?t = "(example_net [])\<lparr>echo_waiting := True, echo_target := Ipv4 10 0 2 3, echo_sequence := 2\<rparr>"
  have wf: "net_wf ?s" "net_wf ?t" using example_net_wf(1)[of "[]"] by (simp_all add: net_wf_def)
  have n: "unat (74 :: u32) \<le> length echo_reply" by (simp add: length_echo_reply)
  have "handle_frame (echo_reply @ []) (of_nat (length echo_reply)) ?s = Some (wake_events (?s\<lparr>echo_time := uptime ?s, echo_received := True\<rparr>))"
    by (rule handle_echo_reply) (simp_all add: example_net_def)
  then have e: "handle_frame echo_reply 74 ?s = Some (wake_events (?s\<lparr>echo_time := 5, echo_received := True\<rparr>))" by (simp add: length_echo_reply)
  obtain s' where s': "handle_frame echo_reply 74 ?s = Some s'" "dns_part s' = dns_part ?s"
    using net_no_forged_answer[OF wf(1) n] by (auto simp: example_net_def)
  moreover have "\<exists>s'. handle_frame echo_reply 74 ?t = Some s'" using net_no_forged_answer[OF wf(2) n] by blast
  moreover have "dns_part ?s = dns_part (example_net [])" by (simp add: dns_part_def)
  ultimately show ?thesis using e by (auto simp: wake_events_def)
qed

end
