(* ===== verification/Crc32.thy ===== *)
theory Crc32
  imports Prelude
begin

text \<open>
  The CRC-32 of \<open>crypto/crc32.c\<close>, computed four bits at a time with a table of sixteen entries, and
  the bit-by-bit definition it has to agree with (reflected polynomial \<open>0xEDB88320\<close>).
\<close>

section \<open>Definitions\<close>

definition crc_table :: "u32 list" where
  "crc_table = [
     0x00000000, 0x1db71064, 0x3b6e20c8, 0x26d930ac,
     0x76dc4190, 0x6b6b51f4, 0x4db26158, 0x5005713c,
     0xedb88320, 0xf00f9344, 0xd6d6a3e8, 0xcb61b38c,
     0x9b64c2b0, 0x86d3d2d4, 0xa00ae278, 0xbdbdf21c]"

definition crc_nibble :: "u32 \<Rightarrow> u32" where
  "crc_nibble crc = drop_bit 4 crc XOR crc_table ! unat (crc AND 0x0f)"

fun crc_loop :: "u32 \<Rightarrow> u8 list \<Rightarrow> u32" where
  "crc_loop crc [] = crc"
| "crc_loop crc (b # bs) = crc_loop (crc_nibble (crc_nibble (crc XOR ucast b))) bs"

definition crc32_update :: "u32 \<Rightarrow> u8 list \<Rightarrow> u32 \<Rightarrow> u32" where
  "crc32_update crc data sz = NOT (crc_loop (NOT crc) (take (unat sz) data))"

definition crc32 :: "u8 list \<Rightarrow> u32 \<Rightarrow> u32" where
  "crc32 data sz = crc32_update 0 data sz"


section \<open>The bit-by-bit reference\<close>

definition crc_bit :: "u32 \<Rightarrow> u32" where
  "crc_bit c = drop_bit 1 c XOR (if bit c 0 then 0xEDB88320 else 0)"

definition crc_byte :: "u32 \<Rightarrow> u8 \<Rightarrow> u32" where
  "crc_byte c b = (crc_bit ^^ 8) (c XOR ucast b)"

definition crc32_ref :: "u8 list \<Rightarrow> u32" where
  "crc32_ref bs = NOT (foldl crc_byte (NOT 0) bs)"

text \<open>Both the reference step and the table step are linear over exclusive or.\<close>

lemma crc_bit_xor: "crc_bit (a XOR b) = crc_bit a XOR crc_bit b"
  by (rule bit_word_eqI) (auto simp: crc_bit_def bit_simps)

lemma crc_bit_shift:
  assumes "\<not> bit c 0"
  shows "crc_bit c = drop_bit 1 c"
  using assms by (simp add: crc_bit_def)

lemma crc_bit_high: "(crc_bit ^^ 4) (c AND NOT 0x0f) = drop_bit 4 c"
proof -
  have m: "(0x0f::u32) = mask 4" by (simp add: mask_eq_exp_minus_1)
  let ?c = "c AND NOT (mask 4)"
  have "(crc_bit ^^ k) ?c = drop_bit k ?c" if "k \<le> 4" for k
    using that
  proof (induction k)
    case (Suc k)
    have "\<not> bit (drop_bit k ?c) 0" using Suc.prems by (simp add: bit_simps)
    then show ?case using Suc by (simp add: crc_bit_shift drop_bit_drop_bit)
  qed simp
  moreover have "drop_bit 4 ?c = drop_bit 4 c"
    by (rule bit_word_eqI) (auto simp: bit_simps dest: bit_imp_le_length)
  ultimately show ?thesis unfolding m by simp
qed

lemma crc_bit_table: "map (\<lambda>n. (crc_bit ^^ 4) (of_nat n)) [0..<16] = crc_table"
  by code_simp

lemma crc_bits_xor: "(crc_bit ^^ k) (a XOR b) = (crc_bit ^^ k) a XOR (crc_bit ^^ k) b"
  by (induction k) (simp_all add: crc_bit_xor)

lemma crc_nibble_bits: "crc_nibble c = (crc_bit ^^ 4) c"
proof -
  let ?n = "unat (c AND 0x0f)"
  have "c AND 0x0f < 16" using and_mask_less'[of 4 c] by (simp add: mask_eq_exp_minus_1)
  then have n: "?n < 16" by (simp add: unat_less_32)
  have "c = (c AND NOT 0x0f) XOR of_nat ?n"
    by (rule bit_word_eqI) (auto simp: bit_simps)
  then have "(crc_bit ^^ 4) c = (crc_bit ^^ 4) (c AND NOT 0x0f) XOR (crc_bit ^^ 4) (of_nat ?n)"
    using crc_bits_xor by metis
  also have "(crc_bit ^^ 4) (of_nat ?n) = crc_table ! ?n"
    using arg_cong[OF crc_bit_table, of "\<lambda>xs. xs ! ?n"] n by simp
  finally show ?thesis unfolding crc_nibble_def crc_bit_high by simp
qed

lemma crc_loop_ref: "crc_loop c bs = foldl crc_byte c bs"
proof (induction bs arbitrary: c)
  case (Cons b bs)
  have "crc_nibble (crc_nibble x) = (crc_bit ^^ 8) x" for x
    using funpow_add[of 4 4 crc_bit] by (simp add: crc_nibble_bits)
  then show ?case using Cons by (simp add: crc_byte_def)
qed simp

text \<open>
  The table-driven CRC computes the bit-by-bit CRC-32, also when the data arrives in two pieces:
  updating the CRC of the first piece with the second gives the CRC of the concatenation.
\<close>

theorem crc32_is_bitwise:
  "crc32_update (crc32 xs n) ys m = crc32_ref (take (unat n) xs @ take (unat m) ys)"
  by (simp add: crc32_update_def crc32_def crc32_ref_def crc_loop_ref)


section \<open>Error detection\<close>

lemma xor_cancel_right: "a XOR c = b XOR c \<Longrightarrow> a = (b :: u32)"
proof -
  assume "a XOR c = b XOR c"
  then have "(a XOR c) XOR c = (b XOR c) XOR c" by simp
  then show "a = b" by (simp add: xor.assoc)
qed

lemma crc_bit_inj: "crc_bit a = crc_bit b \<Longrightarrow> a = b"
proof -
  assume eq: "crc_bit a = crc_bit b"
  have top: "bit (crc_bit c) 31 \<longleftrightarrow> bit c 0" for c
    using bit_imp_le_length[of c 32] by (auto simp: crc_bit_def bit_simps)
  have low: "bit a 0 = bit b 0" using top[of a] top[of b] eq by simp
  then have "drop_bit 1 a = drop_bit 1 b" using eq xor_cancel_right by (cases "bit a 0") (auto simp: crc_bit_def)
  then have "bit a (Suc k) = bit b (Suc k)" for k
    by (metis bit_drop_bit_eq plus_1_eq_Suc comp_apply)
  then have "bit a k = bit b k" for k using low by (cases k) simp_all
  then show "a = b" by (simp add: bit_eq_iff)
qed

lemma crc_byte_inj: "crc_byte a x = crc_byte b x \<Longrightarrow> a = b"
  and crc_byte_inj_data: "crc_byte a x = crc_byte a y \<Longrightarrow> x = y"
proof -
  have inj: "inj (crc_bit ^^ 8)" using crc_bit_inj by (auto intro: inj_fn injI)
  show "a = b" if "crc_byte a x = crc_byte b x"
    using injD[OF inj that[unfolded crc_byte_def]] by (rule xor_cancel_right)
  show "x = y" if "crc_byte a x = crc_byte a y"
  proof -
    have "ucast x XOR a = ucast y XOR a"
      using injD[OF inj that[unfolded crc_byte_def]] by (simp add: xor.commute)
    then have "(ucast x :: u32) = ucast y" by (rule xor_cancel_right)
    then show ?thesis by (metis ucast_u8_u32_u8)
  qed
qed

text \<open>
  The CRC detects every corruption confined to one byte: two messages that differ in exactly one
  byte have different CRCs.
\<close>

theorem crc32_detects_byte_error:
  assumes "unat n = length xs + 1 + length ys" "x \<noteq> y"
  shows "crc32 (xs @ x # ys) n \<noteq> crc32 (xs @ y # ys) n"
proof -
  have step: "foldl crc_byte a ys \<noteq> foldl crc_byte b ys" if "a \<noteq> b" for a b
    using that
  proof (induction ys arbitrary: a b)
    case (Cons z zs)
    then have "crc_byte a z \<noteq> crc_byte b z" using crc_byte_inj by blast
    then show ?case using Cons.IH by simp
  qed simp
  have "crc_byte a x \<noteq> crc_byte a y" for a using crc_byte_inj_data assms(2) by blast
  then show ?thesis
    using step assms(1) by (simp add: crc32_def crc32_update_def crc_loop_ref)
qed

theorem crc32_detects_byte_error_witness: "crc32 [1, 2, 3] 3 \<noteq> crc32 [1, 7, 3] 3"
  using crc32_detects_byte_error[of 3 "[1]" "[3]" 2 7] by simp

end
