(* ===== verification/Base64.thy ===== *)
theory Base64
  imports Prelude
begin

text \<open>
  Base64 encoding and decoding (\<open>crypto/base64.c\<close>).  The encoder consumes the input three bytes at a
  time and writes to the front of the output buffer; the decoder checks groups of four characters.
  On an error the decoder has already written the bytes of the groups before it, which is why its
  loop returns them in both cases (\<open>Inl\<close> on an error).
\<close>

section \<open>Definitions\<close>

definition alphabet :: "u8 list" where
  "alphabet = map of_nat ([65..<91] @ [97..<123] @ [48..<58] @ [43, 47])"

definition symbol_value :: "u8 \<Rightarrow> int" where
  "symbol_value symb =
     (if 65 \<le> symb \<and> symb \<le> 90 then uint symb - 65
      else if 97 \<le> symb \<and> symb \<le> 122 then uint symb - 97 + 26
      else if 48 \<le> symb \<and> symb \<le> 57 then uint symb - 48 + 52
      else if symb = 43 then 62
      else if symb = 47 then 63
      else -1)"

definition base64_encoded_size :: "u32 \<Rightarrow> u32" where
  "base64_encoded_size sz = ((sz + 2) div 3) * 4"

definition base64_decoded_size :: "u32 \<Rightarrow> u32" where
  "base64_decoded_size len = (len div 4) * 3"

text \<open>\<open>alphabet[(group >> s) & 0x3f]\<close>\<close>

definition sextet :: "u32 \<Rightarrow> nat \<Rightarrow> u8" where
  "sextet grp s = alphabet ! unat (drop_bit s grp AND 0x3f)"

fun encode_loop :: "u8 list \<Rightarrow> u8 list" where
  "encode_loop (a # b # c # rest) =
     (let grp = push_bit 16 (ucast a) OR push_bit 8 (ucast b) OR ucast c
      in [sextet grp 18, sextet grp 12, sextet grp 6, sextet grp 0] @ encode_loop rest)"
| "encode_loop [a] =
     (let grp = push_bit 16 (ucast a) in [sextet grp 18, sextet grp 12, 61, 61])"
| "encode_loop [a, b] =
     (let grp = push_bit 16 (ucast a) OR push_bit 8 (ucast b)
      in [sextet grp 18, sextet grp 12, sextet grp 6, 61])"
| "encode_loop [] = []"

definition base64_encode :: "u8 list \<Rightarrow> u32 \<Rightarrow> u8 list \<Rightarrow> u8 list \<times> u32" where
  "base64_encode data sz out =
     (let enc = encode_loop (take (unat sz) data)
      in (write_at out 0 (enc @ [0]), of_nat (length enc)))"

text \<open>The inner loop over a group of four characters: the values and the amount of padding.\<close>

fun quad_loop :: "bool \<Rightarrow> nat \<Rightarrow> nat \<Rightarrow> u8 list \<Rightarrow> (u32 list \<times> nat) option" where
  "quad_loop final j padding [] = Some ([], padding)"
| "quad_loop final j padding (c # cs) =
     (if c = 61 then
        (if \<not> final \<or> j < 2 then None
         else map_option (\<lambda>(vs, p). (0 # vs, p)) (quad_loop final (j + 1) (padding + 1) cs))
      else if padding \<noteq> 0 then None
      else if symbol_value c = -1 then None
      else map_option (\<lambda>(vs, p). (word_of_int (symbol_value c) # vs, p))
             (quad_loop final (j + 1) padding cs))"

definition group_bytes :: "u32 list \<Rightarrow> nat \<Rightarrow> u8 list" where
  "group_bytes vs padding =
     (let grp = push_bit 18 (vs ! 0) OR push_bit 12 (vs ! 1) OR push_bit 6 (vs ! 2) OR vs ! 3
      in [ucast (drop_bit 16 grp)] @ (if padding < 2 then [ucast (drop_bit 8 grp)] else []) @
         (if padding < 1 then [ucast grp] else []))"

fun decode_loop :: "u8 list \<Rightarrow> u8 list \<Rightarrow> u8 list + u8 list" where
  "decode_loop out (a # b # c # d # rest) =
     (case quad_loop (rest = []) 0 0 [a, b, c, d] of
        None \<Rightarrow> Inl out
      | Some (vs, padding) \<Rightarrow> decode_loop (out @ group_bytes vs padding) rest)"
| "decode_loop out _ = Inr out"

text \<open>The result code, the output buffer and the output size (when it is set).\<close>

definition base64_decode :: "u8 list \<Rightarrow> u32 \<Rightarrow> u8 list \<Rightarrow> int \<times> u8 list \<times> u32 option" where
  "base64_decode input len out =
     (if len mod 4 \<noteq> 0 then (-1, out, None)
      else (case decode_loop [] (take (unat len) input) of
          Inl w \<Rightarrow> (-1, write_at out 0 w, None)
        | Inr w \<Rightarrow> (0, write_at out 0 w, Some (of_nat (length w)))))"


section \<open>Sextets\<close>

lemma alphabet_values: "map symbol_value alphabet = map int [0..<64]"
  by code_simp

lemma alphabet_no_pad: "61 \<notin> set alphabet" "0 \<notin> set alphabet" "length alphabet = 64"
  by code_simp+

definition six :: "u32 \<Rightarrow> nat \<Rightarrow> u32" where
  "six grp s = drop_bit s grp AND 0x3f"

lemma unat_six: "unat (six grp s) < 64"
proof -
  have "six grp s < 64"
    using and_mask_less'[of 6 "drop_bit s grp"] by (simp add: six_def mask_eq_exp_minus_1)
  then show ?thesis by (simp add: unat_less_32)
qed

lemma symbol_value_sextet: "symbol_value (sextet grp s) = uint (six grp s)"
  and sextet_not_pad [simp]: "sextet grp s \<noteq> 61"
proof -
  let ?n = "unat (six grp s)"
  have e: "sextet grp s = alphabet ! ?n" by (simp add: sextet_def six_def)
  have "map symbol_value alphabet ! ?n = map int [0..<64] ! ?n" by (simp only: alphabet_values)
  then show "symbol_value (sextet grp s) = uint (six grp s)"
    using unat_six[of grp s] alphabet_no_pad(3) by (simp add: e)
  show "sextet grp s \<noteq> 61"
    using alphabet_no_pad(1,3) unat_six[of grp s] nth_mem[of ?n alphabet] unfolding e by metis
qed

lemma sextet_value [simp]:
  "symbol_value (sextet grp s) \<noteq> -1" "word_of_int (symbol_value (sextet grp s)) = six grp s"
proof -
  have "0 \<le> uint (six grp s)" by simp
  then show "symbol_value (sextet grp s) \<noteq> -1" unfolding symbol_value_sextet by linarith
qed (simp add: symbol_value_sextet)

lemma quad_of_sextets:
  "quad_loop final 0 0 [sextet g 18, sextet g 12, sextet g 6, sextet g 0] =
     Some ([six g 18, six g 12, six g 6, six g 0], 0)"
  "quad_loop True 0 0 [sextet g 18, sextet g 12, sextet g 6, 61] =
     Some ([six g 18, six g 12, six g 6, 0], 1)"
  "quad_loop True 0 0 [sextet g 18, sextet g 12, 61, 61] = Some ([six g 18, six g 12, 0, 0], 2)"
  by simp_all

lemma bit_six: "bit (push_bit k (six g k)) n \<longleftrightarrow> k \<le> n \<and> n < k + 6 \<and> n < 32 \<and> bit g n"
proof -
  have m: "(0x3f::u32) = mask 6" by (simp add: mask_eq_exp_minus_1)
  show ?thesis unfolding six_def m by (auto simp: bit_simps)
qed

lemma bit_six_0: "bit (six g k) n \<longleftrightarrow> n < 6 \<and> bit g (k + n)"
proof -
  have m: "(0x3f::u32) = mask 6" by (simp add: mask_eq_exp_minus_1)
  show ?thesis unfolding six_def m using bit_imp_le_length[of g "k + n"] by (auto simp: bit_simps)
qed

lemma sextets_join:
  assumes "\<And>n. 24 \<le> n \<Longrightarrow> \<not> bit g n"
  shows "push_bit 18 (six g 18) OR push_bit 12 (six g 12) OR push_bit 6 (six g 6) OR six g 0 = g"
proof (rule bit_word_eqI)
  fix n
  have "bit (six g 0) n \<longleftrightarrow> n < 6 \<and> bit g n" using bit_six[of 0 g n] by auto
  moreover have "bit g n \<Longrightarrow> n < 24" using assms[of n] by (cases "n < 24") auto
  ultimately show "bit (push_bit 18 (six g 18) OR push_bit 12 (six g 12) OR push_bit 6 (six g 6) OR six g 0) n
      = bit g n"
    unfolding bit_or_iff bit_six by auto
qed

definition group24 :: "u8 \<Rightarrow> u8 \<Rightarrow> u8 \<Rightarrow> u32" where
  "group24 a b c = push_bit 16 (ucast a) OR push_bit 8 (ucast b) OR ucast c"

lemma bit_byte_at: "bit (push_bit k (ucast (a::u8) :: u32)) n \<longleftrightarrow> k \<le> n \<and> n < 32 \<and> n < k + 8 \<and> bit a (n - k)"
  using bit_imp_le_length[of a "n - k"] by (auto simp: bit_simps)

lemma bit_byte_0: "bit (ucast (a::u8) :: u32) n \<longleftrightarrow> n < 8 \<and> bit a n"
  using bit_imp_le_length[of a n] by (auto simp: bit_simps)

lemma group24_high: "24 \<le> n \<Longrightarrow> \<not> bit (group24 a b c) n"
  unfolding group24_def bit_or_iff bit_byte_at bit_byte_0 by simp

lemma group24_bytes:
  "ucast (drop_bit 16 (group24 a b c)) = a" "ucast (drop_bit 8 (group24 a b c)) = b"
  "ucast (group24 a b c) = c"
  by (rule bit_word_eqI; auto simp: bit_ucast_iff bit_drop_bit_eq group24_def bit_or_iff bit_byte_at
      dest: bit_imp_le_length)+

lemmas group24_parts = sextets_join[OF group24_high] group24_bytes

lemma group_bytes_six:
  "group_bytes [six (group24 a b c) 18, six (group24 a b c) 12, six (group24 a b c) 6,
     six (group24 a b c) 0] 0 = [a, b, c]"
  by (simp add: group_bytes_def group24_parts)

lemma group_bytes_tail:
  "group_bytes [six (group24 a b 0) 18, six (group24 a b 0) 12, six (group24 a b 0) 6, 0] 1 = [a, b]"
  "group_bytes [six (group24 a 0 0) 18, six (group24 a 0 0) 12, 0, 0] 2 = [a]"
proof -
  have z: "six (group24 a b 0) 0 = 0" for a b
    by (rule bit_word_eqI) (simp add: bit_six_0 group24_def bit_or_iff bit_byte_at)
  have z6: "six (group24 a 0 0) 6 = 0"
    by (rule bit_word_eqI) (simp add: bit_six_0 group24_def bit_or_iff bit_byte_at)
  show "group_bytes [six (group24 a b 0) 18, six (group24 a b 0) 12, six (group24 a b 0) 6, 0] 1 = [a, b]"
    using group24_parts(1)[of a b 0] z[of a b] by (simp add: group_bytes_def group24_bytes)
  show "group_bytes [six (group24 a 0 0) 18, six (group24 a 0 0) 12, 0, 0] 2 = [a]"
    using group24_parts(1)[of a 0 0] z[of a 0] z6 by (simp add: group_bytes_def group24_bytes)
qed


section \<open>Round trip\<close>

lemma encode_loop_group24:
  "encode_loop (a # b # c # rest) =
     [sextet (group24 a b c) 18, sextet (group24 a b c) 12, sextet (group24 a b c) 6,
      sextet (group24 a b c) 0] @ encode_loop rest"
  "encode_loop [a, b] = [sextet (group24 a b 0) 18, sextet (group24 a b 0) 12, sextet (group24 a b 0) 6, 61]"
  "encode_loop [a] = [sextet (group24 a 0 0) 18, sextet (group24 a 0 0) 12, 61, 61]"
  by (simp_all add: group24_def Let_def)

lemma encode_loop_empty_iff: "encode_loop bs = [] \<longleftrightarrow> bs = []"
  by (cases bs rule: encode_loop.cases) (simp_all add: Let_def)

lemma decode_encode_loop: "decode_loop out (encode_loop bs) = Inr (out @ bs)"
proof (induction bs arbitrary: out rule: encode_loop.induct)
  case (1 a b c rest)
  show ?case
    using 1[OF refl] by (simp add: encode_loop_group24(1) quad_of_sextets group_bytes_six
        del: encode_loop.simps quad_loop.simps)
next
  case (2 a)
  show ?case
    by (simp add: encode_loop_group24(3) quad_of_sextets group_bytes_tail
        del: encode_loop.simps quad_loop.simps)
next
  case (3 a b)
  show ?case
    by (simp add: encode_loop_group24(2) quad_of_sextets group_bytes_tail[simplified]
        del: encode_loop.simps quad_loop.simps)
qed simp

lemma length_encode_loop: "length (encode_loop bs) = (length bs + 2) div 3 * 4"
proof (induction bs rule: encode_loop.induct)
  case (1 a b c rest)
  have "(length (a # b # c # rest) + 2) div 3 = (length rest + 2) div 3 + 1"
    using div_add_self2[of 3 "length rest + 2"] by simp
  then show ?case using 1[OF refl] by (simp add: Let_def)
qed (simp_all add: Let_def)

text \<open>
  Encoding and decoding is the identity on every input: the encoder's output has the size that
  \<open>base64_encoded_size\<close> announces and is terminated by a NUL, the decoder accepts it, and returns the
  original bytes and their number.
\<close>

theorem base64_roundtrip:
  assumes "unat sz \<le> length data" "unat sz \<le> 3221225469"
    and "(unat sz + 2) div 3 * 4 < length out" "unat sz \<le> length out2"
  shows "case base64_encode data sz out of (text, n) \<Rightarrow>
    n = base64_encoded_size sz \<and> text ! unat n = 0 \<and> length text = length out \<and>
    base64_decode text n out2 = (0, write_at out2 0 (take (unat sz) data), Some sz)"
proof -
  let ?bs = "take (unat sz) data"
  let ?enc = "encode_loop ?bs"
  have len: "length ?bs = unat sz" "length ?enc = (unat sz + 2) div 3 * 4"
    using assms(1) by (simp_all add: length_encode_loop)
  have small: "(unat sz + 2) div 3 * 4 < 4294967296" using assms(2) by linarith
  have n: "unat (of_nat (length ?enc) :: u32) = length ?enc"
    using small len(2) by (intro unat_of_nat_u32) simp
  have "unat (sz + 2) = unat sz + 2" using assms(2) by (simp add: unat_add_u32)
  then have d: "unat ((sz + 2) div 3) = (unat sz + 2) div 3" by (simp add: unat_div)
  then have "unat ((sz + 2) div 3 * 4) = (unat sz + 2) div 3 * 4"
    using small by (simp add: unat_word_ariths)
  then have size: "of_nat (length ?enc) = base64_encoded_size sz"
    unfolding base64_encoded_size_def len(2) by (rule of_nat_unat_eq[symmetric])
  have "unat (of_nat (length ?enc) mod 4 :: u32) = 0" using n len(2) by (simp add: unat_mod)
  then have m4: "(of_nat (length ?enc) :: u32) mod 4 = 0" by (simp add: unat_eq_zero)
  let ?text = "write_at out 0 (?enc @ [0])"
  have t: "?text ! length ?enc = 0" "length ?text = length out" "take (length ?enc) ?text = ?enc"
    using assms(3) len(2) by (simp_all add: nth_write_at write_at_def nth_append)
  have "base64_decode ?text (of_nat (length ?enc)) out2 = (0, write_at out2 0 ?bs, Some sz)"
    using m4 n t(3) decode_encode_loop[of "[]" ?bs] len(1) by (simp add: base64_decode_def)
  then show ?thesis using t n size by (simp add: base64_encode_def Let_def)
qed

theorem base64_roundtrip_witness:
  "case base64_encode [77, 97, 110, 1] 4 (replicate 9 7) of (text, n) \<Rightarrow>
     n = 8 \<and> base64_decode text n (replicate 4 0) = (0, [77, 97, 110, 1], Some 4)"
  using base64_roundtrip[of 4 "[77, 97, 110, 1]" "replicate 9 7" "replicate 4 0"]
  by (simp add: base64_encoded_size_def write_at_def split: prod.splits)


section \<open>Bounds\<close>

lemma length_group_bytes: "length (group_bytes vs p) \<le> 3"
  by (simp add: group_bytes_def Let_def)

lemma decode_loop_length:
  "case decode_loop out cs of Inl w \<Rightarrow> length w \<le> length out + length cs div 4 * 3
   | Inr w \<Rightarrow> length w \<le> length out + length cs div 4 * 3"
proof (induction out cs rule: decode_loop.induct)
  case (1 out a b c d rest)
  have n: "length (a # b # c # d # rest) div 4 = length rest div 4 + 1"
    using div_add_self2[of 4 "length rest"] by simp
  show ?case
  proof (cases "quad_loop (rest = []) 0 0 [a, b, c, d]")
    case None
    then show ?thesis by simp
  next
    case (Some vp)
    then obtain vs p where vp: "quad_loop (rest = []) 0 0 [a, b, c, d] = Some (vs, p)" by (cases vp) auto
    then have e: "decode_loop out (a # b # c # d # rest) = decode_loop (out @ group_bytes vs p) rest"
      by (simp del: quad_loop.simps)
    show ?thesis
      using 1[OF vp refl] length_group_bytes[of vs p] unfolding e n by (auto split: sum.splits)
  qed
qed simp_all

text \<open>
  Whatever text it is given, valid or not, the decoder writes at most the number of bytes that
  \<open>base64_decoded_size\<close> announces: everything after them in the output buffer is left alone, and the
  size it reports stays within that bound.
\<close>

theorem base64_decode_bounded:
  assumes "unat len \<le> length input" "base64_decode input len out = (r, out', n)"
  shows "drop (unat (base64_decoded_size len)) out' = drop (unat (base64_decoded_size len)) out \<and>
    (\<forall>k. n = Some k \<longrightarrow> k \<le> base64_decoded_size len)"
proof -
  have lt: "unat len < 4294967296" by (rule unat_u32_lt)
  then have "unat len div 4 * 3 < 4294967296" "unat len div 4 < 4294967296" by linarith+
  then have size: "unat (base64_decoded_size len) = unat len div 4 * 3"
    by (simp add: base64_decoded_size_def unat_word_ariths unat_div)
  have tk: "length (take (unat len) input) = unat len" using assms(1) by simp
  note bound = decode_loop_length[of "[]" "take (unat len) input", unfolded tk]
  have after: "drop (unat len div 4 * 3) (write_at out 0 w) = drop (unat len div 4 * 3) out"
    if "length w \<le> unat len div 4 * 3" for w
    using that by (intro drop_write_at_after) simp_all
  have cnt: "of_nat (length w) \<le> base64_decoded_size len" if "length w \<le> unat len div 4 * 3" for w :: "u8 list"
  proof -
    have "length w < 4294967296" using that lt by linarith
    then show ?thesis using that size by (simp add: unat_le_32 unat_of_nat_u32)
  qed
  show ?thesis
    using assms(2) bound after cnt unfolding base64_decode_def size
    by (auto split: if_splits sum.splits)
qed

theorem base64_decode_bounded_witness:
  "drop 3 (fst (snd (base64_decode [81, 81, 61, 33] 4 [9, 9, 9, 9, 9]))) = [9, 9]"
proof -
  obtain r out' n where d: "base64_decode [81, 81, 61, 33] 4 [9, 9, 9, 9, 9] = (r, out', n)"
    using prod_cases3 by blast
  have "base64_decoded_size 4 = 3" by (simp add: base64_decoded_size_def)
  then show ?thesis using base64_decode_bounded[OF _ d] d by simp
qed

end
