(* ===== verification/Md_Hash.thy ===== *)
theory Md_Hash
  imports Mem Byteorder
begin

text \<open>
  The streaming part that \<open>crypto/sha1.c\<close> and \<open>crypto/sha256.c\<close> share word for word: a context with
  a chaining state, a 64-bit byte counter kept in two words and a block buffer, an update that takes
  data in pieces of any size, and the padding at the end.  The definitions take the block transform
  as an argument; the theories of the two hash functions instantiate them.

  The specification is the Merkle-Damgard construction on the whole message: pad it, cut it into
  64-byte blocks, and fold the transform over them.
\<close>

section \<open>Definitions\<close>

record md_context =
  hstate :: "u32 list"
  bytes_low :: u32
  bytes_high :: u32
  buffer_length :: u32
  buffer :: "u8 list"

type_synonym transform = "u32 list \<Rightarrow> u8 list \<Rightarrow> u32 list"

definition store_big_endian :: "u32 \<Rightarrow> u8 list" where
  "store_big_endian v =
     [ucast (drop_bit 24 v), ucast (drop_bit 16 v), ucast (drop_bit 8 v), ucast v]"

definition md_init :: "u32 list \<Rightarrow> u8 list \<Rightarrow> md_context" where
  "md_init iv buf = \<lparr>hstate = iv, bytes_low = 0, bytes_high = 0, buffer_length = 0, buffer = buf\<rparr>"

definition md_transform :: "transform \<Rightarrow> u8 list \<Rightarrow> md_context \<Rightarrow> md_context" where
  "md_transform f block ctx = ctx\<lparr>hstate := f (hstate ctx) (take 64 block)\<rparr>"

lemma unat_minus_less:
  assumes "n \<noteq> 0" "n \<le> (sz::u32)"
  shows "unat (sz - n) < unat sz"
proof -
  have "0 < unat n" using assms(1) by (simp add: unat_gt_0)
  then show ?thesis using assms(2) by (simp add: unat_sub_u32 unat_le_32)
qed

lemma space_zero_iff: "(64::u32) - l = 0 \<longleftrightarrow> l = 64"
  by auto

text \<open>The \<open>while\<close> loop of the update: one whole block straight from the data when the buffer is empty,
  else as much as fits into the buffer.\<close>

function md_loop :: "transform \<Rightarrow> md_context \<Rightarrow> u8 list \<Rightarrow> u32 \<Rightarrow> md_context" where
  "md_loop f ctx bytes sz =
     (if sz = 0 then ctx
      else if buffer_length ctx = 0 \<and> sz \<ge> 64
      then md_loop f (md_transform f bytes ctx) (drop 64 bytes) (sz - 64)
      else let
        space = 64 - buffer_length ctx;
        n = (if sz < space then sz else space);
        ctx = ctx\<lparr>buffer := write_at (buffer ctx) (unat (buffer_length ctx)) (take (unat n) bytes),
                  buffer_length := buffer_length ctx + n\<rparr>
      in if buffer_length ctx = 64
         then md_loop f ((md_transform f (buffer ctx) ctx)\<lparr>buffer_length := 0\<rparr>)
                (drop (unat n) bytes) (sz - n)
         else md_loop f ctx (drop (unat n) bytes) (sz - n))"
  by pat_completeness auto

termination
proof (relation "measures [\<lambda>(f, ctx, bytes, sz). unat sz,
    \<lambda>(f, ctx, bytes, sz). if buffer_length ctx = 64 then 1 else 0]", goal_cases)
  case (2 f ctx bytes sz)
  then show ?case using unat_minus_less[of 64 sz] by simp
next
  case (3 f ctx bytes sz space n ctx')
  then show ?case
    using unat_minus_less[of n sz] space_zero_iff[of "buffer_length ctx"]
    by (cases "n = 0") (auto split: if_splits)
next
  case (4 f ctx bytes sz space n ctx')
  then show ?case
    using unat_minus_less[of n sz] space_zero_iff[of "buffer_length ctx"]
    by (cases "n = 0") (auto split: if_splits)
qed simp

declare md_loop.simps [simp del]

definition md_update :: "transform \<Rightarrow> md_context \<Rightarrow> u8 list \<Rightarrow> u32 \<Rightarrow> md_context" where
  "md_update f ctx data sz =
     (let previous = bytes_low ctx;
          ctx = ctx\<lparr>bytes_low := bytes_low ctx + sz\<rparr>;
          ctx = (if bytes_low ctx < previous then ctx\<lparr>bytes_high := bytes_high ctx + 1\<rparr> else ctx)
      in md_loop f ctx data sz)"

text \<open>The context after the two (or one) last transforms; the digest is read from its state.\<close>

definition md_final :: "transform \<Rightarrow> md_context \<Rightarrow> md_context" where
  "md_final f ctx =
     (let bits_high = push_bit 3 (bytes_high ctx) OR drop_bit 29 (bytes_low ctx);
          bits_low = push_bit 3 (bytes_low ctx);
          ctx = ctx\<lparr>buffer := write_at (buffer ctx) (unat (buffer_length ctx)) [0x80],
                    buffer_length := buffer_length ctx + 1\<rparr>;
          ctx = (if buffer_length ctx > 56 then
                   let ctx = ctx\<lparr>buffer := write_at (buffer ctx) (unat (buffer_length ctx))
                                   (replicate (unat (64 - buffer_length ctx)) 0)\<rparr>
                   in (md_transform f (buffer ctx) ctx)\<lparr>buffer_length := 0\<rparr>
                 else ctx);
          ctx = ctx\<lparr>buffer := write_at (buffer ctx) (unat (buffer_length ctx))
                      (replicate (unat (56 - buffer_length ctx)) 0)\<rparr>;
          ctx = ctx\<lparr>buffer := write_at (buffer ctx) 56 (store_big_endian bits_high)\<rparr>;
          ctx = ctx\<lparr>buffer := write_at (buffer ctx) 60 (store_big_endian bits_low)\<rparr>
      in md_transform f (buffer ctx) ctx)"


section \<open>The specification\<close>

function md_blocks :: "u8 list \<Rightarrow> u8 list list" where
  "md_blocks bs = (if length bs < 64 then [] else take 64 bs # md_blocks (drop 64 bs))"
  by pat_completeness auto
termination by (relation "measure length") auto

declare md_blocks.simps [simp del]

text \<open>The number \<open>v\<close> in \<open>k\<close> bytes, the most significant first.\<close>

definition be_digits :: "nat \<Rightarrow> nat \<Rightarrow> u8 list" where
  "be_digits k v = map (\<lambda>i. of_nat (v div 256 ^ (k - 1 - i) mod 256)) [0..<k]"

definition md_padding :: "nat \<Rightarrow> u8 list" where
  "md_padding n =
     [0x80] @ replicate (if n mod 64 < 56 then 55 - n mod 64 else 119 - n mod 64) 0 @
     be_digits 8 (8 * n)"

definition md_spec :: "transform \<Rightarrow> u32 list \<Rightarrow> u8 list \<Rightarrow> u8 list" where
  "md_spec f iv m =
     concat (map (\<lambda>w. be_digits 4 (unat w)) (foldl f iv (md_blocks (m @ md_padding (length m)))))"

lemma store_digits: "store_big_endian (of_nat v) = map (\<lambda>e. of_nat (v div 256 ^ e mod 256)) [3, 2, 1, 0]"
proof -
  have d: "ucast (drop_bit k (of_nat v :: u32)) = (of_nat (v div 2 ^ k mod 256) :: u8)" if "k \<le> 24" for k
  proof -
    have "unat (drop_bit k (of_nat v :: u32)) = v mod 2 ^ 32 div 2 ^ k"
      by (simp only: unat_drop_bit_eq) (simp add: drop_bit_eq_div unsigned_of_nat take_bit_eq_mod)
    then have "unat (ucast (drop_bit k (of_nat v :: u32)) :: u8) = v mod 2 ^ 32 div 2 ^ k mod 2 ^ 8"
      by (simp only: unsigned_ucast_eq) (simp add: take_bit_eq_mod)
    also have "\<dots> = v div 2 ^ k mod 2 ^ 8"
    proof -
      have "(2 :: nat) ^ 32 = 2 ^ (k + (32 - k))" using that by simp
      then have "v mod 2 ^ 32 div 2 ^ k = v div 2 ^ k mod 2 ^ (32 - k)" by (simp only: power_add mod_mult2_eq) simp
      moreover have "(2 :: nat) ^ 8 dvd 2 ^ (32 - k)" using that by (intro le_imp_power_dvd) simp
      ultimately show ?thesis by (simp only: mod_mod_cancel)
    qed
    finally show ?thesis by (simp add: word_unat_eq_iff unsigned_of_nat take_bit_eq_mod)
  qed
  show ?thesis using d[of 24] d[of 16] d[of 8] d[of 0] by (simp add: store_big_endian_def)
qed

lemma store_word: "store_big_endian w = be_digits 4 (unat w)"
  using store_digits[of "unat w"] by (simp add: be_digits_def upt_rec)

lemma md_spec_store: "md_spec f iv m = concat (map store_big_endian (foldl f iv (md_blocks (m @ md_padding (length m)))))"
proof -
  have "store_big_endian = (\<lambda>w. be_digits 4 (unat w))" by (rule ext) (rule store_word)
  then show ?thesis by (simp only: md_spec_def)
qed

lemma store_length: "store_big_endian (of_nat (v div 4294967296)) @ store_big_endian (of_nat v) = be_digits 8 v"
  unfolding store_digits by (simp add: be_digits_def upt_rec div_mult2_eq[symmetric] del: mod_mod_trivial)

lemma md_blocks_append:
  "length a mod 64 = 0 \<Longrightarrow> md_blocks (a @ b) = md_blocks a @ md_blocks b"
proof (induction a rule: md_blocks.induct)
  case (1 a)
  show ?case
  proof (cases "length a < 64")
    case True
    then have "a = []" using 1(2) by simp
    then show ?thesis by (simp add: md_blocks.simps[of "[]"])
  next
    case False
    have "length (drop 64 a) mod 64 = 0" using 1(2) False by (simp add: le_mod_geq)
    then have "md_blocks (drop 64 a @ b) = md_blocks (drop 64 a) @ md_blocks b"
      using 1(1)[OF False] by simp
    then show ?thesis using False by (simp add: md_blocks.simps[of "a @ b"] md_blocks.simps[of a])
  qed
qed

lemma md_blocks_one: "length b = 64 \<Longrightarrow> md_blocks b = [b]"
  by (simp add: md_blocks.simps[of b] md_blocks.simps[of "[]"])

lemma md_blocks_short: "length b < 64 \<Longrightarrow> md_blocks b = []"
  by (simp add: md_blocks.simps)

text \<open>The part of a message that is still in the buffer, and the part already hashed.\<close>

definition pending :: "u8 list \<Rightarrow> u8 list" where
  "pending m = drop (64 * (length m div 64)) m"

definition hashed :: "u8 list \<Rightarrow> u8 list" where
  "hashed m = take (64 * (length m div 64)) m"

lemma pending_hashed: "m = hashed m @ pending m" "length (pending m) = length m mod 64"
    "length (hashed m) mod 64 = 0"
proof -
  have "64 * (length m div 64) \<le> length m" by simp
  then have "length (hashed m) = 64 * (length m div 64)" by (simp add: hashed_def min_absorb2)
  then show "length (hashed m) mod 64 = 0" by simp
qed (simp_all add: pending_def hashed_def minus_mult_div_eq_mod)

lemma blocks_hashed: "md_blocks (hashed m @ b) = md_blocks m @ md_blocks b" if "length (pending m) < 64"
proof -
  have "md_blocks m = md_blocks (hashed m) @ md_blocks (pending m)"
    using md_blocks_append[OF pending_hashed(3)] pending_hashed(1)[of m] by metis
  then have "md_blocks m = md_blocks (hashed m)" using md_blocks_short[OF that] by simp
  then show ?thesis using md_blocks_append[OF pending_hashed(3)] by simp
qed

lemma pending_lt: "length (pending m) < 64"
  by (simp add: pending_hashed(2))

lemma blocks_split: "md_blocks (m @ b) = md_blocks m @ md_blocks (pending m @ b)"
proof -
  have "m @ b = hashed m @ (pending m @ b)"
    using arg_cong[OF pending_hashed(1)[of m], of "\<lambda>x. x @ b"] by simp
  then show ?thesis using blocks_hashed[OF pending_lt, of m "pending m @ b"] by (rule ssubst)
qed

lemma pending_append_short:
  assumes "length (pending m) + length b < 64"
  shows "pending (m @ b) = pending m @ b" "md_blocks (m @ b) = md_blocks m"
proof -
  have q: "length (m @ b) div 64 = length m div 64"
  proof (rule div_nat_eqI)
    show "64 * (length m div 64) \<le> length (m @ b)" by simp
    show "length (m @ b) < 64 * Suc (length m div 64)"
      using assms mult_div_mod_eq[of 64 "length m"]
      unfolding pending_hashed(2) length_append mult_Suc_right by linarith
  qed
  show "pending (m @ b) = pending m @ b"
    unfolding pending_def q by simp
  show "md_blocks (m @ b) = md_blocks m"
    using blocks_split[of m b] md_blocks_short[of "pending m @ b"] assms by simp
qed

lemma pending_append_full:
  assumes "length (pending m) + length b = 64"
  shows "pending (m @ b) = []" "md_blocks (m @ b) = md_blocks m @ [pending m @ b]"
proof -
  have "length (m @ b) mod 64 = 0"
    using assms unfolding pending_hashed(2) by (simp add: mod_add_left_eq[symmetric])
  then show "pending (m @ b) = []" using pending_hashed(2)[of "m @ b"] by simp
  show "md_blocks (m @ b) = md_blocks m @ [pending m @ b]"
    using blocks_split[of m b] md_blocks_one[of "pending m @ b"] assms by simp
qed


section \<open>Contexts that represent a message\<close>

definition md_core :: "transform \<Rightarrow> u32 list \<Rightarrow> md_context \<Rightarrow> u8 list \<Rightarrow> bool" where
  "md_core f iv ctx m \<longleftrightarrow> hstate ctx = foldl f iv (md_blocks m) \<and> length (buffer ctx) = 64 \<and>
     unat (buffer_length ctx) = length (pending m) \<and>
     take (length (pending m)) (buffer ctx) = pending m"

definition md_rep :: "transform \<Rightarrow> u32 list \<Rightarrow> md_context \<Rightarrow> u8 list \<Rightarrow> bool" where
  "md_rep f iv ctx m \<longleftrightarrow> md_core f iv ctx m \<and>
     (unat (bytes_low ctx) + 4294967296 * unat (bytes_high ctx)) mod 18446744073709551616 =
       length m mod 18446744073709551616"

lemma md_core_block:
  assumes "md_core f iv ctx m" "buffer_length ctx = 0" "64 \<le> length bytes"
  shows "md_core f iv (md_transform f bytes ctx) (m @ take 64 bytes)"
proof -
  have p: "length (pending m) = 0" using assms(1,2) by (simp add: md_core_def)
  then show ?thesis
    using assms pending_append_full[of m "take 64 bytes"] by (simp add: md_core_def md_transform_def)
qed

lemma take_write_prefix:
  assumes "take l buf = p" "l + length b \<le> length buf" "length p = l"
  shows "take (l + length b) (write_at buf l b) = p @ b"
  using assms by (simp add: write_at_def)

lemma md_core_fill:
  assumes c: "md_core f iv ctx m" and n: "length (pending m) + length b \<le> 64"
    and ctx': "ctx' = ctx\<lparr>buffer := write_at (buffer ctx) (unat (buffer_length ctx)) b,
      buffer_length := buffer_length ctx + of_nat (length b)\<rparr>"
  shows "buffer_length ctx' = 64 \<longleftrightarrow> length (pending m) + length b = 64"
    and "length (pending m) + length b = 64 \<Longrightarrow>
      md_core f iv ((md_transform f (buffer ctx') ctx')\<lparr>buffer_length := 0\<rparr>) (m @ b)"
    and "length (pending m) + length b \<noteq> 64 \<Longrightarrow> md_core f iv ctx' (m @ b)"
proof -
  have bl: "unat (buffer_length ctx) = length (pending m)" "length (buffer ctx) = 64"
    "take (length (pending m)) (buffer ctx) = pending m"
    "hstate ctx = foldl f iv (md_blocks m)"
    using c by (simp_all add: md_core_def)
  have lb: "unat (of_nat (length b) :: u32) = length b" using n by (intro unat_of_nat_u32) simp
  have l: "unat (buffer_length ctx') = length (pending m) + length b"
    using n lb bl(1) unfolding ctx' by (simp add: unat_add_u32)
  show "buffer_length ctx' = 64 \<longleftrightarrow> length (pending m) + length b = 64"
    using l word_unat_eq_iff[of "buffer_length ctx'" 64] by simp
  have t: "take (length (pending m) + length b) (buffer ctx') = pending m @ b" "length (buffer ctx') = 64"
    using take_write_prefix[OF bl(3)] n bl(1,2) unfolding ctx' by simp_all
  show "md_core f iv ((md_transform f (buffer ctx') ctx')\<lparr>buffer_length := 0\<rparr>) (m @ b)"
    if "length (pending m) + length b = 64"
    using that t pending_append_full[OF that] bl(4) unfolding ctx'
    by (simp add: md_core_def md_transform_def)
  show "md_core f iv ctx' (m @ b)" if "length (pending m) + length b \<noteq> 64"
    using that n t l pending_append_short[of m b] bl(4) unfolding md_core_def ctx' by simp
qed

lemma md_core_loop:
  "\<lbrakk>md_core f iv ctx m; unat sz \<le> length bytes\<rbrakk> \<Longrightarrow>
    md_core f iv (md_loop f ctx bytes sz) (m @ take (unat sz) bytes) \<and>
    bytes_low (md_loop f ctx bytes sz) = bytes_low ctx \<and>
    bytes_high (md_loop f ctx bytes sz) = bytes_high ctx"
proof (induction f ctx bytes sz arbitrary: m rule: md_loop.induct)
  case (1 f ctx bytes sz)
  note c = "1.prems"(1) and le = "1.prems"(2)
  define n where "n = (if sz < 64 - buffer_length ctx then sz else 64 - buffer_length ctx)"
  define ctx' where "ctx' = ctx\<lparr>buffer := write_at (buffer ctx) (unat (buffer_length ctx)) (take (unat n) bytes),
      buffer_length := buffer_length ctx + n\<rparr>"
  have p: "unat (buffer_length ctx) = length (pending m)" using c by (simp add: md_core_def)
  have p64: "unat (64 - buffer_length ctx) = 64 - length (pending m)"
    using p pending_lt[of m] by (simp add: unat_sub_u32)
  have n: "unat n = min (unat sz) (64 - length (pending m))"
    using p64 by (simp add: n_def unat_less_32 min_def)
  have nn: "unat (sz - n) = unat sz - unat n" using n by (simp add: unat_sub_u32)
  have ctxn: "ctx' = ctx\<lparr>buffer := write_at (buffer ctx) (unat (buffer_length ctx)) (take (unat n) bytes),
      buffer_length := buffer_length ctx + of_nat (length (take (unat n) bytes))\<rparr>"
  proof -
    have "length (take (unat n) bytes) = unat n" using le n by simp
    then show ?thesis unfolding ctx'_def by simp
  qed
  have tk: "take (unat sz) bytes = take (unat n) bytes @ take (unat (sz - n)) (drop (unat n) bytes)"
    using n unfolding nn by (metis le_add_diff_inverse min.cobounded1 take_add)
  have fill: "length (pending m) + length (take (unat n) bytes) \<le> 64" using n pending_lt[of m] by simp
  note core = md_core_fill[OF c fill ctxn]
  have le': "unat (sz - n) \<le> length (drop (unat n) bytes)" using le nn by simp
  have step: "md_loop f ctx bytes sz = (if buffer_length ctx' = 64
      then md_loop f ((md_transform f (buffer ctx') ctx')\<lparr>buffer_length := 0\<rparr>) (drop (unat n) bytes) (sz - n)
      else md_loop f ctx' (drop (unat n) bytes) (sz - n))"
    if "sz \<noteq> 0" "\<not> (buffer_length ctx = 0 \<and> sz \<ge> 64)"
    unfolding md_loop.simps[of f ctx] if_not_P[OF that(1)] if_not_P[OF that(2)] Let_def
      n_def[symmetric] ctx'_def[symmetric] ..
  consider (empty) "sz = 0" | (block) "sz \<noteq> 0" "buffer_length ctx = 0 \<and> sz \<ge> 64"
    | (full) "sz \<noteq> 0" "\<not> (buffer_length ctx = 0 \<and> sz \<ge> 64)" "buffer_length ctx' = 64"
    | (part) "sz \<noteq> 0" "\<not> (buffer_length ctx = 0 \<and> sz \<ge> 64)" "buffer_length ctx' \<noteq> 64"
    by blast
  then show ?case
  proof cases
    case empty
    then show ?thesis using c by (simp add: md_loop.simps)
  next
    case block
    have s64: "unat (sz - 64) = unat sz - 64" "64 \<le> unat sz"
      using block(2) by (simp_all add: unat_sub_u32 unat_le_32)
    have "take (unat sz) bytes = take 64 bytes @ take (unat (sz - 64)) (drop 64 bytes)"
      using s64 by (metis le_add_diff_inverse take_add)
    moreover have "md_core f iv (md_transform f bytes ctx) (m @ take 64 bytes)"
      using md_core_block[OF c] block(2) le s64 by simp
    ultimately show ?thesis
      using "1.IH"(1)[OF block, of "m @ take 64 bytes"] block s64 le
      by (simp add: md_loop.simps[of f ctx] md_transform_def)
  next
    case full
    have "md_core f iv ((md_transform f (buffer ctx') ctx')\<lparr>buffer_length := 0\<rparr>) (m @ take (unat n) bytes)"
      using core(1,2) full(3) by blast
    from "1.IH"(2)[OF full(1,2) refl n_def ctx'_def full(3) this le'] show ?thesis
      unfolding step[OF full(1,2)] if_P[OF full(3)] tk by (simp add: ctx'_def md_transform_def)
  next
    case part
    have "md_core f iv ctx' (m @ take (unat n) bytes)" using core(1,3) part(3) by blast
    from "1.IH"(3)[OF part(1,2) refl n_def ctx'_def part(3) this le'] show ?thesis
      unfolding step[OF part(1,2)] if_not_P[OF part(3)] tk by (simp add: ctx'_def)
  qed
qed

lemma md_rep_init: "length buf = 64 \<Longrightarrow> md_rep f iv (md_init iv buf) []"
  by (simp add: md_rep_def md_core_def md_init_def md_blocks_short pending_def)

lemma counter_carry:
  fixes lo hi sz :: u32
  assumes "(unat lo + 4294967296 * unat hi) mod 18446744073709551616 = n mod 18446744073709551616"
  shows "(unat (lo + sz) + 4294967296 * unat (if lo + sz < lo then hi + 1 else hi))
      mod 18446744073709551616 = (n + unat sz) mod 18446744073709551616"
proof -
  have l: "unat lo < 4294967296" "unat sz < 4294967296" "unat hi < 4294967296" by simp_all
  have "(unat (lo + sz) + 4294967296 * unat (if lo + sz < lo then hi + 1 else hi))
      mod 18446744073709551616 = (unat lo + 4294967296 * unat hi + unat sz) mod 18446744073709551616"
  proof (cases "unat lo + unat sz < 4294967296")
    case True
    then have "unat (lo + sz) = unat lo + unat sz" by (rule unat_add_u32_small)
    then show ?thesis by (simp add: unat_less_32 algebra_simps)
  next
    case False
    have "unat lo + unat sz - 4294967296 < 4294967296" using l by linarith
    then have a: "unat (lo + sz) = unat lo + unat sz - 4294967296"
      using False by (simp add: unat_add_u32 le_mod_geq)
    then have c: "lo + sz < lo" using l False unfolding unat_less_32 by linarith
    have "unat (hi + 1) = (unat hi + 1) mod 4294967296" by (simp add: unat_add_u32)
    moreover have "4294967296 * ((unat hi + 1) mod 4294967296) =
        (4294967296 * (unat hi + 1)) mod 18446744073709551616"
      using mult_mod_right[of 4294967296 "unat hi + 1" 4294967296] by simp
    ultimately have "(unat (lo + sz) + 4294967296 * unat (hi + 1)) mod 18446744073709551616 =
        (unat (lo + sz) + 4294967296 * (unat hi + 1)) mod 18446744073709551616"
      by (simp only: mod_add_right_eq)
    also have "unat (lo + sz) + 4294967296 * (unat hi + 1) = unat lo + 4294967296 * unat hi + unat sz"
      using a False by simp
    finally show ?thesis using c by simp
  qed
  then show ?thesis unfolding mod_add_cong[OF assms refl, of "unat sz"] .
qed

lemma md_rep_update:
  assumes "md_rep f iv ctx m" "unat sz \<le> length data"
  shows "md_rep f iv (md_update f ctx data sz) (m @ take (unat sz) data)"
proof -
  define ctx1 where "ctx1 = ctx\<lparr>bytes_low := bytes_low ctx + sz,
    bytes_high := (if bytes_low ctx + sz < bytes_low ctx then bytes_high ctx + 1 else bytes_high ctx)\<rparr>"
  have u: "md_update f ctx data sz = md_loop f ctx1 data sz"
    by (simp add: md_update_def ctx1_def Let_def)
  have "md_core f iv ctx1 m" using assms(1) by (simp add: md_rep_def md_core_def ctx1_def)
  from md_core_loop[OF this assms(2)] show ?thesis
    using counter_carry[of "bytes_low ctx" "bytes_high ctx" "length m" sz] assms
    unfolding u md_rep_def by (simp add: ctx1_def min_absorb2)
qed

lemma of_nat_two_power_32: "(of_nat (4294967296 * j) :: u32) = 0"
proof -
  have "2 ^ LENGTH(32) dvd 4294967296 * j" by (rule dvdI[of _ _ j]) simp
  then show ?thesis by (rule iffD2[OF word_of_nat_eq_0_iff])
qed

lemma counter_bits:
  fixes lo hi :: u32
  assumes "(unat lo + 4294967296 * unat hi) mod 18446744073709551616 = n mod 18446744073709551616"
  shows "push_bit 3 lo = of_nat (8 * n)"
    and "push_bit 3 hi OR drop_bit 29 lo = of_nat (8 * n div 4294967296)"
proof -
  define k where "k = n div 18446744073709551616"
  have l: "unat lo < 4294967296" "unat hi < 4294967296" by simp_all
  then have "unat lo + 4294967296 * unat hi < 18446744073709551616" by linarith
  then have "n mod 18446744073709551616 = unat lo + 4294967296 * unat hi" using assms by simp
  then have n: "n = 18446744073709551616 * k + (unat lo + 4294967296 * unat hi)"
    using mult_div_mod_eq[of 18446744073709551616 n] by (simp add: k_def)
  show "push_bit 3 lo = of_nat (8 * n)"
  proof -
    have "8 * n = 8 * unat lo + 4294967296 * (8 * unat hi + 34359738368 * k)" unfolding n by simp
    then have "(of_nat (8 * n) :: u32) = of_nat (8 * unat lo)"
      by (simp only: of_nat_add of_nat_two_power_32 add_0_right)
    then show ?thesis by (simp add: push_bit_eq_mult)
  qed
  have "8 * n = 8 * unat lo + (8 * unat hi + 34359738368 * k) * 4294967296" unfolding n by simp
  then have "8 * n div 4294967296 = (8 * unat hi + 34359738368 * k) + 8 * unat lo div 4294967296"
    by (simp only: div_mult_self1)
  also have "8 * unat lo div 4294967296 = unat lo div 536870912"
    using div_mult_mult1[of 8 "unat lo" 536870912] by simp
  finally have "(of_nat (8 * n div 4294967296) :: u32) =
      of_nat (8 * unat hi) + of_nat (4294967296 * (8 * k)) + of_nat (unat lo div 536870912)"
    by (simp only: of_nat_add mult.assoc[symmetric]) simp
  also have "of_nat (unat lo div 536870912) = drop_bit 29 lo"
    using of_nat_unat_eq[OF unat_drop_bit[of 29 lo]] by simp
  also have "(of_nat (8 * unat hi) :: u32) = push_bit 3 hi" by (simp add: push_bit_eq_mult)
  also have "push_bit 3 hi + of_nat (4294967296 * (8 * k)) + drop_bit 29 lo = push_bit 3 hi OR drop_bit 29 lo"
    unfolding of_nat_two_power_32 add_0_right
    by (rule disjunctive_add_eq_or) (auto simp: bit_eq_iff bit_simps dest: bit_imp_le_length)
  finally show "push_bit 3 hi OR drop_bit 29 lo = of_nat (8 * n div 4294967296)" ..
qed

text \<open>The two shapes of the last block or blocks.\<close>

lemma final_blocks:
  fixes h w :: u32
  assumes "md_core f iv ctx m"
  defines "l \<equiv> length m mod 64"
  defines "z \<equiv> store_big_endian h @ store_big_endian w"
  shows "md_blocks (m @ [0x80] @ replicate (if l < 56 then 55 - l else 119 - l) 0 @ z) =
    (if l < 56 then md_blocks m @ [pending m @ [0x80] @ replicate (55 - l) 0 @ z]
     else md_blocks m @ [pending m @ [0x80] @ replicate (63 - l) 0, replicate 56 0 @ z])"
proof (cases "l < 56")
  case True
  then have "length (pending m @ [0x80] @ replicate (55 - l) 0 @ z) = 64"
    by (simp add: z_def store_big_endian_def pending_hashed(2) l_def[symmetric])
  then show ?thesis using True md_blocks_one by (simp add: blocks_split[of m])
next
  case False
  have l: "l < 64" by (simp add: l_def)
  have a: "length (pending m @ [0x80] @ replicate (63 - l) 0) = 64"
    using l by (simp add: pending_hashed(2) l_def[symmetric])
  have b: "length (replicate 56 0 @ z) = 64" by (simp add: z_def store_big_endian_def)
  have "replicate (119 - l) (0::u8) = replicate (63 - l) 0 @ replicate 56 0"
    using l False by (simp flip: replicate_add)
  then have "pending m @ [0x80] @ replicate (119 - l) 0 @ z =
      (pending m @ [0x80] @ replicate (63 - l) 0) @ (replicate 56 0 @ z)" by simp
  then have "md_blocks (pending m @ [0x80] @ replicate (119 - l) 0 @ z) =
      md_blocks (pending m @ [0x80] @ replicate (63 - l) 0) @ md_blocks (replicate 56 0 @ z)"
    using md_blocks_append[of "pending m @ [0x80] @ replicate (63 - l) 0"] a by simp
  then show ?thesis using False md_blocks_one[OF a] md_blocks_one[OF b] by (simp add: blocks_split[of m])
qed

lemma write_at_all: "length buf = a + length xs \<Longrightarrow> write_at buf a xs = take a buf @ xs"
  by (simp add: write_at_def)

lemma length_store_big_endian [simp]: "length (store_big_endian v) = 4"
  by (simp add: store_big_endian_def)

lemma write_length_words:
  assumes "length buf = 64"
  shows "write_at (write_at buf 56 (store_big_endian h)) 60 (store_big_endian w) =
    take 56 buf @ store_big_endian h @ store_big_endian w"
  using assms take_write_prefix[of 56 buf "take 56 buf" "store_big_endian h"] by (simp add: write_at_all)

lemma md_final_state:
  assumes "md_rep f iv ctx m"
  shows "hstate (md_final f ctx) = foldl f iv (md_blocks (m @ md_padding (length m)))"
proof -
  define l where "l = length m mod 64"
  define h where "h = push_bit 3 (bytes_high ctx) OR drop_bit 29 (bytes_low ctx)"
  define w where "w = push_bit 3 (bytes_low ctx)"
  define buf where "buf = write_at (buffer ctx) l [0x80]"
  have c: "md_core f iv ctx m" using assms by (simp add: md_rep_def)
  have hw: "h = of_nat (8 * length m div 4294967296)" "w = of_nat (8 * length m)"
    using counter_bits[of "bytes_low ctx" "bytes_high ctx" "length m"] assms
    unfolding md_rep_def h_def w_def by simp_all
  have l: "l < 64" "unat (buffer_length ctx) = l" "length (pending m) = l"
    using c by (simp_all add: md_core_def pending_hashed(2) l_def)
  have bl1: "unat (buffer_length ctx + 1) = l + 1" using l by (simp add: unat_add_u32)
  have buf: "length buf = 64" "take (l + 1) buf = pending m @ [0x80]"
    using c l take_write_prefix[of l "buffer ctx" "pending m" "[0x80]"]
    by (simp_all add: buf_def md_core_def)
  have h: "hstate ctx = foldl f iv (md_blocks m)" using c by (simp add: md_core_def)
  note blocks = final_blocks[OF c, of h w, folded l_def]
  have pad: "md_padding (length m) = [0x80] @ replicate (if l < 56 then 55 - l else 119 - l) 0 @
      store_big_endian h @ store_big_endian w"
    by (simp only: md_padding_def hw l_def store_length)
  show ?thesis
  proof (cases "l < 56")
    case True
    then have "\<not> 56 < buffer_length ctx + 1" "unat (56 - (buffer_length ctx + 1)) = 55 - l"
      using bl1 unat_sub_u32[of "buffer_length ctx + 1" 56] by (simp_all add: unat_less_32)
    moreover have "take 56 (write_at buf (l + 1) (replicate (55 - l) 0)) =
        pending m @ [0x80] @ replicate (55 - l) 0"
      using take_write_prefix[of "l + 1" buf "pending m @ [0x80]" "replicate (55 - l) 0"] buf l True by simp
    ultimately show ?thesis
      using blocks True buf(1) l(2,3) h bl1 unfolding pad
      by (simp add: md_final_def Let_def h_def[symmetric] w_def[symmetric] buf_def[symmetric]
          md_transform_def write_length_words)
  next
    case False
    then have "56 < buffer_length ctx + 1" "unat (64 - (buffer_length ctx + 1)) = 63 - l"
      using bl1 l unat_sub_u32[of "buffer_length ctx + 1" 64] by (simp_all add: unat_less_32)
    moreover have "write_at buf (l + 1) (replicate (63 - l) 0) = pending m @ [0x80] @ replicate (63 - l) 0"
      using write_at_all[of buf "l + 1" "replicate (63 - l) 0"] buf l(1) by simp
    ultimately show ?thesis
      using blocks False buf(1) l h bl1 unfolding pad
      by (simp add: md_final_def Let_def h_def[symmetric] w_def[symmetric] buf_def[symmetric]
          md_transform_def write_length_words write_at_0_take)
  qed
qed


section \<open>The interface of a streaming hash\<close>

text \<open>
  What a client relies on: an update appends to the message the context stands for, and the final
  operation hashes that message.  Everything a client can see of the pieces follows from these laws.
\<close>

locale streaming_hash =
  fixes hinit :: "u8 list \<Rightarrow> 'ctx"
    and hupdate :: "'ctx \<Rightarrow> u8 list \<Rightarrow> u32 \<Rightarrow> 'ctx"
    and hfinal :: "'ctx \<Rightarrow> 'ctx \<times> u8 list"
    and rep :: "'ctx \<Rightarrow> u8 list \<Rightarrow> bool"
    and spec :: "u8 list \<Rightarrow> u8 list"
  assumes rep_init: "length buf = 64 \<Longrightarrow> rep (hinit buf) []"
    and rep_update: "rep c m \<Longrightarrow> unat n \<le> length data \<Longrightarrow> rep (hupdate c data n) (m @ take (unat n) data)"
    and rep_final: "rep c m \<Longrightarrow> snd (hfinal c) = spec m"
begin

lemma rep_updates:
  "\<lbrakk>rep c m; \<forall>(d, n) \<in> set pieces. unat n \<le> length d\<rbrakk> \<Longrightarrow>
    rep (foldl (\<lambda>c (d, n). hupdate c d n) c pieces) (m @ concat (map (\<lambda>(d, n). take (unat n) d) pieces))"
proof (induction pieces arbitrary: c m)
  case (Cons p pieces)
  obtain d n where p: "p = (d, n)" by (cases p)
  have "rep (hupdate c d n) (m @ take (unat n) d)" using Cons.prems p by (intro rep_update) auto
  from Cons.IH[OF this] show ?case using Cons.prems p by simp
qed simp

lemma stream_digest:
  assumes "length buf = 64" "\<forall>(d, n) \<in> set pieces. unat n \<le> length d"
  shows "snd (hfinal (foldl (\<lambda>c (d, n). hupdate c d n) (hinit buf) pieces)) =
    spec (concat (map (\<lambda>(d, n). take (unat n) d) pieces))"
  using rep_final[OF rep_updates[OF rep_init[OF assms(1)] assms(2)]] by simp

lemma one_shot:
  assumes "length buf = 64" "unat n \<le> length data"
  shows "snd (hfinal (hupdate (hinit buf) data n)) = spec (take (unat n) data)"
  using stream_digest[of buf "[(data, n)]"] assms by simp

end


section \<open>Word rotations\<close>

lemma rotl_word:
  assumes "0 < n" "n < 32"
  shows "push_bit n (x::u32) OR drop_bit (32 - n) x = word_rotl n x"
proof (rule bit_word_eqI)
  fix i assume i: "i < LENGTH(32)"
  show "bit (push_bit n x OR drop_bit (32 - n) x) i = bit (word_rotl n x) i"
  proof (cases "i < n")
    case True
    then have "(i + (32 - n)) mod 32 = 32 - n + i" using assms by (simp add: add.commute)
    then show ?thesis using True assms i by (simp add: bit_simps)
  next
    case False
    then have "(i + (32 - n)) mod 32 = i - n" using assms i by (simp add: mod_if)
    moreover have "\<not> bit x (32 - n + i)"
      using False assms bit_imp_le_length[of x "32 - n + i"] by auto
    ultimately show ?thesis using False assms i by (simp add: bit_simps)
  qed
qed

lemma rotr_word:
  assumes "0 < n" "n < 32"
  shows "drop_bit n (x::u32) OR push_bit (32 - n) x = word_rotr n x"
proof (rule bit_word_eqI)
  fix i assume i: "i < LENGTH(32)"
  show "bit (drop_bit n x OR push_bit (32 - n) x) i = bit (word_rotr n x) i"
  proof (cases "i + n < 32")
    case True
    moreover have "\<not> 32 - n \<le> i" using True by simp
    ultimately show ?thesis using assms i by (simp add: bit_simps add.commute)
  next
    case False
    then have "(i + n) mod 32 = i - (32 - n)" using assms i by (simp add: mod_if)
    moreover have "\<not> bit x (n + i)"
      using False assms bit_imp_le_length[of x "n + i"] by auto
    moreover have "32 - n \<le> i" using False by linarith
    ultimately show ?thesis using False assms i by (simp add: bit_simps)
  qed
qed



section \<open>Digest comparison\<close>

text \<open>Both files compare digests without an early exit: the differences of all bytes are collected.\<close>

definition digest_equal :: "nat \<Rightarrow> u8 list \<Rightarrow> u8 list \<Rightarrow> bool" where
  "digest_equal n a b = (foldl (\<lambda>difference i. difference OR (a ! i XOR b ! i)) 0 [0..<n] = 0)"

lemma or_eq_0_iff_word: "a OR b = (0::'a::len word) \<longleftrightarrow> a = 0 \<and> b = 0"
  by (auto simp: bit_eq_iff bit_simps)

lemma digest_equal_take:
  assumes "n \<le> length a" "n \<le> length b"
  shows "digest_equal n a b \<longleftrightarrow> take n a = take n b"
proof -
  have "foldl (\<lambda>difference i. difference OR (a ! i XOR b ! i)) 0 [0..<k] = 0 \<longleftrightarrow>
      (\<forall>i < k. a ! i = b ! i)" for k
    by (induction k) (auto simp: or_eq_0_iff_word less_Suc_eq)
  then show ?thesis using assms by (auto simp: digest_equal_def list_eq_iff_nth_eq)
qed



section \<open>Block words and Boolean functions\<close>

definition load_block_word :: "u8 list \<Rightarrow> nat \<Rightarrow> u32" where
  "load_block_word block i =
     push_bit 24 (ucast (block ! (i * 4))) OR push_bit 16 (ucast (block ! (i * 4 + 1))) OR
     push_bit 8 (ucast (block ! (i * 4 + 2))) OR ucast (block ! (i * 4 + 3))"

text \<open>A block is sixteen numbers in base 256, most significant byte first.\<close>

definition block_word :: "u8 list \<Rightarrow> nat \<Rightarrow> u32" where
  "block_word block i = of_nat (foldl (\<lambda>n b. 256 * n + unat b) 0 (chunk block (4 * i) 4))"

lemma load_block_word_eq:
  assumes "i * 4 + 3 < length block"
  shows "load_block_word block i = block_word block i"
proof -
  define a b c d where "a = block ! (i * 4)" and "b = block ! (i * 4 + 1)"
    and "c = block ! (i * 4 + 2)" and "d = block ! (i * 4 + 3)"
  have "chunk block (4 * i) 4 = [a, b, c, d]"
    using assms by (intro nth_equalityI)
      (auto simp: nth_chunk less_Suc_eq numeral_eq_Suc a_def b_def c_def d_def mult.commute)
  then have "block_word block i =
      of_nat (16777216 * unat a + 65536 * unat b + 256 * unat c + unat d)"
    by (simp add: block_word_def)
  also have "\<dots> = push_bit 24 (ucast a) + push_bit 16 (ucast b) + push_bit 8 (ucast c) + ucast d"
    by (simp add: push_bit_eq_mult mult.commute)
  also have "\<dots> = push_bit 24 (ucast a) OR push_bit 16 (ucast b) OR push_bit 8 (ucast c) OR ucast d"
  proof -
    have "push_bit 24 (ucast a :: u32) AND push_bit 16 (ucast b) = 0"
      "(push_bit 24 (ucast a :: u32) OR push_bit 16 (ucast b)) AND push_bit 8 (ucast c) = 0"
      "(push_bit 24 (ucast a :: u32) OR push_bit 16 (ucast b) OR push_bit 8 (ucast c)) AND ucast d = 0"
      by (rule bit_word_eqI; auto simp: bit_simps dest: bit_imp_le_length)+
    then show ?thesis by (simp add: disjunctive_add_eq_or or.assoc)
  qed
  finally show ?thesis by (simp add: load_block_word_def a_def b_def c_def d_def)
qed

text \<open>The Boolean functions of FIPS 180-4, section 4.1.\<close>

definition Ch :: "u32 \<Rightarrow> u32 \<Rightarrow> u32 \<Rightarrow> u32" where
  "Ch x y z = (x AND y) XOR (NOT x AND z)"

definition Maj :: "u32 \<Rightarrow> u32 \<Rightarrow> u32 \<Rightarrow> u32" where
  "Maj x y z = (x AND y) XOR (x AND z) XOR (y AND z)"

lemma Ch_or: "(x AND y) OR (NOT x AND z) = Ch x y z"
  unfolding Ch_def by (rule bit_word_eqI) (auto simp: bit_simps)

lemma Maj_or: "(x AND y) OR (x AND z) OR (y AND z) = Maj x y z"
  unfolding Maj_def by (rule bit_word_eqI) (auto simp: bit_simps)

text \<open>A table filled from the front, each cell from the ones before it.\<close>

lemma schedule_nth:
  fixes step :: "(nat \<Rightarrow> 'a) \<Rightarrow> nat \<Rightarrow> 'a" and W :: "nat \<Rightarrow> 'a"
  assumes base: "length w0 = m" "\<And>t. t < m \<Longrightarrow> w0 ! t = W t"
    and step: "\<And>w i. \<lbrakk>m \<le> i; length w = i; \<And>t. t < i \<Longrightarrow> w ! t = W t\<rbrakk> \<Longrightarrow> step (\<lambda>j. w ! j) i = W i"
    and "m \<le> n"
  defines "r \<equiv> foldl (\<lambda>w i. w @ [step (\<lambda>j. w ! j) i]) w0 [m..<n]"
  shows "length r = n \<and> (\<forall>t < n. r ! t = W t)"
  unfolding r_def using \<open>m \<le> n\<close>
proof (induction n rule: dec_induct)
  case base
  then show ?case using assms by simp
next
  case (step n)
  then show ?case using assms(3)[of n "foldl (\<lambda>w i. w @ [step (\<lambda>j. w ! j) i]) w0 [m..<n]"]
    by (auto simp: nth_append less_Suc_eq)
qed



section \<open>Replacing the transform by an equal one\<close>

lemma md_blocks_length: "b \<in> set (md_blocks m) \<Longrightarrow> length b = 64"
proof (induction m rule: md_blocks.induct)
  case (1 m)
  then show ?case by (cases "length m < 64") (auto simp: md_blocks.simps[of m])
qed

lemma foldl_cong_set: "(\<And>s b. b \<in> set bs \<Longrightarrow> f s b = g s b) \<Longrightarrow> foldl f s bs = foldl g s bs"
  by (induction bs arbitrary: s) simp_all

lemma md_spec_cong:
  assumes "\<And>H b. length b = 64 \<Longrightarrow> f H b = g H b"
  shows "md_spec f iv m = md_spec g iv m"
  using foldl_cong_set[of "md_blocks (m @ md_padding (length m))" f g] assms md_blocks_length
  by (simp add: md_spec_def)

lemma map_nth_upto: "length xs = n \<Longrightarrow> map (\<lambda>i. f (xs ! i)) [0..<n] = map f xs"
  by (rule nth_equalityI) simp_all

end
