(* ===== verification/Sha1.thy ===== *)
theory Sha1
  imports Md_Hash
begin

text \<open>
  SHA-1 (\<open>crypto/sha1.c\<close>): the block transform as the code has it, the operations on a context, and
  that they compute the hash function of FIPS 180-4 (here \<open>sha1_reference\<close>, by its own recursion over
  the message schedule and the rounds) however the message is cut into updates.
\<close>

section \<open>Definitions\<close>

definition ROTL :: "u32 \<Rightarrow> nat \<Rightarrow> u32" where
  "ROTL x n = push_bit n x OR drop_bit (32 - n) x"

text \<open>The array \<open>w\<close>, filled from the front: its first \<open>i\<close> cells before step \<open>i\<close>.\<close>

definition sha1_schedule :: "u8 list \<Rightarrow> u32 list" where
  "sha1_schedule block =
     foldl (\<lambda>w i. w @ [ROTL (w ! (i - 3) XOR w ! (i - 8) XOR w ! (i - 14) XOR w ! (i - 16)) 1])
       (map (load_block_word block) [0..<16]) [16..<80]"

type_synonym sha1_vars = "u32 \<times> u32 \<times> u32 \<times> u32 \<times> u32"

definition sha1_round :: "u32 list \<Rightarrow> sha1_vars \<Rightarrow> nat \<Rightarrow> sha1_vars" where
  "sha1_round w v i = (case v of (a, b, c, d, e) \<Rightarrow>
     let (f, k) =
           (if i < 20 then ((b AND c) OR (NOT b AND d), 0x5a827999)
            else if i < 40 then (b XOR c XOR d, 0x6ed9eba1)
            else if i < 60 then ((b AND c) OR (b AND d) OR (c AND d), 0x8f1bbcdc)
            else (b XOR c XOR d, 0xca62c1d6));
         temp = ROTL a 5 + f + e + k + w ! i
     in (temp, a, ROTL b 30, c, d))"

definition sha1_transform :: "u32 list \<Rightarrow> u8 list \<Rightarrow> u32 list" where
  "sha1_transform st block =
     (let w = sha1_schedule block;
          (a, b, c, d, e) = foldl (sha1_round w) (st ! 0, st ! 1, st ! 2, st ! 3, st ! 4) [0..<80]
      in [st ! 0 + a, st ! 1 + b, st ! 2 + c, st ! 3 + d, st ! 4 + e])"

definition sha1_iv :: "u32 list" where
  "sha1_iv = [0x67452301, 0xefcdab89, 0x98badcfe, 0x10325476, 0xc3d2e1f0]"

text \<open>The buffer of a fresh context is whatever memory held: the argument of \<open>sha1_init\<close>.\<close>

definition sha1_init :: "u8 list \<Rightarrow> md_context" where
  "sha1_init garbage = md_init sha1_iv garbage"

definition sha1_update :: "md_context \<Rightarrow> u8 list \<Rightarrow> u32 \<Rightarrow> md_context" where
  "sha1_update = md_update sha1_transform"

definition sha1_final :: "md_context \<Rightarrow> md_context \<times> u8 list" where
  "sha1_final ctx =
     (let ctx = md_final sha1_transform ctx;
          digest = concat (map (\<lambda>i. store_big_endian (hstate ctx ! i)) [0..<5])
      in (\<lparr>hstate = replicate 5 0, bytes_low = 0, bytes_high = 0, buffer_length = 0,
           buffer = replicate 64 0\<rparr>, digest))"

definition sha1 :: "u8 list \<Rightarrow> u8 list \<Rightarrow> u32 \<Rightarrow> u8 list" where
  "sha1 garbage data sz = snd (sha1_final (sha1_update (sha1_init garbage) data sz))"

definition sha1_equal :: "u8 list \<Rightarrow> u8 list \<Rightarrow> bool" where
  "sha1_equal a b = digest_equal 20 a b"


section \<open>The standard\<close>

text \<open>FIPS 180-4, sections 4.1.1, 4.2.1 and 6.1.2.\<close>

definition Parity :: "u32 \<Rightarrow> u32 \<Rightarrow> u32 \<Rightarrow> u32" where
  "Parity x y z = x XOR y XOR z"

definition sha1_f :: "nat \<Rightarrow> u32 \<Rightarrow> u32 \<Rightarrow> u32 \<Rightarrow> u32" where
  "sha1_f t = [Ch, Parity, Maj, Parity] ! (t div 20)"

definition sha1_K :: "nat \<Rightarrow> u32" where
  "sha1_K t = [0x5a827999, 0x6ed9eba1, 0x8f1bbcdc, 0xca62c1d6] ! (t div 20)"

fun sha1_W :: "u8 list \<Rightarrow> nat \<Rightarrow> u32" where
  "sha1_W block t =
     (if t < 16 then block_word block t
      else word_rotl 1 (sha1_W block (t - 3) XOR sha1_W block (t - 8) XOR
        sha1_W block (t - 14) XOR sha1_W block (t - 16)))"

declare sha1_W.simps [simp del]

fun sha1_rounds :: "u8 list \<Rightarrow> u32 list \<Rightarrow> nat \<Rightarrow> sha1_vars" where
  "sha1_rounds block H 0 = (H ! 0, H ! 1, H ! 2, H ! 3, H ! 4)"
| "sha1_rounds block H (Suc t) = (case sha1_rounds block H t of (a, b, c, d, e) \<Rightarrow>
     (word_rotl 5 a + sha1_f t b c d + e + sha1_K t + sha1_W block t, a, word_rotl 30 b, c, d))"

definition sha1_compress :: "u32 list \<Rightarrow> u8 list \<Rightarrow> u32 list" where
  "sha1_compress H block = (case sha1_rounds block H 80 of (a, b, c, d, e) \<Rightarrow>
     [a + H ! 0, b + H ! 1, c + H ! 2, d + H ! 3, e + H ! 4])"

definition sha1_reference :: "u8 list \<Rightarrow> u8 list" where
  "sha1_reference m = md_spec sha1_compress
     [0x67452301, 0xefcdab89, 0x98badcfe, 0x10325476, 0xc3d2e1f0] m"


section \<open>The transform is the standard's\<close>

lemma ROTL_word: "0 < n \<Longrightarrow> n < 32 \<Longrightarrow> ROTL x n = word_rotl n x"
  by (simp only: ROTL_def rotl_word)

lemma sha1_schedule_W:
  assumes "length block = 64" "t < 80"
  shows "sha1_schedule block ! t = sha1_W block t"
proof -
  have "length (sha1_schedule block) = 80 \<and> (\<forall>t < 80. sha1_schedule block ! t = sha1_W block t)"
    unfolding sha1_schedule_def
  proof (rule schedule_nth[where step =
        "\<lambda>w i. ROTL (w (i - 3) XOR w (i - 8) XOR w (i - 14) XOR w (i - 16)) 1"])
    show "map (load_block_word block) [0..<16] ! t = sha1_W block t" if "t < 16" for t
      using that assms(1) by (simp add: sha1_W.simps[of block t] load_block_word_eq)
    show "ROTL (w ! (i - 3) XOR w ! (i - 8) XOR w ! (i - 14) XOR w ! (i - 16)) 1 = sha1_W block i"
      if "16 \<le> i" "\<And>t. t < i \<Longrightarrow> w ! t = sha1_W block t" for w i
      using that by (simp add: sha1_W.simps[of block i] ROTL_word)
  qed simp_all
  then show ?thesis using assms(2) by blast
qed

lemma sha1_round_step:
  assumes "length block = 64" "t < 80"
  shows "sha1_round (sha1_schedule block) (a, b, c, d, e) t =
    (word_rotl 5 a + sha1_f t b c d + e + sha1_K t + sha1_W block t, a, word_rotl 30 b, c, d)"
proof -
  consider "t < 20" "t div 20 = 0" | "20 \<le> t" "t < 40" "t div 20 = 1"
    | "40 \<le> t" "t < 60" "t div 20 = 2" | "60 \<le> t" "t div 20 = 3"
    using assms(2) by linarith
  then show ?thesis
    using sha1_schedule_W[OF assms]
    by cases (simp_all add: sha1_round_def ROTL_word Ch_or Maj_or sha1_f_def sha1_K_def Parity_def)
qed

lemma sha1_rounds_foldl:
  assumes "length block = 64" "n \<le> 80"
  shows "foldl (sha1_round (sha1_schedule block)) (H ! 0, H ! 1, H ! 2, H ! 3, H ! 4) [0..<n] =
    sha1_rounds block H n"
  using assms(2)
proof (induction n)
  case (Suc n)
  then show ?case using sha1_round_step[OF assms(1), of n]
    by (cases "sha1_rounds block H n") simp
qed simp

lemma sha1_transform_compress:
  assumes "length block = 64"
  shows "sha1_transform H block = sha1_compress H block"
  using sha1_rounds_foldl[OF assms order_refl, of H]
  by (cases "sha1_rounds block H 80") (simp add: sha1_transform_def sha1_compress_def Let_def add.commute)


section \<open>The operations on a context\<close>

lemma sha1_state_length: "length (foldl sha1_transform sha1_iv bs) = 5"
proof (cases bs rule: rev_cases)
  case (snoc ys y)
  then show ?thesis by (simp add: sha1_transform_def Let_def split: prod.split)
qed (simp add: sha1_iv_def)

interpretation sha1: streaming_hash sha1_init sha1_update sha1_final "md_rep sha1_transform sha1_iv" sha1_reference
proof
  show "md_rep sha1_transform sha1_iv (sha1_init buf) []" if "length buf = 64" for buf
    using that by (simp add: sha1_init_def md_rep_init)
  show "md_rep sha1_transform sha1_iv (sha1_update c data n) (m @ take (unat n) data)"
    if "md_rep sha1_transform sha1_iv c m" "unat n \<le> length data" for c m n data
    unfolding sha1_update_def by (rule md_rep_update) (fact that)+
  show "snd (sha1_final c) = sha1_reference m" if "md_rep sha1_transform sha1_iv c m" for c m
  proof -
    have "sha1_reference m = md_spec sha1_transform sha1_iv m"
      unfolding sha1_reference_def sha1_iv_def by (rule md_spec_cong) (simp add: sha1_transform_compress)
    moreover have "length (hstate (md_final sha1_transform c)) = 5"
      unfolding md_final_state[OF that] by (rule sha1_state_length)
    ultimately show ?thesis
      using md_final_state[OF that] by (simp add: sha1_final_def Let_def md_spec_store map_nth_upto)
  qed
qed

text \<open>
  SHA-1 is computed however the message arrives: a context initialised over any buffer contents,
  updated with any number of pieces of any sizes and finished, yields the digest FIPS 180-4 defines
  for the concatenation of the pieces (its length counted modulo \<open>2^64\<close> bits, as the standard's length
  field is), and \<open>sha1\<close> itself the digest of its argument.
\<close>

theorem sha1_correct:
  assumes "length garbage = 64" "\<forall>(d, n) \<in> set pieces. unat n \<le> length d" "unat sz \<le> length data"
  shows "snd (sha1_final (foldl (\<lambda>c (d, n). sha1_update c d n) (sha1_init garbage) pieces)) =
      sha1_reference (concat (map (\<lambda>(d, n). take (unat n) d) pieces)) \<and>
    sha1 garbage data sz = sha1_reference (take (unat sz) data)"
  using sha1.stream_digest[OF assms(1,2)] sha1.one_shot[OF assms(1,3)] by (simp add: sha1_def)

theorem sha1_correct_witness:
  "snd (sha1_final (sha1_update (sha1_update (sha1_init (replicate 64 0)) [0x61] 1) [0x62, 0x63] 2)) =
     sha1_reference [0x61, 0x62, 0x63] \<and>
   sha1 (replicate 64 0) [0x61, 0x62, 0x63] 3 = sha1_reference [0x61, 0x62, 0x63]"
  using sha1_correct[of "replicate 64 0" "[([0x61], 1), ([0x62, 0x63], 2)]" 3 "[0x61, 0x62, 0x63]"] by simp

lemma sha1_equal_iff:
  "\<lbrakk>length a = 20; length b = 20\<rbrakk> \<Longrightarrow> sha1_equal a b \<longleftrightarrow> a = b"
  by (simp add: sha1_equal_def digest_equal_take)

end
