(* ===== verification/Sha256.thy ===== *)
theory Sha256
  imports Md_Hash
begin

text \<open>
  SHA-256 (\<open>crypto/sha256.c\<close>): the block transform as the code has it, the operations on a context,
  and that they compute the hash function of FIPS 180-4 (here \<open>sha256_reference\<close>) however the
  message is cut into updates.
\<close>

section \<open>Definitions\<close>

definition ROTR :: "u32 \<Rightarrow> nat \<Rightarrow> u32" where
  "ROTR x n = drop_bit n x OR push_bit (32 - n) x"

definition CH :: "u32 \<Rightarrow> u32 \<Rightarrow> u32 \<Rightarrow> u32" where
  "CH x y z = (x AND y) XOR (NOT x AND z)"

definition MAJ :: "u32 \<Rightarrow> u32 \<Rightarrow> u32 \<Rightarrow> u32" where
  "MAJ x y z = (x AND y) XOR (x AND z) XOR (y AND z)"

definition BIG_SIGMA0 :: "u32 \<Rightarrow> u32" where
  "BIG_SIGMA0 x = ROTR x 2 XOR ROTR x 13 XOR ROTR x 22"

definition BIG_SIGMA1 :: "u32 \<Rightarrow> u32" where
  "BIG_SIGMA1 x = ROTR x 6 XOR ROTR x 11 XOR ROTR x 25"

definition SMALL_SIGMA0 :: "u32 \<Rightarrow> u32" where
  "SMALL_SIGMA0 x = ROTR x 7 XOR ROTR x 18 XOR drop_bit 3 x"

definition SMALL_SIGMA1 :: "u32 \<Rightarrow> u32" where
  "SMALL_SIGMA1 x = ROTR x 17 XOR ROTR x 19 XOR drop_bit 10 x"

definition constants :: "u32 list" where
  "constants = concat [
     [0x428a2f98, 0x71374491, 0xb5c0fbcf, 0xe9b5dba5], [0x3956c25b, 0x59f111f1, 0x923f82a4, 0xab1c5ed5],
     [0xd807aa98, 0x12835b01, 0x243185be, 0x550c7dc3], [0x72be5d74, 0x80deb1fe, 0x9bdc06a7, 0xc19bf174],
     [0xe49b69c1, 0xefbe4786, 0x0fc19dc6, 0x240ca1cc], [0x2de92c6f, 0x4a7484aa, 0x5cb0a9dc, 0x76f988da],
     [0x983e5152, 0xa831c66d, 0xb00327c8, 0xbf597fc7], [0xc6e00bf3, 0xd5a79147, 0x06ca6351, 0x14292967],
     [0x27b70a85, 0x2e1b2138, 0x4d2c6dfc, 0x53380d13], [0x650a7354, 0x766a0abb, 0x81c2c92e, 0x92722c85],
     [0xa2bfe8a1, 0xa81a664b, 0xc24b8b70, 0xc76c51a3], [0xd192e819, 0xd6990624, 0xf40e3585, 0x106aa070],
     [0x19a4c116, 0x1e376c08, 0x2748774c, 0x34b0bcb5], [0x391c0cb3, 0x4ed8aa4a, 0x5b9cca4f, 0x682e6ff3],
     [0x748f82ee, 0x78a5636f, 0x84c87814, 0x8cc70208], [0x90befffa, 0xa4506ceb, 0xbef9a3f7, 0xc67178f2]]"

definition sha256_schedule :: "u8 list \<Rightarrow> u32 list" where
  "sha256_schedule block =
     foldl (\<lambda>w i. w @ [SMALL_SIGMA1 (w ! (i - 2)) + w ! (i - 7) + SMALL_SIGMA0 (w ! (i - 15)) + w ! (i - 16)])
       (map (load_block_word block) [0..<16]) [16..<64]"

type_synonym sha256_vars = "u32 \<times> u32 \<times> u32 \<times> u32 \<times> u32 \<times> u32 \<times> u32 \<times> u32"

definition sha256_round :: "u32 list \<Rightarrow> sha256_vars \<Rightarrow> nat \<Rightarrow> sha256_vars" where
  "sha256_round w v i = (case v of (a, b, c, d, e, f, g, h) \<Rightarrow>
     let t1 = h + BIG_SIGMA1 e + CH e f g + constants ! i + w ! i;
         t2 = BIG_SIGMA0 a + MAJ a b c
     in (t1 + t2, a, b, c, d + t1, e, f, g))"

definition sha256_transform :: "u32 list \<Rightarrow> u8 list \<Rightarrow> u32 list" where
  "sha256_transform st block =
     (let w = sha256_schedule block;
          (a, b, c, d, e, f, g, h) = foldl (sha256_round w)
            (st ! 0, st ! 1, st ! 2, st ! 3, st ! 4, st ! 5, st ! 6, st ! 7) [0..<64]
      in [st ! 0 + a, st ! 1 + b, st ! 2 + c, st ! 3 + d, st ! 4 + e, st ! 5 + f, st ! 6 + g, st ! 7 + h])"

definition sha256_iv :: "u32 list" where
  "sha256_iv = [0x6a09e667, 0xbb67ae85, 0x3c6ef372, 0xa54ff53a, 0x510e527f, 0x9b05688c, 0x1f83d9ab, 0x5be0cd19]"

text \<open>The buffer of a fresh context is whatever memory held: the argument of \<open>sha256_init\<close>.\<close>

definition sha256_init :: "u8 list \<Rightarrow> md_context" where
  "sha256_init garbage = md_init sha256_iv garbage"

definition sha256_update :: "md_context \<Rightarrow> u8 list \<Rightarrow> u32 \<Rightarrow> md_context" where
  "sha256_update = md_update sha256_transform"

definition sha256_final :: "md_context \<Rightarrow> md_context \<times> u8 list" where
  "sha256_final ctx =
     (let ctx = md_final sha256_transform ctx;
          digest = concat (map (\<lambda>i. store_big_endian (hstate ctx ! i)) [0..<8])
      in (\<lparr>hstate = replicate 8 0, bytes_low = 0, bytes_high = 0, buffer_length = 0,
           buffer = replicate 64 0\<rparr>, digest))"

definition sha256 :: "u8 list \<Rightarrow> u8 list \<Rightarrow> u32 \<Rightarrow> u8 list" where
  "sha256 garbage data sz = snd (sha256_final (sha256_update (sha256_init garbage) data sz))"

definition sha256_equal :: "u8 list \<Rightarrow> u8 list \<Rightarrow> bool" where
  "sha256_equal a b = digest_equal 32 a b"


section \<open>The standard\<close>

text \<open>
  FIPS 180-4, sections 4.1.2, 4.2.2 and 6.2.2.  The round constants are the first 32 bits of the
  fractional parts of the cube roots of the first sixty-four primes; \<open>cube_root\<close> finds the root of a
  number rounded down, bit by bit.
\<close>

definition cube_root :: "int \<Rightarrow> int" where
  "cube_root n = foldl (\<lambda>r b. if (r + b) * (r + b) * (r + b) \<le> n then r + b else r) 0 (map ((^) 2) (rev [0..<35]))"

definition first_primes :: "int list" where
  "first_primes = [
     2, 3, 5, 7, 11, 13, 17, 19, 23, 29, 31, 37, 41, 43, 47, 53,
     59, 61, 67, 71, 73, 79, 83, 89, 97, 101, 103, 107, 109, 113, 127, 131,
     137, 139, 149, 151, 157, 163, 167, 173, 179, 181, 191, 193, 197, 199, 211, 223,
     227, 229, 233, 239, 241, 251, 257, 263, 269, 271, 277, 281, 283, 293, 307, 311]"

definition sha256_K :: "nat \<Rightarrow> u32" where
  "sha256_K t = of_int (cube_root (2 ^ 96 * first_primes ! t))"

fun sha256_W :: "u8 list \<Rightarrow> nat \<Rightarrow> u32" where
  "sha256_W block t =
     (if t < 16 then block_word block t
      else (word_rotr 17 (sha256_W block (t - 2)) XOR word_rotr 19 (sha256_W block (t - 2)) XOR
          drop_bit 10 (sha256_W block (t - 2))) + sha256_W block (t - 7) +
        (word_rotr 7 (sha256_W block (t - 15)) XOR word_rotr 18 (sha256_W block (t - 15)) XOR
          drop_bit 3 (sha256_W block (t - 15))) + sha256_W block (t - 16))"

declare sha256_W.simps [simp del]

fun sha256_rounds :: "u8 list \<Rightarrow> u32 list \<Rightarrow> nat \<Rightarrow> sha256_vars" where
  "sha256_rounds block H 0 = (H ! 0, H ! 1, H ! 2, H ! 3, H ! 4, H ! 5, H ! 6, H ! 7)"
| "sha256_rounds block H (Suc t) = (case sha256_rounds block H t of (a, b, c, d, e, f, g, h) \<Rightarrow>
     let T1 = h + (word_rotr 6 e XOR word_rotr 11 e XOR word_rotr 25 e) + Ch e f g + sha256_K t + sha256_W block t;
         T2 = (word_rotr 2 a XOR word_rotr 13 a XOR word_rotr 22 a) + Maj a b c
     in (T1 + T2, a, b, c, d + T1, e, f, g))"

definition sha256_compress :: "u32 list \<Rightarrow> u8 list \<Rightarrow> u32 list" where
  "sha256_compress H block = (case sha256_rounds block H 64 of (a, b, c, d, e, f, g, h) \<Rightarrow>
     [a + H ! 0, b + H ! 1, c + H ! 2, d + H ! 3, e + H ! 4, f + H ! 5, g + H ! 6, h + H ! 7])"

definition sha256_reference :: "u8 list \<Rightarrow> u8 list" where
  "sha256_reference m = md_spec sha256_compress
     [0x6a09e667, 0xbb67ae85, 0x3c6ef372, 0xa54ff53a, 0x510e527f, 0x9b05688c, 0x1f83d9ab, 0x5be0cd19] m"


section \<open>The transform is the standard's\<close>

lemma ROTR_word: "0 < n \<Longrightarrow> n < 32 \<Longrightarrow> ROTR x n = word_rotr n x"
  by (simp only: ROTR_def rotr_word)

lemmas sigma_defs = BIG_SIGMA0_def BIG_SIGMA1_def SMALL_SIGMA0_def SMALL_SIGMA1_def ROTR_word

lemma sha256_schedule_W:
  assumes "length block = 64" "t < 64"
  shows "sha256_schedule block ! t = sha256_W block t"
proof -
  have "length (sha256_schedule block) = 64 \<and> (\<forall>t < 64. sha256_schedule block ! t = sha256_W block t)"
    unfolding sha256_schedule_def
  proof (rule schedule_nth[where step =
        "\<lambda>w i. SMALL_SIGMA1 (w (i - 2)) + w (i - 7) + SMALL_SIGMA0 (w (i - 15)) + w (i - 16)"])
    show "map (load_block_word block) [0..<16] ! t = sha256_W block t" if "t < 16" for t
      using that assms(1) by (simp add: sha256_W.simps[of block t] load_block_word_eq)
    show "SMALL_SIGMA1 (w ! (i - 2)) + w ! (i - 7) + SMALL_SIGMA0 (w ! (i - 15)) + w ! (i - 16) = sha256_W block i"
      if "16 \<le> i" "\<And>t. t < i \<Longrightarrow> w ! t = sha256_W block t" for w i
      using that by (simp add: sha256_W.simps[of block i] sigma_defs)
  qed simp_all
  then show ?thesis using assms(2) by blast
qed

lemma constants_K_all: "constants = map sha256_K [0..<64]"
  by code_simp

lemma constants_K: "t < 64 \<Longrightarrow> constants ! t = sha256_K t"
  by (simp add: constants_K_all)

lemma sha256_rounds_foldl:
  assumes "length block = 64" "n \<le> 64"
  shows "foldl (sha256_round (sha256_schedule block))
      (H ! 0, H ! 1, H ! 2, H ! 3, H ! 4, H ! 5, H ! 6, H ! 7) [0..<n] = sha256_rounds block H n"
  using assms(2)
proof (induction n)
  case (Suc n)
  then show ?case using sha256_schedule_W[OF assms(1), of n]
    by (cases "sha256_rounds block H n")
      (simp add: sha256_round_def Let_def sigma_defs CH_def MAJ_def constants_K Ch_def Maj_def)
qed simp

lemma sha256_transform_compress:
  assumes "length block = 64"
  shows "sha256_transform H block = sha256_compress H block"
  using sha256_rounds_foldl[OF assms order_refl, of H]
  by (cases "sha256_rounds block H 64") (simp add: sha256_transform_def sha256_compress_def Let_def add.commute)


section \<open>The operations on a context\<close>

lemma sha256_state_length: "length (foldl sha256_transform sha256_iv bs) = 8"
proof (cases bs rule: rev_cases)
  case (snoc ys y)
  then show ?thesis by (simp add: sha256_transform_def Let_def split: prod.split)
qed (simp add: sha256_iv_def)

interpretation sha256: streaming_hash sha256_init sha256_update sha256_final "md_rep sha256_transform sha256_iv" sha256_reference
proof
  show "md_rep sha256_transform sha256_iv (sha256_init buf) []" if "length buf = 64" for buf
    using that by (simp add: sha256_init_def md_rep_init)
  show "md_rep sha256_transform sha256_iv (sha256_update c data n) (m @ take (unat n) data)"
    if "md_rep sha256_transform sha256_iv c m" "unat n \<le> length data" for c m n data
    unfolding sha256_update_def by (rule md_rep_update) (fact that)+
  show "snd (sha256_final c) = sha256_reference m" if "md_rep sha256_transform sha256_iv c m" for c m
  proof -
    have "sha256_reference m = md_spec sha256_transform sha256_iv m"
      unfolding sha256_reference_def sha256_iv_def by (rule md_spec_cong) (simp add: sha256_transform_compress)
    moreover have "length (hstate (md_final sha256_transform c)) = 8"
      unfolding md_final_state[OF that] by (rule sha256_state_length)
    ultimately show ?thesis
      using md_final_state[OF that] by (simp add: sha256_final_def Let_def md_spec_store map_nth_upto)
  qed
qed

text \<open>
  C40. SHA-256 is computed however the message arrives: a context initialised over any buffer contents,
  updated with any number of pieces of any sizes and finished, yields the digest FIPS 180-4 defines
  for the concatenation of the pieces (its length counted modulo \<open>2^64\<close> bits, as the standard's length
  field is), and \<open>sha256\<close> itself the digest of its argument.
\<close>

theorem sha256_correct:
  assumes "length garbage = 64" "\<forall>(d, n) \<in> set pieces. unat n \<le> length d" "unat sz \<le> length data"
  shows "snd (sha256_final (foldl (\<lambda>c (d, n). sha256_update c d n) (sha256_init garbage) pieces)) =
      sha256_reference (concat (map (\<lambda>(d, n). take (unat n) d) pieces)) \<and>
    sha256 garbage data sz = sha256_reference (take (unat sz) data)"
  using sha256.stream_digest[OF assms(1,2)] sha256.one_shot[OF assms(1,3)] by (simp add: sha256_def)

theorem sha256_correct_witness:
  "snd (sha256_final (sha256_update (sha256_update (sha256_init (replicate 64 0)) [0x61] 1) [0x62, 0x63] 2)) =
     sha256_reference [0x61, 0x62, 0x63] \<and>
   sha256 (replicate 64 0) [0x61, 0x62, 0x63] 3 = sha256_reference [0x61, 0x62, 0x63]"
  using sha256_correct[of "replicate 64 0" "[([0x61], 1), ([0x62, 0x63], 2)]" 3 "[0x61, 0x62, 0x63]"] by simp

lemma sha256_equal_iff:
  "\<lbrakk>length a = 32; length b = 32\<rbrakk> \<Longrightarrow> sha256_equal a b \<longleftrightarrow> a = b"
  by (simp add: sha256_equal_def digest_equal_take)

end
