(* ===== verification/Lz4.thy ===== *)
theory Lz4
  imports Mem
begin

text \<open>
  The LZ4 block format (\<open>crypto/lz4.c\<close>): the sequence writer the two compressors share, the greedy
  compressor with its hash table, and the decompressor.

  A buffer is a byte list and a pointer into it an index; \<open>*p++ = b\<close> is a list update at the index.
  The buffers may be longer than the size or capacity passed along, so that an access past the limit
  would show.  Sizes are checked against \<open>0x7E000000\<close> or \<open>0x7FFFFFFF\<close> before anything else, and every
  quantity computed from them stays below \<open>2^32\<close>, so that positions and lengths are natural numbers;
  the arguments, the hash and \<open>lz4_bound\<close>, which can wrap, are words.
\<close>

section \<open>Definitions\<close>

definition read_word :: "u8 list \<Rightarrow> nat \<Rightarrow> u32" where
  "read_word src p = ucast (src ! p) OR push_bit 8 (ucast (src ! (p + 1))) OR
     push_bit 16 (ucast (src ! (p + 2))) OR push_bit 24 (ucast (src ! (p + 3)))"

definition hash_word :: "u32 \<Rightarrow> u32" where
  "hash_word word = drop_bit (32 - 12) (word * 2654435761)"

definition extra_length_bytes :: "nat \<Rightarrow> nat" where
  "extra_length_bytes v = (if v < 15 then 0 else (v - 15) div 255 + 1)"

fun write_extra_loop :: "u8 list \<Rightarrow> nat \<Rightarrow> nat \<Rightarrow> u8 list \<times> nat" where
  "write_extra_loop dst p remaining =
     (if remaining \<ge> 255 then write_extra_loop (dst[p := 255]) (p + 1) (remaining - 255)
      else (dst[p := of_nat remaining], p + 1))"

declare write_extra_loop.simps [simp del]

definition write_extra_length :: "u8 list \<Rightarrow> nat \<Rightarrow> nat \<Rightarrow> u8 list \<times> nat" where
  "write_extra_length dst p v = write_extra_loop dst p (v - 15)"

text \<open>The new contents and the new output position, or \<open>None\<close> when the sequence does not fit.\<close>

definition lz4_write_sequence ::
  "u8 list \<Rightarrow> nat \<Rightarrow> nat \<Rightarrow> u8 list \<Rightarrow> nat \<Rightarrow> nat \<Rightarrow> nat \<Rightarrow> (u8 list \<times> nat) option" where
  "lz4_write_sequence dst out out_end literals literal_length off match_length =
     (let match_code = (if match_length \<noteq> 0 then match_length - 4 else 0);
          needed = 1 + literal_length + extra_length_bytes literal_length;
          needed = (if match_length \<noteq> 0 then needed + (2 + extra_length_bytes match_code) else needed)
      in if out_end - out < needed then None
      else let
        token = push_bit 4 (of_nat (if literal_length \<ge> 15 then 15 else literal_length)) :: u8;
        token = (if match_length \<noteq> 0
                 then token OR of_nat (if match_code \<ge> 15 then 15 else match_code) else token);
        (dst, p) = (dst[out := token], out + 1);
        (dst, p) = (if literal_length \<ge> 15 then write_extra_length dst p literal_length else (dst, p));
        dst = write_at dst p (take literal_length literals);
        p = p + literal_length
      in if match_length \<noteq> 0 then let
        dst = dst[p := of_nat (off mod 256)];
        dst = dst[p + 1 := of_nat (off div 256)];
        p = p + 2
        in Some (if match_code \<ge> 15 then write_extra_length dst p match_code else (dst, p))
      else Some (dst, p))"

function read_extra_length :: "u8 list \<Rightarrow> nat \<Rightarrow> nat \<Rightarrow> nat \<Rightarrow> (nat \<times> nat) option" where
  "read_extra_length src inp in_end v =
     (if inp \<ge> in_end then None
      else let byte = unat (src ! inp)
      in if v > 0x7FFFFFFF - 255 then None
      else if byte = 255 then read_extra_length src (inp + 1) in_end (v + byte)
      else Some (inp + 1, v + byte))"
  by pat_completeness auto
termination by (relation "measure (\<lambda>(src, inp, in_end, v). in_end - inp)") auto

declare read_extra_length.simps [simp del]

definition lz4_bound :: "u32 \<Rightarrow> u32" where
  "lz4_bound sz = sz + sz div 255 + 16"

function match_extend :: "u8 list \<Rightarrow> nat \<Rightarrow> nat \<Rightarrow> nat \<Rightarrow> nat \<Rightarrow> nat" where
  "match_extend src candidate pos limit len =
     (if pos + len < limit \<and> src ! (candidate + len) = src ! (pos + len)
      then match_extend src candidate pos limit (len + 1) else len)"
  by pat_completeness auto
termination by (relation "measure (\<lambda>(src, candidate, pos, limit, len). limit - (pos + len))") auto

declare match_extend.simps [simp del]

text \<open>The main loop: the hash table holds positions plus one, zero for none.\<close>

record lz4_state =
  c_table :: "u32 \<Rightarrow> nat"
  c_anchor :: nat
  c_pos :: nat
  c_dst :: "u8 list"
  c_out :: nat

lemma match_extend_ge: "len \<le> match_extend src candidate p limit len"
proof (induction src candidate p limit len rule: match_extend.induct)
  case (1 src candidate p limit len)
  then show ?case by (subst match_extend.simps) (auto dest: Suc_leD)
qed

text \<open>One iteration; the flag is \<open>False\<close> when the body returns \<open>-1\<close>.\<close>

definition compress_step :: "u8 list \<Rightarrow> nat \<Rightarrow> nat \<Rightarrow> lz4_state \<Rightarrow> bool \<times> lz4_state" where
  "compress_step src sz cap s =
     (let word = read_word src (c_pos s);
          slot = hash_word word;
          candidate = c_table s slot;
          s = s\<lparr>c_table := (c_table s)(slot := c_pos s + 1)\<rparr>
      in if candidate \<noteq> 0 \<and> c_pos s - (candidate - 1) \<le> 65535 \<and> read_word src (candidate - 1) = word
      then let len = match_extend src (candidate - 1) (c_pos s) (sz - 5) 4
        in case lz4_write_sequence (c_dst s) (c_out s) cap (drop (c_anchor s) src) (c_pos s - c_anchor s)
             (c_pos s - (candidate - 1)) len of
          None \<Rightarrow> (False, s)
        | Some (dst', out') \<Rightarrow>
            (True, s\<lparr>c_dst := dst', c_out := out', c_pos := c_pos s + len, c_anchor := c_pos s + len\<rparr>)
      else (True, s\<lparr>c_pos := c_pos s + 1\<rparr>))"

lemma compress_step_pos: "compress_step src sz cap s = (True, s') \<Longrightarrow> c_pos s < c_pos s'"
  using match_extend_ge[of 4 src "c_table s (hash_word (read_word src (c_pos s))) - 1" "c_pos s" "sz - 5"]
  by (auto simp: compress_step_def Let_def split: if_splits option.splits)

function compress_loop :: "u8 list \<Rightarrow> nat \<Rightarrow> nat \<Rightarrow> lz4_state \<Rightarrow> bool \<times> lz4_state" where
  "compress_loop src sz cap s =
     (if c_pos s + 12 \<le> sz then
        let r = compress_step src sz cap s
        in if fst r then compress_loop src sz cap (snd r) else r
      else (True, s))"
  by pat_completeness auto
termination
  by (relation "measure (\<lambda>(src, sz, cap, s). sz - c_pos s)")
    (use compress_step_pos in \<open>fastforce simp: prod_eq_iff\<close>)+

declare compress_loop.simps [simp del]

text \<open>The result is the value returned and the contents of the destination.\<close>

definition lz4_compress :: "u8 list \<Rightarrow> u32 \<Rightarrow> u8 list \<Rightarrow> u32 \<Rightarrow> int \<times> u8 list" where
  "lz4_compress src sz dest capacity =
     (if sz > 0x7E000000 \<or> capacity > 0x7FFFFFFF then (-1, dest)
      else let (ok, s) = compress_loop src (unat sz) (unat capacity)
          \<lparr>c_table = (\<lambda>_. 0), c_anchor = 0, c_pos = 0, c_dst = dest, c_out = 0\<rparr>
      in if \<not> ok then (-1, c_dst s)
      else case lz4_write_sequence (c_dst s) (c_out s) (unat capacity) (drop (c_anchor s) src)
          (unat sz - c_anchor s) 0 0 of
        None \<Rightarrow> (-1, c_dst s)
      | Some (dst', out') \<Rightarrow> (int out', dst'))"

primrec copy_match :: "nat \<Rightarrow> u8 list \<Rightarrow> nat \<Rightarrow> nat \<Rightarrow> u8 list" where
  "copy_match 0 dst out match = dst"
| "copy_match (Suc n) dst out match = copy_match n (dst[out := dst ! match]) (out + 1) (match + 1)"

lemma read_extra_length_gt:
  "read_extra_length src inp in_end v = Some (inp', v') \<Longrightarrow> inp < inp' \<and> inp' \<le> in_end"
proof (induction src inp in_end v rule: read_extra_length.induct)
  case (1 src inp in_end v)
  then show ?case by (auto simp: read_extra_length.simps[of src inp] Let_def split: if_splits)
qed

text \<open>One iteration of the decompressor, from a token to the next: the value returned, or the new input
  position, contents and output position.\<close>

definition decompress_step ::
  "u8 list \<Rightarrow> nat \<Rightarrow> nat \<Rightarrow> nat \<Rightarrow> u8 list \<Rightarrow> nat \<Rightarrow> (int \<times> u8 list) + (nat \<times> u8 list \<times> nat)" where
  "decompress_step src in_end out_end inp dst out =
     (if inp \<ge> in_end then Inl (-1, dst)
      else let
        token = src ! inp;
        literal_length = unat (drop_bit 4 token)
      in case (if literal_length = 15 then read_extra_length src (inp + 1) in_end literal_length
               else Some (inp + 1, literal_length)) of
        None \<Rightarrow> Inl (-1, dst)
      | Some (inp, literal_length) \<Rightarrow>
      if in_end - inp < literal_length \<or> out_end - out < literal_length then Inl (-1, dst)
      else let
        dst = write_at dst out (take literal_length (drop inp src));
        inp = inp + literal_length;
        out = out + literal_length
      in if inp = in_end then Inl (int out, dst)
      else if in_end - inp < 2 then Inl (-1, dst)
      else let
        off = unat (ucast (src ! inp) OR push_bit 8 (ucast (src ! (inp + 1))) :: u32);
        inp = inp + 2
      in if off = 0 \<or> off > out then Inl (-1, dst)
      else let match_length = unat (token AND 15)
      in case (if match_length = 15 then read_extra_length src inp in_end match_length
               else Some (inp, match_length)) of
        None \<Rightarrow> Inl (-1, dst)
      | Some (inp, match_length) \<Rightarrow>
      let match_length = match_length + 4
      in if out_end - out < match_length then Inl (-1, dst)
      else Inr (inp, copy_match match_length dst out (out - off), out + match_length))"

lemma decompress_step_inp:
  assumes "decompress_step src in_end out_end inp dst out = Inr (inp', dst', out')"
  shows "inp < inp'" "inp < in_end"
  using assms unfolding decompress_step_def Let_def
  by (auto split: if_split_asm option.split_asm prod.split_asm dest!: read_extra_length_gt)

function decompress_loop :: "u8 list \<Rightarrow> nat \<Rightarrow> nat \<Rightarrow> nat \<Rightarrow> u8 list \<Rightarrow> nat \<Rightarrow> int \<times> u8 list" where
  "decompress_loop src in_end out_end inp dst out =
     (case decompress_step src in_end out_end inp dst out of
        Inl r \<Rightarrow> r
      | Inr q \<Rightarrow> decompress_loop src in_end out_end (fst q) (fst (snd q)) (snd (snd q)))"
  by pat_completeness auto
termination
  by (relation "measure (\<lambda>(src, in_end, out_end, inp, dst, out). in_end - inp)")
    (auto intro!: diff_less_mono2 dest: decompress_step_inp)

declare decompress_loop.simps [simp del]

definition lz4_decompress :: "u8 list \<Rightarrow> u32 \<Rightarrow> u8 list \<Rightarrow> u32 \<Rightarrow> int \<times> u8 list" where
  "lz4_decompress src sz dest capacity =
     (if sz = 0 \<or> sz > 0x7FFFFFFF \<or> capacity > 0x7FFFFFFF then (-1, dest)
      else decompress_loop src (unat sz) (unat capacity) 0 dest 0)"


section \<open>The format\<close>

text \<open>The bytes of a length field beyond its four token bits, and of a sequence; a match length of
  zero stands for the last sequence, which has no match.\<close>

definition enc_len :: "nat \<Rightarrow> u8 list" where
  "enc_len v = (if v < 15 then [] else replicate ((v - 15) div 255) 255 @ [of_nat ((v - 15) mod 255)])"

definition enc_token :: "nat \<Rightarrow> nat \<Rightarrow> u8" where
  "enc_token a b = of_nat (16 * min 15 a + min 15 b)"

definition enc_seq :: "u8 list \<Rightarrow> nat \<Rightarrow> nat \<Rightarrow> u8 list" where
  "enc_seq lits off ml =
     [enc_token (length lits) (ml - 4)] @ enc_len (length lits) @ lits @
     (if ml = 0 then [] else [of_nat (off mod 256), of_nat (off div 256)] @ enc_len (ml - 4))"

lemma length_enc_len [simp]: "length (enc_len v) = extra_length_bytes v"
  by (simp add: enc_len_def extra_length_bytes_def)

lemma list_update_write_at: "p < length dst \<Longrightarrow> dst[p := x] = write_at dst p [x]"
  by (simp add: write_at_def upd_conv_take_nth_drop)

lemma write_extra_loop_eq:
  "p + r div 255 < length dst \<Longrightarrow>
    write_extra_loop dst p r =
      (write_at dst p (replicate (r div 255) 255 @ [of_nat (r mod 255)]), p + r div 255 + 1)"
proof (induction dst p r rule: write_extra_loop.induct)
  case (1 dst p r)
  show ?case
  proof (cases "255 \<le> r")
    case True
    then have d: "r div 255 = Suc ((r - 255) div 255)" "r mod 255 = (r - 255) mod 255"
      by (simp_all add: le_div_geq le_mod_geq)
    have "p + 1 + (r - 255) div 255 < length (dst[p := 255])" using "1.prems" d by simp
    from "1.IH"[OF True this] show ?thesis
      using True d "1.prems" by (simp add: write_extra_loop.simps[of dst p r] list_update_write_at write_at_adjacent)
  next
    case False
    then show ?thesis
      using "1.prems" by (simp add: write_extra_loop.simps[of dst p r] list_update_write_at)
  qed
qed

lemma write_extra_length_eq:
  assumes "p + extra_length_bytes v \<le> length dst" "15 \<le> v"
  shows "write_extra_length dst p v = (write_at dst p (enc_len v), p + extra_length_bytes v)"
  using assms write_extra_loop_eq[of p "v - 15" dst]
  by (simp add: write_extra_length_def enc_len_def extra_length_bytes_def)

lemma unat_token:
  assumes "a \<le> 15" "b \<le> 15"
  shows "push_bit 4 (of_nat a :: u8) OR of_nat b = of_nat (16 * a + b)"
    and "unat (drop_bit 4 (of_nat (16 * a + b) :: u8)) = a"
    and "unat ((of_nat (16 * a + b) :: u8) AND 15) = b"
proof -
  have n: "unat (of_nat (16 * a + b) :: u8) = 16 * a + b" "unat (of_nat b :: u8) = b"
    using assms by (simp_all only: unsigned_of_nat take_bit_eq_mod) simp_all
  show "unat (drop_bit 4 (of_nat (16 * a + b) :: u8)) = a"
    using assms n unfolding unat_drop_bit by simp
  have m: "(15::u8) = mask 4" by (simp add: mask_eq_exp_minus_1)
  have "unat ((of_nat (16 * a + b) :: u8) AND 15) = unat (of_nat (16 * a + b) :: u8) mod 16"
    unfolding m take_bit_eq_mask[symmetric] unsigned_take_bit_eq
    by (simp only: take_bit_eq_mod) simp
  then show "unat ((of_nat (16 * a + b) :: u8) AND 15) = b" using assms n by simp
  have "take_bit 4 (of_nat b :: u8) = of_nat b"
    using assms n(2) unfolding word_unat_eq_iff unsigned_take_bit_eq by (simp only: take_bit_eq_mod) simp
  then have b4: "bit (of_nat b :: u8) k \<Longrightarrow> k < 4" for k by (metis bit_take_bit_iff)
  have "push_bit 4 (of_nat a :: u8) AND of_nat b = 0"
    by (intro bit_word_eqI) (auto simp: bit_and_iff bit_push_bit_iff dest: b4)
  then have "push_bit 4 (of_nat a :: u8) OR of_nat b = push_bit 4 (of_nat a) + of_nat b"
    by (simp add: disjunctive_add_eq_or)
  then show "push_bit 4 (of_nat a :: u8) OR of_nat b = of_nat (16 * a + b)"
    by (simp add: push_bit_eq_mult mult.commute)
qed

text \<open>The writer appends the sequence exactly when it fits.\<close>

lemma write_extra_after:
  assumes "p + length xs + extra_length_bytes v \<le> length dst"
  shows "(if 15 \<le> v then write_extra_length (write_at dst p xs) (p + length xs) v
      else (write_at dst p xs, p + length xs)) =
    (write_at dst p (xs @ enc_len v), p + length xs + extra_length_bytes v)"
proof (cases "15 \<le> v")
  case True
  then show ?thesis using assms by (simp add: write_extra_length_eq write_at_adjacent)
qed (simp add: enc_len_def extra_length_bytes_def)

lemma lz4_write_sequence_eq:
  fixes off :: nat
  assumes "out_end \<le> length dst" "n \<le> length literals" "ml = 0 \<or> 4 \<le> ml"
  defines "e \<equiv> enc_seq (take n literals) off ml"
  shows "lz4_write_sequence dst out out_end literals n off ml =
    (if out_end - out < length e then None else Some (write_at dst out e, out + length e))"
proof -
  have len: "length e = 1 + n + extra_length_bytes n + (if ml = 0 then 0 else 2 + extra_length_bytes (ml - 4))"
    using assms(2) by (simp add: e_def enc_seq_def)
  show ?thesis
  proof (cases "out_end - out < length e")
    case True
    then show ?thesis by (simp add: lz4_write_sequence_def Let_def len split: if_splits)
  next
    case False
    then have fit: "out + length e \<le> length dst" "out < length dst" using assms(1) len by linarith+
    define t where "t = enc_token n (ml - 4)"
    have tok: "push_bit 4 (of_nat (if 15 \<le> n then 15 else n)) = enc_token n 0"
      "push_bit 4 (of_nat (if 15 \<le> n then 15 else n)) OR of_nat (if 15 \<le> ml - 4 then 15 else ml - 4) = t"
      using unat_token(1)[of "min 15 n" 0] unat_token(1)[of "min 15 n" "min 15 (ml - 4)"]
      by (simp_all add: enc_token_def t_def min_def split: if_splits)
    have lit: "(if 15 \<le> n then write_extra_length (dst[out := t]) (out + 1) n else (dst[out := t], out + 1)) =
        (write_at dst out (t # enc_len n), out + 1 + extra_length_bytes n)" for t
      using fit len write_extra_after[of out "[t]" n dst] unfolding list_update_write_at[OF fit(2)]
      by (cases "15 \<le> n") simp_all
    define xs where "xs = t # enc_len n @ take n literals @ [of_nat (off mod 256), of_nat (off div 256)]"
    have xs: "length xs = 3 + n + extra_length_bytes n" using assms(2) by (simp add: xs_def)
    show ?thesis
    proof (cases "ml = 0")
      case True
      then have nml: "\<not> ml \<noteq> 0" by simp
      have "\<not> out_end - out < 1 + n + extra_length_bytes n" using False len True by simp
      then show ?thesis
        unfolding lz4_write_sequence_def Let_def if_not_P[OF nml] tok(1) lit prod.case
        using False assms(2) fit True by (simp add: write_at_adjacent e_def enc_seq_def)
    next
      case ml: False
      have w: "(write_at (write_at dst out (t # enc_len n)) (out + 1 + extra_length_bytes n) (take n literals))
            [out + 1 + extra_length_bytes n + n := of_nat (off mod 256),
             out + 1 + extra_length_bytes n + n + 1 := of_nat (off div 256)] = write_at dst out xs"
        using fit len ml assms(2) by (simp add: list_update_write_at write_at_adjacent xs_def)
      have p: "out + 1 + extra_length_bytes n + n + 2 = out + length xs" using xs by simp
      have e: "e = xs @ enc_len (ml - 4)" using ml assms(2) by (simp add: e_def enc_seq_def xs_def t_def)
      have "\<not> out_end - out < 1 + n + extra_length_bytes n + (2 + extra_length_bytes (ml - 4))"
        using False len ml by simp
      then show ?thesis
        unfolding lz4_write_sequence_def Let_def if_P[OF ml] tok(2) lit prod.case w p
        using fit(1) False e write_extra_after[of out xs "ml - 4" dst] by simp
    qed
  qed
qed


section \<open>Reading what was written\<close>

lemma read_extra_255:
  assumes "at b i (replicate k 255 @ [of_nat r])" "r < 255" "v + 255 * k \<le> 0x7FFFFF00" "i + k < in_end"
  shows "read_extra_length b i in_end v = Some (i + k + 1, v + 255 * k + r)"
  using assms
proof (induction k arbitrary: i v)
  case 0
  have "unat (of_nat r :: u8) = r" using 0(2) by (simp add: unsigned_of_nat take_bit_eq_mod)
  then show ?case using 0 by (simp add: read_extra_length.simps[of b i] at_Cons Let_def)
next
  case (Suc k)
  then have a: "b ! i = 255" "at b (i + 1) (replicate k 255 @ [of_nat r])" by (simp_all add: at_Cons)
  from Suc.IH[OF a(2), of "v + 255"] show ?case
    using Suc.prems a(1) by (simp add: read_extra_length.simps[of b i] Let_def)
qed

lemma read_enc_len:
  assumes "at b i (enc_len v)" "v \<le> 0x7FFFFF00" "i + extra_length_bytes v \<le> in_end"
  shows "(if min 15 v = 15 then read_extra_length b i in_end (min 15 v) else Some (i, min 15 v)) =
    Some (i + extra_length_bytes v, v)"
proof (cases "v < 15")
  case True
  then show ?thesis by (simp add: extra_length_bytes_def)
next
  case False
  define k r where "k = (v - 15) div 255" and "r = (v - 15) mod 255"
  have v: "v = 15 + 255 * k + r" using False div_mult_mod_eq[of "v - 15" 255] by (simp add: k_def r_def)
  have "read_extra_length b i in_end 15 = Some (i + k + 1, 15 + 255 * k + r)"
  proof (rule read_extra_255)
    show "at b i (replicate k 255 @ [of_nat r])" using assms(1) False by (simp add: enc_len_def k_def r_def)
    show "15 + 255 * k \<le> 0x7FFFFF00" using assms(2) v by linarith
    show "i + k < in_end" using assms(3) False by (simp add: extra_length_bytes_def k_def)
  qed (simp add: r_def)
  then show ?thesis unfolding v[symmetric] using False by (simp add: extra_length_bytes_def k_def)
qed

lemma unat_offset_bytes:
  assumes "off \<le> 65535"
  shows "unat (ucast (of_nat (off mod 256) :: u8) OR push_bit 8 (ucast (of_nat (off div 256) :: u8)) :: u32) = off"
proof -
  define a b where "a = (of_nat (off mod 256) :: u8)" and "b = (of_nat (off div 256) :: u8)"
  have ab: "unat a = off mod 256" "unat b = off div 256"
    using assms by (simp_all add: a_def b_def unsigned_of_nat take_bit_eq_mod)
  have "(ucast a :: u32) AND push_bit 8 (ucast b) = 0"
    by (rule bit_word_eqI) (auto simp: bit_simps dest: bit_imp_le_length)
  then have "unat (ucast a OR push_bit 8 (ucast b) :: u32) = unat (ucast a + push_bit 8 (ucast b) :: u32)"
    by (simp add: disjunctive_add_eq_or)
  also have "\<dots> = off"
    using assms ab by (simp add: push_bit_eq_mult unat_word_ariths)
  finally show ?thesis by (simp add: a_def b_def)
qed

text \<open>One iteration of the decompressor on an encoded sequence, with and without a match.\<close>

lemma token_fields:
  "unat (drop_bit 4 (enc_token a b)) = min 15 a" "unat (enc_token a b AND 15) = min 15 b"
  using unat_token(2,3)[of "min 15 a" "min 15 b"] by (simp_all add: enc_token_def)

lemma at_enc_seq:
  assumes "at b i (enc_seq lits off ml)"
  defines "j \<equiv> i + 1 + extra_length_bytes (length lits) + length lits"
  shows "b ! i = enc_token (length lits) (ml - 4)" "at b (i + 1) (enc_len (length lits))"
    and "take (length lits) (drop (i + 1 + extra_length_bytes (length lits)) b) = lits"
    and "ml \<noteq> 0 \<Longrightarrow> b ! j = of_nat (off mod 256) \<and> b ! (j + 1) = of_nat (off div 256) \<and>
      at b (j + 2) (enc_len (ml - 4))"
  using assms at_take[of b "i + 1 + extra_length_bytes (length lits)" lits]
  by (auto simp: enc_seq_def at_append at_Cons)

lemma decompress_step_last:
  assumes "at b i (enc_seq lits 0 0)" "in_end = i + length (enc_seq lits 0 0)"
    and "length lits \<le> 0x7FFFFF00" "out + length lits \<le> out_end"
  shows "decompress_step b in_end out_end i dst out = Inl (int (out + length lits), write_at dst out lits)"
proof -
  have ie: "in_end = i + 1 + extra_length_bytes (length lits) + length lits"
    using assms(2) by (simp add: enc_seq_def)
  have len: "(if min 15 (length lits) = 15 then read_extra_length b (i + 1) in_end (min 15 (length lits))
      else Some (i + 1, min 15 (length lits))) = Some (i + 1 + extra_length_bytes (length lits), length lits)"
    by (rule read_enc_len) (use at_enc_seq(2)[OF assms(1)] assms(3) ie in simp_all)
  have "\<not> i \<ge> in_end" "\<not> (in_end - (i + 1 + extra_length_bytes (length lits)) < length lits \<or> out_end - out < length lits)"
    using ie assms(4) by auto
  then show ?thesis
    unfolding decompress_step_def Let_def at_enc_seq(1)[OF assms(1)] token_fields len option.case prod.case
      at_enc_seq(3)[OF assms(1)]
    using ie by simp
qed

lemma decompress_step_seq:
  assumes "at b i (enc_seq lits off ml)" "i + length (enc_seq lits off ml) \<le> in_end"
    and "length lits \<le> 0x7FFFFF00" "4 \<le> ml" "ml \<le> 0x7FFFFF00" "1 \<le> off" "off \<le> 65535"
    and "off \<le> out + length lits" "out + length lits + ml \<le> out_end"
  shows "decompress_step b in_end out_end i dst out =
    Inr (i + length (enc_seq lits off ml),
      copy_match ml (write_at dst out lits) (out + length lits) (out + length lits - off),
      out + length lits + ml)"
proof -
  have e: "length (enc_seq lits off ml) =
      1 + extra_length_bytes (length lits) + length lits + 2 + extra_length_bytes (ml - 4)"
    using assms(4) by (simp add: enc_seq_def)
  define j where "j = i + 1 + extra_length_bytes (length lits) + length lits"
  note a = at_enc_seq[OF assms(1), folded j_def]
  have ie: "j + 2 + extra_length_bytes (ml - 4) \<le> in_end" using assms(2) e by (simp add: j_def)
  have len: "(if min 15 (length lits) = 15 then read_extra_length b (i + 1) in_end (min 15 (length lits))
      else Some (i + 1, min 15 (length lits))) = Some (i + 1 + extra_length_bytes (length lits), length lits)"
    by (rule read_enc_len) (use a(2) assms(3) ie in \<open>simp_all add: j_def\<close>)
  have ml: "(if min 15 (ml - 4) = 15 then read_extra_length b (j + 2) in_end (min 15 (ml - 4))
      else Some (j + 2, min 15 (ml - 4))) = Some (j + 2 + extra_length_bytes (ml - 4), ml - 4)"
    by (rule read_enc_len) (use a(4) assms(4,5) ie in simp_all)
  have off: "unat (ucast (b ! j) OR push_bit 8 (ucast (b ! (j + 1))) :: u32) = off"
    using a(4) assms(4) unat_offset_bytes[OF assms(7)] by simp
  have guards: "\<not> i \<ge> in_end"
    "\<not> (in_end - (i + 1 + extra_length_bytes (length lits)) < length lits \<or> out_end - out < length lits)"
    "j \<noteq> in_end" "\<not> in_end - j < 2" "\<not> (off = 0 \<or> out + length lits < off)"
    "\<not> out_end - (out + length lits) < ml - 4 + 4"
    using ie assms by (auto simp: j_def)
  show ?thesis
    unfolding decompress_step_def Let_def a(1) token_fields len option.case prod.case j_def[symmetric]
      a(3) off ml if_not_P[OF guards(1)] if_not_P[OF guards(2)] if_not_P[OF guards(4)]
      if_not_P[OF guards(5)] if_not_P[OF guards(6)] if_not_P[OF guards(3)]
    using assms(4) e by (simp add: j_def)
qed

lemma length_copy_match [simp]: "length (copy_match n dst out m) = length dst"
  by (induction n arbitrary: dst out m) simp_all

lemma copy_match_outside: "drop (out + n) (copy_match n dst out m) = drop (out + n) dst"
proof (induction n arbitrary: dst out m)
  case (Suc n)
  from Suc.IH[of "out + 1"] show ?case by simp
qed simp

lemma copy_match_src:
  assumes "take p dst = take p src" "p + n \<le> length src" "p + n \<le> length dst" "m < p"
    and "\<forall>i < n. src ! (m + i) = src ! (p + i)"
  shows "take (p + n) (copy_match n dst p m) = take (p + n) src"
  using assms
proof (induction n arbitrary: dst p m)
  case (Suc n)
  have "dst ! m = take p dst ! m" using Suc.prems(4) by simp
  also have "\<dots> = src ! m" unfolding Suc.prems(1) using Suc.prems(4) by simp
  finally have "dst ! m = src ! p" using Suc.prems(5) by (auto dest: spec[of _ 0])
  then have "take (p + 1) (dst[p := dst ! m]) = take (p + 1) src"
    using Suc.prems by (simp add: take_Suc_conv_app_nth)
  moreover have "\<forall>i < n. src ! (m + 1 + i) = src ! (p + 1 + i)"
    using Suc.prems(5) by (metis Suc_less_eq add.assoc plus_1_eq_Suc)
  ultimately show ?case using Suc.IH[of "p + 1" "dst[p := dst ! m]" "m + 1"] Suc.prems by simp
qed simp


section \<open>Streams of sequences\<close>

text \<open>\<open>encodes src sz bs p\<close>: the bytes \<open>bs\<close> are sequences that stand for the first \<open>p\<close> bytes of \<open>src\<close>.\<close>

inductive encodes :: "u8 list \<Rightarrow> nat \<Rightarrow> u8 list \<Rightarrow> nat \<Rightarrow> bool" for src sz where
  encodes_Nil: "encodes src sz [] 0"
| encodes_seq: "\<lbrakk>encodes src sz bs a; a \<le> p; 4 \<le> ml; p + ml \<le> sz; 1 \<le> off; off \<le> 65535; off \<le> p;
    \<forall>i < ml. src ! (p - off + i) = src ! (p + i)\<rbrakk> \<Longrightarrow>
    encodes src sz (bs @ enc_seq (chunk src a (p - a)) off ml) (p + ml)"

lemma encodes_le: "encodes src sz bs p \<Longrightarrow> p \<le> sz"
  by (induction rule: encodes.induct) auto

lemma extra_length_le: "extra_length_bytes v \<le> v div 255 + 1" "4 \<le> v \<Longrightarrow> 4 + extra_length_bytes (v - 4) \<le> v"
  by (auto simp: extra_length_bytes_def div_le_mono)

lemma div_255_add: "a div 255 + b div 255 \<le> (a + b) div (255::nat)"
  unfolding div_add1_eq[of a b 255] by (rule le_add1)

lemma encodes_length: "\<lbrakk>encodes src sz bs p; sz \<le> length src\<rbrakk> \<Longrightarrow> length bs \<le> p + p div 255"
proof (induction rule: encodes.induct)
  case (encodes_seq bs a p ml off)
  have "length (chunk src a (p - a)) = p - a" using encodes_seq by simp
  then have "length (enc_seq (chunk src a (p - a)) off ml) =
      1 + extra_length_bytes (p - a) + (p - a) + 2 + extra_length_bytes (ml - 4)"
    using encodes_seq(3) by (simp add: enc_seq_def)
  then have "length (bs @ enc_seq (chunk src a (p - a)) off ml) \<le> a + a div 255 + (p - a) div 255 + (p - a) + ml"
    using extra_length_le(1)[of "p - a"] extra_length_le(2)[OF encodes_seq(3)] encodes_seq.IH encodes_seq.prems
    by simp
  also have "\<dots> \<le> p + ml + p div 255" using div_255_add[of a "p - a"] encodes_seq(2) by simp
  also have "\<dots> \<le> p + ml + (p + ml) div 255" by (simp add: div_le_mono)
  finally show ?case .
qed simp

lemma take_write_src:
  assumes "take a dst = take a src" "a \<le> p" "p \<le> length src" "p \<le> length dst"
  shows "take p (write_at dst a (chunk src a (p - a))) = take p src"
proof -
  have "length (chunk src a (p - a)) = p - a" using assms by simp
  then have "take p (write_at dst a (chunk src a (p - a))) = take a dst @ chunk src a (p - a)"
    using assms by (simp add: write_at_def)
  then show ?thesis using assms(1,2) take_add[of a "p - a" src] by (simp add: chunk_def)
qed

lemma encodes_decode:
  assumes "encodes src sz bs p" "at b 0 bs" "length bs \<le> in_end" "p \<le> out_end" "out_end \<le> length dst"
    and "sz \<le> length src" "sz \<le> 0x7FFFFF00"
  shows "\<exists>dst'. length dst' = length dst \<and> take p dst' = take p src \<and>
    decompress_loop b in_end out_end 0 dst 0 = decompress_loop b in_end out_end (length bs) dst' p"
  using assms
proof (induction rule: encodes.induct)
  case (encodes_seq bs a p ml off)
  define e where "e = enc_seq (chunk src a (p - a)) off ml"
  have at: "at b 0 bs" "at b (length bs) e" using encodes_seq.prems(1) by (simp_all add: at_append e_def)
  have "length bs \<le> in_end" "a \<le> out_end" using encodes_seq by simp_all
  from encodes_seq.IH[OF at(1) this encodes_seq.prems(4-6)] obtain dst' where
    dst': "length dst' = length dst" "take a dst' = take a src"
    "decompress_loop b in_end out_end 0 dst 0 = decompress_loop b in_end out_end (length bs) dst' a" by blast
  define dst2 where "dst2 = write_at dst' a (chunk src a (p - a))"
  have l: "length (chunk src a (p - a)) = p - a" "a + (p - a) = p" using encodes_seq by simp_all
  have d2: "length dst2 = length dst" "take p dst2 = take p src"
  proof -
    show "length dst2 = length dst" using l encodes_seq(2,4,6) encodes_seq.prems dst' by (simp add: dst2_def)
    show "take p dst2 = take p src"
      unfolding dst2_def using dst' encodes_seq by (intro take_write_src) simp_all
  qed
  have "decompress_step b in_end out_end (length bs) dst' a =
      Inr (length bs + length e, copy_match ml dst2 p (p - off), p + ml)"
    using decompress_step_seq[of b "length bs" "chunk src a (p - a)" off ml in_end a out_end dst'] at(2)
      encodes_seq l by (simp add: e_def dst2_def)
  then have "decompress_loop b in_end out_end 0 dst 0 =
      decompress_loop b in_end out_end (length (bs @ e)) (copy_match ml dst2 p (p - off)) (p + ml)"
    unfolding dst'(3) by (subst decompress_loop.simps) simp
  moreover have "take (p + ml) (copy_match ml dst2 p (p - off)) = take (p + ml) src"
    using encodes_seq d2 by (intro copy_match_src) auto
  ultimately show ?case using d2(1) unfolding e_def by (metis length_copy_match)
qed auto

text \<open>
  The state of an output buffer during compression: it holds an encoding of the first \<open>a\<close> bytes and
  nothing past the capacity was touched.
\<close>

definition emitted :: "u8 list \<Rightarrow> nat \<Rightarrow> nat \<Rightarrow> u8 list \<Rightarrow> u8 list \<Rightarrow> nat \<Rightarrow> nat \<Rightarrow> bool" where
  "emitted src sz cap dest dst out a \<longleftrightarrow> length dst = length dest \<and> drop cap dst = drop cap dest \<and>
     (\<exists>bs. encodes src sz bs a \<and> at dst 0 bs \<and> out = length bs \<and> out \<le> cap)"

lemma at_write_at_before: "\<lbrakk>at dst 0 bs; length bs + length e \<le> length dst\<rbrakk> \<Longrightarrow> at (write_at dst (length bs) e) 0 (bs @ e)"
  by (auto simp: at_def write_at_def)

lemma emit_sequence:
  assumes e: "emitted src sz cap dest dst out a" and b: "sz \<le> length src" "cap \<le> length dest"
    and m: "a \<le> p" "4 \<le> ml" "p + ml \<le> sz" "1 \<le> off" "off \<le> 65535" "off \<le> p"
      "\<forall>i < ml. src ! (p - off + i) = src ! (p + i)"
  shows "case lz4_write_sequence dst out cap (drop a src) (p - a) off ml of
      None \<Rightarrow> cap < sz + sz div 255
    | Some (dst', out') \<Rightarrow> emitted src sz cap dest dst' out' (p + ml)"
proof -
  obtain bs where bs: "encodes src sz bs a" "at dst 0 bs" "out = length bs" "out \<le> cap"
      "length dst = length dest" "drop cap dst = drop cap dest"
    using e by (auto simp: emitted_def)
  define q where "q = enc_seq (chunk src a (p - a)) off ml"
  have enc: "encodes src sz (bs @ q) (p + ml)" unfolding q_def by (rule encodes_seq[OF bs(1) m])
  have w: "lz4_write_sequence dst out cap (drop a src) (p - a) off ml =
      (if cap - out < length q then None else Some (write_at dst out q, out + length q))"
    using lz4_write_sequence_eq[of cap dst "p - a" "drop a src" ml out off] b m bs(5)
    by (simp add: q_def chunk_def)
  show ?thesis
  proof (cases "cap - out < length q")
    case True
    then have "cap < sz + sz div 255"
      using encodes_length[OF enc b(1)] m(3) bs(3,4) div_le_mono[OF m(3), of 255] by simp
    then show ?thesis using True w by simp
  next
    case False
    then have "emitted src sz cap dest (write_at dst out q) (out + length q) (p + ml)"
      unfolding emitted_def using enc bs b(2) at_write_at_before[of dst bs q]
      by (intro conjI exI[of _ "bs @ q"]) (auto simp: drop_write_at_after)
    then show ?thesis using False w by simp
  qed
qed


section \<open>What every compressor of the format gives\<close>

text \<open>
  A compressor is a loop that emits sequences and a last write of the remaining literals.  The loop
  owes that its output is an encoding of what it consumed, and that it stops early only for lack of
  room; safety, success within \<open>lz4_bound\<close> and the round trip follow for any such loop.
\<close>

locale lz4_compressor =
  fixes run :: "u8 list \<Rightarrow> nat \<Rightarrow> nat \<Rightarrow> u8 list \<Rightarrow> bool \<times> u8 list \<times> nat \<times> nat"
    and compress :: "u8 list \<Rightarrow> u32 \<Rightarrow> u8 list \<Rightarrow> u32 \<Rightarrow> int \<times> u8 list"
  assumes run_emitted: "\<lbrakk>sz \<le> length src; cap \<le> length dest; sz < 4294967296; run src sz cap dest = (ok, dst, out, a)\<rbrakk> \<Longrightarrow>
      emitted src sz cap dest dst out a \<and> (\<not> ok \<longrightarrow> cap < sz + sz div 255)"
    and compress_run: "compress src n dest capacity =
      (if n > 0x7E000000 \<or> capacity > 0x7FFFFFFF then (-1, dest)
       else case run src (unat n) (unat capacity) dest of (ok, dst, out, a) \<Rightarrow>
         if \<not> ok then (-1, dst)
         else case lz4_write_sequence dst out (unat capacity) (drop a src) (unat n - a) 0 0 of
           None \<Rightarrow> (-1, dst)
         | Some (dst', out') \<Rightarrow> (int out', dst'))"
begin

text \<open>The three ways a call can end.\<close>

lemma compress_cases:
  assumes "unat n \<le> length src" "unat capacity \<le> length dest"
  obtains (rejected) "n > 0x7E000000 \<or> capacity > 0x7FFFFFFF" "compress src n dest capacity = (-1, dest)"
  | (full) dst out a where "n \<le> 0x7E000000" "compress src n dest capacity = (-1, dst)"
      "emitted src (unat n) (unat capacity) dest dst out a" "unat capacity < unat n + unat n div 255 + 2"
  | (complete) dst bs a where "n \<le> 0x7E000000" "capacity \<le> 0x7FFFFFFF" "encodes src (unat n) bs a"
      "compress src n dest capacity = (int (length bs + length (enc_seq (chunk src a (unat n - a)) 0 0)), dst)"
      "length dst = length dest" "drop (unat capacity) dst = drop (unat capacity) dest"
      "at dst 0 (bs @ enc_seq (chunk src a (unat n - a)) 0 0)"
      "length bs + length (enc_seq (chunk src a (unat n - a)) 0 0) \<le> unat capacity"
proof (cases "n > 0x7E000000 \<or> capacity > 0x7FFFFFFF")
  case True
  then show ?thesis using rejected compress_run by simp
next
  case False
  then have le: "n \<le> 0x7E000000" "capacity \<le> 0x7FFFFFFF" by (simp_all add: not_less)
  obtain ok dst out a where r: "run src (unat n) (unat capacity) dest = (ok, dst, out, a)"
    by (metis prod_cases4)
  have em: "emitted src (unat n) (unat capacity) dest dst out a"
    and nok: "\<not> ok \<Longrightarrow> unat capacity < unat n + unat n div 255"
    using run_emitted[OF assms unat_u32_lt r] by simp_all
  obtain bs where bs: "encodes src (unat n) bs a" "at dst 0 bs" "out = length bs" "out \<le> unat capacity"
      "length dst = length dest" "drop (unat capacity) dst = drop (unat capacity) dest"
    using em by (auto simp: emitted_def)
  define q where "q = enc_seq (chunk src a (unat n - a)) 0 0"
  have an: "a \<le> unat n" by (rule encodes_le[OF bs(1)])
  have c: "compress src n dest capacity = (if \<not> ok then (-1, dst)
      else if unat capacity - out < length q then (-1, dst)
      else (int (out + length q), write_at dst out q))"
    using lz4_write_sequence_eq[of "unat capacity" dst "unat n - a" "drop a src" 0 out 0] False r assms bs(5)
    by (simp add: compress_run q_def chunk_def)
  have q: "length q \<le> (unat n - a) + (unat n - a) div 255 + 2"
    using extra_length_le(1)[of "unat n - a"] assms(1) an by (simp add: q_def enc_seq_def)
  show ?thesis
  proof (cases "ok \<and> length q \<le> unat capacity - out")
    case True
    have "at (write_at dst out q) 0 (bs @ q)"
    proof -
      have "length bs + length q \<le> length dst" using True bs(3-5) assms(2) by linarith
      from at_write_at_before[OF bs(2) this] show ?thesis by (simp add: bs(3))
    qed
    moreover have "length bs + length q \<le> unat capacity" using True bs(3,4) by linarith
    ultimately show ?thesis using True c bs complete[OF le bs(1), of "write_at dst out q"] assms(2)
      by (simp add: drop_write_at_after q_def[symmetric])
  next
    case fl: False
    have "unat capacity < unat n + unat n div 255 + 2"
    proof (cases ok)
      case True
      then have "unat capacity < out + length q" using fl bs(4) by linarith
      moreover have "a div 255 + (unat n - a) div 255 \<le> unat n div 255"
        using div_255_add[of a "unat n - a"] an by simp
      ultimately show ?thesis using q bs(3) encodes_length[OF bs(1) assms(1)] an by linarith
    qed (use nok in simp)
    then show ?thesis using full[OF le(1) _ em] c fl by auto
  qed
qed

lemma compress_within:
  assumes "unat n \<le> length src" "unat capacity \<le> length dest" "compress src n dest capacity = (r, dst)"
  shows "length dst = length dest \<and> drop (unat capacity) dst = drop (unat capacity) dest \<and>
    r \<le> int (unat capacity) \<and> -1 \<le> r"
  using assms(1,2)
proof (cases rule: compress_cases)
  case rejected
  moreover have "-1 \<le> int (unat capacity)" by linarith
  ultimately show ?thesis using assms(3) by auto
next
  case (full dst out a)
  moreover have "-1 \<le> int (unat capacity)" by linarith
  ultimately show ?thesis using assms(3) by (auto simp: emitted_def)
next
  case (complete dst bs a)
  moreover have "int (length bs + length (enc_seq (chunk src a (unat n - a)) 0 0)) \<le> int (unat capacity)"
    using complete(8) by (simp only: of_nat_le_iff)
  ultimately show ?thesis using assms(3) by simp
qed

lemma compress_roundtrip:
  assumes "unat n \<le> length src" "unat capacity \<le> length dest" "compress src n dest capacity = (r, dst)"
    "r \<noteq> -1" "unat n \<le> unat space" "unat space \<le> length buf" "space \<le> 0x7FFFFFFF"
  shows "0 < r \<and> (\<exists>buf'. lz4_decompress dst (of_int r) buf space = (int (unat n), buf') \<and>
    take (unat n) buf' = take (unat n) src)"
  using assms(1,2)
proof (cases rule: compress_cases)
  case rejected
  then show ?thesis using assms(3,4) by simp
next
  case (full dst out a)
  then show ?thesis using assms(3,4) by simp
next
  case (complete dst' bs a)
  define q where "q = enc_seq (chunk src a (unat n - a)) 0 0"
  have dst: "dst' = dst" and r: "r = int (length bs + length q)"
    using assms(3) complete(4) by (simp_all add: q_def)
  have pos: "0 < length q" by (simp add: q_def enc_seq_def)
  have cap: "unat capacity \<le> 0x7FFFFFFF" "unat n \<le> 0x7E000000" using complete(1,2) by (simp_all add: unat_le_32)
  have an: "a \<le> unat n" by (rule encodes_le[OF complete(3)])
  have at: "at dst 0 bs" "at dst (length bs) q" using complete(7) by (simp_all add: at_append q_def dst)
  have ur: "unat (of_int r :: u32) = length bs + length q"
    using complete(8) cap(1) unat_of_nat_u32[of "length bs + length q"] by (simp add: r q_def)
  obtain buf1 where b1: "length buf1 = length buf" "take a buf1 = take a src"
      "decompress_loop dst (length bs + length q) (unat space) 0 buf 0 =
       decompress_loop dst (length bs + length q) (unat space) (length bs) buf1 a"
    using encodes_decode[OF complete(3) at(1), of "length bs + length q" "unat space" buf] assms(1,5,6) an cap(2)
    by auto
  have l: "length (chunk src a (unat n - a)) = unat n - a" using assms(1) an by simp
  have "decompress_step dst (length bs + length q) (unat space) (length bs) buf1 a =
      Inl (int (unat n), write_at buf1 a (chunk src a (unat n - a)))"
    using decompress_step_last[of dst "length bs" "chunk src a (unat n - a)"] at(2) l assms(5) cap(2) an
    by (simp add: q_def)
  then have "decompress_loop dst (length bs + length q) (unat space) 0 buf 0 =
      (int (unat n), write_at buf1 a (chunk src a (unat n - a)))"
    unfolding b1(3) by (subst decompress_loop.simps) simp
  moreover have "take (unat n) (write_at buf1 a (chunk src a (unat n - a))) = take (unat n) src"
    using b1 an assms(1,5,6) by (intro take_write_src) simp_all
  moreover have "(of_int r :: u32) \<noteq> 0" "of_int r \<le> (0x7FFFFFFF::u32)"
    using ur pos cap(1) complete(8) by (auto simp: unat_le_32 q_def)
  moreover have "0 < r" using pos r by linarith
  ultimately show ?thesis
    using r assms(7) ur by (simp add: lz4_decompress_def not_less[symmetric])
qed

lemma compress_bound:
  assumes "unat n \<le> length src" "unat capacity \<le> length dest" "n \<le> 0x7E000000" "capacity \<le> 0x7FFFFFFF"
    and "lz4_bound n \<le> capacity"
  shows "fst (compress src n dest capacity) \<noteq> -1"
  using assms(1,2)
proof (cases rule: compress_cases)
  case (full dst out a)
  have n: "unat n \<le> 2113929216" using assms(3) by (simp add: unat_le_32)
  have "unat (n div 255) = unat n div 255" by (simp add: unat_div)
  then have "unat (lz4_bound n) = unat n + unat n div 255 + 16"
    using n by (simp add: lz4_bound_def unat_word_ariths)
  then show ?thesis using full(4) assms(5) by (simp add: unat_le_32)
qed (use assms in \<open>auto simp: not_less[symmetric]\<close>)

end


section \<open>The greedy compressor\<close>

lemma read_word_byte:
  assumes "i < 4"
  shows "ucast (drop_bit (8 * i) (read_word src p)) = src ! (p + i)"
proof -
  have "i = 0 \<or> i = 1 \<or> i = 2 \<or> i = 3" using assms by linarith
  then show ?thesis
    by (elim disjE; simp; intro bit_word_eqI) (auto simp: read_word_def bit_simps dest: bit_imp_le_length)
qed

lemma read_word_eq: "read_word src p = read_word src q \<Longrightarrow> \<forall>i < 4. src ! (p + i) = src ! (q + i)"
  by (metis read_word_byte)

lemma match_extend_correct:
  assumes "\<forall>i < len. src ! (c + i) = src ! (p + i)" "p + len \<le> limit"
  defines "l \<equiv> match_extend src c p limit len"
  shows "len \<le> l \<and> p + l \<le> limit \<and> (\<forall>i < l. src ! (c + i) = src ! (p + i))"
  unfolding l_def using assms(1,2)
proof (induction src c p limit len rule: match_extend.induct)
  case (1 src c p limit len)
  show ?case
  proof (cases "p + len < limit \<and> src ! (c + len) = src ! (p + len)")
    case True
    then have "\<forall>i < len + 1. src ! (c + i) = src ! (p + i)" using "1.prems"(1) by (auto simp: less_Suc_eq)
    from "1.IH"[OF True this] show ?thesis using True by (simp add: match_extend.simps[of src c p limit len])
  next
    case False
    then have "match_extend src c p limit len = len" by (subst match_extend.simps) (rule if_not_P)
    then show ?thesis using "1.prems" by simp
  qed
qed

definition compress_inv :: "u8 list \<Rightarrow> nat \<Rightarrow> nat \<Rightarrow> u8 list \<Rightarrow> lz4_state \<Rightarrow> bool" where
  "compress_inv src sz cap dest s \<longleftrightarrow> emitted src sz cap dest (c_dst s) (c_out s) (c_anchor s) \<and>
     c_anchor s \<le> c_pos s \<and> (\<forall>slot. c_table s slot \<le> c_pos s)"

lemma compress_step_inv:
  assumes inv: "compress_inv src sz cap dest s" and b: "sz \<le> length src" "cap \<le> length dest"
    and p: "c_pos s + 12 \<le> sz" and r: "compress_step src sz cap s = (ok, s')"
  shows "if ok then compress_inv src sz cap dest s'
    else emitted src sz cap dest (c_dst s') (c_out s') (c_anchor s') \<and> cap < sz + sz div 255"
proof -
  define word where "word = read_word src (c_pos s)"
  define cand where "cand = c_table s (hash_word word)"
  let ?hit = "cand \<noteq> 0 \<and> c_pos s - (cand - 1) \<le> 65535 \<and> read_word src (cand - 1) = word"
  have em: "emitted src sz cap dest (c_dst s) (c_out s) (c_anchor s)" "c_anchor s \<le> c_pos s" "cand \<le> c_pos s"
    and tab: "\<And>slot. c_table s slot \<le> c_pos s"
    using inv by (auto simp: compress_inv_def cand_def)
  show ?thesis
  proof (cases ?hit)
    case False
    then have "ok" "s' = s\<lparr>c_table := (c_table s)(hash_word word := c_pos s + 1), c_pos := c_pos s + 1\<rparr>"
      using r by (auto simp: compress_step_def Let_def word_def[symmetric] cand_def[symmetric])
    then show ?thesis using em tab by (auto simp: compress_inv_def le_Suc_eq)
  next
    case True
    define len where "len = match_extend src (cand - 1) (c_pos s) (sz - 5) 4"
    have len: "4 \<le> len" "c_pos s + len \<le> sz - 5" "\<forall>i < len. src ! (cand - 1 + i) = src ! (c_pos s + i)"
      using match_extend_correct[of 4 src "cand - 1" "c_pos s" "sz - 5"] read_word_eq[of src "cand - 1" "c_pos s"]
        True p by (auto simp: len_def word_def)
    define off where "off = c_pos s - (cand - 1)"
    have off: "1 \<le> off" "off \<le> 65535" "off \<le> c_pos s" "c_pos s - off = cand - 1"
      using True em(3) by (auto simp: off_def)
    define w where "w = lz4_write_sequence (c_dst s) (c_out s) cap (drop (c_anchor s) src)
        (c_pos s - c_anchor s) off len"
    have w: "case w of None \<Rightarrow> cap < sz + sz div 255
        | Some (dst', out') \<Rightarrow> emitted src sz cap dest dst' out' (c_pos s + len)"
      unfolding w_def
      by (rule emit_sequence[OF em(1) b em(2) len(1) _ off(1,2,3)]) (use len off(4) p in auto)
    have sel: "c_pos (s\<lparr>c_table := t\<rparr>) = c_pos s" "c_dst (s\<lparr>c_table := t\<rparr>) = c_dst s"
      "c_out (s\<lparr>c_table := t\<rparr>) = c_out s" "c_anchor (s\<lparr>c_table := t\<rparr>) = c_anchor s" for t by simp_all
    have "compress_step src sz cap s = (case w of None \<Rightarrow> (False, s\<lparr>c_table := (c_table s)(hash_word word := c_pos s + 1)\<rparr>)
        | Some (dst', out') \<Rightarrow> (True, s\<lparr>c_table := (c_table s)(hash_word word := c_pos s + 1),
            c_dst := dst', c_out := out', c_pos := c_pos s + len, c_anchor := c_pos s + len\<rparr>))"
      unfolding compress_step_def Let_def word_def[symmetric] cand_def[symmetric] sel
        len_def[symmetric] off_def[symmetric] w_def[symmetric]
      by (rule if_P) (use True[folded off_def] in blast)
    moreover have "c_table s slot \<le> c_pos s + len" for slot using tab[of slot] by linarith
    ultimately show ?thesis
      using r w em len(1) by (cases w) (auto simp: compress_inv_def)
  qed
qed

lemma compress_loop_inv:
  assumes "compress_inv src sz cap dest s" "sz \<le> length src" "cap \<le> length dest"
    and "compress_loop src sz cap s = (ok, s')"
  shows "emitted src sz cap dest (c_dst s') (c_out s') (c_anchor s') \<and> (\<not> ok \<longrightarrow> cap < sz + sz div 255)"
  using assms
proof (induction src sz cap s rule: compress_loop.induct)
  case (1 src sz cap s)
  obtain ok1 s1 where st: "compress_step src sz cap s = (ok1, s1)" by fastforce
  show ?case
  proof (cases "c_pos s + 12 \<le> sz")
    case True
    note step = compress_step_inv[OF "1.prems"(1-3) True st]
    show ?thesis
    proof (cases ok1)
      case ok: True
      then show ?thesis
        using "1.IH"[OF True refl] step "1.prems" True by (simp add: compress_loop.simps[of src sz cap s] st)
    next
      case False
      then show ?thesis using step "1.prems"(4) True by (auto simp: compress_loop.simps[of src sz cap s] st)
    qed
  next
    case False
    then show ?thesis using "1.prems"(1,4) by (auto simp: compress_loop.simps[of src sz cap s] compress_inv_def)
  qed
qed

text \<open>What the function knows when the loop of \<open>lz4_compress\<close> is left.\<close>

definition lz4_run :: "u8 list \<Rightarrow> nat \<Rightarrow> nat \<Rightarrow> u8 list \<Rightarrow> bool \<times> u8 list \<times> nat \<times> nat" where
  "lz4_run src sz cap dest =
     (let (ok, s) = compress_loop src sz cap \<lparr>c_table = (\<lambda>_. 0), c_anchor = 0, c_pos = 0, c_dst = dest, c_out = 0\<rparr>
      in (ok, c_dst s, c_out s, c_anchor s))"

lemma emitted_start: "cap \<le> length dest \<Longrightarrow> emitted src sz cap dest dest 0 0"
  by (simp add: emitted_def encodes_Nil exI[of _ "[]"])

interpretation lz4: lz4_compressor lz4_run lz4_compress
proof
  show "emitted src sz cap dest dst out a \<and> (\<not> ok \<longrightarrow> cap < sz + sz div 255)"
    if "sz \<le> length src" "cap \<le> length dest" "lz4_run src sz cap dest = (ok, dst, out, a)" for src sz cap dest ok dst out a
  proof -
    have "compress_inv src sz cap dest \<lparr>c_table = (\<lambda>_. 0), c_anchor = 0, c_pos = 0, c_dst = dest, c_out = 0\<rparr>"
      using that(2) by (simp add: compress_inv_def emitted_start)
    from compress_loop_inv[OF this that(1,2)] that(3) show ?thesis
      by (auto simp: lz4_run_def split: prod.splits)
  qed
qed (simp add: lz4_compress_def lz4_run_def Let_def split: prod.split)

text \<open>
  C37. The compressor and the decompressor are inverse: when \<open>lz4_compress\<close> returns a size, it is
  positive and within the capacity, nothing past the capacity was written, and \<open>lz4_decompress\<close> on
  the bytes produced returns exactly the original size and the original bytes, into any buffer that
  has room for them.
\<close>

theorem lz4_roundtrip:
  assumes "unat n \<le> length src" "unat capacity \<le> length dest" "lz4_compress src n dest capacity = (r, dst)"
    "r \<noteq> -1" "unat n \<le> unat space" "unat space \<le> length buf" "space \<le> 0x7FFFFFFF"
  shows "0 < r \<and> r \<le> int (unat capacity) \<and> drop (unat capacity) dst = drop (unat capacity) dest \<and>
    (\<exists>buf'. lz4_decompress dst (of_int r) buf space = (int (unat n), buf') \<and>
      take (unat n) buf' = take (unat n) src)"
  using lz4.compress_roundtrip[OF assms] lz4.compress_within[OF assms(1-3)] by blast

theorem lz4_roundtrip_witness:
  "\<exists>r dst. lz4_compress [1, 2, 3] 3 (replicate 20 0) 20 = (r, dst) \<and> 0 < r \<and>
    (\<exists>buf'. lz4_decompress dst (of_int r) [0, 0, 0, 0] 4 = (3, buf') \<and> take 3 buf' = [1, 2, 3])"
proof -
  have c: "lz4_compress [1, 2, 3] 3 (replicate 20 0) 20 = (4, [48, 1, 2, 3] @ replicate 16 0)" by code_simp
  show ?thesis
    using lz4_roundtrip[of 3 "[1, 2, 3]" 20 "replicate 20 0" 4 "[48, 1, 2, 3] @ replicate 16 0" 4 "[0, 0, 0, 0]"]
    unfolding c by simp
qed

text \<open>
  Compression succeeds whenever the destination has the size \<open>lz4_bound\<close> announces: the call
  returns a size and not \<open>-1\<close>, for every input up to the format's limit.
\<close>

theorem lz4_bound_sufficient:
  assumes "unat n \<le> length src" "unat capacity \<le> length dest" "n \<le> 0x7E000000" "capacity \<le> 0x7FFFFFFF"
    and "lz4_bound n \<le> capacity"
  shows "fst (lz4_compress src n dest capacity) \<noteq> -1"
  by (rule lz4.compress_bound) (fact assms)+

theorem lz4_bound_sufficient_witness:
  "lz4_bound 3 = 19 \<and> fst (lz4_compress [1, 2, 3] 3 (replicate 19 0) 19) \<noteq> -1"
proof -
  have "lz4_bound 3 = 19" by code_simp
  then show ?thesis using lz4_bound_sufficient[of 3 "[1, 2, 3]" 19 "replicate 19 0"] by simp
qed


section \<open>The decompressor on any input\<close>

lemma read_extra_length_cong:
  "take in_end src = take in_end src' \<Longrightarrow> read_extra_length src inp in_end v = read_extra_length src' inp in_end v"
proof (induction src inp in_end v rule: read_extra_length.induct)
  case (1 src inp in_end v)
  show ?case
  proof (cases "inp \<ge> in_end")
    case False
    then have "src ! inp = src' ! inp" using "1.prems" by (metis not_le nth_take)
    then show ?thesis
      using 1 False by (simp add: read_extra_length.simps[of _ inp] Let_def)
  qed (simp add: read_extra_length.simps)
qed

lemma decompress_step_cong:
  assumes t: "take in_end src = take in_end src'"
  shows "decompress_step src in_end out_end inp dst out = decompress_step src' in_end out_end inp dst out"
proof -
  have n: "src ! i = src' ! i" if "i < in_end" for i using t that by (metis nth_take)
  have c: "take k (drop i src) = take k (drop i src')" if "k \<le> in_end - i" for i k
  proof -
    have "take k (drop i src) = take k (drop i (take in_end src))" using that by (simp add: drop_take)
    also have "\<dots> = take k (drop i src')" unfolding t using that by (simp add: drop_take)
    finally show ?thesis .
  qed
  show ?thesis
  proof (cases "in_end \<le> inp")
    case False
    then have tok: "src' ! inp = src ! inp" using n[of inp] by simp
    define r where "r = (if unat (drop_bit 4 (src ! inp)) = 15
        then read_extra_length src (inp + 1) in_end (unat (drop_bit 4 (src ! inp)))
        else Some (inp + 1, unat (drop_bit 4 (src ! inp))))"
    show ?thesis
    proof (cases r)
      case None
      then show ?thesis
        unfolding decompress_step_def Let_def tok read_extra_length_cong[OF t, symmetric] r_def[symmetric] by simp
    next
      case (Some q)
      obtain i l where q: "q = (i, l)" by (cases q)
      note body = decompress_step_def Let_def tok read_extra_length_cong[OF t, symmetric] r_def[symmetric]
        Some q option.case prod.case
      show ?thesis
      proof (cases "in_end - i < l \<or> out_end - out < l")
        case True
        then show ?thesis unfolding body by simp
      next
        case fit: False
        then have cl: "take l (drop i src') = take l (drop i src)" using c[of l i] by simp
        show ?thesis
        proof (cases "i + l = in_end \<or> in_end - (i + l) < 2")
          case True
          then show ?thesis unfolding body cl by auto
        next
          case False
          then have "i + l < in_end" "i + l + 1 < in_end" by linarith+
          then have "src' ! (i + l) = src ! (i + l)" "src' ! (i + l + 1) = src ! (i + l + 1)"
            using n by simp_all
          then show ?thesis unfolding body cl by (simp only:)
        qed
      qed
    qed
  qed (simp add: decompress_step_def)
qed

lemma decompress_loop_cong:
  "take in_end src = take in_end src' \<Longrightarrow>
    decompress_loop src in_end out_end inp dst out = decompress_loop src' in_end out_end inp dst out"
proof (induction src in_end out_end inp dst out rule: decompress_loop.induct)
  case (1 src in_end out_end inp dst out)
  then show ?case
    using decompress_step_cong[OF "1.prems", of out_end inp dst out]
    by (subst (1 2) decompress_loop.simps) (auto split: sum.split)
qed

text \<open>How an iteration can end: at once, after the literals, or after a match.\<close>

lemma decompress_step_cases:
  obtains (early) "decompress_step src in_end out_end inp dst out = Inl (-1, dst)"
  | (literals) l xs r where "l \<le> out_end - out" "r = -1 \<or> r = int (out + l)"
      "decompress_step src in_end out_end inp dst out = Inl (r, write_at dst out (take l xs))"
  | (match) l xs i n m where "l \<le> out_end - out" "n \<le> out_end - (out + l)"
      "decompress_step src in_end out_end inp dst out =
        Inr (i, copy_match n (write_at dst out (take l xs)) (out + l) m, out + l + n)"
proof (cases "in_end \<le> inp")
  case True
  then show thesis by (intro early) (simp add: decompress_step_def)
next
  case False
  define tok where "tok = src ! inp"
  define r where "r = (if unat (drop_bit 4 tok) = 15 then read_extra_length src (inp + 1) in_end (unat (drop_bit 4 tok))
      else Some (inp + 1, unat (drop_bit 4 tok)))"
  note body = decompress_step_def Let_def tok_def[symmetric] r_def[symmetric]
  show thesis
  proof (cases r)
    case None
    then show thesis by (intro early) (unfold body, simp)
  next
    case (Some q)
    obtain i l where q: "q = (i, l)" by (cases q)
    note body = body Some q option.case prod.case if_not_P[OF False]
    show thesis
    proof (cases "in_end - i < l \<or> out_end - out < l")
      case True
      then show thesis by (intro early) (unfold body if_P[OF True], rule refl)
    next
      case fit: False
      then have l: "l \<le> out_end - out" by simp
      define off where "off = unat (ucast (src ! (i + l)) OR push_bit 8 (ucast (src ! (i + l + 1))) :: u32)"
      define d where "d = write_at dst out (take l (drop i src))"
      define r3 where "r3 = (if unat (tok AND 15) = 15 then read_extra_length src (i + l + 2) in_end (unat (tok AND 15))
          else Some (i + l + 2, unat (tok AND 15)))"
      have s: "decompress_step src in_end out_end inp dst out =
        (if i + l = in_end then Inl (int (out + l), d) else if in_end - (i + l) < 2 then Inl (-1, d)
         else if off = 0 \<or> out + l < off then Inl (-1, d)
         else case r3 of None \<Rightarrow> Inl (-1, d)
           | Some (inp, n) \<Rightarrow> if out_end - (out + l) < n + 4 then Inl (-1, d)
               else Inr (inp, copy_match (n + 4) d (out + l) (out + l - off), out + l + (n + 4)))"
        unfolding body if_not_P[OF fit] d_def off_def r3_def ..
      have "(\<exists>r. decompress_step src in_end out_end inp dst out = Inl (r, d) \<and> (r = -1 \<or> r = int (out + l))) \<or>
        (\<exists>i' n. decompress_step src in_end out_end inp dst out =
            Inr (i', copy_match (n + 4) d (out + l) (out + l - off), out + l + (n + 4)) \<and>
          n + 4 \<le> out_end - (out + l))"
        unfolding s by (auto split: if_split option.split simp: not_less)
      then show thesis using literals[OF l] match[OF l] unfolding d_def by blast
    qed
  qed
qed

lemma copy_match_below:
  assumes "n \<le> out_end - p" "p \<le> out_end"
  shows "drop out_end (copy_match n d p m) = drop out_end d"
proof -
  have "drop out_end xs = drop (out_end - (p + n)) (drop (p + n) xs)" for xs :: "u8 list"
    using assms by simp
  then show ?thesis by (simp only: copy_match_outside)
qed

lemma decompress_step_within:
  assumes "out \<le> out_end" "out_end \<le> length dst"
  shows "case decompress_step src in_end out_end inp dst out of
      Inl (r, dst') \<Rightarrow> length dst' = length dst \<and> drop out_end dst' = drop out_end dst \<and>
        -1 \<le> r \<and> r \<le> int out_end
    | Inr (inp', dst', out') \<Rightarrow> length dst' = length dst \<and> drop out_end dst' = drop out_end dst \<and> out' \<le> out_end"
proof (cases rule: decompress_step_cases[of src in_end out_end inp dst out])
  case early
  then show ?thesis by simp
next
  case (literals l xs r)
  then show ?thesis using assms by (auto simp: drop_write_at_after)
next
  case (match l xs i n m)
  then show ?thesis using assms by (simp add: drop_write_at_after copy_match_below)
qed

lemma decompress_loop_within:
  "\<lbrakk>out \<le> out_end; out_end \<le> length dst; decompress_loop src in_end out_end inp dst out = (r, dst')\<rbrakk> \<Longrightarrow>
    length dst' = length dst \<and> drop out_end dst' = drop out_end dst \<and> -1 \<le> r \<and> r \<le> int out_end"
proof (induction src in_end out_end inp dst out rule: decompress_loop.induct)
  case (1 src in_end out_end inp dst out)
  note step = decompress_step_within[OF "1.prems"(1,2), of src in_end inp]
  show ?case
  proof (cases "decompress_step src in_end out_end inp dst out")
    case (Inl q)
    then show ?thesis using step "1.prems"(3) by (simp add: decompress_loop.simps[of src in_end out_end inp])
  next
    case (Inr q)
    then show ?thesis using step "1.IH"[OF Inr] "1.prems"
      by (auto simp: decompress_loop.simps[of src in_end out_end inp dst out] split: prod.splits)
  qed
qed

text \<open>
  C38. The decompressor is safe on every input, well formed or not: it returns, with \<open>-1\<close> or a size
  within the capacity; it writes nothing past the capacity; and it depends on no byte past the size
  of the input.
\<close>

theorem lz4_decompress_safe:
  assumes "unat capacity \<le> length dest" "lz4_decompress src n dest capacity = (r, dst)"
    and "take (unat n) src' = take (unat n) src"
  shows "-1 \<le> r \<and> r \<le> int (unat capacity) \<and> length dst = length dest \<and>
    drop (unat capacity) dst = drop (unat capacity) dest \<and> lz4_decompress src' n dest capacity = (r, dst)"
proof (cases "n = 0 \<or> n > 0x7FFFFFFF \<or> capacity > 0x7FFFFFFF")
  case True
  moreover have "-1 \<le> int (unat capacity)" by linarith
  ultimately show ?thesis using assms(2) by (auto simp: lz4_decompress_def)
next
  case False
  then show ?thesis
    using assms decompress_loop_within[of 0 "unat capacity" dest src "unat n" 0 r dst]
      decompress_loop_cong[OF assms(3), of "unat capacity" 0 dest 0]
    by (simp add: lz4_decompress_def)
qed

theorem lz4_decompress_safe_witness:
  "\<exists>r dst. lz4_decompress [0x1F, 7, 9, 0, 200, 1, 2] 5 (replicate 12 3) 8 = (r, dst) \<and>
    r \<le> 8 \<and> drop 8 dst = replicate 4 3 \<and> lz4_decompress [0x1F, 7, 9, 0, 200] 5 (replicate 12 3) 8 = (r, dst)"
proof -
  obtain r dst where c: "lz4_decompress [0x1F, 7, 9, 0, 200, 1, 2] 5 (replicate 12 3) 8 = (r, dst)" by fastforce
  show ?thesis using lz4_decompress_safe[of 8 "replicate 12 3", OF _ c, of "[0x1F, 7, 9, 0, 200]"] c by simp
qed

end
