(* ===== verification/Lz4hc.thy ===== *)
theory Lz4hc
  imports Lz4
begin

text \<open>
  The high-compression LZ4 encoder (\<open>crypto/lz4hc.c\<close>): hash heads and a chain table of distances over
  a 64 KiB window, a bounded search along a chain and lazy matching.  It writes the same format
  through \<open>lz4_write_sequence\<close>, so that it is an \<open>lz4_compressor\<close> once its matches are shown to be
  real.

  The chain table is static and not cleared between calls; its old contents are an argument of the
  model.  The differences the search takes between positions are written with their wrap-around
  (\<open>sub32\<close>); the invariant \<open>hc_inv\<close> is what makes them exact: within the window an entry of the chain
  table never reaches past the start of the input, although the slots are reused.
\<close>

section \<open>Definitions\<close>

definition sub32 :: "nat \<Rightarrow> nat \<Rightarrow> nat" where
  "sub32 a b = (a + (4294967296 - b)) mod 4294967296"

definition hc_hash_word :: "u32 \<Rightarrow> u32" where
  "hc_hash_word word = drop_bit (32 - 15) (word * 2654435761)"

record hc_tables =
  head_table :: "u32 \<Rightarrow> nat"
  chain_table :: "nat \<Rightarrow> nat"

definition insert_position :: "u8 list \<Rightarrow> hc_tables \<Rightarrow> nat \<Rightarrow> hc_tables" where
  "insert_position src t pos =
     (let slot = hc_hash_word (read_word src pos);
          previous = head_table t slot;
          delta = (if previous \<noteq> 0 \<and> sub32 pos (previous - 1) \<le> 65535 then sub32 pos (previous - 1) else 0)
      in t\<lparr>chain_table := (chain_table t)(pos mod 65536 := delta mod 65536),
           head_table := (head_table t)(slot := pos + 1)\<rparr>)"

function update_chains :: "u8 list \<Rightarrow> hc_tables \<Rightarrow> nat \<Rightarrow> nat \<Rightarrow> hc_tables \<times> nat" where
  "update_chains src t next_update target =
     (if next_update < target then update_chains src (insert_position src t next_update) (next_update + 1) target
      else (t, next_update))"
  by pat_completeness auto
termination by (relation "measure (\<lambda>(src, t, n, target). target - n)") auto

declare update_chains.simps [simp del]

function hc_extend :: "u8 list \<Rightarrow> nat \<Rightarrow> nat \<Rightarrow> nat \<Rightarrow> nat \<Rightarrow> nat" where
  "hc_extend src match pos limit len =
     (if len < limit \<and> src ! (match + len) = src ! (pos + len)
      then hc_extend src match pos limit (len + 1) else len)"
  by pat_completeness auto
termination by (relation "measure (\<lambda>(src, match, pos, limit, len). limit - len)") auto

declare hc_extend.simps [simp del]

text \<open>One iteration of the search for a candidate other than zero: the best length with its offset, and
  the next candidate, zero where the loop is left by a \<open>break\<close>.\<close>

definition find_step :: "u8 list \<Rightarrow> hc_tables \<Rightarrow> nat \<Rightarrow> nat \<Rightarrow> nat \<Rightarrow> nat \<times> nat \<Rightarrow> (nat \<times> nat) \<times> nat" where
  "find_step src t pos limit candidate r =
     (let match = candidate - 1;
          distance = sub32 pos match
      in if distance > 65535 then (r, 0)
      else let
        best = fst r;
        len = (if best = 0 \<or> src ! (match + best) = src ! (pos + best)
               then hc_extend src match pos limit 0 else 0);
        better = (len \<ge> 4 \<and> len > best);
        r = (if better then (len, distance) else r)
      in if better \<and> fst r = limit then (r, 0)
      else let
        step = chain_table t (match mod 65536)
      in if step = 0 then (r, 0)
      else (r, (sub32 match step + 1) mod 4294967296))"

primrec find_loop :: "nat \<Rightarrow> u8 list \<Rightarrow> hc_tables \<Rightarrow> nat \<Rightarrow> nat \<Rightarrow> nat \<Rightarrow> nat \<times> nat \<Rightarrow> nat \<times> nat" where
  "find_loop 0 src t pos limit candidate r = r"
| "find_loop (Suc attempts) src t pos limit candidate r =
     (if candidate = 0 then r
      else let q = find_step src t pos limit candidate r
      in find_loop attempts src t pos limit (snd q) (fst q))"

definition find_match :: "u8 list \<Rightarrow> hc_tables \<Rightarrow> nat \<Rightarrow> nat \<Rightarrow> nat \<Rightarrow> nat \<times> nat" where
  "find_match src t pos sz attempts =
     find_loop attempts src t pos (sz - 5 - pos) (head_table t (hc_hash_word (read_word src pos))) (0, 0)"

text \<open>The inner loop: move on by one while the next position has a match longer by more than one.\<close>

function hc_lazy :: "u8 list \<Rightarrow> nat \<Rightarrow> nat \<Rightarrow> hc_tables \<times> nat \<Rightarrow> nat \<Rightarrow> nat \<times> nat \<Rightarrow> (hc_tables \<times> nat) \<times> nat \<times> nat \<times> nat" where
  "hc_lazy src sz attempts tn pos m =
     (if pos + 1 + 12 \<le> sz then
        let tn = update_chains src (fst tn) (snd tn) (pos + 1);
            next = find_match src (fst tn) (pos + 1) sz attempts
        in if fst next \<le> fst m + 1 then (tn, pos, m)
        else hc_lazy src sz attempts tn (pos + 1) next
      else (tn, pos, m))"
  by pat_completeness auto
termination by (relation "measure (\<lambda>(src, sz, attempts, tn, pos, m). sz - pos)") auto

declare hc_lazy.simps [simp del]

record hc_state =
  h_tables :: hc_tables
  h_next_update :: nat
  h_anchor :: nat
  h_pos :: nat
  h_dst :: "u8 list"
  h_out :: nat

text \<open>One iteration of the main loop; the flag is \<open>False\<close> when the body returns \<open>-1\<close>.\<close>

definition hc_step :: "u8 list \<Rightarrow> nat \<Rightarrow> nat \<Rightarrow> nat \<Rightarrow> hc_state \<Rightarrow> bool \<times> hc_state" where
  "hc_step src sz cap attempts s =
     (let tn = update_chains src (h_tables s) (h_next_update s) (h_pos s);
          m = find_match src (fst tn) (h_pos s) sz attempts
      in if fst m = 0
      then (True, s\<lparr>h_tables := fst tn, h_next_update := snd tn, h_pos := h_pos s + 1\<rparr>)
      else let
        (tn, pos, len, off) = hc_lazy src sz attempts tn (h_pos s) m;
        s = s\<lparr>h_tables := fst tn, h_next_update := snd tn, h_pos := pos\<rparr>
      in case lz4_write_sequence (h_dst s) (h_out s) cap (drop (h_anchor s) src) (pos - h_anchor s) off len of
        None \<Rightarrow> (False, s)
      | Some (dst', out') \<Rightarrow> (True, s\<lparr>h_dst := dst', h_out := out', h_pos := pos + len, h_anchor := pos + len\<rparr>))"

lemma hc_lazy_unfold:
  assumes "tn1 = update_chains src (fst tn) (snd tn) (pos + 1)" "n = find_match src (fst tn1) (pos + 1) sz attempts"
  shows "hc_lazy src sz attempts tn pos m =
    (if pos + 1 + 12 \<le> sz
     then if fst n \<le> fst m + 1 then (tn1, pos, m) else hc_lazy src sz attempts tn1 (pos + 1) n
     else (tn, pos, m))"
  unfolding hc_lazy.simps[of src sz attempts tn] Let_def assms ..

lemma hc_lazy_pos:
  "hc_lazy src sz attempts tn pos m = (tn', pos', m') \<Longrightarrow> pos \<le> pos' \<and> (fst m \<noteq> 0 \<longrightarrow> fst m' \<noteq> 0)"
proof (induction src sz attempts tn pos m rule: hc_lazy.induct)
  case (1 src sz attempts tn pos m)
  define tn1 where "tn1 = update_chains src (fst tn) (snd tn) (pos + 1)"
  define n where "n = find_match src (fst tn1) (pos + 1) sz attempts"
  note eq = hc_lazy_unfold[OF tn1_def n_def, of m]
  show ?case
  proof (cases "pos + 1 + 12 \<le> sz \<and> \<not> fst n \<le> fst m + 1")
    case True
    then have "hc_lazy src sz attempts tn1 (pos + 1) n = (tn', pos', m')" using "1.prems" eq by simp
    with "1.IH"[OF _ tn1_def n_def] True show ?thesis by auto
  next
    case False
    then show ?thesis using "1.prems" unfolding eq by (auto split: if_splits)
  qed
qed

lemma hc_step_pos: "hc_step src sz cap attempts s = (True, s') \<Longrightarrow> h_pos s < h_pos s'"
  by (auto simp: hc_step_def Let_def split: if_splits prod.splits option.splits dest!: hc_lazy_pos)

function hc_loop :: "u8 list \<Rightarrow> nat \<Rightarrow> nat \<Rightarrow> nat \<Rightarrow> hc_state \<Rightarrow> bool \<times> hc_state" where
  "hc_loop src sz cap attempts s =
     (if h_pos s + 12 \<le> sz then
        let r = hc_step src sz cap attempts s
        in if fst r then hc_loop src sz cap attempts (snd r) else r
      else (True, s))"
  by pat_completeness auto
termination
  by (relation "measure (\<lambda>(src, sz, cap, attempts, s). sz - h_pos s)")
    (use hc_step_pos in \<open>fastforce simp: prod_eq_iff\<close>)+

declare hc_loop.simps [simp del]

definition hc_attempts :: "int \<Rightarrow> nat" where
  "hc_attempts level =
     (let level = (if level < 1 then 1 else level);
          level = (if level > 9 then 9 else level)
      in 2 ^ nat level)"

definition lz4hc_compress :: "(nat \<Rightarrow> nat) \<Rightarrow> u8 list \<Rightarrow> u32 \<Rightarrow> u8 list \<Rightarrow> u32 \<Rightarrow> int \<Rightarrow> int \<times> u8 list" where
  "lz4hc_compress chain0 src sz dest capacity level =
     (if sz > 0x7E000000 \<or> capacity > 0x7FFFFFFF then (-1, dest)
      else let (ok, s) = hc_loop src (unat sz) (unat capacity) (hc_attempts level)
          \<lparr>h_tables = \<lparr>head_table = (\<lambda>_. 0), chain_table = chain0\<rparr>, h_next_update = 0,
           h_anchor = 0, h_pos = 0, h_dst = dest, h_out = 0\<rparr>
      in if \<not> ok then (-1, h_dst s)
      else case lz4_write_sequence (h_dst s) (h_out s) (unat capacity) (drop (h_anchor s) src)
          (unat sz - h_anchor s) 0 0 of
        None \<Rightarrow> (-1, h_dst s)
      | Some (dst', out') \<Rightarrow> (int out', dst'))"


section \<open>The tables\<close>

text \<open>With \<open>n\<close> positions inserted: heads are positions below \<open>n\<close> (plus one), and the slot of a
  position in the window holds a distance back to an earlier position, or zero.\<close>

definition hc_inv :: "hc_tables \<Rightarrow> nat \<Rightarrow> bool" where
  "hc_inv t n \<longleftrightarrow> (\<forall>slot. head_table t slot \<le> n) \<and>
     (\<forall>m < n. n \<le> m + 65536 \<longrightarrow> chain_table t (m mod 65536) \<le> m)"

lemma sub32_exact: "\<lbrakk>b \<le> a; a < 4294967296\<rbrakk> \<Longrightarrow> sub32 a b = a - b"
proof -
  assume "b \<le> a" "a < 4294967296"
  then have "a + (4294967296 - b) = (a - b) + 4294967296" "a - b < 4294967296" by simp_all
  then show ?thesis unfolding sub32_def by (simp only: mod_add_self2 mod_less)
qed

lemma window_slots_differ:
  assumes "m < n" "n \<le> m + (65535::nat)"
  shows "m mod 65536 \<noteq> n mod 65536"
proof
  assume "m mod 65536 = n mod 65536"
  then have "65536 dvd n - m" using assms(1) mod_eq_dvd_iff_nat[of m n 65536] by simp
  then show False using assms by (auto dest: dvd_imp_le)
qed

lemma insert_position_inv:
  assumes "hc_inv t n" "n < 4294967296"
  shows "hc_inv (insert_position src t n) (n + 1)"
proof -
  define slot where "slot = hc_hash_word (read_word src n)"
  define p where "p = head_table t slot"
  define d where "d = (if p \<noteq> 0 \<and> sub32 n (p - 1) \<le> 65535 then sub32 n (p - 1) else 0)"
  have t: "insert_position src t n = t\<lparr>chain_table := (chain_table t)(n mod 65536 := d mod 65536),
      head_table := (head_table t)(slot := n + 1)\<rparr>"
    unfolding insert_position_def Let_def slot_def[symmetric] p_def[symmetric] d_def[symmetric] ..
  have h: "head_table t s \<le> n" for s using assms(1) by (simp add: hc_inv_def)
  have "d \<le> n" using sub32_exact[of "p - 1" n] h[of slot] assms(2) by (auto simp: d_def p_def)
  then have "d mod 65536 \<le> n" using mod_less_eq_dividend[of d 65536] by linarith
  moreover have "chain_table t (m mod 65536) \<le> m \<and> m mod 65536 \<noteq> n mod 65536" if "m < n" "n + 1 \<le> m + 65536" for m
    using that assms(1) window_slots_differ[of m n] by (simp add: hc_inv_def)
  ultimately show ?thesis using h by (auto simp: hc_inv_def t less_Suc_eq le_Suc_eq)
qed

lemma update_chains_inv:
  "\<lbrakk>hc_inv t n; n \<le> target; target < 4294967296\<rbrakk> \<Longrightarrow>
    snd (update_chains src t n target) = target \<and> hc_inv (fst (update_chains src t n target)) target"
proof (induction src t n target rule: update_chains.induct)
  case (1 src t n target)
  show ?case
  proof (cases "n < target")
    case True
    then show ?thesis
      using "1.IH"[OF True] insert_position_inv[of t n src] "1.prems" by (simp add: update_chains.simps[of src t n])
  next
    case False
    then have "update_chains src t n target = (t, n)" by (simp add: update_chains.simps)
    then show ?thesis using "1.prems" False by simp
  qed
qed


section \<open>The search\<close>

text \<open>A length and an offset that are either nothing or a real match at the position.\<close>

definition real_match :: "u8 list \<Rightarrow> nat \<Rightarrow> nat \<Rightarrow> nat \<times> nat \<Rightarrow> bool" where
  "real_match src pos limit r \<longleftrightarrow> fst r = 0 \<or>
     (4 \<le> fst r \<and> fst r \<le> limit \<and> 1 \<le> snd r \<and> snd r \<le> 65535 \<and> snd r \<le> pos \<and>
      (\<forall>i < fst r. src ! (pos - snd r + i) = src ! (pos + i)))"

lemma hc_extend_correct:
  "\<lbrakk>len \<le> limit; \<forall>i < len. src ! (m + i) = src ! (p + i)\<rbrakk> \<Longrightarrow>
    hc_extend src m p limit len \<le> limit \<and> (\<forall>i < hc_extend src m p limit len. src ! (m + i) = src ! (p + i))"
proof (induction src m p limit len rule: hc_extend.induct)
  case (1 src m p limit len)
  show ?case
  proof (cases "len < limit \<and> src ! (m + len) = src ! (p + len)")
    case True
    then have "\<forall>i < len + 1. src ! (m + i) = src ! (p + i)" using "1.prems"(2) by (auto simp: less_Suc_eq)
    from "1.IH"[OF True _ this] show ?thesis using True by (simp add: hc_extend.simps[of src m p limit len])
  next
    case False
    then have "hc_extend src m p limit len = len" by (subst hc_extend.simps) (rule if_not_P)
    then show ?thesis using "1.prems" by simp
  qed
qed

lemma find_step_correct:
  assumes inv: "hc_inv t pos" "pos < 4294967296" and c: "candidate \<noteq> 0" "candidate \<le> pos"
    and r: "real_match src pos limit r"
  shows "real_match src pos limit (fst (find_step src t pos limit candidate r)) \<and>
    snd (find_step src t pos limit candidate r) \<le> pos"
proof -
  define m where "m = candidate - 1"
  define d where "d = sub32 pos m"
  define len where "len = (if fst r = 0 \<or> src ! (m + fst r) = src ! (pos + fst r)
      then hc_extend src m pos limit 0 else 0)"
  define better where "better = (len \<ge> 4 \<and> len > fst r)"
  define r' where "r' = (if better then (len, d) else r)"
  define st where "st = chain_table t (m mod 65536)"
  have m: "m < pos" using c by (simp add: m_def)
  have d: "d = pos - m" using m inv(2) by (simp add: d_def sub32_exact)
  have eq: "find_step src t pos limit candidate r =
      (if d > 65535 then (r, 0) else if better \<and> fst r' = limit then (r', 0) else if st = 0 then (r', 0)
       else (r', (sub32 m st + 1) mod 4294967296))"
    unfolding find_step_def Let_def m_def[symmetric] d_def[symmetric] len_def[symmetric] better_def[symmetric]
      r'_def[symmetric] st_def[symmetric] ..
  have "real_match src pos limit r'" if "d \<le> 65535"
  proof (cases better)
    case True
    have "len = hc_extend src m pos limit 0" using True by (auto simp: better_def len_def split: if_splits)
    then have "len \<le> limit \<and> (\<forall>i < len. src ! (m + i) = src ! (pos + i))"
      using hc_extend_correct[of 0 limit src m pos] by simp
    then show ?thesis using True m d that by (auto simp: real_match_def r'_def better_def)
  qed (use r in \<open>simp add: r'_def\<close>)
  moreover have "(sub32 m st + 1) mod 4294967296 \<le> pos" if "d \<le> 65535" "st \<noteq> 0"
  proof -
    have "st \<le> m" using inv(1) m d that(1) by (simp add: hc_inv_def st_def)
    then have "sub32 m st + 1 \<le> m" using that(2) m inv(2) by (simp add: sub32_exact)
    then show ?thesis using m inv(2) by simp
  qed
  ultimately show ?thesis using r unfolding eq by (auto simp: not_less)
qed

lemma find_loop_correct:
  "\<lbrakk>hc_inv t pos; pos < 4294967296; candidate \<le> pos; real_match src pos limit r\<rbrakk> \<Longrightarrow>
    real_match src pos limit (find_loop attempts src t pos limit candidate r)"
proof (induction attempts arbitrary: candidate r)
  case (Suc attempts)
  show ?case
  proof (cases "candidate = 0")
    case False
    with find_step_correct[OF Suc.prems(1,2) False Suc.prems(3,4)] show ?thesis
      using Suc.IH[OF Suc.prems(1,2)] by (simp add: Let_def)
  qed (use Suc.prems in simp)
qed simp

lemma find_match_correct:
  assumes "hc_inv t pos" "pos < 4294967296"
  shows "real_match src pos (sz - 5 - pos) (find_match src t pos sz attempts)"
  unfolding find_match_def
  by (rule find_loop_correct[OF assms]) (use assms in \<open>auto simp: hc_inv_def real_match_def\<close>)

lemma hc_lazy_correct:
  "\<lbrakk>hc_lazy src sz attempts tn pos m = (tn', pos', m'); hc_inv (fst tn) (snd tn); snd tn \<le> pos + 1;
    sz < 4294967296; real_match src pos (sz - 5 - pos) m\<rbrakk> \<Longrightarrow>
    hc_inv (fst tn') (snd tn') \<and> snd tn' \<le> pos' + 1 \<and> real_match src pos' (sz - 5 - pos') m'"
proof (induction src sz attempts tn pos m rule: hc_lazy.induct)
  case (1 src sz attempts tn pos m)
  define tn1 where "tn1 = update_chains src (fst tn) (snd tn) (pos + 1)"
  define n where "n = find_match src (fst tn1) (pos + 1) sz attempts"
  note eq = hc_lazy_unfold[OF tn1_def n_def, of m]
  show ?case
  proof (cases "pos + 1 + 12 \<le> sz")
    case True
    then have u: "snd tn1 = pos + 1" "hc_inv (fst tn1) (pos + 1)"
      using update_chains_inv[of "fst tn" "snd tn" "pos + 1" src] "1.prems" by (simp_all add: tn1_def)
    show ?thesis
    proof (cases "fst n \<le> fst m + 1")
      case False
      have rm: "real_match src (pos + 1) (sz - 5 - (pos + 1)) n"
        unfolding n_def using u(2) by (rule find_match_correct) (use True "1.prems"(4) in linarith)
      have "hc_lazy src sz attempts tn1 (pos + 1) n = (tn', pos', m')" using "1.prems"(1) eq True False by simp
      from "1.IH"[OF True tn1_def n_def False this] show ?thesis using u rm "1.prems"(4) by simp
    qed (use "1.prems" True u eq in auto)
  qed (use "1.prems" eq in auto)
qed


section \<open>The compressor\<close>

definition hc_loop_inv :: "u8 list \<Rightarrow> nat \<Rightarrow> nat \<Rightarrow> u8 list \<Rightarrow> hc_state \<Rightarrow> bool" where
  "hc_loop_inv src sz cap dest s \<longleftrightarrow> emitted src sz cap dest (h_dst s) (h_out s) (h_anchor s) \<and>
     h_anchor s \<le> h_pos s \<and> h_next_update s \<le> h_pos s \<and> hc_inv (h_tables s) (h_next_update s)"

lemma hc_step_inv:
  assumes inv: "hc_loop_inv src sz cap dest s" and b: "sz \<le> length src" "cap \<le> length dest" "sz < 4294967296"
    and p: "h_pos s + 12 \<le> sz" and r: "hc_step src sz cap attempts s = (ok, s')"
  shows "if ok then hc_loop_inv src sz cap dest s'
    else emitted src sz cap dest (h_dst s') (h_out s') (h_anchor s') \<and> cap < sz + sz div 255"
proof -
  define tn where "tn = update_chains src (h_tables s) (h_next_update s) (h_pos s)"
  define m where "m = find_match src (fst tn) (h_pos s) sz attempts"
  have em: "emitted src sz cap dest (h_dst s) (h_out s) (h_anchor s)" "h_anchor s \<le> h_pos s"
    using inv by (simp_all add: hc_loop_inv_def)
  have tn: "snd tn = h_pos s" "hc_inv (fst tn) (h_pos s)"
    using update_chains_inv[of "h_tables s" "h_next_update s" "h_pos s" src] inv b(3) p
    by (auto simp: tn_def hc_loop_inv_def)
  have m: "real_match src (h_pos s) (sz - 5 - h_pos s) m"
    unfolding m_def using tn(2) by (rule find_match_correct) (use b(3) p in linarith)
  show ?thesis
  proof (cases "fst m = 0")
    case True
    then have "ok" "s' = s\<lparr>h_tables := fst tn, h_next_update := snd tn, h_pos := h_pos s + 1\<rparr>"
      using r by (auto simp: hc_step_def Let_def tn_def[symmetric] m_def[symmetric])
    then show ?thesis using em tn by (simp add: hc_loop_inv_def)
  next
    case False
    obtain tn' pos len off where lz: "hc_lazy src sz attempts tn (h_pos s) m = (tn', pos, len, off)"
      by (metis prod_cases4)
    have l: "hc_inv (fst tn') (snd tn')" "snd tn' \<le> pos + 1" "real_match src pos (sz - 5 - pos) (len, off)"
      using hc_lazy_correct[OF lz] tn m b(3) by simp_all
    have lp: "h_pos s \<le> pos" "len \<noteq> 0" using hc_lazy_pos[OF lz] False by simp_all
    have rm: "4 \<le> len" "len \<le> sz - 5 - pos" "1 \<le> off" "off \<le> 65535" "off \<le> pos"
      "\<forall>i < len. src ! (pos - off + i) = src ! (pos + i)"
      using l(3) lp(2) unfolding real_match_def fst_conv snd_conv by blast+
    define s1 where "s1 = s\<lparr>h_tables := fst tn', h_next_update := snd tn', h_pos := pos\<rparr>"
    define w where "w = lz4_write_sequence (h_dst s) (h_out s) cap (drop (h_anchor s) src) (pos - h_anchor s) off len"
    have ap: "h_anchor s \<le> pos" "pos + len \<le> sz" using em(2) lp(1) rm(1,2) by linarith+
    have w: "case w of None \<Rightarrow> cap < sz + sz div 255
        | Some (dst', out') \<Rightarrow> emitted src sz cap dest dst' out' (pos + len)"
      unfolding w_def by (rule emit_sequence[OF em(1) b(1,2) ap(1) rm(1) ap(2) rm(3-6)])
    have "hc_step src sz cap attempts s = (case w of None \<Rightarrow> (False, s1)
        | Some (dst', out') \<Rightarrow> (True, s1\<lparr>h_dst := dst', h_out := out', h_pos := pos + len, h_anchor := pos + len\<rparr>))"
      using False by (simp add: hc_step_def Let_def tn_def[symmetric] m_def[symmetric] lz s1_def w_def
          split: option.split)
    then show ?thesis
      using r w em l(1,2) rm(1) by (cases w) (auto simp: hc_loop_inv_def s1_def)
  qed
qed

lemma hc_loop_emitted:
  assumes "hc_loop_inv src sz cap dest s" "sz \<le> length src" "cap \<le> length dest" "sz < 4294967296"
    and "hc_loop src sz cap attempts s = (ok, s')"
  shows "emitted src sz cap dest (h_dst s') (h_out s') (h_anchor s') \<and> (\<not> ok \<longrightarrow> cap < sz + sz div 255)"
  using assms
proof (induction src sz cap attempts s rule: hc_loop.induct)
  case (1 src sz cap attempts s)
  obtain ok1 s1 where st: "hc_step src sz cap attempts s = (ok1, s1)" by fastforce
  show ?case
  proof (cases "h_pos s + 12 \<le> sz")
    case True
    note step = hc_step_inv[OF "1.prems"(1-4) True st]
    show ?thesis
    proof (cases ok1)
      case ok: True
      then show ?thesis
        using "1.IH"[OF True refl] step "1.prems" True by (simp add: hc_loop.simps[of src sz cap attempts s] st)
    next
      case False
      then show ?thesis using step "1.prems"(5) True by (auto simp: hc_loop.simps[of src sz cap attempts s] st)
    qed
  next
    case False
    then show ?thesis using "1.prems"(1,5) by (auto simp: hc_loop.simps[of src sz cap attempts s] hc_loop_inv_def)
  qed
qed

definition lz4hc_run :: "(nat \<Rightarrow> nat) \<Rightarrow> int \<Rightarrow> u8 list \<Rightarrow> nat \<Rightarrow> nat \<Rightarrow> u8 list \<Rightarrow> bool \<times> u8 list \<times> nat \<times> nat" where
  "lz4hc_run chain0 level src sz cap dest =
     (let (ok, s) = hc_loop src sz cap (hc_attempts level)
          \<lparr>h_tables = \<lparr>head_table = (\<lambda>_. 0), chain_table = chain0\<rparr>, h_next_update = 0,
           h_anchor = 0, h_pos = 0, h_dst = dest, h_out = 0\<rparr>
      in (ok, h_dst s, h_out s, h_anchor s))"

interpretation lz4hc: lz4_compressor "lz4hc_run chain0 level" "\<lambda>src n dest cap. lz4hc_compress chain0 src n dest cap level"
  for chain0 level
proof
  show "emitted src sz cap dest dst out a \<and> (\<not> ok \<longrightarrow> cap < sz + sz div 255)"
    if "sz \<le> length src" "cap \<le> length dest" "sz < 4294967296" "lz4hc_run chain0 level src sz cap dest = (ok, dst, out, a)"
    for src sz cap dest ok dst out a
  proof -
    have "hc_loop_inv src sz cap dest \<lparr>h_tables = \<lparr>head_table = (\<lambda>_. 0), chain_table = chain0\<rparr>, h_next_update = 0,
           h_anchor = 0, h_pos = 0, h_dst = dest, h_out = 0\<rparr>"
      using that(2) by (simp add: hc_loop_inv_def emitted_start hc_inv_def)
    from hc_loop_emitted[OF this that(1-3), of "hc_attempts level"] that(4) show ?thesis
      by (auto simp: lz4hc_run_def split: prod.splits)
  qed
qed (simp add: lz4hc_compress_def lz4hc_run_def Let_def split: prod.split)

text \<open>
  C39. The high-compression encoder produces the same format: for every level and whatever earlier
  calls left in the chain table, a call with the capacity \<open>lz4_bound\<close> asks for succeeds, stays within
  the capacity, and \<open>lz4_decompress\<close> restores the original bytes from its output.
\<close>

theorem lz4hc_roundtrip:
  assumes "unat n \<le> length src" "unat capacity \<le> length dest" "n \<le> 0x7E000000" "capacity \<le> 0x7FFFFFFF"
    "lz4_bound n \<le> capacity" "lz4hc_compress chain0 src n dest capacity level = (r, dst)"
    "unat n \<le> unat space" "unat space \<le> length buf" "space \<le> 0x7FFFFFFF"
  shows "0 < r \<and> r \<le> int (unat capacity) \<and> drop (unat capacity) dst = drop (unat capacity) dest \<and>
    (\<exists>buf'. lz4_decompress dst (of_int r) buf space = (int (unat n), buf') \<and>
      take (unat n) buf' = take (unat n) src)"
proof -
  have "r \<noteq> -1" using lz4hc.compress_bound[OF assms(1-5), of chain0 level] assms(6) by simp
  from lz4hc.compress_roundtrip[OF assms(1,2,6) this assms(7-9)] lz4hc.compress_within[OF assms(1,2,6)]
  show ?thesis by blast
qed

theorem lz4hc_roundtrip_witness:
  "\<exists>r dst. lz4hc_compress (\<lambda>_. 7) [1, 2, 3] 3 (replicate 20 0) 20 9 = (r, dst) \<and> 0 < r \<and>
    (\<exists>buf'. lz4_decompress dst (of_int r) [0, 0, 0, 0] 4 = (3, buf') \<and> take 3 buf' = [1, 2, 3])"
proof -
  obtain r dst where c: "lz4hc_compress (\<lambda>_. 7) [1, 2, 3] 3 (replicate 20 0) 20 9 = (r, dst)" by fastforce
  have "lz4_bound 3 = 19" by code_simp
  then show ?thesis
    using lz4hc_roundtrip[of 3 "[1, 2, 3]" 20 "replicate 20 0" "\<lambda>_. 7" 9 r dst 4 "[0, 0, 0, 0]", OF _ _ _ _ _ c]
    by (simp add: c)
qed

end
