(* ===== verification/Block_Device.thy ===== *)
theory Block_Device
  imports Prelude
begin

text \<open>
  The contract between the file system and whatever stores its sectors.  A block device reads and
  writes runs of 512-byte sectors; \<open>drivers/ata.c\<close>, \<open>drivers/nvme.c\<close> and the choice between them in
  \<open>drivers/disk.c\<close> are three interpretations of the locale \<open>block_device\<close> below.
\<close>

section \<open>Runs of sectors\<close>

text \<open>The sectors from \<open>lba\<close> on, one after the other, and the medium with some of them replaced.\<close>

definition sectors_at :: "(nat \<Rightarrow> u8 list) \<Rightarrow> nat \<Rightarrow> nat \<Rightarrow> u8 list" where
  "sectors_at m lba n = concat (map m [lba..<lba + n])"

definition put_sectors :: "(nat \<Rightarrow> u8 list) \<Rightarrow> nat \<Rightarrow> nat \<Rightarrow> u8 list \<Rightarrow> nat \<Rightarrow> u8 list" where
  "put_sectors m lba n data i = (if lba \<le> i \<and> i < lba + n then chunk data ((i - lba) * 512) 512 else m i)"

text \<open>What a read may do to the buffer: fill the front, and with the sectors if it succeeds.\<close>

definition read_ok :: "(nat \<Rightarrow> u8 list) \<Rightarrow> nat \<Rightarrow> nat \<Rightarrow> u8 list \<Rightarrow> bool \<Rightarrow> u8 list \<Rightarrow> bool" where
  "read_ok m lba n buf ok buf' \<longleftrightarrow>
     length buf' = length buf \<and> drop (n * 512) buf' = drop (n * 512) buf \<and>
     (ok \<longrightarrow> take (n * 512) buf' = sectors_at m lba n)"

text \<open>What a write may do to the medium: replace the first sectors of the run, and all if it succeeds.\<close>

definition write_ok :: "(nat \<Rightarrow> u8 list) \<Rightarrow> nat \<Rightarrow> nat \<Rightarrow> u8 list \<Rightarrow> bool \<Rightarrow> (nat \<Rightarrow> u8 list) \<Rightarrow> bool" where
  "write_ok m lba n data ok m' \<longleftrightarrow> (\<exists>k \<le> n. m' = put_sectors m lba k data \<and> (ok \<longrightarrow> k = n))"

lemma length_sectors_at: "(\<And>i. length (m i) = 512) \<Longrightarrow> length (sectors_at m lba n) = n * 512"
  by (induction n) (simp_all add: sectors_at_def)

lemma sectors_at_0 [simp]: "sectors_at m lba 0 = []"
  by (simp add: sectors_at_def)

lemma sectors_at_1 [simp]: "sectors_at m lba (Suc 0) = m lba"
  by (simp add: sectors_at_def)

lemma sectors_at_add: "sectors_at m lba (j + k) = sectors_at m lba j @ sectors_at m (lba + j) k"
proof -
  have "[lba..<lba + (j + k)] = [lba..<lba + j] @ [lba + j..<lba + j + k]"
    by (metis add.assoc upt_add_eq_append le_add1)
  then show ?thesis by (simp add: sectors_at_def)
qed

lemma sectors_at_Suc: "sectors_at m lba (Suc k) = sectors_at m lba k @ m (lba + k)"
  using sectors_at_add[of m lba k 1] by simp

lemma sectors_at_cong: "(\<And>i. lba \<le> i \<Longrightarrow> i < lba + n \<Longrightarrow> m i = m' i) \<Longrightarrow> sectors_at m lba n = sectors_at m' lba n"
  by (auto simp: sectors_at_def intro!: arg_cong[where f = concat])

lemma put_sectors_0 [simp]: "put_sectors m lba 0 data = m"
  by (rule ext) (auto simp: put_sectors_def)

lemma put_sectors_1: "length data = 512 \<Longrightarrow> put_sectors m lba (Suc 0) data = m(lba := data)"
  by (auto simp: put_sectors_def fun_eq_iff)

lemma put_sectors_twice:
  "put_sectors (put_sectors m lba j data) lba k data = put_sectors m lba (max j k) data"
  by (auto simp: put_sectors_def fun_eq_iff)

lemma put_sectors_add:
  "put_sectors m lba (j + k) data = put_sectors (put_sectors m lba j data) (lba + j) k (drop (j * 512) data)"
proof
  fix i
  have "chunk (drop (j * 512) data) ((i - (lba + j)) * 512) 512 = chunk data ((i - lba) * 512) 512"
    if "lba + j \<le> i"
  proof -
    have "j * 512 + (i - (lba + j)) * 512 = (i - lba) * 512"
      using that by (simp add: add_mult_distrib[symmetric])
    then show ?thesis by (simp add: chunk_def add.commute)
  qed
  then show "put_sectors m lba (j + k) data i =
      put_sectors (put_sectors m lba j data) (lba + j) k (drop (j * 512) data) i"
    by (auto simp: put_sectors_def)
qed

lemma put_sectors_length:
  assumes "\<And>i. length (m i) = 512" "n * 512 \<le> length data"
  shows "length (put_sectors m lba n data i) = 512"
proof -
  have "(i - lba) * 512 + 512 \<le> length data" if "lba \<le> i" "i < lba + n"
  proof -
    have "(i - lba) + 1 \<le> n" using that by simp
    then have "((i - lba) + 1) * 512 \<le> n * 512" by (rule mult_le_mono1)
    then show ?thesis using assms(2) by simp
  qed
  then show ?thesis using assms(1) by (simp add: put_sectors_def)
qed

lemma write_ok_length:
  "\<lbrakk>write_ok m lba n data ok m'; \<And>i. length (m i) = 512; n * 512 \<le> length data\<rbrakk> \<Longrightarrow> length (m' i) = 512"
  using put_sectors_length[of m _ data lba i] by (auto simp: write_ok_def dest: mult_le_mono1[of _ n 512])

lemma write_ok_refl: "write_ok m lba n data False m"
  unfolding write_ok_def by (intro exI[of _ 0]) simp

lemma write_ok_retry:
  "\<lbrakk>write_ok m lba n data False m1; write_ok m1 lba n data ok m'\<rbrakk> \<Longrightarrow> write_ok m lba n data ok m'"
proof -
  assume a: "write_ok m lba n data False m1" "write_ok m1 lba n data ok m'"
  then obtain j k where "j \<le> n" "m1 = put_sectors m lba j data" "k \<le> n" "m' = put_sectors m1 lba k data" "ok \<longrightarrow> k = n"
    by (auto simp: write_ok_def)
  then show ?thesis unfolding write_ok_def by (intro exI[of _ "max j k"]) (auto simp: put_sectors_twice)
qed

lemma write_ok_append:
  assumes "write_ok (put_sectors m lba j data) (lba + j) k (drop (j * 512) data) ok m'" "j + k = n"
  shows "write_ok m lba n data ok m'"
proof -
  obtain i where "i \<le> k" "m' = put_sectors m lba (j + i) data" "ok \<longrightarrow> i = k"
    using assms(1) by (auto simp: write_ok_def put_sectors_add)
  then show ?thesis unfolding write_ok_def using assms(2) by (intro exI[of _ "j + i"]) auto
qed

lemma read_ok_refl: "read_ok m lba n buf False buf"
  by (simp add: read_ok_def)

lemma read_ok_retry:
  "\<lbrakk>read_ok m lba n buf False buf1; read_ok m lba n buf1 ok buf'\<rbrakk> \<Longrightarrow> read_ok m lba n buf ok buf'"
  by (simp add: read_ok_def)


section \<open>The contract\<close>

text \<open>
  \<open>view d\<close> is what the device stores, \<open>cap d\<close> the number of sectors it offers, \<open>wf d\<close> the invariant of
  driver and device.  The laws say nothing about when an operation succeeds: a disk may fail at any
  time.
\<close>

locale block_device =
  fixes rd :: "nat \<Rightarrow> nat \<Rightarrow> u8 list \<Rightarrow> 'd \<Rightarrow> bool \<times> u8 list \<times> 'd"
    and wr :: "nat \<Rightarrow> nat \<Rightarrow> u8 list \<Rightarrow> 'd \<Rightarrow> bool \<times> 'd"
    and view :: "'d \<Rightarrow> nat \<Rightarrow> u8 list"
    and cap :: "'d \<Rightarrow> nat"
    and wf :: "'d \<Rightarrow> bool"
  assumes view_length: "wf d \<Longrightarrow> length (view d i) = 512"
    and rd_law: "\<lbrakk>wf d; lba + n \<le> cap d; n * 512 \<le> length buf; rd lba n buf d = (ok, buf', d')\<rbrakk> \<Longrightarrow>
      wf d' \<and> cap d' = cap d \<and> view d' = view d \<and> read_ok (view d) lba n buf ok buf'"
    and wr_law: "\<lbrakk>wf d; lba + n \<le> cap d; n * 512 \<le> length data; wr lba n data d = (ok, d')\<rbrakk> \<Longrightarrow>
      wf d' \<and> cap d' = cap d \<and> write_ok (view d) lba n data ok (view d')"
begin

lemma rd_one:
  "\<lbrakk>wf d; lba < cap d; length buf = 512; rd lba 1 buf d = (ok, buf', d')\<rbrakk> \<Longrightarrow>
    wf d' \<and> cap d' = cap d \<and> view d' = view d \<and> length buf' = 512 \<and> (ok \<longrightarrow> buf' = view d lba)"
  using rd_law[of d lba 1 buf ok buf' d'] by (auto simp: read_ok_def)

lemma wr_one:
  assumes "wf d" "lba < cap d" "length data = 512" "wr lba 1 data d = (ok, d')"
  shows "wf d' \<and> cap d' = cap d \<and> (view d' = (view d)(lba := data) \<or> \<not> ok \<and> view d' = view d)"
proof -
  have l: "wf d' \<and> cap d' = cap d \<and> write_ok (view d) lba 1 data ok (view d')"
    using wr_law[of d lba 1 data ok d'] assms by auto
  then obtain k where k: "k \<le> 1" "view d' = put_sectors (view d) lba k data" "ok \<longrightarrow> k = 1"
    unfolding write_ok_def by blast
  have "k = 0 \<or> k = 1" using k(1) by auto
  then show ?thesis using l k put_sectors_1[OF assms(3)] by auto
qed

text \<open>A sector outside of the run is never touched.\<close>

lemma wr_outside:
  "\<lbrakk>wf d; lba + n \<le> cap d; n * 512 \<le> length data; wr lba n data d = (ok, d'); i < lba \<or> lba + n \<le> i\<rbrakk> \<Longrightarrow>
    view d' i = view d i"
  using wr_law[of d lba n data ok d'] by (auto simp: write_ok_def put_sectors_def)

text \<open>What has been written is read back, through the same driver.\<close>

lemma write_then_read:
  assumes "wf d" "lba + n \<le> cap d" "length data = n * 512" "length buf = n * 512"
    and "wr lba n data d = (True, d1)" "rd lba n buf d1 = (True, buf', d2)"
  shows "buf' = data"
proof -
  have w: "wf d1" "cap d1 = cap d" "view d1 = put_sectors (view d) lba n data"
    using wr_law[of d lba n data True d1] assms by (auto simp: write_ok_def)
  have "take (n * 512) buf' = sectors_at (put_sectors (view d) lba n data) lba n \<and> length buf' = n * 512"
    using rd_law[of d1 lba n buf True buf' d2] w assms by (simp add: read_ok_def)
  moreover have "sectors_at (put_sectors (view d) lba n data) lba j = take (j * 512) data" if "j \<le> n" for j
    using that
  proof (induction j)
    case (Suc j)
    have "(Suc j) * 512 \<le> n * 512" using Suc.prems by (rule mult_le_mono1)
    moreover have "sectors_at (put_sectors (view d) lba n data) lba j = take (j * 512) data" using Suc by simp
    moreover have "take (Suc j * 512) data = take (j * 512) data @ chunk data (j * 512) 512"
      using take_add[of "j * 512" 512 data] by (simp add: chunk_def add.commute)
    moreover have "put_sectors (view d) lba n data (lba + j) = chunk data (j * 512) 512"
      using Suc.prems by (simp add: put_sectors_def)
    ultimately show ?case by (simp add: sectors_at_Suc)
  qed simp
  ultimately show ?thesis using assms(3) take_all[of buf' "n * 512"] by simp
qed

end

end
