(* ===== verification/Ata.thy ===== *)
theory Ata
  imports Block_Device
begin

text \<open>
  The ATA driver, \<open>drivers/ata.c\<close>.

  The driver talks to the drive through ports.  The drive is the record \<open>ata_dev\<close>: the task-file
  registers, the command in progress and the sectors, behaving as the ATA standard describes for
  28-bit addressing.  What it answers on the status port is arbitrary: \<open>ata_feed t\<close> is the status byte
  read at time \<open>t\<close>, where every read of a port takes one unit of time.  So every statement below
  holds for every drive that is slow, busy for ever or failing at any moment.
\<close>

section \<open>The drive\<close>

datatype xfer =
    Idle
  | Reading nat nat nat   \<comment> \<open>first sector, number of sectors, words delivered\<close>
  | Writing nat nat "u8 list"   \<comment> \<open>next sector, sectors left, bytes of the next sector\<close>
  | Identifying nat   \<comment> \<open>words delivered\<close>

record ata_dev =
  ata_medium :: "nat \<Rightarrow> u8 list"
  ata_identify :: "nat \<Rightarrow> u16"
  ata_feed :: "nat \<Rightarrow> u8"
  ata_signature :: "u8 \<times> u8"
  ata_clock :: nat
  r_seccount :: u8
  r_lba_low :: u8
  r_lba_mid :: u8
  r_lba_high :: u8
  r_drive_head :: u8
  ata_xfer :: xfer

definition reg_lba :: "ata_dev \<Rightarrow> nat" where
  "reg_lba h = unat (r_lba_low h) + 256 * unat (r_lba_mid h) + 65536 * unat (r_lba_high h) +
     16777216 * (unat (r_drive_head h) mod 16)"

definition reg_count :: "ata_dev \<Rightarrow> nat" where
  "reg_count h = (if r_seccount h = 0 then 256 else unat (r_seccount h))"

definition status_in :: "ata_dev \<Rightarrow> u8 \<times> ata_dev" where
  "status_in h = (ata_feed h (ata_clock h), h\<lparr>ata_clock := ata_clock h + 1\<rparr>)"

definition byte_word :: "u8 \<Rightarrow> u8 \<Rightarrow> u16" where
  "byte_word lo hi = ucast lo OR push_bit 8 (ucast hi)"

definition data_in :: "ata_dev \<Rightarrow> u16 \<times> ata_dev" where
  "data_in h =
     (case ata_xfer h of
        Reading lba n pos \<Rightarrow>
          if pos < n * 256
          then (let sec = ata_medium h (lba + pos div 256); j = 2 * (pos mod 256)
                in (byte_word (sec ! j) (sec ! (j + 1)), h\<lparr>ata_xfer := Reading lba n (pos + 1)\<rparr>))
          else (0xFFFF, h)
      | Identifying pos \<Rightarrow> (ata_identify h pos, h\<lparr>ata_xfer := Identifying (pos + 1)\<rparr>)
      | _ \<Rightarrow> (0xFFFF, h))"

definition data_out :: "u16 \<Rightarrow> ata_dev \<Rightarrow> ata_dev" where
  "data_out w h =
     (case ata_xfer h of
        Writing lba (Suc n) part \<Rightarrow>
          (let part = part @ [ucast w, ucast (drop_bit 8 w)]
           in if length part = 512
              then h\<lparr>ata_medium := (ata_medium h)(lba := part), ata_xfer := Writing (lba + 1) n []\<rparr>
              else h\<lparr>ata_xfer := Writing lba (Suc n) part\<rparr>)
      | _ \<Rightarrow> h)"

definition command_out :: "u8 \<Rightarrow> ata_dev \<Rightarrow> ata_dev" where
  "command_out c h =
     h\<lparr>ata_xfer := (if c = 0x20 then Reading (reg_lba h) (reg_count h) 0
        else if c = 0x30 then Writing (reg_lba h) (reg_count h) []
        else if c = 0xEC then Identifying 0
        else Idle)\<rparr>"


section \<open>The driver\<close>

abbreviation ATA_TIMEOUT :: nat where "ATA_TIMEOUT \<equiv> 3000000"
abbreviation ATA_RETRIES :: nat where "ATA_RETRIES \<equiv> 3"
abbreviation ATA_SR_BSY :: u8 where "ATA_SR_BSY \<equiv> 0x80"
abbreviation ATA_SR_DF :: u8 where "ATA_SR_DF \<equiv> 0x20"
abbreviation ATA_SR_DRQ :: u8 where "ATA_SR_DRQ \<equiv> 0x08"
abbreviation ATA_SR_ERR :: u8 where "ATA_SR_ERR \<equiv> 0x01"

text \<open>A C result of 0 is \<open>True\<close>.  The loops count \<open>timeout\<close> down as the source does.\<close>

definition ata_delay :: "ata_dev \<Rightarrow> ata_dev" where
  "ata_delay h = h\<lparr>ata_clock := ata_clock h + 4\<rparr>"

fun wait_bsy_loop :: "nat \<Rightarrow> ata_dev \<Rightarrow> bool \<times> ata_dev" where
  "wait_bsy_loop timeout h =
     (if timeout = 0 then (False, h)
      else let (status, h) = status_in h
        in if status AND ATA_SR_BSY = 0 then (True, h) else wait_bsy_loop (timeout - 1) h)"

definition ata_wait_bsy :: "ata_dev \<Rightarrow> bool \<times> ata_dev" where
  "ata_wait_bsy = wait_bsy_loop ATA_TIMEOUT"

fun wait_drq_loop :: "nat \<Rightarrow> ata_dev \<Rightarrow> bool \<times> ata_dev" where
  "wait_drq_loop timeout h =
     (if timeout = 0 then (False, h)
      else let (status, h) = status_in h
        in if status AND ATA_SR_BSY \<noteq> 0 then wait_drq_loop (timeout - 1) h
        else if status AND (ATA_SR_ERR OR ATA_SR_DF) \<noteq> 0 then (False, h)
        else if status AND ATA_SR_DRQ \<noteq> 0 then (True, h)
        else wait_drq_loop (timeout - 1) h)"

definition ata_wait_drq :: "ata_dev \<Rightarrow> bool \<times> ata_dev" where
  "ata_wait_drq = wait_drq_loop ATA_TIMEOUT"

fun finish_loop :: "nat \<Rightarrow> ata_dev \<Rightarrow> bool \<times> ata_dev" where
  "finish_loop timeout h =
     (if timeout = 0 then (False, h)
      else let (status, h) = status_in h
        in if status AND ATA_SR_BSY \<noteq> 0 then finish_loop (timeout - 1) h
        else (status AND (ATA_SR_ERR OR ATA_SR_DF OR ATA_SR_DRQ) = 0, h))"

definition ata_finish :: "ata_dev \<Rightarrow> bool \<times> ata_dev" where
  "ata_finish h = finish_loop ATA_TIMEOUT (ata_delay h)"

text \<open>A software reset aborts the command in progress.\<close>

definition ata_reset :: "ata_dev \<Rightarrow> ata_dev" where
  "ata_reset h = snd (ata_wait_bsy (h\<lparr>ata_xfer := Idle, ata_clock := ata_clock h + 64 + 10000\<rparr>))"

definition ata_select :: "u32 \<Rightarrow> ata_dev \<Rightarrow> ata_dev" where
  "ata_select lba h = ata_delay (h\<lparr>r_drive_head := ucast (0xE0 OR (drop_bit 24 lba AND 0x0F))\<rparr>)"

definition ata_prepare :: "u32 \<Rightarrow> ata_dev \<Rightarrow> bool \<times> ata_dev" where
  "ata_prepare lba h =
     (let (ok, h) = ata_wait_bsy h in
      if \<not> ok then (False, h) else
      let h = ata_select lba h;
          (ok, h) = ata_wait_bsy h in
      if \<not> ok then (False, h) else
      let (status, h) = status_in h in
      if status AND ATA_SR_DRQ \<noteq> 0 then ata_wait_bsy (ata_select lba (ata_reset h))
      else (True, h))"

definition ata_setup :: "u32 \<Rightarrow> u32 \<Rightarrow> u8 \<Rightarrow> ata_dev \<Rightarrow> ata_dev" where
  "ata_setup lba count command h =
     ata_delay (command_out command (h\<lparr>r_seccount := ucast count,
       r_lba_low := ucast (lba AND 0xFF), r_lba_mid := ucast (drop_bit 8 lba AND 0xFF),
       r_lba_high := ucast (drop_bit 16 lba AND 0xFF)\<rparr>))"

text \<open>The inner loops move \<open>k\<close> words between the data port and the buffer from offset \<open>p\<close> on.\<close>

primrec read_words :: "nat \<Rightarrow> nat \<Rightarrow> u8 list \<Rightarrow> ata_dev \<Rightarrow> u8 list \<times> ata_dev" where
  "read_words 0 p buf h = (buf, h)"
| "read_words (Suc k) p buf h =
     (let (w, h) = data_in h
      in read_words k (p + 2) (buf[p := ucast (w AND 0xFF), p + 1 := ucast (drop_bit 8 w AND 0xFF)]) h)"

primrec write_words :: "nat \<Rightarrow> nat \<Rightarrow> u8 list \<Rightarrow> ata_dev \<Rightarrow> ata_dev" where
  "write_words 0 p buf h = h"
| "write_words (Suc k) p buf h =
     write_words k (p + 2) buf (data_out (ucast (buf ! p) OR push_bit 8 (ucast (buf ! (p + 1)))) h)"

text \<open>The loops over the sectors: \<open>k\<close> sectors left, \<open>i\<close> the index of the next one.\<close>

primrec read_sectors_loop :: "nat \<Rightarrow> nat \<Rightarrow> u8 list \<Rightarrow> ata_dev \<Rightarrow> bool \<times> u8 list \<times> ata_dev" where
  "read_sectors_loop 0 i buf h = (True, buf, h)"
| "read_sectors_loop (Suc k) i buf h =
     (let (ok, h) = ata_wait_drq h in
      if \<not> ok then (False, buf, h) else
      let (buf, h) = read_words 256 (i * 512) buf h
      in read_sectors_loop k (i + 1) buf (ata_delay h))"

definition ata_read_once :: "u32 \<Rightarrow> u32 \<Rightarrow> u8 list \<Rightarrow> ata_dev \<Rightarrow> bool \<times> u8 list \<times> ata_dev" where
  "ata_read_once lba count buf h =
     (let (ok, h) = ata_prepare lba h in
      if \<not> ok then (False, buf, h) else
      let (ok, buf, h) = read_sectors_loop (unat count) 0 buf (ata_setup lba count 0x20 h) in
      if \<not> ok then (False, buf, h) else
      let (ok, h) = ata_finish h in (ok, buf, h))"

primrec write_sectors_loop :: "nat \<Rightarrow> nat \<Rightarrow> u8 list \<Rightarrow> ata_dev \<Rightarrow> bool \<times> ata_dev" where
  "write_sectors_loop 0 i buf h = (True, h)"
| "write_sectors_loop (Suc k) i buf h =
     (let (ok, h) = ata_wait_drq h in
      if \<not> ok then (False, h) else
      write_sectors_loop k (i + 1) buf (ata_delay (write_words 256 (i * 512) buf h)))"

definition ata_write_once :: "u32 \<Rightarrow> u32 \<Rightarrow> u8 list \<Rightarrow> ata_dev \<Rightarrow> bool \<times> ata_dev" where
  "ata_write_once lba count buf h =
     (let (ok, h) = ata_prepare lba h in
      if \<not> ok then (False, h) else
      let (ok, h) = write_sectors_loop (unat count) 0 buf (ata_setup lba count 0x30 h) in
      if \<not> ok then (False, h) else
      let (ok, h) = ata_finish h in
      if \<not> ok then (False, h) else
      ata_finish (ata_delay (command_out 0xE7 h)))"

text \<open>The loops over the attempts; the first argument is the number of attempts left.\<close>

primrec ata_read_retry :: "nat \<Rightarrow> u32 \<Rightarrow> u32 \<Rightarrow> u8 list \<Rightarrow> ata_dev \<Rightarrow> bool \<times> u8 list \<times> ata_dev" where
  "ata_read_retry 0 lba count buf h = (False, buf, h)"
| "ata_read_retry (Suc k) lba count buf h =
     (let (ok, buf, h) = ata_read_once lba count buf h
      in if ok then (True, buf, h) else ata_read_retry k lba count buf (ata_reset h))"

primrec ata_write_retry :: "nat \<Rightarrow> u32 \<Rightarrow> u32 \<Rightarrow> u8 list \<Rightarrow> ata_dev \<Rightarrow> bool \<times> ata_dev" where
  "ata_write_retry 0 lba count buf h = (False, h)"
| "ata_write_retry (Suc k) lba count buf h =
     (let (ok, h) = ata_write_once lba count buf h
      in if ok then (True, h) else ata_write_retry k lba count buf (ata_reset h))"

definition ata_read_sectors :: "u32 \<Rightarrow> u32 \<Rightarrow> u8 list \<Rightarrow> ata_dev \<Rightarrow> bool \<times> u8 list \<times> ata_dev" where
  "ata_read_sectors lba count buf h =
     (if count = 0 \<or> count > 255 then (False, buf, h) else ata_read_retry ATA_RETRIES lba count buf h)"

definition ata_write_sectors :: "u32 \<Rightarrow> u32 \<Rightarrow> u8 list \<Rightarrow> ata_dev \<Rightarrow> bool \<times> ata_dev" where
  "ata_write_sectors lba count buf h =
     (if count = 0 \<or> count > 255 then (False, h) else ata_write_retry ATA_RETRIES lba count buf h)"

definition ata_read_sector :: "u32 \<Rightarrow> u8 list \<Rightarrow> ata_dev \<Rightarrow> bool \<times> u8 list \<times> ata_dev" where
  "ata_read_sector lba buf h = ata_read_sectors lba 1 buf h"

definition ata_write_sector :: "u32 \<Rightarrow> u8 list \<Rightarrow> ata_dev \<Rightarrow> bool \<times> ata_dev" where
  "ata_write_sector lba buf h = ata_write_sectors lba 1 buf h"

text \<open>The number of sectors, from the answer to the identify command; 0 when there is no drive.\<close>

primrec identify_words :: "nat \<Rightarrow> ata_dev \<Rightarrow> u16 list \<times> ata_dev" where
  "identify_words 0 h = ([], h)"
| "identify_words (Suc k) h =
     (let (w, h) = data_in h; (ws, h) = identify_words k h in (w # ws, h))"

definition ata_total_sectors :: "ata_dev \<Rightarrow> u32 \<times> ata_dev" where
  "ata_total_sectors h =
     (let h = h\<lparr>r_drive_head := 0xA0, ata_clock := ata_clock h + 4, r_seccount := 0,
            r_lba_low := 0, r_lba_mid := 0, r_lba_high := 0\<rparr>;
          (status, h) = status_in (command_out 0xEC h) in
      if status = 0 \<or> status = 0xFF then (0, h) else
      let (ok, h) = ata_wait_bsy h in
      if \<not> ok then (0, h) else
      if fst (ata_signature h) \<noteq> 0 \<or> snd (ata_signature h) \<noteq> 0 then (0, h) else
      let (ok, h) = ata_wait_drq h in
      if \<not> ok then (0, h) else
      let (identify, h) = identify_words 256 h in
      if (identify ! 49) AND 0x200 = 0 then (0, h)
      else (push_bit 16 (ucast (identify ! 61)) OR ucast (identify ! 60), h))"

declare wait_bsy_loop.simps [simp del] wait_drq_loop.simps [simp del] finish_loop.simps [simp del]


section \<open>Addressing\<close>

text \<open>The registers carry the 28-bit address and the count the driver was asked for.\<close>

lemma unat_low_nibble: "unat (w::u8) mod 16 = unat (w AND 15)"
proof -
  have "w AND 15 = take_bit 4 w" by (simp add: take_bit_eq_mask mask_eq_exp_minus_1)
  then have "unat (w AND 15) = take_bit 4 (unat w)" by (simp only: unsigned_take_bit_eq)
  then show ?thesis by (simp add: take_bit_eq_mod)
qed

lemma head_nibble: "unat (ucast (0xE0 OR (drop_bit 24 lba AND 0x0F) :: u32) :: u8) mod 16 = unat lba div 16777216 mod 16"
proof -
  have e: "(15::u8) = mask 4" "(15::u32) = mask 4" by (simp_all add: mask_eq_exp_minus_1)
  have z: "\<not> bit (0xE0::u32) n \<and> \<not> bit (0xE0::u8) n \<and> \<not> bit (0xE0::int) n \<and> \<not> bit (0xE0::nat) n" if "n < 4" for n
  proof -
    have "n = 0 \<or> n = 1 \<or> n = 2 \<or> n = 3" using that by auto
    then show ?thesis by auto
  qed
  have "(ucast (0xE0 OR (drop_bit 24 lba AND 0x0F) :: u32) :: u8) AND 15 = ucast (take_bit 4 (drop_bit 24 lba))"
    unfolding e by (rule bit_word_eqI) (auto simp: bit_simps z)
  moreover have "unat (take_bit 4 (drop_bit 24 lba)) = unat lba div 16777216 mod 16"
    unfolding unsigned_take_bit_eq unat_drop_bit by (simp add: take_bit_eq_mod)
  ultimately show ?thesis
    unfolding unat_low_nibble by (simp add: unat_ucast_u32_u8)
qed

lemma low_byte: "unat (ucast (x AND 0xFF :: u32) :: u8) = unat x mod 256"
proof -
  have "(ucast (x AND 0xFF :: u32) :: u8) = ucast x"
    unfolding mask_literals(1) by (rule bit_word_eqI) (auto simp: bit_simps)
  then show ?thesis by (simp add: unat_ucast_u32_u8)
qed

lemma reg_lba_setup:
  assumes "unat lba < 268435456"
  shows "unat (ucast (lba AND 0xFF) :: u8) + 256 * unat (ucast (drop_bit 8 lba AND 0xFF) :: u8) +
    65536 * unat (ucast (drop_bit 16 lba AND 0xFF) :: u8) +
    16777216 * (unat (ucast (0xE0 OR (drop_bit 24 lba AND 0x0F) :: u32) :: u8) mod 16) = unat (lba::u32)"
proof -
  have "unat lba mod 256 + 256 * (unat lba div 256 mod 256) + 65536 * (unat lba div 65536 mod 256) +
      16777216 * (unat lba div 16777216) = unat lba"
  proof -
    have "x mod 256 + 256 * (x div 256) = x" for x :: nat by simp
    note r = this[of "unat lba"] this[of "unat lba div 256"] this[of "unat lba div 65536"]
    have "unat lba div 256 div 256 = unat lba div 65536" "unat lba div 65536 div 256 = unat lba div 16777216"
      by (simp_all add: div_mult2_eq[symmetric])
    with r show ?thesis by linarith
  qed
  moreover have "unat lba div 16777216 mod 16 = unat lba div 16777216" using assms by simp
  ultimately show ?thesis unfolding head_nibble low_byte unat_drop_bit by simp
qed


section \<open>Waiting\<close>

text \<open>The loops that poll the status end, and only time has passed.\<close>

definition waited :: "ata_dev \<Rightarrow> ata_dev \<Rightarrow> bool" where
  "waited h h' \<longleftrightarrow> (\<exists>t. h' = h\<lparr>ata_clock := t\<rparr>)"

lemma waited_refl: "waited h h"
  unfolding waited_def by (intro exI[of _ "ata_clock h"]) simp

lemma waited_trans: "waited h h1 \<Longrightarrow> waited h1 h' \<Longrightarrow> waited h h'"
  by (auto simp: waited_def)

lemma waited_delay: "waited h (ata_delay h)"
  by (auto simp: waited_def ata_delay_def)

lemma waited_status: "status_in h = (st, h') \<Longrightarrow> waited h h'"
  by (auto simp: waited_def status_in_def)

lemma waited_bsy: "wait_bsy_loop n h = (ok, h') \<Longrightarrow> waited h h'"
proof (induction n h rule: wait_bsy_loop.induct)
  case (1 n h)
  then show ?case
    by (subst (asm) wait_bsy_loop.simps)
      (auto simp: waited_refl split: if_splits prod.splits intro: waited_status waited_trans)
qed

lemma waited_drq: "wait_drq_loop n h = (ok, h') \<Longrightarrow> waited h h'"
proof (induction n h rule: wait_drq_loop.induct)
  case (1 n h)
  then show ?case
    by (subst (asm) wait_drq_loop.simps)
      (auto simp: waited_refl split: if_splits prod.splits intro: waited_status waited_trans)
qed

lemma waited_finish_loop: "finish_loop n h = (ok, h') \<Longrightarrow> waited h h'"
proof (induction n h rule: finish_loop.induct)
  case (1 n h)
  then show ?case
    by (subst (asm) finish_loop.simps)
      (auto simp: waited_refl split: if_splits prod.splits intro: waited_status waited_trans)
qed

lemma waited_finish: "ata_finish h = (ok, h') \<Longrightarrow> waited h h'"
  using waited_trans[OF waited_delay waited_finish_loop] by (simp add: ata_finish_def)

text \<open>Every operation keeps the sectors but the data phase of a write.\<close>

lemma waited_medium: "waited h h' \<Longrightarrow> ata_medium h' = ata_medium h \<and> ata_xfer h' = ata_xfer h \<and> r_drive_head h' = r_drive_head h"
  by (auto simp: waited_def)

lemma reset_medium: "ata_medium (ata_reset h) = ata_medium h"
proof -
  have "waited g (snd (wait_bsy_loop n g))" for g n by (rule waited_bsy[of n g "fst (wait_bsy_loop n g)"]) simp
  from waited_medium[OF this] show ?thesis by (simp add: ata_reset_def ata_wait_bsy_def)
qed


section \<open>The data phase\<close>

lemma byte_word_low: "ucast (byte_word lo hi AND 0xFF) = lo"
proof -
  have m: "(0xFF::u16) = mask 8" by (simp add: mask_eq_exp_minus_1)
  show ?thesis unfolding byte_word_def m
    by (rule bit_word_eqI) (auto simp: bit_simps dest: bit_imp_le_length)
qed

lemma byte_word_high: "ucast (drop_bit 8 (byte_word lo hi) AND 0xFF) = hi"
proof -
  have m: "(0xFF::u16) = mask 8" by (simp add: mask_eq_exp_minus_1)
  show ?thesis unfolding byte_word_def m
    by (rule bit_word_eqI) (auto simp: bit_simps dest: bit_imp_le_length)
qed

lemma byte_word_split: "ucast (byte_word lo hi) = lo" "ucast (drop_bit 8 (byte_word lo hi)) = hi"
  unfolding byte_word_def by (rule bit_word_eqI, auto simp: bit_simps dest: bit_imp_le_length)+

lemma chunk_two: "i + 2 + k \<le> length xs \<Longrightarrow> chunk xs i (2 + k) = xs ! i # xs ! (i + 1) # chunk xs (i + 2) k"
  by (simp add: chunk_def Cons_nth_drop_Suc[symmetric])

lemma update_two: "p + 2 \<le> length buf \<Longrightarrow> buf[p := a, p + 1 := b] = write_at buf p [a, b]"
  by (rule nth_equalityI) (auto simp: nth_write_at nth_list_update nth_Cons')

lemma read_words_spec:
  "\<lbrakk>ata_xfer h = Reading lba n pos; pos mod 256 + k \<le> 256; pos + k \<le> n * 256;
    length (ata_medium h (lba + pos div 256)) = 512; p + 2 * k \<le> length buf\<rbrakk> \<Longrightarrow>
    read_words k p buf h =
      (write_at buf p (chunk (ata_medium h (lba + pos div 256)) (2 * (pos mod 256)) (2 * k)),
       h\<lparr>ata_xfer := Reading lba n (pos + k)\<rparr>)"
proof (induction k arbitrary: p buf h pos)
  case 0
  then show ?case by (simp add: chunk_def)
next
  case (Suc k)
  define sec where "sec = ata_medium h (lba + pos div 256)"
  define j where "j = 2 * (pos mod 256)"
  define h1 where "h1 = h\<lparr>ata_xfer := Reading lba n (pos + 1)\<rparr>"
  have d: "data_in h = (byte_word (sec ! j) (sec ! (j + 1)), h1)"
    using Suc.prems(1,3) by (simp add: data_in_def sec_def j_def h1_def Let_def)
  have b: "buf[p := sec ! j, p + 1 := sec ! (j + 1)] = write_at buf p [sec ! j, sec ! (j + 1)]"
    using Suc.prems(5) by (intro update_two) simp
  let ?buf1 = "write_at buf p [sec ! j, sec ! (j + 1)]"
  have step: "read_words (Suc k) p buf h = read_words k (p + 2) ?buf1 h1"
    unfolding read_words.simps d b[symmetric] by (simp only: Let_def split byte_word_low byte_word_high)
  have len: "length sec = 512" "j + 2 + 2 * k \<le> 512" using Suc.prems(2,4) by (simp_all add: sec_def j_def)
  have ch: "chunk sec j (2 * Suc k) = [sec ! j, sec ! (j + 1)] @ chunk sec (j + 2) (2 * k)"
    using chunk_two[of j "2 * k" sec] len by simp
  show ?case
  proof (cases k)
    case 0
    then show ?thesis using step ch by (simp add: chunk_def h1_def sec_def[symmetric] j_def[symmetric])
  next
    case (Suc k')
    have "(pos + 1) mod 256 = pos mod 256 + 1" "(pos + 1) div 256 = pos div 256"
      using \<open>pos mod 256 + Suc k \<le> 256\<close> Suc by (auto simp: mod_Suc div_Suc)
    then have "read_words k (p + 2) ?buf1 h1 =
        (write_at ?buf1 (p + 2) (chunk sec (j + 2) (2 * k)), h1\<lparr>ata_xfer := Reading lba n (pos + 1 + k)\<rparr>)"
      using Suc.prems len by (subst Suc.IH[of h1 "pos + 1"]) (simp_all add: h1_def sec_def j_def)
    moreover have "write_at ?buf1 (p + 2) (chunk sec (j + 2) (2 * k)) = write_at buf p (chunk sec j (2 * Suc k))"
      unfolding ch using Suc.prems(5) by (intro write_at_adjacent) simp_all
    ultimately show ?thesis using step by (simp add: h1_def sec_def[symmetric] j_def[symmetric])
  qed
qed

lemma read_sector_spec:
  assumes "ata_xfer h = Reading lba n (i * 256)" "i < n" "length (ata_medium h (lba + i)) = 512" "(i + 1) * 512 \<le> length buf"
  shows "read_words 256 (i * 512) buf h =
    (write_at buf (i * 512) (ata_medium h (lba + i)), h\<lparr>ata_xfer := Reading lba n ((i + 1) * 256)\<rparr>)"
proof -
  have "(i + 1) * 256 \<le> n * 256" using assms(2) by (intro mult_le_mono1) simp
  then show ?thesis using assms read_words_spec[of h lba n "i * 256" 256 "i * 512" buf] by simp
qed

lemma write_words_spec:
  "\<lbrakk>ata_xfer h = Writing lba (Suc n) part; length part + 2 * Suc k = 512; p + 2 * Suc k \<le> length buf\<rbrakk> \<Longrightarrow>
    write_words (Suc k) p buf h =
      h\<lparr>ata_medium := (ata_medium h)(lba := part @ chunk buf p (2 * Suc k)), ata_xfer := Writing (lba + 1) n []\<rparr>"
proof (induction k arbitrary: p part h)
  case 0
  then have "chunk buf p 2 = [buf ! p, buf ! (p + 1)]" using chunk_two[of p 0 buf] by (simp add: chunk_def)
  then show ?case
    using 0 by (simp add: data_out_def Let_def byte_word_def[symmetric] byte_word_split fun_upd_def)
next
  case (Suc k)
  define h1 where "h1 = h\<lparr>ata_xfer := Writing lba (Suc n) (part @ [buf ! p, buf ! (p + 1)])\<rparr>"
  have "data_out (byte_word (buf ! p) (buf ! (p + 1))) h = h1"
    using Suc.prems(1,2) by (simp add: data_out_def Let_def byte_word_split h1_def)
  then have "write_words (Suc (Suc k)) p buf h = write_words (Suc k) (p + 2) buf h1"
    by (simp only: write_words.simps(2)[of "Suc k"] byte_word_def[symmetric])
  also have "\<dots> = h1\<lparr>ata_medium := (ata_medium h1)(lba := (part @ [buf ! p, buf ! (p + 1)]) @ chunk buf (p + 2) (2 * Suc k)),
      ata_xfer := Writing (lba + 1) n []\<rparr>"
    using Suc.prems(2,3) by (intro Suc.IH) (simp_all add: h1_def)
  also have "(part @ [buf ! p, buf ! (p + 1)]) @ chunk buf (p + 2) (2 * Suc k) = part @ chunk buf p (2 * Suc (Suc k))"
    using chunk_two[of p "2 * Suc k" buf] Suc.prems(3) by simp
  finally show ?case by (simp add: h1_def)
qed

lemma write_sector_spec:
  assumes "ata_xfer h = Writing lba (Suc n) []" "(i + 1) * 512 \<le> length buf"
  shows "write_words 256 (i * 512) buf h =
    h\<lparr>ata_medium := (ata_medium h)(lba := chunk buf (i * 512) 512), ata_xfer := Writing (lba + 1) n []\<rparr>"
  using write_words_spec[of h lba n "[]" 255 "i * 512" buf] assms by simp


section \<open>The driver is a block device\<close>

lemma waited_wait_drq: "ata_wait_drq h = (ok, h') \<Longrightarrow> waited h h'"
  by (simp add: ata_wait_drq_def waited_drq)

lemma waited_wait_bsy: "ata_wait_bsy h = (ok, h') \<Longrightarrow> waited h h'"
  by (simp add: ata_wait_bsy_def waited_bsy)

lemma read_sectors_loop_spec:
  "\<lbrakk>ata_xfer h = Reading lba n (i * 256); i + k = n; \<And>j. length (ata_medium h j) = 512; n * 512 \<le> length buf;
    take (i * 512) buf = sectors_at (ata_medium h) lba i; read_sectors_loop k i buf h = (ok, buf', h')\<rbrakk> \<Longrightarrow>
    ata_medium h' = ata_medium h \<and> read_ok (ata_medium h) lba n buf ok buf'"
proof (induction k arbitrary: i buf h)
  case 0
  then show ?case by (simp add: read_ok_def)
next
  case (Suc k)
  obtain okd h1 where w: "ata_wait_drq h = (okd, h1)" by fastforce
  have h1: "ata_xfer h1 = Reading lba n (i * 256)" "ata_medium h1 = ata_medium h"
    using waited_medium[OF waited_wait_drq[OF w]] Suc.prems(1) by simp_all
  show ?case
  proof (cases okd)
    case False
    then show ?thesis using Suc.prems(6) w h1 by (simp add: read_ok_refl)
  next
    case True
    let ?sec = "ata_medium h (lba + i)"
    have i: "i < n" "(i + 1) * 512 \<le> n * 512" using Suc.prems(2) by (auto intro: mult_le_mono1)
    have len: "length ?sec = 512" by (rule Suc.prems(3))
    define buf1 where "buf1 = write_at buf (i * 512) ?sec"
    define h2 where "h2 = ata_delay (h1\<lparr>ata_xfer := Reading lba n ((i + 1) * 256)\<rparr>)"
    have "read_words 256 (i * 512) buf h1 = (buf1, h1\<lparr>ata_xfer := Reading lba n ((i + 1) * 256)\<rparr>)"
      using read_sector_spec[OF h1(1) i(1)] i(2) Suc.prems(4) len h1(2) by (simp add: buf1_def)
    then have rest: "read_sectors_loop k (i + 1) buf1 h2 = (ok, buf', h')"
      using Suc.prems(6) w True by (simp add: h2_def)
    have h2: "ata_xfer h2 = Reading lba n ((i + 1) * 256)" "ata_medium h2 = ata_medium h"
      using h1 by (simp_all add: h2_def ata_delay_def)
    have l1: "length buf1 = length buf" using i(2) Suc.prems(4) len by (simp add: buf1_def)
    have "take ((i + 1) * 512) buf1 = take (i * 512) buf @ ?sec"
      using i(2) Suc.prems(4) len by (simp add: buf1_def write_at_def)
    then have t1: "take ((i + 1) * 512) buf1 = sectors_at (ata_medium h) lba (i + 1)"
      using Suc.prems(5) by (simp add: sectors_at_Suc)
    have "drop (n * 512) buf1 = drop (n * 512) buf"
      unfolding buf1_def using i(2) Suc.prems(4) len by (intro drop_write_at_after) simp_all
    moreover have "ata_medium h' = ata_medium h2 \<and> read_ok (ata_medium h2) lba n buf1 ok buf'"
      using Suc.prems(2-4) h2 t1 l1 by (intro Suc.IH[OF h2(1) _ _ _ _ rest]) simp_all
    ultimately show ?thesis using h2(2) l1 by (simp add: read_ok_def)
  qed
qed

lemma write_sectors_loop_spec:
  "\<lbrakk>ata_xfer h = Writing (lba + i) k []; i + k = n; n * 512 \<le> length data;
    ata_medium h = put_sectors m lba i data; write_sectors_loop k i data h = (ok, h')\<rbrakk> \<Longrightarrow>
    write_ok m lba n data ok (ata_medium h')"
proof (induction k arbitrary: i h)
  case 0
  then show ?case by (auto simp: write_ok_def)
next
  case (Suc k)
  obtain okd h1 where w: "ata_wait_drq h = (okd, h1)" by fastforce
  have h1: "ata_xfer h1 = Writing (lba + i) (Suc k) []" "ata_medium h1 = put_sectors m lba i data"
    using waited_medium[OF waited_wait_drq[OF w]] Suc.prems(1,4) by simp_all
  show ?case
  proof (cases okd)
    case False
    then have "ok = False" "h' = h1" using Suc.prems(5) w by simp_all
    then show ?thesis unfolding write_ok_def using h1(2) Suc.prems(2) by (intro exI[of _ i]) simp
  next
    case True
    define h2 where "h2 = ata_delay (write_words 256 (i * 512) data h1)"
    have "(i + 1) * 512 \<le> n * 512" using Suc.prems(2) by (intro mult_le_mono1) simp
    then have "write_words 256 (i * 512) data h1 =
        h1\<lparr>ata_medium := (ata_medium h1)(lba + i := chunk data (i * 512) 512), ata_xfer := Writing (lba + (i + 1)) k []\<rparr>"
      using write_sector_spec[OF h1(1)] Suc.prems(3) by simp
    moreover have "(put_sectors m lba i data)(lba + i := chunk data (i * 512) 512) = put_sectors m lba (i + 1) data"
      by (auto simp: put_sectors_def fun_eq_iff)
    ultimately have "ata_xfer h2 = Writing (lba + (i + 1)) k []" "ata_medium h2 = put_sectors m lba (i + 1) data"
      using h1(2) by (simp_all add: h2_def ata_delay_def)
    moreover have "write_sectors_loop k (i + 1) data h2 = (ok, h')"
      using Suc.prems(5) w True by (simp add: h2_def)
    ultimately show ?thesis using Suc.IH[of h2 "i + 1"] Suc.prems(2,3) by simp
  qed
qed

lemma ata_prepare_spec:
  assumes "ata_prepare lba h = (ok, h')"
  shows "ata_medium h' = ata_medium h \<and> (ok \<longrightarrow> r_drive_head h' = ucast (0xE0 OR (drop_bit 24 lba AND 0x0F)))"
proof -
  have sel: "ata_medium (ata_select lba g) = ata_medium g"
      "r_drive_head (ata_select lba g) = ucast (0xE0 OR (drop_bit 24 lba AND 0x0F))" for g
    by (simp_all add: ata_select_def ata_delay_def)
  show ?thesis
    using assms
    by (auto simp: ata_prepare_def Let_def sel reset_medium split: prod.splits if_splits
        dest!: waited_medium[OF waited_wait_bsy] waited_medium[OF waited_status])
qed

lemma ata_setup_spec:
  assumes "unat lba < 268435456" "count \<noteq> 0" "count \<le> 255" "r_drive_head h = ucast (0xE0 OR (drop_bit 24 lba AND 0x0F))"
  shows "ata_medium (ata_setup lba count c h) = ata_medium h"
    "ata_xfer (ata_setup lba count 0x20 h) = Reading (unat lba) (unat count) 0"
    "ata_xfer (ata_setup lba count 0x30 h) = Writing (unat lba) (unat count) []"
proof -
  have "unat count \<le> 255" using assms(3) by (simp add: word_le_nat_alt)
  then have c: "unat (ucast count :: u8) = unat count" by (simp add: unat_ucast_u32_u8)
  moreover have "unat count \<noteq> 0" using assms(2) by (simp add: unat_eq_0)
  ultimately have "(ucast count :: u8) \<noteq> 0" by (metis unsigned_0)
  with c show "ata_xfer (ata_setup lba count 0x20 h) = Reading (unat lba) (unat count) 0"
      "ata_xfer (ata_setup lba count 0x30 h) = Writing (unat lba) (unat count) []"
    using reg_lba_setup[OF assms(1)]
    by (simp_all add: ata_setup_def ata_delay_def command_out_def reg_count_def reg_lba_def assms(4))
qed (simp add: ata_setup_def ata_delay_def command_out_def)

definition ata_ok :: "ata_dev \<Rightarrow> bool" where
  "ata_ok h \<longleftrightarrow> (\<forall>i. length (ata_medium h i) = 512)"

lemma ata_read_once_spec:
  assumes "ata_ok h" "unat lba < 268435456" "count \<noteq> 0" "count \<le> 255" "unat count * 512 \<le> length buf"
    and r: "ata_read_once lba count buf h = (ok, buf', h')"
  shows "ata_medium h' = ata_medium h \<and> read_ok (ata_medium h) (unat lba) (unat count) buf ok buf'"
proof -
  obtain okp h1 where p: "ata_prepare lba h = (okp, h1)" by fastforce
  note ps = ata_prepare_spec[OF p]
  show ?thesis
  proof (cases okp)
    case False
    then show ?thesis using r p ps by (simp add: ata_read_once_def read_ok_refl)
  next
    case True
    let ?h2 = "ata_setup lba count 0x20 h1"
    have h2: "ata_medium ?h2 = ata_medium h" "ata_xfer ?h2 = Reading (unat lba) (unat count) 0"
      using ata_setup_spec[OF assms(2-4)] ps True by simp_all
    obtain okl buf1 h3 where l: "read_sectors_loop (unat count) 0 buf ?h2 = (okl, buf1, h3)" by (metis prod_cases3)
    have ls: "ata_medium h3 = ata_medium h \<and> read_ok (ata_medium h) (unat lba) (unat count) buf okl buf1"
      using read_sectors_loop_spec[OF _ _ _ assms(5) _ l] h2 assms(1) by (simp add: ata_ok_def)
    show ?thesis
    proof (cases okl)
      case False
      then show ?thesis using r p True l ls by (simp add: ata_read_once_def)
    next
      case okl: True
      obtain okf h4 where f: "ata_finish h3 = (okf, h4)" by fastforce
      then have "ok = okf" "buf' = buf1" "h' = h4" using r p True l okl by (simp_all add: ata_read_once_def)
      then show ?thesis using ls okl waited_medium[OF waited_finish[OF f]] by (auto simp: read_ok_def)
    qed
  qed
qed

lemma ata_write_once_spec:
  assumes "ata_ok h" "unat lba < 268435456" "count \<noteq> 0" "count \<le> 255" "unat count * 512 \<le> length data"
    and r: "ata_write_once lba count data h = (ok, h')"
  shows "write_ok (ata_medium h) (unat lba) (unat count) data ok (ata_medium h')"
proof -
  obtain okp h1 where p: "ata_prepare lba h = (okp, h1)" by fastforce
  note ps = ata_prepare_spec[OF p]
  show ?thesis
  proof (cases okp)
    case False
    then show ?thesis using r p ps by (simp add: ata_write_once_def write_ok_refl)
  next
    case True
    let ?h2 = "ata_setup lba count 0x30 h1"
    have h2: "ata_medium ?h2 = ata_medium h" "ata_xfer ?h2 = Writing (unat lba) (unat count) []"
      using ata_setup_spec[OF assms(2-4)] ps True by simp_all
    obtain okl h3 where l: "write_sectors_loop (unat count) 0 data ?h2 = (okl, h3)" by fastforce
    have ls: "write_ok (ata_medium h) (unat lba) (unat count) data okl (ata_medium h3)"
      using write_sectors_loop_spec[OF _ _ assms(5) _ l] h2 by simp
    have fin: "ata_medium h4 = ata_medium h3" if "ata_finish h3 = (okf, h4)" for okf h4
      using waited_medium[OF waited_finish[OF that]] by simp
    have fin2: "ata_medium h5 = ata_medium h4" if "ata_finish (ata_delay (command_out c h4)) = (okf, h5)" for okf h4 h5 c
      using waited_medium[OF waited_finish[OF that]] by (simp add: ata_delay_def command_out_def)
    have "ata_medium h' = ata_medium h3 \<and> (ok \<longrightarrow> okl)"
      using r p True l by (auto simp: ata_write_once_def Let_def split: prod.splits if_splits dest!: fin fin2)
    then show ?thesis using ls by (auto simp: write_ok_def)
  qed
qed

lemma ata_read_retry_spec:
  "\<lbrakk>ata_ok h; unat lba < 268435456; count \<noteq> 0; count \<le> 255; unat count * 512 \<le> length buf;
    ata_read_retry k lba count buf h = (ok, buf', h')\<rbrakk> \<Longrightarrow>
    ata_medium h' = ata_medium h \<and> read_ok (ata_medium h) (unat lba) (unat count) buf ok buf'"
proof (induction k arbitrary: buf h)
  case 0
  then show ?case by (simp add: read_ok_refl)
next
  case (Suc k)
  obtain ok1 buf1 h1 where o: "ata_read_once lba count buf h = (ok1, buf1, h1)" by (metis prod_cases3)
  have s: "ata_medium h1 = ata_medium h" "read_ok (ata_medium h) (unat lba) (unat count) buf ok1 buf1"
    using ata_read_once_spec[OF Suc.prems(1-5) o] by simp_all
  show ?case
  proof (cases ok1)
    case True
    then show ?thesis using Suc.prems(6) o s by simp
  next
    case False
    then have "ata_read_retry k lba count buf1 (ata_reset h1) = (ok, buf', h')" using Suc.prems(6) o by simp
    then have "ata_medium h' = ata_medium h \<and> read_ok (ata_medium h) (unat lba) (unat count) buf1 ok buf'"
      using Suc.IH[of "ata_reset h1" buf1] Suc.prems(1-5) s by (simp add: ata_ok_def reset_medium read_ok_def)
    moreover have "read_ok (ata_medium h) (unat lba) (unat count) buf False buf1" using s(2) False by simp
    ultimately show ?thesis using read_ok_retry by blast
  qed
qed

lemma ata_write_retry_spec:
  "\<lbrakk>ata_ok h; unat lba < 268435456; count \<noteq> 0; count \<le> 255; unat count * 512 \<le> length data;
    ata_write_retry k lba count data h = (ok, h')\<rbrakk> \<Longrightarrow>
    write_ok (ata_medium h) (unat lba) (unat count) data ok (ata_medium h')"
proof (induction k arbitrary: h)
  case 0
  then show ?case by (simp add: write_ok_refl)
next
  case (Suc k)
  obtain ok1 h1 where o: "ata_write_once lba count data h = (ok1, h1)" by fastforce
  have s: "write_ok (ata_medium h) (unat lba) (unat count) data ok1 (ata_medium h1)"
    using ata_write_once_spec[OF Suc.prems(1-5) o] .
  show ?case
  proof (cases ok1)
    case True
    then show ?thesis using Suc.prems(6) o s by simp
  next
    case False
    have "ata_ok (ata_reset h1)"
      using write_ok_length[OF s _ Suc.prems(5)] Suc.prems(1) by (simp add: ata_ok_def reset_medium)
    then have "write_ok (ata_medium h1) (unat lba) (unat count) data ok (ata_medium h')"
      using Suc.IH[of "ata_reset h1"] Suc.prems(2-6) False o by (simp add: reset_medium)
    moreover have "write_ok (ata_medium h) (unat lba) (unat count) data False (ata_medium h1)" using s False by simp
    ultimately show ?thesis using write_ok_retry by blast
  qed
qed

text \<open>The addresses a 28-bit drive can tell apart.\<close>

definition ata_cap :: "ata_dev \<Rightarrow> nat" where
  "ata_cap h = 268435456"

interpretation ad: block_device
  "\<lambda>lba n. ata_read_sectors (of_nat lba) (of_nat n)" "\<lambda>lba n. ata_write_sectors (of_nat lba) (of_nat n)"
  ata_medium ata_cap ata_ok
proof
  fix d d' :: ata_dev and lba n buf buf' data ok
  show "length (ata_medium d i) = 512" if "ata_ok d" for i using that by (simp add: ata_ok_def)
  assume wf: "ata_ok d" and b: "lba + n \<le> ata_cap d"
  have l: "unat (of_nat n :: u32) = n" using b by (intro unat_of_nat_u32) (simp add: ata_cap_def)
  have u: "unat (of_nat lba :: u32) = lba" using b by (intro unat_of_nat_u32) (simp add: ata_cap_def)
  have small: "unat (of_nat lba :: u32) < 268435456" if "(of_nat n :: u32) \<noteq> 0"
    using b u that by (cases n) (simp_all add: ata_cap_def)
  { assume len: "n * 512 \<le> length buf" and r: "ata_read_sectors (of_nat lba) (of_nat n) buf d = (ok, buf', d')"
    have "ata_medium d' = ata_medium d \<and> read_ok (ata_medium d) lba n buf ok buf'"
    proof (cases "(of_nat n :: u32) = 0 \<or> (of_nat n :: u32) > 255")
      case True
      then show ?thesis using r by (auto simp: ata_read_sectors_def read_ok_refl)
    next
      case False
      then show ?thesis
        using ata_read_retry_spec[OF wf small, of "of_nat n" buf 3 ok buf' d'] r len l u
        by (auto simp: ata_read_sectors_def)
    qed
    then show "ata_ok d' \<and> ata_cap d' = ata_cap d \<and> ata_medium d' = ata_medium d \<and> read_ok (ata_medium d) lba n buf ok buf'"
      using wf by (simp add: ata_ok_def ata_cap_def) }
  { assume len: "n * 512 \<le> length data" and r: "ata_write_sectors (of_nat lba) (of_nat n) data d = (ok, d')"
    have w: "write_ok (ata_medium d) lba n data ok (ata_medium d')"
    proof (cases "(of_nat n :: u32) = 0 \<or> (of_nat n :: u32) > 255")
      case True
      then show ?thesis using r by (auto simp: ata_write_sectors_def write_ok_refl)
    next
      case False
      then show ?thesis
        using ata_write_retry_spec[OF wf small, of "of_nat n" data 3 ok d'] r len l u
        by (auto simp: ata_write_sectors_def)
    qed
    then show "ata_ok d' \<and> ata_cap d' = ata_cap d \<and> write_ok (ata_medium d) lba n data ok (ata_medium d')"
      using write_ok_length[OF w _ len] wf by (simp add: ata_ok_def ata_cap_def) }
qed

end
