(* ===== verification/Nvme.thy ===== *)
theory Nvme
  imports Block_Device Pci
begin

text \<open>
  The NVMe driver, \<open>drivers/nvme.c\<close>: submission and completion rings with a phase bit, identification
  of the namespace, and transfers through a bounce buffer with read-modify-write when a request does
  not cover whole blocks.

  The controller is the record \<open>nvme_hw\<close>, behaving as the NVMe standard describes: a doorbell makes it
  take the next command of the submission ring, move the data through the pages the command names and
  append an entry to the completion ring.  What it answers to its \<open>t\<close>-th command is arbitrary:
  \<open>answers t\<close> says how many blocks are moved and which status and identifier come back, if any.
\<close>

section \<open>The controller\<close>

record nvme_command =
  cdw0 :: u32
  nsid :: u32
  prp1 :: u32
  prp2 :: u32
  cdw10 :: u32
  cdw11 :: u32
  cdw12 :: u32

record nvme_completion =
  cpl_id :: u16
  cpl_status :: u16

text \<open>A pair of rings: the driver's indices and, with \<open>dv_\<close>, the controller's.\<close>

record queue =
  sq :: "nvme_command list"
  cq :: "nvme_completion list"
  sq_doorbell :: u32
  cq_doorbell :: u32
  sq_tail :: nat
  cq_head :: nat
  phase :: nat
  dv_sq_head :: nat
  dv_cq_tail :: nat
  dv_phase :: nat

text \<open>An answer: blocks moved by a failing command, and the status and identifier returned, if any.\<close>

type_synonym nvme_answer = "nat \<times> (u16 \<times> u16) option"

record nvme_hw =
  ns_medium :: "nat \<Rightarrow> u8 list"
  ns_diff :: nat   \<comment> \<open>a block holds \<open>2 ^ ns_diff\<close> sectors\<close>
  answers :: "nat \<Rightarrow> nvme_answer"
  served :: nat
  identify_pages :: "u32 \<Rightarrow> u8 list"
  cap_low_reg :: u32
  cap_high_reg :: u32
  csts :: "nat \<Rightarrow> u32"   \<comment> \<open>the status register at the \<open>t\<close>-th read\<close>
  csts_clock :: nat
  reg_log :: "(u32 \<times> u32) list"   \<comment> \<open>register writes, latest first\<close>
  config :: config_space

datatype nvme_state = STATE_UNTRIED | STATE_READY | STATE_FAILED

record nvme =
  admin :: queue
  io :: queue
  nv_state :: nvme_state
  regs_base :: u32
  doorbell_stride :: u32
  ready_timeout :: nat
  command_id :: u32
  lba_shift :: nat
  max_transfer :: nat
  nv_total :: nat
  identify_buf :: "u8 list"
  prp_list :: "u32 list"
  bounce :: "u8 list"
  identify_addr :: u32   \<comment> \<open>where the linker has put the buffers\<close>
  prp_addr :: u32
  bounce_addr :: u32
  admin_sq_addr :: u32
  admin_cq_addr :: u32
  io_sq_addr :: u32
  io_cq_addr :: u32
  hw :: nvme_hw

abbreviation PAGE_SIZE :: nat where "PAGE_SIZE \<equiv> 4096"
abbreviation QUEUE_ENTRIES :: nat where "QUEUE_ENTRIES \<equiv> 64"
abbreviation BOUNCE_SIZE :: nat where "BOUNCE_SIZE \<equiv> 65536"
abbreviation MAX_SECTORS :: nat where "MAX_SECTORS \<equiv> 268435455"
abbreviation IO_FLUSH :: u32 where "IO_FLUSH \<equiv> 0"
abbreviation IO_WRITE :: u32 where "IO_WRITE \<equiv> 1"
abbreviation IO_READ :: u32 where "IO_READ \<equiv> 2"

text \<open>The pages of a transfer of \<open>n\<close> bytes, as the controller finds them from the command.\<close>

definition pages_for :: "nat \<Rightarrow> nat" where
  "pages_for n = (n + PAGE_SIZE - 1) div PAGE_SIZE"

definition dma_pages :: "nvme \<Rightarrow> nvme_command \<Rightarrow> nat \<Rightarrow> u32 list" where
  "dma_pages s cmd n =
     (let pages = pages_for n in
      if pages \<le> 1 then [prp1 cmd]
      else if pages = 2 then [prp1 cmd, prp2 cmd]
      else if prp2 cmd = prp_addr s then prp1 cmd # map (\<lambda>i. prp_list s ! (2 * i)) [0..<pages - 1]
      else [])"

definition dma_from :: "nvme \<Rightarrow> u32 list \<Rightarrow> u8 list" where
  "dma_from s pages = concat (map (\<lambda>a. chunk (bounce s) (unat (a - bounce_addr s)) PAGE_SIZE) pages)"

fun dma_into :: "u32 \<Rightarrow> u32 list \<Rightarrow> u8 list \<Rightarrow> u8 list \<Rightarrow> u8 list" where
  "dma_into base [] data buf = buf"
| "dma_into base (a # pages) data buf =
     dma_into base pages (drop PAGE_SIZE data) (write_at buf (unat (a - base)) (take PAGE_SIZE data))"

text \<open>The effect of a command on data, when \<open>k\<close> blocks of it are moved.\<close>

definition perform_io :: "nvme_command \<Rightarrow> nat \<Rightarrow> nvme \<Rightarrow> nvme" where
  "perform_io cmd k s =
     (let d = ns_diff (hw s); blocks = unat (cdw12 cmd) + 1; n = min k blocks;
          pages = dma_pages s cmd (blocks * 2 ^ d * 512); lba = unat (cdw10 cmd) * 2 ^ d;
          opcode = cdw0 cmd AND 0xFF
      in if opcode = IO_READ then s\<lparr>bounce := dma_into (bounce_addr s) pages (sectors_at (ns_medium (hw s)) lba (n * 2 ^ d)) (bounce s)\<rparr>
      else if opcode = IO_WRITE then
        s\<lparr>hw := (hw s)\<lparr>ns_medium := put_sectors (ns_medium (hw s)) lba (n * 2 ^ d) (dma_from s pages)\<rparr>\<rparr>
      else s)"

definition perform_admin :: "nvme_command \<Rightarrow> nvme \<Rightarrow> nvme" where
  "perform_admin cmd s =
     (if cdw0 cmd AND 0xFF = 0x06 \<and> prp1 cmd = identify_addr s
      then s\<lparr>identify_buf := identify_pages (hw s) (cdw10 cmd)\<rparr> else s)"

text \<open>
  The doorbell of a ring: the controller serves the next command of the ring \<open>q\<close>.  A status of 0 is
  returned only when all blocks have been moved.
\<close>

definition serve :: "(nvme_command \<Rightarrow> nat \<Rightarrow> nvme \<Rightarrow> nvme) \<Rightarrow> queue \<Rightarrow> nvme \<Rightarrow> queue \<times> nvme" where
  "serve perform q s =
     (if dv_sq_head q = sq_tail q then (q, s)
      else
        let cmd = sq q ! dv_sq_head q;
            (k, answer) = answers (hw s) (served (hw s));
            s = s\<lparr>hw := (hw s)\<lparr>served := served (hw s) + 1\<rparr>\<rparr>;
            q = q\<lparr>dv_sq_head := (dv_sq_head q + 1) mod QUEUE_ENTRIES\<rparr>
        in case answer of
          None \<Rightarrow> (q, perform cmd k s)
        | Some (status, cid) \<Rightarrow>
            (q\<lparr>cq := (cq q)[dv_cq_tail q := \<lparr>cpl_id = cid, cpl_status = push_bit 1 status OR of_nat (dv_phase q)\<rparr>],
               dv_cq_tail := (dv_cq_tail q + 1) mod QUEUE_ENTRIES,
               dv_phase := (if dv_cq_tail q + 1 = QUEUE_ENTRIES then 1 - dv_phase q else dv_phase q)\<rparr>,
             perform cmd (if drop_bit 1 (push_bit 1 status) = 0 then unat (cdw12 cmd) + 1 else k) s))"


section \<open>The driver\<close>

definition reg_read_csts :: "nvme \<Rightarrow> u32 \<times> nvme" where
  "reg_read_csts s = (csts (hw s) (csts_clock (hw s)), s\<lparr>hw := (hw s)\<lparr>csts_clock := csts_clock (hw s) + 1\<rparr>\<rparr>)"

definition reg_write :: "u32 \<Rightarrow> u32 \<Rightarrow> nvme \<Rightarrow> nvme" where
  "reg_write offset v s = s\<lparr>hw := (hw s)\<lparr>reg_log := (offset, v) # reg_log (hw s)\<rparr>\<rparr>"

definition nvme_load_u32 :: "nvme \<Rightarrow> nat \<Rightarrow> u32" where
  "nvme_load_u32 s offset =
     ucast (identify_buf s ! offset) OR push_bit 8 (ucast (identify_buf s ! (offset + 1))) OR
     push_bit 16 (ucast (identify_buf s ! (offset + 2))) OR push_bit 24 (ucast (identify_buf s ! (offset + 3)))"

definition doorbell :: "nvme \<Rightarrow> u32 \<Rightarrow> u32 \<Rightarrow> u32" where
  "doorbell s queue_id completion = 0x1000 + (queue_id * 2 + completion) * doorbell_stride s"

definition empty_command :: nvme_command where
  "empty_command = \<lparr>cdw0 = 0, nsid = 0, prp1 = 0, prp2 = 0, cdw10 = 0, cdw11 = 0, cdw12 = 0\<rparr>"

definition queue_setup :: "u32 \<Rightarrow> nvme \<Rightarrow> queue" where
  "queue_setup queue_id s =
     \<lparr>sq = replicate QUEUE_ENTRIES empty_command, cq = replicate QUEUE_ENTRIES \<lparr>cpl_id = 0, cpl_status = 0\<rparr>,
      sq_doorbell = doorbell s queue_id 0, cq_doorbell = doorbell s queue_id 1,
      sq_tail = 0, cq_head = 0, phase = 1, dv_sq_head = 0, dv_cq_tail = 0, dv_phase = 1\<rparr>"

fun wait_ready_loop :: "nat \<Rightarrow> u32 \<Rightarrow> nvme \<Rightarrow> bool \<times> nvme" where
  "wait_ready_loop timeout expected s =
     (if timeout = 0 then (False, s)
      else let (status, s) = reg_read_csts s
        in if expected \<noteq> 0 \<and> status AND 2 \<noteq> 0 then (False, s)
        else if status AND 1 = expected then (True, s)
        else wait_ready_loop (timeout - 1) expected s)"

definition wait_ready :: "u32 \<Rightarrow> nvme \<Rightarrow> bool \<times> nvme" where
  "wait_ready expected s = wait_ready_loop (ready_timeout s) expected s"

text \<open>
  Submitting a command.  The controller has answered, or never will, when the driver looks at the
  completion ring; the polling loop then ends at once or with the time-out.
\<close>

definition submit :: "nvme_command \<Rightarrow> queue \<Rightarrow> queue" where
  "submit cmd q = q\<lparr>sq := (sq q)[sq_tail q := cmd], sq_tail := (sq_tail q + 1) mod QUEUE_ENTRIES\<rparr>"

definition consume :: "queue \<Rightarrow> queue" where
  "consume q = (let h = (cq_head q + 1) mod QUEUE_ENTRIES
     in q\<lparr>cq_head := h, phase := (if h = 0 then 1 - phase q else phase q)\<rparr>)"

definition execute :: "(nvme_command \<Rightarrow> nat \<Rightarrow> nvme \<Rightarrow> nvme) \<Rightarrow> queue \<Rightarrow> nvme_command \<Rightarrow> nvme \<Rightarrow> bool \<times> queue \<times> nvme" where
  "execute perform q cmd s =
     (let cid = command_id s AND 0xFFFF;
          s = s\<lparr>command_id := command_id s + 1\<rparr>;
          cmd = cmd\<lparr>cdw0 := (cdw0 cmd AND 0xFFFF) OR push_bit 16 cid\<rparr>;
          q = submit cmd q;
          s = reg_write (sq_doorbell q) (of_nat (sq_tail q)) s;
          (q, s) = serve perform q s;
          entry = cq q ! cq_head q
      in if unat (cpl_status entry AND 1) \<noteq> phase q then (False, q, s\<lparr>nv_state := STATE_FAILED\<rparr>)
      else let q = consume q; s = reg_write (cq_doorbell q) (of_nat (cq_head q)) s
        in (\<not> (ucast (cpl_id entry) \<noteq> cid \<or> drop_bit 1 (cpl_status entry) \<noteq> 0), q, s))"

definition execute_admin :: "nvme_command \<Rightarrow> nvme \<Rightarrow> bool \<times> nvme" where
  "execute_admin cmd s =
     (let (ok, q, s) = execute (\<lambda>cmd _. perform_admin cmd) (admin s) cmd s in (ok, s\<lparr>admin := q\<rparr>))"

definition execute_io :: "nvme_command \<Rightarrow> nvme \<Rightarrow> bool \<times> nvme" where
  "execute_io cmd s = (let (ok, q, s) = execute perform_io (io s) cmd s in (ok, s\<lparr>io := q\<rparr>))"

definition identify :: "u32 \<Rightarrow> u32 \<Rightarrow> nvme \<Rightarrow> bool \<times> nvme" where
  "identify cns ns s =
     execute_admin (empty_command\<lparr>cdw0 := 0x06, nsid := ns, prp1 := identify_addr s, cdw10 := cns\<rparr>)
       (s\<lparr>identify_buf := replicate PAGE_SIZE 0\<rparr>)"

definition create_io_queues :: "nvme \<Rightarrow> bool \<times> nvme" where
  "create_io_queues s =
     (let s = s\<lparr>io := queue_setup 1 s\<rparr>;
          (ok, s) = execute_admin (empty_command\<lparr>cdw0 := 0x05, prp1 := io_cq_addr s, cdw10 := push_bit 16 63 OR 1, cdw11 := 1\<rparr>) s
      in if \<not> ok then (False, s)
      else execute_admin (empty_command\<lparr>cdw0 := 0x01, prp1 := io_sq_addr s, cdw10 := push_bit 16 63 OR 1,
             cdw11 := push_bit 16 1 OR 1\<rparr>) s)"

definition read_namespace :: "nvme \<Rightarrow> bool \<times> nvme" where
  "read_namespace s =
     (let (ok, s) = identify 0 1 s in
      if \<not> ok then (False, s) else
      let nsze_low = nvme_load_u32 s 0;
          nsze_high = nvme_load_u32 s 4;
          flbas = (ucast (identify_buf s ! 26) :: u32);
          format = flbas AND 0x0F;
          format = (if identify_buf s ! 25 > 15 then format OR push_bit 4 (drop_bit 5 flbas AND 3) else format)
      in if flbas AND 0x10 \<noteq> 0 \<or> (nsze_low = 0 \<and> nsze_high = 0) then (False, s)
      else let lbads = unat (drop_bit 16 (nvme_load_u32 s (128 + unat format * 4)) AND 0xFF)
        in if lbads < 9 \<or> lbads > 12 then (False, s)
        else let diff = lbads - 9
          in (True, s\<lparr>lba_shift := lbads,
               nv_total := (if nsze_high \<noteq> 0 \<or> unat nsze_low > MAX_SECTORS div 2 ^ diff then MAX_SECTORS
                 else unat nsze_low * 2 ^ diff)\<rparr>))"

text \<open>Bringing the controller up, from the reset on; then all of it.\<close>

definition controller_enable :: "nvme \<Rightarrow> bool \<times> nvme" where
  "controller_enable s =
     (let (ok, s) = wait_ready 0 (reg_write 0x14 0 s) in
      if \<not> ok then (False, s) else
      let s = reg_write 0x0C 0xFFFFFFFF s;
          s = s\<lparr>admin := queue_setup 0 s\<rparr>;
          s = reg_write 0x24 (push_bit 16 63 OR 63) s;
          s = reg_write 0x28 (admin_sq_addr s) s;
          s = reg_write 0x2C 0 s;
          s = reg_write 0x30 (admin_cq_addr s) s;
          s = reg_write 0x34 0 s;
          s = reg_write 0x14 (1 OR push_bit 16 6 OR push_bit 20 4) s
      in wait_ready 1 s)"

definition controller_setup :: "nvme \<Rightarrow> bool \<times> nvme" where
  "controller_setup s =
     (let cap_low = cap_low_reg (hw s);
          cap_high = cap_high_reg (hw s) in
      if (cap_low AND 0xFFFF) + 1 < 64 then (False, s)
      else if cap_high AND 0x20 = 0 \<or> drop_bit 16 cap_high AND 0x0F \<noteq> 0 then (False, s)
      else
        let s = s\<lparr>doorbell_stride := push_bit (unat (cap_high AND 0x0F)) 4,
              ready_timeout := (unat (drop_bit 24 cap_low AND 0xFF) + 1) * 500000\<rparr>;
            (ok, s) = controller_enable s in
        if \<not> ok then (False, s)
        else
          let (ok, s) = identify 1 0 s in
          if \<not> ok then (False, s)
          else
            let mdts = unat (identify_buf s ! 77);
                s = s\<lparr>max_transfer := (if mdts \<noteq> 0 \<and> mdts < 4 then PAGE_SIZE * 2 ^ mdts else BOUNCE_SIZE)\<rparr>;
                (ok, s) = read_namespace s in
            if \<not> ok then (False, s) else create_io_queues s)"

definition controller_init :: "nvme \<Rightarrow> bool \<times> nvme" where
  "controller_init s =
     (let cs = config (hw s) in
      case pci_find_class 0x01 0x08 0x02 cs of
        None \<Rightarrow> (False, s)
      | Some dev \<Rightarrow>
          let bar0 = pci_read32 dev PCI_REG_BAR0 cs in
          if bar0 AND 1 \<noteq> 0 then (False, s)
          else if drop_bit 1 bar0 AND 3 = 2 \<and> pci_read32 dev PCI_REG_BAR1 cs \<noteq> 0 then (False, s)
          else
            let s = s\<lparr>regs_base := bar0 AND 0xFFFFFFF0\<rparr> in
            if regs_base s = 0 then (False, s)
            else controller_setup (s\<lparr>hw := (hw s)\<lparr>config := pci_enable dev 0x0406 cs\<rparr>\<rparr>))"

text \<open>The loop that fills the page list with the pages after the first; \<open>k\<close> pages are left.\<close>

primrec prp_loop :: "nat \<Rightarrow> nat \<Rightarrow> u32 \<Rightarrow> u32 list \<Rightarrow> u32 list" where
  "prp_loop 0 i base prp = prp"
| "prp_loop (Suc k) i base prp =
     prp_loop k (i + 1) base (prp[(i - 1) * 2 := base + of_nat (i * PAGE_SIZE), (i - 1) * 2 + 1 := 0])"

definition run_io :: "u32 \<Rightarrow> nat \<Rightarrow> nat \<Rightarrow> nvme \<Rightarrow> bool \<times> nvme" where
  "run_io opcode block blocks s =
     (let pages = pages_for (blocks * 2 ^ lba_shift s);
          s = (if pages > 2 then s\<lparr>prp_list := prp_loop (pages - 1) 1 (bounce_addr s) (prp_list s)\<rparr> else s)
      in execute_io
           (empty_command\<lparr>cdw0 := opcode, nsid := 1, prp1 := bounce_addr s,
              prp2 := (if pages = 2 then bounce_addr s + of_nat PAGE_SIZE else if pages > 2 then prp_addr s else 0),
              cdw10 := of_nat block, cdw11 := 0, cdw12 := of_nat (blocks - 1)\<rparr>) s)"

definition nvme_flush :: "nvme \<Rightarrow> bool \<times> nvme" where
  "nvme_flush s = execute_io (empty_command\<lparr>cdw0 := IO_FLUSH, nsid := 1\<rparr>) s"

text \<open>
  One round of \<open>transfer\<close>: the block it starts in, the offset in it, the number of blocks of the
  command and the sectors of the request it covers.
\<close>

definition plan :: "nvme \<Rightarrow> nat \<Rightarrow> nat \<Rightarrow> nat \<times> nat \<times> nat \<times> nat" where
  "plan s lba count =
     (let diff = lba_shift s - 9;
          per_block = 2 ^ diff;
          max_blocks = max_transfer s div 2 ^ lba_shift s;
          block = lba div per_block;
          offset = lba mod per_block;
          blocks = (offset + count + per_block - 1) div per_block;
          blocks = (if blocks > max_blocks then max_blocks else blocks);
          span = blocks * per_block - offset;
          span = (if span > count then count else span)
      in (block, offset, blocks, span))"

definition nvme_read_round :: "nat \<Rightarrow> nat \<Rightarrow> nat \<Rightarrow> u8 list \<Rightarrow> nvme \<Rightarrow> bool \<times> u8 list \<times> nvme" where
  "nvme_read_round lba count p buf s =
     (let (block, offset, blocks, span) = plan s lba count;
          (ok, s) = run_io IO_READ block blocks s
      in if \<not> ok then (False, buf, s)
      else (True, write_at buf p (chunk (bounce s) (offset * 512) (span * 512)), s))"

definition nvme_write_round :: "nat \<Rightarrow> nat \<Rightarrow> u8 list \<Rightarrow> nvme \<Rightarrow> bool \<times> nvme" where
  "nvme_write_round lba count data s =
     (let (block, offset, blocks, span) = plan s lba count;
          part = (offset \<noteq> 0 \<or> span \<noteq> blocks * 2 ^ (lba_shift s - 9));
          (ok, s) = (if part then run_io IO_READ block blocks s else (True, s))
      in if \<not> ok then (False, s)
      else run_io IO_WRITE block blocks (s\<lparr>bounce := write_at (bounce s) (offset * 512) (take (span * 512) data)\<rparr>))"

text \<open>
  The loop of \<open>transfer\<close>, once for each direction.  Every round covers at least one sector, so
  \<open>count\<close> rounds are enough; the first argument counts the rounds left.
\<close>

fun transfer_read :: "nat \<Rightarrow> nat \<Rightarrow> nat \<Rightarrow> nat \<Rightarrow> u8 list \<Rightarrow> nvme \<Rightarrow> bool \<times> u8 list \<times> nvme" where
  "transfer_read rounds lba count p buf s =
     (if count = 0 then (True, buf, s)
      else case rounds of
        0 \<Rightarrow> (False, buf, s)
      | Suc rounds \<Rightarrow>
          let span = snd (snd (snd (plan s lba count)));
              (ok, buf, s) = nvme_read_round lba count p buf s
          in if \<not> ok then (False, buf, s)
          else transfer_read rounds (lba + span) (count - span) (p + span * 512) buf s)"

fun transfer_write :: "nat \<Rightarrow> nat \<Rightarrow> nat \<Rightarrow> u8 list \<Rightarrow> nvme \<Rightarrow> bool \<times> nvme" where
  "transfer_write rounds lba count data s =
     (if count = 0 then (True, s)
      else case rounds of
        0 \<Rightarrow> (False, s)
      | Suc rounds \<Rightarrow>
          let span = snd (snd (snd (plan s lba count)));
              (ok, s) = nvme_write_round lba count data s
          in if \<not> ok then (False, s)
          else transfer_write rounds (lba + span) (count - span) (drop (span * 512) data) s)"

definition out_of_range :: "nvme \<Rightarrow> nat \<Rightarrow> nat \<Rightarrow> bool" where
  "out_of_range s lba count \<longleftrightarrow> count = 0 \<or> lba \<ge> nv_total s \<or> count > nv_total s - lba"

definition nvme_total_sectors :: "nvme \<Rightarrow> nat \<times> nvme" where
  "nvme_total_sectors s =
     (let s = (if nv_state s = STATE_UNTRIED
               then let (ok, s) = controller_init s in s\<lparr>nv_state := (if ok then STATE_READY else STATE_FAILED)\<rparr> else s)
      in (if nv_state s = STATE_READY then nv_total s else 0, s))"

definition nvme_read_sectors :: "u32 \<Rightarrow> u32 \<Rightarrow> u8 list \<Rightarrow> nvme \<Rightarrow> bool \<times> u8 list \<times> nvme" where
  "nvme_read_sectors lba count buf s =
     (let (n, s) = nvme_total_sectors s in
      if n = 0 \<or> out_of_range s (unat lba) (unat count) then (False, buf, s)
      else transfer_read (unat count) (unat lba) (unat count) 0 buf s)"

definition nvme_write_sectors :: "u32 \<Rightarrow> u32 \<Rightarrow> u8 list \<Rightarrow> nvme \<Rightarrow> bool \<times> nvme" where
  "nvme_write_sectors lba count data s =
     (let (n, s) = nvme_total_sectors s in
      if n = 0 \<or> out_of_range s (unat lba) (unat count) then (False, s)
      else let (ok, s) = transfer_write (unat count) (unat lba) (unat count) data s
        in if \<not> ok then (False, s) else nvme_flush s)"

declare transfer_read.simps [simp del] transfer_write.simps [simp del] wait_ready_loop.simps [simp del]


section \<open>The rings\<close>

text \<open>
  Driver and controller agree on their places, and the phase bit of a completion entry tells whether
  it has been written since the driver last passed it: the entries before the head carry the current
  phase, the others the opposite one.
\<close>

definition ring :: "queue \<Rightarrow> bool" where
  "ring q \<longleftrightarrow> length (sq q) = 64 \<and> length (cq q) = 64 \<and> sq_tail q < 64 \<and> cq_head q < 64 \<and> phase q \<le> 1 \<and>
     dv_sq_head q = sq_tail q \<and> dv_cq_tail q = cq_head q \<and> dv_phase q = phase q \<and>
     (\<forall>i < 64. unat (cpl_status (cq q ! i) AND 1) = (if i < cq_head q then phase q else 1 - phase q))"

lemma ring_setup: "ring (queue_setup i s)"
  by (simp add: ring_def queue_setup_def)

lemma phase_bit: "p \<le> 1 \<Longrightarrow> unat ((push_bit 1 status OR of_nat p :: u16) AND 1) = p"
proof -
  assume "p \<le> 1"
  then have "p = 0 \<or> p = 1" by auto
  moreover have "(push_bit 1 status OR of_nat p :: u16) AND 1 = of_nat p AND 1"
    by (rule bit_word_eqI) (auto simp: bit_simps bit_0)
  ultimately show ?thesis by auto
qed

lemma drop_phase: "p \<le> 1 \<Longrightarrow> drop_bit 1 (push_bit 1 status OR of_nat p :: u16) = drop_bit 1 (push_bit 1 status)"
proof -
  assume "p \<le> 1"
  then have "p = 0 \<or> p = 1" by auto
  then show ?thesis by (auto intro!: bit_word_eqI simp: bit_simps)
qed

text \<open>What \<open>execute\<close> changes besides the ring: the data the command moves, and bookkeeping.\<close>

definition core :: "nvme \<Rightarrow> (nat \<Rightarrow> u8 list) \<times> nat \<times> u8 list \<times> u32 list \<times> u32 \<times> u32 \<times> nat \<times> nat \<times> nat" where
  "core s = (ns_medium (hw s), ns_diff (hw s), bounce s, prp_list s, prp_addr s, bounce_addr s, lba_shift s, max_transfer s, nv_total s)"

lemma perform_io_core: "core s = core s' \<Longrightarrow> core (perform_io cmd k s) = core (perform_io cmd k s')"
  by (simp add: core_def perform_io_def dma_pages_def dma_from_def Let_def)

lemma perform_io_state: "nv_state (perform_io cmd k s) = nv_state s"
  by (simp add: perform_io_def Let_def)

definition opcode_of :: "nvme_command \<Rightarrow> u32 \<Rightarrow> nvme_command" where
  "opcode_of cmd cid = cmd\<lparr>cdw0 := (cdw0 cmd AND 0xFFFF) OR push_bit 16 cid\<rparr>"

lemma ring_completed:
  assumes "ring q" "q1 = submit cmd q"
    and "q2 = q1\<lparr>dv_sq_head := (dv_sq_head q1 + 1) mod 64, cq := (cq q1)[dv_cq_tail q1 := e],
      dv_cq_tail := (dv_cq_tail q1 + 1) mod 64,
      dv_phase := (if dv_cq_tail q1 + 1 = 64 then 1 - dv_phase q1 else dv_phase q1)\<rparr>"
    and "unat (cpl_status e AND 1) = phase q"
  shows "ring (consume q2) \<and> cq q2 ! cq_head q2 = e \<and> phase q2 = phase q"
proof -
  have b: "cq_head q < 64" "length (cq q) = 64" "phase q \<le> 1" using assms(1) by (simp_all add: ring_def)
  show ?thesis
  proof (cases "cq_head q = 63")
    case True
    then show ?thesis using assms b by (auto simp: ring_def submit_def consume_def Let_def nth_list_update)
  next
    case False
    then have "cq_head q + 1 < 64" using b(1) by simp
    then show ?thesis using assms b by (auto simp: ring_def submit_def consume_def Let_def nth_list_update less_Suc_eq)
  qed
qed

lemma ring_silent:
  assumes "ring q" "q1 = submit cmd q" "q2 = q1\<lparr>dv_sq_head := (dv_sq_head q1 + 1) mod 64\<rparr>"
  shows "ring q2 \<and> unat (cpl_status (cq q2 ! cq_head q2) AND 1) \<noteq> phase q2"
proof -
  have "phase q = 0 \<or> phase q = 1" using assms(1) by (auto simp: ring_def)
  then show ?thesis using assms by (auto simp: ring_def submit_def)
qed

lemma execute_io_spec:
  assumes "ring (io s)" "execute_io cmd s = (ok, s')"
  obtains k where "ring (io s')"
    "core s' = core (perform_io (opcode_of cmd (command_id s AND 0xFFFF)) k s)"
    "ok \<longrightarrow> k = unat (cdw12 cmd) + 1"
    "nv_state s' = nv_state s \<or> nv_state s' = STATE_FAILED"
proof -
  let ?cid = "command_id s AND 0xFFFF" and ?q = "io s"
  define cmd1 where "cmd1 = opcode_of cmd ?cid"
  define q1 where "q1 = submit cmd1 ?q"
  define s1 where "s1 = reg_write (sq_doorbell q1) (of_nat (sq_tail q1)) (s\<lparr>command_id := command_id s + 1\<rparr>)"
  define s2 where "s2 = s1\<lparr>hw := (hw s1)\<lparr>served := served (hw s1) + 1\<rparr>\<rparr>"
  define q2 where "q2 = q1\<lparr>dv_sq_head := (dv_sq_head q1 + 1) mod 64\<rparr>"
  have c2: "core s2 = core s" "nv_state s2 = nv_state s" by (simp_all add: s2_def s1_def core_def reg_write_def)
  have p2: "core (perform_io cmd1 k s2) = core (perform_io cmd1 k s)" for k by (rule perform_io_core[OF c2(1)])
  have cmd_at: "sq q1 ! dv_sq_head q1 = cmd1" "dv_sq_head q1 \<noteq> sq_tail q1"
  proof -
    have "sq_tail ?q < 64" "length (sq ?q) = 64" "dv_sq_head ?q = sq_tail ?q" using assms(1) by (simp_all add: ring_def)
    moreover have "sq_tail ?q \<noteq> (sq_tail ?q + 1) mod 64" using calculation(1) by (cases "sq_tail ?q = 63") auto
    ultimately show "sq q1 ! dv_sq_head q1 = cmd1" "dv_sq_head q1 \<noteq> sq_tail q1" by (simp_all add: q1_def submit_def)
  qed
  obtain k answer where a: "answers (hw s1) (served (hw s1)) = (k, answer)" by fastforce
  have run: "execute_io cmd s =
      (let (q, s) = serve perform_io q1 s1; entry = cq q ! cq_head q
       in if unat (cpl_status entry AND 1) \<noteq> phase q then (False, s\<lparr>nv_state := STATE_FAILED, io := q\<rparr>)
       else let q = consume q; s = reg_write (cq_doorbell q) (of_nat (cq_head q)) s
         in (\<not> (ucast (cpl_id entry) \<noteq> ?cid \<or> drop_bit 1 (cpl_status entry) \<noteq> 0), s\<lparr>io := q\<rparr>))"
    by (simp add: execute_io_def execute_def opcode_of_def cmd1_def q1_def s1_def Let_def split: prod.splits)
  show thesis
  proof (cases answer)
    case None
    then have sv: "serve perform_io q1 s1 = (q2, perform_io cmd1 k s2)"
      using a cmd_at by (simp add: serve_def q2_def s2_def Let_def)
    note r = ring_silent[OF assms(1) q1_def q2_def]
    have "ok = False" "s' = (perform_io cmd1 k s2)\<lparr>nv_state := STATE_FAILED, io := q2\<rparr>"
      using run sv r assms(2) by (simp_all add: Let_def)
    then show ?thesis using that[of k] r p2[of k] by (simp add: core_def cmd1_def)
  next
    case (Some ans)
    obtain status cid where ans: "ans = (status, cid)" by fastforce
    define k' where "k' = (if drop_bit 1 (push_bit 1 status) = 0 then unat (cdw12 cmd1) + 1 else k)"
    define e where "e = \<lparr>cpl_id = cid, cpl_status = push_bit 1 status OR of_nat (dv_phase q1)\<rparr>"
    define q3 where "q3 = q1\<lparr>dv_sq_head := (dv_sq_head q1 + 1) mod 64, cq := (cq q1)[dv_cq_tail q1 := e],
      dv_cq_tail := (dv_cq_tail q1 + 1) mod 64,
      dv_phase := (if dv_cq_tail q1 + 1 = 64 then 1 - dv_phase q1 else dv_phase q1)\<rparr>"
    have ph: "dv_phase q1 = phase ?q" "phase ?q \<le> 1" using assms(1) by (simp_all add: q1_def submit_def ring_def)
    have pb: "unat (cpl_status e AND 1) = phase ?q" using phase_bit[OF ph(2)] by (simp add: e_def ph(1))
    have sv: "serve perform_io q1 s1 = (q3, perform_io cmd1 k' s2)"
      using a cmd_at by (simp add: serve_def q3_def s2_def Let_def Some ans e_def k'_def)
    note r = ring_completed[OF assms(1) q1_def q3_def pb]
    let ?s3 = "perform_io cmd1 k' s2"
    have "s' = (reg_write (cq_doorbell (consume q3)) (of_nat (cq_head (consume q3))) ?s3)\<lparr>io := consume q3\<rparr>"
        "ok \<Longrightarrow> drop_bit 1 (cpl_status e) = 0"
      using run sv r pb assms(2) by (simp_all add: Let_def)
    moreover have "drop_bit 1 (cpl_status e) = drop_bit 1 (push_bit 1 status)"
      using drop_phase[OF ph(2)] by (simp add: e_def ph(1))
    ultimately show ?thesis
      using that[of k'] r p2[of k'] by (simp add: core_def cmd1_def reg_write_def perform_io_state c2(2) k'_def opcode_of_def)
  qed
qed


section \<open>The pages of a transfer\<close>

lemma prp_loop_spec:
  "\<lbrakk>1 \<le> i; 2 * (i - 1 + k) \<le> length prp\<rbrakk> \<Longrightarrow>
    length (prp_loop k i base prp) = length prp \<and>
    (\<forall>j < i - 1 + k. prp_loop k i base prp ! (2 * j) = (if j < i - 1 then prp ! (2 * j) else base + of_nat ((j + 1) * PAGE_SIZE)))"
proof (induction k arbitrary: i prp)
  case (Suc k)
  let ?prp = "prp[(i - 1) * 2 := base + of_nat (i * PAGE_SIZE), (i - 1) * 2 + 1 := 0]"
  have "length (prp_loop k (i + 1) base ?prp) = length ?prp \<and>
    (\<forall>j < i + 1 - 1 + k. prp_loop k (i + 1) base ?prp ! (2 * j) =
      (if j < i + 1 - 1 then ?prp ! (2 * j) else base + of_nat ((j + 1) * PAGE_SIZE)))"
    using Suc.prems by (intro Suc.IH) auto
  moreover have "?prp ! (2 * j) = (if j < i - 1 then prp ! (2 * j) else base + of_nat ((j + 1) * PAGE_SIZE))" if "j < i" for j
    using that Suc.prems by (cases "j = i - 1") (auto simp: nth_list_update mult.commute)
  ultimately show ?case using Suc.prems(1) by (auto simp: le_Suc_eq)
qed simp

definition bounce_pages :: "u32 \<Rightarrow> nat \<Rightarrow> u32 list" where
  "bounce_pages base n = map (\<lambda>i. base + of_nat (i * PAGE_SIZE)) [0..<n]"

lemma page_offset: "i < 16 \<Longrightarrow> unat (base + of_nat (i * PAGE_SIZE) - base :: u32) = i * PAGE_SIZE"
  using unat_of_nat_u32[of "i * PAGE_SIZE"] by simp

text \<open>The controller sees the front of the bounce buffer, contiguously.\<close>

lemma dma_from_bounce:
  "\<lbrakk>n \<le> 16; length (bounce s) = BOUNCE_SIZE\<rbrakk> \<Longrightarrow> dma_from s (bounce_pages (bounce_addr s) n) = take (n * PAGE_SIZE) (bounce s)"
proof (induction n)
  case (Suc n)
  have "dma_from s (bounce_pages (bounce_addr s) (Suc n)) =
      dma_from s (bounce_pages (bounce_addr s) n) @ chunk (bounce s) (n * PAGE_SIZE) PAGE_SIZE"
    using page_offset[of n "bounce_addr s"] Suc.prems(1) by (simp add: dma_from_def bounce_pages_def)
  then show ?case using Suc take_add[of "n * PAGE_SIZE" PAGE_SIZE "bounce s"] by (simp add: chunk_def add.commute)
qed (simp add: dma_from_def bounce_pages_def)

lemma dma_into_pages:
  "\<lbrakk>i + n \<le> 16; length buf = BOUNCE_SIZE; length data \<le> n * PAGE_SIZE\<rbrakk> \<Longrightarrow>
    dma_into base (map (\<lambda>i. base + of_nat (i * PAGE_SIZE)) [i..<i + n]) data buf = write_at buf (i * PAGE_SIZE) data"
proof (induction n arbitrary: i data buf)
  case (Suc n)
  have l: "(i + 1) * PAGE_SIZE \<le> BOUNCE_SIZE" using Suc.prems(1) by simp
  define buf1 where "buf1 = write_at buf (i * PAGE_SIZE) (take PAGE_SIZE data)"
  have b1: "length buf1 = BOUNCE_SIZE" using l Suc.prems(2) by (simp add: buf1_def)
  have u: "[i..<i + Suc n] = i # [Suc i..<Suc i + n]" by (simp add: upt_conv_Cons)
  have "dma_into base (map (\<lambda>i. base + of_nat (i * PAGE_SIZE)) [i..<i + Suc n]) data buf =
      dma_into base (map (\<lambda>i. base + of_nat (i * PAGE_SIZE)) [Suc i..<Suc i + n]) (drop PAGE_SIZE data) buf1"
    unfolding u using page_offset[of i base] Suc.prems(1) by (simp add: buf1_def)
  also have "\<dots> = write_at buf1 (Suc i * PAGE_SIZE) (drop PAGE_SIZE data)"
    using Suc.prems b1 by (intro Suc.IH) simp_all
  also have "\<dots> = write_at buf (i * PAGE_SIZE) data"
  proof (cases "length data \<le> PAGE_SIZE")
    case True
    then show ?thesis by (simp add: buf1_def)
  next
    case False
    then show ?thesis
      unfolding buf1_def using l Suc.prems(2) write_at_adjacent[of "Suc i * PAGE_SIZE" "i * PAGE_SIZE" "take PAGE_SIZE data" buf "drop PAGE_SIZE data"]
      by simp
  qed
  finally show ?case .
qed simp

lemma dma_into_bounce:
  "\<lbrakk>n \<le> 16; length buf = BOUNCE_SIZE; length data \<le> n * PAGE_SIZE\<rbrakk> \<Longrightarrow> dma_into base (bounce_pages base n) data buf = write_at buf 0 data"
  using dma_into_pages[of 0 n buf data base] by (simp add: bounce_pages_def)

lemma pages_for_bounds:
  assumes "0 < n" "n \<le> BOUNCE_SIZE"
  shows "1 \<le> pages_for n" "pages_for n \<le> 16" "n \<le> pages_for n * PAGE_SIZE"
proof -
  have "PAGE_SIZE \<le> n + PAGE_SIZE - 1" using assms(1) by simp
  then show "1 \<le> pages_for n" unfolding pages_for_def by (simp add: Suc_le_eq div_greater_zero_iff)
  have "(n + PAGE_SIZE - 1) div PAGE_SIZE \<le> (BOUNCE_SIZE + PAGE_SIZE - 1) div PAGE_SIZE"
    using assms(2) by (intro div_le_mono) simp
  then show "pages_for n \<le> 16" unfolding pages_for_def by simp
  show "n \<le> pages_for n * PAGE_SIZE" unfolding pages_for_def using div_mult_mod_eq[of "n + PAGE_SIZE - 1" PAGE_SIZE]
      mod_less_divisor[of PAGE_SIZE "n + PAGE_SIZE - 1"] by simp
qed


text \<open>The invariant of the driver once the controller is up.\<close>

definition nvme_ok :: "nvme \<Rightarrow> bool" where
  "nvme_ok s \<longleftrightarrow> nv_state s \<noteq> STATE_UNTRIED \<and> ring (io s) \<and> 9 \<le> lba_shift s \<and> lba_shift s \<le> 12 \<and>
     ns_diff (hw s) = lba_shift s - 9 \<and> length (bounce s) = BOUNCE_SIZE \<and> length (prp_list s) = 1024 \<and>
     8192 \<le> max_transfer s \<and> max_transfer s \<le> BOUNCE_SIZE \<and> nv_total s \<le> MAX_SECTORS \<and>
     (\<forall>i. length (ns_medium (hw s) i) = 512)"

lemma block_bytes: "nvme_ok s \<Longrightarrow> (2::nat) ^ lba_shift s = 2 ^ ns_diff (hw s) * 512"
proof -
  assume "nvme_ok s"
  then have "lba_shift s = ns_diff (hw s) + 9" by (simp add: nvme_ok_def)
  then show ?thesis by (simp add: power_add)
qed

text \<open>The effect of a command on the data it names, independent of pages and rings.\<close>

definition io_effect :: "u32 \<Rightarrow> nat \<Rightarrow> nat \<Rightarrow> nvme \<Rightarrow> nvme \<Rightarrow> bool" where
  "io_effect opcode lba n s s' \<longleftrightarrow>
     bounce s' = (if opcode = IO_READ then write_at (bounce s) 0 (sectors_at (ns_medium (hw s)) lba n) else bounce s) \<and>
     ns_medium (hw s') = (if opcode = IO_WRITE then put_sectors (ns_medium (hw s)) lba n (bounce s) else ns_medium (hw s))"

lemma put_sectors_take: "n * 512 \<le> k \<Longrightarrow> put_sectors m lba n (take k data) = put_sectors m lba n data"
proof
  fix i
  assume le: "n * 512 \<le> k"
  have "chunk (take k data) ((i - lba) * 512) 512 = chunk data ((i - lba) * 512) 512" if "lba \<le> i" "i < lba + n"
  proof -
    have "(i - lba + 1) * 512 \<le> n * 512" using that by (intro mult_le_mono1) simp
    then have "512 \<le> k - (i - lba) * 512" using le by simp
    then show ?thesis by (simp add: chunk_def drop_take min_def)
  qed
  then show "put_sectors m lba n (take k data) i = put_sectors m lba n data i" by (simp add: put_sectors_def)
qed

lemma opcode_kept:
  assumes "opcode = IO_READ \<or> opcode = IO_WRITE"
  shows "((opcode AND 0xFFFF) OR push_bit 16 cid) AND 0xFF = (opcode :: u32)"
proof -
  have "((opcode AND 0xFFFF) OR push_bit 16 cid) AND 0xFF = opcode AND 0xFF"
    unfolding mask_literals(1,5) by (rule bit_word_eqI) (auto simp: bit_simps)
  then show ?thesis using assms by auto
qed

lemma perform_io_effect:
  assumes ok: "nvme_ok s" and b: "0 < blocks" "blocks * 2 ^ lba_shift s \<le> BOUNCE_SIZE" and blk: "block < 4294967296"
    and op: "opcode = IO_READ \<or> opcode = IO_WRITE"
    and pages: "P = pages_for (blocks * 2 ^ lba_shift s)"
    and s1: "s1 = (if P > 2 then s\<lparr>prp_list := prp_loop (P - 1) 1 (bounce_addr s) (prp_list s)\<rparr> else s)"
    and cmd: "cdw0 cmd = (opcode AND 0xFFFF) OR push_bit 16 cid" "prp1 cmd = bounce_addr s"
      "prp2 cmd = (if P = 2 then bounce_addr s + of_nat PAGE_SIZE else if P > 2 then prp_addr s else 0)"
      "cdw10 cmd = of_nat block" "cdw12 cmd = of_nat (blocks - 1)"
  shows "io_effect opcode (block * 2 ^ ns_diff (hw s)) (min k blocks * 2 ^ ns_diff (hw s)) s (perform_io cmd k s1)"
proof -
  define d where "d = ns_diff (hw s)"
  have bytes: "blocks * 2 ^ d * 512 = blocks * 2 ^ lba_shift s" using block_bytes[OF ok] by (simp add: d_def)
  have P: "1 \<le> P" "P \<le> 16" "blocks * 2 ^ lba_shift s \<le> P * PAGE_SIZE"
    using pages_for_bounds[of "blocks * 2 ^ lba_shift s"] b by (simp_all add: pages)
  have dp: "dma_pages s1 cmd (blocks * 2 ^ d * 512) = bounce_pages (bounce_addr s) P"
  proof (cases "P > 2")
    case True
    have "\<forall>j < P - 1. prp_list s1 ! (2 * j) = bounce_addr s + of_nat ((j + 1) * PAGE_SIZE)"
      using prp_loop_spec[of 1 "P - 1" "prp_list s" "bounce_addr s"] P(2) ok True by (simp add: s1 nvme_ok_def)
    moreover have "[0..<P] = 0 # map Suc [0..<P - 1]" using P(1) by (simp add: map_Suc_upt upt_conv_Cons)
    ultimately show ?thesis
      using True by (simp add: dma_pages_def bytes pages[symmetric] cmd bounce_pages_def s1)
  next
    case False
    then have "P = 1 \<or> P = 2" using P(1) by auto
    moreover have "bounce_pages (bounce_addr s) 1 = [bounce_addr s]"
        "bounce_pages (bounce_addr s) 2 = [bounce_addr s, bounce_addr s + of_nat PAGE_SIZE]"
      by (simp_all add: bounce_pages_def numeral_2_eq_2)
    ultimately show ?thesis
      by (auto simp: dma_pages_def bytes pages[symmetric] cmd)
  qed
  have "blocks * 1 \<le> blocks * 2 ^ lba_shift s" by (intro mult_le_mono2) simp
  then have small: "blocks \<le> BOUNCE_SIZE" using b(2) by linarith
  have cnt: "unat (cdw12 cmd) + 1 = blocks" using small b(1) unat_of_nat_u32[of "blocks - 1"] by (simp add: cmd)
  have lba: "unat (cdw10 cmd) = block" using unat_of_nat_u32[OF blk] by (simp add: cmd)
  have opc: "cdw0 cmd AND 0xFF = opcode" using opcode_kept[OF op] by (simp add: cmd)
  have same: "bounce s1 = bounce s" "hw s1 = hw s" "bounce_addr s1 = bounce_addr s" by (simp_all add: s1)
  have len: "length (bounce s) = BOUNCE_SIZE" using ok by (simp add: nvme_ok_def)
  let ?n = "min k blocks * 2 ^ d"
  have n: "?n * 512 \<le> blocks * 2 ^ d * 512" by simp
  show ?thesis
  proof (cases "opcode = IO_READ")
    case True
    have "length (sectors_at (ns_medium (hw s)) (block * 2 ^ d) ?n) \<le> P * PAGE_SIZE"
      using n bytes P(3) ok length_sectors_at[of "ns_medium (hw s)"] by (simp add: nvme_ok_def)
    then have "dma_into (bounce_addr s) (bounce_pages (bounce_addr s) P) (sectors_at (ns_medium (hw s)) (block * 2 ^ d) ?n) (bounce s) =
        write_at (bounce s) 0 (sectors_at (ns_medium (hw s)) (block * 2 ^ d) ?n)"
      using dma_into_bounce[OF P(2) len] by simp
    then show ?thesis
      using True dp opc cnt lba same by (simp add: perform_io_def io_effect_def Let_def d_def)
  next
    case False
    then have wr: "opcode = IO_WRITE" using op by simp
    have "dma_from s1 (bounce_pages (bounce_addr s) P) = take (P * PAGE_SIZE) (bounce s)"
      using dma_from_bounce[OF P(2), of s1] len same by simp
    moreover have "put_sectors m (block * 2 ^ d) ?n (take (P * PAGE_SIZE) (bounce s)) = put_sectors m (block * 2 ^ d) ?n (bounce s)" for m
      using n bytes P(3) by (intro put_sectors_take) simp
    ultimately show ?thesis
      using wr dp opc cnt lba same by (simp add: perform_io_def io_effect_def Let_def d_def)
  qed
qed


definition same_geometry :: "nvme \<Rightarrow> nvme \<Rightarrow> bool" where
  "same_geometry s s' \<longleftrightarrow> nvme_ok s' \<and> lba_shift s' = lba_shift s \<and> max_transfer s' = max_transfer s \<and>
     nv_total s' = nv_total s \<and> ns_diff (hw s') = ns_diff (hw s)"

lemma same_geometry_trans: "same_geometry s s1 \<Longrightarrow> same_geometry s1 s' \<Longrightarrow> same_geometry s s'"
  by (simp add: same_geometry_def)

lemma perform_io_fixed:
  "lba_shift (perform_io cmd k s) = lba_shift s" "max_transfer (perform_io cmd k s) = max_transfer s"
  "nv_total (perform_io cmd k s) = nv_total s" "ns_diff (hw (perform_io cmd k s)) = ns_diff (hw s)"
  "prp_list (perform_io cmd k s) = prp_list s"
  by (simp_all add: perform_io_def Let_def)

lemma io_effect_lengths:
  assumes "nvme_ok s" "io_effect opcode lba n s s'" "n * 512 \<le> BOUNCE_SIZE"
  shows "length (bounce s') = BOUNCE_SIZE" "length (ns_medium (hw s') i) = 512"
proof -
  have m: "\<And>i. length (ns_medium (hw s) i) = 512" and b: "length (bounce s) = BOUNCE_SIZE"
    using assms(1) by (simp_all add: nvme_ok_def)
  show "length (bounce s') = BOUNCE_SIZE"
    using assms(2,3) b length_sectors_at[where m = "ns_medium (hw s)" and n = n, OF m] by (auto simp: io_effect_def)
  show "length (ns_medium (hw s') i) = 512"
    using assms(2,3) b m put_sectors_length[where m = "ns_medium (hw s)" and n = n and data = "bounce s", OF m] by (auto simp: io_effect_def)
qed

lemma run_io_spec:
  assumes ok: "nvme_ok s" and b: "0 < blocks" "blocks * 2 ^ lba_shift s \<le> max_transfer s" and blk: "block < 4294967296"
    and op: "opcode = IO_READ \<or> opcode = IO_WRITE"
    and r: "run_io opcode block blocks s = (res, s')"
  obtains j where "same_geometry s s'" "j \<le> blocks * 2 ^ ns_diff (hw s)" "res \<longrightarrow> j = blocks * 2 ^ ns_diff (hw s)"
    "io_effect opcode (block * 2 ^ ns_diff (hw s)) j s s'"
proof -
  define P where "P = pages_for (blocks * 2 ^ lba_shift s)"
  define s1 where "s1 = (if P > 2 then s\<lparr>prp_list := prp_loop (P - 1) 1 (bounce_addr s) (prp_list s)\<rparr> else s)"
  define cmd where "cmd = empty_command\<lparr>cdw0 := opcode, nsid := 1, prp1 := bounce_addr s,
      prp2 := (if P = 2 then bounce_addr s + of_nat PAGE_SIZE else if P > 2 then prp_addr s else 0),
      cdw10 := of_nat block, cdw11 := 0, cdw12 := of_nat (blocks - 1)\<rparr>"
  have max: "max_transfer s \<le> BOUNCE_SIZE" using ok by (simp add: nvme_ok_def)
  then have bb: "blocks * 2 ^ lba_shift s \<le> BOUNCE_SIZE" using b(2) by simp
  have ex: "execute_io cmd s1 = (res, s')" using r
    by (cases "P > 2"; cases "P = 2") (simp_all add: run_io_def P_def[symmetric] s1_def cmd_def Let_def)
  have "ring (io s1)" using ok by (simp add: s1_def nvme_ok_def)
  then obtain k where k: "ring (io s')" "core s' = core (perform_io (opcode_of cmd (command_id s1 AND 0xFFFF)) k s1)"
      "res \<longrightarrow> k = unat (cdw12 cmd) + 1" "nv_state s' = nv_state s1 \<or> nv_state s' = STATE_FAILED"
    using ex by (rule execute_io_spec)
  let ?p = "perform_io (opcode_of cmd (command_id s1 AND 0xFFFF)) k s1"
  let ?j = "min k blocks * 2 ^ ns_diff (hw s)"
  have eff: "io_effect opcode (block * 2 ^ ns_diff (hw s)) ?j s ?p"
    by (rule perform_io_effect[where cid = "command_id s1 AND 0xFFFF", OF ok b(1) bb blk op P_def s1_def])
      (simp_all add: opcode_of_def cmd_def)
  then have eff': "io_effect opcode (block * 2 ^ ns_diff (hw s)) ?j s s'"
    using k(2) by (simp add: io_effect_def core_def)
  have "?j \<le> blocks * 2 ^ ns_diff (hw s)" by (intro mult_le_mono1) simp
  moreover have "blocks * 2 ^ ns_diff (hw s) * 512 \<le> BOUNCE_SIZE" using bb block_bytes[OF ok] by simp
  ultimately have j: "?j * 512 \<le> BOUNCE_SIZE" by linarith
  have "length (prp_list s1) = 1024"
  proof (cases "P > 2")
    case True
    have "P \<le> 16" using pages_for_bounds(2)[of "blocks * 2 ^ lba_shift s"] b(1) bb by (simp add: P_def)
    then show ?thesis using prp_loop_spec[of 1 "P - 1" "prp_list s" "bounce_addr s"] ok True by (simp add: s1_def nvme_ok_def)
  next
    case False
    then show ?thesis using ok by (simp add: s1_def nvme_ok_def)
  qed
  then have "same_geometry s s'"
    using io_effect_lengths[OF ok eff' j] ok k(1,2,4)
    by (auto simp: same_geometry_def nvme_ok_def core_def perform_io_fixed s1_def split: if_splits)
  moreover have "res \<longrightarrow> min k blocks = blocks"
  proof
    assume res
    have "blocks * 1 \<le> blocks * 2 ^ lba_shift s" by (intro mult_le_mono2) simp
    then have "blocks \<le> BOUNCE_SIZE" using bb by linarith
    then show "min k blocks = blocks" using k(3) \<open>res\<close> b(1) unat_of_nat_u32[of "blocks - 1"] by (simp add: cmd_def)
  qed
  ultimately show thesis using that[OF _ _ _ eff'] by simp
qed

lemma nvme_flush_spec:
  assumes "nvme_ok s" "nvme_flush s = (ok, s')"
  shows "same_geometry s s' \<and> ns_medium (hw s') = ns_medium (hw s)"
proof -
  let ?cmd = "empty_command\<lparr>cdw0 := IO_FLUSH, nsid := 1\<rparr>"
  obtain k where k: "ring (io s')" "core s' = core (perform_io (opcode_of ?cmd (command_id s AND 0xFFFF)) k s)"
      "nv_state s' = nv_state s \<or> nv_state s' = STATE_FAILED"
    using execute_io_spec[of s ?cmd ok s'] assms by (auto simp: nvme_ok_def nvme_flush_def)
  have "cdw0 (opcode_of ?cmd (command_id s AND 0xFFFF)) AND 0xFF = 0"
    unfolding opcode_of_def mask_literals(1) by (auto intro!: bit_word_eqI simp: bit_simps)
  then have "perform_io (opcode_of ?cmd (command_id s AND 0xFFFF)) k s = s" by (simp add: perform_io_def Let_def)
  then show ?thesis using k assms(1) by (auto simp: core_def same_geometry_def nvme_ok_def)
qed


section \<open>Transfers\<close>

lemma plan_spec:
  assumes ok: "nvme_ok s" and c: "0 < count" and pl: "plan s lba count = (block, offset, blocks, span)"
  shows "lba = block * 2 ^ ns_diff (hw s) + offset" "offset < 2 ^ ns_diff (hw s)" "0 < blocks"
    "blocks * 2 ^ lba_shift s \<le> max_transfer s" "0 < span" "span \<le> count" "offset + span \<le> blocks * 2 ^ ns_diff (hw s)"
proof -
  define pb :: nat where "pb = 2 ^ ns_diff (hw s)"
  have d: "lba_shift s - 9 = ns_diff (hw s)" using ok by (simp add: nvme_ok_def)
  have pb: "0 < pb" by (simp add: pb_def)
  define M where "M = max_transfer s div 2 ^ lba_shift s"
  have "(2::nat) ^ lba_shift s \<le> 2 ^ 12" using ok by (intro power_increasing) (auto simp: nvme_ok_def)
  then have "1 * 2 ^ lba_shift s \<le> max_transfer s" using ok by (simp add: nvme_ok_def)
  then have M: "1 \<le> M" unfolding M_def by (metis div_le_mono nonzero_mult_div_cancel_right power_not_zero zero_neq_numeral)
  have e: "block = lba div pb" "offset = lba mod pb" "blocks = min ((offset + count + pb - 1) div pb) M"
      "span = min (blocks * pb - offset) count"
    using pl unfolding plan_def Let_def d pb_def[symmetric] M_def[symmetric] by (auto simp: min_def)
  show "lba = block * 2 ^ ns_diff (hw s) + offset" unfolding pb_def[symmetric] by (simp add: e(1,2))
  have o: "offset < pb" using pb by (simp add: e(2))
  then show "offset < 2 ^ ns_diff (hw s)" by (simp add: pb_def)
  have "pb \<le> offset + count + pb - 1" using c by simp
  then have "1 \<le> (offset + count + pb - 1) div pb" using pb by (simp add: Suc_le_eq div_greater_zero_iff)
  then show pos: "0 < blocks" using M by (simp add: e(3))
  have "blocks \<le> M" by (simp add: e(3))
  then have "blocks * 2 ^ lba_shift s \<le> M * 2 ^ lba_shift s" by (rule mult_le_mono1)
  then show "blocks * 2 ^ lba_shift s \<le> max_transfer s"
    unfolding M_def using div_times_less_eq_dividend[of "max_transfer s" "2 ^ lba_shift s"] by linarith
  have "1 * pb \<le> blocks * pb" using pos by (intro mult_le_mono1) simp
  then have "offset < blocks * pb" using o by linarith
  then show "0 < span" "span \<le> count" "offset + span \<le> blocks * 2 ^ ns_diff (hw s)"
    using c by (simp_all add: e(4) pb_def)
qed

lemma chunk_sectors_at:
  assumes "\<And>i. length (m i) = 512" "off + n \<le> k"
  shows "chunk (sectors_at m lba k) (off * 512) (n * 512) = sectors_at m (lba + off) n"
proof -
  have "sectors_at m lba k = sectors_at m lba off @ sectors_at m (lba + off) n @ sectors_at m (lba + off + n) (k - off - n)"
    using assms(2) sectors_at_add[of m lba off "n + (k - off - n)"] sectors_at_add[of m "lba + off" n "k - off - n"] by simp
  moreover have "length (sectors_at m l j) = j * 512" for l j by (rule length_sectors_at[OF assms(1)])
  ultimately show ?thesis by (simp add: chunk_def)
qed

text \<open>A round of a read delivers the sectors it covers.\<close>

lemma read_round_spec:
  assumes ok: "nvme_ok s" and c: "0 < count" "lba + count \<le> nv_total s" and pl: "plan s lba count = (block, offset, blocks, span)"
    and r: "nvme_read_round lba count p buf s = (res, buf', s')"
  shows "same_geometry s s' \<and> ns_medium (hw s') = ns_medium (hw s) \<and>
    buf' = (if res then write_at buf p (sectors_at (ns_medium (hw s)) lba span) else buf)"
proof -
  note P = plan_spec[OF ok c(1) pl]
  have m: "\<And>i. length (ns_medium (hw s) i) = 512" using ok by (simp add: nvme_ok_def)
  have "block \<le> lba" using P(1) mult_le_mono2[of 1 "2 ^ ns_diff (hw s)" block] by (simp add: trans_le_add1)
  then have blk: "block < 4294967296" using c(2) ok by (simp add: nvme_ok_def)
  obtain ok1 s1 where io: "run_io IO_READ block blocks s = (ok1, s1)" by fastforce
  obtain j where j: "same_geometry s s1" "j \<le> blocks * 2 ^ ns_diff (hw s)" "ok1 \<longrightarrow> j = blocks * 2 ^ ns_diff (hw s)"
      "io_effect IO_READ (block * 2 ^ ns_diff (hw s)) j s s1"
    by (rule run_io_spec[OF ok P(3,4) blk _ io]) simp_all
  have b: "bounce s1 = write_at (bounce s) 0 (sectors_at (ns_medium (hw s)) (block * 2 ^ ns_diff (hw s)) j)"
    using j(4) by (simp add: io_effect_def)
  have "chunk (bounce s1) (offset * 512) (span * 512) = sectors_at (ns_medium (hw s)) lba span" if ok1
  proof -
    let ?sec = "sectors_at (ns_medium (hw s)) (block * 2 ^ ns_diff (hw s)) j"
    have len: "length ?sec = j * 512" by (rule length_sectors_at[OF m])
    have le: "offset + span \<le> j" using P(7) j(3) that by simp
    have "(offset + span) * 512 \<le> j * 512" using le by (rule mult_le_mono1)
    then have "chunk (bounce s1) (offset * 512) (span * 512) = chunk ?sec (offset * 512) (span * 512)"
      unfolding b using len by (simp add: write_at_def chunk_def)
    then show ?thesis using chunk_sectors_at[OF m le] P(1) by simp
  qed
  moreover have "ns_medium (hw s1) = ns_medium (hw s)" using j(4) by (simp add: io_effect_def)
  ultimately show ?thesis using r io pl j(1) by (cases ok1) (auto simp: nvme_read_round_def)
qed


lemma chunk_write_inside:
  assumes "off \<le> a" "a + n \<le> off + length xs" "off + length xs \<le> length buf"
  shows "chunk (write_at buf off xs) a n = chunk xs (a - off) n"
  using assms by (auto intro!: nth_equalityI simp: nth_chunk nth_write_at)

lemma chunk_of_sectors:
  assumes "\<And>i. length (m i) = 512" "i < k"
  shows "chunk (sectors_at m lba k) (i * 512) 512 = m (lba + i)"
  using chunk_sectors_at[of m i 1 k lba] assms by simp

text \<open>
  Read-modify-write: the buffer holds the sectors of the blocks with the new data in their place, or
  the new data cover the blocks; then writing some of it changes sectors of the request only.
\<close>

lemma merge_sectors:
  assumes m: "\<And>i. length (m i) = 512" and le: "offset + span \<le> D" "D * 512 \<le> length B" "span * 512 \<le> length data"
    and B: "take (D * 512) B = sectors_at m base D \<or> offset = 0 \<and> span = D" and j: "j \<le> D"
  shows "put_sectors m base j (write_at B (offset * 512) (take (span * 512) data)) =
    put_sectors m (base + offset) (min span (j - offset)) data"
proof
  fix i
  let ?B = "write_at B (offset * 512) (take (span * 512) data)"
  have l: "length (take (span * 512) data) = span * 512" using le(3) by simp
  have fits: "offset * 512 + span * 512 \<le> length B" using le(1,2) by linarith
  consider (out) "i < base \<or> base + j \<le> i" | (new) "base + offset \<le> i" "i < base + offset + span" "i < base + j"
    | (old) "base \<le> i" "i < base + j" "i < base + offset \<or> base + offset + span \<le> i" by linarith
  then show "put_sectors m base j ?B i = put_sectors m (base + offset) (min span (j - offset)) data i"
  proof cases
    case out
    then show ?thesis by (auto simp: put_sectors_def)
  next
    case new
    define x where "x = i - base - offset"
    have x: "i - base = offset + x" "x < span" "i - (base + offset) = x" using new by (simp_all add: x_def)
    have "(x + 1) * 512 \<le> span * 512" using x(2) by (intro mult_le_mono1) simp
    then have "chunk ?B ((i - base) * 512) 512 = chunk (take (span * 512) data) (x * 512) 512"
      using chunk_write_inside[of "offset * 512" "(i - base) * 512" 512 "take (span * 512) data" B] l fits x(1) by simp
    also have "\<dots> = chunk data (x * 512) 512"
      using \<open>(x + 1) * 512 \<le> span * 512\<close> by (simp add: chunk_def drop_take min_def)
    finally have "chunk ?B ((i - base) * 512) 512 = chunk data (x * 512) 512" .
    moreover have "i < base + offset + min span (j - offset)" using new by (simp add: min_def)
    ultimately show ?thesis using new x(3) by (simp add: put_sectors_def)
  next
    case old
    then have "take (D * 512) B = sectors_at m base D" using B j by auto
    have iD: "i - base < D" using old(1,2) j by simp
    have "(i - base + 1) * 512 \<le> D * 512" using iD by (intro mult_le_mono1) simp
    have "i - base < offset \<or> offset + span \<le> i - base" using old by auto
    then have "(i - base) * 512 + 512 \<le> offset * 512 \<or> offset * 512 + span * 512 \<le> (i - base) * 512" by linarith
    then have "chunk ?B ((i - base) * 512) 512 = chunk B ((i - base) * 512) 512"
      using l fits by (intro chunk_write_at_disjoint) simp_all
    also have "\<dots> = chunk (take (D * 512) B) ((i - base) * 512) 512"
      using \<open>(i - base + 1) * 512 \<le> D * 512\<close> by (simp add: chunk_def drop_take min_def)
    also have "\<dots> = m i" using chunk_of_sectors[OF m iD] old(1) \<open>take (D * 512) B = _\<close> by simp
    finally show ?thesis using old by (auto simp: put_sectors_def)
  qed
qed

lemma write_round_spec:
  assumes ok: "nvme_ok s" and c: "0 < count" "lba + count \<le> nv_total s" and pl: "plan s lba count = (block, offset, blocks, span)"
    and len: "count * 512 \<le> length data"
    and r: "nvme_write_round lba count data s = (res, s')"
  shows "same_geometry s s' \<and> write_ok (ns_medium (hw s)) lba span data res (ns_medium (hw s'))"
proof -
  note P = plan_spec[OF ok c(1) pl]
  have m: "\<And>i. length (ns_medium (hw s) i) = 512" using ok by (simp add: nvme_ok_def)
  define D where "D = blocks * 2 ^ ns_diff (hw s)"
  define base where "base = block * 2 ^ ns_diff (hw s)"
  have d: "lba_shift s - 9 = ns_diff (hw s)" using ok by (simp add: nvme_ok_def)
  have D: "D * 512 \<le> BOUNCE_SIZE" using P(4) block_bytes[OF ok] ok by (simp add: D_def nvme_ok_def)
  have "block \<le> lba" using P(1) mult_le_mono2[of 1 "2 ^ ns_diff (hw s)" block] by (simp add: trans_le_add1)
  then have blk: "block < 4294967296" using c(2) ok by (simp add: nvme_ok_def)
  define part where "part \<longleftrightarrow> offset \<noteq> 0 \<or> span \<noteq> D"
  obtain ok1 s1 where r1: "(if part then run_io IO_READ block blocks s else (True, s)) = (ok1, s1)" by fastforce
  have "same_geometry s s1 \<and> ns_medium (hw s1) = ns_medium (hw s) \<and>
      (ok1 \<longrightarrow> take (D * 512) (bounce s1) = sectors_at (ns_medium (hw s)) base D \<or> offset = 0 \<and> span = D)"
  proof (cases part)
    case False
    then show ?thesis using r1 ok by (auto simp: part_def same_geometry_def)
  next
    case True
    then have io: "run_io IO_READ block blocks s = (ok1, s1)" using r1 by simp
    obtain j where j: "same_geometry s s1" "j \<le> D" "ok1 \<longrightarrow> j = D" "io_effect IO_READ base j s s1"
      unfolding D_def base_def by (rule run_io_spec[OF ok P(3,4) blk _ io]) simp_all
    then show ?thesis
      using write_at_0_take[OF length_sectors_at[OF m, symmetric]] by (auto simp: io_effect_def)
  qed
  then have s1: "same_geometry s s1" "ns_medium (hw s1) = ns_medium (hw s)"
      "ok1 \<longrightarrow> take (D * 512) (bounce s1) = sectors_at (ns_medium (hw s)) base D \<or> offset = 0 \<and> span = D" by simp_all
  show ?thesis
  proof (cases ok1)
    case False
    then have "res = False" "s' = s1" using r r1 pl by (simp_all add: nvme_write_round_def d part_def D_def Let_def)
    then show ?thesis using s1 by (simp add: write_ok_refl)
  next
    case True
    have ok1: "nvme_ok s1" and g1: "lba_shift s1 = lba_shift s" "max_transfer s1 = max_transfer s" "ns_diff (hw s1) = ns_diff (hw s)"
      using s1(1) by (simp_all add: same_geometry_def)
    have lb: "length (bounce s1) = BOUNCE_SIZE" using ok1 by (simp add: nvme_ok_def)
    have sl: "span * 512 \<le> length data" using P(6) len mult_le_mono1[of span count 512] by linarith
    have fits: "offset * 512 + span * 512 \<le> BOUNCE_SIZE" using P(7) D by (simp add: D_def[symmetric])
    define s2 where "s2 = s1\<lparr>bounce := write_at (bounce s1) (offset * 512) (take (span * 512) data)\<rparr>"
    have ok2: "nvme_ok s2" using ok1 lb fits sl by (simp add: s2_def nvme_ok_def)
    have io: "run_io IO_WRITE block blocks s2 = (res, s')"
      using r r1 True pl by (simp add: nvme_write_round_def d part_def D_def Let_def s2_def)
    have b2: "blocks * 2 ^ lba_shift s2 \<le> max_transfer s2" using P(4) g1 by (simp add: s2_def)
    obtain j where j: "same_geometry s2 s'" "j \<le> blocks * 2 ^ ns_diff (hw s2)" "res \<longrightarrow> j = blocks * 2 ^ ns_diff (hw s2)"
        "io_effect IO_WRITE (block * 2 ^ ns_diff (hw s2)) j s2 s'"
      by (rule run_io_spec[OF ok2 P(3) b2 blk _ io]) simp_all
    have jD: "j \<le> D" "res \<longrightarrow> j = D" using j(2,3) g1 by (simp_all add: s2_def D_def)
    have "ns_medium (hw s') = put_sectors (ns_medium (hw s)) base j (bounce s2)"
      using j(4) g1 s1(2) by (simp add: io_effect_def s2_def base_def)
    also have "\<dots> = put_sectors (ns_medium (hw s)) (base + offset) (min span (j - offset)) data"
      unfolding s2_def using P(7) D lb sl s1(3) True jD(1) by (simp add: D_def[symmetric] merge_sectors[OF m])
    also have "base + offset = lba" using P(1) by (simp add: base_def)
    finally have "write_ok (ns_medium (hw s)) lba span data res (ns_medium (hw s'))"
      unfolding write_ok_def using jD(2) P(7) by (intro exI[of _ "min span (j - offset)"]) (auto simp: D_def[symmetric])
    moreover have "same_geometry s s2" using s1(1) ok2 by (simp add: same_geometry_def s2_def)
    ultimately show ?thesis using same_geometry_trans[OF _ j(1)] by blast
  qed
qed


lemma transfer_read_spec:
  "\<lbrakk>nvme_ok s; lba + count \<le> nv_total s; count \<le> rounds; p + count * 512 \<le> length buf;
    transfer_read rounds lba count p buf s = (ok, buf', s')\<rbrakk> \<Longrightarrow>
    same_geometry s s' \<and> ns_medium (hw s') = ns_medium (hw s) \<and>
    (\<exists>k \<le> count. buf' = write_at buf p (sectors_at (ns_medium (hw s)) lba k) \<and> (ok \<longrightarrow> k = count))"
proof (induction rounds arbitrary: lba count p buf s)
  case 0
  then show ?case by (auto simp: transfer_read.simps same_geometry_def)
next
  case (Suc rounds)
  show ?case
  proof (cases "count = 0")
    case True
    then show ?thesis using Suc.prems by (auto simp: transfer_read.simps same_geometry_def)
  next
    case False
    obtain block offset blocks span where pl: "plan s lba count = (block, offset, blocks, span)" by (metis prod_cases4)
    have c: "0 < count" using False by simp
    note P = plan_spec[OF Suc.prems(1) c pl]
    obtain ok1 buf1 s1 where rr: "nvme_read_round lba count p buf s = (ok1, buf1, s1)" by (metis prod_cases3)
    note R = read_round_spec[OF Suc.prems(1) c Suc.prems(2) pl rr]
    let ?m = "ns_medium (hw s)"
    have m: "\<And>i. length (?m i) = 512" using Suc.prems(1) by (simp add: nvme_ok_def)
    show ?thesis
    proof (cases ok1)
      case False
      then have "ok = False" "buf' = buf" "s' = s1" using Suc.prems(5) rr R c pl by (auto simp: transfer_read.simps)
      then show ?thesis using R False by (auto intro: exI[of _ 0])
    next
      case True
      let ?span = "sectors_at ?m lba span"
      have b1: "buf1 = write_at buf p ?span" using R True by simp
      have ls: "length ?span = span * 512" by (rule length_sectors_at[OF m])
      have sc: "span * 512 \<le> count * 512" using P(6) by (rule mult_le_mono1)
      have l1: "length buf1 = length buf" using b1 ls sc Suc.prems(4) by simp
      have rest: "transfer_read rounds (lba + span) (count - span) (p + span * 512) buf1 s1 = (ok, buf', s')"
        using Suc.prems(5) rr True c pl by (simp add: transfer_read.simps[of "Suc rounds"] b1)
      have ih: "same_geometry s1 s' \<and> ns_medium (hw s') = ns_medium (hw s1) \<and>
        (\<exists>k \<le> count - span. buf' = write_at buf1 (p + span * 512) (sectors_at (ns_medium (hw s1)) (lba + span) k) \<and> (ok \<longrightarrow> k = count - span))"
        using Suc.prems(2-4) P(5,6) R l1
        by (intro Suc.IH[OF _ _ _ _ rest]) (auto simp: same_geometry_def diff_mult_distrib)
      then obtain k where k: "k \<le> count - span" "buf' = write_at buf1 (p + span * 512) (sectors_at ?m (lba + span) k)"
          "ok \<longrightarrow> k = count - span"
        using R by auto
      have "buf' = write_at buf p (sectors_at ?m lba (span + k))"
        unfolding k(2) b1 sectors_at_add using ls Suc.prems(4) by (intro write_at_adjacent) simp_all
      moreover have "span + k \<le> count" "ok \<longrightarrow> span + k = count" using k P(6) by auto
      ultimately show ?thesis using ih R same_geometry_trans by metis
    qed
  qed
qed

lemma transfer_write_spec:
  "\<lbrakk>nvme_ok s; lba + count \<le> nv_total s; count \<le> rounds; count * 512 \<le> length data;
    transfer_write rounds lba count data s = (ok, s')\<rbrakk> \<Longrightarrow>
    same_geometry s s' \<and> write_ok (ns_medium (hw s)) lba count data ok (ns_medium (hw s'))"
proof (induction rounds arbitrary: lba count data s)
  case 0
  then show ?case by (auto simp: transfer_write.simps same_geometry_def write_ok_def)
next
  case (Suc rounds)
  show ?case
  proof (cases "count = 0")
    case True
    then show ?thesis using Suc.prems by (auto simp: transfer_write.simps same_geometry_def write_ok_def)
  next
    case False
    obtain block offset blocks span where pl: "plan s lba count = (block, offset, blocks, span)" by (metis prod_cases4)
    have c: "0 < count" using False by simp
    note P = plan_spec[OF Suc.prems(1) c pl]
    obtain ok1 s1 where rr: "nvme_write_round lba count data s = (ok1, s1)" by fastforce
    note R = write_round_spec[OF Suc.prems(1) c Suc.prems(2) pl Suc.prems(4) rr]
    let ?m = "ns_medium (hw s)"
    show ?thesis
    proof (cases ok1)
      case False
      then have "ok = False" "s' = s1" using Suc.prems(5) rr c pl by (auto simp: transfer_write.simps)
      moreover have "write_ok ?m lba count data False (ns_medium (hw s1))"
        using R False P(6) by (auto simp: write_ok_def intro: le_trans)
      ultimately show ?thesis using R by simp
    next
      case True
      have rest: "transfer_write rounds (lba + span) (count - span) (drop (span * 512) data) s1 = (ok, s')"
        using Suc.prems(5) rr True c pl by (simp add: transfer_write.simps[of "Suc rounds"])
      have m1: "ns_medium (hw s1) = put_sectors ?m lba span data" using R True by (auto simp: write_ok_def)
      have ih: "same_geometry s1 s' \<and>
          write_ok (ns_medium (hw s1)) (lba + span) (count - span) (drop (span * 512) data) ok (ns_medium (hw s'))"
        using Suc.prems(2-4) P(5,6) R
        by (intro Suc.IH[OF _ _ _ _ rest]) (auto simp: same_geometry_def diff_mult_distrib)
      then have "write_ok ?m lba count data ok (ns_medium (hw s'))"
        using write_ok_append[of ?m lba span data "count - span" ok "ns_medium (hw s')" count] m1 P(6) by simp
      then show ?thesis using ih R same_geometry_trans by blast
    qed
  qed
qed

text \<open>Out of range, or after the controller has been given up, a request fails and changes nothing.\<close>

definition nvme_view :: "nvme \<Rightarrow> nat \<Rightarrow> u8 list" where
  "nvme_view s = ns_medium (hw s)"

interpretation nd: block_device
  "\<lambda>lba n. nvme_read_sectors (of_nat lba) (of_nat n)" "\<lambda>lba n. nvme_write_sectors (of_nat lba) (of_nat n)"
  nvme_view nv_total nvme_ok
proof
  fix d d' :: nvme and lba n buf buf' data ok
  show "length (nvme_view d i) = 512" if "nvme_ok d" for i using that by (simp add: nvme_ok_def nvme_view_def)
  assume wf: "nvme_ok d" and b: "lba + n \<le> nv_total d"
  have l: "unat (of_nat n :: u32) = n" using b wf by (intro unat_of_nat_u32) (simp add: nvme_ok_def)
  have u: "unat (of_nat lba :: u32) = lba" using b wf by (intro unat_of_nat_u32) (simp add: nvme_ok_def)
  have tot: "snd (nvme_total_sectors d) = d" using wf by (simp add: nvme_total_sectors_def nvme_ok_def Let_def)
  have sg: "nvme_ok d' \<and> nv_total d' = nv_total d" if "same_geometry d d'" for d' using that by (simp add: same_geometry_def)
  { assume len: "n * 512 \<le> length buf" and r: "nvme_read_sectors (of_nat lba) (of_nat n) buf d = (ok, buf', d')"
    show "nvme_ok d' \<and> nv_total d' = nv_total d \<and> nvme_view d' = nvme_view d \<and> read_ok (nvme_view d) lba n buf ok buf'"
    proof (cases "fst (nvme_total_sectors d) = 0 \<or> out_of_range d lba n")
      case True
      then show ?thesis using r wf tot l u
        by (auto simp: nvme_read_sectors_def read_ok_refl split: prod.splits)
    next
      case False
      then have "transfer_read n lba n 0 buf d = (ok, buf', d')"
        using r tot l u by (auto simp: nvme_read_sectors_def split: prod.splits)
      from transfer_read_spec[OF wf b _ _ this] len obtain k where k: "same_geometry d d'" "nvme_view d' = nvme_view d"
          "k \<le> n" "buf' = write_at buf 0 (sectors_at (nvme_view d) lba k)" "ok \<longrightarrow> k = n"
        by (auto simp: nvme_view_def)
      have lk: "length (sectors_at (nvme_view d) lba j) = j * 512" for j
        by (rule length_sectors_at) (use wf in \<open>simp add: nvme_ok_def nvme_view_def\<close>)
      have "k * 512 \<le> n * 512" using k(3) by (rule mult_le_mono1)
      then have "read_ok (nvme_view d) lba n buf ok buf'"
        using k(4,5) lk len by (auto simp: read_ok_def drop_write_at_after write_at_def)
      then show ?thesis using k(1,2) sg by simp
    qed }
  { assume len: "n * 512 \<le> length data" and r: "nvme_write_sectors (of_nat lba) (of_nat n) data d = (ok, d')"
    show "nvme_ok d' \<and> nv_total d' = nv_total d \<and> write_ok (nvme_view d) lba n data ok (nvme_view d')"
    proof (cases "fst (nvme_total_sectors d) = 0 \<or> out_of_range d lba n")
      case True
      then show ?thesis using r wf tot l u
        by (auto simp: nvme_write_sectors_def write_ok_refl split: prod.splits)
    next
      case False
      obtain ok1 s1 where t: "transfer_write n lba n data d = (ok1, s1)" by fastforce
      have T: "same_geometry d s1" "write_ok (nvme_view d) lba n data ok1 (nvme_view s1)"
        using transfer_write_spec[OF wf b _ len t] by (simp_all add: nvme_view_def)
      have r': "(if \<not> ok1 then (False, s1) else nvme_flush s1) = (ok, d')"
        using False r tot l u t by (auto simp: nvme_write_sectors_def split: prod.splits)
      show ?thesis
      proof (cases ok1)
        case False
        then show ?thesis using r' T sg by auto
      next
        case True
        then have "nvme_flush s1 = (ok, d')" using r' by simp
        from nvme_flush_spec[OF _ this] T(1) have "same_geometry s1 d'" "nvme_view d' = nvme_view s1"
          by (simp_all add: same_geometry_def nvme_view_def)
        then show ?thesis using T True sg same_geometry_trans[OF T(1)] by (auto simp: write_ok_def)
      qed
    qed }
qed

end
