(* ===== verification/Disk.thy ===== *)
theory Disk
  imports Ata Nvme
begin

text \<open>
  The choice between the two drivers, \<open>drivers/disk.c\<close>: the first device that reports a size is used
  from then on.  The disk is a block device whichever driver it uses.
\<close>

section \<open>Definitions\<close>

datatype backend = BACKEND_NONE | BACKEND_ATA | BACKEND_NVME

record disk =
  disk_backend :: backend
  disk_total :: nat
  ata :: ata_dev
  nvme_drv :: nvme

definition probe :: "disk \<Rightarrow> disk" where
  "probe d =
     (let (sectors, a) = ata_total_sectors (ata d); d = d\<lparr>ata := a\<rparr> in
      if sectors \<noteq> 0 then d\<lparr>disk_backend := BACKEND_ATA, disk_total := unat sectors\<rparr>
      else
        let (sectors, v) = nvme_total_sectors (nvme_drv d); d = d\<lparr>nvme_drv := v\<rparr> in
        if sectors \<noteq> 0 then d\<lparr>disk_backend := BACKEND_NVME, disk_total := sectors\<rparr> else d)"

definition probed :: "disk \<Rightarrow> disk" where
  "probed d = (if disk_backend d = BACKEND_NONE then probe d else d)"

definition disk_total_sectors :: "disk \<Rightarrow> nat \<times> disk" where
  "disk_total_sectors d =
     (let d = probed d in (if disk_backend d = BACKEND_NONE then 0 else disk_total d, d))"

definition disk_name :: "disk \<Rightarrow> string \<times> disk" where
  "disk_name d =
     (let d = probed d
      in (case disk_backend d of BACKEND_ATA \<Rightarrow> ''ata'' | BACKEND_NVME \<Rightarrow> ''nvme'' | BACKEND_NONE \<Rightarrow> ''none'', d))"

definition disk_read_sectors :: "u32 \<Rightarrow> u32 \<Rightarrow> u8 list \<Rightarrow> disk \<Rightarrow> bool \<times> u8 list \<times> disk" where
  "disk_read_sectors lba count buf d =
     (let d = probed d
      in case disk_backend d of
        BACKEND_ATA \<Rightarrow> (let (ok, buf, a) = ata_read_sectors lba count buf (ata d) in (ok, buf, d\<lparr>ata := a\<rparr>))
      | BACKEND_NVME \<Rightarrow> (let (ok, buf, v) = nvme_read_sectors lba count buf (nvme_drv d) in (ok, buf, d\<lparr>nvme_drv := v\<rparr>))
      | BACKEND_NONE \<Rightarrow> (False, buf, d))"

definition disk_write_sectors :: "u32 \<Rightarrow> u32 \<Rightarrow> u8 list \<Rightarrow> disk \<Rightarrow> bool \<times> disk" where
  "disk_write_sectors lba count data d =
     (let d = probed d
      in case disk_backend d of
        BACKEND_ATA \<Rightarrow> (let (ok, a) = ata_write_sectors lba count data (ata d) in (ok, d\<lparr>ata := a\<rparr>))
      | BACKEND_NVME \<Rightarrow> (let (ok, v) = nvme_write_sectors lba count data (nvme_drv d) in (ok, d\<lparr>nvme_drv := v\<rparr>))
      | BACKEND_NONE \<Rightarrow> (False, d))"

definition disk_read_sector :: "u32 \<Rightarrow> u8 list \<Rightarrow> disk \<Rightarrow> bool \<times> u8 list \<times> disk" where
  "disk_read_sector lba buf d = disk_read_sectors lba 1 buf d"

definition disk_write_sector :: "u32 \<Rightarrow> u8 list \<Rightarrow> disk \<Rightarrow> bool \<times> disk" where
  "disk_write_sector lba data d = disk_write_sectors lba 1 data d"


section \<open>The disk is a block device\<close>

text \<open>The invariant after the probe: the size is one the driver in use can address.\<close>

definition disk_medium :: "disk \<Rightarrow> nat \<Rightarrow> u8 list" where
  "disk_medium d = (if disk_backend d = BACKEND_NVME then nvme_view (nvme_drv d) else ata_medium (ata d))"

definition disk_wf :: "disk \<Rightarrow> bool" where
  "disk_wf d \<longleftrightarrow> (case disk_backend d of
      BACKEND_NONE \<Rightarrow> False
    | BACKEND_ATA \<Rightarrow> ata_ok (ata d) \<and> disk_total d \<le> ata_cap (ata d)
    | BACKEND_NVME \<Rightarrow> nvme_ok (nvme_drv d) \<and> disk_total d \<le> nv_total (nvme_drv d))"

lemma disk_wf_probed: "disk_wf d \<Longrightarrow> probed d = d"
  by (auto simp: disk_wf_def probed_def)

interpretation bd: block_device
  "\<lambda>lba n. disk_read_sectors (of_nat lba) (of_nat n)" "\<lambda>lba n. disk_write_sectors (of_nat lba) (of_nat n)"
  disk_medium disk_total disk_wf
proof
  fix d d' lba n buf buf' data ok
  show "length (disk_medium d i) = 512" if "disk_wf d" for i
    using that ad.view_length nd.view_length by (auto simp: disk_wf_def disk_medium_def split: backend.splits)
  assume wf: "disk_wf d" and b: "lba + n \<le> disk_total d"
  note p = disk_wf_probed[OF wf]
  { assume len: "n * 512 \<le> length buf" and r: "disk_read_sectors (of_nat lba) (of_nat n) buf d = (ok, buf', d')"
    show "disk_wf d' \<and> disk_total d' = disk_total d \<and> disk_medium d' = disk_medium d \<and> read_ok (disk_medium d) lba n buf ok buf'"
    proof (cases "disk_backend d")
      case BACKEND_NONE
      then show ?thesis using wf by (simp add: disk_wf_def)
    next
      case BACKEND_ATA
      obtain a where a: "ata_read_sectors (of_nat lba) (of_nat n) buf (ata d) = (ok, buf', a)" "d' = d\<lparr>ata := a\<rparr>"
        using r p BACKEND_ATA by (auto simp: disk_read_sectors_def Let_def split: prod.splits)
      have w: "ata_ok (ata d)" "lba + n \<le> ata_cap (ata d)" using wf b BACKEND_ATA by (simp_all add: disk_wf_def)
      show ?thesis using ad.rd_law[OF w len a(1)] wf BACKEND_ATA a(2) by (simp add: disk_wf_def disk_medium_def)
    next
      case BACKEND_NVME
      obtain v where v: "nvme_read_sectors (of_nat lba) (of_nat n) buf (nvme_drv d) = (ok, buf', v)" "d' = d\<lparr>nvme_drv := v\<rparr>"
        using r p BACKEND_NVME by (auto simp: disk_read_sectors_def Let_def split: prod.splits)
      have w: "nvme_ok (nvme_drv d)" "lba + n \<le> nv_total (nvme_drv d)" using wf b BACKEND_NVME by (simp_all add: disk_wf_def)
      show ?thesis using nd.rd_law[OF w len v(1)] wf BACKEND_NVME v(2) by (simp add: disk_wf_def disk_medium_def)
    qed }
  { assume len: "n * 512 \<le> length data" and r: "disk_write_sectors (of_nat lba) (of_nat n) data d = (ok, d')"
    show "disk_wf d' \<and> disk_total d' = disk_total d \<and> write_ok (disk_medium d) lba n data ok (disk_medium d')"
    proof (cases "disk_backend d")
      case BACKEND_NONE
      then show ?thesis using wf by (simp add: disk_wf_def)
    next
      case BACKEND_ATA
      obtain a where a: "ata_write_sectors (of_nat lba) (of_nat n) data (ata d) = (ok, a)" "d' = d\<lparr>ata := a\<rparr>"
        using r p BACKEND_ATA by (auto simp: disk_write_sectors_def Let_def split: prod.splits)
      have w: "ata_ok (ata d)" "lba + n \<le> ata_cap (ata d)" using wf b BACKEND_ATA by (simp_all add: disk_wf_def)
      show ?thesis using ad.wr_law[OF w len a(1)] wf BACKEND_ATA a(2) by (simp add: disk_wf_def disk_medium_def)
    next
      case BACKEND_NVME
      obtain v where v: "nvme_write_sectors (of_nat lba) (of_nat n) data (nvme_drv d) = (ok, v)" "d' = d\<lparr>nvme_drv := v\<rparr>"
        using r p BACKEND_NVME by (auto simp: disk_write_sectors_def Let_def split: prod.splits)
      have w: "nvme_ok (nvme_drv d)" "lba + n \<le> nv_total (nvme_drv d)" using wf b BACKEND_NVME by (simp_all add: disk_wf_def)
      show ?thesis using nd.wr_law[OF w len v(1)] wf BACKEND_NVME v(2) by (simp add: disk_wf_def disk_medium_def)
    qed }
qed

end
