(* ===== verification/Fs_Fat.thy ===== *)
theory Fs_Fat
  imports Disk
begin

text \<open>
  The file system (\<open>kernel/fs.c\<close>), first part: its state, the block layer, the file allocation table
  behind its one-sector write-back cache, and the allocation and release of clusters.

  Sector and cluster numbers are natural numbers: the checks of \<open>superblock_check\<close> keep the sums
  the code forms below \<open>2^32\<close>, and where a check itself can overflow the reduction modulo \<open>2^32\<close> is
  written out.  The buffers are byte lists; the code reads and writes the 32-bit entries of the
  cache through an \<open>unsigned int\<close> pointer, little-endian on this machine.

  An operation takes the state and returns a result, an error code or a value, with the new state.
\<close>

section \<open>State and results\<close>

datatype fs_error = FS_ERR_IO | FS_ERR_NODEV | FS_ERR_NOFS | FS_ERR_NOENT | FS_ERR_EXIST | FS_ERR_NOSPC
  | FS_ERR_NAME | FS_ERR_INVAL | FS_ERR_CORRUPT | FS_ERR_TOOSMALL | FS_ERR_TOOBIG

record super_block =
  sb_magic :: nat
  sb_version :: nat
  total_sectors :: nat
  cluster_sectors :: nat
  cluster_count :: nat
  fat_sectors :: nat
  data_start :: nat
  root_cluster :: nat

record fs_state =
  sb :: super_block
  mounted :: bool
  disk_sectors :: nat
  cluster_shift :: nat
  next_free :: nat
  fat_cache_sector :: nat
  fat_dirty :: bool
  fat_cache :: "u8 list"
  dir_buf :: "u8 list"
  io_buf :: "u8 list"
  drive :: disk

abbreviation NO_SECTOR :: nat where "NO_SECTOR \<equiv> 4294967295"
abbreviation CHAIN_END :: nat where "CHAIN_END \<equiv> 4294967295"
abbreviation FS_LBA_START :: nat where "FS_LBA_START \<equiv> 4096"

type_synonym ('a, 's) op = "'s \<Rightarrow> (fs_error + 'a) \<times> 's"
type_synonym 'a fs = "('a, fs_state) op"

text \<open>Running on after a success: the code's \<open>if (result != FS_OK) return result;\<close>.\<close>

definition andThen :: "('a, 's) op \<Rightarrow> ('a \<Rightarrow> ('b, 's) op) \<Rightarrow> ('b, 's) op" where
  "andThen m f s = (case m s of (Inl e, s) \<Rightarrow> (Inl e, s) | (Inr a, s) \<Rightarrow> f a s)"

definition fail :: "fs_error \<Rightarrow> ('a, 's) op" where
  "fail e s = (Inl e, s)"


section \<open>Blocks\<close>

text \<open>A read returns the buffer, which a failure may have changed too.\<close>

definition block_read :: "nat \<Rightarrow> u8 list \<Rightarrow> fs_state \<Rightarrow> bool \<times> u8 list \<times> fs_state" where
  "block_read sector buf s =
     (let (ok, buf, d) = disk_read_sector (of_nat (FS_LBA_START + sector)) buf (drive s) in (ok, buf, s\<lparr>drive := d\<rparr>))"

definition block_write :: "nat \<Rightarrow> u8 list \<Rightarrow> unit fs" where
  "block_write sector data s =
     (let (ok, d) = disk_write_sector (of_nat (FS_LBA_START + sector)) data (drive s)
      in (if ok then Inr () else Inl FS_ERR_IO, s\<lparr>drive := d\<rparr>))"

definition blocks_read :: "nat \<Rightarrow> nat \<Rightarrow> u8 list \<Rightarrow> fs_state \<Rightarrow> bool \<times> u8 list \<times> fs_state" where
  "blocks_read sector n buf s =
     (let (ok, buf, d) = disk_read_sectors (of_nat (FS_LBA_START + sector)) (of_nat n) buf (drive s) in (ok, buf, s\<lparr>drive := d\<rparr>))"

definition blocks_write :: "nat \<Rightarrow> nat \<Rightarrow> u8 list \<Rightarrow> unit fs" where
  "blocks_write sector n data s =
     (let (ok, d) = disk_write_sectors (of_nat (FS_LBA_START + sector)) (of_nat n) data (drive s)
      in (if ok then Inr () else Inl FS_ERR_IO, s\<lparr>drive := d\<rparr>))"

definition load_u32 :: "u8 list \<Rightarrow> u32" where
  "load_u32 bytes = ucast (bytes ! 0) OR push_bit 8 (ucast (bytes ! 1)) OR
     push_bit 16 (ucast (bytes ! 2)) OR push_bit 24 (ucast (bytes ! 3))"

definition le32_bytes :: "u32 \<Rightarrow> u8 list" where
  "le32_bytes v = [ucast v, ucast (drop_bit 8 v), ucast (drop_bit 16 v), ucast (drop_bit 24 v)]"

text \<open>The 32-bit cell \<open>i\<close> of a buffer, read and written.\<close>

definition u32_at :: "u8 list \<Rightarrow> nat \<Rightarrow> nat" where
  "u32_at buf i = unat (load_u32 (drop (4 * i) buf))"

definition set_u32 :: "u8 list \<Rightarrow> nat \<Rightarrow> nat \<Rightarrow> u8 list" where
  "set_u32 buf i v = write_at buf (4 * i) (le32_bytes (of_nat v))"

definition fat_sectors_for :: "nat \<Rightarrow> nat" where
  "fat_sectors_for clusters = ((clusters + 1 + 128 - 1) mod 4294967296) div 128"

definition cluster_sector :: "fs_state \<Rightarrow> nat \<Rightarrow> nat" where
  "cluster_sector s cluster = data_start (sb s) + (cluster - 1) * 2 ^ cluster_shift s"


section \<open>The allocation table\<close>

definition fat_flush :: "unit fs" where
  "fat_flush s =
     (if \<not> fat_dirty s then (Inr (), s)
      else case block_write (fat_cache_sector s) (fat_cache s) s of
        (Inr _, s) \<Rightarrow> (Inr (), s\<lparr>fat_dirty := False\<rparr>)
      | (Inl e, s) \<Rightarrow> (Inl e, s))"

definition fat_load :: "nat \<Rightarrow> unit fs" where
  "fat_load sector s =
     (if fat_cache_sector s = sector then (Inr (), s)
      else andThen fat_flush (\<lambda>_ s.
        let (ok, buf, s) = block_read sector (fat_cache s) s;
            s = s\<lparr>fat_cache := buf\<rparr>
        in if \<not> ok then (Inl FS_ERR_IO, s\<lparr>fat_cache_sector := NO_SECTOR\<rparr>)
        else (Inr (), s\<lparr>fat_cache_sector := sector\<rparr>)) s)"

definition fat_get :: "nat \<Rightarrow> nat fs" where
  "fat_get cluster s =
     (if cluster = 0 \<or> cluster > cluster_count (sb s) then (Inl FS_ERR_CORRUPT, s)
      else andThen (fat_load (1 + cluster div 128))
        (\<lambda>_ s. (Inr (u32_at (fat_cache s) (cluster mod 128)), s)) s)"

definition fat_set :: "nat \<Rightarrow> nat \<Rightarrow> unit fs" where
  "fat_set cluster v s =
     (if cluster = 0 \<or> cluster > cluster_count (sb s) then (Inl FS_ERR_CORRUPT, s)
      else andThen (fat_load (1 + cluster div 128))
        (\<lambda>_ s. (Inr (), s\<lparr>fat_cache := set_u32 (fat_cache s) (cluster mod 128) v, fat_dirty := True\<rparr>)) s)"

definition chain_next :: "nat \<Rightarrow> nat fs" where
  "chain_next cluster =
     andThen (fat_get cluster) (\<lambda>v s.
       if v = CHAIN_END then (Inr 0, s)
       else if v < 1 \<or> v > cluster_count (sb s) then (Inl FS_ERR_CORRUPT, s)
       else (Inr v, s))"

text \<open>The search for a free cluster; the first argument is the number of candidates left.\<close>

primrec alloc_loop :: "nat \<Rightarrow> nat \<Rightarrow> nat fs" where
  "alloc_loop 0 candidate s = (Inl FS_ERR_NOSPC, s)"
| "alloc_loop (Suc k) candidate s =
     andThen (fat_get candidate) (\<lambda>v s.
       if v = 0 then
         andThen (fat_set candidate CHAIN_END) (\<lambda>_ s. (Inr candidate, s\<lparr>next_free := candidate + 1\<rparr>)) s
       else alloc_loop k (if candidate + 1 > cluster_count (sb s) then 1 else candidate + 1) s) s"

definition cluster_alloc :: "nat fs" where
  "cluster_alloc s =
     (let candidate = next_free s;
          candidate = (if candidate < 1 \<or> candidate > cluster_count (sb s) then 1 else candidate)
      in alloc_loop (cluster_count (sb s)) candidate s)"

definition cluster_free :: "nat \<Rightarrow> unit fs" where
  "cluster_free cluster =
     andThen (fat_set cluster 0)
       (\<lambda>_ s. (Inr (), if cluster < next_free s then s\<lparr>next_free := cluster\<rparr> else s))"

text \<open>The first argument is \<open>sb.cluster_count - steps\<close>.\<close>

fun chain_free_loop :: "nat \<Rightarrow> nat \<Rightarrow> unit fs" where
  "chain_free_loop k cluster s =
     (if cluster = 0 then (Inr (), s)
      else andThen (chain_next cluster) (\<lambda>nxt.
        andThen (cluster_free cluster) (\<lambda>_.
          case k of 0 \<Rightarrow> fail FS_ERR_CORRUPT | Suc k \<Rightarrow> chain_free_loop k nxt)) s)"

declare chain_free_loop.simps [simp del]

definition chain_free :: "nat \<Rightarrow> unit fs" where
  "chain_free first s = chain_free_loop (cluster_count (sb s)) first s"

text \<open>The loop over the sectors of a cluster; the first argument is the number of sectors left.\<close>

primrec cluster_zero_loop :: "nat \<Rightarrow> nat \<Rightarrow> unit fs" where
  "cluster_zero_loop 0 sector s = (Inr (), s)"
| "cluster_zero_loop (Suc k) sector s =
     andThen (block_write sector (replicate 512 0)) (\<lambda>_. cluster_zero_loop k (sector + 1)) s"

definition cluster_zero :: "nat \<Rightarrow> unit fs" where
  "cluster_zero cluster s = cluster_zero_loop (2 ^ cluster_shift s) (cluster_sector s cluster) s"


section \<open>Cells of a buffer\<close>

lemma load_u32_bytes: "load_u32 (le32_bytes v @ rest) = v"
proof (rule bit_word_eqI)
  fix n assume "n < LENGTH(32)"
  then show "bit (load_u32 (le32_bytes v @ rest)) n = bit v n"
    by (cases "n < 8"; cases "n < 16"; cases "n < 24")
      (auto simp: load_u32_def le32_bytes_def bit_simps not_less)
qed

lemma length_le32_bytes [simp]: "length (le32_bytes v) = 4"
  by (simp add: le32_bytes_def)

lemma u32_at_lt [simp]: "u32_at buf i < 4294967296"
  by (simp add: u32_at_def)

lemma load_u32_take: "load_u32 (take 4 xs) = load_u32 xs"
  by (simp add: load_u32_def)

lemma length_set_u32 [simp]: "4 * i + 4 \<le> length buf \<Longrightarrow> length (set_u32 buf i v) = length buf"
  by (simp add: set_u32_def)

lemma u32_at_set:
  assumes "4 * i + 4 \<le> length buf"
  shows "u32_at (set_u32 buf i v) j = (if j = i then v mod 4294967296 else u32_at buf j)"
proof (cases "j = i")
  case True
  have "drop (4 * i) (set_u32 buf i v) = le32_bytes (of_nat v) @ drop (4 * i + 4) buf"
    using assms by (simp add: set_u32_def write_at_def)
  then show ?thesis using True by (simp add: u32_at_def load_u32_bytes unsigned_of_nat take_bit_eq_mod)
next
  case False
  then have "4 * j + 4 \<le> 4 * i \<or> 4 * i + 4 \<le> 4 * j" by linarith
  then have "chunk (set_u32 buf i v) (4 * j) 4 = chunk buf (4 * j) 4"
    unfolding set_u32_def using assms by (intro chunk_write_at_disjoint) auto
  moreover have "u32_at b j = unat (load_u32 (chunk b (4 * j) 4))" for b
    unfolding u32_at_def chunk_def load_u32_take ..
  ultimately show ?thesis using False by simp
qed


section \<open>The table behind the cache\<close>

definition blk :: "fs_state \<Rightarrow> nat \<Rightarrow> u8 list" where
  "blk s i = disk_medium (drive s) (FS_LBA_START + i)"

definition fat_sec :: "fs_state \<Rightarrow> nat \<Rightarrow> u8 list" where
  "fat_sec s i = (if fat_cache_sector s = i \<and> i \<noteq> NO_SECTOR then fat_cache s else blk s i)"

text \<open>The abstract table: the value of every cluster, wherever its sector is.\<close>

definition fat_view :: "fs_state \<Rightarrow> nat \<Rightarrow> nat" where
  "fat_view s c = (if c div 128 < fat_sectors (sb s) then u32_at (fat_sec s (1 + c div 128)) (c mod 128) else 0)"

text \<open>The geometry \<open>superblock_check\<close> establishes, and the invariant of the buffers and the cache.\<close>

definition geometry :: "fs_state \<Rightarrow> bool" where
  "geometry s \<longleftrightarrow> cluster_count (sb s) < 128 * fat_sectors (sb s) \<and> data_start (sb s) = 1 + fat_sectors (sb s) \<and>
     data_start (sb s) + cluster_count (sb s) * 2 ^ cluster_shift s \<le> total_sectors (sb s) \<and>
     total_sectors (sb s) + FS_LBA_START \<le> disk_sectors s \<and> disk_sectors s < 4294967296 \<and>
     1 \<le> root_cluster (sb s) \<and> root_cluster (sb s) \<le> cluster_count (sb s)"

definition fs_wf :: "fs_state \<Rightarrow> bool" where
  "fs_wf s \<longleftrightarrow> geometry s \<and> disk_wf (drive s) \<and> disk_sectors s \<le> disk_total (drive s) \<and>
     length (fat_cache s) = 512 \<and> length (dir_buf s) = 512 \<and> length (io_buf s) = 512 \<and>
     (fat_cache_sector s \<noteq> NO_SECTOR \<longrightarrow> 1 \<le> fat_cache_sector s \<and> fat_cache_sector s \<le> fat_sectors (sb s)) \<and>
     (fat_dirty s \<longrightarrow> fat_cache_sector s \<noteq> NO_SECTOR) \<and>
     (\<not> fat_dirty s \<and> fat_cache_sector s \<noteq> NO_SECTOR \<longrightarrow> fat_cache s = blk s (fat_cache_sector s))"

text \<open>What the operations on the table leave alone: everything but the table and the cache.\<close>

definition fat_frame :: "fs_state \<Rightarrow> fs_state \<Rightarrow> bool" where
  "fat_frame s s' \<longleftrightarrow> sb s' = sb s \<and> mounted s' = mounted s \<and> disk_sectors s' = disk_sectors s \<and>
     cluster_shift s' = cluster_shift s \<and> dir_buf s' = dir_buf s \<and> io_buf s' = io_buf s \<and>
     (\<forall>i. i = 0 \<or> data_start (sb s) \<le> i \<longrightarrow> blk s' i = blk s i)"

lemma fat_frame_refl [simp]: "fat_frame s s"
  by (simp add: fat_frame_def)

lemma fat_frame_trans: "fat_frame s s' \<Longrightarrow> fat_frame s' s'' \<Longrightarrow> fat_frame s s''"
  by (auto simp: fat_frame_def)

lemma length_blk: "fs_wf s \<Longrightarrow> length (blk s i) = 512"
  by (simp add: fs_wf_def blk_def bd.view_length)

lemma block_read_spec:
  assumes "disk_wf (drive s)" "FS_LBA_START + sector < disk_total (drive s)" "length buf = 512"
    and r: "block_read sector buf s = (ok, buf', s')"
  obtains d where "s' = s\<lparr>drive := d\<rparr>" "disk_wf d" "disk_total d = disk_total (drive s)"
    "disk_medium d = disk_medium (drive s)" "length buf' = 512" "ok \<longrightarrow> buf' = blk s sector"
proof -
  obtain d where d: "disk_read_sectors (of_nat (FS_LBA_START + sector)) (of_nat 1) buf (drive s) = (ok, buf', d)" "s' = s\<lparr>drive := d\<rparr>"
    using r by (auto simp: block_read_def disk_read_sector_def Let_def split: prod.splits)
  show thesis using that[OF d(2)] bd.rd_one[OF assms(1-3) d(1)] by (simp add: blk_def)
qed

lemma block_write_spec:
  assumes "disk_wf (drive s)" "FS_LBA_START + sector < disk_total (drive s)" "length data = 512"
    and w: "block_write sector data s = (r, s')"
  obtains d where "s' = s\<lparr>drive := d\<rparr>" "disk_wf d" "disk_total d = disk_total (drive s)" "r = Inr () \<or> r = Inl FS_ERR_IO"
    "r = Inr () \<longrightarrow> disk_medium d = (disk_medium (drive s))(FS_LBA_START + sector := data)"
    "disk_medium d = disk_medium (drive s) \<or> disk_medium d = (disk_medium (drive s))(FS_LBA_START + sector := data)"
proof -
  obtain ok d where d: "disk_write_sectors (of_nat (FS_LBA_START + sector)) (of_nat 1) data (drive s) = (ok, d)" "s' = s\<lparr>drive := d\<rparr>"
      "r = (if ok then Inr () else Inl FS_ERR_IO)"
    using w by (auto simp: block_write_def disk_write_sector_def Let_def split: prod.splits)
  show thesis using that[OF d(2)] bd.wr_one[OF assms(1-3) d(1)] d(3) by (cases ok) auto
qed

text \<open>The sectors of the table and of the clusters lie on the disk.\<close>

lemma on_disk: "\<lbrakk>fs_wf s; sector < total_sectors (sb s)\<rbrakk> \<Longrightarrow> FS_LBA_START + sector < disk_total (drive s)"
  by (simp add: fs_wf_def geometry_def)

lemma fat_flush_spec:
  assumes wf: "fs_wf s" and r: "fat_flush s = (r, s')"
  shows "fs_wf s' \<and> fat_frame s s' \<and> fat_sec s' = fat_sec s \<and> next_free s' = next_free s \<and>
    fat_cache_sector s' = fat_cache_sector s \<and> (r = Inr () \<or> r = Inl FS_ERR_IO) \<and>
    (r = Inr () \<longrightarrow> \<not> fat_dirty s' \<and> blk s' = fat_sec s)"
proof (cases "fat_dirty s")
  case False
  then have e: "r = Inr ()" "s' = s" using r by (auto simp: fat_flush_def)
  have "blk s i = fat_sec s i" for i using wf False by (auto simp: fat_sec_def fs_wf_def)
  then show ?thesis using wf False e by (simp add: fun_eq_iff)
next
  case True
  have w: "disk_wf (drive s)" "length (fat_cache s) = 512" "fat_cache_sector s \<noteq> NO_SECTOR"
    using wf True by (simp_all add: fs_wf_def)
  have fs: "1 \<le> fat_cache_sector s" "fat_cache_sector s < data_start (sb s)"
    using wf w(3) by (simp_all add: fs_wf_def geometry_def)
  obtain r1 s1 where b: "block_write (fat_cache_sector s) (fat_cache s) s = (r1, s1)" by fastforce
  have od: "FS_LBA_START + fat_cache_sector s < disk_total (drive s)"
    using fs(2) wf by (intro on_disk[OF wf]) (simp add: fs_wf_def geometry_def)
  obtain d where d: "s1 = s\<lparr>drive := d\<rparr>" "disk_wf d" "r1 = Inr () \<or> r1 = Inl FS_ERR_IO"
    "r1 = Inr () \<longrightarrow> disk_medium d = (disk_medium (drive s))(FS_LBA_START + fat_cache_sector s := fat_cache s)"
    "disk_medium d = disk_medium (drive s) \<or>
      disk_medium d = (disk_medium (drive s))(FS_LBA_START + fat_cache_sector s := fat_cache s)"
    "disk_total d = disk_total (drive s)"
    by (rule block_write_spec[OF w(1) od w(2) b]) blast
  have blk1: "i \<noteq> fat_cache_sector s \<Longrightarrow> blk s1 i = blk s i" for i
    using d(5) by (auto simp: blk_def d(1))
  have sec: "fat_sec s1 i = fat_sec s i" for i
    using blk1[of i] w(3) by (auto simp: fat_sec_def d(1))
  have fr: "fat_frame s s1" using blk1 fs by (auto simp: fat_frame_def d(1))
  show ?thesis
  proof (cases "r1 = Inr ()")
    case ok: True
    then have s': "r = Inr ()" "s' = s1\<lparr>fat_dirty := False\<rparr>" using r True b by (simp_all add: fat_flush_def)
    have b2: "blk s' i = fat_sec s i" for i
      using d(4) ok w(3) by (auto simp: blk_def fat_sec_def s' d(1))
    have "fs_wf s'"
      using wf w b2[of "fat_cache_sector s"] d(2,6) by (simp add: fs_wf_def s' d(1) geometry_def fat_sec_def)
    moreover have "fat_sec s' i = fat_sec s i" for i
    proof -
      have "fat_sec s' i = fat_sec s1 i" by (simp add: fat_sec_def s' blk_def)
      then show ?thesis using sec by simp
    qed
    moreover have "fat_frame s s'" using fr by (simp add: fat_frame_def s' blk_def)
    ultimately show ?thesis using b2 s' by (simp add: fun_eq_iff d(1))
  next
    case False
    then have s': "r = Inl FS_ERR_IO" "s' = s1" using r True b d(3) by (auto simp: fat_flush_def)
    have "fs_wf s'" using wf True d(2,6) by (simp add: fs_wf_def s' d(1) geometry_def)
    then show ?thesis using fr sec s' by (simp add: fun_eq_iff d(1))
  qed
qed

lemma andThen_cases:
  assumes "andThen m f s = (r, s')"
  obtains (err) e where "m s = (Inl e, s')" "r = Inl e"
    | (ok) a s1 where "m s = (Inr a, s1)" "f a s1 = (r, s')"
  using assms by (auto simp: andThen_def split: prod.splits sum.splits)

lemma fat_load_spec:
  assumes wf: "fs_wf s" and sec: "1 \<le> sector" "sector \<le> fat_sectors (sb s)" and r: "fat_load sector s = (r, s')"
  shows "fs_wf s' \<and> fat_frame s s' \<and> fat_sec s' = fat_sec s \<and> next_free s' = next_free s \<and>
    (r = Inr () \<or> r = Inl FS_ERR_IO) \<and> (r = Inr () \<longrightarrow> fat_cache_sector s' = sector)"
proof (cases "fat_cache_sector s = sector")
  case True
  then show ?thesis using r wf by (auto simp: fat_load_def)
next
  case False
  have nosec: "sector \<noteq> NO_SECTOR" using wf sec(2) by (auto simp: fs_wf_def geometry_def)
  let ?load = "\<lambda>_ s. let (ok, buf, s) = block_read sector (fat_cache s) s; s = s\<lparr>fat_cache := buf\<rparr>
        in if \<not> ok then (Inl FS_ERR_IO, s\<lparr>fat_cache_sector := NO_SECTOR\<rparr>)
        else (Inr (), s\<lparr>fat_cache_sector := sector\<rparr>)"
  have "andThen fat_flush ?load s = (r, s')" using r False by (simp add: fat_load_def)
  then show ?thesis
  proof (cases rule: andThen_cases)
    case (err e)
    then show ?thesis using fat_flush_spec[OF wf err(1)] by auto
  next
    case (ok a s1)
    note f = fat_flush_spec[OF wf ok(1)]
    have clean: "\<not> fat_dirty s1" "blk s1 = fat_sec s" "fs_wf s1" using f by (auto simp: unit_eq)
    have w: "disk_wf (drive s1)" "length (fat_cache s1) = 512" using clean(3) by (simp_all add: fs_wf_def)
    obtain okr buf s2 where b: "block_read sector (fat_cache s1) s1 = (okr, buf, s2)" by (metis prod_cases3)
    have "sector < total_sectors (sb s1)" using sec(2) f clean(3) by (simp add: fat_frame_def fs_wf_def geometry_def)
    then obtain d where d: "s2 = s1\<lparr>drive := d\<rparr>" "disk_wf d" "disk_medium d = disk_medium (drive s1)" "length buf = 512"
        "okr \<longrightarrow> buf = blk s1 sector" "disk_total d = disk_total (drive s1)"
      by (rule block_read_spec[OF w(1) on_disk[OF clean(3)] w(2) b]) blast
    have s': "s' = s2\<lparr>fat_cache := buf, fat_cache_sector := (if okr then sector else NO_SECTOR)\<rparr>"
        "r = (if okr then Inr () else Inl FS_ERR_IO)"
      using ok(2) b by (auto simp: Let_def split: if_splits)
    have blk': "blk s' = blk s1" using d(3) by (simp add: blk_def fun_eq_iff s' d(1))
    have fst1: "sb s1 = sb s" using f by (simp add: fat_frame_def)
    have "fs_wf s'"
      using clean d sec nosec fst1 blk' by (auto simp: fs_wf_def geometry_def s')
    moreover have "fat_sec s' i = fat_sec s i" for i
      using d(5) clean(2) nosec blk' by (auto simp: fat_sec_def s' fun_eq_iff)
    moreover have "fat_frame s1 s'" using blk' by (simp add: fat_frame_def s' d(1))
    ultimately show ?thesis using f fat_frame_trans[of s s1 s'] s' by (auto simp: fun_eq_iff d(1))
  qed
qed

lemma cluster_in_fat:
  assumes "fs_wf s" "1 \<le> c" "c \<le> cluster_count (sb s)"
  shows "1 \<le> 1 + c div 128" "1 + c div 128 \<le> fat_sectors (sb s)" "1 + c div 128 \<noteq> NO_SECTOR"
proof -
  have "c div 128 < fat_sectors (sb s)"
    using assms by (simp add: fs_wf_def geometry_def less_mult_imp_div_less mult.commute)
  then show "1 + c div 128 \<le> fat_sectors (sb s)" by simp
  then show "1 + c div 128 \<noteq> NO_SECTOR" using assms(1) by (auto simp: fs_wf_def geometry_def)
qed simp

text \<open>\<open>fat_same s s'\<close>: a step that changes no entry of the table and nothing else a client can see.\<close>

definition fat_same :: "fs_state \<Rightarrow> fs_state \<Rightarrow> bool" where
  "fat_same s s' \<longleftrightarrow> fs_wf s' \<and> fat_frame s s' \<and> fat_view s' = fat_view s \<and> next_free s' = next_free s"

lemma fat_same_refl: "fs_wf s \<Longrightarrow> fat_same s s"
  by (simp add: fat_same_def)

lemma fat_same_trans: "fat_same s s' \<Longrightarrow> fat_same s' s'' \<Longrightarrow> fat_same s s''"
  by (auto simp: fat_same_def dest: fat_frame_trans)

lemma fat_view_cong: "fat_sec s' = fat_sec s \<Longrightarrow> fat_frame s s' \<Longrightarrow> fat_view s' = fat_view s"
  by (simp add: fat_view_def fat_frame_def fun_eq_iff)

lemma fat_get_spec:
  assumes "fs_wf s" "fat_get c s = (r, s')"
  shows "fat_same s s' \<and>
    (if c = 0 \<or> c > cluster_count (sb s) then r = Inl FS_ERR_CORRUPT
     else r = Inr (fat_view s c) \<or> r = Inl FS_ERR_IO)"
proof (cases "c = 0 \<or> c > cluster_count (sb s)")
  case True
  then show ?thesis using assms by (auto simp: fat_get_def fat_same_refl)
next
  case False
  then have c: "1 \<le> c" "c \<le> cluster_count (sb s)" by simp_all
  have "andThen (fat_load (1 + c div 128)) (\<lambda>_ s. (Inr (u32_at (fat_cache s) (c mod 128)), s)) s = (r, s')"
    using assms(2) False by (simp add: fat_get_def)
  then show ?thesis
  proof (cases rule: andThen_cases)
    case (err e)
    then show ?thesis
      using fat_load_spec[OF assms(1) cluster_in_fat(1,2)[OF assms(1) c] err(1)] False
      by (auto simp: fat_same_def intro: fat_view_cong)
  next
    case (ok a s1)
    then have "s1 = s'" "r = Inr (u32_at (fat_cache s') (c mod 128))" by auto
    moreover have l: "fs_wf s' \<and> fat_frame s s' \<and> fat_sec s' = fat_sec s \<and> next_free s' = next_free s"
        "fat_cache_sector s' = 1 + c div 128"
      using fat_load_spec[OF assms(1) cluster_in_fat(1,2)[OF assms(1) c] ok(1)] \<open>s1 = s'\<close> by (auto simp: unit_eq)
    moreover have "fat_cache s' = fat_sec s (1 + c div 128)"
      using l cluster_in_fat(3)[OF assms(1) c] by (metis fat_sec_def)
    moreover have "fat_view s c = u32_at (fat_sec s (1 + c div 128)) (c mod 128)"
      using cluster_in_fat(2)[OF assms(1) c] by (simp add: fat_view_def)
    ultimately show ?thesis using False fat_view_cong[of s' s] by (auto simp: fat_same_def)
  qed
qed

lemma fat_set_spec:
  assumes "fs_wf s" "fat_set c v s = (r, s')"
  shows "fs_wf s' \<and> fat_frame s s' \<and> next_free s' = next_free s \<and>
    (if c = 0 \<or> c > cluster_count (sb s) then r = Inl FS_ERR_CORRUPT \<and> fat_view s' = fat_view s
     else (r = Inr () \<and> fat_view s' = (fat_view s)(c := v mod 4294967296)) \<or>
       (r = Inl FS_ERR_IO \<and> fat_view s' = fat_view s))"
proof (cases "c = 0 \<or> c > cluster_count (sb s)")
  case True
  then show ?thesis using assms by (auto simp: fat_set_def)
next
  case False
  then have c: "1 \<le> c" "c \<le> cluster_count (sb s)" by simp_all
  have "andThen (fat_load (1 + c div 128))
      (\<lambda>_ s. (Inr (), s\<lparr>fat_cache := set_u32 (fat_cache s) (c mod 128) v, fat_dirty := True\<rparr>)) s = (r, s')"
    using assms(2) False by (simp add: fat_set_def)
  then show ?thesis
  proof (cases rule: andThen_cases)
    case (err e)
    then show ?thesis
      using fat_load_spec[OF assms(1) cluster_in_fat(1,2)[OF assms(1) c] err(1)] False by (auto intro: fat_view_cong)
  next
    case (ok a s1)
    define j where "j = c mod 128"
    have s': "r = Inr ()" "s' = s1\<lparr>fat_cache := set_u32 (fat_cache s1) j v, fat_dirty := True\<rparr>"
      using ok(2) by (auto simp: j_def)
    have l: "fs_wf s1" "fat_frame s s1" "fat_sec s1 = fat_sec s" "next_free s1 = next_free s"
        "fat_cache_sector s1 = 1 + c div 128"
      using fat_load_spec[OF assms(1) cluster_in_fat(1,2)[OF assms(1) c] ok(1)] by (auto simp: unit_eq)
    have len: "length (fat_cache s1) = 512" "4 * j + 4 \<le> 512" using l(1) by (simp_all add: fs_wf_def j_def)
    have ns: "1 + c div 128 \<noteq> NO_SECTOR" by (rule cluster_in_fat(3)[OF assms(1) c])
    have wf': "fs_wf s'" using l(1,5) len ns by (auto simp: fs_wf_def geometry_def s' blk_def)
    have fr: "fat_frame s s'" using l(2) by (simp add: fat_frame_def s' blk_def)
    have sec: "fat_sec s' i = (if i = 1 + c div 128 then set_u32 (fat_sec s i) j v else fat_sec s i)" for i
    proof -
      have "fat_sec s' i = (if i = 1 + c div 128 then set_u32 (fat_cache s1) j v else fat_sec s1 i)"
        using l(5) ns by (auto simp: fat_sec_def s' blk_def)
      moreover have "fat_cache s1 = fat_sec s1 (1 + c div 128)" using l(5) ns by (simp add: fat_sec_def)
      ultimately show ?thesis using l(3) by simp
    qed
    have sbs: "sb s' = sb s" using fr by (simp add: fat_frame_def)
    have ls: "length (fat_sec s (1 + c div 128)) = 512" using len(1) l(3,5) ns by (metis fat_sec_def)
    have "fat_view s' x = ((fat_view s)(c := v mod 4294967296)) x" for x
    proof (cases "x div 128 = c div 128")
      case True
      have "x = c \<longleftrightarrow> x mod 128 = j" using True unfolding j_def by (metis div_mult_mod_eq)
      then show ?thesis
        using True sec[of "1 + x div 128"] u32_at_set[of j "fat_sec s (1 + c div 128)" v "x mod 128"] ls len(2)
        sbs cluster_in_fat(2)[OF assms(1) c] by (simp add: fat_view_def)
    next
      case False
      then show ?thesis using sec[of "1 + x div 128"] sbs by (auto simp: fat_view_def)
    qed
    then show ?thesis using False wf' fr l(4) s' by (simp add: fun_eq_iff)
  qed
qed


section \<open>Chains\<close>

text \<open>The successor an entry names, and the chain of clusters that starts at \<open>c\<close>; 0 is no cluster.\<close>

definition next_of :: "(nat \<Rightarrow> nat) \<Rightarrow> nat \<Rightarrow> nat" where
  "next_of fv c = (if fv c = CHAIN_END then 0 else fv c)"

primrec is_chain :: "(nat \<Rightarrow> nat) \<Rightarrow> nat \<Rightarrow> nat \<Rightarrow> nat list \<Rightarrow> bool" where
  "is_chain fv n c [] \<longleftrightarrow> c = 0"
| "is_chain fv n c (x # xs) \<longleftrightarrow> c = x \<and> 1 \<le> x \<and> x \<le> n \<and> (fv x = CHAIN_END \<or> 1 \<le> fv x \<and> fv x \<le> n) \<and> is_chain fv n (next_of fv x) xs"

lemma is_chain_0 [simp]: "is_chain fv n 0 cs \<longleftrightarrow> cs = []"
  by (cases cs) auto

lemma is_chain_unique: "is_chain fv n c xs \<Longrightarrow> is_chain fv n c ys \<Longrightarrow> xs = ys"
proof (induction xs arbitrary: c ys)
  case Nil
  then show ?case by simp
next
  case (Cons x xs)
  then show ?case by (cases ys) auto
qed

lemma is_chain_drop: "is_chain fv n c (xs @ y # ys) \<Longrightarrow> is_chain fv n y (y # ys)"
  by (induction xs arbitrary: c) auto

lemma is_chain_distinct: "is_chain fv n c cs \<Longrightarrow> distinct cs"
proof (induction cs arbitrary: c)
  case (Cons x xs)
  have "x \<notin> set xs"
  proof
    assume "x \<in> set xs"
    then obtain as bs where xs: "xs = as @ x # bs" by (meson split_list)
    have "is_chain fv n x (x # bs)" using is_chain_drop[of fv n c "x # as" x bs] Cons.prems xs by simp
    moreover have "is_chain fv n x (x # xs)" using Cons.prems by simp
    ultimately have "x # bs = x # xs" by (rule is_chain_unique)
    then show False using xs by simp
  qed
  then show ?case using Cons by auto
qed simp

lemma is_chain_cong: "(\<And>c. c \<in> set cs \<Longrightarrow> fv' c = fv c) \<Longrightarrow> is_chain fv' n c cs = is_chain fv n c cs"
  by (induction cs arbitrary: c) (auto simp: next_of_def)

lemma is_chain_range: "is_chain fv n c cs \<Longrightarrow> x \<in> set cs \<Longrightarrow> 1 \<le> x \<and> x \<le> n \<and> fv x \<noteq> 0"
  by (induction cs arbitrary: c) auto

lemma is_chain_length: "is_chain fv n c cs \<Longrightarrow> length cs \<le> n"
proof -
  assume a: "is_chain fv n c cs"
  have "set cs \<subseteq> {1..n}" using is_chain_range[OF a] by auto
  then have "card (set cs) \<le> n" using card_mono[of "{1..n}" "set cs"] by simp
  then show ?thesis using distinct_card[OF is_chain_distinct[OF a]] by simp
qed

lemma is_chain_next: "\<lbrakk>is_chain fv n c cs; i < length cs\<rbrakk> \<Longrightarrow>
    next_of fv (cs ! i) = (if i + 1 < length cs then cs ! (i + 1) else 0) \<and>
    (fv (cs ! i) = CHAIN_END \<or> 1 \<le> fv (cs ! i) \<and> fv (cs ! i) \<le> n)"
proof (induction cs arbitrary: c i)
  case (Cons x xs)
  show ?case
  proof (cases i)
    case 0
    then show ?thesis using Cons.prems(1) by (cases xs) auto
  next
    case (Suc j)
    then show ?thesis using Cons.IH[of "next_of fv x" j] Cons.prems by simp
  qed
qed simp

lemma is_chain_append:
  assumes "is_chain fv n c (cs @ [x])" "is_chain fv' n d ds" "ds \<noteq> []" "\<And>y. y \<in> set cs \<Longrightarrow> fv' y = fv y" "fv' x = d" "n < CHAIN_END"
  shows "is_chain fv' n c (cs @ x # ds)"
  using assms
proof (induction cs arbitrary: c)
  case Nil
  then obtain ds' where "ds = d # ds'" by (cases ds) auto
  then show ?case using Nil by (auto simp: next_of_def)
next
  case (Cons y ys)
  have "next_of fv' y = next_of fv y" "fv' y = fv y" using Cons.prems(4)[of y] by (simp_all add: next_of_def)
  then show ?case using Cons.IH[of "next_of fv y"] Cons.prems by simp
qed

lemma chain_next_spec:
  assumes "fs_wf s" "chain_next c s = (r, s')"
  shows "fat_same s s' \<and>
    (if 1 \<le> c \<and> c \<le> cluster_count (sb s) \<and> (fat_view s c = CHAIN_END \<or> 1 \<le> fat_view s c \<and> fat_view s c \<le> cluster_count (sb s))
     then r = Inr (next_of (fat_view s) c) \<or> r = Inl FS_ERR_IO
     else r = Inl FS_ERR_CORRUPT \<or> r = Inl FS_ERR_IO)"
proof -
  have "andThen (fat_get c) (\<lambda>v s. if v = CHAIN_END then (Inr 0, s)
       else if v < 1 \<or> v > cluster_count (sb s) then (Inl FS_ERR_CORRUPT, s) else (Inr v, s)) s = (r, s')"
    using assms(2) by (simp add: chain_next_def)
  then show ?thesis
  proof (cases rule: andThen_cases)
    case (err e)
    then show ?thesis using fat_get_spec[OF assms(1) err(1)] by (auto split: if_splits)
  next
    case (ok v s1)
    have g: "fat_same s s1" "v = fat_view s c" "1 \<le> c" "c \<le> cluster_count (sb s)"
      using fat_get_spec[OF assms(1) ok(1)] by (auto split: if_splits)
    have "sb s1 = sb s" using g(1) by (simp add: fat_same_def fat_frame_def)
    then show ?thesis using g ok(2) by (auto simp: next_of_def split: if_splits)
  qed
qed

lemma chain_next_in_chain:
  assumes "fs_wf s" "chain_next (cs ! i) s = (r, s')" "is_chain (fat_view s) (cluster_count (sb s)) c cs" "i < length cs"
  shows "fat_same s s' \<and> (r = Inr (if i + 1 < length cs then cs ! (i + 1) else 0) \<or> r = Inl FS_ERR_IO)"
  using chain_next_spec[OF assms(1,2)] is_chain_next[OF assms(3,4)] is_chain_range[OF assms(3), of "cs ! i"] assms(4)
  by (auto split: if_splits)


section \<open>Allocation\<close>

text \<open>\<open>fat_step s s'\<close>: the table may have changed, nothing else.\<close>

definition fat_step :: "fs_state \<Rightarrow> fs_state \<Rightarrow> bool" where
  "fat_step s s' \<longleftrightarrow> fs_wf s' \<and> fat_frame s s'"

lemma fat_step_refl: "fs_wf s \<Longrightarrow> fat_step s s"
  by (simp add: fat_step_def)

lemma fat_step_trans: "fat_step s s' \<Longrightarrow> fat_step s' s'' \<Longrightarrow> fat_step s s''"
  by (auto simp: fat_step_def dest: fat_frame_trans)

lemma fat_same_step: "fat_same s s' \<Longrightarrow> fat_step s s'"
  by (simp add: fat_same_def fat_step_def)

lemma fat_step_sb: "fat_step s s' \<Longrightarrow> sb s' = sb s \<and> cluster_shift s' = cluster_shift s \<and> mounted s' = mounted s"
  by (simp add: fat_step_def fat_frame_def)

text \<open>The candidates the search has yet to look at.\<close>

primrec candidates :: "nat \<Rightarrow> nat \<Rightarrow> nat \<Rightarrow> nat list" where
  "candidates 0 n c = []"
| "candidates (Suc k) n c = c # candidates k n (if c + 1 > n then 1 else c + 1)"

lemma candidates_conv: "\<lbrakk>1 \<le> c; c \<le> n\<rbrakk> \<Longrightarrow> candidates k n c = map (\<lambda>i. (c - 1 + i) mod n + 1) [0..<k]"
proof (induction k arbitrary: c)
  case (Suc k)
  have u: "map (\<lambda>i. (c - 1 + i) mod n + 1) [0..<Suc k] = c # map (\<lambda>i. (c - 1 + Suc i) mod n + 1) [0..<k]"
    unfolding upt_conv_Cons[OF zero_less_Suc] using Suc.prems by (simp add: map_Suc_upt[symmetric] del: upt_Suc)
  show ?case
  proof (cases "c + 1 > n")
    case True
    then have "c = n" using Suc.prems by simp
    then have "(c - 1 + Suc i) mod n = i mod n" for i using Suc.prems by (simp add: Suc_diff_Suc[symmetric])
    then show ?thesis using True u Suc.IH[of 1] Suc.prems by simp
  next
    case False
    have "c - 1 + Suc i = c + 1 - 1 + i" for i using Suc.prems by simp
    then show ?thesis using False u Suc.IH[of "c + 1"] Suc.prems by simp
  qed
qed simp

lemma candidates_all: "\<lbrakk>1 \<le> c; c \<le> n; 1 \<le> x; x \<le> n\<rbrakk> \<Longrightarrow> x \<in> set (candidates n n c)"
proof -
  assume a: "1 \<le> c" "c \<le> n" "1 \<le> x" "x \<le> n"
  define i where "i = (x - 1 + (n - (c - 1))) mod n"
  have "i < n" using a by (simp add: i_def)
  have "(c - 1 + i) mod n = (c - 1 + (x - 1 + (n - (c - 1)))) mod n"
    unfolding i_def by (rule mod_add_right_eq)
  then have "(c - 1 + i) mod n = (x - 1 + n) mod n" using a by (simp add: algebra_simps)
  moreover have "(x - 1 + n) mod n = x - 1" unfolding mod_add_self2 using a by (intro mod_less) simp
  ultimately have "(c - 1 + i) mod n + 1 = x" using a(3) by simp
  with \<open>i < n\<close> show ?thesis using a by (force simp: candidates_conv)
qed

lemma candidates_range: "\<lbrakk>1 \<le> c; c \<le> n; x \<in> set (candidates k n c)\<rbrakk> \<Longrightarrow> 1 \<le> x \<and> x \<le> n"
  by (auto simp: candidates_conv Suc_le_eq)

lemma alloc_loop_spec:
  "\<lbrakk>fs_wf s; 1 \<le> c; c \<le> cluster_count (sb s); alloc_loop k c s = (r, s')\<rbrakk> \<Longrightarrow>
    fat_step s s' \<and>
    (case r of
       Inr x \<Rightarrow> 1 \<le> x \<and> x \<le> cluster_count (sb s) \<and> fat_view s x = 0 \<and> fat_view s' = (fat_view s)(x := CHAIN_END)
     | Inl e \<Rightarrow> fat_view s' = fat_view s \<and>
         (e = FS_ERR_IO \<or> e = FS_ERR_NOSPC \<and> (\<forall>x \<in> set (candidates k (cluster_count (sb s)) c). fat_view s x \<noteq> 0)))"
proof (induction k arbitrary: c s)
  case 0
  then show ?case by (auto simp: fat_step_refl)
next
  case (Suc k)
  let ?n = "cluster_count (sb s)"
  have "andThen (fat_get c) (\<lambda>v s. if v = 0 then
         andThen (fat_set c CHAIN_END) (\<lambda>_ s. (Inr c, s\<lparr>next_free := c + 1\<rparr>)) s
       else alloc_loop k (if c + 1 > cluster_count (sb s) then 1 else c + 1) s) s = (r, s')"
    using Suc.prems(4) by simp
  then show ?case
  proof (cases rule: andThen_cases)
    case (err e)
    then show ?thesis
      using fat_get_spec[OF Suc.prems(1) err(1)] Suc.prems(2,3) by (auto simp: fat_same_step fat_same_def split: if_splits)
  next
    case (ok v s1)
    have g: "fat_same s s1" "v = fat_view s c"
      using fat_get_spec[OF Suc.prems(1) ok(1)] Suc.prems(2,3) by (auto split: if_splits)
    have s1: "fs_wf s1" "fat_view s1 = fat_view s" "sb s1 = sb s" using g(1) by (auto simp: fat_same_def fat_frame_def)
    show ?thesis
    proof (cases "v = 0")
      case True
      then have "andThen (fat_set c CHAIN_END) (\<lambda>_ s. (Inr c, s\<lparr>next_free := c + 1\<rparr>)) s1 = (r, s')" using ok(2) by simp
      then show ?thesis
      proof (cases rule: andThen_cases)
        case (err e)
        then show ?thesis
          using fat_set_spec[OF s1(1) err(1)] g(1) s1 Suc.prems(2,3)
          by (auto simp: fat_step_def fat_same_def split: if_splits dest: fat_frame_trans)
      next
        case (ok a s2)
        have f: "fs_wf s2" "fat_frame s1 s2" "fat_view s2 = (fat_view s)(c := CHAIN_END)"
          using fat_set_spec[OF s1(1) ok(1)] s1 Suc.prems(2,3) by (auto split: if_splits)
        have s': "r = Inr c" "s' = s2\<lparr>next_free := c + 1\<rparr>" using ok(2) by auto
        have "fs_wf s'" "fat_frame s2 s'" "fat_view s' = fat_view s2"
          using f(1) by (auto simp: s' fs_wf_def geometry_def fat_frame_def blk_def fat_view_def fat_sec_def)
        then show ?thesis
          using f g True Suc.prems(2,3) s'(1) by (auto simp: fat_step_def fat_same_def dest: fat_frame_trans)
      qed
    next
      case False
      let ?c = "if c + 1 > ?n then 1 else c + 1"
      have "alloc_loop k ?c s1 = (r, s')" using ok(2) False s1(3) by simp
      from Suc.IH[OF s1(1) _ _ this] show ?thesis
        using s1 g False Suc.prems(2,3) fat_same_step[OF g(1)]
        by (auto split: sum.splits intro: fat_step_trans)
    qed
  qed
qed

lemma cluster_alloc_spec:
  assumes "fs_wf s" "cluster_alloc s = (r, s')"
  shows "fat_step s s' \<and>
    (case r of
       Inr x \<Rightarrow> 1 \<le> x \<and> x \<le> cluster_count (sb s) \<and> fat_view s x = 0 \<and> fat_view s' = (fat_view s)(x := CHAIN_END)
     | Inl e \<Rightarrow> fat_view s' = fat_view s \<and>
         (e = FS_ERR_IO \<or> e = FS_ERR_NOSPC \<and> (\<forall>x. 1 \<le> x \<and> x \<le> cluster_count (sb s) \<longrightarrow> fat_view s x \<noteq> 0)))"
proof -
  let ?n = "cluster_count (sb s)"
  have n: "1 \<le> ?n" using assms(1) by (auto simp: fs_wf_def geometry_def)
  define c where "c = (if next_free s < 1 \<or> next_free s > ?n then 1 else next_free s)"
  have c: "1 \<le> c" "c \<le> ?n" using n by (auto simp: c_def)
  have "alloc_loop ?n c s = (r, s')" using assms(2) by (simp add: cluster_alloc_def c_def Let_def)
  from alloc_loop_spec[OF assms(1) c this] show ?thesis
    using candidates_all[OF c] by (auto split: sum.splits)
qed

lemma cluster_free_spec:
  assumes "fs_wf s" "cluster_free c s = (r, s')"
  shows "fat_step s s' \<and>
    (if c = 0 \<or> c > cluster_count (sb s) then r = Inl FS_ERR_CORRUPT \<and> fat_view s' = fat_view s
     else r = Inr () \<and> fat_view s' = (fat_view s)(c := 0) \<or> r = Inl FS_ERR_IO \<and> fat_view s' = fat_view s)"
proof -
  have "andThen (fat_set c 0) (\<lambda>_ s. (Inr (), if c < next_free s then s\<lparr>next_free := c\<rparr> else s)) s = (r, s')"
    using assms(2) by (simp add: cluster_free_def)
  then show ?thesis
  proof (cases rule: andThen_cases)
    case (err e)
    then show ?thesis using fat_set_spec[OF assms(1) err(1)] by (auto simp: fat_step_def split: if_splits)
  next
    case (ok a s1)
    have f: "fs_wf s1" "fat_frame s s1" "\<not> (c = 0 \<or> c > cluster_count (sb s))" "fat_view s1 = (fat_view s)(c := 0)"
      using fat_set_spec[OF assms(1) ok(1)] by (auto split: if_splits)
    have s': "r = Inr ()" "s' = s1 \<or> s' = s1\<lparr>next_free := c\<rparr>" using ok(2) by (auto split: if_splits)
    have "fs_wf s'" "fat_frame s1 s'" "fat_view s' = fat_view s1"
      using f(1) s'(2) by (auto simp: fs_wf_def geometry_def fat_frame_def blk_def fat_view_def fat_sec_def)
    then show ?thesis using f s'(1) by (auto simp: fat_step_def dest: fat_frame_trans)
  qed
qed


text \<open>Releasing a chain frees its clusters and no other; a disk error leaves a prefix of it released.\<close>

definition released :: "nat set \<Rightarrow> (nat \<Rightarrow> nat) \<Rightarrow> nat \<Rightarrow> nat" where
  "released C fv c = (if c \<in> C then 0 else fv c)"

lemma chain_free_loop_spec:
  "\<lbrakk>fs_wf s; is_chain (fat_view s) (cluster_count (sb s)) c cs; length cs \<le> k; chain_free_loop k c s = (r, s')\<rbrakk> \<Longrightarrow>
    fat_step s s' \<and>
    (r = Inr () \<and> fat_view s' = released (set cs) (fat_view s) \<or>
     r = Inl FS_ERR_IO \<and> (\<exists>j. fat_view s' = released (set (take j cs)) (fat_view s)))"
proof (induction cs arbitrary: c k s)
  case Nil
  then show ?case by (auto simp: chain_free_loop.simps fat_step_refl released_def fun_eq_iff)
next
  case (Cons x xs)
  let ?fv = "fat_view s" and ?n = "cluster_count (sb s)"
  have x: "c = x" "1 \<le> x" "x \<le> ?n" using Cons.prems(2) by auto
  obtain k' where k: "k = Suc k'" using Cons.prems(3) by (cases k) auto
  have none: "\<exists>j. ?fv = released (set (take j (x # xs))) ?fv"
    by (intro exI[of _ 0]) (simp add: released_def fun_eq_iff)
  have "andThen (chain_next x) (\<lambda>nxt. andThen (cluster_free x) (\<lambda>_. chain_free_loop k' nxt)) s = (r, s')"
    using Cons.prems(4) x k by (subst (asm) chain_free_loop.simps) (simp add: k)
  then show ?case
  proof (cases rule: andThen_cases)
    case (err e)
    have "fat_same s s' \<and> e = FS_ERR_IO"
      using chain_next_in_chain[of s "x # xs" 0 "Inl e" s' c] err(1) Cons.prems(1,2) by auto
    then show ?thesis using err(2) none by (auto simp: fat_same_step) (auto simp: fat_same_def)
  next
    case (ok nxt s1)
    have n1: "fat_same s s1" "nxt = next_of ?fv x"
      using chain_next_spec[OF Cons.prems(1) ok(1)] Cons.prems(2) by (auto split: if_splits)
    have s1: "fs_wf s1" "fat_view s1 = ?fv" "sb s1 = sb s" using n1(1) by (auto simp: fat_same_def fat_frame_def)
    from ok(2) show ?thesis
    proof (cases rule: andThen_cases)
      case (err e)
      then have "fat_step s1 s' \<and> e = FS_ERR_IO \<and> fat_view s' = ?fv"
        using cluster_free_spec[OF s1(1) err(1)] x s1 by auto
      then show ?thesis using err(2) none fat_step_trans[OF fat_same_step[OF n1(1)]] by auto
    next
      case (ok u s2)
      have f: "fat_step s1 s2" "fat_view s2 = ?fv(x := 0)"
        using cluster_free_spec[OF s1(1) ok(1)] x s1 by auto
      have s2: "fs_wf s2" "sb s2 = sb s" using f(1) s1(3) by (auto simp: fat_step_def fat_frame_def)
      have "x \<notin> set xs" using is_chain_distinct[OF Cons.prems(2)] by simp
      then have "is_chain (fat_view s2) ?n nxt xs"
        unfolding f(2) using Cons.prems(2) n1(2) by (subst is_chain_cong[of xs _ ?fv]) auto
      then have ih: "fat_step s2 s' \<and>
          (r = Inr () \<and> fat_view s' = released (set xs) (fat_view s2) \<or>
           r = Inl FS_ERR_IO \<and> (\<exists>j. fat_view s' = released (set (take j xs)) (fat_view s2)))"
        using Cons.IH[OF s2(1) _ _ ok(2)] Cons.prems(3) k s2(2) by simp
      have rel: "released A (fat_view s2) = released (insert x A) ?fv" for A
        by (auto simp: released_def f(2) fun_eq_iff)
      have tk: "released (set (take j xs)) (fat_view s2) = released (set (take (Suc j) (x # xs))) ?fv" for j
        using rel[of "set (take j xs)"] by simp
      have "\<exists>j. fat_view s' = released (set (take j (x # xs))) ?fv"
        if "\<exists>j. fat_view s' = released (set (take j xs)) (fat_view s2)" using that unfolding tk by blast
      moreover have "fat_step s s'" using fat_step_trans[OF fat_step_trans[OF fat_same_step[OF n1(1)] f(1)]] ih by simp
      ultimately show ?thesis using ih rel[of "set xs"] by auto
    qed
  qed
qed

lemma chain_free_spec:
  assumes "fs_wf s" "is_chain (fat_view s) (cluster_count (sb s)) first cs" "chain_free first s = (r, s')"
  shows "fat_step s s' \<and>
    (r = Inr () \<and> fat_view s' = released (set cs) (fat_view s) \<or>
     r = Inl FS_ERR_IO \<and> (\<exists>j. fat_view s' = released (set (take j cs)) (fat_view s)))"
  using chain_free_loop_spec[OF assms(1,2) is_chain_length[OF assms(2)]] assms(3) by (simp add: chain_free_def)


section \<open>Blocks outside of the table\<close>

text \<open>\<open>keeps W s s'\<close>: outside of the table only the blocks in \<open>W\<close> may have changed.\<close>

definition keeps :: "nat set \<Rightarrow> fs_state \<Rightarrow> fs_state \<Rightarrow> bool" where
  "keeps W s s' \<longleftrightarrow> fs_wf s' \<and> sb s' = sb s \<and> mounted s' = mounted s \<and> disk_sectors s' = disk_sectors s \<and>
     cluster_shift s' = cluster_shift s \<and>
     (\<forall>i. (i = 0 \<or> data_start (sb s) \<le> i) \<and> i \<notin> W \<longrightarrow> blk s' i = blk s i)"

lemma keeps_refl: "fs_wf s \<Longrightarrow> keeps W s s"
  by (simp add: keeps_def)

lemma keeps_trans: "\<lbrakk>keeps W s s1; keeps W s1 s'\<rbrakk> \<Longrightarrow> keeps W s s'"
  by (simp add: keeps_def)

lemma keeps_mono: "\<lbrakk>keeps W s s'; W \<subseteq> V\<rbrakk> \<Longrightarrow> keeps V s s'"
  by (auto simp: keeps_def)

lemma fat_step_keeps: "fat_step s s' \<Longrightarrow> keeps W s s'"
  by (auto simp: fat_step_def fat_frame_def keeps_def)

lemma fat_same_keeps: "fat_same s s' \<Longrightarrow> keeps W s s' \<and> fat_view s' = fat_view s"
  by (simp add: fat_same_step fat_step_keeps) (simp add: fat_same_def)

lemma keeps_wf: "keeps W s s' \<Longrightarrow> fs_wf s' \<and> sb s' = sb s \<and> mounted s' = mounted s \<and> cluster_shift s' = cluster_shift s"
  by (simp add: keeps_def)

text \<open>A change of the disk outside of the table and of the two work buffers.\<close>

lemma keeps_update:
  assumes "fs_wf s" "disk_wf d" "disk_total d = disk_total (drive s)" "length b1 = 512" "length b2 = 512"
    and "\<And>i. i \<notin> W \<Longrightarrow> disk_medium d (FS_LBA_START + i) = blk s i" "\<And>i. i \<in> W \<Longrightarrow> i = 0 \<or> data_start (sb s) \<le> i"
  shows "keeps W s (s\<lparr>drive := d, dir_buf := b1, io_buf := b2\<rparr>) \<and> fat_view (s\<lparr>drive := d, dir_buf := b1, io_buf := b2\<rparr>) = fat_view s"
proof -
  let ?s = "s\<lparr>drive := d, dir_buf := b1, io_buf := b2\<rparr>"
  have b: "blk ?s i = blk s i" if "i \<notin> W" for i using assms(6)[OF that] by (simp add: blk_def)
  have tab: "1 \<le> i \<Longrightarrow> i \<le> fat_sectors (sb s) \<Longrightarrow> i \<notin> W" for i
    using assms(7)[of i] assms(1) by (auto simp: fs_wf_def geometry_def)
  have sec: "fat_sec ?s i = fat_sec s i" if "1 \<le> i" "i \<le> fat_sectors (sb s)" for i
    using b[OF tab[OF that]] by (simp add: fat_sec_def)
  have "fs_wf ?s"
    using assms(1-5) b tab by (auto simp: fs_wf_def geometry_def)
  moreover have "fat_view ?s = fat_view s"
  proof
    fix c
    show "fat_view ?s c = fat_view s c"
    proof (cases "c div 128 < fat_sectors (sb s)")
      case True
      then show ?thesis using sec[of "1 + c div 128"] by (simp add: fat_view_def)
    next
      case False
      then show ?thesis by (simp add: fat_view_def)
    qed
  qed
  ultimately show ?thesis using b by (simp add: keeps_def)
qed


lemma drive_update: "s\<lparr>drive := d\<rparr> = s\<lparr>drive := d, dir_buf := dir_buf s, io_buf := io_buf s\<rparr>"
  by simp

text \<open>Reading and writing blocks of the data area and of the super block.\<close>

definition block_area :: "fs_state \<Rightarrow> nat set" where
  "block_area s = {i. (i = 0 \<or> data_start (sb s) \<le> i) \<and> i < total_sectors (sb s)}"

lemma block_area_keeps: "keeps W s s' \<Longrightarrow> block_area s' = block_area s"
  by (simp add: block_area_def keeps_def)

lemma read_area:
  assumes wf: "fs_wf s" and i: "i \<in> block_area s" and len: "length buf = 512" and r: "block_read i buf s = (ok, buf', s')"
  obtains d where "s' = s\<lparr>drive := d\<rparr>" "length buf' = 512" "ok \<longrightarrow> buf' = blk s i" "blk s' = blk s"
    "\<And>b1 b2. length b1 = 512 \<Longrightarrow> length b2 = 512 \<Longrightarrow>
      keeps {} s (s'\<lparr>dir_buf := b1, io_buf := b2\<rparr>) \<and> fat_view (s'\<lparr>dir_buf := b1, io_buf := b2\<rparr>) = fat_view s"
proof -
  have w: "disk_wf (drive s)" using wf by (simp add: fs_wf_def)
  have od: "FS_LBA_START + i < disk_total (drive s)" using on_disk[OF wf] i by (simp add: block_area_def)
  obtain d where d: "s' = s\<lparr>drive := d\<rparr>" "disk_wf d" "disk_total d = disk_total (drive s)"
      "disk_medium d = disk_medium (drive s)" "length buf' = 512" "ok \<longrightarrow> buf' = blk s i"
    by (rule block_read_spec[OF w od len r]) blast
  have "keeps {} s (s'\<lparr>dir_buf := b1, io_buf := b2\<rparr>) \<and> fat_view (s'\<lparr>dir_buf := b1, io_buf := b2\<rparr>) = fat_view s"
    if "length b1 = 512" "length b2 = 512" for b1 b2
    using keeps_update[OF wf d(2,3) that, of "{}"] d(4) by (simp add: d(1) blk_def)
  then show thesis using that[of d] d by (simp add: blk_def fun_eq_iff)
qed

lemma write_area:
  assumes wf: "fs_wf s" and i: "i \<in> block_area s" and len: "length data = 512" and r: "block_write i data s = (r, s')"
  shows "keeps {i} s s' \<and> fat_view s' = fat_view s \<and> dir_buf s' = dir_buf s \<and> io_buf s' = io_buf s \<and> next_free s' = next_free s \<and>
    (r = Inr () \<and> blk s' = (blk s)(i := data) \<or> r = Inl FS_ERR_IO \<and> (blk s' = blk s \<or> blk s' = (blk s)(i := data)))"
proof -
  have w: "disk_wf (drive s)" "length (dir_buf s) = 512" "length (io_buf s) = 512" using wf by (simp_all add: fs_wf_def)
  have od: "FS_LBA_START + i < disk_total (drive s)" using on_disk[OF wf] i by (simp add: block_area_def)
  obtain d where d: "s' = s\<lparr>drive := d\<rparr>" "disk_wf d" "disk_total d = disk_total (drive s)" "r = Inr () \<or> r = Inl FS_ERR_IO"
      "r = Inr () \<longrightarrow> disk_medium d = (disk_medium (drive s))(FS_LBA_START + i := data)"
      "disk_medium d = disk_medium (drive s) \<or> disk_medium d = (disk_medium (drive s))(FS_LBA_START + i := data)"
    by (rule block_write_spec[OF w(1) od len r]) blast
  have "disk_medium d (FS_LBA_START + j) = blk s j" if "j \<notin> {i}" for j using d(6) that by (auto simp: blk_def)
  moreover have "j = 0 \<or> data_start (sb s) \<le> j" if "j \<in> {i}" for j using i that by (auto simp: block_area_def)
  ultimately have "keeps {i} s s' \<and> fat_view s' = fat_view s"
    using keeps_update[OF wf d(2,3) w(2,3), of "{i}"] by (simp add: d(1))
  then show ?thesis using d(4-6) by (auto simp: d(1) blk_def fun_eq_iff)
qed

lemma sectors_shift: "sectors_at m (FS_LBA_START + i) n = sectors_at (\<lambda>j. m (FS_LBA_START + j)) i n"
  by (induction n) (simp_all add: sectors_at_Suc add.assoc)

lemma put_shift: "put_sectors m (FS_LBA_START + i) n data (FS_LBA_START + j) = put_sectors (\<lambda>j. m (FS_LBA_START + j)) i n data j"
  by (simp add: put_sectors_def)

lemma reads_area:
  assumes wf: "fs_wf s" and i: "{i..<i + n} \<subseteq> block_area s" "0 < n" and len: "n * 512 \<le> length buf"
    and r: "blocks_read i n buf s = (ok, buf', s')"
  shows "keeps {} s s' \<and> fat_view s' = fat_view s \<and> blk s' = blk s \<and> dir_buf s' = dir_buf s \<and> io_buf s' = io_buf s \<and>
    next_free s' = next_free s \<and> read_ok (blk s) i n buf ok buf'"
proof -
  have w: "disk_wf (drive s)" "length (dir_buf s) = 512" "length (io_buf s) = 512" using wf by (simp_all add: fs_wf_def)
  have "i + n - 1 \<in> block_area s" using i by (intro subsetD[OF i(1)]) simp
  then have od: "FS_LBA_START + i + n \<le> disk_total (drive s)" using on_disk[OF wf, of "i + n - 1"] i(2) by (simp add: block_area_def)
  obtain d where d: "disk_read_sectors (of_nat (FS_LBA_START + i)) (of_nat n) buf (drive s) = (ok, buf', d)" "s' = s\<lparr>drive := d\<rparr>"
    using r by (auto simp: blocks_read_def Let_def split: prod.splits)
  have b: "disk_wf d \<and> disk_total d = disk_total (drive s) \<and> disk_medium d = disk_medium (drive s) \<and>
      read_ok (disk_medium (drive s)) (FS_LBA_START + i) n buf ok buf'"
    by (rule bd.rd_law[OF w(1) od len d(1)])
  then have "keeps {} s s' \<and> fat_view s' = fat_view s"
    using keeps_update[OF wf _ _ w(2,3), of d "{}"] by (simp add: d(2) blk_def)
  moreover have "blk s = (\<lambda>j. disk_medium (drive s) (FS_LBA_START + j))" "blk s' = (\<lambda>j. disk_medium d (FS_LBA_START + j))"
    by (simp_all add: blk_def d(2) fun_eq_iff)
  ultimately show ?thesis using b by (simp add: d(2) read_ok_def sectors_shift)
qed

lemma writes_area:
  assumes wf: "fs_wf s" and i: "{i..<i + n} \<subseteq> block_area s" "0 < n" and len: "n * 512 \<le> length data"
    and r: "blocks_write i n data s = (r, s')"
  shows "keeps {i..<i + n} s s' \<and> fat_view s' = fat_view s \<and> dir_buf s' = dir_buf s \<and> io_buf s' = io_buf s \<and>
    next_free s' = next_free s \<and> (r = Inr () \<or> r = Inl FS_ERR_IO) \<and> write_ok (blk s) i n data (r = Inr ()) (blk s')"
proof -
  have w: "disk_wf (drive s)" "length (dir_buf s) = 512" "length (io_buf s) = 512" using wf by (simp_all add: fs_wf_def)
  have "i + n - 1 \<in> block_area s" using i by (intro subsetD[OF i(1)]) simp
  then have od: "FS_LBA_START + i + n \<le> disk_total (drive s)" using on_disk[OF wf, of "i + n - 1"] i(2) by (simp add: block_area_def)
  obtain ok d where d: "disk_write_sectors (of_nat (FS_LBA_START + i)) (of_nat n) data (drive s) = (ok, d)" "s' = s\<lparr>drive := d\<rparr>"
      "r = (if ok then Inr () else Inl FS_ERR_IO)"
    using r by (auto simp: blocks_write_def Let_def split: prod.splits)
  have b: "disk_wf d" "disk_total d = disk_total (drive s)" "write_ok (disk_medium (drive s)) (FS_LBA_START + i) n data ok (disk_medium d)"
    using bd.wr_law[OF w(1) od len d(1)] by simp_all
  obtain k where k: "k \<le> n" "disk_medium d = put_sectors (disk_medium (drive s)) (FS_LBA_START + i) k data" "ok \<longrightarrow> k = n"
    using b(3) by (auto simp: write_ok_def)
  have bk: "blk s' = put_sectors (blk s) i k data"
    unfolding blk_def d(2) by (simp add: k(2) put_shift fun_eq_iff)
  have "disk_medium d (FS_LBA_START + j) = blk s j" if "j \<notin> {i..<i + n}" for j
    using that k(1) by (auto simp: k(2) blk_def put_sectors_def)
  moreover have "j = 0 \<or> data_start (sb s) \<le> j" if "j \<in> {i..<i + n}" for j using i(1) that by (auto simp: block_area_def)
  ultimately have "keeps {i..<i + n} s s' \<and> fat_view s' = fat_view s"
    using keeps_update[OF wf b(1,2) w(2,3), of "{i..<i + n}"] by (simp add: d(2))
  then show ?thesis using bk k(1,3) d(3) by (auto simp: d(2) write_ok_def)
qed

text \<open>The sectors of a cluster; those of different clusters are different.\<close>

definition cluster_blocks :: "fs_state \<Rightarrow> nat \<Rightarrow> nat set" where
  "cluster_blocks s c = {cluster_sector s c..<cluster_sector s c + 2 ^ cluster_shift s}"

lemma cluster_blocks_area:
  assumes "fs_wf s" "1 \<le> c" "c \<le> cluster_count (sb s)"
  shows "cluster_blocks s c \<subseteq> block_area s" "0 \<notin> cluster_blocks s c"
proof -
  have "(c - 1) * 2 ^ cluster_shift s + 2 ^ cluster_shift s = c * 2 ^ cluster_shift s"
    using assms(2) by (cases c) simp_all
  moreover have "c * 2 ^ cluster_shift s \<le> cluster_count (sb s) * 2 ^ cluster_shift s" using assms(3) by (rule mult_le_mono1)
  moreover have "data_start (sb s) + cluster_count (sb s) * 2 ^ cluster_shift s \<le> total_sectors (sb s)" "0 < data_start (sb s)"
    using assms(1) by (simp_all add: fs_wf_def geometry_def)
  ultimately have "cluster_sector s c + 2 ^ cluster_shift s \<le> total_sectors (sb s)" "data_start (sb s) \<le> cluster_sector s c"
      "0 < data_start (sb s)"
    unfolding cluster_sector_def by linarith+
  then show "cluster_blocks s c \<subseteq> block_area s" "0 \<notin> cluster_blocks s c" by (auto simp: cluster_blocks_def block_area_def)
qed

lemma cluster_blocks_disjoint:
  assumes "1 \<le> c" "1 \<le> d" "c \<noteq> d"
  shows "cluster_blocks s c \<inter> cluster_blocks s d = {}"
proof -
  have "cluster_sector s c + 2 ^ cluster_shift s \<le> cluster_sector s d" if "c < d" "1 \<le> c" for c d
  proof -
    have "(c - 1 + 1) * 2 ^ cluster_shift s \<le> (d - 1) * 2 ^ cluster_shift s" using that by (intro mult_le_mono1) simp
    then show ?thesis by (simp add: cluster_sector_def)
  qed
  from this[of c d] this[of d c] show ?thesis
    using assms by (cases "c < d") (auto simp: cluster_blocks_def)
qed

lemma cluster_blocks_keeps: "keeps W s s' \<Longrightarrow> cluster_blocks s' = cluster_blocks s \<and> cluster_sector s' = cluster_sector s"
  by (auto simp: cluster_blocks_def cluster_sector_def keeps_def fun_eq_iff)

lemma cluster_zero_loop_spec:
  "\<lbrakk>fs_wf s; {i..<i + k} \<subseteq> block_area s; cluster_zero_loop k i s = (r, s')\<rbrakk> \<Longrightarrow>
    keeps {i..<i + k} s s' \<and> fat_view s' = fat_view s \<and> (r = Inr () \<or> r = Inl FS_ERR_IO) \<and>
    (r = Inr () \<longrightarrow> (\<forall>j \<in> {i..<i + k}. blk s' j = replicate 512 0))"
proof (induction k arbitrary: i s)
  case 0
  then show ?case by (simp add: keeps_refl)
next
  case (Suc k)
  have i: "i \<in> block_area s" using Suc.prems(2) by (rule subsetD) simp
  have "andThen (block_write i (replicate 512 0)) (\<lambda>_. cluster_zero_loop k (i + 1)) s = (r, s')" using Suc.prems(3) by simp
  then show ?case
  proof (cases rule: andThen_cases)
    case (err e)
    then show ?thesis using write_area[OF Suc.prems(1) i _ err(1)] by (auto intro: keeps_mono)
  next
    case (ok u s1)
    have w: "keeps {i} s s1" "fat_view s1 = fat_view s" "blk s1 = (blk s)(i := replicate 512 0)"
      using write_area[OF Suc.prems(1) i _ ok(1)] by auto
    have "{i + 1..<i + 1 + k} \<subseteq> block_area s1" using Suc.prems(2) block_area_keeps[OF w(1)] by auto
    then have ih: "keeps {i + 1..<i + 1 + k} s1 s' \<and> fat_view s' = fat_view s1 \<and> (r = Inr () \<or> r = Inl FS_ERR_IO) \<and>
        (r = Inr () \<longrightarrow> (\<forall>j \<in> {i + 1..<i + 1 + k}. blk s' j = replicate 512 0))"
      using Suc.IH ok(2) keeps_wf[OF w(1)] by blast
    have "i = 0 \<or> data_start (sb s) \<le> i" using i by (simp add: block_area_def)
    then have "blk s' i = replicate 512 0" using ih w by (auto simp: keeps_def)
    moreover have "keeps {i..<i + Suc k} s s'"
      using keeps_trans[of "{i..<i + Suc k}" s s1 s'] keeps_mono[OF w(1)] keeps_mono[of "{i + 1..<i + 1 + k}" s1 s'] ih by auto
    moreover have "{i..<i + Suc k} = insert i {i + 1..<i + 1 + k}" by auto
    ultimately show ?thesis using ih w(2) by (simp only: ball_simps) simp
  qed
qed

lemma cluster_zero_spec:
  assumes "fs_wf s" "1 \<le> c" "c \<le> cluster_count (sb s)" "cluster_zero c s = (r, s')"
  shows "keeps (cluster_blocks s c) s s' \<and> fat_view s' = fat_view s \<and> (r = Inr () \<or> r = Inl FS_ERR_IO) \<and>
    (r = Inr () \<longrightarrow> (\<forall>j \<in> cluster_blocks s c. blk s' j = replicate 512 0))"
  using cluster_zero_loop_spec[OF assms(1)] cluster_blocks_area[OF assms(1-3)] assms(4)
  by (simp add: cluster_zero_def cluster_blocks_def)


lemma fat_flush_same: "\<lbrakk>fs_wf s; fat_flush s = (r, s')\<rbrakk> \<Longrightarrow>
    fat_same s s' \<and> (r = Inr () \<and> \<not> fat_dirty s' \<or> r = Inl FS_ERR_IO)"
  using fat_flush_spec[of s r s'] by (auto simp: fat_same_def intro: fat_view_cong)

lemma cluster_count_small: "fs_wf s \<Longrightarrow> cluster_count (sb s) < CHAIN_END"
proof -
  assume "fs_wf s"
  then have g: "data_start (sb s) + cluster_count (sb s) * 2 ^ cluster_shift s \<le> total_sectors (sb s)"
      "total_sectors (sb s) + FS_LBA_START \<le> disk_sectors s" "disk_sectors s < 4294967296"
    by (simp_all add: fs_wf_def geometry_def)
  have "cluster_count (sb s) * 1 \<le> cluster_count (sb s) * 2 ^ cluster_shift s" by (intro mult_le_mono2) simp
  then show ?thesis using g by linarith
qed

end
