(* ===== verification/Fs_Dir.thy ===== *)
theory Fs_Dir
  imports Fs_Fat
begin

text \<open>
  The file system (\<open>kernel/fs.c\<close>), second part: names, directory entries and the directory, which is
  the cluster chain of the root cluster, four entries of 128 bytes to a sector.

  A C string is the list of bytes from its first character on, with its terminating 0; the null
  pointer is the empty list.
\<close>

section \<open>Names\<close>

abbreviation FS_NAME_MAX :: nat where "FS_NAME_MAX \<equiv> 115"

text \<open>The loop over the characters; the first argument is \<open>FS_NAME_MAX - length\<close>.\<close>

fun name_check_loop :: "nat \<Rightarrow> u8 list \<Rightarrow> nat \<Rightarrow> fs_error + unit" where
  "name_check_loop k name i =
     (let c = name ! i in
      if c = 0 then Inr ()
      else if c \<le> 32 \<or> c = 127 \<or> c = 47 then Inl FS_ERR_NAME
      else case k of 0 \<Rightarrow> Inl FS_ERR_NAME | Suc k \<Rightarrow> name_check_loop k name (i + 1))"

declare name_check_loop.simps [simp del]

definition name_check :: "u8 list \<Rightarrow> fs_error + unit" where
  "name_check name = (if name = [] \<or> name ! 0 = 0 then Inl FS_ERR_NAME else name_check_loop FS_NAME_MAX name 0)"

primrec same_name_loop :: "nat \<Rightarrow> u8 list \<Rightarrow> u8 list \<Rightarrow> nat \<Rightarrow> bool" where
  "same_name_loop 0 stored name i = False"
| "same_name_loop (Suc k) stored name i =
     (if stored ! i \<noteq> name ! i then False
      else if name ! i = 0 then True
      else same_name_loop k stored name (i + 1))"

definition same_name :: "u8 list \<Rightarrow> u8 list \<Rightarrow> bool" where
  "same_name stored name = same_name_loop (FS_NAME_MAX + 1) stored name 0"


section \<open>Directory entries\<close>

record dir_entry =
  de_name :: "u8 list"
  de_first :: nat
  de_size :: nat
  de_flags :: nat

record location =
  loc_sector :: nat
  loc_slot :: nat

record lookup_result =
  found :: bool
  found_at :: location
  entry :: dir_entry
  has_free :: bool
  free_at :: location
  last_cluster :: nat

text \<open>An entry in memory: 116 bytes of name and three little-endian words.\<close>

definition entry_bytes :: "dir_entry \<Rightarrow> u8 list" where
  "entry_bytes e = de_name e @ le32_bytes (of_nat (de_first e)) @ le32_bytes (of_nat (de_size e)) @ le32_bytes (of_nat (de_flags e))"

definition entry_of :: "u8 list \<Rightarrow> dir_entry" where
  "entry_of b = \<lparr>de_name = take 116 b, de_first = u32_at b 29, de_size = u32_at b 30, de_flags = u32_at b 31\<rparr>"

definition slot :: "u8 list \<Rightarrow> nat \<Rightarrow> dir_entry" where
  "slot buf i = entry_of (chunk buf (i * 128) 128)"

definition empty_entry :: dir_entry where
  "empty_entry = \<lparr>de_name = replicate 116 0, de_first = 0, de_size = 0, de_flags = 0\<rparr>"

definition slot_used :: "dir_entry \<Rightarrow> bool" where
  "slot_used e \<longleftrightarrow> odd (de_flags e)"

text \<open>What \<open>strcpy\<close> leaves in a zeroed name field.\<close>

definition name_field :: "u8 list \<Rightarrow> u8 list" where
  "name_field name = (let n = takeWhile (\<lambda>c. c \<noteq> 0) name in n @ replicate (116 - length n) 0)"

definition dir_read :: "nat \<Rightarrow> unit fs" where
  "dir_read sector s =
     (let (ok, buf, s) = block_read sector (dir_buf s) s
      in (if ok then Inr () else Inl FS_ERR_IO, s\<lparr>dir_buf := buf\<rparr>))"

definition slot_store :: "location \<Rightarrow> dir_entry \<Rightarrow> unit fs" where
  "slot_store place e =
     andThen fat_flush (\<lambda>_.
       andThen (dir_read (loc_sector place)) (\<lambda>_ s.
         let s = s\<lparr>dir_buf := write_at (dir_buf s) (loc_slot place * 128) (entry_bytes e)\<rparr>
         in block_write (loc_sector place) (dir_buf s) s))"


section \<open>Looking up a name\<close>

text \<open>The slots of a sector, then the sectors of a cluster, then the clusters of the directory.\<close>

primrec lookup_slots :: "nat \<Rightarrow> u8 list \<Rightarrow> nat \<Rightarrow> u8 list \<Rightarrow> nat \<Rightarrow> lookup_result \<Rightarrow> lookup_result" where
  "lookup_slots 0 name sector buf i res = res"
| "lookup_slots (Suc k) name sector buf i res =
     (if \<not> slot_used (slot buf i) then
        lookup_slots k name sector buf (i + 1)
          (if \<not> has_free res then res\<lparr>has_free := True, free_at := \<lparr>loc_sector = sector, loc_slot = i\<rparr>\<rparr> else res)
      else if same_name (de_name (slot buf i)) name then
        res\<lparr>found := True, found_at := \<lparr>loc_sector = sector, loc_slot = i\<rparr>, entry := slot buf i\<rparr>
      else lookup_slots k name sector buf (i + 1) res)"

primrec lookup_sectors :: "nat \<Rightarrow> u8 list \<Rightarrow> nat \<Rightarrow> lookup_result \<Rightarrow> lookup_result fs" where
  "lookup_sectors 0 name sector res s = (Inr res, s)"
| "lookup_sectors (Suc k) name sector res s =
     andThen (dir_read sector) (\<lambda>_ s.
       let res = lookup_slots 4 name sector (dir_buf s) 0 res
       in if found res then (Inr res, s) else lookup_sectors k name (sector + 1) res s) s"

text \<open>The first argument is \<open>sb.cluster_count - steps\<close>.\<close>

fun lookup_clusters :: "nat \<Rightarrow> u8 list \<Rightarrow> nat \<Rightarrow> lookup_result \<Rightarrow> lookup_result fs" where
  "lookup_clusters k name cluster res s =
     (if cluster = 0 then (Inr res, s)
      else andThen (lookup_sectors (2 ^ cluster_shift s) name (cluster_sector s cluster) (res\<lparr>last_cluster := cluster\<rparr>))
        (\<lambda>res. if found res then (\<lambda>s. (Inr res, s))
          else andThen (chain_next cluster) (\<lambda>nxt.
            case k of 0 \<Rightarrow> fail FS_ERR_CORRUPT | Suc k \<Rightarrow> lookup_clusters k name nxt res)) s)"

declare lookup_clusters.simps [simp del]

definition dir_lookup :: "u8 list \<Rightarrow> lookup_result fs" where
  "dir_lookup name s =
     lookup_clusters (cluster_count (sb s)) name (root_cluster (sb s))
       \<lparr>found = False, found_at = \<lparr>loc_sector = 0, loc_slot = 0\<rparr>, entry = empty_entry, has_free = False,
        free_at = \<lparr>loc_sector = 0, loc_slot = 0\<rparr>, last_cluster = root_cluster (sb s)\<rparr> s"

text \<open>A new cluster for a full directory; if it cannot be linked it is given back.\<close>

definition dir_grow :: "nat \<Rightarrow> location fs" where
  "dir_grow tail =
     andThen cluster_alloc (\<lambda>cluster s.
       case andThen (cluster_zero cluster) (\<lambda>_. fat_set tail cluster) s of
         (Inl e, s) \<Rightarrow> (Inl e, snd (cluster_free cluster s))
       | (Inr _, s) \<Rightarrow> (Inr \<lparr>loc_sector = cluster_sector s cluster, loc_slot = 0\<rparr>, s))"

definition entry_create :: "u8 list \<Rightarrow> lookup_result \<Rightarrow> lookup_result fs" where
  "entry_create name res =
     andThen (if has_free res then (\<lambda>s. (Inr (free_at res), s)) else dir_grow (last_cluster res)) (\<lambda>target.
       let e = empty_entry\<lparr>de_name := name_field name, de_flags := 1\<rparr>
       in andThen (slot_store target e) (\<lambda>_ s. (Inr (res\<lparr>entry := e, found := True, found_at := target\<rparr>), s)))"


section \<open>Reading and storing entries\<close>

lemma dir_read_spec:
  assumes "fs_wf s" "i \<in> block_area s" "dir_read i s = (r, s')"
  shows "keeps {} s s' \<and> fat_view s' = fat_view s \<and> blk s' = blk s \<and> io_buf s' = io_buf s \<and> next_free s' = next_free s \<and>
    (r = Inr () \<and> dir_buf s' = blk s i \<or> r = Inl FS_ERR_IO)"
proof -
  have len: "length (dir_buf s) = 512" "length (io_buf s) = 512" using assms(1) by (simp_all add: fs_wf_def)
  obtain ok buf s1 where b: "block_read i (dir_buf s) s = (ok, buf, s1)" by (metis prod_cases3)
  obtain d where d: "s1 = s\<lparr>drive := d\<rparr>" "length buf = 512" "ok \<longrightarrow> buf = blk s i" "blk s1 = blk s"
    "\<And>b1 b2. length b1 = 512 \<Longrightarrow> length b2 = 512 \<Longrightarrow>
      keeps {} s (s1\<lparr>dir_buf := b1, io_buf := b2\<rparr>) \<and> fat_view (s1\<lparr>dir_buf := b1, io_buf := b2\<rparr>) = fat_view s"
    by (rule read_area[OF assms(1,2) len(1) b]) blast
  have s': "s' = s1\<lparr>dir_buf := buf, io_buf := io_buf s\<rparr>" "r = (if ok then Inr () else Inl FS_ERR_IO)"
    using assms(3) b d(1) by (auto simp: dir_read_def)
  have "blk s' = blk s1" by (simp add: s' blk_def fun_eq_iff)
  then show ?thesis using d(5)[OF d(2) len(2)] d s' by auto
qed

text \<open>
  An update of a sector of the directory: flush the table, read the sector, change it by \<open>g\<close>, write it
  back.  An error leaves the sector as it was or as it should be.
\<close>

lemma sector_update_spec:
  assumes "fs_wf s" "i \<in> block_area s" and g: "\<And>b. length b = 512 \<Longrightarrow> length (g b) = 512"
    and "andThen fat_flush (\<lambda>_. andThen (dir_read i) (\<lambda>_ s.
      let s = s\<lparr>dir_buf := g (dir_buf s)\<rparr> in block_write i (dir_buf s) s)) s = (r, s')"
  shows "keeps {i} s s' \<and> fat_view s' = fat_view s \<and>
    (r = Inr () \<and> blk s' i = g (blk s i) \<or>
     r = Inl FS_ERR_IO \<and> (blk s' i = blk s i \<or> blk s' i = g (blk s i)))"
proof -
  have ar: "i = 0 \<or> data_start (sb s) \<le> i" using assms(2) by (simp add: block_area_def)
  from assms(4) show ?thesis
  proof (cases rule: andThen_cases)
    case (err e)
    have f: "fat_same s s'" "e = FS_ERR_IO" using fat_flush_same[OF assms(1) err(1)] by auto
    then show ?thesis using fat_same_keeps[OF f(1), of "{i}"] fat_same_keeps[OF f(1), of "{}"] ar err(2) by (auto simp: keeps_def)
  next
    case (ok u s1)
    have f: "fat_same s s1" using fat_flush_same[OF assms(1) ok(1)] by simp
    have k1: "keeps {} s s1" "fat_view s1 = fat_view s" using fat_same_keeps[OF f] by simp_all
    have w1: "fs_wf s1" "i \<in> block_area s1" "blk s1 i = blk s i"
      using keeps_wf[OF k1(1)] block_area_keeps[OF k1(1)] assms(2) k1(1) ar by (auto simp: keeps_def)
    from ok(2) show ?thesis
    proof (cases rule: andThen_cases)
      case (err e)
      have d: "keeps {} s1 s'" "fat_view s' = fat_view s1" "blk s' = blk s1" "e = FS_ERR_IO"
        using dir_read_spec[OF w1(1,2) err(1)] by auto
      then show ?thesis using keeps_mono[OF keeps_trans[OF k1(1) d(1)]] k1(2) w1(3) err(2) by auto
    next
      case (ok v s2)
      have d: "keeps {} s1 s2" "fat_view s2 = fat_view s1" "blk s2 = blk s1" "dir_buf s2 = blk s1 i"
        using dir_read_spec[OF w1(1,2) ok(1)] by auto
      define b where "b = g (blk s i)"
      define s3 where "s3 = s2\<lparr>dir_buf := b\<rparr>"
      have lb: "length b = 512" using g[OF length_blk[OF assms(1)]] by (simp add: b_def)
      have w2: "fs_wf s2" "i \<in> block_area s2" using keeps_wf[OF d(1)] block_area_keeps[OF d(1)] w1(2) by simp_all
      have k3: "keeps {} s2 s3" "fat_view s3 = fat_view s2" "blk s3 = blk s2"
        using w2(1) lb by (auto simp: s3_def keeps_def fs_wf_def geometry_def blk_def fat_view_def fat_sec_def)
      have w3: "fs_wf s3" "i \<in> block_area s3" using keeps_wf[OF k3(1)] block_area_keeps[OF k3(1)] w2(2) by simp_all
      have "block_write i b s3 = (r, s')" using ok(2) d(4) w1(3) by (simp add: Let_def b_def s3_def)
      note w = write_area[OF w3 lb this]
      have "keeps {} s s3" using keeps_trans[OF keeps_trans[OF k1(1) d(1)] k3(1)] .
      then have "keeps {i} s s'" using keeps_trans[of "{i}" s s3 s'] keeps_mono[of "{}" s s3 "{i}"] w by auto
      then show ?thesis using w k1(2) d(2,3) k3 w1(3) b_def by auto
    qed
  qed
qed

lemma slot_store_spec:
  assumes "fs_wf s" "loc_sector l \<in> block_area s" "loc_slot l < 4" "length (entry_bytes e) = 128" "slot_store l e s = (r, s')"
  shows "keeps {loc_sector l} s s' \<and> fat_view s' = fat_view s \<and>
    (r = Inr () \<and> blk s' (loc_sector l) = write_at (blk s (loc_sector l)) (loc_slot l * 128) (entry_bytes e) \<or>
     r = Inl FS_ERR_IO \<and> (blk s' (loc_sector l) = blk s (loc_sector l) \<or>
       blk s' (loc_sector l) = write_at (blk s (loc_sector l)) (loc_slot l * 128) (entry_bytes e)))"
  by (rule sector_update_spec[where g = "\<lambda>b. write_at b (loc_slot l * 128) (entry_bytes e)"])
    (use assms in \<open>simp_all add: slot_store_def\<close>)

lemma length_entry_bytes [simp]: "length (de_name e) = 116 \<Longrightarrow> length (entry_bytes e) = 128"
  by (simp add: entry_bytes_def)

end
