(* ===== verification/Fs_File.thy ===== *)
theory Fs_File
  imports Fs_Dir
begin

text \<open>
  The file system (\<open>kernel/fs.c\<close>), third part: open files, reading, writing and truncating.

  An operation on an open file works on the pair of the file handle, which the caller owns, and the
  state of the file system.  Buffers of the caller are byte lists.
\<close>

section \<open>Definitions\<close>

record fs_file =
  dir_sector :: nat
  dir_slot :: nat
  f_first :: nat
  f_size :: nat
  cursor_index :: nat
  cursor_cluster :: nat

type_synonym 'a fileop = "('a, fs_file \<times> fs_state) op"

definition on_fs :: "'a fs \<Rightarrow> 'a fileop" where
  "on_fs m = (\<lambda>(file, s). let (r, s) = m s in (r, file, s))"

definition with_file :: "(fs_file \<Rightarrow> 'a fileop) \<Rightarrow> 'a fileop" where
  "with_file f = (\<lambda>(file, s). f file (file, s))"

text \<open>The stores \<open>list[file->dir_slot].first = ...\<close> and \<open>.size = ...\<close>.\<close>

definition file_sync :: "fs_file \<Rightarrow> unit fs" where
  "file_sync file =
     andThen fat_flush (\<lambda>_.
       andThen (dir_read (dir_sector file)) (\<lambda>_ s.
         let buf = set_u32 (set_u32 (dir_buf s) (dir_slot file * 32 + 29) (f_first file)) (dir_slot file * 32 + 30) (f_size file);
             s = s\<lparr>dir_buf := buf\<rparr>
         in block_write (dir_sector file) (dir_buf s) s))"

text \<open>The walk along the chain; the first argument is \<open>index - at\<close>.\<close>

primrec reach_loop :: "nat \<Rightarrow> bool \<Rightarrow> nat \<Rightarrow> nat fs" where
  "reach_loop 0 allocate cluster s = (Inr cluster, s)"
| "reach_loop (Suc k) allocate cluster s =
     andThen (chain_next cluster) (\<lambda>nxt s.
       if nxt = 0 then
         if \<not> allocate then (Inl FS_ERR_CORRUPT, s)
         else andThen cluster_alloc (\<lambda>new s.
           case fat_set cluster new s of
             (Inl e, s) \<Rightarrow> (Inl e, snd (cluster_free new s))
           | (Inr _, s) \<Rightarrow> reach_loop k allocate new s) s
       else reach_loop k allocate nxt s) s"

definition reach_first :: "bool \<Rightarrow> unit fileop" where
  "reach_first allocate = (\<lambda>(file, s).
     if f_first file = 0 then
       if \<not> allocate then (Inl FS_ERR_CORRUPT, file, s)
       else case cluster_alloc s of
         (Inl e, s) \<Rightarrow> (Inl e, file, s)
       | (Inr cluster, s) \<Rightarrow> (Inr (), file\<lparr>f_first := cluster, cursor_cluster := cluster, cursor_index := 0\<rparr>, s)
     else (Inr (), file, s))"

definition file_reach :: "nat \<Rightarrow> bool \<Rightarrow> unit fileop" where
  "file_reach index allocate =
     andThen (reach_first allocate) (\<lambda>_ (file, s).
       let near = (cursor_cluster file \<noteq> 0 \<and> cursor_index file \<le> index);
           cluster = (if near then cursor_cluster file else f_first file);
           at = (if near then cursor_index file else 0)
       in case reach_loop (index - at) allocate cluster s of
         (Inl e, s) \<Rightarrow> (Inl e, file, s)
       | (Inr cluster, s) \<Rightarrow> (Inr (), file\<lparr>cursor_cluster := cluster, cursor_index := index\<rparr>, s))"

text \<open>Where a byte of a file is: the index of its cluster, the sector in the cluster, the byte in the sector.\<close>

definition cluster_bytes :: "fs_state \<Rightarrow> nat" where
  "cluster_bytes s = 512 * 2 ^ cluster_shift s"

definition sector_index :: "fs_state \<Rightarrow> nat \<Rightarrow> nat" where
  "sector_index s position = position mod cluster_bytes s div 512"

definition lba_of :: "fs_state \<Rightarrow> fs_file \<Rightarrow> nat \<Rightarrow> nat" where
  "lba_of s file position = cluster_sector s (cursor_cluster file) + sector_index s position"

text \<open>One round of the loops of \<open>fs_read\<close> and \<open>write_impl\<close>; the result is the number of bytes moved.\<close>

definition read_step :: "nat \<Rightarrow> nat \<Rightarrow> nat \<Rightarrow> u8 list \<Rightarrow> fs_file \<Rightarrow> fs_state \<Rightarrow> (fs_error + nat) \<times> u8 list \<times> fs_state" where
  "read_step position remaining dn out file s =
     (let in_sector = position mod 512; lba = lba_of s file position in
      if in_sector = 0 \<and> remaining \<ge> 512 then
        let sectors = min (remaining div 512) (2 ^ cluster_shift s - sector_index s position);
            (ok, buf, s) = blocks_read lba sectors (drop dn out) s
        in (if ok then Inr (sectors * 512) else Inl FS_ERR_IO, take dn out @ buf, s)
      else
        let n = min (512 - in_sector) remaining;
            (ok, buf, s) = block_read lba (io_buf s) s;
            s = s\<lparr>io_buf := buf\<rparr>
        in if ok then (Inr n, write_at out dn (chunk buf in_sector n), s) else (Inl FS_ERR_IO, out, s))"

definition write_step :: "nat \<Rightarrow> nat \<Rightarrow> u8 list \<Rightarrow> fs_file \<Rightarrow> nat fs" where
  "write_step position remaining data file s =
     (let in_sector = position mod 512; lba = lba_of s file position in
      if in_sector = 0 \<and> remaining \<ge> 512 then
        let sectors = min (remaining div 512) (2 ^ cluster_shift s - sector_index s position)
        in andThen (blocks_write lba sectors data) (\<lambda>_ s. (Inr (sectors * 512), s)) s
      else
        let n = min (512 - in_sector) remaining;
            (ok, buf, s) = block_read lba (io_buf s) s;
            s = s\<lparr>io_buf := buf\<rparr>
        in if \<not> ok then (Inl FS_ERR_IO, s)
        else let s = s\<lparr>io_buf := write_at (io_buf s) in_sector (take n data)\<rparr>
          in andThen (block_write lba (io_buf s)) (\<lambda>_ s. (Inr n, s)) s)"

definition read_round :: "nat \<Rightarrow> nat \<Rightarrow> nat \<Rightarrow> u8 list \<Rightarrow> fs_file \<Rightarrow> fs_state \<Rightarrow> (fs_error + nat) \<times> u8 list \<times> fs_file \<times> fs_state" where
  "read_round offset count dn out file s =
     (let position = offset + dn in
      case file_reach (position div cluster_bytes s) False (file, s) of
        (Inl e, file, s) \<Rightarrow> (Inl e, out, file, s)
      | (Inr _, file, s) \<Rightarrow>
          let (r, out, s) = read_step position (count - dn) dn out file s in (r, out, file, s))"

definition write_round :: "nat \<Rightarrow> nat \<Rightarrow> nat \<Rightarrow> u8 list \<Rightarrow> nat fileop" where
  "write_round offset count dn data = (\<lambda>(file, s).
     let position = offset + dn in
     case file_reach (position div cluster_bytes s) True (file, s) of
       (Inl e, file, s) \<Rightarrow> (Inl e, file, s)
     | (Inr _, file, s) \<Rightarrow>
         let (r, s) = write_step position (count - dn) (drop dn data) file s in (r, file, s))"

text \<open>A round that succeeds moves at least one byte, so the loops end.\<close>

lemma sector_index_lt: "sector_index s position < 2 ^ cluster_shift s"
  unfolding sector_index_def cluster_bytes_def
  by (metis less_mult_imp_div_less mod_less_divisor mult.commute nat_0_less_mult_iff zero_less_numeral zero_less_power)

lemma read_step_progress:
  assumes "read_step position remaining dn out file s = (Inr n, out', s')" "0 < remaining"
  shows "0 < n" "n \<le> remaining"
proof -
  have "0 < remaining div 512" if "512 \<le> remaining" using that by (simp add: div_greater_zero_iff)
  moreover have "remaining div 512 * 512 \<le> remaining" by simp
  moreover have "position mod 512 < 512" by simp
  ultimately show "0 < n" "n \<le> remaining"
    using assms sector_index_lt[of s position]
    by (auto simp: read_step_def Let_def min_def split: if_splits prod.splits)
qed

lemma write_step_progress:
  assumes "write_step position remaining data file s = (Inr n, s')" "0 < remaining"
  shows "0 < n" "n \<le> remaining"
proof -
  have "0 < remaining div 512" if "512 \<le> remaining" using that by (simp add: div_greater_zero_iff)
  moreover have "remaining div 512 * 512 \<le> remaining" by simp
  moreover have "position mod 512 < 512" by simp
  ultimately show "0 < n" "n \<le> remaining"
    using assms sector_index_lt[of s position]
    by (auto simp: write_step_def andThen_def Let_def min_def split: if_splits prod.splits sum.splits)
qed

lemma read_round_progress:
  "\<lbrakk>read_round offset count dn out file s = (Inr n, out', file', s'); dn < count\<rbrakk> \<Longrightarrow> 0 < n \<and> dn + n \<le> count"
  using read_step_progress by (fastforce simp: read_round_def Let_def split: prod.splits sum.splits)

lemma write_round_progress:
  "\<lbrakk>write_round offset count dn data fs = (Inr n, fs'); dn < count\<rbrakk> \<Longrightarrow> 0 < n \<and> dn + n \<le> count"
  using write_step_progress by (fastforce simp: write_round_def Let_def split: prod.splits sum.splits)

function read_loop :: "nat \<Rightarrow> nat \<Rightarrow> nat \<Rightarrow> u8 list \<Rightarrow> fs_file \<Rightarrow> fs_state \<Rightarrow> (fs_error + nat) \<times> u8 list \<times> fs_file \<times> fs_state" where
  "read_loop offset count dn out file s =
     (if dn \<ge> count then (Inr dn, out, file, s)
      else case read_round offset count dn out file s of
        (Inl e, out, file, s) \<Rightarrow> (if dn > 0 then Inr dn else Inl e, out, file, s)
      | (Inr n, out, file, s) \<Rightarrow> read_loop offset count (dn + n) out file s)"
  by pat_completeness auto
termination
  by (relation "measure (\<lambda>(offset, count, dn, out, file, s). count - dn)") (auto dest!: read_round_progress[OF sym])

text \<open>The result is the number of bytes written and the error that stopped the loop, if any.\<close>

function write_loop :: "nat \<Rightarrow> nat \<Rightarrow> nat \<Rightarrow> u8 list \<Rightarrow> fs_file \<times> fs_state \<Rightarrow> nat \<times> fs_error option \<times> fs_file \<times> fs_state" where
  "write_loop offset count dn data fs =
     (if dn \<ge> count then (dn, None, fs)
      else case write_round offset count dn data fs of
        (Inl e, fs) \<Rightarrow> (dn, Some e, fs)
      | (Inr n, fs) \<Rightarrow> write_loop offset count (dn + n) data fs)"
  by pat_completeness auto
termination
  by (relation "measure (\<lambda>(offset, count, dn, data, fs). count - dn)") (auto dest!: write_round_progress[OF sym])

declare read_loop.simps [simp del] write_loop.simps [simp del]

abbreviation MAX_IO :: nat where "MAX_IO \<equiv> 2147483647"

text \<open>The buffer is the list \<open>out\<close>; the caller has made it large enough.\<close>

definition fs_read :: "nat \<Rightarrow> u8 list \<Rightarrow> nat \<Rightarrow> fs_file \<Rightarrow> fs_state \<Rightarrow> (fs_error + nat) \<times> u8 list \<times> fs_file \<times> fs_state" where
  "fs_read offset out count file s =
     (if \<not> mounted s then (Inl FS_ERR_NOFS, out, file, s)
      else if offset \<ge> f_size file \<or> count = 0 then (Inr 0, out, file, s)
      else
        let count = (if count > MAX_IO then MAX_IO else count);
            count = (if count > f_size file - offset then f_size file - offset else count)
        in read_loop offset count 0 out file s)"

definition write_impl :: "nat \<Rightarrow> u8 list \<Rightarrow> nat \<Rightarrow> nat fileop" where
  "write_impl offset data count = (\<lambda>(file, s).
     if \<not> mounted s then (Inl FS_ERR_NOFS, file, s)
     else if offset > f_size file then (Inl FS_ERR_INVAL, file, s)
     else
       let count = (if count > MAX_IO then MAX_IO else count);
           count = (if count > 4294967295 - offset then 4294967295 - offset else count)
       in if count = 0 then (Inr 0, file, s)
       else
         let old_first = f_first file;
             old_size = f_size file;
             (dn, status, file, s) = write_loop offset count 0 data (file, s);
             file = (if dn > 0 \<and> offset + dn > f_size file then file\<lparr>f_size := offset + dn\<rparr> else file);
             (r, s) = (if f_first file \<noteq> old_first \<or> f_size file \<noteq> old_size then file_sync file s else (Inr (), s))
         in case r of
           Inl e \<Rightarrow> (Inl e, file, s)
         | Inr _ \<Rightarrow> (if dn > 0 then Inr dn else case status of Some e \<Rightarrow> Inl e | None \<Rightarrow> Inr 0, file, s))"

text \<open>The two ends of \<open>truncate_impl\<close>: nothing of the file is kept, or its first \<open>keep\<close> clusters are.\<close>

definition truncate_all :: "unit fileop" where
  "truncate_all = (\<lambda>(file, s).
     let tail = f_first file;
         file = file\<lparr>f_first := 0, f_size := 0, cursor_index := 0, cursor_cluster := 0\<rparr>
     in on_fs (andThen (file_sync file) (\<lambda>_. chain_free tail)) (file, s))"

definition truncate_to :: "nat \<Rightarrow> nat \<Rightarrow> unit fileop" where
  "truncate_to keep n =
     andThen (file_reach (keep - 1) False) (\<lambda>_.
       with_file (\<lambda>file.
         let last = cursor_cluster file
         in andThen (on_fs (chain_next last)) (\<lambda>tail (file, s).
           let file = file\<lparr>f_size := n, cursor_index := 0, cursor_cluster := f_first file\<rparr>
           in on_fs (andThen (file_sync file) (\<lambda>_.
                if tail = 0 then (\<lambda>s. (Inr (), s))
                else andThen (fat_set last CHAIN_END) (\<lambda>_. chain_free tail))) (file, s))))"

definition truncate_impl :: "nat \<Rightarrow> unit fileop" where
  "truncate_impl n = (\<lambda>(file, s).
     if \<not> mounted s then (Inl FS_ERR_NOFS, file, s)
     else if n = f_size file then (Inr (), file, s)
     else if n > f_size file then (Inl FS_ERR_INVAL, file, s)
     else
       let keep = n div cluster_bytes s + (if n mod cluster_bytes s \<noteq> 0 then 1 else 0)
       in if keep = 0 then truncate_all (file, s) else truncate_to keep n (file, s))"


section \<open>Following and extending a chain\<close>

text \<open>
  \<open>grows\<close>: the chain \<open>cs\<close> has become \<open>cs'\<close> by appending clusters that were free; entries of other
  clusters in use are as before.
\<close>

definition grows :: "(nat \<Rightarrow> nat) \<Rightarrow> (nat \<Rightarrow> nat) \<Rightarrow> nat list \<Rightarrow> nat list \<Rightarrow> bool" where
  "grows fv fv' cs cs' \<longleftrightarrow> (\<exists>ext. cs' = cs @ ext \<and> (\<forall>c \<in> set ext. fv c = 0)) \<and> (\<forall>c \<in> set cs'. fv' c \<noteq> 0) \<and>
     (\<forall>c. fv c \<noteq> 0 \<and> c \<notin> set cs \<longrightarrow> fv' c = fv c)"

lemma grows_refl: "is_chain fv n first cs \<Longrightarrow> grows fv fv cs cs"
  using is_chain_range by (auto simp: grows_def)

lemma grows_trans:
  assumes "grows fv fv1 cs cs1" "grows fv1 fv2 cs1 cs2"
  shows "grows fv fv2 cs cs2"
proof -
  obtain e1 e2 where e: "cs1 = cs @ e1" "\<forall>c \<in> set e1. fv c = 0" "cs2 = cs1 @ e2" "\<forall>c \<in> set e2. fv1 c = 0"
    using assms by (auto simp: grows_def)
  have f1: "fv c \<noteq> 0 \<Longrightarrow> c \<notin> set cs \<Longrightarrow> fv1 c = fv c" for c using assms(1) by (simp add: grows_def)
  have f2: "fv1 c \<noteq> 0 \<Longrightarrow> c \<notin> set cs1 \<Longrightarrow> fv2 c = fv1 c" for c using assms(2) by (simp add: grows_def)
  have n1: "c \<in> set cs1 \<Longrightarrow> fv1 c \<noteq> 0" for c using assms(1) by (simp add: grows_def)
  have "fv2 c = fv c" if "fv c \<noteq> 0" "c \<notin> set cs" for c
  proof -
    have "c \<notin> set e1" using e(2) that(1) by auto
    then show ?thesis using f1[OF that] f2[of c] that e(1) by auto
  qed
  moreover have "fv c = 0" if "c \<in> set e2" for c
    using f1[of c] n1[of c] e(1,4) that by auto
  ultimately show ?thesis
    unfolding grows_def using e assms(2) by (auto simp: grows_def intro!: exI[of _ "e1 @ e2"])
qed

text \<open>Clusters of the old chain stay, and a chain disjoint from it survives.\<close>

lemma grows_prefix: "grows fv fv' cs cs' \<Longrightarrow> i < length cs \<Longrightarrow> i < length cs' \<and> cs' ! i = cs ! i"
  by (auto simp: grows_def nth_append)

lemma grows_other_chain:
  assumes "grows fv fv' cs cs'" "is_chain fv n d ds" "set ds \<inter> set cs = {}"
  shows "is_chain fv' n d ds \<and> set ds \<inter> set cs' = {}"
proof -
  have nz: "c \<in> set ds \<Longrightarrow> fv c \<noteq> 0" for c using is_chain_range[OF assms(2)] by simp
  have "c \<in> set ds \<Longrightarrow> fv' c = fv c" for c using assms(1,3) nz[of c] by (auto simp: grows_def)
  then have "is_chain fv' n d ds" using is_chain_cong[of ds fv' fv] assms(2) by blast
  moreover have "c \<notin> set cs'" if "c \<in> set ds" for c using assms(1,3) nz[OF that] that by (auto simp: grows_def)
  ultimately show ?thesis by blast
qed

lemma reach_loop_read:
  "\<lbrakk>fs_wf s; is_chain (fat_view s) (cluster_count (sb s)) first cs; i + k < length cs; reach_loop k allocate (cs ! i) s = (r, s')\<rbrakk> \<Longrightarrow>
    fat_same s s' \<and> (r = Inr (cs ! (i + k)) \<or> r = Inl FS_ERR_IO)"
proof (induction k arbitrary: i s)
  case 0
  then show ?case by (auto simp: fat_same_refl)
next
  case (Suc k)
  obtain r1 s1 where n: "chain_next (cs ! i) s = (r1, s1)" by fastforce
  have c: "fat_same s s1" "r1 = Inr (cs ! (i + 1)) \<or> r1 = Inl FS_ERR_IO"
    using chain_next_in_chain[OF Suc.prems(1) n Suc.prems(2)] Suc.prems(3) by auto
  have nz: "cs ! (i + 1) \<noteq> 0" using is_chain_range[OF Suc.prems(2), of "cs ! (i + 1)"] Suc.prems(3) by auto
  show ?case
  proof (cases "r1 = Inl FS_ERR_IO")
    case True
    then show ?thesis using Suc.prems(4) n c(1) by (auto simp: andThen_def)
  next
    case False
    then have "reach_loop k allocate (cs ! (i + 1)) s1 = (r, s')" using Suc.prems(4) n c(2) nz by (simp add: andThen_def)
    moreover have "fs_wf s1" "is_chain (fat_view s1) (cluster_count (sb s1)) first cs"
      using c(1) Suc.prems(2) by (auto simp: fat_same_def fat_frame_def)
    ultimately have "fat_same s1 s' \<and> (r = Inr (cs ! (i + 1 + k)) \<or> r = Inl FS_ERR_IO)"
      using Suc.IH[of s1 "i + 1"] Suc.prems(3) by simp
    then show ?thesis using fat_same_trans[OF c(1)] by auto
  qed
qed

lemma chain_extended:
  assumes "is_chain fv n first cs" "i + 1 = length cs" "fv x = 0" "1 \<le> x" "x \<le> n" "n < CHAIN_END"
    and "fv' = fv(x := CHAIN_END, cs ! i := x)"
  shows "is_chain fv' n first (cs @ [x]) \<and> grows fv fv' cs (cs @ [x])"
proof -
  have x: "x \<notin> set cs" using is_chain_range[OF assms(1), of x] assms(3) by auto
  obtain ys y where cs: "cs = ys @ [y]" using assms(2) by (cases cs rule: rev_cases) auto
  have y: "cs ! i = y" using cs assms(2) by simp
  have yn: "y \<notin> set ys" using is_chain_distinct[OF assms(1)] cs by simp
  have xy: "x \<noteq> y" "x \<notin> set ys" using x cs by auto
  have fv': "fv' x = CHAIN_END" "fv' y = x" "\<And>z. z \<in> set ys \<Longrightarrow> fv' z = fv z" using assms(7) xy y yn by auto
  have "is_chain fv' n x [x]" using assms(4,5) fv'(1) by (simp add: next_of_def)
  moreover have "is_chain fv n first (ys @ [y])" using assms(1) cs by simp
  ultimately have "is_chain fv' n first (ys @ y # [x])"
    using is_chain_append[of fv n first ys y fv' x "[x]"] fv'(2,3) assms(6) by blast
  then have ch: "is_chain fv' n first (cs @ [x])" using cs by simp
  have nz: "fv' c \<noteq> 0" if "c \<in> set (cs @ [x])" for c using is_chain_range[OF ch that] by simp
  have same: "fv' c = fv c" if "fv c \<noteq> 0" "c \<notin> set cs" for c
  proof -
    have "c \<noteq> x" "c \<noteq> y" using that assms(3) cs by auto
    then show ?thesis by (simp add: assms(7) y)
  qed
  have "\<exists>ext. cs @ [x] = cs @ ext \<and> (\<forall>c \<in> set ext. fv c = 0)" using assms(3) by (intro exI[of _ "[x]"]) simp
  then show ?thesis unfolding grows_def using ch nz same by blast
qed

lemma reach_loop_write:
  "\<lbrakk>fs_wf s; is_chain (fat_view s) (cluster_count (sb s)) first cs; i < length cs; reach_loop k True (cs ! i) s = (r, s')\<rbrakk> \<Longrightarrow>
    \<exists>cs'. fat_step s s' \<and> is_chain (fat_view s') (cluster_count (sb s)) first cs' \<and> grows (fat_view s) (fat_view s') cs cs' \<and>
      (\<forall>c. r = Inr c \<longrightarrow> i + k < length cs' \<and> c = cs' ! (i + k))"
proof (induction k arbitrary: i s cs)
  case 0
  then show ?case by (auto simp: fat_step_refl intro!: exI[of _ cs] grows_refl)
next
  case (Suc k)
  let ?n = "cluster_count (sb s)" and ?fv = "fat_view s"
  note ch = Suc.prems(2)
  obtain r1 s1 where n: "chain_next (cs ! i) s = (r1, s1)" by fastforce
  have c: "fat_same s s1" "r1 = Inr (if i + 1 < length cs then cs ! (i + 1) else 0) \<or> r1 = Inl FS_ERR_IO"
    using chain_next_in_chain[OF Suc.prems(1) n ch Suc.prems(3)] by auto
  have s1: "fs_wf s1" "fat_view s1 = ?fv" "sb s1 = sb s" "fat_step s s1"
    using c(1) fat_same_step[OF c(1)] by (auto simp: fat_same_def fat_frame_def)
  consider (err) "r1 = Inl FS_ERR_IO" | (step) "r1 = Inr (cs ! (i + 1))" "i + 1 < length cs" | (new) "r1 = Inr 0" "i + 1 = length cs"
    using c(2) Suc.prems(3) by (auto split: if_splits)
  then show ?case
  proof cases
    case err
    then have "r = Inl FS_ERR_IO" "s' = s1" using Suc.prems(4) n by (simp_all add: andThen_def)
    then show ?thesis using s1 ch grows_refl[OF ch] by (intro exI[of _ cs]) simp
  next
    case step
    have "cs ! (i + 1) \<noteq> 0" using is_chain_range[OF ch, of "cs ! (i + 1)"] step(2) by auto
    then have "reach_loop k True (cs ! (i + 1)) s1 = (r, s')" using Suc.prems(4) n step(1) by (simp add: andThen_def)
    from Suc.IH[OF s1(1) _ step(2) this] ch s1 obtain cs' where
        "fat_step s1 s'" "is_chain (fat_view s') ?n first cs'" "grows ?fv (fat_view s') cs cs'"
        "\<forall>c. r = Inr c \<longrightarrow> i + 1 + k < length cs' \<and> c = cs' ! (i + 1 + k)"
      by auto
    then show ?thesis using fat_step_trans[OF s1(4)] by (intro exI[of _ cs']) auto
  next
    case new
    obtain r2 s2 where a: "cluster_alloc s1 = (r2, s2)" by fastforce
    note al = cluster_alloc_spec[OF s1(1) a]
    show ?thesis
    proof (cases r2)
      case (Inl e)
      then have "r = Inl e" "s' = s2" using Suc.prems(4) n new(1) a by (simp_all add: andThen_def)
      then show ?thesis using al Inl s1 ch grows_refl[OF ch] fat_step_trans[OF s1(4)] by (intro exI[of _ cs]) auto
    next
      case (Inr x)
      have x: "1 \<le> x" "x \<le> ?n" "?fv x = 0" "fat_view s2 = ?fv(x := CHAIN_END)" and st2: "fat_step s1 s2"
        using al Inr s1 by auto
      have s2: "fs_wf s2" "sb s2 = sb s" using st2 s1(3) by (auto simp: fat_step_def fat_frame_def)
      obtain r3 s3 where f: "fat_set (cs ! i) x s2 = (r3, s3)" by fastforce
      have rng: "1 \<le> cs ! i" "cs ! i \<le> ?n" using is_chain_range[OF ch, of "cs ! i"] Suc.prems(3) by auto
      have xm: "x mod 4294967296 = x" using x(2) cluster_count_small[OF Suc.prems(1)] by simp
      have fs: "fs_wf s3" "fat_frame s2 s3" "r3 = Inr () \<and> fat_view s3 = (fat_view s2)(cs ! i := x) \<or> r3 = Inl FS_ERR_IO \<and> fat_view s3 = fat_view s2"
        using fat_set_spec[OF s2(1) f] rng s2(2) xm by auto
      have st3: "fat_step s s3" using fs s1(4) st2 fat_step_trans[of s s1 s2] fat_step_trans[of s s2 s3] by (auto simp: fat_step_def)
      have s3: "sb s3 = sb s" using fs(2) s2(2) by (simp add: fat_frame_def)
      show ?thesis
      proof (cases "r3 = Inl FS_ERR_IO")
        case True
        have fv3: "fat_view s3 = ?fv(x := CHAIN_END)" using fs(3) True x(4) by auto
        obtain r4 s4 where fr: "cluster_free x s3 = (r4, s4)" by fastforce
        have "r = Inl FS_ERR_IO" "s' = s4" using Suc.prems(4) n new(1) a Inr f True fr by (simp_all add: andThen_def)
        moreover have "fat_step s3 s4 \<and> (fat_view s4 = ?fv(x := 0) \<or> fat_view s4 = ?fv(x := CHAIN_END))"
          using cluster_free_spec[OF fs(1) fr] x s3 fv3 by auto
        moreover have "x \<notin> set cs" using is_chain_range[OF ch, of x] x(3) by auto
        then have "is_chain (?fv(x := v)) ?n first cs \<and> grows ?fv (?fv(x := v)) cs cs" for v
          using ch is_chain_cong[of cs "?fv(x := v)" ?fv] x(3) is_chain_range[OF ch] by (fastforce simp: grows_def)
        ultimately show ?thesis using fat_step_trans[OF st3, of s4] by (intro exI[of _ cs]) auto
      next
        case False
        then have ok: "r3 = Inr ()" "fat_view s3 = ?fv(x := CHAIN_END, cs ! i := x)" using fs(3) x(4) by auto
        note ex = chain_extended[OF ch new(2) x(3,1,2) cluster_count_small[OF Suc.prems(1)] ok(2)]
        have "reach_loop k True ((cs @ [x]) ! (i + 1)) s3 = (r, s')"
          using Suc.prems(4) n new a Inr f ok(1) by (simp add: andThen_def)
        from Suc.IH[OF fs(1) _ _ this] ex s3 new(2) obtain cs' where
            c': "fat_step s3 s'" "is_chain (fat_view s') ?n first cs'" "grows (fat_view s3) (fat_view s') (cs @ [x]) cs'"
            "\<forall>c. r = Inr c \<longrightarrow> i + 1 + k < length cs' \<and> c = cs' ! (i + 1 + k)"
          by auto
        have "grows ?fv (fat_view s') cs cs'" using grows_trans[OF _ c'(3)] ex by blast
        then show ?thesis using c' fat_step_trans[OF st3] by (intro exI[of _ cs']) auto
      qed
    qed
  qed
qed


text \<open>An open file and the chain of its clusters: the cursor, if set, points into the chain.\<close>

definition file_ok :: "fs_state \<Rightarrow> fs_file \<Rightarrow> nat list \<Rightarrow> bool" where
  "file_ok s file cs \<longleftrightarrow> is_chain (fat_view s) (cluster_count (sb s)) (f_first file) cs \<and>
     (cursor_cluster file \<noteq> 0 \<longrightarrow> cursor_index file < length cs \<and> cs ! cursor_index file = cursor_cluster file)"

lemma file_ok_step: "\<lbrakk>file_ok s file cs; fat_view s' = fat_view s; sb s' = sb s\<rbrakk> \<Longrightarrow> file_ok s' file cs"
  by (simp add: file_ok_def)

lemma file_ok_range: "\<lbrakk>file_ok s file cs; c \<in> set cs\<rbrakk> \<Longrightarrow> 1 \<le> c \<and> c \<le> cluster_count (sb s) \<and> fat_view s c \<noteq> 0"
  using is_chain_range[of "fat_view s" _ _ cs c] by (auto simp: file_ok_def)

lemma file_ok_chain: "file_ok s file cs \<Longrightarrow> is_chain (fat_view s) (cluster_count (sb s)) (f_first file) cs"
  by (simp add: file_ok_def)

lemma file_ok_distinct: "file_ok s file cs \<Longrightarrow> distinct cs"
  using is_chain_distinct by (auto simp: file_ok_def)

text \<open>The walk starts at the cursor or at the first cluster.\<close>

lemma file_reach_start:
  assumes "file_ok s file cs" "cs \<noteq> []"
    and "near \<longleftrightarrow> cursor_cluster file \<noteq> 0 \<and> cursor_index file \<le> index"
    and "at0 = (if near then cursor_index file else 0)"
  shows "(if near then cursor_cluster file else f_first file) = cs ! at0" "at0 < length cs" "at0 + (index - at0) = index"
proof -
  have "f_first file = cs ! 0" using assms(1,2) by (cases cs) (auto simp: file_ok_def)
  then show "(if near then cursor_cluster file else f_first file) = cs ! at0" "at0 < length cs" "at0 + (index - at0) = index"
    using assms by (auto simp: file_ok_def)
qed

lemma file_reach_read:
  assumes wf: "fs_wf s" and ok: "file_ok s file cs" and i: "index < length cs"
    and r: "file_reach index False (file, s) = (r, file', s')"
  shows "fat_same s s' \<and>
    (r = Inr () \<and> file' = file\<lparr>cursor_cluster := cs ! index, cursor_index := index\<rparr> \<or> r = Inl FS_ERR_IO \<and> file' = file)"
proof -
  define near where "near \<longleftrightarrow> cursor_cluster file \<noteq> 0 \<and> cursor_index file \<le> index"
  define at0 where "at0 = (if near then cursor_index file else 0)"
  have ne: "cs \<noteq> []" "f_first file \<noteq> 0" using ok i by (cases "f_first file = 0"; auto simp: file_ok_def)+
  have ch: "is_chain (fat_view s) (cluster_count (sb s)) (f_first file) cs" using ok by (simp add: file_ok_def)
  note st = file_reach_start[OF ok ne(1) near_def at0_def]
  obtain r1 s1 where l: "reach_loop (index - at0) False (if near then cursor_cluster file else f_first file) s = (r1, s1)" by fastforce
  have "(case (r1, s1) of (Inl e, s) \<Rightarrow> (Inl e, file, s)
      | (Inr c, s) \<Rightarrow> (Inr (), file\<lparr>cursor_cluster := c, cursor_index := index\<rparr>, s)) = (r, file', s')"
    using r ne(2) l unfolding file_reach_def reach_first_def andThen_def Let_def at0_def near_def by simp
  moreover have "fat_same s s1 \<and> (r1 = Inr (cs ! index) \<or> r1 = Inl FS_ERR_IO)"
    using reach_loop_read[OF wf ch _ l[unfolded st(1)]] i st(3) by simp
  ultimately show ?thesis by auto
qed

lemma file_reach_write:
  assumes wf: "fs_wf s" and ok: "file_ok s file cs" and r: "file_reach index True (file, s) = (r, file', s')"
  obtains cs' where "fat_step s s'" "file_ok s' file' cs'" "grows (fat_view s) (fat_view s') cs cs'"
    "r = Inr () \<longrightarrow> index < length cs' \<and> cursor_cluster file' = cs' ! index"
    "dir_sector file' = dir_sector file" "dir_slot file' = dir_slot file" "f_size file' = f_size file"
proof -
  let ?n = "cluster_count (sb s)"
  have ch: "is_chain (fat_view s) ?n (f_first file) cs" using ok by (simp add: file_ok_def)
  obtain r1 file1 s1 where f: "reach_first True (file, s) = (r1, file1, s1)" by (metis prod_cases3)
  have "\<exists>cs1. fat_step s s1 \<and> file_ok s1 file1 cs1 \<and> grows (fat_view s) (fat_view s1) cs cs1 \<and> (r1 = Inr () \<longrightarrow> cs1 \<noteq> []) \<and>
      dir_sector file1 = dir_sector file \<and> dir_slot file1 = dir_slot file \<and> f_size file1 = f_size file"
  proof (cases "f_first file = 0")
    case False
    then have "r1 = Inr ()" "file1 = file" "s1 = s" "cs \<noteq> []" using f ok by (auto simp: reach_first_def file_ok_def)
    then show ?thesis using wf ok grows_refl[OF ch] by (intro exI[of _ cs]) (simp add: fat_step_refl)
  next
    case True
    then have cs: "cs = []" using ch by simp
    obtain ra sa where a: "cluster_alloc s = (ra, sa)" by fastforce
    note al = cluster_alloc_spec[OF wf a]
    show ?thesis
    proof (cases ra)
      case (Inl e)
      then have "r1 = Inl e" "file1 = file" "s1 = sa" using f True a by (simp_all add: reach_first_def)
      then show ?thesis
        using al Inl ok grows_refl[OF ch] fat_step_sb[of s sa] by (intro exI[of _ cs]) (auto intro: file_ok_step)
    next
      case (Inr x)
      then have e: "r1 = Inr ()" "file1 = file\<lparr>f_first := x, cursor_cluster := x, cursor_index := 0\<rparr>" "s1 = sa"
        using f True a by (simp_all add: reach_first_def)
      have x: "fat_step s sa" "1 \<le> x" "x \<le> ?n" "fat_view s x = 0" "fat_view sa = (fat_view s)(x := CHAIN_END)"
        using al Inr by auto
      have "file_ok s1 file1 [x]" using x fat_step_sb[OF x(1)] by (simp add: file_ok_def e next_of_def)
      moreover have "grows (fat_view s) (fat_view s1) cs [x]" using x(4,5) cs e(3) by (auto simp: grows_def)
      ultimately show ?thesis using x(1) e by (intro exI[of _ "[x]"]) simp
    qed
  qed
  then obtain cs1 where c1: "fat_step s s1" "file_ok s1 file1 cs1" "grows (fat_view s) (fat_view s1) cs cs1" "r1 = Inr () \<longrightarrow> cs1 \<noteq> []"
      "dir_sector file1 = dir_sector file" "dir_slot file1 = dir_slot file" "f_size file1 = f_size file" by blast
  show thesis
  proof (cases r1)
    case (Inl e)
    then have "r = Inl e" "file' = file1" "s' = s1" using r f by (simp_all add: file_reach_def andThen_def)
    then show ?thesis using that[of cs1] c1 by simp
  next
    case (Inr u)
    then have ne: "cs1 \<noteq> []" using c1(4) by (simp add: unit_eq)
    define near where "near \<longleftrightarrow> cursor_cluster file1 \<noteq> 0 \<and> cursor_index file1 \<le> index"
    define at0 where "at0 = (if near then cursor_index file1 else 0)"
    note st = file_reach_start[OF c1(2) ne near_def at0_def]
    obtain r2 s2 where l: "reach_loop (index - at0) True (if near then cursor_cluster file1 else f_first file1) s1 = (r2, s2)"
      by fastforce
    have e: "(case (r2, s2) of (Inl e, s) \<Rightarrow> (Inl e, file1, s)
        | (Inr c, s) \<Rightarrow> (Inr (), file1\<lparr>cursor_cluster := c, cursor_index := index\<rparr>, s)) = (r, file', s')"
      using r f Inr l unfolding file_reach_def andThen_def Let_def at0_def near_def by simp
    have w1: "fs_wf s1" "is_chain (fat_view s1) (cluster_count (sb s1)) (f_first file1) cs1"
      using c1(1,2) by (simp_all add: fat_step_def file_ok_def)
    obtain cs' where c': "fat_step s1 s2" "is_chain (fat_view s2) (cluster_count (sb s1)) (f_first file1) cs'"
        "grows (fat_view s1) (fat_view s2) cs1 cs'" "\<forall>c. r2 = Inr c \<longrightarrow> at0 + (index - at0) < length cs' \<and> c = cs' ! (at0 + (index - at0))"
      using reach_loop_write[OF w1 st(2) l[unfolded st(1)]] by blast
    have s2: "s' = s2" using e by (cases r2) auto
    have sb2: "sb s2 = sb s1" using fat_step_sb[OF c'(1)] by simp
    have cur: "cursor_index file1 < length cs' \<and> cs' ! cursor_index file1 = cursor_cluster file1" if "cursor_cluster file1 \<noteq> 0"
      using grows_prefix[OF c'(3)] c1(2) that by (simp add: file_ok_def)
    have "file_ok s' file' cs'" "r = Inr () \<longrightarrow> index < length cs' \<and> cursor_cluster file' = cs' ! index"
        "dir_sector file' = dir_sector file1" "dir_slot file' = dir_slot file1" "f_size file' = f_size file1"
      using e c'(2,4) st(3) s2 sb2 cur by (cases r2; auto simp: file_ok_def)+
    then show ?thesis
      using that[of cs'] fat_step_trans[OF c1(1) c'(1)] grows_trans[OF c1(3) c'(3)] c1(5-7) s2 by simp
  qed
qed


section \<open>The bytes of a file\<close>

text \<open>
  The bytes of the disk in one line, and the address of byte \<open>p\<close> of a file with the clusters \<open>cs\<close>.  The
  content of a file is what its clusters hold up to its size.
\<close>

definition disk_byte :: "fs_state \<Rightarrow> nat \<Rightarrow> u8" where
  "disk_byte s a = blk s (a div 512) ! (a mod 512)"

definition addr :: "fs_state \<Rightarrow> nat list \<Rightarrow> nat \<Rightarrow> nat" where
  "addr s cs p = cluster_sector s (cs ! (p div cluster_bytes s)) * 512 + p mod cluster_bytes s"

definition file_byte :: "fs_state \<Rightarrow> nat list \<Rightarrow> nat \<Rightarrow> u8" where
  "file_byte s cs p = disk_byte s (addr s cs p)"

definition content :: "fs_state \<Rightarrow> fs_file \<Rightarrow> nat list \<Rightarrow> u8 list" where
  "content s file cs = map (file_byte s cs) [0..<f_size file]"

lemma cluster_bytes_pos [simp]: "0 < cluster_bytes s"
  by (simp add: cluster_bytes_def)

lemma cluster_bytes_keeps: "keeps W s s' \<Longrightarrow> cluster_bytes s' = cluster_bytes s \<and> addr s' = addr s"
  using cluster_blocks_keeps[of W s s'] by (auto simp: cluster_bytes_def keeps_def addr_def fun_eq_iff)

lemma mod_cluster_sector: "p mod cluster_bytes s mod 512 = p mod 512"
  unfolding cluster_bytes_def by (simp add: mod_mod_cancel)

lemma addr_lba:
  assumes "cursor_cluster file = cs ! (p div cluster_bytes s)"
  shows "addr s cs p = lba_of s file p * 512 + p mod 512"
proof -
  have "p mod cluster_bytes s = sector_index s p * 512 + p mod 512"
    unfolding sector_index_def mod_cluster_sector[of p s, symmetric] by simp
  then show ?thesis using assms by (simp add: addr_def lba_of_def add_mult_distrib)
qed

lemma lba_in_cluster: "lba_of s file p \<in> cluster_blocks s (cursor_cluster file)"
  using sector_index_lt[of s p] by (simp add: lba_of_def cluster_blocks_def)

text \<open>Inside of a cluster addresses run with positions; other clusters are elsewhere.\<close>

lemma addr_window:
  assumes "distinct cs" "\<forall>c \<in> set cs. 1 \<le> c" "p div cluster_bytes s < length cs" "q div cluster_bytes s < length cs"
    and "p mod cluster_bytes s + m \<le> cluster_bytes s"
  shows "addr s cs p \<le> addr s cs q \<and> addr s cs q < addr s cs p + m \<longleftrightarrow> p \<le> q \<and> q < p + m"
    and "p \<le> q \<Longrightarrow> q < p + m \<Longrightarrow> addr s cs q = addr s cs p + (q - p)"
proof -
  define C where "C = cluster_bytes s"
  have C: "0 < C" "C = 2 ^ cluster_shift s * 512" by (simp_all add: C_def cluster_bytes_def)
  have pos: "x = x div C * C + x mod C" "x mod C < C" for x using C(1) by simp_all
  have base: "cluster_sector s c * 512 = data_start (sb s) * 512 + (c - 1) * C" for c
    unfolding cluster_sector_def C(2) by (simp add: add_mult_distrib mult.assoc)
  have within: "q div C = p div C \<and> q mod C = p mod C + (q - p)" if "p \<le> q" "q < p + m"
  proof -
    have lt: "p mod C + (q - p) < C" using assms(5) that by (simp add: C_def)
    have "q = p div C * C + (p mod C + (q - p))" using pos(1)[of p] that by linarith
    then show ?thesis using lt C(1) by (metis add.commute div_mult_self1_is_m mod_less mod_mult_self3 div_less div_mult_self3 add_cancel_right_left less_numeral_extra(3))
  qed
  show w: "addr s cs q = addr s cs p + (q - p)" if "p \<le> q" "q < p + m"
    using within[OF that] by (simp add: addr_def C_def[symmetric])
  show "addr s cs p \<le> addr s cs q \<and> addr s cs q < addr s cs p + m \<longleftrightarrow> p \<le> q \<and> q < p + m"
  proof (cases "q div C = p div C")
    case True
    then have "addr s cs q + p mod C = addr s cs p + q mod C" by (simp add: addr_def C_def[symmetric])
    moreover have "q + p mod C = p + q mod C" using pos(1)[of p] pos(1)[of q] arg_cong[OF True, of "\<lambda>x. x * C"] by linarith
    ultimately show ?thesis by linarith
  next
    case False
    define a b where "a = cs ! (p div C)" and "b = cs ! (q div C)"
    have ab: "a \<noteq> b" "1 \<le> a" "1 \<le> b"
      using assms(1-4) False by (auto simp: a_def b_def C_def nth_eq_iff_index_eq)
    have step: "(c - 1) * C + C \<le> (d - 1) * C" if "c < d" "1 \<le> c" for c d
      using mult_le_mono1[of c "d - 1" C] that by (cases c) (simp_all add: add.commute)
    have "a < b \<Longrightarrow> (a - 1) * C + C \<le> (b - 1) * C" "b < a \<Longrightarrow> (b - 1) * C + C \<le> (a - 1) * C"
      using step ab(2,3) by blast+
    moreover have "addr s cs p = data_start (sb s) * 512 + (a - 1) * C + p mod C" "addr s cs q = data_start (sb s) * 512 + (b - 1) * C + q mod C"
      by (simp_all add: addr_def C_def[symmetric] a_def b_def base)
    ultimately have "\<not> (addr s cs p \<le> addr s cs q \<and> addr s cs q < addr s cs p + m)"
      using ab(1) assms(5) pos(2)[of p] pos(2)[of q] unfolding C_def[symmetric] by linarith
    moreover have "\<not> (p \<le> q \<and> q < p + m)" using within False by auto
    ultimately show ?thesis by blast
  qed
qed


lemma nth_sectors_at:
  assumes "\<And>i. length (m i) = 512" "j < n * 512"
  shows "sectors_at m lba n ! j = m (lba + j div 512) ! (j mod 512)"
proof -
  have i: "j div 512 < n" using assms(2) by (simp add: less_mult_imp_div_less)
  have "sectors_at m lba n ! j = chunk (sectors_at m lba n) (j div 512 * 512) 512 ! (j mod 512)"
    using length_sectors_at[of m lba n] assms i mult_le_mono1[of "j div 512 + 1" n 512]
    by (subst nth_chunk) simp_all
  then show ?thesis using chunk_of_sectors[OF assms(1) i] by simp
qed

lemma put_sectors_byte:
  assumes "n * 512 \<le> length data"
  shows "put_sectors m lba n data (a div 512) ! (a mod 512) =
    (if lba * 512 \<le> a \<and> a < lba * 512 + n * 512 then data ! (a - lba * 512) else m (a div 512) ! (a mod 512))"
proof -
  have iff: "lba \<le> a div 512 \<and> a div 512 < lba + n \<longleftrightarrow> lba * 512 \<le> a \<and> a < lba * 512 + n * 512"
    by (simp add: less_eq_div_iff_mult_less_eq div_less_iff_less_mult add_mult_distrib)
  have "chunk data ((a div 512 - lba) * 512) 512 ! (a mod 512) = data ! (a - lba * 512)"
    if "lba \<le> a div 512" "a div 512 < lba + n"
  proof -
    have "(a div 512 - lba + 1) * 512 \<le> n * 512" using that by (intro mult_le_mono1) simp
    then have "(a div 512 - lba) * 512 + 512 \<le> length data" using assms by simp
    moreover have "(a div 512 - lba) * 512 + a mod 512 = a - lba * 512" using that by (simp add: diff_mult_distrib)
    ultimately show ?thesis by (simp add: nth_chunk)
  qed
  then show ?thesis unfolding put_sectors_def iff[symmetric] by simp
qed

definition overwritten :: "fs_state \<Rightarrow> nat \<Rightarrow> nat \<Rightarrow> u8 list \<Rightarrow> fs_state \<Rightarrow> bool" where
  "overwritten s a k data s' \<longleftrightarrow>
     (\<forall>b. disk_byte s' b = (if a \<le> b \<and> b < a + k then data ! (b - a) else disk_byte s b))"

lemma overwritten_refl: "blk s' = blk s \<Longrightarrow> overwritten s a 0 data s'"
  by (auto simp: overwritten_def disk_byte_def)

lemma run_in_cluster:
  assumes "sectors \<le> 2 ^ cluster_shift s - sector_index s p"
  shows "{lba_of s file p..<lba_of s file p + sectors} \<subseteq> cluster_blocks s (cursor_cluster file)"
    "p mod 512 = 0 \<Longrightarrow> p mod cluster_bytes s + sectors * 512 \<le> cluster_bytes s"
proof -
  show "{lba_of s file p..<lba_of s file p + sectors} \<subseteq> cluster_blocks s (cursor_cluster file)"
    using assms sector_index_lt[of s p] by (auto simp: lba_of_def cluster_blocks_def)
  assume "p mod 512 = 0"
  then have "p mod cluster_bytes s = sector_index s p * 512"
    unfolding sector_index_def using mod_cluster_sector[of p s] by (metis add.right_neutral div_mult_mod_eq)
  moreover have "(sector_index s p + sectors) * 512 \<le> 2 ^ cluster_shift s * 512"
    using assms sector_index_lt[of s p] by (intro mult_le_mono1) simp
  ultimately show "p mod cluster_bytes s + sectors * 512 \<le> cluster_bytes s" by (simp add: cluster_bytes_def)
qed

lemma chunk_in_cluster: "n \<le> 512 - p mod 512 \<Longrightarrow> p mod cluster_bytes s + n \<le> cluster_bytes s"
proof -
  assume n: "n \<le> 512 - p mod 512"
  have e: "p mod cluster_bytes s = sector_index s p * 512 + p mod 512"
    unfolding sector_index_def mod_cluster_sector[of p s, symmetric] by simp
  have "(sector_index s p + 1) * 512 \<le> 2 ^ cluster_shift s * 512" using sector_index_lt[of s p] by (intro mult_le_mono1) simp
  moreover have "p mod 512 < 512" by simp
  ultimately show ?thesis using n unfolding e by (simp add: cluster_bytes_def)
qed

lemma read_step_spec:
  assumes wf: "fs_wf s" and x: "cursor_cluster file = cs ! (p div cluster_bytes s)"
      "1 \<le> cursor_cluster file" "cursor_cluster file \<le> cluster_count (sb s)"
    and len: "dn + remaining \<le> length out" and r: "read_step p remaining dn out file s = (r, out', s')"
  shows "keeps {} s s' \<and> fat_view s' = fat_view s \<and> blk s' = blk s \<and> length out' = length out \<and> take dn out' = take dn out \<and>
    (case r of Inl e \<Rightarrow> e = FS_ERR_IO
     | Inr m \<Rightarrow> p mod cluster_bytes s + m \<le> cluster_bytes s \<and> m \<le> remaining \<and>
         (\<forall>j < m. out' ! (dn + j) = disk_byte s (addr s cs p + j)))"
proof -
  let ?lba = "lba_of s file p"
  have area: "cluster_blocks s (cursor_cluster file) \<subseteq> block_area s" by (rule cluster_blocks_area[OF wf x(2,3)])
  have ad: "addr s cs p = ?lba * 512 + p mod 512" by (rule addr_lba[OF x(1)])
  have lb: "\<And>i. length (blk s i) = 512" by (rule length_blk[OF wf])
  show ?thesis
  proof (cases "p mod 512 = 0 \<and> remaining \<ge> 512")
    case True
    define S where "S = min (remaining div 512) (2 ^ cluster_shift s - sector_index s p)"
    have "0 < remaining div 512" using True by (simp add: div_greater_zero_iff)
    then have S: "0 < S" "S \<le> 2 ^ cluster_shift s - sector_index s p" "S * 512 \<le> remaining"
      using sector_index_lt[of s p] mult_le_mono1[of S "remaining div 512" 512] div_times_less_eq_dividend[of remaining 512]
      by (simp_all add: S_def)
    obtain ok buf s1 where b: "blocks_read ?lba S (drop dn out) s = (ok, buf, s1)" by (metis prod_cases3)
    have e: "r = (if ok then Inr (S * 512) else Inl FS_ERR_IO)" "out' = take dn out @ buf" "s' = s1"
      using r True b by (auto simp: read_step_def Let_def S_def[symmetric])
    have sub: "{?lba..<?lba + S} \<subseteq> block_area s" using run_in_cluster(1)[OF S(2)] area by blast
    have fits: "S * 512 \<le> length (drop dn out)" using S(3) len by simp
    note R = reads_area[OF wf sub S(1) fits b]
    have lbuf: "length buf = length out - dn" using R by (simp add: read_ok_def)
    have "buf ! j = disk_byte s (addr s cs p + j)" if "ok" "j < S * 512" for j
    proof -
      have "buf ! j = take (S * 512) buf ! j" using that by simp
      also have "\<dots> = blk s (?lba + j div 512) ! (j mod 512)" using R that nth_sectors_at[where m = "blk s" and j = j and n = S and lba = ?lba, OF lb] by (simp add: read_ok_def)
      finally show ?thesis using ad True by (simp add: disk_byte_def add.commute)
    qed
    then show ?thesis using R e lbuf len run_in_cluster(2)[OF S(2)] True S(3) by (auto simp: nth_append)
  next
    case False
    define n where "n = min (512 - p mod 512) remaining"
    have n: "n \<le> 512 - p mod 512" "n \<le> remaining" by (simp_all add: n_def)
    have bufs: "length (io_buf s) = 512" "length (dir_buf s) = 512" using wf by (simp_all add: fs_wf_def)
    obtain ok buf s1 where b: "block_read ?lba (io_buf s) s = (ok, buf, s1)" by (metis prod_cases3)
    have i: "?lba \<in> block_area s" using lba_in_cluster area by blast
    obtain d where d: "s1 = s\<lparr>drive := d\<rparr>" "length buf = 512" "ok \<longrightarrow> buf = blk s ?lba" "blk s1 = blk s"
        "\<And>b1 b2. length b1 = 512 \<Longrightarrow> length b2 = 512 \<Longrightarrow>
          keeps {} s (s1\<lparr>dir_buf := b1, io_buf := b2\<rparr>) \<and> fat_view (s1\<lparr>dir_buf := b1, io_buf := b2\<rparr>) = fat_view s"
      by (rule read_area[OF wf i bufs(1) b]) blast
    have e: "s' = s1\<lparr>dir_buf := dir_buf s, io_buf := buf\<rparr>" "r = (if ok then Inr n else Inl FS_ERR_IO)"
        "out' = (if ok then write_at out dn (chunk buf (p mod 512) n) else out)"
      using r False b d(1) by (cases ok; auto simp: read_step_def Let_def n_def[symmetric])+
    have kp: "keeps {} s s'" "fat_view s' = fat_view s" using d(5)[OF bufs(2) d(2)] e(1) by simp_all
    have bs: "blk s' = blk s" using d(4) by (simp add: e(1) blk_def fun_eq_iff)
    have lc: "length (chunk buf (p mod 512) n) = n" using n(1) d(2) by (intro length_chunk) linarith
    have "out' ! (dn + j) = disk_byte s (addr s cs p + j)" if "ok" "j < n" for j
    proof -
      have "out' ! (dn + j) = chunk buf (p mod 512) n ! j" using e(3) that lc n(2) len by (simp add: nth_write_at)
      also have "\<dots> = blk s ?lba ! (p mod 512 + j)" using d(2,3) that n(1) by (subst nth_chunk) auto
      also have "\<dots> = disk_byte s (addr s cs p + j)"
      proof -
        have lt: "p mod 512 + j < 512" using that(2) n(1) by linarith
        then have "(?lba * 512 + (p mod 512 + j)) div 512 = ?lba" "(?lba * 512 + (p mod 512 + j)) mod 512 = p mod 512 + j" by simp_all
        then show ?thesis by (simp add: disk_byte_def ad add.assoc)
      qed
      finally show ?thesis .
    qed
    moreover have "length out' = length out" "take dn out' = take dn out"
      using e(3) lc n(2) len by (auto simp: take_write_at_before)
    ultimately show ?thesis using kp bs e(2) chunk_in_cluster[OF n(1)] n(2) by auto
  qed
qed


lemma one_block_byte:
  assumes "length data = 512"
  shows "((blk s)(i := data)) (a div 512) ! (a mod 512) =
    (if i * 512 \<le> a \<and> a < i * 512 + 512 then data ! (a - i * 512) else disk_byte s a)"
  using put_sectors_byte[of 1 data "blk s" i a] put_sectors_1[OF assms, of "blk s" i] assms
  by (simp add: disk_byte_def)

text \<open>A round of writing replaces the bytes it reports; a failed one an initial part of them.\<close>

lemma write_step_spec:
  assumes wf: "fs_wf s" and x: "cursor_cluster file = cs ! (p div cluster_bytes s)"
      "1 \<le> cursor_cluster file" "cursor_cluster file \<le> cluster_count (sb s)"
    and len: "remaining \<le> length data" and r: "write_step p remaining data file s = (r, s')"
  shows "keeps (cluster_blocks s (cursor_cluster file)) s s' \<and> fat_view s' = fat_view s \<and>
    (\<exists>k. p mod cluster_bytes s + k \<le> cluster_bytes s \<and> k \<le> remaining \<and> overwritten s (addr s cs p) k data s' \<and>
      (r = Inr k \<or> r = Inl FS_ERR_IO))"
proof -
  let ?lba = "lba_of s file p" and ?W = "cluster_blocks s (cursor_cluster file)"
  have area: "?W \<subseteq> block_area s" by (rule cluster_blocks_area[OF wf x(2,3)])
  have ad: "addr s cs p = ?lba * 512 + p mod 512" by (rule addr_lba[OF x(1)])
  show ?thesis
  proof (cases "p mod 512 = 0 \<and> remaining \<ge> 512")
    case True
    define S where "S = min (remaining div 512) (2 ^ cluster_shift s - sector_index s p)"
    have "0 < remaining div 512" using True by (simp add: div_greater_zero_iff)
    then have S: "0 < S" "S \<le> 2 ^ cluster_shift s - sector_index s p" "S * 512 \<le> remaining"
      using sector_index_lt[of s p] mult_le_mono1[of S "remaining div 512" 512] div_times_less_eq_dividend[of remaining 512]
      by (simp_all add: S_def)
    obtain r1 s1 where b: "blocks_write ?lba S data s = (r1, s1)" by fastforce
    have e: "r = (case r1 of Inl e \<Rightarrow> Inl e | Inr _ \<Rightarrow> Inr (S * 512))" "s' = s1"
      using r True b by (cases r1; auto simp: write_step_def andThen_def Let_def S_def[symmetric])+
    have sub: "{?lba..<?lba + S} \<subseteq> ?W" using run_in_cluster(1)[OF S(2)] .
    then have W: "keeps {?lba..<?lba + S} s s1" "fat_view s1 = fat_view s" "r1 = Inr () \<or> r1 = Inl FS_ERR_IO"
        "write_ok (blk s) ?lba S data (r1 = Inr ()) (blk s1)"
      using writes_area[OF wf _ S(1) _ b] area S(3) len by auto
    obtain j where j: "j \<le> S" "blk s1 = put_sectors (blk s) ?lba j data" "r1 = Inr () \<longrightarrow> j = S"
      using W(4) by (auto simp: write_ok_def)
    have j512: "j * 512 \<le> S * 512" using j(1) by simp
    then have "overwritten s (addr s cs p) (j * 512) data s'"
      using put_sectors_byte[of j data "blk s" ?lba] S(3) len True ad by (simp add: overwritten_def disk_byte_def j(2) e(2))
    moreover have "p mod cluster_bytes s + j * 512 \<le> cluster_bytes s" "j * 512 \<le> remaining" "r = Inr (j * 512) \<or> r = Inl FS_ERR_IO"
      using run_in_cluster(2)[OF S(2)] True j512 S(3) e(1) W(3) j(3) by auto
    ultimately show ?thesis using keeps_mono[OF W(1) sub] W(2) e(2) by blast
  next
    case False
    define n where "n = min (512 - p mod 512) remaining"
    have n: "n \<le> 512 - p mod 512" "n \<le> remaining" by (simp_all add: n_def)
    have bufs: "length (io_buf s) = 512" "length (dir_buf s) = 512" using wf by (simp_all add: fs_wf_def)
    obtain ok buf s1 where b: "block_read ?lba (io_buf s) s = (ok, buf, s1)" by (metis prod_cases3)
    have i: "?lba \<in> ?W" "?lba \<in> block_area s" using lba_in_cluster area by blast+
    obtain d where d: "s1 = s\<lparr>drive := d\<rparr>" "length buf = 512" "ok \<longrightarrow> buf = blk s ?lba" "blk s1 = blk s"
        "\<And>b1 b2. length b1 = 512 \<Longrightarrow> length b2 = 512 \<Longrightarrow>
          keeps {} s (s1\<lparr>dir_buf := b1, io_buf := b2\<rparr>) \<and> fat_view (s1\<lparr>dir_buf := b1, io_buf := b2\<rparr>) = fat_view s"
      by (rule read_area[OF wf i(2) bufs(1) b]) blast
    define new where "new = write_at buf (p mod 512) (take n data)"
    define s2 where "s2 = s1\<lparr>dir_buf := dir_buf s, io_buf := if ok then new else buf\<rparr>"
    have ln: "length (take n data) = n" "p mod 512 + n \<le> 512" using n len by (simp_all add: le_diff_conv2)
    have lnew: "length new = 512" using ln d(2) by (simp add: new_def)
    have k2: "keeps {} s s2" "fat_view s2 = fat_view s" unfolding s2_def using d(5)[OF bufs(2)] lnew d(2) by simp_all
    have bl2: "blk s2 = blk s" using d(4) by (simp add: s2_def blk_def fun_eq_iff)
    have w2: "fs_wf s2" "?lba \<in> block_area s2" using keeps_wf[OF k2(1)] block_area_keeps[OF k2(1)] i(2) by simp_all
    show ?thesis
    proof (cases ok)
      case False
      then have "r = Inl FS_ERR_IO" "s' = s2" using r \<open>\<not> (p mod 512 = 0 \<and> remaining \<ge> 512)\<close> b d(1)
        by (auto simp: write_step_def Let_def s2_def)
      then show ?thesis using keeps_mono[OF k2(1)] k2(2) overwritten_refl[OF bl2]
        by (auto intro!: exI[of _ 0] less_imp_le)
    next
      case True
      obtain r3 s3 where w: "block_write ?lba new s2 = (r3, s3)" by fastforce
      have e: "r = (case r3 of Inl e \<Rightarrow> Inl e | Inr _ \<Rightarrow> Inr n)" "s' = s3"
        using r \<open>\<not> (p mod 512 = 0 \<and> remaining \<ge> 512)\<close> b d(1) w True
        by (cases r3; auto simp: write_step_def andThen_def Let_def s2_def new_def n_def[symmetric])+
      note W = write_area[OF w2 lnew w]
      have nb: "new ! j = (if p mod 512 \<le> j \<and> j < p mod 512 + n then data ! (j - p mod 512) else blk s ?lba ! j)" if "j < 512" for j
        using that ln d(2,3) True by (auto simp: new_def nth_write_at)
      have "overwritten s (addr s cs p) n data s'" if "blk s3 = (blk s)(?lba := new)"
        unfolding overwritten_def
      proof
        fix a
        have "disk_byte s' a = (if ?lba * 512 \<le> a \<and> a < ?lba * 512 + 512 then new ! (a - ?lba * 512) else disk_byte s a)"
          using one_block_byte[OF lnew, of s ?lba a] that by (simp add: e(2) disk_byte_def)
        moreover have "blk s ?lba ! (a - ?lba * 512) = disk_byte s a" if "?lba * 512 \<le> a" "a < ?lba * 512 + 512"
        proof -
          have "a div 512 = ?lba" using that by (simp add: div_nat_eqI)
          then show ?thesis by (simp add: disk_byte_def modulo_nat_def)
        qed
        ultimately show "disk_byte s' a = (if addr s cs p \<le> a \<and> a < addr s cs p + n then data ! (a - addr s cs p) else disk_byte s a)"
          using nb[of "a - ?lba * 512"] ln(2) unfolding ad by auto
      qed
      moreover have "overwritten s (addr s cs p) 0 data s'" if "blk s3 = blk s" using that e(2) by (simp add: overwritten_refl)
      ultimately have "\<exists>k. k \<le> n \<and> overwritten s (addr s cs p) k data s' \<and> (r = Inr k \<or> r = Inl FS_ERR_IO)"
        using W e(1) bl2 by (elim conjE disjE) auto
      then obtain k where "k \<le> n" "overwritten s (addr s cs p) k data s'" "r = Inr k \<or> r = Inl FS_ERR_IO" by blast
      moreover from this have "p mod cluster_bytes s + k \<le> cluster_bytes s" using chunk_in_cluster[OF n(1), of s] by simp
      moreover have "keeps ?W s s'" using keeps_trans[OF keeps_mono[OF k2(1)] keeps_mono[of "{?lba}" s2 s' ?W]] W i(1) e(2) by simp
      ultimately show ?thesis using W k2(2) e(2) n(2) by (intro conjI exI[of _ k]) auto
    qed
  qed
qed


section \<open>Reading a file\<close>

text \<open>What reading and writing leave of a handle: the place of its entry and its size.\<close>

definition same_entry :: "fs_file \<Rightarrow> fs_file \<Rightarrow> bool" where
  "same_entry file file' \<longleftrightarrow> dir_sector file' = dir_sector file \<and> dir_slot file' = dir_slot file \<and> f_size file' = f_size file"

lemma same_entry_trans: "\<lbrakk>same_entry f g; same_entry g h\<rbrakk> \<Longrightarrow> same_entry f h"
  by (simp add: same_entry_def)

lemma same_entry_refl [simp]: "same_entry f f"
  by (simp add: same_entry_def)

text \<open>The bytes of a chain of clusters, seen from two states.\<close>

lemma addr_block:
  assumes "q div cluster_bytes s < length cs"
  shows "addr s cs q div 512 \<in> cluster_blocks s (cs ! (q div cluster_bytes s))"
proof -
  have "addr s cs q div 512 = cluster_sector s (cs ! (q div cluster_bytes s)) + sector_index s q"
    by (simp add: addr_def sector_index_def)
  then show ?thesis using sector_index_lt[of s q] by (simp add: cluster_blocks_def)
qed

lemma file_byte_keeps:
  assumes "fs_wf s" "keeps W s s'" "is_chain fv (cluster_count (sb s)) first cs" "q div cluster_bytes s < length cs"
    and "\<And>c. c \<in> set cs \<Longrightarrow> cluster_blocks s c \<inter> W = {}"
  shows "file_byte s' cs q = file_byte s cs q"
proof -
  let ?c = "cs ! (q div cluster_bytes s)" and ?b = "addr s cs q div 512"
  have c: "?c \<in> set cs" using assms(4) by simp
  have "?b \<in> cluster_blocks s ?c" by (rule addr_block[OF assms(4)])
  moreover have "cluster_blocks s ?c \<subseteq> block_area s" using cluster_blocks_area(1)[OF assms(1)] is_chain_range[OF assms(3) c] by simp
  ultimately have "?b \<notin> W" "?b = 0 \<or> data_start (sb s) \<le> ?b" using assms(5)[OF c] by (auto simp: block_area_def)
  then have "blk s' ?b = blk s ?b" using assms(2) by (simp add: keeps_def)
  then show ?thesis using cluster_bytes_keeps[OF assms(2)] by (simp add: file_byte_def disk_byte_def)
qed

lemma position_in_chain: "p < length cs * cluster_bytes s \<longleftrightarrow> p div cluster_bytes s < length cs"
  by (simp add: div_less_iff_less_mult)

lemma file_read_round_spec:
  assumes wf: "fs_wf s" and ok: "file_ok s file cs" and fit: "offset + count \<le> length cs * cluster_bytes s"
    and dn: "dn < count" and len: "count \<le> length out" and r: "read_round offset count dn out file s = (r, out', file', s')"
  shows "keeps {} s s' \<and> fat_view s' = fat_view s \<and> file_ok s' file' cs \<and> same_entry file file' \<and> f_first file' = f_first file \<and>
    length out' = length out \<and> take dn out' = take dn out \<and>
    (case r of Inl e \<Rightarrow> e = FS_ERR_IO
     | Inr m \<Rightarrow> 0 < m \<and> dn + m \<le> count \<and> (\<forall>j < m. out' ! (dn + j) = file_byte s cs (offset + dn + j)))"
proof -
  let ?p = "offset + dn"
  have i: "?p div cluster_bytes s < length cs" using fit dn by (simp add: position_in_chain[symmetric])
  obtain r1 file1 s1 where f: "file_reach (?p div cluster_bytes s) False (file, s) = (r1, file1, s1)" by (metis prod_cases3)
  note R = file_reach_read[OF wf ok i f]
  have same: "fat_same s s1" using R by simp
  have k1: "keeps {} s s1" "fat_view s1 = fat_view s" using fat_same_keeps[OF same] by simp_all
  have sb1: "sb s1 = sb s" using keeps_wf[OF k1(1)] by simp
  show ?thesis
  proof (cases r1)
    case (Inl e)
    then have "r = Inl e" "out' = out" "file' = file1" "s' = s1" using r f by (simp_all add: read_round_def Let_def)
    then show ?thesis using R Inl k1 file_ok_step[OF ok k1(2) sb1] by auto
  next
    case (Inr u)
    then have f1: "file1 = file\<lparr>cursor_cluster := cs ! (?p div cluster_bytes s), cursor_index := ?p div cluster_bytes s\<rparr>" using R by auto
    obtain r2 out2 s2 where st: "read_step ?p (count - dn) dn out file1 s1 = (r2, out2, s2)" by (metis prod_cases3)
    have e: "r = r2" "out' = out2" "file' = file1" "s' = s2" using r f Inr st by (simp_all add: read_round_def Let_def)
    have cb: "cluster_bytes s1 = cluster_bytes s" "addr s1 = addr s" using cluster_bytes_keeps[OF k1(1)] by simp_all
    have c: "cs ! (?p div cluster_bytes s) \<in> set cs" using i by simp
    have rng: "1 \<le> cursor_cluster file1" "cursor_cluster file1 \<le> cluster_count (sb s1)"
      using file_ok_range[OF ok c] f1 sb1 by simp_all
    have cur: "cursor_cluster file1 = cs ! (?p div cluster_bytes s1)" using f1 cb by simp
    have "dn + (count - dn) \<le> length out" using dn len by simp
    note S = read_step_spec[OF keeps_wf[OF k1(1), THEN conjunct1] cur rng this st]
    have k2: "keeps {} s s2" using keeps_trans[OF k1(1)] S by blast
    have "out2 ! (dn + j) = file_byte s cs (?p + j)" if "r2 = Inr m" "j < m" for m j
    proof -
      have m: "?p mod cluster_bytes s + m \<le> cluster_bytes s" "m \<le> count - dn" "out2 ! (dn + j) = disk_byte s1 (addr s cs ?p + j)"
        using S that cb by auto
      have ij: "(?p + j) div cluster_bytes s < length cs" using fit m(2) that(2) dn by (simp add: position_in_chain[symmetric])
      have "\<forall>c \<in> set cs. 1 \<le> c" using file_ok_range[OF ok] by blast
      then have "addr s cs (?p + j) = addr s cs ?p + j"
        using addr_window(2)[OF file_ok_distinct[OF ok] _ i ij m(1)] that(2) by simp
      then have "out2 ! (dn + j) = file_byte s1 cs (?p + j)" using m(3) cb by (simp add: file_byte_def)
      also have "\<dots> = file_byte s cs (?p + j)" using file_byte_keeps[OF wf k1(1) file_ok_chain[OF ok] ij] by simp
      finally show ?thesis .
    qed
    moreover have "0 < m \<and> dn + m \<le> count" if "r2 = Inr m" for m
      using read_round_progress[of offset count dn out "file" s m out' file' s'] r e(1) that dn by simp
    moreover have "file_ok s2 file1 cs" using ok f1 i k1(2) S keeps_wf[OF k2] by (simp add: file_ok_def)
    ultimately show ?thesis using S k1(2) k2 f1 e by (cases r2) (auto simp: same_entry_def)
  qed
qed

lemma read_loop_spec:
  "\<lbrakk>fs_wf s; file_ok s file cs; offset + count \<le> length cs * cluster_bytes s; dn \<le> count; count \<le> length out;
    read_loop offset count dn out file s = (r, out', file', s')\<rbrakk> \<Longrightarrow>
   keeps {} s s' \<and> fat_view s' = fat_view s \<and> file_ok s' file' cs \<and> same_entry file file' \<and> f_first file' = f_first file \<and>
    length out' = length out \<and> take dn out' = take dn out \<and>
    (case r of Inl e \<Rightarrow> e = FS_ERR_IO
     | Inr m \<Rightarrow> dn \<le> m \<and> m \<le> count \<and> (0 < count \<longrightarrow> 0 < m) \<and> (\<forall>j. dn \<le> j \<and> j < m \<longrightarrow> out' ! j = file_byte s cs (offset + j)))"
proof (induction offset count dn out "file" s rule: read_loop.induct)
  case (1 offset count dn out "file" s)
  show ?case
  proof (cases "dn < count")
    case False
    then show ?thesis using "1.prems" by (subst (asm) read_loop.simps) (auto simp: keeps_refl)
  next
    case True
    obtain r1 out1 file1 s1 where f: "read_round offset count dn out file s = (r1, out1, file1, s1)" by (metis prod_cases4)
    note R = file_read_round_spec[OF "1.prems"(1-3) True "1.prems"(5) f]
    have loop: "(case r1 of Inl e \<Rightarrow> (if dn > 0 then Inr dn else Inl e, out1, file1, s1)
        | Inr n \<Rightarrow> read_loop offset count (dn + n) out1 file1 s1) = (r, out', file', s')"
      using "1.prems"(6) True f by (subst (asm) read_loop.simps) (cases r1; simp)
    show ?thesis
    proof (cases r1)
      case (Inl e)
      then show ?thesis using loop R "1.prems"(4) by (auto split: if_splits)
    next
      case (Inr n)
      then have l: "read_loop offset count (dn + n) out1 file1 s1 = (r, out', file', s')" using loop by simp
      have k1: "keeps {} s s1" "fat_view s1 = fat_view s" "file_ok s1 file1 cs" using R by simp_all
      have n: "0 < n" "dn + n \<le> count" "length out1 = length out" using R Inr by simp_all
      have fit: "offset + count \<le> length cs * cluster_bytes s1" using "1.prems"(3) cluster_bytes_keeps[OF k1(1)] by simp
      have ih: "keeps {} s1 s' \<and> fat_view s' = fat_view s1 \<and> file_ok s' file' cs \<and> same_entry file1 file' \<and> f_first file' = f_first file1 \<and>
          length out' = length out1 \<and> take (dn + n) out' = take (dn + n) out1 \<and>
          (case r of Inl e \<Rightarrow> e = FS_ERR_IO
           | Inr m \<Rightarrow> dn + n \<le> m \<and> m \<le> count \<and> (0 < count \<longrightarrow> 0 < m) \<and> (\<forall>j. dn + n \<le> j \<and> j < m \<longrightarrow> out' ! j = file_byte s1 cs (offset + j)))"
        using "1.IH"[of r1 "(out1, file1, s1)" n out1 "(file1, s1)" file1 s1] True f Inr
          keeps_wf[OF k1(1)] k1(3) fit n(2,3) "1.prems"(5) l by simp
      have tk: "take dn out' = take dn out1" using ih by (metis min.absorb1 le_add1 take_take)
      have old: "out' ! j = file_byte s cs (offset + j)" if "dn \<le> j" "j < dn + n" for j
      proof -
        have "out' ! j = take (dn + n) out' ! j" "out1 ! j = take (dn + n) out1 ! j" using that by simp_all
        moreover have "out1 ! j = file_byte s cs (offset + j)" using R Inr that by (auto dest!: spec[of _ "j - dn"])
        ultimately show ?thesis using ih by simp
      qed
      have new: "file_byte s1 cs (offset + j) = file_byte s cs (offset + j)" if "j < count" for j
      proof -
        have "(offset + j) div cluster_bytes s < length cs" using "1.prems"(3) that by (simp add: position_in_chain[symmetric])
        then show ?thesis using file_byte_keeps[OF "1.prems"(1) k1(1) file_ok_chain[OF "1.prems"(2)]] by simp
      qed
      have "out' ! j = file_byte s cs (offset + j)" if "r = Inr m" "dn \<le> j" "j < m" for m j
        using old[OF that(2)] new[of j] ih that by (cases "j < dn + n") auto
      then show ?thesis
        using ih R k1(2) keeps_trans[OF k1(1)] tk same_entry_trans[of "file" file1 file'] by (cases r) auto
    qed
  qed
qed


section \<open>Writing a file\<close>

text \<open>The sectors of a chain.\<close>

definition chain_blocks :: "fs_state \<Rightarrow> nat list \<Rightarrow> nat set" where
  "chain_blocks s cs = (\<Union>c \<in> set cs. cluster_blocks s c)"

lemma chain_blocks_keeps: "keeps W s s' \<Longrightarrow> chain_blocks s' cs = chain_blocks s cs"
  using cluster_blocks_keeps[of W s s'] by (simp add: chain_blocks_def)

lemma chain_blocks_mono: "set cs \<subseteq> set ds \<Longrightarrow> chain_blocks s cs \<subseteq> chain_blocks s ds"
  by (auto simp: chain_blocks_def)

lemma chain_blocks_disjoint:
  assumes "is_chain fv n c cs" "is_chain fv' n' d ds" "set cs \<inter> set ds = {}"
  shows "chain_blocks s cs \<inter> chain_blocks s ds = {}"
  using assms(3) is_chain_range[OF assms(1)] is_chain_range[OF assms(2)] cluster_blocks_disjoint[of _ _ s]
  unfolding chain_blocks_def by blast

lemma grows_set: "grows fv fv' cs cs' \<Longrightarrow> set cs \<subseteq> set cs'"
  by (auto simp: grows_def)

text \<open>
  What a piece of writing does: the chain may have grown, only blocks of the chain have changed, the
  bytes from \<open>lo\<close> to \<open>hi\<close> are those of \<open>data\<close>, and the bytes outside of the window that ends at \<open>up\<close>
  are as before.
\<close>

definition wrote :: "fs_state \<Rightarrow> fs_file \<Rightarrow> nat list \<Rightarrow> nat \<Rightarrow> nat \<Rightarrow> nat \<Rightarrow> nat \<Rightarrow> u8 list \<Rightarrow> fs_state \<Rightarrow> fs_file \<Rightarrow> nat list \<Rightarrow> bool" where
  "wrote s file cs offset lo hi up data s' file' cs' \<longleftrightarrow>
     keeps (chain_blocks s cs') s s' \<and> file_ok s' file' cs' \<and> grows (fat_view s) (fat_view s') cs cs' \<and> same_entry file file' \<and>
     lo \<le> hi \<and> hi \<le> up \<and> (lo < hi \<longrightarrow> offset + hi \<le> length cs' * cluster_bytes s) \<and>
     (\<forall>j. lo \<le> j \<and> j < hi \<longrightarrow> file_byte s' cs' (offset + j) = data ! j) \<and>
     (\<forall>q. q div cluster_bytes s < length cs \<and> (q < offset + lo \<or> offset + up \<le> q) \<longrightarrow> file_byte s' cs' q = file_byte s cs q)"

lemma file_byte_prefix: "grows fv fv' cs cs' \<Longrightarrow> q div cluster_bytes s < length cs \<Longrightarrow> file_byte s cs' q = file_byte s cs q"
  using grows_prefix[of fv fv' cs cs' "q div cluster_bytes s"] by (simp add: file_byte_def addr_def)

lemma overwritten_bytes:
  assumes ow: "overwritten s (addr s cs p) k data s'" and kp: "keeps W s s'" and ok: "file_ok s file cs"
    and p: "p div cluster_bytes s < length cs" "p mod cluster_bytes s + k \<le> cluster_bytes s" and q: "q div cluster_bytes s < length cs"
  shows "file_byte s' cs q = (if p \<le> q \<and> q < p + k then data ! (q - p) else file_byte s cs q)"
proof -
  have pos: "\<forall>c \<in> set cs. 1 \<le> c" using file_ok_range[OF ok] by blast
  note w = addr_window[OF file_ok_distinct[OF ok] pos p(1) q p(2)]
  show ?thesis
  proof (cases "p \<le> q \<and> q < p + k")
    case True
    then show ?thesis using w ow cluster_bytes_keeps[OF kp] by (simp add: file_byte_def overwritten_def)
  next
    case False
    then have "\<not> (addr s cs p \<le> addr s cs q \<and> addr s cs q < addr s cs p + k)" using w(1) by simp
    then show ?thesis using False ow cluster_bytes_keeps[OF kp] by (auto simp: file_byte_def overwritten_def)
  qed
qed

lemma file_write_round_spec:
  assumes wf: "fs_wf s" and ok: "file_ok s file cs" and dn: "dn < count" and len: "count \<le> length data"
    and r: "write_round offset count dn data (file, s) = (r, file', s')"
  obtains cs' where "wrote s file cs offset dn (case r of Inr n \<Rightarrow> dn + n | Inl e \<Rightarrow> dn) count data s' file' cs'"
    "\<forall>n. r = Inr n \<longrightarrow> 0 < n"
proof -
  let ?p = "offset + dn" and ?cb = "cluster_bytes s"
  obtain r1 file1 s1 where f: "file_reach (?p div ?cb) True (file, s) = (r1, file1, s1)" by (metis prod_cases3)
  obtain cs' where c': "fat_step s s1" "file_ok s1 file1 cs'" "grows (fat_view s) (fat_view s1) cs cs'"
      "r1 = Inr () \<longrightarrow> ?p div ?cb < length cs' \<and> cursor_cluster file1 = cs' ! (?p div ?cb)"
      "dir_sector file1 = dir_sector file" "dir_slot file1 = dir_slot file" "f_size file1 = f_size file"
    by (rule file_reach_write[OF wf ok f]) blast
  have k1: "keeps W s s1" for W using fat_step_keeps[OF c'(1)] .
  have cb: "cluster_bytes s1 = ?cb" "addr s1 = addr s" "cluster_blocks s1 = cluster_blocks s"
    using cluster_bytes_keeps[OF k1] cluster_blocks_keeps[OF k1] by simp_all
  have se: "same_entry file file1" using c'(5-7) by (simp add: same_entry_def)
  have old: "file_byte s1 cs' q = file_byte s cs q" if "q div ?cb < length cs" for q
    using file_byte_keeps[OF wf k1[of "{}"] file_ok_chain[OF ok] that] file_byte_prefix[OF c'(3), of q s1] that cb(1) by simp
  show thesis
  proof (cases r1)
    case (Inl e)
    then have "r = Inl e" "file' = file1" "s' = s1" using r f by (simp_all add: write_round_def Let_def)
    moreover have "wrote s file cs offset dn dn count data s1 file1 cs'"
      using k1 c'(2,3) se old dn unfolding wrote_def by auto
    ultimately show ?thesis using that[of cs'] by simp
  next
    case (Inr u)
    then have i: "?p div ?cb < length cs'" "cursor_cluster file1 = cs' ! (?p div cluster_bytes s1)" using c'(4) cb by simp_all
    obtain r2 s2 where st: "write_step ?p (count - dn) (drop dn data) file1 s1 = (r2, s2)" by fastforce
    have e: "r = r2" "file' = file1" "s' = s2" using r f Inr st by (simp_all add: write_round_def Let_def)
    have mem: "cursor_cluster file1 \<in> set cs'" using i cb by simp
    have w1: "fs_wf s1" using keeps_wf[OF k1] by simp
    have rng: "1 \<le> cursor_cluster file1" "cursor_cluster file1 \<le> cluster_count (sb s1)" using file_ok_range[OF c'(2) mem] by simp_all
    obtain k where k: "keeps (cluster_blocks s (cursor_cluster file1)) s1 s2" "fat_view s2 = fat_view s1"
        "?p mod ?cb + k \<le> ?cb" "k \<le> count - dn" "overwritten s1 (addr s1 cs' ?p) k (drop dn data) s2" "r2 = Inr k \<or> r2 = Inl FS_ERR_IO"
      using write_step_spec[OF w1 i(2) rng _ st] diff_le_mono[OF len, of dn] unfolding length_drop cb by blast
    have kp: "keeps (chain_blocks s cs') s s2"
      using keeps_trans[OF k1 keeps_mono[OF k(1)], of "chain_blocks s cs'"] mem by (auto simp: chain_blocks_def)
    have bytes: "file_byte s2 cs' q = (if ?p \<le> q \<and> q < ?p + k then drop dn data ! (q - ?p) else file_byte s1 cs' q)"
      if "q div ?cb < length cs'" for q
      using overwritten_bytes[OF k(5,1) c'(2)] i(1) k(3) that cb by simp
    have pre: "q div ?cb < length cs'" if "q div ?cb < length cs" for q using grows_prefix[OF c'(3) that] by simp
    have end_: "?p + k \<le> length cs' * ?cb"
    proof -
      have "?p + k \<le> ?p div ?cb * ?cb + ?cb" using k(3) div_mult_mod_eq[of ?p ?cb] by linarith
      also have "\<dots> \<le> length cs' * ?cb" using mult_le_mono1[of "?p div ?cb + 1" "length cs'" ?cb] i(1) by simp
      finally show ?thesis .
    qed
    have new: "file_byte s2 cs' (offset + j) = data ! j" if "dn \<le> j" "j < dn + k" for j
    proof -
      have "(offset + j) div ?cb < length cs'" using end_ that by (simp add: position_in_chain[symmetric])
      then show ?thesis using bytes[of "offset + j"] that len dn by (simp add: nth_drop)
    qed
    have out: "file_byte s2 cs' q = file_byte s cs q" if "q div ?cb < length cs" "q < ?p \<or> offset + count \<le> q" for q
      using bytes[OF pre[OF that(1)]] old[OF that(1)] that(2) k(4) dn by auto
    have "file_ok s2 file1 cs'" using file_ok_step[OF c'(2) k(2)] keeps_wf[OF k(1)] by simp
    moreover have "0 < n" if "r = Inr n" for n
      using write_round_progress[of offset count dn data "(file, s)" n] r that dn by simp
    ultimately show ?thesis
      using that[of cs'] kp c'(3) se k(2,4,6) end_ new out dn e by (auto simp: wrote_def)
  qed
qed


lemma wrote_trans:
  assumes a: "wrote s file cs offset lo mid up data s1 file1 cs1" and b: "wrote s1 file1 cs1 offset mid hi up data s2 file2 cs2"
  shows "wrote s file cs offset lo hi up data s2 file2 cs2"
proof -
  have ka: "keeps (chain_blocks s cs1) s s1" and kb: "keeps (chain_blocks s1 cs2) s1 s2" using a b by (simp_all add: wrote_def)
  have cb: "cluster_bytes s1 = cluster_bytes s" using cluster_bytes_keeps[OF ka] by simp
  have ga: "grows (fat_view s) (fat_view s1) cs cs1" and gb: "grows (fat_view s1) (fat_view s2) cs1 cs2"
    using a b by (simp_all add: wrote_def)
  have kp: "keeps (chain_blocks s cs2) s s2"
    using keeps_trans[OF keeps_mono[OF ka chain_blocks_mono[OF grows_set[OF gb]]]] kb chain_blocks_keeps[OF ka] by simp
  have ln: "length cs1 \<le> length cs2" using gb by (auto simp: grows_def)
  have oa: "file_byte s1 cs1 q = file_byte s cs q" if "q div cluster_bytes s < length cs" "q < offset + lo \<or> offset + up \<le> q" for q
    using a that by (simp add: wrote_def)
  have ob: "file_byte s2 cs2 q = file_byte s1 cs1 q" if "q div cluster_bytes s < length cs1" "q < offset + mid \<or> offset + up \<le> q" for q
    using b that cb by (simp add: wrote_def)
  have le: "lo \<le> mid" "mid \<le> hi" "hi \<le> up" using a b by (simp_all add: wrote_def)
  have first: "file_byte s2 cs2 (offset + j) = data ! j" if "lo \<le> j" "j < mid" for j
  proof -
    have "offset + mid \<le> length cs1 * cluster_bytes s" "file_byte s1 cs1 (offset + j) = data ! j" using a that by (simp_all add: wrote_def)
    then show ?thesis using ob[of "offset + j"] that by (simp add: position_in_chain[symmetric])
  qed
  have second: "file_byte s2 cs2 (offset + j) = data ! j" if "mid \<le> j" "j < hi" for j using b that by (simp add: wrote_def)
  have fit: "offset + hi \<le> length cs2 * cluster_bytes s" if "lo < hi"
  proof (cases "mid < hi")
    case True
    then show ?thesis using b cb by (simp add: wrote_def)
  next
    case False
    then have "offset + hi \<le> length cs1 * cluster_bytes s" using a le that by (simp add: wrote_def)
    then show ?thesis using mult_le_mono1[OF ln, of "cluster_bytes s"] by (rule order_trans)
  qed
  have "file_byte s2 cs2 q = file_byte s cs q" if "q div cluster_bytes s < length cs" "q < offset + lo \<or> offset + up \<le> q" for q
    using oa[OF that] ob[of q] that grows_prefix[OF ga that(1)] le by auto
  moreover have "file_byte s2 cs2 (offset + j) = data ! j" if "lo \<le> j" "j < hi" for j using first second that by (cases "j < mid") auto
  moreover have "same_entry file file2" using a b same_entry_trans by (auto simp: wrote_def)
  ultimately show ?thesis unfolding wrote_def using kp b grows_trans[OF ga gb] le fit by (simp add: wrote_def)
qed

lemma write_loop_spec:
  "\<lbrakk>fs = (file, s); fs_wf s; file_ok s file cs; dn \<le> count; count \<le> length data; write_loop offset count dn data fs = (n, status, file', s')\<rbrakk> \<Longrightarrow>
   \<exists>cs'. wrote s file cs offset dn n count data s' file' cs' \<and> (status = None \<longrightarrow> n = count)"
proof (induction offset count dn data fs arbitrary: "file" s cs rule: write_loop.induct)
  case (1 offset count dn data fs)
  show ?case
  proof (cases "dn < count")
    case False
    then have e: "n = dn" "status = None" "file' = file" "s' = s" "n = count"
      using "1.prems"(1,4,6) by (simp_all add: write_loop.simps[of offset count count])
    have "wrote s file cs offset n n count data s file cs"
      using "1.prems"(2,3) e(5) grows_refl[OF file_ok_chain[OF "1.prems"(3)]] keeps_refl by (auto simp: wrote_def)
    then show ?thesis using e by auto
  next
    case True
    obtain r1 file1 s1 where f: "write_round offset count dn data (file, s) = (r1, file1, s1)" by (metis prod_cases3)
    obtain cs1 where c1: "wrote s file cs offset dn (case r1 of Inr n \<Rightarrow> dn + n | Inl e \<Rightarrow> dn) count data s1 file1 cs1"
        "\<forall>n. r1 = Inr n \<longrightarrow> 0 < n"
      by (rule file_write_round_spec[OF "1.prems"(2,3) True "1.prems"(5) f])
    show ?thesis
    proof (cases r1)
      case (Inl e)
      then have "n = dn" "status = Some e" "file' = file1" "s' = s1"
        using "1.prems"(1,6) True f by (simp_all add: write_loop.simps[of offset count dn])
      then show ?thesis using c1(1) Inl by auto
    next
      case (Inr m)
      have l: "write_loop offset count (dn + m) data (file1, s1) = (n, status, file', s')"
        using "1.prems"(1,6) True f Inr by (simp add: write_loop.simps[of offset count dn])
      have w: "wrote s file cs offset dn (dn + m) count data s1 file1 cs1" using c1(1) Inr by simp
      have p: "fs_wf s1" "file_ok s1 file1 cs1" "dn + m \<le> count" using w by (auto simp: wrote_def keeps_def)
      have "\<exists>cs'. wrote s1 file1 cs1 offset (dn + m) n count data s' file' cs' \<and> (status = None \<longrightarrow> n = count)"
        using "1.IH"[of r1 "(file1, s1)" m file1 s1 cs1] True f Inr p "1.prems"(1,5) l by simp
      then show ?thesis using wrote_trans[OF w] by blast
    qed
  qed
qed

end
