(* ===== verification/Fs.thy ===== *)
theory Fs
  imports Fs_File
begin

text \<open>
  The file system (\<open>kernel/fs.c\<close>), fourth part: the super block, mounting and formatting, the import
  of the old image format, and the operations other parts of the kernel call.
\<close>

section \<open>Super block\<close>

abbreviation MAGIC_VALUE :: nat where "MAGIC_VALUE \<equiv> 0x4B465331"
abbreviation OLD_MAGIC_VALUE :: nat where "OLD_MAGIC_VALUE \<equiv> 0x4B41544C"
abbreviation MIN_DISK_SECTORS :: nat where "MIN_DISK_SECTORS \<equiv> FS_LBA_START + 64"
abbreviation MAX_CLUSTER_SECTORS :: nat where "MAX_CLUSTER_SECTORS \<equiv> 128"
abbreviation TARGET_CLUSTERS :: nat where "TARGET_CLUSTERS \<equiv> 1048576"
abbreviation MIN_CLUSTERS :: nat where "MIN_CLUSTERS \<equiv> 8"

text \<open>Its eight words in memory.\<close>

definition super_bytes :: "super_block \<Rightarrow> u8 list" where
  "super_bytes b = concat (map (\<lambda>f. le32_bytes (of_nat (f b)))
     [sb_magic, sb_version, total_sectors, cluster_sectors, cluster_count, fat_sectors, data_start, root_cluster])"

definition super_of :: "u8 list \<Rightarrow> super_block" where
  "super_of buf = \<lparr>sb_magic = u32_at buf 0, sb_version = u32_at buf 1, total_sectors = u32_at buf 2,
     cluster_sectors = u32_at buf 3, cluster_count = u32_at buf 4, fat_sectors = u32_at buf 5,
     data_start = u32_at buf 6, root_cluster = u32_at buf 7\<rparr>"

definition superblock_check :: "nat \<Rightarrow> super_block \<Rightarrow> fs_error + unit" where
  "superblock_check disk b =
     (let sectors = cluster_sectors b in
      if sectors = 0 \<or> sectors > MAX_CLUSTER_SECTORS \<or> sectors AND (sectors - 1) \<noteq> 0 then Inl FS_ERR_CORRUPT
      else if total_sectors b > (disk + 4294967296 - FS_LBA_START) mod 4294967296 then Inl FS_ERR_CORRUPT
      else if cluster_count b = 0 \<or> cluster_count b > total_sectors b div sectors then Inl FS_ERR_CORRUPT
      else if fat_sectors b \<noteq> fat_sectors_for (cluster_count b) \<or> data_start b \<noteq> (1 + fat_sectors b) mod 4294967296
        then Inl FS_ERR_CORRUPT
      else if (data_start b + cluster_count b * sectors) mod 4294967296 > total_sectors b then Inl FS_ERR_CORRUPT
      else if root_cluster b < 1 \<or> root_cluster b > cluster_count b then Inl FS_ERR_CORRUPT
      else Inr ())"

text \<open>The loop doubles \<open>1 << shift\<close> until it reaches the argument, which is at most 128.\<close>

function shift_loop :: "nat \<Rightarrow> nat \<Rightarrow> nat" where
  "shift_loop sectors shift = (if 2 ^ shift < sectors then shift_loop sectors (shift + 1) else shift)"
  by pat_completeness auto
termination
  by (relation "measure (\<lambda>(sectors, shift). sectors - 2 ^ shift)") (auto intro!: diff_less_mono2)

declare shift_loop.simps [simp del]

definition shift_for :: "nat \<Rightarrow> nat" where
  "shift_for sectors = shift_loop sectors 0"

definition io_read :: "nat \<Rightarrow> unit fs" where
  "io_read sector s =
     (let (ok, buf, s) = block_read sector (io_buf s) s
      in (if ok then Inr () else Inl FS_ERR_IO, s\<lparr>io_buf := buf\<rparr>))"

definition mount_now :: "unit fs" where
  "mount_now s =
     (let s = s\<lparr>fat_cache_sector := NO_SECTOR, fat_dirty := False, next_free := 1, mounted := False\<rparr>
      in andThen (io_read 0) (\<lambda>_ s.
        let candidate = super_of (io_buf s) in
        if sb_magic candidate \<noteq> MAGIC_VALUE then (Inl FS_ERR_NOFS, s)
        else if sb_version candidate \<noteq> 1 then (Inl FS_ERR_CORRUPT, s)
        else case superblock_check (disk_sectors s) candidate of
          Inl e \<Rightarrow> (Inl e, s)
        | Inr _ \<Rightarrow> (Inr (), s\<lparr>sb := candidate, cluster_shift := shift_for (cluster_sectors candidate), mounted := True\<rparr>)) s)"


section \<open>Formatting\<close>

function cluster_size_loop :: "nat \<Rightarrow> nat \<Rightarrow> nat" where
  "cluster_size_loop n sectors =
     (if n div sectors > TARGET_CLUSTERS \<and> sectors < MAX_CLUSTER_SECTORS then cluster_size_loop n (sectors * 2) else sectors)"
  by pat_completeness auto
termination
proof (relation "measure (\<lambda>(n, sectors). MAX_CLUSTER_SECTORS - sectors)")
  fix n sectors :: nat
  assume "n div sectors > TARGET_CLUSTERS \<and> sectors < MAX_CLUSTER_SECTORS"
  moreover from this have "sectors \<noteq> 0" by (intro notI) simp
  ultimately show "((n, sectors * 2), n, sectors) \<in> measure (\<lambda>(n, sectors). MAX_CLUSTER_SECTORS - sectors)" by auto
qed simp

declare cluster_size_loop.simps [simp del]

text \<open>Fewer clusters until they and their table fit.\<close>

primrec fit_clusters :: "nat \<Rightarrow> nat \<Rightarrow> nat \<Rightarrow> nat" where
  "fit_clusters n sectors 0 = 0"
| "fit_clusters n sectors (Suc c) =
     (if (Suc c * sectors + fat_sectors_for (Suc c)) mod 4294967296 > n - 1 then fit_clusters n sectors c else Suc c)"

text \<open>Zeroing the table in batches of eight sectors; the first argument is the number of batches left.\<close>

primrec zero_fat :: "nat \<Rightarrow> nat \<Rightarrow> nat \<Rightarrow> unit fs" where
  "zero_fat 0 i fat s = (Inr (), s)"
| "zero_fat (Suc k) i fat s =
     andThen (blocks_write (1 + i) (min (fat - i) 8) (replicate (8 * 512) 0)) (\<lambda>_. zero_fat k (i + 8) fat) s"

text \<open>The writes once the layout is fixed; the file system counts as mounted while they are made.\<close>

definition format_write :: "unit fs" where
  "format_write s =
     (case andThen (fat_set (root_cluster (sb s)) CHAIN_END) (\<lambda>_.
         andThen (cluster_zero (root_cluster (sb s))) (\<lambda>_.
           andThen fat_flush (\<lambda>_ s.
             let s = s\<lparr>io_buf := write_at (replicate 512 0) 0 (super_bytes (sb s))\<rparr>
             in block_write 0 (io_buf s) s))) (s\<lparr>mounted := True\<rparr>) of
        (Inl e, s) \<Rightarrow> (Inl e, s\<lparr>mounted := False\<rparr>)
      | (Inr _, s) \<Rightarrow> (Inr (), s))"

definition format_layout :: "nat \<Rightarrow> super_block" where
  "format_layout n =
     (let sectors = cluster_size_loop n 1;
          clusters = fit_clusters n sectors ((n - 1) div sectors);
          fat = fat_sectors_for clusters
      in \<lparr>sb_magic = MAGIC_VALUE, sb_version = 1, total_sectors = n, cluster_sectors = sectors,
          cluster_count = clusters, fat_sectors = fat, data_start = 1 + fat, root_cluster = 1\<rparr>)"

definition format_now :: "unit fs" where
  "format_now s =
     (if disk_sectors s < MIN_DISK_SECTORS then (Inl FS_ERR_TOOSMALL, s)
      else
        let b = format_layout (disk_sectors s - FS_LBA_START) in
        if cluster_count b < MIN_CLUSTERS then (Inl FS_ERR_TOOSMALL, s)
        else
          let s = s\<lparr>mounted := False, fat_cache_sector := NO_SECTOR, fat_dirty := False, next_free := 1,
                sb := b, cluster_shift := shift_for (cluster_sectors b)\<rparr>
          in andThen (zero_fat ((fat_sectors b + 7) div 8) 0 (fat_sectors b)) (\<lambda>_. format_write) s)"


section \<open>Operations\<close>

definition finish :: "(fs_error + 'a) \<Rightarrow> 'a fs" where
  "finish result s =
     (let (flushed, s) = fat_flush s
      in case result of
        Inl e \<Rightarrow> (Inl e, s)
      | Inr a \<Rightarrow> (case flushed of Inr _ \<Rightarrow> (Inr a, s) | Inl e \<Rightarrow> (Inl e, s)))"

definition finishing :: "'a fs \<Rightarrow> 'a fs" where
  "finishing m s = (let (r, s) = m s in finish r s)"

definition checked :: "u8 list \<Rightarrow> 'a fs \<Rightarrow> 'a fs" where
  "checked name m s =
     (if \<not> mounted s then (Inl FS_ERR_NOFS, s)
      else case name_check name of Inl e \<Rightarrow> (Inl e, s) | Inr _ \<Rightarrow> m s)"

definition create_impl :: "u8 list \<Rightarrow> unit fs" where
  "create_impl name = checked name (andThen (dir_lookup name) (\<lambda>res.
     if found res then fail FS_ERR_EXIST else andThen (entry_create name res) (\<lambda>_ s. (Inr (), s))))"

definition remove_impl :: "u8 list \<Rightarrow> unit fs" where
  "remove_impl name = checked name (andThen (dir_lookup name) (\<lambda>res.
     if \<not> found res then fail FS_ERR_NOENT
     else andThen (slot_store (found_at res) empty_entry) (\<lambda>_. chain_free (de_first (entry res)))))"

definition fs_rename :: "u8 list \<Rightarrow> u8 list \<Rightarrow> unit fs" where
  "fs_rename src dst = checked src (checked dst (andThen (dir_lookup dst) (\<lambda>target.
     if found target then fail FS_ERR_EXIST
     else andThen (dir_lookup src) (\<lambda>source.
       if \<not> found source then fail FS_ERR_NOENT
       else slot_store (found_at source) ((entry source)\<lparr>de_name := name_field dst\<rparr>)))))"

definition open_impl :: "u8 list \<Rightarrow> bool \<Rightarrow> fs_file fs" where
  "open_impl name create = checked name (andThen (dir_lookup name) (\<lambda>res.
     andThen (if found res then (\<lambda>s. (Inr res, s))
              else if \<not> create then fail FS_ERR_NOENT
              else entry_create name res) (\<lambda>res s.
       (Inr \<lparr>dir_sector = loc_sector (found_at res), dir_slot = loc_slot (found_at res), f_first = de_first (entry res),
             f_size = de_size (entry res), cursor_index = 0, cursor_cluster = de_first (entry res)\<rparr>, s))))"

definition fs_create :: "u8 list \<Rightarrow> unit fs" where
  "fs_create name = finishing (create_impl name)"

definition fs_remove :: "u8 list \<Rightarrow> unit fs" where
  "fs_remove name = finishing (remove_impl name)"

definition fs_open :: "u8 list \<Rightarrow> bool \<Rightarrow> fs_file fs" where
  "fs_open name create = finishing (open_impl name create)"

definition finishing_file :: "'a fileop \<Rightarrow> 'a fileop" where
  "finishing_file m fs = (let (r, file, s) = m fs; (r, s) = finish r s in (r, file, s))"

definition fs_write :: "nat \<Rightarrow> u8 list \<Rightarrow> nat \<Rightarrow> nat fileop" where
  "fs_write offset data count = finishing_file (write_impl offset data count)"

definition fs_truncate :: "nat \<Rightarrow> unit fileop" where
  "fs_truncate n = finishing_file (truncate_impl n)"

text \<open>
  Whole files.  \<open>block\<close> is the memory the heap hands out; each round of the loops moves at least one
  byte, and the first argument counts the bytes that may still be moved.
\<close>

primrec read_all_loop :: "nat \<Rightarrow> nat \<Rightarrow> u8 list \<Rightarrow> fs_file \<Rightarrow> fs_state \<Rightarrow> (fs_error + u8 list) \<times> fs_state" where
  "read_all_loop 0 got data file s = (if got < f_size file then Inl FS_ERR_IO else Inr data, s)"
| "read_all_loop (Suc k) got data file s =
     (if got \<ge> f_size file then (Inr data, s)
      else case fs_read got (drop got data) (f_size file - got) file s of
        (Inl e, _, _, s) \<Rightarrow> (Inl e, s)
      | (Inr n, out, file, s) \<Rightarrow>
          if n = 0 then (Inl FS_ERR_IO, s) else read_all_loop k (got + n) (take got data @ out) file s)"

definition fs_read_all :: "u8 list \<Rightarrow> (nat \<Rightarrow> u8 list) \<Rightarrow> (u8 list \<times> nat) fs" where
  "fs_read_all name block =
     andThen (fs_open name False) (\<lambda>file.
       if f_size file > 1048576 then fail FS_ERR_TOOBIG
       else andThen (read_all_loop (f_size file) 0 (block (f_size file + 1)) file)
         (\<lambda>data s. (Inr (data[f_size file := 0], f_size file), s)))"

primrec write_all_loop :: "nat \<Rightarrow> nat \<Rightarrow> nat \<Rightarrow> u8 list \<Rightarrow> fs_file \<times> fs_state \<Rightarrow> (fs_error + unit) \<times> fs_file \<times> fs_state" where
  "write_all_loop 0 written n data fs = (if written < n then Inl FS_ERR_IO else Inr (), fs)"
| "write_all_loop (Suc k) written n data fs =
     (if written \<ge> n then (Inr (), fs)
      else case fs_write written (drop written data) (n - written) fs of
        (Inl e, fs) \<Rightarrow> (Inl e, fs)
      | (Inr m, fs) \<Rightarrow> if m = 0 then (Inl FS_ERR_IO, fs) else write_all_loop k (written + m) n data fs)"

definition fs_write_all :: "u8 list \<Rightarrow> u8 list \<Rightarrow> nat \<Rightarrow> unit fs" where
  "fs_write_all name data n =
     andThen (fs_open name True) (\<lambda>file s.
       let (r, file, s) = andThen (fs_truncate 0) (\<lambda>_. write_all_loop n 0 n data) (file, s) in (r, s))"


section \<open>Starting up\<close>

text \<open>
  The old image: a magic word, a count and records of 32 bytes of name and 256 bytes of data.  It is
  read into a block of the heap whose previous content is \<open>block\<close>.
\<close>

definition old_image_load :: "u8 list \<Rightarrow> u8 list option fs" where
  "old_image_load block s =
     (if block = [] then (Inr None, s)
      else
        let (ok, img, s) = blocks_read 0 10 block s in
        if \<not> ok then (Inl FS_ERR_IO, s)
        else if unat (load_u32 img) \<noteq> OLD_MAGIC_VALUE \<or> unat (load_u32 (drop 4 img)) > 16 then (Inr None, s)
        else (Inr (Some img), s))"

definition old_length :: "u8 list \<Rightarrow> nat" where
  "old_length data = length (takeWhile (\<lambda>c. c \<noteq> 0) (take 256 data))"

text \<open>An error in one record does not stop the import.\<close>

primrec old_import_loop :: "nat \<Rightarrow> u8 list \<Rightarrow> fs_state \<Rightarrow> fs_state" where
  "old_import_loop 0 recs s = s"
| "old_import_loop (Suc k) recs s =
     (let name = take 32 recs @ [0];
          data = drop 32 recs;
          s = (case name_check name of Inl _ \<Rightarrow> s | Inr _ \<Rightarrow> snd (fs_write_all name data (old_length data) s))
      in old_import_loop k (drop (32 + 256) recs) s)"

definition old_image_import :: "u8 list \<Rightarrow> fs_state \<Rightarrow> fs_state" where
  "old_image_import img s = old_import_loop (unat (load_u32 (drop 4 img))) (drop 8 img) s"

datatype init_result = FS_INIT_MOUNTED | FS_INIT_FORMATTED | FS_INIT_MIGRATED

definition fs_init :: "u8 list \<Rightarrow> init_result fs" where
  "fs_init block s =
     (let s = s\<lparr>mounted := False, fat_cache_sector := NO_SECTOR, fat_dirty := False\<rparr>;
          (n, d) = disk_total_sectors (drive s);
          s = s\<lparr>drive := d, disk_sectors := n\<rparr> in
      if n = 0 then (Inl FS_ERR_NODEV, s)
      else if n < MIN_DISK_SECTORS then (Inl FS_ERR_TOOSMALL, s)
      else case mount_now s of
        (Inr _, s) \<Rightarrow> (Inr FS_INIT_MOUNTED, s)
      | (Inl e, s) \<Rightarrow>
          if e \<noteq> FS_ERR_NOFS then (Inl e, s)
          else andThen (old_image_load block) (\<lambda>old.
            andThen format_now (\<lambda>_ s.
              case old of
                None \<Rightarrow> (Inr FS_INIT_FORMATTED, s)
              | Some img \<Rightarrow> (Inr FS_INIT_MIGRATED, old_image_import img s))) s)"

definition fs_format :: "unit fs" where
  "fs_format s =
     (if disk_sectors s = 0 then
        let (n, d) = disk_total_sectors (drive s); s = s\<lparr>drive := d, disk_sectors := n\<rparr>
        in if n = 0 then (Inl FS_ERR_NODEV, s) else format_now s
      else format_now s)"

definition fs_mounted :: "fs_state \<Rightarrow> bool" where
  "fs_mounted s = mounted s"

definition fs_error_text :: "int \<Rightarrow> string" where
  "fs_error_text code =
     (if code = 0 then ''ok''
      else if code = -1 then ''disk i/o error''
      else if code = -2 then ''no disk found''
      else if code = -3 then ''filesystem is not mounted''
      else if code = -4 then ''file not found''
      else if code = -5 then ''file already exists''
      else if code = -6 then ''no space left on disk''
      else if code = -7 then ''invalid file name''
      else if code = -8 then ''invalid argument''
      else if code = -9 then ''filesystem is corrupted''
      else if code = -10 then ''disk is too small''
      else if code = -11 then ''file is too big for this operation''
      else ''unknown error'')"


section \<open>Listing and usage\<close>

record fs_iter =
  it_cluster :: nat
  it_sector :: nat
  it_slot :: nat
  it_steps :: nat

definition fs_iter_begin :: "fs_state \<Rightarrow> fs_iter" where
  "fs_iter_begin s = \<lparr>it_cluster = (if mounted s then root_cluster (sb s) else 0), it_sector = 0, it_slot = 0, it_steps = 0\<rparr>"

text \<open>The next used slot of the sector in \<open>dir_buf\<close> from \<open>i\<close> on; the first argument counts the slots left.\<close>

primrec iter_slots :: "nat \<Rightarrow> u8 list \<Rightarrow> nat \<Rightarrow> nat option" where
  "iter_slots 0 buf i = None"
| "iter_slots (Suc k) buf i = (if slot_used (slot buf i) then Some i else iter_slots k buf (i + 1))"

text \<open>A step over one sector; \<open>Inr (Some info)\<close> ends the search.\<close>

definition iter_step :: "fs_iter \<Rightarrow> fs_state \<Rightarrow> (fs_error + (u8 list \<times> nat) option) \<times> fs_iter \<times> fs_state" where
  "iter_step it s =
     (case dir_read (cluster_sector s (it_cluster it) + it_sector it) s of
        (Inl e, s) \<Rightarrow> (Inl e, it, s)
      | (Inr _, s) \<Rightarrow>
          (case iter_slots (4 - it_slot it) (dir_buf s) (it_slot it) of
             Some i \<Rightarrow> (Inr (Some ((de_name (slot (dir_buf s) i))[FS_NAME_MAX := 0], de_size (slot (dir_buf s) i))),
                 it\<lparr>it_slot := i + 1\<rparr>, s)
           | None \<Rightarrow>
               let it = it\<lparr>it_slot := 0, it_sector := it_sector it + 1\<rparr> in
               if it_sector it \<ge> 2 ^ cluster_shift s then
                 let it = it\<lparr>it_sector := 0\<rparr> in
                 case chain_next (it_cluster it) s of
                   (Inl e, s) \<Rightarrow> (Inl e, it, s)
                 | (Inr nxt, s) \<Rightarrow>
                     let it = it\<lparr>it_cluster := nxt, it_steps := it_steps it + 1\<rparr>
                     in (if it_steps it > cluster_count (sb s) then Inl FS_ERR_CORRUPT else Inr None, it, s)
               else (Inr None, it, s)))"

text \<open>
  The search ends after at most \<open>(cluster_count + 1) * sectors per cluster\<close> sectors, the fuel given
  here: each sector leads on to the next of its cluster, and each cluster adds one to \<open>steps\<close>.
\<close>

fun iter_loop :: "nat \<Rightarrow> fs_iter \<Rightarrow> fs_state \<Rightarrow> (fs_error + (u8 list \<times> nat) option) \<times> fs_iter \<times> fs_state" where
  "iter_loop fuel it s =
     (if it_cluster it = 0 then (Inr None, it, s)
      else case fuel of
        0 \<Rightarrow> (Inl FS_ERR_CORRUPT, it, s)
      | Suc fuel \<Rightarrow>
          (case iter_step it s of
             (Inr None, it, s) \<Rightarrow> iter_loop fuel it s
           | r \<Rightarrow> r))"

declare iter_loop.simps [simp del]

definition iter_fuel :: "fs_state \<Rightarrow> nat" where
  "iter_fuel s = (cluster_count (sb s) + 2) * 2 ^ cluster_shift s"

definition fs_iter_next :: "fs_iter \<Rightarrow> fs_state \<Rightarrow> (fs_error + (u8 list \<times> nat) option) \<times> fs_iter \<times> fs_state" where
  "fs_iter_next it s =
     (if \<not> mounted s then (Inl FS_ERR_NOFS, it, s) else iter_loop (iter_fuel s) it s)"

record fs_stats =
  cluster_size :: nat
  total_clusters :: nat
  free_clusters :: nat

text \<open>Free entries of the sector of the table in the cache; the first argument counts the entries left.\<close>

primrec usage_entries :: "nat \<Rightarrow> nat \<Rightarrow> nat \<Rightarrow> fs_state \<Rightarrow> nat \<Rightarrow> nat" where
  "usage_entries 0 i sector s free_count = free_count"
| "usage_entries (Suc k) i sector s free_count =
     (let cluster = sector * 128 + i
      in usage_entries k (i + 1) sector s
        (if cluster \<ge> 1 \<and> cluster \<le> cluster_count (sb s) \<and> u32_at (fat_cache s) i = 0 then free_count + 1 else free_count))"

primrec usage_loop :: "nat \<Rightarrow> nat \<Rightarrow> nat \<Rightarrow> nat fs" where
  "usage_loop 0 sector free_count s = (Inr free_count, s)"
| "usage_loop (Suc k) sector free_count s =
     andThen (fat_load (1 + sector)) (\<lambda>_ s. usage_loop k (sector + 1) (usage_entries 128 0 sector s free_count) s) s"

definition fs_usage :: "fs_stats fs" where
  "fs_usage s =
     (if \<not> mounted s then (Inl FS_ERR_NOFS, s)
      else andThen (usage_loop (fat_sectors (sb s)) 0 0) (\<lambda>n s.
        (Inr \<lparr>cluster_size = cluster_bytes s, total_clusters = cluster_count (sb s), free_clusters = n\<rparr>, s)) s)"

end
