(* ===== verification/Fs_Lookup.thy ===== *)
theory Fs_Lookup
  imports Fs
begin

text \<open>
  The file system (\<open>kernel/fs.c\<close>), fifth part: what the search of the directory finds, whatever the
  disk answers, and which names it accepts.
\<close>

section \<open>Slots of a sector\<close>

lemma u32_at_chunk:
  assumes "k < 32" "length buf = 512" "j < 4"
  shows "u32_at (chunk buf (j * 128) 128) k = u32_at buf (j * 32 + k)"
proof -
  have "take 4 (drop (4 * k) (chunk buf (j * 128) 128)) = take 4 (drop (4 * (j * 32 + k)) buf)"
    using assms by (simp add: chunk_def drop_take min_def algebra_simps)
  then show ?thesis unfolding u32_at_def by (metis load_u32_take)
qed

lemma slot_conv:
  assumes "length buf = 512" "j < 4"
  shows "slot buf j = \<lparr>de_name = chunk buf (j * 128) 116, de_first = u32_at buf (j * 32 + 29),
    de_size = u32_at buf (j * 32 + 30), de_flags = u32_at buf (j * 32 + 31)\<rparr>"
proof -
  have "take 116 (chunk buf (j * 128) 128) = chunk buf (j * 128) 116" by (simp add: chunk_def min_def)
  then show ?thesis using u32_at_chunk[OF _ assms] by (simp add: slot_def entry_of_def)
qed

lemma length_de_name: "length buf = 512 \<Longrightarrow> j < 4 \<Longrightarrow> length (de_name (slot buf j)) = 116"
  by (simp add: slot_conv)

lemma slot_sync:
  assumes "length buf = 512" "i < 4" "j < 4"
  shows "slot (set_u32 (set_u32 buf (i * 32 + 29) f) (i * 32 + 30) n) j =
    (if j = i then (slot buf i)\<lparr>de_first := f mod 4294967296, de_size := n mod 4294967296\<rparr> else slot buf j)"
proof -
  let ?b = "set_u32 (set_u32 buf (i * 32 + 29) f) (i * 32 + 30) n"
  have len: "length ?b = 512" using assms by simp
  have d: "j * 128 + 116 \<le> 4 * (i * 32 + 29) \<or> 4 * (i * 32 + 30) + 4 \<le> j * 128" by (cases "j \<le> i") auto
  have "chunk ?b (j * 128) 116 = chunk (set_u32 buf (i * 32 + 29) f) (j * 128) 116"
    unfolding set_u32_def[of _ "i * 32 + 30"] using assms d by (intro chunk_write_at_disjoint) auto
  also have "\<dots> = chunk buf (j * 128) 116"
    unfolding set_u32_def using assms d by (intro chunk_write_at_disjoint) auto
  finally show ?thesis
    unfolding slot_conv[OF len assms(3)] slot_conv[OF assms(1,3)] slot_conv[OF assms(1,2)]
    using assms by (auto simp: u32_at_set)
qed

lemma slot_write:
  assumes "length buf = 512" "i < 4" "j < 4" "length (de_name e) = 116"
    "de_first e < 4294967296" "de_size e < 4294967296" "de_flags e < 4294967296"
  shows "slot (write_at buf (i * 128) (entry_bytes e)) j = (if j = i then e else slot buf j)"
proof (cases "j = i")
  case True
  have c: "chunk (write_at buf (i * 128) (entry_bytes e)) (i * 128) 128 = entry_bytes e"
    using assms by (simp add: write_at_def chunk_def)
  have "u32_at (entry_bytes e) 29 = de_first e" "u32_at (entry_bytes e) 30 = de_size e" "u32_at (entry_bytes e) 31 = de_flags e"
    using assms(4-7) load_u32_bytes[of "word_of_nat (de_flags e)" "[]"]
    by (simp_all add: u32_at_def entry_bytes_def load_u32_bytes unsigned_of_nat take_bit_nat_eq_self_iff[THEN iffD2])
  then show ?thesis using True c assms(4) by (simp add: slot_def entry_of_def entry_bytes_def)
next
  case False
  then have "j * 128 + 128 \<le> i * 128 \<or> i * 128 + 128 \<le> j * 128" by linarith
  then have "chunk (write_at buf (i * 128) (entry_bytes e)) (j * 128) 128 = chunk buf (j * 128) 128"
    using assms by (intro chunk_write_at_disjoint) auto
  then show ?thesis using False by (simp add: slot_def)
qed


section \<open>The directory\<close>

text \<open>The places of the directory in the order a search visits them, and the entry at a place.\<close>

definition sector_locs :: "nat \<Rightarrow> location list" where
  "sector_locs sector = map (\<lambda>i. \<lparr>loc_sector = sector, loc_slot = i\<rparr>) [0..<4]"

definition cluster_locs :: "fs_state \<Rightarrow> nat \<Rightarrow> location list" where
  "cluster_locs s c = concat (map sector_locs [cluster_sector s c..<cluster_sector s c + 2 ^ cluster_shift s])"

definition dir_locs :: "fs_state \<Rightarrow> nat list \<Rightarrow> location list" where
  "dir_locs s rs = concat (map (cluster_locs s) rs)"

definition entry_at :: "fs_state \<Rightarrow> location \<Rightarrow> dir_entry" where
  "entry_at s l = slot (blk s (loc_sector l)) (loc_slot l)"

lemma in_sector_locs: "l \<in> set (sector_locs i) \<longleftrightarrow> loc_sector l = i \<and> loc_slot l < 4"
  by (cases l) (auto simp: sector_locs_def)

lemma in_cluster_locs: "l \<in> set (cluster_locs s c) \<longleftrightarrow> loc_sector l \<in> cluster_blocks s c \<and> loc_slot l < 4"
  by (auto simp: cluster_locs_def cluster_blocks_def in_sector_locs)

lemma in_dir_locs: "l \<in> set (dir_locs s rs) \<longleftrightarrow> loc_sector l \<in> chain_blocks s rs \<and> loc_slot l < 4"
  by (auto simp: dir_locs_def chain_blocks_def in_cluster_locs)

lemma dir_locs_keeps: "keeps W s s' \<Longrightarrow> dir_locs s' = dir_locs s"
proof -
  assume k: "keeps W s s'"
  have "cluster_locs s' = cluster_locs s"
    using cluster_blocks_keeps[OF k] keeps_wf[OF k] by (simp add: cluster_locs_def fun_eq_iff)
  then show ?thesis by (intro ext) (simp add: dir_locs_def)
qed

lemma chain_blocks_area: "\<lbrakk>fs_wf s; is_chain fv (cluster_count (sb s)) c cs\<rbrakk> \<Longrightarrow> chain_blocks s cs \<subseteq> block_area s"
  using cluster_blocks_area(1)[of s] is_chain_range[of fv _ c cs] unfolding chain_blocks_def by blast

lemma entry_at_keeps: "\<lbrakk>keeps W s s'; loc_sector l \<in> block_area s; loc_sector l \<notin> W\<rbrakk> \<Longrightarrow> entry_at s' l = entry_at s l"
  by (auto simp: entry_at_def keeps_def block_area_def)

lemma slot_store_entry:
  assumes "fs_wf s" "loc_sector l \<in> block_area s" "loc_slot l < 4" "slot_store l e s = (r, s')"
    and e: "length (de_name e) = 116" "de_first e < 4294967296" "de_size e < 4294967296" "de_flags e < 4294967296"
  shows "keeps {loc_sector l} s s' \<and> fat_view s' = fat_view s \<and>
    (r = Inr () \<and> (\<forall>k. loc_slot k < 4 \<and> loc_sector k \<in> block_area s \<longrightarrow> entry_at s' k = ((entry_at s)(l := e)) k) \<or>
     r = Inl FS_ERR_IO \<and> ((\<forall>k. loc_slot k < 4 \<and> loc_sector k \<in> block_area s \<longrightarrow> entry_at s' k = entry_at s k) \<or>
       (\<forall>k. loc_slot k < 4 \<and> loc_sector k \<in> block_area s \<longrightarrow> entry_at s' k = ((entry_at s)(l := e)) k)))"
proof -
  note S = slot_store_spec[OF assms(1-3) length_entry_bytes[OF e(1)] assms(4)]
  have other: "entry_at s' k = entry_at s k" if "loc_sector k \<in> block_area s" "loc_sector k \<noteq> loc_sector l" for k
    using S that by (intro entry_at_keeps[of "{loc_sector l}"]) auto
  have new: "entry_at s' k = ((entry_at s)(l := e)) k"
    if "blk s' (loc_sector l) = write_at (blk s (loc_sector l)) (loc_slot l * 128) (entry_bytes e)" "loc_slot k < 4" "loc_sector k \<in> block_area s" for k
  proof (cases "loc_sector k = loc_sector l")
    case True
    then have "entry_at s' k = (if loc_slot k = loc_slot l then e else entry_at s k)"
      using slot_write[OF length_blk[OF assms(1)] assms(3) that(2) e] that(1) by (simp add: entry_at_def)
    then show ?thesis using True by (cases k; cases l) auto
  qed (use other[OF that(3)] in auto)
  have old: "entry_at s' k = entry_at s k" if "blk s' (loc_sector l) = blk s (loc_sector l)" "loc_sector k \<in> block_area s" for k
    using other[OF that(2)] that(1) by (cases "loc_sector k = loc_sector l") (auto simp: entry_at_def)
  show ?thesis using S new old by (elim conjE disjE) auto
qed


section \<open>Searching the directory\<close>

text \<open>The search over a list of places, in one piece.\<close>

primrec search :: "(location \<Rightarrow> dir_entry) \<Rightarrow> u8 list \<Rightarrow> location list \<Rightarrow> lookup_result \<Rightarrow> lookup_result" where
  "search E name [] res = res"
| "search E name (l # ls) res =
     (if \<not> slot_used (E l) then search E name ls (if \<not> has_free res then res\<lparr>has_free := True, free_at := l\<rparr> else res)
      else if same_name (de_name (E l)) name then res\<lparr>found := True, found_at := l, entry := E l\<rparr>
      else search E name ls res)"

lemma search_append:
  "\<not> found res \<Longrightarrow> search E name (xs @ ys) res = (let r = search E name xs res in if found r then r else search E name ys r)"
  by (induction xs arbitrary: res) (auto simp: Let_def)

lemma search_last_cluster: "search E name xs (res\<lparr>last_cluster := x\<rparr>) = (search E name xs res)\<lparr>last_cluster := x\<rparr>"
proof (induction xs arbitrary: res)
  case (Cons l ls)
  have "search E name ls (res\<lparr>last_cluster := x, has_free := True, free_at := l\<rparr>) = (search E name ls (res\<lparr>has_free := True, free_at := l\<rparr>))\<lparr>last_cluster := x\<rparr>"
    using Cons[of "res\<lparr>has_free := True, free_at := l\<rparr>"] by (cases res) simp
  then show ?case using Cons by simp
qed simp

lemma search_cong: "(\<And>l. l \<in> set xs \<Longrightarrow> E l = E' l) \<Longrightarrow> search E name xs res = search E' name xs res"
  by (induction xs arbitrary: res) auto

lemma lookup_slots_search: "lookup_slots 4 name sector (blk s sector) 0 res = search (entry_at s) name (sector_locs sector) res"
  by (simp add: numeral_eq_Suc sector_locs_def upt_rec[of _ "Suc _"] entry_at_def)

lemma lookup_sectors_spec:
  "\<lbrakk>fs_wf s; {i..<i + k} \<subseteq> block_area s; \<not> found res; lookup_sectors k name i res s = (r, s')\<rbrakk> \<Longrightarrow>
    keeps {} s s' \<and> fat_view s' = fat_view s \<and>
    (r = Inl FS_ERR_IO \<or> r = Inr (search (entry_at s) name (concat (map sector_locs [i..<i + k])) res))"
proof (induction k arbitrary: i res s)
  case 0
  then show ?case by (simp add: keeps_refl)
next
  case (Suc k)
  have i: "i \<in> block_area s" using Suc.prems(2) by (rule subsetD) simp
  obtain r1 s1 where d: "dir_read i s = (r1, s1)" by fastforce
  note D = dir_read_spec[OF Suc.prems(1) i d]
  have k1: "keeps {} s s1" "fat_view s1 = fat_view s" "blk s1 = blk s" using D by simp_all
  show ?case
  proof (cases r1)
    case (Inl e)
    then show ?thesis using D d Suc.prems(4) by (auto simp: andThen_def)
  next
    case (Inr u)
    define res1 where "res1 = search (entry_at s) name (sector_locs i) res"
    have "lookup_slots 4 name i (dir_buf s1) 0 res = res1"
      using D Inr lookup_slots_search[of name i s res] by (auto simp: res1_def)
    then have l: "(if found res1 then (Inr res1, s1) else lookup_sectors k name (i + 1) res1 s1) = (r, s')"
      using Suc.prems(4) d Inr by (simp add: andThen_def Let_def cong: if_cong)
    have cat: "concat (map sector_locs [i..<i + Suc k]) = sector_locs i @ concat (map sector_locs [i + 1..<i + 1 + k])"
      by (simp add: upt_conv_Cons del: upt_Suc)
    show ?thesis
    proof (cases "found res1")
      case True
      then have "r = Inr res1" "s' = s1" using l by simp_all
      then show ?thesis using k1 search_append[OF Suc.prems(3)] True unfolding cat by (simp add: Let_def res1_def)
    next
      case False
      have "{i + 1..<i + 1 + k} \<subseteq> block_area s1" using Suc.prems(2) block_area_keeps[OF k1(1)] by auto
      then have ih: "keeps {} s1 s'" "fat_view s' = fat_view s1"
          "r = Inl FS_ERR_IO \<or> r = Inr (search (entry_at s1) name (concat (map sector_locs [i + 1..<i + 1 + k])) res1)"
        using Suc.IH[of s1 "i + 1" res1] keeps_wf[OF k1(1)] False l by auto
      have "entry_at s1 = entry_at s" by (simp add: entry_at_def k1(3) fun_eq_iff)
      then show ?thesis using ih k1(2) keeps_trans[OF k1(1) ih(1)] search_append[OF Suc.prems(3)] False
        unfolding cat by (auto simp: Let_def res1_def)
    qed
  qed
qed

lemma cluster_run_area: "cluster_blocks s c \<subseteq> block_area s \<Longrightarrow> {cluster_sector s c..<cluster_sector s c + 2 ^ cluster_shift s} \<subseteq> block_area s"
  by (simp add: cluster_blocks_def)

lemma lookup_clusters_spec:
  "\<lbrakk>fs_wf s; is_chain (fat_view s) (cluster_count (sb s)) c cs; length cs \<le> k; \<not> found res; lookup_clusters k name c res s = (r, s')\<rbrakk> \<Longrightarrow>
    keeps {} s s' \<and> fat_view s' = fat_view s \<and>
    (r = Inl FS_ERR_IO \<or>
     (\<exists>x. r = Inr ((search (entry_at s) name (dir_locs s cs) res)\<lparr>last_cluster := x\<rparr>) \<and>
       (\<not> found (search (entry_at s) name (dir_locs s cs) res) \<longrightarrow> x = (if cs = [] then last_cluster res else last cs))))"
proof (induction cs arbitrary: k c res s)
  case Nil
  then have "r = Inr res" "s' = s" using lookup_clusters.simps[of k name 0 res s] by simp_all
  then show ?case using Nil by (auto simp: keeps_refl dir_locs_def intro!: exI[of _ "last_cluster res"])
next
  case (Cons y ys)
  have c: "c = y" "1 \<le> y" "y \<le> cluster_count (sb s)" using Cons.prems(2) by simp_all
  let ?E = "entry_at s" and ?res = "res\<lparr>last_cluster := y\<rparr>"
  obtain k' where k: "k = Suc k'" "length ys \<le> k'" using Cons.prems(3) by (cases k) auto
  have area: "cluster_blocks s y \<subseteq> block_area s" by (rule cluster_blocks_area[OF Cons.prems(1) c(2,3)])
  have nf: "\<not> found ?res" using Cons.prems(4) by simp
  define res1 where "res1 = search ?E name (cluster_locs s y) ?res"
  have sc: "search ?E name (dir_locs s (y # ys)) ?res = (if found res1 then res1 else search ?E name (dir_locs s ys) res1)"
    using search_append[OF nf] by (simp add: dir_locs_def res1_def Let_def)
  have unfolded: "andThen (lookup_sectors (2 ^ cluster_shift s) name (cluster_sector s y) ?res)
        (\<lambda>res. if found res then (\<lambda>s. (Inr res, s)) else andThen (chain_next y) (\<lambda>nxt. lookup_clusters k' name nxt res)) s = (r, s')"
    using Cons.prems(5) c k(1) by (subst (asm) lookup_clusters.simps) (simp cong: if_cong)
  obtain r1 s1 where l: "lookup_sectors (2 ^ cluster_shift s) name (cluster_sector s y) ?res s = (r1, s1)" by fastforce
  have L: "keeps {} s s1" "fat_view s1 = fat_view s" "r1 = Inl FS_ERR_IO \<or> r1 = Inr res1"
    using lookup_sectors_spec[OF Cons.prems(1) cluster_run_area[OF area] nf l] by (simp_all add: res1_def cluster_locs_def)
  have upd: "search ?E name xs ?res = (search ?E name xs res)\<lparr>last_cluster := y\<rparr>" for xs by (rule search_last_cluster)
  consider (err) "r1 = Inl FS_ERR_IO" | (fnd) "r1 = Inr res1" "found res1" | (more) "r1 = Inr res1" "\<not> found res1" using L(3) by blast
  then show ?case
  proof cases
    case err
    then show ?thesis using unfolded l L by (simp add: andThen_def)
  next
    case fnd
    then have "r = Inr res1" "s' = s1" using unfolded l by (simp_all add: andThen_def)
    moreover have "res1 = (search ?E name (dir_locs s (y # ys)) res)\<lparr>last_cluster := y\<rparr>" using sc fnd(2) upd by simp
    ultimately show ?thesis using L fnd(2) by (intro conjI disjI2 exI[of _ y]) auto
  next
    case more
    obtain r2 s2 where n: "chain_next y s1 = (r2, s2)" by fastforce
    have w1: "fs_wf s1" "sb s1 = sb s" using keeps_wf[OF L(1)] by simp_all
    have C: "fat_same s1 s2" "r2 = Inr (next_of (fat_view s) y) \<or> r2 = Inl FS_ERR_IO"
      using chain_next_spec[OF w1(1) n] Cons.prems(2) L(2) w1(2) by (auto split: if_splits)
    have k2: "keeps {} s s2" "fat_view s2 = fat_view s"
      using fat_same_keeps[OF C(1), of "{}"] keeps_trans[OF L(1)] L(2) by auto
    show ?thesis
    proof (cases "r2 = Inl FS_ERR_IO")
      case True
      then show ?thesis using unfolded l more n k2 by (simp add: andThen_def)
    next
      case False
      have ch: "is_chain (fat_view s) (cluster_count (sb s)) (next_of (fat_view s) y) ys" using Cons.prems(2) by simp
      have lc: "lookup_clusters k' name (next_of (fat_view s) y) res1 s2 = (r, s')"
        using unfolded l more n C(2) False by (simp add: andThen_def)
      have E2: "search (entry_at s2) name (dir_locs s ys) res1 = search ?E name (dir_locs s ys) res1"
        using entry_at_keeps[OF k2(1)] chain_blocks_area[OF Cons.prems(1) ch]
        by (intro search_cong) (auto simp: in_dir_locs)
      have w2: "fs_wf s2" "is_chain (fat_view s2) (cluster_count (sb s2)) (next_of (fat_view s) y) ys"
        using keeps_wf[OF k2(1)] k2(2) ch by simp_all
      note ih = Cons.IH[OF w2 k(2) more(2) lc, unfolded dir_locs_keeps[OF k2(1)] E2 k2(2)]
      have "(if ys = [] then last_cluster res1 else last ys) = last (y # ys)" using upd by (simp add: res1_def)
      moreover have "search ?E name (dir_locs s ys) res1 = (search ?E name (dir_locs s (y # ys)) res)\<lparr>last_cluster := y\<rparr>"
        using sc more(2) upd by simp
      ultimately show ?thesis using ih keeps_trans[OF k2(1)] by (simp del: last.simps)
    qed
  qed
qed


lemma search_found:
  "\<lbrakk>\<not> found res; search E name xs res = res'; found res'\<rbrakk> \<Longrightarrow>
    found_at res' \<in> set xs \<and> entry res' = E (found_at res') \<and>
    slot_used (E (found_at res')) \<and> same_name (de_name (E (found_at res'))) name"
proof (induction xs arbitrary: res)
  case (Cons l ls)
  show ?case
  proof (cases "slot_used (E l)")
    case True
    then show ?thesis using Cons.IH[of res] Cons.prems by (cases "same_name (de_name (E l)) name") auto
  next
    case False
    then show ?thesis
      using Cons.IH[of "if \<not> has_free res then res\<lparr>has_free := True, free_at := l\<rparr> else res"] Cons.prems by simp
  qed
qed simp

lemma search_not_found:
  "\<lbrakk>\<not> found res; search E name xs res = res'; \<not> found res'\<rbrakk> \<Longrightarrow>
    (\<forall>l \<in> set xs. slot_used (E l) \<longrightarrow> \<not> same_name (de_name (E l)) name) \<and>
    (if has_free res then has_free res' \<and> free_at res' = free_at res
     else has_free res' \<longrightarrow> free_at res' \<in> set xs \<and> \<not> slot_used (E (free_at res')))"
proof (induction xs arbitrary: res)
  case (Cons l ls)
  show ?case
  proof (cases "slot_used (E l)")
    case True
    then have "\<not> same_name (de_name (E l)) name" using Cons.prems by auto
    then show ?thesis using Cons.IH[of res] Cons.prems True by auto
  next
    case False
    then show ?thesis
      using Cons.IH[of "if \<not> has_free res then res\<lparr>has_free := True, free_at := l\<rparr> else res"] Cons.prems by (auto split: if_splits)
  qed
qed simp

lemma dir_lookup_spec:
  assumes wf: "fs_wf s" and ch: "is_chain (fat_view s) (cluster_count (sb s)) (root_cluster (sb s)) rs" and r: "dir_lookup name s = (r, s')"
  shows "keeps {} s s' \<and> fat_view s' = fat_view s \<and>
    (case r of Inl e \<Rightarrow> e = FS_ERR_IO
     | Inr res \<Rightarrow>
         if found res then found_at res \<in> set (dir_locs s rs) \<and> entry res = entry_at s (found_at res) \<and>
           slot_used (entry res) \<and> same_name (de_name (entry res)) name
         else (\<forall>l \<in> set (dir_locs s rs). slot_used (entry_at s l) \<longrightarrow> \<not> same_name (de_name (entry_at s l)) name) \<and>
           last_cluster res = last rs \<and>
           (has_free res \<longrightarrow> free_at res \<in> set (dir_locs s rs) \<and> \<not> slot_used (entry_at s (free_at res))))"
proof -
  define res0 where "res0 = \<lparr>found = False, found_at = \<lparr>loc_sector = 0, loc_slot = 0\<rparr>, entry = empty_entry, has_free = False,
        free_at = \<lparr>loc_sector = 0, loc_slot = 0\<rparr>, last_cluster = root_cluster (sb s)\<rparr>"
  have f: "\<not> found res0" "\<not> has_free res0" by (simp_all add: res0_def)
  have l: "lookup_clusters (cluster_count (sb s)) name (root_cluster (sb s)) res0 s = (r, s')"
    using r by (simp add: dir_lookup_def res0_def)
  have ne: "rs \<noteq> []" using ch wf by (auto simp: fs_wf_def geometry_def)
  note L = lookup_clusters_spec[OF wf ch is_chain_length[OF ch] f(1) l]
  show ?thesis
  proof (cases r)
    case (Inl e)
    then show ?thesis using L by auto
  next
    case (Inr res)
    define found_res where "found_res = search (entry_at s) name (dir_locs s rs) res0"
    have "\<exists>x. res = found_res\<lparr>last_cluster := x\<rparr> \<and> (\<not> found found_res \<longrightarrow> x = last rs)"
      using L Inr ne by (simp add: found_res_def)
    then obtain x where x: "res = found_res\<lparr>last_cluster := x\<rparr>" "\<not> found found_res \<longrightarrow> x = last rs" by blast
    have "found found_res \<Longrightarrow> found_at found_res \<in> set (dir_locs s rs) \<and> entry found_res = entry_at s (found_at found_res) \<and>
        slot_used (entry_at s (found_at found_res)) \<and> same_name (de_name (entry_at s (found_at found_res))) name"
      using search_found[OF f(1) found_res_def[symmetric]] by simp
    moreover have "\<not> found found_res \<Longrightarrow> (\<forall>l \<in> set (dir_locs s rs). slot_used (entry_at s l) \<longrightarrow> \<not> same_name (de_name (entry_at s l)) name) \<and>
        (has_free found_res \<longrightarrow> free_at found_res \<in> set (dir_locs s rs) \<and> \<not> slot_used (entry_at s (free_at found_res)))"
      using search_not_found[OF f(1) found_res_def[symmetric]] f(2) by simp
    ultimately show ?thesis using L Inr x by (cases "found found_res") simp_all
  qed
qed


section \<open>Names\<close>

text \<open>The characters before the terminating 0.\<close>

definition cname :: "u8 list \<Rightarrow> u8 list" where
  "cname b = takeWhile (\<lambda>c. c \<noteq> 0) b"

lemma cname_0: "0 \<in> set b \<Longrightarrow> length (cname b) < length b \<and> b ! length (cname b) = 0"
  unfolding cname_def
  by (metis (mono_tags, lifting) length_takeWhile_le nth_length_takeWhile order_neq_le_trans takeWhile_eq_all_conv takeWhile_eq_take take_all_iff)

lemma cname_nth: "i < length (cname b) \<Longrightarrow> b ! i \<noteq> 0 \<and> cname b ! i = b ! i"
  using nth_mem[of i "takeWhile (\<lambda>c. c \<noteq> 0) b"] takeWhile_nth[of i "\<lambda>c. c \<noteq> 0" b] set_takeWhileD[of "b ! i" "\<lambda>c. c \<noteq> 0" b]
  by (simp add: cname_def)

lemma cname_eqI:
  assumes "n < length b" "b ! n = 0" "\<And>i. i < n \<Longrightarrow> b ! i \<noteq> 0"
  shows "cname b = take n b"
proof -
  have "takeWhile (\<lambda>c. c \<noteq> 0) (take n b @ b ! n # drop (Suc n) b) = take n b"
    using assms by (subst takeWhile_append2) (auto simp: in_set_conv_nth)
  then show ?thesis unfolding cname_def id_take_nth_drop[OF assms(1), symmetric] .
qed

lemma same_name_loop_iff:
  "\<lbrakk>0 \<in> set name; i \<le> length (cname name); length (cname name) < i + k\<rbrakk> \<Longrightarrow>
    same_name_loop k stored name i \<longleftrightarrow> (\<forall>j. i \<le> j \<and> j \<le> length (cname name) \<longrightarrow> stored ! j = name ! j)"
proof (induction k arbitrary: i)
  case (Suc k)
  show ?case
  proof (cases "i = length (cname name)")
    case True
    have "(\<forall>j. i \<le> j \<and> j \<le> length (cname name) \<longrightarrow> stored ! j = name ! j) \<longleftrightarrow> stored ! i = name ! i"
      unfolding True by (metis le_antisym le_refl)
    then show ?thesis using cname_0[OF Suc.prems(1)] True by simp
  next
    case False
    then have "name ! i \<noteq> 0" using cname_nth[of i name] Suc.prems(2) by simp
    moreover have "(\<forall>j. i \<le> j \<and> j \<le> length (cname name) \<longrightarrow> stored ! j = name ! j) \<longleftrightarrow>
        stored ! i = name ! i \<and> (\<forall>j. i + 1 \<le> j \<and> j \<le> length (cname name) \<longrightarrow> stored ! j = name ! j)"
      using Suc.prems(2) by (metis Suc_eq_plus1 Suc_leD Suc_leI le_eq_less_or_eq)
    ultimately show ?thesis using Suc.IH[of "i + 1"] Suc.prems False by simp
  qed
qed simp

lemma same_name_iff:
  assumes "0 \<in> set name" "length (cname name) \<le> FS_NAME_MAX" "length stored = 116"
  shows "same_name stored name \<longleftrightarrow> cname stored = cname name"
proof -
  let ?n = "length (cname name)"
  have "same_name stored name \<longleftrightarrow> (\<forall>j. 0 \<le> j \<and> j \<le> ?n \<longrightarrow> stored ! j = name ! j)"
    unfolding same_name_def using assms by (intro same_name_loop_iff) auto
  also have "\<dots> \<longleftrightarrow> cname stored = cname name"
  proof
    assume a: "\<forall>j. 0 \<le> j \<and> j \<le> ?n \<longrightarrow> stored ! j = name ! j"
    have "cname stored = take ?n stored"
      using a assms cname_0[OF assms(1)] cname_nth[of _ name] by (intro cname_eqI) auto
    also have "\<dots> = cname name"
      using a assms(2,3) cname_nth[of _ name] by (intro nth_equalityI) auto
    finally show "cname stored = cname name" .
  next
    assume e: "cname stored = cname name"
    have "0 \<in> set stored"
    proof (rule ccontr)
      assume "0 \<notin> set stored"
      then have "cname stored = stored" by (auto simp: cname_def takeWhile_eq_all_conv)
      then show False using e assms(2,3) by simp
    qed
    then have "stored ! ?n = 0" using cname_0[of stored] e by simp
    then show "\<forall>j. 0 \<le> j \<and> j \<le> ?n \<longrightarrow> stored ! j = name ! j"
      using cname_0[OF assms(1)] cname_nth[of _ stored] cname_nth[of _ name] e by (metis le_neq_implies_less)
  qed
  finally show ?thesis .
qed


lemma all_from: "i < n \<Longrightarrow> (\<forall>j. i \<le> j \<and> j < n \<longrightarrow> Q j) \<longleftrightarrow> Q i \<and> (\<forall>j. i + 1 \<le> j \<and> j < n \<longrightarrow> Q j)" for i n :: nat
  by (metis Suc_eq_plus1 Suc_leD Suc_leI le_eq_less_or_eq)

lemma name_check_loop_iff:
  "\<lbrakk>0 \<in> set name; i \<le> length (cname name)\<rbrakk> \<Longrightarrow>
    name_check_loop k name i = Inr () \<longleftrightarrow>
      length (cname name) \<le> i + k \<and> (\<forall>j. i \<le> j \<and> j < length (cname name) \<longrightarrow> \<not> (name ! j \<le> 32 \<or> name ! j = 127 \<or> name ! j = 47))"
proof (induction k arbitrary: i)
  case 0
  show ?case
  proof (cases "i = length (cname name)")
    case True
    then show ?thesis using cname_0[OF 0(1)] by (auto simp: name_check_loop.simps[of 0])
  next
    case False
    then show ?thesis using cname_nth[of i name] 0 by (simp add: name_check_loop.simps[of 0] Let_def)
  qed
next
  case (Suc k)
  show ?case
  proof (cases "i = length (cname name)")
    case True
    then show ?thesis using cname_0[OF Suc.prems(1)] by (auto simp: name_check_loop.simps[of "Suc k"])
  next
    case False
    let ?bad = "\<lambda>j. name ! j \<le> 32 \<or> name ! j = 127 \<or> name ! j = 47"
    have lt: "i < length (cname name)" "name ! i \<noteq> 0" using False cname_nth[of i name] Suc.prems(2) by simp_all
    then have "name_check_loop (Suc k) name i = (if ?bad i then Inl FS_ERR_NAME else name_check_loop k name (i + 1))"
      by (simp add: name_check_loop.simps[of "Suc k"] Let_def)
    moreover have "(\<forall>j. i \<le> j \<and> j < length (cname name) \<longrightarrow> \<not> ?bad j) \<longleftrightarrow>
        \<not> ?bad i \<and> (\<forall>j. i + 1 \<le> j \<and> j < length (cname name) \<longrightarrow> \<not> ?bad j)"
      by (rule all_from[OF lt(1)])
    moreover have "name_check_loop k name (i + 1) = Inr () \<longleftrightarrow>
        length (cname name) \<le> i + 1 + k \<and> (\<forall>j. i + 1 \<le> j \<and> j < length (cname name) \<longrightarrow> \<not> ?bad j)"
      using Suc.IH[of "i + 1"] Suc.prems(1) lt(1) by simp
    ultimately show ?thesis by (cases "?bad i") simp_all
  qed
qed

lemma name_check_iff:
  assumes "0 \<in> set name"
  shows "name_check name = (if cname name \<noteq> [] \<and> length (cname name) \<le> FS_NAME_MAX \<and> (\<forall>c \<in> set (cname name). 32 < c \<and> c \<noteq> 127 \<and> c \<noteq> 47)
    then Inr () else Inl FS_ERR_NAME)"
proof -
  let ?n = "cname name"
  have ne: "name \<noteq> []" using assms by auto
  have emp: "name ! 0 = 0 \<longleftrightarrow> ?n = []" using ne by (cases name) (simp_all add: cname_def)
  have cs: "(\<forall>j. 0 \<le> j \<and> j < length ?n \<longrightarrow> \<not> (name ! j \<le> 32 \<or> name ! j = 127 \<or> name ! j = 47)) \<longleftrightarrow>
      (\<forall>c \<in> set ?n. 32 < c \<and> c \<noteq> 127 \<and> c \<noteq> 47)"
    using cname_nth[of _ name] by (auto simp: all_set_conv_all_nth not_le)
  have err: "name_check_loop k name i = Inr () \<or> name_check_loop k name i = Inl FS_ERR_NAME" for k i
    by (induction k arbitrary: i) (simp_all add: name_check_loop.simps[of 0] name_check_loop.simps[of "Suc _"] Let_def)
  show ?thesis
    using name_check_loop_iff[OF assms, of 0 FS_NAME_MAX] err[of FS_NAME_MAX 0] ne emp unfolding cs name_check_def by auto
qed

text \<open>
  \<open>name_check\<close> accepts exactly the names of 1 to 115 characters without control characters,
  spaces, DEL and \<open>/\<close>; every other string is \<open>FS_ERR_NAME\<close>.
\<close>

theorem name_check_exact:
  assumes "0 \<in> set name"
  shows "name_check name = (if cname name \<noteq> [] \<and> length (cname name) \<le> FS_NAME_MAX \<and> (\<forall>c \<in> set (cname name). 32 < c \<and> c \<noteq> 127 \<and> c \<noteq> 47)
    then Inr () else Inl FS_ERR_NAME)"
  by (rule name_check_iff[OF assms])

theorem name_check_exact_witness:
  "name_check [0x61, 0x2F, 0] = Inl FS_ERR_NAME \<and> name_check [0x61, 0x62, 0] = Inr ()"
  using name_check_exact[of "[0x61, 0x2F, 0]"] name_check_exact[of "[0x61, 0x62, 0]"] by (simp add: cname_def)

end
