(* ===== verification/Fs_Inv.thy ===== *)
theory Fs_Inv
  imports Fs_Lookup
begin

text \<open>
  The file system (\<open>kernel/fs.c\<close>), sixth part: the invariant of the directory and of the chains, and
  that every operation keeps it, whatever the disk answers.
\<close>

section \<open>The invariant\<close>

text \<open>
  Over the abstract table \<open>fv\<close> and the entries \<open>E\<close> at the places \<open>L\<close>: every file has a chain that holds its
  size and shares no cluster with the directory \<open>rs\<close>; two files have different names and no common
  cluster.
\<close>

definition entry_ok :: "(nat \<Rightarrow> nat) \<Rightarrow> nat \<Rightarrow> nat \<Rightarrow> nat list \<Rightarrow> dir_entry \<Rightarrow> bool" where
  "entry_ok fv n cb rs e \<longleftrightarrow> slot_used e \<longrightarrow> 0 \<in> set (de_name e) \<and>
     (\<exists>cs. is_chain fv n (de_first e) cs \<and> de_size e \<le> length cs * cb \<and> set cs \<inter> set rs = {})"

definition apart :: "(nat \<Rightarrow> nat) \<Rightarrow> nat \<Rightarrow> dir_entry \<Rightarrow> dir_entry \<Rightarrow> bool" where
  "apart fv n e e' \<longleftrightarrow> slot_used e \<and> slot_used e' \<longrightarrow> cname (de_name e) \<noteq> cname (de_name e') \<and>
     (\<forall>cs cs'. is_chain fv n (de_first e) cs \<and> is_chain fv n (de_first e') cs' \<longrightarrow> set cs \<inter> set cs' = {})"

definition dir_inv :: "(nat \<Rightarrow> nat) \<Rightarrow> nat \<Rightarrow> nat \<Rightarrow> nat list \<Rightarrow> (location \<Rightarrow> dir_entry) \<Rightarrow> location set \<Rightarrow> bool" where
  "dir_inv fv n cb rs E L \<longleftrightarrow> (\<forall>l \<in> L. entry_ok fv n cb rs (E l)) \<and> (\<forall>l \<in> L. \<forall>l' \<in> L. l \<noteq> l' \<longrightarrow> apart fv n (E l) (E l'))"

definition fs_inv :: "fs_state \<Rightarrow> nat list \<Rightarrow> bool" where
  "fs_inv s rs \<longleftrightarrow> fs_wf s \<and> is_chain (fat_view s) (cluster_count (sb s)) (root_cluster (sb s)) rs \<and>
     dir_inv (fat_view s) (cluster_count (sb s)) (cluster_bytes s) rs (entry_at s) (set (dir_locs s rs))"

lemma dir_inv_cong: "(\<And>l. l \<in> L \<Longrightarrow> E l = E' l) \<Longrightarrow> dir_inv fv n cb rs E L = dir_inv fv n cb rs E' L"
  by (simp add: dir_inv_def)

text \<open>The clusters an entry owns.\<close>

lemma entry_chain:
  assumes "dir_inv fv n cb rs E L" "l \<in> L" "slot_used (E l)"
  obtains cs where "is_chain fv n (de_first (E l)) cs" "de_size (E l) \<le> length cs * cb" "set cs \<inter> set rs = {}"
  using assms by (auto simp: dir_inv_def entry_ok_def)

lemma other_chains_apart:
  assumes "dir_inv fv n cb rs E L" "l \<in> L" "slot_used (E l)" "k \<in> L" "slot_used (E k)" "k \<noteq> l"
    and "is_chain fv n (de_first (E l)) cs" "is_chain fv n (de_first (E k)) ks"
  shows "set ks \<inter> set cs = {}" "cname (de_name (E k)) \<noteq> cname (de_name (E l))"
  using assms unfolding dir_inv_def apart_def by blast+

text \<open>
  The one step all operations consist of: the entry at \<open>l\<close>, which owned the clusters \<open>cs\<close> (none if it was
  free), is replaced.  Clusters of other chains keep their entry in the table, and the new chain takes
  only clusters that were \<open>cs\<close>'s or free.
\<close>

lemma dir_inv_replace:
  assumes inv: "dir_inv fv n cb rs E L" and l: "l \<in> L" and rs: "is_chain fv n root rs"
    and own: "if slot_used (E l) then is_chain fv n (de_first (E l)) cs else cs = []"
    and other: "\<And>c. fv c \<noteq> 0 \<Longrightarrow> c \<notin> set cs \<Longrightarrow> fv' c = fv c"
    and new: "slot_used e' \<Longrightarrow> 0 \<in> set (de_name e') \<and> is_chain fv' n (de_first e') cs' \<and> de_size e' \<le> length cs' * cb \<and>
        (\<forall>c \<in> set cs'. c \<in> set cs \<or> fv c = 0)"
    and name: "slot_used e' \<Longrightarrow> (\<forall>k \<in> L. k \<noteq> l \<and> slot_used (E k) \<longrightarrow> cname (de_name (E k)) \<noteq> cname (de_name e'))"
  shows "dir_inv fv' n cb rs (E(l := e')) L \<and> is_chain fv' n root rs"
proof -
  have cs_rs: "set cs \<inter> set rs = {}"
  proof (cases "slot_used (E l)")
    case True
    then have c: "is_chain fv n (de_first (E l)) cs" using own by simp
    obtain ds where d: "is_chain fv n (de_first (E l)) ds" "set ds \<inter> set rs = {}" by (rule entry_chain[OF inv l True])
    show ?thesis using d(2) is_chain_unique[OF c d(1)] by simp
  qed (use own in simp)
  have used: "fv c \<noteq> 0" if "is_chain fv n x xs" "c \<in> set xs" for x xs c using is_chain_range[OF that] by simp
  have stays: "is_chain fv' n x xs" if "is_chain fv n x xs" "set xs \<inter> set cs = {}" for x xs
  proof -
    have "fv' c = fv c" if "c \<in> set xs" for c using other[OF used[OF \<open>is_chain fv n x xs\<close> that]] \<open>set xs \<inter> set cs = {}\<close> that by blast
    then show ?thesis using is_chain_cong[of xs fv' fv n x] that(1) by simp
  qed
  have ks: "\<exists>ks. is_chain fv n (de_first (E k)) ks \<and> is_chain fv' n (de_first (E k)) ks \<and> de_size (E k) \<le> length ks * cb \<and>
      set ks \<inter> set rs = {} \<and> set ks \<inter> set cs = {}"
    if k: "k \<in> L" "k \<noteq> l" "slot_used (E k)" for k
  proof -
    obtain ks where K: "is_chain fv n (de_first (E k)) ks" "de_size (E k) \<le> length ks * cb" "set ks \<inter> set rs = {}"
      by (rule entry_chain[OF inv k(1,3)])
    have "set ks \<inter> set cs = {}"
    proof (cases "slot_used (E l)")
      case True
      then show ?thesis using other_chains_apart(1)[OF inv l True k(1,3,2) _ K(1)] own by simp
    qed (use own in simp)
    then show ?thesis using K stays[OF K(1)] by blast
  qed
  have fresh: "set cs' \<inter> set xs = {}" if "slot_used e'" "is_chain fv n x xs" "set xs \<inter> set cs = {}" for x xs
    using new[OF that(1)] used[OF that(2)] that(3) by blast
  have nm: "0 \<in> set (de_name (E k))" if "k \<in> L" "slot_used (E k)" for k using inv that by (auto simp: dir_inv_def entry_ok_def)
  have ok: "entry_ok fv' n cb rs ((E(l := e')) k)" if "k \<in> L" for k
  proof (cases "k = l")
    case True
    then show ?thesis using new fresh[OF _ rs] cs_rs by (auto simp: entry_ok_def)
  next
    case False
    then show ?thesis using ks[OF that False] nm[OF that] by (auto simp: entry_ok_def)
  qed
  have ap: "apart fv' n (E k) e' \<and> apart fv' n e' (E k)" if k: "k \<in> L" "k \<noteq> l" for k
  proof (cases "slot_used (E k) \<and> slot_used e'")
    case True
    obtain ks' where K: "is_chain fv n (de_first (E k)) ks'" "is_chain fv' n (de_first (E k)) ks'" "set ks' \<inter> set cs = {}"
      using ks[OF k] True by blast
    have "set cs' \<inter> set ks' = {}" using fresh[OF _ K(1,3)] True by simp
    moreover have "is_chain fv' n (de_first e') xs \<Longrightarrow> xs = cs'" "is_chain fv' n (de_first (E k)) xs \<Longrightarrow> xs = ks'" for xs
      using new True is_chain_unique K(2) by blast+
    ultimately show ?thesis using name True k unfolding apart_def by (auto simp: Int_commute)
  qed (auto simp: apart_def)
  have ap2: "apart fv' n (E k) (E k')" if k: "k \<in> L" "k \<noteq> l" "k' \<in> L" "k' \<noteq> l" "k \<noteq> k'" for k k'
  proof (cases "slot_used (E k) \<and> slot_used (E k')")
    case True
    obtain a b where A: "is_chain fv n (de_first (E k)) a" "is_chain fv' n (de_first (E k)) a"
        "is_chain fv n (de_first (E k')) b" "is_chain fv' n (de_first (E k')) b"
      using ks[OF k(1,2)] ks[OF k(3,4)] True by blast
    have "cname (de_name (E k)) \<noteq> cname (de_name (E k'))" "set a \<inter> set b = {}"
      using other_chains_apart[OF inv k(3) _ k(1) _ k(5) A(3,1)] True by simp_all
    moreover have "is_chain fv' n (de_first (E k)) xs \<Longrightarrow> xs = a" "is_chain fv' n (de_first (E k')) xs \<Longrightarrow> xs = b" for xs
      using is_chain_unique A(2,4) by blast+
    ultimately show ?thesis unfolding apart_def by auto
  qed (auto simp: apart_def)
  have "dir_inv fv' n cb rs (E(l := e')) L" unfolding dir_inv_def using ok ap ap2 by auto
  then show ?thesis using stays[OF rs] cs_rs by blast
qed


text \<open>The directory itself may grow by free clusters; so may the table by clusters nobody owns.\<close>

lemma dir_inv_extend:
  assumes inv: "dir_inv fv n cb rs E L" and rs: "is_chain fv n root rs"
    and other: "\<And>c. fv c \<noteq> 0 \<Longrightarrow> c \<notin> set rs \<Longrightarrow> fv' c = fv c"
    and more: "\<And>c. c \<in> set rs' \<Longrightarrow> c \<in> set rs \<or> fv c = 0"
    and E: "\<And>l. l \<in> L \<Longrightarrow> E' l = E l" "\<And>l. l \<in> L' \<Longrightarrow> l \<notin> L \<Longrightarrow> \<not> slot_used (E' l)"
  shows "dir_inv fv' n cb rs' E' L'"
proof -
  have ks: "\<exists>ks. is_chain fv n (de_first (E k)) ks \<and> is_chain fv' n (de_first (E k)) ks \<and> de_size (E k) \<le> length ks * cb \<and> set ks \<inter> set rs' = {}"
    if k: "k \<in> L" "slot_used (E k)" for k
  proof -
    obtain ks where K: "is_chain fv n (de_first (E k)) ks" "de_size (E k) \<le> length ks * cb" "set ks \<inter> set rs = {}"
      by (rule entry_chain[OF inv k])
    have "fv c \<noteq> 0 \<and> c \<notin> set rs" if "c \<in> set ks" for c using is_chain_range[OF K(1) that] K(3) that by auto
    then have "fv' c = fv c" "c \<notin> set rs'" if "c \<in> set ks" for c using other more that by blast+
    then show ?thesis using K is_chain_cong[of ks fv' fv n] by blast
  qed
  have ap: "apart fv' n (E k) (E k')" if k: "k \<in> L" "k' \<in> L" "k \<noteq> k'" for k k'
  proof (cases "slot_used (E k) \<and> slot_used (E k')")
    case True
    obtain a b where A: "is_chain fv n (de_first (E k)) a" "is_chain fv' n (de_first (E k)) a"
        "is_chain fv n (de_first (E k')) b" "is_chain fv' n (de_first (E k')) b"
      using ks[OF k(1)] ks[OF k(2)] True by blast
    have "cname (de_name (E k)) \<noteq> cname (de_name (E k'))" "set a \<inter> set b = {}"
      using other_chains_apart[OF inv k(2) _ k(1) _ k(3) A(3,1)] True by simp_all
    moreover have "is_chain fv' n (de_first (E k)) xs \<Longrightarrow> xs = a" "is_chain fv' n (de_first (E k')) xs \<Longrightarrow> xs = b" for xs
      using is_chain_unique A(2,4) by blast+
    ultimately show ?thesis unfolding apart_def by auto
  qed (auto simp: apart_def)
  have ok: "entry_ok fv' n cb rs' (E k)" if "k \<in> L" for k
    using ks[OF that] inv that by (auto simp: dir_inv_def entry_ok_def)
  have free: "entry_ok fv' n cb rs' (E' k) \<and> apart fv' n (E' k) e \<and> apart fv' n e (E' k)" if "k \<in> L'" "k \<notin> L" for k e
    using E(2)[OF that] by (simp add: entry_ok_def apart_def)
  have "entry_ok fv' n cb rs' (E' k)" if "k \<in> L'" for k using ok E(1) free that by (cases "k \<in> L") auto
  moreover have "apart fv' n (E' k) (E' k')" if "k \<in> L'" "k' \<in> L'" "k \<noteq> k'" for k k'
    using ap[OF _ _ that(3)] E(1) free that by (cases "k \<in> L"; cases "k' \<in> L") auto
  ultimately show ?thesis unfolding dir_inv_def by blast
qed


section \<open>The files of the directory\<close>

text \<open>What the directory promises: a map from names to the first cluster and the size.\<close>

definition files_of :: "(location \<Rightarrow> dir_entry) \<Rightarrow> location list \<Rightarrow> u8 list \<rightharpoonup> nat \<times> nat" where
  "files_of E ls = map_of (map (\<lambda>l. (cname (de_name (E l)), de_first (E l), de_size (E l))) (filter (\<lambda>l. slot_used (E l)) ls))"

definition files :: "fs_state \<Rightarrow> nat list \<Rightarrow> u8 list \<rightharpoonup> nat \<times> nat" where
  "files s rs = files_of (entry_at s) (dir_locs s rs)"

lemma files_of_cong: "(\<And>l. l \<in> set ls \<Longrightarrow> E l = E' l) \<Longrightarrow> files_of E ls = files_of E' ls"
  unfolding files_of_def by (intro arg_cong[where f = map_of] map_cong filter_cong) auto

lemma files_of_None: "files_of E ls n = None \<longleftrightarrow> (\<forall>l \<in> set ls. slot_used (E l) \<longrightarrow> cname (de_name (E l)) \<noteq> n)"
  by (auto simp: files_of_def map_of_eq_None_iff image_def)

lemma files_of_at:
  assumes "dir_inv fv n cb rs E (set ls)" "l \<in> set ls" "slot_used (E l)"
  shows "files_of E ls (cname (de_name (E l))) = Some (de_first (E l), de_size (E l))"
proof -
  obtain v where v: "files_of E ls (cname (de_name (E l))) = Some v" using assms files_of_None[of E ls] by blast
  then obtain k where k: "k \<in> set ls" "slot_used (E k)" "cname (de_name (E k)) = cname (de_name (E l))" "v = (de_first (E k), de_size (E k))"
    by (auto simp: files_of_def dest!: map_of_SomeD)
  have "k = l" using assms k(1-3) unfolding dir_inv_def apart_def by metis
  then show ?thesis using v k(4) by simp
qed

lemma files_of_Some:
  assumes "dir_inv fv n cb rs E (set ls)"
  shows "files_of E ls x = Some v \<longleftrightarrow> (\<exists>l \<in> set ls. slot_used (E l) \<and> cname (de_name (E l)) = x \<and> v = (de_first (E l), de_size (E l)))"
  using files_of_at[OF assms] files_of_None[of E ls x] by (metis option.distinct(1) option.exhaust option.inject)

text \<open>Replacing one entry replaces one file.\<close>

lemma files_of_update:
  assumes i: "dir_inv fv n cb rs E (set ls)" "dir_inv fv' n' cb' rs' (E(l := e')) (set ls)" "l \<in> set ls"
  shows "files_of (E(l := e')) ls =
    (let m = if slot_used (E l) then (files_of E ls)(cname (de_name (E l)) := None) else files_of E ls
     in if slot_used e' then m(cname (de_name e') \<mapsto> (de_first e', de_size e')) else m)" (is "_ = ?m")
proof
  fix x
  define R where "R v \<longleftrightarrow> (\<exists>k \<in> set ls. k \<noteq> l \<and> slot_used (E k) \<and> cname (de_name (E k)) = x \<and> v = (de_first (E k), de_size (E k)))" for v
  have old: "\<not> R v" if "slot_used (E l)" "x = cname (de_name (E l))" for v
    using i(1,3) that unfolding dir_inv_def apart_def R_def by blast
  have new: "\<not> R v" if "slot_used e'" "x = cname (de_name e')" for v
  proof
    assume "R v"
    then obtain k where k: "k \<in> set ls" "k \<noteq> l" "slot_used (E k)" "cname (de_name (E k)) = x" by (auto simp: R_def)
    then have "apart fv' n' ((E(l := e')) k) ((E(l := e')) l)" using i(2,3) unfolding dir_inv_def by blast
    then show False using k that by (simp add: apart_def)
  qed
  have before: "files_of E ls x = Some v \<longleftrightarrow> slot_used (E l) \<and> x = cname (de_name (E l)) \<and> v = (de_first (E l), de_size (E l)) \<or> R v" for v
    unfolding files_of_Some[OF i(1)] R_def using i(3) by auto
  have after: "files_of (E(l := e')) ls x = Some v \<longleftrightarrow> slot_used e' \<and> x = cname (de_name e') \<and> v = (de_first e', de_size e') \<or> R v" for v
  proof -
    have "(\<exists>k \<in> set ls. Q ((E(l := e')) k)) \<longleftrightarrow> Q e' \<or> (\<exists>k \<in> set ls. k \<noteq> l \<and> Q (E k))" for Q using i(3) by auto
    from this[of "\<lambda>e. slot_used e \<and> cname (de_name e) = x \<and> v = (de_first e, de_size e)"]
    show ?thesis unfolding files_of_Some[OF i(2)] R_def by auto
  qed
  have "files_of (E(l := e')) ls x = Some v \<longleftrightarrow> ?m x = Some v" for v
    unfolding after using before[of v] old[of v] new[of v] by (auto simp: Let_def)
  then show "files_of (E(l := e')) ls x = ?m x" by (metis option.exhaust)
qed


section \<open>Steps of the state\<close>

lemma fs_inv_locs: "\<lbrakk>fs_inv s rs; l \<in> set (dir_locs s rs)\<rbrakk> \<Longrightarrow> loc_sector l \<in> block_area s \<and> loc_slot l < 4"
  using chain_blocks_area[of s] by (auto simp: fs_inv_def in_dir_locs)

text \<open>Steps that change neither the table nor the directory.\<close>

lemma fs_inv_keeps:
  assumes "fs_inv s rs" "keeps W s s'" "fat_view s' = fat_view s" "W \<inter> chain_blocks s rs = {}"
  shows "fs_inv s' rs \<and> files s' rs = files s rs \<and> (\<forall>l \<in> set (dir_locs s rs). entry_at s' l = entry_at s l)"
proof -
  have e: "entry_at s' l = entry_at s l" if "l \<in> set (dir_locs s rs)" for l
    using entry_at_keeps[OF assms(2)] fs_inv_locs[OF assms(1) that] assms(4) that by (auto simp: in_dir_locs)
  then show ?thesis
    using assms(1,3) keeps_wf[OF assms(2)] cluster_bytes_keeps[OF assms(2)] dir_locs_keeps[OF assms(2)]
      dir_inv_cong[of "set (dir_locs s rs)" "entry_at s'" "entry_at s"] files_of_cong[of "dir_locs s rs" "entry_at s'" "entry_at s"]
    by (simp add: fs_inv_def files_def)
qed

text \<open>Steps that replace one entry.\<close>

lemma fs_inv_replace:
  assumes inv: "fs_inv s rs" and l: "l \<in> set (dir_locs s rs)" and k: "keeps W s s'"
    and own: "if slot_used (entry_at s l) then is_chain (fat_view s) (cluster_count (sb s)) (de_first (entry_at s l)) cs else cs = []"
    and other: "\<And>c. fat_view s c \<noteq> 0 \<Longrightarrow> c \<notin> set cs \<Longrightarrow> fat_view s' c = fat_view s c"
    and E: "\<And>k. k \<in> set (dir_locs s rs) \<Longrightarrow> entry_at s' k = ((entry_at s)(l := e')) k"
    and new: "slot_used e' \<Longrightarrow> 0 \<in> set (de_name e') \<and> is_chain (fat_view s') (cluster_count (sb s)) (de_first e') cs' \<and>
        de_size e' \<le> length cs' * cluster_bytes s \<and> (\<forall>c \<in> set cs'. c \<in> set cs \<or> fat_view s c = 0)"
    and name: "slot_used e' \<Longrightarrow> (\<forall>k \<in> set (dir_locs s rs). k \<noteq> l \<and> slot_used (entry_at s k) \<longrightarrow>
        cname (de_name (entry_at s k)) \<noteq> cname (de_name e'))"
  shows "fs_inv s' rs \<and> files s' rs =
    (let m = if slot_used (entry_at s l) then (files s rs)(cname (de_name (entry_at s l)) := None) else files s rs
     in if slot_used e' then m(cname (de_name e') \<mapsto> (de_first e', de_size e')) else m)"
proof -
  let ?ls = "dir_locs s rs" and ?n = "cluster_count (sb s)" and ?cb = "cluster_bytes s"
  have inv': "dir_inv (fat_view s) ?n ?cb rs (entry_at s) (set ?ls)" "is_chain (fat_view s) ?n (root_cluster (sb s)) rs"
    using inv by (simp_all add: fs_inv_def)
  have step: "dir_inv (fat_view s') ?n ?cb rs ((entry_at s)(l := e')) (set ?ls)" "is_chain (fat_view s') ?n (root_cluster (sb s)) rs"
    using dir_inv_replace[OF inv'(1) l inv'(2) own other new name] by simp_all
  have cong: "dir_inv (fat_view s') ?n ?cb rs (entry_at s') (set ?ls) = dir_inv (fat_view s') ?n ?cb rs ((entry_at s)(l := e')) (set ?ls)"
    by (rule dir_inv_cong) (rule E)
  have "fs_inv s' rs"
    using step cong keeps_wf[OF k] cluster_bytes_keeps[OF k] dir_locs_keeps[OF k] by (simp add: fs_inv_def)
  moreover have "files s' rs = files_of ((entry_at s)(l := e')) ?ls"
    unfolding files_def dir_locs_keeps[OF k] by (rule files_of_cong) (rule E)
  ultimately show ?thesis using files_of_update[OF inv'(1) step(1) l] unfolding files_def by simp
qed



section \<open>An example\<close>

text \<open>
  A small file system on an ATA disk: sixteen clusters of one sector, the directory in cluster 1 and a
  file \<open>a\<close> with the three bytes \<open>hi!\<close> in cluster 2.  The state of the NVMe driver and the answers of the drive are
  arbitrary.
\<close>

definition example_entry :: dir_entry where
  "example_entry = \<lparr>de_name = 97 # replicate 115 0, de_first = 2, de_size = 3, de_flags = 1\<rparr>"

definition example_super :: super_block where
  "example_super = \<lparr>sb_magic = MAGIC_VALUE, sb_version = 1, total_sectors = 40, cluster_sectors = 1, cluster_count = 16,
     fat_sectors = 1, data_start = 2, root_cluster = 1\<rparr>"

definition example_medium :: "nat \<Rightarrow> u8 list" where
  "example_medium i =
     (if i = 4096 then write_at (replicate 512 0) 0 (super_bytes example_super)
      else if i = 4097 then set_u32 (set_u32 (replicate 512 0) 1 CHAIN_END) 2 CHAIN_END
      else if i = 4098 then write_at (replicate 512 0) 0 (entry_bytes example_entry)
      else if i = 4099 then write_at (replicate 512 0) 0 [104, 105, 33]
      else replicate 512 0)"

definition example_fs :: "ata_dev \<Rightarrow> nvme \<Rightarrow> fs_state" where
  "example_fs a v =
     \<lparr>sb = example_super, mounted = True, disk_sectors = 4160, cluster_shift = 0, next_free = 1, fat_cache_sector = NO_SECTOR, fat_dirty = False,
      fat_cache = replicate 512 0, dir_buf = replicate 512 0, io_buf = replicate 512 0,
      drive = \<lparr>disk_backend = BACKEND_ATA, disk_total = 4160, ata = a\<lparr>ata_medium := example_medium\<rparr>, nvme_drv = v\<rparr>\<rparr>"

lemma zero_slot: "i < 4 \<Longrightarrow> \<not> slot_used (slot (replicate 512 0) i)"
proof -
  assume "i < 4"
  then have "u32_at (replicate 512 0) (i * 32 + 31) = 0" by (simp add: u32_at_def load_u32_def)
  then show ?thesis using slot_conv[of "replicate 512 0" i] \<open>i < 4\<close> by (simp add: slot_used_def)
qed


lemma example_wf: "fs_wf (example_fs a v)"
  by (auto simp: fs_wf_def geometry_def example_fs_def disk_wf_def ata_ok_def ata_cap_def example_medium_def entry_bytes_def example_entry_def
      super_bytes_def example_super_def)

lemma example_blk: "blk (example_fs a v) i = example_medium (4096 + i)"
  by (simp add: blk_def disk_medium_def example_fs_def)

lemma u32_at_zero: "i < 128 \<Longrightarrow> u32_at (replicate 512 0) i = 0"
  by (simp add: u32_at_def load_u32_def)

lemma example_table: "fat_view (example_fs a v) 1 = CHAIN_END" "fat_view (example_fs a v) 2 = CHAIN_END"
    "\<And>c. 2 < c \<Longrightarrow> fat_view (example_fs a v) c = 0"
proof -
  have sec: "fat_sec (example_fs a v) 1 = set_u32 (set_u32 (replicate 512 0) 1 CHAIN_END) 2 CHAIN_END"
    by (simp add: fat_sec_def example_blk) (simp add: example_fs_def example_medium_def)
  have sb: "fat_sectors (sb (example_fs a v)) = 1" by (simp add: example_fs_def example_super_def)
  show "fat_view (example_fs a v) 1 = CHAIN_END" "fat_view (example_fs a v) 2 = CHAIN_END"
    using sec sb by (simp_all add: fat_view_def u32_at_set)
  show "fat_view (example_fs a v) c = 0" if "2 < c" for c
  proof (cases "c div 128 = 0")
    case True
    then have "c < 128" by (simp add: div_eq_0_iff)
    then show ?thesis using that sec sb True by (simp add: fat_view_def u32_at_set u32_at_zero)
  next
    case False
    then show ?thesis using sb by (simp add: fat_view_def)
  qed
qed

lemma example_locs: "set (dir_locs (example_fs a v) [1]) = {l. loc_sector l = 2 \<and> loc_slot l < 4}"
  by (auto simp: in_dir_locs chain_blocks_def cluster_blocks_def cluster_sector_def example_fs_def example_super_def)

lemma example_entries:
  "l \<in> set (dir_locs (example_fs a v) [1]) \<Longrightarrow>
    if loc_slot l = 0 then entry_at (example_fs a v) l = example_entry else \<not> slot_used (entry_at (example_fs a v) l)"
proof -
  assume "l \<in> set (dir_locs (example_fs a v) [1])"
  then have l: "loc_sector l = 2" "loc_slot l < 4" unfolding example_locs by simp_all
  have "slot (write_at (replicate 512 0) (0 * 128) (entry_bytes example_entry)) (loc_slot l) =
      (if loc_slot l = 0 then example_entry else slot (replicate 512 0) (loc_slot l))"
    using l(2) by (intro slot_write) (simp_all add: example_entry_def)
  then show ?thesis using zero_slot[OF l(2)] l(1)
    by (cases "loc_slot l = 0") (simp_all add: entry_at_def example_blk example_medium_def)
qed

lemma example_inv: "fs_inv (example_fs a v) [1]"
proof -
  let ?s = "example_fs a v"
  let ?n = "cluster_count (sb ?s)"
  have n: "?n = 16" "cluster_bytes ?s = 512" "root_cluster (sb ?s) = 1" by (simp_all add: example_fs_def example_super_def cluster_bytes_def)
  have c1: "is_chain (fat_view ?s) 16 1 [1]" "is_chain (fat_view ?s) 16 2 [2]"
    using example_table(1,2)[of a v] by (simp_all add: next_of_def)
  have ok: "entry_ok (fat_view ?s) 16 512 [1] (entry_at ?s l)" if "l \<in> set (dir_locs ?s [1])" for l
  proof (cases "loc_slot l = 0")
    case True
    then have "entry_at ?s l = example_entry" using example_entries[OF that] by simp
    then show ?thesis using c1(2) by (auto simp: entry_ok_def example_entry_def intro!: exI[of _ "[2]"] simp del: is_chain.simps)
  next
    case False
    then show ?thesis using example_entries[OF that] by (simp add: entry_ok_def)
  qed
  have "apart (fat_view ?s) 16 (entry_at ?s l) (entry_at ?s l')"
    if "l \<in> set (dir_locs ?s [1])" "l' \<in> set (dir_locs ?s [1])" "l \<noteq> l'" for l l'
  proof -
    have "loc_sector l = 2" "loc_sector l' = 2" using that unfolding example_locs by simp_all
    then have "loc_slot l \<noteq> 0 \<or> loc_slot l' \<noteq> 0" using that(3) by (cases l; cases l') auto
    then show ?thesis using example_entries[OF that(1)] example_entries[OF that(2)] by (auto simp: apart_def)
  qed
  then show ?thesis using example_wf c1(1) ok n by (simp add: fs_inv_def dir_inv_def del: is_chain.simps)
qed

lemma example_files: "files (example_fs a v) [1] = [[97] \<mapsto> (2, 3)]"
proof
  fix x
  let ?s = "example_fs a v" and ?l = "\<lparr>loc_sector = 2, loc_slot = 0\<rparr>"
  have D: "dir_inv (fat_view ?s) (cluster_count (sb ?s)) (cluster_bytes ?s) [1] (entry_at ?s) (set (dir_locs ?s [1]))"
    using example_inv[of a v] by (simp add: fs_inv_def)
  have l: "?l \<in> set (dir_locs ?s [1])" unfolding example_locs by simp
  then have e: "entry_at ?s ?l = example_entry" using example_entries[OF l] by simp
  have n: "cname (de_name example_entry) = [97]" "slot_used example_entry" "de_first example_entry = 2" "de_size example_entry = 3"
    by (simp_all add: example_entry_def cname_def slot_used_def)
  show "files ?s [1] x = [[97] \<mapsto> (2, 3)] x"
  proof (cases "x = [97]")
    case True
    then show ?thesis using files_of_at[OF D l] e n by (simp add: files_def)
  next
    case False
    have "files_of (entry_at ?s) (dir_locs ?s [1]) x = None"
      unfolding files_of_None
    proof (intro ballI impI)
      fix k assume k: "k \<in> set (dir_locs ?s [1])" "slot_used (entry_at ?s k)"
      then have "entry_at ?s k = example_entry" using example_entries[OF k(1)] by (cases "loc_slot k = 0") simp_all
      then show "cname (de_name (entry_at ?s k)) \<noteq> x" using n(1) False by simp
    qed
    then show ?thesis using False by (simp add: files_def)
  qed
qed

end
