(* ===== verification/Fs_Ops.thy ===== *)
theory Fs_Ops
  imports Fs_Inv
begin

text \<open>
  The file system (\<open>kernel/fs.c\<close>), seventh part: creating, opening, removing and renaming a file keep the
  invariant and act on the map of files as their names say.
\<close>

section \<open>Shared steps\<close>

lemma checked_cases:
  assumes "checked name m s = (r, s')"
  obtains (nofs) "\<not> mounted s" "r = Inl FS_ERR_NOFS" "s' = s"
    | (name) e where "mounted s" "name_check name = Inl e" "r = Inl e" "s' = s"
    | (run) "mounted s" "name_check name = Inr ()" "m s = (r, s')"
  using assms by (auto simp: checked_def split: if_splits sum.splits)

lemma flush_inv:
  assumes "fs_inv s rs" "fat_flush s = (r, s')"
  shows "fs_inv s' rs \<and> files s' rs = files s rs \<and> (r = Inr () \<and> \<not> fat_dirty s' \<or> r = Inl FS_ERR_IO)"
proof -
  have "fs_wf s" using assms(1) by (simp add: fs_inv_def)
  note F = fat_flush_same[OF this assms(2)]
  then have "keeps {} s s'" "fat_view s' = fat_view s" using fat_same_keeps by blast+
  then show ?thesis using fs_inv_keeps[OF assms(1)] F by simp
qed

text \<open>The flush at the end of an operation changes nothing a client can see, but its error is reported.\<close>

lemma finish_spec:
  assumes "finish r1 s1 = (r, s')" "fs_inv s1 rs"
  shows "fs_inv s' rs \<and> files s' rs = files s1 rs \<and> keeps {} s1 s' \<and> fat_view s' = fat_view s1 \<and>
    (r = r1 \<or> r = Inl FS_ERR_IO \<and> (\<exists>a. r1 = Inr a)) \<and> (\<forall>a. r = Inr a \<longrightarrow> \<not> fat_dirty s')"
proof -
  obtain f s2 where f: "fat_flush s1 = (f, s2)" by fastforce
  note F = flush_inv[OF assms(2) f]
  have e: "(case r1 of Inl e \<Rightarrow> (Inl e, s2) | Inr a \<Rightarrow> (case f of Inr _ \<Rightarrow> (Inr a, s2) | Inl e \<Rightarrow> (Inl e, s2))) = (r, s')"
    using assms(1) f by (simp add: finish_def)
  then have "s' = s2" "r = r1 \<or> r = Inl FS_ERR_IO \<and> (\<exists>a. r1 = Inr a)" "\<forall>a. r = Inr a \<longrightarrow> f = Inr ()"
    using F by (cases r1; cases f; auto)+
  moreover have "keeps {} s1 s2 \<and> fat_view s2 = fat_view s1"
    using fat_flush_same[OF _ f] assms(2) fat_same_keeps by (auto simp: fs_inv_def)
  ultimately show ?thesis using F by auto
qed

lemma lookup_files:
  assumes inv: "fs_inv s rs" and nm: "0 \<in> set name" "name_check name = Inr ()" and r: "dir_lookup name s = (r, s')"
  shows "fs_inv s' rs" "files s' rs = files s rs" "keeps {} s s'" "fat_view s' = fat_view s"
    "\<And>l. l \<in> set (dir_locs s rs) \<Longrightarrow> entry_at s' l = entry_at s l"
    "case r of Inl e \<Rightarrow> e = FS_ERR_IO
     | Inr res \<Rightarrow>
         if found res then found_at res \<in> set (dir_locs s rs) \<and> entry res = entry_at s (found_at res) \<and> slot_used (entry res) \<and>
           cname (de_name (entry res)) = cname name \<and> files s rs (cname name) = Some (de_first (entry res), de_size (entry res))
         else files s rs (cname name) = None \<and> last_cluster res = last rs \<and>
           (has_free res \<longrightarrow> free_at res \<in> set (dir_locs s rs) \<and> \<not> slot_used (entry_at s (free_at res)))"
proof -
  have wf: "fs_wf s" "is_chain (fat_view s) (cluster_count (sb s)) (root_cluster (sb s)) rs"
      "dir_inv (fat_view s) (cluster_count (sb s)) (cluster_bytes s) rs (entry_at s) (set (dir_locs s rs))"
    using inv by (simp_all add: fs_inv_def)
  note L = dir_lookup_spec[OF wf(1,2) r]
  show k: "keeps {} s s'" "fat_view s' = fat_view s" using L by simp_all
  show "fs_inv s' rs" "files s' rs = files s rs" "\<And>l. l \<in> set (dir_locs s rs) \<Longrightarrow> entry_at s' l = entry_at s l"
    using fs_inv_keeps[OF inv k] by simp_all
  have short: "length (cname name) \<le> FS_NAME_MAX" using nm(2) name_check_iff[OF nm(1)] by (auto split: if_splits)
  have same: "same_name (de_name (entry_at s l)) name \<longleftrightarrow> cname (de_name (entry_at s l)) = cname name" if "l \<in> set (dir_locs s rs)" for l
    using same_name_iff[OF nm(1) short] length_de_name[OF length_blk[OF wf(1)]] fs_inv_locs[OF inv that] by (simp add: entry_at_def)
  show "case r of Inl e \<Rightarrow> e = FS_ERR_IO
     | Inr res \<Rightarrow>
         if found res then found_at res \<in> set (dir_locs s rs) \<and> entry res = entry_at s (found_at res) \<and> slot_used (entry res) \<and>
           cname (de_name (entry res)) = cname name \<and> files s rs (cname name) = Some (de_first (entry res), de_size (entry res))
         else files s rs (cname name) = None \<and> last_cluster res = last rs \<and>
           (has_free res \<longrightarrow> free_at res \<in> set (dir_locs s rs) \<and> \<not> slot_used (entry_at s (free_at res)))"
  proof (cases r)
    case (Inl e)
    then show ?thesis using L by simp
  next
    case (Inr res)
    show ?thesis
    proof (cases "found res")
      case True
      then have f: "found_at res \<in> set (dir_locs s rs)" "entry res = entry_at s (found_at res)" "slot_used (entry_at s (found_at res))"
          "same_name (de_name (entry_at s (found_at res))) name" using L Inr by auto
      then show ?thesis using files_of_at[OF wf(3) f(1,3)] same[OF f(1)] Inr True by (simp add: files_def)
    next
      case False
      then show ?thesis using L Inr same by (auto simp: files_def files_of_None)
    qed
  qed
qed

text \<open>The entry stored at a place of the directory.\<close>

lemma store_entry:
  assumes inv: "fs_inv s rs" and l: "l \<in> set (dir_locs s rs)" and st: "slot_store l e s = (r, s')"
    and e: "length (de_name e) = 116" "de_first e < 4294967296" "de_size e < 4294967296" "de_flags e < 4294967296"
  shows "keeps {loc_sector l} s s' \<and> fat_view s' = fat_view s \<and>
    (r = Inr () \<and> (\<forall>k \<in> set (dir_locs s rs). entry_at s' k = ((entry_at s)(l := e)) k) \<or>
     r = Inl FS_ERR_IO \<and> ((\<forall>k \<in> set (dir_locs s rs). entry_at s' k = entry_at s k) \<or>
       (\<forall>k \<in> set (dir_locs s rs). entry_at s' k = ((entry_at s)(l := e)) k)))"
proof -
  have "fs_wf s" using inv by (simp add: fs_inv_def)
  then show ?thesis
    using slot_store_entry[OF _ _ _ st e] fs_inv_locs[OF inv l] fs_inv_locs[OF inv] by (elim conjE disjE) auto
qed

lemma fs_inv_same:
  assumes "fs_inv s rs" "keeps W s s'" "fat_view s' = fat_view s" "\<forall>k \<in> set (dir_locs s rs). entry_at s' k = entry_at s k"
  shows "fs_inv s' rs \<and> files s' rs = files s rs"
  using assms(1,3,4) keeps_wf[OF assms(2)] cluster_bytes_keeps[OF assms(2)] dir_locs_keeps[OF assms(2)]
    dir_inv_cong[of "set (dir_locs s rs)" "entry_at s'" "entry_at s"] files_of_cong[of "dir_locs s rs" "entry_at s'" "entry_at s"]
  by (simp add: fs_inv_def files_def)



section \<open>What the operations promise\<close>

text \<open>
  The abstract directory: a map from names to the first cluster and the size.  An operation gives its
  result and the new map.
\<close>

type_synonym dir_map = "u8 list \<rightharpoonup> nat \<times> nat"

definition spec_guard :: "bool \<Rightarrow> u8 list \<Rightarrow> (dir_map \<Rightarrow> (fs_error + 'a) \<times> dir_map) \<Rightarrow> dir_map \<Rightarrow> (fs_error + 'a) \<times> dir_map" where
  "spec_guard mnt name f m = (if \<not> mnt then (Inl FS_ERR_NOFS, m) else if name_check name \<noteq> Inr () then (Inl FS_ERR_NAME, m) else f m)"

definition spec_create :: "u8 list \<Rightarrow> dir_map \<Rightarrow> (fs_error + unit) \<times> dir_map" where
  "spec_create n m = (if m n \<noteq> None then (Inl FS_ERR_EXIST, m) else (Inr (), m(n \<mapsto> (0, 0))))"

definition spec_remove :: "u8 list \<Rightarrow> dir_map \<Rightarrow> (fs_error + unit) \<times> dir_map" where
  "spec_remove n m = (if m n = None then (Inl FS_ERR_NOENT, m) else (Inr (), m(n := None)))"

definition spec_rename :: "u8 list \<Rightarrow> u8 list \<Rightarrow> dir_map \<Rightarrow> (fs_error + unit) \<times> dir_map" where
  "spec_rename src dst m =
     (if m dst \<noteq> None then (Inl FS_ERR_EXIST, m)
      else case m src of None \<Rightarrow> (Inl FS_ERR_NOENT, m) | Some v \<Rightarrow> (Inr (), m(src := None, dst \<mapsto> v)))"

definition spec_open :: "u8 list \<Rightarrow> bool \<Rightarrow> dir_map \<Rightarrow> (fs_error + nat \<times> nat) \<times> dir_map" where
  "spec_open n create m =
     (case m n of Some v \<Rightarrow> (Inr v, m)
      | None \<Rightarrow> if create then (Inr (0, 0), m(n \<mapsto> (0, 0))) else (Inl FS_ERR_NOENT, m))"

text \<open>
  The code implements an abstract operation up to faults: it does what is promised, or it reports a
  fault of the disk with the map unchanged or changed as promised, or (if it allocates) that there is no
  space with the map unchanged.
\<close>

definition implements :: "bool \<Rightarrow> ((fs_error + 'a) \<times> dir_map) \<Rightarrow> dir_map \<Rightarrow> (fs_error + 'a) \<Rightarrow> dir_map \<Rightarrow> bool" where
  "implements allocates promised m r m' \<longleftrightarrow> r = fst promised \<and> m' = snd promised \<or>
     r = Inl FS_ERR_IO \<and> (m' = m \<or> m' = snd promised) \<or> allocates \<and> r = Inl FS_ERR_NOSPC \<and> m' = m"

lemma name_check_error: "0 \<in> set name \<Longrightarrow> name_check name = Inl e \<Longrightarrow> e = FS_ERR_NAME"
  using name_check_iff[of name] by (auto split: if_splits)

lemma implements_checked:
  assumes "checked name f s = (r, s')" "0 \<in> set name"
    and "\<lbrakk>mounted s; name_check name = Inr (); f s = (r, s')\<rbrakk> \<Longrightarrow> fs_inv s' rs' \<and> implements a (g m) m r m'"
    and "s' = s \<Longrightarrow> fs_inv s' rs' \<and> m' = m"
  shows "fs_inv s' rs' \<and> implements a (spec_guard (mounted s) name g m) m r m'"
  using assms(1)
proof (cases rule: checked_cases)
  case nofs
  then show ?thesis using assms(4) by (simp add: implements_def spec_guard_def)
next
  case (name e)
  then show ?thesis using assms(4) name_check_error[OF assms(2) name(2)] by (simp add: implements_def spec_guard_def)
next
  case run
  then show ?thesis using assms(3) by (simp add: spec_guard_def)
qed

lemma implements_finishing:
  assumes "implements a promised m r1 m1" "r = r1 \<or> r = Inl FS_ERR_IO \<and> (\<exists>a. r1 = Inr a)" "m' = m1"
  shows "implements a promised m r m'"
  using assms by (auto simp: implements_def)


section \<open>Removing a file\<close>

lemma empty_entry_simps [simp]: "\<not> slot_used empty_entry" "length (de_name empty_entry) = 116"
    "de_first empty_entry = 0" "de_size empty_entry = 0" "de_flags empty_entry = 0"
  by (simp_all add: empty_entry_def slot_used_def)

lemma remove_impl_spec:
  assumes inv: "fs_inv s rs" and nm: "0 \<in> set name" and r: "remove_impl name s = (r, s')"
  shows "fs_inv s' rs \<and> implements False (spec_guard (mounted s) name (spec_remove (cname name)) (files s rs)) (files s rs) r (files s' rs)"
  using r unfolding remove_impl_def
proof (rule implements_checked[OF _ nm])
  let ?n = "cname name" and ?F = "files s rs"
  assume ok: "name_check name = Inr ()" and run: "andThen (dir_lookup name) (\<lambda>res.
     if \<not> found res then fail FS_ERR_NOENT
     else andThen (slot_store (found_at res) empty_entry) (\<lambda>_. chain_free (de_first (entry res)))) s = (r, s')"
  from run show "fs_inv s' rs \<and> implements False (spec_remove ?n ?F) ?F r (files s' rs)"
  proof (cases rule: andThen_cases)
    case (err e)
    then show ?thesis using lookup_files[OF inv nm ok err(1)] by (simp add: implements_def)
  next
    case L: (ok res s1)
    note F = lookup_files[OF inv nm ok L(1)]
    show ?thesis
    proof (cases "found res")
      case False
      then show ?thesis using L(2) F by (simp add: fail_def implements_def spec_remove_def)
    next
      case True
      define l where "l = found_at res"
      have f: "l \<in> set (dir_locs s1 rs)" "entry res = entry_at s1 l" "slot_used (entry_at s1 l)" "cname (de_name (entry_at s1 l)) = ?n" "?F ?n \<noteq> None"
        using F(5,6) True dir_locs_keeps[OF F(3)] by (auto simp: l_def)
      have spec: "spec_remove ?n ?F = (Inr (), ?F(?n := None))" using f(5) by (simp add: spec_remove_def)
      have D: "dir_inv (fat_view s1) (cluster_count (sb s1)) (cluster_bytes s1) rs (entry_at s1) (set (dir_locs s1 rs))" using F(1) by (simp add: fs_inv_def)
      obtain cs where cs: "is_chain (fat_view s1) (cluster_count (sb s1)) (de_first (entry_at s1 l)) cs"
        by (rule entry_chain[OF D f(1,3)])
      have gone: "fs_inv s2 rs \<and> files s2 rs = ?F(?n := None)"
        if "keeps W s1 s2" "\<forall>k \<in> set (dir_locs s1 rs). entry_at s2 k = ((entry_at s1)(l := empty_entry)) k"
          "\<forall>c. c \<notin> set cs \<longrightarrow> fat_view s2 c = fat_view s1 c" for W s2
        using fs_inv_replace[OF F(1) f(1) that(1), of cs empty_entry] that cs f F(2) by simp
      have "andThen (slot_store l empty_entry) (\<lambda>_. chain_free (de_first (entry_at s1 l))) s1 = (r, s')"
        using L(2) True f(2) by (simp add: l_def)
      then show ?thesis
      proof (cases rule: andThen_cases)
        case (err e)
        note S = store_entry[OF F(1) f(1) err(1)]
        then show ?thesis using fs_inv_same[OF F(1), of "{loc_sector l}" s'] gone[of "{loc_sector l}" s'] F(2) spec err(2)
          by (auto simp: implements_def)
      next
        case (ok u s2)
        have S: "keeps {loc_sector l} s1 s2" "fat_view s2 = fat_view s1" "\<forall>k \<in> set (dir_locs s1 rs). entry_at s2 k = ((entry_at s1)(l := empty_entry)) k"
          using store_entry[OF F(1) f(1) ok(1)] by auto
        have w2: "fs_wf s2" "is_chain (fat_view s2) (cluster_count (sb s2)) (de_first (entry_at s1 l)) cs"
          using keeps_wf[OF S(1)] S(2) cs by simp_all
        note C = chain_free_spec[OF w2 ok(2)]
        then have k2: "keeps {} s2 s'" using fat_step_keeps by blast
        have "fat_view s' c = fat_view s1 c" if "c \<notin> set cs" for c
          using C that S(2) by (auto simp: released_def dest: in_set_takeD)
        moreover have "\<forall>k \<in> set (dir_locs s1 rs). entry_at s' k = ((entry_at s1)(l := empty_entry)) k"
          using S(3) entry_at_keeps[OF k2] fs_inv_locs[OF F(1)] block_area_keeps[OF S(1)] by auto
        ultimately have "fs_inv s' rs \<and> files s' rs = ?F(?n := None)"
          using gone[of "{loc_sector l}" s'] keeps_trans[OF S(1) keeps_mono[OF k2]] by blast
        then show ?thesis using C spec by (auto simp: implements_def)
      qed
    qed
  qed
qed (use inv in auto)



section \<open>Renaming a file\<close>

lemma name_field:
  assumes "0 \<in> set name" "name_check name = Inr ()"
  shows "length (name_field name) = 116" "cname (name_field name) = cname name" "0 \<in> set (name_field name)"
proof -
  have short: "length (cname name) \<le> FS_NAME_MAX" using assms name_check_iff[OF assms(1)] by (auto split: if_splits)
  have f: "name_field name = cname name @ 0 # replicate (115 - length (cname name)) 0"
    using short by (simp add: name_field_def cname_def Let_def Suc_diff_le replicate_Suc[symmetric] del: replicate_Suc)
  have "c \<noteq> 0" if "c \<in> set (cname name)" for c using that unfolding cname_def by (auto dest: set_takeWhileD)
  then show "cname (name_field name) = cname name" unfolding f by (simp add: cname_def[of "_ @ _"] takeWhile_append2)
  show "length (name_field name) = 116" "0 \<in> set (name_field name)" using short f by simp_all
qed

lemma entry_at_small: "de_first (entry_at s l) < 4294967296" "de_size (entry_at s l) < 4294967296" "de_flags (entry_at s l) < 4294967296"
  by (simp_all add: entry_at_def slot_def entry_of_def)

lemma rename_run:
  assumes inv: "fs_inv s rs" and nm: "0 \<in> set src" "0 \<in> set dst" and oks: "name_check src = Inr ()" and okd: "name_check dst = Inr ()"
    and run: "andThen (dir_lookup dst) (\<lambda>target.
     if found target then fail FS_ERR_EXIST
     else andThen (dir_lookup src) (\<lambda>source.
       if \<not> found source then fail FS_ERR_NOENT
       else slot_store (found_at source) ((entry source)\<lparr>de_name := name_field dst\<rparr>))) s = (r, s')"
  shows "fs_inv s' rs \<and> implements False (spec_rename (cname src) (cname dst) (files s rs)) (files s rs) r (files s' rs)"
proof -
  let ?s = "cname src" and ?d = "cname dst" and ?F = "files s rs"
  from run show "fs_inv s' rs \<and> implements False (spec_rename ?s ?d ?F) ?F r (files s' rs)"
  proof (cases rule: andThen_cases)
    case (err e)
    then show ?thesis using lookup_files[OF inv nm(2) okd err(1)] by (simp add: implements_def)
  next
    case L: (ok target s1)
    note T = lookup_files[OF inv nm(2) okd L(1)]
    show ?thesis
    proof (cases "found target")
      case True
      then show ?thesis using L(2) T by (auto simp: fail_def implements_def spec_rename_def)
    next
      case False
      then have free: "?F ?d = None" using T(6) by simp
      have "andThen (dir_lookup src) (\<lambda>source. if \<not> found source then fail FS_ERR_NOENT
          else slot_store (found_at source) ((entry source)\<lparr>de_name := name_field dst\<rparr>)) s1 = (r, s')" using L(2) False by simp
      then show ?thesis
      proof (cases rule: andThen_cases)
        case (err e)
        then show ?thesis using lookup_files[OF T(1) nm(1) oks err(1)] T(2) by (simp add: implements_def)
      next
        case M: (ok source s2)
        note S = lookup_files[OF T(1) nm(1) oks M(1)]
        show ?thesis
        proof (cases "found source")
          case False
          then show ?thesis using M(2) S T(2) free by (simp add: fail_def implements_def spec_rename_def)
        next
          case True
          define l e where "l = found_at source" and "e = (entry_at s2 l)\<lparr>de_name := name_field dst\<rparr>"
          have f: "l \<in> set (dir_locs s2 rs)" "entry source = entry_at s2 l" "slot_used (entry_at s2 l)" "cname (de_name (entry_at s2 l)) = ?s"
              "?F ?s = Some (de_first (entry_at s2 l), de_size (entry_at s2 l))"
            using S(5,6) T(2) True dir_locs_keeps[OF S(3)] by (auto simp: l_def)
          have spec: "spec_rename ?s ?d ?F = (Inr (), ?F(?s := None, ?d \<mapsto> (de_first e, de_size e)))" using f(5) free by (simp add: spec_rename_def e_def)
          have D: "dir_inv (fat_view s2) (cluster_count (sb s2)) (cluster_bytes s2) rs (entry_at s2) (set (dir_locs s2 rs))" using S(1) by (simp add: fs_inv_def)
          obtain cs where cs: "is_chain (fat_view s2) (cluster_count (sb s2)) (de_first (entry_at s2 l)) cs" "de_size (entry_at s2 l) \<le> length cs * cluster_bytes s2"
            by (rule entry_chain[OF D f(1,3)])
          have nf: "0 \<in> set (de_name e)" "cname (de_name e) = ?d" "length (de_name e) = 116" using name_field[OF nm(2) okd] by (simp_all add: e_def)
          have "files s2 rs ?d = None" using free T(2) S(2) by simp
          then have fresh: "\<forall>k \<in> set (dir_locs s2 rs). k \<noteq> l \<and> slot_used (entry_at s2 k) \<longrightarrow> cname (de_name (entry_at s2 k)) \<noteq> cname (de_name e)"
            unfolding nf(2) by (simp add: files_def files_of_None)
          have used: "slot_used e" using f(3) by (simp add: e_def slot_used_def)
          have moved: "fs_inv s' rs \<and> files s' rs = ?F(?s := None, ?d \<mapsto> (de_first e, de_size e))"
            if "keeps {loc_sector l} s2 s'" "fat_view s' = fat_view s2" "\<forall>k \<in> set (dir_locs s2 rs). entry_at s' k = ((entry_at s2)(l := e)) k"
            using fs_inv_replace[OF S(1) f(1) that(1), of cs e cs] that cs f(3,4) fresh nf used S(2) T(2) by (simp add: e_def)
          have "slot_store l e s2 = (r, s')" using M(2) True f(2) by (simp add: l_def e_def)
          then show ?thesis
            using store_entry[OF S(1) f(1) _ nf(3)] entry_at_small[of s2 l] fs_inv_same[OF S(1), of "{loc_sector l}" s'] moved spec S(2) T(2)
            by (auto simp: implements_def e_def)
        qed
      qed
    qed
  qed
qed

lemma fs_rename_spec:
  assumes inv: "fs_inv s rs" and nm: "0 \<in> set src" "0 \<in> set dst" and r: "fs_rename src dst s = (r, s')"
  shows "fs_inv s' rs \<and> implements False
    (spec_guard (mounted s) src (spec_guard (mounted s) dst (spec_rename (cname src) (cname dst))) (files s rs)) (files s rs) r (files s' rs)"
  using r unfolding fs_rename_def
proof (rule implements_checked[OF _ nm(1)])
  assume oks: "name_check src = Inr ()" and run: "checked dst (andThen (dir_lookup dst) (\<lambda>target.
     if found target then fail FS_ERR_EXIST
     else andThen (dir_lookup src) (\<lambda>source.
       if \<not> found source then fail FS_ERR_NOENT
       else slot_store (found_at source) ((entry source)\<lparr>de_name := name_field dst\<rparr>)))) s = (r, s')"
  from run show "fs_inv s' rs \<and> implements False (spec_guard (mounted s) dst (spec_rename (cname src) (cname dst)) (files s rs)) (files s rs) r (files s' rs)"
    by (rule implements_checked[OF _ nm(2)]) (use inv rename_run[OF inv nm oks] in auto)
qed (use inv in auto)


section \<open>Creating and opening a file\<close>

lemma fs_inv_table:
  assumes "fs_inv s rs" and k: "keeps W s s'" "W \<inter> chain_blocks s rs = {}"
    and fv: "\<And>c. fat_view s c \<noteq> 0 \<Longrightarrow> fat_view s' c = fat_view s c"
  shows "fs_inv s' rs \<and> files s' rs = files s rs \<and> (\<forall>l \<in> set (dir_locs s rs). entry_at s' l = entry_at s l)"
proof -
  have inv: "is_chain (fat_view s) (cluster_count (sb s)) (root_cluster (sb s)) rs"
      "dir_inv (fat_view s) (cluster_count (sb s)) (cluster_bytes s) rs (entry_at s) (set (dir_locs s rs))"
    using assms(1) by (simp_all add: fs_inv_def)
  have e: "entry_at s' l = entry_at s l" if "l \<in> set (dir_locs s rs)" for l
    using entry_at_keeps[OF k(1)] fs_inv_locs[OF assms(1) that] k(2) that by (auto simp: in_dir_locs)
  have "dir_inv (fat_view s') (cluster_count (sb s)) (cluster_bytes s) rs (entry_at s') (set (dir_locs s rs))"
    by (rule dir_inv_extend[OF inv(2,1)]) (use fv e in auto)
  moreover have "is_chain (fat_view s') (cluster_count (sb s)) (root_cluster (sb s)) rs"
    using is_chain_cong[of rs "fat_view s'" "fat_view s"] inv(1) is_chain_range[OF inv(1)] fv by simp
  ultimately show ?thesis
    using e keeps_wf[OF k(1)] cluster_bytes_keeps[OF k(1)] dir_locs_keeps[OF k(1)] files_of_cong[of "dir_locs s rs" "entry_at s'" "entry_at s"]
    by (simp add: fs_inv_def files_def)
qed

lemma dir_inv_grown:
  assumes inv: "fs_inv s rs" and k: "keeps W s s'"
    and x: "1 \<le> x" "x \<le> cluster_count (sb s)" "fat_view s x = 0" "fat_view s' = (fat_view s)(x := CHAIN_END, last rs := x)"
    and old: "\<And>l. l \<in> set (dir_locs s rs) \<Longrightarrow> entry_at s' l = entry_at s l"
    and new: "\<And>l. l \<in> set (cluster_locs s x) \<Longrightarrow> \<not> slot_used (entry_at s' l)"
  shows "fs_inv s' (rs @ [x]) \<and> files s' (rs @ [x]) = files s rs"
proof -
  let ?n = "cluster_count (sb s)" and ?ls = "dir_locs s (rs @ [x])"
  have i: "fs_wf s" "is_chain (fat_view s) ?n (root_cluster (sb s)) rs"
      "dir_inv (fat_view s) ?n (cluster_bytes s) rs (entry_at s) (set (dir_locs s rs))"
    using inv by (simp_all add: fs_inv_def)
  have "rs \<noteq> []" using i(1,2) by (auto simp: fs_wf_def geometry_def)
  then have last: "length rs - 1 + 1 = length rs" "rs ! (length rs - 1) = last rs" by (simp_all add: last_conv_nth Suc_leI)
  have ch: "is_chain (fat_view s') ?n (root_cluster (sb s)) (rs @ [x])"
    using chain_extended[OF i(2) last(1) x(3,1,2) cluster_count_small[OF i(1)]] x(4) last(2) by simp
  have ls: "?ls = dir_locs s rs @ cluster_locs s x" by (simp add: dir_locs_def)
  have fv: "fat_view s' c = fat_view s c" if "fat_view s c \<noteq> 0" "c \<notin> set rs" for c
    using that x(3,4) last_in_set[OF \<open>rs \<noteq> []\<close>] by auto
  have "dir_inv (fat_view s') ?n (cluster_bytes s) (rs @ [x]) (entry_at s') (set ?ls)"
    by (rule dir_inv_extend[OF i(3,2) fv]) (use x(3) old new ls in auto)
  then have inv': "fs_inv s' (rs @ [x])"
    using ch keeps_wf[OF k] cluster_bytes_keeps[OF k] dir_locs_keeps[OF k] by (simp add: fs_inv_def)
  have "filter (\<lambda>l. slot_used (entry_at s' l)) (cluster_locs s x) = []" using new by simp
  then have "files_of (entry_at s') ?ls = files_of (entry_at s') (dir_locs s rs)" unfolding files_of_def ls by simp
  also have "\<dots> = files_of (entry_at s) (dir_locs s rs)" by (rule files_of_cong) (rule old)
  finally show ?thesis using inv' dir_locs_keeps[OF k] by (simp add: files_def)
qed

lemma dir_grow_spec:
  assumes inv: "fs_inv s rs" and r: "dir_grow (last rs) s = (r, s')"
  shows "\<exists>rs'. fs_inv s' rs' \<and> files s' rs' = files s rs \<and>
    (case r of Inr l \<Rightarrow> l \<in> set (dir_locs s' rs') \<and> \<not> slot_used (entry_at s' l) | Inl e \<Rightarrow> e = FS_ERR_IO \<or> e = FS_ERR_NOSPC)"
proof -
  have wf: "fs_wf s" and rs: "is_chain (fat_view s) (cluster_count (sb s)) (root_cluster (sb s)) rs" using inv by (simp_all add: fs_inv_def)
  have ne: "rs \<noteq> []" using rs wf by (auto simp: fs_wf_def geometry_def)
  have "andThen cluster_alloc (\<lambda>cluster s.
       case andThen (cluster_zero cluster) (\<lambda>_. fat_set (last rs) cluster) s of
         (Inl e, s) \<Rightarrow> (Inl e, snd (cluster_free cluster s))
       | (Inr _, s) \<Rightarrow> (Inr \<lparr>loc_sector = cluster_sector s cluster, loc_slot = 0\<rparr>, s)) s = (r, s')"
    using r by (simp add: dir_grow_def)
  then show ?thesis
  proof (cases rule: andThen_cases)
    case (err e)
    have "fat_step s s'" "fat_view s' = fat_view s" "e = FS_ERR_IO \<or> e = FS_ERR_NOSPC" using cluster_alloc_spec[OF wf err(1)] by auto
    then show ?thesis using fs_inv_keeps[OF inv fat_step_keeps, of s' "{}"] err(2) by auto
  next
    case (ok x s1)
    have A: "fat_step s s1" "1 \<le> x" "x \<le> cluster_count (sb s)" "fat_view s x = 0" "fat_view s1 = (fat_view s)(x := CHAIN_END)"
      using cluster_alloc_spec[OF wf ok(1)] by auto
    let ?W = "cluster_blocks s x"
    have x: "x \<notin> set rs" using is_chain_range[OF rs, of x] A(4) by auto
    have dis: "?W \<inter> chain_blocks s rs = {}"
      using x A(2) is_chain_range[OF rs] cluster_blocks_disjoint[of x _ s] by (fastforce simp: chain_blocks_def)
    have k1: "keeps W s s1" for W by (rule fat_step_keeps[OF A(1)])
    have w1: "fs_wf s1" "sb s1 = sb s" "cluster_blocks s1 = cluster_blocks s" using keeps_wf[OF k1] cluster_blocks_keeps[OF k1] by simp_all
    obtain r2 s2 where z: "cluster_zero x s1 = (r2, s2)" by fastforce
    have Z: "keeps ?W s s2" "fat_view s2 = fat_view s1" "r2 = Inr () \<or> r2 = Inl FS_ERR_IO"
        "r2 = Inr () \<longrightarrow> (\<forall>j \<in> ?W. blk s2 j = replicate 512 0)"
      using cluster_zero_spec[OF w1(1) A(2) _ z] A(3) w1 keeps_trans[OF k1] by auto
    have w2: "fs_wf s2" "sb s2 = sb s" using keeps_wf[OF Z(1)] by simp_all
    obtain r3 s3 where f: "fat_set (last rs) x s2 = (r3, s3)" by fastforce
    have lr: "1 \<le> last rs" "last rs \<le> cluster_count (sb s)" using is_chain_range[OF rs last_in_set[OF ne]] by simp_all
    have xm: "x mod 4294967296 = x" using A(3) cluster_count_small[OF wf] by simp
    have S: "fat_step s2 s3" "r3 = Inr () \<and> fat_view s3 = (fat_view s2)(last rs := x) \<or> r3 = Inl FS_ERR_IO \<and> fat_view s3 = fat_view s2"
      using fat_set_spec[OF w2(1) f] lr w2(2) xm by (auto simp: fat_step_def)
    have given_back: ?thesis if b: "keeps ?W s s4" "fat_view s4 = (fat_view s)(x := CHAIN_END)" "s' = snd (cluster_free x s4)" "r = Inl FS_ERR_IO" for s4
    proof -
      obtain r5 where fr: "cluster_free x s4 = (r5, s')" using b(3) by (metis surjective_pairing)
      have "fs_wf s4" "sb s4 = sb s" using keeps_wf[OF b(1)] by simp_all
      then have F: "fat_step s4 s'" "fat_view s' = (fat_view s4)(x := 0) \<or> fat_view s' = fat_view s4"
        using cluster_free_spec[OF _ fr] A(2,3) by auto
      have "keeps ?W s s'" using keeps_trans[OF b(1) fat_step_keeps[OF F(1)]] .
      moreover have "fat_view s' c = fat_view s c" if c: "fat_view s c \<noteq> 0" for c using F(2) c b(2) A(4) by auto
      ultimately show ?thesis using fs_inv_table[OF inv _ dis] b(4) by auto
    qed
    show ?thesis
    proof (cases "r2 = Inl FS_ERR_IO")
      case True
      then have "r = Inl FS_ERR_IO" "s' = snd (cluster_free x s2)" using ok(2) z by (simp_all add: andThen_def)
      then show ?thesis using given_back[OF Z(1)] Z(2) A(5) by simp
    next
      case r2: False
      then have zero: "\<forall>j \<in> ?W. blk s2 j = replicate 512 0" "r2 = Inr ()" using Z(3,4) by auto
      have k3: "keeps ?W s s3" using keeps_trans[OF Z(1) fat_step_keeps[OF S(1)]] .
      show ?thesis
      proof (cases "r3 = Inl FS_ERR_IO")
        case True
        then have "r = Inl FS_ERR_IO" "s' = snd (cluster_free x s3)" "fat_view s3 = fat_view s2" using ok(2) z f zero(2) S(2) by (auto simp: andThen_def)
        then show ?thesis using given_back[OF k3] Z(2) A(5) by simp
      next
        case False
        then have e: "r = Inr \<lparr>loc_sector = cluster_sector s x, loc_slot = 0\<rparr>" "s' = s3" "fat_view s' = (fat_view s)(x := CHAIN_END, last rs := x)"
          using ok(2) z f zero(2) S(2) Z(2) A(5) cluster_blocks_keeps[OF k3] by (auto simp: andThen_def)
        have old: "entry_at s' l = entry_at s l" if "l \<in> set (dir_locs s rs)" for l
          using entry_at_keeps[OF k3] fs_inv_locs[OF inv that] dis that e(2) by (auto simp: in_dir_locs)
        have new: "\<not> slot_used (entry_at s' l)" if "l \<in> set (cluster_locs s x)" for l
        proof -
          have l: "loc_sector l \<in> ?W" "loc_slot l < 4" using that by (simp_all add: in_cluster_locs)
          have "loc_sector l \<in> block_area s2" using l(1) cluster_blocks_area(1)[OF wf A(2,3)] block_area_keeps[OF Z(1)] by auto
          then have "blk s' (loc_sector l) = replicate 512 0" using zero(1) l(1) S(1) e(2) by (auto simp: fat_step_def fat_frame_def block_area_def)
          then show ?thesis using zero_slot[OF l(2)] by (simp add: entry_at_def)
        qed
        let ?l = "\<lparr>loc_sector = cluster_sector s x, loc_slot = 0\<rparr>"
        have "?l \<in> set (cluster_locs s x)" by (simp add: in_cluster_locs cluster_blocks_def)
        moreover have "set (cluster_locs s x) \<subseteq> set (dir_locs s' (rs @ [x]))" using dir_locs_keeps[OF k3] e(2) by (auto simp: dir_locs_def)
        ultimately show ?thesis
          using dir_inv_grown[OF inv k3 A(2-4)] e old new by (intro exI[of _ "rs @ [x]"]) auto
      qed
    qed
  qed
qed

text \<open>A new entry, in a free place or in a new cluster of the directory.\<close>

lemma entry_create_spec:
  assumes inv: "fs_inv s rs" and nm: "0 \<in> set name" "name_check name = Inr ()" and free: "files s rs (cname name) = None"
    and res: "last_cluster res = last rs" "has_free res \<longrightarrow> free_at res \<in> set (dir_locs s rs) \<and> \<not> slot_used (entry_at s (free_at res))"
    and r: "entry_create name res s = (r, s')"
  shows "\<exists>rs'. fs_inv s' rs' \<and>
    (case r of
       Inr res' \<Rightarrow> files s' rs' = (files s rs)(cname name \<mapsto> (0, 0)) \<and> found_at res' \<in> set (dir_locs s' rs') \<and> entry res' = entry_at s' (found_at res') \<and>
         slot_used (entry res') \<and> de_first (entry res') = 0 \<and> de_size (entry res') = 0 \<and> cname (de_name (entry res')) = cname name
     | Inl e \<Rightarrow> e = FS_ERR_NOSPC \<and> files s' rs' = files s rs \<or>
         e = FS_ERR_IO \<and> (files s' rs' = files s rs \<or> files s' rs' = (files s rs)(cname name \<mapsto> (0, 0))))"
proof -
  let ?F = "files s rs" and ?n = "cname name"
  define e where "e = empty_entry\<lparr>de_name := name_field name, de_flags := 1\<rparr>"
  have nf: "0 \<in> set (de_name e)" "cname (de_name e) = ?n" "length (de_name e) = 116" "slot_used e" "de_first e = 0" "de_size e = 0" "de_flags e = 1"
    using name_field[OF nm] by (simp_all add: e_def slot_used_def)
  have "andThen (if has_free res then (\<lambda>s. (Inr (free_at res), s)) else dir_grow (last_cluster res)) (\<lambda>target.
       andThen (slot_store target e) (\<lambda>_ s. (Inr (res\<lparr>entry := e, found := True, found_at := target\<rparr>), s))) s = (r, s')"
    using r unfolding entry_create_def e_def Let_def .
  then show ?thesis
  proof (cases rule: andThen_cases)
    case (err x)
    then have "dir_grow (last rs) s = (Inl x, s')" using res(1) by (auto split: if_splits)
    then show ?thesis using dir_grow_spec[OF inv] err(2) by fastforce
  next
    case (ok l s1)
    have "\<exists>rs'. fs_inv s1 rs' \<and> files s1 rs' = ?F \<and> l \<in> set (dir_locs s1 rs') \<and> \<not> slot_used (entry_at s1 l)"
      using ok(1) res inv dir_grow_spec[OF inv, of "Inr l" s1] by (auto split: if_splits)
    then obtain rs' where G: "fs_inv s1 rs'" "files s1 rs' = ?F" "l \<in> set (dir_locs s1 rs')" "\<not> slot_used (entry_at s1 l)" by blast
    have fresh: "\<forall>k \<in> set (dir_locs s1 rs'). k \<noteq> l \<and> slot_used (entry_at s1 k) \<longrightarrow> cname (de_name (entry_at s1 k)) \<noteq> cname (de_name e)"
    proof -
      have "files s1 rs' ?n = None" using free G(2) by simp
      then show ?thesis unfolding nf(2) by (simp add: files_def files_of_None)
    qed
    have added: "fs_inv s2 rs' \<and> files s2 rs' = ?F(?n \<mapsto> (0, 0))"
      if "keeps {loc_sector l} s1 s2" "fat_view s2 = fat_view s1" "\<forall>k \<in> set (dir_locs s1 rs'). entry_at s2 k = ((entry_at s1)(l := e)) k" for s2
      using fs_inv_replace[OF G(1,3) that(1), of "[]" e "[]"] that nf fresh G(2,4) by simp
    have small: "de_first e < 4294967296" "de_size e < 4294967296" "de_flags e < 4294967296" using nf by simp_all
    from ok(2) show ?thesis
    proof (cases rule: andThen_cases)
      case (err x)
      show ?thesis
        using store_entry[OF G(1,3) err(1) nf(3) small] fs_inv_same[OF G(1), of "{loc_sector l}" s'] added[of s'] G(2) err(2) by (intro exI[of _ rs']) auto
    next
      case (ok u s2)
      then have e2: "r = Inr (res\<lparr>entry := e, found := True, found_at := l\<rparr>)" "s' = s2" by auto
      have S: "keeps {loc_sector l} s1 s2" "fat_view s2 = fat_view s1" "\<forall>k \<in> set (dir_locs s1 rs'). entry_at s2 k = ((entry_at s1)(l := e)) k"
        using store_entry[OF G(1,3) ok(1) nf(3) small] by auto
      show ?thesis
        using added[OF S] e2 S(3) G(3) dir_locs_keeps[OF S(1)] nf by (intro exI[of _ rs']) auto
    qed
  qed
qed


lemma create_impl_spec:
  assumes inv: "fs_inv s rs" and nm: "0 \<in> set name" and r: "create_impl name s = (r, s')"
  shows "\<exists>rs'. fs_inv s' rs' \<and> implements True (spec_guard (mounted s) name (spec_create (cname name)) (files s rs)) (files s rs) r (files s' rs')"
  using r unfolding create_impl_def
proof (cases rule: checked_cases)
  case nofs
  then show ?thesis using inv by (auto simp: implements_def spec_guard_def)
next
  case (name e)
  then show ?thesis using inv name_check_error[OF nm name(2)] by (auto simp: implements_def spec_guard_def)
next
  case run
  have g: "spec_guard (mounted s) name (spec_create (cname name)) (files s rs) = spec_create (cname name) (files s rs)"
    using run(1,2) by (simp add: spec_guard_def)
  from run(3) have "\<exists>rs'. fs_inv s' rs' \<and> implements True (spec_create (cname name) (files s rs)) (files s rs) r (files s' rs')"
  proof (cases rule: andThen_cases)
    case (err e)
    then show ?thesis using lookup_files[OF inv nm run(2) err(1)] by (auto simp: implements_def)
  next
    case L: (ok res s1)
    note F = lookup_files[OF inv nm run(2) L(1)]
    show ?thesis
    proof (cases "found res")
      case True
      then show ?thesis using L(2) F by (auto simp: fail_def implements_def spec_create_def)
    next
      case False
      then have no: "files s rs (cname name) = None" "files s1 rs (cname name) = None" using F(2,6) by simp_all
      have place: "last_cluster res = last rs" "has_free res \<longrightarrow> free_at res \<in> set (dir_locs s1 rs) \<and> \<not> slot_used (entry_at s1 (free_at res))"
        using F(5,6) False dir_locs_keeps[OF F(3)] by auto
      obtain r2 s2 where c: "entry_create name res s1 = (r2, s2)" by fastforce
      have e: "r = (case r2 of Inl e \<Rightarrow> Inl e | Inr _ \<Rightarrow> Inr ())" "s' = s2" using L(2) False c by (cases r2; simp add: andThen_def)+
      have "spec_create (cname name) (files s rs) = (Inr (), (files s rs)(cname name \<mapsto> (0, 0)))" using no by (simp add: spec_create_def)
      then show ?thesis
        using entry_create_spec[OF F(1) nm run(2) no(2) place c] e F(2) by (cases r2) (auto simp: implements_def)
    qed
  qed
  then show ?thesis unfolding g .
qed

text \<open>An open file: the place of its entry, which it agrees with, and the chain of its clusters.\<close>

definition handle_loc :: "fs_file \<Rightarrow> location" where
  "handle_loc file = \<lparr>loc_sector = dir_sector file, loc_slot = dir_slot file\<rparr>"

definition handle_ok :: "fs_state \<Rightarrow> nat list \<Rightarrow> fs_file \<Rightarrow> bool" where
  "handle_ok s rs file \<longleftrightarrow> handle_loc file \<in> set (dir_locs s rs) \<and> slot_used (entry_at s (handle_loc file)) \<and>
     de_first (entry_at s (handle_loc file)) = f_first file \<and> de_size (entry_at s (handle_loc file)) = f_size file \<and>
     (\<exists>cs. file_ok s file cs)"

definition file_of :: "lookup_result \<Rightarrow> fs_file" where
  "file_of res = \<lparr>dir_sector = loc_sector (found_at res), dir_slot = loc_slot (found_at res), f_first = de_first (entry res),
     f_size = de_size (entry res), cursor_index = 0, cursor_cluster = de_first (entry res)\<rparr>"

definition file_info :: "(fs_error + fs_file) \<Rightarrow> fs_error + nat \<times> nat" where
  "file_info r = map_sum id (\<lambda>file. (f_first file, f_size file)) r"

lemma file_of_handle:
  assumes inv: "fs_inv s rs" and res: "found_at res \<in> set (dir_locs s rs)" "entry res = entry_at s (found_at res)" "slot_used (entry res)"
  shows "handle_ok s rs (file_of res)"
proof -
  have D: "dir_inv (fat_view s) (cluster_count (sb s)) (cluster_bytes s) rs (entry_at s) (set (dir_locs s rs))" using inv by (simp add: fs_inv_def)
  have l: "handle_loc (file_of res) = found_at res" by (simp add: handle_loc_def file_of_def)
  obtain cs where cs: "is_chain (fat_view s) (cluster_count (sb s)) (de_first (entry_at s (found_at res))) cs"
    using entry_chain[OF D res(1)] res(2,3) by auto
  have "file_ok s (file_of res) cs" using cs res(2) by (cases cs) (auto simp: file_ok_def file_of_def)
  then show ?thesis using l res unfolding handle_ok_def by (auto simp: file_of_def)
qed

lemma open_impl_spec:
  assumes inv: "fs_inv s rs" and nm: "0 \<in> set name" and r: "open_impl name create s = (r, s')"
  shows "\<exists>rs'. fs_inv s' rs' \<and>
    implements create (spec_guard (mounted s) name (spec_open (cname name) create) (files s rs)) (files s rs) (file_info r) (files s' rs') \<and>
    (\<forall>file. r = Inr file \<longrightarrow> handle_ok s' rs' file)"
  using r unfolding open_impl_def
proof (cases rule: checked_cases)
  case nofs
  then show ?thesis using inv by (auto simp: implements_def spec_guard_def file_info_def)
next
  case (name e)
  then show ?thesis using inv name_check_error[OF nm name(2)] by (auto simp: implements_def spec_guard_def file_info_def)
next
  case run
  let ?S = "spec_open (cname name) create (files s rs)"
  have g: "spec_guard (mounted s) name (spec_open (cname name) create) (files s rs) = ?S"
    using run(1,2) by (simp add: spec_guard_def)
  from run(3) have "\<exists>rs'. fs_inv s' rs' \<and> implements create ?S (files s rs) (file_info r) (files s' rs') \<and> (\<forall>file. r = Inr file \<longrightarrow> handle_ok s' rs' file)"
  proof (cases rule: andThen_cases)
    case (err e)
    then show ?thesis using lookup_files[OF inv nm run(2) err(1)] by (auto simp: implements_def file_info_def)
  next
    case L: (ok res s1)
    note F = lookup_files[OF inv nm run(2) L(1)]
    show ?thesis
    proof (cases "found res")
      case True
      then have "r = Inr (file_of res)" "s' = s1" using L(2) by (simp_all add: andThen_def file_of_def)
      moreover have "?S = (file_info (Inr (file_of res)), files s rs)" using F(6) True by (simp add: spec_open_def file_info_def file_of_def)
      moreover have "handle_ok s1 rs (file_of res)"
        using file_of_handle[OF F(1)] F(5,6) True dir_locs_keeps[OF F(3)] by auto
      ultimately show ?thesis using F(1,2) by (intro exI[of _ rs]) (simp add: implements_def)
    next
      case nf: False
      then have no: "files s rs (cname name) = None" "files s1 rs (cname name) = None" using F(2,6) by simp_all
      show ?thesis
      proof (cases create)
        case False
        then show ?thesis using L(2) nf no F(1,2) by (auto simp: andThen_def fail_def implements_def spec_open_def file_info_def)
      next
        case True
        have place: "last_cluster res = last rs" "has_free res \<longrightarrow> free_at res \<in> set (dir_locs s1 rs) \<and> \<not> slot_used (entry_at s1 (free_at res))"
          using F(5,6) nf dir_locs_keeps[OF F(3)] by auto
        obtain r2 s2 where c: "entry_create name res s1 = (r2, s2)" by fastforce
        have e: "r = map_sum id file_of r2" "s' = s2" using L(2) nf True c by (cases r2; simp add: andThen_def file_of_def)+
        have S: "?S = (Inr (0, 0), (files s rs)(cname name \<mapsto> (0, 0)))" using no True by (simp add: spec_open_def)
        obtain rs' where C: "fs_inv s2 rs'" "case r2 of
             Inr res' \<Rightarrow> files s2 rs' = (files s1 rs)(cname name \<mapsto> (0, 0)) \<and> found_at res' \<in> set (dir_locs s2 rs') \<and> entry res' = entry_at s2 (found_at res') \<and>
               slot_used (entry res') \<and> de_first (entry res') = 0 \<and> de_size (entry res') = 0 \<and> cname (de_name (entry res')) = cname name
           | Inl e \<Rightarrow> e = FS_ERR_NOSPC \<and> files s2 rs' = files s1 rs \<or>
               e = FS_ERR_IO \<and> (files s2 rs' = files s1 rs \<or> files s2 rs' = (files s1 rs)(cname name \<mapsto> (0, 0)))"
          using entry_create_spec[OF F(1) nm run(2) no(2) place c] by blast
        show ?thesis
        proof (cases r2)
          case (Inl x)
          then show ?thesis using C e S F(2) True by (intro exI[of _ rs']) (auto simp: implements_def file_info_def)
        next
          case (Inr res')
          then have "handle_ok s2 rs' (file_of res')" using file_of_handle[OF C(1)] C(2) by auto
          moreover have "file_info (Inr (file_of res')) = Inr (0, 0)" using C(2) Inr by (auto simp: file_info_def file_of_def)
          ultimately show ?thesis using C e S F(2) Inr by (intro exI[of _ rs']) (simp add: implements_def)
        qed
      qed
    qed
  qed
  then show ?thesis unfolding g .
qed



lemma handle_ok_keeps:
  assumes "fs_inv s rs" "handle_ok s rs file" "keeps {} s s'" "fat_view s' = fat_view s"
  shows "handle_ok s' rs file"
  using assms(2) fs_inv_keeps[OF assms(1,3,4)] dir_locs_keeps[OF assms(3)] keeps_wf[OF assms(3)] assms(4)
  by (auto simp: handle_ok_def file_ok_def)

lemma fs_open_spec:
  assumes inv: "fs_inv s rs" and nm: "0 \<in> set name"
  shows "let (r, s') = fs_open name create s in
    \<exists>rs'. fs_inv s' rs' \<and>
      implements create (spec_guard (mounted s) name (spec_open (cname name) create) (files s rs)) (files s rs) (file_info r) (files s' rs') \<and>
      (\<forall>file. r = Inr file \<longrightarrow> handle_ok s' rs' file \<and> \<not> fat_dirty s')"
proof -
  obtain r1 s1 where m: "open_impl name create s = (r1, s1)" by fastforce
  let ?S = "spec_guard (mounted s) name (spec_open (cname name) create) (files s rs)"
  obtain rs' where I: "fs_inv s1 rs'" "implements create ?S (files s rs) (file_info r1) (files s1 rs')" "\<forall>file. r1 = Inr file \<longrightarrow> handle_ok s1 rs' file"
    using open_impl_spec[OF inv nm m] by blast
  obtain r s' where f: "finish r1 s1 = (r, s')" by fastforce
  note F = finish_spec[OF f I(1)]
  have "fs_open name create s = (r, s')" using m f by (simp add: fs_open_def finishing_def)
  moreover have "implements create ?S (files s rs) (file_info r) (files s' rs')"
    using F by (intro implements_finishing[OF I(2)]) (auto simp: file_info_def)
  moreover have "handle_ok s' rs' file \<and> \<not> fat_dirty s'" if "r = Inr file" for "file"
    using F I(3) that handle_ok_keeps[OF I(1)] by auto
  ultimately show ?thesis using F by auto
qed


section \<open>The operations\<close>

text \<open>
  C12. Creating a file, whatever the disk answers, keeps the invariant of the file system and implements
  the abstract operation: with a valid new name the map of files gains an empty file of that name; an
  invalid name, a name in use, a missing file system and a full disk are reported and change nothing;
  on success the table has been written to the disk.
\<close>

theorem fs_create_refines:
  assumes inv: "fs_inv s rs" and nm: "0 \<in> set name"
  shows "let (r, s') = fs_create name s in
    \<exists>rs'. fs_inv s' rs' \<and> implements True (spec_guard (mounted s) name (spec_create (cname name)) (files s rs)) (files s rs) r (files s' rs') \<and>
      (r = Inr () \<longrightarrow> \<not> fat_dirty s')"
proof -
  obtain r1 s1 where m: "create_impl name s = (r1, s1)" by fastforce
  obtain rs' where I: "fs_inv s1 rs'" "implements True (spec_guard (mounted s) name (spec_create (cname name)) (files s rs)) (files s rs) r1 (files s1 rs')"
    using create_impl_spec[OF inv nm m] by blast
  obtain r s' where f: "finish r1 s1 = (r, s')" by fastforce
  have "fs_create name s = (r, s')" using m f by (simp add: fs_create_def finishing_def)
  moreover have "implements True (spec_guard (mounted s) name (spec_create (cname name)) (files s rs)) (files s rs) r (files s' rs')"
    using finish_spec[OF f I(1)] by (intro implements_finishing[OF I(2)]) auto
  ultimately show ?thesis using finish_spec[OF f I(1)] by auto
qed

theorem fs_create_refines_witness:
  "\<forall>a v. let (r, s') = fs_create [98, 0] (example_fs a v) in
    \<exists>rs'. fs_inv s' rs' \<and> implements True (Inr (), [[97] \<mapsto> (2, 3), [98] \<mapsto> (0, 0)]) [[97] \<mapsto> (2, 3)] r (files s' rs') \<and>
      (r = Inr () \<longrightarrow> \<not> fat_dirty s')"
proof (intro allI)
  fix a v
  have "name_check [98, 0] = Inr ()" by (subst name_check_iff) (simp_all add: cname_def)
  then show "let (r, s') = fs_create [98, 0] (example_fs a v) in
    \<exists>rs'. fs_inv s' rs' \<and> implements True (Inr (), [[97] \<mapsto> (2, 3), [98] \<mapsto> (0, 0)]) [[97] \<mapsto> (2, 3)] r (files s' rs') \<and>
      (r = Inr () \<longrightarrow> \<not> fat_dirty s')"
    using fs_create_refines[OF example_inv, of "[98, 0]" a v] unfolding example_files
    by (simp add: spec_guard_def spec_create_def cname_def example_fs_def[of a v])
qed

text \<open>
  C13. Removing a file keeps the invariant and implements the abstract operation: the file leaves the map,
  its clusters and no others are released, and a name without a file is \<open>FS_ERR_NOENT\<close>.
\<close>

theorem fs_remove_refines:
  assumes inv: "fs_inv s rs" and nm: "0 \<in> set name"
  shows "let (r, s') = fs_remove name s in
    fs_inv s' rs \<and> implements False (spec_guard (mounted s) name (spec_remove (cname name)) (files s rs)) (files s rs) r (files s' rs) \<and>
      (r = Inr () \<longrightarrow> \<not> fat_dirty s')"
proof -
  obtain r1 s1 where m: "remove_impl name s = (r1, s1)" by fastforce
  note I = remove_impl_spec[OF inv nm m]
  obtain r s' where f: "finish r1 s1 = (r, s')" by fastforce
  have "fs_remove name s = (r, s')" using m f by (simp add: fs_remove_def finishing_def)
  moreover note F = finish_spec[OF f I[THEN conjunct1]]
  moreover have "implements False (spec_guard (mounted s) name (spec_remove (cname name)) (files s rs)) (files s rs) r (files s' rs)"
    using F by (intro implements_finishing[OF I[THEN conjunct2]]) auto
  ultimately show ?thesis by auto
qed

theorem fs_remove_refines_witness:
  "\<forall>a v. let (r, s') = fs_remove [97, 0] (example_fs a v) in
    fs_inv s' [1] \<and> implements False (Inr (), Map.empty) [[97] \<mapsto> (2, 3)] r (files s' [1]) \<and> (r = Inr () \<longrightarrow> \<not> fat_dirty s')"
proof (intro allI)
  fix a v
  have "name_check [97, 0] = Inr ()" by (subst name_check_iff) (simp_all add: cname_def)
  then show "let (r, s') = fs_remove [97, 0] (example_fs a v) in
    fs_inv s' [1] \<and> implements False (Inr (), Map.empty) [[97] \<mapsto> (2, 3)] r (files s' [1]) \<and> (r = Inr () \<longrightarrow> \<not> fat_dirty s')"
    using fs_remove_refines[OF example_inv, of "[97, 0]" a v] unfolding example_files
    by (simp add: spec_guard_def spec_remove_def cname_def example_fs_def[of a v])
qed

text \<open>
  C14. Renaming a file keeps the invariant and implements the abstract operation: the file has its new
  name and no longer its old one, its contents stay where they are, and a name already in use is
  \<open>FS_ERR_EXIST\<close>.
\<close>

theorem fs_rename_refines:
  assumes inv: "fs_inv s rs" and nm: "0 \<in> set src" "0 \<in> set dst"
  shows "let (r, s') = fs_rename src dst s in
    fs_inv s' rs \<and> implements False (spec_guard (mounted s) src (spec_guard (mounted s) dst (spec_rename (cname src) (cname dst))) (files s rs))
      (files s rs) r (files s' rs)"
  using fs_rename_spec[OF inv nm] by (cases "fs_rename src dst s") simp

theorem fs_rename_refines_witness:
  "\<forall>a v. let (r, s') = fs_rename [97, 0] [98, 0] (example_fs a v) in
    fs_inv s' [1] \<and> implements False (Inr (), [[98] \<mapsto> (2, 3)]) [[97] \<mapsto> (2, 3)] r (files s' [1])"
proof (intro allI)
  fix a v
  have "name_check [97, 0] = Inr ()" "name_check [98, 0] = Inr ()" by (subst name_check_iff, simp_all add: cname_def)+
  then show "let (r, s') = fs_rename [97, 0] [98, 0] (example_fs a v) in
    fs_inv s' [1] \<and> implements False (Inr (), [[98] \<mapsto> (2, 3)]) [[97] \<mapsto> (2, 3)] r (files s' [1])"
    using fs_rename_refines[OF example_inv, of "[97, 0]" "[98, 0]" a v] unfolding example_files
    by (simp add: spec_guard_def spec_rename_def cname_def example_fs_def[of a v] fun_upd_twist)
qed



end
