(* ===== verification/Fs_Content.thy ===== *)
theory Fs_Content
  imports Fs_Ops
begin

text \<open>
  The file system (\<open>kernel/fs.c\<close>), eighth part: what reading, writing and truncating do to the contents of
  files, whatever the disk answers.
\<close>

section \<open>Contents\<close>

text \<open>The chain from a cluster on, and the map from names to contents.\<close>

primrec chain_list :: "(nat \<Rightarrow> nat) \<Rightarrow> nat \<Rightarrow> nat \<Rightarrow> nat list" where
  "chain_list fv 0 c = []"
| "chain_list fv (Suc k) c = (if c = 0 then [] else c # chain_list fv k (next_of fv c))"

lemma chain_list_is_chain: "is_chain fv n c cs \<Longrightarrow> length cs \<le> k \<Longrightarrow> chain_list fv k c = cs"
proof (induction cs arbitrary: c k)
  case Nil
  then show ?case by (cases k) simp_all
next
  case (Cons x xs)
  then show ?case by (cases k) auto
qed

definition chain_of :: "fs_state \<Rightarrow> nat \<Rightarrow> nat list" where
  "chain_of s first = chain_list (fat_view s) (cluster_count (sb s)) first"

definition contents :: "fs_state \<Rightarrow> nat list \<Rightarrow> u8 list \<rightharpoonup> u8 list" where
  "contents s rs n = map_option (\<lambda>(first, k). map (file_byte s (chain_of s first)) [0..<k]) (files s rs n)"

lemma chain_of_eq: "is_chain (fat_view s) (cluster_count (sb s)) c cs \<Longrightarrow> chain_of s c = cs"
  using chain_list_is_chain is_chain_length by (simp add: chain_of_def)

lemma contents_at:
  assumes "fs_inv s rs" "l \<in> set (dir_locs s rs)" "slot_used (entry_at s l)"
    "is_chain (fat_view s) (cluster_count (sb s)) (de_first (entry_at s l)) cs"
  shows "contents s rs (cname (de_name (entry_at s l))) = Some (map (file_byte s cs) [0..<de_size (entry_at s l)])"
proof -
  have "dir_inv (fat_view s) (cluster_count (sb s)) (cluster_bytes s) rs (entry_at s) (set (dir_locs s rs))" using assms(1) by (simp add: fs_inv_def)
  from files_of_at[OF this assms(2,3)] show ?thesis using chain_of_eq[OF assms(4)] by (simp add: contents_def files_def)
qed

text \<open>A file whose entry, chain and clusters a step leaves alone keeps its contents.\<close>

lemma contents_kept:
  assumes inv: "fs_inv s rs" "fs_inv s' rs" and k: "keeps W s s'" and l: "l \<in> set (dir_locs s rs)" "slot_used (entry_at s l)"
    and e: "entry_at s' l = entry_at s l" and ch: "is_chain (fat_view s) (cluster_count (sb s)) (de_first (entry_at s l)) cs"
    and fv: "\<And>c. c \<in> set cs \<Longrightarrow> fat_view s' c = fat_view s c" and W: "W \<inter> chain_blocks s cs = {}"
  shows "contents s' rs (cname (de_name (entry_at s l))) = contents s rs (cname (de_name (entry_at s l)))"
proof -
  have D: "dir_inv (fat_view s) (cluster_count (sb s)) (cluster_bytes s) rs (entry_at s) (set (dir_locs s rs))" and wf: "fs_wf s"
    using inv(1) by (simp_all add: fs_inv_def)
  obtain ds where "is_chain (fat_view s) (cluster_count (sb s)) (de_first (entry_at s l)) ds" "de_size (entry_at s l) \<le> length ds * cluster_bytes s"
    by (rule entry_chain[OF D l])
  then have size: "de_size (entry_at s l) \<le> length cs * cluster_bytes s" using is_chain_unique[OF ch] by blast
  have ch': "is_chain (fat_view s') (cluster_count (sb s')) (de_first (entry_at s' l)) cs"
    using ch e keeps_wf[OF k] is_chain_cong[of cs "fat_view s'" "fat_view s"] fv by simp
  have "file_byte s' cs q = file_byte s cs q" if "q < de_size (entry_at s l)" for q
    using file_byte_keeps[OF wf k ch, of q] W that size by (auto simp: position_in_chain[symmetric] chain_blocks_def)
  then show ?thesis
    using contents_at[OF inv(1) l ch] contents_at[OF inv(2) _ _ ch'] l e dir_locs_keeps[OF k] by simp
qed

text \<open>
  The step of \<open>fs_inv_replace\<close> on one file: every other file keeps its contents if the blocks that
  change belong to the directory, to that file or to clusters that were free.
\<close>

lemma other_contents:
  assumes inv: "fs_inv s rs" "fs_inv s' rs" and k: "keeps W s s'" and l: "l \<in> set (dir_locs s rs)"
    and own: "slot_used (entry_at s l)" "is_chain (fat_view s) (cluster_count (sb s)) (de_first (entry_at s l)) cs"
    and other: "\<And>c. fat_view s c \<noteq> 0 \<Longrightarrow> c \<notin> set cs \<Longrightarrow> fat_view s' c = fat_view s c"
    and E: "\<And>k. k \<in> set (dir_locs s rs) \<Longrightarrow> k \<noteq> l \<Longrightarrow> entry_at s' k = entry_at s k"
    and name: "slot_used (entry_at s' l) \<Longrightarrow> cname (de_name (entry_at s' l)) = cname (de_name (entry_at s l))"
    and W: "W \<subseteq> chain_blocks s rs \<union> chain_blocks s ds" "is_chain fv (cluster_count (sb s)) d ds" "\<And>c. c \<in> set ds \<Longrightarrow> c \<in> set cs \<or> fat_view s c = 0"
    and n: "n \<noteq> cname (de_name (entry_at s l))"
  shows "contents s' rs n = contents s rs n"
proof -
  let ?ls = "dir_locs s rs"
  have D: "dir_inv (fat_view s) (cluster_count (sb s)) (cluster_bytes s) rs (entry_at s) (set ?ls)"
      "is_chain (fat_view s) (cluster_count (sb s)) (root_cluster (sb s)) rs"
    using inv(1) by (simp_all add: fs_inv_def)
  show ?thesis
  proof (cases "files s rs n")
    case None
    then have none: "\<forall>k \<in> set ?ls. slot_used (entry_at s k) \<longrightarrow> cname (de_name (entry_at s k)) \<noteq> n" by (simp add: files_def files_of_None)
    have "slot_used (entry_at s' k) \<longrightarrow> cname (de_name (entry_at s' k)) \<noteq> n" if "k \<in> set ?ls" for k
      using none E[OF that] name n that by (cases "k = l") auto
    then have "files s' rs n = None" using dir_locs_keeps[OF k] by (simp add: files_def files_of_None)
    then show ?thesis using None by (simp add: contents_def)
  next
    case (Some v)
    then obtain m where m: "m \<in> set ?ls" "slot_used (entry_at s m)" "cname (de_name (entry_at s m)) = n"
      using files_of_Some[OF D(1)] by (auto simp: files_def)
    then have ml: "m \<noteq> l" using n by auto
    obtain ks where ks: "is_chain (fat_view s) (cluster_count (sb s)) (de_first (entry_at s m)) ks" "set ks \<inter> set rs = {}"
      by (rule entry_chain[OF D(1) m(1,2)])
    have apart: "set ks \<inter> set cs = {}" by (rule other_chains_apart(1)[OF D(1) l own(1) m(1,2) ml own(2) ks(1)])
    have used: "fat_view s c \<noteq> 0" if "c \<in> set ks" for c using is_chain_range[OF ks(1) that] by simp
    have "set ds \<inter> set ks = {}" using W(3) used apart by blast
    then have "W \<inter> chain_blocks s ks = {}"
      using W(1) chain_blocks_disjoint[OF D(2) ks(1)] chain_blocks_disjoint[OF W(2) ks(1)] ks(2) by blast
    moreover have "fat_view s' c = fat_view s c" if "c \<in> set ks" for c using other[OF used[OF that]] apart that by blast
    ultimately show ?thesis using contents_kept[OF inv k m(1,2) E[OF m(1) ml] ks(1)] m(3) by simp
  qed
qed


lemma contents_same:
  assumes inv: "fs_inv s rs" and k: "keeps W s s'" "W \<subseteq> chain_blocks s rs" and fv: "fat_view s' = fat_view s"
    and E: "\<forall>l \<in> set (dir_locs s rs). entry_at s' l = entry_at s l"
  shows "fs_inv s' rs \<and> contents s' rs = contents s rs"
proof -
  have I: "fs_inv s' rs" "files s' rs = files s rs" using fs_inv_same[OF inv k(1) fv E] by simp_all
  have D: "dir_inv (fat_view s) (cluster_count (sb s)) (cluster_bytes s) rs (entry_at s) (set (dir_locs s rs))"
      "is_chain (fat_view s) (cluster_count (sb s)) (root_cluster (sb s)) rs"
    using inv by (simp_all add: fs_inv_def)
  have "contents s' rs n = contents s rs n" for n
  proof (cases "files s rs n")
    case None
    then show ?thesis using I(2) by (simp add: contents_def)
  next
    case (Some v)
    then obtain m where m: "m \<in> set (dir_locs s rs)" "slot_used (entry_at s m)" "cname (de_name (entry_at s m)) = n"
      using files_of_Some[OF D(1)] by (auto simp: files_def)
    obtain ks where ks: "is_chain (fat_view s) (cluster_count (sb s)) (de_first (entry_at s m)) ks" "set ks \<inter> set rs = {}"
      by (rule entry_chain[OF D(1) m(1,2)])
    have "W \<inter> chain_blocks s ks = {}" using k(2) chain_blocks_disjoint[OF ks(1) D(2) ks(2)] by blast
    then show ?thesis using contents_kept[OF inv I(1) k(1) m(1,2) _ ks(1)] E m(1,3) fv by simp
  qed
  then show ?thesis using I(1) by blast
qed


section \<open>Storing the entry of an open file\<close>

lemma file_sync_entry:
  assumes inv: "fs_inv s rs" and l: "handle_loc file \<in> set (dir_locs s rs)" and small: "f_first file < 4294967296" "f_size file < 4294967296"
    and r: "file_sync file s = (r, s')"
  defines "e \<equiv> (entry_at s (handle_loc file))\<lparr>de_first := f_first file, de_size := f_size file\<rparr>"
  shows "keeps {dir_sector file} s s' \<and> fat_view s' = fat_view s \<and>
    (r = Inr () \<and> (\<forall>k \<in> set (dir_locs s rs). entry_at s' k = ((entry_at s)(handle_loc file := e)) k) \<or>
     r = Inl FS_ERR_IO \<and> ((\<forall>k \<in> set (dir_locs s rs). entry_at s' k = entry_at s k) \<or>
       (\<forall>k \<in> set (dir_locs s rs). entry_at s' k = ((entry_at s)(handle_loc file := e)) k)))"
proof -
  let ?i = "dir_sector file" and ?l = "handle_loc file"
  define g where "g b = set_u32 (set_u32 b (dir_slot file * 32 + 29) (f_first file)) (dir_slot file * 32 + 30) (f_size file)" for b
  have wf: "fs_wf s" using inv by (simp add: fs_inv_def)
  have i: "?i \<in> block_area s" "dir_slot file < 4" using fs_inv_locs[OF inv l] by (simp_all add: handle_loc_def)
  have g: "length (g b) = 512" if "length b = 512" for b using that i(2) by (simp add: g_def)
  have "andThen fat_flush (\<lambda>_. andThen (dir_read ?i) (\<lambda>_ s. let s = s\<lparr>dir_buf := g (dir_buf s)\<rparr> in block_write ?i (dir_buf s) s)) s = (r, s')"
    using r by (simp add: file_sync_def g_def Let_def)
  then have S: "keeps {?i} s s' \<and> fat_view s' = fat_view s \<and> (r = Inr () \<and> blk s' ?i = g (blk s ?i) \<or>
      r = Inl FS_ERR_IO \<and> (blk s' ?i = blk s ?i \<or> blk s' ?i = g (blk s ?i)))"
    by (rule sector_update_spec[OF wf i(1), rotated]) (rule g)
  have other: "entry_at s' k = entry_at s k" if "k \<in> set (dir_locs s rs)" "loc_sector k \<noteq> ?i" for k
    using entry_at_keeps[of "{?i}" s s' k] S fs_inv_locs[OF inv that(1)] that(2) by simp
  have new: "entry_at s' k = ((entry_at s)(?l := e)) k" if "blk s' ?i = g (blk s ?i)" "k \<in> set (dir_locs s rs)" for k
  proof (cases "loc_sector k = ?i")
    case True
    have "loc_slot k < 4" using fs_inv_locs[OF inv that(2)] by simp
    from slot_sync[OF length_blk[OF wf] i(2) this]
    have "entry_at s' k = (if loc_slot k = dir_slot file then e else entry_at s k)"
      using that(1) True small by (simp add: entry_at_def g_def e_def handle_loc_def)
    then show ?thesis using True by (cases k) (auto simp: handle_loc_def)
  next
    case False
    then show ?thesis using other[OF that(2)] by (auto simp: handle_loc_def)
  qed
  have old: "entry_at s' k = entry_at s k" if "blk s' ?i = blk s ?i" "k \<in> set (dir_locs s rs)" for k
    using other[OF that(2)] that(1) by (cases "loc_sector k = ?i") (auto simp: entry_at_def)
  show ?thesis using S new old by (elim conjE disjE) auto
qed



section \<open>Writing\<close>

text \<open>The name of an open file.\<close>

definition handle_name :: "fs_state \<Rightarrow> fs_file \<Rightarrow> u8 list" where
  "handle_name s file = cname (de_name (entry_at s (handle_loc file)))"

lemma handle_entry:
  assumes inv: "fs_inv s rs" and h: "handle_ok s rs file"
  obtains cs where "file_ok s file cs" "f_size file \<le> length cs * cluster_bytes s" "set cs \<inter> set rs = {}"
    "is_chain (fat_view s) (cluster_count (sb s)) (de_first (entry_at s (handle_loc file))) cs"
    "0 \<in> set (de_name (entry_at s (handle_loc file)))"
proof -
  let ?e = "entry_at s (handle_loc file)"
  have D: "dir_inv (fat_view s) (cluster_count (sb s)) (cluster_bytes s) rs (entry_at s) (set (dir_locs s rs))" using inv by (simp add: fs_inv_def)
  have l: "handle_loc file \<in> set (dir_locs s rs)" "slot_used ?e" "de_first ?e = f_first file" "de_size ?e = f_size file"
    using h by (simp_all add: handle_ok_def)
  obtain cs where ok: "file_ok s file cs" using h by (auto simp: handle_ok_def)
  obtain ds where ds: "is_chain (fat_view s) (cluster_count (sb s)) (de_first ?e) ds" "de_size ?e \<le> length ds * cluster_bytes s" "set ds \<inter> set rs = {}"
    by (rule entry_chain[OF D l(1,2)])
  have "cs = ds" using is_chain_unique[OF file_ok_chain[OF ok]] ds(1) l(3) by simp
  moreover have "0 \<in> set (de_name ?e)" using D l(1,2) by (simp add: dir_inv_def entry_ok_def)
  ultimately show thesis using that ok ds l(4) by simp
qed

text \<open>Storing first cluster and size of a handle with the grown or shortened chain \<open>cs'\<close>.\<close>

lemma entry_follows:
  assumes inv: "fs_inv s rs" and h: "handle_ok s rs file" and ok: "file_ok s file cs"
    and k: "keeps W s s'" and other: "\<And>c. fat_view s c \<noteq> 0 \<Longrightarrow> c \<notin> set cs \<Longrightarrow> fat_view s' c = fat_view s c"
    and ch: "is_chain (fat_view s') (cluster_count (sb s)) first cs'" "\<forall>c \<in> set cs'. c \<in> set cs \<or> fat_view s c = 0"
    and sz: "size' \<le> length cs' * cluster_bytes s"
    and E: "\<forall>k \<in> set (dir_locs s rs). entry_at s' k = ((entry_at s)(handle_loc file := (entry_at s (handle_loc file))\<lparr>de_first := first, de_size := size'\<rparr>)) k"
    and W: "W \<subseteq> chain_blocks s rs \<union> chain_blocks s ds" "is_chain fv (cluster_count (sb s)) d ds" "\<forall>c \<in> set ds. c \<in> set cs \<or> fat_view s c = 0"
  shows "fs_inv s' rs \<and> (\<forall>n. n \<noteq> cname (de_name (entry_at s (handle_loc file))) \<longrightarrow> contents s' rs n = contents s rs n) \<and>
    contents s' rs (cname (de_name (entry_at s (handle_loc file)))) = Some (map (file_byte s' cs') [0..<size'])"
proof -
  let ?l = "handle_loc file"
  let ?e = "entry_at s ?l"
  let ?e' = "?e\<lparr>de_first := first, de_size := size'\<rparr>"
  have l: "?l \<in> set (dir_locs s rs)" "slot_used ?e" "de_first ?e = f_first file" using h by (simp_all add: handle_ok_def)
  have D: "dir_inv (fat_view s) (cluster_count (sb s)) (cluster_bytes s) rs (entry_at s) (set (dir_locs s rs))" using inv by (simp add: fs_inv_def)
  have cs: "is_chain (fat_view s) (cluster_count (sb s)) (de_first ?e) cs" using file_ok_chain[OF ok] l(3) by simp
  have names: "\<forall>k \<in> set (dir_locs s rs). k \<noteq> ?l \<and> slot_used (entry_at s k) \<longrightarrow> cname (de_name (entry_at s k)) \<noteq> cname (de_name ?e')"
    using D l(1,2) by (auto simp: dir_inv_def apart_def)
  have z: "0 \<in> set (de_name ?e')" using D l(1,2) by (simp add: dir_inv_def entry_ok_def)
  have u: "slot_used ?e'" using l(2) by (simp add: slot_used_def)
  have inv': "fs_inv s' rs"
    using fs_inv_replace[OF inv l(1) k, of cs ?e' cs'] cs l(2) other E z ch sz names by simp
  have el: "entry_at s' ?l = ?e'" using E l(1) by simp
  have "contents s' rs n = contents s rs n" if "n \<noteq> cname (de_name ?e)" for n
    by (rule other_contents[OF inv inv' k l(1,2) cs other]) (use E el W that in auto)
  moreover have "contents s' rs (cname (de_name ?e)) = Some (map (file_byte s' cs') [0..<size'])"
    using contents_at[OF inv', of ?l cs'] el u l(1) dir_locs_keeps[OF k] ch(1) keeps_wf[OF k] by simp
  ultimately show ?thesis using inv' by blast
qed


text \<open>
  What writing \<open>n\<close> of \<open>count\<close> bytes at \<open>offset\<close> makes of the contents: the bytes before \<open>offset\<close> stay, the \<open>n\<close>
  bytes follow, and nothing changes behind the window.  (After a short write the rest of the window
  may have been overwritten in part.)
\<close>

definition written :: "u8 list \<Rightarrow> nat \<Rightarrow> u8 list \<Rightarrow> nat \<Rightarrow> nat \<Rightarrow> u8 list \<Rightarrow> bool" where
  "written old offset data count n new \<longleftrightarrow> length new = max (length old) (offset + n) \<and>
     take (offset + n) new = take offset old @ take n data \<and> drop (offset + count) new = drop (offset + count) old"

lemma written_full:
  assumes "written old offset data n n new" "offset \<le> length old" "n \<le> length data"
  shows "new = take offset old @ take n data @ drop (offset + n) old"
  using assms append_take_drop_id[of "offset + n" new] by (simp add: written_def)

lemma wrote_bytes:
  assumes w: "wrote s file cs offset 0 n cnt data s1 file1 cs'" and fit: "f_size file \<le> length cs * cluster_bytes s"
    and off: "offset \<le> f_size file" and c: "cnt \<le> count" "count \<le> length data"
    and b: "\<And>q. q < k \<Longrightarrow> file_byte s2 cs' q = file_byte s1 cs' q"
    and k: "k = max (f_size file) (offset + n)"
  shows "written (map (file_byte s cs) [0..<f_size file]) offset data count n (map (file_byte s2 cs') [0..<k])"
proof -
  let ?old = "map (file_byte s cs) [0..<f_size file]" and ?new = "map (file_byte s2 cs') [0..<k]"
  have n: "n \<le> cnt" using w by (simp add: wrote_def)
  have in_old: "q div cluster_bytes s < length cs" if "q < f_size file" for q using that fit by (simp add: position_in_chain[symmetric])
  have keep: "file_byte s1 cs' q = file_byte s cs q" if "q < f_size file" "q < offset \<or> offset + cnt \<le> q" for q
    using w in_old[OF that(1)] that(2) unfolding wrote_def by simp
  have data: "file_byte s1 cs' (offset + j) = data ! j" if "j < n" for j using w that unfolding wrote_def by simp
  have at: "take (offset + n) ?new ! i = (take offset ?old @ take n data) ! i" if i: "i < offset + n" for i
  proof -
    have "file_byte s2 cs' i = (if i < offset then file_byte s cs i else data ! (i - offset))"
      using b[of i] keep[of i] data[of "i - offset"] off i k by (cases "i < offset") simp_all
    then show ?thesis using i off k n c by (simp add: nth_append min_def)
  qed
  have L: "length (take (offset + n) ?new) = offset + n" "length (take offset ?old @ take n data) = offset + n"
    using off k n c by simp_all
  have "take (offset + n) ?new = take offset ?old @ take n data"
    using at by (intro nth_equalityI) (simp_all only: L)
  moreover have "drop (offset + count) ?new = drop (offset + count) ?old"
    using b keep off k n c by (intro nth_equalityI) auto
  ultimately show ?thesis unfolding written_def by (simp add: k)
qed

text \<open>The loop has run and the entry has not been stored yet.\<close>

lemma after_loop:
  assumes inv: "fs_inv s rs" and h: "handle_ok s rs file" and ok: "file_ok s file cs" and w: "wrote s file cs offset 0 n cnt data s1 file1 cs'"
  shows "fs_inv s1 rs" "\<forall>k \<in> set (dir_locs s rs). entry_at s1 k = entry_at s k" "set cs' \<inter> set rs = {}"
    "\<forall>m. m \<noteq> cname (de_name (entry_at s (handle_loc file))) \<longrightarrow> contents s1 rs m = contents s rs m"
    "\<forall>c \<in> set cs'. c \<in> set cs \<or> fat_view s c = 0" "\<And>c. fat_view s c \<noteq> 0 \<Longrightarrow> c \<notin> set cs \<Longrightarrow> fat_view s1 c = fat_view s c"
    "is_chain (fat_view s1) (cluster_count (sb s)) (f_first file1) cs'"
proof -
  let ?e = "entry_at s (handle_loc file)"
  have K: "keeps (chain_blocks s cs') s s1" "file_ok s1 file1 cs'" "grows (fat_view s) (fat_view s1) cs cs'" using w by (simp_all add: wrote_def)
  obtain ds where ds: "file_ok s file ds" "f_size file \<le> length ds * cluster_bytes s" "set ds \<inter> set rs = {}"
    by (rule handle_entry[OF inv h])
  have "ds = cs" using is_chain_unique[OF file_ok_chain[OF ds(1)] file_ok_chain[OF ok]] .
  then have fit: "f_size file \<le> length cs * cluster_bytes s" "set cs \<inter> set rs = {}" using ds by simp_all
  have rs: "is_chain (fat_view s) (cluster_count (sb s)) (root_cluster (sb s)) rs" using inv by (simp add: fs_inv_def)
  show sub: "\<forall>c \<in> set cs'. c \<in> set cs \<or> fat_view s c = 0" using K(3) by (auto simp: grows_def)
  show oth: "\<And>c. fat_view s c \<noteq> 0 \<Longrightarrow> c \<notin> set cs \<Longrightarrow> fat_view s1 c = fat_view s c" using K(3) by (simp add: grows_def)
  show ch: "is_chain (fat_view s1) (cluster_count (sb s)) (f_first file1) cs'" using file_ok_chain[OF K(2)] keeps_wf[OF K(1)] by simp
  show dis: "set cs' \<inter> set rs = {}" using sub fit(2) is_chain_range[OF rs] by (metis disjoint_iff not_gr0)
  have blocks: "chain_blocks s cs' \<inter> chain_blocks s rs = {}" by (rule chain_blocks_disjoint[OF ch rs dis])
  show E: "\<forall>k \<in> set (dir_locs s rs). entry_at s1 k = entry_at s k"
  proof
    fix k assume k: "k \<in> set (dir_locs s rs)"
    then have "loc_sector k \<notin> chain_blocks s cs'" using blocks by (auto simp: in_dir_locs)
    then show "entry_at s1 k = entry_at s k" using entry_at_keeps[OF K(1)] fs_inv_locs[OF inv k] by simp
  qed
  define ds' where "ds' = (if cs = [] then [] else cs')"
  have e: "de_first ?e = f_first file" "de_size ?e = f_size file" using h by (simp_all add: handle_ok_def)
  have ch0: "is_chain (fat_view s1) (cluster_count (sb s)) (f_first file) ds'"
  proof (cases cs)
    case Nil
    then show ?thesis using file_ok_chain[OF ok] by (simp add: ds'_def)
  next
    case (Cons c cs1)
    then have "cs' ! 0 = c" "cs' \<noteq> []" "f_first file = c" using grows_prefix[OF K(3), of 0] file_ok_chain[OF ok] by auto
    then have "f_first file1 = f_first file" using ch by (cases cs') auto
    then show ?thesis using ch Cons by (simp add: ds'_def)
  qed
  have len: "length cs \<le> length ds'" using K(3) by (auto simp: ds'_def grows_def)
  have "f_size file \<le> length ds' * cluster_bytes s" using fit(1) mult_le_mono1[OF len] order_trans by blast
  note A = entry_follows[OF inv h ok K(1) oth ch0 _ this, of cs' "fat_view s1" "f_first file1"]
  have same: "?e\<lparr>de_first := f_first file, de_size := f_size file\<rparr> = ?e" using e by simp
  show "fs_inv s1 rs" "\<forall>m. m \<noteq> cname (de_name ?e) \<longrightarrow> contents s1 rs m = contents s rs m"
    using A[unfolded same] sub E ch by (auto simp: ds'_def)
qed


text \<open>The entry is stored, or the handle has not changed.\<close>

lemma after_store:
  assumes inv: "fs_inv s rs" and h: "handle_ok s rs file" and ok: "file_ok s file cs" and w: "wrote s file cs offset 0 n cnt data s1 file1 cs'"
    and f2: "file2 = file1\<lparr>f_size := k\<rparr>" and k: "k = max (f_size file) (offset + n)" "k < 4294967296" and off: "offset \<le> f_size file"
    and c: "cnt \<le> count" "count \<le> length data"
    and st: "(if f_first file2 \<noteq> f_first file \<or> f_size file2 \<noteq> f_size file then file_sync file2 s1 else (Inr (), s1)) = (r, s2)"
  shows "fs_inv s2 rs \<and> (\<forall>m. m \<noteq> cname (de_name (entry_at s (handle_loc file))) \<longrightarrow> contents s2 rs m = contents s rs m) \<and>
    (r = Inr () \<and> handle_ok s2 rs file2 \<and> handle_name s2 file2 = cname (de_name (entry_at s (handle_loc file))) \<and> mounted s2 = mounted s \<and>
      (\<exists>new. contents s2 rs (cname (de_name (entry_at s (handle_loc file)))) = Some new \<and>
        written (map (file_byte s cs) [0..<f_size file]) offset data count n new) \<or> r = Inl FS_ERR_IO)"
proof -
  let ?l = "handle_loc file" and ?ls = "set (dir_locs s rs)"
  let ?e = "entry_at s ?l"
  note A = after_loop[OF inv h ok w]
  have K: "keeps (chain_blocks s cs') s s1" "file_ok s1 file1 cs'" "grows (fat_view s) (fat_view s1) cs cs'" "same_entry file file1" "n \<le> cnt"
    using w by (simp_all add: wrote_def)
  obtain ds where ds: "file_ok s file ds" "f_size file \<le> length ds * cluster_bytes s" by (rule handle_entry[OF inv h])
  have "ds = cs" using is_chain_unique[OF file_ok_chain[OF ds(1)] file_ok_chain[OF ok]] .
  then have fit: "f_size file \<le> length cs * cluster_bytes s" using ds by simp
  have he: "?l \<in> ?ls" "slot_used ?e" "de_first ?e = f_first file" "de_size ?e = f_size file" using h by (simp_all add: handle_ok_def)
  have l2: "handle_loc file2 = ?l" "dir_sector file2 = loc_sector ?l" using K(4) f2 by (simp_all add: handle_loc_def same_entry_def)
  have len: "length cs * cluster_bytes s \<le> length cs' * cluster_bytes s" using K(3) by (auto simp: grows_def intro!: mult_le_mono1)
  have "offset + n \<le> length cs' * cluster_bytes s" if "0 < n" using w that by (simp add: wrote_def)
  then have kfit: "k \<le> length cs' * cluster_bytes s" using k(1) order_trans[OF fit len] off by (cases n) auto
  have small: "f_first file2 < 4294967296"
  proof (cases cs')
    case Nil
    then show ?thesis using A(7) f2 by simp
  next
    case (Cons x xs)
    then have "f_first file2 \<le> cluster_count (sb s)" using A(7) f2 by simp
    moreover have "fs_wf s" using inv by (simp add: fs_inv_def)
    ultimately show ?thesis using cluster_count_small[of s] by simp
  qed
  have area: "{loc_sector ?l} \<subseteq> chain_blocks s rs" using he(1) by (simp add: in_dir_locs)
  have rsc: "is_chain (fat_view s) (cluster_count (sb s)) (root_cluster (sb s)) rs" using inv by (simp add: fs_inv_def)
  have E1: "entry_at s1 ?l = ?e" using A(2) he(1) by simp
  have ls1: "dir_locs s1 = dir_locs s" by (rule dir_locs_keeps[OF K(1)])
  let ?e' = "?e\<lparr>de_first := f_first file2, de_size := f_size file2\<rparr>"
  have final: "fs_inv s2 rs \<and> (\<forall>m. m \<noteq> cname (de_name ?e) \<longrightarrow> contents s2 rs m = contents s rs m) \<and> handle_ok s2 rs file2 \<and>
      handle_name s2 file2 = cname (de_name ?e) \<and> mounted s2 = mounted s \<and> (\<exists>new. contents s2 rs (cname (de_name ?e)) = Some new \<and> written (map (file_byte s cs) [0..<f_size file]) offset data count n new)"
    if s2: "keeps {loc_sector ?l} s1 s2" "fat_view s2 = fat_view s1" "\<forall>k \<in> ?ls. entry_at s2 k = ((entry_at s)(?l := ?e')) k"
  proof -
    have k2: "keeps (chain_blocks s cs' \<union> {loc_sector ?l}) s s2"
      by (rule keeps_trans[OF keeps_mono[OF K(1)] keeps_mono[OF s2(1)]]) auto
    have ch2: "is_chain (fat_view s2) (cluster_count (sb s)) (f_first file2) cs'" using A(7) s2(2) f2 by simp
    have W: "chain_blocks s cs' \<union> {loc_sector ?l} \<subseteq> chain_blocks s rs \<union> chain_blocks s cs'" using area by blast
    have B: "fs_inv s2 rs \<and> (\<forall>m. m \<noteq> cname (de_name ?e) \<longrightarrow> contents s2 rs m = contents s rs m) \<and>
        contents s2 rs (cname (de_name ?e)) = Some (map (file_byte s2 cs') [0..<f_size file2])"
      using A(6) s2(2) kfit f2 by (intro entry_follows[OF inv h ok k2 _ ch2 A(5) _ s2(3) W A(7) A(5)]) auto
    have "file_byte s2 cs' q = file_byte s1 cs' q" if "q < k" for q
    proof (rule file_byte_keeps[OF _ s2(1)])
      show "fs_wf s1" "is_chain (fat_view s1) (cluster_count (sb s1)) (f_first file1) cs'" using A(7) keeps_wf[OF K(1)] by simp_all
      show "q div cluster_bytes s1 < length cs'"
        using that kfit cluster_bytes_keeps[OF K(1)] by (simp add: position_in_chain[symmetric])
      show "cluster_blocks s1 c \<inter> {loc_sector ?l} = {}" if "c \<in> set cs'" for c
        using area chain_blocks_disjoint[OF A(7) rsc A(3), of s] cluster_blocks_keeps[OF K(1)] that by (auto simp: chain_blocks_def)
    qed
    then have "written (map (file_byte s cs) [0..<f_size file]) offset data count n (map (file_byte s2 cs') [0..<f_size file2])"
      using wrote_bytes[OF w fit off c _ k(1), of s2] f2 by simp
    moreover have "file_ok s2 file2 cs'" using K(2) s2(2) keeps_wf[OF s2(1)] f2 by (simp add: file_ok_def)
    then have "handle_ok s2 rs file2"
      using s2(3) he l2(1) dir_locs_keeps[OF k2] unfolding handle_ok_def by (auto simp: slot_used_def)
    moreover have "handle_name s2 file2 = cname (de_name ?e)" "mounted s2 = mounted s"
      using s2(3) he(1) l2(1) keeps_wf[OF k2] by (simp_all add: handle_name_def)
    ultimately show ?thesis using B by blast
  qed
  show ?thesis
  proof (cases "f_first file2 \<noteq> f_first file \<or> f_size file2 \<noteq> f_size file")
    case False
    then have e: "r = Inr ()" "s2 = s1" using st by simp_all
    have "?e' = ?e" using False he(3,4) by simp
    then show ?thesis using final[unfolded e] e keeps_refl[of s1] keeps_wf[OF K(1)] A(2) by simp
  next
    case True
    then have sy: "file_sync file2 s1 = (r, s2)" using st by simp
    have m2: "handle_loc file2 \<in> set (dir_locs s1 rs)" "f_size file2 < 4294967296" using l2(1) ls1 he(1) k(2) f2 by simp_all
    have S: "keeps {loc_sector ?l} s1 s2 \<and> fat_view s2 = fat_view s1 \<and>
        (r = Inr () \<and> (\<forall>k \<in> ?ls. entry_at s2 k = ((entry_at s1)(?l := ?e')) k) \<or>
         r = Inl FS_ERR_IO \<and> ((\<forall>k \<in> ?ls. entry_at s2 k = entry_at s1 k) \<or> (\<forall>k \<in> ?ls. entry_at s2 k = ((entry_at s1)(?l := ?e')) k)))"
      by (rule file_sync_entry[OF A(1) m2(1) small m2(2) sy, unfolded l2 E1 ls1])
    have up: "(\<forall>k \<in> ?ls. entry_at s2 k = ((entry_at s1)(?l := ?e')) k) \<Longrightarrow> (\<forall>k \<in> ?ls. entry_at s2 k = ((entry_at s)(?l := ?e')) k)"
      using A(2) by simp
    have same: "fs_inv s2 rs \<and> (\<forall>m. m \<noteq> cname (de_name ?e) \<longrightarrow> contents s2 rs m = contents s rs m)"
      if "\<forall>k \<in> ?ls. entry_at s2 k = entry_at s1 k"
      using contents_same[OF A(1), of "{loc_sector ?l}" s2] S that area ls1 chain_blocks_keeps[OF K(1)] A(4) by auto
    show ?thesis using S final up same by blast
  qed
qed


lemma handle_contents:
  assumes "fs_inv s rs" "handle_ok s rs file" "file_ok s file cs"
  shows "contents s rs (handle_name s file) = Some (map (file_byte s cs) [0..<f_size file])"
  using contents_at[OF assms(1), of "handle_loc file" cs] assms(2) file_ok_chain[OF assms(3)]
  by (simp add: handle_ok_def handle_name_def)

lemma written_none: "offset \<le> length old \<Longrightarrow> written old offset data count 0 old"
  by (simp add: written_def)

lemma write_impl_spec:
  assumes inv: "fs_inv s rs" and h: "handle_ok s rs file" and len: "count \<le> length data"
    and r: "write_impl offset data count (file, s) = (r, file', s')" and old: "contents s rs (handle_name s file) = Some old"
  shows "fs_inv s' rs \<and> (\<forall>m. m \<noteq> handle_name s file \<longrightarrow> contents s' rs m = contents s rs m) \<and>
    (\<not> mounted s \<longrightarrow> r = Inl FS_ERR_NOFS \<and> s' = s) \<and> (mounted s \<and> length old < offset \<longrightarrow> r = Inl FS_ERR_INVAL \<and> s' = s) \<and>
    (\<forall>n. r = Inr n \<longrightarrow> n \<le> count \<and> handle_ok s' rs file' \<and> handle_name s' file' = handle_name s file \<and> mounted s' \<and>
      (\<exists>new. contents s' rs (handle_name s file) = Some new \<and> written old offset data count n new))"
proof -
  obtain cs where ok: "file_ok s file cs" by (rule handle_entry[OF inv h])
  have o: "old = map (file_byte s cs) [0..<f_size file]" using handle_contents[OF inv h ok] old by simp
  define cnt where "cnt = (let c = if count > MAX_IO then MAX_IO else count in if c > 4294967295 - offset then 4294967295 - offset else c)"
  consider (nofs) "\<not> mounted s" | (inval) "mounted s" "f_size file < offset" | (none) "mounted s" "offset \<le> f_size file" "cnt = 0"
    | (run) "mounted s" "offset \<le> f_size file" "cnt \<noteq> 0" by linarith
  then show ?thesis
  proof cases
    case nofs
    then have "r = Inl FS_ERR_NOFS" "s' = s" using r by (simp_all add: write_impl_def)
    then show ?thesis using inv nofs by simp
  next
    case inval
    then have "r = Inl FS_ERR_INVAL" "s' = s" using r by (simp_all add: write_impl_def)
    then show ?thesis using inv inval o by simp
  next
    case none
    then have e: "r = Inr 0" "s' = s" "file' = file" using r by (auto simp: write_impl_def cnt_def Let_def split: if_splits)
    then show ?thesis using inv none h old written_none[of offset old data count] o by auto
  next
    case run
    obtain n status file1 s1 where l: "write_loop offset cnt 0 data (file, s) = (n, status, file1, s1)" by (metis prod_cases4)
    have c: "cnt \<le> count" "offset + cnt \<le> 4294967295" using run(3) by (auto simp: cnt_def Let_def split: if_splits)
    have wf: "fs_wf s" using inv by (simp add: fs_inv_def)
    obtain cs' where w: "wrote s file cs offset 0 n cnt data s1 file1 cs'"
      using write_loop_spec[OF refl wf ok _ _ l] c(1) len by auto
    have sz1: "f_size file1 = f_size file" "n \<le> cnt" using w by (simp_all add: wrote_def same_entry_def)
    define k where "k = max (f_size file) (offset + n)"
    define file2 where "file2 = file1\<lparr>f_size := k\<rparr>"
    obtain r2 s2 where st: "(if f_first file2 \<noteq> f_first file \<or> f_size file2 \<noteq> f_size file then file_sync file2 s1 else (Inr (), s1)) = (r2, s2)" by fastforce
    have grown: "(if n > 0 \<and> offset + n > f_size file1 then file1\<lparr>f_size := offset + n\<rparr> else file1) = file2"
      using sz1 run(2) by (auto simp: file2_def k_def max_def)
    have e: "r = (case r2 of Inl e \<Rightarrow> Inl e | Inr _ \<Rightarrow> if n > 0 then Inr n else case status of Some e \<Rightarrow> Inl e | None \<Rightarrow> Inr 0)" "s' = s2" "file' = file2"
      using r run(1-3) l grown st unfolding write_impl_def
      by (auto simp: Let_def cnt_def[unfolded Let_def, symmetric] not_less split: sum.splits prod.splits)
    have small: "k < 4294967296"
    proof -
      have "f_size file < 4294967296" using h entry_at_small(2)[of s "handle_loc file"] by (simp add: handle_ok_def)
      then show ?thesis using c(2) sz1(2) by (simp add: k_def)
    qed
    note S = after_store[OF inv h ok w file2_def k_def small run(2) c(1) len st, folded handle_name_def o]
    then show ?thesis using e run(1,2) sz1(2) c(1) o by (auto split: if_splits option.splits)
  qed
qed


lemma fs_write_spec:
  assumes inv: "fs_inv s rs" and h: "handle_ok s rs file" and len: "count \<le> length data"
    and r: "fs_write offset data count (file, s) = (r, file', s')" and old: "contents s rs (handle_name s file) = Some old"
  shows "fs_inv s' rs \<and> (\<forall>m. m \<noteq> handle_name s file \<longrightarrow> contents s' rs m = contents s rs m) \<and>
    (\<not> mounted s \<longrightarrow> r = Inl FS_ERR_NOFS \<and> contents s' rs = contents s rs) \<and>
    (mounted s \<and> length old < offset \<longrightarrow> r = Inl FS_ERR_INVAL \<and> contents s' rs = contents s rs) \<and>
    (\<forall>n. r = Inr n \<longrightarrow> n \<le> count \<and> handle_ok s' rs file' \<and> handle_name s' file' = handle_name s file \<and> mounted s' \<and>
      \<not> fat_dirty s' \<and> offset \<le> length old \<and>
      (\<exists>new. contents s' rs (handle_name s file) = Some new \<and> written old offset data count n new))"
proof -
  obtain r1 s1 where w: "write_impl offset data count (file, s) = (r1, file', s1)" "finish r1 s1 = (r, s')"
    using r by (auto simp: fs_write_def finishing_file_def Let_def split: prod.splits)
  note W = write_impl_spec[OF inv h len w(1) old]
  then have inv1: "fs_inv s1 rs" by blast
  note F = finish_spec[OF w(2) inv1]
  have E: "\<forall>l \<in> set (dir_locs s1 rs). entry_at s' l = entry_at s1 l" using fs_inv_keeps[OF inv1, of "{}" s'] F by simp
  have c: "contents s' rs = contents s1 rs" using contents_same[OF inv1 _ _ _ E, of "{}"] F by simp
  have hk: "handle_ok s1 rs file' \<Longrightarrow> handle_ok s' rs file'" using handle_ok_keeps[OF inv1] F by blast
  have hn: "handle_name s' file' = handle_name s1 file'" "mounted s' = mounted s1" if "handle_ok s1 rs file'"
    using E that keeps_wf[of "{}" s1 s'] F by (simp_all add: handle_name_def handle_ok_def)
  have "offset \<le> length old" if "r1 = Inr n" for n using W that by (metis Inl_Inr_False not_less)
  then show ?thesis using W F c hk hn by auto
qed

section \<open>Reading\<close>

lemma fs_read_spec:
  assumes inv: "fs_inv s rs" and h: "handle_ok s rs file" and len: "count \<le> length out"
    and r: "fs_read offset out count file s = (r, out', file', s')" and old: "contents s rs (handle_name s file) = Some old"
  shows "fs_inv s' rs \<and> contents s' rs = contents s rs \<and> handle_ok s' rs file' \<and> handle_name s' file' = handle_name s file \<and> length out' = length out \<and> mounted s' = mounted s \<and>
    (case r of Inl e \<Rightarrow> e = (if mounted s then FS_ERR_IO else FS_ERR_NOFS)
     | Inr m \<Rightarrow> m \<le> count \<and> m \<le> length old - offset \<and> take m out' = take m (drop offset old) \<and> (m = 0 \<longleftrightarrow> count = 0 \<or> length old \<le> offset))"
proof -
  obtain cs where ok: "file_ok s file cs" "f_size file \<le> length cs * cluster_bytes s" by (rule handle_entry[OF inv h])
  have o: "old = map (file_byte s cs) [0..<f_size file]" using handle_contents[OF inv h ok(1)] old by simp
  consider (nofs) "\<not> mounted s" | (none) "mounted s" "f_size file \<le> offset \<or> count = 0" | (run) "mounted s" "offset < f_size file" "0 < count"
    by linarith
  then show ?thesis
  proof cases
    case nofs
    then have "r = Inl FS_ERR_NOFS" "out' = out" "file' = file" "s' = s" using r by (simp_all add: fs_read_def)
    then show ?thesis using inv h nofs by simp
  next
    case none
    then have "r = Inr 0" "out' = out" "file' = file" "s' = s" using r by (auto simp: fs_read_def)
    then show ?thesis using inv h none o by auto
  next
    case run
    define cnt where "cnt = (let c = if count > MAX_IO then MAX_IO else count in if c > f_size file - offset then f_size file - offset else c)"
    have c: "0 < cnt" "cnt \<le> count" "cnt \<le> f_size file - offset" using run(2,3) by (auto simp: cnt_def Let_def)
    have wf: "fs_wf s" using inv by (simp add: fs_inv_def)
    have l: "read_loop offset cnt 0 out file s = (r, out', file', s')"
      using r run unfolding fs_read_def cnt_def Let_def by (simp split: if_splits)
    have "offset + cnt \<le> length cs * cluster_bytes s" using c(3) run(2) ok(2) by linarith
    then have R: "keeps {} s s' \<and> fat_view s' = fat_view s \<and> file_ok s' file' cs \<and> same_entry file file' \<and> f_first file' = f_first file \<and>
        length out' = length out \<and> take 0 out' = take 0 out \<and>
        (case r of Inl e \<Rightarrow> e = FS_ERR_IO
         | Inr m \<Rightarrow> 0 \<le> m \<and> m \<le> cnt \<and> (0 < cnt \<longrightarrow> 0 < m) \<and> (\<forall>j. 0 \<le> j \<and> j < m \<longrightarrow> out' ! j = file_byte s cs (offset + j)))"
      using read_loop_spec[OF wf ok(1) _ _ _ l] c(2) len by simp
    have E: "\<forall>l \<in> set (dir_locs s rs). entry_at s' l = entry_at s l" using fs_inv_keeps[OF inv, of "{}" s'] R by simp
    have C: "fs_inv s' rs \<and> contents s' rs = contents s rs" using contents_same[OF inv _ _ _ E, of "{}"] R by simp
    have hl: "handle_loc file' = handle_loc file" using R by (simp add: handle_loc_def same_entry_def)
    have he: "handle_loc file \<in> set (dir_locs s rs)" using h by (simp add: handle_ok_def)
    have "handle_ok s' rs file'"
      using h R E he hl dir_locs_keeps[of "{}" s s'] unfolding handle_ok_def same_entry_def by auto
    moreover have "handle_name s' file' = handle_name s file" using E he hl by (simp add: handle_name_def)
    moreover have "take m out' = take m (drop offset old)" if "r = Inr m" for m
      using R that o c(2,3) len run(2) by (intro nth_equalityI) auto
    moreover have "mounted s' = mounted s" using R keeps_wf by blast
    ultimately show ?thesis using R C c o run by (cases r) auto
  qed
qed


section \<open>Truncating\<close>

lemma is_chain_cut:
  "\<lbrakk>is_chain fv n c cs; 0 < j; j \<le> length cs; fv' = fv(cs ! (j - 1) := CHAIN_END)\<rbrakk> \<Longrightarrow> is_chain fv' n c (take j cs)"
proof (induction cs arbitrary: c j)
  case (Cons x xs)
  show ?case
  proof (cases "j = 1")
    case True
    then show ?thesis using Cons.prems by (auto simp: next_of_def)
  next
    case False
    then obtain i where j: "j = Suc (Suc i)" using Cons.prems(2) by (metis One_nat_def gr0_implies_Suc old.nat.exhaust)
    then have "xs ! i \<noteq> x" using is_chain_distinct[OF Cons.prems(1)] Cons.prems(3) by auto
    then show ?thesis using Cons.IH[of "next_of fv x" "Suc i"] Cons.prems j by (auto simp: next_of_def)
  qed
qed simp

text \<open>The entry has its new size and the chain is a prefix of the old one.\<close>

lemma cut_step:
  assumes inv: "fs_inv s rs" and h: "handle_ok s rs file" and ok: "file_ok s file cs" and n: "n \<le> f_size file" "n \<le> length (take j cs) * cluster_bytes s"
    and k: "keeps {dir_sector file} s s'" and other: "\<And>c. fat_view s c \<noteq> 0 \<Longrightarrow> c \<notin> set cs \<Longrightarrow> fat_view s' c = fat_view s c"
    and ch: "is_chain (fat_view s') (cluster_count (sb s)) first (take j cs)"
    and E: "\<forall>k \<in> set (dir_locs s rs). entry_at s' k = ((entry_at s)(handle_loc file := (entry_at s (handle_loc file))\<lparr>de_first := first, de_size := n\<rparr>)) k"
    and old: "contents s rs (handle_name s file) = Some old"
  shows "fs_inv s' rs \<and> (\<forall>m. m \<noteq> handle_name s file \<longrightarrow> contents s' rs m = contents s rs m) \<and>
    contents s' rs (handle_name s file) = Some (take n old)"
proof -
  have l: "handle_loc file \<in> set (dir_locs s rs)" using h by (simp add: handle_ok_def)
  then have sec: "dir_sector file \<in> chain_blocks s rs" by (simp add: in_dir_locs handle_loc_def)
  have rsc: "is_chain (fat_view s) (cluster_count (sb s)) (root_cluster (sb s)) rs" and wf: "fs_wf s" using inv by (simp_all add: fs_inv_def)
  obtain ds where ds: "file_ok s file ds" "set ds \<inter> set rs = {}" by (rule handle_entry[OF inv h])
  have "ds = cs" using is_chain_unique[OF file_ok_chain[OF ds(1)] file_ok_chain[OF ok]] .
  then have apart: "chain_blocks s cs \<inter> chain_blocks s rs = {}" using chain_blocks_disjoint[OF file_ok_chain[OF ok] rsc] ds(2) by simp
  have sub: "\<forall>c \<in> set (take j cs). c \<in> set cs \<or> fat_view s c = 0" by (auto dest: in_set_takeD)
  have S: "fs_inv s' rs \<and> (\<forall>m. m \<noteq> handle_name s file \<longrightarrow> contents s' rs m = contents s rs m) \<and>
      contents s' rs (handle_name s file) = Some (map (file_byte s' (take j cs)) [0..<n])"
    unfolding handle_name_def using sec
    by (intro entry_follows[OF inv h ok k other ch sub n(2) E, where ds = "[]" and fv = "fat_view s" and d = 0]) auto
  have o: "old = map (file_byte s cs) [0..<f_size file]" using handle_contents[OF inv h ok] old by simp
  have "file_byte s' (take j cs) q = file_byte s cs q" if "q < n" for q
  proof -
    have q: "q div cluster_bytes s < length (take j cs)"
      using position_in_chain[of q "take j cs" s] order_less_le_trans[OF that n(2)] by blast
    have "file_byte s' (take j cs) q = file_byte s (take j cs) q"
    proof (rule file_byte_keeps[OF wf k ch q])
      fix c assume "c \<in> set (take j cs)"
      then show "cluster_blocks s c \<inter> {dir_sector file} = {}" using apart sec by (auto simp: chain_blocks_def dest: in_set_takeD)
    qed
    also have "\<dots> = file_byte s cs q" using q by (simp add: file_byte_def addr_def)
    finally show ?thesis .
  qed
  then have "map (file_byte s' (take j cs)) [0..<n] = take n old" using o n(1) by (intro nth_equalityI) auto
  then show ?thesis using S by simp
qed

lemma handle_after:
  assumes h: "handle_ok s rs file" and k: "keeps W s s'" and l: "handle_loc file' = handle_loc file"
    and E: "\<forall>k \<in> set (dir_locs s rs). entry_at s' k = ((entry_at s)(handle_loc file := (entry_at s (handle_loc file))\<lparr>de_first := f_first file', de_size := f_size file'\<rparr>)) k"
    and ok: "file_ok s' file' cs'"
  shows "handle_ok s' rs file'"
  using h E ok dir_locs_keeps[OF k] l unfolding handle_ok_def by (auto simp: slot_used_def)

text \<open>The entry is stored with the new size, then the rest of the chain is released.\<close>

lemma truncate_tail:
  assumes inv: "fs_inv s rs" and h: "handle_ok s rs file" and ok: "file_ok s file cs" and n: "n \<le> f_size file" "n \<le> length (take j cs) * cluster_bytes s"
    and j: "j \<le> length cs" and f': "handle_loc file' = handle_loc file" "f_size file' = n" "f_first file' = (if j = 0 then 0 else f_first file)"
      "cursor_cluster file' = f_first file'" "cursor_index file' = 0"
    and r: "andThen (file_sync file') (\<lambda>_. rest) s = (r, s')"
    and rest: "\<And>s1. \<lbrakk>fs_wf s1; fat_view s1 = fat_view s; sb s1 = sb s; rest s1 = (r, s')\<rbrakk> \<Longrightarrow>
      fat_step s1 s' \<and> (\<forall>c. c \<notin> set cs \<longrightarrow> fat_view s' c = fat_view s c) \<and>
      (r = Inr () \<and> is_chain (fat_view s') (cluster_count (sb s)) (f_first file') (take j cs) \<or>
       r = Inl FS_ERR_IO \<and> (\<exists>i \<ge> j. is_chain (fat_view s') (cluster_count (sb s)) (f_first file') (take i cs)))"
    and old: "contents s rs (handle_name s file) = Some old"
  shows "fs_inv s' rs \<and> mounted s' = mounted s \<and> (\<forall>m. m \<noteq> handle_name s file \<longrightarrow> contents s' rs m = contents s rs m) \<and>
    (r = Inr () \<and> handle_ok s' rs file' \<and> handle_name s' file' = handle_name s file \<and> contents s' rs (handle_name s file) = Some (take n old) \<or>
     r = Inl FS_ERR_IO \<and> contents s' rs (handle_name s file) \<in> {Some old, Some (take n old)})"
proof -
  let ?l = "handle_loc file" and ?ls = "set (dir_locs s rs)"
  let ?e = "entry_at s ?l"
  let ?e' = "?e\<lparr>de_first := f_first file', de_size := f_size file'\<rparr>"
  have wf: "fs_wf s" using inv by (simp add: fs_inv_def)
  have he: "?l \<in> ?ls" "de_size ?e = f_size file" "de_first ?e = f_first file" using h by (simp_all add: handle_ok_def)
  have sm: "f_first file' < 4294967296" "f_size file' < 4294967296"
    using entry_at_small[of s ?l] he f' n(1) by auto
  have l': "handle_loc file' \<in> ?ls" using he(1) f'(1) by simp
  have ds: "dir_sector file' = dir_sector file" "{dir_sector file} \<subseteq> chain_blocks s rs" using f'(1) he(1) by (simp_all add: handle_loc_def in_dir_locs)
  have sync: "keeps {dir_sector file} s s1 \<and> fat_view s1 = fat_view s \<and>
      (r1 = Inr () \<and> (\<forall>k \<in> ?ls. entry_at s1 k = ((entry_at s)(?l := ?e')) k) \<or>
       r1 = Inl FS_ERR_IO \<and> ((\<forall>k \<in> ?ls. entry_at s1 k = entry_at s k) \<or> (\<forall>k \<in> ?ls. entry_at s1 k = ((entry_at s)(?l := ?e')) k)))"
    if "file_sync file' s = (r1, s1)" for r1 s1
    using file_sync_entry[OF inv l' sm that] unfolding f'(1) ds(1) by blast
  have ch: "is_chain (fat_view s) (cluster_count (sb s)) (f_first file) cs" by (rule file_ok_chain[OF ok])
  from r show ?thesis
  proof (cases rule: andThen_cases)
    case (err x)
    have k: "keeps {dir_sector file} s s'" "fat_view s' = fat_view s" "x = FS_ERR_IO" using sync[OF err(1)] by auto
    consider "\<forall>k \<in> ?ls. entry_at s' k = entry_at s k" | "\<forall>k \<in> ?ls. entry_at s' k = ((entry_at s)(?l := ?e')) k" using sync[OF err(1)] by blast
    then show ?thesis
    proof cases
      case 1
      then show ?thesis using contents_same[OF inv k(1) ds(2) k(2)] keeps_wf[OF k(1)] err(2) k(3) old by simp
    next
      case 2
      have "fs_inv s' rs \<and> (\<forall>m. m \<noteq> handle_name s file \<longrightarrow> contents s' rs m = contents s rs m) \<and> contents s' rs (handle_name s file) = Some (take n old)"
      proof (cases "j = 0")
        case True
        then show ?thesis using cut_step[OF inv h ok n(1) _ k(1) _ _ _ old, where j = 0 and first = 0] n(2) k(2) 2 f' by simp
      next
        case False
        have "n \<le> length (take (length cs) cs) * cluster_bytes s" using n(2) order_trans[OF n(2) mult_le_mono1[of "length (take j cs)" "length cs"]] by simp
        then show ?thesis
          using cut_step[OF inv h ok n(1) _ k(1) _ _ _ old, where j = "length cs" and first = "f_first file"] k(2) 2 f' False ch by simp
      qed
      then show ?thesis using keeps_wf[OF k(1)] err(2) k(3) by simp
    qed
  next
    case (ok u s1)
    have k: "keeps {dir_sector file} s s1" "fat_view s1 = fat_view s" "\<forall>k \<in> ?ls. entry_at s1 k = ((entry_at s)(?l := ?e')) k"
      using sync[OF ok(1)] by auto
    have w1: "fs_wf s1" "sb s1 = sb s" using keeps_wf[OF k(1)] by simp_all
    note R = rest[OF w1(1) k(2) w1(2) ok(2)]
    have k2: "keeps {} s1 s'" using R fat_step_keeps by blast
    have k': "keeps {dir_sector file} s s'" using keeps_trans[OF k(1) keeps_mono[OF k2]] by simp
    have E: "\<forall>k \<in> ?ls. entry_at s' k = ((entry_at s)(?l := ?e')) k"
      using k(3) entry_at_keeps[OF k2] fs_inv_locs[OF inv] block_area_keeps[OF k(1)] by auto
    obtain i where i: "i \<ge> j" "is_chain (fat_view s') (cluster_count (sb s)) (f_first file') (take i cs)" "r = Inr () \<longrightarrow> i = j"
      using R by auto
    have "length (take j cs) \<le> length (take i cs)" using i(1) j by simp
    then have ni: "n \<le> length (take i cs) * cluster_bytes s" using n(2) order_trans[OF n(2) mult_le_mono1] by blast
    have C: "fs_inv s' rs \<and> (\<forall>m. m \<noteq> handle_name s file \<longrightarrow> contents s' rs m = contents s rs m) \<and> contents s' rs (handle_name s file) = Some (take n old)"
      using cut_step[OF inv h \<open>file_ok s file cs\<close> n(1) ni k' _ i(2) _ old] R E f'(2) by simp
    moreover have "handle_ok s' rs file'" if "r = Inr ()"
    proof (rule handle_after[OF h k' f'(1) E])
      show "file_ok s' file' (take j cs)" using i that f'(4,5) keeps_wf[OF k'] by (cases "take j cs") (auto simp: file_ok_def)
    qed
    moreover have "handle_name s' file' = handle_name s file" using E he(1) f'(1) by (simp add: handle_name_def)
    ultimately show ?thesis using R keeps_wf[OF k'] by auto
  qed
qed

lemma chain_drop:
  assumes "is_chain fv n c cs" "j < length cs"
  shows "is_chain fv n (cs ! j) (drop j cs)"
  using is_chain_drop[of fv n c "take j cs" "cs ! j" "drop (Suc j) cs"] assms Cons_nth_drop_Suc[OF assms(2)] by simp

text \<open>Cutting the chain behind its first \<open>j\<close> clusters and releasing the others.\<close>

lemma cut_tail:
  assumes wf: "fs_wf s" and ch: "is_chain (fat_view s) (cluster_count (sb s)) first cs" and j: "0 < j" "j < length cs"
    and r: "andThen (fat_set (cs ! (j - 1)) CHAIN_END) (\<lambda>_. chain_free (cs ! j)) s = (r, s')"
  shows "fat_step s s' \<and> (\<forall>c. c \<notin> set cs \<longrightarrow> fat_view s' c = fat_view s c) \<and>
    (r = Inr () \<and> is_chain (fat_view s') (cluster_count (sb s)) first (take j cs) \<or>
     r = Inl FS_ERR_IO \<and> (\<exists>i \<ge> j. is_chain (fat_view s') (cluster_count (sb s)) first (take i cs)))"
proof -
  let ?n = "cluster_count (sb s)" and ?x = "cs ! (j - 1)"
  have mem: "?x \<in> set cs" using j by simp
  have x: "1 \<le> ?x" "?x \<le> ?n" using is_chain_range[OF ch mem] by simp_all
  from r show ?thesis
  proof (cases rule: andThen_cases)
    case (err e)
    have F: "fat_step s s'" "fat_view s' = fat_view s" "e = FS_ERR_IO" using fat_set_spec[OF wf err(1)] x by (auto simp: fat_step_def)
    have "is_chain (fat_view s') ?n first (take (length cs) cs)" using ch F(2) by simp
    then show ?thesis using F err(2) j(2) by (auto intro!: exI[of _ "length cs"])
  next
    case (ok u s1)
    have F: "fat_step s s1" "fat_view s1 = (fat_view s)(?x := CHAIN_END)" using fat_set_spec[OF wf ok(1)] x by (auto simp: fat_step_def)
    have w1: "fs_wf s1" "sb s1 = sb s" using F(1) fat_step_sb[OF F(1)] by (simp_all add: fat_step_def)
    have d: "distinct cs" by (rule is_chain_distinct[OF ch])
    have out: "?x \<notin> set (drop j cs)" using j d by (auto simp: in_set_conv_nth nth_eq_iff_index_eq)
    have cut: "is_chain (fat_view s1) ?n first (take j cs)" using is_chain_cut[OF ch j(1) _ F(2)] j(2) by simp
    have tail: "is_chain (fat_view s1) (cluster_count (sb s1)) (cs ! j) (drop j cs)"
    proof -
      have "fat_view s1 c = fat_view s c" if "c \<in> set (drop j cs)" for c using that out F(2) by auto
      then show ?thesis using is_chain_cong[of "drop j cs" "fat_view s1" "fat_view s" ?n "cs ! j"] chain_drop[OF ch j(2)] w1(2) by simp
    qed
    note R = chain_free_spec[OF w1(1) tail ok(2)]
    have dis: "set (take j cs) \<inter> set (drop j cs) = {}" using d by (rule set_take_disj_set_drop_if_distinct) simp
    have "set (take i (drop j cs)) \<subseteq> set cs" for i using set_take_subset set_drop_subset by (rule order_trans)
    then have off: "c \<notin> set cs \<Longrightarrow> fat_view s' c = fat_view s c" for c
      using R F(2) mem set_drop_subset[of j cs] unfolding released_def by (elim conjE disjE exE) (auto dest: subsetD)
    have "fat_view s' c = fat_view s1 c" if "c \<in> set (take j cs)" for c
      using R dis that set_take_subset[of _ "drop j cs"] unfolding released_def by (elim conjE disjE exE) (auto dest: subsetD)
    then have "is_chain (fat_view s') ?n first (take j cs)" using is_chain_cong[of "take j cs" "fat_view s'" "fat_view s1"] cut by simp
    then show ?thesis using R off fat_step_trans[OF F(1)] by auto
  qed
qed

lemma andThen_ok: "m s = (Inr a, s1) \<Longrightarrow> andThen m f s = f a s1"
  by (simp add: andThen_def)

lemma truncate_impl_spec:
  assumes inv: "fs_inv s rs" and h: "handle_ok s rs file" and r: "truncate_impl n (file, s) = (r, file', s')"
    and old: "contents s rs (handle_name s file) = Some old"
  shows "fs_inv s' rs \<and> mounted s' = mounted s \<and> (\<forall>m. m \<noteq> handle_name s file \<longrightarrow> contents s' rs m = contents s rs m) \<and>
    (\<not> mounted s \<longrightarrow> r = Inl FS_ERR_NOFS \<and> s' = s) \<and> (mounted s \<and> length old < n \<longrightarrow> r = Inl FS_ERR_INVAL \<and> s' = s) \<and>
    (mounted s \<and> n \<le> length old \<longrightarrow>
      r = Inr () \<and> handle_ok s' rs file' \<and> handle_name s' file' = handle_name s file \<and> contents s' rs (handle_name s file) = Some (take n old) \<or>
      r = Inl FS_ERR_IO \<and> contents s' rs (handle_name s file) \<in> {Some old, Some (take n old)})"
proof -
  obtain cs where ok: "file_ok s file cs" and fit: "f_size file \<le> length cs * cluster_bytes s" by (rule handle_entry[OF inv h])
  have o: "old = map (file_byte s cs) [0..<f_size file]" using handle_contents[OF inv h ok] old by simp
  have wf: "fs_wf s" using inv by (simp add: fs_inv_def)
  let ?cb = "cluster_bytes s"
  define keep where "keep = n div ?cb + (if n mod ?cb \<noteq> 0 then 1 else 0)"
  have ceil: "n \<le> keep * ?cb"
    using dividend_less_div_times[OF cluster_bytes_pos, of n s] by (auto simp: keep_def)
  consider (nofs) "\<not> mounted s" | (same) "mounted s" "n = f_size file" | (inval) "mounted s" "f_size file < n"
    | (all) "mounted s" "n < f_size file" "keep = 0" | (part) "mounted s" "n < f_size file" "keep \<noteq> 0" by linarith
  then show ?thesis
  proof cases
    case nofs
    then have "r = Inl FS_ERR_NOFS" "s' = s" using r by (simp_all add: truncate_impl_def)
    then show ?thesis using inv nofs by simp
  next
    case same
    then have "r = Inr ()" "s' = s" "file' = file" using r by (simp_all add: truncate_impl_def)
    then show ?thesis using inv same h old o by simp
  next
    case inval
    then have "r = Inl FS_ERR_INVAL" "s' = s" using r by (simp_all add: truncate_impl_def)
    then show ?thesis using inv inval o by simp
  next
    case all
    have n0: "n = 0" using ceil all(3) by simp
    define file0 where "file0 = file\<lparr>f_first := 0, f_size := 0, cursor_index := 0, cursor_cluster := 0\<rparr>"
    have "truncate_all (file, s) = (r, file', s')" using r all n0 by (simp add: truncate_impl_def Let_def)
    then have run: "andThen (file_sync file0) (\<lambda>_. chain_free (f_first file)) s = (r, s')" "file' = file0"
      by (auto simp: truncate_all_def on_fs_def file0_def Let_def split: prod.splits)
    have rest: "fat_step s1 s' \<and> (\<forall>c. c \<notin> set cs \<longrightarrow> fat_view s' c = fat_view s c) \<and>
        (r = Inr () \<and> is_chain (fat_view s') (cluster_count (sb s)) (f_first file0) (take 0 cs) \<or>
         r = Inl FS_ERR_IO \<and> (\<exists>i \<ge> 0. is_chain (fat_view s') (cluster_count (sb s)) (f_first file0) (take i cs)))"
      if "fs_wf s1" "fat_view s1 = fat_view s" "sb s1 = sb s" "chain_free (f_first file) s1 = (r, s')" for s1
    proof -
      have "is_chain (fat_view s1) (cluster_count (sb s1)) (f_first file) cs" using file_ok_chain[OF ok] that by simp
      note R = chain_free_spec[OF that(1) this that(4)]
      then have "\<forall>c. c \<notin> set cs \<longrightarrow> fat_view s' c = fat_view s c" using that(2) by (auto simp: released_def dest: in_set_takeD)
      then show ?thesis using R by (auto simp: file0_def intro!: exI[of _ 0])
    qed
    have "fs_inv s' rs \<and> mounted s' = mounted s \<and> (\<forall>m. m \<noteq> handle_name s file \<longrightarrow> contents s' rs m = contents s rs m) \<and>
        (r = Inr () \<and> handle_ok s' rs file0 \<and> handle_name s' file0 = handle_name s file \<and> contents s' rs (handle_name s file) = Some (take n old) \<or>
         r = Inl FS_ERR_IO \<and> contents s' rs (handle_name s file) \<in> {Some old, Some (take n old)})"
      by (rule truncate_tail[OF inv h ok _ _ _ _ _ _ _ _ run(1) rest old]) (use n0 in \<open>simp_all add: file0_def handle_loc_def\<close>)
    then show ?thesis using run(2) all o by simp
  next
    case part
    have kl: "keep \<le> length cs"
    proof (rule ccontr)
      assume "\<not> keep \<le> length cs"
      then have "length cs * ?cb \<le> (keep - 1) * ?cb" by (intro mult_le_mono1) simp
      moreover have "(keep - 1) * ?cb \<le> n" using div_times_less_eq_dividend[of n ?cb] by (auto simp: keep_def intro: order_trans[OF mult_le_mono1])
      ultimately show False using fit part(2) by linarith
    qed
    define last where "last = cs ! (keep - 1)"
    have run: "truncate_to keep n (file, s) = (r, file', s')" using r part by (auto simp: truncate_impl_def Let_def keep_def)
    have i: "keep - 1 < length cs" using kl part(3) by simp
    have ch: "is_chain (fat_view s) (cluster_count (sb s)) (f_first file) cs" by (rule file_ok_chain[OF ok])
    obtain r1 file1 s1 where f: "file_reach (keep - 1) False (file, s) = (r1, file1, s1)" by (metis prod_cases3)
    note R = file_reach_read[OF wf ok i f]
    have k1: "keeps {} s s1" "fat_view s1 = fat_view s" using R fat_same_keeps by blast+
    have w1: "fs_wf s1" "sb s1 = sb s" using keeps_wf[OF k1(1)] by simp_all
    have quiet: "fs_inv s4 rs \<and> contents s4 rs = contents s rs" if "keeps {} s s4" "fat_view s4 = fat_view s" for s4
      using contents_same[OF inv that(1) _ that(2)] fs_inv_keeps[OF inv that] by simp
    show ?thesis
    proof (cases "r1 = Inr ()")
      case False
      then have e: "r1 = Inl FS_ERR_IO" "file1 = file" using R by auto
      then have "r = Inl FS_ERR_IO" "s' = s1"
        using run f by (simp_all add: truncate_to_def andThen_def)
      then show ?thesis using quiet[OF k1] keeps_wf[OF k1(1)] part old o by simp
    next
      case True
      then have f1: "file1 = file\<lparr>cursor_cluster := last, cursor_index := keep - 1\<rparr>" using R by (auto simp: last_def)
      obtain r2 s2 where c: "chain_next last s1 = (r2, s2)" by fastforce
      have C: "fat_same s1 s2" "r2 = Inr (if keep < length cs then cs ! keep else 0) \<or> r2 = Inl FS_ERR_IO"
        using chain_next_in_chain[OF w1(1) c[unfolded last_def] _ i] ch k1(2) w1(2) part(3) by auto
      have k2: "keeps {} s s2" "fat_view s2 = fat_view s"
        using keeps_trans[OF k1(1)] fat_same_keeps[OF C(1), of "{}"] k1(2) by auto
      show ?thesis
      proof (cases "r2 = Inl FS_ERR_IO")
        case True2: True
        then have "r = Inl FS_ERR_IO" "s' = s2"
          using run f True f1 c by (simp_all add: truncate_to_def andThen_def Let_def with_file_def on_fs_def)
        then show ?thesis using quiet[OF k2] keeps_wf[OF k2(1)] part old o by simp
      next
        case False
        define tail where "tail = (if keep < length cs then cs ! keep else 0)"
        define file2 where "file2 = file1\<lparr>f_size := n, cursor_index := 0, cursor_cluster := f_first file1\<rparr>"
        define rest where "rest = (if tail = 0 then (\<lambda>s. (Inr (), s)) else andThen (fat_set last CHAIN_END) (\<lambda>_. chain_free tail))"
        have r2: "r2 = Inr tail" using C(2) False by (simp add: tail_def)
        have step: "on_fs (chain_next last) (file1, s1) = (Inr tail, file1, s2)" using c r2 by (simp add: on_fs_def)
        have cur: "cursor_cluster file1 = last" by (simp add: f1)
        have "on_fs (andThen (file_sync file2) (\<lambda>_. rest)) (file2, s2) = (r, file', s')"
          using run unfolding truncate_to_def andThen_ok[where m = "file_reach (keep - 1) False" and s = "(file, s)", OF f[unfolded True]] with_file_def prod.case cur Let_def 
            andThen_ok[where m = "on_fs (chain_next last)" and s = "(file1, s1)", OF step] rest_def file2_def .
        then have st: "andThen (file_sync file2) (\<lambda>_. rest) s2 = (r, s')" "file' = file2" by (auto simp: on_fs_def split: prod.splits)
        have I2: "fs_inv s2 rs" "contents s2 rs = contents s rs" "handle_ok s2 rs file"
          using quiet[OF k2] handle_ok_keeps[OF inv h k2] by simp_all
        have E2: "handle_name s2 file = handle_name s file"
          using fs_inv_keeps[OF inv k2] h by (simp add: handle_name_def handle_ok_def)
        have ok2: "file_ok s2 file cs" using file_ok_step[OF ok k2(2)] keeps_wf[OF k2(1)] by simp
        have sb2: "sb s2 = sb s" "cluster_bytes s2 = ?cb" using keeps_wf[OF k2(1)] cluster_bytes_keeps[OF k2(1)] by simp_all
        have tz: "tail \<noteq> 0" if "keep < length cs" using is_chain_range[OF ch, of "cs ! keep"] that by (simp add: tail_def)
        have cut: "fat_step s3 s' \<and> (\<forall>c. c \<notin> set cs \<longrightarrow> fat_view s' c = fat_view s2 c) \<and>
            (r = Inr () \<and> is_chain (fat_view s') (cluster_count (sb s2)) (f_first file2) (take keep cs) \<or>
             r = Inl FS_ERR_IO \<and> (\<exists>i \<ge> keep. is_chain (fat_view s') (cluster_count (sb s2)) (f_first file2) (take i cs)))"
          if s3: "fs_wf s3" "fat_view s3 = fat_view s2" "sb s3 = sb s2" "rest s3 = (r, s')" for s3
        proof -
          have ch3: "is_chain (fat_view s3) (cluster_count (sb s3)) (f_first file) cs" using ch s3 k2(2) sb2 by simp
          show ?thesis
          proof (cases "keep < length cs")
            case True
            then have "andThen (fat_set (cs ! (keep - 1)) CHAIN_END) (\<lambda>_. chain_free (cs ! keep)) s3 = (r, s')"
              using s3(4) tz[OF True] by (simp add: rest_def tail_def last_def)
            then show ?thesis using cut_tail[OF s3(1) ch3 _ True] part(3) s3(2,3) by (simp add: file2_def f1)
          next
            case False
            then have "r = Inr ()" "s' = s3" "take keep cs = cs" using s3(4) kl by (simp_all add: rest_def tail_def)
            then show ?thesis using ch3 s3 fat_step_refl[OF s3(1)] by (simp add: file2_def f1)
          qed
        qed
        have nj: "n \<le> length (take keep cs) * cluster_bytes s2" using ceil kl sb2(2) by (simp add: min_absorb2)
        have "fs_inv s' rs \<and> mounted s' = mounted s2 \<and> (\<forall>m. m \<noteq> handle_name s2 file \<longrightarrow> contents s' rs m = contents s2 rs m) \<and>
            (r = Inr () \<and> handle_ok s' rs file2 \<and> handle_name s' file2 = handle_name s2 file \<and> contents s' rs (handle_name s2 file) = Some (take n old) \<or>
             r = Inl FS_ERR_IO \<and> contents s' rs (handle_name s2 file) \<in> {Some old, Some (take n old)})"
          by (rule truncate_tail[OF I2(1,3) ok2 _ nj kl _ _ _ _ _ st(1) cut])
            (use part(2,3) I2(2) E2 old in \<open>simp_all add: file2_def f1 handle_loc_def\<close>)
        then show ?thesis using E2 I2(2) st(2) keeps_wf[OF k2(1)] part o by simp
      qed
    qed
  qed
qed

lemma fs_truncate_spec:
  assumes inv: "fs_inv s rs" and h: "handle_ok s rs file" and r: "fs_truncate n (file, s) = (r, file', s')"
    and old: "contents s rs (handle_name s file) = Some old"
  shows "fs_inv s' rs \<and> mounted s' = mounted s \<and> (\<forall>m. m \<noteq> handle_name s file \<longrightarrow> contents s' rs m = contents s rs m) \<and>
    (\<not> mounted s \<longrightarrow> r = Inl FS_ERR_NOFS \<and> contents s' rs = contents s rs) \<and>
    (mounted s \<and> length old < n \<longrightarrow> r = Inl FS_ERR_INVAL \<and> contents s' rs = contents s rs) \<and>
    (mounted s \<and> n \<le> length old \<longrightarrow>
      r = Inr () \<and> handle_ok s' rs file' \<and> handle_name s' file' = handle_name s file \<and> contents s' rs (handle_name s file) = Some (take n old) \<or>
      r = Inl FS_ERR_IO \<and> contents s' rs (handle_name s file) \<in> {Some old, Some (take n old)})"
proof -
  obtain r1 s1 where w: "truncate_impl n (file, s) = (r1, file', s1)" "finish r1 s1 = (r, s')"
    using r by (auto simp: fs_truncate_def finishing_file_def Let_def split: prod.splits)
  note W = truncate_impl_spec[OF inv h w(1) old]
  then have inv1: "fs_inv s1 rs" by blast
  note F = finish_spec[OF w(2) inv1]
  have E: "\<forall>l \<in> set (dir_locs s1 rs). entry_at s' l = entry_at s1 l" using fs_inv_keeps[OF inv1, of "{}" s'] F by simp
  have c: "contents s' rs = contents s1 rs" using contents_same[OF inv1 _ _ _ E, of "{}"] F by simp
  have hk: "handle_ok s1 rs file' \<Longrightarrow> handle_ok s' rs file'" using handle_ok_keeps[OF inv1] F by blast
  have hn: "handle_name s' file' = handle_name s1 file'" if "handle_ok s1 rs file'" using E that by (simp add: handle_name_def handle_ok_def)
  have "mounted s' = mounted s1" using F keeps_wf by blast
  then show ?thesis using W F c hk hn by auto
qed


section \<open>The example\<close>

definition example_file :: fs_file where
  "example_file = \<lparr>dir_sector = 2, dir_slot = 0, f_first = 2, f_size = 3, cursor_index = 0, cursor_cluster = 2\<rparr>"

lemma example_loc: "handle_loc example_file \<in> set (dir_locs (example_fs a v) [1])"
    "entry_at (example_fs a v) (handle_loc example_file) = example_entry"
proof -
  show l: "handle_loc example_file \<in> set (dir_locs (example_fs a v) [1])"
    unfolding example_locs by (simp add: handle_loc_def example_file_def)
  show "entry_at (example_fs a v) (handle_loc example_file) = example_entry"
    using example_entries[OF l] by (simp add: handle_loc_def example_file_def)
qed

lemma example_file_ok: "file_ok (example_fs a v) example_file [2]"
  using example_table(2)[of a v] by (simp add: file_ok_def example_file_def next_of_def) (simp add: example_fs_def example_super_def)

lemma example_handle: "handle_ok (example_fs a v) [1] example_file"
  unfolding handle_ok_def example_loc(2) using example_loc(1)[of a v] example_file_ok[of a v]
  by (auto simp: example_entry_def slot_used_def) (simp_all add: example_file_def)

lemma example_name: "handle_name (example_fs a v) example_file = [97]"
  unfolding handle_name_def example_loc(2) by (simp add: example_entry_def cname_def)

lemma example_contents: "contents (example_fs a v) [1] [97] = Some [104, 105, 33]"
proof -
  let ?s = "example_fs a v"
  have "file_byte ?s [2] q = [104, 105, 33] ! q" if "q < 3" for q
  proof -
    have "addr ?s [2] q = 3 * 512 + q" using that by (simp add: addr_def cluster_sector_def cluster_bytes_def example_fs_def example_super_def)
    moreover have "(3 * 512 + q) div 512 = 3" "(3 * 512 + q) mod 512 = q" using that by (simp_all only: div_mult_self3 mod_mult_self3) simp_all
    ultimately have "file_byte ?s [2] q = example_medium 4099 ! q" unfolding file_byte_def disk_byte_def example_blk by simp
    also have "\<dots> = [104, 105, 33] ! q" using that by (simp add: example_medium_def nth_write_at)
    finally show ?thesis .
  qed
  then have "map (file_byte ?s [2]) [0..<3] = map (\<lambda>q. [104, 105, 33] ! q) [0..<3]" by simp
  also have "\<dots> = [104, 105, 33]" by (simp add: upt_rec)
  finally show ?thesis
    using handle_contents[OF example_inv example_handle example_file_ok, of a v] unfolding example_name by (simp add: example_file_def)
qed


lemma write_read_spec:
  assumes inv: "fs_inv s rs" and h: "handle_ok s rs file" and len: "count \<le> length data" "count \<le> length out"
    and w: "fs_write offset data count (file, s) = (Inr n, file1, s1)"
  shows "let (r, out', file2, s2) = fs_read offset out n file1 s1 in
    case r of Inl e \<Rightarrow> e = FS_ERR_IO | Inr m \<Rightarrow> m \<le> n \<and> take m out' = take m data \<and> (0 < n \<longrightarrow> 0 < m)"
proof -
  obtain cs where ok: "file_ok s file cs" by (rule handle_entry[OF inv h])
  note old = handle_contents[OF inv h ok]
  let ?old = "map (file_byte s cs) [0..<f_size file]"
  have W: "fs_inv s1 rs" "n \<le> count" "handle_ok s1 rs file1" "offset \<le> length ?old" "handle_name s1 file1 = handle_name s file" "mounted s1"
      "\<exists>new. contents s1 rs (handle_name s file) = Some new \<and> written ?old offset data count n new"
    using fs_write_spec[OF inv h len(1) w old] by auto
  then obtain new where new: "contents s1 rs (handle_name s file) = Some new" "written ?old offset data count n new" by blast
  obtain r out' file2 s2 where rd: "fs_read offset out n file1 s1 = (r, out', file2, s2)" by (metis prod_cases4)
  have R: "case r of Inl e \<Rightarrow> e = FS_ERR_IO
     | Inr m \<Rightarrow> m \<le> n \<and> take m out' = take m (drop offset new) \<and> (m = 0 \<longleftrightarrow> n = 0 \<or> length new \<le> offset)"
    using fs_read_spec[OF W(1,3) _ rd, of new] new(1) W(2,5,6) len(2) by (auto split: sum.splits)
  have "take n (drop offset new) = take n data"
    using new(2) W(4) by (simp add: written_def take_drop add.commute)
  then have "take m (drop offset new) = take m data" if "m \<le> n" for m using that by (metis min.absorb1 take_take)
  moreover have "0 < n \<Longrightarrow> offset < length new" using new(2) by (simp add: written_def)
  ultimately show ?thesis using R rd by (auto split: sum.splits)
qed


section \<open>The operations\<close>

text \<open>
  C11. Writing to an open file keeps the invariant of the file system, whatever the disk answers, and
  leaves the contents of every other file alone.  If it reports \<open>n\<close> bytes then the contents of the file
  are the old ones up to the offset followed by the first \<open>n\<close> bytes of the data, nothing behind the
  window has changed, the handle agrees with the directory and the table is on the disk.  An offset
  behind the end of the file is \<open>FS_ERR_INVAL\<close>.
\<close>

theorem fs_write_correct:
  assumes inv: "fs_inv s rs" and h: "handle_ok s rs file" and len: "count \<le> length data"
    and old: "contents s rs (handle_name s file) = Some old"
  shows "let (r, file', s') = fs_write offset data count (file, s) in
    fs_inv s' rs \<and> (\<forall>m. m \<noteq> handle_name s file \<longrightarrow> contents s' rs m = contents s rs m) \<and>
    (\<not> mounted s \<longrightarrow> r = Inl FS_ERR_NOFS \<and> contents s' rs = contents s rs) \<and>
    (mounted s \<and> length old < offset \<longrightarrow> r = Inl FS_ERR_INVAL \<and> contents s' rs = contents s rs) \<and>
    (\<forall>n. r = Inr n \<longrightarrow> n \<le> count \<and> handle_ok s' rs file' \<and> handle_name s' file' = handle_name s file \<and> mounted s' \<and>
      \<not> fat_dirty s' \<and> offset \<le> length old \<and>
      (\<exists>new. contents s' rs (handle_name s file) = Some new \<and> written old offset data count n new))"
  using fs_write_spec[OF inv h len _ old] by (cases "fs_write offset data count (file, s)") auto

theorem fs_write_correct_witness:
  "\<forall>a v. let (r, file', s') = fs_write 2 [46, 46] 2 (example_file, example_fs a v) in
    \<forall>n. r = Inr n \<longrightarrow> (\<exists>new. contents s' [1] [97] = Some new \<and> written [104, 105, 33] 2 [46, 46] 2 n new)"
proof (intro allI)
  fix a v
  show "let (r, file', s') = fs_write 2 [46, 46] 2 (example_file, example_fs a v) in
    \<forall>n. r = Inr n \<longrightarrow> (\<exists>new. contents s' [1] [97] = Some new \<and> written [104, 105, 33] 2 [46, 46] 2 n new)"
    using fs_write_correct[OF example_inv example_handle, of 2 "[46, 46]" a v "[104, 105, 33]" 2] example_contents[of a v]
    unfolding example_name by (auto simp: split_beta Let_def)
qed

text \<open>
  C16. Reading from an open file changes no contents, and if it reports \<open>m\<close> bytes they are the \<open>m\<close> bytes of
  the contents from the offset on; it reports none only at the end of the file or if none were asked
  for.  The only errors are a fault of the disk and a missing file system.
\<close>

theorem fs_read_correct:
  assumes inv: "fs_inv s rs" and h: "handle_ok s rs file" and len: "count \<le> length out"
    and old: "contents s rs (handle_name s file) = Some old"
  shows "let (r, out', file', s') = fs_read offset out count file s in
    fs_inv s' rs \<and> contents s' rs = contents s rs \<and> handle_ok s' rs file' \<and> handle_name s' file' = handle_name s file \<and> length out' = length out \<and>
    (case r of Inl e \<Rightarrow> e = (if mounted s then FS_ERR_IO else FS_ERR_NOFS)
     | Inr m \<Rightarrow> m \<le> count \<and> m \<le> length old - offset \<and> take m out' = take m (drop offset old) \<and> (m = 0 \<longleftrightarrow> count = 0 \<or> length old \<le> offset))"
  using fs_read_spec[OF inv h len _ old] by (cases "fs_read offset out count file s") auto

theorem fs_read_correct_witness:
  "\<forall>a v. let (r, out', file', s') = fs_read 1 [0, 0, 0, 0] 4 example_file (example_fs a v) in
    (case r of Inl e \<Rightarrow> e = FS_ERR_IO | Inr m \<Rightarrow> 0 < m \<and> m \<le> 2 \<and> take m out' = take m [105, 33])"
proof (intro allI)
  fix a v
  have m: "mounted (example_fs a v)" by (simp add: example_fs_def)
  show "let (r, out', file', s') = fs_read 1 [0, 0, 0, 0] 4 example_file (example_fs a v) in
    (case r of Inl e \<Rightarrow> e = FS_ERR_IO | Inr m \<Rightarrow> 0 < m \<and> m \<le> 2 \<and> take m out' = take m [105, 33])"
    using fs_read_correct[OF example_inv example_handle, of 4 "[0, 0, 0, 0]" a v "[104, 105, 33]" 1] example_contents[of a v] m
    unfolding example_name by (auto simp: split_beta Let_def split: sum.splits)
qed

text \<open>
  What has been written is read back: if writing reports \<open>n\<close> bytes, reading at the same offset gives
  bytes of the data and at least one of them, unless the disk fails.
\<close>

theorem fs_write_then_read:
  assumes inv: "fs_inv s rs" and h: "handle_ok s rs file" and len: "count \<le> length data" "count \<le> length out"
  shows "let (w, file1, s1) = fs_write offset data count (file, s) in
    \<forall>n. w = Inr n \<longrightarrow> (let (r, out', file2, s2) = fs_read offset out n file1 s1 in
      case r of Inl e \<Rightarrow> e = FS_ERR_IO | Inr m \<Rightarrow> m \<le> n \<and> take m out' = take m data \<and> (0 < n \<longrightarrow> 0 < m))"
  using write_read_spec[OF assms] by (cases "fs_write offset data count (file, s)") auto

theorem fs_write_then_read_witness:
  "\<forall>a v. let (w, file1, s1) = fs_write 1 [46, 47] 2 (example_file, example_fs a v) in
    \<forall>n. w = Inr n \<longrightarrow> (let (r, out', file2, s2) = fs_read 1 [0, 0] n file1 s1 in
      case r of Inl e \<Rightarrow> e = FS_ERR_IO | Inr m \<Rightarrow> m \<le> n \<and> take m out' = take m [46, 47] \<and> (0 < n \<longrightarrow> 0 < m))"
  by (intro allI fs_write_then_read[OF example_inv example_handle]) simp_all

text \<open>
  C17. Truncating an open file keeps the invariant and leaves every other file alone; the file keeps its
  first \<open>n\<close> bytes and the clusters behind them are released, and a larger size is \<open>FS_ERR_INVAL\<close>.  A fault of
  the disk leaves the old contents or the new ones.
\<close>

theorem fs_truncate_correct:
  assumes inv: "fs_inv s rs" and h: "handle_ok s rs file" and old: "contents s rs (handle_name s file) = Some old"
  shows "let (r, file', s') = fs_truncate n (file, s) in
    fs_inv s' rs \<and> (\<forall>m. m \<noteq> handle_name s file \<longrightarrow> contents s' rs m = contents s rs m) \<and>
    (\<not> mounted s \<longrightarrow> r = Inl FS_ERR_NOFS \<and> contents s' rs = contents s rs) \<and>
    (mounted s \<and> length old < n \<longrightarrow> r = Inl FS_ERR_INVAL \<and> contents s' rs = contents s rs) \<and>
    (mounted s \<and> n \<le> length old \<longrightarrow>
      r = Inr () \<and> handle_ok s' rs file' \<and> contents s' rs (handle_name s file) = Some (take n old) \<or>
      r = Inl FS_ERR_IO \<and> contents s' rs (handle_name s file) \<in> {Some old, Some (take n old)})"
  using fs_truncate_spec[OF inv h _ old] by (cases "fs_truncate n (file, s)") auto

theorem fs_truncate_correct_witness:
  "\<forall>a v. let (r, file', s') = fs_truncate 1 (example_file, example_fs a v) in
    fs_inv s' [1] \<and> (r = Inr () \<and> contents s' [1] [97] = Some [104] \<or>
      r = Inl FS_ERR_IO \<and> contents s' [1] [97] \<in> {Some [104, 105, 33], Some [104]})"
proof (intro allI)
  fix a v
  have m: "mounted (example_fs a v)" by (simp add: example_fs_def)
  show "let (r, file', s') = fs_truncate 1 (example_file, example_fs a v) in
    fs_inv s' [1] \<and> (r = Inr () \<and> contents s' [1] [97] = Some [104] \<or>
      r = Inl FS_ERR_IO \<and> contents s' [1] [97] \<in> {Some [104, 105, 33], Some [104]})"
    using fs_truncate_correct[OF example_inv[of a v] example_handle, of "[104, 105, 33]" 1] example_contents[of a v] m
    unfolding example_name by (auto simp: split_beta Let_def)
qed

end
