(* ===== verification/Fs_Mount.thy ===== *)
theory Fs_Mount
  imports Fs_Content
begin

text \<open>
  The file system (\<open>kernel/fs.c\<close>), ninth part: what mounting accepts, that formatting makes an empty file
  system, and that a file system survives being mounted again.
\<close>

section \<open>The super block\<close>

lemma shift_for_powers: "list_all (\<lambda>c. 2 ^ shift_for c = c) [1, 2, 4, 8, 16, 32, 64, 128]"
  by code_simp

lemma shift_for_power: "c \<in> {1, 2, 4, 8, 16, 32, 64, 128} \<Longrightarrow> 2 ^ shift_for c = c"
  using shift_for_powers by (auto simp: list_all_iff)

lemma power_of_two_small:
  "list_all (\<lambda>c. c AND (c - 1) \<noteq> 0 \<or> c \<in> {1, 2, 4, 8, 16, 32, 64, 128}) [1..<129 :: nat]"
  by code_simp

lemma cluster_sectors_power:
  assumes "c \<noteq> 0" "c \<le> 128" "c AND (c - 1) = (0 :: nat)"
  shows "2 ^ shift_for c = c"
proof -
  have "c \<in> set [1..<129]" using assms(1,2) by auto
  then have "c \<in> {1, 2, 4, 8, 16, 32, 64, 128}" using power_of_two_small assms(3) unfolding list_all_iff by blast
  then show ?thesis by (rule shift_for_power)
qed

lemma fat_sectors_for_bounds:
  assumes "n < 4294967168"
  shows "n < 128 * fat_sectors_for n" "fat_sectors_for n \<le> n div 128 + 1"
proof -
  have "fat_sectors_for n = (n + 128) div 128" using assms by (simp add: fat_sectors_for_def)
  then have "fat_sectors_for n = n div 128 + 1" by simp
  then show "n < 128 * fat_sectors_for n" "fat_sectors_for n \<le> n div 128 + 1"
    using dividend_less_div_times[of 128 n] by auto
qed

text \<open>The checks of \<open>superblock_check\<close> give the geometry the other operations rely on: no sum overflows.\<close>

lemma superblock_check_geometry:
  assumes ok: "superblock_check disk b = Inr ()" and disk: "FS_LBA_START \<le> disk" "disk \<le> 268435456"
  shows "cluster_count b < 128 * fat_sectors b" "data_start b = 1 + fat_sectors b"
    "data_start b + cluster_count b * 2 ^ shift_for (cluster_sectors b) \<le> total_sectors b" "total_sectors b + FS_LBA_START \<le> disk"
    "1 \<le> root_cluster b" "root_cluster b \<le> cluster_count b" "2 ^ shift_for (cluster_sectors b) = cluster_sectors b"
proof -
  have d: "(disk + 4294967296 - FS_LBA_START) mod 4294967296 = disk - FS_LBA_START"
  proof -
    have "disk + 4294967296 - FS_LBA_START = (disk - FS_LBA_START) + 4294967296" using disk(1) by simp
    moreover have "disk - FS_LBA_START < 4294967296" using disk(2) by simp
    ultimately show ?thesis by (simp only: mod_add_self2 mod_less)
  qed
  let ?n = "cluster_count b" and ?c = "cluster_sectors b" and ?t = "total_sectors b"
  have c: "?c \<noteq> 0" "?c \<le> 128" "?c AND (?c - 1) = 0" and t: "?t \<le> disk - FS_LBA_START" and n: "?n \<le> ?t div ?c"
    and f: "fat_sectors b = fat_sectors_for ?n" and s: "data_start b = (1 + fat_sectors b) mod 4294967296"
    and e: "(data_start b + ?n * ?c) mod 4294967296 \<le> ?t" and r: "1 \<le> root_cluster b" "root_cluster b \<le> ?n"
    using ok d by (auto simp: superblock_check_def Let_def not_less split: if_splits)
  show p: "2 ^ shift_for ?c = ?c" by (rule cluster_sectors_power[OF c])
  have nc: "?n * ?c \<le> ?t" using n c(1) by (simp add: less_eq_div_iff_mult_less_eq)
  have nt: "?n \<le> ?t" using n div_le_dividend order_trans by blast
  have small: "?n < 4294967168" using nt t disk(2) by linarith
  note F = fat_sectors_for_bounds[OF small]
  have fs: "fat_sectors b \<le> 268435457" using F(2) f nt t disk(2) div_le_dividend[of ?n 128] by linarith
  then show ds: "data_start b = 1 + fat_sectors b" using s by simp
  have "data_start b + ?n * ?c < 4294967296" using ds fs nc t disk(2) by linarith
  then show "data_start b + ?n * 2 ^ shift_for ?c \<le> ?t" using e p by simp
  show "?n < 128 * fat_sectors b" using F(1) f by simp
  show "?t + FS_LBA_START \<le> disk" using t disk(1) by linarith
  show "1 \<le> root_cluster b" "root_cluster b \<le> ?n" by (rule r)+
qed

lemma disk_total_small: "disk_wf d \<Longrightarrow> disk_total d \<le> 268435456"
  by (auto simp: disk_wf_def ata_cap_def nvme_ok_def split: backend.splits)


section \<open>Mounting\<close>

text \<open>What holds before anything is mounted: the disk answers and the buffers are there.\<close>

definition fs_ready :: "fs_state \<Rightarrow> bool" where
  "fs_ready s \<longleftrightarrow> disk_wf (drive s) \<and> disk_sectors s \<le> disk_total (drive s) \<and> MIN_DISK_SECTORS \<le> disk_sectors s \<and>
     length (fat_cache s) = 512 \<and> length (dir_buf s) = 512 \<and> length (io_buf s) = 512"

lemma io_read_spec:
  assumes "fs_ready s" "FS_LBA_START + i < disk_total (drive s)" "io_read i s = (r, s')"
  obtains d buf where "s' = s\<lparr>drive := d, io_buf := buf\<rparr>" "disk_wf d" "disk_total d = disk_total (drive s)" "disk_medium d = disk_medium (drive s)"
    "length buf = 512" "r = Inr () \<and> buf = blk s i \<or> r = Inl FS_ERR_IO"
proof -
  have a: "disk_wf (drive s)" "length (io_buf s) = 512" using assms(1) by (simp_all add: fs_ready_def)
  obtain ok buf s1 where b: "block_read i (io_buf s) s = (ok, buf, s1)" by (metis prod_cases3)
  obtain d where d: "s1 = s\<lparr>drive := d\<rparr>" "disk_wf d" "disk_total d = disk_total (drive s)"
      "disk_medium d = disk_medium (drive s)" "length buf = 512" "ok \<longrightarrow> buf = blk s i"
    by (rule block_read_spec[OF a(1) assms(2) a(2) b]) blast
  have "s' = s\<lparr>drive := d, io_buf := buf\<rparr>" "r = Inr () \<and> buf = blk s i \<or> r = Inl FS_ERR_IO"
    using assms(3) b d(1,6) by (cases ok; auto simp: io_read_def)+
  then show thesis using that d by blast
qed

lemma mount_now_spec:
  assumes rdy: "fs_ready s" and r: "mount_now s = (r, s')"
  shows "fs_ready s' \<and> blk s' = blk s \<and> disk_sectors s' = disk_sectors s \<and> fat_cache_sector s' = NO_SECTOR \<and>
    (case r of
       Inr _ \<Rightarrow> fs_wf s' \<and> mounted s' \<and> sb s' = super_of (blk s 0) \<and> cluster_shift s' = shift_for (cluster_sectors (sb s')) \<and>
         sb_magic (sb s') = MAGIC_VALUE \<and> sb_version (sb s') = 1
     | Inl e \<Rightarrow> \<not> mounted s' \<and> (e = FS_ERR_IO \<or> e = FS_ERR_NOFS \<and> sb_magic (super_of (blk s 0)) \<noteq> MAGIC_VALUE \<or>
         e = FS_ERR_CORRUPT \<and> sb_magic (super_of (blk s 0)) = MAGIC_VALUE \<and>
           (sb_version (super_of (blk s 0)) \<noteq> 1 \<or> superblock_check (disk_sectors s) (super_of (blk s 0)) \<noteq> Inr ())))"
proof -
  define s0 where "s0 = s\<lparr>fat_cache_sector := NO_SECTOR, fat_dirty := False, next_free := 1, mounted := False\<rparr>"
  have rdy0: "fs_ready s0" "FS_LBA_START + 0 < disk_total (drive s0)" using rdy by (auto simp: fs_ready_def s0_def)
  obtain r1 s1 where i: "io_read 0 s0 = (r1, s1)" by fastforce
  obtain d buf where d: "s1 = s0\<lparr>drive := d, io_buf := buf\<rparr>" "disk_wf d" "disk_total d = disk_total (drive s0)"
      "disk_medium d = disk_medium (drive s0)" "length buf = 512" "r1 = Inr () \<and> buf = blk s0 0 \<or> r1 = Inl FS_ERR_IO"
    by (rule io_read_spec[OF rdy0 i]) blast
  have b: "blk s1 = blk s" "blk s0 = blk s" using d(1,4) by (simp_all add: blk_def s0_def fun_eq_iff)
  have rdy1: "fs_ready s1" using rdy0(1) d by (simp add: fs_ready_def)
  have ds: "FS_LBA_START \<le> disk_sectors s" "disk_sectors s \<le> 268435456"
    using rdy disk_total_small[of "drive s"] by (auto simp: fs_ready_def)
  have s1: "io_buf s1 = buf" "disk_sectors s1 = disk_sectors s" using d(1) by (simp_all add: s0_def)
  have "mount_now s = andThen (io_read 0) (\<lambda>_ s.
        let candidate = super_of (io_buf s) in
        if sb_magic candidate \<noteq> MAGIC_VALUE then (Inl FS_ERR_NOFS, s)
        else if sb_version candidate \<noteq> 1 then (Inl FS_ERR_CORRUPT, s)
        else case superblock_check (disk_sectors s) candidate of
          Inl e \<Rightarrow> (Inl e, s)
        | Inr _ \<Rightarrow> (Inr (), s\<lparr>sb := candidate, cluster_shift := shift_for (cluster_sectors candidate), mounted := True\<rparr>)) s0"
    unfolding mount_now_def Let_def s0_def ..
  then have step: "(case r1 of Inl e \<Rightarrow> (Inl e, s1)
      | Inr _ \<Rightarrow> let c = super_of buf in
          if sb_magic c \<noteq> MAGIC_VALUE then (Inl FS_ERR_NOFS, s1)
          else if sb_version c \<noteq> 1 then (Inl FS_ERR_CORRUPT, s1)
          else case superblock_check (disk_sectors s) c of
            Inl e \<Rightarrow> (Inl e, s1)
          | Inr _ \<Rightarrow> (Inr (), s1\<lparr>sb := c, cluster_shift := shift_for (cluster_sectors c), mounted := True\<rparr>)) = (r, s')"
    using r i unfolding andThen_def s1[symmetric] by simp
  have err: "superblock_check k c = Inl e \<Longrightarrow> e = FS_ERR_CORRUPT" for k c e by (auto simp: superblock_check_def Let_def split: if_splits)
  show ?thesis
  proof (cases "\<exists>u. r = Inr u")
    case False
    then obtain e where e: "r = Inl e" by (cases r) auto
    then have "s' = s1" "e = FS_ERR_IO \<or> e = FS_ERR_NOFS \<and> sb_magic (super_of (blk s 0)) \<noteq> MAGIC_VALUE \<or>
         e = FS_ERR_CORRUPT \<and> sb_magic (super_of (blk s 0)) = MAGIC_VALUE \<and>
           (sb_version (super_of (blk s 0)) \<noteq> 1 \<or> superblock_check (disk_sectors s) (super_of (blk s 0)) \<noteq> Inr ())"
      using step d(6) b(2) err by (auto simp: Let_def split: sum.splits if_splits)
    then show ?thesis using e rdy1 b d(1) by (simp add: s0_def)
  next
    case True
    define c where "c = super_of (blk s 0)"
    have m: "r = Inr ()" "sb_magic c = MAGIC_VALUE" "sb_version c = 1" "superblock_check (disk_sectors s) c = Inr ()"
        "s' = s1\<lparr>sb := c, cluster_shift := shift_for (cluster_sectors c), mounted := True\<rparr>"
      using True step d(6) b(2) by (auto simp: Let_def c_def split: sum.splits if_splits)
    note G = superblock_check_geometry[OF m(4) ds]
    have "fs_wf s'"
      unfolding fs_wf_def geometry_def using G rdy1 ds d(1) by (simp add: m(5) fs_ready_def s0_def)
    moreover have "fs_ready s'" "blk s' = blk s" using rdy1 b by (simp_all add: m(5) fs_ready_def blk_def fun_eq_iff)
    ultimately show ?thesis using m d(1) by (simp add: c_def s0_def)
  qed
qed


text \<open>The super block in sector 0 is the one in memory, and it is one the checks accept.\<close>

definition super_saved :: "fs_state \<Rightarrow> bool" where
  "super_saved s \<longleftrightarrow> super_of (blk s 0) = sb s \<and> sb_magic (sb s) = MAGIC_VALUE \<and> sb_version (sb s) = 1 \<and>
     superblock_check (disk_sectors s) (sb s) = Inr () \<and> cluster_shift s = shift_for (cluster_sectors (sb s)) \<and>
     MIN_DISK_SECTORS \<le> disk_sectors s"

text \<open>
  A machine started again on the same disk: only the medium and the size of the disk are the same, the super block, the
  buffers, the cached sector of the table and the state of the controller are whatever the memory holds now.
\<close>

definition restarted :: "fs_state \<Rightarrow> fs_state \<Rightarrow> bool" where
  "restarted s t \<longleftrightarrow> fs_ready t \<and> disk_medium (drive t) = disk_medium (drive s) \<and> disk_sectors t = disk_sectors s"

lemma remount_spec:
  assumes inv: "fs_inv s rs" and saved: "super_saved s" and clean: "\<not> fat_dirty s" and t: "restarted s t" and r: "mount_now t = (r, s')"
  shows "r = Inl FS_ERR_IO \<or> r = Inr () \<and> mounted s' \<and> fs_inv s' rs \<and> files s' rs = files s rs \<and> contents s' rs = contents s rs \<and> super_saved s'"
proof -
  have wf: "fs_wf s" using inv by (simp add: fs_inv_def)
  have rdy: "fs_ready t" and bt: "blk t = blk s" "disk_sectors t = disk_sectors s" using t by (simp_all add: restarted_def blk_def fun_eq_iff)
  note M = mount_now_spec[OF rdy r, unfolded bt]
  show ?thesis
  proof (cases r)
    case (Inl e)
    then show ?thesis using M saved by (auto simp: super_saved_def)
  next
    case (Inr u)
    have eq: "sb s' = sb s" "cluster_shift s' = cluster_shift s" "blk s' = blk s" "fs_wf s'" "disk_sectors s' = disk_sectors s" "fat_cache_sector s' = NO_SECTOR"
      using M Inr saved by (simp_all add: super_saved_def)
    have sec: "fat_sec s' i = fat_sec s i" for i using eq(3,6) wf clean by (auto simp: fat_sec_def fs_wf_def)
    then have fv: "fat_view s' = fat_view s" by (simp add: fat_view_def eq(1) fun_eq_iff)
    have E: "entry_at s' = entry_at s" by (simp add: entry_at_def eq(3) fun_eq_iff)
    have c: "cluster_sector s' = cluster_sector s" "cluster_bytes s' = cluster_bytes s" by (simp_all add: cluster_sector_def cluster_bytes_def eq fun_eq_iff)
    have "cluster_locs s' = cluster_locs s" by (simp add: cluster_locs_def c eq(2) fun_eq_iff)
    then have L: "dir_locs s' = dir_locs s" by (intro ext) (simp add: dir_locs_def)
    have "file_byte s' = file_byte s" by (simp add: file_byte_def disk_byte_def addr_def c eq(3) fun_eq_iff)
    moreover have "files s' = files s" by (intro ext) (simp add: files_def E L)
    ultimately have "contents s' rs = contents s rs" by (intro ext) (simp add: contents_def chain_of_def fv eq(1))
    moreover have "super_saved s'" using saved eq by (simp add: super_saved_def)
    moreover have "fs_inv s' rs" using inv fv E L c eq by (simp add: fs_inv_def)
    ultimately show ?thesis using Inr M \<open>files s' = files s\<close> by simp
  qed
qed


section \<open>Formatting\<close>

lemma cluster_size_loop_power: "c \<in> {1, 2, 4, 8, 16, 32, 64, 128} \<Longrightarrow> cluster_size_loop n c \<in> {1, 2, 4, 8, 16, 32, 64, 128}"
proof (induction n c rule: cluster_size_loop.induct)
  case (1 n c)
  show ?case
  proof (cases "n div c > TARGET_CLUSTERS \<and> c < MAX_CLUSTER_SECTORS")
    case True
    moreover have "c * 2 \<in> {1, 2, 4, 8, 16, 32, 64, 128}" using "1.prems" True by auto
    ultimately show ?thesis using "1.IH" by (subst cluster_size_loop.simps) simp
  next
    case False
    then have "cluster_size_loop n c = c" by (subst cluster_size_loop.simps) auto
    then show ?thesis using "1.prems" by simp
  qed
qed

lemma fit_clusters_spec:
  "fit_clusters n c k \<le> k \<and> (fit_clusters n c k \<noteq> 0 \<longrightarrow> (fit_clusters n c k * c + fat_sectors_for (fit_clusters n c k)) mod 4294967296 \<le> n - 1)"
  by (induction k) auto

text \<open>A disk of the minimum size has room for the eight clusters that are asked for, with any cluster size.\<close>

lemma cluster_size_loop_one: "cluster_size_loop n 1 = 1 \<or> TARGET_CLUSTERS < n"
  by (subst cluster_size_loop.simps) auto

lemma fit_clusters_max: "\<lbrakk>m \<le> k; (m * c + fat_sectors_for m) mod 4294967296 \<le> n - 1\<rbrakk> \<Longrightarrow> m \<le> fit_clusters n c k"
  by (induction k) (auto simp: le_Suc_eq)

lemma format_layout_big: "64 \<le> n \<Longrightarrow> MIN_CLUSTERS \<le> cluster_count (format_layout n)"
proof -
  assume n: "64 \<le> n"
  define c where "c = cluster_size_loop n 1"
  have c: "c \<in> {1, 2, 4, 8, 16, 32, 64, 128}" unfolding c_def by (rule cluster_size_loop_power) simp
  moreover have "c = 1 \<or> TARGET_CLUSTERS < n" unfolding c_def by (rule cluster_size_loop_one)
  ultimately have b: "c \<noteq> 0" "8 * c + 1 \<le> n - 1" using n by auto
  have f: "fat_sectors_for 8 = 1" by (simp add: fat_sectors_for_def)
  have "8 \<le> (n - 1) div c" using b by (simp add: less_eq_div_iff_mult_less_eq)
  moreover have "(8 * c + fat_sectors_for 8) mod 4294967296 \<le> n - 1" using b(2) mod_less_eq_dividend[of "8 * c + 1" 4294967296] unfolding f by linarith
  ultimately have "8 \<le> fit_clusters n c ((n - 1) div c)" by (rule fit_clusters_max)
  then show ?thesis by (simp add: format_layout_def Let_def c_def)
qed

lemma power_and: "list_all (\<lambda>c. c AND (c - 1) = (0 :: nat)) [1, 2, 4, 8, 16, 32, 64, 128]"
  by code_simp

text \<open>The layout passes the checks a mount makes.\<close>

lemma format_layout_ok:
  assumes d: "MIN_DISK_SECTORS \<le> disk" "disk \<le> 268435456" and b: "b = format_layout (disk - FS_LBA_START)" "MIN_CLUSTERS \<le> cluster_count b"
  shows "superblock_check disk b = Inr ()" "sb_magic b = MAGIC_VALUE" "sb_version b = 1" "root_cluster b = 1"
    "\<forall>f \<in> {sb_magic, sb_version, total_sectors, cluster_sectors, cluster_count, fat_sectors, data_start, root_cluster}. f b < 4294967296"
proof -
  let ?t = "disk - FS_LBA_START"
  define c k n where "c = cluster_size_loop ?t 1" and "k = (?t - 1) div c" and "n = fit_clusters ?t c k"
  have bb: "b = \<lparr>sb_magic = MAGIC_VALUE, sb_version = 1, total_sectors = ?t, cluster_sectors = c, cluster_count = n,
      fat_sectors = fat_sectors_for n, data_start = 1 + fat_sectors_for n, root_cluster = 1\<rparr>"
    unfolding b(1) format_layout_def Let_def c_def k_def n_def ..
  have c: "c \<in> {1, 2, 4, 8, 16, 32, 64, 128}" unfolding c_def by (rule cluster_size_loop_power) simp
  then have c0: "c \<noteq> 0" "c \<le> 128" by auto
  have ca: "c AND (c - 1) = 0" using c power_and by (auto simp: list_all_iff)
  have n8: "8 \<le> n" using b(2) bb by simp
  have nk: "n \<le> k" "(n * c + fat_sectors_for n) mod 4294967296 \<le> ?t - 1" using fit_clusters_spec[of ?t c k] n8 by (auto simp: n_def)
  have nc: "n * c \<le> ?t - 1" using nk(1) c0(1) unfolding k_def by (simp add: less_eq_div_iff_mult_less_eq)
  have nt: "n \<le> ?t - 1" using nk(1) div_le_dividend[of "?t - 1" c] unfolding k_def by linarith
  have small: "n < 4294967168" using nt d(2) by linarith
  have f: "fat_sectors_for n \<le> 268435457" using fat_sectors_for_bounds(2)[OF small] nt d(2) div_le_dividend[of n 128] by linarith
  have fit: "n * c + fat_sectors_for n \<le> ?t - 1" using nk(2) nc f d(2) by simp
  have nd: "n \<le> ?t div c"
  proof -
    have "n * c \<le> ?t" using nc by linarith
    then show ?thesis using c0(1) by (simp add: less_eq_div_iff_mult_less_eq)
  qed
  have wrap: "(disk + 4294967296 - FS_LBA_START) mod 4294967296 = ?t"
  proof -
    have "disk + 4294967296 - FS_LBA_START = ?t + 4294967296" using d(1) by simp
    moreover have "?t < 4294967296" using d(2) by simp
    ultimately show ?thesis by (simp only: mod_add_self2 mod_less)
  qed
  have ds: "1 + fat_sectors_for n < 4294967296" "1 + fat_sectors_for n + n * c \<le> ?t" "?t < 4294967296" using f fit d by linarith+
  show "superblock_check disk b = Inr ()"
    unfolding superblock_check_def bb Let_def super_block.select_convs wrap using c0 ca n8 nd ds by simp
  show "sb_magic b = MAGIC_VALUE" "sb_version b = 1" "root_cluster b = 1" by (simp_all add: bb)
  show "\<forall>f \<in> {sb_magic, sb_version, total_sectors, cluster_sectors, cluster_count, fat_sectors, data_start, root_cluster}. f b < 4294967296"
    using c0(2) small ds by (simp add: bb)
qed

lemma super_of_bytes:
  assumes "\<forall>f \<in> {sb_magic, sb_version, total_sectors, cluster_sectors, cluster_count, fat_sectors, data_start, root_cluster}. f b < 4294967296"
  shows "super_of (write_at (replicate 512 0) 0 (super_bytes b)) = b" "length (super_bytes b) = 32"
proof -
  have w: "unat (of_nat x :: u32) = x" if "x < 4294967296" for x using that by (simp add: unsigned_of_nat take_bit_nat_eq_self_iff)
  show "length (super_bytes b) = 32" by (simp add: super_bytes_def)
  show "super_of (write_at (replicate 512 0) 0 (super_bytes b)) = b"
    using assms by (simp add: super_of_def write_at_def super_bytes_def u32_at_def load_u32_bytes w)
qed


text \<open>A run of sectors written while nothing of the table is cached.\<close>

lemma blocks_write_raw:
  assumes w: "disk_wf (drive s)" and od: "FS_LBA_START + i + n \<le> disk_total (drive s)" and len: "n * 512 \<le> length data"
    and r: "blocks_write i n data s = (r, s')"
  obtains d k where "s' = s\<lparr>drive := d\<rparr>" "disk_wf d" "disk_total d = disk_total (drive s)" "r = Inr () \<or> r = Inl FS_ERR_IO"
    "k \<le> n" "blk s' = put_sectors (blk s) i k data" "r = Inr () \<longrightarrow> k = n"
proof -
  obtain ok d where d: "disk_write_sectors (of_nat (FS_LBA_START + i)) (of_nat n) data (drive s) = (ok, d)" "s' = s\<lparr>drive := d\<rparr>"
      "r = (if ok then Inr () else Inl FS_ERR_IO)"
    using r by (auto simp: blocks_write_def Let_def split: prod.splits)
  have b: "disk_wf d" "disk_total d = disk_total (drive s)" "write_ok (disk_medium (drive s)) (FS_LBA_START + i) n data ok (disk_medium d)"
    using bd.wr_law[OF w od len d(1)] by simp_all
  obtain k where k: "k \<le> n" "disk_medium d = put_sectors (disk_medium (drive s)) (FS_LBA_START + i) k data" "ok \<longrightarrow> k = n"
    using b(3) by (auto simp: write_ok_def)
  have "blk s' = put_sectors (blk s) i k data" unfolding blk_def d(2) by (simp add: k(2) put_shift fun_eq_iff)
  then show thesis using that d(2,3) b(1,2) k(1,3) by auto
qed

lemma zero_fat_spec:
  "\<lbrakk>disk_wf (drive s); FS_LBA_START + 1 + fat \<le> disk_total (drive s); fat - i \<le> 8 * k; 8 * k \<le> fat - i + 7; zero_fat k i fat s = (r, s')\<rbrakk> \<Longrightarrow>
   \<exists>d. s' = s\<lparr>drive := d\<rparr> \<and> disk_wf d \<and> disk_total d = disk_total (drive s) \<and> (r = Inr () \<or> r = Inl FS_ERR_IO) \<and>
     (\<forall>j. \<not> (1 + i \<le> j \<and> j \<le> fat) \<longrightarrow> blk s' j = blk s j) \<and> (r = Inr () \<longrightarrow> (\<forall>j. 1 + i \<le> j \<and> j \<le> fat \<longrightarrow> blk s' j = replicate 512 0))"
proof (induction k arbitrary: i s)
  case 0
  then show ?case by (auto intro!: exI[of _ "drive s"])
next
  case (Suc k)
  let ?n = "min (fat - i) 8" and ?z = "replicate (8 * 512) (0 :: u8)"
  have i: "i < fat" "1 + i + ?n \<le> 1 + fat" using Suc.prems(4) by auto
  obtain r1 s1 where w: "blocks_write (1 + i) ?n ?z s = (r1, s1)" by fastforce
  have fits: "FS_LBA_START + (1 + i) + ?n \<le> disk_total (drive s)" "?n * 512 \<le> length ?z" using Suc.prems(2) i by auto
  obtain d j where d: "s1 = s\<lparr>drive := d\<rparr>" "disk_wf d" "disk_total d = disk_total (drive s)" "r1 = Inr () \<or> r1 = Inl FS_ERR_IO"
      "j \<le> ?n" "blk s1 = put_sectors (blk s) (1 + i) j ?z" "r1 = Inr () \<longrightarrow> j = ?n"
    by (rule blocks_write_raw[OF Suc.prems(1) fits w]) blast
  have zero: "chunk ?z (m * 512) 512 = replicate 512 0" if "m < 8" for m using that by (simp add: chunk_def min_def)
  have b1: "blk s1 m = (if 1 + i \<le> m \<and> m < 1 + i + j then replicate 512 0 else blk s m)" for m
    using zero[of "m - (1 + i)"] d(5) by (auto simp: d(6) put_sectors_def)
  have run: "(case r1 of Inl e \<Rightarrow> (Inl e, s1) | Inr _ \<Rightarrow> zero_fat k (i + 8) fat s1) = (r, s')"
    using Suc.prems(5) w by (cases r1) (auto simp: andThen_def)
  show ?case
  proof (cases "r1 = Inr ()")
    case False
    then have "r1 = Inl FS_ERR_IO" "s' = s1" "r = Inl FS_ERR_IO" using d(4) run by auto
    then show ?thesis using d b1 i by (intro exI[of _ d]) auto
  next
    case True
    then have l: "zero_fat k (i + 8) fat s1 = (r, s')" and j: "j = ?n" using run d(7) by simp_all
    have p: "disk_wf (drive s1)" "FS_LBA_START + 1 + fat \<le> disk_total (drive s1)" "fat - (i + 8) \<le> 8 * k" "8 * k \<le> fat - (i + 8) + 7"
      using d(1-3) Suc.prems(2-4) by auto
    obtain d' where d': "s' = s1\<lparr>drive := d'\<rparr>" "disk_wf d'" "disk_total d' = disk_total (drive s1)" "r = Inr () \<or> r = Inl FS_ERR_IO"
        "\<forall>j. \<not> (1 + (i + 8) \<le> j \<and> j \<le> fat) \<longrightarrow> blk s' j = blk s1 j" "r = Inr () \<longrightarrow> (\<forall>j. 1 + (i + 8) \<le> j \<and> j \<le> fat \<longrightarrow> blk s' j = replicate 512 0)"
      using Suc.IH[OF p l] by blast
    have "blk s' m = blk s m" if "\<not> (1 + i \<le> m \<and> m \<le> fat)" for m using d'(5) b1[of m] that j i(2) by auto
    moreover have "blk s' m = replicate 512 0" if "r = Inr ()" "1 + i \<le> m" "m \<le> fat" for m
      using d'(5,6) b1[of m] that j by (cases "1 + (i + 8) \<le> m") auto
    ultimately show ?thesis using d' d by (intro exI[of _ d']) auto
  qed
qed


text \<open>The writes after the table is zero.\<close>

lemma format_write_spec:
  assumes wf: "fs_wf s" and zero: "\<And>c. fat_view s c = 0" and root: "root_cluster (sb s) = 1"
    and small: "\<forall>f \<in> {sb_magic, sb_version, total_sectors, cluster_sectors, cluster_count, fat_sectors, data_start, root_cluster}. f (sb s) < 4294967296"
    and r: "format_write s = (r, s')"
  shows "r = Inl FS_ERR_IO \<and> \<not> mounted s' \<or>
    r = Inr () \<and> mounted s' \<and> fs_wf s' \<and> sb s' = sb s \<and> disk_sectors s' = disk_sectors s \<and> cluster_shift s' = cluster_shift s \<and> \<not> fat_dirty s' \<and>
      super_of (blk s' 0) = sb s \<and> fat_view s' = (\<lambda>_. 0)(1 := CHAIN_END) \<and> (\<forall>j \<in> cluster_blocks s 1. blk s' j = replicate 512 0)"
proof -
  define s0 where "s0 = s\<lparr>mounted := True\<rparr>"
  have fv0: "fat_view s0 = fat_view s" by (simp add: fat_view_def fat_sec_def blk_def s0_def fun_eq_iff)
  have wf0: "fs_wf s0" using wf by (simp add: s0_def fs_wf_def geometry_def blk_def)
  have n1: "1 \<le> cluster_count (sb s)" using wf root by (simp add: fs_wf_def geometry_def)
  define m where "m = andThen (fat_set 1 CHAIN_END) (\<lambda>_. andThen (cluster_zero 1) (\<lambda>_. andThen fat_flush (\<lambda>_ s.
             let s = s\<lparr>io_buf := write_at (replicate 512 0) 0 (super_bytes (sb s))\<rparr> in block_write 0 (io_buf s) s)))"
  obtain r1 s1 where m: "m s0 = (r1, s1)" by fastforce
  have e: "(case r1 of Inl e \<Rightarrow> (Inl e, s1\<lparr>mounted := False\<rparr>) | Inr _ \<Rightarrow> (Inr (), s1)) = (r, s')"
    using r m unfolding format_write_def root m_def s0_def by (cases r1) auto
  have "r1 = Inl FS_ERR_IO \<or> r1 = Inr () \<and> mounted s1 \<and> fs_wf s1 \<and> sb s1 = sb s \<and> disk_sectors s1 = disk_sectors s \<and> cluster_shift s1 = cluster_shift s \<and>
      \<not> fat_dirty s1 \<and> super_of (blk s1 0) = sb s \<and> fat_view s1 = (\<lambda>_. 0)(1 := CHAIN_END) \<and> (\<forall>j \<in> cluster_blocks s 1. blk s1 j = replicate 512 0)"
    using m unfolding m_def
  proof (cases rule: andThen_cases)
    case (err x)
    then show ?thesis using fat_set_spec[OF wf0 err(1)] n1 by (auto simp: s0_def)
  next
    case F: (ok u s2)
    have f: "fat_step s0 s2" "fat_view s2 = (\<lambda>_. 0)(1 := CHAIN_END)"
      using fat_set_spec[OF wf0 F(1)] n1 zero fv0 by (auto simp: fat_step_def s0_def fun_eq_iff)
    have k2: "keeps {} s0 s2" by (rule fat_step_keeps[OF f(1)])
    have w2: "fs_wf s2" "sb s2 = sb s" "mounted s2" "cluster_shift s2 = cluster_shift s" "disk_sectors s2 = disk_sectors s" "cluster_blocks s2 = cluster_blocks s0"
      using k2 cluster_blocks_keeps[OF k2] by (simp_all add: keeps_def s0_def)
    have cb0: "cluster_blocks s0 = cluster_blocks s" by (simp add: cluster_blocks_def cluster_sector_def s0_def fun_eq_iff)
    have z1: "cluster_blocks s 1 \<subseteq> block_area s" "0 \<notin> cluster_blocks s 1" using cluster_blocks_area[OF wf, of 1] n1 by simp_all
    from F(2) show ?thesis
    proof (cases rule: andThen_cases)
      case (err x)
      then show ?thesis using cluster_zero_spec[OF w2(1) _ _ err(1)] n1 w2(2) by auto
    next
      case Z: (ok v s3)
      have z: "keeps (cluster_blocks s 1) s2 s3" "fat_view s3 = fat_view s2" "\<forall>j \<in> cluster_blocks s 1. blk s3 j = replicate 512 0"
        using cluster_zero_spec[OF w2(1) _ _ Z(1)] n1 w2(2,6) cb0 by auto
      have w3: "fs_wf s3" "sb s3 = sb s" "mounted s3" "cluster_shift s3 = cluster_shift s" "disk_sectors s3 = disk_sectors s"
        using z(1) w2 by (simp_all add: keeps_def)
      from Z(2) show ?thesis
      proof (cases rule: andThen_cases)
        case (err x)
        then show ?thesis using fat_flush_same[OF w3(1) err(1)] by auto
      next
        case L: (ok w s4)
        have l: "fat_same s3 s4" "\<not> fat_dirty s4" using fat_flush_same[OF w3(1) L(1)] by auto
        have k4: "keeps {} s3 s4" "fat_view s4 = fat_view s3" using fat_same_keeps[OF l(1)] by simp_all
        define buf where "buf = write_at (replicate 512 0) 0 (super_bytes (sb s))"
        define s5 where "s5 = s4\<lparr>io_buf := buf\<rparr>"
        have sb: "super_of buf = sb s" "length buf = 512" using super_of_bytes[OF small] by (simp_all add: buf_def)
        have w5: "fs_wf s5" "sb s5 = sb s" "mounted s5" "cluster_shift s5 = cluster_shift s" "disk_sectors s5 = disk_sectors s" "\<not> fat_dirty s5" "blk s5 = blk s4"
          using k4(1) w3 l(2) sb(2) by (auto simp: s5_def keeps_def fs_wf_def geometry_def blk_def)
        have fv5: "fat_view s5 = fat_view s4" using w5(7) by (simp add: fat_view_def fat_sec_def s5_def fun_eq_iff blk_def)
        have "block_write 0 buf s5 = (r1, s1)" using L(2) w5(2) k4(1) w3(2) by (simp add: Let_def s5_def buf_def keeps_def)
        moreover have "0 \<in> block_area s5" using w5(1) by (simp add: block_area_def fs_wf_def geometry_def)
        ultimately have W: "keeps {0} s5 s1 \<and> fat_view s1 = fat_view s5 \<and> (r1 = Inr () \<and> blk s1 = (blk s5)(0 := buf) \<or> r1 = Inl FS_ERR_IO)"
          using write_area[OF w5(1) _ sb(2)] by blast
        have dirty: "fat_dirty s1 = fat_dirty s5" using \<open>block_write 0 buf s5 = (r1, s1)\<close> by (auto simp: block_write_def Let_def split: prod.splits)
        have "blk s4 j = replicate 512 0" if "j \<in> cluster_blocks s 1" for j
        proof -
          have "j = 0 \<or> data_start (sb s3) \<le> j" using z1(1) that w3(2) by (auto simp: block_area_def)
          then show ?thesis using k4(1) z(3) that by (auto simp: keeps_def)
        qed
        then show ?thesis using W sb(1) w5 dirty fv5 k4(2) z(2) f(2) z1(2) keeps_def[of "{0}" s5 s1] by auto
      qed
    qed
  qed
  then show ?thesis using e by auto
qed

text \<open>Formatting makes an empty file system, or it fails and nothing is mounted.\<close>

lemma format_now_spec:
  assumes rdy: "fs_ready s" and r: "format_now s = (r, s')"
  shows "r = Inl FS_ERR_IO \<and> \<not> mounted s' \<or>
    r = Inr () \<and> mounted s' \<and> fs_inv s' [1] \<and> files s' [1] = Map.empty \<and> super_saved s' \<and> \<not> fat_dirty s' \<and>
      sb s' = format_layout (disk_sectors s - FS_LBA_START)"
proof -
  define b where "b = format_layout (disk_sectors s - FS_LBA_START)"
  have d: "MIN_DISK_SECTORS \<le> disk_sectors s" "disk_sectors s \<le> 268435456" "FS_LBA_START \<le> disk_sectors s"
    using rdy disk_total_small[of "drive s"] by (auto simp: fs_ready_def)
  show ?thesis
  proof (cases "cluster_count b < MIN_CLUSTERS")
    case True
    moreover have "64 \<le> disk_sectors s - FS_LBA_START" using d(1) by linarith
    ultimately show ?thesis using format_layout_big b_def not_less by blast
  next
    case False
    then have mc: "MIN_CLUSTERS \<le> cluster_count b" by simp
    note B = format_layout_ok[OF d(1,2) b_def mc]
    note G = superblock_check_geometry[OF B(1) d(3,2)]
    define s0 where "s0 = s\<lparr>mounted := False, fat_cache_sector := NO_SECTOR, fat_dirty := False, next_free := 1,
                sb := b, cluster_shift := shift_for (cluster_sectors b)\<rparr>"
    have wf0: "fs_wf s0" unfolding fs_wf_def geometry_def using G rdy d by (simp add: s0_def fs_ready_def)
    have "andThen (zero_fat ((fat_sectors b + 7) div 8) 0 (fat_sectors b)) (\<lambda>_. format_write) s0 = (r, s')"
      using r False d(1) unfolding format_now_def Let_def b_def[symmetric] s0_def by simp
    moreover have fit: "disk_wf (drive s0)" "FS_LBA_START + 1 + fat_sectors b \<le> disk_total (drive s0)"
        "fat_sectors b - 0 \<le> 8 * ((fat_sectors b + 7) div 8)" "8 * ((fat_sectors b + 7) div 8) \<le> fat_sectors b - 0 + 7"
      using wf0 G by (auto simp: fs_wf_def s0_def)
    ultimately show ?thesis
    proof (cases rule: andThen_cases)
      case (err e)
      have "\<exists>d. s' = s0\<lparr>drive := d\<rparr> \<and> e = FS_ERR_IO" using zero_fat_spec[OF fit err(1)] by auto
      then show ?thesis using err(2) by (auto simp: s0_def)
    next
      case (ok u s1)
      obtain dr where z: "s1 = s0\<lparr>drive := dr\<rparr>" "disk_wf dr" "disk_total dr = disk_total (drive s0)"
          "\<forall>j. 1 \<le> j \<and> j \<le> fat_sectors b \<longrightarrow> blk s1 j = replicate 512 0"
        using zero_fat_spec[OF fit ok(1)] by auto
      have wf1: "fs_wf s1" using wf0 z(1-3) by (simp add: fs_wf_def geometry_def s0_def)
      have fv: "fat_view s1 c = 0" for c
        using z(4) u32_at_zero[of "c mod 128"] by (auto simp: fat_view_def fat_sec_def z(1) s0_def)
      have sb1: "sb s1 = b" "disk_sectors s1 = disk_sectors s" "cluster_shift s1 = shift_for (cluster_sectors b)" by (simp_all add: z(1) s0_def)
      note W = format_write_spec[OF wf1 fv _ _ ok(2), unfolded sb1, OF B(4,5)]
      show ?thesis
      proof (cases "r = Inr ()")
        case False
        then show ?thesis using W by auto
      next
        case True
        then have w: "mounted s'" "fs_wf s'" "sb s' = b" "disk_sectors s' = disk_sectors s" "cluster_shift s' = shift_for (cluster_sectors b)" "\<not> fat_dirty s'"
            "super_of (blk s' 0) = b" "fat_view s' = (\<lambda>_. 0)(1 := CHAIN_END)" "\<forall>j \<in> cluster_blocks s1 1. blk s' j = replicate 512 0"
          using W by auto
        have cb: "cluster_blocks s1 1 = cluster_blocks s' 1" using w(3,5) sb1 by (simp add: cluster_blocks_def cluster_sector_def)
        have free: "\<not> slot_used (entry_at s' l)" if "l \<in> set (dir_locs s' [1])" for l
          using that w(9) cb zero_slot by (auto simp: in_dir_locs chain_blocks_def entry_at_def)
        have "is_chain (fat_view s') (cluster_count b) 1 [1]" using mc w(8) by (simp add: next_of_def)
        then have "fs_inv s' [1]" using w(2,3) B(4) free unfolding fs_inv_def dir_inv_def entry_ok_def apart_def by simp
        moreover have "files s' [1] = Map.empty"
        proof
          fix x
          show "files s' [1] x = None" using free by (simp add: files_def files_of_None)
        qed
        moreover have "super_saved s'" using w B d by (simp add: super_saved_def)
        ultimately show ?thesis using True w(1,3,6) b_def by simp
      qed
    qed
  qed
qed


section \<open>The properties\<close>

lemma example_ready: "fs_ready (example_fs a v)"
  using example_wf[of a v] by (simp add: fs_ready_def fs_wf_def) (simp add: example_fs_def)

lemma example_saved: "super_saved (example_fs a v)"
proof -
  have "super_of (blk (example_fs a v) 0) = example_super"
    unfolding example_blk example_medium_def using super_of_bytes(1)[of example_super] by (simp add: example_super_def)
  moreover have "superblock_check 4160 example_super = Inr ()"
    by (simp add: superblock_check_def example_super_def fat_sectors_for_def Let_def)
  moreover have "cluster_shift (example_fs a v) = shift_for (cluster_sectors example_super)"
    using shift_for_power[of 1] by (simp add: example_fs_def example_super_def)
  ultimately show ?thesis by (simp add: super_saved_def example_fs_def example_super_def)
qed

text \<open>
  C18. Mounting accepts nothing it should not: whatever the disk holds in sector 0 and whatever it answers,
  mounting writes nothing, and if it succeeds the super block it keeps is the one of the disk and describes a
  geometry in which every cluster lies inside the disk and has an entry in the table (\<open>fs_wf\<close>).  If it fails
  nothing is mounted, and the error says why: the disk failed, the magic number is not there, or the version or the
  checks of \<open>superblock_check\<close> do not hold.
\<close>

theorem mount_now_correct:
  assumes "fs_ready s"
  shows "let (r, s') = mount_now s; b = super_of (blk s 0) in blk s' = blk s \<and>
    (case r of
       Inr _ \<Rightarrow> mounted s' \<and> fs_wf s' \<and> sb s' = b \<and> sb_magic b = MAGIC_VALUE \<and> sb_version b = 1
     | Inl e \<Rightarrow> \<not> mounted s' \<and> (e = FS_ERR_IO \<or> e = FS_ERR_NOFS \<and> sb_magic b \<noteq> MAGIC_VALUE \<or>
         e = FS_ERR_CORRUPT \<and> sb_magic b = MAGIC_VALUE \<and>
           (sb_version b \<noteq> 1 \<or> superblock_check (disk_sectors s) b = Inl FS_ERR_CORRUPT)))"
proof -
  obtain r s' where r: "mount_now s = (r, s')" by fastforce
  have corrupt: "superblock_check k c \<noteq> Inr () \<longleftrightarrow> superblock_check k c = Inl FS_ERR_CORRUPT" for k c
    by (auto simp: superblock_check_def Let_def)
  show ?thesis using mount_now_spec[OF assms r] unfolding r corrupt by (cases r) (auto simp: Let_def)
qed

theorem mount_now_correct_witness:
  "\<forall>a v. let (r, s') = mount_now (example_fs a v) in
    (case r of Inr _ \<Rightarrow> mounted s' \<and> fs_wf s' \<and> sb s' = example_super | Inl e \<Rightarrow> e = FS_ERR_IO)"
proof (intro allI)
  fix a v
  let ?s = "example_fs a v"
  have "super_of (blk ?s 0) = example_super" "superblock_check (disk_sectors ?s) example_super = Inr ()"
    using example_saved[of a v] by (auto simp: super_saved_def example_fs_def)
  moreover have "sb_magic example_super = MAGIC_VALUE" "sb_version example_super = 1" by (simp_all add: example_super_def)
  ultimately show "let (r, s') = mount_now ?s in
    (case r of Inr _ \<Rightarrow> mounted s' \<and> fs_wf s' \<and> sb s' = example_super | Inl e \<Rightarrow> e = FS_ERR_IO)"
    using mount_now_correct[OF example_ready[of a v]] by (auto simp: Let_def split_beta split: sum.splits)
qed

text \<open>
  C19. Formatting makes an empty file system: a disk of less than the minimum size is refused and nothing changes; on
  any other disk formatting reports a failing disk and leaves nothing mounted, or the invariant of the file system holds with
  the directory in cluster 1 and no file in it; and mounting what was formatted on a machine started again, whatever
  its memory holds, finds the same empty file system, unless the disk fails.
\<close>

theorem format_then_mount:
  assumes "fs_ready s"
  shows "(let (r, s') = format_now s in
    case r of
      Inr _ \<Rightarrow> mounted s' \<and> fs_inv s' [1] \<and> files s' [1] = Map.empty \<and>
        (\<forall>t. restarted s' t \<longrightarrow> (let (q, s'') = mount_now t in
           q = Inl FS_ERR_IO \<or> q = Inr () \<and> mounted s'' \<and> fs_inv s'' [1] \<and> files s'' [1] = Map.empty))
    | Inl e \<Rightarrow> e = FS_ERR_IO \<and> \<not> mounted s') \<and>
   (\<forall>k < MIN_DISK_SECTORS. format_now (s\<lparr>disk_sectors := k\<rparr>) = (Inl FS_ERR_TOOSMALL, s\<lparr>disk_sectors := k\<rparr>))"
proof -
  obtain r s' where r: "format_now s = (r, s')" by fastforce
  have m: "let (q, s'') = mount_now t in q = Inl FS_ERR_IO \<or> q = Inr () \<and> mounted s'' \<and> fs_inv s'' [1] \<and> files s'' [1] = Map.empty"
    if "fs_inv s' [1]" "super_saved s'" "\<not> fat_dirty s'" "files s' [1] = Map.empty" "restarted s' t" for t
    using remount_spec[OF that(1-3,5)] that(4) by (cases "mount_now t") auto
  show ?thesis using format_now_spec[OF assms r] m unfolding r by (cases r) (auto simp: format_now_def Let_def)
qed

theorem format_then_mount_witness:
  "\<forall>a v. let (r, s') = format_now (example_fs a v); (q, s'') = mount_now (s'\<lparr>sb := sb (example_fs a v), cluster_shift := 7, next_free := 9\<rparr>) in
    r = Inr () \<and> (q = Inl FS_ERR_IO \<or> q = Inr () \<and> files s'' [1] = Map.empty) \<or> r = Inl FS_ERR_IO"
proof (intro allI)
  fix a v
  obtain r s' where r: "format_now (example_fs a v) = (r, s')" by fastforce
  define t where "t = s'\<lparr>sb := sb (example_fs a v), cluster_shift := 7, next_free := 9\<rparr>"
  obtain q s'' where q: "mount_now t = (q, s'')" by fastforce
  have P: "r = Inl FS_ERR_IO \<or> r = Inr () \<and> fs_inv s' [1] \<and> (restarted s' t \<longrightarrow> q = Inl FS_ERR_IO \<or> q = Inr () \<and> files s'' [1] = Map.empty)"
    using format_then_mount[OF example_ready[of a v]] q unfolding r by (cases r) auto
  moreover have "restarted s' t" if "r = Inr ()"
    using format_now_spec[OF example_ready[of a v] r] that by (auto simp: restarted_def t_def fs_inv_def fs_wf_def fs_ready_def super_saved_def)
  ultimately show "let (r, s') = format_now (example_fs a v); (q, s'') = mount_now (s'\<lparr>sb := sb (example_fs a v), cluster_shift := 7, next_free := 9\<rparr>) in
    r = Inr () \<and> (q = Inl FS_ERR_IO \<or> q = Inr () \<and> files s'' [1] = Map.empty) \<or> r = Inl FS_ERR_IO"
    unfolding r Let_def prod.case t_def[symmetric] q by auto
qed

text \<open>
  C20. The files survive a restart: if the table in memory has been flushed and the super block is on the disk, then
  mounting on a machine started again on that disk, whatever its memory holds, finds the same files with the same
  contents and keeps the invariant, unless the disk fails.
\<close>

theorem remount_keeps_files:
  assumes "fs_inv s rs" "super_saved s" "\<not> fat_dirty s" "restarted s t"
  shows "let (r, s') = mount_now t in
    r = Inl FS_ERR_IO \<or> r = Inr () \<and> mounted s' \<and> fs_inv s' rs \<and> files s' rs = files s rs \<and> contents s' rs = contents s rs"
  using remount_spec[OF assms] by (cases "mount_now t") auto

theorem remount_keeps_files_witness:
  "\<forall>a v b. let (r, s') = mount_now ((example_fs a v)\<lparr>sb := b, mounted := False, cluster_shift := 3, next_free := 77,
       fat_cache_sector := 2, fat_dirty := True, fat_cache := replicate 512 0xEE\<rparr>) in
    r = Inl FS_ERR_IO \<or> r = Inr () \<and> contents s' [1] [97] = Some [104, 105, 33]"
proof (intro allI)
  fix a v b
  let ?t = "(example_fs a v)\<lparr>sb := b, mounted := False, cluster_shift := 3, next_free := 77, fat_cache_sector := 2,
    fat_dirty := True, fat_cache := replicate 512 0xEE\<rparr>"
  have "\<not> fat_dirty (example_fs a v)" by (simp add: example_fs_def)
  moreover have "restarted (example_fs a v) ?t" using example_ready[of a v] by (simp add: restarted_def fs_ready_def)
  ultimately show "let (r, s') = mount_now ?t in r = Inl FS_ERR_IO \<or> r = Inr () \<and> contents s' [1] [97] = Some [104, 105, 33]"
    using remount_keeps_files[OF example_inv[of a v] example_saved, of ?t] example_contents[of a v] by (cases "mount_now ?t") auto
qed

end
