(* ===== verification/Fs_Whole.thy ===== *)
theory Fs_Whole
  imports Fs_Content
begin

text \<open>
  Whole files (\<open>kernel/fs.c\<close>): \<open>fs_write_all\<close> replaces the contents of a file and \<open>fs_read_all\<close> returns
  them, for every way the loops may be cut into reads and writes.  The files are the map
  \<open>contents\<close> of \<open>Fs_Content\<close>.
\<close>

section \<open>Opening\<close>

lemma open_impl_name:
  assumes inv: "fs_inv s rs" and nm: "0 \<in> set name" and r: "open_impl name create s = (Inr file, s')"
  shows "\<exists>rs'. fs_inv s' rs' \<and> handle_ok s' rs' file \<and> handle_name s' file = cname name \<and>
    (if files s rs (cname name) = None then create \<and> f_size file = 0
     else rs' = rs \<and> contents s' rs = contents s rs \<and> mounted s')"
  using r unfolding open_impl_def
proof (cases rule: checked_cases)
  case run
  from run(3) show ?thesis
  proof (cases rule: andThen_cases)
    case L: (ok res s1)
    note F = lookup_files[OF inv nm run(2) L(1)]
    have C1: "contents s1 rs = contents s rs" using contents_same[OF inv F(3) _ F(4)] F(5) by simp
    have loc: "handle_loc (file_of res) = found_at res" for res by (simp add: handle_loc_def file_of_def)
    show ?thesis
    proof (cases "found res")
      case True
      then have f: "file = file_of res" "s' = s1" using L(2) by (simp_all add: andThen_def file_of_def)
      have e: "entry res = entry_at s1 (found_at res)" using F(5,6) True by auto
      have "handle_ok s1 rs (file_of res)" using file_of_handle[OF F(1)] F(5,6) True dir_locs_keeps[OF F(3)] by auto
      moreover have "cname (de_name (entry res)) = cname name" using F(6) unfolding sum.case if_P[OF True] by blast
      then have "handle_name s1 (file_of res) = cname name" unfolding e by (simp add: handle_name_def loc)
      moreover have "mounted s1" using keeps_wf[OF F(3)] run(1) by simp
      ultimately show ?thesis using F(1,6) True C1 f by (intro exI[of _ rs]) simp
    next
      case nf: False
      then have no: "files s rs (cname name) = None" "files s1 rs (cname name) = None" using F(2,6) by simp_all
      have place: "last_cluster res = last rs" "has_free res \<longrightarrow> free_at res \<in> set (dir_locs s1 rs) \<and> \<not> slot_used (entry_at s1 (free_at res))"
        using F(5,6) nf dir_locs_keeps[OF F(3)] by auto
      obtain r2 s2 where c: "entry_create name res s1 = (r2, s2)" by fastforce
      have cr: "create" using L(2) nf by (auto simp: andThen_def fail_def split: if_splits)
      then obtain res' where e: "r2 = Inr res'" "file = file_of res'" "s' = s2"
        using L(2) nf c by (cases r2; auto simp: andThen_def file_of_def)
      obtain rs' where C: "fs_inv s2 rs'" "found_at res' \<in> set (dir_locs s2 rs')" "entry res' = entry_at s2 (found_at res')"
           "slot_used (entry res')" "de_size (entry res') = 0" "cname (de_name (entry res')) = cname name"
        using entry_create_spec[OF F(1) nm run(2) no(2) place c] e(1) by auto
      have "handle_name s2 (file_of res') = cname name" using C(3,6) by (simp add: handle_name_def loc)
      then show ?thesis using file_of_handle[OF C(1-4)] C(1,5) e no(1) cr by (intro exI[of _ rs']) (simp add: file_of_def)
    qed
  qed simp
qed simp_all

lemma fs_open_name:
  assumes inv: "fs_inv s rs" and nm: "0 \<in> set name" and r: "fs_open name create s = (Inr file, s')"
  shows "\<exists>rs'. fs_inv s' rs' \<and> handle_ok s' rs' file \<and> handle_name s' file = cname name \<and>
    (if files s rs (cname name) = None then create \<and> f_size file = 0
     else rs' = rs \<and> contents s' rs = contents s rs \<and> mounted s')"
proof -
  obtain r1 s1 where m: "open_impl name create s = (r1, s1)" "finish r1 s1 = (Inr file, s')"
    using r by (auto simp: fs_open_def finishing_def split: prod.splits)
  have r1: "r1 = Inr file" using m(2) by (auto simp: finish_def Let_def split: prod.splits sum.splits)
  obtain rs' where O: "fs_inv s1 rs'" "handle_ok s1 rs' file" "handle_name s1 file = cname name"
      "if files s rs (cname name) = None then create \<and> f_size file = 0 else rs' = rs \<and> contents s1 rs = contents s rs \<and> mounted s1"
    using open_impl_name[OF inv nm m(1)[unfolded r1]] by blast
  note F = finish_spec[OF m(2) O(1)]
  have E: "\<forall>l \<in> set (dir_locs s1 rs'). entry_at s' l = entry_at s1 l" using fs_inv_keeps[OF O(1), of "{}" s'] F by simp
  have c: "contents s' rs' = contents s1 rs'" using contents_same[OF O(1) _ _ _ E, of "{}"] F by simp
  have "handle_ok s' rs' file" using handle_ok_keeps[OF O(1,2)] F by blast
  moreover have "handle_name s' file = handle_name s1 file" "mounted s' = mounted s1"
    using E O(2) keeps_wf[of "{}" s1 s'] F by (simp_all add: handle_name_def handle_ok_def)
  ultimately show ?thesis using O(3,4) F c by (intro exI[of _ rs']) (auto split: if_splits)
qed

lemma fs_open_checked: "fs_open name create s = (Inr file, s') \<Longrightarrow> mounted s \<and> name_check name = Inr ()"
  by (auto simp: fs_open_def finishing_def finish_def open_impl_def checked_def Let_def split: prod.splits if_splits sum.splits)

lemma fs_write_all_checked: "fs_write_all name data n s = (Inr u, s') \<Longrightarrow> mounted s \<and> name_check name = Inr ()"
  by (auto simp: fs_write_all_def andThen_def split: prod.splits sum.splits dest: fs_open_checked)


section \<open>Writing\<close>

text \<open>Each round adds a part of the data to a file that holds what has been written so far.\<close>

lemma write_all_loop_spec:
  "\<lbrakk>fs_inv s rs; handle_ok s rs file; handle_name s file = x; contents s rs x = Some (take w data); w \<le> n; n \<le> length data; n \<le> w + k;
    mounted s; write_all_loop k w n data (file, s) = (r, file', s')\<rbrakk> \<Longrightarrow>
    fs_inv s' rs \<and> (\<forall>m. m \<noteq> x \<longrightarrow> contents s' rs m = contents s rs m) \<and>
    (\<forall>u. r = Inr u \<longrightarrow> mounted s' \<and> contents s' rs x = Some (take n data))"
proof (induction k arbitrary: w "file" s)
  case 0
  then show ?case by auto
next
  case (Suc k)
  show ?case
  proof (cases "w \<ge> n")
    case True
    then show ?thesis using Suc.prems by auto
  next
    case False
    obtain q file1 s1 where f: "fs_write w (drop w data) (n - w) (file, s) = (q, file1, s1)" by (metis prod_cases3)
    have len: "n - w \<le> length (drop w data)" using Suc.prems(6) by simp
    note W = fs_write_spec[OF Suc.prems(1,2) len f, unfolded Suc.prems(3), OF Suc.prems(4)]
    show ?thesis
    proof (cases q)
      case (Inl e)
      then show ?thesis using Suc.prems(9) f False W by auto
    next
      case (Inr m)
      obtain new where new: "contents s1 rs x = Some new" "written (take w data) w (drop w data) (n - w) m new"
        using W Inr by blast
      have m: "m \<le> n - w" "fs_inv s1 rs" "handle_ok s1 rs file1" "handle_name s1 file1 = x"
          "\<forall>m. m \<noteq> x \<longrightarrow> contents s1 rs m = contents s rs m" "mounted s1" using W Inr by auto
      have "length new = w + m" "take (w + m) new = take w data @ take m (drop w data)"
        using new(2) Suc.prems(5,6) by (simp_all add: written_def)
      then have n: "new = take (w + m) data" by (simp add: take_add)
      show ?thesis
      proof (cases "m = 0")
        case True
        then show ?thesis using Suc.prems(9) f Inr False m by auto
      next
        case pos: False
        then have r: "write_all_loop k (w + m) n data (file1, s1) = (r, file', s')" using Suc.prems(9) f Inr False by simp
        show ?thesis using Suc.IH[OF m(2-4) _ _ Suc.prems(6) _ m(6) r] new(1) n m(1,5) False pos Suc.prems(7) by auto
      qed
    qed
  qed
qed

lemma fs_write_all_spec:
  assumes inv: "fs_inv s rs" and nm: "0 \<in> set name" and len: "n \<le> length data" and r: "fs_write_all name data n s = (r, s')"
  shows "\<exists>rs'. fs_inv s' rs' \<and> (\<forall>u. r = Inr u \<longrightarrow> mounted s' \<and> contents s' rs' (cname name) = Some (take n data) \<and>
    (files s rs (cname name) \<noteq> None \<longrightarrow> rs' = rs \<and> (\<forall>m. m \<noteq> cname name \<longrightarrow> contents s' rs m = contents s rs m)))"
proof -
  obtain r0 s0 where o: "fs_open name True s = (r0, s0)" by fastforce
  show ?thesis
  proof (cases r0)
    case (Inl e)
    then have e: "r = Inl e" "s' = s0" using r o by (simp_all add: fs_write_all_def andThen_def)
    then show ?thesis using fs_open_spec[OF inv nm, of True] o by auto
  next
    case (Inr f)
    obtain rs' where O: "fs_inv s0 rs'" "handle_ok s0 rs' f" "handle_name s0 f = cname name"
        "files s rs (cname name) \<noteq> None \<longrightarrow> rs' = rs \<and> contents s0 rs = contents s rs"
      using fs_open_name[OF inv nm o[unfolded Inr]] by auto
    obtain f' where w: "andThen (fs_truncate 0) (\<lambda>_. write_all_loop n 0 n data) (f, s0) = (r, f', s')"
      using r o Inr by (auto simp: fs_write_all_def andThen_def split: prod.splits)
    obtain cs where cs: "file_ok s0 f cs" using O(2) by (auto simp: handle_ok_def)
    note old = handle_contents[OF O(1,2) cs]
    from w show ?thesis
    proof (cases rule: andThen_cases)
      case (err e)
      then show ?thesis using fs_truncate_spec[OF O(1,2) err(1) old] by auto
    next
      case (ok u fs1)
      obtain f1 s1 where fs1: "fs1 = (f1, s1)" by fastforce
      note T = fs_truncate_spec[OF O(1,2) ok(1)[unfolded fs1] old]
      have t: "fs_inv s1 rs'" "handle_ok s1 rs' f1" "handle_name s1 f1 = cname name" "contents s1 rs' (cname name) = Some (take 0 data)"
          "\<forall>m. m \<noteq> cname name \<longrightarrow> contents s1 rs' m = contents s0 rs' m"
        using T O(3) by auto
      have m1: "mounted s1" using T by auto
      have "fs_inv s' rs' \<and> (\<forall>m. m \<noteq> cname name \<longrightarrow> contents s' rs' m = contents s1 rs' m) \<and>
          (\<forall>u. r = Inr u \<longrightarrow> mounted s' \<and> contents s' rs' (cname name) = Some (take n data))"
        using write_all_loop_spec[OF t(1-4) _ len _ m1 ok(2)[unfolded fs1]] by simp
      then show ?thesis using t(5) O(4) by (intro exI[of _ rs']) auto
    qed
  qed
qed


section \<open>Reading\<close>

lemma handle_size:
  assumes "fs_inv s rs" "handle_ok s rs file" "contents s rs (handle_name s file) = Some old"
  shows "f_size file = length old"
proof -
  obtain cs where "file_ok s file cs" using assms(2) by (auto simp: handle_ok_def)
  from handle_contents[OF assms(1,2) this] show ?thesis using assms(3) by auto
qed

lemma read_all_loop_spec:
  "\<lbrakk>fs_inv s rs; handle_ok s rs file; handle_name s file = x; contents s rs x = Some old; mounted s; f_size file = length old;
    length data = length old + 1; take got data = take got old; got \<le> length old; length old \<le> got + k;
    read_all_loop k got data file s = (r, s')\<rbrakk> \<Longrightarrow>
    fs_inv s' rs \<and> contents s' rs = contents s rs \<and> mounted s' \<and>
    (case r of Inl e \<Rightarrow> e = FS_ERR_IO | Inr out \<Rightarrow> length out = length old + 1 \<and> take (length old) out = old)"
proof (induction k arbitrary: got data "file" s)
  case 0
  then show ?case by auto
next
  case (Suc k)
  show ?case
  proof (cases "got \<ge> length old")
    case True
    then show ?thesis using Suc.prems by auto
  next
    case False
    obtain q out f1 s1 where f: "fs_read got (drop got data) (length old - got) file s = (q, out, f1, s1)" by (metis prod_cases4)
    have len: "length old - got \<le> length (drop got data)" using Suc.prems(7) by simp
    note R = fs_read_spec[OF Suc.prems(1,2) len f, unfolded Suc.prems(3), OF Suc.prems(4)]
    have m1: "mounted s1" using R Suc.prems(5) by simp
    show ?thesis
    proof (cases q)
      case (Inl e)
      then show ?thesis using Suc.prems(5,6,11) f False R m1 by auto
    next
      case (Inr m)
      have q: "0 < m" "m \<le> length old - got" "take m out = take m (drop got old)" "length out = length old + 1 - got"
          "fs_inv s1 rs" "handle_ok s1 rs f1" "handle_name s1 f1 = x" "contents s1 rs x = Some old" "contents s1 rs = contents s rs"
        using R Inr False Suc.prems(4,7) by auto
      let ?data = "take got data @ out"
      have l: "read_all_loop k (got + m) ?data f1 s1 = (r, s')" using Suc.prems(6,11) f Inr q(1) False by simp
      have sz: "f_size f1 = length old" using handle_size[OF q(5,6)] q(7,8) by simp
      have "length ?data = length old + 1" using q(4) Suc.prems(7,9) False by simp
      moreover have "take (got + m) ?data = take (got + m) old"
        using Suc.prems(7,8,9) q(3) by (simp add: take_add)
      ultimately show ?thesis using Suc.IH[OF q(5-8) m1 sz _ _ _ _ l] q(1,2,9) Suc.prems(10) by auto
    qed
  qed
qed

lemma fs_read_all_spec:
  assumes inv: "fs_inv s rs" and nm: "0 \<in> set name" and old: "contents s rs (cname name) = Some old"
    and blk: "\<And>k. length (block k) = k" and r: "fs_read_all name block s = (r, s')"
  shows "\<exists>rs'. fs_inv s' rs' \<and> (case r of
      Inr (out, n) \<Rightarrow> rs' = rs \<and> contents s' rs = contents s rs \<and> out = old @ [0] \<and> n = length old
    | Inl e \<Rightarrow> e = FS_ERR_NOFS \<and> \<not> mounted s \<or> e = FS_ERR_NAME \<and> name_check name \<noteq> Inr () \<or> e = FS_ERR_TOOBIG \<and> 1048576 < length old \<or> e = FS_ERR_IO)"
proof -
  have some: "files s rs (cname name) \<noteq> None" using old by (auto simp: contents_def)
  obtain r0 s0 where o: "fs_open name False s = (r0, s0)" by fastforce
  show ?thesis
  proof (cases r0)
    case (Inl e)
    then have e: "r = Inl e" "s' = s0" using r o by (simp_all add: fs_read_all_def andThen_def)
    obtain rs' where "fs_inv s0 rs'" "implements False (spec_guard (mounted s) name (spec_open (cname name) False) (files s rs)) (files s rs) (file_info r0) (files s0 rs')"
      using fs_open_spec[OF inv nm, of False] o by auto
    then show ?thesis using e Inl some by (intro exI[of _ rs'])
      (auto simp: implements_def spec_guard_def spec_open_def file_info_def split: if_splits)
  next
    case (Inr f)
    then have O: "fs_inv s0 rs" "handle_ok s0 rs f" "handle_name s0 f = cname name" "contents s0 rs = contents s rs" "mounted s0"
      using fs_open_name[OF inv nm] o some by fastforce+
    have old0: "contents s0 rs (cname name) = Some old" using O(4) old by simp
    have sz: "f_size f = length old" using handle_size[OF O(1,2)] O(3) old0 by simp
    show ?thesis
    proof (cases "length old > 1048576")
      case True
      then have "r = Inl FS_ERR_TOOBIG" "s' = s0" using r o Inr sz by (simp_all add: fs_read_all_def andThen_def fail_def)
      then show ?thesis using O(1) True by auto
    next
      case False
      obtain q s1 where l: "read_all_loop (length old) 0 (block (length old + 1)) f s0 = (q, s1)" by fastforce
      have L: "fs_inv s1 rs \<and> contents s1 rs = contents s0 rs \<and> mounted s1 \<and>
          (case q of Inl e \<Rightarrow> e = FS_ERR_IO | Inr out \<Rightarrow> length out = length old + 1 \<and> take (length old) out = old)"
        using read_all_loop_spec[OF O(1-3) old0 O(5) sz _ _ _ _ l] blk by simp
      have "(r, s') = (case q of Inl e \<Rightarrow> (Inl e, s1) | Inr data \<Rightarrow> (Inr (data[length old := 0], length old), s1))"
        using r o Inr False sz l by (cases q) (simp_all add: fs_read_all_def andThen_def)
      moreover have "out[length old := 0] = old @ [0]" if "length out = length old + 1" "take (length old) out = old" for out :: "u8 list"
        using that by (metis Suc_eq_plus1 lessI list_update_length take_Suc_conv_app_nth take_all order_refl length_take min.absorb2 le_add1)
      ultimately show ?thesis using L O(4) by (intro exI[of _ rs]) (cases q; auto)
    qed
  qed
qed


section \<open>The round trip\<close>

text \<open>
  C21. What is written as a whole file is read back as a whole: after \<open>fs_write_all\<close> has succeeded the file holds
  exactly the data, whether the file existed or not and however long it was, the other files are as they
  were if the file existed, and \<open>fs_read_all\<close> returns exactly the data with a terminating 0, unless the disk
  fails or the data is more than a megabyte.
\<close>
theorem whole_file_roundtrip:
  assumes inv: "fs_inv s rs" and nm: "0 \<in> set name" and len: "n \<le> length data" and blk: "\<And>k. length (block k) = k"
  shows "let (w, s1) = fs_write_all name data n s; (r, s2) = fs_read_all name block s1 in
    w = Inr () \<longrightarrow> (\<exists>rs1. fs_inv s1 rs1 \<and> contents s1 rs1 (cname name) = Some (take n data) \<and>
      (files s rs (cname name) \<noteq> None \<longrightarrow> (\<forall>m. m \<noteq> cname name \<longrightarrow> contents s1 rs1 m = contents s rs m))) \<and>
      (case r of Inr (out, k) \<Rightarrow> out = take n data @ [0] \<and> k = n
       | Inl e \<Rightarrow> e = FS_ERR_TOOBIG \<and> 1048576 < n \<or> e = FS_ERR_IO)"
proof -
  obtain w s1 where w: "fs_write_all name data n s = (w, s1)" by fastforce
  obtain r s2 where r: "fs_read_all name block s1 = (r, s2)" by fastforce
  have ?thesis if w0: "w = Inr ()"
  proof -
    obtain rs1 where W: "fs_inv s1 rs1" "mounted s1" "contents s1 rs1 (cname name) = Some (take n data)"
        "files s rs (cname name) \<noteq> None \<longrightarrow> rs1 = rs \<and> (\<forall>m. m \<noteq> cname name \<longrightarrow> contents s1 rs m = contents s rs m)"
      using fs_write_all_spec[OF inv nm len w] w0 by auto
    have nc: "name_check name = Inr ()" using fs_write_all_checked[of name data n s] w w0 by simp
    have "min (length data) n = n" using len by simp
    then show ?thesis using fs_read_all_spec[OF W(1) nm W(3) blk r] W nc unfolding w Let_def prod.case r by (cases r) auto
  qed
  then show ?thesis unfolding w Let_def prod.case r by simp
qed

theorem whole_file_roundtrip_witness:
  "\<forall>a v. let (w, s1) = fs_write_all [97, 0] [104, 101, 121, 33] 4 (example_fs a v); (r, s2) = fs_read_all [97, 0] (\<lambda>k. replicate k 0) s1 in
    w = Inr () \<longrightarrow> (case r of Inr (out, k) \<Rightarrow> out = [104, 101, 121, 33, 0] \<and> k = 4 | Inl e \<Rightarrow> e = FS_ERR_IO)"
proof (intro allI)
  fix a v
  show "let (w, s1) = fs_write_all [97, 0] [104, 101, 121, 33] 4 (example_fs a v); (r, s2) = fs_read_all [97, 0] (\<lambda>k. replicate k 0) s1 in
    w = Inr () \<longrightarrow> (case r of Inr (out, k) \<Rightarrow> out = [104, 101, 121, 33, 0] \<and> k = 4 | Inl e \<Rightarrow> e = FS_ERR_IO)"
    using whole_file_roundtrip[OF example_inv, of "[97, 0]" 4 "[104, 101, 121, 33]" "\<lambda>k. replicate k 0" a v]
    by (auto simp: Let_def split_beta split: sum.splits)
qed

end
