(* ===== verification/Fs_List.thy ===== *)
theory Fs_List
  imports Fs_Whole
begin

text \<open>
  Listing the directory (\<open>fs_iter_begin\<close> and \<open>fs_iter_next\<close> of \<open>kernel/fs.c\<close>, walked the way the shell's
  \<open>see\<close> does) and measuring the disk (\<open>fs_usage\<close>).
\<close>

section \<open>The walk\<close>

text \<open>
  The loop \<open>while ((result = fs_iter_next(&it, &info)) > 0)\<close>: \<open>f\<close> is what its body does with a name and a
  size, and \<open>n\<close> counts the rounds.
\<close>

partial_function (option) fs_walk ::
  "(u8 list \<times> nat \<Rightarrow> 'c \<Rightarrow> 'c) \<Rightarrow> fs_iter \<Rightarrow> fs_state \<Rightarrow> 'c \<Rightarrow> nat \<Rightarrow> (fs_error option \<times> fs_state \<times> 'c \<times> nat) option" where
  "fs_walk f it s c n =
     (case fs_iter_next it s of
        (Inl e, it, s) \<Rightarrow> Some (Some e, s, c, n)
      | (Inr i, it, s) \<Rightarrow> (case i of None \<Rightarrow> Some (None, s, c, n) | Some info \<Rightarrow> fs_walk f it s (f info c) (n + 1)))"


section \<open>Where the iterator is\<close>

text \<open>The places still to be looked at, from slot \<open>k\<close> of sector \<open>si\<close> of the cluster \<open>ci\<close> of the directory on.\<close>

definition places :: "fs_state \<Rightarrow> nat list \<Rightarrow> nat \<Rightarrow> nat \<Rightarrow> nat \<Rightarrow> location list" where
  "places s rs ci si k =
     (if ci < length rs then
        let first = cluster_sector s (rs ! ci) in
        drop k (sector_locs (first + si)) @ concat (map sector_locs [first + si + 1..<first + 2 ^ cluster_shift s]) @
        dir_locs s (drop (ci + 1) rs)
      else [])"

definition iter_at :: "fs_state \<Rightarrow> nat list \<Rightarrow> fs_iter \<Rightarrow> location list \<Rightarrow> bool" where
  "iter_at s rs it ls \<longleftrightarrow> it_steps it \<le> length rs \<and> it_sector it < 2 ^ cluster_shift s \<and> it_slot it \<le> 4 \<and>
     it_cluster it = (if it_steps it < length rs then rs ! it_steps it else 0) \<and>
     ls = places s rs (it_steps it) (it_sector it) (it_slot it)"

definition sectors_left :: "fs_state \<Rightarrow> nat list \<Rightarrow> fs_iter \<Rightarrow> nat" where
  "sectors_left s rs it = (length rs - it_steps it) * 2 ^ cluster_shift s - it_sector it"

lemma places_start: "rs \<noteq> [] \<Longrightarrow> places s rs 0 0 0 = dir_locs s rs"
  by (cases rs) (simp_all add: places_def Let_def dir_locs_def cluster_locs_def upt_conv_Cons)

lemma places_next_sector:
  assumes "ci < length rs" "si + 1 < 2 ^ cluster_shift s"
  shows "places s rs ci si k = drop k (sector_locs (cluster_sector s (rs ! ci) + si)) @ places s rs ci (si + 1) 0"
  using assms by (simp add: places_def Let_def upt_conv_Cons)

lemma places_next_cluster:
  assumes "ci < length rs" "si + 1 = 2 ^ cluster_shift s"
  shows "places s rs ci si k = drop k (sector_locs (cluster_sector s (rs ! ci) + si)) @ places s rs (ci + 1) 0 0"
proof (cases "ci + 1 < length rs")
  case True
  then have "drop (ci + 1) rs = rs ! (ci + 1) # drop (ci + 2) rs" by (simp add: Cons_nth_drop_Suc)
  moreover have "[first..<first + 2 ^ cluster_shift s] = first # [first + 1..<first + 2 ^ cluster_shift s]" for first
    by (simp add: upt_conv_Cons)
  moreover have "[first + si + 1..<first + 2 ^ cluster_shift s] = []" for first using assms(2) by simp
  ultimately show ?thesis using assms(1) True by (simp add: places_def Let_def dir_locs_def cluster_locs_def)
next
  case False
  then show ?thesis using assms by (simp add: places_def Let_def dir_locs_def flip: assms(2))
qed

lemma iter_at_places: "iter_at s rs it ls \<Longrightarrow> set ls \<subseteq> set (dir_locs s rs)"
proof -
  assume a: "iter_at s rs it ls"
  show ?thesis
  proof (cases "it_steps it < length rs")
    case True
    let ?c = "cluster_sector s (rs ! it_steps it)"
    have b: "{?c..<?c + 2 ^ cluster_shift s} \<subseteq> chain_blocks s rs"
      using True by (auto simp: chain_blocks_def cluster_blocks_def intro!: bexI[of _ "rs ! it_steps it"])
    have "x \<in> set (dir_locs s rs)" if "x \<in> set (dir_locs s (drop (it_steps it + 1) rs))" for x
      using that set_drop_subset[of "it_steps it + 1" rs] by (auto simp: dir_locs_def)
    then show ?thesis using a True b
      by (fastforce simp: iter_at_def places_def Let_def in_dir_locs in_sector_locs dest!: in_set_dropD[of _ _ "sector_locs _"])
  next
    case False
    then show ?thesis using a by (simp add: iter_at_def places_def)
  qed
qed

lemma places_keeps: "keeps W s s' \<Longrightarrow> places s' rs = places s rs"
proof -
  assume k: "keeps W s s'"
  have "cluster_sector s' = cluster_sector s" using keeps_wf[OF k] by (simp add: cluster_sector_def fun_eq_iff)
  then show ?thesis using keeps_wf[OF k] dir_locs_keeps[OF k] by (simp add: places_def fun_eq_iff)
qed

lemma iter_slots_spec:
  "k \<le> 4 \<Longrightarrow> case iter_slots (4 - k) buf k of
     None \<Rightarrow> \<forall>i. k \<le> i \<and> i < 4 \<longrightarrow> \<not> slot_used (slot buf i)
   | Some i \<Rightarrow> k \<le> i \<and> i < 4 \<and> slot_used (slot buf i) \<and> (\<forall>j. k \<le> j \<and> j < i \<longrightarrow> \<not> slot_used (slot buf j))"
proof (induction "4 - k" arbitrary: k)
  case 0
  then show ?case by auto
next
  case (Suc n)
  then have e: "4 - k = Suc (4 - (k + 1))" by simp
  show ?case
  proof (cases "slot_used (slot buf k)")
    case True
    then show ?thesis unfolding e using Suc.hyps(2) by auto
  next
    case False
    have "case iter_slots (4 - (k + 1)) buf (k + 1) of
        None \<Rightarrow> \<forall>i. k + 1 \<le> i \<and> i < 4 \<longrightarrow> \<not> slot_used (slot buf i)
      | Some i \<Rightarrow> k + 1 \<le> i \<and> i < 4 \<and> slot_used (slot buf i) \<and> (\<forall>j. k + 1 \<le> j \<and> j < i \<longrightarrow> \<not> slot_used (slot buf j))"
      using Suc.hyps(1)[of "k + 1"] Suc.hyps(2) by simp
    then show ?thesis unfolding e using False
      by (auto split: option.splits) (metis Suc_leI le_neq_implies_less)+
  qed
qed


text \<open>What a search does: it leaves the files alone, and passes over free slots to the first used one, if any.\<close>

definition quiet :: "fs_state \<Rightarrow> fs_state \<Rightarrow> bool" where
  "quiet s s' \<longleftrightarrow> keeps {} s s' \<and> fat_view s' = fat_view s"

lemma quiet_trans: "quiet s s1 \<Longrightarrow> quiet s1 s' \<Longrightarrow> quiet s s'"
  using keeps_trans[of "{}" s s1 s'] by (auto simp: quiet_def)

lemma quiet_inv:
  assumes "fs_inv s rs" "quiet s s'"
  shows "fs_inv s' rs" "contents s' rs = contents s rs" "files s' rs = files s rs" "mounted s' = mounted s" "dir_locs s' rs = dir_locs s rs"
    "\<And>l. l \<in> set (dir_locs s rs) \<Longrightarrow> entry_at s' l = entry_at s l" "places s' rs = places s rs" "cluster_shift s' = cluster_shift s" "sb s' = sb s"
  using assms fs_inv_keeps[of s rs "{}" s'] contents_same[of s rs "{}" s'] keeps_wf[of "{}" s s'] dir_locs_keeps[of "{}" s s'] places_keeps[of "{}" s s']
  by (auto simp: quiet_def)

lemma iter_at_quiet: "fs_inv s rs \<Longrightarrow> quiet s s' \<Longrightarrow> iter_at s' rs it ls = iter_at s rs it ls"
  using quiet_inv(7,8)[of s rs s'] by (simp add: iter_at_def)

definition info_of :: "dir_entry \<Rightarrow> u8 list \<times> nat" where
  "info_of e = ((de_name e)[FS_NAME_MAX := 0], de_size e)"

definition used_at :: "fs_state \<Rightarrow> location \<Rightarrow> bool" where
  "used_at s l \<longleftrightarrow> slot_used (entry_at s l)"

lemma iter_step_spec:
  assumes inv: "fs_inv s rs" and at: "iter_at s rs it ls" and c: "it_cluster it \<noteq> 0" and r: "iter_step it s = (r, it', s')"
  shows "quiet s s' \<and> (r = Inl FS_ERR_IO \<or>
    (\<exists>pre l ls'. r = Inr (Some (info_of (entry_at s l))) \<and> ls = pre @ l # ls' \<and> used_at s l \<and> (\<forall>x \<in> set pre. \<not> used_at s x) \<and> iter_at s rs it' ls') \<or>
    (\<exists>pre ls'. r = Inr None \<and> ls = pre @ ls' \<and> (\<forall>x \<in> set pre. \<not> used_at s x) \<and> iter_at s rs it' ls' \<and> sectors_left s rs it' < sectors_left s rs it))"
proof -
  have wf: "fs_wf s" and ch: "is_chain (fat_view s) (cluster_count (sb s)) (root_cluster (sb s)) rs" using inv by (simp_all add: fs_inv_def)
  define ci si k where "ci = it_steps it" and "si = it_sector it" and "k = it_slot it"
  have pos: "ci < length rs" "si < 2 ^ cluster_shift s" "k \<le> 4" "it_cluster it = rs ! ci" "ls = places s rs ci si k"
    using at c by (auto simp: iter_at_def ci_def si_def k_def split: if_splits)
  define sec where "sec = cluster_sector s (rs ! ci) + si"
  have cb: "sec \<in> cluster_blocks s (rs ! ci)" using pos(2) by (simp add: sec_def cluster_blocks_def)
  have rg: "1 \<le> rs ! ci" "rs ! ci \<le> cluster_count (sb s)" using is_chain_range[OF ch] pos(1) by simp_all
  have area: "sec \<in> block_area s" using cluster_blocks_area(1)[OF wf rg] cb by blast
  obtain q s1 where d: "dir_read sec s = (q, s1)" by fastforce
  note D = dir_read_spec[OF wf area d]
  have q1: "quiet s s1" using D by (simp add: quiet_def)
  have sh: "cluster_shift s1 = cluster_shift s" "sb s1 = sb s" "fs_wf s1" using D keeps_wf[of "{}" s s1] by auto
  let ?L = "\<lambda>i. \<lparr>loc_sector = sec, loc_slot = i\<rparr>"
  have E: "entry_at s (?L i) = slot (blk s sec) i" for i by (simp add: entry_at_def)
  have loc: "drop j (sector_locs sec) = map ?L [j..<4]" for j by (simp add: sector_locs_def drop_map)
  have step: "places s rs ci si j = map ?L [j..<4] @ (if si + 1 < 2 ^ cluster_shift s then places s rs ci (si + 1) 0 else places s rs (ci + 1) 0 0)" for j
  proof (cases "si + 1 < 2 ^ cluster_shift s")
    case True
    then show ?thesis using places_next_sector[OF pos(1) True, folded sec_def] by (simp add: loc)
  next
    case False
    then have full: "si + 1 = 2 ^ cluster_shift s" using pos(2) by simp
    then show ?thesis using False places_next_cluster[OF pos(1) full, folded sec_def] by (simp add: loc)
  qed
  note rest = step[of k, folded pos(5)]
  show ?thesis
  proof (cases "q = Inr ()")
    case False
    then have "q = Inl FS_ERR_IO" using D by auto
    then have "r = Inl FS_ERR_IO" "s' = s1" using r d pos(4) by (simp_all add: iter_step_def si_def[symmetric] sec_def)
    then show ?thesis using q1 by simp
  next
    case True
    then have buf: "dir_buf s1 = blk s sec" using D by auto
    show ?thesis
    proof (cases "iter_slots (4 - k) (blk s sec) k")
      case (Some i)
      then have i: "k \<le> i" "i < 4" "slot_used (slot (blk s sec) i)" "\<forall>j. k \<le> j \<and> j < i \<longrightarrow> \<not> slot_used (slot (blk s sec) j)"
        using iter_slots_spec[OF pos(3), of "blk s sec"] by auto
      have res: "r = Inr (Some (info_of (entry_at s (?L i))))" "it' = it\<lparr>it_slot := i + 1\<rparr>" "s' = s1"
        using r d True pos(4) Some buf by (simp_all add: iter_step_def si_def[symmetric] k_def[symmetric] sec_def info_of_def entry_at_def)
      have sp: "[k..<4] = [k..<i] @ i # [i + 1..<4]" using i(1,2) by (metis upt_conv_Cons upt_add_eq_append le_add_diff_inverse less_imp_le Suc_eq_plus1)
      have "ls = map ?L [k..<i] @ ?L i # places s rs ci si (i + 1)"
        unfolding rest sp step[of "i + 1"] by simp
      moreover have "iter_at s rs it' (places s rs ci si (i + 1))" using pos i(2) by (simp add: iter_at_def res(2) ci_def si_def)
      moreover have "used_at s (?L i)" "\<forall>x \<in> set (map ?L [k..<i]). \<not> used_at s x" using i(3,4) by (auto simp: used_at_def E)
      ultimately show ?thesis using q1 res(1,3) by blast
    next
      case None
      then have free: "\<forall>x \<in> set (map ?L [k..<4]). \<not> used_at s x"
        using iter_slots_spec[OF pos(3), of "blk s sec"] by (auto simp: used_at_def E)
      show ?thesis
      proof (cases "si + 1 < 2 ^ cluster_shift s")
        case True1: True
        have res: "r = Inr None" "it' = it\<lparr>it_slot := 0, it_sector := si + 1\<rparr>" "s' = s1"
          using r d True pos(4) None buf True1 sh(1) by (auto simp: iter_step_def si_def[symmetric] k_def[symmetric] sec_def Let_def)
        have "iter_at s rs it' (places s rs ci (si + 1) 0)" using pos True1 by (simp add: iter_at_def res(2) ci_def)
        moreover have "sectors_left s rs it' < sectors_left s rs it"
        proof -
          define a where "a = (length rs - ci) * 2 ^ cluster_shift s"
          have "1 * 2 ^ cluster_shift s \<le> a" unfolding a_def using pos(1) by (intro mult_le_mono1) simp
          then have "a - (si + 1) < a - si" using True1 by linarith
          then show ?thesis by (simp add: sectors_left_def res(2) a_def flip: ci_def si_def)
        qed
        moreover have "ls = map ?L [k..<4] @ places s rs ci (si + 1) 0" using rest True1 by simp
        ultimately show ?thesis using q1 res(1,3) free by blast
      next
        case False
        then have full: "si + 1 = 2 ^ cluster_shift s" using pos(2) by simp
        obtain q2 s2 where n: "chain_next (rs ! ci) s1 = (q2, s2)" by fastforce
        have ch1: "is_chain (fat_view s1) (cluster_count (sb s1)) (root_cluster (sb s)) rs" using ch D sh(2) by simp
        have N: "fat_same s1 s2" "q2 = Inr (if ci + 1 < length rs then rs ! (ci + 1) else 0) \<or> q2 = Inl FS_ERR_IO"
          using chain_next_in_chain[OF sh(3) n ch1 pos(1)] by auto
        have "quiet s1 s2" using fat_same_keeps[OF N(1)] by (simp add: quiet_def)
        then have q2': "quiet s s2" by (rule quiet_trans[OF q1])
        have sb2: "sb s2 = sb s" using quiet_inv(9)[OF inv q2'] .
        show ?thesis
        proof (cases "q2 = Inl FS_ERR_IO")
          case True2: True
          then have "r = Inl FS_ERR_IO" "s' = s2"
            using r d True pos(4) None buf False n sh(1) by (auto simp: iter_step_def si_def[symmetric] k_def[symmetric] sec_def Let_def)
          then show ?thesis using q2' by simp
        next
          case False2: False
          have small: "ci + 1 \<le> cluster_count (sb s)" using is_chain_length[OF ch] pos(1) by simp
          have res: "r = Inr None" "it' = it\<lparr>it_slot := 0, it_sector := 0, it_cluster := (if ci + 1 < length rs then rs ! (ci + 1) else 0), it_steps := ci + 1\<rparr>" "s' = s2"
            using r d True pos(4) None buf False n N(2) False2 small sh(1) sb2
            by (auto simp: iter_step_def si_def[symmetric] k_def[symmetric] ci_def[symmetric] sec_def Let_def)
          have "iter_at s rs it' (places s rs (ci + 1) 0 0)" using pos by (simp add: iter_at_def res(2))
          moreover have "sectors_left s rs it' < sectors_left s rs it"
          proof -
            have "length rs - ci = Suc (length rs - (ci + 1))" using pos(1) by simp
            then show ?thesis using full by (simp add: sectors_left_def res(2) flip: ci_def si_def)
          qed
          moreover have "ls = map ?L [k..<4] @ places s rs (ci + 1) 0 0" using rest False by simp
          ultimately show ?thesis using q2' res(1,3) free by blast
        qed
      qed
    qed
  qed
qed


text \<open>The rounds of \<open>fs_iter_next\<close>: the fuel is never used up.\<close>

lemma iter_loop_spec:
  "\<lbrakk>fs_inv s rs; iter_at s rs it ls; sectors_left s rs it \<le> fuel; iter_loop fuel it s = (r, it', s')\<rbrakk> \<Longrightarrow>
    quiet s s' \<and> (r = Inl FS_ERR_IO \<or>
    (\<exists>pre l ls'. r = Inr (Some (info_of (entry_at s l))) \<and> ls = pre @ l # ls' \<and> used_at s l \<and> (\<forall>x \<in> set pre. \<not> used_at s x) \<and> iter_at s rs it' ls') \<or>
    r = Inr None \<and> (\<forall>x \<in> set ls. \<not> used_at s x))"
proof (induction fuel arbitrary: it s ls)
  case 0
  have "2 ^ cluster_shift s \<le> (length rs - it_steps it) * 2 ^ cluster_shift s" if "it_steps it < length rs"
    using that mult_le_mono1[of 1 "length rs - it_steps it" "2 ^ cluster_shift s"] by simp
  then have e: "length rs \<le> it_steps it" using 0 by (fastforce simp: iter_at_def sectors_left_def)
  then have "it_cluster it = 0" "ls = []" using 0(2) by (auto simp: iter_at_def places_def)
  then show ?case using 0(1,4) by (simp add: iter_loop.simps quiet_def keeps_refl fs_inv_def)
next
  case (Suc fuel)
  show ?case
  proof (cases "it_cluster it = 0")
    case True
    have "ls = []"
    proof (cases "it_steps it < length rs")
      case True1: True
      then have "rs ! it_steps it = 0" using Suc.prems(2) True by (simp add: iter_at_def)
      then have "0 \<in> set rs" using nth_mem[OF True1] by simp
      then show ?thesis using is_chain_range[of "fat_view s" "cluster_count (sb s)" "root_cluster (sb s)" rs 0] Suc.prems(1) by (simp add: fs_inv_def)
    next
      case False
      then show ?thesis using Suc.prems(2) by (simp add: iter_at_def places_def)
    qed
    then show ?thesis using Suc.prems(1,4) True by (simp add: iter_loop.simps quiet_def keeps_refl fs_inv_def)
  next
    case False
    obtain q it1 s1 where st: "iter_step it s = (q, it1, s1)" by (metis prod_cases3)
    note S = iter_step_spec[OF Suc.prems(1,2) False st]
    have l: "(case q of Inr None \<Rightarrow> iter_loop fuel it1 s1 | _ \<Rightarrow> (q, it1, s1)) = (r, it', s')"
      using Suc.prems(4) False st by (auto simp: iter_loop.simps[of "Suc fuel"] split: sum.splits option.splits)
    show ?thesis
    proof (cases "q = Inr None")
      case False2: False
      then have "r = q" "it' = it1" "s' = s1" using l by (auto split: sum.splits option.splits)
      then show ?thesis using S False2 by blast
    next
      case True
      then obtain pre ls1 where P: "ls = pre @ ls1" "\<forall>x \<in> set pre. \<not> used_at s x" "iter_at s rs it1 ls1" "sectors_left s rs it1 < sectors_left s rs it"
        using S by auto
      have q: "quiet s s1" using S by simp
      note I = quiet_inv[OF Suc.prems(1) q]
      have u: "used_at s1 l = used_at s l" "entry_at s1 l = entry_at s l" if "l \<in> set ls1" for l
        using I(6)[of l] iter_at_places[OF P(3)] that by (auto simp: used_at_def)
      have "sectors_left s1 rs it1 \<le> fuel" using P(4) Suc.prems(3) I(8) by (simp add: sectors_left_def)
      then have J: "quiet s1 s' \<and> (r = Inl FS_ERR_IO \<or>
          (\<exists>pre l ls'. r = Inr (Some (info_of (entry_at s1 l))) \<and> ls1 = pre @ l # ls' \<and> used_at s1 l \<and> (\<forall>x \<in> set pre. \<not> used_at s1 x) \<and> iter_at s1 rs it' ls') \<or>
          r = Inr None \<and> (\<forall>x \<in> set ls1. \<not> used_at s1 x))"
        using Suc.IH[OF I(1), of it1 ls1] P(3) iter_at_quiet[OF Suc.prems(1) q] l True by simp
      have q': "quiet s s'" using quiet_trans[OF q] J by blast
      from J consider "r = Inl FS_ERR_IO" | pre' x ls' where "r = Inr (Some (info_of (entry_at s1 x)))" "ls1 = pre' @ x # ls'" "used_at s1 x" "\<forall>x \<in> set pre'. \<not> used_at s1 x" "iter_at s1 rs it' ls'"
        | "r = Inr None" "\<forall>x \<in> set ls1. \<not> used_at s1 x" by blast
      then show ?thesis
      proof cases
        case 1
        then show ?thesis using q' by simp
      next
        case (2 pre' x ls')
        then have "r = Inr (Some (info_of (entry_at s x)))" "ls = (pre @ pre') @ x # ls'" "used_at s x" "\<forall>x \<in> set (pre @ pre'). \<not> used_at s x" "iter_at s rs it' ls'"
          using P(1,2) u iter_at_quiet[OF Suc.prems(1) q] by auto
        then show ?thesis using q' by blast
      next
        case 3
        then show ?thesis using q' P(1,2) u by auto
      qed
    qed
  qed
qed


section \<open>The listing is complete\<close>

lemma fs_iter_next_spec:
  assumes "fs_inv s rs" "mounted s" "iter_at s rs it ls" "fs_iter_next it s = (r, it', s')"
  shows "quiet s s' \<and> (r = Inl FS_ERR_IO \<or>
    (\<exists>pre l ls'. r = Inr (Some (info_of (entry_at s l))) \<and> ls = pre @ l # ls' \<and> used_at s l \<and> (\<forall>x \<in> set pre. \<not> used_at s x) \<and> iter_at s rs it' ls') \<or>
    r = Inr None \<and> (\<forall>x \<in> set ls. \<not> used_at s x))"
proof -
  have "length rs \<le> cluster_count (sb s)" using assms(1) is_chain_length by (auto simp: fs_inv_def)
  then have "(length rs - it_steps it) * 2 ^ cluster_shift s \<le> (cluster_count (sb s) + 2) * 2 ^ cluster_shift s" by (intro mult_le_mono1) simp
  then have "sectors_left s rs it \<le> iter_fuel s" by (simp add: sectors_left_def iter_fuel_def)
  moreover have "iter_loop (iter_fuel s) it s = (r, it', s')" using assms(2,4) by (simp add: fs_iter_next_def)
  ultimately show ?thesis by (rule iter_loop_spec[OF assms(1,3)])
qed

lemma fs_walk_spec:
  "\<lbrakk>fs_inv s rs; mounted s; iter_at s rs it ls\<rbrakk> \<Longrightarrow>
    \<exists>e s' m. quiet s s' \<and> (let infos = map (\<lambda>l. info_of (entry_at s l)) (filter (used_at s) ls) in
      fs_walk f it s c n = Some (e, s', fold f (take m infos) c, n + m) \<and>
      (e = None \<and> m = length infos \<or> e = Some FS_ERR_IO \<and> m \<le> length infos))"
proof (induction "length ls" arbitrary: it s c n ls rule: less_induct)
  case less
  obtain r it' s' where f: "fs_iter_next it s = (r, it', s')" by (metis prod_cases3)
  note F = fs_iter_next_spec[OF less.prems f]
  have q: "quiet s s'" using F by simp
  from F consider (io) "r = Inl FS_ERR_IO"
    | (one) pre l ls' where "r = Inr (Some (info_of (entry_at s l)))" "ls = pre @ l # ls'" "used_at s l" "\<forall>x \<in> set pre. \<not> used_at s x" "iter_at s rs it' ls'"
    | (none) "r = Inr None" "\<forall>x \<in> set ls. \<not> used_at s x" by blast
  then show ?case
  proof cases
    case io
    then have "fs_walk f it s c n = Some (Some FS_ERR_IO, s', c, n)" using f by (simp add: fs_walk.simps)
    then show ?thesis using q by (intro exI[of _ "Some FS_ERR_IO"] exI[of _ s'] exI[of _ 0]) (simp add: Let_def)
  next
    case none
    then have "fs_walk f it s c n = Some (None, s', c, n)" using f by (simp add: fs_walk.simps)
    moreover have "filter (used_at s) ls = []" using none(2) by (simp add: filter_empty_conv)
    ultimately show ?thesis using q by (intro exI[of _ None] exI[of _ s'] exI[of _ 0]) simp
  next
    case (one pre l ls')
    note I = quiet_inv[OF less.prems(1) q]
    have w: "fs_walk f it s c n = fs_walk f it' s' (f (info_of (entry_at s l)) c) (n + 1)" using f one(1) by (simp add: fs_walk.simps)
    have at': "iter_at s' rs it' ls'" using one(5) iter_at_quiet[OF less.prems(1) q] by simp
    have sub: "set ls \<subseteq> set (dir_locs s rs)" by (rule iter_at_places[OF less.prems(3)])
    have same: "map (\<lambda>l. info_of (entry_at s' l)) (filter (used_at s') ls') = map (\<lambda>l. info_of (entry_at s l)) (filter (used_at s) ls')"
      using I(6) sub one(2) by (intro map_cong filter_cong) (auto simp: used_at_def)
    have "length ls' < length ls" "mounted s'" using one(2) I(4) less.prems(2) by simp_all
    from less.hyps[OF this(1) I(1) this(2) at', of "f (info_of (entry_at s l)) c" "n + 1"] obtain e s2 m where
      J: "quiet s' s2" "fs_walk f it' s' (f (info_of (entry_at s l)) c) (n + 1) =
          Some (e, s2, fold f (take m (map (\<lambda>l. info_of (entry_at s l)) (filter (used_at s) ls'))) (f (info_of (entry_at s l)) c), n + 1 + m)"
        "e = None \<and> m = length (filter (used_at s) ls') \<or> e = Some FS_ERR_IO \<and> m \<le> length (filter (used_at s) ls')"
      unfolding same Let_def by auto
    have "filter (used_at s) ls = l # filter (used_at s) ls'" using one(2-4) by (simp add: filter_empty_conv)
    then show ?thesis using J quiet_trans[OF q J(1)] w
      by (intro exI[of _ e] exI[of _ s2] exI[of _ "Suc m"]) (auto simp: Let_def)
  qed
qed

text \<open>The entries of the directory in the order of the walk, and that they are the files.\<close>

definition listing :: "fs_state \<Rightarrow> nat list \<Rightarrow> (u8 list \<times> nat) list" where
  "listing s rs = map (\<lambda>l. info_of (entry_at s l)) (filter (used_at s) (dir_locs s rs))"

lemma cname_update:
  assumes "0 \<in> set b" "length b = 116"
  shows "cname (b[115 := 0]) = cname b"
proof -
  have c: "length (cname b) < 116" "b ! length (cname b) = 0" using cname_0[OF assms(1)] assms(2) by simp_all
  have n: "\<And>i. i < length (cname b) \<Longrightarrow> b ! i \<noteq> 0" using cname_nth by blast
  have "cname (b[115 := 0]) = take (length (cname b)) (b[115 := 0])"
    by (rule cname_eqI) (use c n assms(2) in \<open>auto simp: nth_list_update\<close>)
  also have "\<dots> = take (length (cname b)) b" using c(1) by (simp add: take_update_swap list_update_beyond)
  also have "\<dots> = cname b" unfolding cname_def by (rule takeWhile_eq_take[symmetric])
  finally show ?thesis .
qed


lemma length_entry_name: "fs_wf s \<Longrightarrow> loc_slot l < 4 \<Longrightarrow> length (de_name (entry_at s l)) = 116"
  unfolding entry_at_def blk_def by (rule length_de_name[OF bd.view_length]) (simp_all add: fs_wf_def)

lemma distinct_sector_range: "distinct (concat (map sector_locs [a..<b]))"
proof (induction b)
  case (Suc b)
  have "set (concat (map sector_locs [a..<b])) \<inter> set (sector_locs b) = {}" by (auto simp: in_sector_locs)
  moreover have "distinct (sector_locs b)" by (simp add: sector_locs_def distinct_map inj_on_def)
  ultimately show ?case using Suc by simp
qed simp

lemma distinct_dir_locs:
  assumes "fs_wf s" "is_chain fv (cluster_count (sb s)) c rs"
  shows "distinct (dir_locs s rs)"
  using assms(2)
proof (induction rs arbitrary: c)
  case (Cons x xs)
  have d: "distinct (x # xs)" by (rule is_chain_distinct[OF Cons.prems])
  have "set (cluster_locs s x) \<inter> set (dir_locs s xs) = {}"
  proof (rule ccontr)
    assume "set (cluster_locs s x) \<inter> set (dir_locs s xs) \<noteq> {}"
    then obtain l :: location and y where l: "loc_sector l \<in> cluster_blocks s x" "y \<in> set xs" "loc_sector l \<in> cluster_blocks s y"
      by (fastforce simp: in_cluster_locs in_dir_locs chain_blocks_def)
    have "x \<noteq> y" using d l(2) by auto
    moreover have "1 \<le> x" "1 \<le> y" using is_chain_range[OF Cons.prems] l(2) by simp_all
    ultimately show False using cluster_blocks_disjoint[of x y s] l(1,3) by blast
  qed
  moreover have "distinct (cluster_locs s x)" unfolding cluster_locs_def by (rule distinct_sector_range)
  moreover obtain c' where "is_chain fv (cluster_count (sb s)) c' xs" using Cons.prems by auto
  ultimately show ?case using Cons.IH by (simp add: dir_locs_def)
qed (simp add: dir_locs_def)

lemma map_of_second: "map_of (map (\<lambda>l. (f l, h l)) xs) x = map_option snd (map_of (map (\<lambda>l. (f l, g l, h l)) xs) x)"
  by (induction xs) simp_all

lemma listing_names:
  assumes "fs_inv s rs"
  shows "map (\<lambda>(nm, k). (cname nm, k)) (listing s rs) =
    map (\<lambda>l. (cname (de_name (entry_at s l)), de_size (entry_at s l))) (filter (used_at s) (dir_locs s rs))"
proof -
  have "cname (fst (info_of (entry_at s l))) = cname (de_name (entry_at s l))" if "l \<in> set (dir_locs s rs)" "used_at s l" for l
  proof -
    have "0 \<in> set (de_name (entry_at s l))" "fs_wf s" using assms that by (auto simp: fs_inv_def dir_inv_def entry_ok_def used_at_def)
    then show ?thesis using cname_update length_entry_name[of s l] that(1) by (simp add: info_of_def in_dir_locs)
  qed
  then show ?thesis by (auto simp: listing_def split_beta info_of_def)
qed

lemma listing_files:
  assumes inv: "fs_inv s rs"
  shows "distinct (map (\<lambda>(nm, k). cname nm) (listing s rs))"
    and "map_of (map (\<lambda>(nm, k). (cname nm, k)) (listing s rs)) = (\<lambda>x. map_option snd (files s rs x))"
proof -
  let ?E = "entry_at s" and ?ls = "filter (used_at s) (dir_locs s rs)"
  have D: "dir_inv (fat_view s) (cluster_count (sb s)) (cluster_bytes s) rs ?E (set (dir_locs s rs))" using inv by (simp add: fs_inv_def)
  have inj: "inj_on (\<lambda>l. cname (de_name (?E l))) (set ?ls)"
    using D by (intro inj_onI) (auto simp: dir_inv_def apart_def used_at_def)
  have "map (\<lambda>(nm, k). cname nm) (listing s rs) = map (\<lambda>l. cname (de_name (?E l))) ?ls"
    using arg_cong[OF listing_names[OF inv], of "map fst"] by (simp add: case_prod_unfold comp_def)
  moreover have "distinct (dir_locs s rs)" using distinct_dir_locs[of s "fat_view s"] inv by (auto simp: fs_inv_def)
  ultimately show "distinct (map (\<lambda>(nm, k). cname nm) (listing s rs))" using inj by (simp add: distinct_map)
  show "map_of (map (\<lambda>(nm, k). (cname nm, k)) (listing s rs)) = (\<lambda>x. map_option snd (files s rs x))"
    unfolding listing_names[OF inv] files_def files_of_def used_at_def[abs_def] by (rule ext) (rule map_of_second)
qed


text \<open>
  C22. The listing is complete: walking the directory with the iterator, as the shell does, always ends; it
  changes no file; unless the disk fails it reports every file exactly once, with its name and size,
  and nothing else; and if the disk fails what has been reported so far are files.
\<close>
theorem listing_complete:
  assumes inv: "fs_inv s rs" and m: "mounted s"
  shows "\<exists>e s' out. fs_walk (\<lambda>info out. out @ [info]) (fs_iter_begin s) s [] 0 = Some (e, s', out, length out) \<and>
    fs_inv s' rs \<and> contents s' rs = contents s rs \<and> distinct (map (\<lambda>(nm, k). cname nm) out) \<and>
    (e = None \<and> map_of (map (\<lambda>(nm, k). (cname nm, k)) out) = (\<lambda>x. map_option snd (files s rs x)) \<or>
     e = Some FS_ERR_IO \<and> (\<forall>(nm, k) \<in> set out. map_option snd (files s rs (cname nm)) = Some k))"
proof -
  have ch: "is_chain (fat_view s) (cluster_count (sb s)) (root_cluster (sb s)) rs" and g: "1 \<le> root_cluster (sb s)"
    using inv by (simp_all add: fs_inv_def fs_wf_def geometry_def)
  then have rs: "rs \<noteq> []" "rs ! 0 = root_cluster (sb s)" by (cases rs; simp)+
  have at: "iter_at s rs (fs_iter_begin s) (dir_locs s rs)"
    using rs m places_start[OF rs(1), of s] by (simp add: iter_at_def fs_iter_begin_def)
  obtain e s' j where w: "quiet s s'"
      "fs_walk (\<lambda>info out. out @ [info]) (fs_iter_begin s) s [] 0 = Some (e, s', fold (\<lambda>info out. out @ [info]) (take j (listing s rs)) [], j)"
      "e = None \<and> j = length (listing s rs) \<or> e = Some FS_ERR_IO \<and> j \<le> length (listing s rs)"
    using fs_walk_spec[OF inv m at, of "\<lambda>info out. out @ [info]" "[]" 0] unfolding Let_def listing_def[symmetric] by auto
  have fo: "fold (\<lambda>info out. out @ [info]) xs ys = ys @ xs" for xs ys :: "'a list" by (induction xs arbitrary: ys) simp_all
  let ?out = "take j (listing s rs)"
  have len: "length ?out = j" using w(3) by auto
  have d: "distinct (map (\<lambda>(nm, k). cname nm) ?out)" using listing_files(1)[OF inv] by (metis distinct_take take_map)
  have "map_option snd (files s rs (cname nm)) = Some k" if "(nm, k) \<in> set ?out" for nm k
  proof -
    have "(cname nm, k) \<in> set (map (\<lambda>(nm, k). (cname nm, k)) (listing s rs))" using in_set_takeD[OF that] by force
    moreover have "distinct (map fst (map (\<lambda>(nm, k). (cname nm, k)) (listing s rs)))"
      using listing_files(1)[OF inv] by (simp add: case_prod_unfold comp_def)
    ultimately show ?thesis using listing_files(2)[OF inv] by (metis map_of_eq_Some_iff)
  qed
  then show ?thesis using w d len quiet_inv(1,2)[OF inv w(1)] listing_files(2)[OF inv]
    by (intro exI[of _ e] exI[of _ s'] exI[of _ ?out]) (auto simp: fo)
qed

theorem listing_complete_witness:
  "\<forall>a v. \<exists>e s' out. fs_walk (\<lambda>info out. out @ [info]) (fs_iter_begin (example_fs a v)) (example_fs a v) [] 0 = Some (e, s', out, length out) \<and>
    (e = None \<and> map_of (map (\<lambda>(nm, k). (cname nm, k)) out) = [[97] \<mapsto> 3] \<or> e = Some FS_ERR_IO)"
proof (intro allI)
  fix a v
  have m: "mounted (example_fs a v)" by (simp add: example_fs_def)
  have "(\<lambda>x. map_option snd (files (example_fs a v) [1] x)) = [[97] \<mapsto> 3]" unfolding example_files by auto
  then show "\<exists>e s' out. fs_walk (\<lambda>info out. out @ [info]) (fs_iter_begin (example_fs a v)) (example_fs a v) [] 0 = Some (e, s', out, length out) \<and>
    (e = None \<and> map_of (map (\<lambda>(nm, k). (cname nm, k)) out) = [[97] \<mapsto> 3] \<or> e = Some FS_ERR_IO)"
    using listing_complete[OF example_inv m] by (elim exE conjE disjE) (auto simp del: One_nat_def)
qed


section \<open>Usage\<close>

definition free_in :: "fs_state \<Rightarrow> nat \<Rightarrow> nat \<Rightarrow> nat" where
  "free_in s a b = length (filter (\<lambda>c. 1 \<le> c \<and> c \<le> cluster_count (sb s) \<and> fat_view s c = 0) [a..<b])"

lemma free_in_split: "a \<le> b \<Longrightarrow> b \<le> c \<Longrightarrow> free_in s a c = free_in s a b + free_in s b c"
  using upt_add_eq_append[of a b "c - b"] by (simp add: free_in_def)

lemma usage_entries_spec:
  assumes "fat_cache_sector s = 1 + sector" "1 + sector \<noteq> NO_SECTOR" "sector < fat_sectors (sb s)"
  shows "i + k = 128 \<Longrightarrow> usage_entries k i sector s n = n + free_in s (sector * 128 + i) ((sector + 1) * 128)"
proof (induction k arbitrary: i n)
  case 0
  then show ?case by (simp add: free_in_def)
next
  case (Suc k)
  let ?c = "sector * 128 + i"
  have "u32_at (fat_cache s) i = fat_view s ?c"
    using assms Suc.prems by (simp add: fat_view_def fat_sec_def)
  moreover have "free_in s ?c ((sector + 1) * 128) = free_in s ?c (?c + 1) + free_in s (?c + 1) ((sector + 1) * 128)"
    using Suc.prems by (intro free_in_split) simp_all
  moreover have "free_in s ?c (?c + 1) = (if 1 \<le> ?c \<and> ?c \<le> cluster_count (sb s) \<and> fat_view s ?c = 0 then 1 else 0)"
    by (simp add: free_in_def)
  ultimately show ?case using Suc.IH[of "i + 1"] Suc.prems by (simp add: Let_def)
qed

lemma usage_loop_spec:
  "\<lbrakk>fs_wf s; sector + k = fat_sectors (sb s); usage_loop k sector n s = (r, s')\<rbrakk> \<Longrightarrow>
    quiet s s' \<and> (r = Inl FS_ERR_IO \<or> r = Inr (n + free_in s (sector * 128) (fat_sectors (sb s) * 128)))"
proof (induction k arbitrary: sector n s)
  case 0
  then show ?case by (simp add: quiet_def keeps_refl free_in_def)
next
  case (Suc k)
  have g: "1 + fat_sectors (sb s) \<le> total_sectors (sb s)" "total_sectors (sb s) + 4096 < 4294967296"
    using Suc.prems(1) by (auto simp: fs_wf_def geometry_def)
  obtain q s1 where l: "fat_load (1 + sector) s = (q, s1)" by fastforce
  have L: "fs_wf s1" "fat_frame s s1" "fat_sec s1 = fat_sec s" "next_free s1 = next_free s" "q = Inr () \<or> q = Inl FS_ERR_IO"
      "q = Inr () \<longrightarrow> fat_cache_sector s1 = 1 + sector"
    using fat_load_spec[OF Suc.prems(1) _ _ l] Suc.prems(2) by auto
  have sb1: "sb s1 = sb s" using L(2) by (simp add: fat_frame_def)
  have v1: "fat_view s1 = fat_view s" using L(3) sb1 by (simp add: fat_view_def fun_eq_iff)
  have "fat_same s s1" using L v1 by (simp add: fat_same_def)
  then have q1: "quiet s s1" using fat_same_keeps by (simp add: quiet_def)
  have free1: "free_in s1 = free_in s" using sb1 v1 by (simp add: free_in_def fun_eq_iff)
  show ?case
  proof (cases "q = Inr ()")
    case False
    then have "r = Inl FS_ERR_IO" "s' = s1" using L(5) Suc.prems(3) l by (auto simp: andThen_def)
    then show ?thesis using q1 by simp
  next
    case True
    have u: "usage_entries 128 0 sector s1 n = n + free_in s (sector * 128) ((sector + 1) * 128)"
      using usage_entries_spec[of s1 sector 0 128 n] L(6) True g Suc.prems(2) sb1 free1 by simp
    have st: "usage_loop k (sector + 1) (usage_entries 128 0 sector s1 n) s1 = (r, s')"
      using Suc.prems(3) l True by (simp add: andThen_def)
    have "quiet s1 s' \<and> (r = Inl FS_ERR_IO \<or> r = Inr (usage_entries 128 0 sector s1 n + free_in s ((sector + 1) * 128) (fat_sectors (sb s) * 128)))"
      using Suc.IH[OF L(1) _ st] Suc.prems(2) sb1 free1 by simp
    moreover have "free_in s (sector * 128) (fat_sectors (sb s) * 128) =
        free_in s (sector * 128) ((sector + 1) * 128) + free_in s ((sector + 1) * 128) (fat_sectors (sb s) * 128)"
      using Suc.prems(2) by (intro free_in_split) simp_all
    ultimately show ?thesis using quiet_trans[OF q1] u by auto
  qed
qed

lemma free_in_all:
  assumes "fs_wf s"
  shows "free_in s 0 (fat_sectors (sb s) * 128) = card {c. 1 \<le> c \<and> c \<le> cluster_count (sb s) \<and> fat_view s c = 0}"
proof -
  have "cluster_count (sb s) < fat_sectors (sb s) * 128" using assms by (simp add: fs_wf_def geometry_def mult.commute)
  then have "set (filter (\<lambda>c. 1 \<le> c \<and> c \<le> cluster_count (sb s) \<and> fat_view s c = 0) [0..<fat_sectors (sb s) * 128]) =
      {c. 1 \<le> c \<and> c \<le> cluster_count (sb s) \<and> fat_view s c = 0}" by auto
  then show ?thesis using distinct_card[of "filter (\<lambda>c. 1 \<le> c \<and> c \<le> cluster_count (sb s) \<and> fat_view s c = 0) [0..<fat_sectors (sb s) * 128]"]
    by (simp add: free_in_def)
qed

text \<open>The usage reported is the number of clusters whose entry in the table is 0, wherever the cache is.\<close>

theorem usage_exact:
  assumes inv: "fs_inv s rs" and m: "mounted s"
  shows "let (r, s') = fs_usage s in fs_inv s' rs \<and> contents s' rs = contents s rs \<and>
    (case r of Inl e \<Rightarrow> e = FS_ERR_IO
     | Inr st \<Rightarrow> cluster_size st = cluster_bytes s \<and> total_clusters st = cluster_count (sb s) \<and>
         free_clusters st = card {c. 1 \<le> c \<and> c \<le> cluster_count (sb s) \<and> fat_view s c = 0})"
proof -
  have wf: "fs_wf s" using inv by (simp add: fs_inv_def)
  obtain q s1 where u: "usage_loop (fat_sectors (sb s)) 0 0 s = (q, s1)" by fastforce
  have U: "quiet s s1" "q = Inl FS_ERR_IO \<or> q = Inr (free_in s 0 (fat_sectors (sb s) * 128))"
    using usage_loop_spec[OF wf _ u] by simp_all
  note I = quiet_inv[OF inv U(1)]
  have "cluster_bytes s1 = cluster_bytes s" using I(8) by (simp add: cluster_bytes_def)
  then show ?thesis using U(2) I m u free_in_all[OF wf] by (auto simp: fs_usage_def andThen_def)
qed

end
