(* ===== verification/Vga.thy ===== *)
theory Vga
  imports Mem
begin

text \<open>
  The text console, \<open>drivers/vga.c\<close>.

  The video memory at \<open>0xB8000\<close> is a function from byte offsets: a character at every even offset and
  its attribute behind it, 80 columns by 25 rows.  The graphics card's cursor position is kept in its two
  registers \<open>0x0E\<close> and \<open>0x0F\<close>.  A C string is a list of bytes with its terminating 0, as in
  \<open>Mem\<close>; \<open>lit\<close> gives the bytes of a string literal.
\<close>

section \<open>The driver\<close>

record vga =
  video :: "nat \<Rightarrow> u8"
  pos :: nat
  crtc_high :: u8
  crtc_low :: u8

abbreviation WIDTH :: nat where "WIDTH \<equiv> 80"
abbreviation HEIGHT :: nat where "HEIGHT \<equiv> 25"

definition lit :: "string \<Rightarrow> u8 list" where
  "lit s = map of_char s @ [0]"

definition update_cursor :: "vga \<Rightarrow> vga" where
  "update_cursor v = (let cursor = pos v div 2 in v\<lparr>crtc_low := of_nat cursor, crtc_high := of_nat (cursor div 256)\<rparr>)"

text \<open>A blank with the normal attribute in the cell at an offset.\<close>

definition blank_cell :: "(nat \<Rightarrow> u8) \<Rightarrow> nat \<Rightarrow> nat \<Rightarrow> u8" where
  "blank_cell m i = m(i := 32, i + 1 := 7)"

definition blank_cells :: "nat \<Rightarrow> nat \<Rightarrow> (nat \<Rightarrow> u8) \<Rightarrow> nat \<Rightarrow> u8" where
  "blank_cells a b m = fold (\<lambda>k m. blank_cell m (2 * k)) [a..<b] m"

definition move_up :: "nat \<Rightarrow> (nat \<Rightarrow> u8) \<Rightarrow> nat \<Rightarrow> u8" where
  "move_up n m = fold (\<lambda>i m. m(i := m (i + WIDTH * 2))) [0..<n] m"

definition scroll :: "vga \<Rightarrow> vga" where
  "scroll v =
     v\<lparr>video := blank_cells ((HEIGHT - 1) * WIDTH) (HEIGHT * WIDTH) (move_up ((HEIGHT - 1) * WIDTH * 2) (video v)),
       pos := if pos v < WIDTH * 2 then 0 else pos v - WIDTH * 2\<rparr>"

definition backspace :: "vga \<Rightarrow> vga" where
  "backspace v =
     (if pos v = 0 then v
      else let v = v\<lparr>pos := pos v - 2\<rparr> in update_cursor (v\<lparr>video := blank_cell (video v) (pos v)\<rparr>))"

definition put_char :: "u8 \<Rightarrow> vga \<Rightarrow> vga" where
  "put_char c v = v\<lparr>video := (video v)(pos v := c, pos v + 1 := 7), pos := pos v + 2\<rparr>"

definition emit :: "u8 \<Rightarrow> vga \<Rightarrow> vga" where
  "emit c v =
     (if c = 10 then v\<lparr>pos := pos v + (WIDTH * 2 - pos v mod (WIDTH * 2))\<rparr>
      else if c = 9 then (put_char 32 ^^ 5) v
      else put_char c v)"

definition print_char :: "u8 \<Rightarrow> vga \<Rightarrow> vga" where
  "print_char c v = (let v = emit c v in if pos v \<ge> WIDTH * HEIGHT * 2 then scroll v else v)"

primrec print_loop :: "u8 list \<Rightarrow> vga \<Rightarrow> vga" where
  "print_loop [] v = v"
| "print_loop (c # cs) v = (if c = 0 then v else print_loop cs (print_char c v))"

definition print :: "u8 list \<Rightarrow> vga \<Rightarrow> vga" where
  "print str v = update_cursor (print_loop str v)"

definition clear :: "vga \<Rightarrow> vga" where
  "clear v = update_cursor (v\<lparr>video := blank_cells 0 (WIDTH * HEIGHT) (video v), pos := 0\<rparr>)"


section \<open>A terminal\<close>

text \<open>
  What the screen shows: the characters, row by row, and the cell of the cursor.  \<open>term_put\<close> is what a
  terminal of 25 rows does with a character: a line feed goes to the next row, a tabulator leaves five
  blanks, and a full screen moves up by one row.
\<close>

type_synonym terminal = "u8 list \<times> nat"

definition shown :: "vga \<Rightarrow> terminal" where
  "shown v = (map (\<lambda>k. video v (2 * k)) [0..<WIDTH * HEIGHT], pos v div 2)"

definition term_scroll :: "terminal \<Rightarrow> terminal" where
  "term_scroll t = (if snd t < WIDTH * HEIGHT then t else (drop WIDTH (fst t) @ replicate WIDTH 32, snd t - WIDTH))"

definition term_put :: "u8 \<Rightarrow> terminal \<Rightarrow> terminal" where
  "term_put c t =
     (let (g, p) = t in
      term_scroll
       (if c = 10 then (g, (p div WIDTH + 1) * WIDTH)
        else if c = 9 then (g[p := 32, p + 1 := 32, p + 2 := 32, p + 3 := 32, p + 4 := 32], p + 5)
        else (g[p := c], p + 1)))"

definition vga_ok :: "vga \<Rightarrow> bool" where
  "vga_ok v \<longleftrightarrow> even (pos v) \<and> pos v < WIDTH * HEIGHT * 2 \<and> (\<forall>k < WIDTH * HEIGHT. video v (2 * k + 1) = 7)"

definition cursor_shown :: "vga \<Rightarrow> bool" where
  "cursor_shown v \<longleftrightarrow> unat (crtc_high v) * 256 + unat (crtc_low v) = pos v div 2"

lemma cursor_update: "pos v < WIDTH * HEIGHT * 2 \<Longrightarrow> cursor_shown (update_cursor v)"
proof -
  assume "pos v < WIDTH * HEIGHT * 2"
  then have "pos v div 2 div 256 < 256" by simp
  then show ?thesis by (simp add: cursor_shown_def update_cursor_def Let_def unat_of_nat)
qed

lemma blank_cells_apply:
  "blank_cells a b m i = (if 2 * a \<le> i \<and> i < 2 * b then if even i then 32 else 7 else m i)"
proof (induction b)
  case 0
  then show ?case by (simp add: blank_cells_def)
next
  case (Suc b)
  show ?case
  proof (cases "a \<le> b")
    case True
    then have "blank_cells a (Suc b) m i = blank_cell (blank_cells a b m) (2 * b) i" by (simp add: blank_cells_def)
    also have "\<dots> = (if i = 2 * b then 32 else if i = 2 * b + 1 then 7 else blank_cells a b m i)"
      by (simp add: blank_cell_def)
    finally show ?thesis using Suc True by (cases "i = 2 * b"; cases "i = 2 * b + 1"; auto)
  next
    case False
    then have "\<not> (2 * a \<le> i \<and> i < 2 * Suc b)" by arith
    then show ?thesis using False by (simp only: if_False) (simp add: blank_cells_def)
  qed
qed

lemma move_up_apply: "move_up n m i = (if i < n then m (i + WIDTH * 2) else m i)"
proof (induction n arbitrary: i)
  case (Suc n)
  have "move_up (Suc n) m i = (if i = n then move_up n m (n + 160) else move_up n m i)" by (simp add: move_up_def)
  then show ?case using Suc[of i] Suc[of "n + 160"] by auto
qed (simp add: move_up_def)

lemma scroll_video:
  "video (scroll v) i =
     (if i < 3840 then video v (i + 160) else if i < 4000 then if even i then 32 else 7 else video v i)"
  by (simp add: scroll_def blank_cells_apply move_up_apply)

lemma scroll_pos: "pos (scroll v) = pos v - 160"
  by (simp add: scroll_def)

lemma scroll_shown: "4000 \<le> pos v \<Longrightarrow> shown (scroll v) = term_scroll (shown v)"
  by (auto simp: shown_def term_scroll_def blank_cells_apply move_up_apply scroll_def nth_append add.commute intro!: nth_equalityI)

text \<open>The cells one character changes.\<close>

lemma shown_put_char:
  assumes "even (pos v)"
  shows "shown (put_char c v) = ((fst (shown v))[pos v div 2 := c], pos v div 2 + 1)"
proof -
  obtain p where p: "pos v = 2 * p" using assms by blast
  have odd: "2 * k \<noteq> Suc (2 * p)" for k by presburger
  show ?thesis by (auto simp: shown_def put_char_def p nth_list_update odd intro!: nth_equalityI)
qed

lemma shown_fst: "even (pos v) \<Longrightarrow> fst (shown (put_char c v)) = (fst (shown v))[pos v div 2 := c]"
  by (simp add: shown_put_char)

lemma attr_put_char:
  "even (pos v) \<Longrightarrow> video (put_char c v) (Suc (2 * k)) = (if 2 * k = pos v then 7 else video v (Suc (2 * k)))"
  by (auto simp: put_char_def) presburger

lemma put_char_frame: "i < pos v \<or> pos v + 2 \<le> i \<Longrightarrow> video (put_char c v) i = video v i"
  by (auto simp: put_char_def)

lemma put_char_pos [simp]: "pos (put_char c v) = pos v + 2"
  by (simp add: put_char_def)

lemmas put_char_facts = shown_put_char attr_put_char put_char_frame

text \<open>A tabulator is five blanks.\<close>

lemma tab_facts:
  assumes "even (pos v)"
  shows "pos ((put_char 32 ^^ 5) v) = pos v + 10"
    and "shown ((put_char 32 ^^ 5) v) =
      (let (g, p) = shown v in (g[p := 32, p + 1 := 32, p + 2 := 32, p + 3 := 32, p + 4 := 32], p + 5))"
    and "\<forall>k. video v (2 * k + 1) = 7 \<longrightarrow> video ((put_char 32 ^^ 5) v) (2 * k + 1) = 7"
    and "pos v + 10 \<le> i \<Longrightarrow> video ((put_char 32 ^^ 5) v) i = video v i"
proof -
  have e: "(put_char 32 ^^ 5) v = put_char 32 (put_char 32 (put_char 32 (put_char 32 (put_char 32 v))))"
    by (simp add: eval_nat_numeral)
  have n: "p + 3 = Suc (Suc (Suc p))" "p + 4 = Suc (Suc (Suc (Suc p)))" for p :: nat by simp_all
  show "pos ((put_char 32 ^^ 5) v) = pos v + 10" by (simp add: e)
  show "shown ((put_char 32 ^^ 5) v) =
      (let (g, p) = shown v in (g[p := 32, p + 1 := 32, p + 2 := 32, p + 3 := 32, p + 4 := 32], p + 5))"
    using assms by (simp add: e shown_put_char shown_fst) (simp add: shown_def n)
  show "\<forall>k. video v (2 * k + 1) = 7 \<longrightarrow> video ((put_char 32 ^^ 5) v) (2 * k + 1) = 7"
    using assms by (simp add: e attr_put_char)
  show "pos v + 10 \<le> i \<Longrightarrow> video ((put_char 32 ^^ 5) v) i = video v i" by (simp add: e put_char_frame)
qed

lemma emit_facts:
  assumes "vga_ok v"
  shows "even (pos (emit c v))" "pos (emit c v) \<le> pos v + 160" "pos v < pos (emit c v)"
    and "shown (emit c v) = (let (g, p) = shown v in
       if c = 10 then (g, (p div WIDTH + 1) * WIDTH)
        else if c = 9 then (g[p := 32, p + 1 := 32, p + 2 := 32, p + 3 := 32, p + 4 := 32], p + 5)
        else (g[p := c], p + 1))"
    and "k < 2000 \<Longrightarrow> video (emit c v) (2 * k + 1) = 7"
    and "4008 \<le> i \<Longrightarrow> video (emit c v) i = video v i"
proof -
  have ev: "even (pos v)" and lt: "pos v < 4000" and at: "\<And>k. k < 2000 \<Longrightarrow> video v (2 * k + 1) = 7"
    using assms by (simp_all add: vga_ok_def)
  have le: "pos v \<le> 3998" using ev lt by presburger
  show "even (pos (emit c v))" using ev by (simp add: emit_def tab_facts(1) dvd_mod)
  show "pos (emit c v) \<le> pos v + 160" using ev by (auto simp: emit_def tab_facts(1))
  show "pos v < pos (emit c v)" using ev by (auto simp: emit_def tab_facts(1))
  have nl: "(pos v + (160 - pos v mod 160)) div 2 = (pos v div 2 div 80 + 1) * 80"
  proof -
    obtain p where p: "pos v = 2 * p" using ev by blast
    have m: "pos v mod 160 = 2 * (p mod 80)" using mult_mod_right[of 2 p 80] by (simp add: p)
    have "p mod 80 \<le> 80" by (rule less_imp_le) simp
    then have "pos v + (160 - pos v mod 160) = 2 * (p + 80 - p mod 80)" unfolding m by (simp add: p)
    moreover have "p + 80 - p mod 80 = (p div 80 + 1) * 80" 
      using mod_less_eq_dividend[of p 80] minus_mod_eq_div_mult[of p 80] by (simp add: algebra_simps)
    ultimately show ?thesis by (simp add: p)
  qed
  show "shown (emit c v) = (let (g, p) = shown v in
       if c = 10 then (g, (p div WIDTH + 1) * WIDTH)
        else if c = 9 then (g[p := 32, p + 1 := 32, p + 2 := 32, p + 3 := 32, p + 4 := 32], p + 5)
        else (g[p := c], p + 1))"
    using nl ev by (simp add: emit_def tab_facts(2) shown_put_char) (simp add: shown_def)
  show "k < 2000 \<Longrightarrow> video (emit c v) (2 * k + 1) = 7"
    using at[of k] tab_facts(3)[OF ev] by (simp add: emit_def attr_put_char[OF ev])
  show "4008 \<le> i \<Longrightarrow> video (emit c v) i = video v i"
    using le tab_facts(4)[OF ev, of i] by (simp add: emit_def put_char_frame)
qed

lemma print_char_ok:
  assumes "vga_ok v"
  shows "vga_ok (print_char c v)" "shown (print_char c v) = term_put c (shown v)"
    and "4008 \<le> i \<Longrightarrow> video (print_char c v) i = video v i"
proof -
  note e = emit_facts[OF assms]
  have s: "shown (print_char c v) = term_scroll (shown (emit c v))"
  proof (cases "4000 \<le> pos (emit c v)")
    case True
    then show ?thesis by (simp add: print_char_def scroll_shown)
  next
    case False
    then show ?thesis by (simp add: print_char_def term_scroll_def) (simp add: shown_def)
  qed
  then show "shown (print_char c v) = term_put c (shown v)" by (simp add: e(4) term_put_def split: prod.splits)
  have "pos (emit c v) < 4160" using e(2)[of c] assms by (simp add: vga_ok_def)
  moreover have "video (emit c v) (161 + 2 * k) = 7" if "2 * k < 3839" for k using e(5)[of "k + 80" c] that by (simp add: add.commute)
  ultimately show "vga_ok (print_char c v)"
    using e(1) e(5) by (auto simp: vga_ok_def print_char_def Let_def scroll_video scroll_pos)
  show "4008 \<le> i \<Longrightarrow> video (print_char c v) i = video v i"
    using e(6) by (simp add: print_char_def Let_def scroll_video)
qed

lemma print_loop_ok:
  "vga_ok v \<Longrightarrow> vga_ok (print_loop s v) \<and> shown (print_loop s v) = fold term_put (cstr s) (shown v) \<and>
    (\<forall>i \<ge> 4008. video (print_loop s v) i = video v i)"
  by (induction s arbitrary: v) (auto simp: cstr_def print_char_ok)

lemma update_cursor_same: "shown (update_cursor v) = shown v" "vga_ok (update_cursor v) = vga_ok v"
  "video (update_cursor v) = video v" "pos (update_cursor v) = pos v"
  by (simp_all add: update_cursor_def Let_def shown_def vga_ok_def)

lemma print_ok:
  assumes "vga_ok v"
  shows "vga_ok (print s v) \<and> cursor_shown (print s v) \<and> shown (print s v) = fold term_put (cstr s) (shown v) \<and>
    (\<forall>i \<ge> 4008. video (print s v) i = video v i)"
proof -
  note l = print_loop_ok[OF assms, of s]
  then have "pos (print_loop s v) < 4000" by (simp add: vga_ok_def)
  then show ?thesis using l by (simp add: print_def update_cursor_same cursor_update)
qed

lemma clear_ok: "vga_ok (clear v) \<and> cursor_shown (clear v) \<and> shown (clear v) = (replicate 2000 32, 0) \<and>
    (\<forall>i \<ge> 4000. video (clear v) i = video v i)"
  by (auto simp: clear_def update_cursor_same cursor_update vga_ok_def shown_def blank_cells_apply
    intro!: nth_equalityI)

lemma backspace_ok:
  assumes "vga_ok v" "cursor_shown v"
  shows "vga_ok (backspace v) \<and> cursor_shown (backspace v) \<and>
    shown (backspace v) = (let (g, p) = shown v in if p = 0 then (g, 0) else (g[p - 1 := 32], p - 1)) \<and>
    (\<forall>i \<ge> 4000. video (backspace v) i = video v i)"
proof (cases "pos v = 0")
  case True
  then show ?thesis using assms by (simp add: backspace_def) (simp add: shown_def)
next
  case False
  obtain p where p: "pos v = 2 * Suc p" using assms False by (metis vga_ok_def dvdE nat.exhaust mult_0_right)
  have "2 * k \<noteq> Suc (2 * p)" for k by presburger
  then show ?thesis
    using assms by (auto simp: backspace_def p update_cursor_same cursor_update vga_ok_def shown_def blank_cell_def
      nth_list_update intro!: nth_equalityI)
qed

text \<open>
  C24. The console is a terminal: printing a string to a screen shows what a terminal of 25 rows and 80
  columns shows after the characters up to the terminating 0, in order, the graphics card's cursor is
  where the next character goes, the cursor stays on the screen, every cell keeps the normal attribute,
  and nothing is written more than 8 bytes behind the screen's memory.
\<close>
theorem console_refines_terminal:
  assumes "vga_ok v"
  shows "vga_ok (print s v) \<and> cursor_shown (print s v) \<and> shown (print s v) = fold term_put (cstr s) (shown v) \<and>
    (\<forall>i \<ge> 4008. video (print s v) i = video v i)"
  using assms by (rule print_ok)

theorem console_refines_terminal_witness:
  "\<forall>v. shown (print (lit ''Hi'') (clear v)) = ((replicate 2000 32)[0 := 72, 1 := 105], 2)"
proof
  fix v
  have "vga_ok (clear v)" "shown (clear v) = (replicate 2000 32, 0)" using clear_ok[of v] by simp_all
  moreover have "cstr (lit ''Hi'') = [72, 105]" by (simp add: lit_def cstr_def)
  ultimately show "shown (print (lit ''Hi'') (clear v)) = ((replicate 2000 32)[0 := 72, 1 := 105], 2)"
    using console_refines_terminal[of "clear v" "lit ''Hi''"] by (simp add: term_put_def term_scroll_def)
qed

text \<open>A tabulator in the last column writes behind the screen's memory before it scrolls.\<close>

lemma tab_writes_past_screen:
  "\<exists>v. vga_ok v \<and> video v 4000 = 65 \<and> video (print [9, 0] v) 4000 = 32"
proof -
  define v where "v = \<lparr>video = (\<lambda>i. if i = 4000 then 65 else 7), pos = 3998, crtc_high = 0, crtc_low = 0\<rparr>"
  have "vga_ok v" by (auto simp: vga_ok_def v_def)
  moreover have "video (print [9, 0] v) 4000 = 32"
    by (simp add: print_def update_cursor_same print_char_def emit_def tab_facts(1) v_def scroll_video Let_def)
      (simp add: put_char_def eval_nat_numeral)
  ultimately show ?thesis by (intro exI[of _ v]) (simp add: v_def)
qed

end
