(* ===== verification/Keyboard.thy ===== *)
theory Keyboard
  imports Prelude
begin

text \<open>
  The keyboard, \<open>drivers/keyboard.c\<close>.

  What the controller answers to the polls of \<open>get_key\<close> is a list: a scan code when the status port has
  its bit 0 set, \<open>None\<close> when it has not and the task sleeps for a while.  The variable \<open>shift\<close> is
  passed along.  \<open>None\<close> as a result is that the input has run out: the call is still waiting.
\<close>

section \<open>Scan codes\<close>

text \<open>The cases of the switch: code, character with and without the shift key.\<close>

definition key_table :: "(u8 \<times> u8 \<times> u8) list" where
  "key_table = [
     (0x01, 27, 27), (0x02, 33, 49), (0x03, 64, 50), (0x04, 35, 51), (0x05, 36, 52), (0x06, 37, 53), (0x07, 94, 54), (0x08, 38, 55),
     (0x09, 42, 56), (0x0A, 40, 57), (0x0B, 41, 48), (0x1E, 65, 97), (0x30, 66, 98), (0x2E, 67, 99), (0x20, 68, 100), (0x12, 69, 101),
     (0x21, 70, 102), (0x22, 71, 103), (0x23, 72, 104), (0x17, 73, 105), (0x24, 74, 106), (0x25, 75, 107), (0x26, 76, 108), (0x32, 77, 109),
     (0x31, 78, 110), (0x18, 79, 111), (0x19, 80, 112), (0x10, 81, 113), (0x13, 82, 114), (0x1F, 83, 115), (0x14, 84, 116), (0x16, 85, 117),
     (0x2F, 86, 118), (0x11, 87, 119), (0x2D, 88, 120), (0x15, 89, 121), (0x2C, 90, 122), (0x1C, 10, 10), (0x39, 32, 32), (0x0E, 8, 8),
     (0x0F, 9, 9), (0x0D, 43, 61), (0x1A, 123, 91), (0x1B, 125, 93), (0x27, 58, 59), (0x28, 34, 39), (0x29, 126, 96), (0x33, 60, 44),
     (0x34, 62, 46), (0x35, 63, 47), (0x0C, 95, 45)]"

text \<open>A scan code: the new state of the shift key and the character, if the key has one.\<close>

definition scan_step :: "u8 \<Rightarrow> bool \<Rightarrow> u8 option \<times> bool" where
  "scan_step code shift =
     (if code AND 0x80 \<noteq> 0 then (None, if code = 0xAA \<or> code = 0xB6 then False else shift)
      else if code = 0x2A \<or> code = 0x36 then (None, True)
      else (map_option (\<lambda>(up, low). if shift then up else low) (map_of key_table code), shift))"

fun get_key :: "u8 option list \<Rightarrow> bool \<Rightarrow> (u8 \<times> bool \<times> u8 option list) option" where
  "get_key [] shift = None"
| "get_key (None # polls) shift = get_key polls shift"
| "get_key (Some code # polls) shift =
     (case scan_step code shift of
        (Some c, shift) \<Rightarrow> Some (c, shift, polls)
      | (None, shift) \<Rightarrow> get_key polls shift)"


section \<open>Typing\<close>

lemma get_key_shorter: "get_key polls shift = Some (c, shift', polls') \<Longrightarrow> length polls' < length polls"
  by (induction polls shift rule: get_key.induct) (auto split: prod.splits option.splits)

text \<open>The characters read until the input runs out.\<close>

function (sequential) typed :: "u8 option list \<Rightarrow> bool \<Rightarrow> u8 list" where
  "typed polls shift = (case get_key polls shift of None \<Rightarrow> [] | Some (c, shift, polls) \<Rightarrow> c # typed polls shift)"
  by pat_completeness auto

termination
  by (relation "measure (\<lambda>(polls, _). length polls)") (auto dest: get_key_shorter)

declare typed.simps [simp del]

text \<open>
  The keyboard a typist has in front of him: the rows of an American keyboard, each with the scan code of its first key (the
  keys of a row have consecutive codes), the characters on the keys and those with the shift key, and the keys outside the rows.
\<close>

definition key_rows :: "(nat \<times> string \<times> string) list" where
  "key_rows = [
     (0x02, ''1234567890-='', ''!@#$%^&*()_+''),
     (0x10, ''qwertyuiop[]'', ''QWERTYUIOP{}''),
     (0x1E, ''asdfghjkl;'' @ [CHR 0x27, CHR 0x60], ''ASDFGHJKL:'' @ [CHR 0x22, CHR 0x7E]),
     (0x2C, ''zxcvbnm,./'', ''ZXCVBNM<>?'')]"

definition row_keys :: "nat \<times> string \<times> string \<Rightarrow> (u8 \<times> u8 \<times> u8) list" where
  "row_keys row = (case row of (first, plain, shifted) \<Rightarrow>
     map (\<lambda>i. (of_nat (first + i), of_char (plain ! i), of_char (shifted ! i))) [0..<length plain])"

definition layout :: "(u8 \<times> u8 \<times> u8) list" where
  "layout = concat (map row_keys key_rows) @ [(0x01, 27, 27), (0x0E, 8, 8), (0x0F, 9, 9), (0x1C, 10, 10), (0x39, 32, 32)]"

text \<open>The same keyboard, key by key.\<close>

lemma layout_keys [code]: "layout = [
     (0x02, 49, 33), (0x03, 50, 64), (0x04, 51, 35), (0x05, 52, 36), (0x06, 53, 37), (0x07, 54, 94), (0x08, 55, 38), (0x09, 56, 42),
     (0x0A, 57, 40), (0x0B, 48, 41), (0x0C, 45, 95), (0x0D, 61, 43), (0x10, 113, 81), (0x11, 119, 87), (0x12, 101, 69), (0x13, 114, 82),
     (0x14, 116, 84), (0x15, 121, 89), (0x16, 117, 85), (0x17, 105, 73), (0x18, 111, 79), (0x19, 112, 80), (0x1A, 91, 123), (0x1B, 93, 125),
     (0x1E, 97, 65), (0x1F, 115, 83), (0x20, 100, 68), (0x21, 102, 70), (0x22, 103, 71), (0x23, 104, 72), (0x24, 106, 74), (0x25, 107, 75),
     (0x26, 108, 76), (0x27, 59, 58), (0x28, 39, 34), (0x29, 96, 126), (0x2C, 122, 90), (0x2D, 120, 88), (0x2E, 99, 67), (0x2F, 118, 86),
     (0x30, 98, 66), (0x31, 110, 78), (0x32, 109, 77), (0x33, 44, 60), (0x34, 46, 62), (0x35, 47, 63), (0x01, 27, 27), (0x0E, 8, 8),
     (0x0F, 9, 9), (0x1C, 10, 10), (0x39, 32, 32)]"
  by (simp add: layout_def key_rows_def row_keys_def upt_rec numeral_eq_Suc[symmetric])

text \<open>The key for a character and whether it needs shift; a release has bit 7 set.\<close>

definition key_of :: "u8 \<Rightarrow> (u8 \<times> bool) option" where
  "key_of c = (case find (\<lambda>(code, plain, shifted). plain = c) layout of
      Some (code, _) \<Rightarrow> Some (code, False)
    | None \<Rightarrow> map_option (\<lambda>(code, _). (code, True)) (find (\<lambda>(code, plain, shifted). shifted = c) layout))"

definition strokes :: "u8 \<Rightarrow> u8 option list" where
  "strokes c = (case key_of c of
      None \<Rightarrow> []
    | Some (code, False) \<Rightarrow> [Some code, Some (code OR 0x80)]
    | Some (code, True) \<Rightarrow> [Some 0x2A, Some code, Some (code OR 0x80), Some 0xAA])"

definition typable :: "u8 list" where
  "typable = remdups (concat (map (\<lambda>(_, plain, shifted). [plain, shifted]) layout))"

definition strokes_ok :: "u8 \<Rightarrow> bool" where
  "strokes_ok c = (case strokes c of
      [Some a, Some b] \<Rightarrow> scan_step a False = (Some c, False) \<and> scan_step b False = (None, False)
    | [Some d, Some a, Some b, Some e] \<Rightarrow> scan_step d False = (None, True) \<and> scan_step a True = (Some c, True) \<and>
        scan_step b True = (None, True) \<and> scan_step e True = (None, False)
    | _ \<Rightarrow> False)"

lemma all_strokes_ok: "list_all strokes_ok typable"
  by code_simp

lemma typed_skip: "scan_step b s = (None, s') \<Longrightarrow> typed (Some b # polls) s = typed polls s'"
  by (simp add: typed.simps[of "Some b # polls"] typed.simps[of polls])

lemma typed_char: "scan_step b s = (Some c, s') \<Longrightarrow> typed (Some b # polls) s = c # typed polls s'"
  by (simp add: typed.simps[of "Some b # polls"])

lemma typed_idle: "typed (None # polls) s = typed polls s"
  by (simp add: typed.simps[of "None # polls"] typed.simps[of polls])

lemma typed_pauses: "typed polls s = typed (filter (\<lambda>p. p \<noteq> None) polls) s"
proof (induction polls arbitrary: s)
  case (Cons p polls)
  show ?case
  proof (cases p)
    case None
    then show ?thesis using Cons by (simp add: typed_idle)
  next
    case (Some b)
    obtain x s' where b: "scan_step b s = (x, s')" by fastforce
    then show ?thesis using Cons Some by (cases x) (simp_all add: typed_skip typed_char)
  qed
qed simp

lemma typed_strokes: "strokes_ok c \<Longrightarrow> typed (strokes c @ polls) False = c # typed polls False"
proof -
  assume a: "strokes_ok c"
  obtain code b where "key_of c = Some (code, b)" using a by (cases "key_of c") (auto simp: strokes_ok_def strokes_def)
  then show ?thesis using a by (cases b) (simp_all add: strokes_ok_def strokes_def typed_skip typed_char)
qed

lemma typed_text: "set input \<subseteq> set typable \<Longrightarrow> typed (concat (map strokes input)) False = input"
proof (induction input)
  case Nil
  then show ?case by (simp add: typed.simps)
next
  case (Cons c input)
  have "strokes_ok c" using all_strokes_ok Cons.prems by (simp add: list_all_iff)
  then show ?case using Cons by (simp add: typed_strokes)
qed

text \<open>The character of a key on that keyboard, and that the switch has it for every code.\<close>

definition key_char :: "u8 \<Rightarrow> bool \<Rightarrow> u8 option" where
  "key_char code shift = (if code < 0x80 then map_option (\<lambda>(plain, shifted). if shift then shifted else plain) (map_of layout code) else None)"

lemma keys_of_layout: "map_of key_table code = map_option (\<lambda>(plain, shifted). (shifted, plain)) (map_of layout code)"
proof -
  have "distinct (map fst key_table)" "distinct (map fst (map (\<lambda>(k, plain, shifted). (k, shifted, plain)) layout))"
    "set key_table = set (map (\<lambda>(k, plain, shifted). (k, shifted, plain)) layout)"
    by code_simp+
  then have "map_of key_table = map_of (map (\<lambda>(k, p). (k, case p of (plain, shifted) \<Rightarrow> (shifted, plain))) layout)"
    by (subst map_of_inject_set) (simp_all add: split_def)
  then show ?thesis by (simp add: map_of_map)
qed

lemma release_codes: "list_all (\<lambda>n. (of_nat n AND 0x80 = (0 :: u8)) = (of_nat n < (0x80 :: u8))) [0..<256]"
  by code_simp

lemma release_code: "(code AND 0x80 = 0) = (code < (0x80 :: u8))"
proof -
  have "unat code \<in> set [0..<256]" using unsigned_less[of code] by simp
  then have "(of_nat (unat code) AND 0x80 = (0 :: u8)) = (of_nat (unat code) < (0x80 :: u8))"
    using release_codes unfolding list_all_iff by blast
  then show ?thesis by simp
qed

lemma code_ok: "fst (scan_step code shift) = key_char code shift"
proof -
  have "map_of layout 0x2A = None" "map_of layout 0x36 = None" by code_simp+
  then show ?thesis
    by (auto simp: scan_step_def key_char_def release_code keys_of_layout option.map_comp intro!: option.map_cong0)
qed



end
