(* ===== verification/Installer.thy ===== *)
theory Installer
  imports Ata
begin

text \<open>
  The factory installer, \<open>kernel/installer.c\<close>: it finds the factory image among the modules of the
  boot loader, writes it to the first 4096 sectors of the ATA disk and compares what it reads back.

  The physical memory is a function from 32-bit addresses to bytes.  The structures of the boot loader are
  read from it at the offsets of their fields, in the byte order of the processor.  The installer and the
  driver do not write to it; what \<open>progress\<close> draws is the state \<open>'s\<close> that is passed through.  The local
  array \<open>buffer\<close> starts with whatever the stack holds, \<open>stack\<close>.
\<close>

section \<open>The image\<close>

abbreviation FACTORY_SECTORS :: nat where "FACTORY_SECTORS \<equiv> 4096"
abbreviation CHUNK_SECTORS :: nat where "CHUNK_SECTORS \<equiv> 64"
abbreviation KERNEL_LBA :: nat where "KERNEL_LBA \<equiv> 512"
abbreviation SECTOR :: nat where "SECTOR \<equiv> 512"

definition mem_u32 :: "(u32 \<Rightarrow> u8) \<Rightarrow> u32 \<Rightarrow> u32" where
  "mem_u32 mem a = ucast (mem a) OR push_bit 8 (ucast (mem (a + 1))) OR push_bit 16 (ucast (mem (a + 2))) OR
     push_bit 24 (ucast (mem (a + 3)))"

definition mem_bytes :: "(u32 \<Rightarrow> u8) \<Rightarrow> u32 \<Rightarrow> nat \<Rightarrow> u8 list" where
  "mem_bytes mem a n = map (\<lambda>i. mem (a + of_nat i)) [0..<n]"

text \<open>The fields of \<open>struct info\<close> and \<open>struct module\<close>.\<close>

definition info_flags :: "(u32 \<Rightarrow> u8) \<Rightarrow> u32 \<Rightarrow> u32" where "info_flags mem info = mem_u32 mem info"
definition info_mods_count :: "(u32 \<Rightarrow> u8) \<Rightarrow> u32 \<Rightarrow> u32" where "info_mods_count mem info = mem_u32 mem (info + 20)"
definition info_mods_addr :: "(u32 \<Rightarrow> u8) \<Rightarrow> u32 \<Rightarrow> u32" where "info_mods_addr mem info = mem_u32 mem (info + 24)"
definition module_start :: "(u32 \<Rightarrow> u8) \<Rightarrow> u32 \<Rightarrow> nat \<Rightarrow> u32" where
  "module_start mem modules i = mem_u32 mem (modules + 16 * of_nat i)"
definition module_end :: "(u32 \<Rightarrow> u8) \<Rightarrow> u32 \<Rightarrow> nat \<Rightarrow> u32" where
  "module_end mem modules i = mem_u32 mem (modules + 16 * of_nat i + 4)"

text \<open>The null pointer is 0; the loop has \<open>k\<close> modules left and looks at module \<open>i\<close>.\<close>

primrec find_image_loop :: "nat \<Rightarrow> nat \<Rightarrow> (u32 \<Rightarrow> u8) \<Rightarrow> u32 \<Rightarrow> u32" where
  "find_image_loop 0 i mem modules = 0"
| "find_image_loop (Suc k) i mem modules =
     (if module_end mem modules i - module_start mem modules i = of_nat (FACTORY_SECTORS * SECTOR)
      then module_start mem modules i
      else find_image_loop k (i + 1) mem modules)"

definition find_image :: "u32 \<Rightarrow> (u32 \<Rightarrow> u8) \<Rightarrow> u32" where
  "find_image info mem =
     (if info = 0 \<or> info_flags mem info AND 8 = 0 \<or> info_mods_count mem info = 0 then 0
      else find_image_loop (unat (info_mods_count mem info)) 0 mem (info_mods_addr mem info))"

definition image_valid :: "(u32 \<Rightarrow> u8) \<Rightarrow> u32 \<Rightarrow> bool" where
  "image_valid mem img =
     (if mem (img + 510) \<noteq> 0x55 \<or> mem (img + 511) \<noteq> 0xAA then False
      else let kernel = img + of_nat (KERNEL_LBA * SECTOR) in
        mem kernel = 0x7F \<and> mem (kernel + 1) = 0x45 \<and> mem (kernel + 2) = 0x4C \<and> mem (kernel + 3) = 0x46)"

definition recovery_image_present :: "u32 \<Rightarrow> (u32 \<Rightarrow> u8) \<Rightarrow> bool" where
  "recovery_image_present info mem \<longleftrightarrow> find_image info mem \<noteq> 0"


section \<open>Installing and erasing\<close>

datatype install_result = INSTALL_OK | INSTALL_NO_IMAGE | INSTALL_BAD_IMAGE | INSTALL_NO_DISK
  | INSTALL_DISK_TOO_SMALL | INSTALL_WRITE_FAILED | INSTALL_VERIFY_FAILED

type_synonym 's progress = "(nat \<Rightarrow> nat \<Rightarrow> 's \<Rightarrow> 's) option"

definition report :: "'s progress \<Rightarrow> nat \<Rightarrow> nat \<Rightarrow> 's \<Rightarrow> 's" where
  "report progress n all s = (case progress of None \<Rightarrow> s | Some f \<Rightarrow> f n all s)"

text \<open>The two loops: \<open>k\<close> rounds left, \<open>lba\<close> the next sector, \<open>n\<close> the sectors reported so far.\<close>

primrec install_write :: "nat \<Rightarrow> nat \<Rightarrow> nat \<Rightarrow> (u32 \<Rightarrow> u8) \<Rightarrow> u32 \<Rightarrow> 's progress \<Rightarrow> ata_dev \<Rightarrow> 's \<Rightarrow> bool \<times> nat \<times> ata_dev \<times> 's" where
  "install_write 0 lba n mem img progress h s = (True, n, h, s)"
| "install_write (Suc k) lba n mem img progress h s =
     (let (ok, h) = ata_write_sectors (of_nat lba) (of_nat CHUNK_SECTORS)
            (mem_bytes mem (img + of_nat (lba * SECTOR)) (CHUNK_SECTORS * SECTOR)) h in
      if \<not> ok then (False, n, h, s)
      else let n = n + CHUNK_SECTORS
        in install_write k (lba + CHUNK_SECTORS) n mem img progress h (report progress n (FACTORY_SECTORS * 2) s))"

primrec install_verify :: "nat \<Rightarrow> nat \<Rightarrow> nat \<Rightarrow> u8 list \<Rightarrow> (u32 \<Rightarrow> u8) \<Rightarrow> u32 \<Rightarrow> 's progress \<Rightarrow> ata_dev \<Rightarrow> 's \<Rightarrow> bool \<times> ata_dev \<times> 's" where
  "install_verify 0 lba n buffer mem img progress h s = (True, h, s)"
| "install_verify (Suc k) lba n buffer mem img progress h s =
     (let (ok, buffer, h) = ata_read_sector (of_nat lba) buffer h in
      if \<not> ok then (False, h, s)
      else if \<not> list_all (\<lambda>i. buffer ! i = mem (img + of_nat (lba * SECTOR) + of_nat i)) [0..<SECTOR] then (False, h, s)
      else let full = (lba mod CHUNK_SECTORS = CHUNK_SECTORS - 1);
               n = (if full then n + CHUNK_SECTORS else n)
        in install_verify k (lba + 1) n buffer mem img progress h
             (if full then report progress n (FACTORY_SECTORS * 2) s else s))"

definition recovery_install :: "u32 \<Rightarrow> (u32 \<Rightarrow> u8) \<Rightarrow> u8 list \<Rightarrow> 's progress \<Rightarrow> ata_dev \<Rightarrow> 's \<Rightarrow> install_result \<times> ata_dev \<times> 's" where
  "recovery_install info mem stack progress h s =
     (let img = find_image info mem in
      if img = 0 then (INSTALL_NO_IMAGE, h, s)
      else if \<not> image_valid mem img then (INSTALL_BAD_IMAGE, h, s)
      else let (disk_sectors, h) = ata_total_sectors h in
      if disk_sectors = 0 then (INSTALL_NO_DISK, h, s)
      else if unat disk_sectors < FACTORY_SECTORS then (INSTALL_DISK_TOO_SMALL, h, s)
      else let (ok, n, h, s) = install_write (FACTORY_SECTORS div CHUNK_SECTORS) 0 0 mem img progress h s in
      if \<not> ok then (INSTALL_WRITE_FAILED, h, s)
      else let (ok, h, s) = install_verify FACTORY_SECTORS 0 n stack mem img progress h s in
      (if ok then INSTALL_OK else INSTALL_VERIFY_FAILED, h, s))"

definition recovery_erase_fs :: "ata_dev \<Rightarrow> install_result \<times> ata_dev" where
  "recovery_erase_fs h =
     (let (disk_sectors, h) = ata_total_sectors h in
      if disk_sectors = 0 then (INSTALL_NO_DISK, h)
      else if unat disk_sectors \<le> FACTORY_SECTORS then (INSTALL_DISK_TOO_SMALL, h)
      else let (ok, h) = ata_write_sectors (of_nat FACTORY_SECTORS) 1 (replicate SECTOR 0) h in
      if \<not> ok then (INSTALL_WRITE_FAILED, h)
      else let (ok, buffer, h) = ata_read_sector (of_nat FACTORY_SECTORS) (replicate SECTOR 0xFF) h in
      if \<not> ok then (INSTALL_VERIFY_FAILED, h)
      else if list_all (\<lambda>b. b = 0) buffer then (INSTALL_OK, h) else (INSTALL_VERIFY_FAILED, h))"

primrec recovery_install_text :: "install_result \<Rightarrow> string" where
  "recovery_install_text INSTALL_OK = ''Factory configuration installed and verified.''"
| "recovery_install_text INSTALL_NO_IMAGE = ''Factory image was not loaded by the bootloader.''"
| "recovery_install_text INSTALL_BAD_IMAGE = ''Factory image is damaged.''"
| "recovery_install_text INSTALL_NO_DISK = ''No ATA disk found.''"
| "recovery_install_text INSTALL_DISK_TOO_SMALL = ''Disk is too small.''"
| "recovery_install_text INSTALL_WRITE_FAILED = ''Disk write failed.''"
| "recovery_install_text INSTALL_VERIFY_FAILED = ''Verification failed.''"


section \<open>The drive\<close>

text \<open>Asking the drive for its size changes none of its sectors.\<close>

lemma data_in_medium: "data_in h = (w, h') \<Longrightarrow> ata_medium h' = ata_medium h"
  by (auto simp: data_in_def Let_def split: xfer.splits if_splits)

lemma identify_words_medium: "identify_words k h = (ws, h') \<Longrightarrow> ata_medium h' = ata_medium h"
  by (induction k arbitrary: h ws) (auto simp: Let_def dest: data_in_medium split: prod.splits)

lemma total_sectors_medium:
  assumes "ata_total_sectors h = (n, h')"
  shows "ata_medium h' = ata_medium h"
proof -
  define h0 where "h0 = command_out 0xEC (h\<lparr>r_drive_head := 0xA0, ata_clock := ata_clock h + 4, r_seccount := 0,
            r_lba_low := 0, r_lba_mid := 0, r_lba_high := 0\<rparr>)"
  obtain st h1 where s: "status_in h0 = (st, h1)" by fastforce
  obtain ok1 h2 where b: "ata_wait_bsy h1 = (ok1, h2)" by fastforce
  obtain ok2 h3 where d: "ata_wait_drq h2 = (ok2, h3)" by fastforce
  obtain ws h4 where i: "identify_words 256 h3 = (ws, h4)" by fastforce
  have m: "ata_medium h0 = ata_medium h" "ata_medium h1 = ata_medium h0" "ata_medium h2 = ata_medium h1"
    "ata_medium h3 = ata_medium h2" "ata_medium h4 = ata_medium h3"
    using waited_medium[OF waited_status[OF s]] waited_medium[OF waited_wait_bsy[OF b]]
      waited_medium[OF waited_wait_drq[OF d]] identify_words_medium[OF i] by (simp_all add: h0_def command_out_def)
  show ?thesis
    using assms m by (auto simp: ata_total_sectors_def Let_def h0_def[symmetric] s b d i split: if_splits)
qed


section \<open>What is on the disk afterwards\<close>

lemma length_mem_bytes [simp]: "length (mem_bytes mem a n) = n"
  by (simp add: mem_bytes_def)

lemma chunk_mem_bytes: "off + n \<le> m \<Longrightarrow> chunk (mem_bytes mem a m) off n = mem_bytes mem (a + of_nat off) n"
  by (rule nth_equalityI) (simp_all add: mem_bytes_def chunk_def add.assoc)

lemma mem_bytes_add: "mem_bytes mem a (m + n) = mem_bytes mem a m @ mem_bytes mem (a + of_nat m) n"
  by (rule nth_equalityI) (auto simp: mem_bytes_def nth_append add.assoc simp flip: of_nat_add)

text \<open>The sectors of the image, and that a run of the medium holds them.\<close>

definition holds_image :: "(u32 \<Rightarrow> u8) \<Rightarrow> u32 \<Rightarrow> (nat \<Rightarrow> u8 list) \<Rightarrow> nat \<Rightarrow> nat \<Rightarrow> bool" where
  "holds_image mem img m a b \<longleftrightarrow> (\<forall>i. a \<le> i \<and> i < b \<longrightarrow> m i = mem_bytes mem (img + of_nat (i * 512)) 512)"

lemma holds_image_join: "holds_image mem img m a b \<Longrightarrow> holds_image mem img m b c \<Longrightarrow> holds_image mem img m a c"
  unfolding holds_image_def by (metis not_le)

lemma holds_image_same:
  "holds_image mem img m a b \<Longrightarrow> (\<And>i. i < b \<Longrightarrow> m' i = m i) \<Longrightarrow> holds_image mem img m' a b"
  by (simp add: holds_image_def)

lemma holds_image_sectors:
  "holds_image mem img m 0 n \<Longrightarrow> sectors_at m 0 n = mem_bytes mem img (n * 512)"
proof (induction n)
  case 0
  then show ?case by (simp add: mem_bytes_def)
next
  case (Suc n)
  have "sectors_at m 0 (Suc n) = mem_bytes mem img (n * 512) @ mem_bytes mem (img + of_nat (n * 512)) 512"
    using Suc by (simp add: holds_image_def sectors_at_Suc)
  also have "\<dots> = mem_bytes mem img (n * 512 + 512)" by (simp add: mem_bytes_add)
  finally show ?case by (simp add: add.commute)
qed

lemma write_chunk_spec:
  assumes "ata_ok h" "lba + 64 \<le> 4096"
    and w: "ata_write_sectors (of_nat lba) (of_nat 64) (mem_bytes mem (img + of_nat (lba * 512)) (64 * 512)) h = (ok, h')"
  shows "ata_ok h' \<and> (\<forall>i. i < lba \<or> lba + 64 \<le> i \<longrightarrow> ata_medium h' i = ata_medium h i) \<and>
    (ok \<longrightarrow> holds_image mem img (ata_medium h') lba (lba + 64))"
proof -
  let ?data = "mem_bytes mem (img + of_nat (lba * 512)) (64 * 512)"
  have l: "ata_ok h' \<and> write_ok (ata_medium h) lba 64 ?data ok (ata_medium h')"
    using ad.wr_law[of h lba 64 ?data ok h'] assms by (simp add: ata_cap_def)
  then obtain k where k: "k \<le> 64" "ata_medium h' = put_sectors (ata_medium h) lba k ?data" "ok \<longrightarrow> k = 64"
    unfolding write_ok_def by blast
  have c: "chunk ?data ((i - lba) * 512) 512 = mem_bytes mem (img + of_nat (i * 512)) 512" if "lba \<le> i" "i < lba + 64" for i
  proof -
    have "(i - lba) * 512 + 512 \<le> 64 * 512" using that by simp
    moreover have "lba * 512 + (i - lba) * 512 = i * 512" using that by simp
    then have "img + of_nat (lba * 512) + of_nat ((i - lba) * 512) = img + of_nat (i * 512)" by (metis add.assoc of_nat_add)
    ultimately show ?thesis by (simp only: chunk_mem_bytes)
  qed
  show ?thesis using l k c by (auto simp: holds_image_def put_sectors_def)
qed

lemma install_write_spec:
  "\<lbrakk>ata_ok h; lba + 64 * k \<le> 4096; install_write k lba n mem img progress h s = (ok, n', h', s')\<rbrakk> \<Longrightarrow>
    ata_ok h' \<and> (\<forall>i. i < lba \<or> lba + 64 * k \<le> i \<longrightarrow> ata_medium h' i = ata_medium h i) \<and>
    (ok \<longrightarrow> holds_image mem img (ata_medium h') lba (lba + 64 * k))"
proof (induction k arbitrary: lba n h s)
  case 0
  then show ?case by (auto simp: holds_image_def)
next
  case (Suc k)
  obtain ok1 h1 where w: "ata_write_sectors (of_nat lba) (of_nat 64) (mem_bytes mem (img + of_nat (lba * 512)) (64 * 512)) h = (ok1, h1)"
    by fastforce
  have s: "ata_ok h1" "\<forall>i. i < lba \<or> lba + 64 \<le> i \<longrightarrow> ata_medium h1 i = ata_medium h i"
      "ok1 \<longrightarrow> holds_image mem img (ata_medium h1) lba (lba + 64)"
    using write_chunk_spec[OF Suc.prems(1) _ w] Suc.prems(2) by simp_all
  show ?case
  proof (cases ok1)
    case False
    then show ?thesis using Suc.prems(3) w s by simp
  next
    case True
    then have r: "install_write k (lba + 64) (n + 64) mem img progress h1 (report progress (n + 64) 8192 s) = (ok, n', h', s')"
      using Suc.prems(3) w by (simp add: Let_def)
    have ih: "ata_ok h'" "\<And>i. i < lba + 64 \<or> lba + 64 + 64 * k \<le> i \<Longrightarrow> ata_medium h' i = ata_medium h1 i"
        "ok \<Longrightarrow> holds_image mem img (ata_medium h') (lba + 64) (lba + 64 + 64 * k)"
      using Suc.IH[OF s(1) _ r] Suc.prems(2) by auto
    have "holds_image mem img (ata_medium h') lba (lba + 64)" using s(3) True ih(2) by (blast intro: holds_image_same)
    then have "ok \<longrightarrow> holds_image mem img (ata_medium h') lba (lba + 64 + 64 * k)" using ih(3) holds_image_join by blast
    then show ?thesis using ih s(2) by (simp add: add.assoc)
  qed
qed

lemma install_verify_spec:
  "\<lbrakk>ata_ok h; lba + k \<le> 4096; length buffer = 512; install_verify k lba n buffer mem img progress h s = (ok, h', s')\<rbrakk> \<Longrightarrow>
    ata_ok h' \<and> ata_medium h' = ata_medium h \<and> (ok \<longrightarrow> holds_image mem img (ata_medium h) lba (lba + k))"
proof (induction k arbitrary: lba n buffer h s)
  case 0
  then show ?case by (auto simp: holds_image_def)
next
  case (Suc k)
  obtain ok1 b1 h1 where r: "ata_read_sector (of_nat lba) buffer h = (ok1, b1, h1)" by (metis prod_cases3)
  have s: "ata_ok h1" "ata_medium h1 = ata_medium h" "length b1 = 512" "ok1 \<longrightarrow> b1 = ata_medium h lba"
    using ad.rd_one[of h lba buffer ok1 b1 h1] Suc.prems r by (simp_all add: ata_read_sector_def ata_cap_def)
  show ?case
  proof (cases "ok1 \<and> list_all (\<lambda>i. b1 ! i = mem (img + of_nat (lba * 512) + of_nat i)) [0..<512]")
    case False
    then show ?thesis using Suc.prems(4) r s by (auto split: if_splits)
  next
    case True
    then have eq: "ata_medium h lba = mem_bytes mem (img + of_nat (lba * 512)) 512"
      using s by (auto simp: list_all_iff mem_bytes_def intro!: nth_equalityI)
    obtain n1 s1 where "install_verify k (lba + 1) n1 b1 mem img progress h1 s1 = (ok, h', s')"
      using Suc.prems(4) r True by (auto simp: Let_def)
    from Suc.IH[OF s(1) _ s(3) this] have "ata_ok h' \<and> ata_medium h' = ata_medium h \<and>
      (ok \<longrightarrow> holds_image mem img (ata_medium h) (lba + 1) (lba + 1 + k))" using Suc.prems(2) s(2) by simp
    then show ?thesis using eq by (auto simp: holds_image_def) (metis Suc_leI le_neq_implies_less)
  qed
qed

lemma recovery_install_spec:
  assumes ok: "ata_ok h" "length stack = 512"
    and r: "recovery_install info mem stack progress h s = (r, h', s')"
  shows "ata_ok h' \<and> (\<forall>i \<ge> 4096. ata_medium h' i = ata_medium h i) \<and>
    (if r = INSTALL_OK then image_valid mem (find_image info mem) \<and> find_image info mem \<noteq> 0 \<and>
        sectors_at (ata_medium h') 0 4096 = mem_bytes mem (find_image info mem) 2097152
     else r = INSTALL_WRITE_FAILED \<or> r = INSTALL_VERIFY_FAILED \<or> ata_medium h' = ata_medium h)"
proof -
  let ?img = "find_image info mem"
  obtain n0 h1 where t: "ata_total_sectors h = (n0, h1)" by fastforce
  have m1: "ata_medium h1 = ata_medium h" by (rule total_sectors_medium[OF t])
  have k1: "ata_ok h1" using ok(1) m1 by (simp add: ata_ok_def)
  obtain ok2 n2 h2 s2 where w: "install_write 64 0 0 mem ?img progress h1 s = (ok2, n2, h2, s2)" by (metis prod_cases4)
  obtain ok3 h3 s3 where v: "install_verify 4096 0 n2 stack mem ?img progress h2 s2 = (ok3, h3, s3)" by (metis prod_cases3)
  have ws: "ata_ok h2" "\<forall>i \<ge> 4096. ata_medium h2 i = ata_medium h i"
    using install_write_spec[OF k1 _ w] m1 by simp_all
  have vs: "ata_ok h3" "ata_medium h3 = ata_medium h2" "ok3 \<longrightarrow> holds_image mem ?img (ata_medium h3) 0 4096"
    using install_verify_spec[OF ws(1) _ ok(2) v] by simp_all
  have img: "ok3 \<longrightarrow> sectors_at (ata_medium h3) 0 4096 = mem_bytes mem ?img 2097152"
    using holds_image_sectors[of mem ?img "ata_medium h3" 4096] vs(3) by simp
  have q: "FACTORY_SECTORS div CHUNK_SECTORS = 64" by simp
  have "(r, h', s') =
     (if ?img = 0 then (INSTALL_NO_IMAGE, h, s)
      else if \<not> image_valid mem ?img then (INSTALL_BAD_IMAGE, h, s)
      else if n0 = 0 then (INSTALL_NO_DISK, h1, s)
      else if unat n0 < 4096 then (INSTALL_DISK_TOO_SMALL, h1, s)
      else if \<not> ok2 then (INSTALL_WRITE_FAILED, h2, s2)
      else (if ok3 then INSTALL_OK else INSTALL_VERIFY_FAILED, h3, s3))"
    using r unfolding recovery_install_def Let_def q by (simp only: t w v prod.case)
  then show ?thesis
    using ok(1) k1 m1 ws vs img by (simp split: if_splits)
qed

lemma recovery_erase_spec:
  assumes ok: "ata_ok h" and r: "recovery_erase_fs h = (r, h')"
  shows "ata_ok h' \<and> (\<forall>i. i \<noteq> 4096 \<longrightarrow> ata_medium h' i = ata_medium h i) \<and>
    (if r = INSTALL_OK then ata_medium h' 4096 = replicate 512 0
     else r = INSTALL_WRITE_FAILED \<or> r = INSTALL_VERIFY_FAILED \<or> ata_medium h' = ata_medium h)"
proof -
  obtain n0 h1 where t: "ata_total_sectors h = (n0, h1)" by fastforce
  have m1: "ata_medium h1 = ata_medium h" by (rule total_sectors_medium[OF t])
  have k1: "ata_ok h1" using ok m1 by (simp add: ata_ok_def)
  obtain ok2 h2 where w: "ata_write_sectors (of_nat 4096) 1 (replicate 512 0) h1 = (ok2, h2)" by fastforce
  obtain ok3 b h3 where v: "ata_read_sector (of_nat 4096) (replicate 512 0xFF) h2 = (ok3, b, h3)" by (metis prod_cases3)
  have ws: "ata_ok h2" "\<forall>i. i \<noteq> 4096 \<longrightarrow> ata_medium h2 i = ata_medium h i" "ok2 \<longrightarrow> ata_medium h2 4096 = replicate 512 0"
    using ad.wr_one[of h1 4096 "replicate 512 0" ok2 h2] k1 m1 w by (auto simp: ata_cap_def)
  have vs: "ata_ok h3" "ata_medium h3 = ata_medium h2"
    using ad.rd_one[of h2 4096 "replicate 512 0xFF" ok3 b h3] ws(1) v by (simp_all add: ata_read_sector_def ata_cap_def)
  have "(r, h') = (if n0 = 0 then (INSTALL_NO_DISK, h1)
      else if unat n0 \<le> 4096 then (INSTALL_DISK_TOO_SMALL, h1)
      else if \<not> ok2 then (INSTALL_WRITE_FAILED, h2)
      else if \<not> ok3 then (INSTALL_VERIFY_FAILED, h3)
      else if list_all (\<lambda>b. b = 0) b then (INSTALL_OK, h3) else (INSTALL_VERIFY_FAILED, h3))"
    using r unfolding recovery_erase_fs_def Let_def by (simp only: t w v prod.case)
  then show ?thesis using k1 m1 ws vs by (simp split: if_splits)
qed


section \<open>The properties\<close>

text \<open>
  C23. Installing the factory image: whatever the drive answers, nothing behind the first 4096 sectors is
  touched, so the file system survives; success is reported only if the image is one the loader provided and
  a valid one, and then the first 4096 sectors are the image byte for byte; and unless a write or the
  verification failed, an unsuccessful installation has not changed the disk.
\<close>
theorem recovery_install_correct:
  assumes "ata_ok h" "length stack = 512"
  shows "let (r, h', s') = recovery_install info mem stack progress h s; img = find_image info mem in
    (\<forall>i \<ge> FACTORY_SECTORS. ata_medium h' i = ata_medium h i) \<and>
    (r = INSTALL_OK \<longrightarrow> img \<noteq> 0 \<and> image_valid mem img \<and>
       sectors_at (ata_medium h') 0 FACTORY_SECTORS = mem_bytes mem img (FACTORY_SECTORS * SECTOR)) \<and>
    (r = INSTALL_NO_IMAGE \<or> r = INSTALL_BAD_IMAGE \<or> r = INSTALL_NO_DISK \<or> r = INSTALL_DISK_TOO_SMALL \<longrightarrow>
       ata_medium h' = ata_medium h)"
proof -
  obtain r h' s' where r: "recovery_install info mem stack progress h s = (r, h', s')" by (metis prod_cases3)
  show ?thesis unfolding r Let_def prod.case using recovery_install_spec[OF assms r] by (auto split: if_splits)
qed

text \<open>A loader that provides one valid image at address \<open>0x100000\<close>, and a drive full of ones.\<close>

definition example_memory :: "u32 \<Rightarrow> u8" where
  "example_memory = (\<lambda>_. 0)(0x1000 := 8, 0x1014 := 1, 0x1019 := 0x20, 0x2002 := 0x10, 0x2006 := 0x30,
     0x1001FE := 0x55, 0x1001FF := 0xAA, 0x140000 := 0x7F, 0x140001 := 0x45, 0x140002 := 0x4C, 0x140003 := 0x46)"

definition example_drive :: "(nat \<Rightarrow> u8) \<Rightarrow> (nat \<Rightarrow> u16) \<Rightarrow> ata_dev" where
  "example_drive feed identify = \<lparr>ata_medium = (\<lambda>_. replicate 512 1), ata_identify = identify, ata_feed = feed,
     ata_signature = (0, 0), ata_clock = 0, r_seccount = 0, r_lba_low = 0, r_lba_mid = 0, r_lba_high = 0,
     r_drive_head = 0, ata_xfer = Idle\<rparr>"

lemma example_fields:
  "info_flags example_memory 0x1000 = 8" "info_mods_count example_memory 0x1000 = 1"
  "info_mods_addr example_memory 0x1000 = 0x2000"
  "module_start example_memory 0x2000 0 = 0x100000" "module_end example_memory 0x2000 0 = 0x300000"
  by (simp_all add: info_flags_def info_mods_count_def info_mods_addr_def module_start_def module_end_def mem_u32_def example_memory_def)

lemma example_image: "find_image 0x1000 example_memory = 0x100000" "image_valid example_memory 0x100000"
  by (simp_all add: find_image_def example_fields) (simp add: image_valid_def example_memory_def)

theorem recovery_install_correct_witness:
  "\<forall>feed identify. let (r, h', s') = recovery_install 0x1000 example_memory (replicate 512 0) None (example_drive feed identify) () in
    ata_medium h' 4096 = replicate 512 1 \<and>
    (r = INSTALL_OK \<longrightarrow> sectors_at (ata_medium h') 0 4096 = mem_bytes example_memory 0x100000 2097152)"
proof (intro allI)
  fix feed identify
  have ok: "ata_ok (example_drive feed identify)" by (simp add: ata_ok_def example_drive_def)
  show "let (r, h', s') = recovery_install 0x1000 example_memory (replicate 512 0) None (example_drive feed identify) () in
    ata_medium h' 4096 = replicate 512 1 \<and>
    (r = INSTALL_OK \<longrightarrow> sectors_at (ata_medium h') 0 4096 = mem_bytes example_memory 0x100000 2097152)"
    using recovery_install_correct[OF ok, of "replicate 512 0" "0x1000" example_memory None "()"] example_image
    by (simp add: Let_def split_beta) (simp add: example_drive_def)
qed

end
