(* ===== verification/Shell.thy ===== *)
theory Shell
  imports Net Fs_List Vga Keyboard
begin

text \<open>
  The shell (\<open>kernel/standart.c\<close>), the system calls of its scripts (\<open>kernel/syscall.c\<close>), the editor and the
  command line (\<open>kernel/kernel.c\<close>) and the speaker (\<open>drivers/speaker.c\<close>), over the console, the keyboard, the
  file system and the network.

  The state \<open>shell\<close> holds the state of these parts.  \<open>memory n\<close> is a block of \<open>n\<close> bytes the heap hands out (its
  allocation either succeeds or halts the machine) and \<open>stack_byte\<close> what uninitialised local arrays hold.
  A command ends in \<open>Some (Running, s)\<close>, or in \<open>Some (Halted, s)\<close> when it stops the processor; \<open>None\<close> means that
  it is still waiting, for a key or for ever.
\<close>

section \<open>State\<close>

record speaker =
  spk_port :: u8
  pit_command :: u8
  pit_channel2 :: "u8 list"

record shell =
  con :: vga
  fsys :: fs_state
  lan :: net
  spk :: speaker
  polls :: "u8 option list"
  shift_key :: bool
  memory :: "nat \<Rightarrow> u8 list"
  stack_byte :: "nat \<Rightarrow> u8"

datatype ending = Running | Halted

type_synonym command = "shell \<Rightarrow> (ending \<times> shell) option"

abbreviation SHELL_LINE_SIZE :: nat where "SHELL_LINE_SIZE \<equiv> 256"

definition stack_array :: "nat \<Rightarrow> shell \<Rightarrow> u8 list" where
  "stack_array n s = map (stack_byte s) [0..<n]"

definition on_con :: "(vga \<Rightarrow> vga) \<Rightarrow> shell \<Rightarrow> shell" where
  "on_con f s = s\<lparr>con := f (con s)\<rparr>"

definition say :: "string \<Rightarrow> shell \<Rightarrow> shell" where
  "say str = on_con (print (lit str))"

definition sayln :: "string \<Rightarrow> shell \<Rightarrow> shell" where
  "sayln str = on_con (print (lit (str @ [CHR 0x0A])))"

definition on_fsys :: "'a fs \<Rightarrow> shell \<Rightarrow> (fs_error + 'a) \<times> shell" where
  "on_fsys m s = (let (r, f) = m (fsys s) in (r, s\<lparr>fsys := f\<rparr>))"

text \<open>\<open>task_sleep\<close>: time passes and the network goes on.\<close>

definition shell_sleep :: "u32 \<Rightarrow> shell \<Rightarrow> shell option" where
  "shell_sleep ms s = map_option (\<lambda>(_, n). s\<lparr>lan := n\<rparr>) (net_wait (\<lambda>n. (None :: unit option, n)) ms (lan s))"


section \<open>The speaker\<close>

definition speaker_enable :: "speaker \<Rightarrow> speaker" where
  "speaker_enable k = k\<lparr>spk_port := spk_port k OR 0x03\<rparr>"

definition speaker_disable :: "speaker \<Rightarrow> speaker" where
  "speaker_disable k = k\<lparr>spk_port := spk_port k AND 0xFC\<rparr>"

definition pit_set_frequency :: "u32 \<Rightarrow> speaker \<Rightarrow> speaker" where
  "pit_set_frequency frequency k =
     (if frequency = 0 then k
      else let divisor = 1193181 div frequency
        in k\<lparr>pit_command := 0xB6, pit_channel2 := [ucast (divisor AND 0xFF), ucast (drop_bit 8 divisor AND 0xFF)]\<rparr>)"

definition speaker_off :: "speaker \<Rightarrow> speaker" where
  "speaker_off = speaker_disable"

definition speaker_tone :: "u32 \<Rightarrow> speaker \<Rightarrow> speaker" where
  "speaker_tone frequency k = (if frequency = 0 then speaker_off k else speaker_enable (pit_set_frequency frequency k))"

definition speaker_beep :: "shell \<Rightarrow> shell option" where
  "speaker_beep s = do {
     s \<leftarrow> shell_sleep 200 (s\<lparr>spk := speaker_tone 1000 (spk s)\<rparr>);
     Some (s\<lparr>spk := speaker_off (spk s)\<rparr>)
   }"


section \<open>Printing numbers\<close>

text \<open>The digits from the last to the first, as the loop stores them.\<close>

fun digits_loop :: "nat \<Rightarrow> u8 list" where
  "digits_loop value = (if value = 0 then [] else of_nat (48 + value mod 10) # digits_loop (value div 10))"

declare digits_loop.simps [simp del]

definition print_uint :: "nat \<Rightarrow> nat \<Rightarrow> vga \<Rightarrow> vga" where
  "print_uint value width v =
     (let digits = (if value = 0 then [48] else digits_loop value);
          v = (print (lit '' '') ^^ (width - length digits)) v
      in fold (\<lambda>d. print [d, 0]) (rev digits) v)"

definition size_kb :: "nat \<Rightarrow> nat \<times> nat" where
  "size_kb bytes =
     (let whole = bytes div 1024; hundredths = ((bytes mod 1024) * 100 + 1023) div 1024
      in if hundredths = 100 then (whole + 1, 0) else (whole, hundredths))"

definition print_size_kb :: "nat \<Rightarrow> vga \<Rightarrow> vga" where
  "print_size_kb bytes v =
     (let (whole, hundredths) = size_kb bytes;
          v = print (lit ''.'') (print_uint whole 7 v);
          v = (if hundredths < 10 then print (lit ''0'') v else v)
      in print (lit '' KB'') (print_uint hundredths 0 v))"

definition print_ip :: "ipv4_addr \<Rightarrow> shell \<Rightarrow> shell" where
  "print_ip ip = on_con (print (ipv4_format ip))"

definition print_mac :: "mac_addr \<Rightarrow> shell \<Rightarrow> shell" where
  "print_mac mac = on_con (print (mac_format mac))"


section \<open>Network commands\<close>

definition print_resolve_error :: "net_error \<Rightarrow> shell \<Rightarrow> shell" where
  "print_resolve_error code =
     sayln (case code of
        NET_ERR_NAME \<Rightarrow> ''invalid name''
      | NET_ERR_NXDOMAIN \<Rightarrow> ''name not found''
      | NET_ERR_NO_ROUTE \<Rightarrow> ''no route: arp got no answer''
      | NET_ERR_TIMEOUT \<Rightarrow> ''dns request timed out''
      | NET_ERR_DNS \<Rightarrow> ''dns server could not answer''
      | _ \<Rightarrow> ''send failed'')"

definition report_name :: "u8 list \<Rightarrow> ipv4_addr \<Rightarrow> shell \<Rightarrow> shell" where
  "report_name args ip s = sayln '''' (print_ip ip (say '' is '' (on_con (print args) s)))"

definition resolve_command :: "u8 list \<Rightarrow> command" where
  "resolve_command args s =
     (if \<not> net_ready (lan s) then Some (Running, sayln ''net: no network card'' s)
      else if args ! 0 = 0 then Some (Running, sayln ''usage: resolve {name}'' s)
      else do {
        (r, n) \<leftarrow> net_resolve (cstr args) 1500 (lan s);
        let s = s\<lparr>lan := n\<rparr>;
        Some (Running, case r of Inl e \<Rightarrow> print_resolve_error e s | Inr ip \<Rightarrow> report_name args ip s)
      })"

definition ping_report :: "ipv4_addr \<Rightarrow> (net_error + u32) \<Rightarrow> shell \<Rightarrow> shell" where
  "ping_report target result s =
     (case result of
        Inr elapsed \<Rightarrow>
          let s = print_ip target (say ''reply from '' s)
          in sayln '' ms'' (if unat elapsed < 10 then on_con (print_uint 10 0) (say '': time<'' s)
                            else on_con (print_uint (unat elapsed) 0) (say '': time='' s))
      | Inl NET_ERR_NO_ROUTE \<Rightarrow> sayln ''no route: arp got no answer'' s
      | Inl NET_ERR_TIMEOUT \<Rightarrow> sayln ''request timed out'' s
      | Inl _ \<Rightarrow> sayln ''send failed'' s)"

text \<open>The loop: \<open>i\<close> is the number of requests sent and \<open>received\<close> of those answered; \<open>k\<close> rounds are left.\<close>

primrec ping_loop :: "nat \<Rightarrow> nat \<Rightarrow> ipv4_addr \<Rightarrow> nat \<Rightarrow> shell \<Rightarrow> (nat \<times> shell) option" where
  "ping_loop 0 i target received s = Some (received, s)"
| "ping_loop (Suc k) i target received s = do {
     (r, n) \<leftarrow> net_ping target 1000 (lan s);
     let s = ping_report target r (s\<lparr>lan := n\<rparr>);
     let received = (if isl r then received else received + 1);
     s \<leftarrow> (if i < 3 then shell_sleep 500 s else Some s);
     ping_loop k (i + 1) target received s
   }"

definition ping_target :: "ipv4_addr \<Rightarrow> command" where
  "ping_target target s = do {
     (received, s) \<leftarrow> ping_loop 4 0 target 0 (sayln '''' (print_ip target (say ''pinging '' s)));
     Some (Running, sayln '' of 4 received'' (on_con (print_uint received 0) s))
   }"

definition ping_command :: "u8 list \<Rightarrow> command" where
  "ping_command args s =
     (if \<not> net_ready (lan s) then Some (Running, sayln ''net: no network card'' s)
      else if args ! 0 = 0 then Some (Running, sayln ''usage: ping {ip or name}'' s)
      else case ipv4_parse args of
        Some target \<Rightarrow> ping_target target s
      | None \<Rightarrow> do {
          (r, n) \<leftarrow> net_resolve (cstr args) 1500 (lan s);
          let s = s\<lparr>lan := n\<rparr>;
          (case r of Inl e \<Rightarrow> Some (Running, print_resolve_error e s) | Inr target \<Rightarrow> ping_target target (report_name args target s))
        })"

definition netinfo_command :: "shell \<Rightarrow> shell" where
  "netinfo_command s =
     (if \<not> net_ready (lan s) then sayln ''net: no network card'' s
      else
        let s = print_mac (own_mac (lan s)) (say ''mac:     '' s);
            s = print_ip (own_ip (lan s)) (say ([CHR 0x0A] @ ''ip:      '') s);
            s = print_ip (gateway (lan s)) (say ([CHR 0x0A] @ ''gateway: '') s);
            s = print_ip (dns_server (lan s)) (say ([CHR 0x0A] @ ''dns:     '') s)
        in sayln '''' s)"


section \<open>File commands\<close>

definition fs_code :: "fs_error \<Rightarrow> int" where
  "fs_code e = (case e of FS_ERR_IO \<Rightarrow> -1 | FS_ERR_NODEV \<Rightarrow> -2 | FS_ERR_NOFS \<Rightarrow> -3 | FS_ERR_NOENT \<Rightarrow> -4
     | FS_ERR_EXIST \<Rightarrow> -5 | FS_ERR_NOSPC \<Rightarrow> -6 | FS_ERR_NAME \<Rightarrow> -7 | FS_ERR_INVAL \<Rightarrow> -8 | FS_ERR_CORRUPT \<Rightarrow> -9
     | FS_ERR_TOOSMALL \<Rightarrow> -10 | FS_ERR_TOOBIG \<Rightarrow> -11)"

definition print_fs_error :: "fs_error \<Rightarrow> shell \<Rightarrow> shell" where
  "print_fs_error e s = sayln '''' (say (fs_error_text (fs_code e)) (say ''fs: '' s))"

definition fs_report :: "(fs_error + unit) \<times> shell \<Rightarrow> shell" where
  "fs_report rs = (case rs of (Inl e, s) \<Rightarrow> print_fs_error e s | (Inr _, s) \<Rightarrow> s)"

text \<open>
  The loops that copy a word into a local array: the characters before the next blank or the end, at most
  \<open>k\<close> of them, and what follows.
\<close>

fun take_word :: "nat \<Rightarrow> u8 list \<Rightarrow> u8 list \<times> u8 list" where
  "take_word k [] = ([], [])"
| "take_word k (c # cs) =
     (if c = 32 \<or> c = 0 \<or> k = 0 then ([], c # cs)
      else let (word, rest) = take_word (k - 1) cs in (c # word, rest))"

text \<open>\<open>dt\<close>: one sector is written and read back.\<close>

definition dt_pattern :: "u8 list" where
  "dt_pattern = map of_nat [0..<512]"

definition dt_command :: "shell \<Rightarrow> shell" where
  "dt_command s =
     (let f = fsys s; (ok, d) = disk_write_sector 5 dt_pattern (drive f); s = s\<lparr>fsys := f\<lparr>drive := d\<rparr>\<rparr> in
      if \<not> ok then sayln ''disk: write failed'' s
      else
        let f = fsys s; (ok, buf, d) = disk_read_sector 5 (stack_array 512 s) (drive f); s = s\<lparr>fsys := f\<lparr>drive := d\<rparr>\<rparr> in
        if \<not> ok then sayln ''disk: read failed'' s
        else
          let f = fsys s; (name, d) = disk_name (drive f); s = s\<lparr>fsys := f\<lparr>drive := d\<rparr>\<rparr>
          in sayln (if list_all (\<lambda>i. buf ! i = dt_pattern ! i) [0..<512] then '' ok'' else '' mismatch'')
               (say name (say ''disk: '' s)))"

definition rename_command :: "u8 list \<Rightarrow> shell \<Rightarrow> shell" where
  "rename_command args s =
     (let (old, rest) = take_word FS_NAME_MAX args in
      if rest ! 0 = 0 then sayln ''new filename required'' s
      else let (new, _) = take_word FS_NAME_MAX (tl rest) in fs_report (on_fsys (fs_rename (old @ [0]) (new @ [0])) s))"

definition see_entry :: "u8 list \<times> nat \<Rightarrow> vga \<Rightarrow> vga" where
  "see_entry info v = print (lit [CHR 0x0A]) (print (fst info) (print (lit ''  '') (print_size_kb (snd info) v)))"

definition see_command :: "shell \<Rightarrow> shell option" where
  "see_command s = do {
     (e, f, v, n) \<leftarrow> fs_walk see_entry (fs_iter_begin (fsys s)) (fsys s) (con s) 0;
     let s = s\<lparr>fsys := f, con := v\<rparr>;
     Some (case e of Some e \<Rightarrow> print_fs_error e s | None \<Rightarrow> if n = 0 then sayln ''files cannot be found'' s else s)
   }"

text \<open>\<open>get\<close>: the loop over the parts of the file; \<open>chunk\<close> is the local array.\<close>

partial_function (option) get_loop :: "nat \<Rightarrow> u8 list \<Rightarrow> fs_file \<Rightarrow> shell \<Rightarrow> (fs_error option \<times> shell) option" where
  "get_loop offset buf file s =
     (case fs_read offset buf 512 file (fsys s) of
        (Inl e, buf, file, f) \<Rightarrow> Some (Some e, s\<lparr>fsys := f\<rparr>)
      | (Inr got, buf, file, f) \<Rightarrow>
          if got = 0 then Some (None, s\<lparr>fsys := f\<rparr>)
          else get_loop (offset + got) (buf[got := 0]) file (on_con (print (buf[got := 0])) (s\<lparr>fsys := f\<rparr>)))"

definition get_command :: "u8 list \<Rightarrow> shell \<Rightarrow> shell option" where
  "get_command args s =
     (case on_fsys (fs_open args False) s of
        (Inl e, s) \<Rightarrow> Some (print_fs_error e s)
      | (Inr file, s) \<Rightarrow> do {
          (e, s) \<leftarrow> get_loop 0 (stack_array 513 s) file s;
          Some (sayln '''' (case e of None \<Rightarrow> s | Some e \<Rightarrow> print_fs_error e s))
        })"

definition set_command :: "u8 list \<Rightarrow> shell \<Rightarrow> shell" where
  "set_command args s =
     (let (fname, rest) = take_word FS_NAME_MAX args in
      if rest ! 0 \<noteq> 32 then sayln ''missing value'' s
      else let data = tl rest in fs_report (on_fsys (fs_write_all (fname @ [0]) data (length (cstr data))) s))"

definition df_command :: "shell \<Rightarrow> shell" where
  "df_command s =
     (case on_fsys fs_usage s of
        (Inl e, s) \<Rightarrow> print_fs_error e s
      | (Inr stats, s) \<Rightarrow>
          let unit = cluster_size stats div 512;
              total_kb = total_clusters stats * unit mod 4294967296 div 2;
              free_kb = free_clusters stats * unit mod 4294967296 div 2;
              s = on_con (print_uint total_kb 0) (say ''total: '' s);
              s = on_con (print_uint (((total_clusters stats - free_clusters stats) * unit + 1) mod 4294967296 div 2) 0)
                    (say ('' KB'' @ [CHR 0x0A] @ ''used:  '') s);
              s = on_con (print_uint free_kb 0) (say ('' KB'' @ [CHR 0x0A] @ ''free:  '') s);
              s = on_con (print_uint (cluster_size stats) 0) (say ('' KB'' @ [CHR 0x0A] @ ''cluster: '') s)
          in sayln '' bytes'' s)"

definition format_command :: "u8 list \<Rightarrow> shell \<Rightarrow> shell" where
  "format_command args s =
     (if strcmp args (lit ''yes'') \<noteq> Some 0 then sayln ''this erases all files, run: format yes'' s
      else case on_fsys fs_format s of
        (Inl e, s) \<Rightarrow> print_fs_error e s
      | (Inr _, s) \<Rightarrow> sayln ''disk formatted'' s)"

definition help_command :: "shell \<Rightarrow> shell" where
  "help_command s = say ''panic - requests system panic'' (fold sayln
     [''off - turn off cpu to safety power off'', ''echo - prints arguments'', ''info - prints information about ts'',
      ''clear or cls - clears all console'', ''swiss - open text editor (?<name> as first line saves a script)'',
      ''create {name} - create file'', ''see - list files with sizes'', ''set {name} {text} - write to file'',
      ''get {name} - read file'', ''beep - plays a sound'', ''rename {old} {new} - renames file'',
      ''rm {name} - removes file'', ''dt - tests disk read/write'', ''df - shows disk usage'',
      ''format yes - erases and formats the disk'', ''exec {name} - runs a executable file'',
      ''ping {ip or name} - sends 4 echo requests'', ''resolve {name} - looks up an IPv4 address'',
      ''netinfo - shows network configuration''] s)"


section \<open>The editor\<close>

abbreviation SWISS_START_SIZE :: nat where "SWISS_START_SIZE \<equiv> 1024"
abbreviation SWISS_MAX_SIZE :: nat where "SWISS_MAX_SIZE \<equiv> 524288"

definition shell_key :: "shell \<Rightarrow> (u8 \<times> shell) option" where
  "shell_key s = map_option (\<lambda>(c, shift, p). (c, s\<lparr>shift_key := shift, polls := p\<rparr>)) (get_key (polls s) (shift_key s))"

text \<open>One key: the text so far, of length \<open>index\<close>, and the size of its block.\<close>

definition swiss_key :: "u8 \<Rightarrow> u8 list \<Rightarrow> nat \<Rightarrow> shell \<Rightarrow> u8 list \<times> nat \<times> shell" where
  "swiss_key c buf capacity s =
     (if c = 8 then (if buf \<noteq> [] then (butlast buf, capacity, on_con backspace s) else (buf, capacity, s))
      else if length buf + 1 \<ge> capacity \<and> capacity \<ge> SWISS_MAX_SIZE then (buf, capacity, s)
      else (buf @ [c], if length buf + 1 \<ge> capacity then capacity * 2 else capacity, on_con (print [c, 0]) s))"

partial_function (option) swiss_loop :: "u8 list \<Rightarrow> nat \<Rightarrow> shell \<Rightarrow> (u8 list \<times> shell) option" where
  "swiss_loop buf capacity s = do {
     (c, s) \<leftarrow> shell_key s;
     if c = 27 then Some (buf, s)
     else case swiss_key c buf capacity s of (buf, capacity, s) \<Rightarrow> swiss_loop buf capacity s
   }"

text \<open>The name in the first line, \<open>?<name>\<close>, and the text behind it.\<close>

definition swiss_name :: "u8 list \<Rightarrow> (u8 list \<times> u8 list) option" where
  "swiss_name buffer =
     (case buffer of
        a # b # rest \<Rightarrow>
          if a = 63 \<and> b = 60 then
            let name = take FS_NAME_MAX (takeWhile (\<lambda>c. c \<noteq> 62 \<and> c \<noteq> 10 \<and> c \<noteq> 0) rest);
                rest = drop (length name) rest
            in if rest ! 0 = 62 \<and> name \<noteq> [] then
                 let rest = tl rest in Some (name, if rest ! 0 = 10 then tl rest else rest)
               else None
          else None
      | _ \<Rightarrow> None)"

definition swiss_save :: "u8 list \<Rightarrow> shell \<Rightarrow> shell" where
  "swiss_save buf s =
     (case swiss_name (buf @ [0]) of
        None \<Rightarrow> s
      | Some (name, data) \<Rightarrow>
          (case on_fsys (fs_write_all (name @ [0]) data (length data - 1)) s of
             (Inl e, s) \<Rightarrow> print_fs_error e s
           | (Inr _, s) \<Rightarrow> sayln [CHR 0x22] (on_con (print (name @ [0])) (say (''saved script '' @ [CHR 0x22]) s))))"

definition swiss :: command where
  "swiss s = do {
     let s = say (''Swiss editor (ESC to exit)'' @ [CHR 0x0A, CHR 0x0A]) (on_con clear s);
     (buf, s) \<leftarrow> swiss_loop [] SWISS_START_SIZE s;
     Some (Running, swiss_save buf (on_con clear s))
   }"


section \<open>Commands and scripts\<close>

definition panic :: "string \<Rightarrow> command" where
  "panic message s = Some (Halted,
     sayln ([CHR 0x0A] @ ''System halted.'') (say message (say ''KERNEL PANIC: '' (on_con clear s))))"

text \<open>\<open>execute_command\<close>: \<open>exec\<close> is what the command of that name does, defined below.\<close>

definition run_command :: "(u8 list \<Rightarrow> command) \<Rightarrow> u8 list \<Rightarrow> u8 list \<Rightarrow> command" where
  "run_command exec command args s =
     (if strcmp command (lit ''info'') = Some 0 then
        Some (Running, sayln [CHR 0x22] (say ''1.3'' (say (''Version: '' @ [CHR 0x22])
          (sayln [CHR 0x22] (say ''Katela Kernel'' (say (''Distro: '' @ [CHR 0x22]) s))))))
      else if strcmp command (lit ''echo'') = Some 0 then Some (Running, sayln '''' (on_con (print args) s))
      else if strcmp command (lit ''swiss'') = Some 0 then swiss s
      else if strcmp command (lit ''panic'') = Some 0 then panic ''user requested panic'' s
      else if strcmp command (lit ''off'') = Some 0 then Some (Halted, sayln ''You can safely turn off your PC now.'' s)
      else if strcmp command (lit ''beep'') = Some 0 then
        map_option (\<lambda>s. (Running, s\<lparr>spk := speaker_off (spk s)\<rparr>)) (speaker_beep s)
      else if strcmp command (lit ''dt'') = Some 0 then Some (Running, dt_command s)
      else if strcmp command (lit ''exec'') = Some 0 then
        (if args ! 0 = 0 then Some (Running, sayln ''filename required'' s) else exec args s)
      else if strcmp command (lit ''help'') = Some 0 then Some (Running, help_command s)
      else if strcmp command (lit ''rm'') = Some 0 then
        Some (Running, if args ! 0 = 0 then sayln ''standart: filename required'' s else fs_report (on_fsys (fs_remove args) s))
      else if strcmp command (lit ''clear'') = Some 0 \<or> strcmp command (lit ''cls'') = Some 0 then Some (Running, on_con clear s)
      else if strcmp command (lit ''create'') = Some 0 then
        Some (Running, if args ! 0 = 0 then sayln ''name required'' s else fs_report (on_fsys (fs_create args) s))
      else if strcmp command (lit ''rename'') = Some 0 then Some (Running, rename_command args s)
      else if strcmp command (lit ''see'') = Some 0 then map_option (Pair Running) (see_command s)
      else if strcmp command (lit ''get'') = Some 0 then map_option (Pair Running) (get_command args s)
      else if strcmp command (lit ''set'') = Some 0 then Some (Running, set_command args s)
      else if strcmp command (lit ''df'') = Some 0 then Some (Running, df_command s)
      else if strcmp command (lit ''ping'') = Some 0 then ping_command args s
      else if strcmp command (lit ''resolve'') = Some 0 then resolve_command args s
      else if strcmp command (lit ''netinfo'') = Some 0 then Some (Running, netinfo_command s)
      else if strcmp command (lit ''format'') = Some 0 then Some (Running, format_command args s)
      else Some (Running, sayln ''command not found'' s))"

definition split_command :: "u8 list \<Rightarrow> u8 list \<times> u8 list" where
  "split_command buffer =
     (let (command, args) = take_word 63 buffer in (command @ [0], if args ! 0 = 32 then tl args else args))"

definition run_line :: "(u8 list \<Rightarrow> command) \<Rightarrow> u8 list \<Rightarrow> command" where
  "run_line exec buffer s = (let (command, args) = split_command buffer in run_command exec command args s)"

definition is_exec :: "u8 list \<Rightarrow> bool" where
  "is_exec line \<longleftrightarrow> line ! 0 = 101 \<and> line ! 1 = 120 \<and> line ! 2 = 101 \<and> line ! 3 = 99 \<and> (line ! 4 = 32 \<or> line ! 4 = 0)"

text \<open>The system call \<open>SYS_RUN\<close>; \<open>run\<close> is \<open>execute_command\<close>.\<close>

definition sys_run :: "(u8 list \<Rightarrow> command) \<Rightarrow> u8 list \<Rightarrow> command" where
  "sys_run run line s =
     (if is_exec line then Some (Running, sayln ''exec: nested exec is not allowed'' s) else run line s)"

text \<open>
  The interpreter runs in user mode: \<open>line\<close> are the characters collected, and each statement is a system
  call.  A halted machine does not go on.
\<close>

fun script_loop :: "(u8 list \<Rightarrow> command) \<Rightarrow> u8 list \<Rightarrow> u8 list \<Rightarrow> command" where
  "script_loop run [] line s = Some (Running, s)"
| "script_loop run (c # cs) line s =
     (if c = 0 then (if line \<noteq> [] then sys_run run (line @ [0]) s else Some (Running, s))
      else if c = 58 \<and> line \<noteq> [] \<and> last line = 32 then
        (if length line > 1 then
           (case sys_run run (butlast line @ [0]) s of
              Some (Running, s) \<Rightarrow> script_loop run cs [] s
            | r \<Rightarrow> r)
         else script_loop run cs [] s)
      else if c = 10 then
        script_loop run cs (if line \<noteq> [] \<and> last line \<noteq> 32 \<and> length line < SHELL_LINE_SIZE - 1 then line @ [32] else line) s
      else if c = 32 \<and> line = [] then script_loop run cs line s
      else script_loop run cs (if length line < SHELL_LINE_SIZE - 1 then line @ [c] else line) s)"

definition exec_script :: "(u8 list \<Rightarrow> command) \<Rightarrow> u8 list \<Rightarrow> command" where
  "exec_script run args s =
     (case on_fsys (fs_read_all args (memory s)) s of
        (Inl e, s) \<Rightarrow> Some (Running, print_fs_error e s)
      | (Inr (script, _), s) \<Rightarrow> script_loop run script [] s)"

text \<open>
  A script runs commands of its own; the first argument bounds how deep scripts call scripts.  It
  follows from the check of \<open>SYS_RUN\<close> that one level is all there is (\<open>execute_depth\<close>).
\<close>

primrec execute_at :: "nat \<Rightarrow> u8 list \<Rightarrow> command" where
  "execute_at 0 buffer = run_line (\<lambda>_ _. None) buffer"
| "execute_at (Suc d) buffer = run_line (exec_script (execute_at d)) buffer"

definition execute_command :: "u8 list \<Rightarrow> command" where
  "execute_command = execute_at 1"

end
