(* ===== verification/Shell_Correct.thy ===== *)
theory Shell_Correct
  imports Shell
begin

text \<open>
  What the shell guarantees: scripts do not run scripts, the file commands do to the files what the
  file system promises, and the screen shows what was asked for.
\<close>

section \<open>The console\<close>

abbreviation screen :: "shell \<Rightarrow> terminal" where "screen s \<equiv> shown (con s)"

abbreviation txt_bytes :: "string \<Rightarrow> u8 list" where "txt_bytes str \<equiv> map of_char str"

lemma of_char_zero: "(of_char c = (0 :: u8)) = (c = CHR 0x00)"
proof
  assume "of_char c = (0 :: u8)"
  then have "(of_nat (of_char c) :: u8) = 0" by (simp only: of_nat_of_char)
  then have "256 dvd (of_char c :: nat)" by (simp add: word_of_nat_eq_0_iff)
  moreover have "\<not> 0 < (of_char c :: nat)" using calculation nat_dvd_not_less[of "of_char c" 256] nat_of_char_less_256[of c] by blast
  ultimately have "(of_char c :: nat) = of_char (CHR 0x00)" by simp
  then show "c = CHR 0x00" by (simp only: of_char_eq_iff)
qed simp

lemma cstr_append: "0 \<notin> set w \<Longrightarrow> cstr (w @ 0 # ds) = w"
  by (induction w) (simp_all add: cstr_def)

lemma cstr_lit: "CHR 0x00 \<notin> set str \<Longrightarrow> cstr (lit str) = txt_bytes str"
  by (induction str) (auto simp: lit_def cstr_def of_char_zero)

lemma say_screen:
  assumes "vga_ok (con s)" "CHR 0x00 \<notin> set str"
  shows "vga_ok (con (say str s)) \<and> screen (say str s) = fold term_put (txt_bytes str) (screen s) \<and> fsys (say str s) = fsys s"
  using print_ok[OF assms(1), of "lit str"] cstr_lit[OF assms(2)] by (simp add: say_def on_con_def)


section \<open>Scripts do not run scripts\<close>

lemma take_word_parts:
  "take_word k buf = (w, rest) \<Longrightarrow> buf = w @ rest \<and> 0 \<notin> set w \<and> 32 \<notin> set w \<and> length w \<le> k \<and>
    (rest = [] \<or> hd rest = 32 \<or> hd rest = 0 \<or> length w = k)"
  by (induction k buf arbitrary: w rest rule: take_word.induct) (auto split: if_splits prod.splits)

lemma lit_exec: "lit ''exec'' = [101, 120, 101, 99, 0]"
  by (simp add: lit_def)

lemma command_exec:
  assumes "0 \<in> set line" "\<not> is_exec line" "split_command line = (command, args)"
  shows "strcmp command (lit ''exec'') \<noteq> Some 0"
proof
  assume s: "strcmp command (lit ''exec'') = Some 0"
  obtain w rest where t: "take_word 63 line = (w, rest)" by fastforce
  note T = take_word_parts[OF t]
  have c: "command = w @ [0]" using assms(3) t by (simp add: split_command_def)
  have "cstr command = cstr (lit ''exec'')"
    using s strcmp_zero_iff_equal[of command "lit ''exec''"] by (simp add: c lit_def is_cstr_def)
  moreover have "cstr (w @ [0]) = w" using T cstr_append[of w "[]"] by simp
  ultimately have w: "w = [101, 120, 101, 99]" by (simp add: c lit_exec cstr_def)
  have "rest \<noteq> []" using T assms(1) w by auto
  then obtain d ds where "rest = d # ds" "d = 32 \<or> d = 0" using T w by (cases rest) auto
  then have "is_exec line" using T w by (auto simp: is_exec_def)
  then show False using assms(2) by simp
qed

lemma run_line_indep:
  assumes "0 \<in> set line" "\<not> is_exec line"
  shows "run_line e1 line s = run_line e2 line s"
proof -
  obtain command args where sp: "split_command line = (command, args)" by fastforce
  show ?thesis using command_exec[OF assms sp] by (simp add: run_line_def sp run_command_def)
qed

lemma script_loop_cong:
  assumes "\<And>line s. 0 \<in> set line \<Longrightarrow> \<not> is_exec line \<Longrightarrow> run1 line s = run2 line s"
  shows "script_loop run1 cs line s = script_loop run2 cs line s"
proof -
  have r: "sys_run run1 (l @ [0]) s = sys_run run2 (l @ [0]) s" for l s using assms by (simp add: sys_run_def)
  show ?thesis
    by (induction cs arbitrary: line s) (simp_all add: r cong: if_cong option.case_cong prod.case_cong ending.case_cong)
qed

text \<open>One level of scripts is all there is.\<close>

lemma execute_depth: "execute_at (Suc (Suc d)) = execute_at (Suc d)"
proof -
  have "execute_at (Suc d) line s = execute_at d line s" if "0 \<in> set line" "\<not> is_exec line" for line s d
    using run_line_indep[OF that] by (cases d) simp_all
  then have "exec_script (execute_at (Suc d)) = exec_script (execute_at d)"
    by (intro ext) (auto simp: exec_script_def split: sum.splits prod.splits intro!: script_loop_cong)
  then show ?thesis by (intro ext) simp
qed

lemma execute_any_depth: "execute_at (Suc d) = execute_command"
  unfolding execute_command_def One_nat_def by (induction d) (simp_all add: execute_depth del: execute_at.simps)


section \<open>Reading a file to the screen\<close>

text \<open>A step that ends in a printed error shows its text.\<close>

definition fs_message :: "fs_error \<Rightarrow> u8 list" where
  "fs_message e = txt_bytes (''fs: '' @ fs_error_text (fs_code e)) @ [10]"

lemma error_text_no_zero: "CHR 0x00 \<notin> set (fs_error_text (fs_code e))"
  by (cases e) (simp_all add: fs_error_text_def fs_code_def)

lemma sayln_screen:
  assumes "vga_ok (con s)" "CHR 0x00 \<notin> set str"
  shows "vga_ok (con (sayln str s)) \<and> screen (sayln str s) = fold term_put (txt_bytes str @ [10]) (screen s) \<and> fsys (sayln str s) = fsys s"
  using print_ok[OF assms(1), of "lit (str @ [CHR 0x0A])"] cstr_lit[of "str @ [CHR 0x0A]"] assms(2) by (simp add: sayln_def on_con_def)

lemma error_screen:
  assumes "vga_ok (con s)"
  shows "vga_ok (con (print_fs_error e s)) \<and> screen (print_fs_error e s) = fold term_put (fs_message e) (screen s) \<and> fsys (print_fs_error e s) = fsys s"
proof -
  let ?a = "say ''fs: '' s"
  let ?b = "say (fs_error_text (fs_code e)) ?a"
  have a: "vga_ok (con ?a) \<and> screen ?a = fold term_put (txt_bytes ''fs: '') (screen s) \<and> fsys ?a = fsys s"
    using say_screen[OF assms, of "''fs: ''"] by simp
  have b: "vga_ok (con ?b) \<and> screen ?b = fold term_put (txt_bytes (fs_error_text (fs_code e))) (screen ?a) \<and> fsys ?b = fsys s"
    using say_screen[of ?a, OF _ error_text_no_zero] a by metis
  show ?thesis using sayln_screen[of ?b "''''"] a b by (simp add: print_fs_error_def fs_message_def)
qed

lemma cstr_cut: "n < length b \<Longrightarrow> 0 \<notin> set (take n b) \<Longrightarrow> cstr (b[n := 0]) = take n b"
proof -
  assume a: "n < length b" "0 \<notin> set (take n b)"
  have "b[n := 0] = take n b @ 0 # drop (Suc n) b" using a(1) by (simp add: upd_conv_take_nth_drop)
  then show ?thesis using cstr_append[OF a(2)] by simp
qed

lemma get_loop_spec:
  "\<lbrakk>fs_inv (fsys s) rs; handle_ok (fsys s) rs file; handle_name (fsys s) file = x; contents (fsys s) rs x = Some old; mounted (fsys s);
    vga_ok (con s); length buf = 513\<rbrakk> \<Longrightarrow>
    \<exists>e s' k. get_loop offset buf file s = Some (e, s') \<and> fs_inv (fsys s') rs \<and> contents (fsys s') rs = contents (fsys s) rs \<and> vga_ok (con s') \<and>
      (0 \<notin> set old \<longrightarrow> screen s' = fold term_put (take k (drop offset old)) (screen s)) \<and>
      (e = None \<and> k = length old - offset \<or> e = Some FS_ERR_IO)"
proof (induction "length old - offset" arbitrary: offset buf "file" s rule: less_induct)
  case less
  obtain r out f1 fs1 where f: "fs_read offset buf 512 file (fsys s) = (r, out, f1, fs1)" by (metis prod_cases4)
  note R = fs_read_spec[OF less.prems(1,2) _ f, unfolded less.prems(3), OF _ less.prems(4)]
  have R: "fs_inv fs1 rs" "contents fs1 rs = contents (fsys s) rs" "handle_ok fs1 rs f1" "handle_name fs1 f1 = x" "length out = 513" "mounted fs1"
      "case r of Inl e \<Rightarrow> e = FS_ERR_IO | Inr m \<Rightarrow> m \<le> 512 \<and> m \<le> length old - offset \<and> take m out = take m (drop offset old) \<and> (m = 0 \<longleftrightarrow> length old \<le> offset)"
    using R less.prems(5,7) by (auto split: sum.splits)
  show ?case
  proof (cases r)
    case (Inl e)
    then have "get_loop offset buf file s = Some (Some FS_ERR_IO, s\<lparr>fsys := fs1\<rparr>)" using f R(7) by (simp add: get_loop.simps)
    then show ?thesis using R(1,2) less.prems(6) by (intro exI[of _ "Some FS_ERR_IO"] exI[of _ "s\<lparr>fsys := fs1\<rparr>"] exI[of _ 0]) simp
  next
    case (Inr m)
    then have m: "m \<le> 512" "m \<le> length old - offset" "take m out = take m (drop offset old)" "m = 0 \<longleftrightarrow> length old \<le> offset" using R(7) by simp_all
    show ?thesis
    proof (cases "m = 0")
      case True
      then have "get_loop offset buf file s = Some (None, s\<lparr>fsys := fs1\<rparr>)" using f Inr by (simp add: get_loop.simps)
      then show ?thesis using R(1,2) less.prems(6) m(4) True by (intro exI[of _ None] exI[of _ "s\<lparr>fsys := fs1\<rparr>"] exI[of _ 0]) simp
    next
      case False
      define b s1 where "b = out[m := 0]" and "s1 = on_con (print b) (s\<lparr>fsys := fs1\<rparr>)"
      have l: "get_loop offset buf file s = get_loop (offset + m) b f1 s1" using f Inr False by (simp add: get_loop.simps b_def s1_def)
      have P: "vga_ok (con s1)" "screen s1 = fold term_put (cstr b) (screen s)" "fsys s1 = fs1"
        using print_ok[OF less.prems(6), of b] by (simp_all add: s1_def on_con_def)
      have lt: "length old - (offset + m) < length old - offset" using False m(2) by simp
      obtain e s' k where J: "get_loop (offset + m) b f1 s1 = Some (e, s')" "fs_inv (fsys s') rs" "contents (fsys s') rs = contents fs1 rs" "vga_ok (con s')"
          "0 \<notin> set old \<longrightarrow> screen s' = fold term_put (take k (drop (offset + m) old)) (screen s1)"
          "e = None \<and> k = length old - (offset + m) \<or> e = Some FS_ERR_IO"
        using less.hyps[OF lt, of s1 f1 b] R P less.prems(4) by (auto simp: b_def)
      have "cstr b = take m (drop offset old)" if "0 \<notin> set old"
        using cstr_cut[of m out] m(1,3) R(5) that by (auto simp: b_def dest!: in_set_takeD in_set_dropD)
      then have "0 \<notin> set old \<longrightarrow> screen s' = fold term_put (take (m + k) (drop offset old)) (screen s)"
        using J(5) P(2) by (simp add: take_add[of m k] add.commute[of offset m])
      moreover have "e = None \<and> m + k = length old - offset \<or> e = Some FS_ERR_IO" using J(6) m(2) by auto
      ultimately show ?thesis using l J R(2) by (intro exI[of _ e] exI[of _ s'] exI[of _ "m + k"]) simp
    qed
  qed
qed

lemma get_command_spec:
  assumes inv: "fs_inv (fsys s) rs" and nm: "0 \<in> set name" and v: "vga_ok (con s)"
  shows "\<exists>s' rs'. get_command name s = Some s' \<and> fs_inv (fsys s') rs' \<and> vga_ok (con s') \<and>
    (\<forall>old. contents (fsys s) rs (cname name) = Some old \<and> 0 \<notin> set old \<and> mounted (fsys s) \<and> name_check name = Inr () \<longrightarrow>
      screen s' = fold term_put (old @ [10]) (screen s) \<or>
      (\<exists>k. screen s' = fold term_put (take k old @ fs_message FS_ERR_IO @ [10]) (screen s)) \<or>
      screen s' = fold term_put (fs_message FS_ERR_IO) (screen s))"
proof -
  obtain r f0 where o: "fs_open name False (fsys s) = (r, f0)" by fastforce
  obtain rs' where O: "fs_inv f0 rs'" "implements False (spec_guard (mounted (fsys s)) name (spec_open (cname name) False) (files (fsys s) rs)) (files (fsys s) rs) (file_info r) (files f0 rs')"
    using fs_open_spec[OF inv nm, of False] o by auto
  let ?s = "s\<lparr>fsys := f0\<rparr>"
  show ?thesis
  proof (cases r)
    case (Inl e)
    have g: "get_command name s = Some (print_fs_error e ?s)" using o Inl by (simp add: get_command_def on_fsys_def)
    have E: "vga_ok (con (print_fs_error e ?s))" "screen (print_fs_error e ?s) = fold term_put (fs_message e) (screen s)" "fsys (print_fs_error e ?s) = f0"
      using error_screen[of ?s e] v by simp_all
    have "e = FS_ERR_IO" if "contents (fsys s) rs (cname name) = Some old" "mounted (fsys s)" "name_check name = Inr ()" for old
      using O(2) Inl that by (auto simp: implements_def spec_guard_def spec_open_def file_info_def contents_def)
    then show ?thesis using g E O(1) by (intro exI[of _ "print_fs_error e ?s"] exI[of _ rs']) auto
  next
    case (Inr f)
    have some: "files (fsys s) rs (cname name) \<noteq> None" using fs_open_name[OF inv nm, of False f f0] o Inr by (auto split: if_splits)
    then have N: "fs_inv f0 rs" "handle_ok f0 rs f" "handle_name f0 f = cname name" "contents f0 rs = contents (fsys s) rs" "mounted f0"
      using fs_open_name[OF inv nm, of False f f0] o Inr by (auto split: if_splits)
    obtain cs where cs: "file_ok f0 f cs" using N(2) by (auto simp: handle_ok_def)
    obtain old where old: "contents f0 rs (cname name) = Some old" using handle_contents[OF N(1,2) cs] N(3) by simp
    obtain e s1 k where L: "get_loop 0 (stack_array 513 ?s) f ?s = Some (e, s1)" "fs_inv (fsys s1) rs" "vga_ok (con s1)"
        "0 \<notin> set old \<longrightarrow> screen s1 = fold term_put (take k old) (screen s)" "e = None \<and> k = length old \<or> e = Some FS_ERR_IO"
      using get_loop_spec[of ?s rs f "cname name" old "stack_array 513 ?s" 0] N old v by (auto simp: stack_array_def)
    define s2 where "s2 = (case e of None \<Rightarrow> s1 | Some e \<Rightarrow> print_fs_error e s1)"
    have g: "get_command name s = Some (sayln '''' s2)" using o Inr L(1) by (simp add: get_command_def on_fsys_def s2_def)
    have E: "vga_ok (con s2)" "screen s2 = fold term_put (if e = None then [] else fs_message FS_ERR_IO) (screen s1)" "fsys s2 = fsys s1"
      using error_screen[OF L(3), of FS_ERR_IO] L(3,5) by (auto simp: s2_def)
    have F: "vga_ok (con (sayln '''' s2))" "screen (sayln '''' s2) = fold term_put [10] (screen s2)" "fsys (sayln '''' s2) = fsys s1"
      using sayln_screen[OF E(1), of "''''"] E(3) by simp_all
    show ?thesis using g F L E(2) old N(4)
      by (intro exI[of _ "sayln '''' s2"] exI[of _ rs]) (auto intro!: exI[of _ k])
  qed
qed


section \<open>Command lines\<close>

definition set_line :: "u8 list \<Rightarrow> u8 list \<Rightarrow> u8 list" where
  "set_line name data = txt_bytes ''set '' @ name @ [32] @ data @ [0]"

definition get_line :: "u8 list \<Rightarrow> u8 list" where
  "get_line name = txt_bytes ''get '' @ name @ [0]"

lemma take_word_exact:
  "\<lbrakk>0 \<notin> set w; 32 \<notin> set w; length w \<le> k; d = 32 \<or> d = 0\<rbrakk> \<Longrightarrow> take_word k (w @ d # ds) = (w, d # ds)"
  by (induction w arbitrary: k) auto

definition plain_name :: "u8 list \<Rightarrow> bool" where
  "plain_name name \<longleftrightarrow> 0 \<notin> set name \<and> name_check (name @ [0]) = Inr ()"

lemma plain_name_facts:
  assumes "plain_name name"
  shows "0 \<notin> set name" "32 \<notin> set name" "length name \<le> 115" "name \<noteq> []" "cname (name @ [0]) = name"
proof -
  show z: "0 \<notin> set name" using assms by (simp add: plain_name_def)
  then show c: "cname (name @ [0]) = name" using cstr_append[of name "[]"] by (simp add: cname_def cstr_def)
  show "32 \<notin> set name" "length name \<le> 115" "name \<noteq> []"
    using assms name_check_iff[of "name @ [0]"] c by (auto simp: plain_name_def split: if_splits)
qed

lemma split_set: "plain_name name \<Longrightarrow> split_command (set_line name data) = ([115, 101, 116, 0], name @ 32 # data @ [0])"
  using take_word_exact[of "[115, 101, 116]" 63 32 "name @ 32 # data @ [0]"] by (simp add: split_command_def set_line_def)

lemma split_get: "split_command (get_line name) = ([103, 101, 116, 0], name @ [0])"
  using take_word_exact[of "[103, 101, 116]" 63 32 "name @ [0]"] by (simp add: split_command_def get_line_def)

lemma set_line_runs:
  assumes "plain_name name" "0 \<notin> set data"
  shows "execute_command (set_line name data) s =
    Some (Running, fs_report (on_fsys (fs_write_all (name @ [0]) (data @ [0]) (length data)) s))"
proof -
  note n = plain_name_facts[OF assms(1)]
  have "take_word 115 (name @ 32 # data @ [0]) = (name, 32 # data @ [0])" using take_word_exact[of name 115 32] n by simp
  moreover have "cstr (data @ [0]) = data" using cstr_append[OF assms(2), of "[]"] by simp
  ultimately have "set_command (name @ 32 # data @ [0]) s = fs_report (on_fsys (fs_write_all (name @ [0]) (data @ [0]) (length data)) s)"
    by (simp add: set_command_def)
  then show ?thesis by (simp add: execute_command_def run_line_def split_set[OF assms(1)] run_command_def lit_def)
qed

lemma get_line_runs: "execute_command (get_line name) s = map_option (Pair Running) (get_command (name @ [0]) s)"
  by (simp add: execute_command_def run_line_def split_get run_command_def lit_def)


section \<open>The properties\<close>

text \<open>
  C30. A file set from the shell is shown by the shell: the command \<open>set name text\<close> and then \<open>get name\<close> both come to an end
  whatever the disk answers, and keep the invariant of the file system.  If the write has been
  reported as a success the file holds exactly the text, the first command has printed nothing, and the second one shows
  exactly the text and a line feed, or the message of a disk fault; otherwise the first command shows
  the message of the error.
\<close>
theorem shell_set_then_get:
  assumes inv: "fs_inv (fsys s) rs" and v: "vga_ok (con s)" and name: "plain_name name" and data: "0 \<notin> set data"
  shows "\<exists>s1 s2 rs1 rs2. execute_command (set_line name data) s = Some (Running, s1) \<and> execute_command (get_line name) s1 = Some (Running, s2) \<and>
    fs_inv (fsys s1) rs1 \<and> fs_inv (fsys s2) rs2 \<and> vga_ok (con s2) \<and>
    (case fst (fs_write_all (name @ [0]) (data @ [0]) (length data) (fsys s)) of
       Inl e \<Rightarrow> screen s1 = fold term_put (fs_message e) (screen s)
     | Inr _ \<Rightarrow> con s1 = con s \<and> contents (fsys s1) rs1 name = Some data \<and>
         (screen s2 = fold term_put (data @ [10]) (screen s) \<or>
          (\<exists>k. screen s2 = fold term_put (take k data @ fs_message FS_ERR_IO @ [10]) (screen s)) \<or>
          screen s2 = fold term_put (fs_message FS_ERR_IO) (screen s)))"
proof -
  have z: "0 \<in> set (name @ [0])" and c: "cname (name @ [0]) = name" using plain_name_facts[OF name] by simp_all
  obtain w f1 where w: "fs_write_all (name @ [0]) (data @ [0]) (length data) (fsys s) = (w, f1)" by fastforce
  obtain rs1 where W: "fs_inv f1 rs1" "\<forall>u. w = Inr u \<longrightarrow> mounted f1 \<and> contents f1 rs1 name = Some data"
    using fs_write_all_spec[OF inv z _ w] c by auto
  define s1 where "s1 = fs_report (w, s\<lparr>fsys := f1\<rparr>)"
  have e1: "execute_command (set_line name data) s = Some (Running, s1)" using set_line_runs[OF name data] w by (simp add: on_fsys_def s1_def)
  have S: "fsys s1 = f1" "vga_ok (con s1)" "\<forall>e. w = Inl e \<longrightarrow> screen s1 = fold term_put (fs_message e) (screen s)" "\<forall>u. w = Inr u \<longrightarrow> con s1 = con s"
    using error_screen[of "s\<lparr>fsys := f1\<rparr>"] v by (auto simp: s1_def fs_report_def split: sum.splits)
  obtain s2 rs2 where G: "get_command (name @ [0]) s1 = Some s2" "fs_inv (fsys s2) rs2" "vga_ok (con s2)"
      "\<forall>old. contents (fsys s1) rs1 name = Some old \<and> 0 \<notin> set old \<and> mounted (fsys s1) \<and> name_check (name @ [0]) = Inr () \<longrightarrow>
        screen s2 = fold term_put (old @ [10]) (screen s1) \<or>
        (\<exists>k. screen s2 = fold term_put (take k old @ fs_message FS_ERR_IO @ [10]) (screen s1)) \<or>
        screen s2 = fold term_put (fs_message FS_ERR_IO) (screen s1)"
    using get_command_spec[of s1 rs1 "name @ [0]"] W(1) S(1,2) z unfolding c by auto
  have e2: "execute_command (get_line name) s1 = Some (Running, s2)" using get_line_runs[of name s1] G(1) by simp
  have nc: "name_check (name @ [0]) = Inr ()" using name by (simp add: plain_name_def)
  have "case w of Inl e \<Rightarrow> screen s1 = fold term_put (fs_message e) (screen s)
     | Inr _ \<Rightarrow> con s1 = con s \<and> contents (fsys s1) rs1 name = Some data \<and>
         (screen s2 = fold term_put (data @ [10]) (screen s) \<or>
          (\<exists>k. screen s2 = fold term_put (take k data @ fs_message FS_ERR_IO @ [10]) (screen s)) \<or>
          screen s2 = fold term_put (fs_message FS_ERR_IO) (screen s))"
  proof (cases w)
    case (Inl e)
    then show ?thesis using S(3) by simp
  next
    case (Inr u)
    then have "con s1 = con s" "contents (fsys s1) rs1 name = Some data" "mounted (fsys s1)" using S(1,4) W(2) by auto
    then show ?thesis using G(4) nc data Inr by auto
  qed
  then show ?thesis using e1 e2 W(1) S(1) G(2,3) w by (intro exI[of _ s1] exI[of _ s2] exI[of _ rs1] exI[of _ rs2]) simp
qed

text \<open>
  C31. Scripts cannot nest: a statement of a script whose command word is \<open>exec\<close> is refused by the system call before it
  reaches \<open>execute_command\<close>, for every way of writing it, so commands run from the command line go one script deep
  and no deeper: allowing any greater depth changes nothing.
\<close>
theorem scripts_do_not_nest:
  "execute_at (Suc d) buffer s = execute_command buffer s \<and>
   (0 \<in> set line \<and> strcmp (fst (split_command line)) (lit ''exec'') = Some 0 \<longrightarrow>
     sys_run run line s = Some (Running, sayln ''exec: nested exec is not allowed'' s))"
  using command_exec[of line "fst (split_command line)" "snd (split_command line)"] by (auto simp: execute_any_depth sys_run_def simp del: execute_at.simps)

theorem shell_set_then_get_witness:
  "\<forall>a v c (t :: shell). \<exists>s1 s2. let s = t\<lparr>fsys := example_fs a v, con := clear c\<rparr> in
    execute_command (set_line [97] [72, 105]) s = Some (Running, s1) \<and> execute_command (get_line [97]) s1 = Some (Running, s2) \<and>
    (case fst (fs_write_all [97, 0] [72, 105, 0] 2 (fsys s)) of
       Inl e \<Rightarrow> screen s1 = fold term_put (fs_message e) (screen s)
     | Inr _ \<Rightarrow> screen s2 = fold term_put [72, 105, 10] (screen s) \<or>
         (\<exists>k. screen s2 = fold term_put (take k [72, 105] @ fs_message FS_ERR_IO @ [10]) (screen s)) \<or>
         screen s2 = fold term_put (fs_message FS_ERR_IO) (screen s))"
proof (intro allI)
  fix a v c and t :: shell
  define s where "s = t\<lparr>fsys := example_fs a v, con := clear c\<rparr>"
  have n: "plain_name [97]" by (simp add: plain_name_def) (subst name_check_iff, simp_all add: cname_def)
  have i: "fs_inv (fsys s) [1]" using example_inv[of a v] by (simp add: s_def)
  have o: "vga_ok (con s)" using clear_ok[of c] by (simp add: s_def)
  have z: "(0 :: u8) \<notin> set [72, 105]" by simp
  obtain s1 s2 where R: "execute_command (set_line [97] [72, 105]) s = Some (Running, s1)" "execute_command (get_line [97]) s1 = Some (Running, s2)"
      "case fst (fs_write_all [97, 0] [72, 105, 0] 2 (fsys s)) of
         Inl e \<Rightarrow> screen s1 = fold term_put (fs_message e) (screen s)
       | Inr _ \<Rightarrow> screen s2 = fold term_put [72, 105, 10] (screen s) \<or>
           (\<exists>k. screen s2 = fold term_put (take k [72, 105] @ fs_message FS_ERR_IO @ [10]) (screen s)) \<or>
           screen s2 = fold term_put (fs_message FS_ERR_IO) (screen s)"
    using shell_set_then_get[OF i o n z]
    by (cases "fst (fs_write_all [97, 0] [72, 105, 0] 2 (fsys s))") (auto simp: numeral_2_eq_2)
  show "\<exists>s1 s2. let s = t\<lparr>fsys := example_fs a v, con := clear c\<rparr> in
    execute_command (set_line [97] [72, 105]) s = Some (Running, s1) \<and> execute_command (get_line [97]) s1 = Some (Running, s2) \<and>
    (case fst (fs_write_all [97, 0] [72, 105, 0] 2 (fsys s)) of
       Inl e \<Rightarrow> screen s1 = fold term_put (fs_message e) (screen s)
     | Inr _ \<Rightarrow> screen s2 = fold term_put [72, 105, 10] (screen s) \<or>
         (\<exists>k. screen s2 = fold term_put (take k [72, 105] @ fs_message FS_ERR_IO @ [10]) (screen s)) \<or>
         screen s2 = fold term_put (fs_message FS_ERR_IO) (screen s))"
    unfolding Let_def s_def[symmetric] by (intro exI conjI) (rule R)+
qed

theorem scripts_do_not_nest_witness:
  "\<forall>run s. sys_run run [101, 120, 101, 99, 32, 97, 0] s = Some (Running, sayln ''exec: nested exec is not allowed'' s)"
proof (intro allI)
  fix run s
  have "strcmp (fst (split_command [101, 120, 101, 99, 32, 97, 0])) (lit ''exec'') = Some 0"
    by (simp add: split_command_def lit_def)
  then show "sys_run run [101, 120, 101, 99, 32, 97, 0] s = Some (Running, sayln ''exec: nested exec is not allowed'' s)"
    using scripts_do_not_nest[of 0 "[]" s "[101, 120, 101, 99, 32, 97, 0]" run] by simp
qed

text \<open>
  C32. The disk test writes into the boot loader: \<open>dt\<close> changes no sector but number 5, so the file system is not touched, but
  when the drive takes the write, sector 5 holds the test pattern afterwards, whatever was there before; on an
  installed system that is a sector of the boot loader's core, inside the factory image.
\<close>
theorem dt_overwrites_boot_sector:
  assumes wf: "disk_wf (drive (fsys s))" and sz: "5 < disk_total (drive (fsys s))"
  shows "let d = drive (fsys s); d' = drive (fsys (dt_command s)) in
    (\<forall>i. i \<noteq> 5 \<longrightarrow> disk_medium d' i = disk_medium d i) \<and>
    (fst (disk_write_sector 5 dt_pattern d) \<longrightarrow> disk_medium d' 5 = dt_pattern)"
proof -
  let ?d = "drive (fsys s)"
  obtain ok d1 where w: "disk_write_sector 5 dt_pattern ?d = (ok, d1)" by fastforce
  have W: "disk_wf d1" "disk_total d1 = disk_total ?d" "disk_medium d1 = (disk_medium ?d)(5 := dt_pattern) \<or> \<not> ok \<and> disk_medium d1 = disk_medium ?d"
    using bd.wr_one[of ?d 5 dt_pattern ok d1] wf sz w by (simp_all add: disk_write_sector_def dt_pattern_def)
  obtain ok2 b d2 where r: "disk_read_sector 5 (stack_array 512 s) d1 = (ok2, b, d2)" by (metis prod_cases3)
  have R: "disk_wf d2" "disk_medium d2 = disk_medium d1"
    using bd.rd_one[of d1 5 "stack_array 512 s" ok2 b d2] W(1,2) sz r by (simp_all add: disk_read_sector_def stack_array_def)
  have name: "snd (disk_name d2) = d2" using disk_wf_probed[OF R(1)] by (simp add: disk_name_def)
  have keep: "fsys (sayln x t) = fsys t" "fsys (say x t) = fsys t" for x t by (simp_all add: say_def sayln_def on_con_def)
  have sa: "stack_array 512 (s\<lparr>fsys := f\<rparr>) = stack_array 512 s" for f by (simp add: stack_array_def)
  have "disk_medium (drive (fsys (dt_command s))) = disk_medium d1"
  proof (cases ok)
    case False
    then show ?thesis using w by (simp add: dt_command_def Let_def keep)
  next
    case ok: True
    show ?thesis
    proof (cases ok2)
      case False
      then show ?thesis using w ok r R(2) by (simp add: dt_command_def Let_def keep sa)
    next
      case True
      then show ?thesis using w ok r R(2) name by (simp add: dt_command_def Let_def keep sa split_beta)
    qed
  qed
  then show ?thesis using W(3) w by (auto simp: Let_def)
qed

theorem dt_overwrites_boot_sector_witness:
  "\<forall>a v (t :: shell). let s = t\<lparr>fsys := example_fs a v\<rparr>; m = disk_medium (drive (fsys (dt_command s))) in
     m 4096 = example_medium 4096 \<and> (fst (disk_write_sector 5 dt_pattern (drive (fsys s))) \<longrightarrow> m 5 = dt_pattern)"
proof (intro allI)
  fix a v and t :: shell
  let ?s = "t\<lparr>fsys := example_fs a v\<rparr>"
  have "disk_wf (drive (fsys ?s))" using example_wf[of a v] by (simp add: fs_wf_def)
  moreover have "5 < disk_total (drive (fsys ?s))" "disk_medium (drive (fsys ?s)) = example_medium"
    by (simp_all add: example_fs_def disk_medium_def)
  ultimately show "let s = ?s; m = disk_medium (drive (fsys (dt_command s))) in
     m 4096 = example_medium 4096 \<and> (fst (disk_write_sector 5 dt_pattern (drive (fsys s))) \<longrightarrow> m 5 = dt_pattern)"
    using dt_overwrites_boot_sector[of ?s] by (simp add: Let_def)
qed

end
