(* ===== verification/Power_Off.thy ===== *)
theory Power_Off
  imports Installer Vga "HOL-Library.Monad_Syntax"
begin

text \<open>
  Switching off and rebooting, \<open>kernel/power.c\<close>: the tables of the firmware are searched for the registers and
  the sleep types that switch the machine off.

  The physical memory is a function from addresses, as in \<open>Installer\<close>.  \<open>written\<close> are the values written to
  ports, in order, and the \<open>n\<close>-th reading, if it is of port \<open>x\<close>, gives \<open>answers n x\<close>; the delays of \<open>io_wait\<close> are left out.  A
  pointer to a table is its address, and 0 is the null pointer.
\<close>

section \<open>Tables\<close>

datatype port_command = Byte_Out u16 u8 | Word_Out u16 u16

record ports =
  answers :: "nat \<Rightarrow> u16 \<Rightarrow> u16"
  readings :: nat
  written :: "port_command list"

abbreviation TABLE_HEADER :: u32 where "TABLE_HEADER \<equiv> 36"

definition port_in :: "u16 \<Rightarrow> ports \<Rightarrow> u16 \<times> ports" where
  "port_in x p = (answers p (readings p) x, p\<lparr>readings := readings p + 1\<rparr>)"

definition port_out :: "port_command \<Rightarrow> ports \<Rightarrow> ports" where
  "port_out w p = p\<lparr>written := written p @ [w]\<rparr>"

definition same :: "(u32 \<Rightarrow> u8) \<Rightarrow> u32 \<Rightarrow> u8 list \<Rightarrow> nat \<Rightarrow> bool" where
  "same mem a b n \<longleftrightarrow> list_all (\<lambda>i. mem (a + of_nat i) = b ! i) [0..<n]"

definition checksum_ok :: "(u32 \<Rightarrow> u8) \<Rightarrow> u32 \<Rightarrow> nat \<Rightarrow> bool" where
  "checksum_ok mem data n \<longleftrightarrow> fold (\<lambda>i acc. acc + mem (data + of_nat i)) [0..<n] 0 = 0"

partial_function (option) scan_rsdp :: "(u32 \<Rightarrow> u8) \<Rightarrow> u32 \<Rightarrow> u32 \<Rightarrow> u32 option" where
  "scan_rsdp mem addr limit =
     (if addr + 20 \<le> limit then
        if same mem addr (lit ''RSD PTR '') 8 \<and> checksum_ok mem addr 20 then Some addr
        else scan_rsdp mem (addr + 16) limit
      else Some 0)"

definition ebda_base :: "(u32 \<Rightarrow> u8) \<Rightarrow> u32" where
  "ebda_base mem = push_bit 4 (ucast (mem 0x40E) OR push_bit 8 (ucast (mem 0x40F)))"

definition find_rsdp :: "(u32 \<Rightarrow> u8) \<Rightarrow> u32 option" where
  "find_rsdp mem =
     (let ebda = ebda_base mem in
      if ebda \<ge> 0x80000 \<and> ebda < 0xA0000 then do {
        found \<leftarrow> scan_rsdp mem ebda (ebda + 1024);
        if found \<noteq> 0 then Some found else scan_rsdp mem 0xE0000 0x100000
      }
      else scan_rsdp mem 0xE0000 0x100000)"

primrec find_table_loop :: "nat \<Rightarrow> u32 \<Rightarrow> (u32 \<Rightarrow> u8) \<Rightarrow> u8 list \<Rightarrow> u32" where
  "find_table_loop 0 entry mem signature = 0"
| "find_table_loop (Suc k) entry mem signature =
     (let table = mem_u32 mem entry in
      if same mem table signature 4 then table else find_table_loop k (entry + 4) mem signature)"

definition find_table :: "(u32 \<Rightarrow> u8) \<Rightarrow> u32 \<Rightarrow> u8 list \<Rightarrow> u32" where
  "find_table mem rsdp signature =
     (let rsdt = mem_u32 mem (rsdp + 16) in
      if \<not> same mem rsdt (lit ''RSDT'') 4 then 0
      else let count = (mem_u32 mem (rsdt + 4) - TABLE_HEADER) div 4
        in find_table_loop (unat count) (rsdt + TABLE_HEADER) mem signature)"

definition read32 :: "(u32 \<Rightarrow> u8) \<Rightarrow> u32 \<Rightarrow> u32 \<Rightarrow> u32" where
  "read32 mem base offset = mem_u32 mem (base + offset)"

text \<open>The two sleep types behind a name at \<open>p\<close>: the length of the package takes one to four bytes.\<close>

definition sleep_value :: "(u32 \<Rightarrow> u8) \<Rightarrow> u32 \<Rightarrow> u32" where
  "sleep_value mem q = (if mem q = 0x0A then q + 1 else q)"

definition sleep_types_at :: "(u32 \<Rightarrow> u8) \<Rightarrow> u32 \<Rightarrow> (u32 \<times> u32) option" where
  "sleep_types_at mem p =
     (if \<not> same mem p (lit ''_S5_'') 4 then None
      else if mem (p + 4) \<noteq> 0x12 then None
      else
        let q = p + 5;
            q = q + ucast (drop_bit 6 (mem q) AND 3) + 1;
            q = sleep_value mem (q + 1);
            r = sleep_value mem (q + 1)
        in Some (ucast (mem q), ucast (mem r)))"

function sleep_loop :: "(u32 \<Rightarrow> u8) \<Rightarrow> u32 \<Rightarrow> u32 \<Rightarrow> (u32 \<times> u32) option" where
  "sleep_loop mem p limit =
     (if p + 8 < limit then
        case sleep_types_at mem p of Some types \<Rightarrow> Some types | None \<Rightarrow> sleep_loop mem (p + 1) limit
      else None)"
  by pat_completeness auto

termination
proof (relation "measure (\<lambda>(mem, p, limit). unat (limit - (p + 8)))")
  fix mem :: "u32 \<Rightarrow> u8" and p limit :: u32
  assume a: "p + 8 < limit"
  then have "limit - (p + 8) \<noteq> 0" by auto
  then have "unat (limit - (p + 8) - 1) < unat (limit - (p + 8))" by (rule measure_unat)
  moreover have "limit - (p + 1 + 8) = limit - (p + 8) - 1" by simp
  ultimately show "((mem, p + 1, limit), mem, p, limit) \<in> measure (\<lambda>(mem, p, limit). unat (limit - (p + 8)))" by (simp only: in_measure prod.case)
qed simp

declare sleep_loop.simps [simp del]

definition find_sleep_types :: "(u32 \<Rightarrow> u8) \<Rightarrow> u32 \<Rightarrow> (u32 \<times> u32) option" where
  "find_sleep_types mem dsdt = sleep_loop mem (dsdt + TABLE_HEADER) (dsdt + mem_u32 mem (dsdt + 4))"


section \<open>Switching off\<close>

primrec enable_wait :: "nat \<Rightarrow> u16 \<Rightarrow> ports \<Rightarrow> ports" where
  "enable_wait 0 pm1a p = p"
| "enable_wait (Suc k) pm1a p = (let (v, p) = port_in pm1a p in if v AND 1 \<noteq> 0 then p else enable_wait k pm1a p)"

definition acpi_enable :: "u16 \<Rightarrow> u32 \<Rightarrow> u8 \<Rightarrow> ports \<Rightarrow> ports" where
  "acpi_enable pm1a smi_command command p =
     (let (v, p) = port_in pm1a p in
      if v AND 1 = 0 \<and> smi_command \<noteq> 0 \<and> command \<noteq> 0
      then enable_wait 300000 pm1a (port_out (Byte_Out (ucast smi_command) command) p) else p)"

definition sleep_command :: "u32 \<Rightarrow> u16" where
  "sleep_command t = ucast (push_bit 10 t OR push_bit 13 1)"

definition acpi_power_off :: "(u32 \<Rightarrow> u8) \<Rightarrow> ports \<Rightarrow> ports option" where
  "acpi_power_off mem p = do {
     rsdp \<leftarrow> find_rsdp mem;
     if rsdp = 0 then Some p
     else let fadt = find_table mem rsdp (lit ''FACP'') in
       if fadt = 0 then Some p
       else let dsdt = read32 mem fadt 40;
                smi_command = read32 mem fadt 48;
                enable = mem (fadt + 52);
                pm1a = read32 mem fadt 64;
                pm1b = read32 mem fadt 68
         in if dsdt = 0 \<or> pm1a = 0 \<or> \<not> same mem dsdt (lit ''DSDT'') 4 then Some p
            else case find_sleep_types mem dsdt of
              None \<Rightarrow> Some p
            | Some (type_a, type_b) \<Rightarrow>
                let p = acpi_enable (ucast pm1a) smi_command enable p;
                    p = port_out (Word_Out (ucast pm1a) (sleep_command type_a)) p
                in Some (if pm1b \<noteq> 0 then port_out (Word_Out (ucast pm1b) (sleep_command type_b)) p else p)
   }"

text \<open>What has been written when the processor halts; a machine that is off does not get that far.\<close>

definition recovery_power_off :: "(u32 \<Rightarrow> u8) \<Rightarrow> ports \<Rightarrow> ports option" where
  "recovery_power_off mem p = map_option (\<lambda>p. port_out (Word_Out 0x4004 0x3400) (port_out (Word_Out 0xB004 0x2000)
     (port_out (Word_Out 0x604 0x2000) p))) (acpi_power_off mem p)"

primrec reboot_wait :: "nat \<Rightarrow> ports \<Rightarrow> ports" where
  "reboot_wait 0 p = p"
| "reboot_wait (Suc k) p = (let (v, p) = port_in 0x64 p in if v AND 2 = 0 then p else reboot_wait k p)"

definition recovery_reboot :: "ports \<Rightarrow> ports" where
  "recovery_reboot p = port_out (Byte_Out 0xCF9 0x06) (port_out (Byte_Out 0xCF9 0x02)
     (port_out (Byte_Out 0x64 0xFE) (reboot_wait 0x10000 p)))"


section \<open>What the search finds\<close>

text \<open>
  The tables as the standard describes them: a signature, and for the root pointer 20 bytes whose sum is a multiple of 256.
\<close>

definition signature_at :: "(u32 \<Rightarrow> u8) \<Rightarrow> u32 \<Rightarrow> string \<Rightarrow> bool" where
  "signature_at mem a str \<longleftrightarrow> mem_bytes mem a (length str) = map of_char str"

definition rsdp_valid :: "(u32 \<Rightarrow> u8) \<Rightarrow> u32 \<Rightarrow> bool" where
  "rsdp_valid mem a \<longleftrightarrow> signature_at mem a ''RSD PTR '' \<and> sum_list (map unat (mem_bytes mem a 20)) mod 256 = 0"

lemma same_signature: "n = length str \<Longrightarrow> same mem a (lit str) n \<longleftrightarrow> signature_at mem a str"
proof -
  assume n: "n = length str"
  have "(mem (a + of_nat i) = lit str ! i) = (mem (a + of_nat i) = of_char (str ! i))" if "i < n" for i
    using that n by (simp add: lit_def nth_append)
  then have "same mem a (lit str) n = (\<forall>i<n. mem (a + of_nat i) = of_char (str ! i))" unfolding same_def list_all_iff by auto
  also have "\<dots> = signature_at mem a str" unfolding signature_at_def mem_bytes_def list_eq_iff_nth_eq using n by simp
  finally show ?thesis .
qed

lemma checksum_sum: "checksum_ok mem a n \<longleftrightarrow> sum_list (map unat (mem_bytes mem a n)) mod 256 = 0"
proof -
  have "fold (\<lambda>i acc. acc + mem (a + of_nat i)) [0..<n] 0 = of_nat (sum_list (map unat (mem_bytes mem a n)))"
    by (induction n) (simp_all add: mem_bytes_def)
  then show ?thesis unfolding checksum_ok_def by (simp add: word_of_nat_eq_0_iff mod_eq_0_iff_dvd)
qed

lemma rsdp_test: "same mem a (lit ''RSD PTR '') 8 \<and> checksum_ok mem a 20 \<longleftrightarrow> rsdp_valid mem a"
  by (simp add: rsdp_valid_def checksum_sum same_signature)

text \<open>The scan returns the first table at one of the \<open>n\<close> places of the region, or the null pointer.\<close>

definition table_places :: "u32 \<Rightarrow> nat \<Rightarrow> u32 list" where
  "table_places a n = map (\<lambda>k. a + of_nat (16 * k)) [0..<n]"

lemma table_places_Suc: "table_places a (Suc n) = a # table_places (a + 16) n"
  by (simp add: table_places_def upt_conv_Cons map_Suc_upt[symmetric] add.assoc del: upt_Suc map_Suc_upt)

lemma scan_rsdp_find:
  "\<lbrakk>unat addr \<le> unat limit + 16; unat limit < unat addr + 16 * n + 20; 0 < n \<longrightarrow> unat addr + 16 * n + 4 \<le> unat limit; unat limit < 4294967200\<rbrakk> \<Longrightarrow>
    scan_rsdp mem addr limit = Some (case find (rsdp_valid mem) (table_places addr n) of Some r \<Rightarrow> r | None \<Rightarrow> 0)"
proof (induction n arbitrary: addr)
  case 0
  then have "\<not> addr + 20 \<le> limit" by (simp add: word_le_nat_alt unat_word_ariths)
  then show ?case by (subst scan_rsdp.simps) (simp add: table_places_def)
next
  case (Suc n)
  have le: "addr + 20 \<le> limit" using Suc.prems by (simp add: word_le_nat_alt unat_word_ariths)
  have u: "unat (addr + 16) = unat addr + 16" using Suc.prems by (simp add: unat_word_ariths)
  have "scan_rsdp mem (addr + 16) limit = Some (case find (rsdp_valid mem) (table_places (addr + 16) n) of Some r \<Rightarrow> r | None \<Rightarrow> 0)"
    by (rule Suc.IH) (use Suc.prems u in auto)
  then show ?case using le by (subst scan_rsdp.simps) (simp add: rsdp_test table_places_Suc)
qed

lemma find_table_loop_first:
  "\<lbrakk>i < n; same mem (mem_u32 mem (entry + of_nat (4 * i))) sig 4; \<forall>j < i. \<not> same mem (mem_u32 mem (entry + of_nat (4 * j))) sig 4\<rbrakk> \<Longrightarrow>
    find_table_loop n entry mem sig = mem_u32 mem (entry + of_nat (4 * i))"
proof (induction n arbitrary: entry i)
  case (Suc n)
  have e: "entry + 4 + of_nat (4 * j) = entry + of_nat (4 * Suc j)" for j by simp
  show ?case
  proof (cases i)
    case 0
    then show ?thesis using Suc.prems(2) by simp
  next
    case i: (Suc i')
    have "find_table_loop n (entry + 4) mem sig = mem_u32 mem (entry + 4 + of_nat (4 * i'))"
    proof (rule Suc.IH)
      show "i' < n" using Suc.prems(1) i by simp
      show "same mem (mem_u32 mem (entry + 4 + of_nat (4 * i'))) sig 4" unfolding e using Suc.prems(2) i by simp
      show "\<forall>j<i'. \<not> same mem (mem_u32 mem (entry + 4 + of_nat (4 * j))) sig 4" unfolding e using Suc.prems(3) i by blast
    qed
    moreover have "\<not> same mem (mem_u32 mem entry) sig 4" using Suc.prems(3)[rule_format, of 0] i by simp
    ultimately show ?thesis unfolding i e by (simp only: find_table_loop.simps Let_def if_False)
  qed
qed simp

text \<open>The package of the sleep types as the firmware encodes it: \<open>extra\<close> are further bytes of its length.\<close>

definition aml_byte :: "bool \<Rightarrow> u8 \<Rightarrow> u8 list" where
  "aml_byte prefixed x = (if prefixed then [0x0A, x] else [x])"

definition s5_package :: "u8 \<Rightarrow> u8 list \<Rightarrow> u8 \<Rightarrow> bool \<Rightarrow> u8 \<Rightarrow> bool \<Rightarrow> u8 \<Rightarrow> u8 list" where
  "s5_package lead extra count pa a pb b =
     map of_char ''_S5_'' @ [0x12, lead] @ extra @ [count] @ aml_byte pa a @ aml_byte pb b"

lemma sleep_types_package:
  assumes bytes: "mem_bytes mem p (length pkg) = pkg" and pkg: "pkg = s5_package lead extra count pa a pb b"
    and lead: "length extra = unat (drop_bit 6 lead)" and enc: "pa \<or> a \<noteq> 0x0A" "pb \<or> b \<noteq> 0x0A"
  shows "sleep_types_at mem p = Some (ucast a, ucast b)"
proof -
  have m: "mem (p + of_nat i) = pkg ! i" if "i < length pkg" for i
    using arg_cong[OF bytes, of "\<lambda>l. l ! i"] that by (simp add: mem_bytes_def)
  let ?e = "length extra" and ?x = "if pa then 1 else 0 :: nat" and ?y = "if pb then 1 else 0 :: nat"
  have l: "length pkg = 9 + ?e + ?x + ?y" by (simp add: pkg s5_package_def aml_byte_def)
  have "drop_bit 6 lead AND 3 = take_bit 2 (drop_bit 6 lead)" by (simp add: take_bit_eq_mask mask_eq_exp_minus_1)
  also have "\<dots> = drop_bit 6 lead" using take_bit_length_eq[of lead] by (simp add: take_bit_drop_bit)
  finally have low: "ucast (drop_bit 6 lead AND 3) = (of_nat ?e :: u32)" by (simp add: lead)
  define q where "q = p + of_nat (7 + ?e)"
  have q: "p + 5 + ucast (drop_bit 6 (mem (p + 5)) AND 3) + 1 + 1 = q"
    using m[of 5] l by (simp add: pkg s5_package_def q_def low)
  have name: "same mem p (lit ''_S5_'') 4" "mem (p + 4) = 0x12"
    using m[of 0] m[of 1] m[of 2] m[of 3] m[of 4] l by (simp_all add: pkg s5_package_def same_def lit_def upt_rec)
  have b1: "mem q = (if pa then 0x0A else a)" "pa \<Longrightarrow> mem (q + 1) = a"
    using m[of "7 + ?e"] m[of "8 + ?e"] l by (auto simp: q_def pkg s5_package_def aml_byte_def nth_append add_ac)
  define r where "r = sleep_value mem q"
  have r: "r = p + of_nat (7 + ?e + ?x)" "mem r = a" using b1 enc(1) by (auto simp: r_def sleep_value_def q_def add_ac)
  have b2: "mem (r + 1) = (if pb then 0x0A else b)" "pb \<Longrightarrow> mem (r + 1 + 1) = b"
    using m[of "8 + ?e + ?x"] m[of "9 + ?e + ?x"] l by (auto simp: r(1) pkg s5_package_def aml_byte_def nth_append add_ac)
  have s: "mem (sleep_value mem (r + 1)) = b" using b2 enc(2) by (auto simp: sleep_value_def)
  show ?thesis using name q r(2) s by (simp add: sleep_types_at_def Let_def r_def[symmetric])
qed

lemma sleep_loop_first:
  "\<lbrakk>unat p + j + 8 < unat limit; sleep_types_at mem (p + of_nat j) = Some types; \<forall>l < j. sleep_types_at mem (p + of_nat l) = None\<rbrakk> \<Longrightarrow>
    sleep_loop mem p limit = Some types"
proof (induction j arbitrary: p)
  case 0
  moreover have "unat p + 8 < 4294967296" using 0(1) unat_u32_lt[of limit] by linarith
  ultimately have "p + 8 < limit" by (simp add: word_less_nat_alt unat_word_ariths)
  then show ?case using 0 by (subst sleep_loop.simps) simp
next
  case (Suc j)
  have small: "unat p + 9 < 4294967296" using Suc.prems(1) unat_u32_lt[of limit] by linarith
  then have lt: "p + 8 < limit" "unat (p + 1) = unat p + 1"
    using Suc.prems(1) by (simp_all add: word_less_nat_alt unat_word_ariths)
  have "sleep_loop mem (p + 1) limit = Some types"
  proof (rule Suc.IH)
    show "unat (p + 1) + j + 8 < unat limit" using Suc.prems(1) lt(2) by simp
    show "sleep_types_at mem (p + 1 + of_nat j) = Some types" using Suc.prems(2) by (simp add: add.assoc)
    show "\<forall>l<j. sleep_types_at mem (p + 1 + of_nat l) = None" using Suc.prems(3)[rule_format, of "Suc l" for l] by (simp add: add.assoc)
  qed
  then show ?case using Suc.prems(3)[rule_format, of 0] lt(1) by (subst sleep_loop.simps) simp
qed

text \<open>
  Where a firmware puts its tables: the root pointer at a multiple of 16 in the first kilobyte of the extended BIOS data area or
  in the 128 kilobytes below the first megabyte; the fixed table as the \<open>i\<close>-th of \<open>n\<close>; and in the code of the
  \<open>DSDT\<close> the package at offset \<open>j\<close> with the sleep types \<open>a\<close> and \<open>b\<close>.
\<close>

definition root_places :: "(u32 \<Rightarrow> u8) \<Rightarrow> u32 list" where
  "root_places mem =
     (if 0x80000 \<le> ebda_base mem \<and> ebda_base mem < 0xA0000 then table_places (ebda_base mem) 63 else []) @ table_places 0xE0000 8191"

definition root_pointer :: "(u32 \<Rightarrow> u8) \<Rightarrow> u32 \<Rightarrow> bool" where
  "root_pointer mem r \<longleftrightarrow> find (rsdp_valid mem) (root_places mem) = Some r"

definition fixed_table :: "(u32 \<Rightarrow> u8) \<Rightarrow> u32 \<Rightarrow> u32 \<Rightarrow> bool" where
  "fixed_table mem rsdt fadt \<longleftrightarrow> signature_at mem rsdt ''RSDT'' \<and> fadt \<noteq> 0 \<and> signature_at mem fadt ''FACP'' \<and>
     (\<exists>n i. n < 1000 \<and> i < n \<and> mem_u32 mem (rsdt + 4) = of_nat (36 + 4 * n) \<and> fadt = mem_u32 mem (rsdt + 36 + of_nat (4 * i)) \<and>
       (\<forall>j < i. \<not> signature_at mem (mem_u32 mem (rsdt + 36 + of_nat (4 * j))) ''FACP''))"

definition sleep_package :: "(u32 \<Rightarrow> u8) \<Rightarrow> u32 \<Rightarrow> u8 \<Rightarrow> u8 \<Rightarrow> bool" where
  "sleep_package mem dsdt a b \<longleftrightarrow> dsdt \<noteq> 0 \<and> signature_at mem dsdt ''DSDT'' \<and>
     (\<exists>j lead extra count pa pb. unat dsdt + 36 + j + 8 < unat (dsdt + mem_u32 mem (dsdt + 4)) \<and>
       length extra = unat (drop_bit 6 lead) \<and> (pa \<or> a \<noteq> 0x0A) \<and> (pb \<or> b \<noteq> 0x0A) \<and>
       mem_bytes mem (dsdt + 36 + of_nat j) (length (s5_package lead extra count pa a pb b)) = s5_package lead extra count pa a pb b \<and>
       (\<forall>l < j. \<not> signature_at mem (dsdt + 36 + of_nat l) ''_S5_''))"

lemma find_append: "find P (xs @ ys) = (case find P xs of None \<Rightarrow> find P ys | Some x \<Rightarrow> Some x)"
  by (induction xs) auto

lemma find_rsdp_root:
  assumes "root_pointer mem r"
  shows "find_rsdp mem = Some r \<and> r \<noteq> 0"
proof -
  let ?e = "ebda_base mem"
  let ?f = "\<lambda>a n. case find (rsdp_valid mem) (table_places a n) of Some r \<Rightarrow> r | None \<Rightarrow> 0"
  have big: "scan_rsdp mem 0xE0000 0x100000 = Some (?f 0xE0000 8191)" by (rule scan_rsdp_find) simp_all
  have small: "scan_rsdp mem ?e (?e + 1024) = Some (?f ?e 63)" if "0x80000 \<le> ?e" "?e < 0xA0000"
  proof -
    have "unat ?e < 0xA0000" using that by (simp add: word_less_nat_alt)
    moreover from this have "unat (?e + 1024) = unat ?e + 1024" by (simp add: unat_word_ariths)
    ultimately show ?thesis by (intro scan_rsdp_find) simp_all
  qed
  have nz: "x \<noteq> 0" if f: "find (rsdp_valid mem) (table_places a n) = Some x" and a: "0 < unat a" "unat a + 16 * n < 4294967296" for x a n
  proof -
    obtain k where "k < n" "x = a + of_nat (16 * k)" using f by (auto simp: find_Some_iff table_places_def)
    moreover from this have "unat (of_nat (16 * k) :: u32) = 16 * k" using a(2) by (intro unat_of_nat_u32) simp
    ultimately have "unat x = unat a + 16 * k" using a(2) by (simp only: unat_add_u32_small)
    then show ?thesis using a(1) by auto
  qed
  show ?thesis
  proof (cases "0x80000 \<le> ?e \<and> ?e < 0xA0000")
    case True
    have u: "0 < unat ?e" "unat ?e + 16 * 63 < 4294967296" using True by (auto simp: word_le_nat_alt word_less_nat_alt)
    show ?thesis
    proof (cases "find (rsdp_valid mem) (table_places ?e 63)")
      case None
      then have "find (rsdp_valid mem) (table_places 0xE0000 8191) = Some r" using assms True by (simp add: root_pointer_def root_places_def find_append)
      then show ?thesis using True None small big nz[of "0xE0000" 8191 r] by (simp add: find_rsdp_def Let_def)
    next
      case (Some x)
      then have "x = r" using assms True by (simp add: root_pointer_def root_places_def find_append)
      then show ?thesis using True Some small nz[OF Some u] by (simp add: find_rsdp_def Let_def)
    qed
  next
    case False
    then have "find (rsdp_valid mem) (table_places 0xE0000 8191) = Some r" using assms unfolding root_pointer_def root_places_def if_not_P[OF False] by simp
    then show ?thesis using False big nz[of "0xE0000" 8191 r] by (auto simp: find_rsdp_def Let_def)
  qed
qed

lemma same_4:
  "same mem a (lit ''RSDT'') 4 = signature_at mem a ''RSDT''" "same mem a (lit ''FACP'') 4 = signature_at mem a ''FACP''"
  "same mem a (lit ''DSDT'') 4 = signature_at mem a ''DSDT''" "same mem a (lit ''_S5_'') 4 = signature_at mem a ''_S5_''"
  by (simp_all add: same_signature)

lemma find_table_fixed: "fixed_table mem (mem_u32 mem (r + 16)) fadt \<Longrightarrow> find_table mem r (lit ''FACP'') = fadt"
proof -
  let ?rsdt = "mem_u32 mem (r + 16)"
  assume "fixed_table mem ?rsdt fadt"
  then obtain n i where f: "same mem ?rsdt (lit ''RSDT'') 4" "same mem fadt (lit ''FACP'') 4" "n < 1000" "i < n"
      "mem_u32 mem (?rsdt + 4) = of_nat (36 + 4 * n)" "fadt = mem_u32 mem (?rsdt + 36 + of_nat (4 * i))"
      "\<forall>j < i. \<not> same mem (mem_u32 mem (?rsdt + 36 + of_nat (4 * j))) (lit ''FACP'') 4"
    unfolding fixed_table_def same_4[symmetric] by blast
  have "unat ((mem_u32 mem (?rsdt + 4) - 36) div 4) = n"
    using f(3) by (simp add: f(5) unat_div unsigned_of_nat unat_word_ariths take_bit_eq_mod)
  moreover have "find_table_loop n (?rsdt + 36) mem (lit ''FACP'') = fadt"
    unfolding f(6) by (rule find_table_loop_first[OF f(4)]) (use f in simp_all)
  ultimately show ?thesis using f(1) by (simp add: find_table_def Let_def)
qed

lemma find_sleep_package: "sleep_package mem dsdt a b \<Longrightarrow> find_sleep_types mem dsdt = Some (ucast a, ucast b)"
proof -
  assume "sleep_package mem dsdt a b"
  then obtain j lead extra count pa pb where s: "unat dsdt + 36 + j + 8 < unat (dsdt + mem_u32 mem (dsdt + 4))"
      "length extra = unat (drop_bit 6 lead)" "pa \<or> a \<noteq> 0x0A" "pb \<or> b \<noteq> 0x0A"
      "mem_bytes mem (dsdt + 36 + of_nat j) (length (s5_package lead extra count pa a pb b)) = s5_package lead extra count pa a pb b"
      "\<forall>l < j. \<not> signature_at mem (dsdt + 36 + of_nat l) ''_S5_''"
    unfolding sleep_package_def by blast
  then have none: "\<forall>l < j. sleep_types_at mem (dsdt + 36 + of_nat l) = None" by (simp add: sleep_types_at_def same_4)
  have "unat dsdt + 36 < 4294967296" using s(1) unat_u32_lt[of "dsdt + mem_u32 mem (dsdt + 4)"] by linarith
  then have "unat (dsdt + 36) = unat dsdt + 36" by (simp add: unat_word_ariths)
  then show ?thesis unfolding find_sleep_types_def
    using s(1) by (intro sleep_loop_first[OF _ sleep_types_package[OF s(5) refl s(2-4)] none]) simp
qed

text \<open>
  What is written to reach and to leave the working state: the command that hands the firmware's events to the system, if they
  are not handed over yet and there is such a command; then the sleep type in bits 10 to 12 with the enable bit 13.
\<close>

definition enable_writes :: "(u32 \<Rightarrow> u8) \<Rightarrow> u32 \<Rightarrow> ports \<Rightarrow> port_command list" where
  "enable_writes mem fadt p =
     (if answers p (readings p) (ucast (read32 mem fadt 64)) AND 1 = 0 \<and> read32 mem fadt 48 \<noteq> 0 \<and> mem (fadt + 52) \<noteq> 0
      then [Byte_Out (ucast (read32 mem fadt 48)) (mem (fadt + 52))] else [])"

definition sleep_write :: "u32 \<Rightarrow> u8 \<Rightarrow> port_command" where
  "sleep_write reg t = Word_Out (ucast reg) (0x2000 OR push_bit 10 (ucast t))"

lemma sleep_command_bits: "sleep_command (ucast (t :: u8)) = 0x2000 OR push_bit 10 (ucast t)"
proof -
  have "(0x2000 :: u16) = push_bit 13 1" by simp
  then show ?thesis unfolding sleep_command_def by (simp only:) (rule bit_word_eqI, auto simp: bit_simps)
qed

lemma acpi_enable_written:
  "written (acpi_enable (ucast (read32 mem fadt 64)) (read32 mem fadt 48) (mem (fadt + 52)) p) = written p @ enable_writes mem fadt p"
proof -
  have "written (enable_wait k x p) = written p" for k x p by (induction k arbitrary: p) (auto simp: port_in_def Let_def)
  then show ?thesis by (simp add: acpi_enable_def enable_writes_def port_in_def port_out_def Let_def)
qed

text \<open>
  C34. Power off works: on a machine whose firmware tables follow the standard, with the root pointer in either of the two
  regions, the search finds the registers and the sleep types, and exactly this is written: the command that switches the
  firmware to this interface, if the control register says that it is needed and there is one; the sleep type and the
  enable bit to the one or two control registers; then the three ports of emulators.
\<close>
theorem power_off_correct:
  assumes r: "root_pointer mem r" and f: "fixed_table mem (mem_u32 mem (r + 16)) fadt"
    and d: "sleep_package mem (read32 mem fadt 40) a b" and pm: "read32 mem fadt 64 \<noteq> 0"
  shows "\<exists>p'. recovery_power_off mem p = Some p' \<and>
    written p' = written p @ enable_writes mem fadt p @ [sleep_write (read32 mem fadt 64) a] @
      (if read32 mem fadt 68 \<noteq> 0 then [sleep_write (read32 mem fadt 68) b] else []) @
      [Word_Out 0x604 0x2000, Word_Out 0xB004 0x2000, Word_Out 0x4004 0x3400]"
proof -
  have fa: "fadt \<noteq> 0" using f by (simp add: fixed_table_def)
  have ds: "read32 mem fadt 40 \<noteq> 0" "same mem (read32 mem fadt 40) (lit ''DSDT'') 4" using d by (simp_all add: sleep_package_def same_4)
  show ?thesis
    using find_rsdp_root[OF r] find_table_fixed[OF f] find_sleep_package[OF d] fa ds pm acpi_enable_written[of mem fadt p]
    by (simp add: recovery_power_off_def acpi_power_off_def Let_def port_out_def sleep_write_def sleep_command_bits)
qed

text \<open>
  A firmware with one table of each kind and sleep types 5 and 5, whose root pointer is at the second place of the
  extended BIOS data area at \<open>0x9FC00\<close>.
\<close>

definition example_firmware :: "u32 \<Rightarrow> u8" where
  "example_firmware a = (case map_of [
     (0x40E, 0xC0), (0x40F, 0x9F),
     (0x9FC10, 0x52), (0x9FC11, 0x53), (0x9FC12, 0x44), (0x9FC13, 0x20), (0x9FC14, 0x50), (0x9FC15, 0x54), (0x9FC16, 0x52), (0x9FC17, 0x20),
     (0x9FC18, 0xC1), (0x9FC21, 0x20),
     (0x2000, 0x52), (0x2001, 0x53), (0x2002, 0x44), (0x2003, 0x54), (0x2004, 40), (0x2025, 0x30),
     (0x3000, 0x46), (0x3001, 0x41), (0x3002, 0x43), (0x3003, 0x50), (0x3029, 0x40), (0x3040, 0x04), (0x3041, 0x06),
     (0x4000, 0x44), (0x4001, 0x53), (0x4002, 0x44), (0x4003, 0x54), (0x4004, 64),
     (0x4024, 0x5F), (0x4025, 0x53), (0x4026, 0x35), (0x4027, 0x5F), (0x4028, 0x12), (0x4029, 6), (0x402A, 4),
     (0x402B, 0x0A), (0x402C, 5), (0x402D, 0x0A), (0x402E, 5)] a of None \<Rightarrow> 0 | Some b \<Rightarrow> b)"

lemma example_firmware_root: "root_pointer example_firmware 0x9FC10"
proof -
  have "ebda_base example_firmware = 0x9FC00" by code_simp
  moreover have "find (rsdp_valid example_firmware) (table_places 0x9FC00 63) = Some 0x9FC10" by code_simp
  ultimately show ?thesis by (simp add: root_pointer_def root_places_def find_append)
qed

lemma example_firmware_fixed: "fixed_table example_firmware 0x2000 0x3000"
proof -
  have s: "signature_at example_firmware 0x2000 ''RSDT''" "signature_at example_firmware 0x3000 ''FACP''" by code_simp+
  have "mem_u32 example_firmware (0x2000 + 4) = of_nat (36 + 4 * 1)" "0x3000 = mem_u32 example_firmware (0x2000 + 36 + of_nat (4 * 0))"
    by code_simp+
  then have "\<exists>n i. n < 1000 \<and> i < n \<and> mem_u32 example_firmware (0x2000 + 4) = of_nat (36 + 4 * n) \<and>
      0x3000 = mem_u32 example_firmware (0x2000 + 36 + of_nat (4 * i)) \<and>
      (\<forall>j < i. \<not> signature_at example_firmware (mem_u32 example_firmware (0x2000 + 36 + of_nat (4 * j))) ''FACP'')"
    by - (rule exI[of _ "1 :: nat"], rule exI[of _ "0 :: nat"], simp)
  with s show ?thesis unfolding fixed_table_def by simp
qed

lemma example_firmware_sleep: "sleep_package example_firmware 0x4000 5 5"
proof -
  have "signature_at example_firmware 0x4000 ''DSDT''" "mem_u32 example_firmware (0x4000 + 4) = 64"
    "mem_bytes example_firmware (0x4000 + 36) (length (s5_package 6 [] 4 True 5 True 5)) = s5_package 6 [] 4 True 5 True 5"
    "length ([] :: u8 list) = unat (drop_bit 6 (6 :: u8))"
    by code_simp+
  then show ?thesis unfolding sleep_package_def
    by (intro conjI, simp, simp, intro exI[of _ "0 :: nat"], intro exI[of _ "6 :: u8"], intro exI[of _ "[] :: u8 list"],
        intro exI[of _ "4 :: u8"], intro exI[of _ True]) simp
qed

theorem power_off_correct_witness:
  "\<forall>p. \<exists>p'. recovery_power_off example_firmware p = Some p' \<and>
    written p' = written p @ [Word_Out 0x604 0x3400, Word_Out 0x604 0x2000, Word_Out 0xB004 0x2000, Word_Out 0x4004 0x3400]"
proof
  fix p
  have v: "mem_u32 example_firmware (0x9FC10 + 16) = 0x2000" "read32 example_firmware 0x3000 40 = 0x4000" "read32 example_firmware 0x3000 48 = 0"
    "read32 example_firmware 0x3000 64 = 0x604" "read32 example_firmware 0x3000 68 = 0" "sleep_write 0x604 5 = Word_Out 0x604 0x3400"
    by code_simp+
  have "fixed_table example_firmware (mem_u32 example_firmware (0x9FC10 + 16)) 0x3000" "sleep_package example_firmware (read32 example_firmware 0x3000 40) 5 5"
    "read32 example_firmware 0x3000 64 \<noteq> 0"
    using example_firmware_fixed example_firmware_sleep by (simp_all only: v) simp
  from power_off_correct[OF example_firmware_root this, of p]
  show "\<exists>p'. recovery_power_off example_firmware p = Some p' \<and>
    written p' = written p @ [Word_Out 0x604 0x3400, Word_Out 0x604 0x2000, Word_Out 0xB004 0x2000, Word_Out 0x4004 0x3400]"
    by (simp add: v enable_writes_def)
qed

text \<open>
  The search reads behind the table: the bound leaves room for nine bytes from the name on, but a
  package with prefixed values takes eleven, so the second sleep type may come from memory that does not
  belong to the table.
\<close>
theorem sleep_types_past_table:
  "\<exists>mem mem' dsdt. (\<forall>i < unat (mem_u32 mem (dsdt + 4)). mem' (dsdt + of_nat i) = mem (dsdt + of_nat i)) \<and>
     find_sleep_types mem dsdt = Some (5, 5) \<and> find_sleep_types mem' dsdt = Some (5, 1)"
proof -
  let ?mem = "example_firmware(0x4004 := 45)" and ?mem' = "example_firmware(0x4004 := 45, 0x402D := 1)"
  have l: "mem_u32 ?mem (0x4000 + 4) = 45" by code_simp
  have "find_sleep_types ?mem 0x4000 = Some (5, 5)" "find_sleep_types ?mem' 0x4000 = Some (5, 1)" by code_simp+
  moreover have "?mem' (0x4000 + of_nat i) = ?mem (0x4000 + of_nat i)" if "i < 45" for i
  proof -
    have "unat (0x4000 + of_nat i :: u32) = 0x4000 + i" using that by (simp add: unat_word_ariths unsigned_of_nat take_bit_eq_mod)
    then have "0x4000 + of_nat i \<noteq> (0x402D :: u32)" using that by auto
    then show ?thesis by simp
  qed
  then have "\<forall>i < unat (mem_u32 ?mem (0x4000 + 4)). ?mem' (0x4000 + of_nat i) = ?mem (0x4000 + of_nat i)" by (simp only: l) simp
  ultimately show ?thesis by blast
qed

end
