(* ===== verification/Recovery.thy ===== *)
theory Recovery
  imports Power_Off
begin

text \<open>
  The recovery mode, \<open>kernel/recovery.c\<close>: a menu on the text screen from which the factory image is installed,
  the file system erased, and the machine rebooted or switched off.

  The screen is a function from cell numbers, 80 to a row.  What the keyboard controller answers is a list with the
  status and the code of each poll; when the list has run out the program is still waiting for a key.  The drive, the
  memory with the boot loader's structures and the ports are those of \<open>Installer\<close> and \<open>Power_Off\<close>.
\<close>

section \<open>The screen\<close>

type_synonym screen_cells = "nat \<Rightarrow> u16"

abbreviation MENU_ROW :: nat where "MENU_ROW \<equiv> 3"
abbreviation ATTR_NORMAL :: u8 where "ATTR_NORMAL \<equiv> 0x07"
abbreviation ATTR_SELECTED :: u8 where "ATTR_SELECTED \<equiv> 0x70"
abbreviation ATTR_TITLE :: u8 where "ATTR_TITLE \<equiv> 0x1F"
abbreviation ATTR_WARNING :: u8 where "ATTR_WARNING \<equiv> 0x0E"
abbreviation ATTR_OK :: u8 where "ATTR_OK \<equiv> 0x0A"
abbreviation ATTR_ERROR :: u8 where "ATTR_ERROR \<equiv> 0x0C"
abbreviation ACTION_REBOOT :: nat where "ACTION_REBOOT \<equiv> 0"
abbreviation ACTION_FACTORY :: nat where "ACTION_FACTORY \<equiv> 1"
abbreviation ACTION_ERASE :: nat where "ACTION_ERASE \<equiv> 2"
abbreviation ACTION_POWER_OFF :: nat where "ACTION_POWER_OFF \<equiv> 3"
abbreviation ACTION_COUNT :: nat where "ACTION_COUNT \<equiv> 4"

definition items :: "string list" where
  "items = [''Reboot system now'', ''Reboot bootloader to factory conf'', ''Erase Katela filesystem'', ''Power off'']"

definition put_cell :: "nat \<Rightarrow> nat \<Rightarrow> u8 \<Rightarrow> u8 \<Rightarrow> screen_cells \<Rightarrow> screen_cells" where
  "put_cell x y c attr v = v(y * WIDTH + x := push_bit 8 (ucast attr) OR ucast c)"

definition fill_row :: "nat \<Rightarrow> u8 \<Rightarrow> screen_cells \<Rightarrow> screen_cells" where
  "fill_row y attr = fold (\<lambda>x. put_cell x y 32 attr) [0..<WIDTH]"

fun put_text :: "nat \<Rightarrow> nat \<Rightarrow> u8 list \<Rightarrow> u8 \<Rightarrow> screen_cells \<Rightarrow> screen_cells" where
  "put_text x y [] attr v = v"
| "put_text x y (c # cs) attr v = (if c \<noteq> 0 \<and> x < WIDTH then put_text (x + 1) y cs attr (put_cell x y c attr v) else v)"

definition clear_screen :: "screen_cells \<Rightarrow> screen_cells" where
  "clear_screen = fold (\<lambda>y. fill_row y ATTR_NORMAL) [0..<HEIGHT]"

fun number_digits :: "nat \<Rightarrow> u8 list" where
  "number_digits value = of_nat (48 + value mod 10) # (if value div 10 \<noteq> 0 then number_digits (value div 10) else [])"

declare number_digits.simps [simp del]

definition number_text :: "nat \<Rightarrow> u8 list" where
  "number_text value = rev (number_digits value)"

definition draw_item :: "nat \<Rightarrow> nat \<Rightarrow> screen_cells \<Rightarrow> screen_cells" where
  "draw_item selected i v =
     (let attr = (if i = selected then ATTR_SELECTED else ATTR_NORMAL)
      in put_text 3 (MENU_ROW + i) (lit (items ! i)) attr (fold (\<lambda>x. put_cell x (MENU_ROW + i) 32 attr) [2..<WIDTH - 2] v))"

definition draw_menu :: "nat \<Rightarrow> screen_cells \<Rightarrow> screen_cells" where
  "draw_menu selected v =
     (let v = put_text 1 0 (lit ''Kernel recovery mode'') ATTR_TITLE (fill_row 0 ATTR_TITLE (clear_screen v));
          v = fold (draw_item selected) [0..<ACTION_COUNT] v
      in put_text 2 (HEIGHT - 2) (lit ''Use the Up and Down keys to select an entry, Enter to run it.'') ATTR_NORMAL v)"

definition draw_progress :: "nat \<Rightarrow> nat \<Rightarrow> nat \<Rightarrow> screen_cells \<Rightarrow> screen_cells" where
  "draw_progress progress_row n all v =
     (let percent = (if all = 0 then 0 else n * 100 div all);
          bar_x = 3; bar_width = 50;
          filled = percent * bar_width div 100;
          v = fold (\<lambda>i. put_cell (bar_x + i) progress_row (if i < filled then 35 else 46) ATTR_NORMAL) [0..<bar_width] v
      in put_text (bar_x + bar_width + 2) progress_row (number_text percent @ [37, 32, 0]) ATTR_NORMAL v)"


section \<open>Keys\<close>

datatype key = KEY_NONE | KEY_UP | KEY_DOWN | KEY_ENTER | KEY_YES | KEY_OTHER

definition key_of_code :: "u8 \<Rightarrow> key" where
  "key_of_code code =
     (if code = 0x48 then KEY_UP else if code = 0x50 then KEY_DOWN else if code = 0x1C then KEY_ENTER
      else if code = 0x15 then KEY_YES else KEY_OTHER)"

fun read_key :: "(u8 \<times> u8) list \<Rightarrow> (key \<times> (u8 \<times> u8) list) option" where
  "read_key [] = None"
| "read_key ((status, code) # polls) =
     (if status AND 1 = 0 then Some (KEY_NONE, polls)
      else if status AND 0x20 \<noteq> 0 \<or> code = 0xE0 \<or> code AND 0x80 \<noteq> 0 then read_key polls
      else Some (key_of_code code, polls))"

lemma read_key_shorter: "read_key polls = Some (k, polls') \<Longrightarrow> length polls' < length polls"
  by (induction polls rule: read_key.induct) (auto split: if_splits)

function wait_key :: "(u8 \<times> u8) list \<Rightarrow> (key \<times> (u8 \<times> u8) list) option" where
  "wait_key polls =
     (case read_key polls of
        None \<Rightarrow> None
      | Some (k, polls) \<Rightarrow> if k \<noteq> KEY_NONE then Some (k, polls) else wait_key polls)"
  by pat_completeness auto

termination
  by (relation "measure length") (auto dest: read_key_shorter)

declare wait_key.simps [simp del]

lemma wait_key_shorter: "wait_key polls = Some (k, polls') \<Longrightarrow> length polls' < length polls"
proof (induction polls rule: wait_key.induct)
  case (1 polls)
  then show ?case
    by (subst (asm) (2) wait_key.simps) (fastforce split: option.splits if_splits dest: read_key_shorter)
qed


section \<open>The menu\<close>

record recovery =
  cells :: screen_cells
  cursor_start :: u8
  keys :: "(u8 \<times> u8) list"
  hard_disk :: ata_dev
  port_state :: ports
  multiboot_info :: u32
  ram :: "u32 \<Rightarrow> u8"
  stack :: "u8 list"

definition draw :: "(screen_cells \<Rightarrow> screen_cells) \<Rightarrow> recovery \<Rightarrow> recovery" where
  "draw f s = s\<lparr>cells := f (cells s)\<rparr>"

definition show_text :: "nat \<Rightarrow> string \<Rightarrow> u8 \<Rightarrow> recovery \<Rightarrow> recovery" where
  "show_text y str attr = draw (put_text 3 y (lit str) attr)"

definition hide_cursor :: "recovery \<Rightarrow> recovery" where
  "hide_cursor s = s\<lparr>cursor_start := 0x20\<rparr>"

text \<open>The next key; without one the program waits for ever in the state it is in.\<close>

definition next_key :: "recovery \<Rightarrow> key option \<times> recovery" where
  "next_key s = (case wait_key (keys s) of None \<Rightarrow> (None, s\<lparr>keys := []\<rparr>) | Some (k, polls) \<Rightarrow> (Some k, s\<lparr>keys := polls\<rparr>))"

text \<open>The two screens: whether they have returned, and the state.\<close>

definition any_key :: "nat \<Rightarrow> recovery \<Rightarrow> bool \<times> recovery" where
  "any_key row s = (let (k, s) = next_key (show_text row ''Press any key to return.'' ATTR_NORMAL s) in (k \<noteq> None, s))"

definition factory_screen :: "recovery \<Rightarrow> bool \<times> recovery" where
  "factory_screen s =
     (let row = MENU_ROW + ACTION_COUNT + 1; s = draw (draw_menu ACTION_FACTORY) s in
      if \<not> recovery_image_present (multiboot_info s) (ram s) then
        any_key (row + 1) (show_text row (recovery_install_text INSTALL_NO_IMAGE) ATTR_ERROR s)
      else
        let s = show_text row ''This writes the bootloader and the kernel to the first disk.'' ATTR_WARNING s;
            s = show_text (row + 1) ''Press Y to continue, any other key to cancel.'' ATTR_NORMAL s;
            (k, s) = next_key s in
        if k \<noteq> Some KEY_YES then (k \<noteq> None, s)
        else
          let s = show_text (row + 3) ''Installing, do not turn the power off...'' ATTR_NORMAL s;
              (result, disk, v) = recovery_install (multiboot_info s) (ram s) (stack s) (Some (draw_progress (row + 4))) (hard_disk s) (cells s);
              s = s\<lparr>hard_disk := disk, cells := v\<rparr>
          in any_key (row + 7) (show_text (row + 6) (recovery_install_text result) (if result = INSTALL_OK then ATTR_OK else ATTR_ERROR) s))"

definition erase_screen :: "recovery \<Rightarrow> bool \<times> recovery" where
  "erase_screen s =
     (let row = MENU_ROW + ACTION_COUNT + 1;
          s = draw (draw_menu ACTION_ERASE) s;
          s = show_text row ''This destroys all files on the Katela filesystem.'' ATTR_WARNING s;
          s = show_text (row + 1) ''The disk is formatted again on the next boot.'' ATTR_WARNING s;
          s = show_text (row + 2) ''Press Y to continue, any other key to cancel.'' ATTR_NORMAL s;
          (k, s) = next_key s in
      if k \<noteq> Some KEY_YES then (k \<noteq> None, s)
      else
        let (result, disk) = recovery_erase_fs (hard_disk s); s = s\<lparr>hard_disk := disk\<rparr>
        in any_key (row + 5)
             (if result = INSTALL_OK then show_text (row + 4) ''Filesystem erased.'' ATTR_OK s
              else show_text (row + 4) (recovery_install_text result) ATTR_ERROR s))"

text \<open>
  How the menu ends: with the reboot, with the machine off (or, \<open>None\<close>, with the search of the firmware's
  tables not returning), or it waits for a key.
\<close>

datatype fate = Waits | Reboots | Powers_Off "ports option"

lemma next_key_shorter: "next_key s = (Some k, s') \<Longrightarrow> length (keys s') < length (keys s)"
  by (auto simp: next_key_def dest: wait_key_shorter split: option.splits)

lemma next_key_length: "length (keys (snd (next_key s))) \<le> length (keys s)"
  by (auto simp: next_key_def dest: wait_key_shorter less_imp_le split: option.splits)

lemma draw_keys [simp]: "keys (draw f s) = keys s" "keys (show_text y str attr s) = keys s"
  by (simp_all add: draw_def show_text_def)

lemma any_key_length: "length (keys (snd (any_key row s))) \<le> length (keys s)"
  using next_key_length[of "show_text row ''Press any key to return.'' ATTR_NORMAL s"]
  by (simp add: any_key_def Let_def split_beta)

lemma screens_length:
  "factory_screen s = (b, s') \<Longrightarrow> length (keys s') \<le> length (keys s)"
  "erase_screen s = (b, s') \<Longrightarrow> length (keys s') \<le> length (keys s)"
proof -
  have a: "any_key row t = (b, s') \<Longrightarrow> length (keys s') \<le> length (keys t)" for row t using any_key_length[of row t] by simp
  have n: "next_key t = (k, u) \<Longrightarrow> length (keys u) \<le> length (keys t)" for t k u using next_key_length[of t] by simp
  show "factory_screen s = (b, s') \<Longrightarrow> length (keys s') \<le> length (keys s)"
    by (auto simp: factory_screen_def Let_def split: prod.splits if_splits dest!: a n)
  show "erase_screen s = (b, s') \<Longrightarrow> length (keys s') \<le> length (keys s)"
    by (auto simp: erase_screen_def Let_def split: prod.splits if_splits dest!: a n)
qed

function recovery_loop :: "nat \<Rightarrow> recovery \<Rightarrow> fate \<times> recovery" where
  "recovery_loop selected s =
     (case next_key s of
        (None, s) \<Rightarrow> (Waits, s)
      | (Some key, s) \<Rightarrow>
          if key = KEY_UP then
            let selected = (selected + ACTION_COUNT - 1) mod ACTION_COUNT in recovery_loop selected (draw (draw_menu selected) s)
          else if key = KEY_DOWN then
            let selected = (selected + 1) mod ACTION_COUNT in recovery_loop selected (draw (draw_menu selected) s)
          else if key = KEY_ENTER then
            if selected = ACTION_REBOOT then (Reboots, s\<lparr>port_state := recovery_reboot (port_state s)\<rparr>)
            else if selected = ACTION_POWER_OFF then (Powers_Off (recovery_power_off (ram s) (port_state s)), s)
            else
              (case (if selected = ACTION_ERASE then erase_screen s else factory_screen s) of
                 (True, s) \<Rightarrow> recovery_loop selected (draw (draw_menu selected) s)
               | (False, s) \<Rightarrow> (Waits, s))
          else recovery_loop selected s)"
  by pat_completeness auto

termination
  by (relation "measure (\<lambda>(_, s). length (keys s))") (auto dest!: next_key_shorter[OF sym] screens_length[OF sym] split: if_splits)

declare recovery_loop.simps [simp del]

definition recovery_main :: "recovery \<Rightarrow> fate \<times> recovery" where
  "recovery_main s = recovery_loop 0 (draw (draw_menu 0) (hide_cursor s))"


section \<open>Whether the recovery mode is asked for\<close>

fun match_length :: "u8 list \<Rightarrow> u8 list \<Rightarrow> nat" where
  "match_length (c # cs) (d # ds) = (if d \<noteq> 0 \<and> c = d then Suc (match_length cs ds) else 0)"
| "match_length _ _ = 0"

text \<open>The words of a text are what lies between blanks; \<open>str\<close> is what is left of it.\<close>

lemma has_word_shorter:
  fixes str :: "u8 list"
  assumes "str \<noteq> []" "hd str \<noteq> 0"
  shows "length (drop (length (takeWhile (\<lambda>c. c \<noteq> 0 \<and> c \<noteq> 32) (dropWhile (\<lambda>c. c = 32) str))) (dropWhile (\<lambda>c. c = 32) str)) < length str"
  using assms length_dropWhile_le[of "\<lambda>c. c = 32"] by (cases str) (auto simp: le_imp_less_Suc less_Suc_eq_le intro: le_trans[OF diff_le_self])

function has_word :: "u8 list \<Rightarrow> u8 list \<Rightarrow> bool" where
  "has_word str word =
     (if str = [] \<or> hd str = 0 then False
      else
        let str = dropWhile (\<lambda>c. c = 32) str;
            token = takeWhile (\<lambda>c. c \<noteq> 0 \<and> c \<noteq> 32) str;
            j = match_length token word
        in if j = length token \<and> word ! j = 0 then True else has_word (drop (length token) str) word)"
  by pat_completeness auto

termination
  by (relation "measure (\<lambda>(str, _). length str)") (use has_word_shorter in \<open>simp_all\<close>)

declare has_word.simps [simp del]

text \<open>The string at an address, up to and with its terminating 0.\<close>

partial_function (option) mem_string :: "(u32 \<Rightarrow> u8) \<Rightarrow> u32 \<Rightarrow> u8 list option" where
  "mem_string mem a = (if mem a = 0 then Some [0] else do { cs \<leftarrow> mem_string mem (a + 1); Some (mem a # cs) })"

definition recovery_requested :: "u32 \<Rightarrow> u32 \<Rightarrow> (u32 \<Rightarrow> u8) \<Rightarrow> bool option" where
  "recovery_requested magic info mem =
     (if magic \<noteq> 0x2BADB002 \<or> info = 0 then Some False
      else if info_flags mem info AND 4 = 0 \<or> mem_u32 mem (info + 16) = 0 then Some False
      else map_option (\<lambda>cmdline. has_word cmdline (lit ''recovery'')) (mem_string mem (mem_u32 mem (info + 16))))"


section \<open>What is drawn\<close>

definition inside_screen :: "(screen_cells \<Rightarrow> screen_cells) \<Rightarrow> bool" where
  "inside_screen f \<longleftrightarrow> (\<forall>v i. WIDTH * HEIGHT \<le> i \<longrightarrow> f v i = v i)"

named_theorems drawing

lemma inside_put_cell [drawing]: "x < WIDTH \<Longrightarrow> y < HEIGHT \<Longrightarrow> inside_screen (put_cell x y c attr)"
  by (auto simp: inside_screen_def put_cell_def)

lemma inside_comp: "inside_screen f \<Longrightarrow> inside_screen g \<Longrightarrow> inside_screen (\<lambda>v. f (g v))"
  by (simp add: inside_screen_def)

lemma inside_fold [drawing]: "(\<And>x. x \<in> set xs \<Longrightarrow> inside_screen (f x)) \<Longrightarrow> inside_screen (fold f xs)"
  by (induction xs) (simp_all add: inside_screen_def)

lemma inside_put_text [drawing]: "y < HEIGHT \<Longrightarrow> inside_screen (put_text x y str attr)"
proof -
  assume y: "y < HEIGHT"
  have "put_text x y str attr v i = v i" if "WIDTH * HEIGHT \<le> i" for v i
    using that y by (induction x y str attr v rule: put_text.induct) (auto simp: put_cell_def)
  then show ?thesis by (simp add: inside_screen_def)
qed

lemma inside_fill_row [drawing]: "y < HEIGHT \<Longrightarrow> inside_screen (fill_row y attr)"
  by (auto simp: fill_row_def intro!: drawing)

lemma inside_clear_screen [drawing]: "inside_screen clear_screen"
  by (auto simp: clear_screen_def intro!: drawing)

lemma inside_draw_item [drawing]: "i < ACTION_COUNT \<Longrightarrow> inside_screen (draw_item selected i)"
  unfolding draw_item_def Let_def by (rule inside_comp[OF inside_put_text inside_fold]) (auto intro!: drawing)

lemma inside_draw_menu [drawing]: "inside_screen (draw_menu selected)"
  unfolding draw_menu_def Let_def
  by (rule inside_comp[OF inside_put_text inside_comp[OF inside_fold inside_comp[OF inside_put_text
        inside_comp[OF inside_fill_row inside_clear_screen]]]]) (auto intro: inside_draw_item)

lemma inside_draw_progress [drawing]: "row < HEIGHT \<Longrightarrow> inside_screen (draw_progress row n all)"
  unfolding draw_progress_def Let_def by (auto intro!: inside_comp[of "put_text _ _ _ _"] drawing)

text \<open>The installer draws with its progress call only.\<close>

lemma install_write_draws:
  assumes f: "\<And>n all v. P v \<Longrightarrow> P (f n all v)"
  shows "P s \<Longrightarrow> install_write k lba n mem img (Some f) h s = (ok, n', h', s') \<Longrightarrow> P s'"
proof (induction k arbitrary: lba n h s)
  case (Suc k)
  then show ?case using Suc.IH[OF f[OF Suc.prems(1)]] by (auto simp: Let_def report_def split: prod.splits if_splits)
qed simp

lemma install_verify_draws:
  assumes f: "\<And>n all v. P v \<Longrightarrow> P (f n all v)"
  shows "P s \<Longrightarrow> install_verify k lba n buf mem img (Some f) h s = (ok, h', s') \<Longrightarrow> P s'"
proof (induction k arbitrary: lba n buf h s)
  case (Suc k)
  then show ?case using Suc.IH[OF f[OF Suc.prems(1)]] Suc.IH[OF Suc.prems(1)] by (auto simp: Let_def report_def split: prod.splits if_splits)
qed simp

lemma recovery_install_draws:
  assumes f: "\<And>n all v. P v \<Longrightarrow> P (f n all v)" and P: "P s"
    and r: "recovery_install info mem stk (Some f) h s = (r, h', s')"
  shows "P s'"
proof -
  let ?img = "find_image info mem"
  obtain n0 h1 where t: "ata_total_sectors h = (n0, h1)" by fastforce
  obtain ok2 n2 h2 s2 where w: "install_write (FACTORY_SECTORS div CHUNK_SECTORS) 0 0 mem ?img (Some f) h1 s = (ok2, n2, h2, s2)" by (metis prod_cases4)
  obtain ok3 h3 s3 where v: "install_verify FACTORY_SECTORS 0 n2 stk mem ?img (Some f) h2 s2 = (ok3, h3, s3)" by (metis prod_cases3)
  have "P s2" by (rule install_write_draws[where P = P, OF f P w])
  moreover from install_verify_draws[where P = P, OF f this v] have "P s3" .
  ultimately show ?thesis
    using r P unfolding recovery_install_def Let_def t w v prod.case by (simp split: if_splits)
qed


section \<open>What happens to the disk\<close>

definition yes_pressed :: "(u8 \<times> u8) list \<Rightarrow> bool" where
  "yes_pressed = list_ex (\<lambda>(status, code). status AND 1 \<noteq> 0 \<and> status AND 0x20 = 0 \<and> code = 0x15)"

lemma read_key_yes: "read_key polls = Some (k, polls') \<Longrightarrow> set polls' \<subseteq> set polls \<and> (k = KEY_YES \<longrightarrow> yes_pressed polls)"
  by (induction polls rule: read_key.induct) (auto simp: yes_pressed_def key_of_code_def split: if_splits)

lemma yes_mono: "set p \<subseteq> set q \<Longrightarrow> yes_pressed p \<Longrightarrow> yes_pressed q"
  by (auto simp: yes_pressed_def list_ex_iff)

lemma wait_key_yes: "wait_key polls = Some (k, polls') \<Longrightarrow> set polls' \<subseteq> set polls \<and> (k = KEY_YES \<longrightarrow> yes_pressed polls)"
proof (induction polls rule: wait_key.induct)
  case (1 polls)
  from 1(2) obtain k1 p1 where r: "read_key polls = Some (k1, p1)" by (subst (asm) wait_key.simps) (auto split: option.splits)
  show ?case
  proof (cases "k1 = KEY_NONE")
    case True
    then have "wait_key p1 = Some (k, polls')" using 1(2) r by (subst (asm) wait_key.simps) simp
    from 1(1)[OF r refl _ this] show ?thesis using True read_key_yes[OF r] yes_mono by blast
  next
    case False
    then show ?thesis using 1(2) r read_key_yes[OF r] by (subst (asm) wait_key.simps) simp
  qed
qed

text \<open>
  From one state to a later one: nothing outside the screen and behind sector 4096 has changed, and
  without the confirming key nothing on the disk has.
\<close>

definition recovery_ok :: "recovery \<Rightarrow> bool" where
  "recovery_ok s \<longleftrightarrow> ata_ok (hard_disk s) \<and> length (stack s) = 512"

definition guarded :: "recovery \<Rightarrow> recovery \<Rightarrow> bool" where
  "guarded s s' \<longleftrightarrow> recovery_ok s' \<and> set (keys s') \<subseteq> set (keys s) \<and>
     (\<forall>i \<ge> WIDTH * HEIGHT. cells s' i = cells s i) \<and> (\<forall>i > 4096. ata_medium (hard_disk s') i = ata_medium (hard_disk s) i) \<and>
     (\<not> yes_pressed (keys s) \<longrightarrow> ata_medium (hard_disk s') = ata_medium (hard_disk s))"

lemma guarded_trans: "guarded s t \<Longrightarrow> guarded t u \<Longrightarrow> guarded s u"
  using yes_mono[of "keys t" "keys s"] by (auto simp: guarded_def)

lemma guarded_draw: "recovery_ok s \<Longrightarrow> inside_screen f \<Longrightarrow> guarded s (draw f s)"
  by (simp add: guarded_def draw_def recovery_ok_def inside_screen_def)

lemma guarded_show: "recovery_ok s \<Longrightarrow> y < HEIGHT \<Longrightarrow> guarded s (show_text y str attr s)"
  unfolding show_text_def by (intro guarded_draw drawing)

lemma guarded_key: "recovery_ok s \<Longrightarrow> next_key s = (k, s') \<Longrightarrow> guarded s s' \<and> (k = Some KEY_YES \<longrightarrow> yes_pressed (keys s))"
  using wait_key_yes[of "keys s"] by (cases "wait_key (keys s)") (auto simp: next_key_def guarded_def recovery_ok_def)

lemma guarded_ok: "guarded s s' \<Longrightarrow> recovery_ok s'"
  by (simp add: guarded_def)

lemma guarded_any_key:
  assumes ok: "recovery_ok s" "row < HEIGHT" and r: "any_key row s = (b, s')"
  shows "guarded s s'"
proof -
  let ?t = "show_text row ''Press any key to return.'' ATTR_NORMAL s"
  obtain k u where u: "next_key ?t = (k, u)" by fastforce
  have g: "guarded s ?t" by (rule guarded_show[OF ok])
  from guarded_key[OF guarded_ok[OF g] u] have "guarded s u" using guarded_trans[OF g] by blast
  moreover have "u = s'" using r u by (simp add: any_key_def Let_def)
  ultimately show ?thesis by simp
qed

lemma guarded_erase:
  assumes ok: "recovery_ok s" and yes: "yes_pressed (keys s0)" and g: "guarded s0 s" and r: "recovery_erase_fs (hard_disk s) = (x, disk)"
  shows "guarded s0 (s\<lparr>hard_disk := disk\<rparr>)"
  using recovery_erase_spec[OF _ r] ok yes g by (auto simp: guarded_def recovery_ok_def)

lemma guarded_install:
  assumes ok: "recovery_ok s" and yes: "yes_pressed (keys s0)" and g: "guarded s0 s" and row: "row < HEIGHT"
    and r: "recovery_install (multiboot_info s) (ram s) (stack s) (Some (draw_progress row)) (hard_disk s) (cells s) = (x, disk, v)"
  shows "guarded s0 (s\<lparr>hard_disk := disk, cells := v\<rparr>)"
proof -
  let ?P = "\<lambda>v. \<forall>i \<ge> WIDTH * HEIGHT. v i = cells s i"
  have "?P (draw_progress row n all w)" if "?P w" for n all w
    using inside_draw_progress[OF row, of n all] that by (simp add: inside_screen_def)
  from recovery_install_draws[where P = ?P, OF this _ r] have c: "?P v" by simp
  have "ata_ok disk" "\<forall>i > 4096. ata_medium disk i = ata_medium (hard_disk s) i"
    using recovery_install_spec[OF _ _ r] ok by (auto simp: recovery_ok_def)
  then show ?thesis using ok yes g c by (auto simp: guarded_def recovery_ok_def)
qed

lemma guarded_erase_screen:
  assumes ok: "recovery_ok s" and r: "erase_screen s = (b, s')"
  shows "guarded s s'"
proof -
  define t where "t = show_text 10 ''Press Y to continue, any other key to cancel.'' ATTR_NORMAL
    (show_text 9 ''The disk is formatted again on the next boot.'' ATTR_WARNING
    (show_text 8 ''This destroys all files on the Katela filesystem.'' ATTR_WARNING (draw (draw_menu ACTION_ERASE) s)))"
  have t: "guarded s t" unfolding t_def
    by (rule guarded_trans[OF guarded_trans[OF guarded_trans[OF guarded_draw[OF ok inside_draw_menu] guarded_show] guarded_show] guarded_show])
      (auto intro!: guarded_ok[OF guarded_draw] guarded_ok[OF guarded_show] inside_draw_menu ok)
  obtain k u where u: "next_key t = (k, u)" by fastforce
  have U: "guarded t u" "k = Some KEY_YES \<longrightarrow> yes_pressed (keys t)" using guarded_key[OF guarded_ok[OF t] u] by simp_all
  have su: "guarded s u" by (rule guarded_trans[OF t U(1)])
  obtain x disk where e: "recovery_erase_fs (hard_disk u) = (x, disk)" by fastforce
  let ?w = "u\<lparr>hard_disk := disk\<rparr>"
  define z where "z = (if x = INSTALL_OK then show_text 12 ''Filesystem erased.'' ATTR_OK ?w else show_text 12 (recovery_install_text x) ATTR_ERROR ?w)"
  have eq: "(b, s') = (if k \<noteq> Some KEY_YES then (k \<noteq> None, u) else any_key 13 z)"
    using r by (simp add: erase_screen_def Let_def t_def[symmetric] u e z_def cong: if_cong)
  show ?thesis
  proof (cases "k = Some KEY_YES")
    case True
    have y: "yes_pressed (keys s)" using U(2) True yes_mono t by (auto simp: guarded_def)
    have w: "guarded s ?w" by (rule guarded_erase[OF guarded_ok[OF su] y su e])
    have z: "guarded s z" unfolding z_def by (auto intro!: guarded_trans[OF w] guarded_show guarded_ok[OF w])
    have "any_key 13 z = (b, s')" using eq True by simp
    from guarded_any_key[OF guarded_ok[OF z] _ this] show ?thesis using guarded_trans[OF z] by simp
  next
    case False
    then show ?thesis using eq su by simp
  qed
qed

lemma guarded_factory_screen:
  assumes ok: "recovery_ok s" and r: "factory_screen s = (b, s')"
  shows "guarded s s'"
proof -
  define m where "m = draw (draw_menu ACTION_FACTORY) s"
  define n where "n = show_text 8 (recovery_install_text INSTALL_NO_IMAGE) ATTR_ERROR m"
  define t where "t = show_text 9 ''Press Y to continue, any other key to cancel.'' ATTR_NORMAL
    (show_text 8 ''This writes the bootloader and the kernel to the first disk.'' ATTR_WARNING m)"
  have m: "guarded s m" unfolding m_def by (rule guarded_draw[OF ok inside_draw_menu])
  have n: "guarded s n" unfolding n_def by (rule guarded_trans[OF m]) (auto intro!: guarded_show guarded_ok[OF m])
  have t: "guarded s t" unfolding t_def
    by (rule guarded_trans[OF guarded_trans[OF m guarded_show] guarded_show]) (auto intro!: guarded_ok[OF guarded_show] guarded_ok[OF m])
  obtain k u where u: "next_key t = (k, u)" by fastforce
  have U: "guarded t u" "k = Some KEY_YES \<longrightarrow> yes_pressed (keys t)" using guarded_key[OF guarded_ok[OF t] u] by simp_all
  have su: "guarded s u" by (rule guarded_trans[OF t U(1)])
  define w where "w = show_text 11 ''Installing, do not turn the power off...'' ATTR_NORMAL u"
  have w: "guarded s w" unfolding w_def by (rule guarded_trans[OF su]) (auto intro!: guarded_show guarded_ok[OF su])
  obtain x disk v where i: "recovery_install (multiboot_info w) (ram w) (stack w) (Some (draw_progress 12)) (hard_disk w) (cells w) = (x, disk, v)"
    by (metis prod_cases3)
  let ?y = "w\<lparr>hard_disk := disk, cells := v\<rparr>"
  define z where "z = show_text 14 (recovery_install_text x) (if x = INSTALL_OK then ATTR_OK else ATTR_ERROR) ?y"
  have rows: "MENU_ROW + ACTION_COUNT + 1 = 8" "8 + 1 = (9 :: nat)" "8 + 3 = (11 :: nat)" "8 + 4 = (12 :: nat)" "8 + 6 = (14 :: nat)" "8 + 7 = (15 :: nat)"
    by simp_all
  have eq: "(if \<not> recovery_image_present (multiboot_info m) (ram m) then any_key 9 n
      else if k \<noteq> Some KEY_YES then (k \<noteq> None, u) else any_key 15 z) = (b, s')"
    using r unfolding factory_screen_def Let_def rows m_def[symmetric] n_def[symmetric] t_def[symmetric] u prod.case w_def[symmetric] i z_def .
  consider "any_key 9 n = (b, s')" | "s' = u" | "k = Some KEY_YES" "any_key 15 z = (b, s')" using eq by (auto split: if_splits)
  then show ?thesis
  proof cases
    case 1
    from guarded_any_key[OF guarded_ok[OF n] _ this] show ?thesis using guarded_trans[OF n] by simp
  next
    case 2
    then show ?thesis using su by simp
  next
    case 3
    have y: "yes_pressed (keys s)" using U(2) 3(1) yes_mono t by (auto simp: guarded_def)
    have g: "guarded s ?y" by (rule guarded_install[OF guarded_ok[OF w] y w _ i]) simp
    have z: "guarded s z" unfolding z_def by (rule guarded_trans[OF g]) (auto intro!: guarded_show guarded_ok[OF g])
    from guarded_any_key[OF guarded_ok[OF z] _ 3(2)] show ?thesis using guarded_trans[OF z] by simp
  qed
qed

lemma guarded_loop: "recovery_ok s \<Longrightarrow> recovery_loop selected s = (fate, s') \<Longrightarrow> guarded s s'"
proof (induction "length (keys s)" arbitrary: selected s rule: less_induct)
  case less
  obtain k t where t: "next_key s = (k, t)" by fastforce
  have st: "guarded s t" using guarded_key[OF less.prems(1) t] by blast
  obtain b u where u: "(if selected = ACTION_ERASE then erase_screen t else factory_screen t) = (b, u)" by fastforce
  then have tu: "guarded t u" "length (keys u) \<le> length (keys t)"
    using guarded_erase_screen[OF guarded_ok[OF st]] guarded_factory_screen[OF guarded_ok[OF st]] screens_length by (auto split: if_splits)
  have again: "guarded s s'" if k: "k \<noteq> None" and g: "guarded t v" "length (keys v) \<le> length (keys t)" and l: "recovery_loop n v = (fate, s')" for n v
  proof -
    have sv: "guarded s v" by (rule guarded_trans[OF st g(1)])
    have "length (keys v) < length (keys s)" using g(2) next_key_shorter[of s _ t] t k by fastforce
    from less.hyps[OF this guarded_ok[OF sv] l] show ?thesis by (rule guarded_trans[OF sv])
  qed
  have drawn: "guarded t (draw (draw_menu n) v)" if "guarded t v" for n v
    by (rule guarded_trans[OF that guarded_draw[OF guarded_ok[OF that] inside_draw_menu]])
  have tt: "guarded t t" using guarded_ok[OF st] by (simp add: guarded_def)
  have ports: "guarded s (t\<lparr>port_state := p\<rparr>)" for p using st by (simp add: guarded_def recovery_ok_def)
  have e: "(case k of None \<Rightarrow> (Waits, t)
      | Some key \<Rightarrow>
          if key = KEY_UP then recovery_loop ((selected + 4 - 1) mod 4) (draw (draw_menu ((selected + 4 - 1) mod 4)) t)
          else if key = KEY_DOWN then recovery_loop ((selected + 1) mod 4) (draw (draw_menu ((selected + 1) mod 4)) t)
          else if key = KEY_ENTER then
            if selected = 0 then (Reboots, t\<lparr>port_state := recovery_reboot (port_state t)\<rparr>)
            else if selected = 3 then (Powers_Off (recovery_power_off (ram t) (port_state t)), t)
            else case b of True \<Rightarrow> recovery_loop selected (draw (draw_menu selected) u) | False \<Rightarrow> (Waits, u)
          else recovery_loop selected t) = (fate, s')"
    using less.prems(2) unfolding recovery_loop.simps[of selected s] t prod.case u Let_def .
  show ?case
    using e again[OF _ drawn[OF tt]] again[OF _ drawn[OF tu(1)]] again[OF _ tt] tu st ports guarded_trans[OF st tu(1)]
    by (cases k) (auto split: if_splits bool.splits)
qed

text \<open>
  C33. Nothing is destroyed without confirmation: whatever keys are pressed, the recovery mode changes no sector
  behind 4096 and writes to no memory behind the screen; and as long as the key Y has not been pressed, no sector
  of the disk is changed.
\<close>
theorem recovery_needs_confirmation:
  assumes ok: "ata_ok (hard_disk s)" "length (stack s) = 512" and r: "recovery_main s = (fate, s')"
  shows "(\<forall>i > 4096. ata_medium (hard_disk s') i = ata_medium (hard_disk s) i) \<and> (\<forall>i \<ge> 2000. cells s' i = cells s i) \<and>
    (\<not> yes_pressed (keys s) \<longrightarrow> ata_medium (hard_disk s') = ata_medium (hard_disk s))"
proof -
  have h: "recovery_ok (hide_cursor s)" using ok by (simp add: recovery_ok_def hide_cursor_def)
  have g: "guarded (hide_cursor s) (draw (draw_menu 0) (hide_cursor s))" by (rule guarded_draw[OF h inside_draw_menu])
  have "guarded (hide_cursor s) s'"
    using guarded_trans[OF g guarded_loop[OF guarded_ok[OF g]]] r by (simp add: recovery_main_def)
  then show ?thesis by (simp add: guarded_def hide_cursor_def)
qed

text \<open>Down, down, Enter on the entry that erases, then a key other than Y.\<close>

theorem recovery_needs_confirmation_witness:
  "\<forall>feed identify (s0 :: recovery). let s = s0\<lparr>hard_disk := example_drive feed identify, stack := replicate 512 0,
       keys := [(1, 0x50), (1, 0x50), (1, 0x1C), (1, 0x31)]\<rparr>
     in ata_medium (hard_disk (snd (recovery_main s))) = ata_medium (example_drive feed identify)"
proof (intro allI)
  fix feed identify and s0 :: recovery
  let ?s = "s0\<lparr>hard_disk := example_drive feed identify, stack := replicate 512 0, keys := [(1, 0x50), (1, 0x50), (1, 0x1C), (1, 0x31)]\<rparr>"
  have ok: "ata_ok (hard_disk ?s)" "length (stack ?s) = 512" by (simp_all add: ata_ok_def example_drive_def)
  have y: "\<not> yes_pressed (keys ?s)" by (simp add: yes_pressed_def)
  obtain fate s' where r: "recovery_main ?s = (fate, s')" by fastforce
  show "let s = ?s in ata_medium (hard_disk (snd (recovery_main s))) = ata_medium (example_drive feed identify)"
    using recovery_needs_confirmation[OF ok r] y by (simp add: r)
qed


section \<open>The words of the command line\<close>

text \<open>What lies between the blanks of a text.\<close>

fun split_blank :: "u8 list \<Rightarrow> u8 list list" where
  "split_blank [] = [[]]"
| "split_blank (c # cs) = (if c = 32 then [] # split_blank cs else (c # hd (split_blank cs)) # tl (split_blank cs))"

lemma split_blank_not_empty: "split_blank cs \<noteq> []"
  by (cases cs) auto

lemma split_blank_token: "32 \<notin> set token \<Longrightarrow> split_blank (token @ rest) = (token @ hd (split_blank rest)) # tl (split_blank rest)"
  by (induction token) (auto simp: split_blank_not_empty)

lemma split_blank_skip: "w \<noteq> [] \<Longrightarrow> w \<in> set (split_blank (dropWhile (\<lambda>c. c = 32) cs)) \<longleftrightarrow> w \<in> set (split_blank cs)"
  by (induction cs) auto

lemma match_length_cstr:
  "is_cstr word \<Longrightarrow> 0 \<notin> set token \<Longrightarrow> match_length token word = length token \<and> word ! match_length token word = 0 \<longleftrightarrow> token = cstr word"
proof (induction token arbitrary: word)
  case Nil
  then show ?case by (cases word) (auto simp: cstr_Cons is_cstr_def)
next
  case (Cons c token)
  then show ?case by (cases word) (auto simp: cstr_Cons is_cstr_Cons is_cstr_def[of "[]"])
qed

lemma cstr_dropWhile: "cstr (dropWhile (\<lambda>c. c = 32) str) = dropWhile (\<lambda>c. c = 32) (cstr str)"
  by (induction str) (auto simp: cstr_def)

lemma cstr_token: "takeWhile (\<lambda>c. c \<noteq> 0 \<and> c \<noteq> 32) str = takeWhile (\<lambda>c. c \<noteq> 32) (cstr str)"
  by (induction str) (auto simp: cstr_def)

lemma cstr_drop_token: "cstr (drop (length (takeWhile (\<lambda>c. c \<noteq> 0 \<and> c \<noteq> 32) str)) str) = dropWhile (\<lambda>c. c \<noteq> 32) (cstr str)"
  by (induction str) (auto simp: cstr_def)

lemma is_cstr_parts:
  "is_cstr str \<Longrightarrow> is_cstr (dropWhile (\<lambda>c. c = 32) str)"
  "is_cstr str \<Longrightarrow> is_cstr (drop (length (takeWhile (\<lambda>c. c \<noteq> 0 \<and> c \<noteq> 32) str)) str)"
  by (induction str) (auto simp: is_cstr_Cons)

lemma has_word_exact:
  assumes w: "is_cstr word" "cstr word \<noteq> []" "32 \<notin> set (cstr word)"
  shows "is_cstr str \<Longrightarrow> has_word str word \<longleftrightarrow> cstr word \<in> set (split_blank (cstr str))"
proof (induction "length str" arbitrary: str rule: less_induct)
  case less
  show ?case
  proof (cases "str = [] \<or> hd str = 0")
    case True
    then have "cstr str = []" by (cases str) (auto simp: cstr_def)
    then show ?thesis using True w by (subst has_word.simps) simp
  next
    case False
    define s where "s = dropWhile (\<lambda>c. c = 32) str"
    define token where "token = takeWhile (\<lambda>c. c \<noteq> 0 \<and> c \<noteq> 32) s"
    define rest where "rest = drop (length token) s"
    have shorter: "length rest < length str" unfolding rest_def token_def s_def by (rule has_word_shorter) (use False in simp_all)
    have tok: "0 \<notin> set token" "32 \<notin> set token" unfolding token_def by (auto dest: set_takeWhileD)
    have cs: "cstr s = token @ cstr rest" "cstr rest = [] \<or> hd (cstr rest) = 32"
      unfolding rest_def token_def cstr_drop_token unfolding cstr_token
      using hd_dropWhile[of "\<lambda>c. c \<noteq> 32" "cstr s"] by auto
    have "is_cstr rest" unfolding rest_def token_def s_def by (intro is_cstr_parts less.prems)
    then have ih: "has_word rest word \<longleftrightarrow> cstr word \<in> set (split_blank (cstr rest))" by (rule less.hyps[OF shorter])
    have "has_word str word \<longleftrightarrow> token = cstr word \<or> has_word rest word"
      using False match_length_cstr[OF w(1) tok(1)] unfolding has_word.simps[of str] Let_def s_def[symmetric] token_def[symmetric] rest_def[symmetric] by auto
    also have "\<dots> \<longleftrightarrow> cstr word \<in> set (split_blank (token @ cstr rest))"
      unfolding ih split_blank_token[OF tok(2)] using cs(2) w(2) by (cases "cstr rest") auto
    also have "\<dots> \<longleftrightarrow> cstr word \<in> set (split_blank (cstr str))"
      unfolding cs(1)[symmetric] unfolding s_def cstr_dropWhile by (rule split_blank_skip[OF w(2)])
    finally show ?thesis .
  qed
qed

lemma mem_string_bytes: "mem_bytes mem a (length l + 1) = l @ [0] \<Longrightarrow> 0 \<notin> set l \<Longrightarrow> mem_string mem a = Some (l @ [0])"
proof (induction l arbitrary: a)
  case Nil
  then show ?case by (subst mem_string.simps) (simp add: mem_bytes_def)
next
  case (Cons c l)
  have "mem_bytes mem a (1 + (length l + 1)) = mem_bytes mem a 1 @ mem_bytes mem (a + of_nat 1) (length l + 1)" by (rule mem_bytes_add)
  then have "mem a = c" "mem_bytes mem (a + 1) (length l + 1) = l @ [0]" using Cons.prems(1) by (simp_all add: mem_bytes_def)
  then show ?case using Cons by (subst mem_string.simps) simp
qed

text \<open>
  The recovery mode is entered exactly when the loader passes a command line one of whose words,
  separated by blanks, is \<open>recovery\<close>.
\<close>
theorem recovery_requested_exact:
  assumes "info \<noteq> 0" "info_flags mem info AND 4 \<noteq> 0" "mem_u32 mem (info + 16) \<noteq> 0"
    and l: "mem_bytes mem (mem_u32 mem (info + 16)) (length l + 1) = l @ [0]" "0 \<notin> set l"
  shows "recovery_requested 0x2BADB002 info mem = Some (map of_char ''recovery'' \<in> set (split_blank l))"
proof -
  have w: "is_cstr (lit ''recovery'')" "cstr (lit ''recovery'') = map of_char ''recovery''" by (simp_all add: lit_def is_cstr_def cstr_def)
  have c: "is_cstr (l @ [0])" "cstr (l @ [0]) = l" using l(2) by (auto simp: is_cstr_def cstr_def takeWhile_append)
  have "has_word (l @ [0]) (lit ''recovery'') \<longleftrightarrow> map of_char ''recovery'' \<in> set (split_blank l)"
    using has_word_exact[OF w(1) _ _ c(1)] unfolding w(2) c(2) by simp
  then show ?thesis using assms(1-3) mem_string_bytes[OF l] by (simp add: recovery_requested_def)
qed

end
