(* ===== verification/Spec2Isabelle.thy ===== *)
theory Spec2Isabelle
  imports Mem Mm Scheduler Irq Net_Service Crc32 Base64 Sha1 Sha256 Lz4 Lz4hc Fs_Mount Fs_List Vga Keyboard Installer Shell_Correct Recovery
begin

text \<open>
  Katela is a small x86 kernel in C: boot code and descriptor tables, interrupt dispatch, a preemptive
  scheduler with wait queues, semaphores and mutexes, a heap, drivers for disks, a network card, the
  text console and the keyboard, a file system, a network stack with a service on top, a shell, a
  recovery mode with an installer, and a library of compression and hash routines.  This development models
  its C sources and proves what makes each part correct.  Paths below are under \<open>src/\<close>.

  \<^bold>\<open>How C becomes HOL.\<close>  An unsigned integer of \<open>w\<close> bits is a \<open>w word\<close>; where a quantity is used only
  below its range (sector numbers, sizes, positions in a buffer) it is a natural number with
  the reduction modulo \<open>2 ^ 32\<close> written out where it may matter.  A buffer is a list of bytes, a C string such a
  list with its terminating 0, a structure a record, an enumeration a datatype.  Static variables are a
  record that is passed along and returned.  A negative return code is \<open>Inl\<close> of an error of the datatype
  with the source's names; a panic is a value of its own.  A loop is a structural recursion on the number
  of rounds left, a \<open>function\<close> with a measure, or a \<open>partial_function\<close> in the option type, and then the theorem says
  that it returns.  Hardware is what its documentation promises and otherwise arbitrary: the answers
  of the ports are functions of time or lists, and every theorem holds for all of them.

  \<^bold>\<open>Foundations.\<close>
  \<^item> \<open>Prelude\<close>: integer types, writing and cutting buffers, the collections \<open>layout_simps\<close> and \<open>word_bridge\<close>.
  \<^item> \<open>Mem\<close> (\<open>src/kernel/mem.c\<close>): copying (also of overlapping regions), filling, comparing, C strings.
  \<^item> \<open>Byteorder\<close>, \<open>Checksum\<close>, \<open>Addr\<close> (\<open>net/byteorder.h\<close>, \<open>net/checksum.c\<close>, \<open>net/addr.c\<close>).

  \<^bold>\<open>Heap.\<close>  \<open>Mm\<close> (\<open>src/kernel/mm.c\<close>) has the list of blocks in a map from addresses.  The invariant \<open>heap_wf\<close> says that the
  blocks tile the heap; \<open>kmalloc\<close> and \<open>kfree\<close> refine an allocator on a list of cells, and any sequence of
  requests keeps the live regions disjoint.

  \<^bold>\<open>Scheduler.\<close>  \<open>Wait_Queue\<close> states FIFO queues as the locale \<open>fifo_queues\<close>, interpreted as \<open>wq\<close> on the linked queues of
  \<open>src/kernel/scheduler.c\<close>; \<open>Scheduler\<close> has every operation of that file.  The reachable states are an
  inductive set of steps (a call by the running task, a timer tick, a switch); the invariant is proved by rule
  induction, and fairness of the round robin, exact expiry of deadlines across the wrap-around of the clock,
  the hand-over of mutexes and that no post of a semaphore is lost rest on it.

  \<^bold>\<open>Interrupts.\<close>  \<open>Irq\<close> (\<open>src/boot/irq.c\<close>, \<open>src/boot/pic.c\<close>): registration, dispatch and masking.

  \<^bold>\<open>Disks.\<close>  The locale \<open>block_device\<close> of \<open>Block_Device\<close> says what reading and writing sectors promises: a write replaces a
  prefix of the run, all of it on success, and nothing else.  It is interpreted for the ATA driver (\<open>ad\<close> in \<open>Ata\<close>,
  \<open>src/drivers/ata.c\<close>), the NVMe driver (\<open>nd\<close> in \<open>Nvme\<close>, \<open>src/drivers/nvme.c\<close>, found through \<open>Pci\<close>, \<open>src/drivers/pci.c\<close>) and for the
  layer that chooses between them (\<open>bd\<close> in \<open>Disk\<close>, \<open>src/drivers/disk.c\<close>).  The file system uses only the laws of \<open>bd\<close>.

  \<^bold>\<open>File system\<close> (\<open>src/kernel/fs.c\<close>).  \<open>Fs_Fat\<close>: super block, cached table, allocation and release of clusters.  \<open>Fs_Dir\<close>: names and
  directory slots.  \<open>Fs_File\<close>: positions, reading and writing.  \<open>Fs\<close>: mounting, formatting, the operations on
  files, migration of the old format, listing and usage.  The proofs follow in \<open>Fs_Lookup\<close> (search), \<open>Fs_Inv\<close> (the
  invariant \<open>fs_inv\<close>: chains are intact, disjoint and long enough, names are unique), \<open>Fs_Ops\<close> (create, remove,
  rename and open refine operations on a finite map, up to disk faults), \<open>Fs_Content\<close> (write, read and truncate on the
  map \<open>contents\<close> from names to bytes), \<open>Fs_Mount\<close> (mounting trusts nothing, formatting, restart), \<open>Fs_Whole\<close> (whole
  files are read back as written) and \<open>Fs_List\<close> (the listing reports every file exactly once; the usage is exact).  Every one
  of them holds whatever the disk answers.

  \<^bold>\<open>Network.\<close>  \<open>Ethernet\<close>, \<open>Ipv4\<close>, \<open>Icmp\<close>, \<open>Udp\<close>, \<open>Arp\<close>, \<open>Dns\<close> are the files of \<open>net/\<close> with these names.  The locale
  \<open>packet_layer\<close> of \<open>Packet_Layer\<close> (building, then parsing, gives the payload back) is interpreted for three of them, and \<open>layer_stack\<close>
  composes them in \<open>Net_Stack\<close>; \<open>neighbour_cache\<close> is the contract of the ARP table.  \<open>Rtl8139\<close> (\<open>src/drivers/rtl8139.c\<close>) has
  the card: the interrupt handler is safe for every content of the receive ring, and its queue is an
  interpretation of \<open>bounded_queue\<close>.  \<open>Net\<close> (\<open>src/kernel/net.c\<close>) has the receive task, address resolution, ping and name
  resolution; what happens while a task waits is a list of events.  \<open>Net_Service\<close> proves that they return,
  answer what they must and believe no answer that was not asked for: a success is a run of the step relation \<open>net_step\<close> from
  the state of the call to the state of the return in which the receive task takes the answer from the queue.

  \<^bold>\<open>Library.\<close>  \<open>Crc32\<close>, \<open>Base64\<close>, \<open>Sha1\<close>, \<open>Sha256\<close> (over the streaming part \<open>Md_Hash\<close>, a locale of its own), \<open>Lz4\<close>, \<open>Lz4hc\<close>
  (\<open>crypto/\<close>): equivalence with the definition of the function, round trips, and safety of the decompressor.

  \<^bold>\<open>Console, keyboard, installer.\<close>  \<open>Vga\<close> (\<open>src/drivers/vga.c\<close>) refines a terminal of 80 by 25 characters.  \<open>Keyboard\<close>
  (\<open>src/drivers/keyboard.c\<close>) reads what is typed on a keyboard that is given by its rows of keys.  \<open>Installer\<close> (\<open>src/kernel/installer.c\<close>) writes and verifies the factory image over the laws
  of \<open>ad\<close>.

  \<^bold>\<open>Recovery.\<close>  \<open>Power_Off\<close> (\<open>src/kernel/power.c\<close>) searches the tables of the firmware, and finds the sleep command in tables that
  follow the standard.  \<open>Recovery\<close> (\<open>src/kernel/recovery.c\<close>) is the menu as a loop over what the keyboard delivers: nothing
  on the disk changes before the confirming key, and nothing is drawn outside the screen.

  \<^bold>\<open>Shell.\<close>  \<open>Shell\<close> has the commands of \<open>src/kernel/standart.c\<close>, the interpreter of its scripts with the system call they use
  (\<open>src/kernel/syscall.c\<close>), the editor of \<open>src/kernel/kernel.c\<close>, \<open>panic.c\<close> and the speaker, over the console, the keyboard, the file
  system and the network.  A command may halt the machine or wait for ever, and both are results.  \<open>Shell_Correct\<close> follows
  a file from the command that sets it to the characters the console shows, proves that scripts do not nest, and
  what the disk test does to the disk.

  \<^bold>\<open>Bounds and fuel.\<close>  Loops with a counter in the source keep it: the time-outs and retries of the drivers, the 101 readings
  of a transmit slot, the attempts of ARP and DNS.  \<open>iter_fuel\<close> bounds the sectors one call of \<open>fs_iter_next\<close> can
  visit, and \<open>iter_loop_spec\<close> shows that it is never used up.  The loops of \<open>fs_read_all\<close> and \<open>fs_write_all\<close> get one round per byte,
  and each round moves a byte.  A turn of the receive task handles at most the \<open>QUEUE_SLOTS\<close> frames the queue
  holds.  The loops over the ring, over a compressed name, over the waiters of a queue, over the blocks of the heap and over the
  directory are partial functions that are proved to return, the one over the ring if the card reports an empty buffer at
  some time.

  Scripts are run to depth one, and \<open>execute_any_depth\<close> shows that a greater depth makes no difference.

  \<^bold>\<open>Not modelled.\<close>  The boot code in assembly, the descriptor tables and the context switch itself (\<open>src/boot/\<close>, but for
  the interrupt controller), since what they do is the processor's.  The start-up sequence and the prompt of \<open>kernel.c\<close>, the
  system calls that only pass on to the console, the scheduler or the keyboard, the
  files bundled at build time (\<open>bundle.c\<close>).  The self-test of the heap.  The receive task and the handlers of frames
  run between the checks of a waiting task and not in the middle of another task's code.  \<open>fs_read_all\<close> takes what its allocation
  returns as a parameter, and the panic of an exhausted heap is not a result of it.
\<close>

end
